(* ===== verification/Prelude.thy ===== *)
theory Prelude
  imports Main "HOL-Library.Word"
begin

text \<open>
  Shared vocabulary of the development: the machine-integer types of the C++
  runtime, the result type that stands for \<open>asn1::Expected\<close>
  (\<open>runtime/include/asn1cpp/Expected.hpp\<close>), the buffer operations of
  \<open>std::vector\<close> and \<open>memmove\<close> that the writers use, the big-endian octet loops
  that several encodings share, and the \<open>named_theorems\<close> collections the
  component proofs draw on.
\<close>

unbundle bit_operations_syntax

section \<open>Machine integers\<close>

type_synonym byte = "8 word"
type_synonym u16 = "16 word"
type_synonym u32 = "32 word"
type_synonym u64 = "64 word"

text \<open>
  A signed 64-bit C++ integer is the same \<open>64 word\<close>, read with \<^const>\<open>sint\<close>.
  \<open>std::size_t\<close> positions and counts are \<^typ>\<open>nat\<close>: they index buffers that fit
  in memory, so they do not reach \<open>2 ^ 64\<close>.
\<close>

type_synonym i64 = "64 word"

named_theorems reader_simps \<open>symbolic execution of the read cursors\<close>
named_theorems writer_simps \<open>effect of the writers on their buffers\<close>
named_theorems octet_simps \<open>big-endian octet loops\<close>

section \<open>Results\<close>

text \<open>
  \<open>DecodeError\<close> of \<open>Error.hpp\<close>: a message and a byte offset. \<open>OutOfFuel\<close> is not an
  error of the program: it marks that a recursion bound of the model was too
  small, and theorems show that the bounds in use never produce it. The other three mark
  steps at which the code does not come back with an \<open>Expected\<close>: \<open>NullDeref\<close> a null
  pointer dereferenced, \<open>OutOfBounds i\<close> a table read at the index \<open>i\<close> outside it, and
  \<open>BadAlloc n\<close> the allocation of \<open>n\<close> octets that throws \<open>std::bad_alloc\<close> or
  \<open>std::length_error\<close>, an exception that nothing catches.
\<close>

datatype decode_error =
    DecodeError string nat
  | OutOfFuel
  | NullDeref
  | OutOfBounds int
  | BadAlloc nat

type_synonym 'a result = "decode_error + 'a"

text \<open>The early return \<open>if (!x) return make_unexpected(x.error())\<close>.\<close>

fun rbind :: "'e + 'a \<Rightarrow> ('a \<Rightarrow> 'e + 'b) \<Rightarrow> 'e + 'b" where
  "rbind (Inl e) f = Inl e"
| "rbind (Inr x) f = f x"

lemma rbind_cong [fundef_cong]:
  "m = m' \<Longrightarrow> (\<And>x. m' = Inr x \<Longrightarrow> f x = g x) \<Longrightarrow> rbind m f = rbind m' g"
  by (cases m') auto

lemma rbind_eq_Inr: "rbind m f = Inr y \<longleftrightarrow> (\<exists>x. m = Inr x \<and> f x = Inr y)"
  by (cases m) auto

lemma rbind_eq_Inl: "rbind m f = Inl e \<longleftrightarrow> m = Inl e \<or> (\<exists>x. m = Inr x \<and> f x = Inl e)"
  by (cases m) auto

lemma rbind_Inr_right [simp]: "rbind m Inr = m"
  by (cases m) auto

lemma rbind_assoc: "rbind (rbind m f) g = rbind m (\<lambda>x. rbind (f x) g)"
  by (cases m) auto

fun is_ok :: "'e + 'a \<Rightarrow> bool" where
  "is_ok (Inl e) = False"
| "is_ok (Inr x) = True"

lemma is_ok_iff: "is_ok m \<longleftrightarrow> (\<exists>x. m = Inr x)"
  by (cases m) auto

lemma is_ok_rbind: "is_ok (rbind m f) \<longleftrightarrow> (\<exists>x. m = Inr x \<and> is_ok (f x))"
  by (cases m) auto

text \<open>A result that fails, if at all, with an error of the code.\<close>

fun program_error :: "decode_error \<Rightarrow> bool" where
  "program_error (DecodeError s n) = True"
| "program_error e = False"

lemma program_error_iff: "program_error e \<longleftrightarrow> (\<exists>s n. e = DecodeError s n)"
  by (cases e) auto

fun clean :: "'a result \<Rightarrow> bool" where
  "clean (Inl e) = program_error e"
| "clean (Inr x) = True"

lemma clean_iff: "clean m \<longleftrightarrow> (\<forall>e. m = Inl e \<longrightarrow> program_error e)"
  by (cases m) auto

lemma clean_rbind: "clean m \<Longrightarrow> (\<And>x. m = Inr x \<Longrightarrow> clean (f x)) \<Longrightarrow> clean (rbind m f)"
  by (cases m) auto

lemma clean_if: "(c \<Longrightarrow> clean a) \<Longrightarrow> (\<not> c \<Longrightarrow> clean b) \<Longrightarrow> clean (if c then a else b)"
  by simp

lemma clean_Inl: "clean m \<Longrightarrow> m = Inl e \<Longrightarrow> \<exists>s n. e = DecodeError s n"
  by (cases e) auto

section \<open>Text\<close>

text \<open>\<open>std::to_string\<close> and the \<open>{}\<close> holes of \<open>std::format\<close> on non-negative numbers.\<close>

fun to_string :: "nat \<Rightarrow> string" where
  "to_string n =
     (if n < 10 then [char_of (48 + n)] else to_string (n div 10) @ [char_of (48 + n mod 10)])"

declare to_string.simps [simp del]

section \<open>Buffer operations\<close>

text \<open>
  \<open>std::vector\<close>: \<open>resize\<close> (new elements are 0), \<open>insert\<close> of \<open>k\<close> copies before
  position \<open>p\<close>; \<open>memcpy\<close> and \<open>memmove\<close> within the buffer.
\<close>

definition vec_resize :: "nat \<Rightarrow> byte list \<Rightarrow> byte list" where
  "vec_resize n xs = take n xs @ replicate (n - length xs) 0"

definition vec_insert :: "nat \<Rightarrow> nat \<Rightarrow> byte list \<Rightarrow> byte list" where
  "vec_insert p k xs = take p xs @ replicate k 0 @ drop p xs"

definition memcpy_at :: "nat \<Rightarrow> byte list \<Rightarrow> byte list \<Rightarrow> byte list" where
  "memcpy_at p ys xs = take p xs @ ys @ drop (p + length ys) xs"

definition memmove_at :: "nat \<Rightarrow> nat \<Rightarrow> nat \<Rightarrow> byte list \<Rightarrow> byte list" where
  "memmove_at d s n xs = memcpy_at d (take n (drop s xs)) xs"

lemma length_vec_resize [simp]: "length (vec_resize n xs) = n"
  by (simp add: vec_resize_def)

lemma length_memcpy_at [simp]: "p + length ys \<le> length xs \<Longrightarrow> length (memcpy_at p ys xs) = length xs"
  by (simp add: memcpy_at_def)

text \<open>The reserve-and-patch pattern: a hole of \<open>k\<close> octets between a prefix and content.\<close>

lemma vec_resize_grow: "vec_resize (length xs + k) xs = xs @ replicate k 0"
  by (simp add: vec_resize_def)

lemma vec_resize_shrink: "n \<le> length xs \<Longrightarrow> vec_resize n xs = take n xs"
  by (simp add: vec_resize_def)

lemma length_memmove_at [simp]:
  "d + n \<le> length xs \<Longrightarrow> s + n \<le> length xs \<Longrightarrow> length (memmove_at d s n xs) = length xs"
  by (simp add: memmove_at_def)

lemma memmove_close_gap:
  assumes "length hole = k" "d \<le> k"
  shows "vec_resize (length pre + (k - d) + length c)
           (memmove_at (length pre + (k - d)) (length pre + k) (length c) (pre @ hole @ c))
       = pre @ take (k - d) hole @ c"
proof -
  have "length pre + (k - d) + length c
      \<le> length (memmove_at (length pre + (k - d)) (length pre + k) (length c) (pre @ hole @ c))"
    using assms by (subst length_memmove_at) auto
  then show ?thesis
    using assms by (simp add: vec_resize_shrink memmove_at_def memcpy_at_def)
qed

text \<open>A suffix starts with the slice up to a later position.\<close>

lemma drop_slice: "p \<le> q \<Longrightarrow> drop p xs = take (q - p) (drop p xs) @ drop q xs"
  by (metis append_take_drop_id drop_drop le_add_diff_inverse2)

section \<open>Big-endian octet loops\<close>

text \<open>
  \<open>while (n) { tmp[i++] = n & 0xFF; n >>= 8; }\<close>: the octets of \<open>n\<close>, least
  significant first, none for 0.
\<close>

fun octets_le :: "nat \<Rightarrow> byte list" where
  "octets_le n = (if n = 0 then [] else of_nat (n mod 256) # octets_le (n div 256))"

declare octets_le.simps [simp del]

text \<open>\<open>v = (v << 8) | b\<close> over octets, as a natural number.\<close>

definition be_value :: "byte list \<Rightarrow> nat" where
  "be_value bs = foldl (\<lambda>v b. v * 256 + unat b) 0 bs"

lemma octets_le_0 [simp]: "octets_le 0 = []"
  by (simp add: octets_le.simps)

lemma octets_le_eq_Nil [simp]: "octets_le n = [] \<longleftrightarrow> n = 0"
  by (subst octets_le.simps) simp

lemma be_value_append: "be_value (xs @ [b]) = be_value xs * 256 + unat b"
  by (simp add: be_value_def)

lemma be_value_Nil [simp]: "be_value [] = 0"
  by (simp add: be_value_def)

lemma be_value_octets_le [simp]: "be_value (rev (octets_le n)) = n"
proof (induction n rule: octets_le.induct)
  case (1 n)
  then show ?case
    by (subst octets_le.simps) (auto simp: be_value_append unat_of_nat)
qed

lemma length_octets_le: "n < 256 ^ k \<Longrightarrow> length (octets_le n) \<le> k"
proof (induction k arbitrary: n)
  case 0
  then show ?case by simp
next
  case (Suc k)
  then have "n div 256 < 256 ^ k" by (simp add: less_mult_imp_div_less mult.commute)
  then have "length (octets_le (n div 256)) \<le> k" by (rule Suc.IH)
  then show ?case by (subst octets_le.simps) simp
qed

lemma length_octets_le_64: "n < 2 ^ 64 \<Longrightarrow> length (octets_le n) \<le> 8"
  by (rule length_octets_le) simp

section \<open>Bits of octets\<close>

lemma unat_byte_less [simp]: "unat (b :: byte) < 256"
  by (rule less_le_trans [OF unsigned_less]) simp

lemma odd_div_128: "n < 256 \<Longrightarrow> odd (n div 128) \<longleftrightarrow> 128 \<le> (n :: nat)"
proof (cases "n < 128")
  case False
  assume "n < 256"
  with False have "n div 128 = 1" by (intro div_nat_eqI) auto
  with False show ?thesis by simp
qed simp

lemma bit_byte_7_iff: "bit (b :: byte) 7 \<longleftrightarrow> 128 \<le> unat b"
proof -
  have "bit b 7 \<longleftrightarrow> bit (unat b) 7" by (simp add: bit_unsigned_iff)
  also have "\<dots> \<longleftrightarrow> odd (unat b div 128)" by (simp add: bit_iff_odd)
  finally show ?thesis by (simp add: odd_div_128)
qed

lemma and_0x80_eq_0 [octet_simps]: "(b :: byte) AND 0x80 = 0 \<longleftrightarrow> unat b < 128"
  using and_exp_eq_0_iff_not_bit [of b 7] by (simp add: bit_byte_7_iff not_le)

lemma unat_and_0x7F [octet_simps]: "unat ((b :: byte) AND 0x7F) = unat b mod 128"
proof -
  have "b AND 0x7F = take_bit 7 b" by (simp only: take_bit_eq_mask mask_eq_exp_minus_1) simp
  then show ?thesis by (simp add: take_bit_eq_mod unat_mod_distrib)
qed

text \<open>One step of \<open>v = (v << 8) | b\<close> and \<open>v = (v << 7) | (b & 0x7F)\<close> on a machine word.\<close>

lemma shift8_or [octet_simps]:
  fixes v :: "'a::len word" and b :: byte
  shows "push_bit 8 v OR ucast b = v * 256 + of_nat (unat b)"
proof -
  have "push_bit 8 v AND ucast b = 0"
    by (rule bit_eqI) (auto simp: bit_simps dest: bit_imp_le_length)
  then have "push_bit 8 v OR ucast b = push_bit 8 v + ucast b"
    by (simp add: disjunctive_add_eq_or)
  then show ?thesis
    by (simp add: push_bit_eq_mult)
qed

lemma shift7_or [octet_simps]:
  fixes v :: "'a::len word" and b :: byte
  shows "push_bit 7 v OR ucast (b AND 0x7F) = v * 128 + of_nat (unat b mod 128)"
proof -
  have m: "b AND 0x7F = take_bit 7 b" by (simp only: take_bit_eq_mask mask_eq_exp_minus_1) simp
  have "push_bit 7 v AND ucast (b AND 0x7F) = 0"
    unfolding m by (rule bit_eqI) (auto simp: bit_simps)
  then have "push_bit 7 v OR ucast (b AND 0x7F) = push_bit 7 v + ucast (b AND 0x7F)"
    by (simp add: disjunctive_add_eq_or)
  moreover have "ucast (b AND 0x7F) = (of_nat (unat b mod 128) :: 'a word)"
    by (simp flip: unat_and_0x7F)
  ultimately show ?thesis
    by (simp add: push_bit_eq_mult)
qed

lemma unat_or_0x80 [octet_simps]: "unat (x :: byte) < 128 \<Longrightarrow> unat (x OR 0x80) = unat x + 128"
proof -
  assume x: "unat x < 128"
  then have "x AND 0x80 = 0" by (simp only: and_0x80_eq_0)
  then have "x OR 0x80 = x + 0x80" by (rule disjunctive_add_eq_or [symmetric])
  with x show ?thesis by (simp add: unat_word_ariths)
qed

text \<open>An octet of at most five significant bits.\<close>

lemma low5_octet [octet_simps]:
  assumes "unat (b :: byte) < 32"
  shows "b AND 0x1F = b" "b AND 0x20 = 0" "drop_bit 6 b = 0"
proof -
  have t: "take_bit 5 b = b"
    using assms by (simp add: take_bit_eq_mod word_unat_eq_iff unat_mod_distrib)
  then show "b AND 0x1F = b" by (simp only: take_bit_eq_mask mask_eq_exp_minus_1) simp
  have nb: "\<not> bit b n" if "5 \<le> n" for n
    using that t by (metis bit_take_bit_iff not_le)
  then show "b AND 0x20 = 0" using and_exp_eq_0_iff_not_bit [of b 5] by simp
  show "drop_bit 6 b = 0" by (rule bit_eqI) (simp add: bit_simps nb)
qed

end
