(* ===== verification/Asn1_Constraints.thy ===== *)
theory Asn1_Constraints
  imports Asn1_Tag
begin

text \<open>
  The constraint metadata of a type (\<open>runtime/include/asn1cpp/codec/Constraints.hpp\<close>)
  and the canonical alphabets (\<open>codec/Alphabets.hpp\<close>). Left out of the record: the
  128-bit bounds, which no code reads, and the REAL bounds, which are floating point.
\<close>

unbundle bit_operations_syntax

abbreviation CONSTRAINED :: u32 where "CONSTRAINED \<equiv> 1"
abbreviation SEMI_CONSTRAINED :: u32 where "SEMI_CONSTRAINED \<equiv> 2"
abbreviation EXTENSIBLE :: u32 where "EXTENSIBLE \<equiv> 4"
abbreviation SIZE_CONSTRAINED :: u32 where "SIZE_CONSTRAINED \<equiv> 8"
abbreviation NAMED_BITS :: u32 where "NAMED_BITS \<equiv> 16"
abbreviation PER_SIZE_INVISIBLE :: u32 where "PER_SIZE_INVISIBLE \<equiv> 512"
abbreviation SIZE_LOWER_BOUND :: u32 where "SIZE_LOWER_BOUND \<equiv> 1024"

datatype int_kind = INT_S64 | INT_U64 | INT_I128 | INT_ARBITRARY

text \<open>
  Integer bounds keep their 64-bit width, because the code subtracts them. Size
  bounds are compared with and subtracted from container sizes only.
\<close>

record constraints =
  c_flags :: u32
  range_bits :: nat
  c_int_kind :: int_kind
  lower_bound :: i64
  upper_bound :: i64
  lower_u64 :: u64
  upper_u64 :: u64
  size_range_bits :: nat
  size_lower :: int
  size_upper :: int
  alphabet_bits :: nat
  alphabet :: "byte list"
  encode_table :: "u16 list option"

definition no_constraints :: constraints where
  "no_constraints = \<lparr>c_flags = 0, range_bits = 0, c_int_kind = INT_S64, lower_bound = 0, upper_bound = 0,
     lower_u64 = 0, upper_u64 = 0, size_range_bits = 0, size_lower = 0, size_upper = 0,
     alphabet_bits = 0, alphabet = [], encode_table = None\<rparr>"

text \<open>\<open>c.flags & F\<close>.\<close>

definition has_flag :: "constraints \<Rightarrow> u32 \<Rightarrow> bool" where
  "has_flag c f \<longleftrightarrow> c_flags c AND f \<noteq> 0"

section \<open>Alphabets\<close>

definition ascii :: "string \<Rightarrow> byte list" where
  "ascii s = map (\<lambda>c. of_nat (of_char c)) s"

definition PRINTABLE_STRING_ALPHABET :: "byte list" where
  "PRINTABLE_STRING_ALPHABET = ascii (CHR '' '' # CHR 0x27 # ''()+,-./0123456789:=?ABCDEFGHIJKLMNOPQRSTUVWXYZabcdefghijklmnopqrstuvwxyz'')"

definition NUMERIC_STRING_ALPHABET :: "byte list" where
  "NUMERIC_STRING_ALPHABET = ascii ''0123456789 ''"

definition VISIBLE_STRING_ALPHABET :: "byte list" where
  "VISIBLE_STRING_ALPHABET = map of_nat [32..<127]"

text \<open>\<open>builtin_alphabet\<close>: empty where any octet is legal.\<close>

definition builtin_alphabet :: "u32 \<Rightarrow> byte list" where
  "builtin_alphabet universal_tag =
     (if universal_tag = UT_NumericString then NUMERIC_STRING_ALPHABET
      else if universal_tag = UT_PrintableString then PRINTABLE_STRING_ALPHABET
      else if universal_tag = UT_VisibleString \<or> universal_tag = UT_Ia5String then VISIBLE_STRING_ALPHABET
      else [])"

end
