(* ===== verification/Char_Strings.thy ===== *)
theory Char_Strings
  imports Asn1_Constraints
begin

text \<open>
  The character strings (\<open>runtime/include/asn1cpp/types/Strings.hpp\<close>): iteration over the
  code points of a stored value, its length in characters and its validation. The
  stored value is the octet list of the string type's own encoding.
\<close>

unbundle bit_operations_syntax

section \<open>Code points\<close>

text \<open>One unit of \<open>w\<close> octets, big-endian.\<close>

definition wide_unit :: "byte list \<Rightarrow> u32" where
  "wide_unit bs = foldl (\<lambda>cp b. push_bit 8 cp OR ucast b) 0 bs"

function wide_points :: "nat \<Rightarrow> byte list \<Rightarrow> nat \<Rightarrow> u32 list" where
  "wide_points w s i =
     (if 0 < w \<and> i + w \<le> length s then wide_unit (take w (drop i s)) # wide_points w s (i + w)
      else [])"
  by pat_completeness auto
termination by (relation "measure (\<lambda>(w, s, i). length s - i)") auto

declare wide_points.simps [simp del]

text \<open>The length of the UTF-8 sequence at \<open>i\<close>: 1 when it is malformed.\<close>

definition utf8_lead_len :: "byte \<Rightarrow> nat" where
  "utf8_lead_len lead =
     (if lead < 0x80 then 1
      else if drop_bit 5 lead = 0x6 then 2
      else if drop_bit 4 lead = 0xE then 3
      else if drop_bit 3 lead = 0x1E then 4
      else 1)"

definition utf8_len :: "byte list \<Rightarrow> nat \<Rightarrow> nat" where
  "utf8_len s i =
     (let len = utf8_lead_len (s ! i);
          len = (if length s < i + len then 1 else len)
      in if list_ex (\<lambda>b. (s ! (i + b)) AND 0xC0 \<noteq> 0x80) [1..<len] then 1 else len)"

definition utf8_point :: "byte list \<Rightarrow> nat \<Rightarrow> u32" where
  "utf8_point s i =
     (let lead = s ! i; len = utf8_len s i;
          cp = (if len = 1 then ucast lead else ucast (lead AND drop_bit len 0x7F))
      in foldl (\<lambda>cp b. push_bit 6 cp OR ucast ((s ! (i + b)) AND 0x3F)) cp [1..<len])"

lemma utf8_lead_len_pos [simp]: "0 < utf8_lead_len b"
  by (simp add: utf8_lead_len_def)

lemma utf8_len_pos [simp]: "0 < utf8_len s i"
  by (simp add: utf8_len_def Let_def)

function utf8_points :: "byte list \<Rightarrow> nat \<Rightarrow> u32 list" where
  "utf8_points s i =
     (if i < length s then utf8_point s i # utf8_points s (i + utf8_len s i) else [])"
  by pat_completeness auto
termination
  by (relation "measure (\<lambda>(s, i). length s - i)") (simp_all add: diff_less_mono2)

declare utf8_points.simps [simp del]

text \<open>\<open>for_each_code_point\<close>: the code points in the order the callback gets them.\<close>

definition code_points :: "u32 \<Rightarrow> byte list \<Rightarrow> u32 list" where
  "code_points tag s =
     (if tag = UT_BmpString \<or> tag = UT_UniversalString then
        wide_points (if tag = UT_BmpString then 2 else 4) s 0
      else if tag = UT_Utf8String then utf8_points s 0
      else map ucast s)"

definition string_char_count :: "u32 \<Rightarrow> byte list \<Rightarrow> nat" where
  "string_char_count tag s =
     (if tag \<noteq> UT_BmpString \<and> tag \<noteq> UT_UniversalString \<and> tag \<noteq> UT_Utf8String then length s
      else foldl (\<lambda>count _. count + 1) 0 (code_points tag s))"

text \<open>\<open>AsnString<TagNumber>::validate\<close>.\<close>

definition string_validate :: "u32 \<Rightarrow> constraints \<Rightarrow> byte list \<Rightarrow> int" where
  "string_validate tag c s =
     (let sized = (\<not> has_flag c EXTENSIBLE \<and> (has_flag c SIZE_CONSTRAINED \<or> has_flag c SIZE_LOWER_BOUND));
          n = int (string_char_count tag s);
          alpha = (case encode_table c of
              None \<Rightarrow> 0
            | Some t \<Rightarrow>
                if list_ex (\<lambda>cp. 0xFF < cp \<or> t ! unat cp = 0xFFFF) (code_points tag s) then 1 else 0)
      in
      if sized \<and> n < size_lower c then size_lower c - n
      else if sized \<and> has_flag c SIZE_CONSTRAINED \<and> n > size_upper c then size_upper c - n
      else alpha)"

section \<open>Facts\<close>

lemma foldl_count: "foldl (\<lambda>count _. Suc count) n xs = n + length xs"
  by (induction xs arbitrary: n) simp_all

lemma string_char_count_eq: "string_char_count tag s = length (code_points tag s)"
  by (simp add: string_char_count_def foldl_count code_points_def)

lemma length_wide_points: "0 < w \<Longrightarrow> length (wide_points w s i) = (length s - i) div w"
proof (induction w s i rule: wide_points.induct)
  case (1 w s i)
  show ?case
  proof (cases "i + w \<le> length s")
    case True
    then have "(length s - i) div w = Suc ((length s - (i + w)) div w)"
      using 1(2) le_div_geq [of w "length s - i"] by (simp add: diff_diff_add)
    with 1 True show ?thesis by (simp add: wide_points.simps [of w s i])
  next
    case False
    with 1(2) have "length s - i < w" by linarith
    with False show ?thesis by (simp add: wide_points.simps [of w s i])
  qed
qed

lemma length_utf8_points: "length (utf8_points s i) \<le> length s - i"
proof (induction s i rule: utf8_points.induct)
  case (1 s i)
  show ?case
  proof (cases "i < length s")
    case True
    have "length s - (i + utf8_len s i) < length s - i" using True by (simp add: diff_less_mono2)
    with 1 [OF True] True show ?thesis by (simp add: utf8_points.simps [of s i])
  qed (simp add: utf8_points.simps)
qed

text \<open>
  The character count of a string is the number of code points its iteration
  visits: octets for the one-octet types, half and a quarter of the octets for
  BMPString and UniversalString (an incomplete last unit is no character), and at
  most the octets for UTF8String.
\<close>

theorem string_char_count_correct:
  "string_char_count tag s = length (code_points tag s)
   \<and> string_char_count UT_BmpString s = length s div 2
   \<and> string_char_count UT_UniversalString s = length s div 4
   \<and> string_char_count UT_Utf8String s \<le> length s"
  using length_utf8_points [of s 0]
  by (simp add: string_char_count_eq) (simp add: code_points_def length_wide_points)

end
