(* ===== verification/Ber_Writer.thy ===== *)
theory Ber_Writer
  imports Asn1_Tag
begin

text \<open>
  \<open>BerWriter\<close> (\<open>runtime/include/asn1cpp/codec/BerWriter.hpp\<close>): the growing output
  buffer of the BER encoder. Every operation is a function on the writer's
  state. \<open>write_constructed\<close> is modelled with its reserve-and-patch buffer moves;
  the lemmas reduce it, \<open>replace_at\<close> and \<open>write_primitive\<close> to plain
  concatenation of identifier, length and contents octets.
\<close>

unbundle bit_operations_syntax

text \<open>
  The \<open>contained_\<close> pointer of the class is not part of the state here: contained
  fields are outside the model.
\<close>

record ber_writer =
  bw_buf :: "byte list"
  bw_failed :: bool

definition new_writer :: ber_writer where
  "new_writer = \<lparr>bw_buf = [], bw_failed = False\<rparr>"

definition push_back :: "byte \<Rightarrow> ber_writer \<Rightarrow> ber_writer" where
  "push_back b w = w\<lparr>bw_buf := bw_buf w @ [b]\<rparr>"

definition append_bytes :: "byte list \<Rightarrow> ber_writer \<Rightarrow> ber_writer" where
  "append_bytes xs w = w\<lparr>bw_buf := bw_buf w @ xs\<rparr>"

definition set_encode_failed :: "ber_writer \<Rightarrow> ber_writer" where
  "set_encode_failed w = w\<lparr>bw_failed := True\<rparr>"

definition writer_pos :: "ber_writer \<Rightarrow> nat" where
  "writer_pos w = length (bw_buf w)"

definition writer_at :: "nat \<Rightarrow> ber_writer \<Rightarrow> byte" where
  "writer_at i w = bw_buf w ! i"

section \<open>Identifier octets\<close>

definition first_tag_octet :: "tag \<Rightarrow> byte" where
  "first_tag_octet t = push_bit 6 (tag_class_code (cls t)) OR (if constructed t then 0x20 else 0)"

definition write_tag :: "tag \<Rightarrow> ber_writer \<Rightarrow> ber_writer" where
  "write_tag t w =
     (let first = first_tag_octet t in
      if number t < 31 then push_back (first OR ucast (number t)) w
      else
        let w = push_back (first OR 0x1F) w;
            tmp = base128_le (unat (number t))
        in push_back (hd tmp) (foldl (\<lambda>w b. push_back (b OR 0x80) w) w (rev (tl tmp))))"

text \<open>\<open>encode_tag_to_buf\<close> of \<open>BerCodec.cpp\<close>: the same octets in a stack buffer.\<close>

definition encode_tag_to_buf :: "tag \<Rightarrow> byte list" where
  "encode_tag_to_buf t =
     (let first = first_tag_octet t in
      if number t < 31 then [first OR ucast (number t)]
      else
        let tmp = base128_le (unat (number t)); i = length tmp
        in (first OR 0x1F) #
           map (\<lambda>k. let j = i - 1 - k in (tmp ! j) OR (if j \<noteq> 0 then 0x80 else 0)) [0..<i])"

section \<open>Length octets\<close>

definition write_length :: "nat \<Rightarrow> ber_writer \<Rightarrow> ber_writer" where
  "write_length len w =
     (if len < 128 then push_back (of_nat len) w
      else
        let tmp = octets_le len;
            w = push_back (0x80 OR of_nat (length tmp)) w
        in foldl (\<lambda>w b. push_back b w) w (rev tmp))"

section \<open>Patching\<close>

definition replace_at :: "nat \<Rightarrow> nat \<Rightarrow> byte list \<Rightarrow> ber_writer \<Rightarrow> ber_writer" where
  "replace_at p old_n new_data w =
     (let buf = bw_buf w; new_n = length new_data in
      if old_n = new_n then w\<lparr>bw_buf := memcpy_at p new_data buf\<rparr>
      else if new_n < old_n then
        let tail = length buf - p - old_n;
            buf = memcpy_at p new_data buf;
            buf = memmove_at (p + new_n) (p + old_n) tail buf
        in w\<lparr>bw_buf := vec_resize (length buf - (old_n - new_n)) buf\<rparr>
      else
        w\<lparr>bw_buf := memcpy_at p new_data (vec_insert (p + old_n) (new_n - old_n) buf)\<rparr>)"

definition write_primitive :: "tag \<Rightarrow> byte list \<Rightarrow> ber_writer \<Rightarrow> ber_writer" where
  "write_primitive t v w = append_bytes v (write_length (length v) (write_tag t w))"

text \<open>
  \<open>write_constructed\<close>: three octets are reserved for the length, \<open>fn\<close> appends the
  contents, and the length is patched in its shortest definite form. \<open>fn\<close> may
  only append (the \<open>assert\<close> of the code).
\<close>

definition write_constructed :: "tag \<Rightarrow> (ber_writer \<Rightarrow> ber_writer) \<Rightarrow> ber_writer \<Rightarrow> ber_writer" where
  "write_constructed t fn w =
     (let w = write_tag t w;
          len_pos = length (bw_buf w);
          w = w\<lparr>bw_buf := vec_resize (len_pos + 3) (bw_buf w)\<rparr>;
          content_start = length (bw_buf w);
          w = fn w;
          buf = bw_buf w;
          content_size = length buf - content_start
      in
      if content_size < 128 then
        let buf = (if content_size > 0
                   then memmove_at (content_start - 2) content_start content_size buf else buf);
            buf = vec_resize (len_pos + 1 + content_size) buf
        in w\<lparr>bw_buf := buf[len_pos := of_nat content_size]\<rparr>
      else if content_size < 256 then
        let buf = memmove_at (content_start - 1) content_start content_size buf;
            buf = vec_resize (len_pos + 2 + content_size) buf
        in w\<lparr>bw_buf := buf[len_pos := 0x81, len_pos + 1 := of_nat content_size]\<rparr>
      else if content_size < 65536 then
        w\<lparr>bw_buf := buf[len_pos := 0x82, len_pos + 1 := of_nat (content_size div 256),
                       len_pos + 2 := of_nat content_size]\<rparr>
      else
        let n = length (octets_le content_size);
            buf = vec_insert content_start (n - 2) buf;
            buf = buf[len_pos := 0x80 OR of_nat n]
        in w\<lparr>bw_buf := foldl (\<lambda>buf i. buf[len_pos + 1 + i :=
                                of_nat (content_size div 256 ^ (n - 1 - i))]) buf [0..<n]\<rparr>)"

section \<open>Lemmas: the writer appends octets\<close>

text \<open>Reference definitions of the identifier and length octets (X.690 8.1.2, 8.1.3).\<close>

definition tag_octets :: "tag \<Rightarrow> byte list" where
  "tag_octets t =
     (if number t < 31 then [first_tag_octet t OR ucast (number t)]
      else (first_tag_octet t OR 0x1F) # base128_octets (unat (number t)))"

definition length_octets :: "nat \<Rightarrow> byte list" where
  "length_octets len =
     (if len < 128 then [of_nat len]
      else (0x80 OR of_nat (length (octets_le len))) # rev (octets_le len))"

definition tlv_octets :: "tag \<Rightarrow> byte list \<Rightarrow> byte list" where
  "tlv_octets t v = tag_octets t @ length_octets (length v) @ v"

lemma foldl_push_back:
  "foldl (\<lambda>w b. push_back (f b) w) w xs = w\<lparr>bw_buf := bw_buf w @ map f xs\<rparr>"
  by (induction xs arbitrary: w) (simp_all add: push_back_def)

lemma write_tag_eq [writer_simps]: "write_tag t w = w\<lparr>bw_buf := bw_buf w @ tag_octets t\<rparr>"
  by (simp add: write_tag_def tag_octets_def base128_octets_def Let_def foldl_push_back)
     (simp add: push_back_def)

lemma write_length_eq [writer_simps]:
  "write_length n w = w\<lparr>bw_buf := bw_buf w @ length_octets n\<rparr>"
  using foldl_push_back [of "\<lambda>b. b"]
  by (simp add: write_length_def length_octets_def Let_def push_back_def)

lemma write_primitive_eq [writer_simps]:
  "write_primitive t v w = w\<lparr>bw_buf := bw_buf w @ tlv_octets t v\<rparr>"
  by (simp add: write_primitive_def append_bytes_def tlv_octets_def writer_simps)

lemma base128_octets_nth:
  "base128_octets n =
     map (\<lambda>k. let j = length (base128_le n) - 1 - k in
            (base128_le n ! j) OR (if j \<noteq> 0 then 0x80 else 0)) [0..<length (base128_le n)]"
proof -
  obtain x xs where x: "base128_le n = x # xs" by (cases "base128_le n") (simp_all add: base128_le.simps [of n])
  show ?thesis
    by (rule nth_equalityI)
       (auto simp: x base128_octets_def Let_def nth_append rev_nth nth_Cons' less_Suc_eq)
qed

lemma encode_tag_to_buf_eq [writer_simps]: "encode_tag_to_buf t = tag_octets t"
  by (simp add: encode_tag_to_buf_def tag_octets_def base128_octets_nth Let_def)

text \<open>\<open>replace_at\<close> splices, whether the new octets are as many, fewer or more.\<close>

lemma replace_at_eq [writer_simps]:
  assumes "p + old_n \<le> length (bw_buf w)"
  shows "replace_at p old_n d w =
    w\<lparr>bw_buf := take p (bw_buf w) @ d @ drop (p + old_n) (bw_buf w)\<rparr>"
proof -
  obtain pre old post where b: "bw_buf w = pre @ old @ post" "length pre = p" "length old = old_n"
    using assms that [of "take p (bw_buf w)" "take old_n (drop p (bw_buf w))" "drop (p + old_n) (bw_buf w)"]
    by (simp add: add.commute) (metis append_take_drop_id drop_drop add.commute)
  consider "old_n = length d" | "length d < old_n" | "old_n < length d" by linarith
  then show ?thesis
  proof cases
    case 1
    then show ?thesis using b by (simp add: replace_at_def memcpy_at_def)
  next
    case 2
    have "vec_resize (length pre + length d + length post)
        (memmove_at (length pre + length d) (length pre + length old) (length post)
          ((pre @ d) @ drop (length d) old @ post)) = (pre @ d) @ post"
      using memmove_close_gap [of "drop (length d) old" "old_n - length d" "old_n - length d" "pre @ d" post] 2 b
      by simp
    with 2 b show ?thesis by (simp add: replace_at_def memcpy_at_def Let_def add_ac)
  next
    case 3
    with b show ?thesis by (simp add: replace_at_def memcpy_at_def vec_insert_def)
  qed
qed

text \<open>Back-filling a hole octet by octet.\<close>

lemma foldl_update_hole:
  "length hole = n \<Longrightarrow>
   foldl (\<lambda>buf i. buf[length pre + i := f i]) (pre @ hole @ post) [0..<n] = pre @ map f [0..<n] @ post"
proof (induction n arbitrary: hole post)
  case 0
  then show ?case by simp
next
  case (Suc n)
  then obtain h x where h: "hole = h @ [x]" "length h = n" by (cases hole rule: rev_cases) auto
  with Suc.IH [of h "x # post"] show ?case
    by (simp add: list_update_append)
qed

lemma of_nat_mod_256 [simp]: "(of_nat (n mod 256) :: byte) = of_nat n"
  by (simp add: word_of_nat_eq_iff take_bit_eq_mod)

lemma octets_le_nth: "i < length (octets_le n) \<Longrightarrow> octets_le n ! i = of_nat (n div 256 ^ i)"
proof (induction n arbitrary: i rule: octets_le.induct)
  case (1 n)
  show ?case
  proof (cases i)
    case 0
    with 1(2) show ?thesis by (subst octets_le.simps) (auto simp: octets_le.simps [of n])
  next
    case (Suc j)
    with 1(2) have "n \<noteq> 0" "j < length (octets_le (n div 256))"
      by (auto simp: octets_le.simps [of n] split: if_splits)
    with 1(1) Suc show ?thesis by (simp add: octets_le.simps [of n] div_mult2_eq)
  qed
qed

lemma octets_le_rev_map:
  "map (\<lambda>i. of_nat (n div 256 ^ (length (octets_le n) - Suc i))) [0..<length (octets_le n)]
   = rev (octets_le n)"
  by (rule nth_equalityI) (simp_all add: rev_nth octets_le_nth)

lemma octets_le_1: "0 < n \<Longrightarrow> n < 256 \<Longrightarrow> octets_le n = [of_nat n]"
  by (simp add: octets_le.simps [of n])

lemma octets_le_2: "256 \<le> n \<Longrightarrow> n < 65536 \<Longrightarrow> octets_le n = [of_nat n, of_nat (n div 256)]"
  by (simp add: octets_le.simps [of n] octets_le_1 div_greater_zero_iff less_mult_imp_div_less)

lemma octets_le_ge3: "65536 \<le> n \<Longrightarrow> 3 \<le> length (octets_le n)"
proof -
  assume n: "65536 \<le> n"
  then have "0 < n div 256" "0 < n div 256 div 256" by (simp_all add: div_greater_zero_iff)
  with n show ?thesis
    by (simp add: octets_le.simps [of n] octets_le.simps [of "n div 256"]
        octets_le.simps [of "n div 256 div 256"])
qed

text \<open>The reserve-and-patch writer produces exactly tag, shortest length, contents.\<close>

lemma write_constructed_core:
  fixes pre c :: "byte list"
  assumes wt: "write_tag t w = w\<lparr>bw_buf := pre\<rparr>"
    and fn: "fn (w\<lparr>bw_buf := pre @ [0, 0, 0]\<rparr>) = w\<lparr>bw_buf := pre @ [0, 0, 0] @ c, bw_failed := f\<rparr>"
  shows "write_constructed t fn w = w\<lparr>bw_buf := pre @ length_octets (length c) @ c, bw_failed := f\<rparr>"
proof -
  let ?n = "length c"
  have gap: "vec_resize (length pre + k + ?n)
      (memmove_at (length pre + k) (length pre + 3) ?n (pre @ [0, 0, 0] @ c)) = pre @ take k [0, 0, 0] @ c"
    if "k \<le> 3" for k
    using memmove_close_gap [of "[0, 0, 0]" 3 "3 - k" pre c] that by simp
  have gap1: "vec_resize (Suc (length pre + ?n))
      (memmove_at (Suc (length pre)) (Suc (Suc (Suc (length pre)))) ?n (pre @ 0 # 0 # 0 # c)) = pre @ 0 # c"
    using gap [of 1] by (simp add: numeral_3_eq_3)
  have gap2: "vec_resize (Suc (Suc (length pre + ?n)))
      (memmove_at (Suc (Suc (length pre))) (Suc (Suc (Suc (length pre)))) ?n (pre @ 0 # 0 # 0 # c))
      = pre @ 0 # 0 # c"
    using gap [of 2] by (simp add: numeral_3_eq_3)
  have grow: "vec_resize (length pre + 3) pre = pre @ [0, 0, 0]"
    using vec_resize_grow [of pre 3] by (simp add: numeral_3_eq_3)
  have shrink: "vec_resize (Suc (length pre)) (pre @ [0, 0, 0]) = pre @ [0]"
    by (simp add: vec_resize_shrink)
  note unf = write_constructed_def wt grow fn Let_def length_octets_def
  consider "?n = 0" | "0 < ?n" "?n < 128" | "128 \<le> ?n" "?n < 256" | "256 \<le> ?n" "?n < 65536" | "65536 \<le> ?n"
    by linarith
  then show ?thesis
  proof cases
    case 1
    then show ?thesis using fn by (simp add: unf shrink)
  next
    case 2
    then show ?thesis using gap1 by (simp add: unf)
  next
    case 3
    then have "c \<noteq> []" by auto
    with 3 show ?thesis using gap2 by (simp add: unf octets_le_1 list_update_append)
  next
    case 4
    then show ?thesis by (simp add: unf octets_le_2 list_update_append)
  next
    case 5
    let ?k = "length (octets_le ?n)"
    have "3 \<le> ?k" using 5 by (rule octets_le_ge3)
    then have "?k = Suc (Suc (?k - 2))" by simp
    then obtain j where j: "?k = Suc (Suc j)" by blast
    have ins: "vec_insert (Suc (Suc (Suc (length pre)))) (?k - 2) (pre @ 0 # 0 # 0 # c)
        = (pre @ [0]) @ replicate ?k 0 @ c"
      by (simp add: vec_insert_def j)
    from 5 show ?thesis
      using foldl_update_hole [of "replicate ?k 0" ?k "pre @ [0x80 OR of_nat ?k]"
          "\<lambda>i. of_nat (?n div 256 ^ (?k - 1 - i))" c]
      by (simp add: unf ins octets_le_rev_map)
  qed
qed

lemma write_constructed_eq:
  assumes "fn (w\<lparr>bw_buf := bw_buf w @ tag_octets t @ [0, 0, 0]\<rparr>)
    = w\<lparr>bw_buf := bw_buf w @ tag_octets t @ [0, 0, 0] @ c, bw_failed := f\<rparr>"
  shows "write_constructed t fn w = w\<lparr>bw_buf := bw_buf w @ tlv_octets t c, bw_failed := f\<rparr>"
  using write_constructed_core [where pre = "bw_buf w @ tag_octets t"] assms
  by (simp add: writer_simps tlv_octets_def)

end
