(* ===== verification/Ber_Reader.thy ===== *)
theory Ber_Reader
  imports Ber_Writer
begin

text \<open>
  \<open>BerReader\<close> (\<open>runtime/include/asn1cpp/codec/BerReader.hpp\<close>): a cursor over a
  read-only byte span. Every operation returns either an error or its value
  and the advanced reader. The lemmas show that the cursor stays inside the
  span and always advances, that the inlined fast path of \<open>read_tlv\<close> agrees with
  the general path, that reading inverts \<open>BerWriter\<close>, and that the walk over an
  indefinite-length encoding ends at its own end-of-contents octets.
\<close>

unbundle bit_operations_syntax

record ber_reader =
  br_data :: "byte list"
  br_pos :: nat
  br_depth :: nat

definition new_reader :: "byte list \<Rightarrow> ber_reader" where
  "new_reader d = \<lparr>br_data = d, br_pos = 0, br_depth = 0\<rparr>"

definition at_end :: "ber_reader \<Rightarrow> bool" where
  "at_end r \<longleftrightarrow> length (br_data r) \<le> br_pos r"

definition remaining :: "ber_reader \<Rightarrow> nat" where
  "remaining r = (if br_pos r < length (br_data r) then length (br_data r) - br_pos r else 0)"

definition reader_peek :: "nat \<Rightarrow> ber_reader \<Rightarrow> byte list" where
  "reader_peek n r = take (min n (remaining r)) (drop (br_pos r) (br_data r))"

definition reader_rest :: "ber_reader \<Rightarrow> byte list" where
  "reader_rest r = reader_peek (remaining r) r"

text \<open>\<open>sub\<close>: a reader over a slice, at this reader's nesting depth.\<close>

definition sub_reader :: "byte list \<Rightarrow> ber_reader \<Rightarrow> ber_reader" where
  "sub_reader bytes r = \<lparr>br_data = bytes, br_pos = 0, br_depth = br_depth r\<rparr>"

section \<open>Identifier octets\<close>

text \<open>The \<open>for (int i = 0; i < 5; ++i)\<close> loop of \<open>parse_tag_at\<close>; \<open>k\<close> iterations are left.\<close>

fun parse_long_tag :: "nat \<Rightarrow> tag_class \<Rightarrow> bool \<Rightarrow> byte list \<Rightarrow> nat \<Rightarrow> u32 \<Rightarrow> tag \<times> nat" where
  "parse_long_tag 0 c cn data pos num = (sentinel_tag, pos)"
| "parse_long_tag (Suc k) c cn data pos num =
     (if length data \<le> pos then (sentinel_tag, pos)
      else
        let b = data ! pos; pos = pos + 1;
            num = push_bit 7 num OR ucast (b AND 0x7F)
        in if b AND 0x80 = 0 then (\<lparr>cls = c, number = num, constructed = cn\<rparr>, pos)
           else parse_long_tag k c cn data pos num)"

definition parse_tag_at :: "byte list \<Rightarrow> nat \<Rightarrow> tag \<times> nat" where
  "parse_tag_at data pos =
     (let first = data ! pos; pos = pos + 1;
          c = tag_class_of (drop_bit 6 first);
          cn = (first AND 0x20 \<noteq> 0);
          num = (ucast (first AND 0x1F) :: u32)
      in if num \<noteq> 0x1F then (\<lparr>cls = c, number = num, constructed = cn\<rparr>, pos)
         else parse_long_tag 5 c cn data pos 0)"

definition peek_tag :: "ber_reader \<Rightarrow> tag" where
  "peek_tag r =
     (if length (br_data r) \<le> br_pos r then sentinel_tag
      else fst (parse_tag_at (br_data r) (br_pos r)))"

definition read_tag :: "ber_reader \<Rightarrow> (tag \<times> ber_reader) result" where
  "read_tag r =
     (if at_end r then Inl (DecodeError ''unexpected end of data reading tag'' (br_pos r))
      else
        let (t, pos) = parse_tag_at (br_data r) (br_pos r) in
        if number t = - 1 then Inl (DecodeError ''truncated or oversized long-form tag'' pos)
        else Inr (t, r\<lparr>br_pos := pos\<rparr>))"

section \<open>Length octets\<close>

text \<open>\<open>LengthResult\<close> is the pair of the length and the indefinite flag.\<close>

definition read_length :: "ber_reader \<Rightarrow> ((nat \<times> bool) \<times> ber_reader) result" where
  "read_length r =
     (if at_end r then Inl (DecodeError ''unexpected end of data reading length'' (br_pos r))
      else
        let first = br_data r ! br_pos r;
            r = r\<lparr>br_pos := br_pos r + 1\<rparr>
        in
        if first = 0x80 then Inr ((0, True), r)
        else if first AND 0x80 = 0 then Inr ((unat first, False), r)
        else
          let n = unat (first AND 0x7F) in
          if n > 8 \<or> n = 0 then
            Inl (DecodeError (''unsupported length encoding ('' @ to_string n @ '' bytes)'') (br_pos r - 1))
          else if remaining r < n then Inl (DecodeError ''truncated length field'' (br_pos r))
          else Inr ((be_value (take n (drop (br_pos r) (br_data r))), False),
                    r\<lparr>br_pos := br_pos r + n\<rparr>))"

definition read_bytes :: "nat \<Rightarrow> ber_reader \<Rightarrow> (byte list \<times> ber_reader) result" where
  "read_bytes n r =
     (if remaining r < n then
        Inl (DecodeError (''need '' @ to_string n @ '' bytes but only '' @ to_string (remaining r)
                          @ '' remain'') (br_pos r))
      else Inr (take n (drop (br_pos r) (br_data r)), r\<lparr>br_pos := br_pos r + n\<rparr>))"

section \<open>Progress and bounds of the cursor\<close>

text \<open>Two readers over the same span, the second one further on but still inside.\<close>

definition advances :: "ber_reader \<Rightarrow> ber_reader \<Rightarrow> bool" where
  "advances r r' \<longleftrightarrow> br_data r' = br_data r \<and> br_depth r' = br_depth r \<and>
     br_pos r < br_pos r' \<and> br_pos r' \<le> length (br_data r')"

lemma advances_trans: "advances r s \<Longrightarrow> advances s t \<Longrightarrow> advances r t"
  by (auto simp: advances_def)

lemma remaining_eq: "remaining r = length (br_data r) - br_pos r"
  by (simp add: remaining_def)

lemma advances_remaining: "advances r r' \<Longrightarrow> remaining r' < remaining r"
  by (auto simp: advances_def remaining_eq)

lemma parse_long_tag_pos:
  "pos \<le> length data \<Longrightarrow> parse_long_tag k c cn data pos num = (t, pos') \<Longrightarrow>
   pos \<le> pos' \<and> pos' \<le> length data"
proof (induction k arbitrary: pos num)
  case (Suc k)
  show ?case
  proof (cases "pos < length data")
    case True
    with Suc.prems Suc.IH [of "Suc pos"] show ?thesis
      by (fastforce simp: Let_def split: if_splits)
  next
    case False
    with Suc.prems show ?thesis by simp
  qed
qed simp

lemma parse_tag_at_pos:
  "pos < length data \<Longrightarrow> parse_tag_at data pos = (t, pos') \<Longrightarrow> pos < pos' \<and> pos' \<le> length data"
  by (auto simp: parse_tag_at_def Let_def split: if_splits dest!: parse_long_tag_pos [rotated])

lemma read_tag_advances: "read_tag r = Inr (t, r') \<Longrightarrow> advances r r'"
  by (auto simp: read_tag_def at_end_def advances_def split: if_splits prod.splits
      dest: parse_tag_at_pos [rotated])

lemma read_length_advances: "read_length r = Inr (l, r') \<Longrightarrow> advances r r'"
  by (auto simp: read_length_def at_end_def advances_def Let_def remaining_eq split: if_splits)

text \<open>Skipping a nested definite-length value.\<close>

lemma advances_skip:
  "advances r r' \<Longrightarrow> l \<le> remaining r' \<Longrightarrow> advances r (r'\<lparr>br_pos := br_pos r' + l\<rparr>)"
  by (auto simp: advances_def remaining_eq)

section \<open>Whole TLVs\<close>

record tlv =
  tlv_tag :: tag
  tlv_value :: "byte list"
  tlv_indefinite :: bool

text \<open>
  The walk over the contents of an indefinite-length encoding: \<open>depth\<close> counts the
  end-of-contents octets still owed.
\<close>

function skip_indefinite :: "nat \<Rightarrow> ber_reader \<Rightarrow> ber_reader result" where
  "skip_indefinite depth r =
     (if depth = 0 then Inr r
      else if remaining r < 2 then
        Inl (DecodeError ''unterminated indefinite-length encoding'' (br_pos r))
      else if br_data r ! br_pos r = 0 \<and> br_data r ! (br_pos r + 1) = 0 then
        skip_indefinite (depth - 1) (r\<lparr>br_pos := br_pos r + 2\<rparr>)
      else
        rbind (read_tag r) (\<lambda>tr.
        rbind (read_length (snd tr)) (\<lambda>lr.
          if snd (fst lr) then
            (if \<not> constructed (fst tr) then
               Inl (DecodeError ''indefinite-length encoding on primitive type'' (br_pos (snd lr) - 1))
             else skip_indefinite (depth + 1) (snd lr))
          else if remaining (snd lr) < fst (fst lr) then
            Inl (DecodeError ''truncated nested value'' (br_pos (snd lr)))
          else skip_indefinite depth ((snd lr)\<lparr>br_pos := br_pos (snd lr) + fst (fst lr)\<rparr>))))"
  by pat_completeness auto
termination
proof (relation "measure (\<lambda>(depth, r). remaining r)", goal_cases)
  case 1
  show ?case by simp
next
  case (2 depth r)
  then show ?case by (simp add: remaining_eq)
next
  case (3 depth r tr lr)
  then have "advances r (snd lr)"
    by (metis advances_trans read_length_advances read_tag_advances surjective_pairing)
  then show ?case by (simp add: advances_remaining)
next
  case (4 depth r tr lr)
  then have "advances r (snd lr)"
    by (metis advances_trans read_length_advances read_tag_advances surjective_pairing)
  with 4 have "advances r ((snd lr)\<lparr>br_pos := br_pos (snd lr) + fst (fst lr)\<rparr>)"
    by (intro advances_skip) simp_all
  then show ?case using advances_remaining by (simp only: in_measure case_prod_conv)
qed

declare skip_indefinite.simps [simp del]

text \<open>The general path of \<open>read_tlv\<close>: any tag, definite or indefinite length.\<close>

definition read_tlv_slow :: "ber_reader \<Rightarrow> (tlv \<times> ber_reader) result" where
  "read_tlv_slow r =
     rbind (read_tag r) (\<lambda>(t, r).
     rbind (read_length r) (\<lambda>((len, indef), r).
       if indef then
         (if \<not> constructed t then
            Inl (DecodeError ''indefinite-length encoding on primitive type'' (br_pos r - 1))
          else
            let start = br_pos r in
            rbind (skip_indefinite 1 r) (\<lambda>r'.
              let end_pos = br_pos r' - 2 in
              Inr (\<lparr>tlv_tag = t,
                    tlv_value = take (end_pos - start) (drop start (br_data r')),
                    tlv_indefinite = True\<rparr>, r')))
       else
         rbind (read_bytes len r) (\<lambda>(v, r).
           Inr (\<lparr>tlv_tag = t, tlv_value = v, tlv_indefinite = False\<rparr>, r))))"

text \<open>The inlined fast path: one tag octet and a definite length of at most four octets.\<close>

definition read_tlv_fast :: "ber_reader \<Rightarrow> (tlv \<times> ber_reader) option" where
  "read_tlv_fast r =
     (let data = br_data r; pos = br_pos r; avail = length data - pos in
      if avail \<ge> 2 then
        let tb = data ! pos in
        if tb AND 0x1F \<noteq> 0x1F then
          let lb = data ! (pos + 1);
              t = \<lparr>cls = tag_class_of (drop_bit 6 tb), number = ucast (tb AND 0x1F),
                   constructed = (tb AND 0x20 \<noteq> 0)\<rparr>
          in
          if lb AND 0x80 = 0 then
            let vlen = unat lb in
            if avail \<ge> 2 + vlen then
              Some (\<lparr>tlv_tag = t, tlv_value = take vlen (drop (pos + 2) data), tlv_indefinite = False\<rparr>,
                    r\<lparr>br_pos := pos + 2 + vlen\<rparr>)
            else None
          else if lb \<noteq> 0x80 \<and> unat (lb AND 0x7F) \<le> 4 then
            let nb = unat (lb AND 0x7F) in
            if avail \<ge> 2 + nb then
              let vlen = be_value (take nb (drop (pos + 2) data)) in
              if avail \<ge> 2 + nb + vlen then
                Some (\<lparr>tlv_tag = t, tlv_value = take vlen (drop (pos + 2 + nb) data),
                       tlv_indefinite = False\<rparr>,
                      r\<lparr>br_pos := pos + 2 + nb + vlen\<rparr>)
              else None
            else None
          else None
        else None
      else None)"

definition read_tlv :: "ber_reader \<Rightarrow> (tlv \<times> ber_reader) result" where
  "read_tlv r = (case read_tlv_fast r of Some x \<Rightarrow> Inr x | None \<Rightarrow> read_tlv_slow r)"

definition read_raw_tlv :: "ber_reader \<Rightarrow> (byte list \<times> ber_reader) result" where
  "read_raw_tlv r =
     rbind (read_tlv r) (\<lambda>(_, r').
       Inr (take (br_pos r' - br_pos r) (drop (br_pos r) (br_data r)), r'))"

section \<open>Reading inverts writing\<close>

text \<open>A reader in front of the octets \<open>xs\<close>, after the octets \<open>pre\<close>.\<close>

definition reader_at :: "byte list \<Rightarrow> byte list \<Rightarrow> nat \<Rightarrow> ber_reader" where
  "reader_at pre xs d = \<lparr>br_data = pre @ xs, br_pos = length pre, br_depth = d\<rparr>"

lemma reader_at_sel [reader_simps]:
  "br_data (reader_at pre xs d) = pre @ xs" "br_pos (reader_at pre xs d) = length pre"
  "br_depth (reader_at pre xs d) = d" "at_end (reader_at pre xs d) \<longleftrightarrow> xs = []"
  "remaining (reader_at pre xs d) = length xs" "reader_rest (reader_at pre xs d) = xs"
  by (auto simp: reader_at_def at_end_def remaining_def reader_rest_def reader_peek_def)

lemma reader_at_advance [reader_simps]:
  "(reader_at pre (xs @ ys) d)\<lparr>br_pos := length pre + length xs\<rparr> = reader_at (pre @ xs) ys d"
  by (simp add: reader_at_def)

lemma new_reader_at: "new_reader d = reader_at [] d 0"
  by (simp add: new_reader_def reader_at_def)

lemma sub_reader_at [reader_simps]: "sub_reader xs (reader_at pre ys d) = reader_at [] xs d"
  by (simp add: sub_reader_def reader_at_def)

lemma parse_long_tag_cont:
  "parse_long_tag (k + length (base128_cont n)) c cn (pre @ base128_cont n @ post) (length pre) acc
   = parse_long_tag k c cn (pre @ base128_cont n @ post) (length pre + length (base128_cont n))
       (acc * 128 ^ length (base128_cont n) + of_nat n)"
proof (induction n arbitrary: k post rule: base128_le.induct)
  case (1 n)
  let ?b = "of_nat (n mod 128) OR 0x80 :: byte"
  have b: "unat ?b = n mod 128 + 128" by (simp add: octet_simps)
  then have hi: "?b AND 0x80 \<noteq> 0" by (simp only: and_0x80_eq_0)
  have n: "(of_nat n :: u32) = of_nat (n div 128) * 128 + of_nat (n mod 128)"
    by (metis div_mult_mod_eq of_nat_add of_nat_mult of_nat_numeral)
  show ?case
  proof (cases "n div 128 = 0")
    case True
    with hi n b show ?thesis
      by (simp add: base128_cont_rec [of n] shift7_or Let_def)
  next
    case False
    note IH = "1.IH" [OF False, of "Suc k" "?b # post"]
    have e: "base128_cont n = base128_cont (n div 128) @ [?b]"
      using False by (simp add: base128_cont_rec [of n])
    show ?thesis
      using IH hi b by (simp add: e shift7_or Let_def nth_append n algebra_simps)
  qed
qed

text \<open>The fields of an identifier octet.\<close>

lemma first_octet_fields [octet_simps]:
  assumes "unat x < 32"
  shows "tag_class_of (drop_bit 6 (first_tag_octet t OR x)) = cls t"
    "(first_tag_octet t OR x) AND 0x20 \<noteq> 0 \<longleftrightarrow> constructed t"
    "(first_tag_octet t OR x) AND 0x1F = x"
  using low5_octet [OF assms]
  by (cases "cls t"; cases "constructed t";
      simp add: first_tag_octet_def bit.conj_disj_distrib2 drop_bit_or tag_class_of_def)+

lemma base128_octets_parse:
  assumes "length (base128_octets n) \<le> k"
  shows "parse_long_tag k c cn (pre @ base128_octets n @ post) (length pre) 0
    = (\<lparr>cls = c, number = of_nat n, constructed = cn\<rparr>, length pre + length (base128_octets n))"
proof -
  let ?b = "of_nat (n mod 128) :: byte"
  have lo: "?b AND 0x80 = 0" by (simp add: and_0x80_eq_0)
  have n: "(of_nat n :: u32) = of_nat (n div 128) * 128 + of_nat (n mod 128)"
    by (metis div_mult_mod_eq of_nat_add of_nat_mult of_nat_numeral)
  show ?thesis
  proof (cases "n div 128 = 0")
    case True
    then obtain j where "k = Suc j" using assms by (cases k) (auto simp: base128_octets_rec [of n])
    moreover have "ucast (?b AND 0x7F) = (of_nat (n mod 128) :: u32)"
      using shift7_or [of "0 :: u32" ?b] by simp
    ultimately show ?thesis using True lo by (simp add: base128_octets_rec [of n] Let_def)
  next
    case False
    have e: "base128_octets n = base128_cont (n div 128) @ [?b]"
      using False by (simp add: base128_octets_rec [of n])
    with assms have "length (base128_cont (n div 128)) < k" by simp
    then obtain j where "k = Suc j + length (base128_cont (n div 128))"
      by (metis Suc_diff_Suc add_Suc less_imp_Suc_add add.commute)
    then show ?thesis
      using lo parse_long_tag_cont [of "Suc j" "n div 128" c cn pre "?b # post" 0]
      by (simp add: e shift7_or Let_def nth_append n)
  qed
qed

lemma parse_tag_at_octets [reader_simps]:
  "parse_tag_at (pre @ tag_octets t @ post) (length pre) = (t, length pre + length (tag_octets t))"
proof (cases "number t < 31")
  case True
  then have n: "unat (number t) < 31" by (simp add: word_less_nat_alt)
  then have u: "unat (ucast (number t) :: byte) = unat (number t)"
    by (simp add: unsigned_ucast_eq take_bit_eq_mod unat_mod_distrib)
  let ?f = "first_tag_octet t OR ucast (number t)"
  have "?f AND 0x1F = ucast (number t)" using u n by (intro first_octet_fields) simp
  moreover have "(ucast (ucast (number t) :: byte) :: u32) = number t"
    using u n by (simp add: word_unat_eq_iff unsigned_ucast_eq take_bit_eq_mod unat_mod_distrib)
  moreover have "number t \<noteq> 0x1F" using True by auto
  ultimately show ?thesis
    using True u n first_octet_fields [of "ucast (number t)" t]
    by (simp add: parse_tag_at_def tag_octets_def Let_def)
next
  case False
  have "unat (number t) < 2 ^ 32" using unsigned_less [of "number t"] by simp
  then have "unat (number t) < 128 ^ 5" by simp
  then have "length (base128_octets (unat (number t))) \<le> 5" by (rule length_base128_octets_bound) simp
  then show ?thesis
    using False first_octet_fields [of "0x1F" t]
      base128_octets_parse [of "unat (number t)" 5 "cls t" "constructed t"
        "pre @ [first_tag_octet t OR 0x1F]" post]
    by (simp add: parse_tag_at_def tag_octets_def Let_def)
qed

lemma read_tag_octets [reader_simps]:
  assumes "number t \<noteq> - 1"
  shows "read_tag (reader_at pre (tag_octets t @ post) d) = Inr (t, reader_at (pre @ tag_octets t) post d)"
proof -
  have "tag_octets t \<noteq> []" by (simp add: tag_octets_def)
  with assms show ?thesis by (simp add: read_tag_def reader_simps)
qed

lemma peek_tag_octets [reader_simps]: "peek_tag (reader_at pre (tag_octets t @ post) d) = t"
proof -
  have "tag_octets t \<noteq> []" by (simp add: tag_octets_def)
  then show ?thesis by (simp add: peek_tag_def reader_simps)
qed

lemma read_length_octets [reader_simps]:
  assumes "n < 2 ^ 64"
  shows "read_length (reader_at pre (length_octets n @ post) d)
    = Inr ((n, False), reader_at (pre @ length_octets n) post d)"
proof (cases "n < 128")
  case True
  then have u: "unat (of_nat n :: byte) = n" by (simp add: unat_of_nat)
  then have "(of_nat n :: byte) AND 0x80 = 0" "(of_nat n :: byte) \<noteq> 0x80"
    using True by (auto simp: and_0x80_eq_0)
  with True u show ?thesis
    by (simp add: read_length_def length_octets_def reader_simps Let_def)
next
  case False
  let ?k = "length (octets_le n)"
  have k: "?k \<le> 8" "0 < ?k" using assms False by (auto intro: length_octets_le_64)
  then have u: "unat (of_nat ?k :: byte) = ?k" by (simp add: unat_of_nat)
  let ?b = "0x80 OR of_nat ?k :: byte"
  have b: "unat ?b = ?k + 128" using unat_or_0x80 [of "of_nat ?k"] u k by (simp add: or.commute)
  have "?b AND 0x80 \<noteq> 0" using b by (simp add: and_0x80_eq_0)
  moreover have "?b \<noteq> 0x80" using b k by auto
  moreover have "unat (?b AND 0x7F) = ?k" using b k by (simp add: unat_and_0x7F)
  ultimately show ?thesis
    using False k
    by (simp add: read_length_def length_octets_def reader_simps Let_def remaining_eq)
qed

lemma read_bytes_at [reader_simps]:
  "read_bytes (length v) (reader_at pre (v @ post) d) = Inr (v, reader_at (pre @ v) post d)"
  by (simp add: read_bytes_def reader_simps)

lemma read_tlv_slow_octets:
  assumes "number t \<noteq> - 1" "length v < 2 ^ 64"
  shows "read_tlv_slow (reader_at pre (tlv_octets t v @ post) d)
    = Inr (\<lparr>tlv_tag = t, tlv_value = v, tlv_indefinite = False\<rparr>,
           reader_at (pre @ tlv_octets t v) post d)"
  using assms by (simp add: read_tlv_slow_def tlv_octets_def reader_simps)

section \<open>The fast path agrees with the general path\<close>

lemma ucast_eq_0x1F [simp]: "(ucast (b :: byte) :: u32) = 0x1F \<longleftrightarrow> b = 0x1F"
proof
  assume "(ucast b :: u32) = 0x1F"
  then have "unat (ucast b :: u32) = 0x1F" by simp
  moreover have "unat b < 2 ^ 32" by (rule less_trans [OF unat_byte_less]) simp
  ultimately show "b = 0x1F" by (simp add: word_unat_eq_iff unsigned_ucast_eq take_bit_eq_mod)
qed simp

lemma ucast_neq_minus_1 [simp]: "(ucast (b :: byte) :: u32) \<noteq> - 1"
proof
  assume "(ucast b :: u32) = - 1"
  then have "bit (ucast b :: u32) 31" by simp
  then show False by (simp add: bit_simps) (auto dest: bit_imp_le_length)
qed

lemma low7_nonzero:
  assumes "(b :: byte) AND 0x80 \<noteq> 0" "b \<noteq> 0x80"
  shows "unat (b AND 0x7F) \<noteq> 0"
proof -
  have "128 \<le> unat b" using assms(1) by (simp add: and_0x80_eq_0)
  moreover have "unat b \<noteq> 128" using assms(2) by (auto simp: word_unat_eq_iff)
  moreover have "unat b - 128 < 128" using unat_byte_less [of b] by linarith
  ultimately show ?thesis by (simp add: unat_and_0x7F le_mod_geq)
qed

text \<open>What the general path does on a one-octet tag.\<close>

lemma read_tag_short:
  assumes "br_pos r < length (br_data r)" "br_data r ! br_pos r AND 0x1F \<noteq> 0x1F"
  shows "read_tag r = Inr (\<lparr>cls = tag_class_of (drop_bit 6 (br_data r ! br_pos r)),
      number = ucast (br_data r ! br_pos r AND 0x1F),
      constructed = (br_data r ! br_pos r AND 0x20 \<noteq> 0)\<rparr>, r\<lparr>br_pos := br_pos r + 1\<rparr>)"
  using assms by (simp add: read_tag_def at_end_def parse_tag_at_def Let_def)

lemma read_tlv_fast_slow:
  assumes fast: "read_tlv_fast r = Some x"
  shows "read_tlv_slow r = Inr x"
proof -
  let ?tb = "br_data r ! br_pos r" and ?lb = "br_data r ! (br_pos r + 1)"
  from fast have a: "br_pos r + 2 \<le> length (br_data r)" "?tb AND 0x1F \<noteq> 0x1F"
    by (auto simp: read_tlv_fast_def Let_def split: if_splits)
  then have rt: "read_tag r = Inr (\<lparr>cls = tag_class_of (drop_bit 6 ?tb),
      number = ucast (?tb AND 0x1F), constructed = (?tb AND 0x20 \<noteq> 0)\<rparr>, r\<lparr>br_pos := br_pos r + 1\<rparr>)"
    by (intro read_tag_short) simp_all
  show ?thesis
  proof (cases "?lb AND 0x80 = 0")
    case True
    then have "?lb \<noteq> 0x80" by auto
    with True a fast show ?thesis
      by (simp add: read_tlv_fast_def read_tlv_slow_def rt read_length_def at_end_def read_bytes_def
          remaining_eq Let_def split: if_splits)
  next
    case False
    let ?nb = "unat (?lb AND 0x7F)"
    from False a fast have b: "?lb \<noteq> 0x80" "?nb \<le> 4" "br_pos r + 2 + ?nb \<le> length (br_data r)"
      by (auto simp: read_tlv_fast_def Let_def split: if_splits)
    moreover have "?nb \<noteq> 0"
      by (rule low7_nonzero) fact+
    moreover define nb vlen where "nb = ?nb"
      and "vlen = be_value (take ?nb (drop (br_pos r + 2) (br_data r)))"
    moreover have c: "br_pos r + 2 + ?nb + vlen \<le> length (br_data r)"
      "x = (\<lparr>tlv_tag = \<lparr>cls = tag_class_of (drop_bit 6 ?tb), number = ucast (?tb AND 0x1F),
              constructed = (?tb AND 0x20 \<noteq> 0)\<rparr>,
             tlv_value = take vlen (drop (br_pos r + 2 + ?nb) (br_data r)), tlv_indefinite = False\<rparr>,
            r\<lparr>br_pos := br_pos r + 2 + ?nb + vlen\<rparr>)"
      using fast False b by (auto simp: read_tlv_fast_def Let_def vlen_def split: if_splits)
    ultimately show ?thesis
      using False a
      by (simp add: read_tlv_slow_def rt read_length_def at_end_def read_bytes_def remaining_eq Let_def)
         (intro conjI impI; linarith)
  qed
qed

lemma read_tlv_eq_slow: "read_tlv r = read_tlv_slow r"
  by (simp add: read_tlv_def read_tlv_fast_slow split: option.splits)

lemma read_tlv_octets [reader_simps]:
  assumes "number t \<noteq> - 1" "length v < 2 ^ 64"
  shows "read_tlv (reader_at pre (tlv_octets t v @ post) d)
    = Inr (\<lparr>tlv_tag = t, tlv_value = v, tlv_indefinite = False\<rparr>,
           reader_at (pre @ tlv_octets t v) post d)"
  using assms by (simp add: read_tlv_eq_slow read_tlv_slow_octets)

section \<open>Framing: what a successful read consumed\<close>

lemma skip_indefinite_frame:
  "skip_indefinite depth r = Inr r' \<Longrightarrow> br_pos r \<le> length (br_data r) \<Longrightarrow>
   br_data r' = br_data r \<and> br_depth r' = br_depth r \<and>
   br_pos r' \<le> length (br_data r) \<and> br_pos r \<le> br_pos r' \<and>
   (0 < depth \<longrightarrow> br_pos r + 2 \<le> br_pos r' \<and>
      take 2 (drop (br_pos r' - 2) (br_data r)) = [0, 0])"
proof (induction depth r rule: skip_indefinite.induct)
  case (1 depth r)
  consider (none) "depth = 0"
    | (short) "depth \<noteq> 0" "remaining r < 2"
    | (eoc) "depth \<noteq> 0" "\<not> remaining r < 2" "br_data r ! br_pos r = 0 \<and> br_data r ! (br_pos r + 1) = 0"
    | (inner) "depth \<noteq> 0" "\<not> remaining r < 2" "\<not> (br_data r ! br_pos r = 0 \<and> br_data r ! (br_pos r + 1) = 0)"
    by blast
  then show ?case
  proof cases
    case none
    with 1(4,5) show ?thesis by (simp add: skip_indefinite.simps [of 0 r])
  next
    case short
    with 1(4) show ?thesis by (simp add: skip_indefinite.simps [of depth r])
  next
    case eoc
    let ?r = "r\<lparr>br_pos := br_pos r + 2\<rparr>"
    from eoc have b: "br_pos r + 2 \<le> length (br_data r)" by (simp add: remaining_eq)
    from eoc 1(4) have s: "skip_indefinite (depth - 1) ?r = Inr r'"
      by (simp add: skip_indefinite.simps [of depth r])
    have two: "take 2 (drop (br_pos r) (br_data r)) = [0, 0]"
      using eoc(3) b by (auto simp: list_eq_iff_nth_eq less_2_cases_iff)
    from 1(1) [OF eoc s] b have IH: "br_data r' = br_data r" "br_depth r' = br_depth r"
      "br_pos r' \<le> length (br_data r)" "br_pos r + 2 \<le> br_pos r'"
      "0 < depth - 1 \<longrightarrow> take 2 (drop (br_pos r' - 2) (br_data r)) = [0, 0]" by simp_all
    show ?thesis
    proof (cases "depth = 1")
      case True
      with s have "r' = ?r" by (simp add: skip_indefinite.simps)
      with two b show ?thesis by simp
    next
      case False
      with IH eoc(1) show ?thesis by simp
    qed
  next
    case inner
    from inner 1(4) obtain t r1 len ind r2 where
      t: "read_tag r = Inr (t, r1)" and l: "read_length r1 = Inr ((len, ind), r2)"
      by (auto simp: skip_indefinite.simps [of depth r] rbind_eq_Inr)
    then have adv: "advances r r2" by (metis advances_trans read_length_advances read_tag_advances)
    show ?thesis
    proof (cases ind)
      case True
      with inner 1(4) t l have "skip_indefinite (depth + 1) r2 = Inr r'"
        by (simp add: skip_indefinite.simps [of depth r] split: if_splits)
      from 1(2) [OF inner t, of "((len, ind), r2)"] this l True 1(4) adv inner t show ?thesis
        by (auto simp: advances_def skip_indefinite.simps [of depth r] split: if_splits)
    next
      case False
      with inner 1(4) t l have s: "skip_indefinite depth (r2\<lparr>br_pos := br_pos r2 + len\<rparr>) = Inr r'"
        and len: "\<not> remaining r2 < len"
        by (simp_all add: skip_indefinite.simps [of depth r] split: if_splits)
      from len have "br_pos r2 + len \<le> length (br_data r2)"
        using adv by (auto simp: remaining_eq advances_def)
      with 1(3) [OF inner t, of "((len, ind), r2)"] s l False len adv inner(1) show ?thesis
        by (auto simp: advances_def)
    qed
  qed
qed

lemma read_tlv_frame:
  assumes "read_tlv r = Inr (t, r')"
  shows "advances r r'"
    "\<exists>hdr. 2 \<le> length hdr \<and> drop (br_pos r) (br_data r) =
       hdr @ tlv_value t @ (if tlv_indefinite t then [0, 0] else []) @ drop (br_pos r') (br_data r)"
proof -
  from assms obtain tg r1 len ind r2 where
    t: "read_tag r = Inr (tg, r1)" and l: "read_length r1 = Inr ((len, ind), r2)"
    by (auto simp: read_tlv_eq_slow read_tlv_slow_def rbind_eq_Inr)
  from t l have a1: "advances r r1" and a2: "advances r1 r2"
    by (simp_all add: read_tag_advances read_length_advances)
  then have adv: "advances r r2" by (rule advances_trans)
  have pos: "br_pos r + 2 \<le> br_pos r2" using a1 a2 by (simp add: advances_def)
  let ?D = "br_data r" and ?h = "take (br_pos r2 - br_pos r) (drop (br_pos r) (br_data r))"
  have h: "drop (br_pos r) ?D = ?h @ drop (br_pos r2) ?D" "2 \<le> length ?h"
    using adv pos drop_slice [of "br_pos r" "br_pos r2" ?D] by (auto simp: advances_def)
  have "advances r r' \<and> drop (br_pos r2) ?D =
      tlv_value t @ (if tlv_indefinite t then [0, 0] else []) @ drop (br_pos r') ?D"
  proof (cases ind)
    case True
    with assms t l obtain s: "skip_indefinite 1 r2 = Inr r'"
      and v: "t = \<lparr>tlv_tag = tg, tlv_value = take (br_pos r' - 2 - br_pos r2) (drop (br_pos r2) (br_data r')),
          tlv_indefinite = True\<rparr>"
      by (auto simp: read_tlv_eq_slow read_tlv_slow_def rbind_eq_Inr Let_def split: if_splits)
    from skip_indefinite_frame [OF s] adv have f: "br_data r' = ?D" "br_depth r' = br_depth r"
      "br_pos r' \<le> length ?D" "br_pos r2 + 2 \<le> br_pos r'" "take 2 (drop (br_pos r' - 2) ?D) = [0, 0]"
      by (auto simp: advances_def)
    have "drop (br_pos r2) ?D = take (br_pos r' - 2 - br_pos r2) (drop (br_pos r2) ?D) @ drop (br_pos r' - 2) ?D"
      using f(4) drop_slice [of "br_pos r2" "br_pos r' - 2" ?D] by (simp add: diff_diff_add)
    moreover have "drop (br_pos r' - 2) ?D = [0, 0] @ drop (br_pos r') ?D"
      using f(4,5) drop_slice [of "br_pos r' - 2" "br_pos r'" ?D] by simp
    ultimately show ?thesis using f v adv by (auto simp: advances_def)
  next
    case False
    with assms t l obtain v: "t = \<lparr>tlv_tag = tg, tlv_value = take len (drop (br_pos r2) (br_data r2)),
        tlv_indefinite = False\<rparr>" "r' = r2\<lparr>br_pos := br_pos r2 + len\<rparr>" and len: "\<not> remaining r2 < len"
      by (auto simp: read_tlv_eq_slow read_tlv_slow_def read_bytes_def rbind_eq_Inr split: if_splits)
    with adv have "advances r r'" by (auto intro: advances_skip)
    with v adv drop_slice [of "br_pos r2" "br_pos r2 + len" ?D] show ?thesis
      by (simp add: advances_def)
  qed
  then show "advances r r'" by simp
  from \<open>advances r r' \<and> _\<close> have "drop (br_pos r) ?D =
      ?h @ tlv_value t @ (if tlv_indefinite t then [0, 0] else []) @ drop (br_pos r') ?D"
    by (intro trans [OF h(1)] arg_cong [where f = "(@) ?h"]) simp
  with h(2) show "\<exists>hdr. 2 \<le> length hdr \<and> drop (br_pos r) ?D =
       hdr @ tlv_value t @ (if tlv_indefinite t then [0, 0] else []) @ drop (br_pos r') ?D"
    by (intro exI [of _ ?h] conjI)
qed

section \<open>Indefinite-length encodings as trees\<close>

text \<open>
  A value as X.690 8.1.3.6 nests it: a definite TLV, or an indefinite one whose
  contents are TLVs closed by end-of-contents octets.
\<close>

datatype ber_tree = Definite tag "byte list" | Indefinite tag "ber_tree list"

fun tree_octets :: "ber_tree \<Rightarrow> byte list" where
  "tree_octets (Definite t v) = tlv_octets t v"
| "tree_octets (Indefinite t cs) = tag_octets t @ [0x80] @ concat (map tree_octets cs) @ [0, 0]"

text \<open>
  Encodable trees: no tag number is the reader's sentinel, lengths fit a
  \<open>size_t\<close>, only constructed tags use the indefinite form, and no nested value
  starts with the end-of-contents tag.
\<close>

fun wf_tree :: "ber_tree \<Rightarrow> bool" where
  "wf_tree (Definite t v) \<longleftrightarrow> number t \<noteq> - 1 \<and> length v < 2 ^ 64 \<and>
     t \<noteq> \<lparr>cls = Universal, number = 0, constructed = False\<rparr>"
| "wf_tree (Indefinite t cs) \<longleftrightarrow> number t \<noteq> - 1 \<and> constructed t \<and> list_all wf_tree cs"

lemma first_tag_octet_nonzero:
  assumes "unat x < 32" "\<not> (cls t = Universal \<and> \<not> constructed t \<and> x = 0)"
  shows "first_tag_octet t OR x \<noteq> 0"
proof
  assume z: "first_tag_octet t OR x = 0"
  from first_octet_fields [OF assms(1), of t] z have "cls t = tag_class_of 0" "\<not> constructed t" "x = 0"
    by simp_all
  with assms(2) show False by (simp add: tag_class_of_def)
qed

lemma tag_octets_nonzero:
  assumes "t \<noteq> \<lparr>cls = Universal, number = 0, constructed = False\<rparr>"
  obtains b bs where "tag_octets t = b # bs" "b \<noteq> 0"
proof (cases "number t < 31")
  case True
  then have n: "unat (number t) < 31" by (simp add: word_less_nat_alt)
  then have u: "unat (ucast (number t) :: byte) = unat (number t)"
    by (simp add: unsigned_ucast_eq take_bit_eq_mod)
  have "ucast (number t) = (0 :: byte) \<longleftrightarrow> number t = 0"
    using u by (metis unat_eq_zero)
  with assms n u have "first_tag_octet t OR ucast (number t) \<noteq> 0"
    by (intro first_tag_octet_nonzero) (auto intro!: tag.equality)
  with True show ?thesis by (intro that) (auto simp: tag_octets_def)
next
  case False
  have "first_tag_octet t OR 0x1F \<noteq> 0" by (intro first_tag_octet_nonzero) simp_all
  with False show ?thesis by (intro that) (auto simp: tag_octets_def)
qed

lemma skip_nested:
  assumes "t \<noteq> \<lparr>cls = Universal, number = 0, constructed = False\<rparr>" "number t \<noteq> - 1"
    "0 < k" "xs \<noteq> []"
  shows "skip_indefinite k (reader_at pre (tag_octets t @ xs) d) =
    rbind (read_length (reader_at (pre @ tag_octets t) xs d)) (\<lambda>lr.
      if snd (fst lr) then
        (if \<not> constructed t then
           Inl (DecodeError ''indefinite-length encoding on primitive type'' (br_pos (snd lr) - 1))
         else skip_indefinite (k + 1) (snd lr))
      else if remaining (snd lr) < fst (fst lr) then
        Inl (DecodeError ''truncated nested value'' (br_pos (snd lr)))
      else skip_indefinite k ((snd lr)\<lparr>br_pos := br_pos (snd lr) + fst (fst lr)\<rparr>))"
proof -
  obtain b bs where b: "tag_octets t = b # bs" "b \<noteq> 0" using assms(1) by (rule tag_octets_nonzero)
  have two: "\<not> remaining (reader_at pre (tag_octets t @ xs) d) < 2"
    using assms(4) b(1) by (cases xs) (simp_all add: reader_simps)
  have ne: "br_data (reader_at pre (tag_octets t @ xs) d) ! br_pos (reader_at pre (tag_octets t @ xs) d) \<noteq> 0"
    using b by (simp add: reader_simps)
  show ?thesis
    using assms(2,3) two ne
    by (subst skip_indefinite.simps) (simp add: read_tag_octets cong: if_cong)
qed

lemma skip_eoc:
  "0 < k \<Longrightarrow> skip_indefinite k (reader_at pre ([0, 0] @ post) d)
     = skip_indefinite (k - 1) (reader_at (pre @ [0, 0]) post d)"
  by (simp add: skip_indefinite.simps [of k] reader_simps nth_append)
     (simp add: reader_at_def)

lemma length_octets_nonempty [simp]: "length_octets n \<noteq> []"
  by (simp add: length_octets_def)

lemma skip_tree:
  "wf_tree x \<Longrightarrow> 0 < k \<Longrightarrow> skip_indefinite k (reader_at pre (tree_octets x @ post) d)
     = skip_indefinite k (reader_at (pre @ tree_octets x) post d)"
proof (induction x arbitrary: k pre post)
  case (Definite t v)
  let ?h = "(pre @ tag_octets t) @ length_octets (length v)"
  from Definite have "skip_indefinite k (reader_at pre (tag_octets t @ length_octets (length v) @ v @ post) d)
      = skip_indefinite k ((reader_at ?h (v @ post) d)\<lparr>br_pos := length ?h + length v\<rparr>)"
    by (subst skip_nested) (auto simp: read_length_octets reader_at_sel length_octets_nonempty)
  then show ?case by (simp only: reader_at_advance) (simp add: tlv_octets_def)
next
  case (Indefinite t cs)
  have list: "list_all wf_tree ys \<Longrightarrow> set ys \<subseteq> set cs \<Longrightarrow>
      skip_indefinite (k + 1) (reader_at p (concat (map tree_octets ys) @ q) d)
      = skip_indefinite (k + 1) (reader_at (p @ concat (map tree_octets ys)) q d)" for ys p q
  proof (induction ys arbitrary: p)
    case (Cons y ys)
    then show ?case using Indefinite.IH [of y "k + 1" p "concat (map tree_octets ys) @ q"] by simp
  qed simp
  have t: "t \<noteq> \<lparr>cls = Universal, number = 0, constructed = False\<rparr>"
    using Indefinite.prems by auto
  have l: "read_length (reader_at p (0x80 # q) d) = Inr ((0, True), reader_at (p @ [0x80]) q d)" for p q
    by (simp add: read_length_def reader_at_def at_end_def nth_append)
  have "skip_indefinite k (reader_at pre (tree_octets (Indefinite t cs) @ post) d)
      = skip_indefinite (k + 1) (reader_at (pre @ tag_octets t @ [0x80])
          (concat (map tree_octets cs) @ [0, 0] @ post) d)"
    using Indefinite.prems t by (simp add: skip_nested l)
  also have "\<dots> = skip_indefinite (k + 1) (reader_at ((pre @ tag_octets t @ [0x80]) @
          concat (map tree_octets cs)) ([0, 0] @ post) d)"
    using Indefinite.prems by (intro list) auto
  also have "\<dots> = skip_indefinite k (reader_at (pre @ tree_octets (Indefinite t cs)) post d)"
    by (subst skip_eoc) simp_all
  finally show ?case .
qed

lemma skip_trees:
  "list_all wf_tree cs \<Longrightarrow> 0 < k \<Longrightarrow> skip_indefinite k (reader_at pre (concat (map tree_octets cs) @ post) d)
     = skip_indefinite k (reader_at (pre @ concat (map tree_octets cs)) post d)"
proof (induction cs arbitrary: pre)
  case (Cons c cs)
  then show ?case using skip_tree [of c k pre "concat (map tree_octets cs) @ post"] by simp
qed simp

lemma read_tlv_indefinite_octets:
  assumes "wf_tree (Indefinite t cs)"
  shows "read_tlv (reader_at pre (tree_octets (Indefinite t cs) @ post) d)
    = Inr (\<lparr>tlv_tag = t, tlv_value = concat (map tree_octets cs), tlv_indefinite = True\<rparr>,
           reader_at (pre @ tree_octets (Indefinite t cs)) post d)"
proof -
  let ?p = "pre @ tag_octets t @ [0x80]" and ?c = "concat (map tree_octets cs)"
  have l: "read_length (reader_at (pre @ tag_octets t) (0x80 # ?c @ [0, 0] @ post) d)
      = Inr ((0, True), reader_at ?p (?c @ [0, 0] @ post) d)"
    by (simp add: read_length_def reader_at_def at_end_def nth_append)
  have "skip_indefinite 1 (reader_at ?p (?c @ [0, 0] @ post) d)
      = skip_indefinite 1 (reader_at (?p @ ?c) ([0, 0] @ post) d)"
    using assms by (intro skip_trees) simp_all
  also have "\<dots> = Inr (reader_at (?p @ ?c @ [0, 0]) post d)"
    by (subst skip_eoc) (simp_all add: skip_indefinite.simps [of 0])
  finally have s: "skip_indefinite 1 (reader_at ?p (?c @ [0, 0] @ post) d)
      = Inr (reader_at (?p @ ?c @ [0, 0]) post d)" .
  from assms show ?thesis
    using l s by (simp add: read_tlv_eq_slow read_tlv_slow_def read_tag_octets Let_def reader_at_sel)
qed

text \<open>
  \<open>read_tlv\<close> on an indefinite-length encoding returns exactly the octets of the
  nested values, whatever their nesting (definite values that contain 00 00
  included), and leaves the cursor after its own end-of-contents octets.
\<close>

theorem read_tlv_indefinite:
  assumes "wf_tree (Indefinite t cs)"
  shows "read_tlv (reader_at pre (tree_octets (Indefinite t cs) @ post) d)
    = Inr (\<lparr>tlv_tag = t, tlv_value = concat (map tree_octets cs), tlv_indefinite = True\<rparr>,
           reader_at (pre @ tree_octets (Indefinite t cs)) post d)"
  using assms by (rule read_tlv_indefinite_octets)

lemma read_tlv_indefinite_witness:
  "read_tlv (reader_at [] (tree_octets (Indefinite (universal UT_Sequence True)
       [Indefinite (context_tag 0 True) [Definite (universal UT_OctetString False) [0, 0]]]) @ []) 0)
   = Inr (\<lparr>tlv_tag = universal UT_Sequence True,
           tlv_value = [0xA0, 0x80, 0x04, 0x02, 0x00, 0x00, 0x00, 0x00], tlv_indefinite = True\<rparr>,
          reader_at [0x30, 0x80, 0xA0, 0x80, 0x04, 0x02, 0x00, 0x00, 0x00, 0x00, 0x00, 0x00] [] 0)"
proof -
  have "wf_tree (Indefinite (universal UT_Sequence True)
       [Indefinite (context_tag 0 True) [Definite (universal UT_OctetString False) [0, 0]]])"
    by (simp add: universal_def context_tag_def)
  from read_tlv_indefinite [OF this, of "[]" "[]" 0] show ?thesis
    by (simp add: tlv_octets_def tag_octets_def length_octets_def first_tag_octet_def
        universal_def context_tag_def)
qed

end
