(* ===== verification/Bit_String.thy ===== *)
theory Bit_String
  imports Asn1_Constraints Ber_Reader
begin

text \<open>
  BIT STRING (\<open>runtime/include/asn1cpp/types/BitString.hpp\<close>): the value class with its
  bit-level accessors, the NamedBitList normalisation, SIZE validation and the BER
  contents octets. The lemmas show that \<open>significant_bit_count\<close> is the position after
  the last 1 bit, and that normalisation is a canonical form of the bits.
\<close>

unbundle bit_operations_syntax

record bit_string =
  bs_bytes :: "byte list"
  bs_unused :: byte

definition bit_count :: "bit_string \<Rightarrow> nat" where
  "bit_count v = (if bs_bytes v = [] then 0 else length (bs_bytes v) * 8 - unat (bs_unused v))"

text \<open>\<open>BitString::bit\<close>.\<close>

definition bit_at :: "bit_string \<Rightarrow> nat \<Rightarrow> bool" where
  "bit_at v i \<longleftrightarrow> i < bit_count v \<and> drop_bit (7 - i mod 8) (bs_bytes v ! (i div 8)) AND 1 \<noteq> 0"

text \<open>\<open>__builtin_ctz\<close> on an octet.\<close>

function ctz_from :: "nat \<Rightarrow> byte \<Rightarrow> nat" where
  "ctz_from k b = (if 8 \<le> k \<or> bit b k then k else ctz_from (Suc k) b)"
  by pat_completeness auto
termination by (relation "measure (\<lambda>(k, b). 8 - k)") auto

declare ctz_from.simps [simp del]

definition ctz :: "byte \<Rightarrow> nat" where
  "ctz b = ctz_from 0 b"

text \<open>\<open>static_cast<uint8_t>(0xFF << unused_bits_)\<close>.\<close>

definition unused_mask :: "byte \<Rightarrow> byte" where
  "unused_mask u = push_bit (unat u) 0xFF"

text \<open>The loop \<open>for (i = bytes_.size(); i-- > 0;)\<close>.\<close>

fun significant_from :: "bit_string \<Rightarrow> nat \<Rightarrow> nat" where
  "significant_from v 0 = 0"
| "significant_from v (Suc i) =
     (let b = bs_bytes v ! i;
          b = (if i + 1 = length (bs_bytes v) then b AND unused_mask (bs_unused v) else b)
      in if b \<noteq> 0 then i * 8 + 8 - ctz b else significant_from v i)"

definition significant_bit_count :: "bit_string \<Rightarrow> nat" where
  "significant_bit_count v = significant_from v (length (bs_bytes v))"

definition named_bits_length :: "constraints \<Rightarrow> bit_string \<Rightarrow> nat" where
  "named_bits_length c v =
     (let lb = (if size_lower c > 0 then nat (size_lower c) else 0)
      in max (significant_bit_count v) lb)"

definition normalize_named_bits :: "constraints \<Rightarrow> bit_string \<Rightarrow> bit_string" where
  "normalize_named_bits c v =
     (let n = named_bits_length c v;
          bytes = vec_resize ((n + 7) div 8) (bs_bytes v);
          unused = of_nat ((8 - n mod 8) mod 8);
          bytes = (if bytes = [] then bytes
                   else bytes[length bytes - 1 := last bytes AND unused_mask unused])
      in \<lparr>bs_bytes = bytes, bs_unused = unused\<rparr>)"

definition bit_string_validate :: "constraints \<Rightarrow> bit_string \<Rightarrow> int" where
  "bit_string_validate c v =
     (if has_flag c SIZE_LOWER_BOUND \<and> \<not> has_flag c EXTENSIBLE \<and> \<not> has_flag c NAMED_BITS then
        let n = int (bit_count v) in if n < size_lower c then size_lower c - n else 0
      else if \<not> has_flag c SIZE_CONSTRAINED then 0
      else if has_flag c EXTENSIBLE then 0
      else if has_flag c NAMED_BITS then
        let sig = int (significant_bit_count v) in if sig > size_upper c then size_upper c - sig else 0
      else
        let n = int (bit_count v) in
        if n < size_lower c then size_lower c - n
        else if n > size_upper c then size_upper c - n
        else 0)"

text \<open>\<open>BerTraits<BitString>\<close>: contents octets.\<close>

definition encode_bit_string_bytes :: "bit_string \<Rightarrow> byte list" where
  "encode_bit_string_bytes v = bs_unused v # bs_bytes v"

definition bit_string_decode_value :: "byte list \<Rightarrow> bit_string result" where
  "bit_string_decode_value bytes =
     (if bytes = [] then
        Inl (DecodeError ''BIT STRING value is empty (need at least unused-bits byte)'' 0)
      else
        let unused = bytes ! 0 in
        if unat unused > 7 then
          Inl (DecodeError (''BIT STRING unused bits out of range: '' @ to_string (unat unused)) 0)
        else if unused \<noteq> 0 \<and> length bytes = 1 then
          Inl (DecodeError (''BIT STRING: '' @ to_string (unat unused)
                            @ '' unused bits with no contents octets'') 0)
        else Inr \<lparr>bs_bytes = drop 1 bytes, bs_unused = unused\<rparr>)"

section \<open>Well-formed values\<close>

text \<open>What the constructor and the decoder establish.\<close>

definition bit_string_ok :: "bit_string \<Rightarrow> bool" where
  "bit_string_ok v \<longleftrightarrow> unat (bs_unused v) \<le> 7 \<and> (bs_bytes v = [] \<longrightarrow> bs_unused v = 0)"

lemma bit_string_decode_ok: "bit_string_decode_value bytes = Inr v \<Longrightarrow> bit_string_ok v"
  by (cases bytes) (auto simp: bit_string_decode_value_def bit_string_ok_def Let_def split: if_splits)

lemma bit_string_roundtrip_value:
  "bit_string_ok v \<Longrightarrow> bit_string_decode_value (encode_bit_string_bytes v) = Inr v"
  by (auto simp: bit_string_decode_value_def bit_string_ok_def encode_bit_string_bytes_def Let_def)

section \<open>The significant bits\<close>

lemma ctz_from_spec:
  "k \<le> 8 \<Longrightarrow> \<forall>j<k. \<not> bit b j \<Longrightarrow>
   ctz_from k b \<le> 8 \<and> (\<forall>j<ctz_from k b. \<not> bit b j) \<and> (ctz_from k b < 8 \<longrightarrow> bit b (ctz_from k b))"
proof (induction k b rule: ctz_from.induct)
  case (1 k b)
  show ?case
  proof (cases "8 \<le> k \<or> bit b k")
    case True
    with 1(2,3) show ?thesis by (auto simp: ctz_from.simps [of k])
  next
    case False
    with 1(3) have "\<forall>j<Suc k. \<not> bit b j" by (auto simp: less_Suc_eq)
    with 1(1) [OF False] False show ?thesis by (simp add: ctz_from.simps [of k])
  qed
qed

lemma ctz_spec:
  assumes "b \<noteq> 0"
  shows "ctz b < 8" "bit b (ctz b)" "j < ctz b \<Longrightarrow> \<not> bit b j"
proof -
  note s = ctz_from_spec [of 0 b, simplified, folded ctz_def]
  obtain i where i: "bit b i" using assms using bit_word_eqI [of b 0] by auto
  then have "i < 8" by (auto dest: bit_imp_le_length)
  with s i show "ctz b < 8" by (metis le_neq_implies_less)
  with s show "bit b (ctz b)" "j < ctz b \<Longrightarrow> \<not> bit b j" by auto
qed

lemma bit_unused_mask: "bit (unused_mask u) j \<longleftrightarrow> unat u \<le> j \<and> j < 8"
proof -
  have m: "unused_mask u = push_bit (unat u) (mask 8)" by (simp add: unused_mask_def mask_eq_exp_minus_1)
  show ?thesis unfolding m by (auto simp: bit_push_bit_iff bit_mask_iff)
qed

lemma bit_at_eq:
  "bit_at v i \<longleftrightarrow> i < bit_count v \<and> bit (bs_bytes v ! (i div 8)) (7 - i mod 8)"
  by (simp add: bit_at_def bit_iff_odd_drop_bit and_one_eq odd_iff_mod_2_eq_one)

text \<open>The octet the loop tests at index \<open>i\<close>: the unused bits of the last one are masked.\<close>

definition tested_octet :: "bit_string \<Rightarrow> nat \<Rightarrow> byte" where
  "tested_octet v i = (if i + 1 = length (bs_bytes v) then bs_bytes v ! i AND unused_mask (bs_unused v)
     else bs_bytes v ! i)"

lemma significant_from_Suc:
  "significant_from v (Suc i) =
     (if tested_octet v i \<noteq> 0 then i * 8 + 8 - ctz (tested_octet v i) else significant_from v i)"
  by (simp add: tested_octet_def Let_def)

lemma last_octet_position:
  fixes i l u :: nat
  assumes "i div 8 + 1 = l" "u \<le> 7"
  shows "i < l * 8 - u \<longleftrightarrow> u \<le> 7 - i mod 8"
proof -
  have "i = i div 8 * 8 + i mod 8" by simp
  moreover have "l * 8 = i div 8 * 8 + 8" using assms(1) by simp
  moreover have "i mod 8 < 8" by simp
  ultimately show ?thesis using assms(2) by linarith
qed

lemma bit_at_tested:
  assumes "bit_string_ok v" "i < length (bs_bytes v) * 8"
  shows "bit_at v i \<longleftrightarrow> bit (tested_octet v (i div 8)) (7 - i mod 8)"
proof -
  let ?l = "length (bs_bytes v)" and ?u = "unat (bs_unused v)"
  have u: "?u \<le> 7" and ne: "bs_bytes v \<noteq> []" using assms by (auto simp: bit_string_ok_def)
  show ?thesis
  proof (cases "i div 8 + 1 = ?l")
    case True
    have "i < ?l * 8 - ?u \<longleftrightarrow> ?u \<le> 7 - i mod 8"
      using True u by (rule last_octet_position)
    then show ?thesis
      using True ne by (simp add: bit_at_eq bit_count_def tested_octet_def bit_unused_mask bit_and_iff) auto
  next
    case False
    have "i div 8 < ?l" using assms(2) by (rule less_mult_imp_div_less)
    with False have "i div 8 + 2 \<le> ?l" by simp
    then have "i < ?l * 8 - ?u" using u by linarith
    with False ne show ?thesis by (simp add: bit_at_eq bit_count_def tested_octet_def)
  qed
qed

lemma significant_from_spec:
  "significant_from v n \<le> n * 8 \<and>
   (\<forall>p < n * 8. significant_from v n \<le> p \<longrightarrow> \<not> bit (tested_octet v (p div 8)) (7 - p mod 8)) \<and>
   (0 < significant_from v n \<longrightarrow>
      (let p = significant_from v n - 1 in bit (tested_octet v (p div 8)) (7 - p mod 8)))"
proof (induction n)
  case (Suc n)
  let ?t = "tested_octet v n"
  show ?case
  proof (cases "?t = 0")
    case True
    then have m: "significant_from v (Suc n) = significant_from v n"
      by (simp add: significant_from_Suc del: significant_from.simps)
    have "\<not> bit (tested_octet v (p div 8)) (7 - p mod 8)"
      if "p < Suc n * 8" "significant_from v n \<le> p" for p
    proof (cases "p < n * 8")
      case False
      with that have "p div 8 = n" by (auto intro!: div_nat_eqI)
      with True show ?thesis by simp
    qed (use that Suc in blast)
    with Suc m show ?thesis by (simp del: significant_from.simps)
  next
    case False
    note c = ctz_spec [OF False]
    have m: "significant_from v (Suc n) = n * 8 + 8 - ctz ?t"
      using False by (simp add: significant_from_Suc del: significant_from.simps)
    have p: "p div 8 = n \<and> 7 - p mod 8 < ctz ?t" if "p < Suc n * 8" "n * 8 + 8 - ctz ?t \<le> p" for p
    proof -
      have "p div 8 = n" using that c(1) by (intro div_nat_eqI) auto
      then have "p = n * 8 + p mod 8" by (metis div_mult_mod_eq)
      with that c(1) \<open>p div 8 = n\<close> show ?thesis by linarith
    qed
    define q where "q = n * 8 + 8 - ctz ?t - 1"
    have q8: "q div 8 = n" using c(1) unfolding q_def by (intro div_nat_eqI) auto
    then have "q = n * 8 + q mod 8" by (metis div_mult_mod_eq)
    then have q7: "7 - q mod 8 = ctz ?t" using c(1) unfolding q_def by linarith
    note q8 [unfolded q_def] q7 [unfolded q_def]
    with c p m show ?thesis by (simp add: Let_def del: significant_from.simps)
  qed
qed simp

lemma significant_bit_count_spec:
  assumes "bit_string_ok v"
  shows "significant_bit_count v \<le> bit_count v"
    "significant_bit_count v \<le> i \<Longrightarrow> \<not> bit_at v i"
    "0 < significant_bit_count v \<Longrightarrow> bit_at v (significant_bit_count v - 1)"
proof -
  let ?l = "length (bs_bytes v)" and ?s = "significant_bit_count v"
  note s = significant_from_spec [of v ?l, folded significant_bit_count_def]
  show bit: "bit_at v (?s - 1)" if "0 < ?s"
  proof -
    have "?s - 1 < ?l * 8" using s that by linarith
    from bit_at_tested [OF assms this] s that show ?thesis by (simp add: Let_def)
  qed
  show "\<not> bit_at v i" if "?s \<le> i"
  proof (cases "i < ?l * 8")
    case True
    with that s bit_at_tested [OF assms True] show ?thesis by auto
  next
    case False
    then show ?thesis by (auto simp: bit_at_def bit_count_def split: if_splits)
  qed
  show "?s \<le> bit_count v"
    using bit by (cases "?s = 0") (auto simp: bit_at_def)
qed

text \<open>The significant bits are determined by the bits of the value.\<close>

lemma significant_bit_count_cong:
  assumes "bit_string_ok v" "bit_string_ok w" "\<And>i. bit_at v i \<longleftrightarrow> bit_at w i"
  shows "significant_bit_count v = significant_bit_count w"
proof (rule antisym)
  have le: "significant_bit_count x \<le> significant_bit_count y"
    if "bit_string_ok x" "bit_string_ok y" "\<And>i. bit_at x i \<longleftrightarrow> bit_at y i" for x y
  proof (rule ccontr)
    assume "\<not> ?thesis"
    then have "0 < significant_bit_count x" "significant_bit_count y \<le> significant_bit_count x - 1" by simp_all
    with that significant_bit_count_spec(2,3) show False by blast
  qed
  show "significant_bit_count v \<le> significant_bit_count w" using assms by (intro le)
  show "significant_bit_count w \<le> significant_bit_count v" using assms by (intro le) simp_all
qed

section \<open>Normalisation\<close>

text \<open>
  The unused bits of the last octet are 0. The decoders do not establish this, so
  it is a hypothesis of the theorems about \<open>normalize_named_bits\<close>, which keeps the
  unused bits of a value that grows.
\<close>

definition clean_padding :: "bit_string \<Rightarrow> bool" where
  "clean_padding v \<longleftrightarrow> (\<forall>i < length (bs_bytes v). tested_octet v i = bs_bytes v ! i)"

lemma nth_vec_resize: "j < m \<Longrightarrow> vec_resize m xs ! j = (if j < length xs then xs ! j else 0)"
  by (auto simp: vec_resize_def nth_append)

lemma normalize_fields:
  fixes c v
  defines "n \<equiv> named_bits_length c v" and "w \<equiv> normalize_named_bits c v"
  shows "length (bs_bytes w) = (n + 7) div 8" "unat (bs_unused w) = (8 - n mod 8) mod 8"
    "j < length (bs_bytes w) \<Longrightarrow> bs_bytes w ! j =
       (if j < length (bs_bytes v) then bs_bytes v ! j else 0) AND
       (if j + 1 = length (bs_bytes w) then unused_mask (bs_unused w) else - 1)"
proof -
  have "(8 - n mod 8) mod 8 < 8" by simp
  then have "(8 - n mod 8) mod 8 < 2 ^ LENGTH(8)" by (rule less_le_trans) simp
  then show u: "unat (bs_unused w) = (8 - n mod 8) mod 8"
    by (simp add: w_def n_def normalize_named_bits_def Let_def unat_of_nat mod_less del: mod_mod_trivial)
  let ?m = "(n + 7) div 8"
  let ?r = "vec_resize ?m (bs_bytes v)"
  have b: "bs_bytes w = (if ?r = [] then ?r else ?r[length ?r - 1 := last ?r AND unused_mask (bs_unused w)])"
    by (simp add: w_def n_def normalize_named_bits_def Let_def)
  then show l: "length (bs_bytes w) = ?m"
    using length_vec_resize [of ?m "bs_bytes v"] by (auto simp del: length_vec_resize split: if_splits)
  show "j < length (bs_bytes w) \<Longrightarrow> bs_bytes w ! j =
       (if j < length (bs_bytes v) then bs_bytes v ! j else 0) AND
       (if j + 1 = length (bs_bytes w) then unused_mask (bs_unused w) else - 1)"
  proof -
    assume j: "j < length (bs_bytes w)"
    then have ne: "?r \<noteq> []" using l by (metis length_vec_resize length_greater_0_conv less_zeroE not_gr0 order.strict_trans)
    have "last ?r = ?r ! (?m - 1)" using ne by (simp add: last_conv_nth)
    moreover have "?m - 1 = j" if "j + 1 = ?m" using that by simp
    ultimately show ?thesis
      using j l ne b by (cases "j + 1 = ?m") (auto simp: nth_vec_resize nth_list_update)
  qed
qed

lemma normalize_ok: "bit_string_ok (normalize_named_bits c v)"
proof -
  let ?n = "named_bits_length c v" and ?w = "normalize_named_bits c v"
  have "unat (bs_unused ?w) < 8" by (simp add: normalize_fields)
  moreover have "bs_unused ?w = 0" if "bs_bytes ?w = []"
  proof -
    from that have "(?n + 7) div 8 = 0" by (simp flip: normalize_fields(1))
    then have "?n = 0" by simp
    then have "unat (bs_unused ?w) = 0" by (simp add: normalize_fields)
    then show ?thesis by (simp add: unat_eq_0)
  qed
  ultimately show ?thesis by (simp add: bit_string_ok_def)
qed

lemma octets_minus_unused: "(n + 7) div 8 * 8 - (8 - n mod 8) mod 8 = n" for n :: nat
proof -
  obtain q r where n: "n = 8 * q + r" "r < 8"
    by (metis mod_less_divisor mult_div_mod_eq zero_less_numeral)
  then have "n mod 8 = r" by simp
  with n show ?thesis
  proof (cases "r = 0")
    case False
    then have "(n + 7) div 8 = q + 1" using n by (intro div_nat_eqI) auto
    with False \<open>n mod 8 = r\<close> n show ?thesis by simp
  qed simp
qed

lemma normalize_bit_count: "bit_count (normalize_named_bits c v) = named_bits_length c v"
proof -
  let ?n = "named_bits_length c v" and ?w = "normalize_named_bits c v"
  have "bs_bytes ?w = [] \<longleftrightarrow> (?n + 7) div 8 = 0" by (simp flip: normalize_fields(1))
  also have "\<dots> \<longleftrightarrow> ?n = 0" by (simp add: div_eq_0_iff)
  finally show ?thesis
    by (simp add: bit_count_def normalize_fields octets_minus_unused)
qed

lemma normalize_bits:
  assumes "bit_string_ok v" "clean_padding v"
  shows "bit_at (normalize_named_bits c v) i \<longleftrightarrow> bit_at v i"
proof (cases "i < named_bits_length c v")
  case True
  let ?n = "named_bits_length c v" and ?w = "normalize_named_bits c v"
  let ?j = "i div 8" and ?b = "7 - i mod 8"
  have iw: "i < length (bs_bytes ?w) * 8"
    using True normalize_bit_count [of c v] by (simp add: bit_count_def split: if_splits)
  then have jw: "?j < length (bs_bytes ?w)" by (rule less_mult_imp_div_less)
  have "bit_at ?w i \<longleftrightarrow> bit (bs_bytes ?w ! ?j) ?b"
    using True by (simp add: bit_at_eq normalize_bit_count)
  moreover have "bit (unused_mask (bs_unused ?w)) ?b" if "?j + 1 = length (bs_bytes ?w)"
  proof -
    have "i < length (bs_bytes ?w) * 8 - unat (bs_unused ?w)"
      using True normalize_bit_count [of c v] by (simp add: bit_count_def split: if_splits)
    then have "unat (bs_unused ?w) \<le> ?b"
      using last_octet_position [OF that] normalize_ok [of c v] by (simp add: bit_string_ok_def)
    then show ?thesis by (simp add: bit_unused_mask)
  qed
  ultimately have "bit_at ?w i \<longleftrightarrow> ?j < length (bs_bytes v) \<and> bit (bs_bytes v ! ?j) ?b"
    using jw by (auto simp: normalize_fields(3) bit_and_iff split: if_splits)
  also have "\<dots> \<longleftrightarrow> bit_at v i"
  proof (cases "?j < length (bs_bytes v)")
    case True
    then have "i < length (bs_bytes v) * 8" by (simp add: div_less_iff_less_mult)
    from bit_at_tested [OF assms(1) this] assms(2) True show ?thesis by (simp add: clean_padding_def)
  next
    case False
    then show ?thesis by (auto simp: bit_at_def bit_count_def div_less_iff_less_mult split: if_splits)
  qed
  finally show ?thesis .
next
  case False
  then have "significant_bit_count v \<le> i" by (simp add: named_bits_length_def Let_def)
  with assms(1) have "\<not> bit_at v i" by (rule significant_bit_count_spec(2))
  moreover from False have "\<not> bit_at (normalize_named_bits c v) i"
    by (simp add: bit_at_def normalize_bit_count)
  ultimately show ?thesis by simp
qed

text \<open>Two values with clean padding, the same length and the same bits are equal.\<close>

lemma bit_string_eqI:
  assumes "bit_string_ok v" "bit_string_ok w" "clean_padding v" "clean_padding w"
    "bs_unused v = bs_unused w" "length (bs_bytes v) = length (bs_bytes w)"
    "\<And>i. bit_at v i \<longleftrightarrow> bit_at w i"
  shows "v = w"
proof -
  have "bs_bytes v ! j = bs_bytes w ! j" if j: "j < length (bs_bytes v)" for j
  proof (rule bit_word_eqI)
    fix k assume "k < LENGTH(8)"
    then have k: "k < 8" by simp
    define m where "m = 7 - k"
    let ?i = "j * 8 + m"
    have "m < 8" "7 - m = k" using k by (simp_all add: m_def)
    then have i: "?i div 8 = j" "7 - ?i mod 8 = k" "?i < length (bs_bytes v) * 8"
      using j by auto
    with assms show "bit (bs_bytes v ! j) k \<longleftrightarrow> bit (bs_bytes w ! j) k"
      using bit_at_tested [OF assms(1), of ?i] bit_at_tested [OF assms(2), of ?i] j
      by (simp add: clean_padding_def)
  qed
  then have "bs_bytes v = bs_bytes w" using assms(6) by (simp add: list_eq_iff_nth_eq)
  with assms(5) show ?thesis by simp
qed

lemma normalize_clean: "clean_padding (normalize_named_bits c v)"
  unfolding clean_padding_def by (simp add: normalize_fields(3) tested_octet_def and.assoc)

lemma normalize_eqI:
  assumes "bit_string_ok v" "bit_string_ok w" "clean_padding v" "clean_padding w"
    "\<And>i. bit_at v i \<longleftrightarrow> bit_at w i"
  shows "normalize_named_bits c v = normalize_named_bits c w"
proof -
  have n: "named_bits_length c v = named_bits_length c w"
    using significant_bit_count_cong [OF assms(1,2,5)] by (simp add: named_bits_length_def)
  show ?thesis
  proof (rule bit_string_eqI)
    show "bs_unused (normalize_named_bits c v) = bs_unused (normalize_named_bits c w)"
      by (simp add: word_unat_eq_iff normalize_fields n)
  qed (simp_all add: normalize_ok normalize_clean normalize_fields n normalize_bits assms)
qed

text \<open>
  \<open>significant_bit_count\<close> is the position after the last 1 bit, and 0 when no
  bit is set, whatever the unused bits of the last octet hold.
\<close>

theorem significant_bit_count_last_one:
  assumes "bit_string_ok v"
  shows "significant_bit_count v = (if \<exists>i. bit_at v i then Suc (GREATEST i. bit_at v i) else 0)"
proof (cases "significant_bit_count v = 0")
  case True
  with significant_bit_count_spec(2) [OF assms] show ?thesis by simp
next
  case False
  note s = significant_bit_count_spec [OF assms]
  from False s(3) have b: "bit_at v (significant_bit_count v - 1)" by simp
  moreover have "i \<le> significant_bit_count v - 1" if "bit_at v i" for i
    using that s(2) [of i] by (cases "significant_bit_count v \<le> i") auto
  ultimately have "(GREATEST i. bit_at v i) = significant_bit_count v - 1"
    by (rule Greatest_equality)
  with False b show ?thesis by auto
qed

lemma significant_bit_count_last_one_witness:
  "significant_bit_count \<lparr>bs_bytes = [0x50, 0x0F], bs_unused = 4\<rparr>
   = (if \<exists>i. bit_at \<lparr>bs_bytes = [0x50, 0x0F], bs_unused = 4\<rparr> i
      then Suc (GREATEST i. bit_at \<lparr>bs_bytes = [0x50, 0x0F], bs_unused = 4\<rparr> i) else 0)"
  by (rule significant_bit_count_last_one) (simp add: bit_string_ok_def)

text \<open>
  C27: \<open>normalize_named_bits\<close> changes no bit of a value with clean padding, gives it
  exactly the length PER transmits, and is a canonical form: values with the same
  bits, however many trailing zeros they carry, normalise to the same value.
\<close>

theorem normalize_named_bits_canonical:
  assumes "bit_string_ok v" "bit_string_ok w" "clean_padding v" "clean_padding w"
  shows "(bit_at (normalize_named_bits c v) i \<longleftrightarrow> bit_at v i)
    \<and> bit_count (normalize_named_bits c v) = max (significant_bit_count v) (nat (size_lower c))
    \<and> (normalize_named_bits c v = normalize_named_bits c w \<longleftrightarrow> (\<forall>i. bit_at v i \<longleftrightarrow> bit_at w i))"
proof (intro conjI)
  show "bit_at (normalize_named_bits c v) i \<longleftrightarrow> bit_at v i" using assms(1,3) by (rule normalize_bits)
  show "bit_count (normalize_named_bits c v) = max (significant_bit_count v) (nat (size_lower c))"
    by (simp add: normalize_bit_count named_bits_length_def Let_def)
  show "normalize_named_bits c v = normalize_named_bits c w \<longleftrightarrow> (\<forall>i. bit_at v i \<longleftrightarrow> bit_at w i)"
    using normalize_eqI [OF assms] normalize_bits assms by metis
qed

lemma normalize_named_bits_canonical_witness:
  "normalize_named_bits no_constraints \<lparr>bs_bytes = [0x50, 0x00], bs_unused = 2\<rparr>
   = normalize_named_bits no_constraints \<lparr>bs_bytes = [0x50], bs_unused = 0\<rparr>
   \<longleftrightarrow> (\<forall>i. bit_at \<lparr>bs_bytes = [0x50, 0x00], bs_unused = 2\<rparr> i
         \<longleftrightarrow> bit_at \<lparr>bs_bytes = [0x50], bs_unused = 0\<rparr> i)"
proof (rule normalize_named_bits_canonical [THEN conjunct2, THEN conjunct2])
  show "clean_padding \<lparr>bs_bytes = [0x50, 0x00], bs_unused = 2\<rparr>"
    by (simp add: clean_padding_def tested_octet_def less_Suc_eq nth_Cons split: nat.splits)
  show "clean_padding \<lparr>bs_bytes = [0x50], bs_unused = 0\<rparr>"
    by (simp add: clean_padding_def tested_octet_def unused_mask_def)
qed (simp_all add: bit_string_ok_def)

text \<open>
  With unclean padding the normalised value gains 1 bits: the four bits 1111
  with padding 1111 and \<open>SIZE(8..MAX)\<close> normalise to eight 1 bits.
\<close>

theorem normalize_unclean_padding_gains_bits:
  "normalize_named_bits (no_constraints\<lparr>size_lower := 8\<rparr>) \<lparr>bs_bytes = [0xFF], bs_unused = 4\<rparr>
     = \<lparr>bs_bytes = [0xFF], bs_unused = 0\<rparr>
   \<and> bit_string_decode_value [4, 0xFF] = Inr \<lparr>bs_bytes = [0xFF], bs_unused = 4\<rparr>
   \<and> \<not> bit_at \<lparr>bs_bytes = [0xFF], bs_unused = 4\<rparr> 5 \<and> bit_at \<lparr>bs_bytes = [0xFF], bs_unused = 0\<rparr> 5"
  by code_simp

end
