(* ===== verification/Type_Descriptors.thy ===== *)
theory Type_Descriptors
  imports Bit_String
begin

text \<open>
  Values and their descriptor tables: \<open>runtime/include/asn1cpp/TypeDescriptor.hpp\<close>,
  \<open>SeqOfBase.hpp\<close>, \<open>ChoiceInterface.hpp\<close> and \<open>EnumValue.hpp\<close>. The tables are static data
  that the compiler generates and that may refer to each other cyclically, so a
  descriptor names another one, and an environment maps names to descriptors.
\<close>

section \<open>Values\<close>

text \<open>
  One constructor per storage class behind \<open>Asn1Object\<close>. \<open>V_String\<close> stands for
  \<open>AsnStringBase\<close> and so for the time types as well. A SEQUENCE holds one entry per
  row of its member table; \<open>None\<close> is an empty \<open>unique_ptr\<close>. A CHOICE is \<open>_present\<close> (0 for
  none) and the occupant of its storage.
\<close>

datatype asn1_value =
    V_Boolean bool
  | V_Integer i64
  | V_UInteger u64
  | V_Null
  | V_BitString bit_string
  | V_OctetString "byte list"
  | V_Oid "u32 list"
  | V_RelativeOid "u32 list"
  | V_String "byte list"
  | V_Enum i64
  | V_Sequence "asn1_value option list"
  | V_Choice int "asn1_value option"
  | V_SeqOf "asn1_value list"

text \<open>The nesting of a value: the number of codec calls on a longest path.\<close>

fun height :: "asn1_value \<Rightarrow> nat" where
  "height (V_Sequence ms) = Suc (fold max (map (\<lambda>m. case m of None \<Rightarrow> 0 | Some v \<Rightarrow> height v) ms) 0)"
| "height (V_Choice p m) = Suc (case m of None \<Rightarrow> 0 | Some v \<Rightarrow> height v)"
| "height (V_SeqOf vs) = Suc (fold max (map height vs) 0)"
| "height _ = 0"

lemma fold_max_ge: "x \<in> set xs \<Longrightarrow> x \<le> fold max xs a" "a \<le> fold max xs a" for x :: nat
  by (induction xs arbitrary: a) (auto intro: order_trans [OF max.cobounded1] order_trans [OF max.cobounded2])

lemma height_member: "Some v \<in> set ms \<Longrightarrow> height v < height (V_Sequence ms)"
  using fold_max_ge(1) [of "height v" "map (\<lambda>m. case m of None \<Rightarrow> 0 | Some v \<Rightarrow> height v) ms" 0]
  by (force simp: less_Suc_eq_le)

lemma height_element: "v \<in> set vs \<Longrightarrow> height v < height (V_SeqOf vs)"
  using fold_max_ge(1) [of "height v" "map height vs" 0] by (simp add: less_Suc_eq_le)

lemma height_alternative: "height v < height (V_Choice p (Some v))"
  by simp

section \<open>Descriptors\<close>

type_synonym type_ref = string

text \<open>The handler singletons a descriptor can point to; a null pointer is \<open>None\<close>.\<close>

datatype handler =
    H_Any | H_Boolean | H_Integer | H_UInteger | H_Null | H_BitString | H_OctetString
  | H_Oid | H_RelOid | H_UtcTime | H_GenTime | H_String | H_Enumerated
  | H_SeqOf | H_Sequence | H_Choice

datatype type_kind = Primitive | Any | Enumerated | Sequence | Choice | SeqOf

record enum_entry =
  ee_value :: i64
  ee_name :: string

record enum_spec =
  es_entries :: "enum_entry list"
  es_extensible :: bool
  es_root_count :: nat
  es_per_value_order :: "i64 list"

text \<open>
  \<open>MemberDescriptor\<close>: \<open>m_has_ops\<close> is \<open>explicit operator bool\<close> of its \<open>OptionalOps\<close>. The
  DEFAULT callbacks are generated code, so they are functions here; each acts on
  the owner's members.
\<close>

record member =
  m_name :: string
  m_tag :: tag
  m_optional :: bool
  m_has_default :: bool
  m_type :: "type_ref option"
  m_has_ops :: bool
  m_is_explicit :: bool
  m_tag_is_override :: bool
  m_set_default :: "(asn1_value option list \<Rightarrow> asn1_value option list) option"
  m_is_default_equal :: "(asn1_value option list \<Rightarrow> bool) option"

record seq_of_spec =
  sos_element :: type_ref
  sos_constraints :: constraints
  sos_element_xer_tag :: "string option"

text \<open>\<open>ss_units\<close> pairs \<open>ext_unit_end\<close> with \<open>ext_unit_group\<close>; empty for \<open>ext_unit_count == 0\<close>.\<close>

record sequence_spec =
  ss_members :: "member list"
  ss_ext_at :: int
  ss_roms_count :: nat
  ss_is_set :: bool
  ss_units :: "(nat \<times> bool) list"
  ss_group_optional :: "bool list"

record choice_tag_entry =
  cte_tag :: tag
  cte_alt_index :: int

record choice_spec =
  cs_alternatives :: "member list"
  cs_ext_at :: int
  cs_constraints :: constraints
  cs_ber_tags :: "choice_tag_entry list option"
  cs_tag_index :: "int list option"
  cs_tag_index_base :: int

datatype xer_encoding = XER_DEFAULT | XER_BASE64 | XER_UTF8

text \<open>
  \<open>TypeDescriptor\<close>. \<open>td_new\<close> is the default-constructed value of the C++ type
  (\<open>TypeLifecycleOps::construct\<close> and \<open>UniquePtrOps::set\<close>).
\<close>

record type_desc =
  td_name :: string
  td_tag :: tag
  td_enum_spec :: "enum_spec option"
  td_sequence_spec :: "sequence_spec option"
  td_choice_spec :: "choice_spec option"
  td_seq_of_spec :: "seq_of_spec option"
  td_constraints :: constraints
  td_is_any :: bool
  td_kind :: type_kind
  td_ber_handler :: "handler option"
  td_per_handler :: "handler option"
  td_is_explicit :: bool
  td_natural_tag :: tag
  td_new :: asn1_value
  td_xer_encoding :: xer_encoding

type_synonym type_env = "type_ref \<Rightarrow> type_desc"

definition builtin_tag :: "type_desc \<Rightarrow> tag" where
  "builtin_tag def =
     (if td_is_explicit def \<or> cls (td_tag def) \<noteq> Universal then td_natural_tag def else td_tag def)"

section \<open>Member access\<close>

text \<open>
  \<open>OptionalOps::member_ptr\<close>: the value behind row \<open>i\<close> of the member table, \<open>None\<close> for a
  null pointer.
\<close>

definition member_ptr :: "asn1_value option list \<Rightarrow> nat \<Rightarrow> asn1_value option" where
  "member_ptr ms i = (if i < length ms then ms ! i else None)"

lemma member_ptr_in_set: "member_ptr ms i = Some v \<Longrightarrow> Some v \<in> set ms"
  by (metis member_ptr_def nth_mem option.distinct(1))

text \<open>\<open>OptionalOps::is_present\<close> and \<open>set_present\<close>.\<close>

definition is_present :: "member \<Rightarrow> asn1_value option list \<Rightarrow> nat \<Rightarrow> bool" where
  "is_present mbr ms i \<longleftrightarrow> m_has_ops mbr \<and> member_ptr ms i \<noteq> None"

definition set_present :: "type_env \<Rightarrow> member \<Rightarrow> nat \<Rightarrow> bool \<Rightarrow> asn1_value option list \<Rightarrow> asn1_value option list" where
  "set_present \<Gamma> mbr i p ms =
     (if \<not> m_has_ops mbr then ms
      else if p then
        (case m_type mbr of
           None \<Rightarrow> ms
         | Some t \<Rightarrow> (if member_ptr ms i = None then ms[i := Some (td_new (\<Gamma> t))] else ms))
      else ms[i := None])"

text \<open>\<open>ChoiceInterface::emplace_alt\<close>: the occupant is replaced by a new object.\<close>

definition emplace_alt :: "type_env \<Rightarrow> member \<Rightarrow> asn1_value" where
  "emplace_alt \<Gamma> alt =
     (case m_type alt of None \<Rightarrow> V_Null | Some t \<Rightarrow> td_new (\<Gamma> t))"

lemma length_set_present [simp]: "length (set_present \<Gamma> mbr i p ms) = length ms"
  by (simp add: set_present_def split: option.splits)

section \<open>Kinds and depth\<close>

text \<open>\<open>DecodeDepthGuard::counts\<close> and its limit (\<open>codec/DecodeDepth.hpp\<close>).\<close>

definition kMaxDecodeDepth :: nat where
  "kMaxDecodeDepth = 256"

definition depth_counts :: "type_desc \<Rightarrow> bool" where
  "depth_counts def \<longleftrightarrow> td_kind def = Sequence \<or> td_kind def = Choice \<or> td_kind def = SeqOf"

definition depth_message :: "type_desc \<Rightarrow> string" where
  "depth_message def = td_name def @ '': nesting deeper than '' @ to_string kMaxDecodeDepth @ '' levels''"

end
