(* ===== verification/Per_Stream.thy ===== *)
theory Per_Stream
  imports Type_Descriptors "HOL-Library.Sublist"
begin

text \<open>
  The bit streams of PER (\<open>runtime/include/asn1cpp/codec/PerCodec.hpp\<close>):
  \<open>PerEncodeStream\<close> and \<open>PerDecodeStream\<close> at the level of octets, shifts and
  positions, and their abstraction to lists of bits. Every write is shown to be
  \<open>emit bs\<close> for a list of bits, \<open>emit\<close> to append those bits, and \<open>get_bits\<close> to
  take bits from the front. The locale \<open>bit_codec\<close> states the contract that each
  pair of a writer and a reader of the codec keeps.
\<close>

unbundle bit_operations_syntax

section \<open>PerEncodeStream\<close>

record per_enc =
  pe_buf :: "byte list"
  pe_current :: byte
  pe_bits :: nat
  pe_failed :: bool

definition new_per_enc :: per_enc where
  "new_per_enc = \<lparr>pe_buf = [], pe_current = 0, pe_bits = 0, pe_failed = False\<rparr>"

text \<open>The body of the loop of \<open>put_bits_impl\<close>, for one bit.\<close>

definition put_one :: "byte \<Rightarrow> per_enc \<Rightarrow> per_enc" where
  "put_one b s =
     (let s = s\<lparr>pe_current := pe_current s OR push_bit (7 - pe_bits s) b,
                pe_bits := pe_bits s + 1\<rparr>
      in if pe_bits s = 8
         then s\<lparr>pe_buf := pe_buf s @ [pe_current s], pe_current := 0, pe_bits := 0\<rparr>
         else s)"

text \<open>\<open>for (i = n - 1; i >= 0; --i)\<close>.\<close>

fun put_bits :: "u64 \<Rightarrow> nat \<Rightarrow> per_enc \<Rightarrow> per_enc" where
  "put_bits v 0 s = s"
| "put_bits v (Suc i) s = put_bits v i (put_one (ucast (drop_bit i v AND 1)) s)"

definition per_bit_pos :: "per_enc \<Rightarrow> nat" where
  "per_bit_pos s = length (pe_buf s) * 8 + pe_bits s"

definition per_flush :: "per_enc \<Rightarrow> per_enc" where
  "per_flush s =
     (if pe_bits s > 0 \<or> pe_buf s = []
      then s\<lparr>pe_buf := pe_buf s @ [pe_current s], pe_current := 0, pe_bits := 0\<rparr> else s)"

definition per_set_encode_failed :: "per_enc \<Rightarrow> per_enc" where
  "per_set_encode_failed s = s\<lparr>pe_failed := True\<rparr>"

section \<open>PerDecodeStream\<close>

record per_dec =
  pd_buf :: "byte list"
  pd_byte_pos :: nat
  pd_bit_pos :: nat
  pd_skipped :: nat
  pd_depth :: nat

definition new_per_dec :: "byte list \<Rightarrow> per_dec" where
  "new_per_dec buf = \<lparr>pd_buf = buf, pd_byte_pos = 0, pd_bit_pos = 0, pd_skipped = 0, pd_depth = 0\<rparr>"

text \<open>\<open>PerDecodeStream::sub\<close>: a stream over other octets at the same nesting depth.\<close>

definition per_sub :: "byte list \<Rightarrow> per_dec \<Rightarrow> per_dec" where
  "per_sub buf d = (new_per_dec buf)\<lparr>pd_depth := pd_depth d\<rparr>"

definition per_bytes_used :: "per_dec \<Rightarrow> nat" where
  "per_bytes_used d = pd_byte_pos d + (if pd_bit_pos d \<noteq> 0 then 1 else 0)"

definition per_at_end :: "per_dec \<Rightarrow> bool" where
  "per_at_end d \<longleftrightarrow> length (pd_buf d) \<le> pd_byte_pos d"

definition per_dec_bit_pos :: "per_dec \<Rightarrow> nat" where
  "per_dec_bit_pos d = pd_byte_pos d * 8 + pd_bit_pos d"

definition per_next :: "per_dec \<Rightarrow> per_dec" where
  "per_next d =
     (let d = d\<lparr>pd_bit_pos := pd_bit_pos d + 1\<rparr>
      in if pd_bit_pos d = 8 then d\<lparr>pd_byte_pos := pd_byte_pos d + 1, pd_bit_pos := 0\<rparr> else d)"

definition per_eof :: decode_error where
  "per_eof = DecodeError ''PER: unexpected end of data'' 0"

fun get_bits_loop :: "nat \<Rightarrow> u64 \<Rightarrow> per_dec \<Rightarrow> (u64 \<times> per_dec) result" where
  "get_bits_loop 0 result d = Inr (result, d)"
| "get_bits_loop (Suc i) result d =
     (if length (pd_buf d) \<le> pd_byte_pos d then Inl per_eof
      else
        let b = drop_bit (7 - pd_bit_pos d) (pd_buf d ! pd_byte_pos d) AND 1
        in get_bits_loop i (push_bit 1 result OR ucast b) (per_next d))"

definition get_bits :: "nat \<Rightarrow> per_dec \<Rightarrow> (u64 \<times> per_dec) result" where
  "get_bits n d = get_bits_loop n 0 d"

section \<open>Bits\<close>

text \<open>The low \<open>n\<close> bits of a word and the bits of an octet, most significant first.\<close>

fun word_bits :: "nat \<Rightarrow> 'a::len word \<Rightarrow> bool list" where
  "word_bits 0 v = []"
| "word_bits (Suc i) v = bit v i # word_bits i v"

abbreviation octet_bits :: "byte \<Rightarrow> bool list" where
  "octet_bits b \<equiv> word_bits 8 b"

definition bits_of_octets :: "byte list \<Rightarrow> bool list" where
  "bits_of_octets bs = concat (map octet_bits bs)"

definition bits_value :: "bool list \<Rightarrow> u64" where
  "bits_value bs = foldl (\<lambda>v b. push_bit 1 v OR of_bool b) 0 bs"

lemma length_word_bits [simp]: "length (word_bits n v) = n"
  by (induction n) auto

lemma nth_word_bits: "i < n \<Longrightarrow> word_bits n v ! i = bit v (n - 1 - i)"
  by (induction n arbitrary: i) (auto simp: nth_Cons split: nat.splits)

lemma length_bits_of_octets [simp]: "length (bits_of_octets bs) = 8 * length bs"
  by (induction bs) (auto simp: bits_of_octets_def)

lemma bits_of_octets_append [simp]: "bits_of_octets (xs @ ys) = bits_of_octets xs @ bits_of_octets ys"
  by (simp add: bits_of_octets_def)

lemma bits_of_octets_Nil [simp]: "bits_of_octets [] = []"
  by (simp add: bits_of_octets_def)

lemma bits_of_octets_Cons: "bits_of_octets (x # xs) = octet_bits x @ bits_of_octets xs"
  by (simp add: bits_of_octets_def)

lemma nth_bits_of_octets:
  "i < 8 * length bs \<Longrightarrow> bits_of_octets bs ! i = bit (bs ! (i div 8)) (7 - i mod 8)"
proof (induction bs arbitrary: i)
  case (Cons b bs)
  show ?case
  proof (cases "i < 8")
    case True
    then show ?thesis by (simp add: bits_of_octets_Cons nth_append nth_word_bits)
  next
    case False
    then have "(i - 8) div 8 = i div 8 - 1" "(i - 8) mod 8 = i mod 8" "i div 8 \<noteq> 0"
      by (simp_all add: le_div_geq le_mod_geq)
    with False Cons show ?thesis
      by (simp add: bits_of_octets_Cons nth_append nth_Cons')
  qed
qed simp

lemma bits_value_Nil [simp]: "bits_value [] = 0"
  by (simp add: bits_value_def)

lemma bits_value_snoc: "bits_value (bs @ [b]) = push_bit 1 (bits_value bs) OR of_bool b"
  by (simp add: bits_value_def)

lemma bit_shift_in_bit:
  "bit (push_bit 1 v OR of_bool b) i \<longleftrightarrow> (if i = 0 then b else i < 64 \<and> bit v (i - 1))" for v :: u64
  by (auto simp only: bit_or_iff bit_push_bit_iff bit_of_bool_iff possible_bit_word len_num1 len_bit0 split: if_splits)

lemma bit_bits_value: "bit (bits_value bs) i \<longleftrightarrow> i < 64 \<and> i < length bs \<and> bs ! (length bs - 1 - i)"
proof (induction bs arbitrary: i rule: rev_induct)
  case (snoc b bs)
  show ?case
    unfolding bits_value_snoc bit_shift_in_bit
    using snoc.IH [of "i - 1"] by (auto simp: nth_append)
qed simp

lemma bits_value_word_bits: "bits_value (word_bits n (v :: u64)) = take_bit n v"
  by (rule bit_eqI) (auto simp: bit_bits_value nth_word_bits bit_simps)

lemma word_bits_bits_value: "length bs \<le> 64 \<Longrightarrow> word_bits (length bs) (bits_value bs) = bs"
  by (rule nth_equalityI) (auto simp: nth_word_bits bit_bits_value)

lemma word_bits_cong: "(\<And>i. i < n \<Longrightarrow> bit v i = bit w i) \<Longrightarrow> word_bits n v = word_bits n w"
  by (induction n) auto

lemma word_bits_ucast: "n \<le> LENGTH('a::len) \<Longrightarrow> n \<le> LENGTH('b::len) \<Longrightarrow>
    word_bits n (ucast (v :: 'a word) :: 'b word) = word_bits n v"
  by (rule word_bits_cong) (auto simp: bit_simps)

section \<open>Writing bits\<close>

text \<open>\<open>enc_bits\<close> is what a stream has been given; the rest of the current octet is 0.\<close>

definition enc_ok :: "per_enc \<Rightarrow> bool" where
  "enc_ok s \<longleftrightarrow> pe_bits s < 8 \<and> (\<forall>i < 8 - pe_bits s. \<not> bit (pe_current s) i)"

definition enc_bits :: "per_enc \<Rightarrow> bool list" where
  "enc_bits s = bits_of_octets (pe_buf s) @ take (pe_bits s) (octet_bits (pe_current s))"

definition emit_bit :: "per_enc \<Rightarrow> bool \<Rightarrow> per_enc" where
  "emit_bit s b = put_one (of_bool b) s"

definition emit_bits :: "bool list \<Rightarrow> per_enc \<Rightarrow> per_enc" where
  "emit_bits bs s = foldl emit_bit s bs"

lemma emit_bits_Nil [simp]: "emit_bits [] s = s"
  by (simp add: emit_bits_def)

lemma emit_bits_append: "emit_bits (xs @ ys) s = emit_bits ys (emit_bits xs s)"
  by (simp add: emit_bits_def)

lemma put_bits_emit: "put_bits v n s = emit_bits (word_bits n v) s"
proof (induction n arbitrary: s)
  case (Suc n)
  have "ucast (drop_bit n v AND 1) = (of_bool (bit v n) :: byte)"
    by (simp add: and_one_eq mod_2_eq_odd bit_iff_odd_drop_bit)
  with Suc show ?case by (simp add: emit_bits_def emit_bit_def)
qed simp

lemma octet_put_one:
  assumes "k < 8" "\<forall>i < 8 - k. \<not> bit c i"
  shows "take (Suc k) (octet_bits (c OR push_bit (7 - k) (of_bool b))) = take k (octet_bits c) @ [b]"
proof (rule nth_equalityI)
  fix i
  assume "i < length (take (Suc k) (octet_bits (c OR push_bit (7 - k) (of_bool b))))"
  then have "i \<le> k" by simp
  with assms show "take (Suc k) (octet_bits (c OR push_bit (7 - k) (of_bool b))) ! i
      = (take k (octet_bits c) @ [b]) ! i"
    by (auto simp: nth_append nth_word_bits bit_or_iff bit_push_bit_iff bit_of_bool_iff
        bit_exp_iff less_Suc_eq_le le_less not_le)
qed (use assms in simp)

lemma emit_bit_ok:
  assumes "enc_ok s"
  shows "enc_ok (emit_bit s b)" "enc_bits (emit_bit s b) = enc_bits s @ [b]"
    "pe_failed (emit_bit s b) = pe_failed s"
proof -
  let ?c = "pe_current s OR push_bit (7 - pe_bits s) (of_bool b)"
  have k: "pe_bits s < 8" "\<forall>i < 8 - pe_bits s. \<not> bit (pe_current s) i"
    using assms by (auto simp: enc_ok_def)
  have low: "\<forall>i < 8 - Suc (pe_bits s). \<not> bit ?c i"
    using k by (auto simp: bit_or_iff bit_push_bit_iff)
  show "enc_ok (emit_bit s b)"
    using k low by (auto simp: enc_ok_def emit_bit_def put_one_def Let_def)
  show "enc_bits (emit_bit s b) = enc_bits s @ [b]"
    using octet_put_one [OF k, of b] k(1)
    by (auto simp: enc_bits_def emit_bit_def put_one_def Let_def bits_of_octets_Cons
        simp del: word_bits.simps)
  show "pe_failed (emit_bit s b) = pe_failed s"
    by (simp add: emit_bit_def put_one_def Let_def)
qed

lemma emit_bits_ok:
  assumes "enc_ok s"
  shows "enc_ok (emit_bits bs s) \<and> enc_bits (emit_bits bs s) = enc_bits s @ bs
       \<and> pe_failed (emit_bits bs s) = pe_failed s"
  using assms
proof (induction bs arbitrary: s)
  case (Cons b bs)
  with emit_bit_ok [OF Cons.prems, of b] show ?case by (simp add: emit_bits_def)
qed simp

lemma emit_bits_failed: "pe_failed (emit_bits bs s) = pe_failed s"
  by (induction bs arbitrary: s) (simp_all add: emit_bits_def emit_bit_def put_one_def Let_def)

lemma new_per_enc_ok [simp]: "enc_ok new_per_enc" "enc_bits new_per_enc = []"
  "pe_failed new_per_enc = False"
  by (simp_all add: new_per_enc_def enc_ok_def enc_bits_def)

text \<open>\<open>per_bytes bs\<close>: the octets of a stream that was given \<open>bs\<close> and flushed.\<close>

definition per_bytes :: "bool list \<Rightarrow> byte list" where
  "per_bytes bs = pe_buf (per_flush (emit_bits bs new_per_enc))"

lemma flush_bits:
  assumes "enc_ok s"
  shows "\<exists>pad. bits_of_octets (pe_buf (per_flush s)) = enc_bits s @ replicate pad False"
proof (cases "pe_bits s > 0 \<or> pe_buf s = []")
  case True
  have "drop (pe_bits s) (octet_bits (pe_current s)) = replicate (8 - pe_bits s) False"
    by (rule nth_equalityI) (use assms in \<open>auto simp: enc_ok_def nth_word_bits\<close>)
  then have "octet_bits (pe_current s) = take (pe_bits s) (octet_bits (pe_current s)) @ replicate (8 - pe_bits s) False"
    by (metis append_take_drop_id)
  with True show ?thesis
    by (auto simp: per_flush_def enc_bits_def bits_of_octets_Cons simp del: word_bits.simps intro!: exI)
next
  case False
  then show ?thesis by (auto simp: per_flush_def enc_bits_def intro: exI [of _ 0])
qed

lemma per_bytes_bits: "\<exists>pad. bits_of_octets (per_bytes bs) = bs @ replicate pad False"
  unfolding per_bytes_def
  using flush_bits [of "emit_bits bs new_per_enc"] emit_bits_ok [of new_per_enc bs] by simp

section \<open>Reading bits\<close>

definition dec_ok :: "per_dec \<Rightarrow> bool" where
  "dec_ok d \<longleftrightarrow> pd_bit_pos d < 8"

definition dec_bits :: "per_dec \<Rightarrow> bool list" where
  "dec_bits d = drop (per_dec_bit_pos d) (bits_of_octets (pd_buf d))"

definition advance :: "nat \<Rightarrow> per_dec \<Rightarrow> per_dec" where
  "advance n d =
     d\<lparr>pd_byte_pos := (per_dec_bit_pos d + n) div 8, pd_bit_pos := (per_dec_bit_pos d + n) mod 8\<rparr>"

lemma advance_pos [simp]: "per_dec_bit_pos (advance n d) = per_dec_bit_pos d + n"
  by (simp add: advance_def per_dec_bit_pos_def)

lemma advance_select [simp]:
  "pd_buf (advance n d) = pd_buf d" "pd_depth (advance n d) = pd_depth d" "pd_skipped (advance n d) = pd_skipped d"
  by (simp_all add: advance_def)

lemma dec_ok_advance [simp]: "dec_ok (advance n d)"
  by (simp add: advance_def dec_ok_def)

lemma advance_advance [simp]: "advance m (advance n d) = advance (n + m) d"
  unfolding advance_def [of m] advance_pos by (simp add: advance_def add.assoc)

lemma advance_0: "dec_ok d \<Longrightarrow> advance 0 d = d"
  by (simp add: advance_def dec_ok_def per_dec_bit_pos_def)

lemma dec_bits_advance [simp]: "dec_bits (advance n d) = drop n (dec_bits d)"
  by (simp add: dec_bits_def add.commute)

lemma per_next_advance: "dec_ok d \<Longrightarrow> per_next d = advance 1 d"
  by (auto simp: per_next_def Let_def advance_def dec_ok_def per_dec_bit_pos_def div_Suc mod_Suc)

lemma dec_bits_empty_iff: "dec_ok d \<Longrightarrow> dec_bits d = [] \<longleftrightarrow> length (pd_buf d) \<le> pd_byte_pos d"
  by (auto simp: dec_bits_def per_dec_bit_pos_def dec_ok_def)

lemma hd_dec_bits:
  assumes "dec_ok d" "dec_bits d = b # rest"
  shows "drop_bit (7 - pd_bit_pos d) (pd_buf d ! pd_byte_pos d) AND 1 = of_bool b"
proof -
  let ?p = "per_dec_bit_pos d"
  have p: "?p < 8 * length (pd_buf d)"
    using assms(2) length_bits_of_octets [of "pd_buf d"] unfolding dec_bits_def
    by (metis drop_all list.distinct(1) not_le)
  have "b = bits_of_octets (pd_buf d) ! ?p"
    using assms(2) p unfolding dec_bits_def by (metis hd_drop_conv_nth length_bits_of_octets list.sel(1))
  also have "\<dots> = bit (pd_buf d ! pd_byte_pos d) (7 - pd_bit_pos d)"
    using assms(1) p by (simp add: nth_bits_of_octets per_dec_bit_pos_def dec_ok_def)
  finally show ?thesis by (simp add: and_one_eq mod_2_eq_odd bit_iff_odd_drop_bit)
qed

lemma get_bits_loop_take:
  assumes "dec_ok d" "n \<le> length (dec_bits d)"
  shows "get_bits_loop n v d
       = Inr (foldl (\<lambda>v b. push_bit 1 v OR of_bool b) v (take n (dec_bits d)), advance n d)"
  using assms
proof (induction n arbitrary: v d)
  case 0
  then show ?case by (simp add: advance_0)
next
  case (Suc n)
  then obtain b rest where d: "dec_bits d = b # rest"
    by (metis Suc_le_length_iff)
  with Suc.prems have ne: "\<not> length (pd_buf d) \<le> pd_byte_pos d"
    using dec_bits_empty_iff by force
  have "ucast (drop_bit (7 - pd_bit_pos d) (pd_buf d ! pd_byte_pos d) AND 1) = (of_bool b :: u64)"
    unfolding hd_dec_bits [OF Suc.prems(1) d] by simp
  moreover have "get_bits_loop n w (per_next d)
      = Inr (foldl (\<lambda>v b. push_bit 1 v OR of_bool b) w (take n rest), advance (Suc n) d)" for w
    using Suc.IH [of "advance 1 d" w] Suc.prems d by (simp add: per_next_advance)
  ultimately show ?case using d ne by (simp add: Let_def)
qed

lemma get_bits_take:
  "dec_ok d \<Longrightarrow> n \<le> length (dec_bits d) \<Longrightarrow>
     get_bits n d = Inr (bits_value (take n (dec_bits d)), advance n d)"
  by (simp add: get_bits_def get_bits_loop_take bits_value_def)

lemma get_bits_loop_eof:
  assumes "dec_ok d" "length (dec_bits d) < n"
  shows "get_bits_loop n v d = Inl per_eof"
  using assms
proof (induction n arbitrary: v d)
  case (Suc n)
  show ?case
  proof (cases "dec_bits d")
    case Nil
    then show ?thesis using Suc.prems dec_bits_empty_iff by simp
  next
    case (Cons b rest)
    then have "get_bits_loop n w (per_next d) = Inl per_eof" for w
      using Suc.IH [of "advance 1 d" w] Suc.prems by (simp add: per_next_advance)
    then show ?thesis by (simp add: Let_def)
  qed
qed simp

lemma get_bits_eof: "dec_ok d \<Longrightarrow> length (dec_bits d) < n \<Longrightarrow> get_bits n d = Inl per_eof"
  by (simp add: get_bits_def get_bits_loop_eof)

lemma get_bits_cases:
  "dec_ok d \<Longrightarrow> get_bits n d = (if n \<le> length (dec_bits d)
     then Inr (bits_value (take n (dec_bits d)), advance n d) else Inl per_eof)"
  by (simp add: get_bits_take get_bits_eof)

section \<open>The contract of a writer and its reader\<close>

text \<open>
  \<open>appends f bs\<close>: \<open>f\<close> writes exactly \<open>bs\<close>, whatever the stream holds. \<open>reads k g bs x\<close>:
  where \<open>bs\<close> comes next, \<open>g\<close> consumes it and returns \<open>x\<close>, as long as \<open>k\<close> more levels
  of nesting are allowed.
\<close>

definition appends :: "(per_enc \<Rightarrow> per_enc) \<Rightarrow> bool list \<Rightarrow> bool" where
  "appends f bs \<longleftrightarrow> (\<forall>s. f s = emit_bits bs s)"

definition reads :: "nat \<Rightarrow> (per_dec \<Rightarrow> ('a \<times> per_dec) result) \<Rightarrow> bool list \<Rightarrow> 'a \<Rightarrow> bool" where
  "reads k g bs x \<longleftrightarrow>
     (\<forall>d rest. dec_ok d \<longrightarrow> pd_depth d + k \<le> kMaxDecodeDepth \<longrightarrow> dec_bits d = bs @ rest \<longrightarrow>
        g d = Inr (x, advance (length bs) d))"

lemma appendsI: "(\<And>s. f s = emit_bits bs s) \<Longrightarrow> appends f bs"
  by (simp add: appends_def)

lemma appendsD: "appends f bs \<Longrightarrow> f s = emit_bits bs s"
  by (simp add: appends_def)

lemma appends_id: "appends (\<lambda>s. s) []"
  by (simp add: appends_def)

lemma appends_comp: "appends f a \<Longrightarrow> appends g b \<Longrightarrow> appends (\<lambda>s. g (f s)) (a @ b)"
  by (simp add: appends_def emit_bits_append)

lemma appends_put_bits: "appends (put_bits v n) (word_bits n v)"
  by (simp add: appends_def put_bits_emit)

lemma appends_bits: "appends f bs \<Longrightarrow> enc_bits (f new_per_enc) = bs"
  using emit_bits_ok [of new_per_enc bs] by (simp add: appends_def)

lemma appends_unique: "appends f a \<Longrightarrow> appends f b \<Longrightarrow> a = b"
  by (metis appends_bits)

lemma readsI:
  "(\<And>d rest. dec_ok d \<Longrightarrow> pd_depth d + k \<le> kMaxDecodeDepth \<Longrightarrow> dec_bits d = bs @ rest \<Longrightarrow>
      g d = Inr (x, advance (length bs) d)) \<Longrightarrow> reads k g bs x"
  by (simp add: reads_def)

lemma readsD:
  "reads k g bs x \<Longrightarrow> dec_ok d \<Longrightarrow> pd_depth d + k \<le> kMaxDecodeDepth \<Longrightarrow> dec_bits d = bs @ rest \<Longrightarrow>
     g d = Inr (x, advance (length bs) d)"
  unfolding reads_def by blast

lemma reads_mono: "reads k g bs x \<Longrightarrow> k \<le> m \<Longrightarrow> reads m g bs x"
  by (auto simp: reads_def)

lemma reads_return: "reads k (\<lambda>d. Inr (x, d)) [] x"
  by (simp add: reads_def advance_0)

lemma reads_bind:
  assumes "reads k g a x" "reads k (\<lambda>d. h x d) b y"
  shows "reads k (\<lambda>d. rbind (g d) (\<lambda>(x, d). h x d)) (a @ b) y"
proof (rule readsI)
  fix d rest
  assume d: "dec_ok d" "pd_depth d + k \<le> kMaxDecodeDepth" "dec_bits d = (a @ b) @ rest"
  then have "g d = Inr (x, advance (length a) d)"
    by (intro readsD [OF assms(1), where rest = "b @ rest"]) auto
  moreover have "h x (advance (length a) d) = Inr (y, advance (length b) (advance (length a) d))"
    using d by (intro readsD [OF assms(2), where rest = rest]) auto
  ultimately show "rbind (g d) (\<lambda>(x, d). h x d) = Inr (y, advance (length (a @ b)) d)" by simp
qed

lemma reads_map:
  assumes "reads k g a x"
  shows "reads k (\<lambda>d. rbind (g d) (\<lambda>(x, d). Inr (f x, d))) a (f x)"
  using reads_bind [OF assms reads_return, of f] by simp

lemma reads_get_bits: "n \<le> 64 \<Longrightarrow> reads k (get_bits n) (word_bits n v) (take_bit n v)"
  by (rule readsI) (simp add: get_bits_take bits_value_word_bits)

lemma reads_get_bits_list: "reads k (get_bits (length bs)) bs (bits_value bs)"
  by (rule readsI) (simp add: get_bits_take)

text \<open>A reader applied to the octets of a flushed stream.\<close>

lemma reads_per_bytes:
  assumes "reads k g bs x" "pd_depth d + k \<le> kMaxDecodeDepth"
  shows "g (per_sub (per_bytes bs) d) = Inr (x, advance (length bs) (per_sub (per_bytes bs) d))"
proof -
  obtain pad where "bits_of_octets (per_bytes bs) = bs @ replicate pad False"
    using per_bytes_bits by blast
  then show ?thesis
    by (intro readsD [OF assms(1), where rest = "replicate pad False"])
       (use assms(2) in \<open>auto simp: per_sub_def new_per_dec_def dec_ok_def dec_bits_def per_dec_bit_pos_def\<close>)
qed

lemma new_per_dec_sub: "new_per_dec bs = per_sub bs (new_per_dec [])"
  by (simp add: new_per_dec_def per_sub_def)

locale bit_codec =
  fixes put :: "'a \<Rightarrow> per_enc \<Rightarrow> per_enc"
    and get :: "per_dec \<Rightarrow> ('a \<times> per_dec) result"
    and valid :: "'a \<Rightarrow> bool"
    and levels :: nat
  assumes contract: "valid x \<Longrightarrow> \<exists>bs. appends (put x) bs \<and> reads levels get bs x"
begin

text \<open>A flushed stream decodes to the value that was written.\<close>

lemma stream_roundtrip:
  assumes "valid x" "levels \<le> kMaxDecodeDepth"
  shows "\<exists>d. get (new_per_dec (pe_buf (per_flush (put x new_per_enc)))) = Inr (x, d)"
proof -
  obtain bs where bs: "appends (put x) bs" "reads levels get bs x" using contract [OF assms(1)] by blast
  then have "pe_buf (per_flush (put x new_per_enc)) = per_bytes bs"
    by (simp add: per_bytes_def appendsD)
  moreover have "pd_depth (new_per_dec []) + levels \<le> kMaxDecodeDepth"
    using assms(2) by (simp add: new_per_dec_def)
  ultimately show ?thesis
    using reads_per_bytes [OF bs(2)] by (metis new_per_dec_sub)
qed

text \<open>No encoding is a prefix of another one, so encodings can be concatenated.\<close>

lemma prefix_free:
  assumes "valid x" "valid y" "levels \<le> kMaxDecodeDepth"
    "prefix (enc_bits (put x new_per_enc)) (enc_bits (put y new_per_enc))"
  shows "x = y"
proof -
  obtain a b where a: "appends (put x) a" "reads levels get a x" and b: "appends (put y) b" "reads levels get b y"
    using contract assms(1,2) by meson
  then have "prefix a b" using assms(4) by (simp add: appends_bits)
  then obtain c where c: "b = a @ c" by (auto simp: prefix_def)
  obtain pad where p: "bits_of_octets (per_bytes b) = b @ replicate pad False" using per_bytes_bits by blast
  let ?d = "new_per_dec (per_bytes b)"
  have d: "dec_ok ?d" "pd_depth ?d + levels \<le> kMaxDecodeDepth" "dec_bits ?d = b @ replicate pad False"
    using assms(3) p by (simp_all add: new_per_dec_def dec_ok_def dec_bits_def per_dec_bit_pos_def)
  have "get ?d = Inr (y, advance (length b) ?d)" by (rule readsD [OF b(2) d])
  moreover have "get ?d = Inr (x, advance (length a) ?d)"
    by (rule readsD [OF a(2) d(1,2)]) (use d(3) c in simp)
  ultimately show ?thesis by simp
qed

text \<open>Values written one after the other are read back in order.\<close>

lemma sequence_contract:
  assumes "\<forall>x \<in> set xs. valid x"
    and nil: "\<And>st. after [] st = st" and cons: "\<And>x xs st. after (x # xs) st = after xs (step x st)"
    and read0: "\<And>st d. many 0 st d = Inr (st, d)"
    and readS: "\<And>n st d. many (Suc n) st d = rbind (get d) (\<lambda>(x, d). many n (step x st) d)"
  shows "\<exists>bs. appends (\<lambda>s. foldl (\<lambda>s x. put x s) s xs) bs
       \<and> (\<forall>st. reads levels (many (length xs) st) bs (after xs st))"
  using assms(1)
proof (induction xs)
  case Nil
  then show ?case
    by (auto simp: nil read0 appends_id reads_return intro!: exI [of _ "[]"])
next
  case (Cons x xs)
  then obtain bs where bs: "appends (\<lambda>s. foldl (\<lambda>s x. put x s) s xs) bs"
    "\<And>st. reads levels (many (length xs) st) bs (after xs st)" by auto
  obtain a where a: "appends (put x) a" "reads levels get a x" using contract Cons.prems by auto
  have many: "many (Suc (length xs)) st = (\<lambda>d. rbind (get d) (\<lambda>(x, d). many (length xs) (step x st) d))" for st
    by (rule ext) (rule readS)
  have "appends (\<lambda>s. foldl (\<lambda>s x. put x s) s (x # xs)) (a @ bs)"
    using appends_comp [OF a(1) bs(1)] by simp
  moreover have "reads levels (many (length (x # xs)) st) (a @ bs) (after (x # xs) st)" for st
    using reads_bind [OF a(2), where h = "\<lambda>x d. many (length xs) (step x st) d", OF bs(2) [of "step x st"]]
    by (simp add: cons many)
  ultimately show ?case by blast
qed

end

end
