(* ===== verification/Integer_Codec.thy ===== *)
theory Integer_Codec
  imports Ber_Reader
begin

text \<open>
  The contents octets of INTEGER (\<open>runtime/include/asn1cpp/types/Integer.hpp\<close>): the
  signed 64-bit \<open>Integer\<close> and the unsigned 64-bit \<open>UInteger\<close>. The lemmas give each
  loop its value as a number, show the round trips and that the encoding is the
  shortest one.
\<close>

unbundle bit_operations_syntax

section \<open>Operations\<close>

text \<open>\<open>for (i = 7; i >= 0; --i) { buf[i] = u & 0xFF; u >>= 8; }\<close>, for \<open>k\<close> octets.\<close>

fun be_bytes :: "nat \<Rightarrow> u64 \<Rightarrow> byte list" where
  "be_bytes 0 u = []"
| "be_bytes (Suc k) u = be_bytes k (drop_bit 8 u) @ [ucast (u AND 0xFF)]"

text \<open>
  The two \<open>while (start < 7 \<and> ...) ++start;\<close> loops: what is left of \<open>buf\<close> from
  \<open>start\<close>. The bound on \<open>start\<close> keeps at least one octet.
\<close>

fun skip_zeros :: "byte list \<Rightarrow> byte list" where
  "skip_zeros (x # y # zs) = (if x = 0 \<and> y AND 0x80 = 0 then skip_zeros (y # zs) else x # y # zs)"
| "skip_zeros xs = xs"

fun skip_ones :: "byte list \<Rightarrow> byte list" where
  "skip_ones (x # y # zs) = (if x = 0xFF \<and> y AND 0x80 \<noteq> 0 then skip_ones (y # zs) else x # y # zs)"
| "skip_ones xs = xs"

definition encode_integer_bytes :: "i64 \<Rightarrow> byte list" where
  "encode_integer_bytes n =
     (if n = 0 then [0]
      else if 0 <s n then skip_zeros (be_bytes 8 n)
      else skip_ones (be_bytes 8 n))"

text \<open>\<open>v = (v << 8) | b\<close> over a span.\<close>

definition shift_in :: "'a::len word \<Rightarrow> byte list \<Rightarrow> 'a word" where
  "shift_in v bs = foldl (\<lambda>v b. push_bit 8 v OR ucast b) v bs"

definition integer_decode_value :: "byte list \<Rightarrow> i64 result" where
  "integer_decode_value bytes =
     (if bytes = [] then Inl (DecodeError ''empty INTEGER value'' 0)
      else if length bytes > 8 then Inl (DecodeError ''INTEGER value too large for int64_t'' 0)
      else Inr (shift_in (if bytes ! 0 AND 0x80 \<noteq> 0 then - 1 else 0) bytes))"

text \<open>\<open>BerTraits<UInteger>\<close>: \<open>buf[0]\<close> is the pad octet, \<open>start\<close> indexes \<open>buf\<close>.\<close>

definition encode_uinteger_bytes :: "u64 \<Rightarrow> byte list" where
  "encode_uinteger_bytes v =
     (if v = 0 then [0]
      else
        let buf = 0 # be_bytes 8 v;
            start = 9 - length (skip_zeros (drop 1 buf));
            start = (if buf ! start AND 0x80 \<noteq> 0 then start - 1 else start)
        in drop start buf)"

definition uinteger_decode_value :: "byte list \<Rightarrow> u64 result" where
  "uinteger_decode_value bytes =
     (if bytes = [] then Inl (DecodeError ''empty INTEGER value'' 0)
      else
        let stripped_pad = (length bytes = 9 \<and> bytes ! 0 = 0);
            bytes = (if stripped_pad then drop 1 bytes else bytes)
        in
        if length bytes > 8 then Inl (DecodeError ''INTEGER value too large for uint64_t'' 0)
        else if \<not> stripped_pad \<and> bytes ! 0 AND 0x80 \<noteq> 0 then
          Inl (DecodeError ''negative INTEGER cannot decode as UInteger'' 0)
        else Inr (shift_in 0 bytes))"

section \<open>The octets as a number\<close>

lemma be_value_Cons: "be_value (x # xs) = unat x * 256 ^ length xs + be_value xs"
proof (induction xs rule: rev_induct)
  case (snoc y xs)
  then show ?case
    using be_value_append [of "x # xs" y] by (simp add: be_value_append algebra_simps)
qed (simp add: be_value_def)

lemma be_value_less: "be_value xs < 256 ^ length xs"
proof (induction xs)
  case (Cons x xs)
  have "Suc (unat x) * 256 ^ length xs \<le> 256 * 256 ^ length xs"
    using unat_byte_less [of x] by (intro mult_le_mono1) linarith
  with Cons have "unat x * 256 ^ length xs + be_value xs < 256 * 256 ^ length xs"
    by (simp only: mult_Suc)
  then show ?case by (simp add: be_value_Cons)
qed simp

text \<open>The two's-complement value of a non-empty octet string.\<close>

fun sbe_value :: "byte list \<Rightarrow> int" where
  "sbe_value [] = 0"
| "sbe_value (x # xs) = sint x * 256 ^ length xs + int (be_value xs)"

lemma sint_eq_unat:
  "sint (w :: 'a::len word) = int (unat w) - (if bit w (LENGTH('a) - 1) then 2 ^ LENGTH('a) else 0)"
proof -
  have "sint w = take_bit LENGTH('a) (uint w) - 2 ^ LENGTH('a) * of_bool (bit (uint w) (LENGTH('a) - 1))"
    by (simp add: sint_uint signed_take_bit_eq_take_bit_minus)
  then show ?thesis by (simp add: take_bit_int_eq_self bit_unsigned_iff)
qed

lemma bit_top_iff: "bit (w :: 'a::len word) (LENGTH('a) - 1) \<longleftrightarrow> 2 ^ (LENGTH('a) - 1) \<le> unat w"
proof -
  obtain n where n: "LENGTH('a) = Suc n" using len_gt_0 gr0_implies_Suc by blast
  have "unat w < 2 ^ Suc n" using unsigned_less [of w] n by simp
  then have "unat w div 2 ^ n = (if unat w < 2 ^ n then 0 else 1)"
    by (auto intro!: div_nat_eqI)
  then have "odd (unat w div 2 ^ n) \<longleftrightarrow> 2 ^ n \<le> unat w" by auto
  moreover have "bit w n \<longleftrightarrow> bit (unat w) n" using n by (simp add: bit_unsigned_iff)
  ultimately show ?thesis using n by (simp add: bit_iff_odd)
qed

lemma numeral_le_unat: "numeral k \<le> unat w \<longleftrightarrow> numeral k \<le> uint w"
  by (simp only: unat_eq_nat_uint le_nat_iff unsigned_greater_eq of_nat_numeral)

lemma uint_byte_less [simp]: "uint (x :: byte) < 256" "\<not> 256 \<le> uint x"
  using unsigned_less [of x, where ?'a = int] by simp_all

lemma sint_byte: "sint (x :: byte) = (if 128 \<le> uint x then uint x - 256 else uint x)"
  by (simp add: sint_eq_unat bit_byte_7_iff numeral_le_unat)

lemma sint_byte_bounds: "- 128 \<le> sint (x :: byte)" "sint x < 128"
proof -
  have "0 \<le> uint x" "uint x < 256" using unsigned_less [of x, where ?'a = int] by simp_all
  then show "- 128 \<le> sint x" "sint x < 128" by (simp_all only: sint_byte split: if_split, linarith+)
qed

lemma shift_in_append: "shift_in v (xs @ ys) = shift_in (shift_in v xs) ys"
  by (simp add: shift_in_def)

lemma shift_in_eq: "shift_in v bs = v * 256 ^ length bs + of_nat (be_value bs)"
proof (induction bs rule: rev_induct)
  case (snoc b bs)
  then show ?case
    by (simp add: shift_in_append shift_in_def [of _ "[b]"] shift8_or be_value_append algebra_simps)
qed (simp add: shift_in_def)

lemma length_be_bytes [simp]: "length (be_bytes k u) = k"
  by (induction k arbitrary: u) simp_all

lemma unat_drop_bit_8: "unat (drop_bit 8 (u :: u64)) = unat u div 256"
  by (simp add: drop_bit_eq_div unat_div)

lemma unat_low_octet: "unat (ucast ((u :: u64) AND 0xFF) :: byte) = unat u mod 256"
proof -
  have "u AND 0xFF = take_bit 8 u" by (simp only: take_bit_eq_mask mask_eq_exp_minus_1) simp
  then show ?thesis by (simp add: unsigned_ucast_eq take_bit_eq_mod unat_mod_distrib)
qed

lemma be_value_be_bytes: "be_value (be_bytes k u) = unat u mod 256 ^ k"
proof (induction k arbitrary: u)
  case (Suc k)
  have "unat u mod 256 ^ Suc k = 256 * (unat u div 256 mod 256 ^ k) + unat u mod 256"
    by (simp add: mod_mult2_eq)
  with Suc show ?case by (simp add: be_value_append unat_drop_bit_8 unat_low_octet)
qed simp

lemma be_value_be_bytes_8: "be_value (be_bytes 8 u) = unat u"
  using unsigned_less [of u, where ?'a = nat] by (simp add: be_value_be_bytes)

lemma top_digit: "(r :: nat) < p \<Longrightarrow> 128 * p \<le> x * p + r \<longleftrightarrow> 128 \<le> x"
proof (cases "128 \<le> x")
  case True
  then have "128 * p \<le> x * p" by (rule mult_le_mono1)
  then have "128 * p \<le> x * p + r" by (rule trans_le_add1)
  with True show ?thesis by simp
next
  case False
  assume "r < p"
  moreover have "Suc x * p \<le> 128 * p" using False by (intro mult_le_mono1) simp
  ultimately have "x * p + r < 128 * p" by (simp only: mult_Suc)
  with False show ?thesis by linarith
qed

text \<open>The sign bit of the word is that of its first octet.\<close>

lemma sbe_value_be_bytes_8: "sbe_value (be_bytes 8 u) = sint u"
proof -
  obtain x xs where x: "be_bytes 8 u = x # xs" "length xs = 7"
    using length_be_bytes [of 8 u] by (cases "be_bytes 8 u") simp_all
  define p where "p = (256 :: nat) ^ length xs"
  have p: "(2 :: nat) ^ 63 = 128 * p" "(2 :: int) ^ 64 = 256 * int p" "(256 :: int) ^ length xs = int p"
    using x(2) by (simp_all add: p_def)
  have v: "unat u = unat x * p + be_value xs"
    using be_value_be_bytes_8 [of u] x(1) by (simp add: be_value_Cons p_def)
  have "be_value xs < p" using be_value_less [of xs] by (simp add: p_def)
  then have top: "2 ^ 63 \<le> unat u \<longleftrightarrow> 128 \<le> uint x"
    using p(1) top_digit [of "be_value xs" p "unat x"] v by (simp only: numeral_le_unat)
  have "bit u 63 \<longleftrightarrow> 2 ^ 63 \<le> unat u" using bit_top_iff [of u] by simp
  then have "sint u = uint u - (if 128 \<le> uint x then 256 * int p else 0)"
    using sint_eq_unat [of u] top p(2) by simp
  moreover have "uint u = uint x * int p + int (be_value xs)"
    using arg_cong [OF v, of int] by simp
  ultimately show ?thesis
    unfolding x(1) sbe_value.simps p(3) by (simp add: sint_byte left_diff_distrib)
qed

section \<open>Round trips\<close>

lemma sint_inject: "sint (x :: 'a::len word) = sint y \<longleftrightarrow> x = y"
  by (metis signed_word_eqI)

lemma msb_byte: "(x :: byte) AND 0x80 = 0 \<longleftrightarrow> 0 \<le> sint x"
proof -
  have "unat x < 128 \<longleftrightarrow> uint x < 128" using numeral_le_unat [of "num.Bit0 (num.Bit0 (num.Bit0 (num.Bit0 (num.Bit0 (num.Bit0 (num.Bit0 num.One))))))" x] by linarith
  then show ?thesis
    using unsigned_less [of x, where ?'a = int] by (simp add: and_0x80_eq_0 sint_byte)
qed

lemma shift_in_sbe:
  assumes "bs \<noteq> []" "length bs \<le> 8"
  shows "shift_in (if bs ! 0 AND 0x80 \<noteq> 0 then - 1 else 0 :: u64) bs = word_of_int (sbe_value bs)"
proof (cases bs)
  case (Cons x xs)
  then show ?thesis
    by (simp add: shift_in_eq be_value_Cons msb_byte sint_byte split: if_splits) (simp add: algebra_simps)
qed (use assms in simp)

lemma sbe_value_bounds:
  "xs \<noteq> [] \<Longrightarrow> - 128 * 256 ^ (length xs - 1) \<le> sbe_value xs \<and> sbe_value xs < 128 * 256 ^ (length xs - 1)"
proof (cases xs)
  case (Cons y ys)
  let ?p = "256 ^ length ys :: int"
  have b: "int (be_value ys) < ?p" using be_value_less [of ys] by (metis of_nat_less_iff of_nat_numeral of_nat_power)
  have "- 128 * ?p \<le> sint y * ?p" using sint_byte_bounds [of y] by (intro mult_right_mono) simp_all
  moreover have "(sint y + 1) * ?p \<le> 128 * ?p" using sint_byte_bounds [of y] by (intro mult_right_mono) simp_all
  then have "sint y * ?p + ?p \<le> 128 * ?p" by (simp only: distrib_right mult_1)
  then have "sint y * ?p + int (be_value ys) < 128 * ?p" using b by linarith
  ultimately show ?thesis using Cons by simp
qed simp

lemma sbe_value_drop_zero: "0 \<le> sint y \<Longrightarrow> sbe_value (0 # y # zs) = sbe_value (y # zs)"
  by (simp add: be_value_Cons sint_byte split: if_splits)

lemma sbe_value_drop_ones: "sint y < 0 \<Longrightarrow> sbe_value (0xFF # y # zs) = sbe_value (y # zs)"
proof -
  assume "sint y < 0"
  moreover have "sint (0xFF :: byte) = - 1" by (simp add: sint_byte)
  ultimately show ?thesis
    by (simp add: be_value_Cons sint_byte algebra_simps split: if_splits)
qed

lemma sbe_value_skip_zeros: "sbe_value (skip_zeros bs) = sbe_value bs"
  by (induction bs rule: skip_zeros.induct) (auto simp: msb_byte sbe_value_drop_zero simp del: sbe_value.simps)

lemma sbe_value_skip_ones: "sbe_value (skip_ones bs) = sbe_value bs"
  by (induction bs rule: skip_ones.induct) (auto simp: msb_byte sbe_value_drop_ones simp del: sbe_value.simps)

lemma skip_zeros_nonempty [simp]: "skip_zeros bs = [] \<longleftrightarrow> bs = []"
  by (induction bs rule: skip_zeros.induct) auto

lemma skip_ones_nonempty [simp]: "skip_ones bs = [] \<longleftrightarrow> bs = []"
  by (induction bs rule: skip_ones.induct) auto

lemma length_skip_zeros: "length (skip_zeros bs) \<le> length bs"
  by (induction bs rule: skip_zeros.induct) auto

lemma length_skip_ones: "length (skip_ones bs) \<le> length bs"
  by (induction bs rule: skip_ones.induct) auto

lemma encode_integer_bytes_sbe: "sbe_value (encode_integer_bytes n) = sint n"
  by (simp add: encode_integer_bytes_def sbe_value_skip_zeros sbe_value_skip_ones sbe_value_be_bytes_8)

lemma encode_integer_bytes_length:
  "encode_integer_bytes n \<noteq> []" "length (encode_integer_bytes n) \<le> 8"
proof -
  have "be_bytes 8 n \<noteq> []" using length_be_bytes [of 8 n] by fastforce
  then show "encode_integer_bytes n \<noteq> []" by (simp add: encode_integer_bytes_def)
  show "length (encode_integer_bytes n) \<le> 8"
    using length_skip_zeros [of "be_bytes 8 n"] length_skip_ones [of "be_bytes 8 n"]
    by (simp add: encode_integer_bytes_def)
qed

lemma integer_decode_value_eq:
  "bs \<noteq> [] \<Longrightarrow> length bs \<le> 8 \<Longrightarrow> integer_decode_value bs = Inr (word_of_int (sbe_value bs))"
  by (simp add: integer_decode_value_def shift_in_sbe [symmetric])

lemma integer_roundtrip_value: "integer_decode_value (encode_integer_bytes n) = Inr n"
  using encode_integer_bytes_length [of n]
  by (simp add: integer_decode_value_eq encode_integer_bytes_sbe)

text \<open>No two consecutive leading octets could be dropped: X.690 8.3.2.\<close>

fun nine_bits_differ :: "byte list \<Rightarrow> bool" where
  "nine_bits_differ (x # y # zs) \<longleftrightarrow>
     \<not> (x = 0 \<and> 0 \<le> sint y) \<and> \<not> (x = 0xFF \<and> sint y < 0)"
| "nine_bits_differ xs \<longleftrightarrow> True"

lemma sbe_value_sign: "0 \<le> sbe_value (x # xs) \<longleftrightarrow> 0 \<le> sint x"
proof -
  let ?p = "256 ^ length xs :: int"
  have b: "int (be_value xs) < ?p" using be_value_less [of xs] by (metis of_nat_less_iff of_nat_numeral of_nat_power)
  show ?thesis
  proof (cases "0 \<le> sint x")
    case False
    then have "(sint x + 1) * ?p \<le> 0" by (intro mult_nonpos_nonneg) simp_all
    then have "sint x * ?p + ?p \<le> 0" by (simp only: distrib_right mult_1)
    with b have "sint x * ?p + int (be_value xs) < 0" by linarith
    with False show ?thesis by simp
  qed simp
qed

lemma nine_bits_skip_zeros: "0 \<le> sbe_value bs \<Longrightarrow> nine_bits_differ (skip_zeros bs)"
proof (induction bs rule: skip_zeros.induct)
  case (1 x y zs)
  show ?case
  proof (cases "x = 0 \<and> y AND 0x80 = 0")
    case True
    with 1 show ?thesis by (simp add: msb_byte sbe_value_drop_zero del: sbe_value.simps)
  next
    case False
    with 1(2) have "x \<noteq> 0xFF" by (auto simp: sbe_value_sign sint_byte simp del: sbe_value.simps)
    with False show ?thesis by (auto simp: msb_byte)
  qed
qed simp_all

lemma nine_bits_skip_ones: "sbe_value bs < 0 \<Longrightarrow> nine_bits_differ (skip_ones bs)"
proof (induction bs rule: skip_ones.induct)
  case (1 x y zs)
  show ?case
  proof (cases "x = 0xFF \<and> y AND 0x80 \<noteq> 0")
    case True
    with 1 show ?thesis by (simp add: msb_byte sbe_value_drop_ones not_le del: sbe_value.simps)
  next
    case False
    with 1(2) have "x \<noteq> 0" using sbe_value_sign [of x "y # zs"] by (auto simp del: sbe_value.simps)
    with False show ?thesis by (auto simp: msb_byte not_le)
  qed
qed simp_all

lemma encode_integer_bytes_nine_bits: "nine_bits_differ (encode_integer_bytes n)"
proof -
  have "n \<noteq> 0 \<Longrightarrow> \<not> 0 <s n \<Longrightarrow> sint n < 0"
    using sint_inject [of n 0] by (simp add: word_sless_alt)
  then show ?thesis
    by (auto simp: encode_integer_bytes_def sbe_value_be_bytes_8 word_sless_alt
        intro!: nine_bits_skip_zeros nine_bits_skip_ones)
qed

lemma digit_gap:
  "(a = 0 \<longrightarrow> 128 \<le> b) \<Longrightarrow> (a = - 1 \<longrightarrow> b < 128) \<Longrightarrow> 0 \<le> b \<Longrightarrow> b < 256 \<Longrightarrow>
   128 \<le> a * 256 + b \<or> a * 256 + b < - 128" for a b :: int
  by (rule linorder_cases [of a 0]; cases "a = - 1"; linarith?; simp)

lemma nine_bits_value:
  assumes "nine_bits_differ (x # y # zs)"
  shows "sbe_value (x # y # zs) < - 128 * 256 ^ length zs \<or> 128 * 256 ^ length zs \<le> sbe_value (x # y # zs)"
proof -
  let ?p = "256 ^ length zs :: int"
  have e: "sbe_value (x # y # zs) = (sint x * 256 + uint y) * ?p + int (be_value zs)"
    by (simp add: be_value_Cons algebra_simps)
  have b: "int (be_value zs) < ?p" using be_value_less [of zs] by (metis of_nat_less_iff of_nat_numeral of_nat_power)
  have zx: "sint x = 0 \<longleftrightarrow> x = 0" "sint x = - 1 \<longleftrightarrow> x = 0xFF"
    using sint_inject [of x 0] sint_inject [of x "0xFF"] by (auto simp: sint_byte [of "0xFF"])
  have "128 \<le> sint x * 256 + uint y \<or> sint x * 256 + uint y < - 128"
  proof -
    have "0 \<le> sint y \<longleftrightarrow> uint y < 128" by (simp add: sint_byte)
    with assms zx have "sint x = 0 \<longrightarrow> 128 \<le> uint y" "sint x = - 1 \<longrightarrow> uint y < 128" by auto
    then show ?thesis by (rule digit_gap) simp_all
  qed
  then show ?thesis
  proof
    assume "128 \<le> sint x * 256 + uint y"
    then have "128 * ?p \<le> (sint x * 256 + uint y) * ?p" by (intro mult_right_mono) simp_all
    with e show ?thesis by linarith
  next
    assume "sint x * 256 + uint y < - 128"
    then have "(sint x * 256 + uint y + 1) * ?p \<le> - 128 * ?p" by (intro mult_right_mono) simp_all
    then have "(sint x * 256 + uint y) * ?p + ?p \<le> - 128 * ?p" by (simp only: distrib_right mult_1)
    with e b show ?thesis by linarith
  qed
qed

lemma encode_integer_bytes_minimal:
  assumes "integer_decode_value bs = Inr n"
  shows "length (encode_integer_bytes n) \<le> length bs"
proof (rule ccontr)
  let ?e = "encode_integer_bytes n"
  assume "\<not> length ?e \<le> length bs"
  then have lt: "length bs < length ?e" by simp
  from assms have bs: "bs \<noteq> []" "length bs \<le> 8" by (auto simp: integer_decode_value_def split: if_splits)
  with assms have n: "n = word_of_int (sbe_value bs)" by (simp add: integer_decode_value_eq)
  let ?q = "256 ^ (length bs - 1) :: int"
  have bnd: "- 128 * ?q \<le> sbe_value bs" "sbe_value bs < 128 * ?q"
    using sbe_value_bounds [OF bs(1)] by auto
  have "?q \<le> 256 ^ 7" using bs(2) by (intro power_increasing) simp_all
  with bnd have s: "sint n = sbe_value bs"
    by (simp add: n sint_sbintrunc' signed_take_bit_int_eq_self)
  obtain x y zs where e: "?e = x # y # zs"
    using lt bs(1) by (cases ?e rule: skip_ones.cases) auto
  with lt have "?q \<le> 256 ^ length zs" by (intro power_increasing) auto
  moreover from e have "sbe_value ?e < - 128 * 256 ^ length zs \<or> 128 * 256 ^ length zs \<le> sbe_value ?e"
    using nine_bits_value [of x y zs] encode_integer_bytes_nine_bits [of n] by simp
  ultimately show False using bnd s unfolding encode_integer_bytes_sbe by linarith
qed

text \<open>
  C25: every \<open>int64_t\<close> survives its BER contents octets, which are between one and
  eight, and every other contents octets that decode to the same value are at
  least as long (X.690 8.3.2).
\<close>

theorem integer_contents_shortest_roundtrip:
  "integer_decode_value (encode_integer_bytes n) = Inr n
   \<and> (integer_decode_value bs = Inr n \<longrightarrow> length (encode_integer_bytes n) \<le> length bs)
   \<and> 1 \<le> length (encode_integer_bytes n) \<and> length (encode_integer_bytes n) \<le> 8"
  using integer_roundtrip_value encode_integer_bytes_minimal encode_integer_bytes_length [of n]
  by (simp add: Suc_le_eq)

lemma integer_contents_shortest_witness: "length (encode_integer_bytes (- 129)) \<le> length [0xFF, 0xFF, 0x7F :: byte]"
  by (rule integer_contents_shortest_roundtrip [THEN conjunct2, THEN conjunct1, rule_format]) code_simp

section \<open>Unsigned integers\<close>

lemma be_bytes_8_nonempty [simp]: "be_bytes 8 v \<noteq> []"
  using length_be_bytes [of 8 v] by (metis list.size(3) zero_neq_numeral)

lemma skip_zeros_first: "skip_zeros bs ! 0 AND 0x80 = 0 \<Longrightarrow> bs ! 0 AND 0x80 = 0"
  by (induction bs rule: skip_zeros.induct) (auto split: if_splits)

lemma be_value_skip_zeros: "be_value (skip_zeros bs) = be_value bs"
  by (induction bs rule: skip_zeros.induct) (auto simp: be_value_Cons)

lemma skip_zeros_suffix: "drop (length bs - length (skip_zeros bs)) bs = skip_zeros bs"
proof (induction bs rule: skip_zeros.induct)
  case (1 x y zs)
  then show ?case
    using length_skip_zeros [of "y # zs"] by (auto simp: Suc_diff_le)
qed simp_all

lemma skip_zeros_msb:
  "length (skip_zeros bs) < length bs \<Longrightarrow> skip_zeros bs ! 0 AND 0x80 = 0"
proof (induction bs rule: skip_zeros.induct)
  case (1 x y zs)
  show ?case
  proof (cases "x = 0 \<and> y AND 0x80 = 0")
    case True
    with 1 show ?thesis
      using length_skip_zeros [of "y # zs"]
      by (cases "length (skip_zeros (y # zs)) = length (y # zs)")
         (use skip_zeros_suffix [of "y # zs"] in auto)
  next
    case False
    with 1(2) show ?thesis by auto
  qed
qed simp_all

lemma encode_uinteger_bytes_cases:
  assumes "v \<noteq> 0"
  defines "t \<equiv> skip_zeros (be_bytes 8 v)"
  shows "encode_uinteger_bytes v = (if t ! 0 AND 0x80 \<noteq> 0 then 0 # be_bytes 8 v else t)"
    "t ! 0 AND 0x80 \<noteq> 0 \<Longrightarrow> t = be_bytes 8 v"
proof -
  let ?b = "be_bytes 8 v"
  have suf: "drop (8 - length t) ?b = t" using skip_zeros_suffix [of ?b] by (simp add: t_def)
  have len: "length t \<le> 8" "t \<noteq> []"
    using length_skip_zeros [of ?b] length_be_bytes [of 8 v] unfolding t_def by (auto simp del: length_be_bytes)
  then have d: "drop (9 - length t) (0 # ?b) = t" using suf by (simp add: Suc_diff_le numeral_eq_Suc)
  then have h: "(0 # ?b) ! (9 - length t) = t ! 0"
    using len by (metis Cons_nth_drop_Suc drop_eq_Nil2 leI nth_Cons_0)
  show full: "t ! 0 AND 0x80 \<noteq> 0 \<Longrightarrow> t = ?b"
  proof -
    assume "t ! 0 AND 0x80 \<noteq> 0"
    then have "\<not> length t < 8" using skip_zeros_msb [of ?b] by (auto simp: t_def)
    with suf show "t = ?b" by simp
  qed
  show "encode_uinteger_bytes v = (if t ! 0 AND 0x80 \<noteq> 0 then 0 # ?b else t)"
  proof (cases "t ! 0 AND 0x80 = 0")
    case True
    with assms(1) d h show ?thesis by (simp add: encode_uinteger_bytes_def Let_def t_def)
  next
    case False
    with full have "t = ?b" by simp
    with False have "?b ! 0 AND 0x80 \<noteq> 0" "length (skip_zeros ?b) = 8" by (simp_all add: t_def)
    with assms(1) False show ?thesis by (simp add: encode_uinteger_bytes_def Let_def)
  qed
qed

lemma encode_uinteger_bytes_length:
  "encode_uinteger_bytes v \<noteq> []" "length (encode_uinteger_bytes v) \<le> 9"
proof -
  have "be_bytes 8 v \<noteq> []" using length_be_bytes [of 8 v] by fastforce
  then show "encode_uinteger_bytes v \<noteq> []" "length (encode_uinteger_bytes v) \<le> 9"
    using length_skip_zeros [of "be_bytes 8 v"] encode_uinteger_bytes_cases(1) [of v]
    by (cases "v = 0"; simp add: encode_uinteger_bytes_def)+
qed

lemma uinteger_roundtrip_value: "uinteger_decode_value (encode_uinteger_bytes v) = Inr v"
proof (cases "v = 0")
  case False
  let ?t = "skip_zeros (be_bytes 8 v)"
  have ne: "?t \<noteq> []" by simp
  have v: "shift_in 0 ?t = v" "shift_in 0 (be_bytes 8 v) = v"
    by (simp_all add: shift_in_eq be_value_skip_zeros be_value_be_bytes_8)
  show ?thesis
  proof (cases "?t ! 0 AND 0x80 = 0")
    case True
    with False ne v length_skip_zeros [of "be_bytes 8 v"] show ?thesis
      by (simp add: encode_uinteger_bytes_cases(1) uinteger_decode_value_def Let_def)
  next
    case msb: False
    with False v show ?thesis
      by (simp add: encode_uinteger_bytes_cases(1) uinteger_decode_value_def Let_def)
  qed
qed (simp add: encode_uinteger_bytes_def uinteger_decode_value_def shift_in_def Let_def)

text \<open>The contents octets of an unsigned value are those of the same non-negative integer.\<close>

lemma encode_uinteger_bytes_sbe: "sbe_value (encode_uinteger_bytes v) = uint v"
proof (cases "v = 0")
  case False
  let ?t = "skip_zeros (be_bytes 8 v)"
  have "sbe_value ys = int (be_value ys)" if "ys ! 0 AND 0x80 = 0" for ys
    using that by (cases ys) (auto simp: msb_byte sint_byte be_value_Cons split: if_splits)
  with False show ?thesis
    by (simp add: encode_uinteger_bytes_cases(1) be_value_skip_zeros be_value_be_bytes_8 be_value_Cons)
qed (simp add: encode_uinteger_bytes_def)

text \<open>
  Every \<open>uint64_t\<close> survives its BER contents octets, which are the
  two's-complement octets of that non-negative integer: a value with the top bit
  set gets a ninth, zero octet and is not read back as negative.
\<close>

theorem uinteger_contents_roundtrip:
  "uinteger_decode_value (encode_uinteger_bytes v) = Inr v
   \<and> sbe_value (encode_uinteger_bytes v) = uint v
   \<and> (length (encode_uinteger_bytes v) = 9 \<longleftrightarrow> 2 ^ 63 \<le> unat v)"
proof (intro conjI)
  show "uinteger_decode_value (encode_uinteger_bytes v) = Inr v" by (rule uinteger_roundtrip_value)
  show "sbe_value (encode_uinteger_bytes v) = uint v" by (rule encode_uinteger_bytes_sbe)
  show "length (encode_uinteger_bytes v) = 9 \<longleftrightarrow> 2 ^ 63 \<le> unat v"
  proof (cases "v = 0")
    case False
    obtain x xs where b: "be_bytes 8 v = x # xs" using length_be_bytes [of 8 v] by (cases "be_bytes 8 v") simp_all
    have s: "0 \<le> sint x \<longleftrightarrow> 0 \<le> sint v"
      using sbe_value_sign [of x xs] sbe_value_be_bytes_8 [of v] b by (simp del: sbe_value.simps)
    have v: "0 \<le> sint v \<longleftrightarrow> \<not> 2 ^ 63 \<le> unat v"
      using bit_top_iff [of v] unsigned_less [of v, where ?'a = int]
      by (auto simp: sint_eq_unat split: if_splits)
    show ?thesis
    proof (cases "skip_zeros (be_bytes 8 v) ! 0 AND 0x80 = 0")
      case True
      then have "x AND 0x80 = 0" using skip_zeros_first [of "be_bytes 8 v"] b by simp
      with True False s v length_skip_zeros [of "be_bytes 8 v"] show ?thesis
        by (simp add: encode_uinteger_bytes_cases(1) msb_byte)
    next
      case msb: False
      then have "skip_zeros (be_bytes 8 v) = be_bytes 8 v" using False by (rule encode_uinteger_bytes_cases(2) [rotated])
      moreover have "length (encode_uinteger_bytes v) = 9"
        using msb False by (simp add: encode_uinteger_bytes_cases(1))
      ultimately show ?thesis using msb b s v by (simp add: msb_byte)
    qed
  qed (simp add: encode_uinteger_bytes_def)
qed

end
