(* ===== verification/Per_Lengths.thy ===== *)
theory Per_Lengths
  imports Per_Stream Integer_Codec
begin

text \<open>
  The length determinants and whole numbers of PER: \<open>namespace per_detail\<close> of
  \<open>runtime/include/asn1cpp/codec/PerCodec.hpp\<close> and the utility functions at the top of
  \<open>runtime/src/PerCodec.cpp\<close>. A writer callback gets the range of items to write; a
  reader callback gets a count and threads the variables it captures. The locale
  \<open>item_codec\<close> is the contract between such a pair of callbacks and the length
  functions; inside it the general (fragmented), the constrained and the extensible
  form are shown to be read back.
\<close>

unbundle bit_operations_syntax

type_synonym write_items = "nat \<Rightarrow> nat \<Rightarrow> per_enc \<Rightarrow> per_enc"
type_synonym 's read_items = "nat \<Rightarrow> 's \<Rightarrow> per_dec \<Rightarrow> ('s \<times> per_dec) result"

section \<open>Length determinants\<close>

definition kFragmentUnit :: nat where
  "kFragmentUnit = 16384"

definition put_length :: "nat \<Rightarrow> per_enc \<Rightarrow> per_enc" where
  "put_length n s =
     (if n \<le> 127 then put_bits (of_nat n) 8 s
      else put_bits (of_nat n AND 0xFF) 8 (put_bits (0x80 OR drop_bit 8 (of_nat n)) 8 s))"

definition get_length :: "per_dec \<Rightarrow> (nat \<times> per_dec) result" where
  "get_length d =
     rbind (get_bits 8 d) (\<lambda>(first, d).
       if first AND 0x80 = 0 then Inr (unat first, d)
       else if first AND 0xC0 = 0x80 then
         rbind (get_bits 8 d) (\<lambda>(second, d). Inr (unat (push_bit 8 (first AND 0x3F) OR second), d))
       else Inl (DecodeError ''PER: fragmented length where a single length is required'' 0))"

function put_length_and_items_from :: "nat \<Rightarrow> write_items \<Rightarrow> nat \<Rightarrow> per_enc \<Rightarrow> per_enc" where
  "put_length_and_items_from n items start s =
     (let rem = n - start in
      if rem < kFragmentUnit then items start n (put_length rem s)
      else
        let k = min (rem div kFragmentUnit) 4 in
        put_length_and_items_from n items (start + k * kFragmentUnit)
          (items start (start + k * kFragmentUnit) (put_bits (0xC0 OR of_nat k) 8 s)))"
  by pat_completeness auto
termination
proof (relation "measure (\<lambda>(n, items, start, s). n - start)")
  fix n start rem k :: nat and items :: write_items and s :: per_enc
  assume "rem = n - start" "\<not> rem < kFragmentUnit" "k = min (rem div kFragmentUnit) 4"
  then have "0 < k" "start < n" by (auto simp: kFragmentUnit_def div_greater_zero_iff)
  then have "n - (start + k * kFragmentUnit) < n - start"
    by (intro diff_less_mono2) (auto simp: kFragmentUnit_def)
  then show "((n, items, start + k * kFragmentUnit,
      items start (start + k * kFragmentUnit) (put_bits (0xC0 OR of_nat k) 8 s)), n, items, start, s)
      \<in> measure (\<lambda>(n, items, start, s). n - start)" by simp
qed simp

declare put_length_and_items_from.simps [simp del]

definition put_length_and_items :: "nat \<Rightarrow> write_items \<Rightarrow> per_enc \<Rightarrow> per_enc" where
  "put_length_and_items n items s = put_length_and_items_from n items 0 s"

text \<open>
  The loop of \<open>get_length_and_items\<close>: every round reads an octet, so the octets of
  the stream bound the rounds.
\<close>

fun get_fragments :: "nat \<Rightarrow> 's read_items \<Rightarrow> nat \<Rightarrow> 's \<Rightarrow> per_dec \<Rightarrow> ((nat \<times> 's) \<times> per_dec) result" where
  "get_fragments 0 items tot st d = Inl OutOfFuel"
| "get_fragments (Suc fuel) items tot st d =
     rbind (get_bits 8 d) (\<lambda>(first, d).
       if first AND 0xC0 = 0xC0 then
         let k = unat (first AND 0x3F) in
         if k < 1 \<or> k > 4 then Inl (DecodeError ''PER: fragment multiplier outside 1..4'' 0)
         else rbind (items (k * kFragmentUnit) st d) (\<lambda>(st, d).
                get_fragments fuel items (tot + k * kFragmentUnit) st d)
       else
         rbind (if first AND 0x80 \<noteq> 0 then
                  rbind (get_bits 8 d) (\<lambda>(second, d). Inr (unat (push_bit 8 (first AND 0x3F) OR second), d))
                else Inr (unat first, d)) (\<lambda>(n, d).
         rbind (items n st d) (\<lambda>(st, d). Inr ((tot + n, st), d))))"

definition get_length_and_items :: "'s read_items \<Rightarrow> 's \<Rightarrow> per_dec \<Rightarrow> ((nat \<times> 's) \<times> per_dec) result" where
  "get_length_and_items items st d = get_fragments (Suc (length (pd_buf d))) items 0 st d"

section \<open>Octets\<close>

definition write_octets :: "byte list \<Rightarrow> write_items" where
  "write_octets data from to s = foldl (\<lambda>s i. put_bits (ucast (data ! i)) 8 s) s [from..<to]"

fun read_octets :: "byte list read_items" where
  "read_octets 0 out d = Inr (out, d)"
| "read_octets (Suc m) out d =
     rbind (get_bits 8 d) (\<lambda>(b, d). read_octets m (out @ [ucast b]) d)"

definition put_octets :: "byte list \<Rightarrow> per_enc \<Rightarrow> per_enc" where
  "put_octets data s = put_length_and_items (length data) (write_octets data) s"

definition get_octets :: "per_dec \<Rightarrow> (byte list \<times> per_dec) result" where
  "get_octets d = rbind (get_length_and_items read_octets [] d) (\<lambda>((_, out), d). Inr (out, d))"

text \<open>\<open>PerDecodeStream::skip_open_type\<close>.\<close>

definition skip_open_type :: "per_dec \<Rightarrow> per_dec result" where
  "skip_open_type d = rbind (get_octets d) (\<lambda>(_, d). Inr (d\<lparr>pd_skipped := pd_skipped d + 1\<rparr>))"

section \<open>Normally small numbers\<close>

definition kShortFormBits :: nat where "kShortFormBits = 6"
definition kNsLengthMax :: nat where "kNsLengthMax = 64"
definition kNsnnMax :: nat where "kNsnnMax = 63"

definition put_nslength :: "nat \<Rightarrow> per_enc \<Rightarrow> per_enc" where
  "put_nslength n s =
     (if n \<ge> 1 \<and> n \<le> kNsLengthMax then put_bits (of_nat n - 1) kShortFormBits (put_bits 0 1 s)
      else put_length n (put_bits 1 1 s))"

definition get_nslength :: "per_dec \<Rightarrow> (nat \<times> per_dec) result" where
  "get_nslength d =
     rbind (get_bits 1 d) (\<lambda>(b, d).
       if b = 0 then rbind (get_bits kShortFormBits d) (\<lambda>(v, d). Inr (unat (v + 1), d))
       else get_length d)"

text \<open>\<open>std::bit_width\<close>, and the count of the loop \<open>for (; r > 0; r >>= 1) ++bits\<close>.\<close>

fun bit_width :: "nat \<Rightarrow> nat" where
  "bit_width n = (if n = 0 then 0 else Suc (bit_width (n div 2)))"

declare bit_width.simps [simp del]

text \<open>\<open>for (i = len - 1; i >= 0; --i) put_bits((v >> (8 * i)) & 0xFF, 8);\<close>\<close>

fun put_be_octets :: "u64 \<Rightarrow> nat \<Rightarrow> per_enc \<Rightarrow> per_enc" where
  "put_be_octets v 0 s = s"
| "put_be_octets v (Suc i) s = put_be_octets v i (put_bits (drop_bit (8 * i) v AND 0xFF) 8 s)"

text \<open>
  The loops that shift in \<open>n\<close> octets and fail once bit \<open>lim\<close> or a higher one is set.
\<close>

fun get_be_octets :: "nat \<Rightarrow> decode_error \<Rightarrow> nat \<Rightarrow> u64 \<Rightarrow> per_dec \<Rightarrow> (u64 \<times> per_dec) result" where
  "get_be_octets lim err 0 v d = Inr (v, d)"
| "get_be_octets lim err (Suc n) v d =
     (if drop_bit lim v \<noteq> 0 then Inl err
      else rbind (get_bits 8 d) (\<lambda>(b, d). get_be_octets lim err n (push_bit 8 v OR b) d))"

text \<open>The \<open>int\<close> argument is an index or an ordinal, so it is a natural number.\<close>

definition put_nsnn :: "nat \<Rightarrow> per_enc \<Rightarrow> per_enc" where
  "put_nsnn n s =
     (if n \<le> kNsnnMax then put_bits (of_nat n) kShortFormBits (put_bits 0 1 s)
      else
        let v = of_nat n; len = (bit_width (unat v) + 7) div 8 in
        put_be_octets v len (put_length len (put_bits 1 1 s)))"

definition get_nsnn :: "per_dec \<Rightarrow> (nat \<times> per_dec) result" where
  "get_nsnn d =
     rbind (get_bits 1 d) (\<lambda>(b, d).
       if b = 0 then rbind (get_bits kShortFormBits d) (\<lambda>(v, d). Inr (unat v, d))
       else
         rbind (get_length d) (\<lambda>(len, d).
           if len = 0 then Inl (DecodeError ''PER: normally small number with no octets'' 0)
           else rbind (get_be_octets 23 (DecodeError ''PER: normally small number beyond int'' 0) len 0 d)
                  (\<lambda>(v, d). Inr (unat v, d))))"

definition per_range_bits :: "nat \<Rightarrow> nat" where
  "per_range_bits r = (if r \<le> 1 then 0 else bit_width (r - 1))"

section \<open>SIZE-governed lengths\<close>

definition size_count_is_constrained :: "constraints \<Rightarrow> bool" where
  "size_count_is_constrained pc \<longleftrightarrow> has_flag pc SIZE_CONSTRAINED \<and> size_upper pc < 65536"

definition encode_size_and_items :: "constraints \<Rightarrow> nat \<Rightarrow> write_items \<Rightarrow> per_enc \<Rightarrow> per_enc" where
  "encode_size_and_items pc n items s =
     (if size_count_is_constrained pc then
        if int n < size_lower pc \<or> int n > size_upper pc then per_set_encode_failed s
        else items 0 n (if size_range_bits pc > 0
                        then put_bits (of_nat n - of_int (size_lower pc)) (size_range_bits pc) s else s)
      else put_length_and_items n items s)"

definition decode_size_and_items ::
    "constraints \<Rightarrow> 's read_items \<Rightarrow> 's \<Rightarrow> per_dec \<Rightarrow> ((nat \<times> 's) \<times> per_dec) result" where
  "decode_size_and_items pc items st d =
     (if \<not> size_count_is_constrained pc then get_length_and_items items st d
      else
        rbind (if size_range_bits pc > 0 then
                 rbind (get_bits (size_range_bits pc) d) (\<lambda>(v, d). Inr (unat (of_int (size_lower pc) + v), d))
               else Inr (unat (of_int (size_lower pc) :: u64), d)) (\<lambda>(n, d).
        rbind (items n st d) (\<lambda>(st, d). Inr ((n, st), d))))"

definition encode_ext_size_and_items :: "constraints \<Rightarrow> nat \<Rightarrow> write_items \<Rightarrow> per_enc \<Rightarrow> per_enc" where
  "encode_ext_size_and_items pc n items s =
     (if has_flag pc EXTENSIBLE \<and> has_flag pc SIZE_CONSTRAINED then
        let in_root = (int n \<ge> size_lower pc \<and> int n \<le> size_upper pc);
            s = put_bits (if in_root then 0 else 1) 1 s
        in if \<not> in_root then put_length_and_items n items s else encode_size_and_items pc n items s
      else encode_size_and_items pc n items s)"

definition decode_ext_size_and_items ::
    "constraints \<Rightarrow> 's read_items \<Rightarrow> 's \<Rightarrow> per_dec \<Rightarrow> ((nat \<times> 's) \<times> per_dec) result" where
  "decode_ext_size_and_items pc items st d =
     (if has_flag pc EXTENSIBLE \<and> has_flag pc SIZE_CONSTRAINED then
        rbind (get_bits 1 d) (\<lambda>(ext, d).
          if ext \<noteq> 0 then get_length_and_items items st d else decode_size_and_items pc items st d)
      else decode_size_and_items pc items st d)"

section \<open>Whole numbers\<close>

definition unconstrained_octets :: "i64 \<Rightarrow> byte list" where
  "unconstrained_octets v =
     (if v = 0 then [0]
      else
        let buf = be_bytes 8 v in
        if 0 <s v then skip_zeros buf else skip_ones buf)"

definition encode_unconstrained_int :: "i64 \<Rightarrow> per_enc \<Rightarrow> per_enc" where
  "encode_unconstrained_int v s =
     (let buf = unconstrained_octets v; len = length buf in
      foldl (\<lambda>s i. put_bits (ucast (buf ! i)) 8 s) (put_bits (of_nat len) 8 s) [0..<len])"

definition encode_semi_constrained_int :: "u64 \<Rightarrow> per_enc \<Rightarrow> per_enc" where
  "encode_semi_constrained_int offset s =
     (let len = (if offset = 0 then 1 else (bit_width (unat offset) + 7) div 8) in
      put_be_octets offset len (put_bits (of_nat len) 8 s))"

definition decode_semi_constrained_int :: "per_dec \<Rightarrow> (u64 \<times> per_dec) result" where
  "decode_semi_constrained_int d =
     rbind (get_bits 8 d) (\<lambda>(len_bits, d).
       if len_bits = 0 then Inl (DecodeError ''PER: INTEGER length out of range'' 0)
       else get_be_octets 56 (DecodeError ''PER: semi-constrained INTEGER exceeds 64 bits'' 0)
              (unat len_bits) 0 d)"

text \<open>The octet loop of \<open>decode_unconstrained_int\<close>; the flag is \<open>i == 0\<close>.\<close>

fun get_signed_octets :: "nat \<Rightarrow> bool \<Rightarrow> i64 \<Rightarrow> per_dec \<Rightarrow> (i64 \<times> per_dec) result" where
  "get_signed_octets 0 first v d = Inr (v, d)"
| "get_signed_octets (Suc n) first v d =
     rbind (get_bits 8 d) (\<lambda>(b, d).
       let v = (if first \<and> b AND 0x80 \<noteq> 0 then - 1 else v)
       in get_signed_octets n False (push_bit 8 v OR b) d)"

definition decode_unconstrained_int :: "per_dec \<Rightarrow> (i64 \<times> per_dec) result" where
  "decode_unconstrained_int d =
     rbind (get_bits 8 d) (\<lambda>(len_bits, d).
       let len = unat len_bits in
       if len = 0 \<or> len > 8 then Inl (DecodeError ''PER: INTEGER length out of range'' 0)
       else get_signed_octets len True 0 d)"

section \<open>Single length determinants\<close>

lemma bit_nat_bound: "bit n i \<Longrightarrow> n < 2 ^ k \<Longrightarrow> i < k" for n :: nat
  by (metis bit_take_bit_iff take_bit_nat_eq_self)

lemma bit_octet_masks:
  "bit (0x80 :: int) i \<longleftrightarrow> i = 7" "bit (0xC0 :: int) i \<longleftrightarrow> i = 6 \<or> i = 7"
  "bit (0x3F :: int) i \<longleftrightarrow> i < 6" "bit (0xFF :: int) i \<longleftrightarrow> i < 8"
proof -
  have "(0x80 :: int) = push_bit 7 1" "(0xC0 :: int) = push_bit 6 (mask 2)" "(0x3F :: int) = mask 6"
    "(0xFF :: int) = mask 8"
    by (simp_all add: mask_eq_exp_minus_1 push_bit_eq_mult)
  then show "bit (0x80 :: int) i \<longleftrightarrow> i = 7" "bit (0xC0 :: int) i \<longleftrightarrow> i = 6 \<or> i = 7"
    "bit (0x3F :: int) i \<longleftrightarrow> i < 6" "bit (0xFF :: int) i \<longleftrightarrow> i < 8"
    by (auto simp only: bit_push_bit_iff bit_mask_iff bit_1_iff possible_bit_int)
qed

lemma long_length_octet:
  fixes w :: u64
  assumes b: "\<And>i. bit w i \<Longrightarrow> i < 14"
  defines "f \<equiv> 0x80 OR drop_bit 8 w"
  shows "take_bit 8 f = f" "f AND 0x80 \<noteq> 0" "f AND 0xC0 = 0x80"
    "push_bit 8 (f AND 0x3F) OR take_bit 8 (w AND 0xFF) = w"
proof -
  show "take_bit 8 f = f"
    unfolding f_def by (rule bit_eqI) (auto simp: bit_simps bit_octet_masks dest: b)
  have "bit (f AND 0x80) 7"
    unfolding f_def by (simp add: bit_simps bit_octet_masks)
  then show "f AND 0x80 \<noteq> 0" by (metis bit_0_eq bot_apply bot_bool_def)
  show "f AND 0xC0 = 0x80"
    unfolding f_def by (rule bit_eqI) (auto simp: bit_simps bit_octet_masks dest: b)
  show "push_bit 8 (f AND 0x3F) OR take_bit 8 (w AND 0xFF) = w"
  proof (rule bit_eqI)
    fix i
    show "bit (push_bit 8 (f AND 0x3F) OR take_bit 8 (w AND 0xFF)) i \<longleftrightarrow> bit w i"
      unfolding f_def bit_or_iff bit_push_bit_iff bit_and_iff bit_take_bit_iff bit_drop_bit_eq comp_def
      by (auto simp: bit_octet_masks dest: b bit_imp_le_length)
  qed
qed

lemma short_length_octet:
  fixes w :: u64
  assumes b: "\<And>i. bit w i \<Longrightarrow> i < 7"
  shows "take_bit 8 w = w" "w AND 0x80 = 0" "w AND 0xC0 \<noteq> 0xC0"
proof -
  show "take_bit 8 w = w"
    by (rule bit_eqI) (auto simp: bit_simps dest: b)
  have "\<not> bit (w AND 0xC0) 7" by (auto simp: bit_simps dest: b)
  then show "w AND 0xC0 \<noteq> 0xC0" by (auto simp: bit_octet_masks)
  show "w AND 0x80 = 0"
    by (rule bit_eqI) (auto simp: bit_simps bit_octet_masks dest: b)
qed

lemma bit_of_nat_bound: "n < 2 ^ k \<Longrightarrow> bit (of_nat n :: u64) i \<Longrightarrow> i < k"
  by (auto simp: bit_simps intro: bit_nat_bound)

definition length_bits :: "nat \<Rightarrow> bool list" where
  "length_bits n =
     (if n \<le> 127 then word_bits 8 (of_nat n :: u64)
      else word_bits 8 ((0x80 :: u64) OR drop_bit 8 (of_nat n)) @ word_bits 8 ((of_nat n :: u64) AND 0xFF))"

lemma length_length_bits: "8 \<le> length (length_bits n)"
  by (simp add: length_bits_def)

lemma appends_put_length: "appends (put_length n) (length_bits n)"
  by (simp add: appends_def put_length_def length_bits_def put_bits_emit emit_bits_append)

lemma unat_of_nat_u64: "n < 2 ^ 64 \<Longrightarrow> unat (of_nat n :: u64) = n"
  by (simp add: unat_of_nat take_bit_nat_eq_self_iff)

lemma reads_second_octet:
  assumes "n < 16384"
  shows "reads k (\<lambda>d. rbind (get_bits 8 d)
      (\<lambda>(second, d). Inr (unat (push_bit 8 (((0x80 :: u64) OR drop_bit 8 (of_nat n)) AND 0x3F) OR second), d)))
      (word_bits 8 ((of_nat n :: u64) AND 0xFF)) n"
proof -
  let ?w = "of_nat n :: u64"
  have "\<And>i. bit ?w i \<Longrightarrow> i < 14" using assms by (intro bit_of_nat_bound [of n 14]) auto
  note long = long_length_octet [OF this]
  show ?thesis
    using reads_map [OF reads_get_bits [of 8 k "?w AND 0xFF"],
        of "\<lambda>second. unat (push_bit 8 ((0x80 OR drop_bit 8 ?w) AND 0x3F) OR second)"]
      long(4) assms by (simp add: unat_of_nat_u64)
qed

lemma reads_get_length:
  assumes "n < 16384"
  shows "reads k get_length (length_bits n) n"
proof (cases "n \<le> 127")
  case True
  then have "\<And>i. bit (of_nat n :: u64) i \<Longrightarrow> i < 7" by (intro bit_of_nat_bound [of n 7]) auto
  note short = short_length_octet [OF this]
  have "reads k get_length (word_bits 8 (of_nat n :: u64) @ []) n"
    unfolding get_length_def
    by (rule reads_bind [OF reads_get_bits [of 8 _ "of_nat n"]])
       (use short True in \<open>simp_all add: unat_of_nat_u64 reads_return\<close>)
  then show ?thesis using True by (simp add: length_bits_def)
next
  case False
  let ?w = "of_nat n :: u64"
  have "\<And>i. bit ?w i \<Longrightarrow> i < 14" using assms by (intro bit_of_nat_bound [of n 14]) auto
  note long = long_length_octet [OF this]
  have "reads k get_length (word_bits 8 (0x80 OR drop_bit 8 ?w) @ word_bits 8 (?w AND 0xFF)) n"
    unfolding get_length_def
    by (intro reads_bind [OF reads_get_bits [of 8 _ "0x80 OR drop_bit 8 ?w"]])
       (use long reads_second_octet [OF assms] in simp_all)
  then show ?thesis using False by (simp add: length_bits_def)
qed

section \<open>A length and its items\<close>

lemma fragment_header:
  assumes "1 \<le> k" "k \<le> 4"
  shows "take_bit 8 ((0xC0 :: u64) OR of_nat k) = 0xC0 OR of_nat k"
    "((0xC0 :: u64) OR of_nat k) AND 0xC0 = 0xC0" "unat (((0xC0 :: u64) OR of_nat k) AND 0x3F) = k"
proof -
  have "k = 1 \<or> k = 2 \<or> k = 3 \<or> k = 4" using assms by linarith
  then show "take_bit 8 ((0xC0 :: u64) OR of_nat k) = 0xC0 OR of_nat k"
    "((0xC0 :: u64) OR of_nat k) AND 0xC0 = 0xC0" "unat (((0xC0 :: u64) OR of_nat k) AND 0x3F) = k"
    by (auto simp: take_bit_eq_mask mask_eq_exp_minus_1)
qed

text \<open>The last round: a single length determinant, then its items.\<close>

lemma reads_last_fragment:
  assumes "n < 16384" "reads k (items n st) bs st'"
  shows "reads k (get_fragments (Suc fuel) items tot st) (length_bits n @ bs) (tot + n, st')"
proof (cases "n \<le> 127")
  case True
  then have "\<And>i. bit (of_nat n :: u64) i \<Longrightarrow> i < 7" by (intro bit_of_nat_bound [of n 7]) auto
  note short = short_length_octet [OF this]
  have "reads k (\<lambda>d. rbind (items n st d) (\<lambda>(st, d). Inr ((tot + n, st), d))) bs (tot + n, st')"
    by (rule reads_map [OF assms(2)])
  then show ?thesis
    unfolding get_fragments.simps length_bits_def if_P [OF True]
    by (intro reads_bind [OF reads_get_bits [of 8 _ "of_nat n"]])
       (use short True in \<open>simp_all add: unat_of_nat_u64\<close>)
next
  case False
  let ?w = "of_nat n :: u64"
  let ?f = "0x80 OR drop_bit 8 ?w"
  have "\<And>i. bit ?w i \<Longrightarrow> i < 14" using assms by (intro bit_of_nat_bound [of n 14]) auto
  note long = long_length_octet [OF this]
  have ne: "?f AND 0xC0 \<noteq> 0xC0" using long(3) by simp
  have "reads k (\<lambda>d. rbind (items n st d) (\<lambda>(st, d). Inr ((tot + n, st), d))) bs (tot + n, st')"
    by (rule reads_map [OF assms(2)])
  then have "reads k (\<lambda>d. rbind (rbind (get_bits 8 d)
        (\<lambda>(second, d). Inr (unat (push_bit 8 (?f AND 0x3F) OR second), d)))
      (\<lambda>(n, d). rbind (items n st d) (\<lambda>(st, d). Inr ((tot + n, st), d))))
      (word_bits 8 (?w AND 0xFF) @ bs) (tot + n, st')"
    by (intro reads_bind [OF reads_second_octet [OF assms(1)]]) simp
  then have "reads k (get_fragments (Suc fuel) items tot st)
      (word_bits 8 ?f @ word_bits 8 (?w AND 0xFF) @ bs) (tot + n, st')"
    unfolding get_fragments.simps
    by (intro reads_bind [OF reads_get_bits [of 8 _ ?f]]) (use long ne in simp_all)
  then show ?thesis using False by (simp add: length_bits_def)
qed

lemma reads_fragment:
  assumes "1 \<le> m" "m \<le> 4" "reads k (items (m * kFragmentUnit) st) bs st'"
    "reads k (get_fragments fuel items (tot + m * kFragmentUnit) st') cs y"
  shows "reads k (get_fragments (Suc fuel) items tot st) (word_bits 8 ((0xC0 :: u64) OR of_nat m) @ bs @ cs) y"
proof -
  note h = fragment_header [OF assms(1,2)]
  have "reads k (\<lambda>d. rbind (items (m * kFragmentUnit) st d)
      (\<lambda>(st, d). get_fragments fuel items (tot + m * kFragmentUnit) st d)) (bs @ cs) y"
    by (rule reads_bind [OF assms(3)]) (rule assms(4))
  then show ?thesis
    unfolding get_fragments.simps
    by (intro reads_bind [OF reads_get_bits [of 8 _ "0xC0 OR of_nat m"]])
       (use h assms(1,2) in \<open>simp_all add: Let_def\<close>)
qed

text \<open>
  A usable SIZE constraint: the width of its field holds every offset. \<open>put_size\<close> and
  \<open>get_size\<close> name the count field of the constrained form.
\<close>

definition size_wf :: "constraints \<Rightarrow> bool" where
  "size_wf pc \<longleftrightarrow> (size_count_is_constrained pc \<longrightarrow>
     0 \<le> size_lower pc \<and> size_range_bits pc \<le> 64 \<and> size_upper pc - size_lower pc < 2 ^ size_range_bits pc)"

definition put_size :: "constraints \<Rightarrow> nat \<Rightarrow> per_enc \<Rightarrow> per_enc" where
  "put_size pc n s =
     (if size_range_bits pc > 0 then put_bits (of_nat n - of_int (size_lower pc)) (size_range_bits pc) s else s)"

definition get_size :: "constraints \<Rightarrow> per_dec \<Rightarrow> (nat \<times> per_dec) result" where
  "get_size pc d =
     (if size_range_bits pc > 0 then
        rbind (get_bits (size_range_bits pc) d) (\<lambda>(v, d). Inr (unat (of_int (size_lower pc) + v), d))
      else Inr (unat (of_int (size_lower pc) :: u64), d))"

lemma take_bit_of_nat_u64: "n < 2 ^ k \<Longrightarrow> take_bit k (of_nat n :: u64) = of_nat n"
  by (metis take_bit_nat_eq_self take_bit_of_nat)

lemma size_field_contract:
  assumes "size_wf pc" "size_count_is_constrained pc" "size_lower pc \<le> int n" "int n \<le> size_upper pc"
  shows "\<exists>bs. appends (put_size pc n) bs \<and> reads k (get_size pc) bs n"
proof -
  let ?b = "size_range_bits pc"
  obtain l where l: "size_lower pc = int l"
    using assms(1,2) unfolding size_wf_def by (metis nonneg_int_cases)
  have "int n - int l < 2 ^ ?b" "l \<le> n" using assms l by (auto simp: size_wf_def)
  then have nl: "n - l < 2 ^ ?b" "l \<le> n" by (simp_all flip: of_nat_diff)
  have b: "?b \<le> 64" and n: "n < 65536"
    using assms by (auto simp: size_wf_def size_count_is_constrained_def)
  have diff: "(of_nat n - of_nat l :: u64) = of_nat (n - l)" using nl(2) by (simp add: of_nat_diff)
  show ?thesis
  proof (cases "?b > 0")
    case True
    have "reads k (get_size pc) (word_bits ?b (of_nat (n - l) :: u64)) (unat (of_nat l + take_bit ?b (of_nat (n - l)) :: u64))"
      using reads_map [OF reads_get_bits [OF b, of k "of_nat (n - l)"], of "\<lambda>v. unat (of_nat l + v)"] True l
      by (simp add: get_size_def [abs_def])
    moreover have "unat (of_nat l + take_bit ?b (of_nat (n - l)) :: u64) = n"
      unfolding take_bit_of_nat_u64 [OF nl(1)] using nl n by (simp add: unat_of_nat_u64)
    moreover have "appends (put_size pc n) (word_bits ?b (of_nat (n - l) :: u64))"
      using appends_put_bits [of "of_nat (n - l)" ?b] True l diff by (simp add: appends_def put_size_def)
    ultimately show ?thesis by auto
  next
    case False
    then have "n = l" using nl by simp
    with False l n have "appends (put_size pc n) []" "reads k (get_size pc) [] n"
      by (simp_all add: appends_def put_size_def get_size_def [abs_def] unat_of_nat_u64 reads_return)
    then show ?thesis by blast
  qed
qed

locale item_codec =
  fixes put_span :: write_items
    and get_span :: "'s read_items"
    and state :: "nat \<Rightarrow> 's"
    and count :: nat
    and levels :: nat
  assumes span: "from \<le> to \<Longrightarrow> to \<le> count \<Longrightarrow>
    \<exists>bs. appends (put_span from to) bs \<and> reads levels (get_span (to - from) (state from)) bs (state to)"
begin

lemma fragments_contract:
  "start \<le> count \<Longrightarrow>
   \<exists>bs. appends (put_length_and_items_from count put_span start) bs \<and>
     (\<forall>fuel. length bs < 8 * fuel \<longrightarrow> reads levels (get_fragments fuel get_span start (state start)) bs (count, state count))"
proof (induction "count - start" arbitrary: start rule: less_induct)
  case less
  let ?rem = "count - start"
  show ?case
  proof (cases "?rem < kFragmentUnit")
    case True
    obtain bs where bs: "appends (put_span start count) bs" "reads levels (get_span ?rem (state start)) bs (state count)"
      using span [OF less.prems order_refl] by blast
    have "appends (put_length_and_items_from count put_span start) (length_bits ?rem @ bs)"
      using appends_comp [OF appends_put_length bs(1), of ?rem] True
      by (simp add: appends_def put_length_and_items_from.simps [of count put_span start])
    moreover have "reads levels (get_fragments fuel get_span start (state start)) (length_bits ?rem @ bs) (count, state count)"
      if "length (length_bits ?rem @ bs) < 8 * fuel" for fuel
      using that reads_last_fragment [where items = get_span and n = ?rem and tot = start and fuel = "fuel - 1", OF _ bs(2)] True less.prems
      by (cases fuel) (simp_all add: kFragmentUnit_def)
    ultimately show ?thesis by blast
  next
    case False
    define m where "m = min (?rem div kFragmentUnit) 4"
    have m: "1 \<le> m" "m \<le> 4" using False by (auto simp: m_def kFragmentUnit_def div_greater_zero_iff)
    have "m * kFragmentUnit \<le> (?rem div kFragmentUnit) * kFragmentUnit" by (simp add: m_def)
    then have le: "m * kFragmentUnit \<le> ?rem"
      using div_times_less_eq_dividend [of ?rem kFragmentUnit] by linarith
    define next_start where "next_start = start + m * kFragmentUnit"
    have nx: "start \<le> next_start" "next_start \<le> count" "next_start - start = m * kFragmentUnit"
      using le less.prems by (auto simp: next_start_def)
    have "0 < m * kFragmentUnit" using m by (simp add: kFragmentUnit_def)
    then have "count - next_start < ?rem" using le unfolding next_start_def by linarith
    from less.hyps [OF this nx(2)] obtain cs where cs:
      "appends (put_length_and_items_from count put_span next_start) cs"
      "\<And>fuel. length cs < 8 * fuel \<Longrightarrow>
         reads levels (get_fragments fuel get_span next_start (state next_start)) cs (count, state count)" by blast
    obtain bs where bs: "appends (put_span start next_start) bs"
      "reads levels (get_span (m * kFragmentUnit) (state start)) bs (state next_start)"
      using span [OF nx(1,2)] nx(3) by auto
    let ?all = "word_bits 8 ((0xC0 :: u64) OR of_nat m) @ bs @ cs"
    have "appends (put_length_and_items_from count put_span start) ?all"
      using appends_comp [OF appends_put_bits appends_comp [OF bs(1) cs(1)], of "0xC0 OR of_nat m" 8] False
      by (simp add: appends_def put_length_and_items_from.simps [of count put_span start] Let_def
          flip: m_def next_start_def)
    moreover have "reads levels (get_fragments fuel get_span start (state start)) ?all (count, state count)"
      if fuel: "length ?all < 8 * fuel" for fuel
    proof -
      obtain f where f: "fuel = Suc f" using fuel by (cases fuel) simp_all
      show ?thesis
        unfolding f
        by (rule reads_fragment [where items = get_span, OF m bs(2)]) (use cs(2) [of f] fuel f in \<open>simp add: next_start_def\<close>)
    qed
    ultimately show ?thesis by blast
  qed
qed

lemma general_contract:
  "\<exists>bs. appends (put_length_and_items count put_span) bs
      \<and> reads levels (get_length_and_items get_span (state 0)) bs (count, state count)"
proof -
  obtain bs where bs: "appends (put_length_and_items_from count put_span 0) bs"
    "\<And>fuel. length bs < 8 * fuel \<Longrightarrow> reads levels (get_fragments fuel get_span 0 (state 0)) bs (count, state count)"
    using fragments_contract [of 0] by auto
  have "reads levels (get_length_and_items get_span (state 0)) bs (count, state count)"
  proof (rule readsI)
    fix d rest
    assume d: "dec_ok d" "pd_depth d + levels \<le> kMaxDecodeDepth" "dec_bits d = bs @ rest"
    have "length bs \<le> length (dec_bits d)" using d(3) by simp
    also have "\<dots> \<le> 8 * length (pd_buf d)" by (simp add: dec_bits_def)
    finally have "length bs < 8 * Suc (length (pd_buf d))" by simp
    from readsD [OF bs(2) [OF this] d] show
      "get_length_and_items get_span (state 0) d = Inr ((count, state count), advance (length bs) d)"
      by (simp add: get_length_and_items_def)
  qed
  moreover have "appends (put_length_and_items count put_span) bs"
    using bs(1) by (simp add: appends_def put_length_and_items_def)
  ultimately show ?thesis by blast
qed

text \<open>The forms a SIZE constraint selects.\<close>

lemma size_contract:
  assumes "size_wf pc" "size_count_is_constrained pc \<Longrightarrow> size_lower pc \<le> int count \<and> int count \<le> size_upper pc"
  shows "\<exists>bs. appends (encode_size_and_items pc count put_span) bs
       \<and> reads levels (decode_size_and_items pc get_span (state 0)) bs (count, state count)"
proof (cases "size_count_is_constrained pc")
  case False
  then show ?thesis
    using general_contract by (simp add: encode_size_and_items_def decode_size_and_items_def [abs_def] appends_def)
next
  case True
  note range = assms(2) [OF True]
  obtain bs where bs: "appends (put_span 0 count) bs" "reads levels (get_span count (state 0)) bs (state count)"
    using span [of 0 count] by auto
  have enc: "encode_size_and_items pc count put_span s = put_span 0 count (put_size pc count s)" for s
    using True range by (simp add: encode_size_and_items_def put_size_def)
  have dec: "decode_size_and_items pc get_span (state 0)
      = (\<lambda>d. rbind (get_size pc d) (\<lambda>(n, d). rbind (get_span n (state 0) d) (\<lambda>(st, d). Inr ((n, st), d))))"
    using True by (simp add: decode_size_and_items_def [abs_def] get_size_def)
  obtain a where a: "appends (put_size pc count) a" "reads levels (get_size pc) a count"
    using size_field_contract [OF assms(1) True] range by blast
  have "appends (encode_size_and_items pc count put_span) (a @ bs)"
    using appends_comp [OF a(1) bs(1)] by (simp add: appends_def enc)
  moreover have "reads levels (decode_size_and_items pc get_span (state 0)) (a @ bs) (count, state count)"
    unfolding dec by (rule reads_bind [OF a(2)]) (rule reads_map [OF bs(2)])
  ultimately show ?thesis by blast
qed

lemma ext_size_contract:
  assumes "size_wf pc"
    "size_count_is_constrained pc \<Longrightarrow> \<not> has_flag pc EXTENSIBLE \<Longrightarrow> size_lower pc \<le> int count \<and> int count \<le> size_upper pc"
  shows "\<exists>bs. appends (encode_ext_size_and_items pc count put_span) bs
       \<and> reads levels (decode_ext_size_and_items pc get_span (state 0)) bs (count, state count)"
proof (cases "has_flag pc EXTENSIBLE \<and> has_flag pc SIZE_CONSTRAINED")
  case False
  then have "\<exists>bs. appends (encode_size_and_items pc count put_span) bs
       \<and> reads levels (decode_size_and_items pc get_span (state 0)) bs (count, state count)"
    by (intro size_contract assms) (auto simp: size_count_is_constrained_def)
  moreover have "encode_ext_size_and_items pc count put_span = encode_size_and_items pc count put_span"
    "decode_ext_size_and_items pc get_span (state 0) = decode_size_and_items pc get_span (state 0)"
    unfolding encode_ext_size_and_items_def [abs_def] decode_ext_size_and_items_def [abs_def] if_not_P [OF False]
    by simp_all
  ultimately show ?thesis by simp
next
  case ext: True
  let ?in_root = "size_lower pc \<le> int count \<and> int count \<le> size_upper pc"
  have "\<exists>bs. appends (if ?in_root then encode_size_and_items pc count put_span
                      else put_length_and_items count put_span) bs
       \<and> reads levels (\<lambda>d. if (if ?in_root then 0 else 1 :: u64) \<noteq> 0 then get_length_and_items get_span (state 0) d
                           else decode_size_and_items pc get_span (state 0) d) bs (count, state count)"
    using size_contract [OF assms(1)] general_contract by simp
  then obtain bs where bs: "appends (if ?in_root then encode_size_and_items pc count put_span
                      else put_length_and_items count put_span) bs"
    "reads levels (\<lambda>d. if (if ?in_root then 0 else 1 :: u64) \<noteq> 0 then get_length_and_items get_span (state 0) d
                           else decode_size_and_items pc get_span (state 0) d) bs (count, state count)" by blast
  have "appends (encode_ext_size_and_items pc count put_span) (word_bits 1 (if ?in_root then 0 else 1 :: u64) @ bs)"
  proof -
    have "encode_ext_size_and_items pc count put_span s
        = (if ?in_root then encode_size_and_items pc count put_span else put_length_and_items count put_span)
            (put_bits (if ?in_root then 0 else 1) 1 s)" for s
      using ext by (simp only: encode_ext_size_and_items_def Let_def) simp
    then show ?thesis
      using appends_comp [OF appends_put_bits bs(1), of "if ?in_root then 0 else 1" 1]
      by (simp only: appends_def simp_thms)
  qed
  moreover have "reads levels (decode_ext_size_and_items pc get_span (state 0))
      (word_bits 1 (if ?in_root then 0 else 1 :: u64) @ bs) (count, state count)"
    unfolding decode_ext_size_and_items_def [abs_def] if_P [OF ext]
    by (rule reads_bind [OF reads_get_bits [of 1 _ "if ?in_root then 0 else 1"]]) (use bs(2) in \<open>auto split: if_splits\<close>)
  ultimately show ?thesis by blast
qed

end

section \<open>Octets are read back\<close>

lemma bits_of_octet_word: "word_bits 8 (ucast (b :: byte) :: u64) = octet_bits b"
  by (rule word_bits_ucast) simp_all

lemma appends_write_octets:
  "from \<le> to \<Longrightarrow> to \<le> length data \<Longrightarrow>
     appends (write_octets data from to) (bits_of_octets (take (to - from) (drop from data)))"
proof (induction to)
  case (Suc to)
  show ?case
  proof (cases "from = Suc to")
    case False
    with Suc.prems have le: "from \<le> to" by simp
    then have "take (Suc to - from) (drop from data) = take (to - from) (drop from data) @ [data ! to]"
      using Suc.prems by (simp add: Suc_diff_le take_Suc_conv_app_nth)
    moreover have "write_octets data from (Suc to) s = put_bits (ucast (data ! to)) 8 (write_octets data from to s)" for s
      using le by (simp add: write_octets_def)
    ultimately show ?thesis
      using appends_comp [OF Suc.IH appends_put_bits [of "ucast (data ! to)" 8]] le Suc.prems
      by (simp add: appends_def bits_of_octets_Cons bits_of_octet_word)
  qed (simp add: appends_def write_octets_def)
qed (simp add: appends_def write_octets_def)

lemma reads_octets: "reads k (read_octets (length bs) out) (bits_of_octets bs) (out @ bs)"
proof (induction bs arbitrary: out)
  case Nil
  then show ?case by (simp add: reads_return)
next
  case (Cons b bs)
  have b: "ucast (take_bit 8 (ucast b :: u64)) = b"
    by (rule bit_eqI) (auto simp: bit_simps)
  have "reads k (\<lambda>d. rbind (get_bits 8 d) (\<lambda>(b, d). read_octets (length bs) (out @ [ucast b]) d))
     (word_bits 8 (ucast b :: u64) @ bits_of_octets bs) (out @ b # bs)"
    by (rule reads_bind [OF reads_get_bits]) (use Cons [of "out @ [b]"] b in simp_all)
  then show ?case by (simp add: bits_of_octets_Cons bits_of_octet_word fun_eq_iff [symmetric])
qed

interpretation octet_items: item_codec "write_octets data" read_octets "\<lambda>i. take i data" "length data" k for data k
proof unfold_locales
  fix i j
  assume le: "i \<le> j" "j \<le> length data"
  let ?xs = "take (j - i) (drop i data)"
  have "length ?xs = j - i" "take i data @ ?xs = take j data"
    using le by (simp_all add: take_add [symmetric])
  with appends_write_octets [OF le] reads_octets [of k ?xs "take i data"]
  show "\<exists>bs. appends (write_octets data i j) bs
      \<and> reads k (read_octets (j - i) (take i data)) bs (take j data)" by auto
qed

lemma put_octets_contract: "\<exists>bs. appends (put_octets data) bs \<and> reads k get_octets bs data"
proof -
  obtain bs where bs: "appends (put_length_and_items (length data) (write_octets data)) bs"
    "reads k (get_length_and_items read_octets []) bs (length data, data)"
    using octet_items.general_contract [of data k] by auto
  have "reads k (\<lambda>d. rbind (get_length_and_items read_octets [] d) (\<lambda>(x, d). Inr (snd x, d))) bs data"
    using reads_map [OF bs(2), of snd] by simp
  then have "reads k get_octets bs data"
    by (simp add: get_octets_def [abs_def] case_prod_unfold)
  with bs(1) show ?thesis by (auto simp: appends_def put_octets_def)
qed

interpretation octets: bit_codec put_octets get_octets "\<lambda>_. True" k for k
  by unfold_locales (rule put_octets_contract)

section \<open>Big-endian numbers\<close>

lemma word_bits_add: "word_bits (m + n) v = word_bits m (drop_bit n v) @ word_bits n v"
  by (induction m) (auto simp: bit_drop_bit_eq add.commute)

lemma appends_put_be_octets: "appends (put_be_octets v n) (word_bits (8 * n) v)"
proof (induction n)
  case 0
  then show ?case by (simp add: appends_def)
next
  case (Suc n)
  have "word_bits 8 (drop_bit (8 * n) v AND 0xFF) = word_bits 8 (drop_bit (8 * n) v)"
    by (rule word_bits_cong) (auto simp: bit_simps bit_octet_masks)
  with appends_comp [OF appends_put_bits Suc, of "drop_bit (8 * n) v AND 0xFF" 8]
  show ?case using word_bits_add [of 8 "8 * n" v] by (simp add: appends_def)
qed

lemma shift_in_digit:
  "push_bit 8 (drop_bit (8 * Suc n) w) OR take_bit 8 (drop_bit (8 * n) w) = drop_bit (8 * n) w" for w :: u64
proof (rule bit_eqI)
  fix i
  assume "possible_bit TYPE(u64) i"
  moreover have "8 * Suc n + (i - 8) = 8 * n + i" if "8 \<le> i" using that by simp
  ultimately show "bit (push_bit 8 (drop_bit (8 * Suc n) w) OR take_bit 8 (drop_bit (8 * n) w)) i
      \<longleftrightarrow> bit (drop_bit (8 * n) w) i"
    unfolding bit_or_iff bit_push_bit_iff bit_take_bit_iff bit_drop_bit_eq comp_def
    by (auto dest: bit_imp_le_length)
qed

lemma reads_get_be_octets:
  assumes "drop_bit (lim + 8) w = 0"
  shows "reads k (get_be_octets lim err n (drop_bit (8 * n) w)) (word_bits (8 * n) w) w"
proof (induction n)
  case 0
  then show ?case by (simp add: reads_return)
next
  case (Suc n)
  have z: "drop_bit lim (drop_bit (8 * Suc n) w) = 0"
  proof (rule bit_eqI)
    fix i
    have "\<not> bit (drop_bit (lim + 8) w) (8 * n + i)" by (simp add: assms)
    then show "bit (drop_bit lim (drop_bit (8 * Suc n) w)) i \<longleftrightarrow> bit (0 :: u64) i"
      by (simp add: bit_drop_bit_eq algebra_simps)
  qed
  have "reads k (\<lambda>d. rbind (get_bits 8 d)
      (\<lambda>(b, d). get_be_octets lim err n (push_bit 8 (drop_bit (8 * Suc n) w) OR b) d))
      (word_bits 8 (drop_bit (8 * n) w) @ word_bits (8 * n) w) w"
    by (rule reads_bind [OF reads_get_bits]) (use Suc shift_in_digit [of n w] in simp_all)
  with z show ?case using word_bits_add [of 8 "8 * n" w] by simp
qed

lemma bit_width_bound: "n < 2 ^ bit_width n"
proof (induction n rule: bit_width.induct)
  case (1 n)
  then show ?case by (subst bit_width.simps) auto
qed

lemma bit_width_le: "n < 2 ^ k \<Longrightarrow> bit_width n \<le> k"
proof (induction n arbitrary: k rule: bit_width.induct)
  case (1 n)
  show ?case
  proof (cases "n = 0")
    case False
    then obtain j where "k = Suc j" using 1(2) by (cases k) auto
    moreover have "n div 2 < 2 ^ j" using 1(2) \<open>k = Suc j\<close> by simp
    ultimately show ?thesis using 1(1) False by (subst bit_width.simps) simp
  qed (simp add: bit_width.simps)
qed

lemma drop_bit_zero: "unat w < 2 ^ k \<Longrightarrow> drop_bit k w = 0" for w :: u64
proof -
  assume "unat w < 2 ^ k"
  then have "unat (drop_bit k w) = 0" by (subst unat_drop_bit_eq) (simp add: drop_bit_eq_div)
  then show ?thesis by (simp only: unat_eq_zero)
qed

lemma octet_count_bound:
  fixes w :: u64
  defines "len \<equiv> (bit_width (unat w) + 7) div 8"
  shows "drop_bit (8 * len) w = 0" "unat w < 2 ^ k \<Longrightarrow> len \<le> (k + 7) div 8"
proof -
  have "bit_width (unat w) \<le> 8 * len" unfolding len_def by linarith
  then have "unat w < 2 ^ (8 * len)"
    using bit_width_bound [of "unat w"] by (meson less_le_trans one_le_numeral power_increasing)
  then show "drop_bit (8 * len) w = 0" by (rule drop_bit_zero)
  assume "unat w < 2 ^ k"
  then show "len \<le> (k + 7) div 8" unfolding len_def by (intro div_le_mono add_right_mono bit_width_le)
qed

section \<open>Numbers are read back\<close>

lemma put_nslength_contract:
  assumes "n < 16384"
  shows "\<exists>bs. appends (put_nslength n) bs \<and> reads k get_nslength bs n"
proof (cases "n \<ge> 1 \<and> n \<le> 64")
  case True
  define w where "w = (of_nat (n - 1) :: u64)"
  have "take_bit 6 w = w" unfolding w_def using True by (intro take_bit_of_nat_u64) auto
  moreover have "of_nat n - 1 = w" "unat (w + 1) = n"
    using True by (simp_all add: w_def of_nat_diff unat_of_nat_u64)
  ultimately have w: "of_nat n - 1 = w" "take_bit 6 w = w" "unat (w + 1) = n" by simp_all
  have "reads k (\<lambda>d. rbind (get_bits 6 d) (\<lambda>(v, d). Inr (unat (v + 1), d))) (word_bits 6 w) n"
    using reads_map [OF reads_get_bits [of 6 k w], of "\<lambda>v. unat (v + 1)"] w by simp
  then have "reads k get_nslength (word_bits 1 (0 :: u64) @ word_bits 6 w) n"
    unfolding get_nslength_def [abs_def] kShortFormBits_def
    by (intro reads_bind [OF reads_get_bits [of 1 _ 0]]) simp_all
  moreover have "appends (put_nslength n) (word_bits 1 (0 :: u64) @ word_bits 6 w)"
    using appends_comp [OF appends_put_bits [of 0 1] appends_put_bits [of w 6]] True w(1)
    by (simp add: appends_def put_nslength_def kNsLengthMax_def kShortFormBits_def)
  ultimately show ?thesis by blast
next
  case False
  have "reads k get_nslength (word_bits 1 (1 :: u64) @ length_bits n) n"
    unfolding get_nslength_def [abs_def]
    by (rule reads_bind [OF reads_get_bits [of 1 _ 1]]) (use reads_get_length [OF assms] in simp_all)
  moreover have "appends (put_nslength n) (word_bits 1 (1 :: u64) @ length_bits n)"
    unfolding put_nslength_def [abs_def] kNsLengthMax_def if_not_P [OF False]
    by (rule appends_comp [OF appends_put_bits appends_put_length])
  ultimately show ?thesis by blast
qed

lemma put_nsnn_contract:
  assumes "n < 2 ^ 31"
  shows "\<exists>bs. appends (put_nsnn n) bs \<and> reads k get_nsnn bs n"
proof (cases "n \<le> 63")
  case True
  have "take_bit 6 (of_nat n :: u64) = of_nat n" using True by (intro take_bit_of_nat_u64) auto
  then have "reads k (\<lambda>d. rbind (get_bits 6 d) (\<lambda>(v, d). Inr (unat v, d))) (word_bits 6 (of_nat n :: u64)) n"
    using reads_map [OF reads_get_bits [of 6 k "of_nat n"], of unat] True by (simp add: unat_of_nat_u64)
  then have "reads k get_nsnn (word_bits 1 (0 :: u64) @ word_bits 6 (of_nat n :: u64)) n"
    unfolding get_nsnn_def [abs_def] kShortFormBits_def
    by (intro reads_bind [OF reads_get_bits [of 1 _ 0]]) simp_all
  moreover have "appends (put_nsnn n) (word_bits 1 (0 :: u64) @ word_bits 6 (of_nat n :: u64))"
    using appends_comp [OF appends_put_bits [of 0 1] appends_put_bits [of "of_nat n" 6]] True
    by (simp add: appends_def put_nsnn_def kNsnnMax_def kShortFormBits_def)
  ultimately show ?thesis by blast
next
  case False
  let ?w = "of_nat n :: u64"
  define len where "len = (bit_width (unat ?w) + 7) div 8"
  have u: "unat ?w = n" using assms by (simp add: unat_of_nat_u64)
  have len: "len \<le> 4" using octet_count_bound(2) [of ?w 31] assms u by (simp add: len_def)
  have "0 < bit_width (unat ?w)" using False u by (subst bit_width.simps) simp
  then have pos: "0 < len" unfolding len_def by linarith
  have "drop_bit 31 ?w = 0" using assms u by (intro drop_bit_zero) simp
  then have "reads k (get_be_octets 23 err len 0) (word_bits (8 * len) ?w) ?w" for err
    using reads_get_be_octets [of 23 ?w k err len] octet_count_bound(1) [of ?w] by (simp add: len_def)
  then have "reads k (\<lambda>d. rbind (get_be_octets 23 err len 0 d) (\<lambda>(v, d). Inr (unat v, d))) (word_bits (8 * len) ?w) n" for err
    using reads_map [of k _ _ ?w unat] u by fastforce
  then have "reads k (\<lambda>d. rbind (get_length d) (\<lambda>(len, d).
           if len = 0 then Inl (DecodeError ''PER: normally small number with no octets'' 0)
           else rbind (get_be_octets 23 (DecodeError ''PER: normally small number beyond int'' 0) len 0 d)
                  (\<lambda>(v, d). Inr (unat v, d)))) (length_bits len @ word_bits (8 * len) ?w) n"
    by (intro reads_bind [OF reads_get_length]) (use len pos in simp_all)
  then have "reads k get_nsnn (word_bits 1 (1 :: u64) @ length_bits len @ word_bits (8 * len) ?w) n"
    unfolding get_nsnn_def [abs_def] by (intro reads_bind [OF reads_get_bits [of 1 _ 1]]) simp_all
  moreover have "appends (put_nsnn n) (word_bits 1 (1 :: u64) @ length_bits len @ word_bits (8 * len) ?w)"
    using appends_comp [OF appends_put_bits [of 1 1] appends_comp [OF appends_put_length [of len] appends_put_be_octets]] False
    by (simp add: appends_def put_nsnn_def kNsnnMax_def Let_def flip: len_def)
  ultimately show ?thesis by blast
qed

lemma semi_constrained_contract:
  "\<exists>bs. appends (encode_semi_constrained_int w) bs \<and> reads k decode_semi_constrained_int bs w"
proof -
  define len where "len = (if w = 0 then 1 else (bit_width (unat w) + 7) div 8)"
  have len: "len \<le> 8" using octet_count_bound(2) [of w 64] unsigned_less [of w, where ?'a = nat] by (simp add: len_def)
  have "0 < bit_width (unat w)" if "w \<noteq> 0" using that by (subst bit_width.simps) (simp add: unat_eq_zero)
  then have pos: "0 < len" by (cases "w = 0") (force simp: len_def)+
  have z: "drop_bit (8 * len) w = 0" using octet_count_bound(1) [of w] by (auto simp: len_def)
  have "drop_bit (56 + 8) w = 0" by (rule bit_eqI) (simp add: bit_drop_bit_eq bit_imp_le_length)
  then have "reads k (get_be_octets 56 err len 0) (word_bits (8 * len) w) w" for err
    using reads_get_be_octets [of 56 w k err len] z by simp
  moreover have "take_bit 8 (of_nat len :: u64) = of_nat len" "unat (of_nat len :: u64) = len" "(of_nat len :: u64) \<noteq> 0"
    using len pos by (auto simp: take_bit_of_nat_u64 unat_of_nat_u64 word_unat_eq_iff)
  ultimately have "reads k decode_semi_constrained_int (word_bits 8 (of_nat len :: u64) @ word_bits (8 * len) w) w"
    unfolding decode_semi_constrained_int_def [abs_def]
    by (intro reads_bind [OF reads_get_bits [of 8 _ "of_nat len"]]) simp_all
  moreover have "appends (encode_semi_constrained_int w) (word_bits 8 (of_nat len :: u64) @ word_bits (8 * len) w)"
    using appends_comp [OF appends_put_bits [of "of_nat len" 8] appends_put_be_octets]
    by (simp add: appends_def encode_semi_constrained_int_def Let_def flip: len_def)
  ultimately show ?thesis by blast
qed

lemma reads_signed_octets:
  "reads k (get_signed_octets (length bs) first v) (bits_of_octets bs)
     (shift_in (if first \<and> bs \<noteq> [] \<and> bs ! 0 AND 0x80 \<noteq> 0 then - 1 else v) bs)"
proof (induction bs arbitrary: first v)
  case Nil
  then show ?case by (simp add: shift_in_def reads_return)
next
  case (Cons b bs)
  have b: "take_bit 8 (ucast b :: u64) = ucast b"
    by (rule bit_eqI) (auto simp: bit_simps dest: bit_imp_le_length)
  have s: "ucast b AND 0x80 = (0 :: u64) \<longleftrightarrow> b AND 0x80 = 0"
    using and_exp_eq_0_iff_not_bit [of b 7] and_exp_eq_0_iff_not_bit [of "ucast b :: u64" 7]
    by (simp add: bit_simps)
  let ?v = "if first \<and> b AND 0x80 \<noteq> 0 then - 1 else v"
  have "reads k (\<lambda>d. rbind (get_bits 8 d) (\<lambda>(b, d).
       let v = (if first \<and> b AND 0x80 \<noteq> 0 then - 1 else v)
       in get_signed_octets (length bs) False (push_bit 8 v OR b) d))
     (word_bits 8 (ucast b :: u64) @ bits_of_octets bs) (shift_in (push_bit 8 ?v OR ucast b) bs)"
    by (rule reads_bind [OF reads_get_bits]) (use Cons [of False "push_bit 8 ?v OR ucast b"] b s in \<open>simp_all add: Let_def\<close>)
  then show ?case by (simp add: shift_in_def bits_of_octets_Cons bits_of_octet_word)
qed

lemma unconstrained_contract:
  "\<exists>bs. appends (encode_unconstrained_int v) bs \<and> reads k decode_unconstrained_int bs v"
proof -
  define buf where "buf = unconstrained_octets v"
  have e: "buf = encode_integer_bytes v"
    by (simp add: buf_def unconstrained_octets_def encode_integer_bytes_def Let_def)
  have val: "integer_decode_value buf = Inr v" by (simp add: e integer_roundtrip_value)
  then have len: "buf \<noteq> []" "length buf \<le> 8"
    and s: "shift_in (if buf ! 0 AND 0x80 \<noteq> 0 then - 1 else 0) buf = v"
    by (auto simp: integer_decode_value_def split: if_splits)
  have "reads k (get_signed_octets (length buf) True 0) (bits_of_octets buf) v"
    using reads_signed_octets [of k buf True 0] len s by simp
  moreover have "take_bit 8 (of_nat (length buf) :: u64) = of_nat (length buf)" "unat (of_nat (length buf) :: u64) = length buf"
    using len by (auto simp: take_bit_of_nat_u64 unat_of_nat_u64)
  ultimately have "reads k decode_unconstrained_int (word_bits 8 (of_nat (length buf) :: u64) @ bits_of_octets buf) v"
    unfolding decode_unconstrained_int_def [abs_def]
    by (intro reads_bind [OF reads_get_bits [of 8 _ "of_nat (length buf)"]]) (use len in simp_all)
  moreover have "appends (encode_unconstrained_int v) (word_bits 8 (of_nat (length buf) :: u64) @ bits_of_octets buf)"
    using appends_comp [OF appends_put_bits [of "of_nat (length buf)" 8] appends_write_octets [of 0 "length buf" buf]]
    by (simp add: appends_def encode_unconstrained_int_def write_octets_def Let_def flip: buf_def)
  ultimately show ?thesis by blast
qed

interpretation nslength: bit_codec put_nslength get_nslength "\<lambda>n. n < 16384" k for k
  by unfold_locales (rule put_nslength_contract)

interpretation nsnn: bit_codec put_nsnn get_nsnn "\<lambda>n. n < 2 ^ 31" k for k
  by unfold_locales (rule put_nsnn_contract)

interpretation semi_int: bit_codec encode_semi_constrained_int decode_semi_constrained_int "\<lambda>_. True" k for k
  by unfold_locales (rule semi_constrained_contract)

interpretation unconstrained_int: bit_codec encode_unconstrained_int decode_unconstrained_int "\<lambda>_. True" k for k
  by unfold_locales (rule unconstrained_contract)

end
