(* ===== verification/Oid_Codec.thy ===== *)
theory Oid_Codec
  imports Ber_Reader
begin

text \<open>
  The contents octets of OBJECT IDENTIFIER and RELATIVE-OID
  (\<open>runtime/include/asn1cpp/types/Oid.hpp\<close>): subidentifiers in base 128 and the
  merged first two arcs. The lemmas show that decoding returns the arcs that were
  encoded, for every arc list the type can hold, and that a decoded arc never
  exceeds its bound.
\<close>

unbundle bit_operations_syntax

section \<open>Operations\<close>

abbreviation kMaxOidArc :: u64 where "kMaxOidArc \<equiv> 0xFFFFFFFF"

definition encode_subid :: "u64 \<Rightarrow> byte list" where
  "encode_subid v = base128_octets (unat v)"

text \<open>The \<open>while (true)\<close> loop of \<open>decode_subid\<close>; each round reads one octet.\<close>

function decode_subid_loop :: "byte list \<Rightarrow> u64 \<Rightarrow> nat \<Rightarrow> u64 \<Rightarrow> (u64 \<times> nat) result" where
  "decode_subid_loop bytes mx idx v =
     (if length bytes \<le> idx then Inl (DecodeError ''truncated OID arc'' 0)
      else
        let b = bytes ! idx; idx' = idx + 1 in
        if drop_bit 7 mx < v then Inl (DecodeError ''OID arc overflow'' 0)
        else
          let v' = push_bit 7 v OR ucast (b AND 0x7F) in
          if b AND 0x80 = 0 then
            (if mx < v' then Inl (DecodeError ''OID arc overflow'' 0) else Inr (v', idx'))
          else decode_subid_loop bytes mx idx' v')"
  by pat_completeness auto
termination by (relation "measure (\<lambda>(bytes, mx, idx, v). length bytes - idx)") auto

declare decode_subid_loop.simps [simp del]

definition decode_subid :: "byte list \<Rightarrow> nat \<Rightarrow> u64 \<Rightarrow> (u64 \<times> nat) result" where
  "decode_subid bytes idx mx = decode_subid_loop bytes mx idx 0"

lemma decode_subid_loop_bounds:
  "decode_subid_loop bytes mx idx v = Inr (w, idx') \<Longrightarrow>
   idx < idx' \<and> idx' \<le> length bytes \<and> w \<le> mx"
proof (induction bytes mx idx v rule: decode_subid_loop.induct)
  case (1 bytes mx idx v)
  let ?v = "push_bit 7 v OR ucast (bytes ! idx AND 0x7F)"
  show ?case
  proof (cases "\<not> length bytes \<le> idx \<and> \<not> drop_bit 7 mx < v \<and> bytes ! idx AND 0x80 \<noteq> 0")
    case True
    then have "decode_subid_loop bytes mx (idx + 1) ?v = Inr (w, idx')"
      using 1(2) by (simp add: decode_subid_loop.simps [of bytes mx idx v])
    from 1(1) [OF _ refl refl _ refl _ this] True show ?thesis by auto
  next
    case False
    with 1(2) show ?thesis
      by (auto simp: decode_subid_loop.simps [of bytes mx idx v] Let_def split: if_splits)
  qed
qed

lemma decode_subid_bounds:
  "decode_subid bytes idx mx = Inr (w, idx') \<Longrightarrow> idx < idx' \<and> idx' \<le> length bytes \<and> w \<le> mx"
  unfolding decode_subid_def by (rule decode_subid_loop_bounds)

function decode_arcs :: "byte list \<Rightarrow> nat \<Rightarrow> u32 list \<Rightarrow> u32 list result" where
  "decode_arcs bytes idx arcs =
     (if idx < length bytes then
        rbind (decode_subid bytes idx kMaxOidArc) (\<lambda>(arc, idx').
          decode_arcs bytes idx' (arcs @ [ucast arc]))
      else Inr arcs)"
  by pat_completeness auto
termination
  by (relation "measure (\<lambda>(bytes, idx, arcs). length bytes - idx)")
     (auto dest!: decode_subid_bounds)

declare decode_arcs.simps [simp del]

text \<open>\<open>BerTraits<Oid>\<close>: the first two arcs share one subidentifier.\<close>

definition encode_oid :: "u32 list \<Rightarrow> byte list" where
  "encode_oid a =
     (case a of
        [] \<Rightarrow> []
      | [x] \<Rightarrow> encode_subid (ucast x * 40)
      | x # y # rest \<Rightarrow> encode_subid (ucast x * 40 + ucast y) @ concat (map (\<lambda>v. encode_subid (ucast v)) rest))"

definition oid_decode_value :: "byte list \<Rightarrow> u32 list result" where
  "oid_decode_value bytes =
     (if bytes = [] then Inr []
      else
        rbind (decode_subid bytes 0 (kMaxOidArc + 80)) (\<lambda>(f, i).
          let x = (if f < 80 then f div 40 else 2)
          in decode_arcs bytes i [ucast x, ucast (f - x * 40)]))"

definition encode_relative_oid :: "u32 list \<Rightarrow> byte list" where
  "encode_relative_oid arcs = concat (map (\<lambda>v. encode_subid (ucast v)) arcs)"

definition relative_oid_decode_value :: "byte list \<Rightarrow> u32 list result" where
  "relative_oid_decode_value bytes = decode_arcs bytes 0 []"

section \<open>Subidentifiers\<close>

text \<open>The leading octets of a subidentifier leave the loop with its high groups.\<close>

lemma of_nat_div_mod_128: "(of_nat n :: u64) = of_nat (n div 128) * 128 + of_nat (n mod 128)"
  by (metis div_mult_mod_eq of_nat_add of_nat_mult of_nat_numeral)

lemma low7_ucast: "(ucast (b AND 0x7F) :: 'a::len word) = of_nat (unat b mod 128)" for b :: byte
  using shift7_or [of "0 :: 'a word" b] by simp

lemma high_groups_le:
  assumes "n \<le> unat (mx :: u64)"
  shows "\<not> drop_bit 7 mx < of_nat (n div 128)"
proof -
  have "n div 128 < 2 ^ 64" using assms unsigned_less [of mx, where ?'a = nat] by simp
  moreover have "n div 128 \<le> unat mx div 128" using assms by (rule div_le_mono)
  ultimately show ?thesis
    by (simp add: word_less_nat_alt unat_of_nat drop_bit_eq_div unat_div not_less)
qed

lemma decode_subid_loop_cont:
  "n \<le> unat mx \<Longrightarrow>
   decode_subid_loop (pre @ base128_cont n @ post) mx (length pre) 0
   = decode_subid_loop (pre @ base128_cont n @ post) mx (length pre + length (base128_cont n)) (of_nat n)"
proof (induction n arbitrary: post rule: base128_le.induct)
  case (1 n)
  let ?b = "of_nat (n mod 128) OR 0x80 :: byte"
  have b: "unat ?b = n mod 128 + 128" by (simp add: octet_simps)
  then have hi: "?b AND 0x80 \<noteq> 0" by (simp only: and_0x80_eq_0)
  show ?case
  proof (cases "n div 128 = 0")
    case True
    then have e: "base128_cont n = [?b]" and n: "n mod 128 = n"
      by (simp_all add: base128_cont_rec [of n] mod_less div_eq_0_iff)
    show ?thesis
      using hi b n by (simp add: e decode_subid_loop.simps [of _ _ "length pre"] low7_ucast Let_def)
  next
    case False
    let ?c = "base128_cont (n div 128)"
    have e: "base128_cont n = ?c @ [?b]" using False by (simp add: base128_cont_rec [of n])
    have IH: "decode_subid_loop (pre @ ?c @ ?b # post) mx (length pre) 0
        = decode_subid_loop (pre @ ?c @ ?b # post) mx (length pre + length ?c) (of_nat (n div 128))"
      using 1(2) by (intro "1.IH" [OF False]) (auto intro: order_trans div_le_dividend)
    also have "\<dots> = decode_subid_loop (pre @ ?c @ ?b # post) mx (length pre + length ?c + 1) (of_nat n)"
      using hi b high_groups_le [OF 1(2)] of_nat_div_mod_128 [of n]
      by (simp add: decode_subid_loop.simps [of _ _ "length pre + length ?c"] shift7_or Let_def nth_append)
    finally show ?thesis by (simp add: e)
  qed
qed

lemma decode_subid_octets:
  assumes "n \<le> unat mx"
  shows "decode_subid (pre @ base128_octets n @ post) (length pre) mx
    = Inr (of_nat n, length pre + length (base128_octets n))"
proof -
  let ?o = "of_nat (n mod 128) :: byte"
  have lo: "?o AND 0x80 = 0" by (simp add: octet_simps)
  have n: "n < 2 ^ 64" using assms unsigned_less [of mx, where ?'a = nat] by simp
  then have le: "\<not> mx < of_nat n" using assms by (simp add: word_less_nat_alt unat_of_nat not_less)
  show ?thesis
  proof (cases "n div 128 = 0")
    case True
    then have e: "base128_octets n = [?o]" and m: "n mod 128 = n"
      by (simp_all add: base128_octets_rec div_eq_0_iff)
    have "unat ?o mod 128 = n" using m by (metis group_low mod_mod_trivial)
    then show ?thesis
      using lo le by (simp add: e m decode_subid_def decode_subid_loop.simps [of _ _ "length pre"] low7_ucast Let_def)
  next
    case False
    let ?c = "base128_cont (n div 128)"
    have e: "base128_octets n = ?c @ [?o]" using False by (simp add: base128_octets_rec)
    have "n div 128 \<le> unat mx" using assms by (auto intro: order_trans div_le_dividend)
    from decode_subid_loop_cont [OF this, of pre "?o # post"]
    have "decode_subid (pre @ base128_octets n @ post) (length pre) mx
        = decode_subid_loop (pre @ ?c @ ?o # post) mx (length pre + length ?c) (of_nat (n div 128))"
      by (simp add: e decode_subid_def)
    also have "\<dots> = Inr (of_nat n, length pre + length ?c + 1)"
      using lo le high_groups_le [OF assms] of_nat_div_mod_128 [of n]
      by (simp add: decode_subid_loop.simps [of _ _ "length pre + length ?c"] shift7_or Let_def nth_append)
    finally show ?thesis by (simp add: e)
  qed
qed

lemma encode_subid_nonempty [simp]: "encode_subid v \<noteq> []"
  by (simp add: encode_subid_def)

lemma decode_subid_encode:
  "v \<le> mx \<Longrightarrow> decode_subid (pre @ encode_subid v @ post) (length pre) mx
    = Inr (v, length pre + length (encode_subid v))"
  by (simp add: encode_subid_def decode_subid_octets word_le_nat_alt)

lemma unat_u32_u64 [simp]: "unat (ucast (a :: u32) :: u64) = unat a"
  using unsigned_less [of a, where ?'a = nat] by (simp add: unsigned_ucast_eq take_bit_nat_eq_self)

lemma ucast_u32_u64_id [simp]: "(ucast (ucast (a :: u32) :: u64) :: u32) = a"
  by (rule bit_word_eqI) (simp add: bit_simps)

lemma u32_le_max: "ucast (a :: u32) \<le> kMaxOidArc"
  using unsigned_less [of a, where ?'a = nat] by (simp add: word_le_nat_alt)

lemma decode_arcs_encode:
  "decode_arcs (pre @ concat (map (\<lambda>v. encode_subid (ucast v)) as)) (length pre) arcs = Inr (arcs @ as)"
proof (induction as arbitrary: pre arcs)
  case (Cons a as)
  then show ?case
    using Cons.IH [of "pre @ encode_subid (ucast a)" "arcs @ [a]"]
    by (simp add: decode_arcs.simps [of _ "length pre"] decode_subid_encode [OF u32_le_max])
qed (simp add: decode_arcs.simps)

lemma relative_oid_roundtrip_value: "relative_oid_decode_value (encode_relative_oid a) = Inr a"
  using decode_arcs_encode [of "[]" a "[]"]
  by (simp add: relative_oid_decode_value_def encode_relative_oid_def)

section \<open>Object identifiers\<close>

text \<open>X.660 7.6: the first arc is 0, 1 or 2, and the second is below 40 under 0 and 1.\<close>

fun oid_valid :: "u32 list \<Rightarrow> bool" where
  "oid_valid [] \<longleftrightarrow> True"
| "oid_valid [x] \<longleftrightarrow> False"
| "oid_valid (x # y # rest) \<longleftrightarrow> unat x \<le> 2 \<and> (unat x < 2 \<longrightarrow> unat y < 40)"

lemma unat_merged_arcs:
  assumes "oid_valid (x # y # rest)"
  shows "unat (ucast x * 40 + ucast y :: u64) = unat x * 40 + unat y"
proof -
  have "unat x * 40 + unat y < 2 ^ 64" using assms unsigned_less [of y, where ?'a = nat] by simp
  then show ?thesis by (simp add: unat_word_ariths)
qed

lemma split_merged_arcs:
  fixes x y :: u32
  defines "f \<equiv> ucast x * 40 + ucast y :: u64"
  assumes "oid_valid (x # y # rest)"
  shows "f \<le> kMaxOidArc + 80" "(if f < 80 then f div 40 else 2) = ucast x"
    "f - ucast x * 40 = ucast y"
proof -
  have f: "unat f = unat x * 40 + unat y"
    unfolding f_def by (rule unat_merged_arcs [OF assms(2)])
  show "f \<le> kMaxOidArc + 80"
    using f assms(2) unsigned_less [of y, where ?'a = nat] by (simp add: word_le_nat_alt)
  show "f - ucast x * 40 = ucast y" by (simp add: f_def)
  show "(if f < 80 then f div 40 else 2) = ucast x"
  proof (cases "unat x < 2")
    case True
    with assms(2) f have "unat f < 80" "unat f div 40 = unat x" by auto
    then show ?thesis by (simp add: word_less_nat_alt word_unat_eq_iff unat_div)
  next
    case False
    with assms(2) have x: "unat x = 2" by simp
    with f have "\<not> unat f < 80" by simp
    moreover have "ucast x = (2 :: u64)" using x by (simp add: word_unat_eq_iff)
    ultimately show ?thesis by (simp add: word_less_nat_alt)
  qed
qed

lemma oid_roundtrip_value:
  assumes "oid_valid a"
  shows "oid_decode_value (encode_oid a) = Inr a"
proof (cases a rule: oid_valid.cases)
  case 1
  then show ?thesis by (simp add: encode_oid_def oid_decode_value_def)
next
  case (2 x)
  with assms show ?thesis by simp
next
  case (3 x y rest)
  let ?f = "ucast x * 40 + ucast y :: u64"
  let ?r = "concat (map (\<lambda>v. encode_subid (ucast v)) rest)"
  note s = split_merged_arcs [of x y rest, folded 3, OF assms]
  have "decode_subid (encode_subid ?f @ ?r) 0 (kMaxOidArc + 80) = Inr (?f, length (encode_subid ?f))"
    using decode_subid_encode [OF s(1), of "[]" ?r] by simp
  moreover have "decode_arcs (encode_subid ?f @ ?r) (length (encode_subid ?f)) [x, y] = Inr a"
    using decode_arcs_encode [of "encode_subid ?f" rest "[x, y]"] 3 by simp
  ultimately show ?thesis
    using s(2,3) 3 by (simp add: encode_oid_def oid_decode_value_def Let_def)
qed

text \<open>
  C26: OBJECT IDENTIFIER contents decode back to the arcs that were encoded, for
  every arc list X.660 allows, 32-bit second and later arcs included: the merged
  first subidentifier never wraps and splits into the same two arcs.
\<close>

theorem oid_contents_roundtrip:
  assumes "oid_valid a"
  shows "oid_decode_value (encode_oid a) = Inr a"
  using assms by (rule oid_roundtrip_value)

lemma oid_contents_roundtrip_witness:
  "oid_decode_value (encode_oid [2, 0xFFFFFFFF, 113549]) = Inr [2, 0xFFFFFFFF, 113549]"
  by (rule oid_contents_roundtrip) simp

lemma decode_arcs_extends:
  "decode_arcs bytes i arcs = Inr a \<Longrightarrow> \<exists>r. a = arcs @ r"
proof (induction bytes i arcs rule: decode_arcs.induct)
  case (1 bytes i arcs)
  then show ?case
    by (subst (asm) (2) decode_arcs.simps) (force simp: rbind_eq_Inr split: if_splits)
qed

lemma split_first_subid:
  assumes "f \<le> kMaxOidArc + 80"
  defines "x \<equiv> (if f < 80 then f div 40 else 2)"
  shows "oid_valid (ucast x # ucast (f - x * 40) # rest)"
proof (cases "f < 80")
  case True
  then have f: "unat f < 80" by (simp add: word_less_nat_alt)
  have x: "unat x = unat f div 40" using True by (simp add: x_def unat_div)
  then have c: "unat (ucast x :: u32) = unat f div 40"
    using f by (simp add: unsigned_ucast_eq take_bit_nat_eq_self)
  have "unat (f - x * 40) = unat f mod 40"
  proof -
    have "unat (x * 40) = unat f div 40 * 40" using x f by (simp add: unat_word_ariths)
    then have "unat (f - x * 40) = unat f - unat f div 40 * 40" by (simp add: unat_sub word_le_nat_alt)
    then show ?thesis by (simp add: minus_div_mult_eq_mod)
  qed
  then have "unat (ucast (f - x * 40) :: u32) = unat f mod 40"
    using f by (simp add: unsigned_ucast_eq take_bit_nat_eq_self)
  with c f show ?thesis by simp
next
  case False
  then show ?thesis by (simp add: x_def)
qed

text \<open>
  Whatever contents octets a peer sends, a decoded OBJECT IDENTIFIER has a
  first arc of at most 2 and, under 0 and 1, a second arc below 40; the loop
  always ends, and no arc exceeds 32 bits.
\<close>

theorem oid_decode_valid:
  assumes "oid_decode_value bytes = Inr a"
  shows "oid_valid a"
proof (cases "bytes = []")
  case False
  with assms obtain f i where f: "decode_subid bytes 0 (kMaxOidArc + 80) = Inr (f, i)"
    and d: "decode_arcs bytes i [ucast (if f < 80 then f div 40 else 2),
        ucast (f - (if f < 80 then f div 40 else 2) * 40)] = Inr a"
    by (auto simp: oid_decode_value_def Let_def rbind_eq_Inr)
  from decode_subid_bounds [OF f] have "f \<le> kMaxOidArc + 80" by simp
  with decode_arcs_extends [OF d] show ?thesis using split_first_subid [of f] by force
qed (use assms in \<open>simp add: oid_decode_value_def\<close>)

lemma oid_decode_valid_witness: "oid_valid [2, 919, 3]"
proof (rule oid_decode_valid)
  show "oid_decode_value [0x87, 0x67, 3] = Inr [2, 919, 3]"
    by code_simp
qed

end
