(* ===== verification/Per_Primitives.thy ===== *)
theory Per_Primitives
  imports Per_Lengths Char_Strings Oid_Codec Ber_Writer
begin

text \<open>
  The PER handlers of the types without components (\<open>runtime/src/PerCodec.cpp\<close>):
  INTEGER in its signed and unsigned storage, BIT STRING, OCTET STRING, OBJECT
  IDENTIFIER, the character strings and ENUMERATED. Each encoder takes the
  constraints the handler reads from the descriptor; each decoder returns the value
  and the advanced stream.
\<close>

unbundle bit_operations_syntax

section \<open>INTEGER\<close>

text \<open>
  The extension bit of a constrained type: with the marker, a bit says whether the
  value is in the root, and a value outside takes the encoding \<open>ext\<close>.
\<close>

definition put_ext_bit ::
    "constraints \<Rightarrow> bool \<Rightarrow> (per_enc \<Rightarrow> per_enc) \<Rightarrow> (per_enc \<Rightarrow> per_enc) \<Rightarrow> per_enc \<Rightarrow> per_enc" where
  "put_ext_bit pc in_root ext root s =
     (if has_flag pc EXTENSIBLE then
        let s = put_bits (if in_root then 0 else 1) 1 s in if \<not> in_root then ext s else root s
      else root s)"

definition get_ext_bit ::
    "constraints \<Rightarrow> (per_dec \<Rightarrow> ('a \<times> per_dec) result) \<Rightarrow> (per_dec \<Rightarrow> ('a \<times> per_dec) result)
      \<Rightarrow> per_dec \<Rightarrow> ('a \<times> per_dec) result" where
  "get_ext_bit pc ext root d =
     (if has_flag pc EXTENSIBLE then
        rbind (get_bits 1 d) (\<lambda>(b, d). if b \<noteq> 0 then ext d else root d)
      else root d)"

text \<open>\<open>IntegerPerHandler\<close>: 64-bit differences wrap, as in the code.\<close>

definition per_integer_encode :: "constraints \<Rightarrow> i64 \<Rightarrow> per_enc \<Rightarrow> per_enc" where
  "per_integer_encode pc v s =
     (if has_flag pc CONSTRAINED then
        put_ext_bit pc (lower_bound pc \<le>s v \<and> v \<le>s upper_bound pc) (encode_unconstrained_int v)
          (put_bits (v - lower_bound pc) (range_bits pc)) s
      else if has_flag pc SEMI_CONSTRAINED then
        put_ext_bit pc (lower_bound pc \<le>s v) (encode_unconstrained_int v)
          (encode_semi_constrained_int (v - lower_bound pc)) s
      else encode_unconstrained_int v s)"

definition storage_error :: decode_error where
  "storage_error = DecodeError ''PER: semi-constrained INTEGER exceeds its storage'' 0"

definition per_integer_decode :: "constraints \<Rightarrow> per_dec \<Rightarrow> (i64 \<times> per_dec) result" where
  "per_integer_decode pc d =
     (if has_flag pc CONSTRAINED then
        get_ext_bit pc decode_unconstrained_int
          (\<lambda>d. rbind (get_bits (range_bits pc) d) (\<lambda>(bits, d). Inr (lower_bound pc + bits, d))) d
      else if has_flag pc SEMI_CONSTRAINED then
        get_ext_bit pc decode_unconstrained_int
          (\<lambda>d. rbind (decode_semi_constrained_int d) (\<lambda>(offset, d).
            if offset > 0x7FFFFFFFFFFFFFFF - lower_bound pc then Inl storage_error
            else Inr (lower_bound pc + offset, d))) d
      else decode_unconstrained_int d)"

text \<open>\<open>UIntegerPerHandler\<close>.\<close>

definition per_uinteger_encode :: "constraints \<Rightarrow> u64 \<Rightarrow> per_enc \<Rightarrow> per_enc" where
  "per_uinteger_encode pc v s =
     (if has_flag pc CONSTRAINED then
        put_ext_bit pc (lower_u64 pc \<le> v \<and> v \<le> upper_u64 pc) (encode_unconstrained_int v)
          (put_bits (v - lower_u64 pc) (range_bits pc)) s
      else if has_flag pc SEMI_CONSTRAINED then
        put_ext_bit pc (lower_u64 pc \<le> v) (encode_unconstrained_int v)
          (encode_semi_constrained_int (v - lower_u64 pc)) s
      else encode_unconstrained_int v s)"

definition per_uinteger_decode :: "constraints \<Rightarrow> per_dec \<Rightarrow> (u64 \<times> per_dec) result" where
  "per_uinteger_decode pc d =
     (if has_flag pc CONSTRAINED then
        get_ext_bit pc decode_unconstrained_int
          (\<lambda>d. rbind (get_bits (range_bits pc) d) (\<lambda>(bits, d). Inr (bits + lower_u64 pc, d))) d
      else if has_flag pc SEMI_CONSTRAINED then
        get_ext_bit pc decode_unconstrained_int
          (\<lambda>d. rbind (decode_semi_constrained_int d) (\<lambda>(offset, d).
            if offset > 0xFFFFFFFFFFFFFFFF - lower_u64 pc then Inl storage_error
            else Inr (lower_u64 pc + offset, d))) d
      else decode_unconstrained_int d)"

section \<open>BIT STRING\<close>

definition write_bit_range :: "bit_string \<Rightarrow> write_items" where
  "write_bit_range v from to s = foldl (\<lambda>s i. put_bits (if bit_at v i then 1 else 0) 1 s) s [from..<to]"

definition per_bit_string_encode :: "constraints \<Rightarrow> bit_string \<Rightarrow> per_enc \<Rightarrow> per_enc" where
  "per_bit_string_encode pc v s =
     (let n = (if has_flag pc NAMED_BITS then named_bits_length pc v else bit_count v)
      in encode_ext_size_and_items pc n (write_bit_range v) s)"

text \<open>
  The body of the bit loop, on the captured \<open>bytes\<close> and \<open>nbits\<close>:
  \<open>bytes.back() |= b << (7 - nbits % 8)\<close>.
\<close>

definition push_bit_octets :: "byte list \<times> nat \<Rightarrow> byte \<Rightarrow> byte list \<times> nat" where
  "push_bit_octets st b =
     (let bytes = (if snd st mod 8 = 0 then fst st @ [0] else fst st)
      in (bytes[length bytes - 1 := last bytes OR push_bit (7 - snd st mod 8) b], snd st + 1))"

fun read_bit_range :: "(byte list \<times> nat) read_items" where
  "read_bit_range 0 st d = Inr (st, d)"
| "read_bit_range (Suc m) st d =
     rbind (get_bits 1 d) (\<lambda>(b, d). read_bit_range m (push_bit_octets st (ucast b)) d)"

definition per_bit_string_decode :: "constraints \<Rightarrow> per_dec \<Rightarrow> (bit_string \<times> per_dec) result" where
  "per_bit_string_decode pc d =
     rbind (decode_ext_size_and_items pc read_bit_range ([], 0) d) (\<lambda>((n, (bytes, _)), d).
       if n = 0 then Inr (\<lparr>bs_bytes = [], bs_unused = 0\<rparr>, d)
       else Inr (\<lparr>bs_bytes = bytes, bs_unused = of_nat ((8 - n mod 8) mod 8)\<rparr>, d))"

section \<open>OCTET STRING\<close>

definition per_octet_string_encode :: "constraints \<Rightarrow> byte list \<Rightarrow> per_enc \<Rightarrow> per_enc" where
  "per_octet_string_encode pc bytes s = encode_ext_size_and_items pc (length bytes) (write_octets bytes) s"

definition per_octet_string_decode :: "constraints \<Rightarrow> per_dec \<Rightarrow> (byte list \<times> per_dec) result" where
  "per_octet_string_decode pc d =
     rbind (decode_ext_size_and_items pc read_octets [] d) (\<lambda>((_, bytes), d). Inr (bytes, d))"

section \<open>Contents octets of BER\<close>

text \<open>
  \<open>per_detail::encode_ber_content\<close> and \<open>decode_ber_content\<close>, used for OBJECT
  IDENTIFIER and RELATIVE-OID: the BER encoding, its second octet taken as the
  length.
\<close>

definition encode_ber_content :: "tag \<Rightarrow> byte list \<Rightarrow> per_enc \<Rightarrow> per_enc" where
  "encode_ber_content t contents s =
     (let ber = bw_buf (write_primitive t contents new_writer);
          content_len = unat (ber ! 1)
      in foldl (\<lambda>s i. put_bits (ucast (ber ! (2 + i))) 8 s) (put_length content_len s) [0..<content_len])"

definition per_read_bytes :: "nat \<Rightarrow> per_dec \<Rightarrow> (byte list \<times> per_dec) result" where
  "per_read_bytes n d = read_octets n [] d"

definition decode_ber_content ::
    "tag \<Rightarrow> (ber_reader \<Rightarrow> ('a \<times> ber_reader) result) \<Rightarrow> per_dec \<Rightarrow> ('a \<times> per_dec) result" where
  "decode_ber_content t decode d =
     rbind (get_length d) (\<lambda>(len, d).
     rbind (per_read_bytes len d) (\<lambda>(content, d).
       let ber = ucast (number t) # of_nat len # content
       in rbind (decode (new_reader ber)) (\<lambda>(v, _). Inr (v, d))))"

text \<open>\<open>BerTraits<Oid>::decode\<close> and \<open>BerTraits<RelativeOid>::decode\<close>.\<close>

definition ber_traits_decode ::
    "tag \<Rightarrow> string \<Rightarrow> (byte list \<Rightarrow> 'a result) \<Rightarrow> ber_reader \<Rightarrow> ('a \<times> ber_reader) result" where
  "ber_traits_decode t what conv r =
     rbind (read_tlv r) (\<lambda>(tlv, r).
       if tlv_tag tlv \<noteq> t then
         Inl (DecodeError (''expected '' @ what @ '' tag, got number '' @ to_string (unat (number (tlv_tag tlv)))) 0)
       else rbind (conv (tlv_value tlv)) (\<lambda>v. Inr (v, r)))"

definition per_oid_encode :: "u32 list \<Rightarrow> per_enc \<Rightarrow> per_enc" where
  "per_oid_encode a = encode_ber_content (universal UT_Oid False) (encode_oid a)"

definition per_oid_decode :: "per_dec \<Rightarrow> (u32 list \<times> per_dec) result" where
  "per_oid_decode = decode_ber_content (universal UT_Oid False)
     (ber_traits_decode (universal UT_Oid False) ''OID'' oid_decode_value)"

definition per_rel_oid_encode :: "u32 list \<Rightarrow> per_enc \<Rightarrow> per_enc" where
  "per_rel_oid_encode a = encode_ber_content (universal UT_RelativeOid False) (encode_relative_oid a)"

definition per_rel_oid_decode :: "per_dec \<Rightarrow> (u32 list \<times> per_dec) result" where
  "per_rel_oid_decode = decode_ber_content (universal UT_RelativeOid False)
     (ber_traits_decode (universal UT_RelativeOid False) ''RELATIVE-OID'' relative_oid_decode_value)"

section \<open>Character strings\<close>

definition encode_numeric_char :: "byte \<Rightarrow> byte" where
  "encode_numeric_char c =
     (if c = 0x20 then 0
      else if 0x30 \<le>s c \<and> c \<le>s 0x39 then c - 0x30 + 1
      else 0)"

definition decode_numeric_char :: "byte \<Rightarrow> byte" where
  "decode_numeric_char v =
     (if v = 0 then 0x20
      else if 1 \<le> v \<and> v \<le> 10 then 0x30 + (v - 1)
      else 0x3F)"

text \<open>Bits and octets of a character.\<close>

definition string_params :: "u32 \<Rightarrow> nat \<times> nat" where
  "string_params tag_num =
     (if tag_num = UT_NumericString then (4, 1)
      else if tag_num = UT_PrintableString then (7, 1)
      else if tag_num = UT_BmpString then (8, 2)
      else if tag_num = UT_UniversalString then (8, 4)
      else if tag_num = UT_Ia5String then (7, 1)
      else if tag_num = UT_UtcTime \<or> tag_num = UT_GeneralizedTime \<or> tag_num = UT_VisibleString then (7, 1)
      else (8, 1))"

text \<open>\<open>pc.encode_table[c] == 0xFFFF\<close>; read only where the table is known to be there.\<close>

definition table_at :: "constraints \<Rightarrow> byte \<Rightarrow> u16" where
  "table_at pc c = (case encode_table pc of None \<Rightarrow> 0xFFFF | Some t \<Rightarrow> t ! unat c)"

definition has_alpha :: "constraints \<Rightarrow> bool" where
  "has_alpha pc \<longleftrightarrow> alphabet_bits pc > 0 \<and> encode_table pc \<noteq> None"

text \<open>The character at unit \<open>ci\<close>: its high octets are 0 and its low octet is in the FROM alphabet.\<close>

definition char_in_alphabet :: "constraints \<Rightarrow> nat \<Rightarrow> byte list \<Rightarrow> nat \<Rightarrow> bool" where
  "char_in_alphabet pc bpc str ci \<longleftrightarrow>
     list_all (\<lambda>b. str ! (ci * bpc + b) = 0) [0..<bpc - 1] \<and>
     table_at pc (str ! (ci * bpc + bpc - 1)) \<noteq> 0xFFFF"

definition alphabet_in_root :: "constraints \<Rightarrow> nat \<Rightarrow> byte list \<Rightarrow> bool" where
  "alphabet_in_root pc bpc str \<longleftrightarrow>
     (if bpc > 1 then list_all (char_in_alphabet pc bpc str) [0..<length str div bpc]
      else list_all (\<lambda>c. table_at pc c \<noteq> 0xFFFF) str)"

text \<open>One character, and the loop of the items callback.\<close>

definition write_char :: "constraints \<Rightarrow> nat \<Rightarrow> nat \<Rightarrow> byte list \<Rightarrow> nat \<Rightarrow> per_enc \<Rightarrow> per_enc" where
  "write_char pc bits bpc str ci s =
     (let at = ci * bpc in
      if has_alpha pc then put_bits (ucast (table_at pc (str ! (at + bpc - 1)))) (alphabet_bits pc) s
      else if bpc > 1 then foldl (\<lambda>s b. put_bits (ucast (str ! (at + b))) 8 s) s [0..<bpc]
      else if bits = 4 then put_bits (ucast (encode_numeric_char (str ! at))) 4 s
      else put_bits (ucast (str ! at)) bits s)"

definition write_chars :: "constraints \<Rightarrow> nat \<Rightarrow> nat \<Rightarrow> byte list \<Rightarrow> write_items" where
  "write_chars pc bits bpc str from to s = foldl (\<lambda>s ci. write_char pc bits bpc str ci s) s [from..<to]"

text \<open>
  The part of \<open>StringPerHandler::encode\<close> after the extension bit: the checks, then
  the length and the characters.
\<close>

definition string_encode_root :: "u32 \<Rightarrow> constraints \<Rightarrow> byte list \<Rightarrow> per_enc \<Rightarrow> per_enc" where
  "string_encode_root tag pc str s =
     (let (bits, bpc) = string_params tag;
          char_count = length str div bpc
      in
      if has_flag pc SIZE_CONSTRAINED \<and> \<not> has_flag pc EXTENSIBLE \<and>
         (int char_count < size_lower pc \<or> int char_count > size_upper pc) then per_set_encode_failed s
      else if \<not> has_alpha pc \<and> \<not> has_flag pc EXTENSIBLE \<and> tag = UT_NumericString \<and>
         list_ex (\<lambda>c. c \<noteq> 0x20 \<and> (c < 0x30 \<or> c > 0x39)) str then per_set_encode_failed s
      else if \<not> has_alpha pc \<and> \<not> has_flag pc EXTENSIBLE \<and> tag = UT_Ia5String \<and>
         list_ex (\<lambda>c. c > 0x7F) str then per_set_encode_failed s
      else if has_alpha pc \<and> \<not> list_all (char_in_alphabet pc bpc str) [0..<length str div bpc]
      then per_set_encode_failed s
      else encode_size_and_items pc char_count (write_chars pc bits bpc str) s)"

text \<open>
  \<open>StringPerHandler::encode\<close>. The recursive calls have a descriptor without
  constraints, so they go straight to the root part.
\<close>

definition per_string_encode :: "u32 \<Rightarrow> constraints \<Rightarrow> byte list \<Rightarrow> per_enc \<Rightarrow> per_enc" where
  "per_string_encode tag pc str s =
     (if has_flag pc PER_SIZE_INVISIBLE then
        let chars = int (string_char_count tag str) in
        if has_flag pc SIZE_CONSTRAINED \<and> \<not> has_flag pc EXTENSIBLE \<and>
           (chars < size_lower pc \<or> chars > size_upper pc) then per_set_encode_failed s
        else if has_alpha pc \<and>
           \<not> list_all (\<lambda>cp. \<not> (cp > 0xFF \<or> table_at pc (ucast cp) = 0xFFFF)) (code_points tag str)
        then per_set_encode_failed s
        else string_encode_root tag no_constraints str s
      else if has_flag pc EXTENSIBLE then
        let (bits, bpc) = string_params tag;
            char_count = int (length str div bpc);
            in_root = (has_flag pc SIZE_CONSTRAINED \<longrightarrow> char_count \<ge> size_lower pc \<and> char_count \<le> size_upper pc);
            in_root = (in_root \<and> (has_alpha pc \<longrightarrow> alphabet_in_root pc bpc str));
            s = put_bits (if in_root then 0 else 1) 1 s
        in if \<not> in_root then string_encode_root tag no_constraints str s
           else string_encode_root tag pc str s
      else string_encode_root tag pc str s)"

text \<open>One character of \<open>StringPerHandler::decode\<close>, appended to \<open>result\<close>.\<close>

definition read_char :: "constraints \<Rightarrow> nat \<Rightarrow> nat \<Rightarrow> byte list \<Rightarrow> per_dec \<Rightarrow> (byte list \<times> per_dec) result" where
  "read_char pc bits bpc out d =
     (if alphabet_bits pc > 0 \<and> alphabet pc \<noteq> [] then
        rbind (get_bits (alphabet_bits pc) d) (\<lambda>(v, d).
          if unat v \<ge> length (alphabet pc) then Inl (DecodeError ''PER: alphabet index out of range'' 0)
          else Inr (out @ replicate (bpc - 1) 0 @ [alphabet pc ! unat v], d))
      else if bpc > 1 then read_octets bpc out d
      else if bits = 4 then rbind (get_bits 4 d) (\<lambda>(v, d). Inr (out @ [decode_numeric_char (ucast v)], d))
      else rbind (get_bits bits d) (\<lambda>(v, d). Inr (out @ [ucast v], d)))"

fun read_chars :: "constraints \<Rightarrow> nat \<Rightarrow> nat \<Rightarrow> byte list read_items" where
  "read_chars pc bits bpc 0 out d = Inr (out, d)"
| "read_chars pc bits bpc (Suc m) out d =
     rbind (read_char pc bits bpc out d) (\<lambda>(out, d). read_chars pc bits bpc m out d)"

definition string_decode_root :: "u32 \<Rightarrow> constraints \<Rightarrow> per_dec \<Rightarrow> (byte list \<times> per_dec) result" where
  "string_decode_root tag pc d =
     (let (bits, bpc) = string_params tag in
      rbind (decode_size_and_items pc (read_chars pc bits bpc) [] d) (\<lambda>((_, str), d). Inr (str, d)))"

definition per_string_decode :: "u32 \<Rightarrow> constraints \<Rightarrow> per_dec \<Rightarrow> (byte list \<times> per_dec) result" where
  "per_string_decode tag pc d =
     (if has_flag pc PER_SIZE_INVISIBLE then string_decode_root tag no_constraints d
      else if has_flag pc EXTENSIBLE then
        rbind (get_bits 1 d) (\<lambda>(ext, d).
          if ext \<noteq> 0 then string_decode_root tag no_constraints d else string_decode_root tag pc d)
      else string_decode_root tag pc d)"

section \<open>ENUMERATED\<close>

text \<open>The binary search in the entries; - 1 for a value that is not there.\<close>

function enum_search :: "enum_entry list \<Rightarrow> i64 \<Rightarrow> int \<Rightarrow> int \<Rightarrow> int" where
  "enum_search es v lo hi =
     (if lo \<le> hi then
        let mid = (lo + hi) div 2 in
        if ee_value (es ! nat mid) = v then mid
        else if ee_value (es ! nat mid) <s v then enum_search es v (mid + 1) hi
        else enum_search es v lo (mid - 1)
      else - 1)"
  by pat_completeness auto
termination by (relation "measure (\<lambda>(es, v, lo, hi). nat (hi - lo + 1))") auto

declare enum_search.simps [simp del]

definition enum_root_count :: "enum_spec \<Rightarrow> nat" where
  "enum_root_count spec = (if es_root_count spec > 0 then es_root_count spec else length (es_entries spec))"

definition per_enum_encode :: "enum_spec \<Rightarrow> i64 \<Rightarrow> per_enc \<Rightarrow> per_enc" where
  "per_enum_encode spec v s =
     (let rcount = int (enum_root_count spec);
          ordinal = enum_search (es_entries spec) v 0 (int (length (es_entries spec)) - 1);
          is_ext = (ordinal < 0 \<or> ordinal \<ge> rcount);
          ext_ordinal = (if ordinal \<ge> rcount then ordinal - rcount else 0);
          s = (if es_extensible spec then put_bits (if is_ext then 1 else 0) 1 s else s)
      in
      if \<not> is_ext then put_bits (of_int ordinal) (per_range_bits (nat rcount)) s
      else put_nsnn (nat ext_ordinal) s)"

text \<open>
  The sum of two \<open>int\<close>s that are not negative: 32 bits, so a sum beyond \<open>INT_MAX\<close>, for
  which the C++ standard sets no value, is the negative number of two's complement.
\<close>

definition i32_sum :: "nat \<Rightarrow> nat \<Rightarrow> int" where
  "i32_sum a b = sint (of_nat a + of_nat b :: u32)"

definition per_enum_decode :: "enum_spec \<Rightarrow> per_dec \<Rightarrow> (i64 \<times> per_dec) result" where
  "per_enum_decode spec d =
     (let rcount = enum_root_count spec in
      rbind (if es_extensible spec then get_bits 1 d else Inr (0, d)) (\<lambda>(is_ext, d).
        if is_ext = 0 then
          rbind (get_bits (per_range_bits rcount) d) (\<lambda>(idx, d).
            if unat idx \<ge> rcount then Inl (DecodeError ''PER: ENUM index out of range'' 0)
            else Inr (ee_value (es_entries spec ! unat idx), d))
        else
          rbind (get_nsnn d) (\<lambda>(ord, d).
            let ext_entry = i32_sum rcount ord in
            if ext_entry \<ge> int (length (es_entries spec))
            then Inl (DecodeError ''PER: ENUM extension index out of range'' 0)
            else if ext_entry < 0 then Inl (OutOfBounds ext_entry)
            else Inr (ee_value (es_entries spec ! nat ext_entry), d))))"

lemma i32_sum_exact: "a + b < 2 ^ 31 \<Longrightarrow> i32_sum a b = int (a + b)"
  by (simp add: i32_sum_def signed_of_nat signed_take_bit_int_eq_self flip: of_nat_add)

text \<open>Beyond \<open>INT_MAX\<close> the sum is negative; there two counts below \<open>2 ^ 31\<close> can get.\<close>

lemma i32_sum_overflow: "2 ^ 31 \<le> a + b \<Longrightarrow> a + b < 2 ^ 32 \<Longrightarrow> i32_sum a b = int (a + b) - 2 ^ 32"
proof -
  assume n: "2 ^ 31 \<le> a + b" "a + b < 2 ^ 32"
  have "i32_sum a b = signed_take_bit 31 (int (a + b))"
    by (simp add: i32_sum_def signed_of_nat flip: of_nat_add)
  also have "\<dots> = int (a + b) - 2 ^ 32"
    using n mod_pos_geq [of "2 ^ 32" "int (a + b) + 2 ^ 31"]
    by (simp add: signed_take_bit_eq_take_bit_shift take_bit_eq_mod)
  finally show ?thesis .
qed

section \<open>INTEGER is read back\<close>

lemma take_bit_u64_less: "uint w < 2 ^ k \<Longrightarrow> take_bit k w = w" for w :: u64
  by (simp add: word_uint_eq_iff unsigned_take_bit_eq take_bit_int_eq_self)

lemma uint_diff_sint: "b \<le>s a \<Longrightarrow> uint (a - b) = sint a - sint b" for a b :: u64
proof -
  assume "b \<le>s a"
  then have "0 \<le> sint a - sint b" by (simp add: word_sle_eq)
  moreover have "sint a - sint b < 2 ^ 64"
    using sint_lt [of a] sint_ge [of b] by simp
  moreover have "a - b = word_of_int (sint a - sint b)" by simp
  ultimately show ?thesis
    by (simp only: uint_word_of_int_eq take_bit_int_eq_self) (simp add: take_bit_int_eq_self)
qed

lemma ext_bit_contract:
  assumes "has_flag pc EXTENSIBLE \<Longrightarrow> \<not> r \<Longrightarrow> appends f a \<and> reads k g a x"
    and "r \<Longrightarrow> appends f' b \<and> reads k g' b x" and "has_flag pc EXTENSIBLE \<or> r"
  shows "\<exists>bs. appends (put_ext_bit pc r f f') bs \<and> reads k (get_ext_bit pc g g') bs x"
proof (cases "has_flag pc EXTENSIBLE")
  case False
  then have "r" using assms(3) by simp
  with False assms(2) show ?thesis
    by (auto simp: put_ext_bit_def [abs_def] get_ext_bit_def [abs_def])
next
  case True
  have "reads k (get_ext_bit pc g g') (word_bits 1 (if r then 0 else 1 :: u64) @ (if r then b else a)) x"
    unfolding get_ext_bit_def [abs_def] if_P [OF True]
    by (rule reads_bind [OF reads_get_bits [of 1 _ "if r then 0 else 1"]]) (use assms(1,2) True in auto)
  moreover have "appends (put_ext_bit pc r f f') (word_bits 1 (if r then 0 else 1 :: u64) @ (if r then b else a))"
    using appends_comp [OF appends_put_bits [of "if r then 0 else 1" 1], of "if r then f' else f" "if r then b else a"]
      assms(1,2) True by (cases r) (simp_all add: appends_def put_ext_bit_def)
  ultimately show ?thesis by blast
qed

text \<open>The width of a constrained type holds its range; a value without the marker is in range.\<close>

definition int_constraint_wf :: "constraints \<Rightarrow> bool" where
  "int_constraint_wf pc \<longleftrightarrow> (has_flag pc CONSTRAINED \<longrightarrow>
     range_bits pc \<le> 64 \<and> sint (upper_bound pc) - sint (lower_bound pc) < 2 ^ range_bits pc)"

definition int_permitted :: "constraints \<Rightarrow> i64 \<Rightarrow> bool" where
  "int_permitted pc v \<longleftrightarrow> has_flag pc EXTENSIBLE \<or>
     ((has_flag pc CONSTRAINED \<longrightarrow> lower_bound pc \<le>s v \<and> v \<le>s upper_bound pc) \<and>
      (has_flag pc SEMI_CONSTRAINED \<longrightarrow> lower_bound pc \<le>s v))"

lemma constrained_root:
  assumes "range_bits pc \<le> 64" "uint (v - b) < 2 ^ range_bits pc" "\<And>w. add w = b + w"
  shows "appends (put_bits (v - b) (range_bits pc)) (word_bits (range_bits pc) (v - b)) \<and>
     reads k (\<lambda>d. rbind (get_bits (range_bits pc) d) (\<lambda>(bits, d). Inr (add bits, d)))
       (word_bits (range_bits pc) (v - b)) v"
  using reads_map [OF reads_get_bits [OF assms(1), of k "v - b"], of add]
  by (simp add: appends_put_bits take_bit_u64_less assms(2,3))

lemma semi_constrained_root:
  assumes "\<not> v - b > lim"
  shows "\<exists>w. appends (encode_semi_constrained_int (v - b)) w \<and>
     reads k (\<lambda>d. rbind (decode_semi_constrained_int d) (\<lambda>(offset, d).
       if offset > lim then Inl storage_error else Inr (b + offset, d))) w v"
proof -
  obtain w where w: "appends (encode_semi_constrained_int (v - b)) w"
    "reads k decode_semi_constrained_int w (v - b)" using semi_constrained_contract by blast
  have "reads k (\<lambda>d. rbind (decode_semi_constrained_int d) (\<lambda>(offset, d).
       if offset > lim then Inl storage_error else Inr (b + offset, d))) (w @ []) v"
    by (rule reads_bind [OF w(2)]) (simp add: assms reads_return)
  with w(1) show ?thesis by auto
qed

lemma signed_offset_fits: "b \<le>s v \<Longrightarrow> \<not> v - b > 0x7FFFFFFFFFFFFFFF - b" for v b :: u64
proof -
  assume le: "b \<le>s v"
  have top: "sint (0x7FFFFFFFFFFFFFFF :: u64) = 2 ^ 63 - 1" by simp
  have "sint v \<le> 2 ^ 63 - 1" "sint b \<le> 2 ^ 63 - 1"
    using sint_lt [of v] sint_lt [of b] by simp_all
  moreover from this have "b \<le>s 0x7FFFFFFFFFFFFFFF" by (simp add: word_sle_eq)
  ultimately show ?thesis
    using uint_diff_sint [OF le] uint_diff_sint [of b "0x7FFFFFFFFFFFFFFF"] top
    by (simp add: word_less_def)
qed

lemma integer_contract:
  assumes "int_constraint_wf pc" "int_permitted pc v"
  shows "\<exists>bs. appends (per_integer_encode pc v) bs \<and> reads k (per_integer_decode pc) bs v"
proof -
  obtain u where u: "appends (encode_unconstrained_int v) u" "reads k decode_unconstrained_int u v"
    using unconstrained_contract by blast
  consider "has_flag pc CONSTRAINED"
    | "\<not> has_flag pc CONSTRAINED" "has_flag pc SEMI_CONSTRAINED"
    | "\<not> has_flag pc CONSTRAINED" "\<not> has_flag pc SEMI_CONSTRAINED" by blast
  then show ?thesis
  proof cases
    case 1
    have "uint (v - lower_bound pc) < 2 ^ range_bits pc" if "lower_bound pc \<le>s v \<and> v \<le>s upper_bound pc"
      using uint_diff_sint that assms(1) 1 by (simp add: int_constraint_wf_def word_sle_eq)
    then show ?thesis
      unfolding per_integer_encode_def [abs_def] per_integer_decode_def [abs_def] if_P [OF 1]
      using constrained_root [of pc v "lower_bound pc" "\<lambda>bits. lower_bound pc + bits" k] assms 1 u
      by (intro ext_bit_contract [where a = u and b = "word_bits (range_bits pc) (v - lower_bound pc)"])
         (auto simp: int_constraint_wf_def int_permitted_def)
  next
    case 2
    show ?thesis
    proof (cases "lower_bound pc \<le>s v")
      case True
      obtain w where "appends (encode_semi_constrained_int (v - lower_bound pc)) w \<and>
        reads k (\<lambda>d. rbind (decode_semi_constrained_int d) (\<lambda>(offset, d).
            if offset > 0x7FFFFFFFFFFFFFFF - lower_bound pc then Inl storage_error
            else Inr (lower_bound pc + offset, d))) w v"
        using semi_constrained_root [OF signed_offset_fits [OF True]] by blast
      then show ?thesis
        unfolding per_integer_encode_def [abs_def] per_integer_decode_def [abs_def] if_not_P [OF 2(1)] if_P [OF 2(2)]
        by (intro ext_bit_contract) (use True in auto)
    next
      case False
      show ?thesis
        unfolding per_integer_encode_def [abs_def] per_integer_decode_def [abs_def] if_not_P [OF 2(1)] if_P [OF 2(2)]
        by (intro ext_bit_contract [where a = u]) (use False u assms(2) 2 in \<open>auto simp: int_permitted_def\<close>)
    qed
  next
    case 3
    with u show ?thesis by (auto simp: appends_def per_integer_encode_def per_integer_decode_def [abs_def])
  qed
qed

definition uint_constraint_wf :: "constraints \<Rightarrow> bool" where
  "uint_constraint_wf pc \<longleftrightarrow> (has_flag pc CONSTRAINED \<longrightarrow>
     range_bits pc \<le> 64 \<and> uint (upper_u64 pc) - uint (lower_u64 pc) < 2 ^ range_bits pc)"

definition uint_permitted :: "constraints \<Rightarrow> u64 \<Rightarrow> bool" where
  "uint_permitted pc v \<longleftrightarrow> has_flag pc EXTENSIBLE \<or>
     ((has_flag pc CONSTRAINED \<longrightarrow> lower_u64 pc \<le> v \<and> v \<le> upper_u64 pc) \<and>
      (has_flag pc SEMI_CONSTRAINED \<longrightarrow> lower_u64 pc \<le> v))"

lemma unsigned_offset_fits: "b \<le> v \<Longrightarrow> \<not> v - b > 0xFFFFFFFFFFFFFFFF - b" for v b :: u64
proof -
  assume le: "b \<le> v"
  have "(0xFFFFFFFFFFFFFFFF :: u64) = - 1" by simp
  then show ?thesis using le by (metis not_less word_n1_ge word_sub_le_iff word_le_minus_mono_left)
qed

lemma uinteger_contract:
  assumes "uint_constraint_wf pc" "uint_permitted pc v"
  shows "\<exists>bs. appends (per_uinteger_encode pc v) bs \<and> reads k (per_uinteger_decode pc) bs v"
proof -
  obtain u where u: "appends (encode_unconstrained_int v) u" "reads k decode_unconstrained_int u v"
    using unconstrained_contract by blast
  consider "has_flag pc CONSTRAINED"
    | "\<not> has_flag pc CONSTRAINED" "has_flag pc SEMI_CONSTRAINED"
    | "\<not> has_flag pc CONSTRAINED" "\<not> has_flag pc SEMI_CONSTRAINED" by blast
  then show ?thesis
  proof cases
    case 1
    have "uint (v - lower_u64 pc) < 2 ^ range_bits pc" if "lower_u64 pc \<le> v \<and> v \<le> upper_u64 pc"
      using that assms(1) 1 using uint_minus_simple_alt [of "lower_u64 pc" v] by (auto simp: uint_constraint_wf_def word_le_def)
    then show ?thesis
      unfolding per_uinteger_encode_def [abs_def] per_uinteger_decode_def [abs_def] if_P [OF 1]
      using constrained_root [of pc v "lower_u64 pc" "\<lambda>bits. bits + lower_u64 pc" k] assms 1 u
      by (intro ext_bit_contract [where a = u and b = "word_bits (range_bits pc) (v - lower_u64 pc)"])
         (auto simp: uint_constraint_wf_def uint_permitted_def)
  next
    case 2
    show ?thesis
    proof (cases "lower_u64 pc \<le> v")
      case True
      obtain w where "appends (encode_semi_constrained_int (v - lower_u64 pc)) w \<and>
        reads k (\<lambda>d. rbind (decode_semi_constrained_int d) (\<lambda>(offset, d).
            if offset > 0xFFFFFFFFFFFFFFFF - lower_u64 pc then Inl storage_error
            else Inr (lower_u64 pc + offset, d))) w v"
        using semi_constrained_root [OF unsigned_offset_fits [OF True]] by blast
      then show ?thesis
        unfolding per_uinteger_encode_def [abs_def] per_uinteger_decode_def [abs_def] if_not_P [OF 2(1)] if_P [OF 2(2)]
        by (intro ext_bit_contract) (use True in auto)
    next
      case False
      show ?thesis
        unfolding per_uinteger_encode_def [abs_def] per_uinteger_decode_def [abs_def] if_not_P [OF 2(1)] if_P [OF 2(2)]
        by (intro ext_bit_contract [where a = u]) (use False u assms(2) 2 in \<open>auto simp: uint_permitted_def\<close>)
    qed
  next
    case 3
    with u show ?thesis by (auto simp: appends_def per_uinteger_encode_def per_uinteger_decode_def [abs_def])
  qed
qed

section \<open>OCTET STRING and OBJECT IDENTIFIER are read back\<close>

definition size_permitted :: "constraints \<Rightarrow> nat \<Rightarrow> bool" where
  "size_permitted pc n \<longleftrightarrow> (size_count_is_constrained pc \<longrightarrow> \<not> has_flag pc EXTENSIBLE \<longrightarrow>
     size_lower pc \<le> int n \<and> int n \<le> size_upper pc)"

lemma octet_string_contract:
  assumes "size_wf pc" "size_permitted pc (length bytes)"
  shows "\<exists>bs. appends (per_octet_string_encode pc bytes) bs \<and> reads k (per_octet_string_decode pc) bs bytes"
proof -
  obtain bs where bs: "appends (encode_ext_size_and_items pc (length bytes) (write_octets bytes)) bs"
    "reads k (decode_ext_size_and_items pc read_octets []) bs (length bytes, bytes)"
    using octet_items.ext_size_contract [OF assms(1), of bytes k] assms(2) by (auto simp: size_permitted_def)
  have "reads k (per_octet_string_decode pc) bs bytes"
    using reads_map [OF bs(2), of snd] by (simp add: per_octet_string_decode_def [abs_def] case_prod_unfold)
  with bs(1) show ?thesis by (auto simp: appends_def per_octet_string_encode_def)
qed

text \<open>
  \<open>encode_ber_content\<close> is right for contents of at most 127 octets, whose BER length
  is one octet.
\<close>

lemma universal_tlv_octets:
  "n < 31 \<Longrightarrow> length c \<le> 127 \<Longrightarrow> tlv_octets (universal n False) c = ucast n # of_nat (length c) # c"
  by (simp add: tlv_octets_def tag_octets_def length_octets_def universal_def first_tag_octet_def)

lemma encode_ber_content_short:
  assumes "n < 31" "length c \<le> 127"
  shows "appends (encode_ber_content (universal n False) c) (length_bits (length c) @ bits_of_octets c)"
proof -
  let ?ber = "ucast n # of_nat (length c) # c"
  have "bw_buf (write_primitive (universal n False) c new_writer) = ?ber"
    using universal_tlv_octets [OF assms] by (simp add: writer_simps new_writer_def)
  moreover have "unat (of_nat (length c) :: byte) = length c"
    using assms(2) by (simp add: unat_of_nat)
  ultimately have "encode_ber_content (universal n False) c s = write_octets c 0 (length c) (put_length (length c) s)" for s
    by (simp add: encode_ber_content_def write_octets_def Let_def)
  then show ?thesis
    using appends_comp [OF appends_put_length appends_write_octets [of 0 "length c" c]] by (simp add: appends_def)
qed

lemma decode_ber_content_short:
  assumes "n < 31" "length c \<le> 127" "\<exists>r. decode (new_reader (tlv_octets (universal n False) c)) = Inr (x, r)"
  shows "reads k (decode_ber_content (universal n False) decode) (length_bits (length c) @ bits_of_octets c) x"
proof -
  have n: "number (universal n False) = n" by (simp add: universal_def)
  have "reads k (\<lambda>d. rbind (per_read_bytes (length c) d) (\<lambda>(content, d).
       let ber = ucast n # of_nat (length c) # content
       in rbind (decode (new_reader ber)) (\<lambda>(v, _). Inr (v, d)))) (bits_of_octets c @ []) x"
    by (rule reads_bind [where x = c])
       (use reads_octets [of k c "[]"] assms(3) universal_tlv_octets [OF assms(1,2)] reads_return [of k x]
         in \<open>auto simp: per_read_bytes_def [abs_def]\<close>)
  then show ?thesis
    unfolding decode_ber_content_def [abs_def] n
    by (intro reads_bind [OF reads_get_length]) (use assms(2) in simp_all)
qed

lemma ber_traits_decode_tlv:
  assumes "n < 31" "length c \<le> 127" "conv c = Inr x"
  shows "\<exists>r. ber_traits_decode (universal n False) what conv (new_reader (tlv_octets (universal n False) c)) = Inr (x, r)"
proof -
  have "n \<noteq> - 1" using assms(1) by auto
  then have "read_tlv (new_reader (tlv_octets (universal n False) c @ []))
      = Inr (\<lparr>tlv_tag = universal n False, tlv_value = c, tlv_indefinite = False\<rparr>,
             reader_at ([] @ tlv_octets (universal n False) c) [] 0)"
    unfolding new_reader_at using assms(2) by (intro read_tlv_octets) (simp_all add: universal_def)
  then show ?thesis by (simp add: ber_traits_decode_def assms(3))
qed

lemma ber_content_contract:
  assumes "n < 31" "length c \<le> 127" "conv c = Inr x"
  shows "\<exists>bs. appends (encode_ber_content (universal n False) c) bs \<and>
     reads k (decode_ber_content (universal n False) (ber_traits_decode (universal n False) what conv)) bs x"
  using encode_ber_content_short [OF assms(1,2)]
    decode_ber_content_short [where decode = "ber_traits_decode (universal n False) what conv", OF assms(1,2) ber_traits_decode_tlv [of n c conv x what, OF assms]] by blast

lemma oid_contract:
  assumes "oid_valid a" "length (encode_oid a) \<le> 127"
  shows "\<exists>bs. appends (per_oid_encode a) bs \<and> reads k per_oid_decode bs a"
  unfolding per_oid_encode_def per_oid_decode_def
  using assms oid_roundtrip_value by (intro ber_content_contract) simp_all

lemma rel_oid_contract:
  assumes "length (encode_relative_oid a) \<le> 127"
  shows "\<exists>bs. appends (per_rel_oid_encode a) bs \<and> reads k per_rel_oid_decode bs a"
  unfolding per_rel_oid_encode_def per_rel_oid_decode_def
  using assms relative_oid_roundtrip_value by (intro ber_content_contract) simp_all

section \<open>ENUMERATED is read back\<close>

text \<open>The entries are sorted by value, as the compiler emits them.\<close>

definition enum_sorted :: "enum_entry list \<Rightarrow> bool" where
  "enum_sorted es \<longleftrightarrow> sorted_wrt (\<lambda>a b. ee_value a <s ee_value b) es"

lemma enum_search_finds:
  assumes "enum_sorted es" "i < length es" "lo \<le> int i" "int i \<le> hi" "hi < int (length es)" "0 \<le> lo"
  shows "enum_search es (ee_value (es ! i)) lo hi = int i"
  using assms(3-6)
proof (induction "nat (hi - lo + 1)" arbitrary: lo hi rule: less_induct)
  case less
  let ?v = "ee_value (es ! i)"
  let ?m = "(lo + hi) div 2"
  have m: "lo \<le> ?m" "?m \<le> hi" "lo \<le> hi" using less.prems by auto
  have nm: "nat ?m < length es" using m less.prems by linarith
  have sorted: "ee_value (es ! a) <s ee_value (es ! b)" if "a < b" "b < length es" for a b
    using assms(1) that by (simp add: enum_sorted_def sorted_wrt_iff_nth_less)
  consider "nat ?m = i" | "nat ?m < i" | "i < nat ?m" by linarith
  then show ?case
  proof cases
    case 1
    then show ?thesis using m less.prems by (subst enum_search.simps) (simp add: Let_def)
  next
    case 2
    have c: "ee_value (es ! nat ?m) <s ?v" using sorted 2 assms(2) by blast
    then have ne: "ee_value (es ! nat ?m) \<noteq> ?v" by auto
    have "enum_search es ?v (?m + 1) hi = int i"
      using 2 less.prems m by (intro less.hyps) linarith+
    with c ne m(3) show ?thesis by (simp add: enum_search.simps [of es ?v lo hi] Let_def)
  next
    case 3
    have c: "?v <s ee_value (es ! nat ?m)" using sorted 3 nm by blast
    then have ne: "ee_value (es ! nat ?m) \<noteq> ?v" and nl: "\<not> ee_value (es ! nat ?m) <s ?v"
      by (auto simp: word_sless_alt)
    have "enum_search es ?v lo (?m - 1) = int i"
      using 3 less.prems m by (intro less.hyps) linarith+
    with ne nl m(3) show ?thesis by (simp add: enum_search.simps [of es ?v lo hi] Let_def)
  qed
qed

lemma enum_search_sound:
  "0 \<le> lo \<Longrightarrow> 0 \<le> enum_search es v lo hi \<Longrightarrow>
   lo \<le> enum_search es v lo hi \<and> enum_search es v lo hi \<le> hi \<and> ee_value (es ! nat (enum_search es v lo hi)) = v"
proof (induction "nat (hi - lo + 1)" arbitrary: lo hi rule: less_induct)
  case less
  let ?m = "(lo + hi) div 2"
  note unfold = enum_search.simps [of es v lo hi]
  show ?case
  proof (cases "lo \<le> hi")
    case True
    then have m: "lo \<le> ?m" "?m \<le> hi" by auto
    consider "ee_value (es ! nat ?m) = v" | "ee_value (es ! nat ?m) \<noteq> v" "ee_value (es ! nat ?m) <s v"
      | "ee_value (es ! nat ?m) \<noteq> v" "\<not> ee_value (es ! nat ?m) <s v" by blast
    then show ?thesis
    proof cases
      case 1
      with True m show ?thesis by (simp add: unfold Let_def)
    next
      case 2
      then have e: "enum_search es v lo hi = enum_search es v (?m + 1) hi" using True by (simp add: unfold Let_def)
      have "?m + 1 \<le> enum_search es v (?m + 1) hi \<and> enum_search es v (?m + 1) hi \<le> hi
          \<and> ee_value (es ! nat (enum_search es v (?m + 1) hi)) = v"
        using less.prems m True e by (intro less.hyps) linarith+
      with m e show ?thesis by auto
    next
      case 3
      then have e: "enum_search es v lo hi = enum_search es v lo (?m - 1)" using True by (simp add: unfold Let_def)
      have "lo \<le> enum_search es v lo (?m - 1) \<and> enum_search es v lo (?m - 1) \<le> ?m - 1
          \<and> ee_value (es ! nat (enum_search es v lo (?m - 1))) = v"
        using less.prems m True e by (intro less.hyps) linarith+
      with m e show ?thesis by auto
    qed
  next
    case False
    with less.prems show ?thesis by (simp add: unfold)
  qed
qed

text \<open>
  A usable ENUMERATED: its entries are sorted and fit an \<open>int\<close>, and without the
  extension marker all of them are in the root.
\<close>

definition enum_wf :: "enum_spec \<Rightarrow> bool" where
  "enum_wf spec \<longleftrightarrow> enum_sorted (es_entries spec) \<and> length (es_entries spec) < 2 ^ 31 \<and>
     enum_root_count spec \<le> length (es_entries spec) \<and>
     (\<not> es_extensible spec \<longrightarrow> enum_root_count spec = length (es_entries spec))"

lemma per_range_bits_bound: "i < r \<Longrightarrow> i < 2 ^ per_range_bits r"
proof -
  assume "i < r"
  moreover have "r - 1 < 2 ^ bit_width (r - 1)" by (rule bit_width_bound)
  ultimately show ?thesis by (auto simp: per_range_bits_def)
qed

lemma per_range_bits_le: "r < 2 ^ k \<Longrightarrow> per_range_bits r \<le> k"
  by (auto simp: per_range_bits_def intro!: bit_width_le)

lemma reads_put_ext:
  fixes x :: u64
  assumes "reads k (g (if e then x else 0)) bs v" "x = 0 \<or> x = 1"
  shows "reads k (\<lambda>d. rbind (if e then get_bits 1 d else Inr (0, d)) (\<lambda>(b, d). g b d))
    ((if e then word_bits 1 x else []) @ bs) v"
proof (cases e)
  case True
  have "reads k (get_bits 1) (word_bits 1 x) x"
    using reads_get_bits [of 1 k x] assms(2) by auto
  from reads_bind [OF this, where h = g] assms(1) True show ?thesis by (simp only: if_True)
next
  case False
  with assms show ?thesis by simp
qed

lemma enum_contract:
  assumes "enum_wf spec" "i < length (es_entries spec)"
  shows "\<exists>bs. appends (per_enum_encode spec (ee_value (es_entries spec ! i))) bs
       \<and> reads k (per_enum_decode spec) bs (ee_value (es_entries spec ! i))"
proof -
  let ?v = "ee_value (es_entries spec ! i)" and ?r = "enum_root_count spec" and ?e = "es_extensible spec"
  define x where "x = (if i < ?r then 0 else 1 :: u64)"
  define p where "p = (if ?e then word_bits 1 x else [])"
  define ext where "ext = (\<lambda>d. rbind (get_nsnn d) (\<lambda>(ord, d).
            let ext_entry = i32_sum ?r ord in
            if ext_entry \<ge> int (length (es_entries spec))
            then Inl (DecodeError ''PER: ENUM extension index out of range'' 0)
            else if ext_entry < 0 then Inl (OutOfBounds ext_entry)
            else Inr (ee_value (es_entries spec ! nat ext_entry), d)))"
  define g where "g = (\<lambda>(b :: u64) d. if b = 0 then
          rbind (get_bits (per_range_bits ?r) d) (\<lambda>(idx, d).
            if unat idx \<ge> ?r then Inl (DecodeError ''PER: ENUM index out of range'' 0)
            else Inr (ee_value (es_entries spec ! unat idx), d))
        else ext d)"
  have x: "x = 0 \<or> x = 1" by (simp add: x_def)
  have dec: "per_enum_decode spec = (\<lambda>d. rbind (if ?e then get_bits 1 d else Inr (0, d)) (\<lambda>(b, d). g b d))"
    unfolding g_def ext_def per_enum_decode_def [abs_def] Let_def ..
  have ordinal: "enum_search (es_entries spec) ?v 0 (int (length (es_entries spec)) - 1) = int i"
    using assms by (intro enum_search_finds) (auto simp: enum_wf_def)
  define rest where "rest = (if i < ?r then put_bits (of_nat i) (per_range_bits ?r) else put_nsnn (i - ?r))"
  have enc: "per_enum_encode spec ?v s = rest (if ?e then put_bits x 1 s else s)" for s
    by (simp add: per_enum_encode_def ordinal Let_def x_def rest_def nat_diff_distrib not_less)
  have prefix: "appends (\<lambda>s. if ?e then put_bits x 1 s else s) p"
    unfolding p_def by (cases ?e) (simp_all only: if_True if_False appends_put_bits appends_id simp_thms)
  have "\<exists>bs. appends rest bs \<and> reads k (g (if ?e then x else 0)) bs ?v"
  proof (cases "i < ?r")
    case True
    let ?w = "of_nat i :: u64" and ?b = "per_range_bits ?r"
    have b: "?b \<le> 64" using assms(1) per_range_bits_le [of ?r 31] by (simp add: enum_wf_def)
    have w: "take_bit ?b ?w = ?w" using per_range_bits_bound [OF True] by (rule take_bit_of_nat_u64)
    have u: "unat ?w = i" using assms by (simp add: unat_of_nat_u64 enum_wf_def)
    have "reads k (\<lambda>d. rbind (get_bits ?b d) (\<lambda>(idx, d).
            if unat idx \<ge> ?r then Inl (DecodeError ''PER: ENUM index out of range'' 0)
            else Inr (ee_value (es_entries spec ! unat idx), d))) (word_bits ?b ?w @ []) ?v"
      by (rule reads_bind [OF reads_get_bits [OF b]]) (use w u True reads_return in simp_all)
    with True appends_put_bits [of ?w ?b] show ?thesis by (auto simp: rest_def g_def x_def)
  next
    case False
    then have e: "?e" using assms by (auto simp: enum_wf_def)
    obtain bs where bs: "appends (put_nsnn (i - ?r)) bs" "reads k get_nsnn bs (i - ?r)"
    proof -
      have "i - ?r < 2 ^ 31" using assms unfolding enum_wf_def by linarith
      from put_nsnn_contract [OF this] that show ?thesis by blast
    qed
    have idx: "i32_sum ?r (i - ?r) = int i"
      using i32_sum_exact [of ?r "i - ?r"] assms False by (simp add: enum_wf_def)
    have "reads k ext (bs @ []) ?v"
      unfolding ext_def by (rule reads_bind [OF bs(2)]) (use idx assms reads_return in \<open>simp_all add: Let_def\<close>)
    with False e bs(1) show ?thesis by (auto simp: rest_def g_def x_def)
  qed
  then obtain bs where bs: "appends rest bs" "reads k (g (if ?e then x else 0)) bs ?v" by blast
  have "appends (per_enum_encode spec ?v) (p @ bs)"
    using appends_comp [OF prefix bs(1)] by (simp only: appends_def enc simp_thms)
  moreover have "reads k (per_enum_decode spec) (p @ bs) ?v"
    unfolding dec p_def using bs(2) x by (rule reads_put_ext)
  ultimately show ?thesis by blast
qed

section \<open>BIT STRING is read back\<close>

definition pack_from :: "byte list \<times> nat \<Rightarrow> bool list \<Rightarrow> byte list \<times> nat" where
  "pack_from st bs = foldl (\<lambda>st b. push_bit_octets st (of_bool b)) st bs"

definition pack_bits :: "bool list \<Rightarrow> byte list \<times> nat" where
  "pack_bits bs = pack_from ([], 0) bs"

lemma pack_bits_snoc: "pack_bits (bs @ [b]) = push_bit_octets (pack_bits bs) (of_bool b)"
  by (simp add: pack_bits_def pack_from_def)

lemma reads_bit_range: "reads k (read_bit_range (length bs) st) bs (pack_from st bs)"
proof (induction bs arbitrary: st)
  case Nil
  then show ?case by (simp add: reads_return pack_from_def)
next
  case (Cons b bs)
  have "reads k (get_bits (length [b])) [b] (bits_value [b])" by (rule reads_get_bits_list)
  then have g: "reads k (get_bits 1) [b] (of_bool b)" by (simp add: bits_value_def)
  have u: "ucast (of_bool b :: u64) = (of_bool b :: byte)" by simp
  have "reads k (read_bit_range (Suc (length bs)) st) ([b] @ bs) (pack_from (push_bit_octets st (of_bool b)) bs)"
    unfolding read_bit_range.simps
    by (intro reads_bind [OF g]) (simp only: u case_prod_conv Cons)
  then show ?case by (simp only: pack_from_def list.size foldl.simps append.simps add_0_right add_Suc_right)
qed

lemma appends_bit_range:
  "appends (write_bit_range v from to) (map (bit_at v) [from..<to])"
proof (induction to)
  case 0
  then show ?case by (simp add: appends_def write_bit_range_def)
next
  case (Suc to)
  have b: "word_bits 1 (if bit_at v to then 1 else 0 :: u64) = [bit_at v to]" by simp
  show ?case
  proof (cases "from \<le> to")
    case True
    have "write_bit_range v from (Suc to) s = put_bits (if bit_at v to then 1 else 0) 1 (write_bit_range v from to s)" for s
      using True by (simp add: write_bit_range_def del: put_bits.simps)
    with appends_comp [OF Suc appends_put_bits [of "if bit_at v to then 1 else 0" 1], unfolded b] True
    show ?thesis by (simp only: appends_def upt_Suc if_True map_append list.map simp_thms)
  next
    case False
    then show ?thesis by (simp add: appends_def write_bit_range_def)
  qed
qed

interpretation bit_items: item_codec "write_bit_range v" read_bit_range "\<lambda>i. pack_bits (map (bit_at v) [0..<i])" n k for v n k
proof unfold_locales
  fix i j :: nat
  assume le: "i \<le> j"
  let ?bs = "map (bit_at v) [i..<j]"
  have "[0..<j] = [0..<i] @ [i..<j]" using upt_add_eq_append [of 0 i "j - i"] le by simp
  then have "pack_bits (map (bit_at v) [0..<j]) = pack_from (pack_bits (map (bit_at v) [0..<i])) ?bs"
    by (simp add: pack_bits_def pack_from_def)
  with reads_bit_range [of k ?bs "pack_bits (map (bit_at v) [0..<i])"] appends_bit_range [of v i j]
  show "\<exists>bs. appends (write_bit_range v i j) bs
      \<and> reads k (read_bit_range (j - i) (pack_bits (map (bit_at v) [0..<i]))) bs (pack_bits (map (bit_at v) [0..<j]))"
    by auto
qed

lemma octet_bits_or:
  assumes "octet_bits c = xs @ replicate (8 - length xs) False" "length xs < 8"
  shows "octet_bits (c OR push_bit (7 - length xs) (of_bool b)) = xs @ b # replicate (7 - length xs) False"
proof (rule nth_equalityI)
  fix i
  assume "i < length (octet_bits (c OR push_bit (7 - length xs) (of_bool b)))"
  then have i: "i < 8" by simp
  have "octet_bits (c OR push_bit (7 - length xs) (of_bool b)) ! i \<longleftrightarrow> octet_bits c ! i \<or> (i = length xs \<and> b)"
    using i assms(2) by (auto simp: nth_word_bits bit_or_iff bit_push_bit_iff bit_of_bool_iff bit_exp_iff simp del: word_bits.simps)
  also have "\<dots> \<longleftrightarrow> (xs @ b # replicate (7 - length xs) False) ! i"
    unfolding assms(1) using i by (auto simp: nth_append nth_Cons split: nat.splits)
  finally show "octet_bits (c OR push_bit (7 - length xs) (of_bool b)) ! i
      = (xs @ b # replicate (7 - length xs) False) ! i" .
qed (use assms(2) in simp)

lemma octets_of_bits: "(n + 7) div 8 = (if n mod 8 = 0 then n div 8 else n div 8 + 1)" for n :: nat
proof -
  obtain q r where n: "n = 8 * q + r" "r < 8"
    by (metis mod_less_divisor mult_div_mod_eq zero_less_numeral)
  then have "(n + 7) div 8 = (if r = 0 then q else q + 1)" by (intro div_nat_eqI) auto
  with n show ?thesis by simp
qed

text \<open>What the bit loop has packed: the bits it read, then 0 bits to the end of the octet.\<close>

lemma pack_bits_spec:
  "\<exists>bytes. pack_bits bs = (bytes, length bs) \<and> length bytes = (length bs + 7) div 8
     \<and> bits_of_octets bytes = bs @ replicate (8 * length bytes - length bs) False"
proof (induction bs rule: rev_induct)
  case Nil
  then show ?case by (simp add: pack_bits_def pack_from_def)
next
  case (snoc b bs)
  then obtain bytes where p: "pack_bits bs = (bytes, length bs)" "length bytes = (length bs + 7) div 8"
    "bits_of_octets bytes = bs @ replicate (8 * length bytes - length bs) False" by blast
  let ?n = "length bs"
  define ys where "ys = (if ?n mod 8 = 0 then bytes else butlast bytes)"
  define c where "c = (if ?n mod 8 = 0 then 0 else last bytes)"
  have ne: "bytes \<noteq> []" if "?n mod 8 \<noteq> 0"
    using that p(2) by (cases "?n") auto
  have full: "(if ?n mod 8 = 0 then bytes @ [0] else bytes) = ys @ [c]"
    using ne by (auto simp: ys_def c_def)
  have "length ys = ?n div 8"
  proof (cases "?n mod 8 = 0")
    case True
    then have "(?n + 7) div 8 = ?n div 8" by (simp add: octets_of_bits)
    then show ?thesis unfolding ys_def if_P [OF True] p(2) .
  next
    case False
    then have "(?n + 7) div 8 = ?n div 8 + 1" by (simp add: octets_of_bits)
    then show ?thesis unfolding ys_def if_not_P [OF False] length_butlast p(2) by simp
  qed
  then have len: "8 * length ys + ?n mod 8 = ?n" by (simp only: mult_div_mod_eq)
  let ?xs = "drop (8 * length ys) bs"
  have xs: "length ?xs = ?n mod 8" using len by simp
  have bits: "bits_of_octets ys = take (8 * length ys) bs \<and> octet_bits c = ?xs @ replicate (8 - length ?xs) False"
  proof (cases "?n mod 8 = 0")
    case True
    then have "ys = bytes" "c = 0" "8 * length ys = ?n" using len by (simp_all add: ys_def c_def)
    moreover have "octet_bits 0 = replicate 8 False"
      by (rule nth_equalityI) (simp_all add: nth_word_bits del: word_bits.simps)
    ultimately show ?thesis using p(3) by (simp del: word_bits.simps)
  next
    case False
    then have "bits_of_octets ys @ octet_bits c = bs @ replicate (8 * length bytes - ?n) False"
    proof -
      have "bits_of_octets ys @ octet_bits c = bits_of_octets (ys @ [c])"
        by (simp add: bits_of_octets_Cons del: word_bits.simps)
      also have "ys @ [c] = bytes" using full False by simp
      finally show ?thesis using p(3) by simp
    qed
    moreover have "8 * length bytes - ?n = 8 - length ?xs"
      using full False len xs by (metis add_diff_cancel_left add_mult_distrib2 length_append_singleton mult.right_neutral mult_Suc_right add.commute)
    ultimately have "bits_of_octets ys @ octet_bits c = take (8 * length ys) bs @ ?xs @ replicate (8 - length ?xs) False"
      by simp
    moreover have "length (bits_of_octets ys) = length (take (8 * length ys) bs)" using len by simp
    ultimately show ?thesis by (metis append_eq_append_conv)
  qed
  let ?c = "c OR push_bit (7 - ?n mod 8) (of_bool b)"
  have "pack_bits (bs @ [b]) = (ys @ [?c], length (bs @ [b]))"
    unfolding pack_bits_snoc p(1) push_bit_octets_def Let_def fst_conv snd_conv full by simp
  moreover have "length (ys @ [?c]) = (length (bs @ [b]) + 7) div 8"
    using len by simp
  moreover have "bits_of_octets (ys @ [?c]) = (bs @ [b]) @ replicate (8 * length (ys @ [?c]) - length (bs @ [b])) False"
  proof -
    have c: "octet_bits ?c = ?xs @ b # replicate (7 - length ?xs) False"
      using octet_bits_or [of c ?xs b] bits xs by (simp only: mod_less_divisor)
    have "bits_of_octets (ys @ [?c]) = bits_of_octets ys @ octet_bits ?c"
      by (simp only: bits_of_octets_append bits_of_octets_Cons bits_of_octets_Nil append_Nil2)
    also have "\<dots> = (take (8 * length ys) bs @ ?xs) @ b # replicate (7 - length ?xs) False"
      unfolding c using bits by (simp only: append_assoc)
    also have "take (8 * length ys) bs @ ?xs = bs" by (rule append_take_drop_id)
    also have "7 - length ?xs = 8 * length (ys @ [?c]) - length (bs @ [b])" using len xs by simp
    finally show ?thesis by (simp only: append_assoc append_Cons append_Nil)
  qed
  ultimately show ?case by blast
qed

lemma unat_of_nat_byte: "n < 256 \<Longrightarrow> unat (of_nat n :: byte) = n"
  by (simp add: unat_of_nat take_bit_nat_eq_self_iff)

text \<open>The value \<open>per_bit_string_decode\<close> builds from \<open>n\<close> packed bits.\<close>

definition packed_bit_string :: "bool list \<Rightarrow> bit_string" where
  "packed_bit_string bs =
     (if bs = [] then \<lparr>bs_bytes = [], bs_unused = 0\<rparr>
      else \<lparr>bs_bytes = fst (pack_bits bs), bs_unused = of_nat ((8 - length bs mod 8) mod 8)\<rparr>)"

lemma packed_bit_string_spec:
  "bit_string_ok (packed_bit_string bs) \<and> clean_padding (packed_bit_string bs) \<and>
   bit_count (packed_bit_string bs) = length bs \<and>
   (\<forall>i. bit_at (packed_bit_string bs) i \<longleftrightarrow> i < length bs \<and> bs ! i)"
proof (cases "bs = []")
  case True
  then show ?thesis
    by (simp add: packed_bit_string_def bit_string_ok_def clean_padding_def bit_count_def bit_at_def)
next
  case False
  obtain bytes where p: "pack_bits bs = (bytes, length bs)" "length bytes = (length bs + 7) div 8"
    "bits_of_octets bytes = bs @ replicate (8 * length bytes - length bs) False" using pack_bits_spec by blast
  let ?n = "length bs" and ?u = "(8 - length bs mod 8) mod 8"
  let ?v = "packed_bit_string bs"
  have v: "bs_bytes ?v = bytes" "bs_unused ?v = of_nat ?u" using False p(1) by (simp_all add: packed_bit_string_def)
  have u: "unat (bs_unused ?v) = ?u" unfolding v(2) by (rule unat_of_nat_byte) (rule less_le_trans [of _ 8], simp_all)
  have u7: "?u \<le> 7" using mod_less_divisor [of 8 "8 - ?n mod 8"] by linarith
  have ne: "bytes \<noteq> []" using False p(2) by (cases bs) auto
  have count: "bit_count ?v = ?n"
    unfolding bit_count_def v(1) u using ne octets_minus_unused [of ?n] p(2) by simp
  have le: "?n \<le> 8 * length bytes" using count unfolding bit_count_def v(1) using ne by (auto simp: mult.commute)
  have at: "bit (bytes ! (i div 8)) (7 - i mod 8) \<longleftrightarrow> i < ?n \<and> bs ! i" if "i < 8 * length bytes" for i
    using nth_bits_of_octets [OF that] that unfolding p(3) by (auto simp: nth_append diff_less_mono split: if_splits)
  have "bit_at ?v i \<longleftrightarrow> i < ?n \<and> bs ! i" for i
    unfolding bit_at_eq count v(1) using at [of i] le by auto
  moreover have "clean_padding ?v"
  proof -
    have "bytes ! j AND unused_mask (bs_unused ?v) = bytes ! j" if j: "j + 1 = length bytes" for j
    proof (rule bit_word_eqI)
      fix k assume "k < LENGTH(8)"
      then have k: "k < 8" by simp
      define m where "m = 7 - k"
      define i where "i = 8 * j + m"
      have "m < 8" "7 - m = k" using k by (simp_all add: m_def)
      then have i: "i div 8 = j" "7 - i mod 8 = k" "i < 8 * length bytes" using j by (simp_all add: i_def)
      have "?u \<le> k" if "bit (bytes ! j) k"
      proof -
        have "i < ?n" using at [OF i(3)] i that by simp
        then show ?thesis using last_octet_position [of i "length bytes" ?u] i(1,2) j u7 count ne
          unfolding bit_count_def v(1) u by simp
      qed
      then show "bit (bytes ! j AND unused_mask (bs_unused ?v)) k \<longleftrightarrow> bit (bytes ! j) k"
        using k by (auto simp: bit_and_iff bit_unused_mask u)
    qed
    then show ?thesis by (simp add: clean_padding_def tested_octet_def v(1))
  qed
  moreover have "bit_string_ok ?v" using u u7 ne v(1) by (simp add: bit_string_ok_def)
  ultimately show ?thesis using count by blast
qed

lemma bit_count_fields:
  assumes "bit_string_ok v" "bit_string_ok w" "bit_count v = bit_count w"
  shows "bs_unused v = bs_unused w \<and> length (bs_bytes v) = length (bs_bytes w)"
proof -
  have c: "8 * length (bs_bytes x) = bit_count x + unat (bs_unused x) \<and> unat (bs_unused x) \<le> 7"
    if "bit_string_ok x" for x
    using that by (cases "bs_bytes x") (auto simp: bit_string_ok_def bit_count_def)
  have "length (bs_bytes v) = length (bs_bytes w)" using c [OF assms(1)] c [OF assms(2)] assms(3) by linarith
  moreover from this have "unat (bs_unused v) = unat (bs_unused w)"
    using c [OF assms(1)] c [OF assms(2)] assms(3) by linarith
  ultimately show ?thesis by (simp add: word_unat_eq_iff)
qed

text \<open>A value without trailing zeros to drop comes back; a NamedBitList comes back normalised.\<close>

definition sent_bit_string :: "constraints \<Rightarrow> bit_string \<Rightarrow> bit_string" where
  "sent_bit_string pc v = (if has_flag pc NAMED_BITS then normalize_named_bits pc v else v)"

lemma packed_sent_bit_string:
  assumes "bit_string_ok v" "clean_padding v"
  shows "packed_bit_string (map (bit_at v) [0..<bit_count (sent_bit_string pc v)]) = sent_bit_string pc v"
    (is "?p = ?s")
proof -
  have s: "bit_string_ok ?s" "clean_padding ?s" "\<And>i. bit_at ?s i \<longleftrightarrow> bit_at v i"
    using assms normalize_ok normalize_clean normalize_bits by (auto simp: sent_bit_string_def)
  note p = packed_bit_string_spec [of "map (bit_at v) [0..<bit_count ?s]"]
  have at: "bit_at ?p i \<longleftrightarrow> bit_at ?s i" for i
  proof -
    have "bit_at ?s i \<Longrightarrow> i < bit_count ?s" by (simp only: bit_at_def)
    moreover have "bit_at ?p i \<longleftrightarrow> i < bit_count ?s \<and> bit_at v i"
      using p by (simp cong: conj_cong)
    ultimately show ?thesis using s(3) by blast
  qed
  have "bs_unused ?p = bs_unused ?s \<and> length (bs_bytes ?p) = length (bs_bytes ?s)"
    using p s(1) by (intro bit_count_fields) simp_all
  then show ?thesis using p s(1,2) at by (intro bit_string_eqI) blast+
qed

lemma bit_string_contract:
  assumes "size_wf pc" "bit_string_ok v" "clean_padding v" "size_permitted pc (bit_count (sent_bit_string pc v))"
  shows "\<exists>bs. appends (per_bit_string_encode pc v) bs \<and> reads k (per_bit_string_decode pc) bs (sent_bit_string pc v)"
proof -
  let ?n = "bit_count (sent_bit_string pc v)"
  let ?bits = "map (bit_at v) [0..<?n]"
  have n: "(if has_flag pc NAMED_BITS then named_bits_length pc v else bit_count v) = ?n"
    by (simp add: sent_bit_string_def normalize_bit_count)
  obtain bs where bs: "appends (encode_ext_size_and_items pc ?n (write_bit_range v)) bs"
    "reads k (decode_ext_size_and_items pc read_bit_range ([], 0)) bs (?n, pack_bits ?bits)"
    using bit_items.ext_size_contract [OF assms(1), of ?n v k] assms(4)
    by (auto simp: size_permitted_def pack_bits_def pack_from_def)
  obtain bytes where p: "pack_bits ?bits = (bytes, ?n)" using pack_bits_spec [of ?bits] by auto
  have v: "packed_bit_string ?bits = sent_bit_string pc v" by (rule packed_sent_bit_string [OF assms(2,3)])
  have "?n = 0 \<longleftrightarrow> ?bits = []" by simp
  then have "reads k (\<lambda>d. case (?n, pack_bits ?bits) of (n, (bytes, _)) \<Rightarrow>
       if n = 0 then Inr (\<lparr>bs_bytes = [], bs_unused = 0\<rparr>, d)
       else Inr (\<lparr>bs_bytes = bytes, bs_unused = of_nat ((8 - n mod 8) mod 8)\<rparr>, d)) [] (packed_bit_string ?bits)"
    unfolding p packed_bit_string_def by (simp add: reads_return)
  then have "reads k (per_bit_string_decode pc) (bs @ []) (sent_bit_string pc v)"
    unfolding per_bit_string_decode_def [abs_def] v
    by (intro reads_bind [OF bs(2)]) (simp only: case_prod_conv p)
  moreover have "appends (per_bit_string_encode pc v) bs"
    using bs(1) by (simp add: appends_def per_bit_string_encode_def n)
  ultimately show ?thesis by auto
qed

section \<open>Character strings are read back\<close>

text \<open>A FROM alphabet whose two tables are inverse to each other, and whose indices fit its width.\<close>

definition alphabet_wf :: "constraints \<Rightarrow> bool" where
  "alphabet_wf pc \<longleftrightarrow>
     (alphabet_bits pc > 0 \<longrightarrow>
        alphabet_bits pc \<le> 16 \<and> length (alphabet pc) \<le> 2 ^ alphabet_bits pc \<and>
        (alphabet pc \<noteq> [] \<longleftrightarrow> encode_table pc \<noteq> None)) \<and>
     (has_alpha pc \<longrightarrow> (\<forall>c. table_at pc c \<noteq> 0xFFFF \<longrightarrow>
        unat (table_at pc c) < length (alphabet pc) \<and> alphabet pc ! unat (table_at pc c) = c))"

text \<open>Unit \<open>ci\<close> of the string is a character the chosen width can carry.\<close>

definition char_fits :: "u32 \<Rightarrow> constraints \<Rightarrow> byte list \<Rightarrow> nat \<Rightarrow> bool" where
  "char_fits tag pc str ci \<longleftrightarrow>
     (let (bits, bpc) = string_params tag in
      if has_alpha pc then char_in_alphabet pc bpc str ci
      else if bits = 4 then str ! ci = 0x20 \<or> (0x30 \<le> str ! ci \<and> str ! ci \<le> 0x39)
      else bits = 7 \<longrightarrow> str ! ci \<le> 0x7F)"

definition string_root_ok :: "u32 \<Rightarrow> constraints \<Rightarrow> byte list \<Rightarrow> bool" where
  "string_root_ok tag pc str \<longleftrightarrow>
     (let bpc = snd (string_params tag); n = length str div bpc in
      bpc dvd length str \<and> (\<forall>ci < n. char_fits tag pc str ci) \<and>
      (has_flag pc SIZE_CONSTRAINED \<longrightarrow> \<not> has_flag pc EXTENSIBLE \<or> size_count_is_constrained pc \<longrightarrow>
         size_lower pc \<le> int n \<and> int n \<le> size_upper pc))"

lemma string_params_cases:
  "string_params tag = (4, 1) \<and> tag = UT_NumericString \<or> string_params tag = (7, 1) \<and> tag \<noteq> UT_NumericString \<or>
   string_params tag = (8, 2) \<or> string_params tag = (8, 4) \<or> string_params tag = (8, 1) \<and> tag \<noteq> UT_Ia5String"
  by (simp add: string_params_def)

lemma numeric_char_roundtrip:
  assumes "c = 0x20 \<or> (0x30 \<le> c \<and> c \<le> 0x39)"
  shows "decode_numeric_char (encode_numeric_char c) = c \<and> take_bit 4 (encode_numeric_char c) = encode_numeric_char c"
proof -
  have "c = of_nat (unat c)" by simp
  moreover have "unat c = 0x20 \<or> (0x30 \<le> unat c \<and> unat c \<le> 0x39)"
    using assms by (auto simp: word_le_nat_alt)
  then have "unat c \<in> set (0x20 # [0x30..<0x3A])"
    by (simp only: list.set set_upt atLeastLessThan_iff insert_iff) linarith
  moreover have "\<forall>n \<in> set (0x20 # [0x30..<0x3A]).
      decode_numeric_char (encode_numeric_char (of_nat n)) = of_nat n
      \<and> take_bit 4 (encode_numeric_char (of_nat n)) = encode_numeric_char (of_nat n)"
    by code_simp
  ultimately show ?thesis by metis
qed

lemma reads_char_field:
  assumes "n \<le> 64" "take_bit n w = w" "f w = x"
  shows "reads k (\<lambda>d. rbind (get_bits n d) (\<lambda>(v, d). Inr (out @ f v, d))) (word_bits n w) (out @ x)"
  using reads_map [OF reads_get_bits [OF assms(1), of k w], of "\<lambda>v. out @ f v"] assms(2,3) by simp

lemma write_wide_char:
  "foldl (\<lambda>s b. put_bits (ucast (str ! (at + b))) 8 s) s [0..<n] = write_octets str at (at + n) s"
proof -
  have "[at..<at + n] = map (\<lambda>b. at + b) [0..<n]" using map_add_upt [of at n] by (simp add: add.commute)
  then show ?thesis by (simp add: write_octets_def foldl_map)
qed

lemma wide_char_zeros:
  assumes "i + n \<le> length str" "0 < n" "list_all (\<lambda>b. str ! (i + b) = 0) [0..<n - 1]"
  shows "take n (drop i str) = replicate (n - 1) 0 @ [str ! (i + n - 1)]"
proof (rule nth_equalityI)
  fix j
  assume "j < length (take n (drop i str))"
  then have j: "j < n" by simp
  show "take n (drop i str) ! j = (replicate (n - 1) 0 @ [str ! (i + n - 1)]) ! j"
  proof (cases "j < n - 1")
    case True
    then have "str ! (i + j) = 0" using assms(3) by (simp add: list_all_iff)
    with True j assms(1) show ?thesis by (simp add: nth_append)
  next
    case False
    with j have "j = n - 1" by simp
    with assms(1,2) show ?thesis by (simp add: nth_append)
  qed
qed (use assms in simp)

lemma take_bit_ucast_small:
  fixes w :: "'a::len word"
  assumes "unat w < 2 ^ n"
  shows "take_bit n (ucast w :: u64) = ucast w"
proof (rule bit_eqI)
  fix i
  have "bit w i \<Longrightarrow> i < n"
    using assms bit_nat_bound [of "unat w" i n] by (simp add: bit_unsigned_iff)
  then show "bit (take_bit n (ucast w :: u64)) i \<longleftrightarrow> bit (ucast w :: u64) i"
    by (auto simp: bit_take_bit_iff bit_ucast_iff)
qed

lemma ucast_octet_u64 [simp]: "ucast (ucast (c :: byte) :: u64) = c"
  by (rule bit_eqI) (auto simp: bit_ucast_iff dest: bit_imp_le_length)

lemma char_contract:
  assumes "alphabet_wf pc" "string_params tag = (bits, bpc)" "char_fits tag pc str ci" "ci * bpc + bpc \<le> length str"
  shows "\<exists>bs. appends (write_char pc bits bpc str ci) bs \<and>
     (\<forall>out. reads k (read_char pc bits bpc out) bs (out @ take bpc (drop (ci * bpc) str)))"
proof -
  let ?at = "ci * bpc"
  have bpc: "0 < bpc" using string_params_cases [of tag] assms(2) by auto
  consider (alpha) "has_alpha pc" | (wide) "\<not> has_alpha pc" "bpc > 1"
    | (numeric) "\<not> has_alpha pc" "bpc = 1" "bits = 4" | (plain) "\<not> has_alpha pc" "bpc = 1" "bits \<noteq> 4"
    using bpc by linarith
  then show ?thesis
  proof cases
    case alpha
    let ?c = "str ! (?at + bpc - 1)" and ?n = "alphabet_bits pc"
    let ?w = "ucast (table_at pc ?c) :: u64"
    have a: "?n > 0" "alphabet pc \<noteq> []" using alpha assms(1) by (auto simp: has_alpha_def alphabet_wf_def)
    have c: "char_in_alphabet pc bpc str ci" using assms(2,3) alpha by (simp add: char_fits_def)
    then have t: "unat (table_at pc ?c) < length (alphabet pc)" "alphabet pc ! unat (table_at pc ?c) = ?c"
      using assms(1) alpha by (auto simp: char_in_alphabet_def alphabet_wf_def)
    have n: "?n \<le> 64" "length (alphabet pc) \<le> 2 ^ ?n" using assms(1) a by (auto simp: alphabet_wf_def)
    have w: "take_bit ?n ?w = ?w" using t(1) n(2) by (intro take_bit_ucast_small) linarith
    have u: "unat ?w = unat (table_at pc ?c)" by (simp add: unsigned_ucast_eq take_bit_nat_eq_self_iff less_le_trans [OF unsigned_less])
    have "take bpc (drop ?at str) = replicate (bpc - 1) 0 @ [?c]"
      using wide_char_zeros [OF assms(4) bpc] c by (simp add: char_in_alphabet_def)
    then have "reads k (read_char pc bits bpc out) (word_bits ?n ?w @ []) (out @ take bpc (drop ?at str))" for out
      unfolding read_char_def [abs_def] if_P [OF conjI [OF a]]
      by (intro reads_bind [OF reads_get_bits [OF n(1)]]) (use w u t reads_return in simp_all)
    moreover have "appends (write_char pc bits bpc str ci) (word_bits ?n ?w)"
      using appends_put_bits [of ?w ?n] alpha by (simp add: appends_def write_char_def Let_def)
    ultimately show ?thesis by auto
  next
    case wide
    have na: "\<not> (alphabet_bits pc > 0 \<and> alphabet pc \<noteq> [])" using wide(1) assms(1) by (auto simp: has_alpha_def alphabet_wf_def)
    let ?xs = "take bpc (drop ?at str)"
    have "appends (write_char pc bits bpc str ci) (bits_of_octets ?xs)"
      using appends_write_octets [of ?at "?at + bpc" str] assms(4) wide
      by (simp add: appends_def write_char_def Let_def write_wide_char)
    moreover have "length ?xs = bpc" using assms(4) by simp
    then have "reads k (read_char pc bits bpc out) (bits_of_octets ?xs) (out @ ?xs)" for out
      using reads_octets [of k ?xs out] wide(2) unfolding read_char_def [abs_def] if_not_P [OF na] by simp
    ultimately show ?thesis by blast
  next
    case numeric
    have na: "\<not> (alphabet_bits pc > 0 \<and> alphabet pc \<noteq> [])" using numeric(1) assms(1) by (auto simp: has_alpha_def alphabet_wf_def)
    let ?c = "str ! ci"
    have "?c = 0x20 \<or> (0x30 \<le> ?c \<and> ?c \<le> 0x39)" using assms(2,3) numeric by (simp add: char_fits_def)
    note r = numeric_char_roundtrip [OF this]
    let ?w = "ucast (encode_numeric_char ?c) :: u64"
    have "take_bit 4 ?w = ?w" using r by (metis take_bit_ucast_small unsigned_take_bit_eq take_bit_nat_less_exp)
    moreover have "[decode_numeric_char (ucast ?w)] = take bpc (drop ?at str)"
      using r numeric assms(4) by (simp add: take_Suc_conv_app_nth)
    ultimately have "reads k (read_char pc bits bpc out) (word_bits 4 ?w) (out @ take bpc (drop ?at str))" for out
      using reads_char_field [of 4 ?w "\<lambda>v. [decode_numeric_char (ucast v)]"] numeric
      unfolding read_char_def [abs_def] if_not_P [OF na] by simp
    moreover have "appends (write_char pc bits bpc str ci) (word_bits 4 ?w)"
      using appends_put_bits [of ?w 4] numeric by (simp add: appends_def write_char_def Let_def)
    ultimately show ?thesis by blast
  next
    case plain
    have na: "\<not> (alphabet_bits pc > 0 \<and> alphabet pc \<noteq> [])" using plain(1) assms(1) by (auto simp: has_alpha_def alphabet_wf_def)
    let ?c = "str ! ci" and ?w = "ucast (str ! ci) :: u64"
    have b: "bits = 7 \<or> bits = 8" using string_params_cases [of tag] assms(2) plain by auto
    have "unat ?c < 2 ^ bits"
    proof (cases "bits = 7")
      case True
      then have "?c \<le> 0x7F" using assms(2,3) plain by (simp add: char_fits_def)
      then show ?thesis using True by (simp add: word_le_nat_alt)
    qed (use b in simp)
    then have "take_bit bits ?w = ?w" by (rule take_bit_ucast_small)
    moreover have "[ucast ?w] = take bpc (drop ?at str)"
      using plain assms(4) by (simp add: take_Suc_conv_app_nth)
    moreover have "read_char pc bits bpc out = (\<lambda>d. rbind (get_bits bits d) (\<lambda>(v, d). Inr (out @ [ucast v], d)))" for out
      unfolding read_char_def [abs_def] if_not_P [OF na] using plain by simp
    ultimately have "reads k (read_char pc bits bpc out) (word_bits bits ?w) (out @ take bpc (drop ?at str))" for out
      using b by (simp only:) (rule reads_char_field, auto)
    moreover have "appends (write_char pc bits bpc str ci) (word_bits bits ?w)"
      using appends_put_bits [of ?w bits] plain by (simp add: appends_def write_char_def Let_def)
    ultimately show ?thesis by blast
  qed
qed

text \<open>The characters \<open>from\<close> to \<open>to\<close>, one after the other.\<close>

lemma chars_contract:
  assumes "alphabet_wf pc" "string_params tag = (bits, bpc)" "\<forall>ci < n. char_fits tag pc str ci"
    "i \<le> j" "j \<le> n" "n * bpc \<le> length str"
  shows "\<exists>bs. appends (write_chars pc bits bpc str i j) bs \<and>
     reads k (read_chars pc bits bpc (j - i) (take (i * bpc) str)) bs (take (j * bpc) str)"
  using assms(4)
proof (induction "j - i" arbitrary: i)
  case 0
  then show ?case
    by (intro exI [of _ "[]"]) (simp add: appends_def write_chars_def reads_return)
next
  case (Suc m)
  then have i: "i < j" by simp
  have "(i + 1) * bpc \<le> n * bpc" using i assms(5) by (intro mult_le_mono1) simp
  then have fit: "i * bpc + bpc \<le> length str" using assms(6) by simp
  obtain a where a: "appends (write_char pc bits bpc str i) a"
    "\<And>out. reads k (read_char pc bits bpc out) a (out @ take bpc (drop (i * bpc) str))"
    using char_contract [OF assms(1,2) _ fit] assms(3,5) i by (meson less_le_trans)
  obtain bs where bs: "appends (write_chars pc bits bpc str (Suc i) j) bs"
    "reads k (read_chars pc bits bpc m (take (Suc i * bpc) str)) bs (take (j * bpc) str)"
  proof -
    have "m = j - Suc i" "Suc i \<le> j" using Suc.hyps(2) i by simp_all
    from Suc.hyps(1) [OF this] that this show ?thesis by blast
  qed
  have "[i..<j] = i # [Suc i..<j]" using i by (simp add: upt_conv_Cons)
  then have "appends (write_chars pc bits bpc str i j) (a @ bs)"
    using appends_comp [OF a(1) bs(1)] by (simp add: appends_def write_chars_def)
  moreover have "take (i * bpc) str @ take bpc (drop (i * bpc) str) = take (Suc i * bpc) str"
    by (simp add: take_add [symmetric] add.commute)
  then have "reads k (read_chars pc bits bpc (Suc m) (take (i * bpc) str)) (a @ bs) (take (j * bpc) str)"
    unfolding read_chars.simps by (intro reads_bind [OF a(2)]) (simp only: bs(2))
  ultimately show ?case using Suc.hyps(2) by auto
qed

lemma chars_item_codec:
  assumes "alphabet_wf pc" "string_params tag = (bits, bpc)" "\<forall>ci < n. char_fits tag pc str ci" "n * bpc \<le> length str"
  shows "item_codec (write_chars pc bits bpc str) (read_chars pc bits bpc) (\<lambda>i. take (i * bpc) str) n k"
  by unfold_locales (rule chars_contract [OF assms(1-3) _ _ assms(4)])

text \<open>The checks in front of the characters pass on a string that fits.\<close>

lemma string_checks_pass:
  assumes "string_params tag = (bits, bpc)" "string_root_ok tag pc str"
  shows "string_encode_root tag pc str s =
     encode_size_and_items pc (length str div bpc) (write_chars pc bits bpc str) s"
proof -
  let ?n = "length str div bpc"
  have fits: "\<forall>ci < ?n. char_fits tag pc str ci"
    using assms by (simp add: string_root_ok_def Let_def)
  have "\<not> (has_flag pc SIZE_CONSTRAINED \<and> \<not> has_flag pc EXTENSIBLE \<and>
       (int ?n < size_lower pc \<or> int ?n > size_upper pc))"
    using assms by (auto simp: string_root_ok_def Let_def)
  moreover have "\<not> (\<not> has_alpha pc \<and> \<not> has_flag pc EXTENSIBLE \<and> tag = UT_NumericString \<and>
       list_ex (\<lambda>c. c \<noteq> 0x20 \<and> (c < 0x30 \<or> c > 0x39)) str)"
    using fits assms(1) by (fastforce simp: char_fits_def string_params_def list_ex_iff in_set_conv_nth)
  moreover have "\<not> (\<not> has_alpha pc \<and> \<not> has_flag pc EXTENSIBLE \<and> tag = UT_Ia5String \<and> list_ex (\<lambda>c. c > 0x7F) str)"
    using fits assms(1) by (fastforce simp: char_fits_def string_params_def list_ex_iff in_set_conv_nth)
  moreover have "\<not> (has_alpha pc \<and> \<not> list_all (char_in_alphabet pc bpc str) [0..<?n])"
    using fits assms(1) by (auto simp: char_fits_def list_all_iff)
  ultimately show ?thesis by (simp only: string_encode_root_def assms(1) Let_def case_prod_conv if_False)
qed

lemma string_root_contract:
  assumes "alphabet_wf pc" "size_wf pc" "string_root_ok tag pc str"
  shows "\<exists>bs. appends (string_encode_root tag pc str) bs \<and> reads k (string_decode_root tag pc) bs str"
proof -
  obtain bits bpc where params: "string_params tag = (bits, bpc)" by fastforce
  let ?n = "length str div bpc"
  have len: "?n * bpc = length str" and fits: "\<forall>ci < ?n. char_fits tag pc str ci"
    and size: "size_count_is_constrained pc \<Longrightarrow> size_lower pc \<le> int ?n \<and> int ?n \<le> size_upper pc"
    using assms(3) params by (auto simp: string_root_ok_def size_count_is_constrained_def Let_def)
  have "item_codec (write_chars pc bits bpc str) (read_chars pc bits bpc) (\<lambda>i. take (i * bpc) str) ?n k"
    using chars_item_codec [OF assms(1) params fits] len by simp
  from item_codec.size_contract [OF this assms(2) size] obtain bs where bs:
    "appends (encode_size_and_items pc ?n (write_chars pc bits bpc str)) bs"
    "reads k (decode_size_and_items pc (read_chars pc bits bpc) []) bs (?n, str)"
    using len by auto
  have "reads k (string_decode_root tag pc) bs str"
    using reads_map [OF bs(2), of snd] by (simp add: string_decode_root_def [abs_def] params case_prod_unfold)
  with bs(1) show ?thesis by (auto simp: appends_def string_checks_pass [OF params assms(3)])
qed

text \<open>The constraints that govern the encoding: none where they are invisible or the value is outside the root.\<close>

definition string_in_root :: "u32 \<Rightarrow> constraints \<Rightarrow> byte list \<Rightarrow> bool" where
  "string_in_root tag pc str \<longleftrightarrow>
     (let bpc = snd (string_params tag); n = int (length str div bpc) in
      (has_flag pc SIZE_CONSTRAINED \<longrightarrow> n \<ge> size_lower pc \<and> n \<le> size_upper pc) \<and>
      (has_alpha pc \<longrightarrow> alphabet_in_root pc bpc str))"

definition string_permitted :: "u32 \<Rightarrow> constraints \<Rightarrow> byte list \<Rightarrow> bool" where
  "string_permitted tag pc str \<longleftrightarrow>
     (if has_flag pc PER_SIZE_INVISIBLE then
        string_root_ok tag no_constraints str \<and>
        (has_flag pc SIZE_CONSTRAINED \<longrightarrow> has_flag pc EXTENSIBLE \<or>
           (size_lower pc \<le> int (string_char_count tag str) \<and> int (string_char_count tag str) \<le> size_upper pc)) \<and>
        (has_alpha pc \<longrightarrow> list_all (\<lambda>cp. cp \<le> 0xFF \<and> table_at pc (ucast cp) \<noteq> 0xFFFF) (code_points tag str))
      else if has_flag pc EXTENSIBLE \<and> \<not> string_in_root tag pc str then string_root_ok tag no_constraints str
      else string_root_ok tag pc str)"

lemma no_constraints_wf [simp]:
  "alphabet_wf no_constraints" "size_wf no_constraints" "\<not> has_flag no_constraints f"
  by (simp_all add: alphabet_wf_def size_wf_def size_count_is_constrained_def has_alpha_def has_flag_def no_constraints_def)

lemma string_contract:
  assumes "alphabet_wf pc" "size_wf pc" "string_permitted tag pc str"
  shows "\<exists>bs. appends (per_string_encode tag pc str) bs \<and> reads k (per_string_decode tag pc) bs str"
proof (cases "has_flag pc PER_SIZE_INVISIBLE")
  case True
  with assms(3) have "string_root_ok tag no_constraints str" by (simp add: string_permitted_def)
  moreover have "per_string_encode tag pc str s = string_encode_root tag no_constraints str s" for s
    using True assms(3) by (auto simp: per_string_encode_def string_permitted_def Let_def list_all_iff not_le not_less)
  ultimately show ?thesis
    using string_root_contract [of no_constraints tag str k] True
    by (simp add: appends_def per_string_decode_def [abs_def])
next
  case vis: False
  show ?thesis
  proof (cases "has_flag pc EXTENSIBLE")
    case False
    with vis assms show ?thesis
      using string_root_contract [OF assms(1,2), of tag str k]
      by (simp add: appends_def per_string_encode_def per_string_decode_def [abs_def] string_permitted_def)
  next
    case True
    let ?r = "string_in_root tag pc str"
    obtain bs where bs: "appends (string_encode_root tag (if ?r then pc else no_constraints) str) bs"
      "reads k (string_decode_root tag (if ?r then pc else no_constraints)) bs str"
      using string_root_contract [of "if ?r then pc else no_constraints" tag str k] assms vis True
      by (auto simp: string_permitted_def split: if_splits)
    define x where "x = (if ?r then 0 else 1 :: u64)"
    have enc: "per_string_encode tag pc str s
        = string_encode_root tag (if ?r then pc else no_constraints) str (put_bits x 1 s)" for s
      using vis True
      by (simp only: per_string_encode_def if_True if_False Let_def case_prod_unfold string_in_root_def x_def) simp
    have dec: "per_string_decode tag pc = (\<lambda>d. rbind (get_bits 1 d) (\<lambda>(ext, d).
          if ext \<noteq> 0 then string_decode_root tag no_constraints d else string_decode_root tag pc d))"
      using vis True by (simp add: per_string_decode_def [abs_def])
    have "appends (per_string_encode tag pc str) (word_bits 1 x @ bs)"
      using appends_comp [OF appends_put_bits [of x 1] bs(1)] by (simp only: appends_def enc simp_thms)
    moreover have "reads k (per_string_decode tag pc) (word_bits 1 x @ bs) str"
      unfolding dec
      by (rule reads_bind [OF reads_get_bits [of 1 k x]]) (use bs(2) in \<open>auto simp: x_def split: if_splits\<close>)
    ultimately show ?thesis by blast
  qed
qed

end
