(* ===== verification/Builtin_Types.thy ===== *)
theory Builtin_Types
  imports Type_Descriptors
begin

text \<open>
  The descriptors of the built-in types and the alphabet tables of the restricted
  string types (\<open>runtime/src/BuiltinTypes.cpp\<close>). The encode tables are written as
  the function that generates them from the decode tables. REAL is left out: its
  storage holds a floating-point number.
\<close>

section \<open>Alphabet tables\<close>

definition k_num_alpha :: "byte list" where
  "k_num_alpha = map of_nat (32 # [48..<58])"

definition k_prt_alpha :: "byte list" where
  "k_prt_alpha = map of_nat ([32, 39, 40, 41] @ [43..<59] @ [61, 63] @ [65..<91] @ [97..<123])"

definition k_ia5_alpha :: "byte list" where
  "k_ia5_alpha = map of_nat [0..<128]"

definition k_vis_alpha :: "byte list" where
  "k_vis_alpha = map of_nat [32..<127]"

text \<open>\<open>enc[char]\<close>: the index of the character, \<open>0xFFFF\<close> when it is not in the alphabet.\<close>

fun alpha_index :: "byte list \<Rightarrow> byte \<Rightarrow> nat option" where
  "alpha_index [] c = None"
| "alpha_index (a # as) c = (if a = c then Some 0 else map_option Suc (alpha_index as c))"

definition enc_table :: "byte list \<Rightarrow> u16 list" where
  "enc_table alpha =
     map (\<lambda>c. case alpha_index alpha (of_nat c) of None \<Rightarrow> 0xFFFF | Some i \<Rightarrow> of_nat i) [0..<256]"

definition with_alphabet :: "byte list \<Rightarrow> constraints" where
  "with_alphabet alpha = no_constraints\<lparr>alphabet := alpha, encode_table := Some (enc_table alpha)\<rparr>"

section \<open>Descriptors\<close>

definition builtin_desc ::
    "string \<Rightarrow> u32 \<Rightarrow> constraints \<Rightarrow> bool \<Rightarrow> type_kind \<Rightarrow> handler \<Rightarrow> handler \<Rightarrow> asn1_value \<Rightarrow> type_desc" where
  "builtin_desc name n c any kind per ber new =
     \<lparr>td_name = name, td_tag = universal n False, td_enum_spec = None, td_sequence_spec = None,
      td_choice_spec = None, td_seq_of_spec = None, td_constraints = c, td_is_any = any, td_kind = kind,
      td_ber_handler = Some ber, td_per_handler = Some per, td_is_explicit = False,
      td_natural_tag = universal 0 False, td_new = new, td_xer_encoding = XER_DEFAULT\<rparr>"

definition asn_DEF_Any :: type_desc where
  "asn_DEF_Any = builtin_desc ''ANY'' 4 no_constraints True Any H_Any H_Any (V_OctetString [])"

definition asn_DEF_Integer :: type_desc where
  "asn_DEF_Integer = builtin_desc ''INTEGER'' 2 no_constraints False Primitive H_Integer H_Integer (V_Integer 0)"

definition asn_DEF_UInteger :: type_desc where
  "asn_DEF_UInteger = builtin_desc ''INTEGER'' 2 no_constraints False Primitive H_UInteger H_UInteger (V_UInteger 0)"

definition asn_DEF_Boolean :: type_desc where
  "asn_DEF_Boolean = builtin_desc ''BOOLEAN'' 1 no_constraints False Primitive H_Boolean H_Boolean (V_Boolean False)"

definition asn_DEF_Null :: type_desc where
  "asn_DEF_Null = builtin_desc ''NULL'' 5 no_constraints False Primitive H_Null H_Null (V_Null)"

definition asn_DEF_BitString :: type_desc where
  "asn_DEF_BitString = builtin_desc ''BIT_STRING'' 3 no_constraints False Primitive H_BitString H_BitString (V_BitString \<lparr>bs_bytes = [], bs_unused = 0\<rparr>)"

definition asn_DEF_Oid :: type_desc where
  "asn_DEF_Oid = builtin_desc ''OBJECT_IDENTIFIER'' 6 no_constraints False Primitive H_Oid H_Oid (V_Oid [])"

definition asn_DEF_RelativeOid :: type_desc where
  "asn_DEF_RelativeOid = builtin_desc ''RELATIVE_OID'' 13 no_constraints False Primitive H_RelOid H_RelOid (V_RelativeOid [])"

definition asn_DEF_UtcTime :: type_desc where
  "asn_DEF_UtcTime = builtin_desc ''UTCTime'' 23 no_constraints False Primitive H_String H_UtcTime (V_String [])"

definition asn_DEF_GeneralizedTime :: type_desc where
  "asn_DEF_GeneralizedTime = builtin_desc ''GeneralizedTime'' 24 no_constraints False Primitive H_String H_GenTime (V_String [])"

definition asn_DEF_OctetString :: type_desc where
  "asn_DEF_OctetString = builtin_desc ''OCTET_STRING'' 4 no_constraints False Primitive H_OctetString H_OctetString (V_OctetString [])"

definition asn_DEF_Utf8String :: type_desc where
  "asn_DEF_Utf8String = builtin_desc ''UTF8String'' 12 no_constraints False Primitive H_String H_String (V_String [])"

definition asn_DEF_Ia5String :: type_desc where
  "asn_DEF_Ia5String = builtin_desc ''IA5String'' 22 (with_alphabet k_ia5_alpha) False Primitive H_String H_String (V_String [])"

definition asn_DEF_NumericString :: type_desc where
  "asn_DEF_NumericString = builtin_desc ''NumericString'' 18 (with_alphabet k_num_alpha) False Primitive H_String H_String (V_String [])"

definition asn_DEF_PrintableString :: type_desc where
  "asn_DEF_PrintableString = builtin_desc ''PrintableString'' 19 (with_alphabet k_prt_alpha) False Primitive H_String H_String (V_String [])"

definition asn_DEF_T61String :: type_desc where
  "asn_DEF_T61String = builtin_desc ''T61String'' 20 no_constraints False Primitive H_String H_String (V_String [])"

definition asn_DEF_VisibleString :: type_desc where
  "asn_DEF_VisibleString = builtin_desc ''VisibleString'' 26 (with_alphabet k_vis_alpha) False Primitive H_String H_String (V_String [])"

definition asn_DEF_GeneralString :: type_desc where
  "asn_DEF_GeneralString = builtin_desc ''GeneralString'' 27 no_constraints False Primitive H_String H_String (V_String [])"

definition asn_DEF_GraphicString :: type_desc where
  "asn_DEF_GraphicString = builtin_desc ''GraphicString'' 25 no_constraints False Primitive H_String H_String (V_String [])"

definition asn_DEF_UniversalString :: type_desc where
  "asn_DEF_UniversalString = builtin_desc ''UniversalString'' 28 no_constraints False Primitive H_String H_String (V_String [])"

definition asn_DEF_BmpString :: type_desc where
  "asn_DEF_BmpString = builtin_desc ''BMPString'' 30 no_constraints False Primitive H_String H_String (V_String [])"

definition asn_DEF_VideotexString :: type_desc where
  "asn_DEF_VideotexString = builtin_desc ''VideotexString'' 21 no_constraints False Primitive H_String H_String (V_String [])"

definition asn_DEF_ObjectDescriptor :: type_desc where
  "asn_DEF_ObjectDescriptor = builtin_desc ''ObjectDescriptor'' 7 no_constraints False Primitive H_String H_String (V_String [])"

section \<open>The tables\<close>

lemma alpha_index_nth:
  "distinct as \<Longrightarrow> i < length as \<Longrightarrow> alpha_index as (as ! i) = Some i"
proof (induction as arbitrary: i)
  case (Cons a as)
  then show ?case by (cases i) auto
qed simp

lemma alpha_index_Some: "alpha_index as c = Some i \<Longrightarrow> i < length as \<and> as ! i = c"
  by (induction as arbitrary: i) (auto split: if_splits)

lemma alpha_index_None: "alpha_index as c = None \<longleftrightarrow> c \<notin> set as"
  by (induction as) auto

lemma nth_enc_table:
  "enc_table alpha ! unat (c :: byte) = (case alpha_index alpha c of None \<Rightarrow> 0xFFFF | Some i \<Rightarrow> of_nat i)"
proof -
  have "0 + unat c < 256" by simp
  then show ?thesis unfolding enc_table_def by (subst nth_map_upt) simp_all
qed

lemma distinct_octets: "distinct xs \<Longrightarrow> \<forall>x \<in> set xs. x < 256 \<Longrightarrow> distinct (map (of_nat :: nat \<Rightarrow> byte) xs)"
  by (auto simp: distinct_map inj_on_def word_unat_eq_iff unat_of_nat)

lemma alphabets_distinct:
  "distinct k_num_alpha" "distinct k_prt_alpha" "distinct k_ia5_alpha" "distinct k_vis_alpha"
  "length k_num_alpha \<le> 128" "length k_prt_alpha \<le> 128" "length k_ia5_alpha \<le> 128" "length k_vis_alpha \<le> 128"
  unfolding k_num_alpha_def k_prt_alpha_def k_ia5_alpha_def k_vis_alpha_def
  by (intro distinct_octets; simp del: upt_rec_numeral; force?)+ simp_all

text \<open>
  For each restricted string type the encode table inverts the decode table:
  every character of the alphabet has its own index, and every other octet the
  marker \<open>0xFFFF\<close>.
\<close>

theorem alphabet_tables_inverse:
  assumes "alpha \<in> {k_num_alpha, k_prt_alpha, k_ia5_alpha, k_vis_alpha}"
  shows "(i < length alpha \<longrightarrow> enc_table alpha ! unat (alpha ! i) = of_nat i)
    \<and> (enc_table alpha ! unat c = 0xFFFF \<longleftrightarrow> c \<notin> set alpha)"
proof (intro conjI)
  from assms have d: "distinct alpha" and l: "length alpha \<le> 128"
    using alphabets_distinct by auto
  show "i < length alpha \<longrightarrow> enc_table alpha ! unat (alpha ! i) = of_nat i"
    using d by (simp add: nth_enc_table alpha_index_nth)
  have "(of_nat i :: u16) \<noteq> 0xFFFF" if "i < length alpha" for i
  proof
    assume "(of_nat i :: u16) = 0xFFFF"
    then have "unat (of_nat i :: u16) = 0xFFFF" by simp
    with that l show False by (simp add: unat_of_nat)
  qed
  then show "enc_table alpha ! unat c = 0xFFFF \<longleftrightarrow> c \<notin> set alpha"
    by (auto simp: nth_enc_table alpha_index_None [symmetric] dest: alpha_index_Some split: option.splits)
qed

lemma alphabet_tables_inverse_witness:
  "enc_table k_num_alpha ! unat (k_num_alpha ! 3) = 3 \<and> enc_table k_num_alpha ! unat (0x41 :: byte) = 0xFFFF"
proof -
  have "(3 :: nat) < length k_num_alpha" by (simp add: k_num_alpha_def)
  moreover have "(0x41 :: byte) \<notin> set k_num_alpha" by code_simp
  ultimately show ?thesis using alphabet_tables_inverse [of k_num_alpha 3 "0x41"] by simp
qed

end
