(* ===== verification/Sample_Schema.thy ===== *)
theory Sample_Schema
  imports Builtin_Types
begin

text \<open>
  A small schema in the form the compiler emits, the concrete input of the
  witnesses:

  \<open>Msg ::= SEQUENCE { id [0] IMPLICIT INTEGER, name [1] EXPLICIT UTF8String OPTIONAL,
  flag BOOLEAN }\<close>, \<open>Rec ::= SEQUENCE { id [0] IMPLICIT INTEGER, flag BOOLEAN }\<close>,
  \<open>Pick ::= CHOICE { a [0] IMPLICIT INTEGER, b [1] IMPLICIT BOOLEAN }\<close>,
  \<open>Picks ::= SET OF Pick\<close>, \<open>Ints ::= SEQUENCE OF INTEGER\<close>,
  \<open>Level ::= [2] EXPLICIT INTEGER\<close>, \<open>Wrap ::= SEQUENCE { level [1] IMPLICIT Level }\<close>
  and \<open>Bag ::= SET { id [0] IMPLICIT INTEGER, flag BOOLEAN }\<close>.
\<close>

definition plain_member :: "string \<Rightarrow> tag \<Rightarrow> bool \<Rightarrow> type_ref \<Rightarrow> member" where
  "plain_member name t override ty =
     \<lparr>m_name = name, m_tag = t, m_optional = False, m_has_default = False, m_type = Some ty,
      m_has_ops = False, m_is_explicit = False, m_tag_is_override = override,
      m_set_default = None, m_is_default_equal = None\<rparr>"

definition sample_sequence :: "string \<Rightarrow> u32 \<Rightarrow> bool \<Rightarrow> member list \<Rightarrow> asn1_value \<Rightarrow> type_desc" where
  "sample_sequence name n is_set ms new =
     \<lparr>td_name = name, td_tag = universal n True, td_enum_spec = None,
      td_sequence_spec = Some \<lparr>ss_members = ms, ss_ext_at = - 1, ss_roms_count = 0, ss_is_set = is_set,
        ss_units = [], ss_group_optional = []\<rparr>,
      td_choice_spec = None, td_seq_of_spec = None, td_constraints = no_constraints, td_is_any = False,
      td_kind = Sequence, td_ber_handler = Some H_Sequence, td_per_handler = Some H_Sequence,
      td_is_explicit = False, td_natural_tag = universal 0 False, td_new = new, td_xer_encoding = XER_DEFAULT\<rparr>"

definition sample_seqof :: "string \<Rightarrow> u32 \<Rightarrow> type_ref \<Rightarrow> type_desc" where
  "sample_seqof name n el =
     \<lparr>td_name = name, td_tag = universal n True, td_enum_spec = None, td_sequence_spec = None,
      td_choice_spec = None,
      td_seq_of_spec = Some \<lparr>sos_element = el, sos_constraints = no_constraints, sos_element_xer_tag = None\<rparr>,
      td_constraints = no_constraints, td_is_any = False,
      td_kind = SeqOf, td_ber_handler = Some H_SeqOf, td_per_handler = Some H_SeqOf,
      td_is_explicit = False, td_natural_tag = universal 0 False, td_new = V_SeqOf [], td_xer_encoding = XER_DEFAULT\<rparr>"

definition id_member :: member where
  "id_member = plain_member ''id'' (context_tag 0 False) True ''INTEGER''"

definition flag_member :: member where
  "flag_member = plain_member ''flag'' (universal UT_Boolean False) False ''BOOLEAN''"

definition name_member :: member where
  "name_member = (plain_member ''name'' (context_tag 1 False) True ''UTF8String'')
     \<lparr>m_optional := True, m_has_ops := True, m_is_explicit := True\<rparr>"

definition sample_pick :: type_desc where
  "sample_pick =
     \<lparr>td_name = ''Pick'', td_tag = universal 0 False, td_enum_spec = None, td_sequence_spec = None,
      td_choice_spec = Some
        \<lparr>cs_alternatives = [plain_member ''a'' (context_tag 0 False) True ''INTEGER'',
                            plain_member ''b'' (context_tag 1 False) True ''BOOLEAN''],
         cs_ext_at = - 1, cs_constraints = no_constraints, cs_ber_tags = None,
         cs_tag_index = Some [0, 1], cs_tag_index_base = 0\<rparr>,
      td_seq_of_spec = None, td_constraints = no_constraints, td_is_any = False,
      td_kind = Choice, td_ber_handler = Some H_Choice, td_per_handler = Some H_Choice,
      td_is_explicit = False, td_natural_tag = universal 0 False, td_new = V_Choice 0 None, td_xer_encoding = XER_DEFAULT\<rparr>"

definition sample_level :: type_desc where
  "sample_level = asn_DEF_Integer\<lparr>td_name := ''Level'', td_tag := context_tag 2 True,
     td_is_explicit := True, td_natural_tag := universal UT_Integer False\<rparr>"

definition sample_env :: type_env where
  "sample_env t =
     (if t = ''INTEGER'' then asn_DEF_Integer
      else if t = ''BOOLEAN'' then asn_DEF_Boolean
      else if t = ''UTF8String'' then asn_DEF_Utf8String
      else if t = ''Msg'' then sample_sequence ''Msg'' UT_Sequence False [id_member, name_member, flag_member]
        (V_Sequence [Some (V_Integer 0), None, Some (V_Boolean False)])
      else if t = ''Rec'' then sample_sequence ''Rec'' UT_Sequence False [id_member, flag_member]
        (V_Sequence [Some (V_Integer 0), Some (V_Boolean False)])
      else if t = ''Bag'' then sample_sequence ''Bag'' UT_Set True [flag_member, id_member]
        (V_Sequence [Some (V_Boolean False), Some (V_Integer 0)])
      else if t = ''Pick'' then sample_pick
      else if t = ''Picks'' then sample_seqof ''Picks'' UT_Set ''Pick''
      else if t = ''Ints'' then sample_seqof ''Ints'' UT_Sequence ''INTEGER''
      else if t = ''Level'' then sample_level
      else if t = ''Wrap'' then sample_sequence ''Wrap'' UT_Sequence False
        [plain_member ''level'' (context_tag 1 True) True ''Level''] (V_Sequence [Some (V_Integer 0)])
      else asn_DEF_Null)"

text \<open>Facts about every type of the schema are checked type by type.\<close>

lemma sample_env_all:
  assumes "P asn_DEF_Integer" "P asn_DEF_Boolean" "P asn_DEF_Utf8String" "P (sample_env ''Msg'')"
    "P (sample_env ''Rec'')" "P (sample_env ''Bag'')" "P sample_pick" "P (sample_env ''Picks'')"
    "P (sample_env ''Ints'')" "P sample_level" "P (sample_env ''Wrap'')" "P asn_DEF_Null"
  shows "P (sample_env t)"
  using assms by (simp add: sample_env_def)

lemmas sample_defs = sample_sequence_def sample_seqof_def id_member_def flag_member_def name_member_def
  plain_member_def sample_pick_def sample_level_def builtin_desc_def asn_DEF_Integer_def
  asn_DEF_Boolean_def asn_DEF_Utf8String_def asn_DEF_Null_def universal_def context_tag_def

end
