(* ===== verification/Per_Codec.thy ===== *)
theory Per_Codec
  imports Per_Primitives Sample_Schema
begin

text \<open>
  The PER handlers of the constructed types and the entry points of \<open>PerCodec\<close>
  (\<open>runtime/src/PerCodec.cpp\<close>): open types, SEQUENCE OF and SET OF, SEQUENCE and SET with
  their presence bitmaps, extension additions and extension addition groups, and
  CHOICE. A handler gets the codec as an argument, as in the code; fuel ties the knot:
  the height of the value for the encoder, the depth limit for the decoder.
\<close>

unbundle bit_operations_syntax

type_synonym per_encoder = "type_desc \<Rightarrow> asn1_value \<Rightarrow> per_enc \<Rightarrow> per_enc"
type_synonym per_decoder = "type_desc \<Rightarrow> asn1_value \<Rightarrow> per_dec \<Rightarrow> (asn1_value \<times> per_dec) result"

section \<open>Open types\<close>

definition encode_open_type :: "per_encoder \<Rightarrow> type_desc \<Rightarrow> asn1_value \<Rightarrow> per_enc \<Rightarrow> per_enc" where
  "encode_open_type codec mdef mptr s =
     (let tmp_s = codec mdef mptr new_per_enc;
          s = (if pe_failed tmp_s then per_set_encode_failed s else s)
      in put_octets (pe_buf (per_flush tmp_s)) s)"

definition decode_open_type ::
    "per_decoder \<Rightarrow> type_desc \<Rightarrow> asn1_value \<Rightarrow> per_dec \<Rightarrow> (asn1_value \<times> per_dec) result" where
  "decode_open_type codec mdef mptr d =
     rbind (get_octets d) (\<lambda>(bytes, d).
     rbind (codec mdef mptr (per_sub bytes d)) (\<lambda>(v, _). Inr (v, d)))"

section \<open>SEQUENCE OF and SET OF\<close>

text \<open>\<open>EncodedElement\<close>: the octets of an element's own encoding and its exact length in bits.\<close>

record encoded_element =
  el_bytes :: "byte list"
  el_bits :: nat

definition encode_element :: "per_encoder \<Rightarrow> type_desc \<Rightarrow> asn1_value \<Rightarrow> encoded_element \<times> bool" where
  "encode_element codec edef v =
     (let es = codec edef v new_per_enc
      in (\<lparr>el_bytes = pe_buf (per_flush es), el_bits = per_bit_pos es\<rparr>, pe_failed es))"

text \<open>The comparator of \<open>std::stable_sort\<close>: the shorter encoding is extended with 0 octets.\<close>

fun octets_padded_less :: "byte list \<Rightarrow> byte list \<Rightarrow> bool" where
  "octets_padded_less [] [] = False"
| "octets_padded_less (x # xs) [] = (if x \<noteq> 0 then x < 0 else octets_padded_less xs [])"
| "octets_padded_less [] (y # ys) = (if 0 \<noteq> y then 0 < y else octets_padded_less [] ys)"
| "octets_padded_less (x # xs) (y # ys) = (if x \<noteq> y then x < y else octets_padded_less xs ys)"

definition padded_less :: "encoded_element \<Rightarrow> encoded_element \<Rightarrow> bool" where
  "padded_less a b = octets_padded_less (el_bytes a) (el_bytes b)"

fun insert_stable :: "('a \<Rightarrow> 'a \<Rightarrow> bool) \<Rightarrow> 'a \<Rightarrow> 'a list \<Rightarrow> 'a list" where
  "insert_stable lt x [] = [x]"
| "insert_stable lt x (y # ys) = (if lt y x then y # insert_stable lt x ys else x # y # ys)"

definition stable_sort :: "('a \<Rightarrow> 'a \<Rightarrow> bool) \<Rightarrow> 'a list \<Rightarrow> 'a list" where
  "stable_sort lt xs = foldr (insert_stable lt) xs []"

definition sorted_set_of_elements ::
    "per_encoder \<Rightarrow> type_desc \<Rightarrow> asn1_value list \<Rightarrow> per_enc \<Rightarrow> encoded_element list \<times> per_enc" where
  "sorted_set_of_elements codec edef seq s =
     (let elems = map (encode_element codec edef) seq
      in (stable_sort padded_less (map fst elems),
          if list_ex snd elems then per_set_encode_failed s else s))"

definition put_element :: "encoded_element \<Rightarrow> per_enc \<Rightarrow> per_enc" where
  "put_element e s =
     (let full = el_bits e div 8; rest = el_bits e mod 8;
          s = foldl (\<lambda>s k. put_bits (ucast (el_bytes e ! k)) 8 s) s [0..<full]
      in if rest \<noteq> 0 then put_bits (ucast (drop_bit (8 - rest) (el_bytes e ! full))) rest s else s)"

definition per_seqof_encode ::
    "per_encoder \<Rightarrow> type_env \<Rightarrow> type_desc \<Rightarrow> asn1_value list \<Rightarrow> per_enc \<Rightarrow> per_enc" where
  "per_seqof_encode codec \<Gamma> def seq s =
     (case td_seq_of_spec def of
        None \<Rightarrow> s
      | Some spec \<Rightarrow>
          let edef = \<Gamma> (sos_element spec);
              is_set_of = (number (builtin_tag def) = UT_Set);
              (sorted, s) = (if is_set_of \<and> length seq > 1
                             then sorted_set_of_elements codec edef seq s else ([], s))
          in encode_ext_size_and_items (sos_constraints spec) (length seq)
               (\<lambda>from to s. foldl (\<lambda>s i.
                  if sorted = [] then codec edef (seq ! i) s else put_element (sorted ! i) s) s
                  [from..<min to (length seq)]) s)"

definition kMaxZeroWidthItems :: nat where
  "kMaxZeroWidthItems = 200"

text \<open>The elements of one length fragment: each is decoded into a new object.\<close>

fun read_elements :: "per_decoder \<Rightarrow> type_desc \<Rightarrow> asn1_value list read_items" where
  "read_elements codec edef 0 seq d = Inr (seq, d)"
| "read_elements codec edef (Suc m) seq d =
     rbind (codec edef (td_new edef) d) (\<lambda>(v, d). read_elements codec edef m (seq @ [v]) d)"

definition read_fragment :: "per_decoder \<Rightarrow> type_desc \<Rightarrow> type_desc \<Rightarrow> asn1_value list read_items" where
  "read_fragment codec def edef m seq d =
     (if m = 0 then Inr (seq, d)
      else
        let before = per_dec_bit_pos d in
        rbind (codec edef (td_new edef) d) (\<lambda>(v, d).
          if m > kMaxZeroWidthItems \<and> per_dec_bit_pos d = before then
            Inl (DecodeError (td_name def @ '': more than '' @ to_string kMaxZeroWidthItems
                              @ '' items encoded in zero bits'') 0)
          else read_elements codec edef (m - 1) (seq @ [v]) d))"

definition per_seqof_decode ::
    "per_decoder \<Rightarrow> type_env \<Rightarrow> type_desc \<Rightarrow> asn1_value \<Rightarrow> per_dec \<Rightarrow> (asn1_value \<times> per_dec) result" where
  "per_seqof_decode codec \<Gamma> def dest d =
     (case (td_seq_of_spec def, dest) of
        (Some spec, V_SeqOf _) \<Rightarrow>
          rbind (decode_ext_size_and_items (sos_constraints spec)
                   (read_fragment codec def (\<Gamma> (sos_element spec))) [] d)
            (\<lambda>((_, seq), d). Inr (V_SeqOf seq, d))
      | _ \<Rightarrow> Inl NullDeref)"

section \<open>Presence bits\<close>

text \<open>\<open>PresenceBits\<close>: the words, the first bit of the wire in a word's top bit, and \<open>n_\<close>.\<close>

record presence_bits =
  pb_words :: "u64 list"
  pb_n :: nat

fun read_presence_words :: "nat \<Rightarrow> nat \<Rightarrow> per_dec \<Rightarrow> (u64 list \<times> per_dec) result" where
  "read_presence_words 0 n d = Inr ([], d)"
| "read_presence_words (Suc w) n d =
     (let k = min 64 n in
      rbind (get_bits k d) (\<lambda>(bits, d).
      rbind (read_presence_words w (n - k) d) (\<lambda>(ws, d). Inr (push_bit (64 - k) bits # ws, d))))"

definition read_presence :: "nat \<Rightarrow> per_dec \<Rightarrow> (presence_bits \<times> per_dec) result" where
  "read_presence n d =
     rbind (read_presence_words ((n + 63) div 64) n d) (\<lambda>(ws, d). Inr (\<lparr>pb_words = ws, pb_n = n\<rparr>, d))"

definition presence_bit :: "presence_bits \<Rightarrow> nat \<Rightarrow> bool" where
  "presence_bit p i \<longleftrightarrow>
     i < pb_n p \<and> drop_bit (63 - i mod 64) (pb_words p ! (i div 64)) AND 1 \<noteq> 0"

section \<open>SEQUENCE and SET\<close>

definition root_end :: "sequence_spec \<Rightarrow> nat" where
  "root_end spec = (if ss_ext_at spec \<ge> 0 then nat (ss_ext_at spec) else length (ss_members spec))"

text \<open>\<open>mbr.has_default && mbr.is_default_equal && mbr.is_default_equal(src)\<close>.\<close>

definition default_equal :: "member \<Rightarrow> asn1_value option list \<Rightarrow> bool" where
  "default_equal mbr src \<longleftrightarrow>
     m_has_default mbr \<and> (case m_is_default_equal mbr of None \<Rightarrow> False | Some eq \<Rightarrow> eq src)"

fun encode_preamble :: "asn1_value option list \<Rightarrow> nat \<Rightarrow> member list \<Rightarrow> per_enc \<Rightarrow> per_enc" where
  "encode_preamble src i [] s = s"
| "encode_preamble src i (mbr # mbrs) s =
     (if \<not> m_optional mbr then encode_preamble src (Suc i) mbrs s
      else
        let present = (is_present mbr src i \<and> \<not> default_equal mbr src)
        in encode_preamble src (Suc i) mbrs (put_bits (if present then 1 else 0) 1 s))"

text \<open>A null pointer that the code would dereference ends the loop.\<close>

fun encode_root_members ::
    "per_encoder \<Rightarrow> type_env \<Rightarrow> asn1_value option list \<Rightarrow> nat \<Rightarrow> member list \<Rightarrow> per_enc \<Rightarrow> per_enc" where
  "encode_root_members codec \<Gamma> src i [] s = s"
| "encode_root_members codec \<Gamma> src i (mbr # mbrs) s =
     (case m_type mbr of
        None \<Rightarrow> encode_root_members codec \<Gamma> src (Suc i) mbrs s
      | Some t \<Rightarrow>
          if m_optional mbr \<and> \<not> is_present mbr src i then encode_root_members codec \<Gamma> src (Suc i) mbrs s
          else if default_equal mbr src then encode_root_members codec \<Gamma> src (Suc i) mbrs s
          else
            (case member_ptr src i of
               None \<Rightarrow> s
             | Some mptr \<Rightarrow> encode_root_members codec \<Gamma> src (Suc i) mbrs (codec (\<Gamma> t) mptr s)))"

text \<open>\<open>ExtUnits\<close>: the extension additions as PER units.\<close>

definition unit_count :: "sequence_spec \<Rightarrow> nat" where
  "unit_count spec =
     (if length (ss_units spec) > 0 then length (ss_units spec)
      else length (ss_members spec) - root_end spec)"

definition unit_begin :: "sequence_spec \<Rightarrow> nat \<Rightarrow> nat" where
  "unit_begin spec u =
     (if ss_units spec = [] then root_end spec + u
      else if u = 0 then root_end spec else fst (ss_units spec ! (u - 1)))"

definition unit_end :: "sequence_spec \<Rightarrow> nat \<Rightarrow> nat" where
  "unit_end spec u = (if ss_units spec = [] then root_end spec + u + 1 else fst (ss_units spec ! u))"

definition unit_is_group :: "sequence_spec \<Rightarrow> nat \<Rightarrow> bool" where
  "unit_is_group spec u \<longleftrightarrow> ss_units spec \<noteq> [] \<and> snd (ss_units spec ! u)"

definition unit_present :: "sequence_spec \<Rightarrow> asn1_value option list \<Rightarrow> nat \<Rightarrow> bool" where
  "unit_present spec src u \<longleftrightarrow>
     list_ex (\<lambda>i. is_present (ss_members spec ! i) src i) [unit_begin spec u..<unit_end spec u]"

text \<open>\<open>encode_group_open_type\<close>: its bitmap loop and its member loop, over the rows of the group.\<close>

fun encode_group_bitmap ::
    "sequence_spec \<Rightarrow> asn1_value option list \<Rightarrow> nat list \<Rightarrow> per_enc \<Rightarrow> per_enc" where
  "encode_group_bitmap spec src [] gs = gs"
| "encode_group_bitmap spec src (i # is) gs =
     encode_group_bitmap spec src is
       (if ss_group_optional spec ! i
        then put_bits (if is_present (ss_members spec ! i) src i then 1 else 0) 1 gs else gs)"

fun encode_group_members ::
    "per_encoder \<Rightarrow> type_env \<Rightarrow> sequence_spec \<Rightarrow> asn1_value option list \<Rightarrow> nat list
      \<Rightarrow> per_enc \<Rightarrow> bool \<Rightarrow> per_enc \<times> bool" where
  "encode_group_members codec \<Gamma> spec src [] gs failed = (gs, failed)"
| "encode_group_members codec \<Gamma> spec src (i # is) gs failed =
     (let mbr = ss_members spec ! i in
      if \<not> is_present mbr src i then
        encode_group_members codec \<Gamma> spec src is gs (failed \<or> \<not> ss_group_optional spec ! i)
      else
        (case (m_type mbr, member_ptr src i) of
           (Some t, Some mptr) \<Rightarrow>
             encode_group_members codec \<Gamma> spec src is (codec (\<Gamma> t) mptr gs) failed
         | _ \<Rightarrow> encode_group_members codec \<Gamma> spec src is gs failed))"

definition encode_group_open_type ::
    "per_encoder \<Rightarrow> type_env \<Rightarrow> sequence_spec \<Rightarrow> nat \<Rightarrow> nat \<Rightarrow> asn1_value option list \<Rightarrow> per_enc \<Rightarrow> per_enc" where
  "encode_group_open_type codec \<Gamma> spec b e src s =
     (let gs = encode_group_bitmap spec src [b..<e] new_per_enc;
          (gs, failed) = encode_group_members codec \<Gamma> spec src [b..<e] gs False;
          s = (if failed \<or> pe_failed gs then per_set_encode_failed s else s)
      in put_octets (pe_buf (per_flush gs)) s)"

definition encode_unit ::
    "per_encoder \<Rightarrow> type_env \<Rightarrow> sequence_spec \<Rightarrow> asn1_value option list \<Rightarrow> per_enc \<Rightarrow> nat \<Rightarrow> per_enc" where
  "encode_unit codec \<Gamma> spec src s u =
     (if \<not> unit_present spec src u then s
      else if unit_is_group spec u then
        encode_group_open_type codec \<Gamma> spec (unit_begin spec u) (unit_end spec u) src s
      else
        let i = unit_begin spec u; mbr = ss_members spec ! i in
        (case (m_type mbr, member_ptr src i) of
           (Some t, Some mptr) \<Rightarrow> encode_open_type codec (\<Gamma> t) mptr s
         | _ \<Rightarrow> s))"

definition encode_extensions ::
    "per_encoder \<Rightarrow> type_env \<Rightarrow> sequence_spec \<Rightarrow> asn1_value option list \<Rightarrow> per_enc \<Rightarrow> per_enc" where
  "encode_extensions codec \<Gamma> spec src s =
     (let us = [0..<unit_count spec];
          s = put_nslength (unit_count spec) s;
          s = foldl (\<lambda>s u. put_bits (if unit_present spec src u then 1 else 0) 1 s) s us
      in foldl (encode_unit codec \<Gamma> spec src) s us)"

definition per_sequence_encode ::
    "per_encoder \<Rightarrow> type_env \<Rightarrow> type_desc \<Rightarrow> asn1_value option list \<Rightarrow> per_enc \<Rightarrow> per_enc" where
  "per_sequence_encode codec \<Gamma> def src s =
     (case td_sequence_spec def of
        None \<Rightarrow> s
      | Some spec \<Rightarrow>
          let root = take (root_end spec) (ss_members spec);
              has_ext = (ss_ext_at spec \<ge> 0 \<and>
                list_ex (\<lambda>i. is_present (ss_members spec ! i) src i) [root_end spec..<length (ss_members spec)]);
              s = (if ss_ext_at spec \<ge> 0 then put_bits (if has_ext then 1 else 0) 1 s else s);
              s = encode_preamble src 0 root s;
              s = encode_root_members codec \<Gamma> src 0 root s
          in if has_ext then encode_extensions codec \<Gamma> spec src s else s)"

text \<open>The root members; \<open>opt\<close> is \<open>opt_idx\<close>.\<close>

definition apply_default :: "member \<Rightarrow> asn1_value option list \<Rightarrow> asn1_value option list" where
  "apply_default mbr ms = (case m_set_default mbr of None \<Rightarrow> ms | Some f \<Rightarrow> f ms)"

fun decode_root_members ::
    "per_decoder \<Rightarrow> type_env \<Rightarrow> presence_bits \<Rightarrow> nat \<Rightarrow> nat \<Rightarrow> member list \<Rightarrow> asn1_value option list
      \<Rightarrow> per_dec \<Rightarrow> (asn1_value option list \<times> per_dec) result" where
  "decode_root_members codec \<Gamma> bitmap opt i [] ms d = Inr (ms, d)"
| "decode_root_members codec \<Gamma> bitmap opt i (mbr # mbrs) ms d =
     (case m_type mbr of
        None \<Rightarrow> decode_root_members codec \<Gamma> bitmap opt (Suc i) mbrs ms d
      | Some t \<Rightarrow>
          let present = (m_optional mbr \<longrightarrow> presence_bit bitmap opt);
              ms = (if m_optional mbr then set_present \<Gamma> mbr i present ms else ms);
              opt = (if m_optional mbr then Suc opt else opt)
          in
          if \<not> present then decode_root_members codec \<Gamma> bitmap opt (Suc i) mbrs (apply_default mbr ms) d
          else
            (case member_ptr ms i of
               None \<Rightarrow> Inl NullDeref
             | Some mptr \<Rightarrow>
                 rbind (codec (\<Gamma> t) mptr d) (\<lambda>(v, d).
                   decode_root_members codec \<Gamma> bitmap opt (Suc i) mbrs (ms[i := Some v]) d)))"

definition clear_members :: "type_env \<Rightarrow> sequence_spec \<Rightarrow> nat list \<Rightarrow> asn1_value option list \<Rightarrow> asn1_value option list" where
  "clear_members \<Gamma> spec is ms = foldl (\<lambda>ms i. set_present \<Gamma> (ss_members spec ! i) i False ms) ms is"

definition default_members :: "type_env \<Rightarrow> sequence_spec \<Rightarrow> nat list \<Rightarrow> asn1_value option list \<Rightarrow> asn1_value option list" where
  "default_members \<Gamma> spec is ms =
     foldl (\<lambda>ms i. apply_default (ss_members spec ! i) (set_present \<Gamma> (ss_members spec ! i) i False ms)) ms is"

text \<open>\<open>decode_group_open_type\<close>.\<close>

fun decode_group_bitmap :: "sequence_spec \<Rightarrow> nat list \<Rightarrow> per_dec \<Rightarrow> (bool list \<times> per_dec) result" where
  "decode_group_bitmap spec [] gs = Inr ([], gs)"
| "decode_group_bitmap spec (i # is) gs =
     (if \<not> ss_group_optional spec ! i then
        rbind (decode_group_bitmap spec is gs) (\<lambda>(ps, gs). Inr (True # ps, gs))
      else
        rbind (get_bits 1 gs) (\<lambda>(b, gs).
        rbind (decode_group_bitmap spec is gs) (\<lambda>(ps, gs). Inr ((b \<noteq> 0) # ps, gs))))"

fun decode_group_members ::
    "per_decoder \<Rightarrow> type_env \<Rightarrow> sequence_spec \<Rightarrow> (nat \<times> bool) list \<Rightarrow> asn1_value option list \<Rightarrow> per_dec
      \<Rightarrow> (asn1_value option list \<times> per_dec) result" where
  "decode_group_members codec \<Gamma> spec [] ms gs = Inr (ms, gs)"
| "decode_group_members codec \<Gamma> spec ((i, present) # is) ms gs =
     (let mbr = ss_members spec ! i;
          ms = set_present \<Gamma> mbr i present ms
      in
      if \<not> present then decode_group_members codec \<Gamma> spec is (apply_default mbr ms) gs
      else
        (case m_type mbr of
           None \<Rightarrow> decode_group_members codec \<Gamma> spec is ms gs
         | Some t \<Rightarrow>
             (case member_ptr ms i of
                None \<Rightarrow> Inl NullDeref
              | Some mptr \<Rightarrow>
                  rbind (codec (\<Gamma> t) mptr gs) (\<lambda>(v, gs).
                    decode_group_members codec \<Gamma> spec is (ms[i := Some v]) gs))))"

definition decode_group_open_type ::
    "per_decoder \<Rightarrow> type_env \<Rightarrow> sequence_spec \<Rightarrow> nat \<Rightarrow> nat \<Rightarrow> asn1_value option list \<Rightarrow> per_dec
      \<Rightarrow> (asn1_value option list \<times> per_dec) result" where
  "decode_group_open_type codec \<Gamma> spec b e ms d =
     rbind (get_octets d) (\<lambda>(bytes, d).
     rbind (decode_group_bitmap spec [b..<e] (per_sub bytes d)) (\<lambda>(ps, gs).
     rbind (decode_group_members codec \<Gamma> spec (zip [b..<e] ps) ms gs) (\<lambda>(ms, _). Inr (ms, d))))"

text \<open>The loop over the \<open>n_ext\<close> announced extension units.\<close>

fun decode_units ::
    "per_decoder \<Rightarrow> type_env \<Rightarrow> sequence_spec \<Rightarrow> presence_bits \<Rightarrow> nat list \<Rightarrow> asn1_value option list \<Rightarrow> per_dec
      \<Rightarrow> (asn1_value option list \<times> per_dec) result" where
  "decode_units codec \<Gamma> spec bitmap [] ms d = Inr (ms, d)"
| "decode_units codec \<Gamma> spec bitmap (u # us) ms d =
     (if u \<ge> unit_count spec then
        rbind (if presence_bit bitmap u then skip_open_type d else Inr d) (\<lambda>d.
          decode_units codec \<Gamma> spec bitmap us ms d)
      else if \<not> presence_bit bitmap u then
        decode_units codec \<Gamma> spec bitmap us
          (default_members \<Gamma> spec [unit_begin spec u..<unit_end spec u] ms) d
      else if unit_is_group spec u then
        rbind (decode_group_open_type codec \<Gamma> spec (unit_begin spec u) (unit_end spec u) ms d) (\<lambda>(ms, d).
          decode_units codec \<Gamma> spec bitmap us ms d)
      else
        let i = unit_begin spec u; mbr = ss_members spec ! i;
            ms = set_present \<Gamma> mbr i True ms
        in
        (case (m_type mbr, member_ptr ms i) of
           (Some t, Some mptr) \<Rightarrow>
             rbind (decode_open_type codec (\<Gamma> t) mptr d) (\<lambda>(v, d).
               decode_units codec \<Gamma> spec bitmap us (ms[i := Some v]) d)
         | _ \<Rightarrow> Inl NullDeref))"

definition decode_extensions ::
    "per_decoder \<Rightarrow> type_env \<Rightarrow> sequence_spec \<Rightarrow> asn1_value option list \<Rightarrow> per_dec
      \<Rightarrow> (asn1_value option list \<times> per_dec) result" where
  "decode_extensions codec \<Gamma> spec ms d =
     rbind (get_nslength d) (\<lambda>(n_ext, d).
     rbind (read_presence n_ext d) (\<lambda>(bitmap, d).
     rbind (decode_units codec \<Gamma> spec bitmap [0..<n_ext] ms d) (\<lambda>(ms, d).
       Inr (clear_members \<Gamma> spec
              (concat (map (\<lambda>u. [unit_begin spec u..<unit_end spec u]) [n_ext..<unit_count spec])) ms, d))))"

definition per_sequence_decode ::
    "per_decoder \<Rightarrow> type_env \<Rightarrow> type_desc \<Rightarrow> asn1_value \<Rightarrow> per_dec \<Rightarrow> (asn1_value \<times> per_dec) result" where
  "per_sequence_decode codec \<Gamma> def dest d =
     (case (td_sequence_spec def, dest) of
        (Some spec, V_Sequence ms) \<Rightarrow>
          rbind (if ss_ext_at spec \<ge> 0 then get_bits 1 d else Inr (0, d)) (\<lambda>(ext_flag, d).
          rbind (read_presence (ss_roms_count spec) d) (\<lambda>(bitmap, d).
          rbind (decode_root_members codec \<Gamma> bitmap 0 0 (take (root_end spec) (ss_members spec)) ms d)
            (\<lambda>(ms, d).
              if ss_ext_at spec < 0 then Inr (V_Sequence ms, d)
              else if ext_flag = 0 then
                Inr (V_Sequence (clear_members \<Gamma> spec [root_end spec..<length (ss_members spec)] ms), d)
              else rbind (decode_extensions codec \<Gamma> spec ms d) (\<lambda>(ms, d). Inr (V_Sequence ms, d)))))
      | _ \<Rightarrow> Inl NullDeref)"

section \<open>CHOICE\<close>

definition choice_root_count :: "choice_spec \<Rightarrow> nat" where
  "choice_root_count spec =
     (if cs_ext_at spec \<ge> 0 then nat (cs_ext_at spec) else length (cs_alternatives spec))"

definition per_choice_encode ::
    "per_encoder \<Rightarrow> type_env \<Rightarrow> type_desc \<Rightarrow> int \<Rightarrow> asn1_value option \<Rightarrow> per_enc \<Rightarrow> per_enc" where
  "per_choice_encode codec \<Gamma> def pr storage s =
     (case td_choice_spec def of
        None \<Rightarrow> s
      | Some spec \<Rightarrow>
          if pr \<le> 0 \<or> pr > int (length (cs_alternatives spec)) then per_set_encode_failed s
          else
            let def_idx = nat (pr - 1);
                root_count = choice_root_count spec;
                in_ext = (cs_ext_at spec \<ge> 0 \<and> def_idx \<ge> root_count);
                s = (if cs_ext_at spec \<ge> 0 then put_bits (if in_ext then 1 else 0) 1 s else s);
                bits = range_bits (cs_constraints spec);
                s = (if in_ext then put_nsnn (def_idx - root_count) s
                     else if bits > 0 then put_bits (of_nat def_idx) bits s else s);
                alt = cs_alternatives spec ! def_idx
            in
            (case m_type alt of
               None \<Rightarrow> per_set_encode_failed s
             | Some t \<Rightarrow>
                 (case storage of
                    None \<Rightarrow> s
                  | Some mptr \<Rightarrow>
                      if in_ext then encode_open_type codec (\<Gamma> t) mptr s else codec (\<Gamma> t) mptr s)))"

text \<open>The object an alternative is decoded into: the occupant if it is already there.\<close>

definition select_alternative :: "type_env \<Rightarrow> member \<Rightarrow> int \<Rightarrow> nat \<Rightarrow> asn1_value option \<Rightarrow> asn1_value option" where
  "select_alternative \<Gamma> alt p idx storage =
     (if p \<noteq> int idx + 1 then Some (emplace_alt \<Gamma> alt) else storage)"

definition decode_choice_root ::
    "per_decoder \<Rightarrow> type_env \<Rightarrow> choice_spec \<Rightarrow> int \<Rightarrow> asn1_value option \<Rightarrow> per_dec
      \<Rightarrow> (asn1_value \<times> per_dec) result" where
  "decode_choice_root codec \<Gamma> spec p storage d =
     (let bits = range_bits (cs_constraints spec) in
      rbind (if bits > 0 then rbind (get_bits bits d) (\<lambda>(v, d). Inr (sint (ucast v :: u32), d))
             else Inr (0, d)) (\<lambda>(def_idx, d).
        if def_idx < 0 \<or> def_idx \<ge> int (choice_root_count spec) then
          Inl (DecodeError ''CHOICE index out of range'' 0)
        else
          let alt = cs_alternatives spec ! nat def_idx in
          (case m_type alt of
             None \<Rightarrow> Inl (DecodeError ''CHOICE alternative has no type descriptor'' 0)
           | Some t \<Rightarrow>
               (case select_alternative \<Gamma> alt p (nat def_idx) storage of
                  None \<Rightarrow> Inl NullDeref
                | Some mptr \<Rightarrow>
                    rbind (codec (\<Gamma> t) mptr d) (\<lambda>(v, d). Inr (V_Choice (def_idx + 1) (Some v), d))))))"

definition decode_choice_ext ::
    "per_decoder \<Rightarrow> type_env \<Rightarrow> choice_spec \<Rightarrow> int \<Rightarrow> asn1_value option \<Rightarrow> per_dec
      \<Rightarrow> (asn1_value \<times> per_dec) result" where
  "decode_choice_ext codec \<Gamma> spec p storage d =
     rbind (get_nsnn d) (\<lambda>(ext_idx, d).
       let def_idx = i32_sum (choice_root_count spec) ext_idx;
           skipped = rbind (skip_open_type d) (\<lambda>d. Inr (V_Choice p storage, d))
       in
       if def_idx < int (length (cs_alternatives spec)) then
         if def_idx < 0 then Inl (OutOfBounds def_idx)
         else
           let alt = cs_alternatives spec ! nat def_idx in
           (case m_type alt of
              None \<Rightarrow> skipped
            | Some t \<Rightarrow>
                (case select_alternative \<Gamma> alt p (nat def_idx) storage of
                   None \<Rightarrow> Inl NullDeref
                 | Some mptr \<Rightarrow>
                     rbind (decode_open_type codec (\<Gamma> t) mptr d) (\<lambda>(v, d).
                       Inr (V_Choice (def_idx + 1) (Some v), d))))
       else skipped)"

definition per_choice_decode ::
    "per_decoder \<Rightarrow> type_env \<Rightarrow> type_desc \<Rightarrow> asn1_value \<Rightarrow> per_dec \<Rightarrow> (asn1_value \<times> per_dec) result" where
  "per_choice_decode codec \<Gamma> def dest d =
     (case (td_choice_spec def, dest) of
        (Some spec, V_Choice p storage) \<Rightarrow>
          rbind (if cs_ext_at spec \<ge> 0 then get_bits 1 d else Inr (0, d)) (\<lambda>(in_ext, d).
            if in_ext = 0 then decode_choice_root codec \<Gamma> spec p storage d
            else decode_choice_ext codec \<Gamma> spec p storage d)
      | _ \<Rightarrow> Inl NullDeref)"

section \<open>Dispatch\<close>

text \<open>
  \<open>(def.per_handler ? *def.per_handler : s_error).encode\<close>. A value that is not of the
  handler's storage class, or a missing specification, leaves the stream as it is.
\<close>

definition per_handler_encode ::
    "per_encoder \<Rightarrow> type_env \<Rightarrow> type_desc \<Rightarrow> asn1_value \<Rightarrow> per_enc \<Rightarrow> per_enc" where
  "per_handler_encode codec \<Gamma> def src s =
     (let pc = td_constraints def in
      case td_per_handler def of
        None \<Rightarrow> per_set_encode_failed s
      | Some h \<Rightarrow>
         (case (h, src) of
            (H_Any, V_OctetString bs) \<Rightarrow> put_octets bs s
          | (H_Boolean, V_Boolean b) \<Rightarrow> put_bits (if b then 1 else 0) 1 s
          | (H_Integer, V_Integer n) \<Rightarrow> per_integer_encode pc n s
          | (H_UInteger, V_UInteger n) \<Rightarrow> per_uinteger_encode pc n s
          | (H_Null, _) \<Rightarrow> s
          | (H_BitString, V_BitString v) \<Rightarrow> per_bit_string_encode pc v s
          | (H_OctetString, V_OctetString bs) \<Rightarrow> per_octet_string_encode pc bs s
          | (H_Oid, V_Oid a) \<Rightarrow> per_oid_encode a s
          | (H_RelOid, V_RelativeOid a) \<Rightarrow> per_rel_oid_encode a s
          | (H_String, V_String str) \<Rightarrow> per_string_encode (number (builtin_tag def)) pc str s
          | (H_Enumerated, V_Enum v) \<Rightarrow>
              (case td_enum_spec def of None \<Rightarrow> s | Some spec \<Rightarrow> per_enum_encode spec v s)
          | (H_SeqOf, V_SeqOf vs) \<Rightarrow> per_seqof_encode codec \<Gamma> def vs s
          | (H_Sequence, V_Sequence ms) \<Rightarrow> per_sequence_encode codec \<Gamma> def ms s
          | (H_Choice, V_Choice p v) \<Rightarrow> per_choice_encode codec \<Gamma> def p v s
          | _ \<Rightarrow> s))"

text \<open>A decoded value replaces the destination object.\<close>

definition into :: "('a \<Rightarrow> asn1_value) \<Rightarrow> ('a \<times> per_dec) result \<Rightarrow> (asn1_value \<times> per_dec) result" where
  "into f r = rbind r (\<lambda>(x, d). Inr (f x, d))"

definition per_handler_decode ::
    "per_decoder \<Rightarrow> type_env \<Rightarrow> type_desc \<Rightarrow> asn1_value \<Rightarrow> per_dec \<Rightarrow> (asn1_value \<times> per_dec) result" where
  "per_handler_decode codec \<Gamma> def dest d =
     (let pc = td_constraints def in
      case td_per_handler def of
        None \<Rightarrow> Inl (DecodeError (''PerCodec: unsupported: '' @ td_name def) 0)
      | Some h \<Rightarrow>
         (case h of
            H_Any \<Rightarrow> into V_OctetString (get_octets d)
          | H_Boolean \<Rightarrow> into (\<lambda>b. V_Boolean (b \<noteq> 0)) (get_bits 1 d)
          | H_Integer \<Rightarrow> into V_Integer (per_integer_decode pc d)
          | H_UInteger \<Rightarrow> into V_UInteger (per_uinteger_decode pc d)
          | H_Null \<Rightarrow> Inr (dest, d)
          | H_BitString \<Rightarrow> into V_BitString (per_bit_string_decode pc d)
          | H_OctetString \<Rightarrow> into V_OctetString (per_octet_string_decode pc d)
          | H_Oid \<Rightarrow> into V_Oid (per_oid_decode d)
          | H_RelOid \<Rightarrow> into V_RelativeOid (per_rel_oid_decode d)
          | H_String \<Rightarrow> into V_String (per_string_decode (number (builtin_tag def)) pc d)
          | H_Enumerated \<Rightarrow>
              (case td_enum_spec def of
                 None \<Rightarrow> Inl NullDeref
               | Some spec \<Rightarrow> into V_Enum (per_enum_decode spec d))
          | H_SeqOf \<Rightarrow> per_seqof_decode codec \<Gamma> def dest d
          | H_Sequence \<Rightarrow> per_sequence_decode codec \<Gamma> def dest d
          | H_Choice \<Rightarrow> per_choice_decode codec \<Gamma> def dest d
          | _ \<Rightarrow> Inl NullDeref))"

text \<open>
  \<open>PerCodec::encode\<close> and \<open>PerCodec::decode\<close>; the validation hooks only count. The depth
  guard raises the stream's depth for the time of the call.
\<close>

definition per_enter_depth :: "type_desc \<Rightarrow> per_dec \<Rightarrow> per_dec" where
  "per_enter_depth def d = (if depth_counts def then d\<lparr>pd_depth := pd_depth d + 1\<rparr> else d)"

definition per_codec_decode :: "per_decoder \<Rightarrow> type_env \<Rightarrow> per_decoder" where
  "per_codec_decode codec \<Gamma> def dest d0 =
     (let d = per_enter_depth def d0 in
      if depth_counts def \<and> pd_depth d > kMaxDecodeDepth then Inl (DecodeError (depth_message def) 0)
      else rbind (per_handler_decode codec \<Gamma> def dest d) (\<lambda>(v, d). Inr (v, d\<lparr>pd_depth := pd_depth d0\<rparr>)))"

fun per_encode_fuel :: "nat \<Rightarrow> type_env \<Rightarrow> per_encoder" where
  "per_encode_fuel 0 \<Gamma> def src s = per_set_encode_failed s"
| "per_encode_fuel (Suc n) \<Gamma> def src s = per_handler_encode (per_encode_fuel n \<Gamma>) \<Gamma> def src s"

definition per_encode :: "type_env \<Rightarrow> per_encoder" where
  "per_encode \<Gamma> def src s = per_encode_fuel (Suc (height src)) \<Gamma> def src s"

fun per_decode_fuel :: "nat \<Rightarrow> type_env \<Rightarrow> per_decoder" where
  "per_decode_fuel 0 \<Gamma> def dest d = Inl OutOfFuel"
| "per_decode_fuel (Suc n) \<Gamma> def dest d = per_codec_decode (per_decode_fuel n \<Gamma>) \<Gamma> def dest d"

definition per_decode :: "type_env \<Rightarrow> per_decoder" where
  "per_decode = per_decode_fuel (kMaxDecodeDepth + 2)"

end
