(* ===== verification/Ber_Encoder.thy ===== *)
theory Ber_Encoder
  imports Sample_Schema Integer_Codec Oid_Codec "HOL-Library.List_Lexorder" "HOL-Library.Multiset"
begin

text \<open>
  The encode half of \<open>runtime/src/BerCodec.cpp\<close>: the handler of every type, the tagging
  of members, and \<open>BerCodec::encode\<close>. A handler gets the codec as an argument, as in
  the code; \<open>ber_encode\<close> ties the knot with fuel, and the lemmas show that the
  height of the value is enough. The refinement lemmas relate the buffer-patching
  encoder to \<open>ber_octets\<close>, which only concatenates octets.
\<close>

unbundle bit_operations_syntax

type_synonym encoder = "type_desc \<Rightarrow> asn1_value \<Rightarrow> ber_writer \<Rightarrow> ber_writer"

section \<open>Tagging\<close>

text \<open>\<open>while (w.at(p + n) & 0x80) ++n;\<close> over the octets after the first one.\<close>

fun count_continued :: "byte list \<Rightarrow> nat" where
  "count_continued [] = 0"
| "count_continued (b # bs) = (if b AND 0x80 \<noteq> 0 then Suc (count_continued bs) else 0)"

definition tag_byte_count :: "ber_writer \<Rightarrow> nat \<Rightarrow> nat" where
  "tag_byte_count w p =
     (if writer_at p w AND 0x1F \<noteq> 0x1F then 1
      else let n = 1 + count_continued (drop (p + 1) (bw_buf w)) in n + 1)"

definition ber_encode_implicit_tagged ::
    "encoder \<Rightarrow> tag_class \<Rightarrow> u32 \<Rightarrow> type_desc \<Rightarrow> asn1_value \<Rightarrow> ber_writer \<Rightarrow> ber_writer" where
  "ber_encode_implicit_tagged codec tag_class ctx_tag_number mdef mptr w =
     (let tag_pos = writer_pos w;
          w = codec mdef mptr w
      in
      if writer_pos w = tag_pos then w
      else
        let ctx = \<lparr>cls = tag_class, number = ctx_tag_number, constructed = constructed (td_tag mdef)\<rparr>;
            new_tag_buf = encode_tag_to_buf ctx;
            orig_tag_bytes = tag_byte_count w tag_pos
        in replace_at tag_pos orig_tag_bytes new_tag_buf w)"

definition ber_encode_explicit_tagged ::
    "encoder \<Rightarrow> tag \<Rightarrow> type_desc \<Rightarrow> asn1_value \<Rightarrow> ber_writer \<Rightarrow> ber_writer" where
  "ber_encode_explicit_tagged codec ctx_tag mdef mptr w =
     write_constructed ctx_tag (\<lambda>w2. codec mdef mptr w2) w"

text \<open>The tagging of a SEQUENCE member or a CHOICE alternative.\<close>

definition encode_component :: "encoder \<Rightarrow> member \<Rightarrow> type_desc \<Rightarrow> asn1_value \<Rightarrow> ber_writer \<Rightarrow> ber_writer" where
  "encode_component codec mbr mdef mptr w =
     (if m_tag_is_override mbr then
        (if m_is_explicit mbr then
           ber_encode_explicit_tagged codec
             \<lparr>cls = cls (m_tag mbr), number = number (m_tag mbr), constructed = True\<rparr> mdef mptr w
         else
           ber_encode_implicit_tagged codec (cls (m_tag mbr)) (number (m_tag mbr)) mdef mptr w)
      else codec mdef mptr w)"

section \<open>Constructed handlers\<close>

text \<open>\<open>SeqOfBerHandler::encode\<close>: SET OF elements are sorted by their encodings.\<close>

definition seqof_encode :: "encoder \<Rightarrow> type_env \<Rightarrow> type_desc \<Rightarrow> asn1_value list \<Rightarrow> ber_writer \<Rightarrow> ber_writer" where
  "seqof_encode codec \<Gamma> def seq w =
     (case td_seq_of_spec def of
        None \<Rightarrow> w
      | Some spec \<Rightarrow>
          let edef = \<Gamma> (sos_element spec);
              is_set_of = (number (builtin_tag def) = UT_Set)
          in write_constructed (td_tag def) (\<lambda>inner.
               if is_set_of \<and> length seq > 1 then
                 let bufs = map (\<lambda>eptr. bw_buf (codec edef eptr new_writer)) seq
                 in foldl (\<lambda>inner b. append_bytes b inner) inner (sort bufs)
               else foldl (\<lambda>inner eptr. codec edef eptr inner) inner seq) w)"

text \<open>
  The member loop of \<open>SequenceBerHandler::encode\<close>. An empty mandatory member ends
  the loop (the \<open>return\<close> after the message on stderr). A null pointer the code
  would dereference leaves the writer as it is.
\<close>

fun encode_members ::
    "encoder \<Rightarrow> type_env \<Rightarrow> asn1_value option list \<Rightarrow> nat \<Rightarrow> member list \<Rightarrow> ber_writer \<Rightarrow> ber_writer" where
  "encode_members codec \<Gamma> src i [] w = w"
| "encode_members codec \<Gamma> src i (mbr # mbrs) w =
     (case m_type mbr of
        None \<Rightarrow> encode_members codec \<Gamma> src (Suc i) mbrs w
      | Some t \<Rightarrow>
          if m_optional mbr \<and> \<not> is_present mbr src i then encode_members codec \<Gamma> src (Suc i) mbrs w
          else if (case m_is_default_equal mbr of None \<Rightarrow> False | Some eq \<Rightarrow> eq src) then
            encode_members codec \<Gamma> src (Suc i) mbrs w
          else if \<not> m_optional mbr \<and> m_has_ops mbr \<and> \<not> is_present mbr src i then w
          else
            (case member_ptr src i of
               None \<Rightarrow> w
             | Some mptr \<Rightarrow>
                 encode_members codec \<Gamma> src (Suc i) mbrs (encode_component codec mbr (\<Gamma> t) mptr w)))"

definition sequence_encode ::
    "encoder \<Rightarrow> type_env \<Rightarrow> type_desc \<Rightarrow> asn1_value option list \<Rightarrow> ber_writer \<Rightarrow> ber_writer" where
  "sequence_encode codec \<Gamma> def src w =
     (case td_sequence_spec def of
        None \<Rightarrow> w
      | Some spec \<Rightarrow>
          write_constructed (td_tag def) (\<lambda>inner. encode_members codec \<Gamma> src 0 (ss_members spec) inner) w)"

definition choice_encode ::
    "encoder \<Rightarrow> type_env \<Rightarrow> type_desc \<Rightarrow> int \<Rightarrow> asn1_value option \<Rightarrow> ber_writer \<Rightarrow> ber_writer" where
  "choice_encode codec \<Gamma> def idx storage w =
     (case td_choice_spec def of
        None \<Rightarrow> w
      | Some spec \<Rightarrow>
          if idx \<le> 0 \<or> idx > int (length (cs_alternatives spec)) then set_encode_failed w
          else
            let alt = cs_alternatives spec ! nat (idx - 1) in
            (case m_type alt of
               None \<Rightarrow> set_encode_failed w
             | Some t \<Rightarrow>
                 (case storage of
                    None \<Rightarrow> w
                  | Some mptr \<Rightarrow> encode_component codec alt (\<Gamma> t) mptr w)))"

section \<open>Dispatch\<close>

text \<open>
  \<open>ber_handler_of(def).encode\<close>. A null handler is the error handler. The
  \<open>static_cast\<close> of a value that is not of the handler's storage class has no
  behaviour to model; it leaves the writer as it is.
\<close>

definition handler_encode ::
    "encoder \<Rightarrow> type_env \<Rightarrow> type_desc \<Rightarrow> asn1_value \<Rightarrow> ber_writer \<Rightarrow> ber_writer" where
  "handler_encode codec \<Gamma> def src w =
     (case td_ber_handler def of
        None \<Rightarrow> set_encode_failed w
      | Some h \<Rightarrow>
         (case (h, src) of
            (H_Boolean, V_Boolean b) \<Rightarrow> write_primitive (td_tag def) [if b then 0xFF else 0x00] w
          | (H_Integer, V_Integer n) \<Rightarrow> write_primitive (td_tag def) (encode_integer_bytes n) w
          | (H_UInteger, V_UInteger n) \<Rightarrow> write_primitive (td_tag def) (encode_uinteger_bytes n) w
          | (H_Null, _) \<Rightarrow> write_primitive (td_tag def) [] w
          | (H_BitString, V_BitString v) \<Rightarrow> write_primitive (td_tag def) (encode_bit_string_bytes v) w
          | (H_OctetString, V_OctetString bs) \<Rightarrow> write_primitive (td_tag def) bs w
          | (H_Oid, V_Oid a) \<Rightarrow> write_primitive (td_tag def) (encode_oid a) w
          | (H_RelOid, V_RelativeOid a) \<Rightarrow> write_primitive (td_tag def) (encode_relative_oid a) w
          | (H_UtcTime, V_String s) \<Rightarrow> write_primitive (td_tag def) s w
          | (H_GenTime, V_String s) \<Rightarrow> write_primitive (td_tag def) s w
          | (H_String, V_String s) \<Rightarrow> write_primitive (td_tag def) s w
          | (H_Any, V_OctetString bs) \<Rightarrow> append_bytes bs w
          | (H_Enumerated, V_Enum v) \<Rightarrow> write_primitive (td_tag def) (encode_integer_bytes v) w
          | (H_SeqOf, V_SeqOf vs) \<Rightarrow> seqof_encode codec \<Gamma> def vs w
          | (H_Sequence, V_Sequence ms) \<Rightarrow> sequence_encode codec \<Gamma> def ms w
          | (H_Choice, V_Choice p v) \<Rightarrow> choice_encode codec \<Gamma> def p v w
          | _ \<Rightarrow> w))"

text \<open>The inner descriptor of a type's own EXPLICIT tag.\<close>

definition natural_def :: "type_desc \<Rightarrow> type_desc" where
  "natural_def def = def\<lparr>td_tag := td_natural_tag def, td_is_explicit := False\<rparr>"

text \<open>\<open>BerCodec::encode\<close>; the validation hook only counts, so it is left out.\<close>

definition codec_encode ::
    "encoder \<Rightarrow> type_env \<Rightarrow> type_desc \<Rightarrow> asn1_value \<Rightarrow> ber_writer \<Rightarrow> ber_writer" where
  "codec_encode codec \<Gamma> def src w =
     (if td_is_explicit def then
        write_constructed (td_tag def) (\<lambda>w2. handler_encode codec \<Gamma> (natural_def def) src w2) w
      else handler_encode codec \<Gamma> def src w)"

fun ber_encode_fuel :: "nat \<Rightarrow> type_env \<Rightarrow> type_desc \<Rightarrow> asn1_value \<Rightarrow> ber_writer \<Rightarrow> ber_writer" where
  "ber_encode_fuel 0 \<Gamma> def src w = set_encode_failed w"
| "ber_encode_fuel (Suc n) \<Gamma> def src w = codec_encode (ber_encode_fuel n \<Gamma>) \<Gamma> def src w"

definition ber_encode :: "type_env \<Rightarrow> type_desc \<Rightarrow> asn1_value \<Rightarrow> ber_writer \<Rightarrow> ber_writer" where
  "ber_encode \<Gamma> def src w = ber_encode_fuel (Suc (height src)) \<Gamma> def src w"

section \<open>The octets of a value\<close>

text \<open>
  The abstract encoder: the octets of a value and whether the failure flag is
  raised. It has no buffer, no reserved length octets and no patching.
\<close>

type_synonym octets = "byte list \<times> bool"
type_synonym octet_spec = "type_desc \<Rightarrow> asn1_value \<Rightarrow> octets"

fun emit :: "octets \<Rightarrow> ber_writer \<Rightarrow> ber_writer" where
  "emit (c, f) w = w\<lparr>bw_buf := bw_buf w @ c, bw_failed := bw_failed w \<or> f\<rparr>"

definition join_octets :: "octets list \<Rightarrow> octets" where
  "join_octets os = (concat (map fst os), \<exists>x \<in> set os. snd x)"

definition wrap_octets :: "tag \<Rightarrow> octets \<Rightarrow> octets" where
  "wrap_octets t x = (tlv_octets t (fst x), snd x)"

definition tag_length :: "byte list \<Rightarrow> nat" where
  "tag_length c = (if hd c AND 0x1F \<noteq> 0x1F then 1 else count_continued (tl c) + 2)"

definition retag_octets :: "tag \<Rightarrow> octets \<Rightarrow> octets" where
  "retag_octets t x =
     (if fst x = [] then x else (tag_octets t @ drop (tag_length (fst x)) (fst x), snd x))"

definition component_octets :: "octet_spec \<Rightarrow> member \<Rightarrow> type_desc \<Rightarrow> asn1_value \<Rightarrow> octets" where
  "component_octets co mbr mdef v =
     (if m_tag_is_override mbr then
        (if m_is_explicit mbr then wrap_octets ((m_tag mbr)\<lparr>constructed := True\<rparr>) (co mdef v)
         else retag_octets ((m_tag mbr)\<lparr>constructed := constructed (td_tag mdef)\<rparr>) (co mdef v))
      else co mdef v)"

definition seqof_octets :: "octet_spec \<Rightarrow> type_env \<Rightarrow> type_desc \<Rightarrow> asn1_value list \<Rightarrow> octets" where
  "seqof_octets co \<Gamma> def vs =
     (case td_seq_of_spec def of
        None \<Rightarrow> ([], False)
      | Some spec \<Rightarrow>
          let os = map (co (\<Gamma> (sos_element spec))) vs in
          wrap_octets (td_tag def)
            (if number (builtin_tag def) = UT_Set \<and> length vs > 1 then (concat (sort (map fst os)), False)
             else join_octets os))"

fun members_octets :: "octet_spec \<Rightarrow> type_env \<Rightarrow> asn1_value option list \<Rightarrow> nat \<Rightarrow> member list \<Rightarrow> octets list" where
  "members_octets co \<Gamma> src i [] = []"
| "members_octets co \<Gamma> src i (mbr # mbrs) =
     (case m_type mbr of
        None \<Rightarrow> members_octets co \<Gamma> src (Suc i) mbrs
      | Some t \<Rightarrow>
          if m_optional mbr \<and> \<not> is_present mbr src i then members_octets co \<Gamma> src (Suc i) mbrs
          else if (case m_is_default_equal mbr of None \<Rightarrow> False | Some eq \<Rightarrow> eq src) then
            members_octets co \<Gamma> src (Suc i) mbrs
          else if \<not> m_optional mbr \<and> m_has_ops mbr \<and> \<not> is_present mbr src i then []
          else
            (case member_ptr src i of
               None \<Rightarrow> []
             | Some v \<Rightarrow> component_octets co mbr (\<Gamma> t) v # members_octets co \<Gamma> src (Suc i) mbrs))"

definition handler_octets :: "octet_spec \<Rightarrow> type_env \<Rightarrow> type_desc \<Rightarrow> asn1_value \<Rightarrow> octets" where
  "handler_octets co \<Gamma> def src =
     (case td_ber_handler def of
        None \<Rightarrow> ([], True)
      | Some h \<Rightarrow>
         (case (h, src) of
            (H_Boolean, V_Boolean b) \<Rightarrow> wrap_octets (td_tag def) ([if b then 0xFF else 0x00], False)
          | (H_Integer, V_Integer n) \<Rightarrow> wrap_octets (td_tag def) (encode_integer_bytes n, False)
          | (H_UInteger, V_UInteger n) \<Rightarrow> wrap_octets (td_tag def) (encode_uinteger_bytes n, False)
          | (H_Null, _) \<Rightarrow> wrap_octets (td_tag def) ([], False)
          | (H_BitString, V_BitString v) \<Rightarrow> wrap_octets (td_tag def) (encode_bit_string_bytes v, False)
          | (H_OctetString, V_OctetString bs) \<Rightarrow> wrap_octets (td_tag def) (bs, False)
          | (H_Oid, V_Oid a) \<Rightarrow> wrap_octets (td_tag def) (encode_oid a, False)
          | (H_RelOid, V_RelativeOid a) \<Rightarrow> wrap_octets (td_tag def) (encode_relative_oid a, False)
          | (H_UtcTime, V_String s) \<Rightarrow> wrap_octets (td_tag def) (s, False)
          | (H_GenTime, V_String s) \<Rightarrow> wrap_octets (td_tag def) (s, False)
          | (H_String, V_String s) \<Rightarrow> wrap_octets (td_tag def) (s, False)
          | (H_Any, V_OctetString bs) \<Rightarrow> (bs, False)
          | (H_Enumerated, V_Enum v) \<Rightarrow> wrap_octets (td_tag def) (encode_integer_bytes v, False)
          | (H_SeqOf, V_SeqOf vs) \<Rightarrow> seqof_octets co \<Gamma> def vs
          | (H_Sequence, V_Sequence ms) \<Rightarrow>
              (case td_sequence_spec def of
                 None \<Rightarrow> ([], False)
               | Some spec \<Rightarrow>
                   wrap_octets (td_tag def) (join_octets (members_octets co \<Gamma> ms 0 (ss_members spec))))
          | (H_Choice, V_Choice p storage) \<Rightarrow>
              (case td_choice_spec def of
                 None \<Rightarrow> ([], False)
               | Some spec \<Rightarrow>
                   if p \<le> 0 \<or> p > int (length (cs_alternatives spec)) then ([], True)
                   else
                     let alt = cs_alternatives spec ! nat (p - 1) in
                     (case m_type alt of
                        None \<Rightarrow> ([], True)
                      | Some t \<Rightarrow>
                          (case storage of
                             None \<Rightarrow> ([], False)
                           | Some v \<Rightarrow> component_octets co alt (\<Gamma> t) v)))
          | _ \<Rightarrow> ([], False)))"

definition codec_octets :: "octet_spec \<Rightarrow> type_env \<Rightarrow> type_desc \<Rightarrow> asn1_value \<Rightarrow> octets" where
  "codec_octets co \<Gamma> def src =
     (if td_is_explicit def then wrap_octets (td_tag def) (handler_octets co \<Gamma> (natural_def def) src)
      else handler_octets co \<Gamma> def src)"

fun ber_octets_fuel :: "nat \<Rightarrow> type_env \<Rightarrow> type_desc \<Rightarrow> asn1_value \<Rightarrow> octets" where
  "ber_octets_fuel 0 \<Gamma> def src = ([], True)"
| "ber_octets_fuel (Suc n) \<Gamma> def src = codec_octets (ber_octets_fuel n \<Gamma>) \<Gamma> def src"

definition ber_octets :: "type_env \<Rightarrow> type_desc \<Rightarrow> asn1_value \<Rightarrow> octets" where
  "ber_octets \<Gamma> def src = ber_octets_fuel (Suc (height src)) \<Gamma> def src"

section \<open>The encoder refines the octets\<close>

text \<open>
  An IMPLICIT tag may not be put on a CHOICE or an open type (X.680 31.2.7); the
  compiler makes such a tag EXPLICIT. Every tagging in the tables obeys this.
\<close>

definition implicit_tagging_ok :: "type_env \<Rightarrow> member \<Rightarrow> bool" where
  "implicit_tagging_ok \<Gamma> mbr \<longleftrightarrow>
     (case m_type mbr of
        None \<Rightarrow> True
      | Some t \<Rightarrow> m_tag_is_override mbr \<and> \<not> m_is_explicit mbr \<longrightarrow>
          td_is_explicit (\<Gamma> t) \<or>
          (td_ber_handler (\<Gamma> t) \<noteq> Some H_Any \<and> td_ber_handler (\<Gamma> t) \<noteq> Some H_Choice))"

definition desc_tagging_ok :: "type_env \<Rightarrow> type_desc \<Rightarrow> bool" where
  "desc_tagging_ok \<Gamma> def \<longleftrightarrow>
     (\<forall>spec. td_sequence_spec def = Some spec \<longrightarrow> (\<forall>m \<in> set (ss_members spec). implicit_tagging_ok \<Gamma> m)) \<and>
     (\<forall>spec. td_choice_spec def = Some spec \<longrightarrow> (\<forall>m \<in> set (cs_alternatives spec). implicit_tagging_ok \<Gamma> m))"

definition env_tagging_ok :: "type_env \<Rightarrow> bool" where
  "env_tagging_ok \<Gamma> \<longleftrightarrow> (\<forall>t. desc_tagging_ok \<Gamma> (\<Gamma> t))"

lemma emit_Nil [simp]: "emit ([], False) w = w"
  by simp

lemma emit_eq: "emit x w = w\<lparr>bw_buf := bw_buf w @ fst x, bw_failed := bw_failed w \<or> snd x\<rparr>"
  by (cases x) simp

lemma emit_emit: "emit y (emit x w) = emit (fst x @ fst y, snd x \<or> snd y) w"
  by (cases x; cases y) simp

lemma emit_fail: "set_encode_failed w = emit ([], True) w"
  by (simp add: set_encode_failed_def)

lemma append_bytes_emit: "append_bytes c w = emit (c, False) w"
  by (simp add: append_bytes_def)

lemma write_primitive_emit: "write_primitive t v w = emit (wrap_octets t (v, False)) w"
  by (simp add: write_primitive_eq wrap_octets_def)

lemma write_constructed_emit:
  assumes "\<And>w. fn w = emit x w"
  shows "write_constructed t fn w = emit (wrap_octets t x) w"
proof (cases x)
  case (Pair c f)
  with assms show ?thesis
    using write_constructed_eq [where fn = fn and w = w and t = t and c = c and f = "bw_failed w \<or> f"] by (simp add: wrap_octets_def)
qed

text \<open>Octets that begin with a complete identifier.\<close>

definition starts_tagged :: "byte list \<Rightarrow> bool" where
  "starts_tagged c \<longleftrightarrow> c = [] \<or> (\<exists>t xs. c = tag_octets t @ xs)"

lemma count_continued_octets: "count_continued (base128_octets n @ xs) = length (base128_octets n) - 1"
proof -
  have c: "count_continued (map (\<lambda>b. b OR 0x80) bs @ ys) = length bs + count_continued ys"
    for bs :: "byte list" and ys
  proof (induction bs)
    case (Cons b bs)
    have "(b OR 0x80) AND 0x80 = 0x80" by (rule bit_word_eqI) (auto simp only: bit_and_iff bit_or_iff)
    then have "(b OR 0x80) AND 0x80 \<noteq> 0" by simp
    with Cons show ?case by simp
  qed simp
  have l: "(of_nat (n mod 128) :: byte) AND 0x80 = 0" by (simp add: octet_simps)
  then have "n < 128 \<Longrightarrow> (of_nat n :: byte) AND 0x80 = 0" by simp
  with l show ?thesis
    by (cases "n < 128") (simp_all add: base128_octets_rec base128_cont_def c)
qed

lemma tag_length_octets: "tag_length (tag_octets t @ xs) = length (tag_octets t)"
proof (cases "number t < 31")
  case True
  then have u: "unat (number t) < 31" by (simp add: word_less_nat_alt)
  then have v: "unat (ucast (number t) :: byte) = unat (number t)"
    by (simp add: unsigned_ucast_eq take_bit_eq_mod)
  then have "(first_tag_octet t OR ucast (number t)) AND 0x1F = ucast (number t)"
    using u by (intro first_octet_fields) simp
  moreover have "ucast (number t) \<noteq> (0x1F :: byte)" using u v by auto
  ultimately show ?thesis using True by (simp add: tag_length_def tag_octets_def)
next
  case False
  have "(first_tag_octet t OR 0x1F) AND 0x1F = 0x1F" by (intro first_octet_fields) simp
  moreover have "0 < length (base128_octets (unat (number t)))" by simp
  ultimately show ?thesis
    using False by (simp add: tag_length_def tag_octets_def count_continued_octets del: length_greater_0_conv)
qed

lemma retag_tlv_octets: "retag_octets t (tlv_octets s v, f) = (tlv_octets t v, f)"
proof -
  have "tag_octets s \<noteq> []" by (simp add: tag_octets_def)
  then show ?thesis by (simp add: retag_octets_def tlv_octets_def tag_length_octets)
qed

lemma implicit_tagged_emit:
  assumes "codec mdef v w = emit (co mdef v) w" "starts_tagged (fst (co mdef v))"
  shows "ber_encode_implicit_tagged codec c n mdef v w
    = emit (retag_octets \<lparr>cls = c, number = n, constructed = constructed (td_tag mdef)\<rparr> (co mdef v)) w"
proof (cases "fst (co mdef v) = []")
  case True
  with assms(1) show ?thesis
    by (cases "co mdef v") (simp add: ber_encode_implicit_tagged_def writer_pos_def retag_octets_def)
next
  case False
  with assms(2) obtain t xs where x: "fst (co mdef v) = tag_octets t @ xs" by (auto simp: starts_tagged_def)
  obtain f where co: "co mdef v = (tag_octets t @ xs, f)" using x by (cases "co mdef v") simp
  have ne: "tag_octets t \<noteq> []" by (simp add: tag_octets_def)
  let ?w = "w\<lparr>bw_buf := bw_buf w @ tag_octets t @ xs, bw_failed := bw_failed w \<or> f\<rparr>"
  have "tag_byte_count ?w (length (bw_buf w)) = tag_length (tag_octets t @ xs)"
    using ne by (cases "tag_octets t") (simp_all add: tag_byte_count_def tag_length_def writer_at_def nth_append)
  then have l: "tag_byte_count ?w (length (bw_buf w)) = length (tag_octets t)" by (simp add: tag_length_octets)
  show ?thesis
    using assms(1) co ne l
    by (simp add: ber_encode_implicit_tagged_def writer_pos_def encode_tag_to_buf_eq replace_at_eq
        retag_octets_def tag_length_octets Let_def)
qed

lemma encode_component_emit:
  assumes "\<And>w. codec mdef v w = emit (co mdef v) w"
    "m_tag_is_override mbr \<Longrightarrow> \<not> m_is_explicit mbr \<Longrightarrow> starts_tagged (fst (co mdef v))"
  shows "encode_component codec mbr mdef v w = emit (component_octets co mbr mdef v) w"
proof -
  have t: "\<lparr>cls = cls (m_tag mbr), number = number (m_tag mbr), constructed = b\<rparr> = (m_tag mbr)\<lparr>constructed := b\<rparr>"
    for b by (cases "m_tag mbr") simp
  show ?thesis
    using assms implicit_tagged_emit [of codec mdef v w co]
    by (auto simp: encode_component_def component_octets_def ber_encode_explicit_tagged_def t
        intro!: write_constructed_emit)
qed

lemma foldl_emit:
  assumes "\<And>v w. v \<in> set vs \<Longrightarrow> f w v = emit (g v) w"
  shows "foldl f w vs = emit (join_octets (map g vs)) w"
  using assms
proof (induction vs arbitrary: w)
  case (Cons v vs)
  then have "foldl f w (v # vs) = emit (join_octets (map g vs)) (emit (g v) w)" by simp
  then show ?case by (simp add: emit_emit join_octets_def)
qed (simp add: join_octets_def)

lemma join_octets_Nil: "join_octets [] = ([], False)"
  by (simp add: join_octets_def)

lemma join_octets_Cons: "join_octets (x # xs) = (fst x @ fst (join_octets xs), snd x \<or> snd (join_octets xs))"
  by (simp add: join_octets_def)

lemma encode_members_emit:
  assumes "\<And>mbr t v w. mbr \<in> set mbrs \<Longrightarrow> m_type mbr = Some t \<Longrightarrow>
      encode_component codec mbr (\<Gamma> t) v w = emit (component_octets co mbr (\<Gamma> t) v) w"
  shows "encode_members codec \<Gamma> src i mbrs w = emit (join_octets (members_octets co \<Gamma> src i mbrs)) w"
  using assms
proof (induction mbrs arbitrary: i w)
  case (Cons mbr mbrs)
  then have IH: "encode_members codec \<Gamma> src (Suc i) mbrs w
      = emit (join_octets (members_octets co \<Gamma> src (Suc i) mbrs)) w" for w by simp
  show ?case
    using Cons.prems
    by (auto simp: IH emit_emit join_octets_Cons join_octets_Nil simp del: emit.simps split: option.splits)
qed (simp add: join_octets_Nil)

lemma seqof_encode_emit:
  assumes "\<And>spec v w. td_seq_of_spec def = Some spec \<Longrightarrow>
      codec (\<Gamma> (sos_element spec)) v w = emit (co (\<Gamma> (sos_element spec)) v) w"
  shows "seqof_encode codec \<Gamma> def vs w = emit (seqof_octets co \<Gamma> def vs) w"
proof (cases "td_seq_of_spec def")
  case (Some spec)
  let ?co = "co (\<Gamma> (sos_element spec))"
  note c = assms [OF Some]
  have bufs: "bw_buf (codec (\<Gamma> (sos_element spec)) v new_writer) = fst (?co v)" for v
    by (simp add: c new_writer_def) (cases "?co v"; simp)
  have "foldl (\<lambda>inner b. append_bytes b inner) w bs = emit (concat bs, False) w" for bs w
    by (subst foldl_emit [where g = "\<lambda>b. (b, False)"]) (simp_all add: append_bytes_emit join_octets_def comp_def)
  moreover have "foldl (\<lambda>inner eptr. codec (\<Gamma> (sos_element spec)) eptr inner) w vs
      = emit (join_octets (map ?co vs)) w" for w
    by (rule foldl_emit) (rule c)
  ultimately show ?thesis
    using Some by (auto simp: seqof_encode_def seqof_octets_def bufs comp_def Let_def intro!: write_constructed_emit)
qed (simp add: seqof_encode_def seqof_octets_def)

lemma starts_tagged_wrap [simp]: "starts_tagged (fst (wrap_octets t x))"
  by (auto simp: starts_tagged_def wrap_octets_def tlv_octets_def)

lemma starts_tagged_Nil [simp]: "starts_tagged []"
  by (simp add: starts_tagged_def)

lemma handler_octets_tagged:
  "td_ber_handler def \<noteq> Some H_Any \<Longrightarrow> td_ber_handler def \<noteq> Some H_Choice \<Longrightarrow>
   starts_tagged (fst (handler_octets co \<Gamma> def v))"
  by (auto simp: handler_octets_def seqof_octets_def Let_def
      split: option.splits handler.splits asn1_value.splits)

lemma handler_encode_emit:
  assumes "\<And>t v w. codec (\<Gamma> t) v w = emit (co (\<Gamma> t) v) w" "desc_tagging_ok \<Gamma> def"
    "\<And>t v. td_is_explicit (\<Gamma> t) \<or> td_ber_handler (\<Gamma> t) \<notin> {Some H_Any, Some H_Choice} \<Longrightarrow>
       starts_tagged (fst (co (\<Gamma> t) v))"
  shows "handler_encode codec \<Gamma> def v w = emit (handler_octets co \<Gamma> def v) w"
proof -
  have comp: "encode_component codec mbr (\<Gamma> t) v w = emit (component_octets co mbr (\<Gamma> t) v) w"
    if "implicit_tagging_ok \<Gamma> mbr" "m_type mbr = Some t" for mbr t v w
    using that assms(1,3) by (intro encode_component_emit) (auto simp: implicit_tagging_ok_def)
  have seq: "sequence_encode codec \<Gamma> def ms w = emit (case td_sequence_spec def of None \<Rightarrow> ([], False)
      | Some spec \<Rightarrow> wrap_octets (td_tag def) (join_octets (members_octets co \<Gamma> ms 0 (ss_members spec)))) w"
    for ms w
    using assms(2) comp
    by (auto simp: sequence_encode_def desc_tagging_ok_def simp del: emit.simps split: option.splits
        intro!: write_constructed_emit encode_members_emit)
  have choice: "choice_encode codec \<Gamma> def p st w =
      emit (case td_choice_spec def of None \<Rightarrow> ([], False)
        | Some spec \<Rightarrow>
            if p \<le> 0 \<or> p > int (length (cs_alternatives spec)) then ([], True)
            else let alt = cs_alternatives spec ! nat (p - 1) in
              (case m_type alt of None \<Rightarrow> ([], True)
               | Some t \<Rightarrow> (case st of None \<Rightarrow> ([], False) | Some v \<Rightarrow> component_octets co alt (\<Gamma> t) v))) w"
    for p st w
  proof -
    have "cs_alternatives spec ! nat (p - 1) \<in> set (cs_alternatives spec)"
      if "\<not> (p \<le> 0 \<or> p > int (length (cs_alternatives spec)))" for spec
      using that by (intro nth_mem) auto
    then show ?thesis
      using assms(2) comp
      by (auto simp: choice_encode_def desc_tagging_ok_def emit_fail Let_def simp del: emit.simps
          split: option.splits)
  qed
  show ?thesis
    using assms(1)
    by (auto simp: handler_encode_def handler_octets_def write_primitive_emit append_bytes_emit emit_fail
        seq choice seqof_encode_emit simp del: emit.simps
        split: option.splits handler.splits asn1_value.splits)
qed

lemma natural_def_tagging: "desc_tagging_ok \<Gamma> (natural_def def) = desc_tagging_ok \<Gamma> def"
  by (simp add: natural_def_def desc_tagging_ok_def)

lemma codec_octets_tagged:
  "td_is_explicit def \<or> td_ber_handler def \<notin> {Some H_Any, Some H_Choice} \<Longrightarrow>
   starts_tagged (fst (codec_octets co \<Gamma> def v))"
  by (auto simp: codec_octets_def intro: handler_octets_tagged)

lemma ber_encode_fuel_emit:
  assumes "env_tagging_ok \<Gamma>"
  shows "desc_tagging_ok \<Gamma> def \<Longrightarrow> ber_encode_fuel n \<Gamma> def v w = emit (ber_octets_fuel n \<Gamma> def v) w"
proof (induction n arbitrary: def v w)
  case (Suc n)
  have tagged: "starts_tagged (fst (ber_octets_fuel n \<Gamma> (\<Gamma> t) v))"
    if "td_is_explicit (\<Gamma> t) \<or> td_ber_handler (\<Gamma> t) \<notin> {Some H_Any, Some H_Choice}" for t v
    using that by (cases n) (simp_all add: codec_octets_tagged)
  have h: "handler_encode (ber_encode_fuel n \<Gamma>) \<Gamma> d v w = emit (handler_octets (ber_octets_fuel n \<Gamma>) \<Gamma> d v) w"
    if "desc_tagging_ok \<Gamma> d" for d v w
    using that assms Suc.IH tagged by (intro handler_encode_emit) (auto simp: env_tagging_ok_def)
  show ?case
    using Suc.prems h natural_def_tagging
    by (auto simp: codec_encode_def codec_octets_def simp del: emit.simps intro!: write_constructed_emit)
qed (simp add: emit_fail)

section \<open>Enough fuel\<close>

lemma members_octets_cong:
  "(\<And>d v. Some v \<in> set src \<Longrightarrow> co d v = co' d v) \<Longrightarrow>
   members_octets co \<Gamma> src i mbrs = members_octets co' \<Gamma> src i mbrs"
proof (induction mbrs arbitrary: i)
  case (Cons mbr mbrs)
  then show ?case
    by (auto simp: component_octets_def split: option.splits dest!: member_ptr_in_set)
qed simp

lemma handler_octets_cong:
  "(\<And>d u. height u < height v \<Longrightarrow> co d u = co' d u) \<Longrightarrow>
   handler_octets co \<Gamma> def v = handler_octets co' \<Gamma> def v"
proof (cases v)
  case (V_Sequence ms)
  assume "\<And>d u. height u < height v \<Longrightarrow> co d u = co' d u"
  with V_Sequence have "members_octets co \<Gamma> ms 0 mbrs = members_octets co' \<Gamma> ms 0 mbrs" for mbrs
    using height_member by (intro members_octets_cong) blast
  with V_Sequence show ?thesis by (auto simp: handler_octets_def split: option.splits handler.splits)
next
  case (V_Choice p st)
  assume "\<And>d u. height u < height v \<Longrightarrow> co d u = co' d u"
  with V_Choice have "component_octets co mbr d u = component_octets co' mbr d u" if "st = Some u" for mbr d u
    using that by (simp add: component_octets_def)
  with V_Choice show ?thesis
    by (auto simp: handler_octets_def Let_def split: option.splits handler.splits)
next
  case (V_SeqOf vs)
  assume "\<And>d u. height u < height v \<Longrightarrow> co d u = co' d u"
  with V_SeqOf have "map (co d) vs = map (co' d) vs" for d
    using height_element by auto
  then have "seqof_octets co \<Gamma> def vs = seqof_octets co' \<Gamma> def vs" by (simp only: seqof_octets_def)
  with V_SeqOf show ?thesis
    by (auto simp: handler_octets_def split: option.splits handler.splits)
qed (auto simp: handler_octets_def split: option.splits handler.splits)

lemma codec_octets_cong:
  "(\<And>d u. height u < height v \<Longrightarrow> co d u = co' d u) \<Longrightarrow>
   codec_octets co \<Gamma> def v = codec_octets co' \<Gamma> def v"
  using handler_octets_cong [of v co co'] by (simp add: codec_octets_def)

lemma ber_octets_fuel_enough:
  "height v < n \<Longrightarrow> height v < m \<Longrightarrow> ber_octets_fuel n \<Gamma> def v = ber_octets_fuel m \<Gamma> def v"
proof (induction n arbitrary: m def v)
  case (Suc n)
  then obtain k where m: "m = Suc k" by (cases m) auto
  have "ber_octets_fuel n \<Gamma> d u = ber_octets_fuel k \<Gamma> d u" if "height u < height v" for d u
    using that Suc.prems m by (intro Suc.IH) auto
  then show ?case unfolding m ber_octets_fuel.simps by (rule codec_octets_cong)
qed simp

lemma ber_octets_unfold: "ber_octets \<Gamma> def v = codec_octets (ber_octets \<Gamma>) \<Gamma> def v"
proof -
  have "codec_octets (ber_octets_fuel (height v) \<Gamma>) \<Gamma> def v = codec_octets (ber_octets \<Gamma>) \<Gamma> def v"
    unfolding ber_octets_def by (intro codec_octets_cong ber_octets_fuel_enough) auto
  then show ?thesis by (subst ber_octets_def) simp
qed

lemma ber_encode_emit:
  "env_tagging_ok \<Gamma> \<Longrightarrow> desc_tagging_ok \<Gamma> def \<Longrightarrow> ber_encode \<Gamma> def v w = emit (ber_octets \<Gamma> def v) w"
  by (simp add: ber_encode_def ber_octets_def ber_encode_fuel_emit del: ber_encode_fuel.simps emit.simps)

section \<open>Properties\<close>

text \<open>
  C18: the buffer-patching encoder (three reserved length octets, moved contents,
  tags replaced in place) appends exactly the octets of the abstract encoder to
  whatever the buffer already holds, and raises the failure flag when it does.
  The abstract encoder has no fuel: it satisfies its own recursion equation.
\<close>

theorem ber_encode_refines_octets:
  assumes "env_tagging_ok \<Gamma>" "desc_tagging_ok \<Gamma> def"
  shows "ber_encode \<Gamma> def v w
      = w\<lparr>bw_buf := bw_buf w @ fst (ber_octets \<Gamma> def v),
          bw_failed := bw_failed w \<or> snd (ber_octets \<Gamma> def v)\<rparr>
    \<and> ber_octets \<Gamma> def v = codec_octets (ber_octets \<Gamma>) \<Gamma> def v"
  using ber_encode_emit [OF assms] ber_octets_unfold [of \<Gamma> def v] by (simp only: emit_eq simp_thms)

lemma sample_tagging_ok: "env_tagging_ok sample_env"
proof -
  have "desc_tagging_ok sample_env (sample_env t)" for t
    by (rule sample_env_all)
      (simp_all add: desc_tagging_ok_def implicit_tagging_ok_def sample_env_def sample_defs)
  then show ?thesis by (simp add: env_tagging_ok_def)
qed

lemma ber_encode_refines_octets_witness:
  "ber_encode sample_env (sample_env ''Rec'') (V_Sequence [Some (V_Integer 5), Some (V_Boolean True)])
     \<lparr>bw_buf = [1, 2], bw_failed = False\<rparr>
   = \<lparr>bw_buf = [1, 2, 0x30, 6, 0x80, 1, 5, 1, 1, 0xFF], bw_failed = False\<rparr>"
proof -
  have o: "ber_octets sample_env (sample_env ''Rec'') (V_Sequence [Some (V_Integer 5), Some (V_Boolean True)])
      = ([0x30, 6, 0x80, 1, 5, 1, 1, 0xFF], False)"
    by code_simp
  have "desc_tagging_ok sample_env (sample_env ''Rec'')"
    using sample_tagging_ok by (simp add: env_tagging_ok_def)
  from ber_encode_refines_octets [OF sample_tagging_ok this,
      of "V_Sequence [Some (V_Integer 5), Some (V_Boolean True)]" "\<lparr>bw_buf = [1, 2], bw_failed = False\<rparr>"]
  show ?thesis by (simp add: o)
qed

text \<open>
  Tagging a member: a value whose own encoding is one TLV gets, under an IMPLICIT
  tag, that tag in place of its own with the same length and contents octets,
  and, under an EXPLICIT tag, a constructed TLV around its complete encoding.
\<close>

theorem ber_member_tagging:
  assumes "ber_octets \<Gamma> mdef v = (tlv_octets s body, f)" "m_tag_is_override mbr"
  shows "component_octets (ber_octets \<Gamma>) mbr mdef v =
    (if m_is_explicit mbr
     then (tlv_octets ((m_tag mbr)\<lparr>constructed := True\<rparr>) (tlv_octets s body), f)
     else (tlv_octets ((m_tag mbr)\<lparr>constructed := constructed (td_tag mdef)\<rparr>) body, f))"
  using assms by (simp add: component_octets_def wrap_octets_def retag_tlv_octets)

lemma ber_member_tagging_witness:
  "component_octets (ber_octets sample_env) name_member asn_DEF_Utf8String (V_String [65, 66])
     = ([0xA1, 4, 12, 2, 65, 66], False)"
proof -
  have "ber_octets sample_env asn_DEF_Utf8String (V_String [65, 66])
      = (tlv_octets (universal UT_Utf8String False) [65, 66], False)"
    by code_simp
  moreover have "m_tag_is_override name_member" by (simp add: sample_defs)
  ultimately have "component_octets (ber_octets sample_env) name_member asn_DEF_Utf8String (V_String [65, 66])
      = (if m_is_explicit name_member
         then (tlv_octets ((m_tag name_member)\<lparr>constructed := True\<rparr>)
                 (tlv_octets (universal UT_Utf8String False) [65, 66]), False)
         else (tlv_octets ((m_tag name_member)\<lparr>constructed := constructed (td_tag asn_DEF_Utf8String)\<rparr>)
                 [65, 66], False))"
    by (rule ber_member_tagging)
  also have "\<dots> = ([0xA1, 4, 12, 2, 65, 66], False)" by code_simp
  finally show ?thesis .
qed

lemma seqof_octets_set:
  "number (builtin_tag def) = UT_Set \<Longrightarrow> td_seq_of_spec def = Some spec \<Longrightarrow>
   fst (seqof_octets co \<Gamma> def vs) = tlv_octets (td_tag def) (concat (sort (map (\<lambda>v. fst (co (\<Gamma> (sos_element spec)) v)) vs)))"
  by (cases vs rule: list.exhaust; cases "tl vs")
     (auto simp: seqof_octets_def wrap_octets_def join_octets_def comp_def Let_def)

text \<open>
  C24: \<open>SeqOfBerHandler::encode\<close> writes a SET OF in DER order (X.690 11.6): to whatever the
  buffer holds it appends one TLV, whose contents are the encodings of the elements, each
  as \<open>BerCodec::encode\<close> writes it on its own and exactly once, in ascending order. Two
  values with the same elements in different order therefore have the same octets.
\<close>

theorem ber_set_of_canonical:
  assumes "td_ber_handler def = Some H_SeqOf" "td_seq_of_spec def = Some spec"
    "number (builtin_tag def) = UT_Set" "\<not> td_is_explicit def" "env_tagging_ok \<Gamma>" "desc_tagging_ok \<Gamma> def"
  shows "(\<exists>cs. bw_buf (ber_encode \<Gamma> def (V_SeqOf vs) w) = bw_buf w @ tlv_octets (td_tag def) (concat cs) \<and> sorted cs
      \<and> mset cs = mset (map (\<lambda>v. bw_buf (ber_encode \<Gamma> (\<Gamma> (sos_element spec)) v new_writer)) vs))
    \<and> (mset vs = mset us \<longrightarrow> bw_buf (ber_encode \<Gamma> def (V_SeqOf vs) w) = bw_buf (ber_encode \<Gamma> def (V_SeqOf us) w))"
proof (intro conjI impI)
  let ?e = "\<lambda>v. bw_buf (ber_encode \<Gamma> (\<Gamma> (sos_element spec)) v new_writer)"
  have el: "desc_tagging_ok \<Gamma> (\<Gamma> (sos_element spec))" using assms(5) by (simp add: env_tagging_ok_def)
  have e: "?e v = fst (ber_octets \<Gamma> (\<Gamma> (sos_element spec)) v)" for v
    by (simp add: ber_encode_emit [OF assms(5) el] emit_eq new_writer_def del: emit.simps)
  have "fst (ber_octets \<Gamma> def (V_SeqOf vs)) = tlv_octets (td_tag def) (concat (sort (map ?e vs)))" for vs
    using assms seqof_octets_set [OF assms(3,2), of "ber_octets \<Gamma>" \<Gamma> vs]
    by (subst ber_octets_unfold) (simp add: codec_octets_def handler_octets_def e)
  then have o: "bw_buf (ber_encode \<Gamma> def (V_SeqOf vs) w) = bw_buf w @ tlv_octets (td_tag def) (concat (sort (map ?e vs)))" for vs
    by (simp add: ber_encode_emit [OF assms(5,6)] emit_eq del: emit.simps)
  show "\<exists>cs. bw_buf (ber_encode \<Gamma> def (V_SeqOf vs) w) = bw_buf w @ tlv_octets (td_tag def) (concat cs) \<and> sorted cs
      \<and> mset cs = mset (map ?e vs)"
    by (rule exI [of _ "sort (map ?e vs)"]) (simp add: o)
  assume "mset vs = mset us"
  then have "sort (map ?e vs) = sort (map ?e us)" by (intro properties_for_sort) simp_all
  then show "bw_buf (ber_encode \<Gamma> def (V_SeqOf vs) w) = bw_buf (ber_encode \<Gamma> def (V_SeqOf us) w)"
    by (simp only: o)
qed

lemma ber_set_of_canonical_witness:
  "bw_buf (ber_encode sample_env (sample_env ''Picks'')
      (V_SeqOf [V_Choice 2 (Some (V_Boolean True)), V_Choice 1 (Some (V_Integer 7))]) new_writer)
   = bw_buf (ber_encode sample_env (sample_env ''Picks'')
      (V_SeqOf [V_Choice 1 (Some (V_Integer 7)), V_Choice 2 (Some (V_Boolean True))]) new_writer)"
proof (rule ber_set_of_canonical [THEN conjunct2, rule_format])
  show "desc_tagging_ok sample_env (sample_env ''Picks'')" using sample_tagging_ok by (simp add: env_tagging_ok_def)
qed (use sample_tagging_ok in \<open>simp_all add: sample_env_def sample_defs builtin_tag_def\<close>)

text \<open>
  The failure flag of a SET OF element is lost: a CHOICE with no alternative
  selected fails an encode on its own and in a one-element SET OF, but in a SET OF
  of two elements the encode is reported as successful and the element is missing.
\<close>

theorem ber_set_of_drops_failure:
  "ber_encode sample_env (sample_env ''Pick'') (V_Choice 0 None) new_writer
     = \<lparr>bw_buf = [], bw_failed = True\<rparr>
   \<and> ber_encode sample_env (sample_env ''Picks'') (V_SeqOf [V_Choice 0 None]) new_writer
     = \<lparr>bw_buf = [0x31, 0], bw_failed = True\<rparr>
   \<and> ber_encode sample_env (sample_env ''Picks'') (V_SeqOf [V_Choice 0 None, V_Choice 1 (Some (V_Integer 7))]) new_writer
     = \<lparr>bw_buf = [0x31, 3, 0x80, 1, 7], bw_failed = False\<rparr>"
  by code_simp

end
