(* ===== verification/Ber_Decoder.thy ===== *)
theory Ber_Decoder
  imports Ber_Encoder
begin

text \<open>
  The decode half of \<open>runtime/src/BerCodec.cpp\<close>: the handlers, the reordering of SET
  components, the selection of a CHOICE alternative, and \<open>BerCodec::decode\<close> and
  \<open>decode_value\<close> with their depth guard. A decode takes the destination object and
  returns it updated with the advanced reader. The lemmas show that every decode
  ends (the depth guard bounds the recursion, and each element consumes input),
  that the cursor stays inside its span, and that a SET's components are only
  permuted.
\<close>

unbundle bit_operations_syntax

type_synonym decoder = "type_desc \<Rightarrow> asn1_value \<Rightarrow> ber_reader \<Rightarrow> (asn1_value \<times> ber_reader) result"
type_synonym content_decoder = "type_desc \<Rightarrow> asn1_value \<Rightarrow> ber_reader \<Rightarrow> asn1_value result"

text \<open>
  Where the code would dereference a null pointer (a table row without a type, a
  missing specification) the model returns \<open>NullDeref\<close>; compiled tables have no
  such row.
\<close>

section \<open>Contents octets of the primitive types\<close>

definition wrong_tag :: "type_desc \<Rightarrow> decode_error" where
  "wrong_tag def = DecodeError (''wrong tag for '' @ td_name def) 0"

text \<open>
  The body the primitive handlers share: one TLV, the tag check (\<open>UtcTime\<close> and
  \<open>GeneralizedTime\<close> make none), and the contents.
\<close>

definition decode_primitive ::
    "tag option \<Rightarrow> decode_error \<Rightarrow> (byte list \<Rightarrow> asn1_value result) \<Rightarrow> ber_reader
      \<Rightarrow> (asn1_value \<times> ber_reader) result" where
  "decode_primitive expected err conv r =
     rbind (read_tlv r) (\<lambda>(tlv, r).
       if (case expected of None \<Rightarrow> False | Some t \<Rightarrow> tlv_tag tlv \<noteq> t) then Inl err
       else rbind (conv (tlv_value tlv)) (\<lambda>v. Inr (v, r)))"

definition boolean_contents :: "byte list \<Rightarrow> asn1_value result" where
  "boolean_contents v =
     (if length v \<noteq> 1 then Inl (DecodeError ''BOOLEAN must be 1 byte'' 0)
      else Inr (V_Boolean (v ! 0 \<noteq> 0)))"

definition boolean_value :: "byte list \<Rightarrow> asn1_value result" where
  "boolean_value v =
     (if v = [] then Inl (DecodeError ''BOOLEAN: empty value'' 0) else Inr (V_Boolean (v ! 0 \<noteq> 0)))"

text \<open>The \<open>decode_value\<close> of a primitive handler; \<open>None\<close> for a handler that has none.\<close>

definition primitive_value :: "handler \<Rightarrow> asn1_value \<Rightarrow> (byte list \<Rightarrow> asn1_value result) option" where
  "primitive_value h dest =
     (case h of
        H_Boolean \<Rightarrow> Some boolean_value
      | H_Integer \<Rightarrow> Some (\<lambda>v. rbind (integer_decode_value v) (\<lambda>n. Inr (V_Integer n)))
      | H_UInteger \<Rightarrow> Some (\<lambda>v. rbind (uinteger_decode_value v) (\<lambda>n. Inr (V_UInteger n)))
      | H_Null \<Rightarrow> Some (\<lambda>_. Inr dest)
      | H_BitString \<Rightarrow> Some (\<lambda>v. rbind (bit_string_decode_value v) (\<lambda>b. Inr (V_BitString b)))
      | H_OctetString \<Rightarrow> Some (\<lambda>v. Inr (V_OctetString v))
      | H_Oid \<Rightarrow> Some (\<lambda>v. rbind (oid_decode_value v) (\<lambda>a. Inr (V_Oid a)))
      | H_RelOid \<Rightarrow> Some (\<lambda>v. rbind (relative_oid_decode_value v) (\<lambda>a. Inr (V_RelativeOid a)))
      | H_UtcTime \<Rightarrow> Some (\<lambda>v. Inr (V_String v))
      | H_GenTime \<Rightarrow> Some (\<lambda>v. Inr (V_String v))
      | H_String \<Rightarrow> Some (\<lambda>v. Inr (V_String v))
      | H_Enumerated \<Rightarrow> Some (\<lambda>v. rbind (integer_decode_value v) (\<lambda>n. Inr (V_Enum n)))
      | _ \<Rightarrow> None)"

section \<open>SEQUENCE OF and SET OF\<close>

text \<open>
  The loop of \<open>SeqOfBerHandler::decode_body\<close>. The existing elements are decoded into
  and reused; \<open>fuel\<close> bounds the rounds by the octets of the span.
\<close>

fun seqof_decode_loop ::
    "nat \<Rightarrow> decoder \<Rightarrow> type_desc \<Rightarrow> asn1_value list \<Rightarrow> nat \<Rightarrow> ber_reader \<Rightarrow> asn1_value list result" where
  "seqof_decode_loop 0 dec edef seq cnt inner = Inl OutOfFuel"
| "seqof_decode_loop (Suc fuel) dec edef seq cnt inner =
     (if at_end inner then Inr (if cnt < length seq then take cnt seq else seq)
      else
        let seq = (if length seq \<le> cnt then seq @ [td_new edef] else seq) in
        rbind (dec edef (seq ! cnt) inner) (\<lambda>(v, inner).
          seqof_decode_loop fuel dec edef (seq[cnt := v]) (cnt + 1) inner))"

definition seqof_decode_body ::
    "decoder \<Rightarrow> type_env \<Rightarrow> type_desc \<Rightarrow> asn1_value \<Rightarrow> ber_reader \<Rightarrow> asn1_value result" where
  "seqof_decode_body dec \<Gamma> def dest inner =
     (case (td_seq_of_spec def, dest) of
        (Some spec, V_SeqOf seq) \<Rightarrow>
          rbind (seqof_decode_loop (Suc (length (br_data inner))) dec (\<Gamma> (sos_element spec)) seq 0 inner)
            (\<lambda>vs. Inr (V_SeqOf vs))
      | _ \<Rightarrow> Inl NullDeref)"

section \<open>SET components in table order\<close>

definition tag_matches :: "tag \<Rightarrow> tag \<Rightarrow> bool" where
  "tag_matches t u \<longleftrightarrow> cls t = cls u \<and> number t = number u"

text \<open>An untagged CHOICE member has the tag universal 0 and matches by its alternatives.\<close>

definition is_untagged_choice :: "type_env \<Rightarrow> member \<Rightarrow> choice_spec option" where
  "is_untagged_choice \<Gamma> mbr =
     (case m_type mbr of
        None \<Rightarrow> None
      | Some t \<Rightarrow>
          if cls (m_tag mbr) = Universal \<and> number (m_tag mbr) = 0 then td_choice_spec (\<Gamma> t) else None)"

definition choice_has_tag :: "choice_spec \<Rightarrow> tag \<Rightarrow> bool" where
  "choice_has_tag cspec t =
     (case cs_ber_tags cspec of
        Some es \<Rightarrow>
          if es \<noteq> [] then list_ex (\<lambda>e. tag_matches t (cte_tag e)) es
          else list_ex (\<lambda>a. tag_matches t (m_tag a)) (cs_alternatives cspec)
      | None \<Rightarrow> list_ex (\<lambda>a. tag_matches t (m_tag a)) (cs_alternatives cspec))"

definition set_member_matches :: "type_env \<Rightarrow> member \<Rightarrow> tag \<Rightarrow> bool" where
  "set_member_matches \<Gamma> mbr t =
     (case is_untagged_choice \<Gamma> mbr of
        Some cspec \<Rightarrow> choice_has_tag cspec t
      | None \<Rightarrow> tag_matches t (m_tag mbr))"

text \<open>The first free matching slot takes the TLV; the flag is \<open>placed\<close>.\<close>

fun place_tlv :: "type_env \<Rightarrow> member list \<Rightarrow> byte list list \<Rightarrow> tag \<Rightarrow> byte list \<Rightarrow> byte list list \<times> bool" where
  "place_tlv \<Gamma> (mbr # mbrs) (s # slots) t raw =
     (if s \<noteq> [] \<or> \<not> set_member_matches \<Gamma> mbr t then
        let (slots', placed) = place_tlv \<Gamma> mbrs slots t raw in (s # slots', placed)
      else (raw # slots, True))"
| "place_tlv \<Gamma> _ slots t raw = (slots, False)"

function set_scan ::
    "type_env \<Rightarrow> member list \<Rightarrow> byte list list \<Rightarrow> byte list list \<Rightarrow> ber_reader
      \<Rightarrow> (byte list list \<times> byte list list) result" where
  "set_scan \<Gamma> mbrs slots unmatched scan =
     (if at_end scan then Inr (slots, unmatched)
      else
        rbind (read_tlv scan) (\<lambda>(_, scan').
          let raw = take (br_pos scan' - br_pos scan) (reader_peek (remaining scan) scan);
              (slots', placed) = place_tlv \<Gamma> mbrs slots (peek_tag scan) raw
          in set_scan \<Gamma> mbrs slots' (if placed then unmatched else unmatched @ [raw]) scan'))"
  by pat_completeness auto
termination
  by (relation "measure (\<lambda>(\<Gamma>, mbrs, slots, unmatched, scan). remaining scan)")
     (auto intro!: advances_remaining dest: read_tlv_frame(1))

declare set_scan.simps [simp del]

definition set_in_table_order :: "type_env \<Rightarrow> sequence_spec \<Rightarrow> ber_reader \<Rightarrow> byte list result" where
  "set_in_table_order \<Gamma> spec scan =
     rbind (set_scan \<Gamma> (ss_members spec) (replicate (length (ss_members spec)) []) [] scan)
       (\<lambda>(slots, unmatched). Inr (concat slots @ concat unmatched))"

section \<open>SEQUENCE and SET members\<close>

text \<open>The decode of a present member: its own tag layer, then its type.\<close>

definition decode_component ::
    "decoder \<Rightarrow> content_decoder \<Rightarrow> type_desc \<Rightarrow> member \<Rightarrow> type_desc \<Rightarrow> asn1_value \<Rightarrow> ber_reader
      \<Rightarrow> (asn1_value \<times> ber_reader) result" where
  "decode_component dec decv def mbr mdef mptr inner =
     (if m_tag_is_override mbr then
        rbind (read_tlv inner) (\<lambda>(outer, inner).
          if \<not> tag_matches (tlv_tag outer) (m_tag mbr) then
            Inl (DecodeError (''wrong tag for '' @ td_name def @ ''.'' @ m_name mbr) 0)
          else if m_is_explicit mbr then
            rbind (dec mdef mptr (sub_reader (tlv_value outer) inner)) (\<lambda>(v, _). Inr (v, inner))
          else
            rbind (decv mdef mptr (sub_reader (tlv_value outer) inner)) (\<lambda>v. Inr (v, inner)))
      else dec mdef mptr inner)"

definition member_present :: "type_env \<Rightarrow> member \<Rightarrow> ber_reader \<Rightarrow> bool" where
  "member_present \<Gamma> mbr inner \<longleftrightarrow>
     \<not> at_end inner \<and> set_member_matches \<Gamma> mbr (peek_tag inner)"

fun decode_members ::
    "decoder \<Rightarrow> content_decoder \<Rightarrow> type_env \<Rightarrow> type_desc \<Rightarrow> nat \<Rightarrow> member list \<Rightarrow> asn1_value option list
      \<Rightarrow> ber_reader \<Rightarrow> asn1_value option list result" where
  "decode_members dec decv \<Gamma> def i [] ms inner = Inr ms"
| "decode_members dec decv \<Gamma> def i (mbr # mbrs) ms inner =
     (case m_type mbr of
        None \<Rightarrow>
          if m_optional mbr \<and> cls (m_tag mbr) = Context \<and> \<not> at_end inner
             \<and> tag_matches (peek_tag inner) (m_tag mbr) then
            rbind (read_tlv inner) (\<lambda>(_, inner). decode_members dec decv \<Gamma> def (Suc i) mbrs ms inner)
          else decode_members dec decv \<Gamma> def (Suc i) mbrs ms inner
      | Some t \<Rightarrow>
          let present = (\<not> m_optional mbr \<or> member_present \<Gamma> mbr inner);
              ms = (if m_optional mbr then set_present \<Gamma> mbr i present ms else ms)
          in
          if \<not> present then
            decode_members dec decv \<Gamma> def (Suc i) mbrs
              (case m_set_default mbr of None \<Rightarrow> ms | Some f \<Rightarrow> f ms) inner
          else
            (case member_ptr ms i of
               None \<Rightarrow> Inl NullDeref
             | Some mptr \<Rightarrow>
                 rbind (decode_component dec decv def mbr (\<Gamma> t) mptr inner) (\<lambda>(v, inner).
                   decode_members dec decv \<Gamma> def (Suc i) mbrs (ms[i := Some v]) inner)))"

definition sequence_decode_body ::
    "decoder \<Rightarrow> content_decoder \<Rightarrow> type_env \<Rightarrow> type_desc \<Rightarrow> asn1_value \<Rightarrow> ber_reader \<Rightarrow> asn1_value result" where
  "sequence_decode_body dec decv \<Gamma> def dest inner =
     (case (td_sequence_spec def, dest) of
        (Some spec, V_Sequence ms) \<Rightarrow>
          rbind (if ss_is_set spec
                 then rbind (set_in_table_order \<Gamma> spec inner) (\<lambda>buf. Inr (sub_reader buf inner))
                 else Inr inner) (\<lambda>inner.
          rbind (decode_members dec decv \<Gamma> def 0 (ss_members spec) ms inner) (\<lambda>ms. Inr (V_Sequence ms)))
      | _ \<Rightarrow> Inl NullDeref)"

section \<open>CHOICE\<close>

text \<open>
  The alternative named by the next tag, by \<open>tag_index\<close>, by \<open>ber_tags\<close> or by a linear
  scan; a negative result is the jump to \<open>no_match\<close>.
\<close>

fun scan_ber_tags :: "choice_tag_entry list \<Rightarrow> tag \<Rightarrow> int" where
  "scan_ber_tags [] t = - 1"
| "scan_ber_tags (e # es) t = (if tag_matches t (cte_tag e) then cte_alt_index e else scan_ber_tags es t)"

fun scan_alternatives :: "member list \<Rightarrow> int \<Rightarrow> tag \<Rightarrow> int" where
  "scan_alternatives [] i t = - 1"
| "scan_alternatives (a # as) i t =
     (if m_type a \<noteq> None \<and> tag_matches t (m_tag a) then i else scan_alternatives as (i + 1) t)"

definition choice_match :: "choice_spec \<Rightarrow> tag \<Rightarrow> int" where
  "choice_match spec t =
     (case cs_tag_index spec of
        Some idx \<Rightarrow>
          if cls t = Context then
            let rel = sint (number t) - cs_tag_index_base spec in
            if 0 \<le> rel \<and> rel < int (length idx) then idx ! nat rel else - 1
          else (case cs_ber_tags spec of Some es \<Rightarrow> scan_ber_tags es t
                                       | None \<Rightarrow> scan_alternatives (cs_alternatives spec) 0 t)
      | None \<Rightarrow> (case cs_ber_tags spec of Some es \<Rightarrow> scan_ber_tags es t
                                        | None \<Rightarrow> scan_alternatives (cs_alternatives spec) 0 t))"

definition choice_decode ::
    "decoder \<Rightarrow> content_decoder \<Rightarrow> type_env \<Rightarrow> type_desc \<Rightarrow> asn1_value \<Rightarrow> ber_reader
      \<Rightarrow> (asn1_value \<times> ber_reader) result" where
  "choice_decode dec decv \<Gamma> def dest r =
     (case (td_choice_spec def, dest) of
        (Some spec, V_Choice p storage) \<Rightarrow>
          let matched = choice_match spec (peek_tag r) in
          if 0 \<le> matched then
            let alt = cs_alternatives spec ! nat matched;
                mptr = (if p \<noteq> matched + 1 then Some (emplace_alt \<Gamma> alt) else storage)
            in
            (case (m_type alt, mptr) of
               (Some t, Some mptr) \<Rightarrow>
                 rbind (if m_tag_is_override alt then
                          rbind (read_tlv r) (\<lambda>(outer, r).
                            if m_is_explicit alt then
                              rbind (dec (\<Gamma> t) mptr (sub_reader (tlv_value outer) r)) (\<lambda>(v, _). Inr (v, r))
                            else
                              rbind (decv (\<Gamma> t) mptr (sub_reader (tlv_value outer) r)) (\<lambda>v. Inr (v, r)))
                        else dec (\<Gamma> t) mptr r)
                   (\<lambda>(v, r). Inr (V_Choice (matched + 1) (Some v), r))
             | _ \<Rightarrow> Inl NullDeref)
          else if 0 \<le> cs_ext_at spec then rbind (read_tlv r) (\<lambda>(_, r). Inr (dest, r))
          else Inl (DecodeError (''BerCodec: no matching CHOICE alternative for '' @ td_name def) 0)
      | _ \<Rightarrow> Inl NullDeref)"

text \<open>
  The object behind \<open>dest\<close> when the call has returned. On the error paths the alternative has
  been emplaced and \<open>_present\<close> not set; \<open>left\<close> stands for what the steps from there to the
  error leave in the alternative's object.
\<close>

definition choice_after ::
    "decoder \<Rightarrow> content_decoder \<Rightarrow> (member \<Rightarrow> type_desc \<Rightarrow> asn1_value \<Rightarrow> ber_reader \<Rightarrow> asn1_value)
      \<Rightarrow> type_env \<Rightarrow> type_desc \<Rightarrow> asn1_value \<Rightarrow> ber_reader \<Rightarrow> asn1_value" where
  "choice_after dec decv left \<Gamma> def dest r =
     (case choice_decode dec decv \<Gamma> def dest r of
        Inr (v, _) \<Rightarrow> v
      | Inl _ \<Rightarrow>
         (case (td_choice_spec def, dest) of
            (Some spec, V_Choice p storage) \<Rightarrow>
              let matched = choice_match spec (peek_tag r) in
              if 0 \<le> matched then
                let alt = cs_alternatives spec ! nat matched;
                    mptr = (if p \<noteq> matched + 1 then Some (emplace_alt \<Gamma> alt) else storage)
                in
                (case (m_type alt, mptr) of
                   (Some t, Some mptr) \<Rightarrow> V_Choice p (Some (left alt (\<Gamma> t) mptr r))
                 | _ \<Rightarrow> dest)
              else dest
          | _ \<Rightarrow> dest))"

section \<open>Dispatch\<close>

text \<open>\<open>ber_handler_of(def).decode\<close>.\<close>

definition handler_decode ::
    "decoder \<Rightarrow> content_decoder \<Rightarrow> type_env \<Rightarrow> type_desc \<Rightarrow> asn1_value \<Rightarrow> ber_reader
      \<Rightarrow> (asn1_value \<times> ber_reader) result" where
  "handler_decode dec decv \<Gamma> def dest r =
     (case td_ber_handler def of
        None \<Rightarrow> Inl (DecodeError (''BerCodec: unsupported: '' @ td_name def) 0)
      | Some h \<Rightarrow>
         (case h of
            H_Boolean \<Rightarrow> decode_primitive (Some (td_tag def)) (wrong_tag def) boolean_contents r
          | H_UtcTime \<Rightarrow> decode_primitive None (wrong_tag def) (\<lambda>v. Inr (V_String v)) r
          | H_GenTime \<Rightarrow> decode_primitive None (wrong_tag def) (\<lambda>v. Inr (V_String v)) r
          | H_String \<Rightarrow> decode_primitive (Some (td_tag def)) (DecodeError ''wrong tag for string type'' 0)
                          (\<lambda>v. Inr (V_String v)) r
          | H_Any \<Rightarrow> rbind (read_bytes (remaining r) r) (\<lambda>(raw, r). Inr (V_OctetString raw, r))
          | H_SeqOf \<Rightarrow>
              rbind (read_tlv r) (\<lambda>(tlv, r).
                if tlv_tag tlv \<noteq> td_tag def then Inl (wrong_tag def)
                else rbind (seqof_decode_body dec \<Gamma> def dest (sub_reader (tlv_value tlv) r)) (\<lambda>v. Inr (v, r)))
          | H_Sequence \<Rightarrow>
              rbind (read_tlv r) (\<lambda>(tlv, r).
                if tlv_tag tlv \<noteq> td_tag def then Inl (wrong_tag def)
                else rbind (sequence_decode_body dec decv \<Gamma> def dest (sub_reader (tlv_value tlv) r))
                       (\<lambda>v. Inr (v, r)))
          | H_Choice \<Rightarrow> choice_decode dec decv \<Gamma> def dest r
          | _ \<Rightarrow>
              (case primitive_value h dest of
                 None \<Rightarrow> Inl NullDeref
               | Some conv \<Rightarrow> decode_primitive (Some (td_tag def)) (wrong_tag def) conv r)))"

text \<open>
  \<open>IBerTypeHandler::decode_value\<close>, the default: the contents get the type's tag and a
  length again and are decoded as a TLV.
\<close>

definition default_decode_value ::
    "decoder \<Rightarrow> type_desc \<Rightarrow> asn1_value \<Rightarrow> ber_reader \<Rightarrow> asn1_value result" where
  "default_decode_value dec def dest content =
     (let val = reader_rest content;
          retagged = bw_buf (write_length (length val) (write_tag (td_tag def) new_writer)) @ val
      in rbind (dec def dest (sub_reader retagged content)) (\<lambda>(v, _). Inr v))"

definition handler_decode_value ::
    "decoder \<Rightarrow> content_decoder \<Rightarrow> type_env \<Rightarrow> type_desc \<Rightarrow> asn1_value \<Rightarrow> ber_reader \<Rightarrow> asn1_value result" where
  "handler_decode_value dec decv \<Gamma> def dest content =
     (case td_ber_handler def of
        None \<Rightarrow> default_decode_value dec def dest content
      | Some h \<Rightarrow>
         (case h of
            H_SeqOf \<Rightarrow> seqof_decode_body dec \<Gamma> def dest content
          | H_Sequence \<Rightarrow> sequence_decode_body dec decv \<Gamma> def dest content
          | H_Choice \<Rightarrow> rbind (choice_decode dec decv \<Gamma> def dest content) (\<lambda>(v, _). Inr v)
          | _ \<Rightarrow>
              (case primitive_value h dest of
                 None \<Rightarrow> default_decode_value dec def dest content
               | Some conv \<Rightarrow> conv (reader_rest content))))"

text \<open>
  \<open>BerCodec::decode\<close> and \<open>BerCodec::decode_value\<close>. \<open>DecodeDepthGuard\<close> raises the reader's
  depth for the time of the call; the fuel stands for the C++ stack.
\<close>

definition enter_depth :: "type_desc \<Rightarrow> ber_reader \<Rightarrow> ber_reader" where
  "enter_depth def r = (if depth_counts def then r\<lparr>br_depth := br_depth r + 1\<rparr> else r)"

definition depth_exceeded :: "type_desc \<Rightarrow> ber_reader \<Rightarrow> bool" where
  "depth_exceeded def r \<longleftrightarrow> depth_counts def \<and> br_depth r > kMaxDecodeDepth"

definition codec_decode :: "decoder \<Rightarrow> content_decoder \<Rightarrow> type_env \<Rightarrow> decoder" where
  "codec_decode dec decv \<Gamma> def dest r0 =
     (let r = enter_depth def r0 in
      if depth_exceeded def r then Inl (DecodeError (depth_message def) 0)
      else
        rbind (if td_is_explicit def then
                 rbind (read_tlv r) (\<lambda>(outer, r).
                   if tlv_tag outer \<noteq> td_tag def then
                     Inl (DecodeError (''BerCodec: expected EXPLICIT wrapper tag for '' @ td_name def) 0)
                   else
                     rbind (handler_decode dec decv \<Gamma> (natural_def def) dest
                              (sub_reader (tlv_value outer) r)) (\<lambda>(v, _). Inr (v, r)))
               else handler_decode dec decv \<Gamma> def dest r)
          (\<lambda>(v, r). Inr (v, r\<lparr>br_depth := br_depth r0\<rparr>)))"

definition codec_decode_value :: "decoder \<Rightarrow> content_decoder \<Rightarrow> type_env \<Rightarrow> content_decoder" where
  "codec_decode_value dec decv \<Gamma> def dest content =
     (let content = enter_depth def content in
      if depth_exceeded def content then Inl (DecodeError (depth_message def) 0)
      else handler_decode_value dec decv \<Gamma> def dest content)"

fun ber_decode_fuel :: "nat \<Rightarrow> type_env \<Rightarrow> decoder"
  and ber_decode_value_fuel :: "nat \<Rightarrow> type_env \<Rightarrow> content_decoder" where
  "ber_decode_fuel 0 \<Gamma> def dest r = Inl OutOfFuel"
| "ber_decode_fuel (Suc n) \<Gamma> def dest r
     = codec_decode (ber_decode_fuel n \<Gamma>) (ber_decode_value_fuel n \<Gamma>) \<Gamma> def dest r"
| "ber_decode_value_fuel 0 \<Gamma> def dest r = Inl OutOfFuel"
| "ber_decode_value_fuel (Suc n) \<Gamma> def dest r
     = codec_decode_value (ber_decode_fuel n \<Gamma>) (ber_decode_value_fuel n \<Gamma>) \<Gamma> def dest r"

definition ber_decode :: "type_env \<Rightarrow> decoder" where
  "ber_decode = ber_decode_fuel (kMaxDecodeDepth + 3)"

definition ber_decode_value :: "type_env \<Rightarrow> content_decoder" where
  "ber_decode_value = ber_decode_value_fuel (kMaxDecodeDepth + 3)"

section \<open>Consumption of input\<close>

text \<open>A decode keeps the span and the depth, and moves the cursor forward inside the span.\<close>

definition consumed :: "ber_reader \<Rightarrow> ber_reader \<Rightarrow> bool" where
  "consumed r r' \<longleftrightarrow> br_data r' = br_data r \<and> br_depth r' = br_depth r \<and> br_pos r \<le> br_pos r' \<and>
     (at_end r \<or> (br_pos r < br_pos r' \<and> br_pos r' \<le> length (br_data r)))"

lemma advances_consumed: "advances r r' \<Longrightarrow> consumed r r'"
  by (auto simp: advances_def consumed_def)

lemma read_tlv_consumed: "read_tlv r = Inr (t, r') \<Longrightarrow> consumed r r'"
  by (rule advances_consumed) (rule read_tlv_frame(1))

lemma read_rest_consumed: "read_bytes (remaining r) r = Inr (bs, r') \<Longrightarrow> consumed r r'"
  by (auto simp: read_bytes_def consumed_def at_end_def remaining_eq)

definition consumes :: "decoder \<Rightarrow> bool" where
  "consumes dec \<longleftrightarrow> (\<forall>def dest r v r'. dec def dest r = Inr (v, r') \<longrightarrow> consumed r r')"

lemma consumesD: "consumes dec \<Longrightarrow> dec def dest r = Inr (v, r') \<Longrightarrow> consumed r r'"
  by (auto simp: consumes_def)

lemma decode_primitive_consumed: "decode_primitive t e conv r = Inr (v, r') \<Longrightarrow> consumed r r'"
  by (auto simp: decode_primitive_def rbind_eq_Inr split: if_splits option.splits dest: read_tlv_consumed)

lemma choice_decode_consumed:
  assumes "consumes dec" "choice_decode dec decv \<Gamma> def dest r = Inr (v, r')"
  shows "consumed r r'"
  using assms(2)
  by (auto simp: choice_decode_def Let_def rbind_eq_Inr
      split: option.splits asn1_value.splits if_splits
      dest: read_tlv_consumed consumesD [OF assms(1)])

lemma handler_decode_consumed:
  assumes "consumes dec" "handler_decode dec decv \<Gamma> def dest r = Inr (v, r')"
  shows "consumed r r'"
  using assms(2)
  by (auto simp: handler_decode_def rbind_eq_Inr
      split: option.splits handler.splits if_splits
      dest: read_tlv_consumed read_rest_consumed decode_primitive_consumed choice_decode_consumed [OF assms(1)])

lemma consumed_depth: "consumed (enter_depth def r) r' \<Longrightarrow> consumed r (r'\<lparr>br_depth := br_depth r\<rparr>)"
  by (auto simp: consumed_def enter_depth_def at_end_def split: if_splits)

lemma codec_decode_consumes: "consumes dec \<Longrightarrow> consumes (codec_decode dec decv \<Gamma>)"
proof -
  assume c: "consumes dec"
  show ?thesis
    unfolding consumes_def
    by (auto simp: codec_decode_def Let_def rbind_eq_Inr split: if_splits
        intro!: consumed_depth dest: read_tlv_consumed handler_decode_consumed [OF c])
qed

lemma ber_decode_fuel_consumes: "consumes (ber_decode_fuel n \<Gamma>)"
proof (induction n)
  case 0
  then show ?case by (simp add: consumes_def)
next
  case (Suc n)
  then have "consumes (codec_decode (ber_decode_fuel n \<Gamma>) (ber_decode_value_fuel n \<Gamma>) \<Gamma>)"
    by (rule codec_decode_consumes)
  then show ?case by (simp add: consumes_def)
qed

section \<open>Every decode ends\<close>

definition fuel_free :: "'a result \<Rightarrow> bool" where
  "fuel_free m \<longleftrightarrow> m \<noteq> Inl OutOfFuel"

lemma fuel_free_simps [simp]:
  "fuel_free (Inr x)" "fuel_free (Inl (DecodeError s n))" "fuel_free (Inl NullDeref)" "\<not> fuel_free (Inl OutOfFuel)"
  by (simp_all add: fuel_free_def)

lemma fuel_free_rbind:
  "fuel_free m \<Longrightarrow> (\<And>x. m = Inr x \<Longrightarrow> fuel_free (f x)) \<Longrightarrow> fuel_free (rbind m f)"
  by (cases m) (auto simp: fuel_free_def)

lemma fuel_free_if: "(c \<Longrightarrow> fuel_free a) \<Longrightarrow> (\<not> c \<Longrightarrow> fuel_free b) \<Longrightarrow> fuel_free (if c then a else b)"
  by simp

lemma read_tag_clean: "clean (read_tag r)"
  by (simp add: read_tag_def split: prod.splits)

lemma read_length_clean: "clean (read_length r)"
  by (simp add: read_length_def Let_def)

lemma read_bytes_clean: "clean (read_bytes n r)"
  by (simp add: read_bytes_def)

lemma skip_indefinite_clean: "clean (skip_indefinite k r)"
proof (induction k r rule: skip_indefinite.induct)
  case (1 depth r)
  show ?case
    by (subst skip_indefinite.simps)
       (intro clean_if clean_rbind 1 read_tag_clean read_length_clean; simp)
qed

lemma read_tlv_clean: "clean (read_tlv r)"
  unfolding read_tlv_eq_slow read_tlv_slow_def
  by (auto intro!: clean_rbind read_tag_clean read_length_clean read_bytes_clean
      skip_indefinite_clean simp: Let_def split: prod.splits)

lemma decode_subid_loop_clean: "clean (decode_subid_loop bytes mx i v)"
proof (induction bytes mx i v rule: decode_subid_loop.induct)
  case (1 bytes mx idx v)
  then show ?case
    by (subst decode_subid_loop.simps) (auto simp: Let_def)
qed

lemma decode_arcs_clean: "clean (decode_arcs bytes i arcs)"
proof (induction bytes i arcs rule: decode_arcs.induct)
  case (1 bytes idx arcs)
  then show ?case
    by (subst decode_arcs.simps)
       (auto intro!: clean_rbind simp: decode_subid_def decode_subid_loop_clean)
qed

lemma contents_clean:
  "clean (integer_decode_value v)" "clean (uinteger_decode_value v)"
  "clean (bit_string_decode_value v)" "clean (oid_decode_value v)"
  "clean (relative_oid_decode_value v)" "clean (boolean_contents v)" "clean (boolean_value v)"
  by (auto simp: integer_decode_value_def uinteger_decode_value_def bit_string_decode_value_def Let_def
      oid_decode_value_def relative_oid_decode_value_def boolean_contents_def boolean_value_def
      decode_subid_def decode_subid_loop_clean decode_arcs_clean intro!: clean_rbind)

lemma clean_fuel_free: "clean m \<Longrightarrow> fuel_free m"
  by (cases m) (auto simp: fuel_free_def)

lemmas read_tlv_fuel_free = read_tlv_clean [THEN clean_fuel_free]
lemmas read_bytes_fuel_free = read_bytes_clean [THEN clean_fuel_free]
lemmas contents_fuel_free = contents_clean [THEN clean_fuel_free]

lemma primitive_value_fuel_free: "primitive_value h dest = Some conv \<Longrightarrow> fuel_free (conv v)"
  by (auto simp: primitive_value_def contents_fuel_free intro!: fuel_free_rbind split: handler.splits)

lemma primitive_value_all_free: "primitive_value h dest = Some conv \<Longrightarrow> \<forall>v. fuel_free (conv v)"
  using primitive_value_fuel_free by blast

lemma decode_primitive_fuel_free: "(\<And>v. fuel_free (conv v)) \<Longrightarrow> fuel_free (decode_primitive t (DecodeError e n) conv r)"
  by (auto simp: decode_primitive_def intro!: fuel_free_rbind read_tlv_fuel_free split: option.splits)

lemma set_scan_fuel_free: "fuel_free (set_scan \<Gamma> mbrs slots unmatched scan)"
proof (induction \<Gamma> mbrs slots unmatched scan rule: set_scan.induct)
  case (1 \<Gamma> mbrs slots unmatched scan)
  then show ?case
    by (subst set_scan.simps)
       (auto simp: Let_def intro!: fuel_free_rbind read_tlv_fuel_free split: prod.splits)
qed

text \<open>
  The handlers do not run out of fuel when the nested calls at the same depth do
  not. Only nested values of the environment are decoded.
\<close>

definition total_at :: "type_env \<Rightarrow> nat \<Rightarrow> decoder \<Rightarrow> content_decoder \<Rightarrow> bool" where
  "total_at \<Gamma> d dec decv \<longleftrightarrow>
     (\<forall>t dest r. br_depth r = d \<longrightarrow> fuel_free (dec (\<Gamma> t) dest r) \<and> fuel_free (decv (\<Gamma> t) dest r))"

lemma seqof_decode_loop_fuel_free:
  assumes "consumes dec" "total_at \<Gamma> d dec decv"
  shows "br_depth r = d \<Longrightarrow> remaining r < fuel \<Longrightarrow> fuel_free (seqof_decode_loop fuel dec (\<Gamma> t) seq k r)"
proof (induction fuel arbitrary: seq k r)
  case (Suc fuel)
  have step: "br_depth r' = d \<and> remaining r' < fuel"
    if "dec (\<Gamma> t) u r = Inr (v, r')" "\<not> at_end r" for u v r'
    using consumesD [OF assms(1) that(1)] that(2) Suc.prems by (auto simp: consumed_def remaining_eq)
  show ?case
    using assms(2) Suc.prems(1) step
    by (auto simp: Let_def total_at_def intro!: fuel_free_rbind Suc.IH)
qed simp

lemma seqof_decode_body_fuel_free:
  assumes "consumes dec" "total_at \<Gamma> d dec decv" "br_depth r = d"
  shows "fuel_free (seqof_decode_body dec \<Gamma> def dest r)"
proof -
  have "fuel_free (seqof_decode_loop (Suc (length (br_data r))) dec (\<Gamma> t) seq 0 r)" for t seq
    by (rule seqof_decode_loop_fuel_free [OF assms]) (simp add: remaining_eq)
  then show ?thesis
    by (auto simp: seqof_decode_body_def simp del: seqof_decode_loop.simps intro!: fuel_free_rbind
        split: option.splits asn1_value.splits)
qed

lemma decode_component_fuel_free:
  assumes "total_at \<Gamma> d dec decv" "br_depth r = d"
  shows "fuel_free (decode_component dec decv def mbr (\<Gamma> t) mptr r)"
  using assms
  by (auto simp: decode_component_def total_at_def sub_reader_def
      intro!: fuel_free_rbind read_tlv_fuel_free dest!: read_tlv_frame(1) simp: advances_def)

lemma decode_component_depth:
  assumes "consumes dec" "decode_component dec decv def mbr mdef mptr r = Inr (v, r')"
  shows "consumed r r'"
  using assms(2)
  by (auto simp: decode_component_def rbind_eq_Inr split: if_splits
      dest: read_tlv_consumed consumesD [OF assms(1)])

lemma decode_members_fuel_free:
  assumes "consumes dec" "total_at \<Gamma> d dec decv"
  shows "br_depth r = d \<Longrightarrow> fuel_free (decode_members dec decv \<Gamma> def i mbrs ms r)"
proof (induction mbrs arbitrary: i ms r)
  case (Cons mbr mbrs)
  have tlv: "br_depth r' = d" if "read_tlv r = Inr (x, r')" for x r'
    using read_tlv_frame(1) [OF that] Cons.prems by (simp add: advances_def)
  have comp: "br_depth r' = d" if "decode_component dec decv def mbr mdef mptr r = Inr (v, r')" for mdef mptr v r'
    using decode_component_depth [OF assms(1) that] Cons.prems by (simp add: consumed_def)
  show ?case
    using Cons.prems tlv comp
    by (auto simp: Let_def intro!: Cons.IH fuel_free_rbind read_tlv_fuel_free
        decode_component_fuel_free [OF assms(2)] split: option.splits)
qed simp

lemma sequence_decode_body_fuel_free:
  assumes "consumes dec" "total_at \<Gamma> d dec decv" "br_depth r = d"
  shows "fuel_free (sequence_decode_body dec decv \<Gamma> def dest r)"
proof -
  have set: "fuel_free (set_in_table_order \<Gamma> spec r)" for spec
    by (auto simp: set_in_table_order_def intro!: fuel_free_rbind set_scan_fuel_free)
  have "br_depth (sub_reader buf r) = d" for buf using assms(3) by (simp add: sub_reader_def)
  then show ?thesis
    using assms
    by (auto simp: sequence_decode_body_def rbind_eq_Inr
        intro!: fuel_free_rbind set decode_members_fuel_free [OF assms(1,2)]
        split: option.splits asn1_value.splits)
qed

lemma choice_decode_fuel_free:
  assumes "total_at \<Gamma> d dec decv" "br_depth r = d"
  shows "fuel_free (choice_decode dec decv \<Gamma> def dest r)"
proof -
  have "br_depth r' = d" if "read_tlv r = Inr (x, r')" for x r'
    using read_tlv_frame(1) [OF that] assms(2) by (simp add: advances_def)
  then show ?thesis
    using assms
    by (auto simp: choice_decode_def Let_def total_at_def sub_reader_def
        intro!: fuel_free_rbind read_tlv_fuel_free split: option.splits asn1_value.splits)
qed

text \<open>
  The kind of a descriptor is what its handler decodes, so the depth guard counts
  every type that recurses.
\<close>

definition desc_kind_ok :: "type_desc \<Rightarrow> bool" where
  "desc_kind_ok def \<longleftrightarrow>
     (td_ber_handler def \<in> {Some H_Sequence, Some H_Choice, Some H_SeqOf} \<longrightarrow> depth_counts def)"

definition env_kind_ok :: "type_env \<Rightarrow> bool" where
  "env_kind_ok \<Gamma> \<longleftrightarrow> (\<forall>t. desc_kind_ok (\<Gamma> t))"

lemma handler_decode_fuel_free:
  assumes "depth_counts def \<Longrightarrow> consumes dec \<and> total_at \<Gamma> d dec decv" "br_depth r = d" "desc_kind_ok def"
  shows "fuel_free (handler_decode dec decv \<Gamma> def dest r)"
proof -
  have sub: "br_depth (sub_reader (tlv_value x) r') = d" if "read_tlv r = Inr (x, r')" for x r'
    using read_tlv_frame(1) [OF that] assms(2) by (simp add: advances_def sub_reader_def)
  show ?thesis
  proof (cases "depth_counts def")
    case True
    with assms(1) have "consumes dec" "total_at \<Gamma> d dec decv" by auto
    with assms(2) sub show ?thesis
      by (auto simp: handler_decode_def wrong_tag_def contents_fuel_free
          intro!: fuel_free_rbind read_tlv_fuel_free read_bytes_fuel_free decode_primitive_fuel_free
            seqof_decode_body_fuel_free sequence_decode_body_fuel_free choice_decode_fuel_free
          dest: primitive_value_all_free
          split: option.splits handler.splits)
  next
    case False
    with assms(3) show ?thesis
      by (auto simp: handler_decode_def wrong_tag_def contents_fuel_free desc_kind_ok_def
          intro!: fuel_free_rbind read_bytes_fuel_free decode_primitive_fuel_free
          dest: primitive_value_all_free
          split: option.splits handler.splits)
  qed
qed

lemma handler_decode_value_fuel_free:
  assumes "depth_counts def \<Longrightarrow> consumes dec \<and> total_at \<Gamma> d dec decv" "br_depth r = d" "desc_kind_ok def"
    "\<And>r. br_depth r = d \<Longrightarrow> td_ber_handler def = None \<or> td_ber_handler def = Some H_Any \<Longrightarrow>
       fuel_free (dec def dest r)"
  shows "fuel_free (handler_decode_value dec decv \<Gamma> def dest r)"
proof -
  have default: "fuel_free (default_decode_value dec def dest r)"
    if "td_ber_handler def = None \<or> td_ber_handler def = Some H_Any"
    using that assms(2,4) by (auto simp: default_decode_value_def Let_def sub_reader_def intro!: fuel_free_rbind)
  have prim: "fuel_free (case primitive_value h dest of None \<Rightarrow> default_decode_value dec def dest r
      | Some conv \<Rightarrow> conv (reader_rest r))"
    if "td_ber_handler def = Some h" "h \<notin> {H_SeqOf, H_Sequence, H_Choice}" for h
  proof (cases "primitive_value h dest")
    case None
    with that have "h = H_Any" by (cases h) (simp_all add: primitive_value_def)
    with None that(1) show ?thesis using default by simp
  next
    case (Some conv)
    with primitive_value_fuel_free [OF Some] show ?thesis by simp
  qed
  show ?thesis
  proof (cases "td_ber_handler def")
    case None
    with default show ?thesis by (simp add: handler_decode_value_def)
  next
    case (Some h)
    show ?thesis
    proof (cases "h \<in> {H_SeqOf, H_Sequence, H_Choice}")
      case True
      with Some assms(1,3) have "consumes dec" "total_at \<Gamma> d dec decv" by (auto simp: desc_kind_ok_def)
      with True Some assms(2) show ?thesis
        by (auto simp: handler_decode_value_def intro!: fuel_free_rbind seqof_decode_body_fuel_free
            sequence_decode_body_fuel_free choice_decode_fuel_free)
    next
      case False
      with Some prim [OF Some False] show ?thesis
        by (cases h) (simp_all add: handler_decode_value_def)
    qed
  qed
qed

text \<open>
  A level of the guard takes one unit of fuel; two more serve a type that does not
  count, whose default \<open>decode_value\<close> calls \<open>decode\<close> once.
\<close>

lemma leaf_decode_fuel_free:
  assumes "\<not> depth_counts def" "desc_kind_ok def"
  shows "fuel_free (ber_decode_fuel (Suc n) \<Gamma> def dest r)"
proof -
  have h: "fuel_free (handler_decode dec decv \<Gamma> def' dest r)"
    if "def' = def \<or> def' = natural_def def" for dec decv def' r
    using that assms
    by (intro handler_decode_fuel_free [OF _ refl])
       (auto simp: desc_kind_ok_def depth_counts_def natural_def_def)
  then show ?thesis
    using assms(1)
    by (auto simp: codec_decode_def enter_depth_def depth_exceeded_def intro!: fuel_free_rbind read_tlv_fuel_free)
qed

lemma leaf_decode_value_fuel_free:
  assumes "\<not> depth_counts def" "desc_kind_ok def"
  shows "fuel_free (ber_decode_value_fuel (Suc (Suc n)) \<Gamma> def dest r)"
proof -
  have "fuel_free (handler_decode_value (ber_decode_fuel (Suc n) \<Gamma>) (ber_decode_value_fuel (Suc n) \<Gamma>) \<Gamma> def dest r)"
    by (rule handler_decode_value_fuel_free [OF _ refl assms(2)])
       (use assms leaf_decode_fuel_free [OF assms] in \<open>simp_all del: ber_decode_fuel.simps\<close>)
  then show ?thesis
    using assms(1) by (simp add: codec_decode_value_def enter_depth_def depth_exceeded_def del: ber_decode_fuel.simps)
qed

lemma natural_def_kind [simp]:
  "depth_counts (natural_def def) = depth_counts def" "desc_kind_ok (natural_def def) = desc_kind_ok def"
  "td_ber_handler (natural_def def) = td_ber_handler def"
  by (simp_all add: natural_def_def depth_counts_def desc_kind_ok_def)

lemma ber_decode_fuel_total:
  assumes "env_kind_ok \<Gamma>"
  shows "kMaxDecodeDepth + 3 \<le> n + d \<Longrightarrow> d \<le> kMaxDecodeDepth \<Longrightarrow>
    (\<forall>def dest r. br_depth r = d \<longrightarrow> desc_kind_ok def \<longrightarrow>
       fuel_free (ber_decode_fuel n \<Gamma> def dest r) \<and> fuel_free (ber_decode_value_fuel n \<Gamma> def dest r))"
proof (induction n arbitrary: d)
  case (Suc n)
  show ?case
  proof (intro allI impI)
    fix def dest and r :: ber_reader
    assume r: "br_depth r = d" and def: "desc_kind_ok def"
    obtain m where n: "n = Suc m" using Suc.prems by (cases n) auto
    show "fuel_free (ber_decode_fuel (Suc n) \<Gamma> def dest r) \<and> fuel_free (ber_decode_value_fuel (Suc n) \<Gamma> def dest r)"
    proof (cases "depth_counts def")
      case False
      with def show ?thesis
        unfolding n using leaf_decode_fuel_free leaf_decode_value_fuel_free by blast
    next
      case True
      let ?r = "r\<lparr>br_depth := br_depth r + 1\<rparr>"
      show ?thesis
      proof (cases "d = kMaxDecodeDepth")
        case True
        with r \<open>depth_counts def\<close> show ?thesis
          by (simp add: codec_decode_def codec_decode_value_def enter_depth_def depth_exceeded_def)
      next
        case False
        with Suc.prems have lim: "kMaxDecodeDepth + 3 \<le> n + Suc d" "Suc d \<le> kMaxDecodeDepth" by simp_all
        have tot: "total_at \<Gamma> (Suc d) (ber_decode_fuel n \<Gamma>) (ber_decode_value_fuel n \<Gamma>)"
          using Suc.IH [OF lim] assms by (simp add: total_at_def env_kind_ok_def)
        have h: "fuel_free (handler_decode (ber_decode_fuel n \<Gamma>) (ber_decode_value_fuel n \<Gamma>) \<Gamma> def' dest s)"
          if "br_depth s = Suc d" "desc_kind_ok def'" for s def'
          by (rule handler_decode_fuel_free) (use tot that ber_decode_fuel_consumes in auto)
        have hv: "fuel_free (handler_decode_value (ber_decode_fuel n \<Gamma>) (ber_decode_value_fuel n \<Gamma>) \<Gamma> def dest ?r)"
          by (rule handler_decode_value_fuel_free [where d = "Suc d"])
             (use tot r def Suc.IH [OF lim] ber_decode_fuel_consumes in auto)
        have sub: "br_depth (sub_reader (tlv_value x) s) = Suc d" if "read_tlv ?r = Inr (x, s)" for x s
          using read_tlv_frame(1) [OF that] r by (simp add: advances_def sub_reader_def)
        show ?thesis
          using True r def h hv sub False Suc.prems
          by (auto simp: codec_decode_def codec_decode_value_def enter_depth_def depth_exceeded_def Let_def
              intro!: fuel_free_rbind read_tlv_fuel_free)
      qed
    qed
  qed
qed simp

section \<open>Properties of decoding\<close>

text \<open>
  C19: in an environment whose kinds match its handlers, the bound of the model is never
  what stops \<open>BerCodec::decode\<close>, whatever the octets, the type of the schema and the
  destination: the recursion of the code ends of itself. The depth guard bounds it (a
  self-referential type included), and every element of a SEQUENCE OF takes at least one
  octet. (That no null pointer is met on the way needs a destination of the type's shape:
  \<open>ber_decode_type_safe\<close>.)
\<close>

theorem ber_decode_terminates:
  assumes "env_kind_ok \<Gamma>" "desc_kind_ok def" "br_depth r \<le> kMaxDecodeDepth"
  shows "ber_decode \<Gamma> def dest r \<noteq> Inl OutOfFuel \<and> ber_decode_value \<Gamma> def dest r \<noteq> Inl OutOfFuel"
  using ber_decode_fuel_total [OF assms(1), of "kMaxDecodeDepth + 3" "br_depth r"] assms(2,3)
  by (auto simp: ber_decode_def ber_decode_value_def fuel_free_def simp del: ber_decode_fuel.simps ber_decode_value_fuel.simps)

lemma sample_kind_ok: "env_kind_ok sample_env"
proof -
  have "desc_kind_ok (sample_env t)" for t
    by (rule sample_env_all) (simp_all add: desc_kind_ok_def depth_counts_def sample_env_def sample_defs)
  then show ?thesis by (simp add: env_kind_ok_def)
qed

lemma ber_decode_terminates_witness:
  "ber_decode sample_env (sample_env ''Msg'') (V_Sequence []) (new_reader [0x30, 0x80, 0xA0]) \<noteq> Inl OutOfFuel"
  by (rule ber_decode_terminates [THEN conjunct1]) (use sample_kind_ok in \<open>simp_all add: env_kind_ok_def new_reader_def\<close>)

text \<open>
  Nesting past the limit is an error, not a recursion: a SEQUENCE, CHOICE or
  SEQUENCE OF met 256 levels deep is rejected before any octet of it is read.
\<close>

theorem ber_decode_depth_limit:
  assumes "depth_counts def" "br_depth r = kMaxDecodeDepth"
  shows "ber_decode \<Gamma> def dest r = Inl (DecodeError (depth_message def) 0)
    \<and> ber_decode_value \<Gamma> def dest r = Inl (DecodeError (depth_message def) 0)"
proof -
  obtain n where n: "kMaxDecodeDepth + 3 = Suc n" by simp
  show ?thesis
    using assms unfolding ber_decode_def ber_decode_value_def n
    by (simp add: codec_decode_def codec_decode_value_def enter_depth_def depth_exceeded_def)
qed

lemma ber_decode_depth_limit_witness:
  "ber_decode sample_env (sample_env ''Ints'') (V_SeqOf []) (reader_at [] [0x30, 0] 256)
     = Inl (DecodeError (depth_message (sample_env ''Ints'')) 0)"
  by (rule ber_decode_depth_limit [THEN conjunct1])
     (simp_all add: depth_counts_def sample_env_def sample_defs reader_at_def kMaxDecodeDepth_def)

text \<open>
  A successful decode never leaves its span: it keeps the data and the depth of
  the reader, never moves the cursor back, and unless the reader was at the end it
  has consumed at least one octet and stopped inside the span.
\<close>

theorem ber_decode_cursor:
  assumes "ber_decode \<Gamma> def dest r = Inr (v, r')"
  shows "br_data r' = br_data r \<and> br_depth r' = br_depth r \<and> br_pos r \<le> br_pos r' \<and>
    (\<not> at_end r \<longrightarrow> br_pos r < br_pos r' \<and> br_pos r' \<le> length (br_data r))"
  using consumesD [OF ber_decode_fuel_consumes assms [unfolded ber_decode_def]]
  by (auto simp: consumed_def)

lemma ber_decode_cursor_witness:
  "br_pos (reader_at [] [2, 1, 5, 9] 0) < 3 \<and> (3 :: nat) \<le> length (br_data (reader_at [] [2, 1, 5, 9] 0))"
proof -
  have "ber_decode sample_env asn_DEF_Integer (V_Integer 0) (reader_at [] [2, 1, 5, 9] 0)
      = Inr (V_Integer 5, (reader_at [] [2, 1, 5, 9] 0)\<lparr>br_pos := 3\<rparr>)"
    by code_simp
  from ber_decode_cursor [OF this] show ?thesis by (simp add: reader_at_def at_end_def)
qed

section \<open>The reordering of a SET\<close>

text \<open>
  The contents of a SET as the TLVs that \<open>read_tlv\<close> finds in them one after the other, each
  with the tag before it.
\<close>

inductive tlv_stream :: "ber_reader \<Rightarrow> (tag \<times> byte list) list \<Rightarrow> bool" where
  stream_end: "at_end r \<Longrightarrow> tlv_stream r []"
| stream_tlv: "\<not> at_end r \<Longrightarrow> read_tlv r = Inr (x, r') \<Longrightarrow> tlv_stream r' ts \<Longrightarrow>
    tlv_stream r ((peek_tag r, take (br_pos r' - br_pos r) (reader_rest r)) # ts)"

lemma reader_rest_eq: "reader_rest r = drop (br_pos r) (br_data r)"
  by (simp add: reader_rest_def reader_peek_def remaining_eq)

lemma tlv_stream_contents:
  "tlv_stream r ts \<Longrightarrow> concat (map snd ts) = reader_rest r \<and> (\<forall>(t, raw) \<in> set ts. raw \<noteq> [])"
proof (induction rule: tlv_stream.induct)
  case (stream_tlv r x r' ts)
  have "advances r r'" by (rule read_tlv_frame(1) [OF stream_tlv(2)])
  then show ?case
    using stream_tlv(4) drop_slice [of "br_pos r" "br_pos r'" "br_data r"] by (auto simp: reader_rest_eq advances_def)
qed (simp add: reader_rest_eq at_end_def)

text \<open>The slots, each with what it holds.\<close>

type_synonym slot = "(tag \<times> byte list) option"

fun slot_octets :: "slot \<Rightarrow> byte list" where
  "slot_octets None = []"
| "slot_octets (Some (t, raw)) = raw"

definition slots_ok :: "type_env \<Rightarrow> member list \<Rightarrow> slot list \<Rightarrow> bool" where
  "slots_ok \<Gamma> mbrs os \<longleftrightarrow> length os = length mbrs \<and>
     (\<forall>i < length os. \<forall>t raw. os ! i = Some (t, raw) \<longrightarrow> raw \<noteq> [] \<and> set_member_matches \<Gamma> (mbrs ! i) t)"

definition homeless :: "type_env \<Rightarrow> member list \<Rightarrow> slot list \<Rightarrow> tag \<Rightarrow> bool" where
  "homeless \<Gamma> mbrs os t \<longleftrightarrow> (\<forall>i < length os. set_member_matches \<Gamma> (mbrs ! i) t \<longrightarrow> os ! i \<noteq> None)"

lemma place_tlv_slots:
  "slots_ok \<Gamma> mbrs os \<Longrightarrow> place_tlv \<Gamma> mbrs (map slot_octets os) t raw = (slots', placed) \<Longrightarrow>
   (if placed then \<exists>i < length os. os ! i = None \<and> set_member_matches \<Gamma> (mbrs ! i) t \<and>
        slots' = map slot_octets (os[i := Some (t, raw)])
    else slots' = map slot_octets os \<and> homeless \<Gamma> mbrs os t)"
proof (induction mbrs os arbitrary: slots' placed rule: list_induct2')
  case (4 mbr mbrs o1 os)
  have len: "length os = length mbrs"
    and row: "\<And>i t raw. i < Suc (length os) \<Longrightarrow> (o1 # os) ! i = Some (t, raw) \<Longrightarrow>
      raw \<noteq> [] \<and> set_member_matches \<Gamma> ((mbr # mbrs) ! i) t"
    using 4(2) by (simp_all add: slots_ok_def)
  have ok: "slots_ok \<Gamma> mbrs os" "o1 \<noteq> None \<longleftrightarrow> slot_octets o1 \<noteq> []"
    using len row [of "Suc _"] row [of 0] by (simp_all add: slots_ok_def, cases o1) auto
  show ?case
  proof (cases "slot_octets o1 \<noteq> [] \<or> \<not> set_member_matches \<Gamma> mbr t")
    case True
    obtain s1 where s1: "place_tlv \<Gamma> mbrs (map slot_octets os) t raw = (s1, placed)" "slots' = slot_octets o1 # s1"
      using 4(3) True by (auto split: prod.splits)
    show ?thesis
    proof (cases placed)
      case p: True
      then obtain i where "i < length os" "os ! i = None" "set_member_matches \<Gamma> (mbrs ! i) t"
        "s1 = map slot_octets (os[i := Some (t, raw)])"
        using 4(1) [OF ok(1) s1(1)] by auto
      then show ?thesis using p s1(2) by (intro if_P [THEN iffD2] exI [of _ "Suc i"]) auto
    next
      case np: False
      then show ?thesis
        using 4(1) [OF ok(1) s1(1)] s1(2) True ok(2) by (auto simp: homeless_def nth_Cons split: nat.splits)
    qed
  next
    case False
    then have "o1 = None" "placed" "slots' = raw # map slot_octets os" using 4(3) ok(2) by (cases o1; auto)+
    then show ?thesis using False by (simp add: exI [of _ 0])
  qed
qed (auto simp: slots_ok_def homeless_def)

lemma slots_update:
  "slots_ok \<Gamma> mbrs os \<Longrightarrow> i < length os \<Longrightarrow> raw \<noteq> [] \<Longrightarrow> set_member_matches \<Gamma> (mbrs ! i) t \<Longrightarrow>
     slots_ok \<Gamma> mbrs (os[i := Some (t, raw)])"
  by (auto simp: slots_ok_def nth_list_update)

lemma homeless_update: "homeless \<Gamma> mbrs os t \<Longrightarrow> homeless \<Gamma> mbrs (os[i := Some x]) t"
  unfolding homeless_def by (metis length_list_update nth_list_update_eq nth_list_update_neq option.distinct(1))

lemma filled_update:
  "i < length os \<Longrightarrow> os ! i = None \<Longrightarrow>
     mset (List.map_filter (\<lambda>x. x) (os[i := Some x])) = add_mset x (mset (List.map_filter (\<lambda>x. x) os))"
proof (induction os arbitrary: i)
  case (Cons a os)
  then show ?case by (cases i; cases a) (auto simp: List.map_filter_simps)
qed simp

lemma set_scan_slots:
  "set_scan \<Gamma> mbrs slots unmatched scan = Inr (slots', unmatched') \<Longrightarrow> slots = map slot_octets os \<Longrightarrow>
   unmatched = map snd us \<Longrightarrow> slots_ok \<Gamma> mbrs os \<Longrightarrow> \<forall>(t, raw) \<in> set us. homeless \<Gamma> mbrs os t \<Longrightarrow>
   \<exists>tlvs os' us'. tlv_stream scan tlvs \<and> slots' = map slot_octets os' \<and> unmatched' = map snd us' \<and>
     slots_ok \<Gamma> mbrs os' \<and> (\<forall>(t, raw) \<in> set us'. homeless \<Gamma> mbrs os' t) \<and>
     mset (List.map_filter (\<lambda>x. x) os' @ us') = mset (List.map_filter (\<lambda>x. x) os @ us @ tlvs)"
proof (induction \<Gamma> mbrs slots unmatched scan arbitrary: os us rule: set_scan.induct)
  case (1 \<Gamma> mbrs slots unmatched scan)
  show ?case
  proof (cases "at_end scan")
    case True
    with 1(2-) show ?thesis
      by (intro exI [of _ "[]"] exI [of _ os] exI [of _ us]) (simp add: set_scan.simps stream_end)
  next
    case False
    with 1(2) obtain x scan' where r: "read_tlv scan = Inr (x, scan')"
      by (auto simp: set_scan.simps [of \<Gamma> mbrs slots unmatched] rbind_eq_Inr)
    let ?raw = "take (br_pos scan' - br_pos scan) (reader_peek (remaining scan) scan)"
    obtain slots1 placed where p: "place_tlv \<Gamma> mbrs slots (peek_tag scan) ?raw = (slots1, placed)"
      by (rule prod.exhaust)
    have s: "set_scan \<Gamma> mbrs slots1 (if placed then unmatched else unmatched @ [?raw]) scan' = Inr (slots', unmatched')"
      using 1(2) False r p by (simp add: set_scan.simps [of \<Gamma> mbrs slots unmatched])
    note IH = 1(1) [OF False r refl refl p [symmetric] refl s]
    have raw: "?raw = take (br_pos scan' - br_pos scan) (reader_rest scan)" by (simp add: reader_rest_def)
    have ne: "?raw \<noteq> []"
      using read_tlv_frame(1) [OF r] by (auto simp: raw reader_rest_eq advances_def)
    let ?x = "(peek_tag scan, ?raw)"
    note pp = place_tlv_slots [OF 1(5) p [unfolded 1(3)]]
    obtain os1 us1 where os1: "slots1 = map slot_octets os1" "(if placed then unmatched else unmatched @ [?raw]) = map snd us1"
      "slots_ok \<Gamma> mbrs os1" "\<forall>(t, raw) \<in> set us1. homeless \<Gamma> mbrs os1 t"
      "mset (List.map_filter (\<lambda>x. x) os1 @ us1) = add_mset ?x (mset (List.map_filter (\<lambda>x. x) os @ us))"
    proof (cases placed)
      case True
      then obtain i where i: "i < length os" "os ! i = None" "set_member_matches \<Gamma> (mbrs ! i) (peek_tag scan)"
        "slots1 = map slot_octets (os[i := Some ?x])" using pp by auto
      show thesis
        by (rule that [of "os[i := Some ?x]" us])
           (use i True 1(4,6) slots_update [OF 1(5) i(1) ne i(3)] filled_update [OF i(1,2)] homeless_update in auto)
    next
      case False
      show thesis
        by (rule that [of os "us @ [?x]"]) (use pp False 1(4-6) in auto)
    qed
    obtain tlvs os' us' where t: "tlv_stream scan' tlvs" "slots' = map slot_octets os'" "unmatched' = map snd us'"
      "slots_ok \<Gamma> mbrs os'" "\<forall>(t, raw) \<in> set us'. homeless \<Gamma> mbrs os' t"
      "mset (List.map_filter (\<lambda>x. x) os' @ us') = mset (List.map_filter (\<lambda>x. x) os1 @ us1 @ tlvs)"
      using IH [OF os1(1-4)] by blast
    have "tlv_stream scan (?x # tlvs)" using stream_tlv [OF False r t(1)] by (simp only: raw)
    moreover have "mset (List.map_filter (\<lambda>x. x) os' @ us') = mset (List.map_filter (\<lambda>x. x) os @ us @ ?x # tlvs)"
      using os1(5) unfolding t(6) by simp
    ultimately show ?thesis using t(2-5) by blast
  qed
qed

text \<open>
  C23: the components of a SET are only permuted, TLV by TLV, into the order of the
  table. The octets handed to the member walk are the TLVs that \<open>read_tlv\<close> finds in the
  contents, each exactly once and whole: first those of the rows, row by row, each of them
  with a tag that its row accepts, then the others, for none of which a row of its tag was
  left empty. Nothing is lost, duplicated or split, in whatever order a peer sent them and
  whatever unknown extensions it added.
\<close>

theorem set_in_table_order_permutes:
  assumes "set_in_table_order \<Gamma> spec scan = Inr out"
  shows "\<exists>tlvs rows others. tlv_stream scan tlvs \<and> out = concat (map slot_octets rows) @ concat (map snd others) \<and>
    mset (List.map_filter (\<lambda>x. x) rows @ others) = mset tlvs \<and> slots_ok \<Gamma> (ss_members spec) rows \<and>
    (\<forall>(t, raw) \<in> set others. homeless \<Gamma> (ss_members spec) rows t)"
proof -
  let ?n = "length (ss_members spec)"
  obtain slots unmatched where
    s: "set_scan \<Gamma> (ss_members spec) (replicate ?n []) [] scan = Inr (slots, unmatched)"
    and o: "out = concat slots @ concat unmatched"
    using assms by (auto simp: set_in_table_order_def rbind_eq_Inr)
  have none: "List.map_filter (\<lambda>x. x) (replicate n None) = []" for n by (induction n) (simp_all add: List.map_filter_simps)
  from set_scan_slots [OF s, of "replicate ?n None" "[]"] obtain tlvs rows others where
    "tlv_stream scan tlvs" "slots = map slot_octets rows" "unmatched = map snd others" "slots_ok \<Gamma> (ss_members spec) rows"
    "\<forall>(t, raw) \<in> set others. homeless \<Gamma> (ss_members spec) rows t" "mset (List.map_filter (\<lambda>x. x) rows @ others) = mset tlvs"
    by (auto simp: slots_ok_def none)
  then show ?thesis using o by blast
qed

lemma set_in_table_order_permutes_witness:
  "\<exists>tlvs rows others. tlv_stream (new_reader [0x80, 1, 7, 1, 1, 0xFF]) tlvs \<and>
    [1, 1, 0xFF, 0x80, 1, 7] = concat (map slot_octets rows) @ concat (map snd others) \<and>
    mset (List.map_filter (\<lambda>x. x) rows @ others) = mset tlvs \<and>
    slots_ok sample_env (ss_members (the (td_sequence_spec (sample_env ''Bag'')))) rows \<and>
    (\<forall>(t, raw) \<in> set others. homeless sample_env (ss_members (the (td_sequence_spec (sample_env ''Bag'')))) rows t)"
proof (rule set_in_table_order_permutes)
  show "set_in_table_order sample_env (the (td_sequence_spec (sample_env ''Bag'')))
      (new_reader [0x80, 1, 7, 1, 1, 0xFF]) = Inr [1, 1, 0xFF, 0x80, 1, 7]"
    by code_simp
qed

end
