(* ===== verification/Per_Safety.thy ===== *)
theory Per_Safety
  imports Per_Codec Ber_Decoder
begin

text \<open>
  What the PER decoder guarantees on any input: it ends, it fails only with errors of
  the code, it never leaves its buffer, it restores the nesting depth, and an object
  of a type's shape stays one. One judgement carries all of it: \<open>steps ovf P d r\<close> says that
  a decoding step that starts at \<open>d\<close> with the outcome \<open>r\<close> is such a step and that its
  result satisfies \<open>P\<close>. The flag \<open>ovf\<close> allows the one other outcome that there is: the
  index of an extension ENUMERATED item or alternative that overflows to a negative one,
  where a type has an extension marker.
\<close>

section \<open>The judgement\<close>

definition dec_in :: "per_dec \<Rightarrow> bool" where
  "dec_in d \<longleftrightarrow> dec_ok d \<and> per_dec_bit_pos d \<le> 8 * length (pd_buf d)"

definition later :: "per_dec \<Rightarrow> per_dec \<Rightarrow> bool" where
  "later d d' \<longleftrightarrow> dec_in d' \<and> pd_buf d' = pd_buf d \<and> pd_depth d' = pd_depth d
     \<and> per_dec_bit_pos d \<le> per_dec_bit_pos d'"

definition overflow_of :: "bool \<Rightarrow> decode_error \<Rightarrow> bool" where
  "overflow_of ovf e \<longleftrightarrow> ovf \<and> (\<exists>i < 0. e = OutOfBounds i)"

definition steps :: "bool \<Rightarrow> ('a \<Rightarrow> bool) \<Rightarrow> per_dec \<Rightarrow> ('a \<times> per_dec) result \<Rightarrow> bool" where
  "steps ovf P d r \<longleftrightarrow> (case r of Inl e \<Rightarrow> program_error e \<or> overflow_of ovf e | Inr (x, d') \<Rightarrow> P x \<and> later d d')"

lemma later_refl [simp]: "dec_in d \<Longrightarrow> later d d"
  by (simp add: later_def)

lemma later_trans: "later a b \<Longrightarrow> later b c \<Longrightarrow> later a c"
  by (auto simp: later_def)

lemma steps_Inl [simp]: "steps ovf P d (Inl (DecodeError s n))"
  by (simp add: steps_def)

lemma steps_overflow: "ovf \<Longrightarrow> i < 0 \<Longrightarrow> steps ovf P d (Inl (OutOfBounds i))"
  by (simp add: steps_def overflow_of_def)

lemma steps_Inr [simp]: "steps ovf P d (Inr (x, d')) \<longleftrightarrow> P x \<and> later d d'"
  by (simp add: steps_def)

lemma steps_bind:
  assumes "steps ovf P d r"
    and "\<And>x d'. P x \<Longrightarrow> later d d' \<Longrightarrow> dec_in d' \<Longrightarrow> pd_depth d' = pd_depth d \<Longrightarrow> steps ovf Q d' (h (x, d'))"
  shows "steps ovf Q d (rbind r h)"
proof (cases r)
  case (Inr p)
  obtain x d' where p: "p = (x, d')" by (cases p)
  with assms Inr have "steps ovf Q d' (h (x, d'))" "later d d'" by (simp_all add: later_def)
  then show ?thesis using Inr p
    by (auto simp: steps_def split: sum.splits intro: later_trans)
qed (use assms(1) in \<open>auto simp: steps_def\<close>)

lemma steps_mono: "steps ovf P d r \<Longrightarrow> (\<And>x. P x \<Longrightarrow> Q x) \<Longrightarrow> steps ovf Q d r"
  by (auto simp: steps_def split: sum.splits)

lemma steps_any: "steps ovf P d r \<Longrightarrow> steps ovf (\<lambda>_. True) d r"
  by (rule steps_mono) simp_all

section \<open>Bits, lengths and numbers\<close>

lemma steps_get_bits: "dec_in d \<Longrightarrow> steps ovf (\<lambda>_. True) d (get_bits n d)"
  by (auto simp: get_bits_cases dec_in_def per_eof_def later_def dec_bits_def)

lemma get_bits_pos: "dec_in d \<Longrightarrow> get_bits n d = Inr (v, d') \<Longrightarrow> per_dec_bit_pos d' = per_dec_bit_pos d + n"
  by (auto simp: get_bits_cases dec_in_def split: if_splits)

lemma steps_get_length: "dec_in d \<Longrightarrow> steps ovf (\<lambda>_. True) d (get_length d)"
  unfolding get_length_def
  by (rule steps_bind [OF steps_get_bits]) (auto intro!: steps_bind [OF steps_get_bits])

lemma steps_get_nslength: "dec_in d \<Longrightarrow> steps ovf (\<lambda>_. True) d (get_nslength d)"
  unfolding get_nslength_def
  by (rule steps_bind [OF steps_get_bits])
     (auto intro!: steps_bind [OF steps_get_bits] steps_get_length)

lemma steps_get_be_octets: "dec_in d \<Longrightarrow> steps ovf (\<lambda>_. True) d (get_be_octets lim (DecodeError s e) n v d)"
  by (induction n arbitrary: v d)
     (auto intro!: steps_bind [OF steps_get_bits])

lemma steps_get_nsnn: "dec_in d \<Longrightarrow> steps ovf (\<lambda>_. True) d (get_nsnn d)"
  unfolding get_nsnn_def
  by (rule steps_bind [OF steps_get_bits])
     (auto intro!: steps_bind [OF steps_get_bits] steps_bind [OF steps_get_length] steps_bind [OF steps_get_be_octets]
)

lemma steps_get_signed_octets: "dec_in d \<Longrightarrow> steps ovf (\<lambda>_. True) d (get_signed_octets n first v d)"
  by (induction n arbitrary: first v d)
     (auto simp: Let_def intro!: steps_bind [OF steps_get_bits])

lemma steps_unconstrained: "dec_in d \<Longrightarrow> steps ovf (\<lambda>_. True) d (decode_unconstrained_int d)"
  unfolding decode_unconstrained_int_def
  by (rule steps_bind [OF steps_get_bits])
     (auto simp: Let_def intro!: steps_get_signed_octets)

lemma steps_semi_constrained: "dec_in d \<Longrightarrow> steps ovf (\<lambda>_. True) d (decode_semi_constrained_int d)"
  unfolding decode_semi_constrained_int_def
  by (rule steps_bind [OF steps_get_bits]) (auto intro!: steps_get_be_octets)

text \<open>
  Readers of items: on a stream at nesting depth \<open>level\<close> one call is a step that keeps
  \<open>inv\<close>. The length loops around it are then steps too; in particular the rounds of
  the fragment loop never run out, since every round reads an octet.
\<close>

locale safe_items =
  fixes ovf :: bool
    and items :: "'s read_items"
    and inv :: "'s \<Rightarrow> bool"
    and level :: nat
  assumes item_step: "dec_in d \<Longrightarrow> pd_depth d = level \<Longrightarrow> inv st \<Longrightarrow> steps ovf inv d (items m st d)"
begin

lemma fragments_step:
  assumes "dec_in d" "pd_depth d = level" "inv st" "8 * length (pd_buf d) < per_dec_bit_pos d + 8 * fuel"
  shows "steps ovf (\<lambda>(_, st). inv st) d (get_fragments fuel items tot st d)"
  using assms
proof (induction fuel arbitrary: tot st d)
  case 0
  then show ?case by (simp add: dec_in_def)
next
  case (Suc fuel)
  show ?case
  proof (cases "get_bits 8 d")
    case (Inl e)
    then show ?thesis using steps_get_bits [OF Suc.prems(1), of ovf 8] by (simp add: steps_def)
  next
    case (Inr p)
    obtain first d1 where p: "p = (first, d1)" by (cases p)
    have l: "later d d1" and pos: "per_dec_bit_pos d1 = per_dec_bit_pos d + 8"
      using steps_get_bits [OF Suc.prems(1), of ovf 8] get_bits_pos [OF Suc.prems(1)] Inr p by auto
    have rest: "8 * length (pd_buf d2) < per_dec_bit_pos d2 + 8 * fuel" if "later d1 d2" for d2
      using that l pos Suc.prems(4) by (auto simp: later_def)
    have keep: "pd_depth d2 = level" "dec_in d2" if "later d1 d2" for d2
      using that l Suc.prems(2) by (simp_all add: later_def)
    have in1: "dec_in d1" "pd_depth d1 = level" using l Suc.prems(2) by (simp_all add: later_def)
    have item: "steps ovf inv d2 (items m st d2)" if "later d1 d2" for d2 m
      using keep [OF that] Suc.prems(3) by (intro item_step)
    let ?k = "unat (first AND 0x3F)"
    have frag: "steps ovf (\<lambda>(_, st). inv st) d1 (rbind (items (?k * kFragmentUnit) st d1)
        (\<lambda>(st, d). get_fragments fuel items (tot + ?k * kFragmentUnit) st d))"
      by (rule steps_bind [OF item]) (auto intro!: Suc.IH rest keep later_refl in1)
    have last: "steps ovf (\<lambda>(_, st). inv st) d1 (rbind (if first AND 0x80 \<noteq> 0 then
                  rbind (get_bits 8 d1) (\<lambda>(second, d). Inr (unat (push_bit 8 (first AND 0x3F) OR second), d))
                else Inr (unat first, d1)) (\<lambda>(n, d). rbind (items n st d) (\<lambda>(st, d). Inr ((tot + n, st), d))))"
      by (rule steps_bind [where P = "\<lambda>_. True"])
         (auto intro!: steps_bind [OF steps_get_bits [OF in1(1)]] steps_bind [OF item] simp: in1)
    have "steps ovf (\<lambda>(_, st). inv st) d1 (if first AND 0xC0 = 0xC0 then
         let k = unat (first AND 0x3F) in
         if k < 1 \<or> k > 4 then Inl (DecodeError ''PER: fragment multiplier outside 1..4'' 0)
         else rbind (items (k * kFragmentUnit) st d1) (\<lambda>(st, d).
                get_fragments fuel items (tot + k * kFragmentUnit) st d)
       else
         rbind (if first AND 0x80 \<noteq> 0 then
                  rbind (get_bits 8 d1) (\<lambda>(second, d). Inr (unat (push_bit 8 (first AND 0x3F) OR second), d))
                else Inr (unat first, d1)) (\<lambda>(n, d).
         rbind (items n st d) (\<lambda>(st, d). Inr ((tot + n, st), d))))"
      using frag last by (simp add: Let_def)
    with l Inr p show ?thesis
      by (auto simp: steps_def split: sum.splits intro: later_trans)
  qed
qed

lemma length_step:
  "dec_in d \<Longrightarrow> pd_depth d = level \<Longrightarrow> inv st \<Longrightarrow> steps ovf (\<lambda>(_, st). inv st) d (get_length_and_items items st d)"
  unfolding get_length_and_items_def by (rule fragments_step) simp_all

lemma size_step:
  assumes "dec_in d" "pd_depth d = level" "inv st"
  shows "steps ovf (\<lambda>(_, st). inv st) d (decode_size_and_items pc items st d)"
proof (cases "size_count_is_constrained pc")
  case True
  then have nn: "\<not> \<not> size_count_is_constrained pc" by simp
  show ?thesis
    unfolding decode_size_and_items_def if_not_P [OF nn]
    by (rule steps_bind [where P = "\<lambda>_. True"])
       (use assms in \<open>auto intro!: steps_bind [OF steps_get_bits] steps_bind [OF item_step]\<close>)
qed (simp add: decode_size_and_items_def length_step assms)

lemma ext_size_step:
  assumes "dec_in d" "pd_depth d = level" "inv st"
  shows "steps ovf (\<lambda>(_, st). inv st) d (decode_ext_size_and_items pc items st d)"
  unfolding decode_ext_size_and_items_def
  by (auto intro!: steps_bind [OF steps_get_bits] length_step size_step assms simp: assms)

end

lemma steps_read_octets: "dec_in d \<Longrightarrow> steps ovf (\<lambda>_. True) d (read_octets m out d)"
  by (induction m arbitrary: out d) (auto intro!: steps_bind [OF steps_get_bits])

lemma steps_read_bit_range: "dec_in d \<Longrightarrow> steps ovf (\<lambda>_. True) d (read_bit_range m st d)"
proof (induction m arbitrary: st d)
  case (Suc m)
  then show ?case by (simp del: split_paired_all) (rule steps_bind [OF steps_get_bits], simp_all)
qed simp

lemma steps_read_char: "dec_in d \<Longrightarrow> steps ovf (\<lambda>_. True) d (read_char pc bits bpc out d)"
  unfolding read_char_def by (auto intro!: steps_bind [OF steps_get_bits] steps_read_octets)

lemma steps_read_chars: "dec_in d \<Longrightarrow> steps ovf (\<lambda>_. True) d (read_chars pc bits bpc m out d)"
  by (induction m arbitrary: out d) (auto intro!: steps_bind [OF steps_read_char])

interpretation octet_reader: safe_items ovf read_octets "\<lambda>_. True" level for ovf level
  by unfold_locales (rule steps_read_octets)

interpretation bit_reader: safe_items ovf read_bit_range "\<lambda>_. True" level for ovf level
  by unfold_locales (rule steps_read_bit_range)

interpretation char_reader: safe_items ovf "read_chars pc bits bpc" "\<lambda>_. True" level for ovf pc bits bpc level
  by unfold_locales (rule steps_read_chars)

lemma steps_get_octets: "dec_in d \<Longrightarrow> steps ovf (\<lambda>_. True) d (get_octets d)"
  unfolding get_octets_def by (rule steps_bind [OF octet_reader.length_step]) auto

lemma steps_skip:
  assumes "dec_in d"
  shows "skip_open_type d = Inr d' \<Longrightarrow> later d d'" "skip_open_type d = Inl e \<Longrightarrow> program_error e"
  using steps_get_octets [OF assms, of False]
  by (auto simp: overflow_of_def skip_open_type_def steps_def later_def dec_in_def dec_ok_def per_dec_bit_pos_def split: sum.splits)

section \<open>The primitive types\<close>

lemma steps_ext_bit:
  assumes "dec_in d" "\<And>d. dec_in d \<Longrightarrow> steps ovf P d (f d)" "\<And>d. dec_in d \<Longrightarrow> steps ovf P d (g d)"
  shows "steps ovf P d (get_ext_bit pc f g d)"
  unfolding get_ext_bit_def using assms by (auto intro!: steps_bind [OF steps_get_bits])

lemma steps_integer: "dec_in d \<Longrightarrow> steps ovf (\<lambda>_. True) d (per_integer_decode pc d)"
  unfolding per_integer_decode_def
  by (auto simp: storage_error_def intro!: steps_ext_bit steps_unconstrained steps_bind [OF steps_get_bits]
      steps_bind [OF steps_semi_constrained])

lemma steps_uinteger: "dec_in d \<Longrightarrow> steps ovf (\<lambda>_. True) d (per_uinteger_decode pc d)"
  unfolding per_uinteger_decode_def
  by (auto simp: storage_error_def intro!: steps_ext_bit steps_unconstrained steps_bind [OF steps_get_bits]
      steps_bind [OF steps_semi_constrained])

lemma steps_bit_string: "dec_in d \<Longrightarrow> steps ovf (\<lambda>_. True) d (per_bit_string_decode pc d)"
  unfolding per_bit_string_decode_def by (rule steps_bind [OF bit_reader.ext_size_step]) auto

lemma steps_octet_string: "dec_in d \<Longrightarrow> steps ovf (\<lambda>_. True) d (per_octet_string_decode pc d)"
  unfolding per_octet_string_decode_def by (rule steps_bind [OF octet_reader.ext_size_step]) auto

lemma steps_string_root: "dec_in d \<Longrightarrow> steps ovf (\<lambda>_. True) d (string_decode_root tag pc d)"
  unfolding string_decode_root_def
  by (auto split: prod.splits intro!: steps_bind [OF char_reader.size_step])

lemma steps_string: "dec_in d \<Longrightarrow> steps ovf (\<lambda>_. True) d (per_string_decode tag pc d)"
  unfolding per_string_decode_def by (auto intro!: steps_bind [OF steps_get_bits] steps_string_root)

lemma steps_enum: "dec_in d \<Longrightarrow> (es_extensible spec \<Longrightarrow> ovf) \<Longrightarrow> steps ovf (\<lambda>_. True) d (per_enum_decode spec d)"
  unfolding per_enum_decode_def Let_def
  by (cases "es_extensible spec"; simp only: if_True if_False rbind.simps prod.case)
     (auto intro!: steps_bind [OF steps_get_bits] steps_bind [OF steps_get_nsnn] steps_overflow simp: Let_def)

text \<open>The conversion of the contents octets fails only with errors of the code.\<close>

lemma steps_ber_content:
  assumes "dec_in d" "\<And>r. clean (dec r)"
  shows "steps ovf (\<lambda>_. True) d (decode_ber_content t dec d)"
proof -
  have dec: "steps ovf (\<lambda>_. True) d2 (rbind (dec r) (\<lambda>(v, _). Inr (v, d2)))" if "dec_in d2" for d2 r
    using that clean_Inl [OF assms(2) [of r]] by (cases "dec r") (auto simp: steps_def)
  show ?thesis
    unfolding decode_ber_content_def per_read_bytes_def Let_def
    by (rule steps_bind [OF steps_get_length [OF assms(1)]])
       (auto intro!: steps_bind [OF steps_read_octets] dec)
qed

lemma ber_traits_clean: "(\<And>v. clean (conv v)) \<Longrightarrow> clean (ber_traits_decode t what conv r)"
  unfolding ber_traits_decode_def by (auto intro!: clean_rbind read_tlv_clean)

lemma steps_oid: "dec_in d \<Longrightarrow> steps ovf (\<lambda>_. True) d (per_oid_decode d)"
  "dec_in d \<Longrightarrow> steps ovf (\<lambda>_. True) d (per_rel_oid_decode d)"
  unfolding per_oid_decode_def per_rel_oid_decode_def
  by (intro steps_ber_content ber_traits_clean contents_clean; assumption)+

section \<open>Objects of a type\<close>

text \<open>
  \<open>shaped \<Gamma> def v\<close>: \<open>v\<close> is an object of the C++ type behind \<open>def\<close>, whatever its
  contents: the storage class fits the handler, a SEQUENCE has an entry for every row
  and null pointers only where the row has optional storage, a CHOICE holds an object
  of the alternative it names.
\<close>

definition leaf_shape :: "handler \<Rightarrow> asn1_value \<Rightarrow> bool" where
  "leaf_shape h v \<longleftrightarrow>
     (case h of
        H_Null \<Rightarrow> v = V_Null
      | H_Any \<Rightarrow> (\<exists>x. v = V_OctetString x)
      | H_Boolean \<Rightarrow> (\<exists>x. v = V_Boolean x)
      | H_Integer \<Rightarrow> (\<exists>x. v = V_Integer x)
      | H_UInteger \<Rightarrow> (\<exists>x. v = V_UInteger x)
      | H_BitString \<Rightarrow> (\<exists>x. v = V_BitString x)
      | H_OctetString \<Rightarrow> (\<exists>x. v = V_OctetString x)
      | H_Oid \<Rightarrow> (\<exists>x. v = V_Oid x)
      | H_RelOid \<Rightarrow> (\<exists>x. v = V_RelativeOid x)
      | H_String \<Rightarrow> (\<exists>x. v = V_String x)
      | H_Enumerated \<Rightarrow> (\<exists>x. v = V_Enum x)
      | _ \<Rightarrow> False)"

lemma leaf_shape_constructed [simp]:
  "\<not> leaf_shape H_SeqOf v" "\<not> leaf_shape H_Sequence v" "\<not> leaf_shape H_Choice v"
  by (simp_all add: leaf_shape_def)

definition nullable :: "sequence_spec \<Rightarrow> nat \<Rightarrow> bool" where
  "nullable spec i \<longleftrightarrow>
     (let mbr = ss_members spec ! i in
      m_type mbr = None \<or> (m_has_ops mbr \<and> (m_optional mbr \<or> root_end spec \<le> i)))"

inductive shaped :: "type_env \<Rightarrow> type_desc \<Rightarrow> asn1_value \<Rightarrow> bool" for \<Gamma> where
  shaped_leaf: "td_per_handler def = Some h \<Longrightarrow> leaf_shape h v \<Longrightarrow> shaped \<Gamma> def v"
| shaped_unsupported: "td_per_handler def = None \<Longrightarrow> shaped \<Gamma> def v"
| shaped_seqof: "td_per_handler def = Some H_SeqOf \<Longrightarrow> td_seq_of_spec def = Some spec \<Longrightarrow>
    (\<And>v. v \<in> set vs \<Longrightarrow> shaped \<Gamma> (\<Gamma> (sos_element spec)) v) \<Longrightarrow> shaped \<Gamma> def (V_SeqOf vs)"
| shaped_sequence: "td_per_handler def = Some H_Sequence \<Longrightarrow> td_sequence_spec def = Some spec \<Longrightarrow>
    length ms = length (ss_members spec) \<Longrightarrow>
    (\<And>i. i < length ms \<Longrightarrow> ms ! i = None \<Longrightarrow> nullable spec i) \<Longrightarrow>
    (\<And>i v. i < length ms \<Longrightarrow> ms ! i = Some v \<Longrightarrow>
       \<exists>t. m_type (ss_members spec ! i) = Some t \<and> shaped \<Gamma> (\<Gamma> t) v) \<Longrightarrow>
    shaped \<Gamma> def (V_Sequence ms)"
| shaped_empty_choice: "td_per_handler def = Some H_Choice \<Longrightarrow> shaped \<Gamma> def (V_Choice 0 None)"
| shaped_choice: "td_per_handler def = Some H_Choice \<Longrightarrow> td_choice_spec def = Some spec \<Longrightarrow>
    1 \<le> p \<Longrightarrow> p \<le> int (length (cs_alternatives spec)) \<Longrightarrow>
    m_type (cs_alternatives spec ! nat (p - 1)) = Some t \<Longrightarrow> shaped \<Gamma> (\<Gamma> t) v \<Longrightarrow>
    shaped \<Gamma> def (V_Choice p (Some v))"

definition rows_ok :: "type_env \<Rightarrow> sequence_spec \<Rightarrow> asn1_value option list \<Rightarrow> bool" where
  "rows_ok \<Gamma> spec ms \<longleftrightarrow> length ms = length (ss_members spec) \<and>
     (\<forall>i < length ms. case ms ! i of None \<Rightarrow> nullable spec i
        | Some v \<Rightarrow> (\<exists>t. m_type (ss_members spec ! i) = Some t \<and> shaped \<Gamma> (\<Gamma> t) v))"

lemma shaped_sequence_iff:
  assumes "td_per_handler def = Some H_Sequence" "td_sequence_spec def = Some spec"
  shows "shaped \<Gamma> def v \<longleftrightarrow> (\<exists>ms. v = V_Sequence ms \<and> rows_ok \<Gamma> spec ms)"
proof
  assume "shaped \<Gamma> def v"
  then show "\<exists>ms. v = V_Sequence ms \<and> rows_ok \<Gamma> spec ms"
    by cases (use assms in \<open>auto simp: rows_ok_def split: option.splits\<close>)
next
  assume "\<exists>ms. v = V_Sequence ms \<and> rows_ok \<Gamma> spec ms"
  then obtain ms where ms: "v = V_Sequence ms" "rows_ok \<Gamma> spec ms" by blast
  then show "shaped \<Gamma> def v"
    unfolding ms(1) by (intro shaped_sequence [OF assms]) (auto simp: rows_ok_def split: option.splits)
qed

lemma shaped_seqof_iff:
  assumes "td_per_handler def = Some H_SeqOf" "td_seq_of_spec def = Some spec"
  shows "shaped \<Gamma> def v \<longleftrightarrow> (\<exists>vs. v = V_SeqOf vs \<and> (\<forall>x \<in> set vs. shaped \<Gamma> (\<Gamma> (sos_element spec)) x))"
proof
  assume "shaped \<Gamma> def v"
  then show "\<exists>vs. v = V_SeqOf vs \<and> (\<forall>x \<in> set vs. shaped \<Gamma> (\<Gamma> (sos_element spec)) x)"
    by cases (use assms in auto)
qed (use assms in \<open>auto intro: shaped_seqof\<close>)

lemma shaped_choice_iff:
  assumes "td_per_handler def = Some H_Choice" "td_choice_spec def = Some spec"
  shows "shaped \<Gamma> def v \<longleftrightarrow> v = V_Choice 0 None \<or>
     (\<exists>p x t. v = V_Choice p (Some x) \<and> 1 \<le> p \<and> p \<le> int (length (cs_alternatives spec)) \<and>
        m_type (cs_alternatives spec ! nat (p - 1)) = Some t \<and> shaped \<Gamma> (\<Gamma> t) x)"
proof
  assume "shaped \<Gamma> def v"
  then show "v = V_Choice 0 None \<or>
     (\<exists>p x t. v = V_Choice p (Some x) \<and> 1 \<le> p \<and> p \<le> int (length (cs_alternatives spec)) \<and>
        m_type (cs_alternatives spec ! nat (p - 1)) = Some t \<and> shaped \<Gamma> (\<Gamma> t) x)"
    by cases (use assms in auto)
qed (use assms in \<open>auto intro: shaped_choice shaped_empty_choice\<close>)

text \<open>What the compiled tables promise.\<close>

definition sequence_wf :: "type_env \<Rightarrow> sequence_spec \<Rightarrow> bool" where
  "sequence_wf \<Gamma> spec \<longleftrightarrow>
     ss_ext_at spec \<le> int (length (ss_members spec)) \<and>
     (\<forall>i. root_end spec \<le> i \<longrightarrow> i < length (ss_members spec) \<longrightarrow>
        m_type (ss_members spec ! i) \<noteq> None \<and> m_has_ops (ss_members spec ! i)) \<and>
     (\<forall>u < unit_count spec. root_end spec \<le> unit_begin spec u \<and> unit_end spec u \<le> length (ss_members spec)) \<and>
     (\<forall>u < unit_count spec. \<not> unit_is_group spec u \<longrightarrow> unit_begin spec u < length (ss_members spec)) \<and>
     (\<forall>mbr \<in> set (ss_members spec). \<forall>f ms. m_set_default mbr = Some f \<longrightarrow> rows_ok \<Gamma> spec ms \<longrightarrow> rows_ok \<Gamma> spec (f ms))"

definition desc_wf :: "type_env \<Rightarrow> type_desc \<Rightarrow> bool" where
  "desc_wf \<Gamma> def \<longleftrightarrow>
     (case td_per_handler def of
        None \<Rightarrow> True
      | Some h \<Rightarrow>
         (case h of
            H_UtcTime \<Rightarrow> False
          | H_GenTime \<Rightarrow> False
          | H_Enumerated \<Rightarrow> td_enum_spec def \<noteq> None
          | H_SeqOf \<Rightarrow> depth_counts def \<and> td_seq_of_spec def \<noteq> None
          | H_Sequence \<Rightarrow> depth_counts def \<and> (\<exists>spec. td_sequence_spec def = Some spec \<and> sequence_wf \<Gamma> spec)
          | H_Choice \<Rightarrow> depth_counts def \<and>
              (\<exists>spec. td_choice_spec def = Some spec \<and> cs_ext_at spec \<le> int (length (cs_alternatives spec)))
          | _ \<Rightarrow> True))"

definition env_wf :: "type_env \<Rightarrow> bool" where
  "env_wf \<Gamma> \<longleftrightarrow> (\<forall>t. desc_wf \<Gamma> (\<Gamma> t) \<and> shaped \<Gamma> (\<Gamma> t) (td_new (\<Gamma> t)))"

text \<open>The types with an index that the sender chooses beyond the root.\<close>

definition extension_marked :: "type_desc \<Rightarrow> bool" where
  "extension_marked def \<longleftrightarrow>
     td_per_handler def = Some H_Enumerated \<and> (\<exists>spec. td_enum_spec def = Some spec \<and> es_extensible spec) \<or>
     td_per_handler def = Some H_Choice \<and> (\<exists>spec. td_choice_spec def = Some spec \<and> cs_ext_at spec \<ge> 0)"

section \<open>The constructed types\<close>

text \<open>The nested calls, made at nesting depth \<open>level\<close>.\<close>

definition child_steps :: "bool \<Rightarrow> type_env \<Rightarrow> nat \<Rightarrow> per_decoder \<Rightarrow> bool" where
  "child_steps ovf \<Gamma> level codec \<longleftrightarrow>
     (\<forall>t dest d. dec_in d \<longrightarrow> pd_depth d = level \<longrightarrow> shaped \<Gamma> (\<Gamma> t) dest \<longrightarrow>
        steps ovf (shaped \<Gamma> (\<Gamma> t)) d (codec (\<Gamma> t) dest d))"

lemma child_stepsD:
  "child_steps ovf \<Gamma> level codec \<Longrightarrow> dec_in d \<Longrightarrow> pd_depth d = level \<Longrightarrow> shaped \<Gamma> (\<Gamma> t) dest \<Longrightarrow>
     steps ovf (shaped \<Gamma> (\<Gamma> t)) d (codec (\<Gamma> t) dest d)"
  by (simp add: child_steps_def)

lemma new_shaped: "env_wf \<Gamma> \<Longrightarrow> shaped \<Gamma> (\<Gamma> t) (td_new (\<Gamma> t))"
  by (simp add: env_wf_def)

lemma sub_in: "dec_in (per_sub bytes d)" "pd_depth (per_sub bytes d) = pd_depth d"
  by (simp_all add: per_sub_def new_per_dec_def dec_in_def dec_ok_def per_dec_bit_pos_def)

lemma steps_open_type:
  assumes "child_steps ovf \<Gamma> level codec" "dec_in d" "pd_depth d = level" "shaped \<Gamma> (\<Gamma> t) dest"
  shows "steps ovf (shaped \<Gamma> (\<Gamma> t)) d (decode_open_type codec (\<Gamma> t) dest d)"
  unfolding decode_open_type_def
proof (rule steps_bind [OF steps_get_octets [OF assms(2)]])
  fix bytes d'
  assume d': "later d d'" "dec_in d'" "pd_depth d' = pd_depth d"
  have "steps ovf (shaped \<Gamma> (\<Gamma> t)) (per_sub bytes d') (codec (\<Gamma> t) dest (per_sub bytes d'))"
    using assms d' by (intro child_stepsD [OF assms(1)]) (simp_all add: sub_in)
  then show "steps ovf (shaped \<Gamma> (\<Gamma> t)) d' (case (bytes, d') of (bytes, d) \<Rightarrow>
      rbind (codec (\<Gamma> t) dest (per_sub bytes d)) (\<lambda>(v, _). Inr (v, d)))"
    using d' by (auto simp: steps_def split: sum.splits)
qed

lemma steps_read_elements:
  assumes "child_steps ovf \<Gamma> level codec" "env_wf \<Gamma>"
  shows "dec_in d \<Longrightarrow> pd_depth d = level \<Longrightarrow> \<forall>x \<in> set seq. shaped \<Gamma> (\<Gamma> t) x \<Longrightarrow>
    steps ovf (\<lambda>seq. \<forall>x \<in> set seq. shaped \<Gamma> (\<Gamma> t) x) d (read_elements codec (\<Gamma> t) m seq d)"
proof (induction m arbitrary: seq d)
  case (Suc m)
  show ?case
    unfolding read_elements.simps
    by (rule steps_bind [OF child_stepsD [OF assms(1) Suc.prems(1,2) new_shaped [OF assms(2)]]])
       (use Suc in auto)
qed simp

lemma steps_read_fragment:
  assumes "child_steps ovf \<Gamma> level codec" "env_wf \<Gamma>" "dec_in d" "pd_depth d = level"
    "\<forall>x \<in> set seq. shaped \<Gamma> (\<Gamma> t) x"
  shows "steps ovf (\<lambda>seq. \<forall>x \<in> set seq. shaped \<Gamma> (\<Gamma> t) x) d (read_fragment codec def (\<Gamma> t) m seq d)"
proof (cases "m = 0")
  case False
  show ?thesis
    unfolding read_fragment_def if_not_P [OF False] Let_def
    by (rule steps_bind [OF child_stepsD [OF assms(1,3,4) new_shaped [OF assms(2)]]])
       (use assms in \<open>auto intro!: steps_read_elements\<close>)
qed (use assms in \<open>simp add: read_fragment_def\<close>)

lemma steps_seqof:
  assumes "child_steps ovf \<Gamma> level codec" "env_wf \<Gamma>" "dec_in d" "pd_depth d = level"
    "td_per_handler def = Some H_SeqOf" "td_seq_of_spec def = Some spec" "shaped \<Gamma> def dest"
  shows "steps ovf (shaped \<Gamma> def) d (per_seqof_decode codec \<Gamma> def dest d)"
proof -
  let ?t = "sos_element spec"
  have items: "safe_items ovf (read_fragment codec def (\<Gamma> ?t)) (\<lambda>seq. \<forall>x \<in> set seq. shaped \<Gamma> (\<Gamma> ?t) x) level"
    by unfold_locales (rule steps_read_fragment [OF assms(1,2)])
  obtain vs where dest: "dest = V_SeqOf vs"
    using assms(7) unfolding shaped_seqof_iff [OF assms(5,6)] by blast
  show ?thesis
    unfolding per_seqof_decode_def assms(6) dest option.case asn1_value.case prod.case
    by (rule steps_bind [OF safe_items.ext_size_step [OF items assms(3,4)]])
       (auto simp: shaped_seqof_iff [OF assms(5,6)])
qed

lemma steps_read_presence: "dec_in d \<Longrightarrow> steps ovf (\<lambda>_. True) d (read_presence n d)"
proof -
  have "dec_in d \<Longrightarrow> steps ovf (\<lambda>_. True) d (read_presence_words w n d)" for w
    by (induction w arbitrary: n d) (auto simp: Let_def steps_get_bits intro!: steps_bind [where P = "\<lambda>_. True"])
  then show "dec_in d \<Longrightarrow> steps ovf (\<lambda>_. True) d (read_presence n d)"
    unfolding read_presence_def by (auto intro!: steps_bind [where P = "\<lambda>_. True"])
qed

lemma rows_set_present:
  assumes "rows_ok \<Gamma> spec ms" "env_wf \<Gamma>" "i < length (ss_members spec)"
    "m_optional (ss_members spec ! i) \<or> root_end spec \<le> i"
  shows "rows_ok \<Gamma> spec (set_present \<Gamma> (ss_members spec ! i) i p ms)"
  using assms new_shaped [OF assms(2)]
  by (auto simp: rows_ok_def set_present_def nth_list_update nullable_def Let_def member_ptr_def split: option.splits)

lemma rows_update:
  "rows_ok \<Gamma> spec ms \<Longrightarrow> i < length (ss_members spec) \<Longrightarrow> m_type (ss_members spec ! i) = Some t \<Longrightarrow>
     shaped \<Gamma> (\<Gamma> t) v \<Longrightarrow> rows_ok \<Gamma> spec (ms[i := Some v])"
  by (auto simp: rows_ok_def nth_list_update split: option.splits)

lemma rows_default:
  "sequence_wf \<Gamma> spec \<Longrightarrow> rows_ok \<Gamma> spec ms \<Longrightarrow> i < length (ss_members spec) \<Longrightarrow>
     rows_ok \<Gamma> spec (apply_default (ss_members spec ! i) ms)"
  unfolding sequence_wf_def apply_default_def by (auto split: option.splits dest: nth_mem)

lemma rows_member:
  assumes "rows_ok \<Gamma> spec ms" "i < length (ss_members spec)" "m_type (ss_members spec ! i) = Some t"
    "\<not> m_has_ops (ss_members spec ! i) \<or> (\<not> m_optional (ss_members spec ! i) \<and> i < root_end spec)"
  shows "\<exists>v. member_ptr ms i = Some v \<and> shaped \<Gamma> (\<Gamma> t) v"
proof -
  have "case ms ! i of None \<Rightarrow> nullable spec i
        | Some v \<Rightarrow> (\<exists>t. m_type (ss_members spec ! i) = Some t \<and> shaped \<Gamma> (\<Gamma> t) v)"
    using assms(1,2) by (simp add: rows_ok_def)
  then show ?thesis
    using assms by (auto simp: rows_ok_def nullable_def Let_def member_ptr_def split: option.splits)
qed

lemma rows_present_member:
  assumes "rows_ok \<Gamma> spec ms" "env_wf \<Gamma>" "i < length (ss_members spec)" "m_type (ss_members spec ! i) = Some t"
    "m_has_ops (ss_members spec ! i)"
  shows "\<exists>v. member_ptr (set_present \<Gamma> (ss_members spec ! i) i True ms) i = Some v \<and> shaped \<Gamma> (\<Gamma> t) v"
proof -
  have "case ms ! i of None \<Rightarrow> nullable spec i
        | Some v \<Rightarrow> (\<exists>t. m_type (ss_members spec ! i) = Some t \<and> shaped \<Gamma> (\<Gamma> t) v)"
    using assms(1,3) by (simp add: rows_ok_def)
  then show ?thesis
    using assms new_shaped [OF assms(2)]
    by (auto simp: rows_ok_def set_present_def member_ptr_def split: option.splits)
qed

text \<open>Clearing and defaulting the rows of a table keeps the shape.\<close>

lemma rows_fold:
  assumes "\<And>ms i. i \<in> set is \<Longrightarrow> rows_ok \<Gamma> spec ms \<Longrightarrow> rows_ok \<Gamma> spec (f ms i)" "rows_ok \<Gamma> spec ms"
  shows "rows_ok \<Gamma> spec (foldl f ms is)"
  using assms by (induction "is" arbitrary: ms) auto

lemma rows_clear:
  assumes "rows_ok \<Gamma> spec ms" "env_wf \<Gamma>" "\<And>i. i \<in> set is \<Longrightarrow> root_end spec \<le> i \<and> i < length (ss_members spec)"
  shows "rows_ok \<Gamma> spec (clear_members \<Gamma> spec is ms)"
  unfolding clear_members_def by (rule rows_fold) (use assms in \<open>auto intro!: rows_set_present\<close>)

lemma rows_defaults:
  assumes "rows_ok \<Gamma> spec ms" "env_wf \<Gamma>" "sequence_wf \<Gamma> spec"
    "\<And>i. i \<in> set is \<Longrightarrow> root_end spec \<le> i \<and> i < length (ss_members spec)"
  shows "rows_ok \<Gamma> spec (default_members \<Gamma> spec is ms)"
  unfolding default_members_def
  by (rule rows_fold) (use assms in \<open>auto intro!: rows_set_present rows_default [OF assms(3)]\<close>)

lemma take_drop_Cons:
  assumes "x # xs = take (Suc n) (drop i ys)"
  shows "x = ys ! i \<and> i < length ys \<and> xs = take n (drop (Suc i) ys)"
proof -
  have "i < length ys" using assms by (cases "i < length ys") auto
  with assms show ?thesis by (simp add: Cons_nth_drop_Suc [symmetric])
qed

lemma steps_root_members:
  assumes "child_steps ovf \<Gamma> level codec" "env_wf \<Gamma>" "sequence_wf \<Gamma> spec"
  shows "dec_in d \<Longrightarrow> pd_depth d = level \<Longrightarrow> rows_ok \<Gamma> spec ms \<Longrightarrow> i + length mbrs \<le> root_end spec \<Longrightarrow>
    mbrs = take (length mbrs) (drop i (ss_members spec)) \<Longrightarrow>
    steps ovf (rows_ok \<Gamma> spec) d (decode_root_members codec \<Gamma> bitmap opt i mbrs ms d)"
proof (induction mbrs arbitrary: opt i ms d)
  case (Cons mbr mbrs)
  have mbr: "mbr = ss_members spec ! i" "i < length (ss_members spec)"
    and rest: "mbrs = take (length mbrs) (drop (Suc i) (ss_members spec))"
    using take_drop_Cons [of mbr mbrs "length mbrs" i "ss_members spec"] Cons.prems(5) by simp_all
  note IH = Cons.IH [OF _ _ _ _ rest]
  have in_root: "i < root_end spec" using Cons.prems(4) by simp
  show ?case
  proof (cases "m_type mbr")
    case None
    then show ?thesis using Cons.prems(1-4) by (simp add: IH)
  next
    case (Some t)
    define p where "p = (m_optional mbr \<longrightarrow> presence_bit bitmap opt)"
    define ms' where "ms' = (if m_optional mbr then set_present \<Gamma> mbr i p ms else ms)"
    define opt' where "opt' = (if m_optional mbr then Suc opt else opt)"
    have ms': "rows_ok \<Gamma> spec ms'"
      using rows_set_present [OF Cons.prems(3) assms(2) mbr(2)] Cons.prems(3) by (simp add: ms'_def mbr)
    have ptr: "\<exists>v. member_ptr ms' i = Some v \<and> shaped \<Gamma> (\<Gamma> t) v" if p
    proof (cases "m_optional mbr \<and> m_has_ops mbr")
      case True
      then show ?thesis
        using rows_present_member [OF Cons.prems(3) assms(2) mbr(2)] Some that by (simp add: ms'_def mbr)
    next
      case False
      then show ?thesis using rows_member [OF ms' mbr(2)] Some in_root by (auto simp: mbr)
    qed
    have eq: "decode_root_members codec \<Gamma> bitmap opt i (mbr # mbrs) ms d =
        (if \<not> p then decode_root_members codec \<Gamma> bitmap opt' (Suc i) mbrs (apply_default mbr ms') d
         else case member_ptr ms' i of
            None \<Rightarrow> Inl NullDeref
          | Some mptr \<Rightarrow> rbind (codec (\<Gamma> t) mptr d) (\<lambda>(v, d).
              decode_root_members codec \<Gamma> bitmap opt' (Suc i) mbrs (ms'[i := Some v]) d))"
      by (simp only: decode_root_members.simps Some option.case Let_def p_def ms'_def opt'_def)
    show ?thesis
    proof (cases p)
      case True
      then obtain v where v: "member_ptr ms' i = Some v" "shaped \<Gamma> (\<Gamma> t) v" using ptr by blast
      have "steps ovf (rows_ok \<Gamma> spec) d (rbind (codec (\<Gamma> t) v d) (\<lambda>(v, d).
              decode_root_members codec \<Gamma> bitmap opt' (Suc i) mbrs (ms'[i := Some v]) d))"
        by (rule steps_bind [OF child_stepsD [OF assms(1) Cons.prems(1,2) v(2)]])
           (use Cons.prems ms' Some mbr in \<open>auto intro!: IH rows_update\<close>)
      then show ?thesis using True v(1) eq by simp
    next
      case False
      then show ?thesis
        using Cons.prems rows_default [OF assms(3) ms' mbr(2)] eq mbr(1) by (simp add: IH)
    qed
  qed
qed simp

lemma steps_group_bitmap:
  "dec_in d \<Longrightarrow> steps ovf (\<lambda>_. True) d (decode_group_bitmap spec is d)"
  by (induction "is" arbitrary: d) (auto simp: steps_get_bits intro!: steps_bind [where P = "\<lambda>_. True"])

lemma steps_group_members:
  assumes "child_steps ovf \<Gamma> level codec" "env_wf \<Gamma>" "sequence_wf \<Gamma> spec"
  shows "dec_in d \<Longrightarrow> pd_depth d = level \<Longrightarrow> rows_ok \<Gamma> spec ms \<Longrightarrow>
    \<forall>i \<in> fst ` set ips. root_end spec \<le> i \<and> i < length (ss_members spec) \<Longrightarrow>
    steps ovf (rows_ok \<Gamma> spec) d (decode_group_members codec \<Gamma> spec ips ms d)"
proof (induction ips arbitrary: ms d)
  case (Cons ip ips)
  obtain i p where ip: "ip = (i, p)" by (cases ip)
  with Cons.prems(4) have i: "root_end spec \<le> i" "i < length (ss_members spec)" by auto
  let ?mbr = "ss_members spec ! i"
  obtain t where t: "m_type ?mbr = Some t" "m_has_ops ?mbr" using assms(3) i by (auto simp: sequence_wf_def)
  let ?ms = "set_present \<Gamma> ?mbr i p ms"
  have ms: "rows_ok \<Gamma> spec ?ms" by (rule rows_set_present) (use Cons.prems(3) assms(2) i in auto)
  show ?case
  proof (cases p)
    case True
    then obtain v where v: "member_ptr ?ms i = Some v" "shaped \<Gamma> (\<Gamma> t) v"
      using rows_present_member [OF Cons.prems(3) assms(2) i(2) t] by auto
    have "steps ovf (rows_ok \<Gamma> spec) d (rbind (codec (\<Gamma> t) v d) (\<lambda>(v, gs).
        decode_group_members codec \<Gamma> spec ips (?ms[i := Some v]) gs))"
      by (rule steps_bind [OF child_stepsD [OF assms(1) Cons.prems(1,2) v(2)]])
         (use Cons.prems ms t(1) i(2) in \<open>auto intro!: Cons.IH rows_update\<close>)
    then show ?thesis using True v(1) t(1) by (simp add: ip Let_def)
  next
    case False
    then show ?thesis
      using Cons.prems rows_default [OF assms(3) ms i(2)] by (simp add: ip Let_def Cons.IH)
  qed
qed simp

lemma steps_group:
  assumes "child_steps ovf \<Gamma> level codec" "env_wf \<Gamma>" "sequence_wf \<Gamma> spec" "dec_in d" "pd_depth d = level"
    "rows_ok \<Gamma> spec ms" "root_end spec \<le> b" "e \<le> length (ss_members spec)"
  shows "steps ovf (rows_ok \<Gamma> spec) d (decode_group_open_type codec \<Gamma> spec b e ms d)"
  unfolding decode_group_open_type_def
proof (rule steps_bind [OF steps_get_octets [OF assms(4)]], clarify)
  fix bytes d'
  assume d': "later d d'" "dec_in d'" "pd_depth d' = pd_depth d"
  have "steps ovf (rows_ok \<Gamma> spec) (per_sub bytes d')
      (rbind (decode_group_bitmap spec [b..<e] (per_sub bytes d')) (\<lambda>(ps, gs).
       decode_group_members codec \<Gamma> spec (zip [b..<e] ps) ms gs))"
    by (rule steps_bind [OF steps_group_bitmap [OF sub_in(1)]])
       (use assms d' in \<open>auto intro!: steps_group_members simp: sub_in dest!: set_zip_leftD\<close>)
  then show "steps ovf (rows_ok \<Gamma> spec) d' (rbind (decode_group_bitmap spec [b..<e] (per_sub bytes d')) (\<lambda>(ps, gs).
       rbind (decode_group_members codec \<Gamma> spec (zip [b..<e] ps) ms gs) (\<lambda>(ms, _). Inr (ms, d'))))"
    using d'(2)
    by (cases "decode_group_bitmap spec [b..<e] (per_sub bytes d')") (auto simp: steps_def split: sum.splits prod.splits)
qed

lemma unit_rows:
  assumes "sequence_wf \<Gamma> spec" "u < unit_count spec" "i \<in> set [unit_begin spec u..<unit_end spec u]"
  shows "root_end spec \<le> i \<and> i < length (ss_members spec)"
  using assms by (fastforce simp: sequence_wf_def)

lemma steps_units:
  assumes "child_steps ovf \<Gamma> level codec" "env_wf \<Gamma>" "sequence_wf \<Gamma> spec"
  shows "dec_in d \<Longrightarrow> pd_depth d = level \<Longrightarrow> rows_ok \<Gamma> spec ms \<Longrightarrow>
    steps ovf (rows_ok \<Gamma> spec) d (decode_units codec \<Gamma> spec bitmap us ms d)"
proof (induction us arbitrary: ms d)
  case (Cons u us)
  consider (unknown) "unit_count spec \<le> u" | (absent) "u < unit_count spec" "\<not> presence_bit bitmap u"
    | (grp) "u < unit_count spec" "presence_bit bitmap u" "unit_is_group spec u"
    | (plain) "u < unit_count spec" "presence_bit bitmap u" "\<not> unit_is_group spec u" by linarith
  then show ?case
  proof cases
    case unknown
    show ?thesis
    proof (cases "if presence_bit bitmap u then skip_open_type d else Inr d")
      case (Inl e)
      then show ?thesis using unknown steps_skip(2) [OF Cons.prems(1)]
        by (auto split: if_splits simp: steps_def)
    next
      case (Inr d')
      then have l: "later d d'" using steps_skip(1) [OF Cons.prems(1)] Cons.prems(1) by (auto split: if_splits)
      then have "steps ovf (rows_ok \<Gamma> spec) d' (decode_units codec \<Gamma> spec bitmap us ms d')"
        using Cons.prems by (intro Cons.IH) (simp_all add: later_def)
      then show ?thesis using unknown Inr l by (auto simp: steps_def split: sum.splits intro: later_trans)
    qed
  next
    case absent
    have "rows_ok \<Gamma> spec (default_members \<Gamma> spec [unit_begin spec u..<unit_end spec u] ms)"
      by (rule rows_defaults [OF Cons.prems(3) assms(2,3) unit_rows [OF assms(3) absent(1)]])
    then show ?thesis using Cons.prems(1,2) absent by (simp add: Cons.IH)
  next
    case grp
    have "root_end spec \<le> unit_begin spec u" "unit_end spec u \<le> length (ss_members spec)"
      using assms(3) grp(1) by (auto simp: sequence_wf_def)
    then have "steps ovf (rows_ok \<Gamma> spec) d (rbind (decode_group_open_type codec \<Gamma> spec (unit_begin spec u) (unit_end spec u) ms d)
        (\<lambda>(ms, d). decode_units codec \<Gamma> spec bitmap us ms d))"
      by (intro steps_bind [OF steps_group [OF assms Cons.prems]]) (use Cons.prems in \<open>auto intro!: Cons.IH\<close>)
    then show ?thesis using grp by simp
  next
    case plain
    let ?i = "unit_begin spec u"
    have i: "root_end spec \<le> ?i" "?i < length (ss_members spec)" using assms(3) plain by (auto simp: sequence_wf_def)
    let ?mbr = "ss_members spec ! ?i"
    obtain t where t: "m_type ?mbr = Some t" "m_has_ops ?mbr" using assms(3) i by (auto simp: sequence_wf_def)
    let ?ms = "set_present \<Gamma> ?mbr ?i True ms"
    have ms: "rows_ok \<Gamma> spec ?ms" by (rule rows_set_present) (use Cons.prems(3) assms(2) i in auto)
    obtain v where v: "member_ptr ?ms ?i = Some v" "shaped \<Gamma> (\<Gamma> t) v"
      using rows_present_member [OF Cons.prems(3) assms(2) i(2) t] by blast
    have "steps ovf (rows_ok \<Gamma> spec) d (rbind (decode_open_type codec (\<Gamma> t) v d) (\<lambda>(v, d).
        decode_units codec \<Gamma> spec bitmap us (?ms[?i := Some v]) d))"
      by (rule steps_bind [OF steps_open_type [OF assms(1) Cons.prems(1,2) v(2)]])
         (use Cons.prems ms t(1) i(2) in \<open>auto intro!: Cons.IH rows_update\<close>)
    then show ?thesis using plain v(1) t(1) by (simp add: Let_def)
  qed
qed simp

lemma concat_unit_rows:
  assumes "sequence_wf \<Gamma> spec" "i \<in> set (concat (map (\<lambda>u. [unit_begin spec u..<unit_end spec u]) [n..<unit_count spec]))"
  shows "root_end spec \<le> i \<and> i < length (ss_members spec)"
  using assms(2) unit_rows [OF assms(1)] by auto

lemma steps_extensions:
  assumes "child_steps ovf \<Gamma> level codec" "env_wf \<Gamma>" "sequence_wf \<Gamma> spec" "dec_in d" "pd_depth d = level"
    "rows_ok \<Gamma> spec ms"
  shows "steps ovf (rows_ok \<Gamma> spec) d (decode_extensions codec \<Gamma> spec ms d)"
  unfolding decode_extensions_def
  by (rule steps_bind [OF steps_get_nslength [OF assms(4)]], clarify,
      rule steps_bind [OF steps_read_presence], assumption, clarify,
      rule steps_bind [OF steps_units [OF assms(1-3)]])
     (use assms in \<open>auto intro!: rows_clear concat_unit_rows [OF assms(3)] simp del: set_concat\<close>)

lemma root_end_le: "sequence_wf \<Gamma> spec \<Longrightarrow> root_end spec \<le> length (ss_members spec)"
  by (auto simp: sequence_wf_def root_end_def)

lemma steps_sequence:
  assumes "child_steps ovf \<Gamma> level codec" "env_wf \<Gamma>" "dec_in d" "pd_depth d = level"
    "td_per_handler def = Some H_Sequence" "td_sequence_spec def = Some spec" "sequence_wf \<Gamma> spec"
    "shaped \<Gamma> def dest"
  shows "steps ovf (shaped \<Gamma> def) d (per_sequence_decode codec \<Gamma> def dest d)"
proof -
  note iff = shaped_sequence_iff [OF assms(5,6)]
  obtain ms where dest: "dest = V_Sequence ms" "rows_ok \<Gamma> spec ms" using assms(8) unfolding iff by blast
  let ?root = "take (root_end spec) (ss_members spec)"
  have root: "0 + length ?root \<le> root_end spec" "?root = take (length ?root) (drop 0 (ss_members spec))"
    using root_end_le [OF assms(7)] by simp_all
  have rest: "steps ovf (shaped \<Gamma> def) d' (if ss_ext_at spec < 0 then Inr (V_Sequence ms', d')
       else if ext_flag = 0 then
         Inr (V_Sequence (clear_members \<Gamma> spec [root_end spec..<length (ss_members spec)] ms'), d')
       else rbind (decode_extensions codec \<Gamma> spec ms' d') (\<lambda>(ms, d). Inr (V_Sequence ms, d)))"
    if "rows_ok \<Gamma> spec ms'" "dec_in d'" "pd_depth d' = level" for ms' d' and ext_flag :: u64
    using that rows_clear [OF that(1) assms(2), of "[root_end spec..<length (ss_members spec)]"]
    by (auto simp: iff intro!: steps_bind [OF steps_extensions [OF assms(1,2,7)]])
  show ?thesis
    unfolding per_sequence_decode_def assms(6) dest(1) option.case asn1_value.case prod.case
  proof (rule steps_bind [where P = "\<lambda>_. True"], simp_all add: steps_get_bits assms(3), clarify?)
    fix ext_flag :: u64 and d1
    assume d1: "later d d1" "dec_in d1" "pd_depth d1 = pd_depth d"
    show "steps ovf (shaped \<Gamma> def) d1 (rbind (read_presence (ss_roms_count spec) d1) (\<lambda>(bitmap, d).
        rbind (decode_root_members codec \<Gamma> bitmap 0 0 ?root ms d) (\<lambda>(ms, d).
          if ss_ext_at spec < 0 then Inr (V_Sequence ms, d)
          else if ext_flag = 0 then
            Inr (V_Sequence (clear_members \<Gamma> spec [root_end spec..<length (ss_members spec)] ms), d)
          else rbind (decode_extensions codec \<Gamma> spec ms d) (\<lambda>(ms, d). Inr (V_Sequence ms, d)))))"
    proof (rule steps_bind [OF steps_read_presence [OF d1(2)]], clarify)
      fix bitmap d2
      assume d2: "later d1 d2" "dec_in d2" "pd_depth d2 = pd_depth d1"
      show "steps ovf (shaped \<Gamma> def) d2 (rbind (decode_root_members codec \<Gamma> bitmap 0 0 ?root ms d2) (\<lambda>(ms, d).
          if ss_ext_at spec < 0 then Inr (V_Sequence ms, d)
          else if ext_flag = 0 then
            Inr (V_Sequence (clear_members \<Gamma> spec [root_end spec..<length (ss_members spec)] ms), d)
          else rbind (decode_extensions codec \<Gamma> spec ms d) (\<lambda>(ms, d). Inr (V_Sequence ms, d))))"
        by (rule steps_bind [OF steps_root_members [OF assms(1,2,7) d2(2) _ dest(2) root]],
            use d1 d2 assms(4) in simp, unfold prod.case, rule rest)
           (use d1 d2 assms(4) in simp_all)
    qed
  qed
qed

section \<open>CHOICE and the codec\<close>

lemma emplace_shaped: "env_wf \<Gamma> \<Longrightarrow> m_type alt = Some t \<Longrightarrow> shaped \<Gamma> (\<Gamma> t) (emplace_alt \<Gamma> alt)"
  by (simp add: emplace_alt_def new_shaped)

lemma select_shaped:
  assumes "env_wf \<Gamma>" "td_per_handler def = Some H_Choice" "td_choice_spec def = Some spec"
    "shaped \<Gamma> def (V_Choice p storage)" "m_type (cs_alternatives spec ! idx) = Some t"
  shows "\<exists>v. select_alternative \<Gamma> (cs_alternatives spec ! idx) p idx storage = Some v \<and> shaped \<Gamma> (\<Gamma> t) v"
  using assms(4,5) emplace_shaped [OF assms(1,5)]
  unfolding shaped_choice_iff [OF assms(2,3)] by (auto simp: select_alternative_def)

lemma steps_choice:
  assumes "child_steps ovf \<Gamma> level codec" "env_wf \<Gamma>" "dec_in d" "pd_depth d = level"
    "td_per_handler def = Some H_Choice" "td_choice_spec def = Some spec"
    "cs_ext_at spec \<le> int (length (cs_alternatives spec))" "shaped \<Gamma> def dest" "cs_ext_at spec \<ge> 0 \<Longrightarrow> ovf"
  shows "steps ovf (shaped \<Gamma> def) d (per_choice_decode codec \<Gamma> def dest d)"
proof -
  note iff = shaped_choice_iff [OF assms(5,6)]
  obtain p storage where dest: "dest = V_Choice p storage" using assms(8) unfolding iff by blast
  have rc: "choice_root_count spec \<le> length (cs_alternatives spec)" using assms(7) by (auto simp: choice_root_count_def)
  have root: "steps ovf (shaped \<Gamma> def) d' (decode_choice_root codec \<Gamma> spec p storage d')"
    if "dec_in d'" "pd_depth d' = level" for d'
    unfolding decode_choice_root_def Let_def
  proof (rule steps_bind [where P = "\<lambda>_. True"])
    show "steps ovf (\<lambda>_. True) d' (if 0 < range_bits (cs_constraints spec)
        then rbind (get_bits (range_bits (cs_constraints spec)) d') (\<lambda>(v, d). Inr (sint (ucast v :: u32), d))
        else Inr (0, d'))"
      using that by (auto intro!: steps_bind [OF steps_get_bits])
  next
    fix idx :: int and d2
    assume d2: "dec_in d2" "pd_depth d2 = pd_depth d'"
    show "steps ovf (shaped \<Gamma> def) d2 (case (idx, d2) of (def_idx, d) \<Rightarrow>
        if def_idx < 0 \<or> int (choice_root_count spec) \<le> def_idx then Inl (DecodeError ''CHOICE index out of range'' 0)
        else case m_type (cs_alternatives spec ! nat def_idx) of
          None \<Rightarrow> Inl (DecodeError ''CHOICE alternative has no type descriptor'' 0)
        | Some t \<Rightarrow> (case select_alternative \<Gamma> (cs_alternatives spec ! nat def_idx) p (nat def_idx) storage of
             None \<Rightarrow> Inl NullDeref
           | Some mptr \<Rightarrow> rbind (codec (\<Gamma> t) mptr d) (\<lambda>(v, d). Inr (V_Choice (def_idx + 1) (Some v), d))))"
    proof (cases "idx < 0 \<or> int (choice_root_count spec) \<le> idx \<or> m_type (cs_alternatives spec ! nat idx) = None")
      case False
      then obtain t where t: "m_type (cs_alternatives spec ! nat idx) = Some t" by blast
      obtain v where v: "select_alternative \<Gamma> (cs_alternatives spec ! nat idx) p (nat idx) storage = Some v"
        "shaped \<Gamma> (\<Gamma> t) v"
        using select_shaped [OF assms(2,5,6) _ t] assms(8) dest by blast
      have "steps ovf (shaped \<Gamma> def) d2 (rbind (codec (\<Gamma> t) v d2) (\<lambda>(v, d). Inr (V_Choice (idx + 1) (Some v), d)))"
        by (rule steps_bind [OF child_stepsD [OF assms(1) d2(1) _ v(2)]])
           (use d2 that False rc t in \<open>auto simp: iff\<close>)
      then show ?thesis using False t v(1) by simp
    qed auto
  qed
  have skipped: "steps ovf (shaped \<Gamma> def) d2 (rbind (skip_open_type d2) (\<lambda>d. Inr (V_Choice p storage, d)))"
    if "dec_in d2" for d2
    using steps_skip [OF that] assms(8) dest by (cases "skip_open_type d2") (auto simp: steps_def)
  have ext: "steps ovf (shaped \<Gamma> def) d' (decode_choice_ext codec \<Gamma> spec p storage d')"
    if "dec_in d'" "pd_depth d' = level" "cs_ext_at spec \<ge> 0" for d'
    unfolding decode_choice_ext_def
  proof (rule steps_bind [OF steps_get_nsnn [OF that(1)]], clarify)
    fix ext_idx d2
    assume d2: "dec_in d2" "pd_depth d2 = pd_depth d'"
    define i where "i = i32_sum (choice_root_count spec) ext_idx"
    let ?alt = "cs_alternatives spec ! nat i"
    have "steps ovf (shaped \<Gamma> def) d2 (case m_type ?alt of
          None \<Rightarrow> rbind (skip_open_type d2) (\<lambda>d. Inr (V_Choice p storage, d))
        | Some t \<Rightarrow> (case select_alternative \<Gamma> ?alt p (nat i) storage of
               None \<Rightarrow> Inl NullDeref
             | Some mptr \<Rightarrow> rbind (decode_open_type codec (\<Gamma> t) mptr d2) (\<lambda>(v, d).
                   Inr (V_Choice (i + 1) (Some v), d))))" if i: "0 \<le> i" "i < int (length (cs_alternatives spec))"
    proof (cases "m_type ?alt")
      case (Some t)
      obtain v where v: "select_alternative \<Gamma> ?alt p (nat i) storage = Some v" "shaped \<Gamma> (\<Gamma> t) v"
        using select_shaped [OF assms(2,5,6) _ Some] assms(8) dest by blast
      have "steps ovf (shaped \<Gamma> def) d2 (rbind (decode_open_type codec (\<Gamma> t) v d2) (\<lambda>(v, d).
          Inr (V_Choice (i + 1) (Some v), d)))"
        by (rule steps_bind [OF steps_open_type [OF assms(1) d2(1) _ v(2)]])
           (use d2 \<open>pd_depth d' = level\<close> i Some in \<open>auto simp: iff\<close>)
      then show ?thesis by (simp only: Some option.case v(1))
    qed (simp only: option.case skipped [OF d2(1)])
    then show "steps ovf (shaped \<Gamma> def) d2 (let def_idx = i32_sum (choice_root_count spec) ext_idx;
           skipped = rbind (skip_open_type d2) (\<lambda>d. Inr (V_Choice p storage, d))
       in if def_idx < int (length (cs_alternatives spec)) then
         if def_idx < 0 then Inl (OutOfBounds def_idx)
         else
           let alt = cs_alternatives spec ! nat def_idx in
           (case m_type alt of
              None \<Rightarrow> skipped
            | Some t \<Rightarrow>
                (case select_alternative \<Gamma> alt p (nat def_idx) storage of
                   None \<Rightarrow> Inl NullDeref
                 | Some mptr \<Rightarrow>
                     rbind (decode_open_type codec (\<Gamma> t) mptr d2) (\<lambda>(v, d).
                       Inr (V_Choice (def_idx + 1) (Some v), d))))
       else skipped)"
      using skipped [OF d2(1)] assms(9) [OF that(3)] by (simp add: Let_def i_def [symmetric] steps_overflow not_less)
  qed
  show ?thesis
    unfolding per_choice_decode_def assms(6) dest option.case asn1_value.case prod.case
  proof (cases "cs_ext_at spec \<ge> 0")
    case True
    show "steps ovf (shaped \<Gamma> def) d (rbind (if cs_ext_at spec \<ge> 0 then get_bits 1 d else Inr (0, d)) (\<lambda>(in_ext, d).
        if in_ext = 0 then decode_choice_root codec \<Gamma> spec p storage d else decode_choice_ext codec \<Gamma> spec p storage d))"
      unfolding if_P [OF True]
      by (rule steps_bind [OF steps_get_bits [OF assms(3)]]) (use root ext assms(4) True in auto)
  qed (use root assms(3,4) in simp)
qed

text \<open>One call of the codec, from the calls one level deeper.\<close>

lemma steps_codec:
  assumes child: "pd_depth d0 < kMaxDecodeDepth \<Longrightarrow> depth_counts def \<Longrightarrow> child_steps ovf \<Gamma> (pd_depth d0 + 1) codec"
    and "env_wf \<Gamma>" "desc_wf \<Gamma> def" "dec_in d0" "shaped \<Gamma> def dest" and ovf: "extension_marked def \<Longrightarrow> ovf"
  shows "steps ovf (shaped \<Gamma> def) d0 (per_codec_decode codec \<Gamma> def dest d0)"
proof (cases "depth_counts def \<and> pd_depth (per_enter_depth def d0) > kMaxDecodeDepth")
  case True
  then show ?thesis by (simp add: per_codec_decode_def Let_def)
next
  case False
  let ?d = "per_enter_depth def d0"
  have d: "dec_in ?d" "per_dec_bit_pos ?d = per_dec_bit_pos d0" "pd_buf ?d = pd_buf d0"
    using assms(4) by (simp_all add: per_enter_depth_def dec_in_def dec_ok_def per_dec_bit_pos_def)
  have leaf: "steps ovf (shaped \<Gamma> def) ?d (into f r)" if "steps ovf (\<lambda>_. True) ?d r" "\<And>x. shaped \<Gamma> def (f x)"
    for f :: "'a \<Rightarrow> asn1_value" and r
    unfolding into_def by (rule steps_bind [OF that(1)]) (simp add: that(2))
  have kids: "child_steps ovf \<Gamma> (pd_depth ?d) codec" if "depth_counts def"
    using child False that by (simp add: per_enter_depth_def)
  have "steps ovf (shaped \<Gamma> def) ?d (per_handler_decode codec \<Gamma> def dest ?d)"
  proof (cases "td_per_handler def")
    case None
    then show ?thesis by (simp add: per_handler_decode_def)
  next
    case (Some h)
    note shape = shaped_leaf [OF Some]
    show ?thesis
    proof (cases h)
      case H_SeqOf
      then show ?thesis
        using Some assms(3) steps_seqof [OF kids assms(2) d(1) refl _ _ assms(5)]
        by (auto simp: per_handler_decode_def desc_wf_def)
    next
      case H_Sequence
      then obtain spec where "depth_counts def" "td_sequence_spec def = Some spec" "sequence_wf \<Gamma> spec"
        using Some assms(3) by (auto simp: desc_wf_def)
      then show ?thesis
        using H_Sequence Some steps_sequence [OF kids assms(2) d(1) refl _ _ _ assms(5)]
        by (simp add: per_handler_decode_def)
    next
      case H_Choice
      then obtain spec where "depth_counts def" "td_choice_spec def = Some spec"
        "cs_ext_at spec \<le> int (length (cs_alternatives spec))"
        using Some assms(3) by (auto simp: desc_wf_def)
      then show ?thesis
        using H_Choice Some steps_choice [OF kids assms(2) d(1) refl _ _ _ assms(5)] ovf
        by (simp add: per_handler_decode_def extension_marked_def)
    next
      case H_Enumerated
      then obtain spec where "td_enum_spec def = Some spec" using Some assms(3) by (auto simp: desc_wf_def)
      then show ?thesis
        using H_Enumerated Some d ovf
        by (auto simp: per_handler_decode_def leaf_shape_def extension_marked_def intro!: leaf steps_enum shape)
    qed (use Some assms(3,5) d in \<open>auto simp: per_handler_decode_def desc_wf_def leaf_shape_def
        intro!: leaf shape steps_get_octets steps_get_bits steps_integer steps_uinteger steps_bit_string
          steps_octet_string steps_oid steps_string\<close>)
  qed
  then show ?thesis
    using False d by (auto simp: per_codec_decode_def Let_def steps_def later_def dec_in_def dec_ok_def
        per_dec_bit_pos_def split: sum.splits)
qed

theorem per_decode_fuel_steps:
  assumes "env_wf \<Gamma>" and ovf: "\<And>t. extension_marked (\<Gamma> t) \<Longrightarrow> ovf"
  shows "(extension_marked def \<Longrightarrow> ovf) \<Longrightarrow> desc_wf \<Gamma> def \<Longrightarrow> dec_in d \<Longrightarrow> pd_depth d \<le> kMaxDecodeDepth \<Longrightarrow> kMaxDecodeDepth < n + pd_depth d \<Longrightarrow>
    shaped \<Gamma> def dest \<Longrightarrow> steps ovf (shaped \<Gamma> def) d (per_decode_fuel n \<Gamma> def dest d)"
proof (induction n arbitrary: def dest d)
  case (Suc n)
  have "child_steps ovf \<Gamma> (pd_depth d + 1) (per_decode_fuel n \<Gamma>)" if "pd_depth d < kMaxDecodeDepth"
    unfolding child_steps_def
    using Suc.prems(5) that assms by (auto simp: env_wf_def intro!: Suc.IH)
  then show ?case
    using steps_codec [OF _ assms(1) Suc.prems(2,3,6), of ovf "per_decode_fuel n \<Gamma>"] Suc.prems(1) by simp
qed simp

end
