(* ===== verification/Ber_Safety.thy ===== *)
theory Ber_Safety
  imports Per_Safety
begin

text \<open>
  Type safety of the BER decoder on any input: with well-formed tables it never follows a
  null pointer, and an object of a type's shape stays one. The judgement \<open>yields P r\<close>
  is kept by every handler, so one induction on the fuel gives the codec.
\<close>

section \<open>The judgement\<close>

definition yields :: "('a \<Rightarrow> bool) \<Rightarrow> 'a result \<Rightarrow> bool" where
  "yields P r \<longleftrightarrow> (case r of Inl e \<Rightarrow> e = OutOfFuel \<or> program_error e | Inr x \<Rightarrow> P x)"

lemma yields_simps [simp]:
  "yields P (Inr x) \<longleftrightarrow> P x" "yields P (Inl (DecodeError s n))" "yields P (Inl OutOfFuel)" "\<not> yields P (Inl NullDeref)"
  by (simp_all add: yields_def)

lemma yields_bind:
  "yields P r \<Longrightarrow> (\<And>x. P x \<Longrightarrow> r = Inr x \<Longrightarrow> yields Q (f x)) \<Longrightarrow> yields Q (rbind r f)"
  by (cases r) (auto simp: yields_def)

lemma yields_mono: "yields P r \<Longrightarrow> (\<And>x. P x \<Longrightarrow> Q x) \<Longrightarrow> yields Q r"
  by (auto simp: yields_def split: sum.splits)

lemma yields_clean: "clean r \<Longrightarrow> yields (\<lambda>_. True) r"
  by (cases r) (auto simp: yields_def)

lemma yields_if: "(c \<Longrightarrow> yields P a) \<Longrightarrow> (\<not> c \<Longrightarrow> yields P b) \<Longrightarrow> yields P (if c then a else b)"
  by simp

lemmas yields_tlv = read_tlv_clean [THEN yields_clean]
lemmas yields_contents = contents_clean [THEN yields_clean]

section \<open>What the tables promise to BER\<close>

text \<open>
  The handlers of the two codecs serve the same storage class: the BER handlers of the
  time types differ from those of the strings, the PER ones do not.
\<close>

definition per_handler_of :: "handler \<Rightarrow> handler" where
  "per_handler_of h = (if h = H_UtcTime \<or> h = H_GenTime then H_String else h)"

definition alternative_ok :: "choice_spec \<Rightarrow> int \<Rightarrow> bool" where
  "alternative_ok spec i \<longleftrightarrow> i < int (length (cs_alternatives spec)) \<and>
     (0 \<le> i \<longrightarrow> m_type (cs_alternatives spec ! nat i) \<noteq> None)"

definition choice_table_ok :: "choice_spec \<Rightarrow> bool" where
  "choice_table_ok spec \<longleftrightarrow>
     (case cs_tag_index spec of None \<Rightarrow> True | Some is \<Rightarrow> list_all (alternative_ok spec) is) \<and>
     (case cs_ber_tags spec of None \<Rightarrow> True | Some es \<Rightarrow> list_all (\<lambda>e. alternative_ok spec (cte_alt_index e)) es)"

definition ber_desc_wf :: "type_env \<Rightarrow> type_desc \<Rightarrow> bool" where
  "ber_desc_wf \<Gamma> def \<longleftrightarrow>
     td_per_handler def = map_option per_handler_of (td_ber_handler def) \<and>
     (td_ber_handler def = Some H_SeqOf \<longrightarrow> td_seq_of_spec def \<noteq> None) \<and>
     (td_ber_handler def = Some H_Sequence \<longrightarrow>
        (\<exists>spec. td_sequence_spec def = Some spec \<and> sequence_wf \<Gamma> spec \<and>
           (\<forall>i. root_end spec \<le> i \<longrightarrow> i < length (ss_members spec) \<longrightarrow> m_optional (ss_members spec ! i)))) \<and>
     (td_ber_handler def = Some H_Choice \<longrightarrow>
        (\<exists>spec. td_choice_spec def = Some spec \<and> choice_table_ok spec))"

definition ber_env_wf :: "type_env \<Rightarrow> bool" where
  "ber_env_wf \<Gamma> \<longleftrightarrow> env_wf \<Gamma> \<and> (\<forall>t. ber_desc_wf \<Gamma> (\<Gamma> t))"

lemma shaped_cong:
  assumes "td_per_handler b = td_per_handler a" "td_seq_of_spec b = td_seq_of_spec a"
    "td_sequence_spec b = td_sequence_spec a" "td_choice_spec b = td_choice_spec a"
  shows "shaped \<Gamma> a v \<Longrightarrow> shaped \<Gamma> b v"
  by (erule shaped.cases) (use assms in \<open>auto intro: shaped.intros\<close>)

lemma shaped_natural [simp]: "shaped \<Gamma> (natural_def def) v = shaped \<Gamma> def v"
  using shaped_cong [of "natural_def def" def \<Gamma> v] shaped_cong [of def "natural_def def" \<Gamma> v]
  by (auto simp: natural_def_def)

lemma natural_def_wf [simp]: "ber_desc_wf \<Gamma> (natural_def def) = ber_desc_wf \<Gamma> def"
  by (simp add: natural_def_def ber_desc_wf_def)

lemma choice_match_ok:
  assumes "choice_table_ok spec"
  shows "alternative_ok spec (choice_match spec t)"
proof -
  have none: "alternative_ok spec (- 1)" by (simp add: alternative_ok_def)
  have tags: "alternative_ok spec (scan_ber_tags es t)" if "list_all (\<lambda>e. alternative_ok spec (cte_alt_index e)) es" for es
    using that none by (induction es) auto
  have scan: "alternative_ok spec (scan_alternatives as (int k) t)" if "as = drop k (cs_alternatives spec)" for as k
    using that
  proof (induction as arbitrary: k)
    case (Cons a as)
    then have "k < length (cs_alternatives spec)" by (metis drop_all list.distinct(1) not_less)
    moreover from this Cons.prems have "a = cs_alternatives spec ! k" "as = drop (Suc k) (cs_alternatives spec)"
      by (simp_all add: Cons_nth_drop_Suc [symmetric])
    ultimately show ?case using Cons.IH [of "Suc k"] by (auto simp: alternative_ok_def add.commute)
  qed (simp add: none)
  have alts: "alternative_ok spec (scan_alternatives (cs_alternatives spec) 0 t)"
    using scan [of "cs_alternatives spec" 0] by simp
  have idx: "alternative_ok spec (is ! n)" if "list_all (alternative_ok spec) is" "n < length is" for "is" n
    using that by (simp add: list_all_length)
  show ?thesis
    using assms none tags alts
    by (auto simp: choice_match_def choice_table_ok_def Let_def idx nat_less_iff split: option.splits)
qed

section \<open>The handlers\<close>

text \<open>The nested calls keep the shape of what they decode into.\<close>

definition keeps_shape :: "type_env \<Rightarrow> decoder \<Rightarrow> content_decoder \<Rightarrow> bool" where
  "keeps_shape \<Gamma> dec decv \<longleftrightarrow>
     (\<forall>t dest r. shaped \<Gamma> (\<Gamma> t) dest \<longrightarrow>
        yields (\<lambda>(v, _). shaped \<Gamma> (\<Gamma> t) v) (dec (\<Gamma> t) dest r) \<and> yields (shaped \<Gamma> (\<Gamma> t)) (decv (\<Gamma> t) dest r))"

lemma keeps_shapeD:
  "keeps_shape \<Gamma> dec decv \<Longrightarrow> shaped \<Gamma> (\<Gamma> t) dest \<Longrightarrow> yields (\<lambda>(v, _). shaped \<Gamma> (\<Gamma> t) v) (dec (\<Gamma> t) dest r)"
  "keeps_shape \<Gamma> dec decv \<Longrightarrow> shaped \<Gamma> (\<Gamma> t) dest \<Longrightarrow> yields (shaped \<Gamma> (\<Gamma> t)) (decv (\<Gamma> t) dest r)"
  by (simp_all add: keeps_shape_def)

lemma seqof_loop_yields:
  assumes "keeps_shape \<Gamma> dec decv" "env_wf \<Gamma>"
  shows "\<forall>x \<in> set seq. shaped \<Gamma> (\<Gamma> t) x \<Longrightarrow> cnt \<le> length seq \<Longrightarrow>
    yields (\<lambda>vs. \<forall>x \<in> set vs. shaped \<Gamma> (\<Gamma> t) x) (seqof_decode_loop fuel dec (\<Gamma> t) seq cnt r)"
proof (induction fuel arbitrary: seq cnt r)
  case (Suc fuel)
  let ?seq = "if length seq \<le> cnt then seq @ [td_new (\<Gamma> t)] else seq"
  have seq: "\<forall>x \<in> set ?seq. shaped \<Gamma> (\<Gamma> t) x" "cnt < length ?seq"
    using Suc.prems new_shaped [OF assms(2)] by auto
  have dec: "yields (\<lambda>(v, _). shaped \<Gamma> (\<Gamma> t) v) (dec (\<Gamma> t) (?seq ! cnt) r)"
    using seq by (intro keeps_shapeD [OF assms(1)]) (metis nth_mem)
  have "yields (\<lambda>vs. \<forall>x \<in> set vs. shaped \<Gamma> (\<Gamma> t) x)
      (rbind (dec (\<Gamma> t) (?seq ! cnt) r) (\<lambda>(v, r). seqof_decode_loop fuel dec (\<Gamma> t) (?seq[cnt := v]) (cnt + 1) r))"
  proof (rule yields_bind [OF dec])
    fix x :: "asn1_value \<times> ber_reader"
    assume "case x of (v, _) \<Rightarrow> shaped \<Gamma> (\<Gamma> t) v"
    then show "yields (\<lambda>vs. \<forall>x \<in> set vs. shaped \<Gamma> (\<Gamma> t) x)
        (case x of (v, r) \<Rightarrow> seqof_decode_loop fuel dec (\<Gamma> t) (?seq[cnt := v]) (cnt + 1) r)"
      using seq by (cases x) (auto intro!: Suc.IH dest!: set_update_subset_insert [THEN subsetD])
  qed
  then show ?case using Suc.prems(1) by (auto simp: Let_def dest: in_set_takeD)
qed simp

lemma seqof_body_yields:
  assumes "keeps_shape \<Gamma> dec decv" "env_wf \<Gamma>" "td_per_handler def = Some H_SeqOf" "td_seq_of_spec def = Some spec"
    "shaped \<Gamma> def dest"
  shows "yields (shaped \<Gamma> def) (seqof_decode_body dec \<Gamma> def dest r)"
proof -
  obtain vs where vs: "dest = V_SeqOf vs" "\<forall>x \<in> set vs. shaped \<Gamma> (\<Gamma> (sos_element spec)) x"
    using assms(5) unfolding shaped_seqof_iff [OF assms(3,4)] by blast
  show ?thesis
    unfolding seqof_decode_body_def assms(4) vs(1) prod.case option.case asn1_value.case
    by (rule yields_bind [OF seqof_loop_yields [OF assms(1,2) vs(2)]])
       (auto simp: shaped_seqof_iff [OF assms(3,4)])
qed

lemma component_yields:
  assumes "keeps_shape \<Gamma> dec decv" "shaped \<Gamma> (\<Gamma> t) mptr"
  shows "yields (\<lambda>(v, _). shaped \<Gamma> (\<Gamma> t) v) (decode_component dec decv def mbr (\<Gamma> t) mptr r)"
proof -
  have "yields (\<lambda>(v, _). shaped \<Gamma> (\<Gamma> t) v) (rbind (dec (\<Gamma> t) mptr s) (\<lambda>(v, _). Inr (v, s')))"
    "yields (\<lambda>(v, _). shaped \<Gamma> (\<Gamma> t) v) (rbind (decv (\<Gamma> t) mptr s) (\<lambda>v. Inr (v, s')))" for s s'
    by (rule yields_bind [OF keeps_shapeD(1) [OF assms]]; auto) (rule yields_bind [OF keeps_shapeD(2) [OF assms]]; simp)
  then show ?thesis
    unfolding decode_component_def using keeps_shapeD(1) [OF assms]
    by (auto intro!: yields_if yields_bind [OF yields_tlv])
qed

lemma members_yield:
  assumes "keeps_shape \<Gamma> dec decv" "env_wf \<Gamma>" "sequence_wf \<Gamma> spec"
    "\<forall>i. root_end spec \<le> i \<longrightarrow> i < length (ss_members spec) \<longrightarrow> m_optional (ss_members spec ! i)"
  shows "mbrs = drop i (ss_members spec) \<Longrightarrow> rows_ok \<Gamma> spec ms \<Longrightarrow>
    yields (rows_ok \<Gamma> spec) (decode_members dec decv \<Gamma> def i mbrs ms r)"
proof (induction mbrs arbitrary: i ms r)
  case (Cons mbr mbrs)
  then have i: "i < length (ss_members spec)" by (metis drop_all list.distinct(1) not_less)
  with Cons.prems(1) have m: "mbr = ss_members spec ! i" "mbrs = drop (Suc i) (ss_members spec)"
    by (simp_all add: Cons_nth_drop_Suc [symmetric])
  note IH = Cons.IH [OF m(2)]
  show ?case
  proof (cases "m_type mbr")
    case None
    then show ?thesis using Cons.prems(2) by (auto intro!: yields_bind [OF yields_tlv] IH)
  next
    case (Some t)
    let ?p = "\<not> m_optional mbr \<or> member_present \<Gamma> mbr r"
    let ?ms = "if m_optional mbr then set_present \<Gamma> mbr i ?p ms else ms"
    have rows: "rows_ok \<Gamma> spec ?ms" using rows_set_present [OF Cons.prems(2) assms(2) i] Cons.prems(2) m(1) by simp
    have ptr: "\<exists>v. member_ptr ?ms i = Some v \<and> shaped \<Gamma> (\<Gamma> t) v" if "?p"
    proof (cases "m_optional mbr \<and> m_has_ops mbr")
      case True
      with that show ?thesis
        using rows_present_member [OF Cons.prems(2) assms(2) i] Some m(1) by simp
    next
      case False
      have "\<exists>v. member_ptr ?ms i = Some v \<and> shaped \<Gamma> (\<Gamma> t) v"
        using rows_member [OF rows i] False Some m(1) assms(4) i not_less by blast
      then show ?thesis .
    qed
    have dflt: "rows_ok \<Gamma> spec (case m_set_default mbr of None \<Rightarrow> ?ms | Some f \<Rightarrow> f ?ms)"
      using rows_default [OF assms(3) rows i] unfolding apply_default_def m(1) [symmetric] .
    show ?thesis
    proof (cases "?p")
      case False
      then show ?thesis using Some IH [OF dflt, of r] by (simp add: Let_def cong: option.case_cong)
    next
      case True
      from ptr [OF this] obtain v where v: "member_ptr ?ms i = Some v" "shaped \<Gamma> (\<Gamma> t) v" by blast
      have "yields (rows_ok \<Gamma> spec) (rbind (decode_component dec decv def mbr (\<Gamma> t) v r) (\<lambda>(v, r).
          decode_members dec decv \<Gamma> def (Suc i) mbrs (?ms[i := Some v]) r))"
        by (rule yields_bind [OF component_yields [OF assms(1) v(2)]])
           (use rows_update [OF rows i] Some m(1) IH in auto)
      with True Some v(1) show ?thesis by (cases "m_optional mbr") (simp_all add: Let_def)
    qed
  qed
qed simp

lemma sequence_body_yields:
  assumes "keeps_shape \<Gamma> dec decv" "env_wf \<Gamma>" "td_per_handler def = Some H_Sequence" "td_sequence_spec def = Some spec"
    "sequence_wf \<Gamma> spec" "shaped \<Gamma> def dest"
    "\<forall>i. root_end spec \<le> i \<longrightarrow> i < length (ss_members spec) \<longrightarrow> m_optional (ss_members spec ! i)"
  shows "yields (shaped \<Gamma> def) (sequence_decode_body dec decv \<Gamma> def dest r)"
proof -
  obtain ms where ms: "dest = V_Sequence ms" "rows_ok \<Gamma> spec ms"
    using assms(6) unfolding shaped_sequence_iff [OF assms(3,4)] by blast
  have scan: "yields (\<lambda>_. True) (set_scan \<Gamma> mbrs slots unmatched s)" for mbrs slots unmatched s
  proof (induction \<Gamma> mbrs slots unmatched s rule: set_scan.induct)
    case (1 \<Gamma> mbrs slots unmatched scan)
    then show ?case
      by (subst set_scan.simps) (auto simp: Let_def intro!: yields_bind [OF yields_tlv] split: prod.splits)
  qed
  have set: "yields (\<lambda>_. True) (if ss_is_set spec then rbind (set_in_table_order \<Gamma> spec r) (\<lambda>buf. Inr (sub_reader buf r)) else Inr r)"
    unfolding set_in_table_order_def by (auto intro!: yields_bind [OF scan] yields_bind [where P = "\<lambda>_. True"])
  show ?thesis
    unfolding sequence_decode_body_def assms(4) ms(1) prod.case option.case asn1_value.case
    by (rule yields_bind [OF set], rule yields_bind [OF members_yield [OF assms(1,2,5,7) _ ms(2)]])
       (auto simp: shaped_sequence_iff [OF assms(3,4)])
qed

lemma choice_yields:
  assumes "keeps_shape \<Gamma> dec decv" "env_wf \<Gamma>" "td_per_handler def = Some H_Choice" "td_choice_spec def = Some spec"
    "choice_table_ok spec" "shaped \<Gamma> def dest"
  shows "yields (\<lambda>(v, _). shaped \<Gamma> def v) (choice_decode dec decv \<Gamma> def dest r)"
proof -
  let ?m = "choice_match spec (peek_tag r)"
  obtain p storage where dest: "dest = V_Choice p storage"
    using assms(6) unfolding shaped_choice_iff [OF assms(3,4)] by blast
  show ?thesis
  proof (cases "0 \<le> ?m")
    case True
    let ?alt = "cs_alternatives spec ! nat ?m"
    obtain t where t: "m_type ?alt = Some t" "?m < int (length (cs_alternatives spec))"
      using choice_match_ok [OF assms(5)] True by (auto simp: alternative_ok_def)
    obtain x where x: "(if p \<noteq> ?m + 1 then Some (emplace_alt \<Gamma> ?alt) else storage) = Some x" "shaped \<Gamma> (\<Gamma> t) x"
      using select_shaped [OF assms(2-4) _ t(1), of p storage] assms(6) True
      unfolding dest select_alternative_def by auto
    have nested: "yields (\<lambda>(v, _). shaped \<Gamma> (\<Gamma> t) v) (rbind (dec (\<Gamma> t) x s) (\<lambda>(v, _). Inr (v, s')))"
      "yields (\<lambda>(v, _). shaped \<Gamma> (\<Gamma> t) v) (rbind (decv (\<Gamma> t) x s) (\<lambda>v. Inr (v, s')))" for s s'
      by (rule yields_bind [OF keeps_shapeD(1) [OF assms(1) x(2)]]; auto)
         (rule yields_bind [OF keeps_shapeD(2) [OF assms(1) x(2)]]; simp)
    have "yields (\<lambda>(v, _). shaped \<Gamma> (\<Gamma> t) v) (if m_tag_is_override ?alt then
              rbind (read_tlv r) (\<lambda>(outer, r).
                if m_is_explicit ?alt then
                  rbind (dec (\<Gamma> t) x (sub_reader (tlv_value outer) r)) (\<lambda>(v, _). Inr (v, r))
                else rbind (decv (\<Gamma> t) x (sub_reader (tlv_value outer) r)) (\<lambda>v. Inr (v, r)))
            else dec (\<Gamma> t) x r)"
      using keeps_shapeD(1) [OF assms(1) x(2)] nested by (auto intro!: yields_if yields_bind [OF yields_tlv])
    then have "yields (\<lambda>(v, _). shaped \<Gamma> def v) (rbind (if m_tag_is_override ?alt then
              rbind (read_tlv r) (\<lambda>(outer, r).
                if m_is_explicit ?alt then
                  rbind (dec (\<Gamma> t) x (sub_reader (tlv_value outer) r)) (\<lambda>(v, _). Inr (v, r))
                else rbind (decv (\<Gamma> t) x (sub_reader (tlv_value outer) r)) (\<lambda>v. Inr (v, r)))
            else dec (\<Gamma> t) x r) (\<lambda>(v, r). Inr (V_Choice (?m + 1) (Some v), r)))"
      by (rule yields_bind) (use t True in \<open>auto simp: shaped_choice_iff [OF assms(3,4)]\<close>)
    with x t True show ?thesis
      by (simp add: choice_decode_def dest assms(4) Let_def)
  next
    case False
    with assms(6) show ?thesis
      unfolding choice_decode_def assms(4) dest
      by (auto simp: Let_def intro!: yields_bind [OF yields_tlv])
  qed
qed

lemma primitive_yields:
  assumes "ber_desc_wf \<Gamma> def" "td_ber_handler def = Some h" "primitive_value h dest = Some conv" "shaped \<Gamma> def dest"
  shows "yields (shaped \<Gamma> def) (conv c)"
proof -
  have h: "td_per_handler def = Some (per_handler_of h)" using assms(1,2) by (simp add: ber_desc_wf_def)
  note shape = shaped_leaf [OF h]
  show ?thesis
    using assms(3,4) h
    by (cases h)
       (auto simp: primitive_value_def per_handler_of_def leaf_shape_def boolean_value_def
         intro!: shape yields_bind [OF yields_contents(1)] yields_bind [OF yields_contents(2)] yields_bind [OF yields_contents(3)]
           yields_bind [OF yields_contents(4)] yields_bind [OF yields_contents(5)])
qed

lemma decode_primitive_yields:
  assumes "\<And>v. yields P (conv v)"
  shows "yields (\<lambda>(v, _). P v) (decode_primitive e (DecodeError s n) conv r)"
proof -
  have "yields (\<lambda>(v, _). P v) (rbind (conv c) (\<lambda>v. Inr (v, r')))" for c r'
    by (rule yields_bind [OF assms]) simp
  then show ?thesis
    unfolding decode_primitive_def by (auto intro!: yields_bind [OF yields_tlv])
qed

lemma handler_yields:
  assumes "keeps_shape \<Gamma> dec decv" "env_wf \<Gamma>" "ber_desc_wf \<Gamma> def" "shaped \<Gamma> def dest"
  shows "yields (\<lambda>(v, _). shaped \<Gamma> def v) (handler_decode dec decv \<Gamma> def dest r)"
proof (cases "td_ber_handler def")
  case None
  then show ?thesis by (simp add: handler_decode_def)
next
  case (Some h)
  have per: "td_per_handler def = Some (per_handler_of h)" using assms(3) Some by (simp add: ber_desc_wf_def)
  note shape = shaped_leaf [OF per]
  have prim: "yields (\<lambda>(v, _). shaped \<Gamma> def v) (decode_primitive e (wrong_tag def) conv r)"
    if "primitive_value h dest = Some conv" for e conv
    unfolding wrong_tag_def by (rule decode_primitive_yields) (rule primitive_yields [OF assms(3) Some that assms(4)])
  show ?thesis
  proof (cases h)
    case H_SeqOf
    then obtain spec where "td_seq_of_spec def = Some spec" using assms(3) Some by (auto simp: ber_desc_wf_def)
    then have body: "yields (shaped \<Gamma> def) (seqof_decode_body dec \<Gamma> def dest s)" for s
      using seqof_body_yields [OF assms(1,2) _ _ assms(4)] per H_SeqOf by (simp add: per_handler_of_def)
    show ?thesis
      using Some H_SeqOf by (auto simp: handler_decode_def wrong_tag_def intro!: yields_bind [OF yields_tlv] yields_bind [OF body])
  next
    case H_Sequence
    then obtain spec where "td_sequence_spec def = Some spec" "sequence_wf \<Gamma> spec"
      "\<forall>i. root_end spec \<le> i \<longrightarrow> i < length (ss_members spec) \<longrightarrow> m_optional (ss_members spec ! i)"
      using assms(3) Some by (auto simp: ber_desc_wf_def)
    then have body: "yields (shaped \<Gamma> def) (sequence_decode_body dec decv \<Gamma> def dest s)" for s
      using sequence_body_yields [OF assms(1,2) _ _ _ assms(4)] per H_Sequence by (simp add: per_handler_of_def)
    show ?thesis
      using Some H_Sequence by (auto simp: handler_decode_def wrong_tag_def intro!: yields_bind [OF yields_tlv] yields_bind [OF body])
  next
    case H_Choice
    then obtain spec where "td_choice_spec def = Some spec" "choice_table_ok spec"
      using assms(3) Some by (auto simp: ber_desc_wf_def)
    then show ?thesis
      using choice_yields [OF assms(1,2) _ _ _ assms(4)] per Some H_Choice by (simp add: handler_decode_def per_handler_of_def)
  next
    case H_Any
    have raw: "yields (\<lambda>_. True) (read_bytes (remaining r) r)" by (rule yields_clean) (rule read_bytes_clean)
    show ?thesis
      using Some H_Any by (auto simp: handler_decode_def per_handler_of_def leaf_shape_def intro!: shape yields_bind [OF raw])
  next
    case H_Boolean
    have "yields (shaped \<Gamma> def) (boolean_contents v)" for v
      using H_Boolean by (auto simp: boolean_contents_def per_handler_of_def leaf_shape_def intro!: shape)
    then show ?thesis
      using Some H_Boolean by (auto simp: handler_decode_def wrong_tag_def intro!: decode_primitive_yields)
  qed (use Some prim in \<open>auto simp: handler_decode_def primitive_value_def per_handler_of_def leaf_shape_def
        intro!: decode_primitive_yields shape\<close>)
qed

lemma handler_value_yields:
  assumes "keeps_shape \<Gamma> dec decv" "env_wf \<Gamma>" "ber_desc_wf \<Gamma> def" "shaped \<Gamma> def dest"
    "\<And>r. yields (\<lambda>(v, _). shaped \<Gamma> def v) (dec def dest r)"
  shows "yields (shaped \<Gamma> def) (handler_decode_value dec decv \<Gamma> def dest r)"
proof -
  have default: "yields (shaped \<Gamma> def) (default_decode_value dec def dest r)"
    unfolding default_decode_value_def Let_def by (rule yields_bind [OF assms(5)]) auto
  show ?thesis
  proof (cases "td_ber_handler def")
    case None
    with default show ?thesis by (simp add: handler_decode_value_def)
  next
    case (Some h)
    have per: "td_per_handler def = Some (per_handler_of h)" using assms(3) Some by (simp add: ber_desc_wf_def)
    consider "h = H_SeqOf" | "h = H_Sequence" | "h = H_Choice" | "h \<notin> {H_SeqOf, H_Sequence, H_Choice}" by blast
    then show ?thesis
    proof cases
      case 1
      then obtain spec where "td_seq_of_spec def = Some spec" using assms(3) Some by (auto simp: ber_desc_wf_def)
      with 1 show ?thesis
        using seqof_body_yields [OF assms(1,2) _ _ assms(4)] per Some by (simp add: handler_decode_value_def per_handler_of_def)
    next
      case 2
      then obtain spec where "td_sequence_spec def = Some spec" "sequence_wf \<Gamma> spec"
        "\<forall>i. root_end spec \<le> i \<longrightarrow> i < length (ss_members spec) \<longrightarrow> m_optional (ss_members spec ! i)"
        using assms(3) Some by (auto simp: ber_desc_wf_def)
      with 2 show ?thesis
        using sequence_body_yields [OF assms(1,2) _ _ _ assms(4)] per Some by (simp add: handler_decode_value_def per_handler_of_def)
    next
      case 3
      then obtain spec where "td_choice_spec def = Some spec" "choice_table_ok spec"
        using assms(3) Some by (auto simp: ber_desc_wf_def)
      then have "yields (\<lambda>(v, _). shaped \<Gamma> def v) (choice_decode dec decv \<Gamma> def dest r)"
        using choice_yields [OF assms(1,2) _ _ _ assms(4)] per 3 by (simp add: per_handler_of_def)
      then have "yields (shaped \<Gamma> def) (rbind (choice_decode dec decv \<Gamma> def dest r) (\<lambda>(v, _). Inr v))"
        by (rule yields_bind) auto
      with 3 Some show ?thesis by (simp add: handler_decode_value_def)
    next
      case 4
      have "handler_decode_value dec decv \<Gamma> def dest r = (case primitive_value h dest of
          None \<Rightarrow> default_decode_value dec def dest r | Some conv \<Rightarrow> conv (reader_rest r))"
        using 4 Some by (cases h) (simp_all add: handler_decode_value_def)
      then show ?thesis
        using default primitive_yields [OF assms(3) Some _ assms(4)] by (simp split: option.splits)
    qed
  qed
qed

theorem ber_decode_fuel_yields:
  assumes "ber_env_wf \<Gamma>"
  shows "\<forall>def dest r. ber_desc_wf \<Gamma> def \<longrightarrow> shaped \<Gamma> def dest \<longrightarrow>
    yields (\<lambda>(v, _). shaped \<Gamma> def v) (ber_decode_fuel n \<Gamma> def dest r) \<and>
    yields (shaped \<Gamma> def) (ber_decode_value_fuel n \<Gamma> def dest r)"
proof (induction n)
  case (Suc n)
  have env: "env_wf \<Gamma>" using assms by (simp add: ber_env_wf_def)
  have keeps: "keeps_shape \<Gamma> (ber_decode_fuel n \<Gamma>) (ber_decode_value_fuel n \<Gamma>)"
    using Suc.IH assms by (simp add: keeps_shape_def ber_env_wf_def)
  show ?case
  proof (intro allI impI conjI)
    fix def dest r
    assume d: "ber_desc_wf \<Gamma> def" "shaped \<Gamma> def dest"
    have h: "yields (\<lambda>(v, _). shaped \<Gamma> def v) (handler_decode (ber_decode_fuel n \<Gamma>) (ber_decode_value_fuel n \<Gamma>) \<Gamma> def' dest s)"
      if "def' = def \<or> def' = natural_def def" for def' s
      using handler_yields [OF keeps env, of def' dest s] that d by auto
    show "yields (\<lambda>(v, _). shaped \<Gamma> def v) (ber_decode_fuel (Suc n) \<Gamma> def dest r)"
      using h by (auto simp: codec_decode_def Let_def intro!: yields_bind [OF yields_tlv] yields_bind [where P = "\<lambda>(v, _). shaped \<Gamma> def v"])
    show "yields (shaped \<Gamma> def) (ber_decode_value_fuel (Suc n) \<Gamma> def dest r)"
      using handler_value_yields [OF keeps env d] Suc.IH d by (simp add: codec_decode_value_def Let_def)
  qed
qed simp

end
