(* ===== verification/Per_Growth.thy ===== *)
theory Per_Growth
  imports Per_Codec
begin

text \<open>
  What the PER encoder guarantees on any value and any descriptor: it keeps the
  invariant of the stream (less than 8 pending bits, the unused bits of the current
  octet 0), it only appends, and a failure that was signalled stays. The second part
  is the recursion equation of the encoder: the fuel is never the limit.
\<close>

section \<open>The judgement\<close>

definition grows :: "per_enc \<Rightarrow> per_enc \<Rightarrow> bool" where
  "grows s s' \<longleftrightarrow> (enc_ok s \<longrightarrow> enc_ok s' \<and> prefix (enc_bits s) (enc_bits s')) \<and> (pe_failed s \<longrightarrow> pe_failed s')"

named_theorems growth

declare put_bits.simps [simp del]

lemma grows_refl [simp, growth]: "grows s s"
  by (simp add: grows_def)

lemma grows_trans [trans]: "grows a b \<Longrightarrow> grows b c \<Longrightarrow> grows a c"
  by (auto simp: grows_def)

text \<open>\<open>append_only f\<close>: one operation of the stream.\<close>

definition append_only :: "(per_enc \<Rightarrow> per_enc) \<Rightarrow> bool" where
  "append_only f \<longleftrightarrow> (\<forall>s. grows s (f s))"

lemma append_onlyI: "(\<And>s. grows s (f s)) \<Longrightarrow> append_only f"
  by (simp add: append_only_def)

lemma append_onlyD: "append_only f \<Longrightarrow> grows s t \<Longrightarrow> grows s (f t)"
  by (auto simp: append_only_def intro: grows_trans)

lemma grows_put_bits [growth]: "grows s t \<Longrightarrow> grows s (put_bits v n t)"
  using emit_bits_ok [of t "word_bits n v"]
  by (auto simp: grows_def put_bits_emit emit_bits_failed intro: prefix_order.trans)

lemma grows_failed [growth]: "grows s t \<Longrightarrow> grows s (per_set_encode_failed t)"
  by (auto simp: grows_def per_set_encode_failed_def enc_ok_def enc_bits_def)

lemma grows_if [growth]: "grows s a \<Longrightarrow> grows s b \<Longrightarrow> grows s (if c then a else b)"
  by simp

lemma grows_foldl [growth]: "(\<And>t x. grows s t \<Longrightarrow> grows s (f t x)) \<Longrightarrow> grows s t \<Longrightarrow> grows s (foldl f t xs)"
  by (induction xs arbitrary: t) auto

section \<open>Lengths and numbers\<close>

lemma grows_put_length [growth]: "grows s t \<Longrightarrow> grows s (put_length n t)"
  by (auto simp: put_length_def intro: growth)

lemma grows_put_be_octets [growth]: "grows s t \<Longrightarrow> grows s (put_be_octets v n t)"
  by (induction n arbitrary: t) (auto intro: growth)

lemma grows_put_nsnn [growth]: "grows s t \<Longrightarrow> grows s (put_nsnn n t)"
  unfolding put_nsnn_def Let_def by (intro growth)

lemma grows_put_nslength [growth]: "grows s t \<Longrightarrow> grows s (put_nslength n t)"
  unfolding put_nslength_def by (intro growth)

lemma grows_unconstrained [growth]: "grows s t \<Longrightarrow> grows s (encode_unconstrained_int v t)"
  unfolding encode_unconstrained_int_def Let_def by (intro growth)

lemma grows_semi_constrained [growth]: "grows s t \<Longrightarrow> grows s (encode_semi_constrained_int v t)"
  unfolding encode_semi_constrained_int_def Let_def by (intro growth)

text \<open>The length loops around a writer of items that only appends.\<close>

definition items_append :: "write_items \<Rightarrow> bool" where
  "items_append items \<longleftrightarrow> (\<forall>i j. append_only (items i j))"

lemma items_appendI: "(\<And>i j s t. grows s t \<Longrightarrow> grows s (items i j t)) \<Longrightarrow> items_append items"
  by (simp add: items_append_def append_only_def)

lemma items_appendD: "items_append items \<Longrightarrow> grows s t \<Longrightarrow> grows s (items i j t)"
  by (auto simp: items_append_def intro: append_onlyD)

lemma grows_length_from:
  assumes "items_append items"
  shows "grows s t \<Longrightarrow> grows s (put_length_and_items_from n items start t)"
proof (induction "n - start" arbitrary: start t rule: less_induct)
  case less
  note eq = put_length_and_items_from.simps [of n items start t]
  show ?case
  proof (cases "n - start < kFragmentUnit")
    case True
    then show ?thesis unfolding eq Let_def if_P [OF True] by (intro items_appendD [OF assms] growth less.prems)
  next
    case False
    let ?k = "min ((n - start) div kFragmentUnit) 4"
    have "0 < kFragmentUnit" "0 < ?k" using False by (simp_all add: kFragmentUnit_def)
    then have "n - (start + ?k * kFragmentUnit) < n - start" using False by (simp add: kFragmentUnit_def)
    then show ?thesis
      unfolding eq Let_def if_not_P [OF False] by (intro less.hyps items_appendD [OF assms] growth less.prems)
  qed
qed

lemma grows_length_and_items: "items_append items \<Longrightarrow> grows s t \<Longrightarrow> grows s (put_length_and_items n items t)"
  unfolding put_length_and_items_def by (rule grows_length_from)

lemma grows_size:
  assumes "items_append items" "grows s t"
  shows "grows s (encode_size_and_items pc n items t)"
  unfolding encode_size_and_items_def
  by (intro growth grows_length_and_items items_appendD [OF assms(1)] assms)

lemma grows_ext_size:
  assumes "items_append items" "grows s t"
  shows "grows s (encode_ext_size_and_items pc n items t)"
  unfolding encode_ext_size_and_items_def Let_def
  by (intro growth grows_length_and_items grows_size assms)

lemma items_write_octets: "items_append (write_octets data)"
  by (rule items_appendI) (auto simp: write_octets_def intro!: growth)

lemma grows_put_octets [growth]: "grows s t \<Longrightarrow> grows s (put_octets data t)"
  unfolding put_octets_def by (rule grows_length_and_items [OF items_write_octets])

section \<open>The primitive types\<close>

lemma grows_ext_bit:
  assumes "grows s t" "\<And>t. grows s t \<Longrightarrow> grows s (f t)" "\<And>t. grows s t \<Longrightarrow> grows s (g t)"
  shows "grows s (put_ext_bit pc r f g t)"
  unfolding put_ext_bit_def Let_def by (intro growth assms)

lemma grows_integer [growth]: "grows s t \<Longrightarrow> grows s (per_integer_encode pc v t)"
  unfolding per_integer_encode_def by (intro growth grows_ext_bit)

lemma grows_uinteger [growth]: "grows s t \<Longrightarrow> grows s (per_uinteger_encode pc v t)"
  unfolding per_uinteger_encode_def by (intro growth grows_ext_bit)

lemma grows_bit_string [growth]: "grows s t \<Longrightarrow> grows s (per_bit_string_encode pc v t)"
  unfolding per_bit_string_encode_def Let_def
  by (intro grows_ext_size items_appendI) (auto simp: write_bit_range_def intro!: growth)

lemma grows_octet_string [growth]: "grows s t \<Longrightarrow> grows s (per_octet_string_encode pc v t)"
  unfolding per_octet_string_encode_def by (rule grows_ext_size [OF items_write_octets])

lemma grows_oid [growth]:
  "grows s t \<Longrightarrow> grows s (per_oid_encode a t)" "grows s t \<Longrightarrow> grows s (per_rel_oid_encode a t)"
  unfolding per_oid_encode_def per_rel_oid_encode_def encode_ber_content_def Let_def by (intro growth; assumption)+

lemma items_write_chars: "items_append (write_chars pc bits bpc str)"
  by (rule items_appendI) (auto simp: write_chars_def write_char_def Let_def intro!: growth)

lemma grows_string_root [growth]: "grows s t \<Longrightarrow> grows s (string_encode_root tag pc str t)"
  unfolding string_encode_root_def Let_def
  by (auto split: prod.splits intro!: growth grows_size items_write_chars)

lemma grows_string [growth]: "grows s t \<Longrightarrow> grows s (per_string_encode tag pc str t)"
  unfolding per_string_encode_def Let_def by (auto split: prod.splits intro!: growth)

lemma grows_enum [growth]: "grows s t \<Longrightarrow> grows s (per_enum_encode spec v t)"
  unfolding per_enum_encode_def Let_def by (intro growth)

section \<open>The constructed types\<close>

definition codec_appends :: "per_encoder \<Rightarrow> bool" where
  "codec_appends codec \<longleftrightarrow> (\<forall>def v. append_only (codec def v))"

lemma codec_appendsD: "codec_appends codec \<Longrightarrow> grows s t \<Longrightarrow> grows s (codec def v t)"
  by (auto simp: codec_appends_def intro: append_onlyD)

lemma grows_open_type: "codec_appends codec \<Longrightarrow> grows s t \<Longrightarrow> grows s (encode_open_type codec def v t)"
  unfolding encode_open_type_def Let_def by (intro growth)

lemma grows_put_element [growth]: "grows s t \<Longrightarrow> grows s (put_element e t)"
  unfolding put_element_def Let_def by (intro growth)

lemma grows_sorted_elements:
  "sorted_set_of_elements codec edef seq t = (es, t') \<Longrightarrow> grows s t \<Longrightarrow> grows s t'"
  by (auto simp: sorted_set_of_elements_def Let_def intro!: growth)

lemma grows_seqof:
  assumes "codec_appends codec" "grows s t"
  shows "grows s (per_seqof_encode codec \<Gamma> def seq t)"
proof -
  have items: "items_append (\<lambda>i j s. foldl (\<lambda>s i. if sorted = [] then codec edef (seq ! i) s
      else put_element (sorted ! i) s) s [i..<min j (length seq)])" for sorted edef
    by (rule items_appendI) (intro growth codec_appendsD [OF assms(1)])
  show ?thesis
  proof (cases "td_seq_of_spec def")
    case (Some spec)
    let ?r = "if number (builtin_tag def) = UT_Set \<and> 1 < length seq
      then sorted_set_of_elements codec (\<Gamma> (sos_element spec)) seq t else ([], t)"
    obtain sorted t' where r: "?r = (sorted, t')" by fastforce
    then have "grows s t'" using assms(2) by (auto split: if_splits dest: grows_sorted_elements)
    then show ?thesis
      unfolding per_seqof_encode_def Some option.case Let_def r prod.case by (rule grows_ext_size [OF items])
  qed (use assms(2) in \<open>simp add: per_seqof_encode_def\<close>)
qed

lemma grows_preamble [growth]: "grows s t \<Longrightarrow> grows s (encode_preamble src i mbrs t)"
proof (induction mbrs arbitrary: i t)
  case (Cons mbr mbrs)
  show ?case unfolding encode_preamble.simps Let_def by (intro grows_if Cons.IH growth Cons.prems)
qed simp

lemma grows_root_members:
  assumes "codec_appends codec"
  shows "grows s t \<Longrightarrow> grows s (encode_root_members codec \<Gamma> src i mbrs t)"
  by (induction mbrs arbitrary: i t) (auto split: option.splits intro!: codec_appendsD [OF assms])

lemma grows_group:
  "codec_appends codec \<Longrightarrow> grows s t \<Longrightarrow> grows s (encode_group_open_type codec \<Gamma> spec b e src t)"
  unfolding encode_group_open_type_def Let_def by (auto split: prod.splits intro!: growth)

lemma grows_unit: "codec_appends codec \<Longrightarrow> grows s t \<Longrightarrow> grows s (encode_unit codec \<Gamma> spec src t u)"
  unfolding encode_unit_def Let_def
  by (auto split: option.splits intro!: grows_group grows_open_type)

lemma grows_extensions: "codec_appends codec \<Longrightarrow> grows s t \<Longrightarrow> grows s (encode_extensions codec \<Gamma> spec src t)"
  unfolding encode_extensions_def Let_def by (intro growth grows_unit)

lemma grows_sequence:
  assumes "codec_appends codec" "grows s t"
  shows "grows s (per_sequence_encode codec \<Gamma> def src t)"
  unfolding per_sequence_encode_def Let_def
  using assms(2) by (auto split: option.splits intro!: growth grows_extensions grows_root_members [OF assms(1)] assms(1))

lemma grows_choice:
  assumes "codec_appends codec" "grows s t"
  shows "grows s (per_choice_encode codec \<Gamma> def p v t)"
  unfolding per_choice_encode_def Let_def
  by (auto split: option.splits intro!: growth grows_open_type codec_appendsD [OF assms(1)] assms)

lemma handler_appends:
  assumes "codec_appends codec"
  shows "codec_appends (per_handler_encode codec \<Gamma>)"
  unfolding codec_appends_def append_only_def per_handler_encode_def Let_def
  by (auto split: option.splits handler.splits asn1_value.splits
      intro!: growth grows_seqof grows_sequence grows_choice assms)

lemma per_encode_fuel_appends: "codec_appends (per_encode_fuel n \<Gamma>)"
proof (induction n)
  case 0
  show ?case by (auto simp: codec_appends_def append_only_def intro!: growth)
next
  case (Suc n)
  then show ?case using handler_appends [OF Suc] by (simp add: codec_appends_def append_only_def)
qed

section \<open>The recursion equation\<close>

text \<open>Two codecs that agree on the parts of a value agree on the value.\<close>

lemma seqof_encode_agree:
  assumes "\<And>def x. x \<in> set seq \<Longrightarrow> c def x = c' def x"
  shows "per_seqof_encode c \<Gamma> def seq s = per_seqof_encode c' \<Gamma> def seq s"
proof -
  have sorted: "sorted_set_of_elements c edef seq s = sorted_set_of_elements c' edef seq s" for edef
    using assms by (simp add: sorted_set_of_elements_def encode_element_def cong: map_cong)
  have items: "foldl (\<lambda>s i. if es = [] then c edef (seq ! i) s else put_element (es ! i) s) s [i..<min j (length seq)]
      = foldl (\<lambda>s i. if es = [] then c' edef (seq ! i) s else put_element (es ! i) s) s [i..<min j (length seq)]"
    for edef es s i j
    by (rule foldl_cong) (use assms in auto)
  show ?thesis unfolding per_seqof_encode_def sorted items ..
qed

lemma open_type_agree: "c def x = c' def x \<Longrightarrow> encode_open_type c def x s = encode_open_type c' def x s"
  by (simp add: encode_open_type_def)

definition agree_on :: "asn1_value option list \<Rightarrow> per_encoder \<Rightarrow> per_encoder \<Rightarrow> bool" where
  "agree_on src c c' \<longleftrightarrow> (\<forall>def x. Some x \<in> set src \<longrightarrow> c def x = c' def x)"

lemma agree_on_ptr: "agree_on src c c' \<Longrightarrow> member_ptr src i = Some x \<Longrightarrow> c def x = c' def x"
  using member_ptr_in_set by (auto simp: agree_on_def)

lemma root_members_agree:
  "agree_on src c c' \<Longrightarrow> encode_root_members c \<Gamma> src i mbrs s = encode_root_members c' \<Gamma> src i mbrs s"
  by (induction mbrs arbitrary: i s) (auto split: option.splits simp: agree_on_ptr)

lemma group_members_agree:
  "agree_on src c c' \<Longrightarrow> encode_group_members c \<Gamma> spec src is s f = encode_group_members c' \<Gamma> spec src is s f"
  by (induction "is" arbitrary: s f) (auto split: option.splits simp: Let_def agree_on_ptr)

lemma unit_agree: "agree_on src c c' \<Longrightarrow> encode_unit c \<Gamma> spec src s u = encode_unit c' \<Gamma> spec src s u"
  by (auto simp: encode_unit_def encode_group_open_type_def group_members_agree Let_def split: option.splits
      intro!: open_type_agree intro: agree_on_ptr)

lemma sequence_encode_agree:
  assumes "agree_on src c c'"
  shows "per_sequence_encode c \<Gamma> def src s = per_sequence_encode c' \<Gamma> def src s"
proof -
  have unit: "encode_unit c \<Gamma> spec src = encode_unit c' \<Gamma> spec src" for spec
    by (intro ext unit_agree assms)
  show ?thesis
    unfolding per_sequence_encode_def encode_extensions_def root_members_agree [OF assms] unit ..
qed

lemma choice_encode_agree:
  assumes "\<And>def x. storage = Some x \<Longrightarrow> c def x = c' def x"
  shows "per_choice_encode c \<Gamma> def p storage s = per_choice_encode c' \<Gamma> def p storage s"
  using assms by (cases storage) (simp_all add: per_choice_encode_def encode_open_type_def cong: option.case_cong if_cong)

lemma handler_encode_parts:
  assumes "\<And>vs. v = V_SeqOf vs \<Longrightarrow> per_seqof_encode c \<Gamma> def vs s = per_seqof_encode c' \<Gamma> def vs s"
    and "\<And>ms. v = V_Sequence ms \<Longrightarrow> per_sequence_encode c \<Gamma> def ms s = per_sequence_encode c' \<Gamma> def ms s"
    and "\<And>p w. v = V_Choice p w \<Longrightarrow> per_choice_encode c \<Gamma> def p w s = per_choice_encode c' \<Gamma> def p w s"
  shows "per_handler_encode c \<Gamma> def v s = per_handler_encode c' \<Gamma> def v s"
proof (cases "td_per_handler def")
  case (Some h)
  then show ?thesis using assms by (cases h; cases v) (simp_all add: per_handler_encode_def)
qed (simp add: per_handler_encode_def)

lemma handler_encode_agree:
  assumes "\<And>def x. height x < height v \<Longrightarrow> c def x = c' def x"
  shows "per_handler_encode c \<Gamma> def v s = per_handler_encode c' \<Gamma> def v s"
proof (rule handler_encode_parts)
  fix ms assume "v = V_Sequence ms"
  then show "per_sequence_encode c \<Gamma> def ms s = per_sequence_encode c' \<Gamma> def ms s"
    using assms height_member by (intro sequence_encode_agree) (auto simp: agree_on_def)
next
  fix p w assume "v = V_Choice p w"
  then show "per_choice_encode c \<Gamma> def p w s = per_choice_encode c' \<Gamma> def p w s"
    using assms height_alternative by (intro choice_encode_agree) blast
next
  fix vs assume "v = V_SeqOf vs"
  then show "per_seqof_encode c \<Gamma> def vs s = per_seqof_encode c' \<Gamma> def vs s"
    using assms height_element by (intro seqof_encode_agree) blast
qed

lemma per_encode_fuel_enough: "height v < n \<Longrightarrow> per_encode_fuel n \<Gamma> def v = per_encode \<Gamma> def v"
proof (induction n arbitrary: v def rule: less_induct)
  case (less n)
  then obtain m where n: "n = Suc m" by (cases n) auto
  show ?case
  proof (rule ext)
    fix s
    have "per_handler_encode (per_encode_fuel m \<Gamma>) \<Gamma> def v s = per_handler_encode (per_encode_fuel (height v) \<Gamma>) \<Gamma> def v s"
    proof (rule handler_encode_agree)
      fix def' x
      assume x: "height x < height v"
      have "per_encode_fuel m \<Gamma> def' x = per_encode \<Gamma> def' x" using less x n by (intro less.IH) simp_all
      moreover have "per_encode_fuel (height v) \<Gamma> def' x = per_encode \<Gamma> def' x"
        using less x n by (intro less.IH) simp_all
      ultimately show "per_encode_fuel m \<Gamma> def' x = per_encode_fuel (height v) \<Gamma> def' x" by simp
    qed
    then show "per_encode_fuel n \<Gamma> def v s = per_encode \<Gamma> def v s" by (simp add: n per_encode_def)
  qed
qed

lemma per_encode_unfold: "per_encode \<Gamma> def v s = per_handler_encode (per_encode \<Gamma>) \<Gamma> def v s"
  unfolding per_encode_def [of \<Gamma> def v s] per_encode_fuel.simps
  by (rule handler_encode_agree) (rule per_encode_fuel_enough)

end
