(* ===== verification/Per_Roundtrip.thy ===== *)
theory Per_Roundtrip
  imports Per_Safety Per_Growth
begin

text \<open>
  What the PER encoder writes, the PER decoder reads back: for every value that a
  well-formed descriptor can send (\<open>sendable\<close>), in any stream position, whatever
  follows and whatever object of the type the decoder fills.
\<close>

section \<open>Values that pass\<close>

text \<open>
  \<open>transfers \<Gamma> k enc dec def v\<close>: \<open>enc\<close> appends a fixed bit string for \<open>v\<close>, and from it
  \<open>dec\<close> rebuilds \<open>v\<close> in any object of the type when \<open>k\<close> levels of nesting are left.
\<close>

definition passes :: "type_env \<Rightarrow> nat \<Rightarrow> type_desc \<Rightarrow> (per_enc \<Rightarrow> per_enc)
    \<Rightarrow> (asn1_value \<Rightarrow> per_dec \<Rightarrow> (asn1_value \<times> per_dec) result) \<Rightarrow> asn1_value \<Rightarrow> bool" where
  "passes \<Gamma> k def f g v \<longleftrightarrow>
     (\<exists>bs. appends f bs \<and> (\<forall>dest. shaped \<Gamma> def dest \<longrightarrow> reads k (g dest) bs v))"

definition transfers :: "type_env \<Rightarrow> nat \<Rightarrow> per_encoder \<Rightarrow> per_decoder \<Rightarrow> type_desc \<Rightarrow> asn1_value \<Rightarrow> bool" where
  "transfers \<Gamma> k enc dec def v \<longleftrightarrow> passes \<Gamma> k def (enc def v) (dec def) v"

lemma passesI: "appends f bs \<Longrightarrow> (\<And>dest. shaped \<Gamma> def dest \<Longrightarrow> reads k (g dest) bs v) \<Longrightarrow> passes \<Gamma> k def f g v"
  by (auto simp: passes_def)

lemma passes_mono: "passes \<Gamma> k def f g v \<Longrightarrow> k \<le> m \<Longrightarrow> passes \<Gamma> m def f g v"
  by (auto simp: passes_def intro: reads_mono)

lemma transfers_mono: "transfers \<Gamma> k enc dec def v \<Longrightarrow> k \<le> m \<Longrightarrow> transfers \<Gamma> m enc dec def v"
  unfolding transfers_def by (rule passes_mono)

text \<open>The bits of a value.\<close>

definition bits_of :: "per_encoder \<Rightarrow> type_desc \<Rightarrow> asn1_value \<Rightarrow> bool list" where
  "bits_of enc def v = enc_bits (enc def v new_per_enc)"

lemma transfersD:
  assumes "transfers \<Gamma> k enc dec def v"
  shows "appends (enc def v) (bits_of enc def v)"
    and "shaped \<Gamma> def dest \<Longrightarrow> reads k (dec def dest) (bits_of enc def v) v"
  using assms by (auto simp: transfers_def passes_def bits_of_def appends_bits)

section \<open>Open types\<close>

lemma open_type_passes:
  assumes "transfers \<Gamma> k enc dec def v"
  shows "passes \<Gamma> k def (encode_open_type enc def v) (decode_open_type dec def) v"
proof -
  note bs = transfersD [OF assms]
  let ?bytes = "per_bytes (bits_of enc def v)"
  obtain os where os: "appends (put_octets ?bytes) os" "reads k get_octets os ?bytes"
    using put_octets_contract by blast
  have "encode_open_type enc def v s = put_octets ?bytes s" for s
    by (simp add: encode_open_type_def appendsD [OF bs(1)] emit_bits_failed per_bytes_def Let_def)
  moreover have "reads k (decode_open_type dec def dest) os v" if "shaped \<Gamma> def dest" for dest
  proof (rule readsI)
    fix d rest
    assume d: "dec_ok d" "pd_depth d + k \<le> kMaxDecodeDepth" "dec_bits d = os @ rest"
    have "dec def dest (per_sub ?bytes (advance (length os) d)) =
        Inr (v, advance (length (bits_of enc def v)) (per_sub ?bytes (advance (length os) d)))"
      by (rule reads_per_bytes [OF bs(2) [OF that]]) (use d(2) in simp)
    then show "decode_open_type dec def dest d = Inr (v, advance (length os) d)"
      unfolding decode_open_type_def readsD [OF os(2) d] by simp
  qed
  ultimately show ?thesis using os(1) by (intro passesI [of _ os] appendsI) (simp add: appendsD)
qed

section \<open>SEQUENCE OF and SET OF\<close>

lemma enc_pos: "enc_ok s \<Longrightarrow> per_bit_pos s = length (enc_bits s)"
  by (simp add: per_bit_pos_def enc_bits_def enc_ok_def)

text \<open>A buffered element of a SET OF is copied bit by bit.\<close>

lemma word_bits_drop:
  "r \<le> 8 \<Longrightarrow> word_bits r (ucast (drop_bit (8 - r) (b :: byte)) :: u64) = take r (octet_bits b)"
  by (rule nth_equalityI) (auto simp: nth_word_bits bit_simps)

lemma appends_octets:
  "n \<le> length bytes \<Longrightarrow>
     appends (\<lambda>s. foldl (\<lambda>s k. put_bits (ucast (bytes ! k)) 8 s) s [0..<n]) (bits_of_octets (take n bytes))"
  using appends_write_octets [of 0 n bytes] by (simp add: write_octets_def [abs_def])

lemma appends_put_element:
  assumes "bits_of_octets (el_bytes e) = bs @ pad" "el_bits e = length bs"
  shows "appends (put_element e) bs"
proof -
  let ?n = "length bs div 8" and ?r = "length bs mod 8" and ?b = "el_bytes e"
  have len: "length bs \<le> 8 * length ?b" using arg_cong [OF assms(1), of length] by simp
  then have n: "?n \<le> length ?b" by linarith
  have full: "bits_of_octets (take ?n ?b) = take (8 * ?n) bs"
  proof -
    have "bits_of_octets (take ?n ?b) = take (8 * ?n) (bits_of_octets (take ?n ?b @ drop ?n ?b))"
      using n by (simp only: bits_of_octets_append) simp
    then show ?thesis using assms(1) by simp
  qed
  show ?thesis
  proof (cases "?r = 0")
    case True
    then have "take (8 * ?n) bs = bs" by (metis mult_div_mod_eq add.right_neutral take_all order_refl)
    then have "appends (\<lambda>s. foldl (\<lambda>s k. put_bits (ucast (?b ! k)) 8 s) s [0..<?n]) bs"
      using appends_octets [OF n] full by simp
    moreover have "put_element e = (\<lambda>s. foldl (\<lambda>s k. put_bits (ucast (?b ! k)) 8 s) s [0..<?n])"
      using True assms(2) by (simp add: put_element_def fun_eq_iff Let_def)
    ultimately show ?thesis by simp
  next
    case False
    have lt: "?n < length ?b" using len False by (metis less_mult_imp_div_less mult.commute le_neq_implies_less mod_mult_self1_is_0)
    have "drop (8 * ?n) bs @ pad = bits_of_octets (drop ?n ?b)"
    proof -
      have "bits_of_octets ?b = bits_of_octets (take ?n ?b) @ bits_of_octets (drop ?n ?b)"
        by (metis append_take_drop_id bits_of_octets_append)
      then show ?thesis using assms(1) full by (metis append_take_drop_id append.assoc same_append_eq)
    qed
    then have "drop (8 * ?n) bs @ pad = octet_bits (?b ! ?n) @ bits_of_octets (drop (Suc ?n) ?b)"
      using lt by (simp only: Cons_nth_drop_Suc [symmetric] bits_of_octets_Cons)
    then have "take ?r (drop (8 * ?n) bs @ pad) = take ?r (octet_bits (?b ! ?n))"
      by (simp del: word_bits.simps)
    moreover have "length (drop (8 * ?n) bs) = ?r" by (simp add: minus_mult_div_eq_mod [symmetric])
    ultimately have rest: "drop (8 * ?n) bs = take ?r (octet_bits (?b ! ?n))" by (metis append_eq_conv_conj)
    have "appends (\<lambda>s. put_bits (ucast (drop_bit (8 - ?r) (?b ! ?n))) ?r
        (foldl (\<lambda>s k. put_bits (ucast (?b ! k)) 8 s) s [0..<?n])) (take (8 * ?n) bs @ drop (8 * ?n) bs)"
      using appends_comp [OF appends_octets [OF n] appends_put_bits [of "ucast (drop_bit (8 - ?r) (?b ! ?n))" ?r]]
      by (simp only: full rest word_bits_drop [of ?r] mod_less_divisor zero_less_numeral less_imp_le)
    moreover have "put_element e = (\<lambda>s. put_bits (ucast (drop_bit (8 - ?r) (?b ! ?n))) ?r
        (foldl (\<lambda>s k. put_bits (ucast (?b ! k)) 8 s) s [0..<?n]))"
      using False assms(2) by (simp add: put_element_def fun_eq_iff Let_def)
    ultimately show ?thesis by simp
  qed
qed

lemma encode_element_appends:
  assumes "appends (enc def v) bs"
  shows "appends (put_element (fst (encode_element enc def v))) bs" "\<not> snd (encode_element enc def v)"
proof -
  obtain pad where "bits_of_octets (per_bytes bs) = bs @ replicate pad False" using per_bytes_bits by blast
  moreover have "fst (encode_element enc def v) = \<lparr>el_bytes = per_bytes bs, el_bits = length bs\<rparr>"
    using emit_bits_ok [of new_per_enc bs]
    by (simp add: encode_element_def Let_def appendsD [OF assms] per_bytes_def enc_pos)
  ultimately show "appends (put_element (fst (encode_element enc def v))) bs"
    by (intro appends_put_element) simp_all
  show "\<not> snd (encode_element enc def v)"
    by (simp add: encode_element_def Let_def appendsD [OF assms] emit_bits_failed)
qed

text \<open>A list that is in order already is left as it is.\<close>

lemma insert_stable_first: "\<forall>y \<in> set ys. \<not> lt y x \<Longrightarrow> insert_stable lt x ys = x # ys"
  by (cases ys) auto

lemma stable_sort_ordered: "sorted_wrt (\<lambda>a b. \<not> lt b a) xs \<Longrightarrow> stable_sort lt xs = xs"
  by (induction xs) (auto simp: stable_sort_def insert_stable_first)

text \<open>Runs of elements.\<close>

lemma appends_foldl:
  "\<forall>x \<in> set xs. appends (f x) (b x) \<Longrightarrow> appends (\<lambda>s. foldl (\<lambda>s x. f x s) s xs) (concat (map b xs))"
proof (induction xs)
  case (Cons x xs)
  then show ?case using appends_comp [of "f x" "b x" "\<lambda>s. foldl (\<lambda>s x. f x s) s xs"] by simp
qed (simp add: appends_id)

lemma reads_elements:
  assumes "shaped \<Gamma> edef (td_new edef)"
  shows "\<forall>v \<in> set ws. transfers \<Gamma> k enc dec edef v \<Longrightarrow>
    reads k (read_elements dec edef (length ws) seq) (concat (map (bits_of enc edef) ws)) (seq @ ws)"
proof (induction ws arbitrary: seq)
  case Nil
  then show ?case by (simp add: reads_return)
next
  case (Cons w ws)
  have "reads k (\<lambda>d. rbind (dec edef (td_new edef) d) (\<lambda>(v, d). read_elements dec edef (length ws) (seq @ [v]) d))
      (bits_of enc edef w @ concat (map (bits_of enc edef) ws)) ((seq @ [w]) @ ws)"
    by (rule reads_bind [OF transfersD(2) [OF _ assms] Cons.IH]) (use Cons.prems in simp_all)
  then show ?case by simp
qed

lemma read_fragment_elements:
  assumes "dec edef (td_new edef) d = Inr (v, d')" "m \<le> kMaxZeroWidthItems \<or> per_dec_bit_pos d' \<noteq> per_dec_bit_pos d"
  shows "read_fragment dec def edef m seq d = read_elements dec edef m seq d"
  using assms by (cases m) (auto simp: read_fragment_def)

lemma reads_element_fragment:
  assumes "shaped \<Gamma> edef (td_new edef)" "\<forall>v \<in> set ws. transfers \<Gamma> k enc dec edef v"
    "length ws \<le> kMaxZeroWidthItems \<or> (\<forall>v \<in> set ws. bits_of enc edef v \<noteq> [])"
  shows "reads k (read_fragment dec def edef (length ws) seq) (concat (map (bits_of enc edef) ws)) (seq @ ws)"
proof (cases ws)
  case Nil
  then show ?thesis by (simp add: read_fragment_def reads_def advance_0)
next
  case (Cons w ws')
  show ?thesis
  proof (rule readsI)
    fix d rest
    assume d: "dec_ok d" "pd_depth d + k \<le> kMaxDecodeDepth"
      "dec_bits d = concat (map (bits_of enc edef) ws) @ rest"
    have "dec edef (td_new edef) d = Inr (w, advance (length (bits_of enc edef w)) d)"
      using assms(2) d Cons by (intro readsD [OF transfersD(2) [OF _ assms(1)]]) auto
    then have "read_fragment dec def edef (length ws) seq d = read_elements dec edef (length ws) seq d"
      by (rule read_fragment_elements) (use assms(3) Cons in auto)
    also have "\<dots> = Inr (seq @ ws, advance (length (concat (map (bits_of enc edef) ws))) d)"
      by (rule readsD [OF reads_elements [OF assms(1,2)] d])
    finally show "read_fragment dec def edef (length ws) seq d
        = Inr (seq @ ws, advance (length (concat (map (bits_of enc edef) ws))) d)" .
  qed
qed

definition seqof_sendable :: "per_encoder \<Rightarrow> type_env \<Rightarrow> type_desc \<Rightarrow> seq_of_spec \<Rightarrow> asn1_value list \<Rightarrow> bool" where
  "seqof_sendable enc \<Gamma> def spec vs \<longleftrightarrow>
     (let edef = \<Gamma> (sos_element spec); pc = sos_constraints spec in
      size_wf pc \<and> size_permitted pc (length vs) \<and>
      (length vs \<le> kMaxZeroWidthItems \<or> list_all (\<lambda>v. bits_of enc edef v \<noteq> []) vs) \<and>
      (number (builtin_tag def) = UT_Set \<longrightarrow>
         sorted_wrt (\<lambda>a b. \<not> padded_less b a) (map (\<lambda>v. fst (encode_element enc edef v)) vs)))"

lemma seqof_transfers:
  assumes "seqof_sendable enc \<Gamma> def spec vs" "td_seq_of_spec def = Some spec" "td_per_handler def = Some H_SeqOf"
    "\<forall>v \<in> set vs. transfers \<Gamma> k enc dec (\<Gamma> (sos_element spec)) v" "env_wf \<Gamma>"
  shows "passes \<Gamma> k def (per_seqof_encode enc \<Gamma> def vs) (per_seqof_decode dec \<Gamma> def) (V_SeqOf vs)"
proof -
  let ?edef = "\<Gamma> (sos_element spec)"
  note new = new_shaped [OF assms(5)]
  define sorted where "sorted = (if number (builtin_tag def) = UT_Set \<and> length vs > 1
    then map (\<lambda>v. fst (encode_element enc ?edef v)) vs else [])"
  define item where "item = (\<lambda>i s. if sorted = [] then enc ?edef (vs ! i) s else put_element (sorted ! i) s)"
  have app: "appends (enc ?edef v) (bits_of enc ?edef v)" if "v \<in> set vs" for v
    using assms(4) that transfersD(1) by blast
  have item: "appends (item i) (bits_of enc ?edef (vs ! i))" if "i < length vs" for i
  proof -
    note a = app [OF nth_mem [OF that]]
    have "item i = (if sorted = [] then enc ?edef (vs ! i) else put_element (sorted ! i))" "vs \<noteq> []"
      using that by (auto simp: item_def)
    with a encode_element_appends(1) [of enc ?edef "vs ! i", OF a] that show ?thesis by (simp add: sorted_def)
  qed
  have span: "item_codec (\<lambda>from to s. foldl (\<lambda>s i. item i s) s [from..<min to (length vs)])
      (read_fragment dec def ?edef) (\<lambda>i. take i vs) (length vs) k"
  proof unfold_locales
    fix i j :: nat
    assume ij: "i \<le> j" "j \<le> length vs"
    let ?ws = "take (j - i) (drop i vs)"
    have ws: "?ws = map ((!) vs) [i..<j]" using ij by (intro nth_equalityI) simp_all
    have sub: "set ?ws \<subseteq> set vs" by (meson set_drop_subset set_take_subset subset_trans)
    have "appends (\<lambda>s. foldl (\<lambda>s i. item i s) s [i..<j]) (concat (map (bits_of enc ?edef \<circ> (!) vs) [i..<j]))"
      using appends_foldl [of "[i..<j]" item "bits_of enc ?edef \<circ> (!) vs"] item ij by simp
    moreover have "reads k (read_fragment dec def ?edef (length ?ws) (take i vs)) (concat (map (bits_of enc ?edef) ?ws))
        (take i vs @ ?ws)"
      by (rule reads_element_fragment [OF new])
         (use assms(1,4) sub ij in \<open>auto simp: seqof_sendable_def Let_def list_all_iff\<close>)
    moreover have "length ?ws = j - i" "take i vs @ ?ws = take j vs" "min j (length vs) = j"
      using ij take_add [of i "j - i" vs] by simp_all
    ultimately show "\<exists>bs. appends (\<lambda>s. foldl (\<lambda>s i. item i s) s [i..<min j (length vs)]) bs
        \<and> reads k (read_fragment dec def ?edef (j - i) (take i vs)) bs (take j vs)"
      unfolding ws by (auto simp: comp_def)
  qed
  obtain bs where bs: "appends (encode_ext_size_and_items (sos_constraints spec) (length vs)
      (\<lambda>from to s. foldl (\<lambda>s i. item i s) s [from..<min to (length vs)])) bs"
    "reads k (decode_ext_size_and_items (sos_constraints spec) (read_fragment dec def ?edef) []) bs (length vs, vs)"
    using item_codec.ext_size_contract [OF span, of "sos_constraints spec"] assms(1)
    by (auto simp: seqof_sendable_def Let_def size_permitted_def)
  have set_of: "sorted_set_of_elements enc ?edef vs s = (map (\<lambda>v. fst (encode_element enc ?edef v)) vs, s)"
    if "number (builtin_tag def) = UT_Set" for s
  proof -
    have "\<not> list_ex snd (map (encode_element enc ?edef) vs)"
      using encode_element_appends(2) [of enc ?edef, OF app] by (auto simp: list_ex_iff)
    moreover have "sorted_wrt (\<lambda>a b. \<not> padded_less b a) (map (\<lambda>v. fst (encode_element enc ?edef v)) vs)"
      using that assms(1) unfolding seqof_sendable_def Let_def by blast
    note stable_sort_ordered [OF this]
    ultimately show ?thesis by (simp add: sorted_set_of_elements_def comp_def)
  qed
  have "(if number (builtin_tag def) = UT_Set \<and> 1 < length vs
        then sorted_set_of_elements enc ?edef vs s else ([], s)) = (sorted, s)" for s
    by (simp add: sorted_def set_of)
  then have "per_seqof_encode enc \<Gamma> def vs s = encode_ext_size_and_items (sos_constraints spec) (length vs)
      (\<lambda>from to s. foldl (\<lambda>s i. item i s) s [from..<min to (length vs)]) s" for s
    unfolding per_seqof_encode_def assms(2) option.case Let_def item_def by (simp only: prod.case)
  then have "appends (per_seqof_encode enc \<Gamma> def vs) bs" using bs(1) by (simp add: appends_def)
  moreover have "reads k (per_seqof_decode dec \<Gamma> def dest) bs (V_SeqOf vs)" if "shaped \<Gamma> def dest" for dest
  proof -
    obtain us where "dest = V_SeqOf us" using \<open>shaped \<Gamma> def dest\<close> unfolding shaped_seqof_iff [OF assms(3,2)] by blast
    then show ?thesis
      using reads_map [OF bs(2), of "\<lambda>x. V_SeqOf (snd x)"] assms(2)
      by (simp add: per_seqof_decode_def [abs_def] case_prod_unfold)
  qed
  ultimately show ?thesis by (rule passesI)
qed

section \<open>Presence bits\<close>

fun words_of :: "nat \<Rightarrow> bool list \<Rightarrow> u64 list" where
  "words_of 0 bs = []"
| "words_of (Suc w) bs = push_bit (64 - min 64 (length bs)) (bits_value (take 64 bs)) # words_of w (drop 64 bs)"

definition presence_of :: "bool list \<Rightarrow> presence_bits" where
  "presence_of bs = \<lparr>pb_words = words_of ((length bs + 63) div 64) bs, pb_n = length bs\<rparr>"

lemma reads_presence_words:
  "length bs \<le> 64 * w \<Longrightarrow> reads k (read_presence_words w (length bs)) bs (words_of w bs)"
proof (induction w arbitrary: bs)
  case (Suc w)
  let ?k = "min 64 (length bs)"
  have t: "take 64 bs = take ?k bs" "drop 64 bs = drop ?k bs" by (cases "length bs < 64"; simp)+
  have len: "length (take ?k bs) = ?k" "length (drop ?k bs) = length bs - ?k" by simp_all
  have "reads k (\<lambda>d. rbind (read_presence_words w (length bs - ?k) d)
      (\<lambda>(ws, d). Inr (push_bit (64 - ?k) (bits_value (take ?k bs)) # ws, d))) (drop ?k bs)
      (push_bit (64 - ?k) (bits_value (take ?k bs)) # words_of w (drop ?k bs))"
    by (rule reads_map [of k "read_presence_words w (length bs - ?k)" "drop ?k bs"
        "words_of w (drop ?k bs)" "\<lambda>ws. push_bit (64 - ?k) (bits_value (take ?k bs)) # ws"])
       (use Suc.IH [of "drop ?k bs"] Suc.prems in simp)
  from reads_bind [OF reads_get_bits_list [of k "take ?k bs"], where h = "\<lambda>bits d.
      rbind (read_presence_words w (length bs - ?k) d) (\<lambda>(ws, d). Inr (push_bit (64 - ?k) bits # ws, d))", OF this]
  show ?case by (simp only: read_presence_words.simps words_of.simps t len append_take_drop_id Let_def)
qed (simp add: reads_def advance_0)

lemma reads_presence: "reads k (read_presence (length bs)) bs (presence_of bs)"
proof -
  have "length bs \<le> 64 * ((length bs + 63) div 64)" by linarith
  from reads_map [OF reads_presence_words [OF this], of k "\<lambda>ws. \<lparr>pb_words = ws, pb_n = length bs\<rparr>"]
  show ?thesis by (simp add: read_presence_def [abs_def] presence_of_def)
qed

lemma nth_words_of:
  "j < w \<Longrightarrow> words_of w bs ! j
     = push_bit (64 - min 64 (length bs - 64 * j)) (bits_value (take 64 (drop (64 * j) bs)))"
  by (induction w arbitrary: j bs) (auto simp: nth_Cons ac_simps split: nat.splits)

lemma bit_pushed_bits:
  assumes "m < length bs" "length bs \<le> 64"
  shows "bit (push_bit (64 - length bs) (bits_value bs)) (63 - m) \<longleftrightarrow> bs ! m"
proof -
  define l where "l = length bs"
  have e: "63 - m - (64 - l) = l - 1 - m" "64 - l \<le> 63 - m" "l - 1 - (l - 1 - m) = m" "l - 1 - m < l" "l - 1 - m < 64"
    using assms unfolding l_def by linarith+
  have "bit (push_bit (64 - l) (bits_value bs)) (63 - m) \<longleftrightarrow> bit (bits_value bs) (l - 1 - m)"
    using e(2) by (simp only: bit_push_bit_iff e(1) possible_bit_word) auto
  also have "\<dots> \<longleftrightarrow> bs ! m"
    using e(4,5) by (simp only: bit_bits_value l_def [symmetric] e(3)) blast
  finally show ?thesis unfolding l_def .
qed

lemma presence_bit_of: "presence_bit (presence_of bs) i \<longleftrightarrow> i < length bs \<and> bs ! i"
proof (cases "i < length bs")
  case True
  let ?j = "i div 64" and ?m = "i mod 64"
  let ?bs = "take 64 (drop (64 * ?j) bs)"
  have i: "i = 64 * ?j + ?m" "?m < 64" by simp_all
  have j: "?j < (length bs + 63) div 64" using True by linarith
  have "?m < length bs - 64 * ?j" using True i(1) by linarith
  then have len: "?m < length ?bs" "length ?bs = min 64 (length bs - 64 * ?j)" "length ?bs \<le> 64"
    using i(2) by simp_all
  have "bit (push_bit (64 - length ?bs) (bits_value ?bs)) (63 - ?m) \<longleftrightarrow> ?bs ! ?m"
    by (rule bit_pushed_bits [OF len(1,3)])
  then have "bit (words_of ((length bs + 63) div 64) bs ! ?j) (63 - ?m) \<longleftrightarrow> bs ! i"
    unfolding nth_words_of [OF j] len(2) [symmetric] using i True by simp
  moreover have "(drop_bit (63 - ?m) w AND 1 \<noteq> 0) = bit w (63 - ?m)" for w :: u64
    by (simp add: and_one_eq mod_2_eq_odd bit_iff_odd_drop_bit)
  ultimately show ?thesis using True by (simp add: presence_bit_def presence_of_def)
qed (simp add: presence_bit_def presence_of_def)

section \<open>The root of a SEQUENCE\<close>

text \<open>The first \<open>j\<close> rows are the sender's, the others still those of the destination.\<close>

definition filled :: "'a list \<Rightarrow> nat \<Rightarrow> 'a list \<Rightarrow> 'a list" where
  "filled src j ms = take j src @ drop j ms"

lemma filled_facts:
  assumes "length src = length ms" "i < length ms"
  shows "length (filled src i ms) = length ms" "filled src i ms ! i = ms ! i"
    "(filled src i ms)[i := src ! i] = filled src (Suc i) ms"
proof -
  have "drop i ms = ms ! i # drop (Suc i) ms" using assms(2) by (simp add: Cons_nth_drop_Suc)
  then show "length (filled src i ms) = length ms" "filled src i ms ! i = ms ! i"
    "(filled src i ms)[i := src ! i] = filled src (Suc i) ms"
    using assms by (simp_all add: filled_def nth_append list_update_append take_Suc_conv_app_nth)
qed

lemma filled_all: "length src = length ms \<Longrightarrow> length ms \<le> j \<Longrightarrow> filled src j ms = src"
  by (simp add: filled_def)

lemma filled_0 [simp]: "filled src 0 ms = ms"
  by (simp add: filled_def)

text \<open>An absent member is suppressed on the wire, so a default must restore it.\<close>

definition default_ok :: "member \<Rightarrow> nat \<Rightarrow> asn1_value option list \<Rightarrow> bool" where
  "default_ok mbr i src \<longleftrightarrow>
     (if m_has_default mbr then
        m_optional mbr \<and> src ! i \<noteq> None \<and>
        (\<exists>dv eq f. m_is_default_equal mbr = Some eq \<and> m_set_default mbr = Some f \<and>
           (eq src \<longleftrightarrow> src ! i = Some dv) \<and> (\<forall>ms. f ms = ms[i := Some dv]))
      else m_set_default mbr = None)"

definition root_row_ok :: "member \<Rightarrow> nat \<Rightarrow> asn1_value option list \<Rightarrow> bool" where
  "root_row_ok mbr i src \<longleftrightarrow>
     m_type mbr \<noteq> None \<and> (m_optional mbr \<longrightarrow> m_has_ops mbr) \<and> (\<not> m_optional mbr \<longrightarrow> src ! i \<noteq> None) \<and>
     default_ok mbr i src"

definition sent :: "member \<Rightarrow> asn1_value option list \<Rightarrow> nat \<Rightarrow> bool" where
  "sent mbr src i \<longleftrightarrow> is_present mbr src i \<and> \<not> default_equal mbr src"

fun preamble_bits :: "asn1_value option list \<Rightarrow> nat \<Rightarrow> member list \<Rightarrow> bool list" where
  "preamble_bits src i [] = []"
| "preamble_bits src i (mbr # mbrs) =
     (if m_optional mbr then [sent mbr src i] else []) @ preamble_bits src (Suc i) mbrs"

lemma appends_flag: "appends (put_bits (if b then 1 else 0) 1) [b]"
proof -
  have "word_bits 1 (if b then 1 else 0 :: u64) = [b]" by simp
  then show ?thesis by (metis appends_put_bits)
qed

lemma appends_preamble: "appends (encode_preamble src i mbrs) (preamble_bits src i mbrs)"
proof (induction mbrs arbitrary: i)
  case (Cons mbr mbrs)
  show ?case
    using Cons appends_comp [OF appends_flag [of "sent mbr src i"] Cons [of "Suc i"]]
    by (simp add: appends_def sent_def Let_def del: put_bits.simps)
qed (simp add: appends_def)

lemma length_preamble: "length (preamble_bits src i mbrs) = length (filter m_optional mbrs)"
  by (induction mbrs arbitrary: i) auto

text \<open>The object a present row is decoded into.\<close>

lemma present_target:
  assumes "env_wf \<Gamma>" "i < length ms" "m_has_ops mbr" "m_type mbr = Some t"
    "\<And>v. ms ! i = Some v \<Longrightarrow> shaped \<Gamma> (\<Gamma> t) v"
  shows "\<exists>x. member_ptr (set_present \<Gamma> mbr i True ms) i = Some x \<and> shaped \<Gamma> (\<Gamma> t) x \<and>
    (\<forall>v. (set_present \<Gamma> mbr i True ms)[i := v] = ms[i := v])"
  using assms new_shaped [OF assms(1)] by (auto simp: set_present_def member_ptr_def split: option.splits)

lemma rows_shape:
  "rows_ok \<Gamma> spec ms \<Longrightarrow> i < length (ss_members spec) \<Longrightarrow> m_type (ss_members spec ! i) = Some t \<Longrightarrow> ms ! i = Some v \<Longrightarrow>
     shaped \<Gamma> (\<Gamma> t) v"
  by (fastforce simp: rows_ok_def split: option.splits)

definition members_transfer :: "type_env \<Rightarrow> nat \<Rightarrow> per_encoder \<Rightarrow> per_decoder \<Rightarrow> sequence_spec \<Rightarrow> asn1_value option list \<Rightarrow> bool" where
  "members_transfer \<Gamma> k enc dec spec src \<longleftrightarrow>
     length src = length (ss_members spec) \<and>
     (\<forall>i < length src. \<forall>v t. src ! i = Some v \<longrightarrow> m_type (ss_members spec ! i) = Some t \<longrightarrow> transfers \<Gamma> k enc dec (\<Gamma> t) v)"

text \<open>One row that is sent, and one that is suppressed.\<close>

lemma row_sent_value:
  assumes "root_row_ok mbr i src" "m_optional mbr \<longrightarrow> sent mbr src i" "i < length src"
  shows "\<exists>v. src ! i = Some v"
  using assms by (auto simp: sent_def is_present_def member_ptr_def root_row_ok_def)

lemma encode_row_on:
  assumes "root_row_ok mbr i src" "m_optional mbr \<longrightarrow> sent mbr src i" "i < length src" "src ! i = Some v"
    "m_type mbr = Some t"
  shows "encode_root_members enc \<Gamma> src i (mbr # mbrs) s = encode_root_members enc \<Gamma> src (Suc i) mbrs (enc (\<Gamma> t) v s)"
  using assms
  by (cases "m_optional mbr") (auto simp: sent_def member_ptr_def default_equal_def root_row_ok_def default_ok_def)

lemma encode_row_off:
  assumes "root_row_ok mbr i src" "m_optional mbr" "\<not> sent mbr src i"
  shows "encode_root_members enc \<Gamma> src i (mbr # mbrs) s = encode_root_members enc \<Gamma> src (Suc i) mbrs s"
  using assms by (auto simp: sent_def root_row_ok_def)

text \<open>The object a row that is sent is decoded into, and the row that is not sent.\<close>

lemma row_target:
  assumes "env_wf \<Gamma>" "rows_ok \<Gamma> spec ms" "i < length (ss_members spec)" "length src = length ms"
    "root_row_ok (ss_members spec ! i) i src" "m_type (ss_members spec ! i) = Some t"
    "m_optional (ss_members spec ! i) \<or> i < root_end spec"
    "ms' = (if m_optional (ss_members spec ! i) then set_present \<Gamma> (ss_members spec ! i) i True (filled src i ms)
      else filled src i ms)"
  shows "\<exists>x. member_ptr ms' i = Some x \<and> shaped \<Gamma> (\<Gamma> t) x \<and> (\<forall>v. ms'[i := v] = (filled src i ms)[i := v])"
proof -
  let ?mbr = "ss_members spec ! i"
  have i: "i < length ms" using assms(2,3) by (simp add: rows_ok_def)
  note sp = filled_facts [OF assms(4) i]
  show ?thesis
  proof (cases "m_optional ?mbr")
    case True
    then have "m_has_ops ?mbr" using assms(5) by (simp add: root_row_ok_def)
    then show ?thesis
      using present_target [OF assms(1), of i "filled src i ms" ?mbr t] i sp assms(6,8) True rows_shape [OF assms(2,3,6)]
      by simp
  next
    case False
    obtain x where "member_ptr ms i = Some x" "shaped \<Gamma> (\<Gamma> t) x"
      using rows_member [OF assms(2,3,6)] False assms(7) by blast
    then show ?thesis using False assms(8) sp i by (simp add: member_ptr_def)
  qed
qed

lemma row_restored:
  assumes "rows_ok \<Gamma> spec ms" "i < length (ss_members spec)" "length src = length ms"
    "root_row_ok (ss_members spec ! i) i src" "m_optional (ss_members spec ! i)" "\<not> sent (ss_members spec ! i) src i"
  shows "apply_default (ss_members spec ! i) (set_present \<Gamma> (ss_members spec ! i) i False (filled src i ms))
    = filled src (Suc i) ms"
proof -
  let ?mbr = "ss_members spec ! i"
  have i: "i < length ms" "i < length src" using assms(1-3) by (simp_all add: rows_ok_def)
  note sp = filled_facts [OF assms(3) i(1)]
  have ops: "m_has_ops ?mbr" using assms(4,5) by (simp add: root_row_ok_def)
  show ?thesis
  proof (cases "m_has_default ?mbr")
    case True
    with assms(4) obtain dv eq f where df: "m_is_default_equal ?mbr = Some eq" "m_set_default ?mbr = Some f"
      "eq src \<longleftrightarrow> src ! i = Some dv" "\<And>ms. f ms = ms[i := Some dv]" "src ! i \<noteq> None"
      by (auto simp: root_row_ok_def default_ok_def)
    then have "src ! i = Some dv"
      using assms(6) True ops i by (auto simp: sent_def is_present_def member_ptr_def default_equal_def)
    then show ?thesis using df ops sp(3) by (simp add: apply_default_def set_present_def)
  next
    case False
    then have "m_set_default ?mbr = None" "src ! i = None"
      using assms(4,6) ops i by (auto simp: root_row_ok_def default_ok_def sent_def is_present_def member_ptr_def default_equal_def)
    then show ?thesis using ops sp(3) by (simp add: apply_default_def set_present_def)
  qed
qed

lemma decode_row_on:
  assumes "env_wf \<Gamma>" "rows_ok \<Gamma> spec ms" "i < length (ss_members spec)" "i < root_end spec" "length src = length ms"
    "root_row_ok (ss_members spec ! i) i src" "m_type (ss_members spec ! i) = Some t"
    "m_optional (ss_members spec ! i) \<longrightarrow> presence_bit bitmap opt"
  shows "\<exists>x. shaped \<Gamma> (\<Gamma> t) x \<and>
    (\<forall>d. decode_root_members dec \<Gamma> bitmap opt i (ss_members spec ! i # mbrs) (filled src i ms) d =
      rbind (dec (\<Gamma> t) x d) (\<lambda>(v, d). decode_root_members dec \<Gamma> bitmap
        (if m_optional (ss_members spec ! i) then Suc opt else opt) (Suc i) mbrs ((filled src i ms)[i := Some v]) d))"
  using row_target [OF assms(1-3,5-7) disjI2 [OF assms(4)] refl] assms(7,8)
  by (cases "m_optional (ss_members spec ! i)") (auto simp: Let_def)

lemma decode_row_off:
  assumes "rows_ok \<Gamma> spec ms" "i < length (ss_members spec)" "length src = length ms"
    "root_row_ok (ss_members spec ! i) i src" "m_optional (ss_members spec ! i)" "\<not> presence_bit bitmap opt"
    "\<not> sent (ss_members spec ! i) src i"
  shows "decode_root_members dec \<Gamma> bitmap opt i (ss_members spec ! i # mbrs) (filled src i ms) d =
      decode_root_members dec \<Gamma> bitmap (Suc opt) (Suc i) mbrs (filled src (Suc i) ms) d"
proof -
  obtain t where "m_type (ss_members spec ! i) = Some t" using assms(4) by (auto simp: root_row_ok_def)
  then show ?thesis using assms(5,6) row_restored [OF assms(1-5,7)] by (simp add: Let_def)
qed

lemma root_transfers:
  assumes "members_transfer \<Gamma> k enc dec spec src" "env_wf \<Gamma>"
  shows "i + length mbrs \<le> root_end spec \<Longrightarrow> mbrs = take (length mbrs) (drop i (ss_members spec)) \<Longrightarrow>
    \<forall>j < length mbrs. root_row_ok (mbrs ! j) (i + j) src \<Longrightarrow>
    \<exists>bs. appends (encode_root_members enc \<Gamma> src i mbrs) bs \<and>
      (\<forall>bitmap opt ms. rows_ok \<Gamma> spec ms \<longrightarrow>
         (\<forall>j < length (preamble_bits src i mbrs). presence_bit bitmap (opt + j) = preamble_bits src i mbrs ! j) \<longrightarrow>
         reads k (decode_root_members dec \<Gamma> bitmap opt i mbrs (filled src i ms)) bs (filled src (i + length mbrs) ms))"
proof (induction mbrs arbitrary: i)
  case Nil
  then show ?case by (auto simp: appends_def reads_def advance_0 intro!: exI [of _ "[]"])
next
  case (Cons mbr mbrs)
  have mbr: "mbr = ss_members spec ! i" "i < length (ss_members spec)"
    and rest: "mbrs = take (length mbrs) (drop (Suc i) (ss_members spec))"
    using take_drop_Cons [of mbr mbrs "length mbrs" i "ss_members spec"] Cons.prems(2) by simp_all
  have ok: "root_row_ok mbr i src" using Cons.prems(3) by (metis add.right_neutral length_greater_0_conv list.distinct(1) nth_Cons_0)
  then obtain t where t: "m_type mbr = Some t" by (auto simp: root_row_ok_def)
  have len: "length src = length (ss_members spec)" using assms(1) by (simp add: members_transfer_def)
  have "\<forall>j < length mbrs. root_row_ok (mbrs ! j) (Suc i + j) src"
    using Cons.prems(3) by (metis Suc_less_eq add_Suc add_Suc_right length_Cons nth_Cons_Suc)
  with Cons.IH [of "Suc i"] Cons.prems(1) rest obtain bs where
    bs: "appends (encode_root_members enc \<Gamma> src (Suc i) mbrs) bs"
    and rd: "\<And>bitmap opt ms. rows_ok \<Gamma> spec ms \<Longrightarrow>
      \<forall>j < length (preamble_bits src (Suc i) mbrs). presence_bit bitmap (opt + j) = preamble_bits src (Suc i) mbrs ! j \<Longrightarrow>
      reads k (decode_root_members dec \<Gamma> bitmap opt (Suc i) mbrs (filled src (Suc i) ms)) bs
        (filled src (i + length (mbr # mbrs)) ms)"
    by auto
  let ?p = "preamble_bits src i (mbr # mbrs)" and ?q = "preamble_bits src (Suc i) mbrs"
  have lm: "length src = length ms" if "rows_ok \<Gamma> spec ms" for ms using that len by (simp add: rows_ok_def)
  have shift: "\<forall>j < length ?q. presence_bit bitmap ((if m_optional mbr then Suc opt else opt) + j) = ?q ! j"
    and first: "m_optional mbr \<Longrightarrow> presence_bit bitmap opt = sent mbr src i"
    if "\<forall>j < length ?p. presence_bit bitmap (opt + j) = ?p ! j" for bitmap opt
    using that by (force split: if_splits)+
  show ?case
  proof (cases "m_optional mbr \<longrightarrow> sent mbr src i")
    case True
    obtain v where v: "src ! i = Some v" using row_sent_value [OF ok True] mbr(2) len by auto
    have tr: "transfers \<Gamma> k enc dec (\<Gamma> t) v"
      using assms(1) v t mbr len by (auto simp: members_transfer_def)
    let ?a = "bits_of enc (\<Gamma> t) v"
    have "appends (encode_root_members enc \<Gamma> src i (mbr # mbrs)) (?a @ bs)"
      using appends_comp [OF transfersD(1) [OF tr] bs] encode_row_on [OF ok True _ v t] mbr(2) len
      by (simp add: appends_def)
    moreover have "reads k (decode_root_members dec \<Gamma> bitmap opt i (mbr # mbrs) (filled src i ms)) (?a @ bs)
        (filled src (i + length (mbr # mbrs)) ms)"
      if ms: "rows_ok \<Gamma> spec ms" and p: "\<forall>j < length ?p. presence_bit bitmap (opt + j) = ?p ! j" for bitmap opt ms
    proof -
      let ?opt = "if m_optional mbr then Suc opt else opt"
      obtain x where x: "shaped \<Gamma> (\<Gamma> t) x"
        "\<And>d. decode_root_members dec \<Gamma> bitmap opt i (mbr # mbrs) (filled src i ms) d =
          rbind (dec (\<Gamma> t) x d) (\<lambda>(v, d). decode_root_members dec \<Gamma> bitmap ?opt (Suc i) mbrs ((filled src i ms)[i := Some v]) d)"
        using decode_row_on [OF assms(2) ms mbr(2) _ lm [OF ms], of t bitmap opt dec mbrs] ok t True first [OF p] Cons.prems(1)
        by (auto simp: mbr(1))
      have nxt: "(filled src i ms)[i := Some v] = filled src (Suc i) ms"
        using filled_facts(3) [OF lm [OF ms], of i] mbr(2) len lm [OF ms] v by simp
      have "reads k (\<lambda>d. rbind (dec (\<Gamma> t) x d) (\<lambda>(v, d). decode_root_members dec \<Gamma> bitmap ?opt (Suc i) mbrs
          ((filled src i ms)[i := Some v]) d)) (?a @ bs) (filled src (i + length (mbr # mbrs)) ms)"
        by (rule reads_bind [OF transfersD(2) [OF tr x(1)]]) (unfold nxt, rule rd [OF ms shift [OF p]])
      then show ?thesis by (simp add: x(2) [abs_def])
    qed
    ultimately show ?thesis by blast
  next
    case False
    have "appends (encode_root_members enc \<Gamma> src i (mbr # mbrs)) bs"
      using bs encode_row_off [OF ok] False by (simp add: appends_def)
    moreover have "reads k (decode_root_members dec \<Gamma> bitmap opt i (mbr # mbrs) (filled src i ms)) bs
        (filled src (i + length (mbr # mbrs)) ms)"
      if ms: "rows_ok \<Gamma> spec ms" and p: "\<forall>j < length ?p. presence_bit bitmap (opt + j) = ?p ! j" for bitmap opt ms
    proof -
      have "decode_root_members dec \<Gamma> bitmap opt i (mbr # mbrs) (filled src i ms) =
          decode_root_members dec \<Gamma> bitmap (Suc opt) (Suc i) mbrs (filled src (Suc i) ms)"
        using decode_row_off [OF ms mbr(2) lm [OF ms], of bitmap opt dec mbrs] ok False first [OF p] by (auto simp: mbr(1))
      then show ?thesis using rd [OF ms shift [OF p]] False by simp
    qed
    ultimately show ?thesis by blast
  qed
qed

section \<open>Extension additions\<close>

definition addition_ok :: "sequence_spec \<Rightarrow> asn1_value option list \<Rightarrow> nat \<Rightarrow> bool" where
  "addition_ok spec src i \<longleftrightarrow>
     (let mbr = ss_members spec ! i in
      m_type mbr \<noteq> None \<and> m_has_ops mbr \<and> (src ! i = None \<longrightarrow> m_set_default mbr = None))"

lemma addition_present:
  "addition_ok spec src i \<Longrightarrow> i < length src \<Longrightarrow> is_present (ss_members spec ! i) src i \<longleftrightarrow> src ! i \<noteq> None"
  by (simp add: addition_ok_def Let_def is_present_def member_ptr_def)

text \<open>Rows of the sender that are empty are cleared, with or without the default callback.\<close>

lemma clear_filled:
  assumes "length src = length ms"
  shows "b \<le> e \<Longrightarrow> e \<le> length ms \<Longrightarrow> \<forall>i \<in> {b..<e}. addition_ok spec src i \<and> src ! i = None \<Longrightarrow>
    clear_members \<Gamma> spec [b..<e] (filled src b ms) = filled src e ms"
proof (induction "e - b" arbitrary: b)
  case (Suc n)
  then have b: "b < e" "b < length ms" "addition_ok spec src b" "src ! b = None" by auto
  have "set_present \<Gamma> (ss_members spec ! b) b False (filled src b ms) = filled src (Suc b) ms"
    using filled_facts(3) [OF assms b(2)] b(3,4) by (simp add: set_present_def addition_ok_def Let_def)
  then have "clear_members \<Gamma> spec [b..<e] (filled src b ms) = clear_members \<Gamma> spec [Suc b..<e] (filled src (Suc b) ms)"
    using b(1) by (simp add: clear_members_def upt_conv_Cons)
  also have "\<dots> = filled src e ms" using Suc b(1) by (intro Suc.hyps(1)) auto
  finally show ?case .
qed (simp add: clear_members_def)

lemma default_filled:
  assumes "length src = length ms"
  shows "b \<le> e \<Longrightarrow> e \<le> length ms \<Longrightarrow> \<forall>i \<in> {b..<e}. addition_ok spec src i \<and> src ! i = None \<Longrightarrow>
    default_members \<Gamma> spec [b..<e] (filled src b ms) = filled src e ms"
proof (induction "e - b" arbitrary: b)
  case (Suc n)
  then have b: "b < e" "b < length ms" "addition_ok spec src b" "src ! b = None" by auto
  have "apply_default (ss_members spec ! b) (set_present \<Gamma> (ss_members spec ! b) b False (filled src b ms)) = filled src (Suc b) ms"
    using filled_facts(3) [OF assms b(2)] b(3,4) by (simp add: set_present_def addition_ok_def Let_def apply_default_def)
  then have "default_members \<Gamma> spec [b..<e] (filled src b ms) = default_members \<Gamma> spec [Suc b..<e] (filled src (Suc b) ms)"
    using b(1) by (simp add: default_members_def upt_conv_Cons)
  also have "\<dots> = filled src e ms" using Suc b(1) by (intro Suc.hyps(1)) auto
  finally show ?case .
qed (simp add: default_members_def)

text \<open>The members of an extension addition group.\<close>

lemma appends_bitmap:
  "appends (encode_group_bitmap spec src is)
     (map (\<lambda>i. is_present (ss_members spec ! i) src i) (filter ((!) (ss_group_optional spec)) is))"
proof (induction "is")
  case (Cons i "is")
  show ?case
    using Cons appends_comp [OF appends_flag [of "is_present (ss_members spec ! i) src i"] Cons]
    by (simp add: appends_def del: put_bits.simps)
qed (simp add: appends_def)

lemma reads_bitmap:
  "\<forall>i \<in> set is. \<not> ss_group_optional spec ! i \<longrightarrow> f i \<Longrightarrow>
     reads k (decode_group_bitmap spec is) (map f (filter ((!) (ss_group_optional spec)) is)) (map f is)"
proof (induction "is")
  case (Cons i "is")
  have IH: "reads k (decode_group_bitmap spec is) (map f (filter ((!) (ss_group_optional spec)) is)) (map f is)"
    using Cons by simp
  show ?case
  proof (cases "ss_group_optional spec ! i")
    case True
    have "reads k (\<lambda>d. rbind (get_bits 1 d) (\<lambda>(b, d). rbind (decode_group_bitmap spec is d) (\<lambda>(ps, d). Inr ((b \<noteq> 0) # ps, d))))
        ([f i] @ map f (filter ((!) (ss_group_optional spec)) is)) (f i # map f is)"
    proof (rule reads_bind)
      show "reads k (get_bits 1) [f i] (bits_value [f i])" using reads_get_bits_list [of k "[f i]"] by simp
      have "(bits_value [f i] \<noteq> 0) = f i" by (simp add: bits_value_def)
      then show "reads k (\<lambda>d. rbind (decode_group_bitmap spec is d) (\<lambda>(ps, d). Inr ((bits_value [f i] \<noteq> 0) # ps, d)))
          (map f (filter ((!) (ss_group_optional spec)) is)) (f i # map f is)"
        using reads_map [OF IH, of "(#) (f i)"] by simp
    qed
    then show ?thesis using True by (simp add: reads_def)
  next
    case False
    then show ?thesis using reads_map [OF IH, of "(#) True"] Cons.prems by (simp add: reads_def)
  qed
qed (simp add: reads_def advance_0)

lemma group_member_transfers:
  assumes "members_transfer \<Gamma> k enc dec spec src" "env_wf \<Gamma>"
  shows "b \<le> e \<Longrightarrow> e \<le> length src \<Longrightarrow>
    \<forall>i \<in> {b..<e}. addition_ok spec src i \<and> (\<not> ss_group_optional spec ! i \<longrightarrow> src ! i \<noteq> None) \<Longrightarrow>
    \<exists>bs. (\<forall>s. encode_group_members enc \<Gamma> spec src [b..<e] s False = (emit_bits bs s, False)) \<and>
      (\<forall>ms. rows_ok \<Gamma> spec ms \<longrightarrow> reads k (decode_group_members dec \<Gamma> spec
         (zip [b..<e] (map (\<lambda>i. src ! i \<noteq> None) [b..<e])) (filled src b ms)) bs (filled src e ms))"
proof (induction "e - b" arbitrary: b)
  case 0
  then show ?case by (auto simp: reads_def advance_0 intro!: exI [of _ "[]"])
next
  case (Suc n)
  then have b: "b < e" "b < length src" "addition_ok spec src b" "\<not> ss_group_optional spec ! b \<longrightarrow> src ! b \<noteq> None"
    by auto
  have len: "length src = length (ss_members spec)" using assms(1) by (simp add: members_transfer_def)
  have lm: "length src = length ms" if "rows_ok \<Gamma> spec ms" for ms using that len by (simp add: rows_ok_def)
  let ?mbr = "ss_members spec ! b"
  obtain t where t: "m_type ?mbr = Some t" "m_has_ops ?mbr" using b(3) by (auto simp: addition_ok_def Let_def)
  have up: "[b..<e] = b # [Suc b..<e]" using b(1) by (simp add: upt_conv_Cons)
  have n: "n = e - Suc b" "Suc b \<le> e" using Suc.hyps(2) b(1) by linarith+
  have ok: "\<forall>i \<in> {Suc b..<e}. addition_ok spec src i \<and> (\<not> ss_group_optional spec ! i \<longrightarrow> src ! i \<noteq> None)"
    using Suc.prems(3) by auto
  obtain bs where bs: "\<And>s. encode_group_members enc \<Gamma> spec src [Suc b..<e] s False = (emit_bits bs s, False)"
    and rd: "\<And>ms. rows_ok \<Gamma> spec ms \<Longrightarrow> reads k (decode_group_members dec \<Gamma> spec
         (zip [Suc b..<e] (map (\<lambda>i. src ! i \<noteq> None) [Suc b..<e])) (filled src (Suc b) ms)) bs (filled src e ms)"
    using Suc.hyps(1) [OF n Suc.prems(2) ok] by blast
  show ?case
  proof (cases "src ! b")
    case None
    have "encode_group_members enc \<Gamma> spec src [b..<e] s False = (emit_bits bs s, False)" for s
      using None b addition_present [OF b(3,2)] bs by (simp add: up Let_def)
    moreover have "decode_group_members dec \<Gamma> spec (zip [b..<e] (map (\<lambda>i. src ! i \<noteq> None) [b..<e])) (filled src b ms) =
        decode_group_members dec \<Gamma> spec (zip [Suc b..<e] (map (\<lambda>i. src ! i \<noteq> None) [Suc b..<e])) (filled src (Suc b) ms)"
      if "rows_ok \<Gamma> spec ms" for ms
    proof -
      have "set_present \<Gamma> ?mbr b False (filled src b ms) = filled src (Suc b) ms"
        using filled_facts(3) [OF lm [OF that], of b] None t(2) b(2) lm [OF that] by (simp add: set_present_def)
      moreover have "m_set_default ?mbr = None" using b(3) None by (simp add: addition_ok_def Let_def)
      ultimately show ?thesis using None by (intro ext) (simp add: up Let_def apply_default_def)
    qed
    ultimately show ?thesis using rd by (intro exI [of _ bs]) simp
  next
    case (Some v)
    have tr: "transfers \<Gamma> k enc dec (\<Gamma> t) v" using assms(1) Some t(1) b(2) by (auto simp: members_transfer_def)
    let ?a = "bits_of enc (\<Gamma> t) v"
    have "encode_group_members enc \<Gamma> spec src [b..<e] s False = (emit_bits (?a @ bs) s, False)" for s
      using Some b addition_present [OF b(3,2)] bs t appendsD [OF transfersD(1) [OF tr]]
      by (simp add: up Let_def member_ptr_def emit_bits_append)
    moreover have "reads k (decode_group_members dec \<Gamma> spec (zip [b..<e] (map (\<lambda>i. src ! i \<noteq> None) [b..<e])) (filled src b ms))
        (?a @ bs) (filled src e ms)" if ms: "rows_ok \<Gamma> spec ms" for ms
    proof -
      have bm: "b < length ms" "b < length (ss_members spec)" using b(2) lm [OF ms] len by simp_all
      note fl = filled_facts [OF lm [OF ms] bm(1)]
      obtain x where x: "member_ptr (set_present \<Gamma> ?mbr b True (filled src b ms)) b = Some x" "shaped \<Gamma> (\<Gamma> t) x"
        "\<And>v. (set_present \<Gamma> ?mbr b True (filled src b ms))[b := v] = (filled src b ms)[b := v]"
        using present_target [OF assms(2), of b "filled src b ms" ?mbr t] bm fl t rows_shape [OF ms bm(2) t(1)] by auto
      have eq: "decode_group_members dec \<Gamma> spec (zip [b..<e] (map (\<lambda>i. src ! i \<noteq> None) [b..<e])) (filled src b ms) d =
          rbind (dec (\<Gamma> t) x d) (\<lambda>(v, d). decode_group_members dec \<Gamma> spec
            (zip [Suc b..<e] (map (\<lambda>i. src ! i \<noteq> None) [Suc b..<e])) ((filled src b ms)[b := Some v]) d)" for d
        using Some t(1) x by (simp add: up Let_def)
      have nxt: "(filled src b ms)[b := Some v] = filled src (Suc b) ms" using fl(3) Some by simp
      have "reads k (\<lambda>d. rbind (dec (\<Gamma> t) x d) (\<lambda>(v, d). decode_group_members dec \<Gamma> spec
            (zip [Suc b..<e] (map (\<lambda>i. src ! i \<noteq> None) [Suc b..<e])) ((filled src b ms)[b := Some v]) d)) (?a @ bs) (filled src e ms)"
        by (rule reads_bind [OF transfersD(2) [OF tr x(2)]]) (unfold nxt, rule rd [OF ms])
      then show ?thesis by (simp only: eq [abs_def])
    qed
    ultimately show ?thesis by blast
  qed
qed

definition units_ok :: "sequence_spec \<Rightarrow> asn1_value option list \<Rightarrow> bool" where
  "units_ok spec src \<longleftrightarrow>
     unit_count spec < kFragmentUnit \<and>
     (\<forall>u < unit_count spec. unit_begin spec u \<le> unit_end spec u \<and> unit_end spec u \<le> length src \<and>
        (if unit_is_group spec u then
           (unit_present spec src u \<longrightarrow> (\<forall>i \<in> {unit_begin spec u..<unit_end spec u}. \<not> ss_group_optional spec ! i \<longrightarrow> src ! i \<noteq> None))
         else unit_end spec u = Suc (unit_begin spec u))) \<and>
     (if unit_count spec = 0 then root_end spec = length src else unit_end spec (unit_count spec - 1) = length src)"

lemma unit_begin_0: "0 < unit_count spec \<Longrightarrow> unit_begin spec 0 = root_end spec"
  by (simp add: unit_begin_def)

lemma unit_begin_Suc: "unit_begin spec (Suc u) = unit_end spec u"
  by (simp add: unit_begin_def unit_end_def)

lemma group_transfers:
  assumes "members_transfer \<Gamma> k enc dec spec src" "env_wf \<Gamma>" "b \<le> e" "e \<le> length src"
    "\<forall>i \<in> {b..<e}. addition_ok spec src i \<and> (\<not> ss_group_optional spec ! i \<longrightarrow> src ! i \<noteq> None)"
  shows "\<exists>bs. appends (encode_group_open_type enc \<Gamma> spec b e src) bs \<and>
    (\<forall>ms. rows_ok \<Gamma> spec ms \<longrightarrow> reads k (decode_group_open_type dec \<Gamma> spec b e (filled src b ms)) bs (filled src e ms))"
proof -
  let ?pres = "\<lambda>i. src ! i \<noteq> None"
  let ?bm = "map ?pres (filter ((!) (ss_group_optional spec)) [b..<e])"
  obtain ks where ks: "\<And>s. encode_group_members enc \<Gamma> spec src [b..<e] s False = (emit_bits ks s, False)"
    and rd: "\<And>ms. rows_ok \<Gamma> spec ms \<Longrightarrow> reads k (decode_group_members dec \<Gamma> spec
         (zip [b..<e] (map ?pres [b..<e])) (filled src b ms)) ks (filled src e ms)"
    using group_member_transfers [OF assms] by blast
  have bm: "map (\<lambda>i. is_present (ss_members spec ! i) src i) (filter ((!) (ss_group_optional spec)) [b..<e]) = ?bm"
    using assms(4,5) addition_present by (intro map_cong) auto
  have enc: "encode_group_bitmap spec src [b..<e] new_per_enc = emit_bits ?bm new_per_enc"
    using appendsD [OF appends_bitmap [of spec src "[b..<e]"]] unfolding bm .
  let ?bytes = "per_bytes (?bm @ ks)"
  obtain os where os: "appends (put_octets ?bytes) os" "reads k get_octets os ?bytes"
    using put_octets_contract by blast
  have "encode_group_open_type enc \<Gamma> spec b e src s = put_octets ?bytes s" for s
    by (simp only: encode_group_open_type_def Let_def enc ks prod.case emit_bits_append [symmetric])
       (simp add: emit_bits_failed per_bytes_def)
  then have "appends (encode_group_open_type enc \<Gamma> spec b e src) os" using os(1) by (simp add: appends_def)
  moreover have "reads k (decode_group_open_type dec \<Gamma> spec b e (filled src b ms)) os (filled src e ms)"
    if ms: "rows_ok \<Gamma> spec ms" for ms
  proof (rule readsI)
    fix d rest
    assume d: "dec_ok d" "pd_depth d + k \<le> kMaxDecodeDepth" "dec_bits d = os @ rest"
    let ?d = "advance (length os) d"
    have "reads k (\<lambda>gs. rbind (decode_group_bitmap spec [b..<e] gs) (\<lambda>(ps, gs).
        decode_group_members dec \<Gamma> spec (zip [b..<e] ps) (filled src b ms) gs)) (?bm @ ks) (filled src e ms)"
      by (rule reads_bind [where h = "\<lambda>ps gs. decode_group_members dec \<Gamma> spec (zip [b..<e] ps) (filled src b ms) gs"
          and x = "map ?pres [b..<e]", OF reads_bitmap]) (use assms(5) rd [OF ms] in auto)
    from reads_per_bytes [OF this, of ?d] d(2)
    have "rbind (decode_group_bitmap spec [b..<e] (per_sub ?bytes ?d)) (\<lambda>(ps, gs).
        decode_group_members dec \<Gamma> spec (zip [b..<e] ps) (filled src b ms) gs) =
        Inr (filled src e ms, advance (length (?bm @ ks)) (per_sub ?bytes ?d))" by simp
    then show "decode_group_open_type dec \<Gamma> spec b e (filled src b ms) d = Inr (filled src e ms, advance (length os) d)"
      unfolding decode_group_open_type_def readsD [OF os(2) d] by (auto simp: rbind_eq_Inr)
  qed
  ultimately show ?thesis by blast
qed

lemma units_transfer:
  assumes "members_transfer \<Gamma> k enc dec spec src" "env_wf \<Gamma>" "units_ok spec src"
    "\<forall>i. root_end spec \<le> i \<longrightarrow> i < length src \<longrightarrow> addition_ok spec src i"
    "\<And>u. u < unit_count spec \<Longrightarrow> presence_bit bitmap u = unit_present spec src u"
    "\<And>u. u < unit_count spec \<Longrightarrow> root_end spec \<le> unit_begin spec u"
  shows "u \<le> unit_count spec \<Longrightarrow>
    \<exists>bs. appends (\<lambda>s. foldl (encode_unit enc \<Gamma> spec src) s [u..<unit_count spec]) bs \<and>
      (\<forall>ms. rows_ok \<Gamma> spec ms \<longrightarrow> 0 < unit_count spec \<longrightarrow>
         reads k (decode_units dec \<Gamma> spec bitmap [u..<unit_count spec]
           (filled src (if u = unit_count spec then length src else unit_begin spec u) ms)) bs src)"
proof (induction "unit_count spec - u" arbitrary: u)
  case 0
  have "length src = length ms" if "rows_ok \<Gamma> spec ms" for ms
    using that assms(1) by (simp add: rows_ok_def members_transfer_def)
  then show ?case using 0 by (auto simp: appends_def reads_def advance_0 filled_all intro!: exI [of _ "[]"])
next
  case (Suc n)
  then have u: "u < unit_count spec" "n = unit_count spec - Suc u" "Suc u \<le> unit_count spec" by linarith+
  have up: "[u..<unit_count spec] = u # [Suc u..<unit_count spec]" using u(1) by (simp add: upt_conv_Cons)
  let ?b = "unit_begin spec u" and ?e = "unit_end spec u"
  have be: "?b \<le> ?e" "?e \<le> length src" "root_end spec \<le> ?b" using assms(3,6) u(1) by (auto simp: units_ok_def)
  have nxt: "(if Suc u = unit_count spec then length src else unit_begin spec (Suc u)) = ?e"
  proof -
    have "unit_count spec - 1 = u" if "Suc u = unit_count spec" using that by linarith
    then show ?thesis using assms(3) by (auto simp: units_ok_def unit_begin_Suc split: if_splits)
  qed
  have lm: "length src = length ms" "length ms = length (ss_members spec)" if "rows_ok \<Gamma> spec ms" for ms
    using that assms(1) by (simp_all add: rows_ok_def members_transfer_def)
  obtain bs where bs: "appends (\<lambda>s. foldl (encode_unit enc \<Gamma> spec src) s [Suc u..<unit_count spec]) bs"
    and rd: "\<And>ms. rows_ok \<Gamma> spec ms \<Longrightarrow> reads k (decode_units dec \<Gamma> spec bitmap [Suc u..<unit_count spec] (filled src ?e ms)) bs src"
    using Suc.hyps(1) [OF u(2,3)] u(1) unfolding nxt by auto
  have add: "\<forall>i \<in> {?b..<?e}. addition_ok spec src i" using assms(4) be by auto
  have pres: "unit_present spec src u \<longleftrightarrow> (\<exists>i \<in> {?b..<?e}. src ! i \<noteq> None)"
    using add addition_present be(2) by (auto simp: unit_present_def list_ex_iff)
  have goal: ?case if "appends (\<lambda>s. encode_unit enc \<Gamma> spec src s u) a"
    "\<And>ms. rows_ok \<Gamma> spec ms \<Longrightarrow> reads k (decode_units dec \<Gamma> spec bitmap [u..<unit_count spec] (filled src ?b ms)) (a @ bs) src" for a
    using appends_comp [OF that(1) bs] that(2) u(1) by (intro exI [of _ "a @ bs"]) (simp add: up)
  show ?case
  proof (cases "unit_present spec src u")
    case False
    have "decode_units dec \<Gamma> spec bitmap [u..<unit_count spec] (filled src ?b ms) =
        decode_units dec \<Gamma> spec bitmap [Suc u..<unit_count spec] (filled src ?e ms)" if "rows_ok \<Gamma> spec ms" for ms
      using default_filled [of src ms ?b ?e spec \<Gamma>] False add pres be lm [OF that] u(1) assms(5) by (intro ext) (simp add: up)
    then show ?thesis
      using rd by (intro goal [of "[]"]) (simp_all add: encode_unit_def False appends_def)
  next
    case True
    show ?thesis
    proof (cases "unit_is_group spec u")
      case grp: True
      have "\<forall>i \<in> {?b..<?e}. \<not> ss_group_optional spec ! i \<longrightarrow> src ! i \<noteq> None"
        using assms(3) u(1) grp True by (auto simp: units_ok_def)
      then obtain a where a: "appends (encode_group_open_type enc \<Gamma> spec ?b ?e src) a"
        "\<And>ms. rows_ok \<Gamma> spec ms \<Longrightarrow> reads k (decode_group_open_type dec \<Gamma> spec ?b ?e (filled src ?b ms)) a (filled src ?e ms)"
        using group_transfers [OF assms(1,2) be(1,2)] add by blast
      show ?thesis
      proof (rule goal [of a])
        show "appends (\<lambda>s. encode_unit enc \<Gamma> spec src s u) a" using a(1) True grp by (simp add: encode_unit_def)
        fix ms
        assume ms: "rows_ok \<Gamma> spec ms"
        show "reads k (decode_units dec \<Gamma> spec bitmap [u..<unit_count spec] (filled src ?b ms)) (a @ bs) src"
          using reads_bind [OF a(2) [OF ms], of "\<lambda>ms d. decode_units dec \<Gamma> spec bitmap [Suc u..<unit_count spec] ms d", OF rd [OF ms]]
            True grp u(1) assms(5) by (simp add: up reads_def)
      qed
    next
      case plain: False
      then have e: "?e = Suc ?b" using assms(3) u(1) by (auto simp: units_ok_def)
      then have b: "?b < length src" "addition_ok spec src ?b" using be add by auto
      obtain t where t: "m_type (ss_members spec ! ?b) = Some t" "m_has_ops (ss_members spec ! ?b)"
        using b(2) by (auto simp: addition_ok_def Let_def)
      obtain v where v: "src ! ?b = Some v" using True pres e by auto
      have tr: "transfers \<Gamma> k enc dec (\<Gamma> t) v" using assms(1) v t(1) b(1) by (auto simp: members_transfer_def)
      obtain a where a: "appends (encode_open_type enc (\<Gamma> t) v) a"
        "\<And>x. shaped \<Gamma> (\<Gamma> t) x \<Longrightarrow> reads k (decode_open_type dec (\<Gamma> t) x) a v"
        using open_type_passes [OF tr] by (auto simp: passes_def)
      show ?thesis
      proof (rule goal [of a])
        show "appends (\<lambda>s. encode_unit enc \<Gamma> spec src s u) a"
          using a(1) True plain t(1) v b(1) by (simp add: encode_unit_def member_ptr_def Let_def)
        fix ms
        assume ms: "rows_ok \<Gamma> spec ms"
        have bm: "?b < length ms" "?b < length (ss_members spec)" using b(1) lm [OF ms] by simp_all
        note fl = filled_facts [OF lm(1) [OF ms] bm(1)]
        obtain x where x: "member_ptr (set_present \<Gamma> (ss_members spec ! ?b) ?b True (filled src ?b ms)) ?b = Some x"
          "shaped \<Gamma> (\<Gamma> t) x"
          "\<And>v. (set_present \<Gamma> (ss_members spec ! ?b) ?b True (filled src ?b ms))[?b := v] = (filled src ?b ms)[?b := v]"
          using present_target [OF assms(2), of ?b "filled src ?b ms" "ss_members spec ! ?b" t] bm fl t
            rows_shape [OF ms bm(2) t(1)] by auto
        have nx: "(filled src ?b ms)[?b := Some v] = filled src ?e ms" using fl(3) v e by simp
        have eq: "decode_units dec \<Gamma> spec bitmap [u..<unit_count spec] (filled src ?b ms) d =
            rbind (decode_open_type dec (\<Gamma> t) x d) (\<lambda>(v, d).
              decode_units dec \<Gamma> spec bitmap [Suc u..<unit_count spec] ((filled src ?b ms)[?b := Some v]) d)" for d
          using True plain u(1) assms(5) t(1) x by (simp add: up Let_def)
        have "reads k (\<lambda>d. rbind (decode_open_type dec (\<Gamma> t) x d) (\<lambda>(v, d).
              decode_units dec \<Gamma> spec bitmap [Suc u..<unit_count spec] ((filled src ?b ms)[?b := Some v]) d)) (a @ bs) src"
          by (rule reads_bind [OF a(2) [OF x(2)]]) (unfold nx, rule rd [OF ms])
        then show "reads k (decode_units dec \<Gamma> spec bitmap [u..<unit_count spec] (filled src ?b ms)) (a @ bs) src"
          by (simp only: eq [abs_def])
      qed
    qed
  qed
qed

section \<open>SEQUENCE and SET\<close>

definition sequence_sendable :: "sequence_spec \<Rightarrow> asn1_value option list \<Rightarrow> bool" where
  "sequence_sendable spec src \<longleftrightarrow>
     length src = length (ss_members spec) \<and>
     ss_roms_count spec = length (filter m_optional (take (root_end spec) (ss_members spec))) \<and>
     (\<forall>i < root_end spec. root_row_ok (ss_members spec ! i) i src) \<and>
     (ss_ext_at spec \<ge> 0 \<longrightarrow>
        (\<forall>i. root_end spec \<le> i \<longrightarrow> i < length src \<longrightarrow> addition_ok spec src i) \<and>
        (list_ex (\<lambda>m. m \<noteq> None) (drop (root_end spec) src) \<longrightarrow> units_ok spec src))"

lemma extensions_transfer:
  assumes "members_transfer \<Gamma> k enc dec spec src" "env_wf \<Gamma>" "sequence_wf \<Gamma> spec" "units_ok spec src"
    "\<forall>i. root_end spec \<le> i \<longrightarrow> i < length src \<longrightarrow> addition_ok spec src i" "root_end spec < length src"
  shows "\<exists>bs. appends (encode_extensions enc \<Gamma> spec src) bs \<and>
    (\<forall>ms. rows_ok \<Gamma> spec ms \<longrightarrow> reads k (decode_extensions dec \<Gamma> spec (filled src (root_end spec) ms)) bs src)"
proof -
  let ?n = "unit_count spec"
  define ps where "ps = map (unit_present spec src) [0..<?n]"
  have n: "0 < ?n" "?n < 16384" using assms(4,6) by (auto simp: units_ok_def kFragmentUnit_def split: if_splits)
  obtain ls where ls: "appends (put_nslength ?n) ls" "reads k get_nslength ls ?n"
    using put_nslength_contract [OF n(2)] by blast
  have flags: "appends (\<lambda>s. foldl (\<lambda>s u. put_bits (if unit_present spec src u then 1 else 0) 1 s) s [0..<?n]) ps"
    using appends_foldl [of "[0..<?n]" "\<lambda>u. put_bits (if unit_present spec src u then 1 else 0) 1" "\<lambda>u. [unit_present spec src u]"]
      appends_flag by (simp add: ps_def concat_map_singleton del: put_bits.simps)
  have bit: "presence_bit (presence_of ps) u = unit_present spec src u" if "u < ?n" for u
    using that by (simp add: presence_bit_of ps_def)
  have "root_end spec \<le> unit_begin spec u" if "u < ?n" for u using assms(3) that by (auto simp: sequence_wf_def)
  from units_transfer [OF assms(1,2,4,5) bit this, of 0] obtain us where
    us: "appends (\<lambda>s. foldl (encode_unit enc \<Gamma> spec src) s [0..<?n]) us"
    and rd: "\<And>ms. rows_ok \<Gamma> spec ms \<Longrightarrow> reads k (decode_units dec \<Gamma> spec (presence_of ps) [0..<?n] (filled src (root_end spec) ms)) us src"
    using n(1) by (auto simp: unit_begin_0)
  have "appends (encode_extensions enc \<Gamma> spec src) ((ls @ ps) @ us)"
    using appends_comp [OF appends_comp [OF ls(1) flags] us] by (simp add: encode_extensions_def [abs_def] Let_def)
  moreover have "reads k (decode_extensions dec \<Gamma> spec (filled src (root_end spec) ms)) (ls @ ps @ us) src"
    if ms: "rows_ok \<Gamma> spec ms" for ms
  proof -
    have len: "length ps = ?n" by (simp add: ps_def)
    have "reads k (\<lambda>d. rbind (decode_units dec \<Gamma> spec (presence_of ps) [0..<?n] (filled src (root_end spec) ms) d)
        (\<lambda>(ms, d). Inr (clear_members \<Gamma> spec (concat (map (\<lambda>u. [unit_begin spec u..<unit_end spec u]) [?n..<?n])) ms, d))) us src"
      using reads_map [OF rd [OF ms], of "\<lambda>ms. ms"] by (simp add: clear_members_def)
    from reads_bind [where h = "\<lambda>bitmap d. rbind (decode_units dec \<Gamma> spec bitmap [0..<?n] (filled src (root_end spec) ms) d)
        (\<lambda>(ms, d). Inr (clear_members \<Gamma> spec (concat (map (\<lambda>u. [unit_begin spec u..<unit_end spec u]) [?n..<?n])) ms, d))",
        OF reads_presence this]
    have "reads k (\<lambda>d. rbind (read_presence ?n d) (\<lambda>(bitmap, d).
        rbind (decode_units dec \<Gamma> spec bitmap [0..<?n] (filled src (root_end spec) ms) d)
        (\<lambda>(ms, d). Inr (clear_members \<Gamma> spec (concat (map (\<lambda>u. [unit_begin spec u..<unit_end spec u]) [?n..<?n])) ms, d))))
        (ps @ us) src"
      unfolding len .
    from reads_bind [where h = "\<lambda>n_ext d. rbind (read_presence n_ext d) (\<lambda>(bitmap, d).
        rbind (decode_units dec \<Gamma> spec bitmap [0..<n_ext] (filled src (root_end spec) ms) d)
        (\<lambda>(ms, d). Inr (clear_members \<Gamma> spec (concat (map (\<lambda>u. [unit_begin spec u..<unit_end spec u]) [n_ext..<?n])) ms, d)))",
        OF ls(2) this]
    show ?thesis by (simp only: decode_extensions_def [abs_def])
  qed
  ultimately show ?thesis by (metis append.assoc)
qed

lemma list_ex_drop: "list_ex P (drop n xs) \<longleftrightarrow> (\<exists>i. n \<le> i \<and> i < length xs \<and> P (xs ! i))"
proof
  assume "list_ex P (drop n xs)"
  then obtain j where "j < length xs - n" "P (xs ! (n + j))" by (auto simp: list_ex_length)
  then show "\<exists>i. n \<le> i \<and> i < length xs \<and> P (xs ! i)" by (intro exI [of _ "n + j"]) auto
next
  assume "\<exists>i. n \<le> i \<and> i < length xs \<and> P (xs ! i)"
  then obtain i where "n \<le> i" "i < length xs" "P (xs ! i)" by blast
  then show "list_ex P (drop n xs)" by (auto simp: list_ex_length intro!: exI [of _ "i - n"])
qed

lemma sequence_transfers:
  assumes "sequence_sendable spec src" "members_transfer \<Gamma> k enc dec spec src" "env_wf \<Gamma>" "sequence_wf \<Gamma> spec"
    "td_sequence_spec def = Some spec" "td_per_handler def = Some H_Sequence"
  shows "passes \<Gamma> k def (per_sequence_encode enc \<Gamma> def src) (per_sequence_decode dec \<Gamma> def) (V_Sequence src)"
proof -
  let ?r = "root_end spec" and ?root = "take (root_end spec) (ss_members spec)"
  have len: "length src = length (ss_members spec)" "?r \<le> length src"
    using assms(1) root_end_le [OF assms(4)] by (simp_all add: sequence_sendable_def)
  define ext where "ext = (ss_ext_at spec \<ge> 0 \<and> list_ex (\<lambda>m. m \<noteq> None) (drop ?r src))"
  have ok: "\<forall>j < length ?root. root_row_ok (?root ! j) (0 + j) src"
    using assms(1) by (simp add: sequence_sendable_def)
  have root0: "0 + length ?root \<le> ?r" "?root = take (length ?root) (drop 0 (ss_members spec))" "0 + length ?root = ?r"
    using len by simp_all
  obtain rs where rs: "appends (encode_root_members enc \<Gamma> src 0 ?root) rs"
    and rd: "\<And>bitmap ms. rows_ok \<Gamma> spec ms \<Longrightarrow>
       \<forall>j < length (preamble_bits src 0 ?root). presence_bit bitmap (0 + j) = preamble_bits src 0 ?root ! j \<Longrightarrow>
       reads k (decode_root_members dec \<Gamma> bitmap 0 0 ?root (filled src 0 ms)) rs (filled src ?r ms)"
    using root_transfers [OF assms(2,3) root0(1,2) ok] unfolding root0(3) by blast
  let ?ps = "preamble_bits src 0 ?root"
  have ps_len: "length ?ps = ss_roms_count spec" using assms(1) by (simp add: length_preamble sequence_sendable_def)
  have add: "\<forall>i. ?r \<le> i \<longrightarrow> i < length src \<longrightarrow> addition_ok spec src i" if "ss_ext_at spec \<ge> 0"
    using assms(1) that by (simp add: sequence_sendable_def)
  have has_ext: "(ss_ext_at spec \<ge> 0 \<and>
      list_ex (\<lambda>i. is_present (ss_members spec ! i) src i) [?r..<length (ss_members spec)]) = ext"
  proof (cases "ss_ext_at spec \<ge> 0")
    case True
    have "list_ex (\<lambda>i. is_present (ss_members spec ! i) src i) [?r..<length src] \<longleftrightarrow> (\<exists>i. ?r \<le> i \<and> i < length src \<and> src ! i \<noteq> None)"
      using add [OF True] addition_present by (auto simp: list_ex_iff)
    also have "\<dots> \<longleftrightarrow> list_ex (\<lambda>m. m \<noteq> None) (drop ?r src)"
      by (simp add: list_ex_drop)
    finally show ?thesis using True len(1) by (simp add: ext_def)
  qed (simp add: ext_def)
  define es where "es = (if ss_ext_at spec \<ge> 0 then [ext] else [])"
  obtain xs where xs: "ext \<Longrightarrow> appends (encode_extensions enc \<Gamma> spec src) xs \<and>
      (\<forall>ms. rows_ok \<Gamma> spec ms \<longrightarrow> reads k (decode_extensions dec \<Gamma> spec (filled src ?r ms)) xs src)" "\<not> ext \<Longrightarrow> xs = []"
  proof (cases ext)
    case True
    then have "units_ok spec src" "ss_ext_at spec \<ge> 0" using assms(1) by (auto simp: sequence_sendable_def ext_def)
    moreover have "?r < length src" using True by (cases "?r < length src") (auto simp: ext_def)
    ultimately show ?thesis using extensions_transfer [OF assms(2-4)] add that by blast
  qed (use that in blast)
  have head: "appends (\<lambda>s. if ss_ext_at spec \<ge> 0 then put_bits (if ext then 1 else 0) 1 s else s) es"
    using appends_flag [of ext] appends_id by (cases "ss_ext_at spec \<ge> 0") (simp_all add: es_def del: put_bits.simps)
  have tail: "appends (\<lambda>s. if ext then encode_extensions enc \<Gamma> spec src s else s) xs"
    using xs appends_id by (cases ext) simp_all
  have "appends (per_sequence_encode enc \<Gamma> def src) (((es @ ?ps) @ rs) @ xs)"
    using appends_comp [OF appends_comp [OF appends_comp [OF head appends_preamble] rs] tail]
    unfolding per_sequence_encode_def [abs_def] assms(5) option.case Let_def has_ext .
  moreover have "reads k (per_sequence_decode dec \<Gamma> def dest) (((es @ ?ps) @ rs) @ xs) (V_Sequence src)" if "shaped \<Gamma> def dest" for dest
  proof -
    obtain ms where dest: "dest = V_Sequence ms" and ms: "rows_ok \<Gamma> spec ms"
      using \<open>shaped \<Gamma> def dest\<close> unfolding shaped_sequence_iff [OF assms(6,5)] by blast
    have lm: "length src = length ms" using ms len(1) by (simp add: rows_ok_def)
    define last where "last = (\<lambda>(ext_flag :: u64) ms d. if ss_ext_at spec < 0 then Inr (V_Sequence ms, d)
        else if ext_flag = 0 then Inr (V_Sequence (clear_members \<Gamma> spec [?r..<length (ss_members spec)] ms), d)
        else rbind (decode_extensions dec \<Gamma> spec ms d) (\<lambda>(ms, d). Inr (V_Sequence ms, d)))"
    have flag: "(bits_value [ext] = 0) = (\<not> ext)" by (simp add: bits_value_def)
    let ?flag = "if ss_ext_at spec \<ge> 0 then bits_value [ext] else 0"
    have r4: "reads k (last ?flag (filled src ?r ms)) xs (V_Sequence src)"
    proof (cases ext)
      case True
      then have "reads k (\<lambda>d. rbind (decode_extensions dec \<Gamma> spec (filled src ?r ms) d) (\<lambda>(ms, d). Inr (V_Sequence ms, d))) xs (V_Sequence src)"
        using reads_map [of k "decode_extensions dec \<Gamma> spec (filled src ?r ms)" xs src V_Sequence] xs(1) ms by blast
      then show ?thesis using True flag by (auto simp: last_def ext_def)
    next
      case False
      show ?thesis
      proof (cases "ss_ext_at spec \<ge> 0")
        case True
        then have "\<forall>i \<in> {?r..<length (ss_members spec)}. addition_ok spec src i \<and> src ! i = None"
          using False add len by (auto simp: ext_def list_ex_drop)
        then have "clear_members \<Gamma> spec [?r..<length (ss_members spec)] (filled src ?r ms) = src"
          using clear_filled [of src ms ?r "length (ss_members spec)" spec \<Gamma>] lm len by (simp add: filled_all)
        then show ?thesis using True False flag xs(2) reads_return [of k "V_Sequence src"] by (simp add: last_def reads_def advance_0)
      next
        case neg: False
        then have "?r = length src" using len by (simp add: root_end_def)
        then show ?thesis using neg False xs(2) lm by (simp add: last_def reads_def advance_0 filled_all)
      qed
    qed
    have r3: "reads k (\<lambda>d. rbind (decode_root_members dec \<Gamma> (presence_of ?ps) 0 0 ?root ms d)
        (\<lambda>(ms, d). last ?flag ms d)) (rs @ xs) (V_Sequence src)"
    proof (rule reads_bind [where h = "last ?flag", OF _ r4])
      show "reads k (decode_root_members dec \<Gamma> (presence_of ?ps) 0 0 ?root ms) rs (filled src ?r ms)"
        using rd [OF ms, of "presence_of ?ps"] by (simp add: presence_bit_of)
    qed
    have r2: "reads k (\<lambda>d. rbind (read_presence (ss_roms_count spec) d) (\<lambda>(bitmap, d).
        rbind (decode_root_members dec \<Gamma> bitmap 0 0 ?root ms d) (\<lambda>(ms, d). last ?flag ms d)))
        (?ps @ rs @ xs) (V_Sequence src)"
      using reads_bind [where h = "\<lambda>bitmap d. rbind (decode_root_members dec \<Gamma> bitmap 0 0 ?root ms d) (\<lambda>(ms, d). last ?flag ms d)",
          OF reads_presence r3] unfolding ps_len .
    have r1: "reads k (\<lambda>d. if ss_ext_at spec \<ge> 0 then get_bits 1 d else Inr (0, d)) es ?flag"
      using reads_get_bits_list [of k "[ext]"] by (cases "ss_ext_at spec \<ge> 0") (simp_all add: es_def reads_def advance_0)
    have "reads k (\<lambda>d. rbind (if ss_ext_at spec \<ge> 0 then get_bits 1 d else Inr (0, d)) (\<lambda>(ext_flag, d).
        rbind (read_presence (ss_roms_count spec) d) (\<lambda>(bitmap, d).
        rbind (decode_root_members dec \<Gamma> bitmap 0 0 ?root ms d) (\<lambda>(ms, d). last ext_flag ms d)))) (es @ ?ps @ rs @ xs) (V_Sequence src)"
      by (rule reads_bind [where h = "\<lambda>ext_flag d. rbind (read_presence (ss_roms_count spec) d) (\<lambda>(bitmap, d).
        rbind (decode_root_members dec \<Gamma> bitmap 0 0 ?root ms d) (\<lambda>(ms, d). last ext_flag ms d))", OF r1 r2])
    then show ?thesis
      by (simp only: per_sequence_decode_def [abs_def] assms(5) dest option.case asn1_value.case prod.case last_def append.assoc)
  qed
  ultimately show ?thesis by (rule passesI)
qed

section \<open>CHOICE\<close>

definition choice_sendable :: "choice_spec \<Rightarrow> int \<Rightarrow> bool" where
  "choice_sendable spec p \<longleftrightarrow>
     1 \<le> p \<and> p \<le> int (length (cs_alternatives spec)) \<and>
     range_bits (cs_constraints spec) \<le> 31 \<and> choice_root_count spec \<le> 2 ^ range_bits (cs_constraints spec) \<and>
     length (cs_alternatives spec) < 2 ^ 31"

lemma sint_small_index:
  assumes "n < 2 ^ 31"
  shows "sint (ucast (of_nat n :: u64) :: u32) = int n"
proof -
  have "(ucast (of_nat n :: u64) :: u32) = of_nat n"
    using assms by (simp add: unsigned_of_nat take_bit_nat_eq_self)
  moreover have "signed_take_bit 31 (int n) = int n"
    using assms by (intro signed_take_bit_int_eq_self) (auto simp flip: of_nat_power)
  ultimately show ?thesis by (simp add: signed_of_nat)
qed

lemma choice_transfers:
  assumes "choice_sendable spec p" "m_type (cs_alternatives spec ! nat (p - 1)) = Some t"
    "transfers \<Gamma> k enc dec (\<Gamma> t) v" "env_wf \<Gamma>"
    "td_choice_spec def = Some spec" "td_per_handler def = Some H_Choice"
  shows "passes \<Gamma> k def (per_choice_encode enc \<Gamma> def p (Some v)) (per_choice_decode dec \<Gamma> def) (V_Choice p (Some v))"
proof -
  define i where "i = nat (p - 1)"
  note ty = assms(2) [folded i_def]
  let ?root = "choice_root_count spec" and ?bits = "range_bits (cs_constraints spec)"
  have p: "1 \<le> p" "p \<le> int (length (cs_alternatives spec))" "p = int i + 1" "i < length (cs_alternatives spec)"
    using assms(1) by (auto simp: choice_sendable_def i_def)
  have sel: "\<exists>x. select_alternative \<Gamma> (cs_alternatives spec ! i) q i storage = Some x \<and> shaped \<Gamma> (\<Gamma> t) x"
    if "shaped \<Gamma> def (V_Choice q storage)" for q storage
    by (rule select_shaped [OF assms(4,6,5) that ty])
  define ext where "ext = (cs_ext_at spec \<ge> 0 \<and> i \<ge> ?root)"
  define es where "es = (if cs_ext_at spec \<ge> 0 then [ext] else [])"
  have flag: "(bits_value [ext] = 0) = (\<not> ext)" by (simp add: bits_value_def)
  have ext_marker: "cs_ext_at spec \<ge> 0" if ext using that by (simp add: ext_def)
  have head: "appends (\<lambda>s. if cs_ext_at spec \<ge> 0 then put_bits (if ext then 1 else 0) 1 s else s) es"
    using appends_flag [of ext] appends_id by (cases "cs_ext_at spec \<ge> 0") (simp_all add: es_def del: put_bits.simps)
  have rhead: "reads k (\<lambda>d. if cs_ext_at spec \<ge> 0 then get_bits 1 d else Inr (0, d)) es
      (if cs_ext_at spec \<ge> 0 then bits_value [ext] else 0)"
    using reads_get_bits_list [of k "[ext]"] by (cases "cs_ext_at spec \<ge> 0") (simp_all add: es_def reads_def advance_0)
  have wrap: ?thesis if b: "appends (\<lambda>s. if ext then encode_open_type enc (\<Gamma> t) v (put_nsnn (i - ?root) s)
        else enc (\<Gamma> t) v (if ?bits > 0 then put_bits (of_nat i) ?bits s else s)) bs"
    and r: "\<And>q storage. shaped \<Gamma> def (V_Choice q storage) \<Longrightarrow> reads k (\<lambda>d. if \<not> ext then decode_choice_root dec \<Gamma> spec q storage d
        else decode_choice_ext dec \<Gamma> spec q storage d) bs (V_Choice p (Some v))" for bs
  proof -
    have "per_choice_encode enc \<Gamma> def p (Some v) s = (if ext then encode_open_type enc (\<Gamma> t) v (put_nsnn (i - ?root)
          (if cs_ext_at spec \<ge> 0 then put_bits (if ext then 1 else 0) 1 s else s))
        else enc (\<Gamma> t) v (if ?bits > 0 then put_bits (of_nat i) ?bits
          (if cs_ext_at spec \<ge> 0 then put_bits (if ext then 1 else 0) 1 s else s)
          else (if cs_ext_at spec \<ge> 0 then put_bits (if ext then 1 else 0) 1 s else s)))" for s
      using p(1,2,4) ty assms(5) unfolding p(3) by (simp add: per_choice_encode_def Let_def ext_def del: put_bits.simps)
    then have "appends (per_choice_encode enc \<Gamma> def p (Some v)) (es @ bs)"
      using appends_comp [OF head b] by (simp only: appends_def simp_thms)
    moreover have "reads k (per_choice_decode dec \<Gamma> def dest) (es @ bs) (V_Choice p (Some v))" if "shaped \<Gamma> def dest" for dest
    proof -
      obtain q storage where dest: "dest = V_Choice q storage"
        using \<open>shaped \<Gamma> def dest\<close> unfolding shaped_choice_iff [OF assms(6,5)] by blast
      have "((if cs_ext_at spec \<ge> 0 then bits_value [ext] else 0) = 0) = (\<not> ext)"
        using flag ext_marker by auto
      with r [of q storage] that dest
      have "reads k (\<lambda>d. if (if cs_ext_at spec \<ge> 0 then bits_value [ext] else 0) = 0 then decode_choice_root dec \<Gamma> spec q storage d
          else decode_choice_ext dec \<Gamma> spec q storage d) bs (V_Choice p (Some v))" by (simp only:)
      from reads_bind [where h = "\<lambda>b d. if b = 0 then decode_choice_root dec \<Gamma> spec q storage d
          else decode_choice_ext dec \<Gamma> spec q storage d", OF rhead this]
      show ?thesis by (simp only: per_choice_decode_def [abs_def] assms(5) dest option.case asn1_value.case prod.case)
    qed
    ultimately show ?thesis by (rule passesI)
  qed
  show ?thesis
  proof (cases ext)
    case True
    obtain a where a: "appends (encode_open_type enc (\<Gamma> t) v) a"
      "\<And>x. shaped \<Gamma> (\<Gamma> t) x \<Longrightarrow> reads k (decode_open_type dec (\<Gamma> t) x) a v"
      using open_type_passes [OF assms(3)] by (auto simp: passes_def)
    have "i - ?root < 2 ^ 31" using p(4) assms(1) unfolding choice_sendable_def
      by (meson diff_le_self le_less_trans less_trans)
    then obtain ns where ns: "appends (put_nsnn (i - ?root)) ns" "reads k get_nsnn ns (i - ?root)"
      using put_nsnn_contract by blast
    show ?thesis
    proof (rule wrap [of "ns @ a"])
      show "appends (\<lambda>s. if ext then encode_open_type enc (\<Gamma> t) v (put_nsnn (i - ?root) s)
        else enc (\<Gamma> t) v (if ?bits > 0 then put_bits (of_nat i) ?bits s else s)) (ns @ a)"
        using appends_comp [OF ns(1) a(1)] True by simp
      fix q storage
      assume sh: "shaped \<Gamma> def (V_Choice q storage)"
      obtain x where x: "select_alternative \<Gamma> (cs_alternatives spec ! i) q i storage = Some x" "shaped \<Gamma> (\<Gamma> t) x"
        using sel [OF sh] by blast
      have idx: "i32_sum ?root (i - ?root) = int i"
        using i32_sum_exact [of ?root "i - ?root"] True p(4) assms(1) by (simp add: ext_def choice_sendable_def)
      have "reads k (decode_choice_ext dec \<Gamma> spec q storage) (ns @ a) (V_Choice p (Some v))"
        unfolding decode_choice_ext_def [abs_def]
        by (rule reads_bind [OF ns(2)])
           (use reads_map [OF a(2) [OF x(2)], of "\<lambda>v. V_Choice p (Some v)"] p x(1) ty idx in \<open>simp add: Let_def\<close>)
      then show "reads k (\<lambda>d. if \<not> ext then decode_choice_root dec \<Gamma> spec q storage d
        else decode_choice_ext dec \<Gamma> spec q storage d) (ns @ a) (V_Choice p (Some v))" using True by simp
    qed
  next
    case False
    then have root: "i < ?root" using p(4) by (auto simp: ext_def choice_root_count_def)
    then have fits: "i < 2 ^ ?bits" "?bits \<le> 31"
      using assms(1) unfolding choice_sendable_def by (meson less_le_trans, blast)
    define ix where "ix = (if ?bits > 0 then word_bits ?bits (of_nat i :: u64) else [])"
    note tr = transfersD [OF assms(3)]
    have app: "appends (\<lambda>s. if ?bits > 0 then put_bits (of_nat i) ?bits s else s) ix"
      using appends_put_bits [of "of_nat i" ?bits] appends_id by (cases "?bits > 0") (simp_all add: ix_def del: put_bits.simps word_bits.simps)
    have idx: "reads k (\<lambda>d. if ?bits > 0 then rbind (get_bits ?bits d) (\<lambda>(v, d). Inr (sint (ucast v :: u32), d))
             else Inr (0, d)) ix (int i)"
    proof (cases "?bits > 0")
      case True
      have "i < 2 ^ 31" using fits by (meson le_less_trans less_le_trans one_le_numeral power_increasing order_less_le_trans)
      then have "sint (ucast (take_bit ?bits (of_nat i :: u64)) :: u32) = int i"
        using take_bit_of_nat_u64 [OF fits(1)] sint_small_index by simp
      then show ?thesis
        using True reads_map [OF reads_get_bits [of ?bits k "of_nat i"], of "\<lambda>v. sint (ucast v :: u32)"] fits(2)
        by (simp add: ix_def del: word_bits.simps)
    next
      case zero: False
      then have "i = 0" using fits(1) by simp
      then show ?thesis using zero by (simp add: ix_def reads_def advance_0)
    qed
    show ?thesis
    proof (rule wrap [of "ix @ bits_of enc (\<Gamma> t) v"])
      show "appends (\<lambda>s. if ext then encode_open_type enc (\<Gamma> t) v (put_nsnn (i - ?root) s)
        else enc (\<Gamma> t) v (if ?bits > 0 then put_bits (of_nat i) ?bits s else s)) (ix @ bits_of enc (\<Gamma> t) v)"
        using appends_comp [OF app tr(1)] False by (simp del: put_bits.simps)
      fix q storage
      assume sh: "shaped \<Gamma> def (V_Choice q storage)"
      obtain x where x: "select_alternative \<Gamma> (cs_alternatives spec ! i) q i storage = Some x" "shaped \<Gamma> (\<Gamma> t) x"
        using sel [OF sh] by blast
      have "reads k (decode_choice_root dec \<Gamma> spec q storage) (ix @ bits_of enc (\<Gamma> t) v) (V_Choice p (Some v))"
        unfolding decode_choice_root_def [abs_def] Let_def
      proof (rule reads_bind [OF idx])
        show "reads k (\<lambda>d. if int i < 0 \<or> int i \<ge> int ?root then Inl (DecodeError ''CHOICE index out of range'' 0)
            else case m_type (cs_alternatives spec ! nat (int i)) of
              None \<Rightarrow> Inl (DecodeError ''CHOICE alternative has no type descriptor'' 0)
            | Some t \<Rightarrow> (case select_alternative \<Gamma> (cs_alternatives spec ! nat (int i)) q (nat (int i)) storage of
                None \<Rightarrow> Inl NullDeref
              | Some mptr \<Rightarrow> rbind (dec (\<Gamma> t) mptr d) (\<lambda>(v, d). Inr (V_Choice (int i + 1) (Some v), d))))
            (bits_of enc (\<Gamma> t) v) (V_Choice p (Some v))"
          using reads_map [OF tr(2) [OF x(2)], of "\<lambda>v. V_Choice p (Some v)"] root p x(1) ty by simp
      qed
      then show "reads k (\<lambda>d. if \<not> ext then decode_choice_root dec \<Gamma> spec q storage d
        else decode_choice_ext dec \<Gamma> spec q storage d) (ix @ bits_of enc (\<Gamma> t) v) (V_Choice p (Some v))" using False by simp
    qed
  qed
qed

section \<open>Every sendable value\<close>

definition leaf_sendable :: "type_desc \<Rightarrow> asn1_value \<Rightarrow> bool" where
  "leaf_sendable def v \<longleftrightarrow>
     (let pc = td_constraints def in
      case (td_per_handler def, v) of
        (Some H_Any, V_OctetString bs) \<Rightarrow> True
      | (Some H_Boolean, V_Boolean b) \<Rightarrow> True
      | (Some H_Integer, V_Integer n) \<Rightarrow> int_constraint_wf pc \<and> int_permitted pc n
      | (Some H_UInteger, V_UInteger n) \<Rightarrow> uint_constraint_wf pc \<and> uint_permitted pc n
      | (Some H_Null, V_Null) \<Rightarrow> True
      | (Some H_BitString, V_BitString b) \<Rightarrow>
          size_wf pc \<and> bit_string_ok b \<and> clean_padding b \<and> size_permitted pc (bit_count b) \<and> sent_bit_string pc b = b
      | (Some H_OctetString, V_OctetString bs) \<Rightarrow> size_wf pc \<and> size_permitted pc (length bs)
      | (Some H_Oid, V_Oid a) \<Rightarrow> oid_valid a \<and> length (encode_oid a) \<le> 127
      | (Some H_RelOid, V_RelativeOid a) \<Rightarrow> length (encode_relative_oid a) \<le> 127
      | (Some H_String, V_String str) \<Rightarrow>
          alphabet_wf pc \<and> size_wf pc \<and> string_permitted (number (builtin_tag def)) pc str
      | (Some H_Enumerated, V_Enum n) \<Rightarrow>
          (case td_enum_spec def of None \<Rightarrow> False
           | Some spec \<Rightarrow> enum_wf spec \<and> n \<in> ee_value ` set (es_entries spec))
      | _ \<Rightarrow> False)"

lemma reads_into: "reads k g bs x \<Longrightarrow> reads k (\<lambda>d. into f (g d)) bs (f x)"
  unfolding into_def by (rule reads_map)

lemma leaf_transfers:
  assumes "leaf_sendable def v"
  shows "passes \<Gamma> k def (per_handler_encode enc \<Gamma> def v) (per_handler_decode dec \<Gamma> def) v"
proof -
  have leaf: ?thesis if "appends f bs" "reads k g bs x"
    "\<And>s. per_handler_encode enc \<Gamma> def v s = f s" "\<And>dest d. per_handler_decode dec \<Gamma> def dest d = into h (g d)" "h x = v"
    for f bs g x and h :: "'a \<Rightarrow> asn1_value"
    using reads_into [OF that(2), of h] that(1,3,4,5)
    by (intro passesI [of _ bs]) (simp_all add: appends_def reads_def)
  obtain h where h: "td_per_handler def = Some h" using assms by (cases "td_per_handler def") (auto simp: leaf_sendable_def)
  note defs = leaf_sendable_def Let_def per_handler_encode_def per_handler_decode_def h
  show ?thesis
  proof (cases h)
    case H_Any
    then obtain bs where v: "v = V_OctetString bs" using assms h by (auto simp: leaf_sendable_def split: asn1_value.splits)
    obtain os where "appends (put_octets bs) os" "reads k get_octets os bs" using put_octets_contract by blast
    then show ?thesis by (rule leaf) (simp_all add: defs v H_Any)
  next
    case H_Boolean
    then obtain b where v: "v = V_Boolean b" using assms h by (auto simp: leaf_sendable_def split: asn1_value.splits)
    have "reads k (get_bits 1) [b] (bits_value [b])" using reads_get_bits_list [of k "[b]"] by simp
    with appends_flag [of b] show ?thesis
      by (rule leaf [where h = "\<lambda>b. V_Boolean (b \<noteq> 0)"])
         (auto simp: defs v H_Boolean bits_value_def simp del: put_bits.simps)
  next
    case H_Integer
    then obtain n where v: "v = V_Integer n" and n: "int_constraint_wf (td_constraints def)" "int_permitted (td_constraints def) n"
      using assms h by (auto simp: leaf_sendable_def Let_def split: asn1_value.splits)
    obtain bs where "appends (per_integer_encode (td_constraints def) n) bs" "reads k (per_integer_decode (td_constraints def)) bs n"
      using integer_contract [OF n] by blast
    then show ?thesis by (rule leaf) (simp_all add: defs v H_Integer)
  next
    case H_UInteger
    then obtain n where v: "v = V_UInteger n" and n: "uint_constraint_wf (td_constraints def)" "uint_permitted (td_constraints def) n"
      using assms h by (auto simp: leaf_sendable_def Let_def split: asn1_value.splits)
    obtain bs where "appends (per_uinteger_encode (td_constraints def) n) bs" "reads k (per_uinteger_decode (td_constraints def)) bs n"
      using uinteger_contract [OF n] by blast
    then show ?thesis by (rule leaf) (simp_all add: defs v H_UInteger)
  next
    case H_Null
    then have v: "v = V_Null" using assms h by (auto simp: leaf_sendable_def split: asn1_value.splits)
    have "dest = V_Null" if "shaped \<Gamma> def dest" for dest
      using that by cases (use h H_Null in \<open>auto simp: leaf_shape_def\<close>)
    then show ?thesis
      by (intro passesI [of _ "[]"]) (auto simp: defs v H_Null appends_def reads_def advance_0)
  next
    case H_BitString
    let ?pc = "td_constraints def"
    obtain b where v: "v = V_BitString b" and b: "size_wf ?pc" "bit_string_ok b" "clean_padding b"
      "size_permitted ?pc (bit_count (sent_bit_string ?pc b))" "sent_bit_string ?pc b = b"
      using assms h H_BitString by (auto simp: leaf_sendable_def Let_def split: asn1_value.splits)
    obtain bs where "appends (per_bit_string_encode ?pc b) bs" "reads k (per_bit_string_decode ?pc) bs b"
      using bit_string_contract [OF b(1-4)] unfolding b(5) by blast
    then show ?thesis by (rule leaf) (simp_all add: defs v H_BitString)
  next
    case H_OctetString
    let ?pc = "td_constraints def"
    obtain b where v: "v = V_OctetString b" and b: "size_wf ?pc" "size_permitted ?pc (length b)"
      using assms h H_OctetString by (auto simp: leaf_sendable_def Let_def split: asn1_value.splits)
    obtain bs where "appends (per_octet_string_encode ?pc b) bs" "reads k (per_octet_string_decode ?pc) bs b"
      using octet_string_contract [OF b] by blast
    then show ?thesis by (rule leaf) (simp_all add: defs v H_OctetString)
  next
    case H_Oid
    then obtain a where v: "v = V_Oid a" and a: "oid_valid a" "length (encode_oid a) \<le> 127"
      using assms h by (auto simp: leaf_sendable_def Let_def split: asn1_value.splits)
    obtain bs where "appends (per_oid_encode a) bs" "reads k per_oid_decode bs a" using oid_contract [OF a] by blast
    then show ?thesis by (rule leaf) (simp_all add: defs v H_Oid)
  next
    case H_RelOid
    then obtain a where v: "v = V_RelativeOid a" and a: "length (encode_relative_oid a) \<le> 127"
      using assms h by (auto simp: leaf_sendable_def Let_def split: asn1_value.splits)
    obtain bs where "appends (per_rel_oid_encode a) bs" "reads k per_rel_oid_decode bs a" using rel_oid_contract [OF a] by blast
    then show ?thesis by (rule leaf) (simp_all add: defs v H_RelOid)
  next
    case H_String
    let ?pc = "td_constraints def" and ?tag = "number (builtin_tag def)"
    obtain str where v: "v = V_String str" and str: "alphabet_wf ?pc" "size_wf ?pc" "string_permitted ?tag ?pc str"
      using assms h H_String by (auto simp: leaf_sendable_def Let_def split: asn1_value.splits)
    obtain bs where "appends (per_string_encode ?tag ?pc str) bs" "reads k (per_string_decode ?tag ?pc) bs str"
      using string_contract [OF str] by blast
    then show ?thesis by (rule leaf) (simp_all add: defs v H_String)
  next
    case H_Enumerated
    then obtain n spec where v: "v = V_Enum n" and n: "td_enum_spec def = Some spec" "enum_wf spec" "n \<in> ee_value ` set (es_entries spec)"
      using assms h by (auto simp: leaf_sendable_def Let_def split: asn1_value.splits option.splits)
    then obtain i where i: "i < length (es_entries spec)" "n = ee_value (es_entries spec ! i)" by (auto simp: in_set_conv_nth)
    obtain bs where "appends (per_enum_encode spec n) bs" "reads k (per_enum_decode spec) bs n"
      using enum_contract [OF n(2) i(1)] unfolding i(2) by blast
    then show ?thesis by (rule leaf) (simp_all add: defs v H_Enumerated n(1))
  qed (use assms h in \<open>auto simp: leaf_sendable_def\<close>)
qed

text \<open>The depth guard takes one level from a constructed type.\<close>

lemma advance_depth: "advance n (d\<lparr>pd_depth := x\<rparr>) = (advance n d)\<lparr>pd_depth := x\<rparr>"
  by (simp add: advance_def per_dec_bit_pos_def)

lemma reads_codec:
  assumes "reads k (per_handler_decode codec \<Gamma> def dest) bs v"
  shows "reads (if depth_counts def then Suc k else k) (per_codec_decode codec \<Gamma> def dest) bs v"
proof (rule readsI)
  fix d rest
  assume d: "dec_ok d" "pd_depth d + (if depth_counts def then Suc k else k) \<le> kMaxDecodeDepth" "dec_bits d = bs @ rest"
  let ?d = "per_enter_depth def d"
  have "per_handler_decode codec \<Gamma> def dest ?d = Inr (v, advance (length bs) ?d)"
    by (rule readsD [OF assms, where rest = rest])
       (use d in \<open>auto simp: per_enter_depth_def dec_ok_def dec_bits_def per_dec_bit_pos_def split: if_splits\<close>)
  moreover have "(advance (length bs) ?d)\<lparr>pd_depth := pd_depth d\<rparr> = advance (length bs) d"
    by (simp add: per_enter_depth_def advance_depth)
  moreover have "\<not> (depth_counts def \<and> pd_depth ?d > kMaxDecodeDepth)"
    using d(2) by (auto simp: per_enter_depth_def split: if_splits)
  ultimately show "per_codec_decode codec \<Gamma> def dest d = Inr (v, advance (length bs) d)"
    by (simp add: per_codec_decode_def Let_def)
qed

lemma handler_constructed:
  "td_per_handler def = Some H_SeqOf \<Longrightarrow> per_handler_encode enc \<Gamma> def (V_SeqOf vs) = per_seqof_encode enc \<Gamma> def vs"
  "td_per_handler def = Some H_Sequence \<Longrightarrow> per_handler_encode enc \<Gamma> def (V_Sequence ms) = per_sequence_encode enc \<Gamma> def ms"
  "td_per_handler def = Some H_Choice \<Longrightarrow> per_handler_encode enc \<Gamma> def (V_Choice p w) = per_choice_encode enc \<Gamma> def p w"
  "td_per_handler def = Some H_SeqOf \<Longrightarrow> per_handler_decode dec \<Gamma> def = per_seqof_decode dec \<Gamma> def"
  "td_per_handler def = Some H_Sequence \<Longrightarrow> per_handler_decode dec \<Gamma> def = per_sequence_decode dec \<Gamma> def"
  "td_per_handler def = Some H_Choice \<Longrightarrow> per_handler_decode dec \<Gamma> def = per_choice_decode dec \<Gamma> def"
  by (simp_all add: fun_eq_iff per_handler_encode_def per_handler_decode_def)

lemma codec_transfers:
  assumes "passes \<Gamma> k def (per_handler_encode (per_encode \<Gamma>) \<Gamma> def v) (per_handler_decode (per_decode_fuel n \<Gamma>) \<Gamma> def) v"
    and "(if depth_counts def then Suc k else k) \<le> m"
  shows "transfers \<Gamma> m (per_encode \<Gamma>) (per_decode_fuel (Suc n) \<Gamma>) def v"
proof -
  obtain bs where bs: "appends (per_handler_encode (per_encode \<Gamma>) \<Gamma> def v) bs"
    "\<And>dest. shaped \<Gamma> def dest \<Longrightarrow> reads k (per_handler_decode (per_decode_fuel n \<Gamma>) \<Gamma> def dest) bs v"
    using assms(1) by (auto simp: passes_def)
  have "per_decode_fuel (Suc n) \<Gamma> def dest = per_codec_decode (per_decode_fuel n \<Gamma>) \<Gamma> def dest" for dest
    by (simp add: fun_eq_iff)
  then show ?thesis
    unfolding transfers_def using bs(1) reads_mono [OF reads_codec [OF bs(2)] assms(2)]
    by (intro passesI [of _ bs]) (simp_all add: appends_def per_encode_unfold [of \<Gamma> def v])
qed

text \<open>
  \<open>sendable \<Gamma> def v\<close>: the value meets the constraints of its type, the absent members are
  those the tables can restore, and no element order or count is lost on the wire.
\<close>

inductive sendable :: "type_env \<Rightarrow> type_desc \<Rightarrow> asn1_value \<Rightarrow> bool" for \<Gamma> where
  sendable_leaf: "leaf_sendable def v \<Longrightarrow> \<not> depth_counts def \<Longrightarrow> sendable \<Gamma> def v"
| sendable_seqof: "td_per_handler def = Some H_SeqOf \<Longrightarrow> td_seq_of_spec def = Some spec \<Longrightarrow>
    seqof_sendable (per_encode \<Gamma>) \<Gamma> def spec vs \<Longrightarrow>
    (\<And>v. v \<in> set vs \<Longrightarrow> sendable \<Gamma> (\<Gamma> (sos_element spec)) v) \<Longrightarrow> sendable \<Gamma> def (V_SeqOf vs)"
| sendable_sequence: "td_per_handler def = Some H_Sequence \<Longrightarrow> td_sequence_spec def = Some spec \<Longrightarrow>
    sequence_wf \<Gamma> spec \<Longrightarrow> sequence_sendable spec src \<Longrightarrow>
    (\<And>i v t. i < length src \<Longrightarrow> src ! i = Some v \<Longrightarrow> m_type (ss_members spec ! i) = Some t \<Longrightarrow> sendable \<Gamma> (\<Gamma> t) v) \<Longrightarrow>
    sendable \<Gamma> def (V_Sequence src)"
| sendable_choice: "td_per_handler def = Some H_Choice \<Longrightarrow> td_choice_spec def = Some spec \<Longrightarrow>
    choice_sendable spec p \<Longrightarrow> m_type (cs_alternatives spec ! nat (p - 1)) = Some t \<Longrightarrow> sendable \<Gamma> (\<Gamma> t) v \<Longrightarrow>
    sendable \<Gamma> def (V_Choice p (Some v))"

lemma sendable_transfers:
  assumes "env_wf \<Gamma>"
  shows "sendable \<Gamma> def v \<Longrightarrow> height v < n \<Longrightarrow>
    transfers \<Gamma> (height v) (per_encode \<Gamma>) (per_decode_fuel n \<Gamma>) def v"
proof (induction arbitrary: n rule: sendable.induct)
  case (sendable_leaf def v)
  obtain m where n: "n = Suc m" using sendable_leaf.prems by (cases n) auto
  show ?case
    unfolding n using sendable_leaf.hyps by (intro codec_transfers leaf_transfers) auto
next
  case (sendable_seqof def spec vs)
  obtain m where n: "n = Suc m" "height (V_SeqOf vs) \<le> m" using sendable_seqof.prems by (cases n) auto
  obtain k where k: "height (V_SeqOf vs) = Suc k" by simp
  have "transfers \<Gamma> k (per_encode \<Gamma>) (per_decode_fuel m \<Gamma>) (\<Gamma> (sos_element spec)) v" if "v \<in> set vs" for v
  proof -
    have "height v < m" "height v \<le> k" using height_element [OF that] n(2) k by linarith+
    then show ?thesis by (rule transfers_mono [OF sendable_seqof.IH [OF that]])
  qed
  then have "passes \<Gamma> k def (per_seqof_encode (per_encode \<Gamma>) \<Gamma> def vs) (per_seqof_decode (per_decode_fuel m \<Gamma>) \<Gamma> def) (V_SeqOf vs)"
    using sendable_seqof.hyps assms by (intro seqof_transfers) auto
  then show ?case
    unfolding n(1) k using sendable_seqof.hyps(1)
    by (intro codec_transfers [where k = k]) (simp_all add: handler_constructed)
next
  case (sendable_sequence def spec src)
  obtain m where n: "n = Suc m" "height (V_Sequence src) \<le> m" using sendable_sequence.prems by (cases n) auto
  obtain k where k: "height (V_Sequence src) = Suc k" by simp
  have "transfers \<Gamma> k (per_encode \<Gamma>) (per_decode_fuel m \<Gamma>) (\<Gamma> t) v"
    if "i < length src" "src ! i = Some v" "m_type (ss_members spec ! i) = Some t" for i v t
  proof -
    have "Some v \<in> set src" using that(1,2) by (metis nth_mem)
    then have "height v < m" "height v \<le> k" using height_member [of v src] n(2) k by linarith+
    then show ?thesis by (rule transfers_mono [OF sendable_sequence.IH [OF that]])
  qed
  then have "members_transfer \<Gamma> k (per_encode \<Gamma>) (per_decode_fuel m \<Gamma>) spec src"
    using sendable_sequence.hyps(4) by (simp add: members_transfer_def sequence_sendable_def)
  then have "passes \<Gamma> k def (per_sequence_encode (per_encode \<Gamma>) \<Gamma> def src) (per_sequence_decode (per_decode_fuel m \<Gamma>) \<Gamma> def) (V_Sequence src)"
    using sendable_sequence.hyps assms by (intro sequence_transfers) auto
  then show ?case
    unfolding n(1) k using sendable_sequence.hyps(1)
    by (intro codec_transfers [where k = k]) (simp_all add: handler_constructed)
next
  case (sendable_choice def spec p t v)
  obtain m where n: "n = Suc m" "Suc (height v) \<le> m" using sendable_choice.prems by (cases n) auto
  have "transfers \<Gamma> (height v) (per_encode \<Gamma>) (per_decode_fuel m \<Gamma>) (\<Gamma> t) v"
    using sendable_choice.IH [of m] n(2) by simp
  then have "passes \<Gamma> (height v) def (per_choice_encode (per_encode \<Gamma>) \<Gamma> def p (Some v))
      (per_choice_decode (per_decode_fuel m \<Gamma>) \<Gamma> def) (V_Choice p (Some v))"
    using sendable_choice.hyps assms by (intro choice_transfers) auto
  then show ?case
    unfolding n(1) using sendable_choice.hyps(1)
    by (intro codec_transfers [where k = "height v"]) (simp_all add: handler_constructed)
qed

text \<open>The codec is a \<open>bit_codec\<close> for the sendable values of a type.\<close>

definition per_encode_value :: "type_env \<Rightarrow> type_desc \<Rightarrow> asn1_value \<Rightarrow> byte list" where
  "per_encode_value \<Gamma> def v = pe_buf (per_flush (per_encode \<Gamma> def v new_per_enc))"

end
