(* ===== verification/Ber_Roundtrip.thy ===== *)
theory Ber_Roundtrip
  imports Ber_Safety Per_Roundtrip
begin

text \<open>
  What the BER encoder writes, the BER decoder reads back: for every value that a
  well-formed descriptor can send (\<open>ber_sendable\<close>), wherever its octets stand, whatever
  follows them and whatever object of the type is decoded into.
\<close>

section \<open>Octets that are read back\<close>

text \<open>
  \<open>restores \<Gamma> k g def v c\<close>: from the octets \<open>c\<close> the decoder \<open>g\<close> rebuilds \<open>v\<close> in any object
  of the type and stops behind them, when \<open>k\<close> levels of nesting are left.
  \<open>restores_contents\<close> says the same of the contents octets alone.
\<close>

definition restores :: "type_env \<Rightarrow> nat \<Rightarrow> decoder \<Rightarrow> type_desc \<Rightarrow> asn1_value \<Rightarrow> byte list \<Rightarrow> bool" where
  "restores \<Gamma> k g def v c \<longleftrightarrow>
     (\<forall>pre post dest d. shaped \<Gamma> def dest \<longrightarrow> d + k \<le> kMaxDecodeDepth \<longrightarrow>
        g def dest (reader_at pre (c @ post) d) = Inr (v, reader_at (pre @ c) post d))"

definition restores_contents :: "type_env \<Rightarrow> nat \<Rightarrow> content_decoder \<Rightarrow> type_desc \<Rightarrow> asn1_value \<Rightarrow> byte list \<Rightarrow> bool" where
  "restores_contents \<Gamma> k h def v s \<longleftrightarrow>
     (\<forall>dest d. shaped \<Gamma> def dest \<longrightarrow> d + k \<le> kMaxDecodeDepth \<longrightarrow> h def dest (reader_at [] s d) = Inr v)"

lemma restoresD:
  "restores \<Gamma> k g def v c \<Longrightarrow> shaped \<Gamma> def dest \<Longrightarrow> d + k \<le> kMaxDecodeDepth \<Longrightarrow>
     g def dest (reader_at pre (c @ post) d) = Inr (v, reader_at (pre @ c) post d)"
  by (simp add: restores_def)

lemma restores_contentsD:
  "restores_contents \<Gamma> k h def v s \<Longrightarrow> shaped \<Gamma> def dest \<Longrightarrow> d + k \<le> kMaxDecodeDepth \<Longrightarrow>
     h def dest (reader_at [] s d) = Inr v"
  by (simp add: restores_contents_def)

lemma restores_mono: "restores \<Gamma> k g def v c \<Longrightarrow> k \<le> m \<Longrightarrow> restores \<Gamma> m g def v c"
  by (simp add: restores_def)

lemma restores_contents_mono: "restores_contents \<Gamma> k h def v s \<Longrightarrow> k \<le> m \<Longrightarrow> restores_contents \<Gamma> m h def v s"
  by (simp add: restores_contents_def)

text \<open>A complete encoding that the reader can take apart.\<close>

definition tlv_ok :: "tag \<Rightarrow> byte list \<Rightarrow> bool" where
  "tlv_ok t s \<longleftrightarrow> number t \<noteq> - 1 \<and> length s < 2 ^ 64"

lemma read_tlv_ok:
  "tlv_ok t s \<Longrightarrow> read_tlv (reader_at pre (tlv_octets t s @ post) d)
     = Inr (\<lparr>tlv_tag = t, tlv_value = s, tlv_indefinite = False\<rparr>, reader_at (pre @ tlv_octets t s) post d)"
  by (simp add: tlv_ok_def reader_simps)

lemma peek_tlv: "peek_tag (reader_at pre (tlv_octets t s @ post) d) = t"
  by (simp add: tlv_octets_def reader_simps)

lemma tlv_nonempty [simp]: "tlv_octets t s \<noteq> []"
  by (simp add: tlv_octets_def tag_octets_def)

lemma tlv_length: "length s < length (tlv_octets t s)"
  by (simp add: tlv_octets_def)

text \<open>
  The promise for a type, with the encoding \<open>c\<close>: an own tag and contents that are read
  back alone, unless the type is tagged explicitly or is a CHOICE.
\<close>

definition plain_tagged :: "type_desc \<Rightarrow> bool" where
  "plain_tagged def \<longleftrightarrow> \<not> td_is_explicit def \<and> td_ber_handler def \<noteq> Some H_Choice"

definition ber_passes :: "type_env \<Rightarrow> nat \<Rightarrow> decoder \<Rightarrow> content_decoder \<Rightarrow> type_desc \<Rightarrow> asn1_value \<Rightarrow> octets \<Rightarrow> bool" where
  "ber_passes \<Gamma> k dec decv def v x \<longleftrightarrow> \<not> snd x \<and> restores \<Gamma> k dec def v (fst x) \<and>
     (\<exists>t s. fst x = tlv_octets t s \<and> tlv_ok t s \<and>
        (plain_tagged def \<longrightarrow> t = td_tag def \<and> restores_contents \<Gamma> k decv def v s))"

lemma ber_passes_mono: "ber_passes \<Gamma> k dec decv def v x \<Longrightarrow> k \<le> m \<Longrightarrow> ber_passes \<Gamma> m dec decv def v x"
  unfolding ber_passes_def using restores_mono restores_contents_mono by blast

section \<open>Primitive types\<close>

text \<open>The contents of a primitive value.\<close>

definition leaf_contents :: "handler \<Rightarrow> asn1_value \<Rightarrow> byte list option" where
  "leaf_contents h v =
     (case (h, v) of
        (H_Boolean, V_Boolean b) \<Rightarrow> Some [if b then 0xFF else 0x00]
      | (H_Integer, V_Integer n) \<Rightarrow> Some (encode_integer_bytes n)
      | (H_UInteger, V_UInteger n) \<Rightarrow> Some (encode_uinteger_bytes n)
      | (H_Null, V_Null) \<Rightarrow> Some []
      | (H_BitString, V_BitString b) \<Rightarrow> if bit_string_ok b then Some (encode_bit_string_bytes b) else None
      | (H_OctetString, V_OctetString bs) \<Rightarrow> Some bs
      | (H_Oid, V_Oid a) \<Rightarrow> if oid_valid a then Some (encode_oid a) else None
      | (H_RelOid, V_RelativeOid a) \<Rightarrow> Some (encode_relative_oid a)
      | (H_UtcTime, V_String str) \<Rightarrow> Some str
      | (H_GenTime, V_String str) \<Rightarrow> Some str
      | (H_String, V_String str) \<Rightarrow> Some str
      | (H_Enumerated, V_Enum n) \<Rightarrow> Some (encode_integer_bytes n)
      | _ \<Rightarrow> None)"

lemma leaf_octets:
  assumes "td_ber_handler def = Some h" "leaf_contents h v = Some s"
  shows "handler_octets co \<Gamma> def v = (tlv_octets (td_tag def) s, False)"
  using assms
  by (auto simp: leaf_contents_def handler_octets_def wrap_octets_def split: handler.splits asn1_value.splits if_splits)

lemma leaf_conv:
  assumes "leaf_contents h v = Some s" "per_handler_of h = H_Null \<longrightarrow> dest = V_Null"
  shows "\<exists>conv. primitive_value h dest = Some conv \<and> conv s = Inr v"
proof -
  have "boolean_value [0xFF] = Inr (V_Boolean True)" "boolean_value [0x00] = Inr (V_Boolean False)"
    by (simp_all add: boolean_value_def)
  with assms show ?thesis
    by (cases h; cases v)
       (auto simp: leaf_contents_def primitive_value_def per_handler_of_def integer_roundtrip_value
         uinteger_roundtrip_value bit_string_roundtrip_value oid_roundtrip_value relative_oid_roundtrip_value
         split: if_split_asm)
qed

lemma leaf_restored:
  assumes "td_ber_handler def = Some h" "leaf_contents h v = Some s" "tlv_ok (td_tag def) s"
    "td_per_handler def = Some (per_handler_of h)"
  shows "restores \<Gamma> k (handler_decode dec decv \<Gamma>) def v (tlv_octets (td_tag def) s)"
    "restores_contents \<Gamma> k (handler_decode_value dec decv \<Gamma>) def v s"
proof -
  have null: "per_handler_of h = H_Null \<longrightarrow> dest = V_Null" if "shaped \<Gamma> def dest" for dest
    using that assms(4) by cases (auto simp: leaf_shape_def)
  have prim: "decode_primitive e err conv (reader_at pre (tlv_octets (td_tag def) s @ post) d)
      = Inr (v, reader_at (pre @ tlv_octets (td_tag def) s) post d)"
    if "conv s = Inr v" "e = Some (td_tag def) \<or> e = None" for e err conv pre post d
    using that by (auto simp: decode_primitive_def read_tlv_ok [OF assms(3)])
  show "restores \<Gamma> k (handler_decode dec decv \<Gamma>) def v (tlv_octets (td_tag def) s)"
    unfolding restores_def
  proof (intro allI impI)
    fix pre post dest d
    assume "shaped \<Gamma> def dest"
    then obtain conv where conv: "primitive_value h dest = Some conv" "conv s = Inr v"
      using leaf_conv [OF assms(2) null] by blast
    have bool: "boolean_contents s = Inr v" if "h = H_Boolean"
      using that assms(2) by (auto simp: leaf_contents_def boolean_contents_def split: asn1_value.splits if_splits)
    show "handler_decode dec decv \<Gamma> def dest (reader_at pre (tlv_octets (td_tag def) s @ post) d)
        = Inr (v, reader_at (pre @ tlv_octets (td_tag def) s) post d)"
      using assms(1) conv prim [of conv, OF conv(2)] prim [of boolean_contents, OF bool]
      by (cases h) (auto simp: handler_decode_def primitive_value_def)
  qed
  show "restores_contents \<Gamma> k (handler_decode_value dec decv \<Gamma>) def v s"
    unfolding restores_contents_def
  proof (intro allI impI)
    fix dest d
    assume "shaped \<Gamma> def dest"
    then obtain conv where "primitive_value h dest = Some conv" "conv s = Inr v"
      using leaf_conv [OF assms(2) null] by blast
    then show "handler_decode_value dec decv \<Gamma> def dest (reader_at [] s d) = Inr v"
      using assms(1) by (cases h) (auto simp: handler_decode_value_def reader_simps primitive_value_def)
  qed
qed

section \<open>Members and alternatives\<close>

text \<open>
  The tag of a row can be written and read: an IMPLICIT tag replaces the one tag of a
  type, so not that of a CHOICE, and not that of a type with an EXPLICIT tag of its own,
  whose contents the decoder would take for the inner encoding.
\<close>

definition row_tag_ok :: "type_env \<Rightarrow> member \<Rightarrow> bool" where
  "row_tag_ok \<Gamma> mbr \<longleftrightarrow>
     (case m_type mbr of
        None \<Rightarrow> False
      | Some t \<Rightarrow> m_tag_is_override mbr \<longrightarrow>
          number (m_tag mbr) \<noteq> - 1 \<and> (\<not> m_is_explicit mbr \<longrightarrow> plain_tagged (\<Gamma> t)))"

text \<open>The encoding of a row: its octets are complete, and what the decoder finds inside.\<close>

lemma component_tlv:
  assumes "ber_passes \<Gamma> k dec decv (\<Gamma> t) v (co (\<Gamma> t) v)" "row_tag_ok \<Gamma> mbr" "m_type mbr = Some t"
    "length (fst (co (\<Gamma> t) v)) < 2 ^ 64"
  obtains u s where "component_octets co mbr (\<Gamma> t) v = (tlv_octets u s, False)" "tlv_ok u s"
    "m_tag_is_override mbr \<Longrightarrow> tag_matches u (m_tag mbr)"
    "m_tag_is_override mbr \<Longrightarrow> m_is_explicit mbr \<Longrightarrow> s = fst (co (\<Gamma> t) v)"
    "m_tag_is_override mbr \<Longrightarrow> \<not> m_is_explicit mbr \<Longrightarrow> restores_contents \<Gamma> k decv (\<Gamma> t) v s"
    "\<not> m_tag_is_override mbr \<Longrightarrow> tlv_octets u s = fst (co (\<Gamma> t) v)"
proof -
  obtain w s where ws: "co (\<Gamma> t) v = (tlv_octets w s, False)" "tlv_ok w s"
    and plain: "plain_tagged (\<Gamma> t) \<Longrightarrow> restores_contents \<Gamma> k decv (\<Gamma> t) v s"
    using assms(1) unfolding ber_passes_def by (cases "co (\<Gamma> t) v") auto
  consider "\<not> m_tag_is_override mbr" | "m_tag_is_override mbr" "m_is_explicit mbr"
    | "m_tag_is_override mbr" "\<not> m_is_explicit mbr" by blast
  then show ?thesis
  proof cases
    case 1
    show ?thesis
      by (rule that [of w s]) (use 1 ws in \<open>simp_all add: component_octets_def\<close>)
  next
    case 2
    show ?thesis
      by (rule that [of "(m_tag mbr)\<lparr>constructed := True\<rparr>" "tlv_octets w s"])
         (use 2 ws(1) assms(2-4) in \<open>simp_all add: component_octets_def wrap_octets_def row_tag_ok_def tlv_ok_def tag_matches_def\<close>)
  next
    case 3
    show ?thesis
      by (rule that [of "(m_tag mbr)\<lparr>constructed := constructed (td_tag (\<Gamma> t))\<rparr>" s])
         (use 3 ws assms(2,3) plain in \<open>simp_all add: component_octets_def retag_tlv_octets row_tag_ok_def tlv_ok_def tag_matches_def\<close>)
  qed
qed

lemma nested_restored:
  assumes "ber_passes \<Gamma> k dec decv (\<Gamma> t) v (co (\<Gamma> t) v)" "row_tag_ok \<Gamma> mbr" "m_type mbr = Some t"
    "length (fst (co (\<Gamma> t) v)) < 2 ^ 64" "shaped \<Gamma> (\<Gamma> t) x" "d + k \<le> kMaxDecodeDepth"
  shows "decode_component dec decv def mbr (\<Gamma> t) x (reader_at pre (fst (component_octets co mbr (\<Gamma> t) v) @ post) d)
      = Inr (v, reader_at (pre @ fst (component_octets co mbr (\<Gamma> t) v)) post d)"
    "(if m_tag_is_override mbr then
        rbind (read_tlv (reader_at pre (fst (component_octets co mbr (\<Gamma> t) v) @ post) d)) (\<lambda>(outer, r).
          if m_is_explicit mbr then
            rbind (dec (\<Gamma> t) x (sub_reader (tlv_value outer) r)) (\<lambda>(v, _). Inr (v, r))
          else rbind (decv (\<Gamma> t) x (sub_reader (tlv_value outer) r)) (\<lambda>v. Inr (v, r)))
      else dec (\<Gamma> t) x (reader_at pre (fst (component_octets co mbr (\<Gamma> t) v) @ post) d))
      = Inr (v, reader_at (pre @ fst (component_octets co mbr (\<Gamma> t) v)) post d)"
proof -
  from component_tlv [where co = co, OF assms(1-4)] obtain u s where c: "component_octets co mbr (\<Gamma> t) v = (tlv_octets u s, False)" "tlv_ok u s"
    "m_tag_is_override mbr \<Longrightarrow> tag_matches u (m_tag mbr)"
    "m_tag_is_override mbr \<Longrightarrow> m_is_explicit mbr \<Longrightarrow> s = fst (co (\<Gamma> t) v)"
    "m_tag_is_override mbr \<Longrightarrow> \<not> m_is_explicit mbr \<Longrightarrow> restores_contents \<Gamma> k decv (\<Gamma> t) v s"
    "\<not> m_tag_is_override mbr \<Longrightarrow> tlv_octets u s = fst (co (\<Gamma> t) v)" by metis
  have dec: "dec (\<Gamma> t) x (reader_at pre (fst (co (\<Gamma> t) v) @ post) d) = Inr (v, reader_at (pre @ fst (co (\<Gamma> t) v)) post d)" for pre post
    using assms(1,5,6) by (simp add: ber_passes_def restores_def)
  have whole: "dec (\<Gamma> t) x (reader_at [] (fst (co (\<Gamma> t) v)) d) = Inr (v, reader_at (fst (co (\<Gamma> t) v)) [] d)"
    using dec [of "[]" "[]"] by simp
  have contents: "decv (\<Gamma> t) x (reader_at [] s d) = Inr v" if "m_tag_is_override mbr" "\<not> m_is_explicit mbr"
    using c(5) [OF that] assms(5,6) by (rule restores_contentsD)
  show "decode_component dec decv def mbr (\<Gamma> t) x (reader_at pre (fst (component_octets co mbr (\<Gamma> t) v) @ post) d)
      = Inr (v, reader_at (pre @ fst (component_octets co mbr (\<Gamma> t) v)) post d)"
    using c dec whole contents
    by (auto simp: decode_component_def read_tlv_ok [OF c(2)] sub_reader_at)
  show "(if m_tag_is_override mbr then
        rbind (read_tlv (reader_at pre (fst (component_octets co mbr (\<Gamma> t) v) @ post) d)) (\<lambda>(outer, r).
          if m_is_explicit mbr then
            rbind (dec (\<Gamma> t) x (sub_reader (tlv_value outer) r)) (\<lambda>(v, _). Inr (v, r))
          else rbind (decv (\<Gamma> t) x (sub_reader (tlv_value outer) r)) (\<lambda>v. Inr (v, r)))
      else dec (\<Gamma> t) x (reader_at pre (fst (component_octets co mbr (\<Gamma> t) v) @ post) d))
      = Inr (v, reader_at (pre @ fst (component_octets co mbr (\<Gamma> t) v)) post d)"
    using c dec whole contents
    by (auto simp: read_tlv_ok [OF c(2)] sub_reader_at)
qed

section \<open>SEQUENCE OF and SET OF\<close>

lemma seqof_loop_restored:
  assumes "\<forall>v \<in> set ws. restores \<Gamma> k dec (\<Gamma> t) v (f v) \<and> f v \<noteq> []" "shaped \<Gamma> (\<Gamma> t) (td_new (\<Gamma> t))"
    "d + k \<le> kMaxDecodeDepth"
  shows "length ws < fuel \<Longrightarrow> cnt \<le> length seq \<Longrightarrow> \<forall>x \<in> set (drop cnt seq). shaped \<Gamma> (\<Gamma> t) x \<Longrightarrow>
    seqof_decode_loop fuel dec (\<Gamma> t) seq cnt (reader_at pre (concat (map f ws)) d) = Inr (take cnt seq @ ws)"
  using assms(1)
proof (induction ws arbitrary: fuel seq cnt pre)
  case Nil
  then obtain m where "fuel = Suc m" by (cases fuel) auto
  with Nil show ?case by (auto simp: reader_simps)
next
  case (Cons w ws)
  then obtain m where m: "fuel = Suc m" "length ws < m" by (cases fuel) auto
  let ?seq = "if length seq \<le> cnt then seq @ [td_new (\<Gamma> t)] else seq"
  have cnt: "cnt < length ?seq" using Cons.prems by auto
  then have split: "drop cnt ?seq = ?seq ! cnt # drop (Suc cnt) ?seq" by (simp add: Cons_nth_drop_Suc)
  have "\<forall>x \<in> set (drop cnt ?seq). shaped \<Gamma> (\<Gamma> t) x" using Cons.prems assms(2) by auto
  then have seq: "shaped \<Gamma> (\<Gamma> t) (?seq ! cnt)" "\<forall>x \<in> set (drop (Suc cnt) ?seq). shaped \<Gamma> (\<Gamma> t) x"
    unfolding split by auto
  have dec: "dec (\<Gamma> t) (?seq ! cnt) (reader_at pre (f w @ concat (map f ws)) d)
      = Inr (w, reader_at (pre @ f w) (concat (map f ws)) d)"
    using Cons.prems(4) seq(1) assms(3) by (intro restoresD) simp_all
  have "seqof_decode_loop m dec (\<Gamma> t) (?seq[cnt := w]) (cnt + 1) (reader_at (pre @ f w) (concat (map f ws)) d)
      = Inr (take (cnt + 1) (?seq[cnt := w]) @ ws)"
    using m(2) cnt seq(2) Cons.prems(4) by (intro Cons.IH) auto
  moreover have "take (cnt + 1) (?seq[cnt := w]) = take cnt seq @ [w]"
    using Cons.prems(2) cnt by (auto simp: take_Suc_conv_app_nth)
  ultimately show ?case
    using Cons.prems(4) dec by (simp add: m(1) reader_simps Let_def)
qed

lemma concat_nonempty: "concat (filter (\<lambda>s. s \<noteq> []) ss) = concat ss"
  by (induction ss) auto

lemma length_concat_nonempty: "(\<forall>x \<in> set xs. x \<noteq> []) \<Longrightarrow> length xs \<le> length (concat xs)"
  by (induction xs) (auto simp: Suc_le_eq intro!: order.strict_trans1 [OF _ less_add_same_cancel2 [THEN iffD2]])

text \<open>The whole contents of a SEQUENCE OF or SET OF.\<close>

lemma seqof_body_restored:
  assumes "\<forall>v \<in> set vs. ber_passes \<Gamma> k dec decv (\<Gamma> (sos_element spec)) v (co (\<Gamma> (sos_element spec)) v)"
    "env_wf \<Gamma>" "td_per_handler def = Some H_SeqOf" "td_seq_of_spec def = Some spec"
    "number (builtin_tag def) = UT_Set \<longrightarrow> sorted (map (\<lambda>v. fst (co (\<Gamma> (sos_element spec)) v)) vs)"
  shows "\<exists>s. seqof_octets co \<Gamma> def vs = (tlv_octets (td_tag def) s, False) \<and>
    (\<forall>dest d. shaped \<Gamma> def dest \<longrightarrow> d + k \<le> kMaxDecodeDepth \<longrightarrow>
       seqof_decode_body dec \<Gamma> def dest (reader_at [] s d) = Inr (V_SeqOf vs))"
proof -
  let ?e = "\<Gamma> (sos_element spec)"
  let ?f = "\<lambda>v. fst (co ?e v)"
  let ?s = "concat (map ?f vs)"
  have pass: "\<forall>v \<in> set vs. restores \<Gamma> k dec ?e v (?f v) \<and> ?f v \<noteq> [] \<and> \<not> snd (co ?e v)"
    using assms(1) by (auto simp: ber_passes_def)
  have "sort (map ?f vs) = map ?f vs" if "number (builtin_tag def) = UT_Set"
    using assms(5) that by (simp add: sorted_sort_id)
  then have "seqof_octets co \<Gamma> def vs = (tlv_octets (td_tag def) ?s, False)"
    using pass by (auto simp: seqof_octets_def assms(4) Let_def wrap_octets_def join_octets_def o_def)
  moreover have "seqof_decode_body dec \<Gamma> def dest (reader_at [] ?s d) = Inr (V_SeqOf vs)"
    if dest: "shaped \<Gamma> def dest" and d: "d + k \<le> kMaxDecodeDepth" for dest d
  proof -
    obtain seq where seq: "dest = V_SeqOf seq" "\<forall>x \<in> set seq. shaped \<Gamma> ?e x"
      using dest unfolding shaped_seqof_iff [OF assms(3,4)] by blast
    have "length vs < Suc (length ?s)"
      using length_concat_nonempty [of "map ?f vs"] pass by auto
    then have "seqof_decode_loop (Suc (length ?s)) dec ?e seq 0 (reader_at [] ?s d) = Inr (take 0 seq @ vs)"
      by (intro seqof_loop_restored [where \<Gamma> = \<Gamma>]) (use pass seq d new_shaped [OF assms(2)] in auto)
    then show ?thesis
      by (simp add: seqof_decode_body_def assms(4) seq(1) reader_simps del: seqof_decode_loop.simps)
  qed
  ultimately show ?thesis by blast
qed

section \<open>The tags of a table\<close>

definition first_tag :: "byte list \<Rightarrow> tag" where
  "first_tag c = peek_tag (new_reader c)"

lemma first_tag_tlv [simp]: "first_tag (tlv_octets t s @ post) = t" "first_tag (tlv_octets t s) = t"
  using peek_tlv [of "[]" t s post 0] peek_tlv [of "[]" t s "[]" 0] by (simp_all add: first_tag_def new_reader_at)

definition choice_tags :: "choice_spec \<Rightarrow> tag list" where
  "choice_tags cspec =
     (case cs_ber_tags cspec of
        Some es \<Rightarrow> if es \<noteq> [] then map cte_tag es else map m_tag (cs_alternatives cspec)
      | None \<Rightarrow> map m_tag (cs_alternatives cspec))"

definition row_tags :: "type_env \<Rightarrow> member \<Rightarrow> tag list" where
  "row_tags \<Gamma> mbr = (case is_untagged_choice \<Gamma> mbr of None \<Rightarrow> [m_tag mbr] | Some cspec \<Rightarrow> choice_tags cspec)"

lemma set_member_matches_tags: "set_member_matches \<Gamma> mbr t \<longleftrightarrow> list_ex (tag_matches t) (row_tags \<Gamma> mbr)"
  by (auto simp: set_member_matches_def row_tags_def choice_has_tag_def choice_tags_def list_ex_iff
      split: option.splits)

text \<open>No tag opens both rows.\<close>

definition rows_apart :: "type_env \<Rightarrow> member \<Rightarrow> member \<Rightarrow> bool" where
  "rows_apart \<Gamma> a b \<longleftrightarrow> list_all (\<lambda>t. list_all (\<lambda>u. \<not> tag_matches t u) (row_tags \<Gamma> b)) (row_tags \<Gamma> a)"

lemma rows_apartD: "rows_apart \<Gamma> a b \<Longrightarrow> set_member_matches \<Gamma> b t \<Longrightarrow> \<not> set_member_matches \<Gamma> a t"
  unfolding set_member_matches_tags rows_apart_def list_ex_iff list_all_iff by (metis tag_matches_def)

text \<open>
  X.680 25.6: an optional member has a tag that no member up to the next mandatory one
  has; X.680 27.3: the members of a SET have distinct tags.
\<close>

fun apart_next :: "type_env \<Rightarrow> member \<Rightarrow> member list \<Rightarrow> bool" where
  "apart_next \<Gamma> a [] \<longleftrightarrow> True"
| "apart_next \<Gamma> a (b # bs) \<longleftrightarrow> rows_apart \<Gamma> a b \<and> (m_optional b \<longrightarrow> apart_next \<Gamma> a bs)"

fun sequence_tags_ok :: "type_env \<Rightarrow> member list \<Rightarrow> bool" where
  "sequence_tags_ok \<Gamma> [] \<longleftrightarrow> True"
| "sequence_tags_ok \<Gamma> (m # ms) \<longleftrightarrow> (m_optional m \<longrightarrow> apart_next \<Gamma> m ms) \<and> sequence_tags_ok \<Gamma> ms"

fun set_tags_ok :: "type_env \<Rightarrow> member list \<Rightarrow> bool" where
  "set_tags_ok \<Gamma> [] \<longleftrightarrow> True"
| "set_tags_ok \<Gamma> (m # ms) \<longleftrightarrow> list_all (rows_apart \<Gamma> m) ms \<and> set_tags_ok \<Gamma> ms"

lemma set_tags_sequence: "set_tags_ok \<Gamma> ms \<Longrightarrow> sequence_tags_ok \<Gamma> ms"
proof (induction ms)
  case (Cons m ms)
  have "list_all (rows_apart \<Gamma> m) bs \<Longrightarrow> apart_next \<Gamma> m bs" for bs by (induction bs) auto
  with Cons show ?case by simp
qed simp

text \<open>
  The octets of the rows, empty for a row that is not sent: each is one encoding that
  opens with a tag of its row.
\<close>

definition row_open :: "type_env \<Rightarrow> member \<Rightarrow> byte list \<Rightarrow> bool" where
  "row_open \<Gamma> mbr c \<longleftrightarrow> (c = [] \<longrightarrow> m_optional mbr) \<and>
     (c \<noteq> [] \<longrightarrow> (\<exists>u s. c = tlv_octets u s \<and> tlv_ok u s) \<and> set_member_matches \<Gamma> mbr (first_tag c))"

lemma row_openD:
  assumes "row_open \<Gamma> mbr c" "c \<noteq> []"
  obtains u s where "c = tlv_octets u s" "tlv_ok u s" "set_member_matches \<Gamma> mbr u"
  using assms unfolding row_open_def by auto

lemma absent_row:
  "list_all2 (row_open \<Gamma>) ms cs \<Longrightarrow> apart_next \<Gamma> a ms \<Longrightarrow> \<not> member_present \<Gamma> a (reader_at pre (concat cs) d)"
proof (induction ms cs arbitrary: pre rule: list_all2_induct)
  case Nil
  then show ?case by (simp add: member_present_def reader_simps)
next
  case (Cons m ms c cs)
  show ?case
  proof (cases "c = []")
    case True
    with Cons show ?thesis by (simp add: row_open_def)
  next
    case False
    from Cons(1) False obtain u s where u: "c = tlv_octets u s" "set_member_matches \<Gamma> m u" by (rule row_openD)
    with Cons.prems show ?thesis by (auto simp: member_present_def peek_tlv dest: rows_apartD)
  qed
qed

lemma present_row:
  assumes "row_open \<Gamma> m c" "c \<noteq> []"
  shows "member_present \<Gamma> m (reader_at pre (c @ post) d)"
proof -
  from assms obtain u s where "c = tlv_octets u s" "set_member_matches \<Gamma> m u" by (rule row_openD)
  then show ?thesis by (simp add: member_present_def peek_tlv reader_simps)
qed

text \<open>A SET is sent in table order, and its reordering leaves it so.\<close>

lemma place_tlv_own:
  "length slots = length ms \<Longrightarrow> \<forall>x \<in> set ms. \<not> set_member_matches \<Gamma> x t \<Longrightarrow> set_member_matches \<Gamma> m t \<Longrightarrow>
   place_tlv \<Gamma> (ms @ m # ms') (slots @ [] # slots') t raw = (slots @ raw # slots', True)"
  by (induction ms slots rule: list_induct2') auto

lemma set_scan_own:
  "list_all2 (row_open \<Gamma>) ms cs \<Longrightarrow> length cs0 = length ms0 \<Longrightarrow> set_tags_ok \<Gamma> ms \<Longrightarrow>
   \<forall>a \<in> set ms0. \<forall>b \<in> set ms. rows_apart \<Gamma> a b \<Longrightarrow>
   set_scan \<Gamma> (ms0 @ ms) (cs0 @ replicate (length ms) []) [] (reader_at pre (concat cs) d) = Inr (cs0 @ cs, [])"
proof (induction ms cs arbitrary: ms0 cs0 pre rule: list_all2_induct)
  case Nil
  then show ?case by (simp add: set_scan.simps reader_simps)
next
  case (Cons m ms c cs)
  have all: "\<forall>a \<in> set (ms0 @ [m]). \<forall>b \<in> set ms. rows_apart \<Gamma> a b"
    using Cons.prems by (auto simp: list_all_iff)
  have IH: "set_scan \<Gamma> (ms0 @ m # ms) (cs0 @ c # replicate (length ms) []) [] (reader_at p (concat cs) d) = Inr (cs0 @ c # cs, [])" for p
    using Cons.IH [of "cs0 @ [c]" "ms0 @ [m]" p] Cons.prems all by simp
  show ?case
  proof (cases "c = []")
    case True
    then show ?thesis using IH [of pre] by simp
  next
    case False
    from Cons(1) False obtain u s where u: "c = tlv_octets u s" "tlv_ok u s" "set_member_matches \<Gamma> m u" by (rule row_openD)
    have "\<forall>x \<in> set ms0. \<not> set_member_matches \<Gamma> x u" using Cons.prems(3) u(3) rows_apartD by fastforce
    then have "place_tlv \<Gamma> (ms0 @ m # ms) (cs0 @ [] # replicate (length ms) []) u c = (cs0 @ c # replicate (length ms) [], True)"
      using Cons.prems(1) u(3) by (intro place_tlv_own)
    moreover have "reader_peek (length c + length (concat cs)) (reader_at pre (c @ concat cs) d) = c @ concat cs"
      by (simp add: reader_peek_def reader_simps)
    ultimately show ?thesis
      using IH [of "pre @ c"] False u(2)
      by (subst set_scan.simps) (simp add: u(1) reader_simps read_tlv_ok peek_tlv)
  qed
qed

lemma set_in_table_order_own:
  assumes "list_all2 (row_open \<Gamma>) (ss_members spec) cs" "set_tags_ok \<Gamma> (ss_members spec)"
  shows "set_in_table_order \<Gamma> spec (reader_at pre (concat cs) d) = Inr (concat cs)"
  using set_scan_own [OF assms(1), of "[]" "[]"] assms(2) by (simp add: set_in_table_order_def)

section \<open>SEQUENCE and SET\<close>

definition row_octets :: "octet_spec \<Rightarrow> type_env \<Rightarrow> asn1_value option list \<Rightarrow> nat \<Rightarrow> member \<Rightarrow> byte list" where
  "row_octets co \<Gamma> src i mbr =
     (if m_optional mbr \<and> \<not> sent mbr src i then []
      else
        (case (m_type mbr, src ! i) of
           (Some t, Some v) \<Rightarrow> fst (component_octets co mbr (\<Gamma> t) v)
         | _ \<Rightarrow> []))"

fun rows_octets :: "octet_spec \<Rightarrow> type_env \<Rightarrow> asn1_value option list \<Rightarrow> nat \<Rightarrow> member list \<Rightarrow> byte list list" where
  "rows_octets co \<Gamma> src i [] = []"
| "rows_octets co \<Gamma> src i (mbr # mbrs) = row_octets co \<Gamma> src i mbr # rows_octets co \<Gamma> src (Suc i) mbrs"

definition ber_row_ok :: "type_env \<Rightarrow> member \<Rightarrow> nat \<Rightarrow> asn1_value option list \<Rightarrow> bool" where
  "ber_row_ok \<Gamma> mbr i src \<longleftrightarrow>
     root_row_ok mbr i src \<and> row_tag_ok \<Gamma> mbr \<and> (\<not> m_has_default mbr \<longrightarrow> m_is_default_equal mbr = None)"

text \<open>The members of \<open>src\<close> pass on their own.\<close>

definition rows_pass ::
    "type_env \<Rightarrow> nat \<Rightarrow> decoder \<Rightarrow> content_decoder \<Rightarrow> octet_spec \<Rightarrow> sequence_spec \<Rightarrow> asn1_value option list \<Rightarrow> bool" where
  "rows_pass \<Gamma> k dec decv co spec src \<longleftrightarrow>
     length src = length (ss_members spec) \<and>
     (\<forall>i < length src. ber_row_ok \<Gamma> (ss_members spec ! i) i src \<and>
        (\<forall>t v. m_type (ss_members spec ! i) = Some t \<longrightarrow> src ! i = Some v \<longrightarrow>
           ber_passes \<Gamma> k dec decv (\<Gamma> t) v (co (\<Gamma> t) v) \<and> length (fst (co (\<Gamma> t) v)) < 2 ^ 64))"

lemma row_sent:
  assumes "rows_pass \<Gamma> k dec decv co spec src" "i < length src" "mbr = ss_members spec ! i"
    "m_optional mbr \<longrightarrow> sent mbr src i"
  obtains t v u s where "m_type mbr = Some t" "src ! i = Some v" "member_ptr src i = Some v"
    "component_octets co mbr (\<Gamma> t) v = (tlv_octets u s, False)" "tlv_ok u s"
    "row_octets co \<Gamma> src i mbr = tlv_octets u s" "row_tag_ok \<Gamma> mbr"
    "ber_passes \<Gamma> k dec decv (\<Gamma> t) v (co (\<Gamma> t) v)" "length (fst (co (\<Gamma> t) v)) < 2 ^ 64"
proof -
  have ok: "root_row_ok mbr i src" "row_tag_ok \<Gamma> mbr" using assms(1-3) by (simp_all add: rows_pass_def ber_row_ok_def)
  then obtain t where t: "m_type mbr = Some t" by (auto simp: root_row_ok_def)
  obtain v where v: "src ! i = Some v" using row_sent_value [OF ok(1) assms(4,2)] by blast
  have pass: "ber_passes \<Gamma> k dec decv (\<Gamma> t) v (co (\<Gamma> t) v)" "length (fst (co (\<Gamma> t) v)) < 2 ^ 64"
    using assms(1-3) t v by (auto simp: rows_pass_def)
  obtain u s where us: "component_octets co mbr (\<Gamma> t) v = (tlv_octets u s, False)" "tlv_ok u s"
    by (rule component_tlv [where co = co, OF pass(1) ok(2) t pass(2)])
  have row: "row_octets co \<Gamma> src i mbr = tlv_octets u s"
    using assms(4) t v us(1) by (auto simp: row_octets_def)
  show ?thesis
    by (rule that [OF t v _ us row ok(2) pass]) (simp add: member_ptr_def assms(2) v)
qed

lemma row_not_sent: "m_optional mbr \<Longrightarrow> \<not> sent mbr src i \<Longrightarrow> row_octets co \<Gamma> src i mbr = []"
  by (simp add: row_octets_def)

lemma members_octets_rows:
  assumes "rows_pass \<Gamma> k dec decv co spec src"
  shows "mbrs = drop i (ss_members spec) \<Longrightarrow>
    members_octets co \<Gamma> src i mbrs = map (\<lambda>c. (c, False)) (filter (\<lambda>c. c \<noteq> []) (rows_octets co \<Gamma> src i mbrs))"
proof (induction mbrs arbitrary: i)
  case (Cons mbr mbrs)
  then have i: "i < length (ss_members spec)" by (metis drop_all list.distinct(1) not_less)
  with Cons.prems have m: "mbr = ss_members spec ! i" "mbrs = drop (Suc i) (ss_members spec)"
    by (simp_all add: Cons_nth_drop_Suc [symmetric])
  have len: "i < length src" using assms i by (simp add: rows_pass_def)
  have ok: "root_row_ok mbr i src" "\<not> m_has_default mbr \<longrightarrow> m_is_default_equal mbr = None"
    using assms len m(1) by (simp_all add: rows_pass_def ber_row_ok_def)
  have eq: "(case m_is_default_equal mbr of None \<Rightarrow> False | Some eq \<Rightarrow> eq src) = default_equal mbr src"
    using ok(2) by (auto simp: default_equal_def split: option.splits)
  have dflt: "default_equal mbr src \<Longrightarrow> m_optional mbr"
    using ok(1) by (auto simp: default_equal_def root_row_ok_def default_ok_def)
  note IH = Cons.IH [OF m(2)]
  show ?case
  proof (cases "m_optional mbr \<longrightarrow> sent mbr src i")
    case True
    then obtain t v u s where r: "m_type mbr = Some t" "member_ptr src i = Some v"
      "component_octets co mbr (\<Gamma> t) v = (tlv_octets u s, False)" "row_octets co \<Gamma> src i mbr = tlv_octets u s"
      by (rule row_sent [OF assms len m(1)])
    show ?thesis using True r IH dflt by (auto simp: eq sent_def is_present_def)
  next
    case False
    then show ?thesis using ok(1) IH row_not_sent [of mbr src i co \<Gamma>] by (auto simp: eq sent_def root_row_ok_def)
  qed
qed simp

lemma join_rows: "join_octets (map (\<lambda>c. (c, False)) (filter (\<lambda>c. c \<noteq> []) cs)) = (concat cs, False)"
  by (simp add: join_octets_def o_def concat_nonempty)

lemma members_restored:
  assumes "rows_pass \<Gamma> k dec decv co spec src" "env_wf \<Gamma>" "d + k \<le> kMaxDecodeDepth"
    "\<forall>i. root_end spec \<le> i \<longrightarrow> i < length (ss_members spec) \<longrightarrow> m_optional (ss_members spec ! i)"
  shows "mbrs = drop i (ss_members spec) \<Longrightarrow> rows_ok \<Gamma> spec ms \<Longrightarrow> i \<le> length (ss_members spec) \<Longrightarrow> sequence_tags_ok \<Gamma> mbrs \<Longrightarrow>
    list_all2 (row_open \<Gamma>) mbrs (rows_octets co \<Gamma> src i mbrs) \<Longrightarrow>
    decode_members dec decv \<Gamma> def i mbrs (filled src i ms) (reader_at pre (concat (rows_octets co \<Gamma> src i mbrs)) d) = Inr src"
proof (induction mbrs arbitrary: i pre)
  case Nil
  then have "length ms \<le> i" "length src = length ms" using assms(1) by (simp_all add: rows_ok_def rows_pass_def)
  then show ?case by (simp add: filled_all)
next
  case (Cons mbr mbrs)
  then have i: "i < length (ss_members spec)" by (metis drop_all list.distinct(1) not_less)
  with Cons.prems have m: "mbr = ss_members spec ! i" "mbrs = drop (Suc i) (ss_members spec)"
    by (simp_all add: Cons_nth_drop_Suc [symmetric])
  have len: "i < length src" "length src = length ms" using assms(1) i Cons.prems(2) by (simp_all add: rows_pass_def rows_ok_def)
  have ok: "root_row_ok (ss_members spec ! i) i src" using assms(1) len(1) by (simp add: rows_pass_def ber_row_ok_def)
  have IH: "decode_members dec decv \<Gamma> def (Suc i) mbrs (filled src (Suc i) ms)
      (reader_at p (concat (rows_octets co \<Gamma> src (Suc i) mbrs)) d) = Inr src" for p
    using Cons.prems(2,4,5) i by (intro Cons.IH m(2)) simp_all
  let ?c = "row_octets co \<Gamma> src i mbr" and ?cs = "rows_octets co \<Gamma> src (Suc i) mbrs"
  let ?r = "reader_at pre (?c @ concat ?cs) d"
  show ?case
  proof (cases "m_optional mbr \<longrightarrow> sent mbr src i")
    case True
    then obtain t v u s where r: "m_type mbr = Some t" "src ! i = Some v" "row_tag_ok \<Gamma> mbr" "?c = tlv_octets u s"
      "component_octets co mbr (\<Gamma> t) v = (tlv_octets u s, False)"
      "ber_passes \<Gamma> k dec decv (\<Gamma> t) v (co (\<Gamma> t) v)" "length (fst (co (\<Gamma> t) v)) < 2 ^ 64"
      by (rule row_sent [OF assms(1) len(1) m(1)])
    have here: "member_present \<Gamma> mbr ?r" using Cons.prems(5) r(4) by (intro present_row) simp_all
    let ?ms = "if m_optional mbr then set_present \<Gamma> mbr i True (filled src i ms) else filled src i ms"
    have "m_optional mbr \<or> i < root_end spec" using assms(4) i m(1) not_less by blast
    then obtain x where x: "member_ptr ?ms i = Some x" "shaped \<Gamma> (\<Gamma> t) x"
      "\<And>v. ?ms[i := v] = (filled src i ms)[i := v]"
      using row_target [OF assms(2) Cons.prems(2) i len(2) ok _ _ refl, of t] r(1) unfolding m(1) by blast
    have dec: "decode_component dec decv def mbr (\<Gamma> t) x ?r = Inr (v, reader_at (pre @ ?c) (concat ?cs) d)"
      using nested_restored(1) [where co = co, OF r(6,3,1,7) x(2) assms(3)] r(4,5) by simp
    have "?ms[i := Some v] = filled src (Suc i) ms"
      using x(3) filled_facts(3) [OF len(2), of i] len r(2) by simp
    then have "decode_members dec decv \<Gamma> def i (mbr # mbrs) (filled src i ms) ?r
        = decode_members dec decv \<Gamma> def (Suc i) mbrs (filled src (Suc i) ms) (reader_at (pre @ ?c) (concat ?cs) d)"
      using here x(1) dec r(1) by (auto simp: Let_def split: if_split_asm)
    then show ?thesis using IH by simp
  next
    case False
    then have off: "?c = []" by (simp add: row_not_sent)
    have away: "\<not> member_present \<Gamma> mbr (reader_at pre (concat ?cs) d)"
      using Cons.prems(4,5) False by (intro absent_row) auto
    obtain t where "m_type mbr = Some t" using ok m(1) by (auto simp: root_row_ok_def)
    moreover have "apply_default mbr (set_present \<Gamma> mbr i False (filled src i ms)) = filled src (Suc i) ms"
      using row_restored [OF Cons.prems(2) i len(2) ok] False m(1) by blast
    ultimately show ?thesis
      using False away IH [of pre] off by (simp add: Let_def apply_default_def)
  qed
qed

definition tags_ok :: "type_env \<Rightarrow> sequence_spec \<Rightarrow> bool" where
  "tags_ok \<Gamma> spec \<longleftrightarrow> (if ss_is_set spec then set_tags_ok \<Gamma> (ss_members spec) else sequence_tags_ok \<Gamma> (ss_members spec))"

text \<open>The whole contents of a SEQUENCE or SET.\<close>

lemma sequence_body_restored:
  assumes "rows_pass \<Gamma> k dec decv co spec src" "env_wf \<Gamma>" "td_per_handler def = Some H_Sequence"
    "td_sequence_spec def = Some spec" "tags_ok \<Gamma> spec"
    "list_all2 (row_open \<Gamma>) (ss_members spec) (rows_octets co \<Gamma> src 0 (ss_members spec))"
    "\<forall>i. root_end spec \<le> i \<longrightarrow> i < length (ss_members spec) \<longrightarrow> m_optional (ss_members spec ! i)"
  shows "\<exists>s. wrap_octets (td_tag def) (join_octets (members_octets co \<Gamma> src 0 (ss_members spec))) = (tlv_octets (td_tag def) s, False) \<and>
    (\<forall>dest d. shaped \<Gamma> def dest \<longrightarrow> d + k \<le> kMaxDecodeDepth \<longrightarrow>
       sequence_decode_body dec decv \<Gamma> def dest (reader_at [] s d) = Inr (V_Sequence src))"
proof -
  let ?cs = "rows_octets co \<Gamma> src 0 (ss_members spec)"
  have tags: "sequence_tags_ok \<Gamma> (ss_members spec)"
    using assms(5) set_tags_sequence by (auto simp: tags_ok_def split: if_splits)
  have "sequence_decode_body dec decv \<Gamma> def dest (reader_at [] (concat ?cs) d) = Inr (V_Sequence src)"
    if "shaped \<Gamma> def dest" "d + k \<le> kMaxDecodeDepth" for dest d
  proof -
    from that(1) obtain ms where ms: "dest = V_Sequence ms" "rows_ok \<Gamma> spec ms"
      unfolding shaped_sequence_iff [OF assms(3,4)] by blast
    have order: "(if ss_is_set spec then rbind (set_in_table_order \<Gamma> spec (reader_at [] (concat ?cs) d))
        (\<lambda>buf. Inr (sub_reader buf (reader_at [] (concat ?cs) d))) else Inr (reader_at [] (concat ?cs) d))
        = Inr (reader_at [] (concat ?cs) d)"
      using set_in_table_order_own [OF assms(6)] assms(5) by (simp add: tags_ok_def reader_simps)
    have "decode_members dec decv \<Gamma> def 0 (ss_members spec) (filled src 0 ms) (reader_at [] (concat ?cs) d) = Inr src"
      by (rule members_restored [OF assms(1,2) that(2) assms(7) _ ms(2)]) (use tags assms(6) in simp_all)
    then show ?thesis
      by (simp add: sequence_decode_body_def assms(4) ms(1) order)
  qed
  moreover have "wrap_octets (td_tag def) (join_octets (members_octets co \<Gamma> src 0 (ss_members spec)))
      = (tlv_octets (td_tag def) (concat ?cs), False)"
    using members_octets_rows [OF assms(1), of "ss_members spec" 0] by (simp add: join_rows wrap_octets_def)
  ultimately show ?thesis by blast
qed

text \<open>The rows of a table whose members pass open as they should.\<close>

lemma rows_open:
  assumes "rows_pass \<Gamma> k dec decv co spec src"
    "\<And>i. i < length src \<Longrightarrow> row_octets co \<Gamma> src i (ss_members spec ! i) \<noteq> [] \<Longrightarrow>
       set_member_matches \<Gamma> (ss_members spec ! i) (first_tag (row_octets co \<Gamma> src i (ss_members spec ! i)))"
  shows "mbrs = drop i (ss_members spec) \<Longrightarrow> list_all2 (row_open \<Gamma>) mbrs (rows_octets co \<Gamma> src i mbrs)"
proof (induction mbrs arbitrary: i)
  case (Cons mbr mbrs)
  then have i: "i < length (ss_members spec)" by (metis drop_all list.distinct(1) not_less)
  with Cons.prems have m: "mbr = ss_members spec ! i" "mbrs = drop (Suc i) (ss_members spec)"
    by (simp_all add: Cons_nth_drop_Suc [symmetric])
  have len: "i < length src" using assms(1) i by (simp add: rows_pass_def)
  have "row_open \<Gamma> mbr (row_octets co \<Gamma> src i mbr)"
  proof (cases "m_optional mbr \<longrightarrow> sent mbr src i")
    case True
    then obtain u s where "row_octets co \<Gamma> src i mbr = tlv_octets u s" "tlv_ok u s"
      by (rule row_sent [OF assms(1) len m(1)])
    then show ?thesis using assms(2) [OF len] m(1) by (auto simp: row_open_def)
  next
    case False
    then show ?thesis by (simp add: row_open_def row_not_sent)
  qed
  then show ?case using Cons.IH [OF m(2)] by simp
qed simp

section \<open>CHOICE\<close>

lemma choice_restored:
  assumes "ber_passes \<Gamma> k dec decv (\<Gamma> t) v (co (\<Gamma> t) v)" "length (fst (co (\<Gamma> t) v)) < 2 ^ 64" "env_wf \<Gamma>"
    "td_per_handler def = Some H_Choice" "td_choice_spec def = Some spec"
    "1 \<le> p" "p \<le> int (length (cs_alternatives spec))"
    "alt = cs_alternatives spec ! nat (p - 1)" "m_type alt = Some t" "row_tag_ok \<Gamma> alt"
    "choice_match spec (first_tag (fst (component_octets co alt (\<Gamma> t) v))) = p - 1"
  shows "\<exists>u s. component_octets co alt (\<Gamma> t) v = (tlv_octets u s, False) \<and> tlv_ok u s \<and>
    restores \<Gamma> k (choice_decode dec decv \<Gamma>) def (V_Choice p (Some v)) (tlv_octets u s)"
proof -
  obtain u s where us: "component_octets co alt (\<Gamma> t) v = (tlv_octets u s, False)" "tlv_ok u s"
    by (rule component_tlv [where co = co, OF assms(1,10,9,2)])
  have match: "choice_match spec u = p - 1" using assms(11) us(1) by simp
  have "choice_decode dec decv \<Gamma> def dest (reader_at pre (tlv_octets u s @ post) d)
      = Inr (V_Choice p (Some v), reader_at (pre @ tlv_octets u s) post d)"
    if dest: "shaped \<Gamma> def dest" and d: "d + k \<le> kMaxDecodeDepth" for pre post dest d
  proof -
    obtain q storage where q: "dest = V_Choice q storage"
      using dest unfolding shaped_choice_iff [OF assms(4,5)] by blast
    obtain x where x: "select_alternative \<Gamma> alt q (nat (p - 1)) storage = Some x" "shaped \<Gamma> (\<Gamma> t) x"
      using select_shaped [OF assms(3-5) dest [unfolded q], of "nat (p - 1)" t] assms(8,9) by blast
    have nested: "(if m_tag_is_override alt then
        rbind (read_tlv (reader_at pre (tlv_octets u s @ post) d)) (\<lambda>(outer, r).
          if m_is_explicit alt then
            rbind (dec (\<Gamma> t) x (sub_reader (tlv_value outer) r)) (\<lambda>(v, _). Inr (v, r))
          else rbind (decv (\<Gamma> t) x (sub_reader (tlv_value outer) r)) (\<lambda>v. Inr (v, r)))
      else dec (\<Gamma> t) x (reader_at pre (tlv_octets u s @ post) d))
      = Inr (v, reader_at (pre @ tlv_octets u s) post d)"
      using nested_restored(2) [where co = co, OF assms(1,10,9,2) x(2) d, of pre post] unfolding us(1) fst_conv .
    have "(if q \<noteq> p then Some (emplace_alt \<Gamma> alt) else storage) = Some x"
      using x(1) assms(6) by (simp add: select_alternative_def)
    then show ?thesis
      using assms(6,9) nested by (simp add: choice_decode_def q assms(5) peek_tlv match Let_def assms(8) [symmetric])
  qed
  then show ?thesis using us by (intro exI [of _ u] exI [of _ s]) (simp add: restores_def)
qed

section \<open>The codec\<close>

lemma constructed_passes:
  assumes "handler_octets co \<Gamma> def v = (tlv_octets (td_tag def) s, False)" "tlv_ok (td_tag def) s"
    "\<And>dest d. shaped \<Gamma> def dest \<Longrightarrow> d + k \<le> kMaxDecodeDepth \<Longrightarrow> body dest (reader_at [] s d) = Inr v"
    "\<And>dest r. handler_decode dec decv \<Gamma> def dest r = rbind (read_tlv r) (\<lambda>(tlv, r).
       if tlv_tag tlv \<noteq> td_tag def then Inl (wrong_tag def)
       else rbind (body dest (sub_reader (tlv_value tlv) r)) (\<lambda>v. Inr (v, r)))"
    "\<And>dest r. handler_decode_value dec decv \<Gamma> def dest r = body dest r"
  shows "ber_passes \<Gamma> k (handler_decode dec decv \<Gamma>) (handler_decode_value dec decv \<Gamma>) def v (handler_octets co \<Gamma> def v)"
  using assms
  by (auto simp: ber_passes_def restores_def restores_contents_def read_tlv_ok [OF assms(2)] reader_simps)

definition unwrapped :: "type_desc \<Rightarrow> type_desc" where
  "unwrapped def = (if td_is_explicit def then natural_def def else def)"

lemma unwrapped_simps [simp]:
  "shaped \<Gamma> (unwrapped def) v = shaped \<Gamma> def v" "ber_desc_wf \<Gamma> (unwrapped def) = ber_desc_wf \<Gamma> def"
  "td_ber_handler (unwrapped def) = td_ber_handler def" "td_per_handler (unwrapped def) = td_per_handler def"
  "td_seq_of_spec (unwrapped def) = td_seq_of_spec def" "td_sequence_spec (unwrapped def) = td_sequence_spec def"
  "td_choice_spec (unwrapped def) = td_choice_spec def" "builtin_tag (unwrapped def) = builtin_tag def"
  "\<not> td_is_explicit (unwrapped def)"
  by (simp_all add: unwrapped_def) (simp_all add: natural_def_def builtin_tag_def)

lemma codec_passes:
  assumes "ber_passes \<Gamma> k (handler_decode dec decv \<Gamma>) (handler_decode_value dec decv \<Gamma>) (unwrapped def) v
      (handler_octets co \<Gamma> (unwrapped def) v)"
    "td_is_explicit def \<Longrightarrow> tlv_ok (td_tag def) (fst (handler_octets co \<Gamma> (unwrapped def) v))"
    "(if depth_counts def then Suc k else k) \<le> m"
  shows "ber_passes \<Gamma> m (codec_decode dec decv \<Gamma>) (codec_decode_value dec decv \<Gamma>) def v (codec_octets co \<Gamma> def v)"
proof -
  let ?x = "handler_octets co \<Gamma> (unwrapped def) v"
  let ?d = "\<lambda>d. if depth_counts def then Suc d else d"
  have enter: "enter_depth def (reader_at pre c d) = reader_at pre c (?d d)" for pre c d
    by (simp add: enter_depth_def reader_at_def)
  have leave: "(reader_at pre c d)\<lparr>br_depth := d'\<rparr> = reader_at pre c d'" for pre c d d'
    by (simp add: reader_at_def)
  have lim: "\<not> depth_exceeded def (reader_at pre c (?d d))" "?d d + k \<le> kMaxDecodeDepth"
    if "d + m \<le> kMaxDecodeDepth" for pre c d
    using that assms(3) by (auto simp: depth_exceeded_def reader_simps split: if_splits)
  have whole: "handler_decode dec decv \<Gamma> (unwrapped def) dest (reader_at pre (fst ?x @ post) d)
      = Inr (v, reader_at (pre @ fst ?x) post d)"
    if "shaped \<Gamma> def dest" "d + k \<le> kMaxDecodeDepth" for dest d pre post
    using assms(1) that by (simp add: ber_passes_def restores_def)
  show ?thesis
  proof (cases "td_is_explicit def")
    case True
    then have x: "codec_octets co \<Gamma> def v = (tlv_octets (td_tag def) (fst ?x), False)"
      using assms(1) by (simp add: codec_octets_def unwrapped_def wrap_octets_def ber_passes_def)
    have "codec_decode dec decv \<Gamma> def dest (reader_at pre (tlv_octets (td_tag def) (fst ?x) @ post) d)
        = Inr (v, reader_at (pre @ tlv_octets (td_tag def) (fst ?x)) post d)"
      if "shaped \<Gamma> def dest" "d + m \<le> kMaxDecodeDepth" for dest d pre post
      using True lim [OF that(2)] whole [OF that(1) lim(2) [OF that(2)], of "[]" "[]"] read_tlv_ok [OF assms(2) [OF True]]
      by (simp add: codec_decode_def enter leave Let_def reader_simps unwrapped_def)
    then show ?thesis
      unfolding ber_passes_def x restores_def using assms(2) [OF True] True by (auto simp: plain_tagged_def)
  next
    case False
    then have u: "unwrapped def = def" "codec_octets co \<Gamma> def v = ?x" by (simp_all add: codec_octets_def unwrapped_def)
    have "codec_decode dec decv \<Gamma> def dest (reader_at pre (fst ?x @ post) d) = Inr (v, reader_at (pre @ fst ?x) post d)"
      if "shaped \<Gamma> def dest" "d + m \<le> kMaxDecodeDepth" for dest d pre post
      using False lim [OF that(2)] whole [OF that(1) lim(2) [OF that(2)]]
      by (simp add: codec_decode_def enter leave Let_def u(1) reader_simps)
    moreover have "codec_decode_value dec decv \<Gamma> def dest (reader_at [] s d) = Inr v"
      if "restores_contents \<Gamma> k (handler_decode_value dec decv \<Gamma>) def v s" "shaped \<Gamma> def dest" "d + m \<le> kMaxDecodeDepth" for s dest d
      using lim [OF that(3)] restores_contentsD [OF that(1,2) lim(2) [OF that(3)]]
      by (simp add: codec_decode_value_def enter Let_def)
    ultimately show ?thesis
      using assms(1) unfolding u ber_passes_def restores_def restores_contents_def by blast
  qed
qed

section \<open>Every sendable value\<close>

text \<open>
  \<open>ber_sendable \<Gamma> def v\<close>: the contents of every primitive value are well formed, the absent
  members are those the tables can restore, the tags of the tables tell the components
  apart, a SET OF is in the canonical order, and the lengths fit the reader's 64 bits.
\<close>

definition node_ok :: "type_env \<Rightarrow> type_desc \<Rightarrow> asn1_value \<Rightarrow> bool" where
  "node_ok \<Gamma> def v \<longleftrightarrow>
     number (td_tag def) \<noteq> - 1 \<and> (td_is_explicit def \<longrightarrow> number (td_natural_tag def) \<noteq> - 1) \<and>
     length (fst (ber_octets \<Gamma> def v)) < 2 ^ 64"

definition ber_seqof_ok :: "type_env \<Rightarrow> type_desc \<Rightarrow> seq_of_spec \<Rightarrow> asn1_value list \<Rightarrow> bool" where
  "ber_seqof_ok \<Gamma> def spec vs \<longleftrightarrow>
     (number (builtin_tag def) = UT_Set \<longrightarrow> sorted (map (\<lambda>v. fst (ber_octets \<Gamma> (\<Gamma> (sos_element spec)) v)) vs))"

definition ber_sequence_ok :: "type_env \<Rightarrow> sequence_spec \<Rightarrow> asn1_value option list \<Rightarrow> bool" where
  "ber_sequence_ok \<Gamma> spec src \<longleftrightarrow>
     length src = length (ss_members spec) \<and> tags_ok \<Gamma> spec \<and>
     (\<forall>i < length src. ber_row_ok \<Gamma> (ss_members spec ! i) i src \<and>
        (let c = row_octets (ber_octets \<Gamma>) \<Gamma> src i (ss_members spec ! i)
         in c \<noteq> [] \<longrightarrow> set_member_matches \<Gamma> (ss_members spec ! i) (first_tag c)))"

definition ber_choice_ok :: "type_env \<Rightarrow> choice_spec \<Rightarrow> int \<Rightarrow> asn1_value \<Rightarrow> bool" where
  "ber_choice_ok \<Gamma> spec p v \<longleftrightarrow>
     1 \<le> p \<and> p \<le> int (length (cs_alternatives spec)) \<and>
     (let alt = cs_alternatives spec ! nat (p - 1) in
      row_tag_ok \<Gamma> alt \<and>
      (case m_type alt of
         None \<Rightarrow> False
       | Some t \<Rightarrow> choice_match spec (first_tag (fst (component_octets (ber_octets \<Gamma>) alt (\<Gamma> t) v))) = p - 1))"

inductive ber_sendable :: "type_env \<Rightarrow> type_desc \<Rightarrow> asn1_value \<Rightarrow> bool" for \<Gamma> where
  ber_leaf: "td_ber_handler def = Some h \<Longrightarrow> leaf_contents h v = Some s \<Longrightarrow> \<not> depth_counts def \<Longrightarrow> node_ok \<Gamma> def v \<Longrightarrow>
    ber_sendable \<Gamma> def v"
| ber_seqof: "td_ber_handler def = Some H_SeqOf \<Longrightarrow> td_seq_of_spec def = Some spec \<Longrightarrow> node_ok \<Gamma> def (V_SeqOf vs) \<Longrightarrow>
    ber_seqof_ok \<Gamma> def spec vs \<Longrightarrow>
    (\<And>v. v \<in> set vs \<Longrightarrow> ber_sendable \<Gamma> (\<Gamma> (sos_element spec)) v) \<Longrightarrow> ber_sendable \<Gamma> def (V_SeqOf vs)"
| ber_sequence: "td_ber_handler def = Some H_Sequence \<Longrightarrow> td_sequence_spec def = Some spec \<Longrightarrow>
    node_ok \<Gamma> def (V_Sequence src) \<Longrightarrow> ber_sequence_ok \<Gamma> spec src \<Longrightarrow>
    (\<And>i v t. i < length src \<Longrightarrow> src ! i = Some v \<Longrightarrow> m_type (ss_members spec ! i) = Some t \<Longrightarrow> ber_sendable \<Gamma> (\<Gamma> t) v) \<Longrightarrow>
    ber_sendable \<Gamma> def (V_Sequence src)"
| ber_choice: "td_ber_handler def = Some H_Choice \<Longrightarrow> td_choice_spec def = Some spec \<Longrightarrow>
    node_ok \<Gamma> def (V_Choice p (Some v)) \<Longrightarrow> ber_choice_ok \<Gamma> spec p v \<Longrightarrow>
    m_type (cs_alternatives spec ! nat (p - 1)) = Some t \<Longrightarrow> ber_sendable \<Gamma> (\<Gamma> t) v \<Longrightarrow>
    ber_sendable \<Gamma> def (V_Choice p (Some v))"

lemma sendable_node: "ber_sendable \<Gamma> def v \<Longrightarrow> node_ok \<Gamma> def v"
  by (erule ber_sendable.cases) simp_all

text \<open>The tags and lengths of a node are those of its TLVs.\<close>

lemma node_tlv:
  assumes "node_ok \<Gamma> def v"
  shows "number (td_tag (unwrapped def)) \<noteq> - 1"
    "length (fst (handler_octets (ber_octets \<Gamma>) \<Gamma> (unwrapped def) v)) < 2 ^ 64"
    "td_is_explicit def \<Longrightarrow> tlv_ok (td_tag def) (fst (handler_octets (ber_octets \<Gamma>) \<Gamma> (unwrapped def) v))"
proof -
  show "number (td_tag (unwrapped def)) \<noteq> - 1" using assms by (auto simp: node_ok_def unwrapped_def natural_def_def)
  let ?x = "handler_octets (ber_octets \<Gamma>) \<Gamma> (unwrapped def) v"
  have "fst (ber_octets \<Gamma> def v) = (if td_is_explicit def then tlv_octets (td_tag def) (fst ?x) else fst ?x)"
    unfolding ber_octets_unfold [of \<Gamma> def v] by (simp add: codec_octets_def wrap_octets_def unwrapped_def)
  then show len: "length (fst ?x) < 2 ^ 64"
    using assms tlv_length [of "fst ?x" "td_tag def"] by (simp add: node_ok_def split: if_splits)
  show "tlv_ok (td_tag def) (fst ?x)" using assms len by (simp add: tlv_ok_def node_ok_def)
qed

lemma node_contents:
  assumes "node_ok \<Gamma> def v" "handler_octets (ber_octets \<Gamma>) \<Gamma> (unwrapped def) v = (tlv_octets (td_tag (unwrapped def)) s, False)"
  shows "tlv_ok (td_tag (unwrapped def)) s"
  using node_tlv(1,2) [OF assms(1)] tlv_length [of s "td_tag (unwrapped def)"] assms(2) by (simp add: tlv_ok_def)

text \<open>One level of the codec with a unit of fuel.\<close>

lemma level_passes:
  assumes "node_ok \<Gamma> def v" "n = Suc m" "(if depth_counts def then Suc k else k) \<le> h"
    "ber_passes \<Gamma> k (handler_decode (ber_decode_fuel m \<Gamma>) (ber_decode_value_fuel m \<Gamma>) \<Gamma>)
      (handler_decode_value (ber_decode_fuel m \<Gamma>) (ber_decode_value_fuel m \<Gamma>) \<Gamma>) (unwrapped def) v
      (handler_octets (ber_octets \<Gamma>) \<Gamma> (unwrapped def) v)"
  shows "ber_passes \<Gamma> h (ber_decode_fuel n \<Gamma>) (ber_decode_value_fuel n \<Gamma>) def v (ber_octets \<Gamma> def v)"
proof -
  have "ber_decode_fuel n \<Gamma> = codec_decode (ber_decode_fuel m \<Gamma>) (ber_decode_value_fuel m \<Gamma>) \<Gamma>"
    "ber_decode_value_fuel n \<Gamma> = codec_decode_value (ber_decode_fuel m \<Gamma>) (ber_decode_value_fuel m \<Gamma>) \<Gamma>"
    by (simp_all add: fun_eq_iff assms(2))
  then show ?thesis
    using codec_passes [OF assms(4) node_tlv(3) [OF assms(1)] assms(3)] by (simp only: ber_octets_unfold [of \<Gamma> def v])
qed

lemma ber_sendable_passes:
  assumes "ber_env_wf \<Gamma>"
  shows "ber_sendable \<Gamma> def v \<Longrightarrow> ber_desc_wf \<Gamma> def \<Longrightarrow> height v < n \<Longrightarrow>
    ber_passes \<Gamma> (height v) (ber_decode_fuel n \<Gamma>) (ber_decode_value_fuel n \<Gamma>) def v (ber_octets \<Gamma> def v)"
proof (induction arbitrary: n rule: ber_sendable.induct)
  case (ber_leaf def h v s)
  obtain m where n: "n = Suc m" using ber_leaf.prems by (cases n) auto
  let ?d = "unwrapped def"
  have h: "td_ber_handler ?d = Some h" using ber_leaf.hyps(1) by simp
  have per: "td_per_handler ?d = Some (per_handler_of h)"
    using ber_leaf.prems(1) ber_leaf.hyps(1) by (simp add: ber_desc_wf_def)
  have oct: "handler_octets (ber_octets \<Gamma>) \<Gamma> ?d v = (tlv_octets (td_tag ?d) s, False)"
    by (rule leaf_octets [OF h ber_leaf.hyps(2)])
  have ok: "tlv_ok (td_tag ?d) s" by (rule node_contents [OF ber_leaf.hyps(4) oct])
  show ?case
  proof (rule level_passes [OF ber_leaf.hyps(4) n, of "height v"])
    show "ber_passes \<Gamma> (height v) (handler_decode (ber_decode_fuel m \<Gamma>) (ber_decode_value_fuel m \<Gamma>) \<Gamma>)
        (handler_decode_value (ber_decode_fuel m \<Gamma>) (ber_decode_value_fuel m \<Gamma>) \<Gamma>) ?d v (handler_octets (ber_octets \<Gamma>) \<Gamma> ?d v)"
      unfolding ber_passes_def oct fst_conv snd_conv
      using leaf_restored [OF h ber_leaf.hyps(2) ok per] ok by blast
  qed (use ber_leaf.hyps(3) in simp)
next
  case (ber_seqof def spec vs)
  obtain m where n: "n = Suc m" "height (V_SeqOf vs) \<le> m" using ber_seqof.prems by (cases n) auto
  obtain k where k: "height (V_SeqOf vs) = Suc k" by simp
  let ?d = "unwrapped def" and ?dec = "ber_decode_fuel m \<Gamma>" and ?decv = "ber_decode_value_fuel m \<Gamma>"
  have per: "td_per_handler ?d = Some H_SeqOf"
    using ber_seqof.prems(1) ber_seqof.hyps(1) by (simp add: ber_desc_wf_def per_handler_of_def)
  have "ber_passes \<Gamma> k ?dec ?decv (\<Gamma> (sos_element spec)) v (ber_octets \<Gamma> (\<Gamma> (sos_element spec)) v)" if "v \<in> set vs" for v
  proof -
    have "height v < m" "height v \<le> k" using height_element [OF that] n(2) k by linarith+
    moreover have "ber_desc_wf \<Gamma> (\<Gamma> (sos_element spec))" using assms by (simp add: ber_env_wf_def)
    ultimately show ?thesis using ber_passes_mono [OF ber_seqof.IH [OF that]] by blast
  qed
  then have pass: "\<forall>v \<in> set vs. ber_passes \<Gamma> k ?dec ?decv (\<Gamma> (sos_element spec)) v (ber_octets \<Gamma> (\<Gamma> (sos_element spec)) v)"
    by blast
  have env: "env_wf \<Gamma>" using assms by (simp add: ber_env_wf_def)
  have spec: "td_seq_of_spec ?d = Some spec" using ber_seqof.hyps(2) by simp
  have order: "number (builtin_tag ?d) = UT_Set \<longrightarrow> sorted (map (\<lambda>v. fst (ber_octets \<Gamma> (\<Gamma> (sos_element spec)) v)) vs)"
    using ber_seqof.hyps(4) by (simp add: ber_seqof_ok_def)
  obtain s where s: "seqof_octets (ber_octets \<Gamma>) \<Gamma> ?d vs = (tlv_octets (td_tag ?d) s, False)"
    "\<And>dest d. shaped \<Gamma> ?d dest \<Longrightarrow> d + k \<le> kMaxDecodeDepth \<Longrightarrow> seqof_decode_body ?dec \<Gamma> ?d dest (reader_at [] s d) = Inr (V_SeqOf vs)"
    using seqof_body_restored [where co = "ber_octets \<Gamma>", OF pass env per spec order] by blast
  have oct: "handler_octets (ber_octets \<Gamma>) \<Gamma> ?d (V_SeqOf vs) = (tlv_octets (td_tag ?d) s, False)"
    using s(1) ber_seqof.hyps(1) by (simp add: handler_octets_def)
  show ?case
  proof (rule level_passes [OF ber_seqof.hyps(3) n(1), of k])
    show "ber_passes \<Gamma> k (handler_decode ?dec ?decv \<Gamma>) (handler_decode_value ?dec ?decv \<Gamma>) ?d (V_SeqOf vs)
        (handler_octets (ber_octets \<Gamma>) \<Gamma> ?d (V_SeqOf vs))"
      by (rule constructed_passes [where body = "seqof_decode_body ?dec \<Gamma> ?d", OF oct node_contents [OF ber_seqof.hyps(3) oct] s(2)])
         (use ber_seqof.hyps(1) in \<open>simp_all add: handler_decode_def handler_decode_value_def\<close>)
  qed (use k in simp)
next
  case (ber_sequence def spec src)
  obtain m where n: "n = Suc m" "height (V_Sequence src) \<le> m" using ber_sequence.prems by (cases n) auto
  obtain k where k: "height (V_Sequence src) = Suc k" by simp
  let ?d = "unwrapped def" and ?dec = "ber_decode_fuel m \<Gamma>" and ?decv = "ber_decode_value_fuel m \<Gamma>"
  have env: "env_wf \<Gamma>" using assms by (simp add: ber_env_wf_def)
  have per: "td_per_handler ?d = Some H_Sequence" and spec: "td_sequence_spec ?d = Some spec"
    and ext: "\<forall>i. root_end spec \<le> i \<longrightarrow> i < length (ss_members spec) \<longrightarrow> m_optional (ss_members spec ! i)"
    using ber_sequence.prems(1) ber_sequence.hyps(1,2) by (auto simp: ber_desc_wf_def per_handler_of_def)
  have "ber_passes \<Gamma> k ?dec ?decv (\<Gamma> t) v (ber_octets \<Gamma> (\<Gamma> t) v) \<and> length (fst (ber_octets \<Gamma> (\<Gamma> t) v)) < 2 ^ 64"
    if "i < length src" "src ! i = Some v" "m_type (ss_members spec ! i) = Some t" for i v t
  proof -
    have "Some v \<in> set src" using that(1,2) by (metis nth_mem)
    then have "height v < m" "height v \<le> k" using height_member [of v src] n(2) k by linarith+
    moreover have "ber_desc_wf \<Gamma> (\<Gamma> t)" using assms by (simp add: ber_env_wf_def)
    ultimately show ?thesis
      using ber_passes_mono [OF ber_sequence.IH [OF that]] sendable_node [OF ber_sequence.hyps(5) [OF that]]
      by (auto simp: node_ok_def)
  qed
  then have pass: "rows_pass \<Gamma> k ?dec ?decv (ber_octets \<Gamma>) spec src"
    using ber_sequence.hyps(4) by (simp add: rows_pass_def ber_sequence_ok_def)
  have rows: "list_all2 (row_open \<Gamma>) (ss_members spec) (rows_octets (ber_octets \<Gamma>) \<Gamma> src 0 (ss_members spec))"
    by (rule rows_open [OF pass]) (use ber_sequence.hyps(4) in \<open>simp_all add: ber_sequence_ok_def Let_def\<close>)
  have tags: "tags_ok \<Gamma> spec" using ber_sequence.hyps(4) by (simp add: ber_sequence_ok_def)
  obtain s where s: "wrap_octets (td_tag ?d) (join_octets (members_octets (ber_octets \<Gamma>) \<Gamma> src 0 (ss_members spec)))
      = (tlv_octets (td_tag ?d) s, False)"
    "\<And>dest d. shaped \<Gamma> ?d dest \<Longrightarrow> d + k \<le> kMaxDecodeDepth \<Longrightarrow>
       sequence_decode_body ?dec ?decv \<Gamma> ?d dest (reader_at [] s d) = Inr (V_Sequence src)"
    using sequence_body_restored [OF pass env per spec tags rows ext] by blast
  have oct: "handler_octets (ber_octets \<Gamma>) \<Gamma> ?d (V_Sequence src) = (tlv_octets (td_tag ?d) s, False)"
    using s(1) ber_sequence.hyps(1,2) by (simp add: handler_octets_def)
  show ?case
  proof (rule level_passes [OF ber_sequence.hyps(3) n(1), of k])
    show "ber_passes \<Gamma> k (handler_decode ?dec ?decv \<Gamma>) (handler_decode_value ?dec ?decv \<Gamma>) ?d (V_Sequence src)
        (handler_octets (ber_octets \<Gamma>) \<Gamma> ?d (V_Sequence src))"
      by (rule constructed_passes [where body = "sequence_decode_body ?dec ?decv \<Gamma> ?d", OF oct node_contents [OF ber_sequence.hyps(3) oct] s(2)])
         (use ber_sequence.hyps(1) in \<open>simp_all add: handler_decode_def handler_decode_value_def\<close>)
  qed (use k in simp)
next
  case (ber_choice def spec p v t)
  obtain m where n: "n = Suc m" "Suc (height v) \<le> m" using ber_choice.prems by (cases n) auto
  let ?d = "unwrapped def" and ?dec = "ber_decode_fuel m \<Gamma>" and ?decv = "ber_decode_value_fuel m \<Gamma>"
  let ?alt = "cs_alternatives spec ! nat (p - 1)"
  have wf: "env_wf \<Gamma>" "ber_desc_wf \<Gamma> (\<Gamma> t)" using assms by (simp_all add: ber_env_wf_def)
  have per: "td_per_handler ?d = Some H_Choice" and spec: "td_choice_spec ?d = Some spec"
    using ber_choice.prems(1) ber_choice.hyps(1,2) by (simp_all add: ber_desc_wf_def per_handler_of_def)
  have pass: "ber_passes \<Gamma> (height v) ?dec ?decv (\<Gamma> t) v (ber_octets \<Gamma> (\<Gamma> t) v)"
    using ber_choice.IH [OF wf(2), of m] n(2) by simp
  have len: "length (fst (ber_octets \<Gamma> (\<Gamma> t) v)) < 2 ^ 64"
    using sendable_node [OF ber_choice.hyps(6)] by (simp add: node_ok_def)
  have p: "1 \<le> p" "p \<le> int (length (cs_alternatives spec))" "row_tag_ok \<Gamma> ?alt"
    "choice_match spec (first_tag (fst (component_octets (ber_octets \<Gamma>) ?alt (\<Gamma> t) v))) = p - 1"
    using ber_choice.hyps(4,5) by (simp_all add: ber_choice_ok_def Let_def)
  obtain u s where us: "component_octets (ber_octets \<Gamma>) ?alt (\<Gamma> t) v = (tlv_octets u s, False)" "tlv_ok u s"
    "restores \<Gamma> (height v) (choice_decode ?dec ?decv \<Gamma>) ?d (V_Choice p (Some v)) (tlv_octets u s)"
    using choice_restored [OF pass len wf(1) per spec p(1,2) refl ber_choice.hyps(5) p(3,4)] by blast
  have oct: "handler_octets (ber_octets \<Gamma>) \<Gamma> ?d (V_Choice p (Some v)) = (tlv_octets u s, False)"
    using us(1) ber_choice.hyps(1,2,5) p(1,2) by (simp add: handler_octets_def Let_def)
  have "handler_decode ?dec ?decv \<Gamma> ?d dest r = choice_decode ?dec ?decv \<Gamma> ?d dest r" for dest r
    using ber_choice.hyps(1) by (simp add: handler_decode_def)
  then have "restores \<Gamma> (height v) (handler_decode ?dec ?decv \<Gamma>) ?d (V_Choice p (Some v)) (tlv_octets u s)"
    using us(3) by (simp add: restores_def)
  moreover have "\<not> plain_tagged ?d" using ber_choice.hyps(1) by (simp add: plain_tagged_def)
  ultimately have "ber_passes \<Gamma> (height v) (handler_decode ?dec ?decv \<Gamma>) (handler_decode_value ?dec ?decv \<Gamma>) ?d
      (V_Choice p (Some v)) (handler_octets (ber_octets \<Gamma>) \<Gamma> ?d (V_Choice p (Some v)))"
    unfolding ber_passes_def oct using us(2) by auto
  then show ?case
    by (intro level_passes [OF ber_choice.hyps(3) n(1), of "height v"]) simp_all
qed

end
