(* ===== verification/Per_Sample.thy ===== *)
theory Per_Sample
  imports Per_Roundtrip
begin

text \<open>
  A schema with the features that matter to PER, in the form the compiler emits, and the
  facts that make it a concrete input of the theorems on the PER codec:

  \<open>Byte ::= INTEGER (0..255)\<close>, \<open>Colour ::= ENUMERATED { red(0), green(2), ..., blue(5) }\<close>,
  \<open>Either ::= CHOICE { x [0] Byte, ..., y [1] BOOLEAN }\<close>, \<open>Bytes ::= SET SIZE (0..9) OF Byte\<close> and
  \<open>Rich ::= SEQUENCE { flag BOOLEAN DEFAULT FALSE, name UTF8String OPTIONAL, id Byte, ...,
  [[ a INTEGER, b BOOLEAN OPTIONAL ]], c Colour }\<close>.
\<close>

section \<open>The sample schema\<close>

definition sample_byte :: type_desc where
  "sample_byte = asn_DEF_Integer\<lparr>td_name := ''Byte'', td_constraints := no_constraints
     \<lparr>c_flags := CONSTRAINED, lower_bound := 0, upper_bound := 255, range_bits := 8\<rparr>\<rparr>"

definition sample_colour :: type_desc where
  "sample_colour = (builtin_desc ''Colour'' UT_Enumerated no_constraints False Enumerated H_Enumerated H_Enumerated (V_Enum 0))
     \<lparr>td_enum_spec := Some \<lparr>es_entries = [\<lparr>ee_value = 0, ee_name = ''red''\<rparr>, \<lparr>ee_value = 2, ee_name = ''green''\<rparr>,
        \<lparr>ee_value = 5, ee_name = ''blue''\<rparr>], es_extensible = True, es_root_count = 2, es_per_value_order = []\<rparr>\<rparr>"

definition sample_either :: type_desc where
  "sample_either = sample_pick\<lparr>td_name := ''Either'', td_choice_spec := Some
     \<lparr>cs_alternatives = [plain_member ''x'' (context_tag 0 False) True ''Byte'',
                         plain_member ''y'' (context_tag 1 False) True ''BOOLEAN''],
      cs_ext_at = 1, cs_constraints = no_constraints, cs_ber_tags = None, cs_tag_index = Some [0, 1], cs_tag_index_base = 0\<rparr>\<rparr>"

definition sample_bytes :: type_desc where
  "sample_bytes = (sample_seqof ''Bytes'' UT_Set ''Byte'')
     \<lparr>td_seq_of_spec := Some \<lparr>sos_element = ''Byte'', sos_constraints = no_constraints
        \<lparr>c_flags := SIZE_CONSTRAINED, size_lower := 0, size_upper := 9, size_range_bits := 4\<rparr>, sos_element_xer_tag = None\<rparr>\<rparr>"

definition optional_member :: "string \<Rightarrow> tag \<Rightarrow> type_ref \<Rightarrow> member" where
  "optional_member name t ty = (plain_member name t True ty)\<lparr>m_optional := True, m_has_ops := True\<rparr>"

definition rich_members :: "member list" where
  "rich_members =
     [(optional_member ''flag'' (context_tag 0 False) ''BOOLEAN'')
        \<lparr>m_has_default := True, m_set_default := Some (\<lambda>ms. ms[0 := Some (V_Boolean False)]),
         m_is_default_equal := Some (\<lambda>ms. ms ! 0 = Some (V_Boolean False))\<rparr>,
      optional_member ''name'' (context_tag 1 False) ''UTF8String'',
      plain_member ''id'' (context_tag 2 False) True ''Byte'',
      optional_member ''a'' (context_tag 3 False) ''INTEGER'',
      optional_member ''b'' (context_tag 4 False) ''BOOLEAN'',
      optional_member ''c'' (context_tag 5 False) ''Colour'']"

definition rich_spec :: sequence_spec where
  "rich_spec = \<lparr>ss_members = rich_members, ss_ext_at = 3, ss_roms_count = 2, ss_is_set = False,
     ss_units = [(5, True), (6, False)], ss_group_optional = [False, False, False, False, True, False]\<rparr>"

definition rich_new :: asn1_value where
  "rich_new = V_Sequence [Some (V_Boolean False), None, Some (V_Integer 0), None, None, None]"

definition sample_rich :: type_desc where
  "sample_rich = (sample_sequence ''Rich'' UT_Sequence False rich_members rich_new)\<lparr>td_sequence_spec := Some rich_spec\<rparr>"

definition rich_env :: type_env where
  "rich_env t =
     (if t = ''Byte'' then sample_byte
      else if t = ''Colour'' then sample_colour
      else if t = ''Either'' then sample_either
      else if t = ''Bytes'' then sample_bytes
      else if t = ''Rich'' then sample_rich
      else sample_env t)"

lemma rich_env_all:
  assumes "\<And>t. P (sample_env t)" "P sample_byte" "P sample_colour" "P sample_either" "P sample_bytes" "P sample_rich"
  shows "P (rich_env t)"
  using assms by (simp add: rich_env_def)

definition rich_value :: asn1_value where
  "rich_value = V_Sequence [Some (V_Boolean True), None, Some (V_Integer 7), Some (V_Integer 300), None, Some (V_Enum 5)]"

lemmas rich_defs = sample_byte_def sample_colour_def sample_either_def sample_bytes_def optional_member_def
  rich_members_def rich_spec_def rich_new_def sample_rich_def sample_defs

lemma rich_spec_rows:
  "length (ss_members rich_spec) = 6" "root_end rich_spec = 3" "unit_count rich_spec = 2"
  "unit_begin rich_spec 0 = 3" "unit_end rich_spec 0 = 5" "unit_begin rich_spec (Suc 0) = 5" "unit_end rich_spec (Suc 0) = 6"
  "unit_is_group rich_spec 0" "\<not> unit_is_group rich_spec (Suc 0)"
  by (simp_all add: rich_spec_def rich_members_def root_end_def unit_count_def unit_begin_def unit_end_def unit_is_group_def)

lemma less_6: "i < 6 \<longleftrightarrow> i = 0 \<or> i = 1 \<or> i = 2 \<or> i = 3 \<or> i = 4 \<or> i = (5 :: nat)"
  by auto

lemmas root_defs = root_end_def unit_count_def unit_begin_def unit_end_def unit_is_group_def

text \<open>The tables of the plain types.\<close>

lemma leaf_desc_wf:
  "td_per_handler def = Some h \<Longrightarrow>
     h \<in> {H_Any, H_Boolean, H_Integer, H_UInteger, H_Null, H_BitString, H_OctetString, H_Oid, H_RelOid, H_String} \<Longrightarrow>
   desc_wf \<Gamma> def"
  by (auto simp: desc_wf_def)

lemma mandatory_sequence_wf:
  assumes "td_sequence_spec def = Some spec" "td_per_handler def = Some H_Sequence" "td_kind def = Sequence"
    "ss_ext_at spec = - 1" "ss_units spec = []" "list_all (\<lambda>m. m_set_default m = None) (ss_members spec)"
  shows "desc_wf \<Gamma> def"
  using assms by (auto simp: desc_wf_def depth_counts_def sequence_wf_def root_defs list_all_iff)

lemma rich_shapes:
  "shaped \<Gamma> asn_DEF_Boolean (V_Boolean b)" "shaped \<Gamma> asn_DEF_Integer (V_Integer n)"
  "shaped \<Gamma> asn_DEF_Utf8String (V_String s)" "shaped \<Gamma> sample_byte (V_Integer n)"
  "shaped \<Gamma> sample_level (V_Integer n)" "shaped \<Gamma> sample_colour (V_Enum n)" "shaped \<Gamma> asn_DEF_Null V_Null"
  by (simp_all add: shaped.shaped_leaf leaf_shape_def rich_defs)

lemma rich_env_simps:
  "rich_env ''INTEGER'' = asn_DEF_Integer" "rich_env ''BOOLEAN'' = asn_DEF_Boolean"
  "rich_env ''UTF8String'' = asn_DEF_Utf8String" "rich_env ''Byte'' = sample_byte"
  "rich_env ''Colour'' = sample_colour" "rich_env ''Either'' = sample_either" "rich_env ''Bytes'' = sample_bytes"
  "rich_env ''Rich'' = sample_rich" "rich_env ''Level'' = sample_level" "rich_env ''Pick'' = sample_pick"
  by (simp_all add: rich_env_def sample_env_def)

lemma rich_sequence_wf: "sequence_wf rich_env rich_spec"
proof -
  have "\<forall>u < 2. root_end rich_spec \<le> unit_begin rich_spec u \<and> unit_end rich_spec u \<le> 6
      \<and> (\<not> unit_is_group rich_spec u \<longrightarrow> unit_begin rich_spec u < 6)"
    using rich_spec_rows by (simp add: less_2_cases_iff)
  moreover have "\<forall>i. 3 \<le> i \<longrightarrow> i < 6 \<longrightarrow> m_type (rich_members ! i) \<noteq> None \<and> m_has_ops (rich_members ! i)"
    unfolding less_6 by (auto simp: rich_defs)
  moreover have "\<forall>mbr \<in> set rich_members. \<forall>f ms. m_set_default mbr = Some f \<longrightarrow> rows_ok rich_env rich_spec ms \<longrightarrow>
      rows_ok rich_env rich_spec (f ms)"
  proof (intro ballI allI impI)
    fix mbr f ms
    assume m: "mbr \<in> set rich_members" "m_set_default mbr = Some f" "rows_ok rich_env rich_spec ms"
    then have f: "f = (\<lambda>ms. ms[0 := Some (V_Boolean False)])" by (auto simp: rich_defs)
    have row: "0 < length (ss_members rich_spec)" "m_type (ss_members rich_spec ! 0) = Some ''BOOLEAN''"
      by (simp_all add: rich_defs)
    show "rows_ok rich_env rich_spec (f ms)"
      unfolding f by (rule rows_update [OF m(3) row]) (simp add: rich_env_simps rich_shapes)
  qed
  moreover have "ss_members rich_spec = rich_members" "ss_ext_at rich_spec = 3" by (simp_all add: rich_spec_def)
  ultimately show ?thesis
    unfolding sequence_wf_def using rich_spec_rows by simp
qed

lemma rows_ok_enumerate:
  "rows_ok \<Gamma> spec ms \<longleftrightarrow> length ms = length (ss_members spec) \<and>
     list_all (\<lambda>(i, m). case m of None \<Rightarrow> nullable spec i
        | Some v \<Rightarrow> (\<exists>t. m_type (ss_members spec ! i) = Some t \<and> shaped \<Gamma> (\<Gamma> t) v)) (List.enumerate 0 ms)"
  unfolding rows_ok_def list_all_length by (simp add: nth_enumerate_eq)

lemma rich_new_rows: "rows_ok rich_env rich_spec [Some (V_Boolean False), None, Some (V_Integer 0), None, None, None]"
  unfolding rows_ok_enumerate
  by (simp add: nullable_def root_end_def rich_spec_def rich_members_def optional_member_def plain_member_def
      rich_env_simps rich_shapes)

lemma rich_handlers:
  "td_per_handler sample_rich = Some H_Sequence" "td_sequence_spec sample_rich = Some rich_spec"
  "depth_counts sample_rich" "td_new sample_rich = rich_new"
  by (simp_all add: sample_rich_def sample_sequence_def depth_counts_def)

lemma rich_shaped: "shaped rich_env sample_rich rich_new"
  unfolding shaped_sequence_iff [OF rich_handlers(1,2)] using rich_new_rows by (auto simp: rich_new_def)

lemma rich_desc_wf: "desc_wf rich_env sample_rich"
  using rich_sequence_wf rich_handlers by (simp add: desc_wf_def)

lemma leaf_new:
  assumes "def \<in> {asn_DEF_Integer, asn_DEF_Boolean, asn_DEF_Utf8String, asn_DEF_Null, sample_level, sample_byte, sample_colour}"
  shows "desc_wf \<Gamma> def" "shaped \<Gamma> def (td_new def)"
proof -
  have "desc_wf \<Gamma> sample_colour" by (simp add: desc_wf_def sample_colour_def builtin_desc_def)
  moreover have "td_per_handler asn_DEF_Integer = Some H_Integer" "td_per_handler asn_DEF_Boolean = Some H_Boolean"
    "td_per_handler asn_DEF_Utf8String = Some H_String" "td_per_handler asn_DEF_Null = Some H_Null"
    "td_per_handler sample_level = Some H_Integer" "td_per_handler sample_byte = Some H_Integer"
    by (simp_all add: rich_defs)
  ultimately show "desc_wf \<Gamma> def"
    using assms by (elim insertE emptyE) (simp_all add: leaf_desc_wf)
  have "td_new sample_colour = V_Enum 0" "td_new asn_DEF_Integer = V_Integer 0" "td_new asn_DEF_Boolean = V_Boolean False"
    "td_new asn_DEF_Utf8String = V_String []" "td_new asn_DEF_Null = V_Null" "td_new sample_level = V_Integer 0"
    "td_new sample_byte = V_Integer 0"
    by (simp_all add: rich_defs)
  with assms show "shaped \<Gamma> def (td_new def)" by (elim insertE emptyE) (simp_all add: rich_shapes)
qed

lemma env_wf_rich: "env_wf rich_env"
proof -
  let ?P = "\<lambda>def. desc_wf rich_env def \<and> shaped rich_env def (td_new def)"
  have mandatory: "?P def" if "td_sequence_spec def = Some spec" "td_per_handler def = Some H_Sequence"
    "td_kind def = Sequence" "ss_ext_at spec = - 1" "ss_units spec = []"
    "list_all (\<lambda>m. m_set_default m = None) (ss_members spec)" "td_new def = V_Sequence ms" "rows_ok rich_env spec ms"
    for def spec ms
    using that mandatory_sequence_wf [OF that(1-6)] shaped_sequence_iff [OF that(2,1)] by simp
  have plain: "?P (sample_sequence name n b mbrs (V_Sequence ms))"
    if "list_all (\<lambda>m. m_set_default m = None) mbrs"
      "rows_ok rich_env \<lparr>ss_members = mbrs, ss_ext_at = - 1, ss_roms_count = 0, ss_is_set = b,
        ss_units = [], ss_group_optional = []\<rparr> ms" for name n b mbrs ms
    by (rule mandatory [OF _ _ _ _ _ _ _ that(2)]) (simp_all add: sample_sequence_def that(1))
  have "?P (sample_env t)" for t
  proof (rule sample_env_all [of ?P])
    show "?P (sample_env ''Msg'')" "?P (sample_env ''Rec'')" "?P (sample_env ''Bag'')" "?P (sample_env ''Wrap'')"
      by (simp_all add: sample_env_def plain rows_ok_enumerate nullable_def rich_env_simps rich_shapes
          id_member_def name_member_def flag_member_def plain_member_def)
    show "?P (sample_env ''Picks'')" "?P (sample_env ''Ints'')"
      by (auto simp: sample_env_def desc_wf_def sample_seqof_def depth_counts_def intro: shaped_seqof)
    show "?P sample_pick"
      by (simp add: desc_wf_def depth_counts_def sample_pick_def shaped_empty_choice)
  qed (simp_all add: leaf_new)
  moreover have "?P sample_byte" "?P sample_colour" by (simp_all add: leaf_new)
  moreover have "?P sample_either"
    by (simp add: desc_wf_def depth_counts_def sample_pick_def sample_either_def shaped_empty_choice)
  moreover have "?P sample_bytes"
    by (auto simp: desc_wf_def sample_seqof_def depth_counts_def sample_bytes_def intro: shaped_seqof)
  moreover have "?P sample_rich" using rich_desc_wf rich_shaped by (simp only: rich_handlers simp_thms)
  ultimately have "?P (rich_env t)" for t by (rule rich_env_all [of ?P])
  then show ?thesis by (simp add: env_wf_def)
qed

lemma rich_row_ok:
  assumes "i < 6"
  shows "root_row_ok (ss_members rich_spec ! i) i
    [Some (V_Boolean True), None, Some (V_Integer 7), Some (V_Integer 300), None, Some (V_Enum 5)]"
proof -
  have "\<exists>dv. V_Boolean True \<noteq> dv \<and> (\<forall>ms. ms[0 := Some (V_Boolean False)] = ms[0 := Some dv])"
    by (rule exI [of _ "V_Boolean False"]) simp
  then show ?thesis using assms unfolding less_6 by (auto simp: root_row_ok_def default_ok_def rich_defs)
qed

lemma rich_sendable: "sendable rich_env sample_rich rich_value"
proof -
  have src: "sequence_sendable rich_spec
      [Some (V_Boolean True), None, Some (V_Integer 7), Some (V_Integer 300), None, Some (V_Enum 5)]"
    (is "sequence_sendable _ ?src")
  proof -
    have root: "root_row_ok (ss_members rich_spec ! i) i ?src" if "i < 3" for i
      using that by (intro rich_row_ok) simp
    have add: "addition_ok rich_spec ?src i" if "3 \<le> i" "i < 6" for i
      using that unfolding less_6 by (auto simp: addition_ok_def rich_defs)
    have units: "units_ok rich_spec ?src"
    proof -
      have "\<not> ss_group_optional rich_spec ! i \<longrightarrow> ?src ! i \<noteq> None" if "i \<in> {3..<5}" for i
      proof -
        from that have "i = 3 \<or> i = 4" by auto
        then show ?thesis by (auto simp: rich_spec_def)
      qed
      then show ?thesis
        unfolding units_ok_def by (simp only: rich_spec_rows less_2_cases_iff) (simp add: rich_spec_rows kFragmentUnit_def)
    qed
    show ?thesis
      unfolding sequence_sendable_def using root add units by (simp add: rich_spec_rows) (simp add: rich_defs)
  qed
  have leaf: "leaf_sendable asn_DEF_Boolean (V_Boolean b)" "leaf_sendable asn_DEF_Integer (V_Integer n)"
    for b n
    by (simp_all add: leaf_sendable_def rich_defs no_constraints_def int_constraint_wf_def int_permitted_def
        has_flag_def Let_def)
  have leaf': "leaf_sendable sample_byte (V_Integer 7)" "leaf_sendable sample_colour (V_Enum 5)"
    by (simp_all add: leaf_sendable_def rich_defs no_constraints_def int_constraint_wf_def int_permitted_def
        has_flag_def Let_def enum_wf_def enum_sorted_def enum_root_count_def word_sle_eq word_sless_alt)
  have flat: "\<not> depth_counts asn_DEF_Boolean" "\<not> depth_counts asn_DEF_Integer" "\<not> depth_counts sample_byte"
    "\<not> depth_counts sample_colour"
    by (simp_all add: depth_counts_def rich_defs)
  have child: "sendable rich_env (rich_env t) v"
    if "i < 6" "?src ! i = Some v" "m_type (ss_members rich_spec ! i) = Some t" for i v t
    using that unfolding less_6
    by (auto simp: rich_spec_def rich_members_def optional_member_def plain_member_def rich_env_simps flat
        intro!: sendable_leaf leaf leaf')
  show ?thesis
    unfolding rich_value_def
    by (rule sendable_sequence [OF rich_handlers(1,2) rich_sequence_wf src]) (rule child, simp_all)
qed

end
