(* ===== verification/Ber_Results.thy ===== *)
theory Ber_Results
  imports Ber_Roundtrip Per_Sample
begin

text \<open>
  The promises of the BER codec as a whole, on the entry points \<open>BerCodec::encode\<close> and
  \<open>BerCodec::decode\<close>: round trip, encodings that can be told apart, type safety on any
  input.
\<close>

section \<open>Encodings that stand alone\<close>

text \<open>What is written is read back wherever it stands and whatever follows.\<close>

locale octet_codec =
  fixes put :: "'a \<Rightarrow> byte list"
    and get :: "ber_reader \<Rightarrow> ('a \<times> ber_reader) result"
    and valid :: "'a \<Rightarrow> bool"
  assumes contract: "valid x \<Longrightarrow> get (reader_at pre (put x @ post) 0) = Inr (x, reader_at (pre @ put x) post 0)"
begin

lemma split_unique:
  assumes "valid x" "valid y" "put x @ p = put y @ q"
  shows "x = y \<and> p = q"
  using contract [OF assms(1), of "[]" p] contract [OF assms(2), of "[]" q] assms(3) by simp

lemma prefix_free: "valid x \<Longrightarrow> valid y \<Longrightarrow> prefix (put x) (put y) \<Longrightarrow> x = y"
  using split_unique [of x y _ "[]"] by (auto simp: prefix_def)

lemma never_empty: "valid x \<Longrightarrow> valid y \<Longrightarrow> x \<noteq> y \<Longrightarrow> put x \<noteq> []"
  using prefix_free [of x y] by auto

end

definition ber_encode_value :: "type_env \<Rightarrow> type_desc \<Rightarrow> asn1_value \<Rightarrow> byte list" where
  "ber_encode_value \<Gamma> def v = bw_buf (ber_encode \<Gamma> def v new_writer)"

text \<open>The tables and the object that a BER round trip needs.\<close>

definition ber_setting :: "type_env \<Rightarrow> type_desc \<Rightarrow> asn1_value \<Rightarrow> bool" where
  "ber_setting \<Gamma> def dest \<longleftrightarrow>
     ber_env_wf \<Gamma> \<and> ber_desc_wf \<Gamma> def \<and> env_tagging_ok \<Gamma> \<and> desc_tagging_ok \<Gamma> def \<and> shaped \<Gamma> def dest"

lemma ber_encode_passes:
  assumes "ber_setting \<Gamma> def dest" "ber_sendable \<Gamma> def v" "height v \<le> kMaxDecodeDepth"
  shows "\<not> bw_failed (ber_encode \<Gamma> def v new_writer)"
    "ber_decode \<Gamma> def dest (reader_at pre (ber_encode_value \<Gamma> def v @ post) 0)
       = Inr (v, reader_at (pre @ ber_encode_value \<Gamma> def v) post 0)"
proof -
  have p: "ber_passes \<Gamma> (height v) (ber_decode \<Gamma>) (ber_decode_value \<Gamma>) def v (ber_octets \<Gamma> def v)"
    unfolding ber_decode_def ber_decode_value_def
    by (rule ber_sendable_passes) (use assms in \<open>simp_all add: ber_setting_def\<close>)
  have e: "ber_encode \<Gamma> def v new_writer = emit (ber_octets \<Gamma> def v) new_writer"
    using assms(1) by (intro ber_encode_emit) (simp_all add: ber_setting_def)
  show "\<not> bw_failed (ber_encode \<Gamma> def v new_writer)"
    unfolding e emit_eq using p by (simp add: ber_passes_def new_writer_def)
  have "ber_encode_value \<Gamma> def v = fst (ber_octets \<Gamma> def v)"
    unfolding ber_encode_value_def e emit_eq by (simp add: new_writer_def)
  then show "ber_decode \<Gamma> def dest (reader_at pre (ber_encode_value \<Gamma> def v @ post) 0)
       = Inr (v, reader_at (pre @ ber_encode_value \<Gamma> def v) post 0)"
    using p assms(1,3) by (auto simp: ber_passes_def ber_setting_def intro: restoresD)
qed

interpretation ber: octet_codec "ber_encode_value \<Gamma> def" "ber_decode \<Gamma> def dest"
  "\<lambda>v. ber_setting \<Gamma> def dest \<and> ber_sendable \<Gamma> def v \<and> height v \<le> kMaxDecodeDepth"
  for \<Gamma> def dest
  by unfold_locales (simp add: ber_encode_passes(2))

section \<open>The sample schemas\<close>

lemma ber_leaf_wf:
  "td_per_handler def = td_ber_handler def \<and>
     td_ber_handler def \<in> {Some H_Integer, Some H_Boolean, Some H_String, Some H_Null, Some H_Enumerated} \<Longrightarrow> ber_desc_wf \<Gamma> def"
  by (auto simp: ber_desc_wf_def per_handler_of_def)

lemma ber_mandatory_sequence_wf:
  assumes "td_sequence_spec def = Some spec" "td_per_handler def = Some H_Sequence" "td_ber_handler def = Some H_Sequence"
    "td_kind def = Sequence" "ss_ext_at spec = - 1" "ss_units spec = []" "list_all (\<lambda>m. m_set_default m = None) (ss_members spec)"
  shows "ber_desc_wf \<Gamma> def"
proof -
  have "sequence_wf \<Gamma> spec"
    using mandatory_sequence_wf [OF assms(1,2,4-7), of \<Gamma>] assms(1,2) by (simp add: desc_wf_def)
  then show ?thesis using assms by (simp add: ber_desc_wf_def per_handler_of_def root_defs)
qed

lemma ber_env_wf_rich: "ber_env_wf rich_env"
proof -
  let ?P = "ber_desc_wf rich_env"
  have seq: "?P (sample_sequence name n b mbrs new)" if "list_all (\<lambda>m. m_set_default m = None) mbrs" for name n b mbrs new
    by (rule ber_mandatory_sequence_wf, simp add: sample_sequence_def) (simp_all add: sample_sequence_def that)
  have "?P (sample_env t)" for t
  proof (rule sample_env_all [of ?P])
    show "?P (sample_env ''Msg'')" "?P (sample_env ''Rec'')" "?P (sample_env ''Bag'')" "?P (sample_env ''Wrap'')"
      by (simp_all add: sample_env_def seq id_member_def name_member_def flag_member_def plain_member_def)
    show "?P (sample_env ''Picks'')" "?P (sample_env ''Ints'')"
      by (simp_all add: sample_env_def ber_desc_wf_def sample_seqof_def per_handler_of_def)
    show "?P sample_pick"
      by (simp add: ber_desc_wf_def sample_pick_def per_handler_of_def choice_table_ok_def alternative_ok_def plain_member_def)
  qed ((rule ber_leaf_wf, simp add: sample_defs)+)
  moreover have "?P sample_byte" "?P sample_colour" by (rule ber_leaf_wf, simp add: rich_defs)+
  moreover have "?P sample_either" "?P sample_bytes"
    by (simp_all add: ber_desc_wf_def sample_pick_def sample_either_def sample_bytes_def sample_seqof_def per_handler_of_def
        choice_table_ok_def alternative_ok_def plain_member_def)
  moreover have "?P sample_rich"
  proof -
    have "m_optional (ss_members rich_spec ! i)" if "3 \<le> i" "i < 6" for i
      using that unfolding less_6 by (auto simp: rich_spec_def rich_members_def optional_member_def)
    then show ?thesis
      using rich_sequence_wf rich_handlers by (simp add: ber_desc_wf_def per_handler_of_def rich_spec_rows sample_rich_def sample_sequence_def)
  qed
  ultimately have "?P (rich_env t)" for t by (rule rich_env_all [of ?P])
  then show ?thesis using env_wf_rich by (simp add: ber_env_wf_def)
qed

lemma rich_kind_ok: "env_kind_ok rich_env"
proof -
  have "desc_kind_ok (rich_env t)" for t
    by (rule rich_env_all)
       (use sample_kind_ok in \<open>simp_all add: env_kind_ok_def desc_kind_ok_def depth_counts_def rich_defs\<close>)
  then show ?thesis by (simp add: env_kind_ok_def)
qed

lemma rich_tagging_ok: "env_tagging_ok rich_env"
proof -
  have "desc_tagging_ok rich_env (sample_env t)" for t
    by (rule sample_env_all [of "desc_tagging_ok rich_env"])
       (simp_all add: desc_tagging_ok_def implicit_tagging_ok_def sample_env_def rich_env_simps sample_defs)
  then have "desc_tagging_ok rich_env (rich_env t)" for t
    by (rule rich_env_all [of "desc_tagging_ok rich_env"])
       (simp_all add: desc_tagging_ok_def implicit_tagging_ok_def rich_env_simps rich_defs)
  then show ?thesis by (simp add: env_tagging_ok_def)
qed

lemma rich_ber_setting: "ber_setting rich_env sample_rich rich_new"
proof -
  have "sample_rich = rich_env ''Rich''" by (simp add: rich_env_simps)
  then show ?thesis
    using ber_env_wf_rich rich_tagging_ok rich_shaped
    unfolding ber_setting_def ber_env_wf_def env_tagging_ok_def by metis
qed

lemma small_node:
  "number (td_tag def) \<noteq> - 1 \<Longrightarrow> \<not> td_is_explicit def \<Longrightarrow> length (fst (ber_octets \<Gamma> def v)) < 50 \<Longrightarrow> node_ok \<Gamma> def v"
  by (simp add: node_ok_def)

lemma rich_ber_sendable: "ber_sendable rich_env sample_rich rich_value"
proof -
  let ?src = "[Some (V_Boolean True), None, Some (V_Integer 7), Some (V_Integer 300), None, Some (V_Enum 5)]"
  have h: "td_ber_handler sample_rich = Some H_Sequence" "td_sequence_spec sample_rich = Some rich_spec"
    by (simp_all add: sample_rich_def sample_sequence_def)
  have node: "node_ok rich_env sample_rich (V_Sequence ?src)"
    by (rule small_node) code_simp+
  have rows: "\<forall>i < 6. row_tag_ok rich_env (ss_members rich_spec ! i) \<and>
      (\<not> m_has_default (ss_members rich_spec ! i) \<longrightarrow> m_is_default_equal (ss_members rich_spec ! i) = None)"
    by (simp add: less_6 all_conj_distrib rich_defs row_tag_ok_def plain_tagged_def rich_env_simps)
  have opens: "\<forall>i < 6. (let c = row_octets (ber_octets rich_env) rich_env ?src i (ss_members rich_spec ! i)
      in c \<noteq> [] \<longrightarrow> set_member_matches rich_env (ss_members rich_spec ! i) (first_tag c))"
    by code_simp
  have "tags_ok rich_env rich_spec" by code_simp
  then have ok: "ber_sequence_ok rich_env rich_spec ?src"
    using rows opens rich_row_ok by (simp add: ber_sequence_ok_def ber_row_ok_def rich_spec_rows)
  have leaf: "ber_sendable rich_env asn_DEF_Boolean (V_Boolean True)" "ber_sendable rich_env asn_DEF_Integer (V_Integer 300)"
    "ber_sendable rich_env sample_byte (V_Integer 7)" "ber_sendable rich_env sample_colour (V_Enum 5)"
    by (rule ber_leaf, simp add: rich_defs, simp add: leaf_contents_def, simp add: rich_defs depth_counts_def,
        rule small_node, code_simp, code_simp, code_simp)+
  have child: "ber_sendable rich_env (rich_env t) v"
    if "i < 6" "?src ! i = Some v" "m_type (ss_members rich_spec ! i) = Some t" for i v t
    using that unfolding less_6
    by (auto simp: rich_spec_def rich_members_def optional_member_def plain_member_def rich_env_simps leaf)
  show ?thesis
    unfolding rich_value_def by (rule ber_sequence [OF h node ok]) (rule child, simp_all)
qed

section \<open>Round trip\<close>

text \<open>
  C1: every sendable value goes through BER unchanged: encoding it raises no failure,
  and decoding its octets, wherever they stand and whatever follows them, into any
  object of the type gives the value back and stops right behind them.
\<close>

theorem ber_roundtrip:
  assumes "ber_setting \<Gamma> def dest" "ber_sendable \<Gamma> def v" "height v \<le> kMaxDecodeDepth"
  shows "\<not> bw_failed (ber_encode \<Gamma> def v new_writer) \<and>
    ber_decode \<Gamma> def dest (reader_at pre (ber_encode_value \<Gamma> def v @ post) 0)
      = Inr (v, reader_at (pre @ ber_encode_value \<Gamma> def v) post 0)"
  using ber_encode_passes [OF assms] by simp

lemma ber_roundtrip_witness:
  "\<not> bw_failed (ber_encode rich_env sample_rich rich_value new_writer) \<and>
    ber_decode rich_env sample_rich rich_new
      (reader_at [5, 0] (ber_encode_value rich_env sample_rich rich_value @ [1, 1, 0]) 0)
      = Inr (rich_value, reader_at ([5, 0] @ ber_encode_value rich_env sample_rich rich_value) [1, 1, 0] 0)"
  by (rule ber_roundtrip [OF rich_ber_setting rich_ber_sendable]) (simp add: rich_value_def kMaxDecodeDepth_def)

text \<open>
  The BER encodings of two values of a type are never one the beginning of the
  other, so two different values never have the same octets.
\<close>

theorem ber_prefix_free:
  assumes "ber_setting \<Gamma> def dest" "ber_sendable \<Gamma> def v" "ber_sendable \<Gamma> def w"
    "height v \<le> kMaxDecodeDepth" "height w \<le> kMaxDecodeDepth"
    "prefix (ber_encode_value \<Gamma> def v) (ber_encode_value \<Gamma> def w)"
  shows "v = w"
  using ber.prefix_free [of \<Gamma> def dest v w] assms by simp

section \<open>Any input\<close>

lemma non_internal_error:
  "e \<noteq> OutOfFuel \<Longrightarrow> e = OutOfFuel \<or> program_error e \<Longrightarrow> (\<And>s n. e = DecodeError s n \<Longrightarrow> P) \<Longrightarrow> P"
  by (cases e) auto

text \<open>
  C3: on any octets, at any depth, a BER decode ends with an error of the program or
  returns an object of the type it was asked for: an entry for every row, a CHOICE that
  holds the alternative it names. It follows no null pointer. What a decode that fails
  leaves in its destination is another matter: see \<open>ber_choice_after_failure\<close>.
\<close>

theorem ber_decode_type_safe:
  assumes "ber_env_wf \<Gamma>" "ber_desc_wf \<Gamma> def" "env_kind_ok \<Gamma>" "desc_kind_ok def" "br_depth r \<le> kMaxDecodeDepth"
    "shaped \<Gamma> def dest"
  shows "(\<exists>s n. ber_decode \<Gamma> def dest r = Inl (DecodeError s n)) \<or>
    (\<exists>v r'. ber_decode \<Gamma> def dest r = Inr (v, r') \<and> shaped \<Gamma> def v)"
proof -
  have total: "ber_decode \<Gamma> def dest r \<noteq> Inl OutOfFuel"
    using ber_decode_fuel_total [OF assms(3), of "kMaxDecodeDepth + 3" "br_depth r"] assms(4,5)
    by (auto simp: ber_decode_def fuel_free_def simp del: ber_decode_fuel.simps)
  have "yields (\<lambda>(v, _). shaped \<Gamma> def v) (ber_decode \<Gamma> def dest r)"
    using ber_decode_fuel_yields [OF assms(1)] assms(2,6) unfolding ber_decode_def by blast
  with total show ?thesis
    by (cases "ber_decode \<Gamma> def dest r") (auto simp: yields_def elim!: non_internal_error)
qed

lemma ber_decode_type_safe_witness:
  "(\<exists>s n. ber_decode rich_env sample_rich rich_new (new_reader [0x30, 0x80, 0xA0]) = Inl (DecodeError s n)) \<or>
    (\<exists>v r'. ber_decode rich_env sample_rich rich_new (new_reader [0x30, 0x80, 0xA0]) = Inr (v, r')
      \<and> shaped rich_env sample_rich v)"
proof (rule ber_decode_type_safe [OF ber_env_wf_rich _ rich_kind_ok _ _ rich_shaped])
  show "ber_desc_wf rich_env sample_rich" using rich_ber_setting by (simp add: ber_setting_def)
  show "desc_kind_ok sample_rich" using rich_kind_ok rich_env_simps(8) by (metis env_kind_ok_def)
qed (simp add: new_reader_def)

section \<open>The destination of a decode that fails\<close>



section \<open>An IMPLICIT tag on a type with an EXPLICIT tag\<close>

lemma tag_octets_short: "length (tag_octets t) \<le> 6"
proof -
  have "unat (number t) < 2 ^ 32" using unsigned_less [of "number t"] by simp
  then have "unat (number t) < 128 ^ 5" by simp
  then have "length (base128_octets (unat (number t))) \<le> 5" by (rule length_base128_octets_bound) simp
  then show ?thesis by (simp add: tag_octets_def)
qed

text \<open>What \<open>integer_decode_value\<close> makes of the TLV of an INTEGER.\<close>

lemma tlv_read_as_integer:
  fixes n :: i64
  defines "c \<equiv> encode_integer_bytes n"
  shows "length c \<le> 6 \<Longrightarrow> \<exists>m. integer_decode_value (2 # of_nat (length c) # c) = Inr m \<and> m \<noteq> n \<and>
      sint m = 2 * 256 ^ (length c + 1) + int (length c) * 256 ^ length c + int (be_value c)"
    "6 < length c \<Longrightarrow> integer_decode_value (2 # of_nat (length c) # c)
      = Inl (DecodeError ''INTEGER value too large for int64_t'' 0)"
proof -
  have len: "0 < length c" "length c \<le> 8" using encode_integer_bytes_length [of n] by (simp_all add: c_def)
  assume short: "length c \<le> 6"
  let ?p = "256 ^ length c :: int"
  let ?v = "2 * 256 ^ (length c + 1) + int (length c) * ?p + int (be_value c)"
  have k: "unat (of_nat (length c) :: byte) = length c"
    using short by (simp only: unat_of_nat) (simp add: take_bit_nat_eq_self)
  have v: "sbe_value (2 # of_nat (length c) # c) = ?v" by (simp add: be_value_Cons k)
  have b: "int (be_value c) < ?p" using be_value_less [of c] by (metis of_nat_less_iff of_nat_numeral of_nat_power)
  have "int (length c) * ?p \<le> 6 * ?p" using short by (intro mult_right_mono) simp_all
  moreover have "0 < ?p" by simp
  ultimately have "?v < 3 * 256 ^ (length c + 1)" using b unfolding power_add power_one_right by linarith
  moreover have "(256 :: int) ^ (length c + 1) \<le> 256 ^ 7" using short by (intro power_increasing) simp_all
  ultimately have up: "?v < 2 ^ 63" by simp
  have "0 \<le> ?v" by (intro add_nonneg_nonneg mult_nonneg_nonneg) simp_all
  then have "- (2 ^ 63) \<le> ?v" by (rule order_trans [rotated]) simp
  moreover have "sint (word_of_int x :: i64) = x" if "- (2 ^ 63) \<le> x" "x < 2 ^ 63" for x
    using that by (simp add: sint_sbintrunc' signed_take_bit_int_eq_self)
  ultimately have sint: "sint (word_of_int ?v :: i64) = ?v" using up by blast
  have "sint n < 128 * 256 ^ (length c - 1)"
    using sbe_value_bounds [of c] len(1) encode_integer_bytes_sbe [of n] by (simp add: c_def)
  also have "\<dots> \<le> ?p" using len(1) by (cases "length c") simp_all
  also have "\<dots> < ?v" by (simp add: add_pos_nonneg)
  finally show "\<exists>m. integer_decode_value (2 # of_nat (length c) # c) = Inr m \<and> m \<noteq> n \<and> sint m = ?v"
    using sint short v by (intro exI [of _ "word_of_int ?v"]) (auto simp: integer_decode_value_eq)
next
  assume "6 < length c"
  then show "integer_decode_value (2 # of_nat (length c) # c)
      = Inl (DecodeError ''INTEGER value too large for int64_t'' 0)" by (simp add: integer_decode_value_def)
qed

text \<open>
  C16: \<open>BerCodec::decode_value\<close> does not look at \<open>is_explicit\<close>. A member
  \<open>[1] IMPLICIT Level\<close> with \<open>Level ::= [2] EXPLICIT INTEGER\<close> is encoded as it should be, the
  outer tag replaced; but the decoder takes the inner TLV, its tag and length octets
  included, for the contents of the INTEGER. So what the encoder wrote for \<open>n\<close> is decoded
  as another number without an error when the contents of \<open>n\<close> take at most 6 octets, and
  as a number too large when they take more: no value survives.
\<close>

theorem ber_implicit_over_explicit:
  assumes "td_is_explicit (\<Gamma> t)" "td_ber_handler (\<Gamma> t) = Some H_Integer" "\<not> depth_counts (\<Gamma> t)"
    "td_natural_tag (\<Gamma> t) = universal UT_Integer False" "env_tagging_ok \<Gamma>"
    "m_tag_is_override mbr" "\<not> m_is_explicit mbr" "number (m_tag mbr) \<noteq> - 1"
  shows "let wire = bw_buf (encode_component (ber_encode \<Gamma>) mbr (\<Gamma> t) (V_Integer n) new_writer);
             received = decode_component (ber_decode \<Gamma>) (ber_decode_value \<Gamma>) def mbr (\<Gamma> t) dest (new_reader wire);
             c = encode_integer_bytes n
         in if length c \<le> 6
            then \<exists>m. received = Inr (V_Integer m, reader_at wire [] 0) \<and> m \<noteq> n \<and>
              sint m = 2 * 256 ^ (length c + 1) + int (length c) * 256 ^ length c + int (be_value c)
            else received = Inl (DecodeError ''INTEGER value too large for int64_t'' 0)"
proof -
  let ?w = "(m_tag mbr)\<lparr>constructed := constructed (td_tag (\<Gamma> t))\<rparr>"
  let ?c = "encode_integer_bytes n"
  let ?s = "2 # of_nat (length ?c) # ?c"
  let ?wire = "bw_buf (encode_component (ber_encode \<Gamma>) mbr (\<Gamma> t) (V_Integer n) new_writer)"
  have len: "length ?c \<le> 8" by (rule encode_integer_bytes_length(2))
  have tlv: "tlv_octets (universal UT_Integer False) ?c = ?s"
    using len by (simp add: tlv_octets_def tag_octets_def universal_def first_tag_octet_def length_octets_def)
  have inner: "ber_octets \<Gamma> (\<Gamma> t) (V_Integer n) = (tlv_octets (td_tag (\<Gamma> t)) ?s, False)"
    using assms(1,2,4) unfolding ber_octets_unfold [of \<Gamma> "\<Gamma> t"]
    by (simp add: codec_octets_def handler_octets_def natural_def_def wrap_octets_def tlv)
  have "starts_tagged (fst (ber_octets \<Gamma> (\<Gamma> t) (V_Integer n)))"
    using starts_tagged_wrap [of "td_tag (\<Gamma> t)" "(?s, False)"] by (simp add: inner wrap_octets_def)
  moreover have "ber_encode \<Gamma> (\<Gamma> t) (V_Integer n) w = emit (ber_octets \<Gamma> (\<Gamma> t) (V_Integer n)) w" for w
    using ber_encode_emit [OF assms(5)] assms(5) by (simp add: env_tagging_ok_def)
  ultimately have "?wire = fst (component_octets (ber_octets \<Gamma>) mbr (\<Gamma> t) (V_Integer n))"
    by (simp add: encode_component_emit [of "ber_encode \<Gamma>" _ _ "ber_octets \<Gamma>"] emit_eq new_writer_def del: emit.simps)
  also have "\<dots> = tlv_octets ?w ?s"
    using assms(6,7) by (simp add: component_octets_def inner retag_tlv_octets)
  finally have wire: "?wire = tlv_octets ?w ?s" .
  have ok: "tlv_ok ?w ?s" using assms(8) len by (simp add: tlv_ok_def)
  have dv: "ber_decode_value \<Gamma> (\<Gamma> t) dest r = rbind (integer_decode_value (reader_rest r)) (\<lambda>m. Inr (V_Integer m))" for r
  proof -
    obtain k where k: "kMaxDecodeDepth + 3 = Suc k" by simp
    show ?thesis
      using assms(2,3) unfolding ber_decode_value_def k
      by (simp add: codec_decode_value_def enter_depth_def depth_exceeded_def handler_decode_value_def primitive_value_def)
  qed
  have "decode_component (ber_decode \<Gamma>) (ber_decode_value \<Gamma>) def mbr (\<Gamma> t) dest (new_reader (tlv_octets ?w ?s))
    = rbind (integer_decode_value ?s) (\<lambda>m. Inr (V_Integer m, reader_at (tlv_octets ?w ?s) [] 0))"
    using assms(6,7) read_tlv_ok [OF ok, of "[]" "[]" 0]
    by (cases "integer_decode_value ?s") (simp_all add: decode_component_def new_reader_at tag_matches_def dv reader_simps)
  then show ?thesis
    using tlv_read_as_integer [of n] unfolding wire Let_def by (auto simp: not_le)
qed

lemma ber_implicit_over_explicit_witness:
  "decode_component (ber_decode sample_env) (ber_decode_value sample_env) (sample_env ''Wrap'')
      (plain_member ''level'' (context_tag 1 True) True ''Level'') (sample_env ''Level'') (V_Integer 0)
      (new_reader (bw_buf (encode_component (ber_encode sample_env) (plain_member ''level'' (context_tag 1 True) True ''Level'')
        (sample_env ''Level'') (V_Integer 5) new_writer)))
    = Inr (V_Integer 131333, reader_at [0xA1, 3, 2, 1, 5] [] 0)"
proof -
  let ?m = "plain_member ''level'' (context_tag 1 True) True ''Level''"
  let ?wire = "bw_buf (encode_component (ber_encode sample_env) ?m (sample_env ''Level'') (V_Integer 5) new_writer)"
  have c: "encode_integer_bytes 5 = [5]" "?wire = [0xA1, 3, 2, 1, 5]" by code_simp+
  obtain m :: i64 where m: "decode_component (ber_decode sample_env) (ber_decode_value sample_env) (sample_env ''Wrap'') ?m
      (sample_env ''Level'') (V_Integer 0) (new_reader ?wire) = Inr (V_Integer m, reader_at ?wire [] 0)" "sint m = 131333"
    using ber_implicit_over_explicit [of sample_env "''Level''" ?m 5 "sample_env ''Wrap''" "V_Integer 0"] sample_tagging_ok
    unfolding Let_def c
    by (auto simp: sample_env_def sample_level_def plain_member_def context_tag_def asn_DEF_Integer_def builtin_desc_def
        depth_counts_def be_value_def)
  have "m = word_of_int (sint m)" by simp
  then have "m = 131333" unfolding m(2) by simp
  then show ?thesis using m(1) unfolding c by simp
qed

end
