(* ===== verification/Per_Results.thy ===== *)
theory Per_Results
  imports Per_Sample
begin

text \<open>
  The promises of the PER codec as a whole, on the entry points \<open>PerCodec::encode\<close> and
  \<open>PerCodec::decode\<close> and on the streams they work on.
\<close>

section \<open>Round trip\<close>

interpretation per: bit_codec "per_encode \<Gamma> def" "per_decode \<Gamma> def dest"
  "\<lambda>v. env_wf \<Gamma> \<and> shaped \<Gamma> def dest \<and> sendable \<Gamma> def v \<and> height v \<le> kMaxDecodeDepth" kMaxDecodeDepth
  for \<Gamma> def dest
proof unfold_locales
  fix v
  assume v: "env_wf \<Gamma> \<and> shaped \<Gamma> def dest \<and> sendable \<Gamma> def v \<and> height v \<le> kMaxDecodeDepth"
  then have "transfers \<Gamma> (height v) (per_encode \<Gamma>) (per_decode \<Gamma>) def v"
    unfolding per_decode_def by (intro sendable_transfers) simp_all
  note bits = transfersD [OF this]
  have "reads kMaxDecodeDepth (per_decode \<Gamma> def dest) (bits_of (per_encode \<Gamma>) def v) v"
    using v by (intro reads_mono [OF bits(2)]) simp_all
  with bits(1) show "\<exists>bs. appends (per_encode \<Gamma> def v) bs \<and> reads kMaxDecodeDepth (per_decode \<Gamma> def dest) bs v" by blast
qed

lemma per_encode_signals_nothing:
  assumes "env_wf \<Gamma>" "sendable \<Gamma> def v" "height v \<le> kMaxDecodeDepth" "shaped \<Gamma> def dest"
  shows "pe_failed (per_encode \<Gamma> def v s) = pe_failed s"
  using per.contract [of \<Gamma> def dest v] assms by (auto simp: appendsD emit_bits_failed)

text \<open>
  C2: every sendable value goes through PER unchanged: encoding it signals no
  failure, and decoding the octets of the flushed stream into any object of the type
  gives the value back.
\<close>

theorem per_roundtrip:
  assumes "env_wf \<Gamma>" "sendable \<Gamma> def v" "height v \<le> kMaxDecodeDepth" "shaped \<Gamma> def dest"
  shows "\<not> pe_failed (per_encode \<Gamma> def v new_per_enc)
    \<and> (\<exists>d. per_decode \<Gamma> def dest (new_per_dec (per_encode_value \<Gamma> def v)) = Inr (v, d))"
  using per.stream_roundtrip [of \<Gamma> def dest v] per_encode_signals_nothing [OF assms, of new_per_enc] assms
  unfolding per_encode_value_def by (simp add: new_per_enc_def)

lemma per_roundtrip_witness:
  "\<not> pe_failed (per_encode rich_env sample_rich rich_value new_per_enc)
    \<and> (\<exists>d. per_decode rich_env sample_rich rich_new (new_per_dec (per_encode_value rich_env sample_rich rich_value))
         = Inr (rich_value, d))"
  by (rule per_roundtrip [OF env_wf_rich rich_sendable _ rich_shaped]) (simp add: rich_value_def kMaxDecodeDepth_def)

text \<open>
  The encodings of two values of a type are never one the beginning of the other,
  so that encodings can be written one after the other and be told apart.
\<close>

theorem per_prefix_free:
  assumes "env_wf \<Gamma>" "sendable \<Gamma> def v" "sendable \<Gamma> def w" "height v \<le> kMaxDecodeDepth" "height w \<le> kMaxDecodeDepth"
    "shaped \<Gamma> def dest" "prefix (enc_bits (per_encode \<Gamma> def v new_per_enc)) (enc_bits (per_encode \<Gamma> def w new_per_enc))"
  shows "v = w"
  using per.prefix_free [of \<Gamma> def dest v w] assms by simp

section \<open>Any input\<close>

text \<open>The types in play that have an extension marker on an ENUMERATED or a CHOICE.\<close>

definition extension_indices :: "type_env \<Rightarrow> type_desc \<Rightarrow> bool" where
  "extension_indices \<Gamma> def \<longleftrightarrow> extension_marked def \<or> (\<exists>t. extension_marked (\<Gamma> t))"

lemma per_decode_steps:
  assumes "env_wf \<Gamma>" "desc_wf \<Gamma> def" "shaped \<Gamma> def dest" "dec_in d" "pd_depth d \<le> kMaxDecodeDepth"
  shows "steps (extension_indices \<Gamma> def) (shaped \<Gamma> def) d (per_decode \<Gamma> def dest d)"
  unfolding per_decode_def
  by (rule per_decode_fuel_steps) (use assms in \<open>auto simp: extension_indices_def\<close>)

lemma new_per_dec_in: "dec_in (new_per_dec bs)" "pd_depth (new_per_dec bs) = 0"
  by (simp_all add: dec_in_def new_per_dec_def dec_ok_def per_dec_bit_pos_def)

text \<open>
  C28: whatever octets arrive, decoding ends: with a value, with an error of the code, or,
  where some ENUMERATED or CHOICE has an extension marker, at a negative index into its
  table. The recursion is never cut short and no null pointer is dereferenced; without an
  extension marker the first two outcomes are the only ones.
\<close>

theorem per_decode_total:
  assumes "env_wf \<Gamma>" "desc_wf \<Gamma> def" "shaped \<Gamma> def dest"
  shows "(\<exists>v d. per_decode \<Gamma> def dest (new_per_dec octets) = Inr (v, d))
    \<or> (\<exists>msg n. per_decode \<Gamma> def dest (new_per_dec octets) = Inl (DecodeError msg n))
    \<or> extension_indices \<Gamma> def \<and> (\<exists>i < 0. per_decode \<Gamma> def dest (new_per_dec octets) = Inl (OutOfBounds i))"
  using per_decode_steps [OF assms new_per_dec_in(1), of octets]
  by (cases "per_decode \<Gamma> def dest (new_per_dec octets)")
     (auto simp: steps_def new_per_dec_in program_error_iff overflow_of_def)

lemma per_decode_total_witness:
  "(\<exists>v d. per_decode rich_env sample_rich rich_new (new_per_dec [0xFF, 0x80]) = Inr (v, d))
    \<or> (\<exists>msg n. per_decode rich_env sample_rich rich_new (new_per_dec [0xFF, 0x80]) = Inl (DecodeError msg n))
    \<or> extension_indices rich_env sample_rich
      \<and> (\<exists>i < 0. per_decode rich_env sample_rich rich_new (new_per_dec [0xFF, 0x80]) = Inl (OutOfBounds i))"
  by (rule per_decode_total [OF env_wf_rich rich_desc_wf rich_shaped])

text \<open>
  C4: whatever octets arrive, a decode that returns a value returns an object of its type:
  every row of a SEQUENCE holds an object of the member's type or is empty where that is
  allowed, and a CHOICE holds an object of the alternative it names. (A decode may return
  none: with an error of the code, or at a negative index, see \<open>per_decode_total\<close>.)
\<close>

theorem per_decode_type_safe:
  assumes "env_wf \<Gamma>" "desc_wf \<Gamma> def" "shaped \<Gamma> def dest"
    and "per_decode \<Gamma> def dest (new_per_dec octets) = Inr (v, d)"
  shows "shaped \<Gamma> def v"
  using per_decode_steps [OF assms(1-3) new_per_dec_in(1), of octets] assms(4)
  by (simp add: new_per_dec_in)

lemma per_decode_type_safe_witness:
  "shaped rich_env sample_rich (V_Sequence [Some (V_Boolean False), None, Some (V_Integer 1), None, None, None])"
  by (rule per_decode_type_safe [OF env_wf_rich rich_desc_wf rich_shaped, of "[0x00, 0x20]"
        _ "\<lparr>pd_buf = [0x00, 0x20], pd_byte_pos = 1, pd_bit_pos = 3, pd_skipped = 0, pd_depth = 0\<rparr>"]) code_simp

text \<open>
  C33: a decode that returns has not read past the end of its input: the octets used are at
  most those given, and the nesting depth of the stream is what it was before.
\<close>

theorem per_decode_within_input:
  assumes "env_wf \<Gamma>" "desc_wf \<Gamma> def" "shaped \<Gamma> def dest"
    and "per_decode \<Gamma> def dest (new_per_dec octets) = Inr (v, d)"
  shows "pd_buf d = octets \<and> per_bytes_used d \<le> length octets \<and> pd_depth d = 0"
  using per_decode_steps [OF assms(1-3) new_per_dec_in(1), of octets] assms(4)
  by (auto simp: new_per_dec_in later_def dec_in_def dec_ok_def per_dec_bit_pos_def per_bytes_used_def new_per_dec_def)

lemma per_decode_within_input_witness:
  "[0x00, 0x20] = [0x00, 0x20 :: byte] \<and> per_bytes_used \<lparr>pd_buf = [0x00, 0x20], pd_byte_pos = 1, pd_bit_pos = 3,
     pd_skipped = 0, pd_depth = 0\<rparr> \<le> length [0x00, 0x20 :: byte] \<and> (0 :: nat) = 0"
proof -
  have "per_decode rich_env sample_rich rich_new (new_per_dec [0x00, 0x20]) =
      Inr (V_Sequence [Some (V_Boolean False), None, Some (V_Integer 1), None, None, None],
        \<lparr>pd_buf = [0x00, 0x20], pd_byte_pos = 1, pd_bit_pos = 3, pd_skipped = 0, pd_depth = 0\<rparr>)" by code_simp
  from per_decode_within_input [OF env_wf_rich rich_desc_wf rich_shaped this] show ?thesis by simp
qed

text \<open>
  The bits 1 (in the extension) and 1, 4, \<open>2 ^ 31 - 1\<close> (a large normally small number), which
  are 42 bits or six octets.
\<close>

definition overflow_octets :: "byte list" where
  "overflow_octets = [0xC1, 0x1F, 0xFF, 0xFF, 0xFF, 0xC0]"

lemma overflow_index:
  assumes "k \<le> 1"
  shows "\<exists>d d'. get_bits 1 ((new_per_dec overflow_octets)\<lparr>pd_depth := k\<rparr>) = Inr (1, d) \<and> get_nsnn d = Inr (2147483647, d')"
proof -
  define at where "at = (\<lambda>i j k. \<lparr>pd_buf = overflow_octets, pd_byte_pos = i, pd_bit_pos = j, pd_skipped = 0, pd_depth = k\<rparr>)"
  have reads:
    "get_bits 1 ((new_per_dec overflow_octets)\<lparr>pd_depth := 0\<rparr>) = Inr (1, at 0 1 0)"
    "get_bits 1 (at 0 1 0) = Inr (1, at 0 2 0)" "get_length (at 0 2 0) = Inr (4, at 1 2 0)"
    "get_be_octets 23 (DecodeError ''PER: normally small number beyond int'' 0) 4 0 (at 1 2 0) = Inr (0x7FFFFFFF, at 5 2 0)"
    "get_bits 1 ((new_per_dec overflow_octets)\<lparr>pd_depth := 1\<rparr>) = Inr (1, at 0 1 1)"
    "get_bits 1 (at 0 1 1) = Inr (1, at 0 2 1)" "get_length (at 0 2 1) = Inr (4, at 1 2 1)"
    "get_be_octets 23 (DecodeError ''PER: normally small number beyond int'' 0) 4 0 (at 1 2 1) = Inr (0x7FFFFFFF, at 5 2 1)"
    unfolding at_def by code_simp+
  then have "get_nsnn (at 0 1 0) = Inr (2147483647, at 5 2 0)" "get_nsnn (at 0 1 1) = Inr (2147483647, at 5 2 1)"
    by (simp_all add: get_nsnn_def del: One_nat_def)
  then show ?thesis using assms reads(1,5) by (cases k) auto
qed

text \<open>
  C29: six octets make the PER decoder of any extensible ENUMERATED, and of any extensible
  CHOICE, read its table out of bounds. The index is the \<open>int\<close> sum of the size of the root and
  an ordinal of up to 31 bits that the sender chooses; with a root that is not empty the
  largest ordinal overflows the sum, which is then negative, passes the comparison with the
  size of the table and is used.
\<close>

theorem per_extension_index_overflow:
  assumes "td_per_handler def = Some H_Enumerated \<and> td_enum_spec def = Some es \<and> es_extensible es \<and> n = enum_root_count es \<or>
      td_per_handler def = Some H_Choice \<and> td_choice_spec def = Some cs \<and> 0 \<le> cs_ext_at cs \<and> n = choice_root_count cs \<and>
        dest = V_Choice p storage"
    and "0 < n" "n < 2 ^ 31"
  shows "per_decode \<Gamma> def dest (new_per_dec overflow_octets) = Inl (OutOfBounds (int n - 2 ^ 31 - 1))"
proof -
  obtain m where m: "kMaxDecodeDepth + 2 = Suc m" by simp
  define k where "k = (if depth_counts def then 1 else 0 :: nat)"
  have enter: "per_enter_depth def (new_per_dec overflow_octets) = (new_per_dec overflow_octets)\<lparr>pd_depth := k\<rparr>"
    by (simp add: per_enter_depth_def k_def new_per_dec_def)
  have k: "k \<le> 1" "\<not> k > kMaxDecodeDepth" by (simp_all add: k_def kMaxDecodeDepth_def)
  obtain d d' where d: "get_bits 1 ((new_per_dec overflow_octets)\<lparr>pd_depth := k\<rparr>) = Inr (1, d)" "get_nsnn d = Inr (2147483647, d')"
    using overflow_index [OF k(1)] by blast
  have sum: "i32_sum n 2147483647 = int n - 2 ^ 31 - 1"
    using i32_sum_overflow [of n 2147483647] assms(2,3) by simp
  show ?thesis
    using assms k(2) sum unfolding per_decode_def m
    by (auto simp: per_codec_decode_def enter per_handler_decode_def per_enum_decode_def per_choice_decode_def
        decode_choice_ext_def into_def d Let_def simp del: One_nat_def)
qed

lemma per_extension_index_overflow_witness:
  "per_decode rich_env sample_colour (V_Enum 0) (new_per_dec overflow_octets) = Inl (OutOfBounds (int 2 - 2 ^ 31 - 1)) \<and>
   per_decode rich_env sample_either (V_Choice 0 None) (new_per_dec overflow_octets) = Inl (OutOfBounds (int 1 - 2 ^ 31 - 1))"
proof
  show "per_decode rich_env sample_colour (V_Enum 0) (new_per_dec overflow_octets) = Inl (OutOfBounds (int 2 - 2 ^ 31 - 1))"
    by (rule per_extension_index_overflow [where es = "the (td_enum_spec sample_colour)" and
          cs = "the (td_choice_spec sample_either)" and p = 0 and storage = None]) (simp_all add: sample_colour_def builtin_desc_def enum_root_count_def)
  show "per_decode rich_env sample_either (V_Choice 0 None) (new_per_dec overflow_octets) = Inl (OutOfBounds (int 1 - 2 ^ 31 - 1))"
    by (rule per_extension_index_overflow [where es = "the (td_enum_spec sample_colour)" and
          cs = "the (td_choice_spec sample_either)" and p = 0 and storage = None]) (simp_all add: sample_either_def sample_pick_def choice_root_count_def)
qed

text \<open>
  Nesting past the limit is an error: a SEQUENCE, CHOICE or SEQUENCE OF met 256
  levels deep is rejected before any bit of it is read.
\<close>

theorem per_decode_depth_limit:
  assumes "depth_counts def" "pd_depth d = kMaxDecodeDepth"
  shows "per_decode \<Gamma> def dest d = Inl (DecodeError (depth_message def) 0)"
proof -
  obtain n where n: "kMaxDecodeDepth + 2 = Suc n" by simp
  show ?thesis
    using assms unfolding per_decode_def n by (simp add: per_codec_decode_def per_enter_depth_def)
qed

lemma per_decode_depth_limit_witness:
  "per_decode rich_env sample_rich rich_new ((new_per_dec [0])\<lparr>pd_depth := 256\<rparr>)
     = Inl (DecodeError (depth_message sample_rich) 0)"
  by (rule per_decode_depth_limit) (simp_all add: rich_handlers kMaxDecodeDepth_def)

text \<open>
  C34: whatever is encoded, with whatever descriptor, the output stream keeps its
  invariant (fewer than 8 pending bits, the unused bits of the pending octet 0), keeps
  every bit it already held and never loses a failure that was signalled.
\<close>

theorem per_encode_stream_invariant:
  assumes "enc_ok s"
  shows "enc_ok (per_encode \<Gamma> def v s) \<and> prefix (enc_bits s) (enc_bits (per_encode \<Gamma> def v s))
    \<and> (pe_failed s \<longrightarrow> pe_failed (per_encode \<Gamma> def v s))"
  using codec_appendsD [OF per_encode_fuel_appends, of s s] assms
  by (simp add: per_encode_def grows_def del: per_encode_fuel.simps)

lemma per_encode_stream_invariant_witness:
  "enc_ok (per_encode rich_env sample_rich (V_Boolean True) new_per_enc)"
  by (rule per_encode_stream_invariant [THEN conjunct1]) simp

section \<open>Lengths and items\<close>

text \<open>
  An octet string of any length, fragmented in steps of 16384 octets where it has
  to be, is read back as it was written.
\<close>

theorem per_octets_roundtrip:
  "\<exists>d. get_octets (new_per_dec (pe_buf (per_flush (put_octets data new_per_enc)))) = Inr (data, d)"
  using octets.stream_roundtrip [of 0 data] by simp

text \<open>
  A count outside a non-extensible SIZE constraint is refused: the failure is
  signalled and nothing is written, not even the count.
\<close>

theorem per_size_violation:
  assumes "size_count_is_constrained pc" "\<not> has_flag pc EXTENSIBLE" "int n < size_lower pc \<or> int n > size_upper pc"
    and "enc_ok s"
  shows "pe_failed (encode_ext_size_and_items pc n items s)
    \<and> enc_bits (encode_ext_size_and_items pc n items s) = enc_bits s"
  using assms by (simp add: encode_ext_size_and_items_def encode_size_and_items_def per_set_encode_failed_def enc_bits_def)

lemma per_size_violation_witness:
  "pe_failed (encode_ext_size_and_items (sos_constraints (the (td_seq_of_spec sample_bytes))) 10 (\<lambda>i j s. s) new_per_enc)
    \<and> enc_bits (encode_ext_size_and_items (sos_constraints (the (td_seq_of_spec sample_bytes))) 10 (\<lambda>i j s. s) new_per_enc)
      = enc_bits new_per_enc"
  by (rule per_size_violation)
     (simp_all add: sample_bytes_def size_count_is_constrained_def has_flag_def no_constraints_def)

text \<open>Fragments of items whose number is bounded: more than one fragment is out of reach.\<close>

lemma fragments_bounded:
  assumes items: "\<And>m st d st' d'. items m st d = Inr (st', d') \<Longrightarrow> m \<le> lim \<and> length st' = length st + m"
    and lim: "lim < kFragmentUnit"
  shows "get_fragments fuel items tot st d = Inr ((n, st'), d') \<Longrightarrow> length st' \<le> length st + lim"
proof (induction fuel arbitrary: tot st d)
  case (Suc fuel)
  have big: False if "k * kFragmentUnit \<le> lim" "0 < k" for k
    using that lim by (cases k) auto
  from Suc.prems show ?case
    by (auto simp: rbind_eq_Inr Let_def split: if_splits dest!: items dest: big)
qed simp

lemma ext_size_bounded:
  assumes items: "\<And>m st d st' d'. items m st d = Inr (st', d') \<Longrightarrow> m \<le> lim \<and> length st' = length st + m"
    and lim: "lim < kFragmentUnit"
    and ok: "decode_ext_size_and_items pc items st d = Inr ((n, st'), d')"
  shows "length st' \<le> length st + lim"
proof -
  have general: "length st' \<le> length st + lim" if "get_length_and_items items st d = Inr ((n, st'), d')" for d
    using that unfolding get_length_and_items_def
    by (rule fragments_bounded [where items = items, rotated 2]) (use items lim in blast)+
  have "length st' \<le> length st + lim" if "decode_size_and_items pc items st d = Inr ((n, st'), d')" for d
    using that general by (auto simp: decode_size_and_items_def rbind_eq_Inr split: if_splits dest!: items)
  with ok general show ?thesis
    by (auto simp: decode_ext_size_and_items_def rbind_eq_Inr split: if_splits)
qed

lemma read_elements_length: "read_elements codec edef m seq d = Inr (seq', d') \<Longrightarrow> length seq' = length seq + m"
  by (induction m arbitrary: seq d) (fastforce simp: rbind_eq_Inr)+

lemma zero_width_fragment:
  assumes "\<And>d v d'. codec edef (td_new edef) d = Inr (v, d') \<Longrightarrow> per_dec_bit_pos d' = per_dec_bit_pos d"
    and "read_fragment codec def edef m seq d = Inr (seq', d')"
  shows "m \<le> kMaxZeroWidthItems \<and> length seq' = length seq + m"
  using assms(2) by (auto simp: read_fragment_def Let_def rbind_eq_Inr split: if_splits dest: assms(1) dest!: read_elements_length)

text \<open>
  A SEQUENCE OF whose elements take no bits yields at most 200 elements, whatever
  count the input announces, so that a few octets cannot demand a large list.
\<close>

theorem per_zero_width_limit:
  assumes "td_seq_of_spec def = Some spec"
    and "\<And>d v d'. codec (\<Gamma> (sos_element spec)) (td_new (\<Gamma> (sos_element spec))) d = Inr (v, d')
           \<Longrightarrow> per_dec_bit_pos d' = per_dec_bit_pos d"
    and "per_seqof_decode codec \<Gamma> def dest d = Inr (V_SeqOf seq, d')"
  shows "length seq \<le> kMaxZeroWidthItems"
proof -
  obtain n where "decode_ext_size_and_items (sos_constraints spec)
      (read_fragment codec def (\<Gamma> (sos_element spec))) [] d = Inr ((n, seq), d')"
    using assms(1,3) by (auto simp: per_seqof_decode_def rbind_eq_Inr split: asn1_value.splits)
  from ext_size_bounded [OF zero_width_fragment [OF assms(2)] _ this] show ?thesis
    by (simp add: kMaxZeroWidthItems_def kFragmentUnit_def)
qed

lemma per_zero_width_limit_witness: "length [V_Null, V_Null] \<le> kMaxZeroWidthItems"
proof (rule per_zero_width_limit)
  show "td_seq_of_spec (sample_seqof ''Nulls'' UT_Sequence ''NULL'') = Some \<lparr>sos_element = ''NULL'', sos_constraints = no_constraints, sos_element_xer_tag = None\<rparr>"
    by (simp add: sample_seqof_def)
  show "per_dec_bit_pos d' = per_dec_bit_pos d"
    if "per_decode_fuel 1 rich_env (rich_env (sos_element \<lparr>sos_element = ''NULL'', sos_constraints = no_constraints, sos_element_xer_tag = None\<rparr>))
        (td_new (rich_env (sos_element \<lparr>sos_element = ''NULL'', sos_constraints = no_constraints, sos_element_xer_tag = None\<rparr>))) d = Inr (v, d')" for d v d'
    using that
    by (auto simp: rich_env_def sample_env_def asn_DEF_Null_def builtin_desc_def per_codec_decode_def per_handler_decode_def
        per_enter_depth_def depth_counts_def per_dec_bit_pos_def)
  show "per_seqof_decode (per_decode_fuel 1 rich_env) rich_env (sample_seqof ''Nulls'' UT_Sequence ''NULL'') (V_SeqOf [])
      (new_per_dec [2]) = Inr (V_SeqOf [V_Null, V_Null], \<lparr>pd_buf = [2], pd_byte_pos = 1, pd_bit_pos = 0, pd_skipped = 0, pd_depth = 0\<rparr>)"
    by code_simp
qed

section \<open>Numbers and enumerations\<close>

text \<open>
  An INTEGER with a range takes exactly the bits of its range, holding the
  distance from the lower bound, and is read back from any stream that holds them.
\<close>

theorem per_constrained_integer:
  assumes "int_constraint_wf pc" "has_flag pc CONSTRAINED" "\<not> has_flag pc EXTENSIBLE"
    and "lower_bound pc \<le>s v" "v \<le>s upper_bound pc" "enc_ok s"
    and "dec_ok d" "dec_bits d = word_bits (range_bits pc) (v - lower_bound pc) @ rest"
  shows "enc_bits (per_integer_encode pc v s) = enc_bits s @ word_bits (range_bits pc) (v - lower_bound pc)
    \<and> per_integer_decode pc d = Inr (v, advance (range_bits pc) d)"
proof (intro conjI)
  have "uint (v - lower_bound pc) < 2 ^ range_bits pc"
    using uint_diff_sint [OF assms(4)] assms(1,2,4,5) by (simp add: int_constraint_wf_def word_sle_eq)
  moreover have "range_bits pc \<le> 64" using assms(1,2) by (simp add: int_constraint_wf_def)
  ultimately have "per_integer_decode pc d = Inr (lower_bound pc + (v - lower_bound pc), advance (range_bits pc) d)"
    using assms(2,3,8) get_bits_take [OF assms(7), of "range_bits pc"]
    by (simp add: per_integer_decode_def get_ext_bit_def bits_value_word_bits take_bit_u64_less)
  then show "per_integer_decode pc d = Inr (v, advance (range_bits pc) d)" by simp
  show "enc_bits (per_integer_encode pc v s) = enc_bits s @ word_bits (range_bits pc) (v - lower_bound pc)"
    using assms(2,3) emit_bits_ok [OF assms(6)] by (simp add: per_integer_encode_def put_ext_bit_def put_bits_emit)
qed

lemma per_constrained_integer_witness:
  "enc_bits (per_integer_encode (td_constraints sample_byte) 7 new_per_enc)
      = enc_bits new_per_enc @ word_bits (range_bits (td_constraints sample_byte)) (7 - lower_bound (td_constraints sample_byte))
    \<and> per_integer_decode (td_constraints sample_byte) (new_per_dec [7])
      = Inr (7, advance (range_bits (td_constraints sample_byte)) (new_per_dec [7]))"
proof (rule per_constrained_integer)
  show "dec_bits (new_per_dec [7]) = word_bits (range_bits (td_constraints sample_byte))
      (7 - lower_bound (td_constraints sample_byte)) @ []" by code_simp
qed (simp_all add: sample_byte_def int_constraint_wf_def has_flag_def no_constraints_def word_sle_eq new_per_dec_def dec_ok_def)

lemma enum_search_negative: "0 \<le> lo \<Longrightarrow> enum_search es v lo hi < 0 \<Longrightarrow> enum_search es v lo hi = - 1"
proof (induction "nat (hi - lo + 1)" arbitrary: lo hi rule: less_induct)
  case less
  let ?m = "(lo + hi) div 2"
  note unfold = enum_search.simps [of es v lo hi]
  show ?case
  proof (cases "lo \<le> hi")
    case True
    then have m: "0 \<le> ?m" "lo \<le> ?m" "?m \<le> hi" using less.prems(1) by auto
    have "nat (hi - (?m + 1) + 1) < nat (hi - lo + 1)" "nat (?m - 1 - lo + 1) < nat (hi - lo + 1)"
      using m True by linarith+
    note right = less.hyps [OF this(1)] and left = less.hyps [OF this(2)]
    consider "enum_search es v lo hi = ?m" | "enum_search es v lo hi = enum_search es v (?m + 1) hi"
      | "enum_search es v lo hi = enum_search es v lo (?m - 1)"
      using True unfolding unfold Let_def by (metis (full_types))
    then show ?thesis
    proof cases
      case 1
      with m(1) less.prems(2) show ?thesis by linarith
    next
      case 2
      then show ?thesis using right m(1) less.prems by simp
    next
      case 3
      then show ?thesis using left less.prems by simp
    qed
  qed (simp add: unfold)
qed

text \<open>
  The binary search of ENUMERATED agrees with a search from the front of the
  sorted table: it finds a value exactly when the table has it, and at its row.
\<close>

theorem enum_search_linear:
  assumes "enum_sorted es"
  shows "enum_search es v 0 (int (length es) - 1) =
    (case List.find (\<lambda>i. ee_value (es ! i) = v) [0..<length es] of None \<Rightarrow> - 1 | Some i \<Rightarrow> int i)"
proof (cases "List.find (\<lambda>i. ee_value (es ! i) = v) [0..<length es]")
  case None
  then have no: "ee_value (es ! i) \<noteq> v" if "i < length es" for i using that by (auto simp: find_None_iff)
  let ?k = "enum_search es v 0 (int (length es) - 1)"
  have "?k < 0"
  proof (rule ccontr)
    assume "\<not> ?k < 0"
    then have "?k \<le> int (length es) - 1" "0 \<le> ?k" "ee_value (es ! nat ?k) = v"
      using enum_search_sound [of 0 es v "int (length es) - 1"] by simp_all
    moreover from this have "nat ?k < length es" by linarith
    ultimately show False using no [of "nat ?k"] by simp
  qed
  with None show ?thesis by (simp add: enum_search_negative)
next
  case (Some i)
  then have "i < length es" "ee_value (es ! i) = v" by (auto simp: find_Some_iff)
  with Some enum_search_finds [OF assms, of i 0 "int (length es) - 1"] show ?thesis by auto
qed

lemma enum_search_linear_witness:
  "enum_search (es_entries (the (td_enum_spec sample_colour))) 2 0 2 = 1"
proof -
  have "enum_sorted (es_entries (the (td_enum_spec sample_colour)))"
    by (simp add: sample_colour_def enum_sorted_def word_sless_alt)
  from enum_search_linear [OF this, of 2] show ?thesis by (simp add: sample_colour_def upt_rec numeral_3_eq_3)
qed

section \<open>Values that are not sent as they are\<close>

text \<open>
  C35: an ENUMERATED value that is in no entry of an extensible type is not refused:
  it is written bit for bit as the first extension value, so that the receiver
  decodes another value without notice.
\<close>

theorem per_enum_unknown_value:
  assumes "enum_wf spec" "es_extensible spec" "enum_root_count spec < length (es_entries spec)"
    and "v \<notin> ee_value ` set (es_entries spec)"
  shows "per_enum_encode spec v s = per_enum_encode spec (ee_value (es_entries spec ! enum_root_count spec)) s"
proof -
  let ?es = "es_entries spec"
  let ?hi = "int (length ?es) - 1"
  have "enum_search ?es v 0 ?hi < 0"
  proof (rule ccontr)
    assume "\<not> enum_search ?es v 0 ?hi < 0"
    then have k: "enum_search ?es v 0 ?hi \<le> ?hi" "0 \<le> enum_search ?es v 0 ?hi" "ee_value (?es ! nat (enum_search ?es v 0 ?hi)) = v"
      using enum_search_sound [of 0 ?es v ?hi] by simp_all
    then have "nat (enum_search ?es v 0 ?hi) < length ?es" by linarith
    with k(3) assms(4) show False by (metis image_eqI nth_mem)
  qed
  then have "enum_search ?es v 0 ?hi = - 1" by (simp add: enum_search_negative)
  moreover have "enum_search ?es (ee_value (?es ! enum_root_count spec)) 0 ?hi = int (enum_root_count spec)"
    using assms by (intro enum_search_finds) (auto simp: enum_wf_def)
  ultimately show ?thesis by (simp add: per_enum_encode_def Let_def)
qed

lemma per_enum_unknown_value_witness:
  "per_enum_encode (the (td_enum_spec sample_colour)) 77 new_per_enc
     = per_enum_encode (the (td_enum_spec sample_colour)) 5 new_per_enc"
  using per_enum_unknown_value [of "the (td_enum_spec sample_colour)" 77 new_per_enc]
  by (simp add: sample_colour_def enum_wf_def enum_sorted_def enum_root_count_def word_sless_alt)

lemma foldl_put_octets:
  "foldl (\<lambda>s i. put_bits (ucast (f i)) 8 s) s is = emit_bits (bits_of_octets (map f is)) s" for f :: "nat \<Rightarrow> byte"
  by (induction "is" arbitrary: s)
     (simp_all add: put_bits_emit bits_of_octet_word emit_bits_append bits_of_octets_Cons bits_of_octets_def del: word_bits.simps)

text \<open>
  An OBJECT IDENTIFIER whose contents take 128 to 255 octets loses its end: the
  first length octet of the BER encoding is taken for the length, so 129 is announced
  and the last octets are dropped, without a failure.
\<close>

theorem per_oid_long_contents:
  assumes "128 \<le> length (encode_oid arcs)" "length (encode_oid arcs) < 256" "enc_ok s"
  shows "enc_bits (per_oid_encode arcs s) = enc_bits s @ length_bits 129
      @ bits_of_octets (of_nat (length (encode_oid arcs)) # take 128 (encode_oid arcs))
    \<and> pe_failed (per_oid_encode arcs s) = pe_failed s"
proof -
  let ?c = "encode_oid arcs"
  have ne: "?c \<noteq> []" using assms(1) by auto
  have ber: "bw_buf (write_primitive (universal UT_Oid False) ?c new_writer) = 6 # 0x81 # of_nat (length ?c) # ?c"
  proof -
    have "octets_le (length ?c) = [of_nat (length ?c)]"
      using assms(1,2) ne by (simp add: octets_le.simps [of "length ?c"])
    then show ?thesis
      using assms(1) by (simp add: writer_simps new_writer_def tlv_octets_def tag_octets_def length_octets_def
          universal_def first_tag_octet_def)
  qed
  have "map (\<lambda>i. (6 # 0x81 # of_nat (length ?c) # ?c) ! (2 + i)) [0..<129] = of_nat (length ?c) # take 128 ?c"
    by (rule nth_equalityI) (use assms(1) in \<open>auto simp: nth_Cons' nth_append\<close>)
  then have "per_oid_encode arcs s = emit_bits (length_bits 129 @ bits_of_octets (of_nat (length ?c) # take 128 ?c)) s"
    by (simp add: per_oid_encode_def encode_ber_content_def ber Let_def foldl_put_octets appendsD [OF appends_put_length]
        emit_bits_append)
  then show ?thesis using emit_bits_ok [OF assms(3)] by simp
qed

lemma per_oid_long_contents_witness:
  "enc_bits (per_oid_encode ([1, 2] @ replicate 127 1) new_per_enc) = enc_bits new_per_enc @ length_bits 129
      @ bits_of_octets (of_nat (length (encode_oid ([1, 2] @ replicate 127 1))) # take 128 (encode_oid ([1, 2] @ replicate 127 1)))
    \<and> pe_failed (per_oid_encode ([1, 2] @ replicate 127 1) new_per_enc) = pe_failed new_per_enc"
proof (rule per_oid_long_contents)
  show "128 \<le> length (encode_oid ([1, 2] @ replicate 127 1))" "length (encode_oid ([1, 2] @ replicate 127 1)) < 256"
    by code_simp+
qed simp

text \<open>Items that agree inside the count are the same items.\<close>

lemma put_length_and_items_cong:
  "(\<And>i j s. j \<le> n \<Longrightarrow> items i j s = items' i j s) \<Longrightarrow>
     put_length_and_items_from n items start s = put_length_and_items_from n items' start s"
proof (induction n items start s rule: put_length_and_items_from.induct)
  case (1 n items start s)
  let ?k = "min ((n - start) div kFragmentUnit) 4"
  show ?case
  proof (cases "n - start < kFragmentUnit")
    case True
    then show ?thesis using "1.prems" by (simp add: put_length_and_items_from.simps [of n _ start])
  next
    case False
    have "start + ?k * kFragmentUnit \<le> n"
    proof -
      have "?k * kFragmentUnit \<le> (n - start) div kFragmentUnit * kFragmentUnit" by (rule mult_le_mono1) simp
      also have "\<dots> \<le> n - start" by (rule div_times_less_eq_dividend)
      finally show ?thesis using False unfolding kFragmentUnit_def by linarith
    qed
    then show ?thesis
      using "1.IH" [OF refl False refl] "1.prems" False
      by (simp add: put_length_and_items_from.simps [of n _ start] Let_def)
  qed
qed

lemma encode_size_and_items_cong:
  "(\<And>i j s. j \<le> n \<Longrightarrow> items i j s = items' i j s) \<Longrightarrow> encode_size_and_items pc n items s = encode_size_and_items pc n items' s"
  by (auto simp: encode_size_and_items_def put_length_and_items_def intro: put_length_and_items_cong)

definition digit_or_space :: "byte \<Rightarrow> byte" where
  "digit_or_space c = (if 0x30 \<le>s c \<and> c \<le>s 0x39 then c else 0x20)"

text \<open>
  A NumericString with an extensible SIZE and no FROM constraint is not checked
  against its alphabet: a string of permitted size is accepted whatever it holds, and
  every character that is not a digit is sent as a space.
\<close>

theorem per_numeric_string_unchecked:
  assumes "has_flag pc EXTENSIBLE" "\<not> has_flag pc PER_SIZE_INVISIBLE" "alphabet_bits pc = 0"
    "size_lower pc \<le> int (length str)" "int (length str) \<le> size_upper pc"
  shows "per_string_encode UT_NumericString pc str s = per_string_encode UT_NumericString pc (map digit_or_space str) s"
proof -
  have params: "string_params UT_NumericString = (4, 1)" by (simp add: string_params_def)
  have char: "encode_numeric_char (digit_or_space c) = encode_numeric_char c" for c
    by (simp add: encode_numeric_char_def digit_or_space_def)
  have items: "write_chars pc 4 1 str i j s = write_chars pc 4 1 (map digit_or_space str) i j s" if "j \<le> length str" for i j s
    unfolding write_chars_def using that assms(3)
    by (intro foldl_cong) (auto simp: write_char_def has_alpha_def Let_def char)
  have "string_encode_root UT_NumericString pc str s = string_encode_root UT_NumericString pc (map digit_or_space str) s" for s
    using assms(1,3) by (simp add: string_encode_root_def params has_alpha_def) (rule encode_size_and_items_cong, rule items [unfolded One_nat_def])
  then show ?thesis
    using assms by (simp add: per_string_encode_def params has_alpha_def)
qed

lemma per_numeric_string_unchecked_witness:
  "per_string_encode UT_NumericString (no_constraints\<lparr>c_flags := EXTENSIBLE OR SIZE_CONSTRAINED, size_upper := 9\<rparr>) [0x41] new_per_enc
    = per_string_encode UT_NumericString (no_constraints\<lparr>c_flags := EXTENSIBLE OR SIZE_CONSTRAINED, size_upper := 9\<rparr>) [0x20] new_per_enc"
  using per_numeric_string_unchecked
    [of "no_constraints\<lparr>c_flags := EXTENSIBLE OR SIZE_CONSTRAINED, size_upper := 9\<rparr>" "[0x41]" new_per_enc]
  by (simp add: has_flag_def no_constraints_def digit_or_space_def word_sle_eq)

end
