(* ===== verification/Per_Set_Of.thy ===== *)
theory Per_Set_Of
  imports Per_Results "HOL-Library.Multiset"
begin

text \<open>
  The canonical order of SET OF in PER (\<open>sorted_set_of_elements\<close> of \<open>PerCodec.cpp\<close>). The
  comparator pads the shorter encoding with 0 octets, so it is the order of the
  encodings read as numbers of a common width; it is a total order on the elements
  because no encoding is the beginning of another one.
\<close>

section \<open>Padded octets as numbers\<close>

fun octval :: "nat \<Rightarrow> byte list \<Rightarrow> nat" where
  "octval 0 a = 0"
| "octval (Suc n) [] = 0"
| "octval (Suc n) (x # xs) = unat x * 256 ^ n + octval n xs"

lemma octval_Nil [simp]: "octval n [] = 0"
  by (cases n) simp_all

lemma octval_bound: "octval n a < 256 ^ n"
proof (induction n a rule: octval.induct)
  case (3 n x xs)
  have "unat x < 256" by (rule unat_byte_less)
  then have le: "(unat x + 1) * 256 ^ n \<le> 256 * 256 ^ n" by (intro mult_right_mono) linarith+
  have "unat x * 256 ^ n + octval n xs < (unat x + 1) * 256 ^ n" using 3 by simp
  from less_le_trans [OF this le] show ?case by simp
qed simp_all

lemma octval_Cons_less:
  "unat (x :: byte) * 256 ^ n + octval n xs < unat (y :: byte) * 256 ^ n + octval n ys \<longleftrightarrow>
     x < y \<or> (x = y \<and> octval n xs < octval n ys)"
proof -
  have less: "unat a * 256 ^ n + octval n as < unat b * 256 ^ n + octval n bs" if "a < b" for a b :: byte and as bs
  proof -
    have "(unat a + 1) * 256 ^ n \<le> unat b * 256 ^ n" using that by (intro mult_right_mono) (simp_all add: word_less_nat_alt)
    with octval_bound [of n as] show ?thesis by simp
  qed
  show ?thesis
    using less [of x y xs ys] less [of y x ys xs] by (cases x y rule: linorder_cases) auto
qed

lemma octets_padded_less_octval:
  "length a \<le> n \<Longrightarrow> length b \<le> n \<Longrightarrow> octets_padded_less a b \<longleftrightarrow> octval n a < octval n b"
proof (induction a b arbitrary: n rule: octets_padded_less.induct)
  case (2 x xs)
  then obtain m where "n = Suc m" by (cases n) auto
  with 2 show ?case by auto
next
  case (3 y ys)
  then obtain m where n: "n = Suc m" by (cases n) auto
  have "0 < unat y \<longleftrightarrow> y \<noteq> 0" by (simp add: unat_gt_0)
  with 3 n show ?case by (auto simp: word_gt_0)
next
  case (4 x xs y ys)
  then obtain m where "n = Suc m" by (cases n) auto
  with 4 show ?case by (auto simp: octval_Cons_less)
qed simp

text \<open>Equal numbers: equal octets, up to 0 octets at the end.\<close>

lemma octval_zero: "length a \<le> n \<Longrightarrow> octval n a = 0 \<Longrightarrow> a = replicate (length a) 0"
  by (induction n a rule: octval.induct) (auto simp: unat_eq_0)

lemma octval_inj:
  "length a \<le> n \<Longrightarrow> length b \<le> n \<Longrightarrow> octval n a = octval n b \<Longrightarrow>
     a @ replicate (n - length a) 0 = b @ replicate (n - length b) 0"
proof (induction n arbitrary: a b)
  case (Suc n)
  have cons: "x = y \<and> octval n xs = octval n ys"
    if "unat x * 256 ^ n + octval n xs = unat y * 256 ^ n + octval n ys" for x y :: byte and xs ys
    using that octval_Cons_less [of x n xs y ys] octval_Cons_less [of y n ys x xs] by (cases x y rule: linorder_cases) auto
  show ?case
  proof (cases a)
    case Nil
    then have "octval (Suc n) b = 0" using Suc.prems(3) by simp
    then have "b = replicate (length b) 0" using octval_zero Suc.prems(2) by blast
    then have "b @ replicate (Suc n - length b) 0 = replicate (length b + (Suc n - length b)) 0"
      by (metis replicate_add)
    with Nil Suc.prems(2) show ?thesis by simp
  next
    case (Cons x xs)
    show ?thesis
    proof (cases b)
      case Nil
      then have "octval (Suc n) a = 0" using Suc.prems(3) by simp
      then have "a = replicate (length a) 0" using octval_zero Suc.prems(1) by blast
      then have "a @ replicate (Suc n - length a) 0 = replicate (length a + (Suc n - length a)) 0"
        by (metis replicate_add)
      with Nil Suc.prems(1) show ?thesis by simp
    next
      case (Cons y ys)
      have e: "x = y \<and> octval n xs = octval n ys"
        using Suc.prems(3) unfolding \<open>a = x # xs\<close> Cons octval.simps by (rule cons)
      then have "xs @ replicate (n - length xs) 0 = ys @ replicate (n - length ys) 0"
        using Suc.prems(1,2) \<open>a = x # xs\<close> Cons by (intro Suc.IH) simp_all
      with e show ?thesis unfolding \<open>a = x # xs\<close> Cons by simp
    qed
  qed
qed simp

text \<open>\<open>std::stable_sort\<close> with the comparator is the library's sort by that number.\<close>

lemma insert_stable_insort:
  "(\<And>y. y \<in> set ys \<Longrightarrow> lt y x \<longleftrightarrow> k y < (k x :: nat)) \<Longrightarrow> insert_stable lt x ys = insort_key k x ys"
  by (induction ys) (auto simp: not_less)

lemma stable_sort_sort_key:
  "(\<And>x y. x \<in> set xs \<Longrightarrow> y \<in> set xs \<Longrightarrow> lt x y \<longleftrightarrow> k x < (k y :: nat)) \<Longrightarrow> stable_sort lt xs = sort_key k xs"
proof (induction xs)
  case (Cons x xs)
  have "stable_sort lt (x # xs) = insert_stable lt x (sort_key k xs)"
    using Cons by (simp add: stable_sort_def)
  also have "\<dots> = insort_key k x (sort_key k xs)"
    using Cons.prems by (intro insert_stable_insort) simp
  finally show ?case by simp
qed (simp add: stable_sort_def)

section \<open>The elements of a SET OF\<close>

lemma bits_of_octets_replicate: "bits_of_octets (replicate n 0) = replicate (8 * n) False"
proof (induction n)
  case (Suc n)
  have "octet_bits 0 = replicate 8 False" by (simp add: numeral_eq_Suc)
  with Suc show ?case by (simp add: bits_of_octets_Cons replicate_add [symmetric] del: word_bits.simps)
qed (simp add: bits_of_octets_def)

lemma padded_bits_prefix:
  assumes "a @ replicate m False = b @ replicate n False" "length a \<le> length b"
  shows "prefix a b"
proof -
  have "take (length a) (b @ replicate n False) = a" using assms(1) by (metis append_eq_conv_conj)
  with assms(2) show ?thesis by (metis append_eq_append_conv_if append_take_drop_id prefix_def take_append take_all_iff le_add_diff_inverse2 diff_is_0_eq' take_0 append_Nil2)
qed

definition set_element :: "type_env \<Rightarrow> type_desc \<Rightarrow> asn1_value \<Rightarrow> encoded_element" where
  "set_element \<Gamma> edef v = fst (encode_element (per_encode \<Gamma>) edef v)"

definition set_elements_ok :: "type_env \<Rightarrow> type_desc \<Rightarrow> asn1_value list \<Rightarrow> bool" where
  "set_elements_ok \<Gamma> edef vs \<longleftrightarrow> (\<forall>v \<in> set vs. sendable \<Gamma> edef v \<and> height v \<le> kMaxDecodeDepth)"

lemma element_octets:
  assumes "env_wf \<Gamma>" "sendable \<Gamma> (\<Gamma> t) v" "height v \<le> kMaxDecodeDepth"
  shows "\<exists>pad. bits_of_octets (el_bytes (set_element \<Gamma> (\<Gamma> t) v)) = bits_of (per_encode \<Gamma>) (\<Gamma> t) v @ replicate pad False"
    and "\<not> snd (encode_element (per_encode \<Gamma>) (\<Gamma> t) v)"
proof -
  obtain bs where bs: "appends (per_encode \<Gamma> (\<Gamma> t) v) bs"
    using per.contract [of \<Gamma> "\<Gamma> t" "td_new (\<Gamma> t)" v] assms new_shaped by blast
  have "el_bytes (set_element \<Gamma> (\<Gamma> t) v) = per_bytes bs"
    by (simp add: set_element_def encode_element_def Let_def appendsD [OF bs] per_bytes_def)
  then show "\<exists>pad. bits_of_octets (el_bytes (set_element \<Gamma> (\<Gamma> t) v)) = bits_of (per_encode \<Gamma>) (\<Gamma> t) v @ replicate pad False"
    using per_bytes_bits [of bs] appends_bits [OF bs] by (simp add: bits_of_def)
  show "\<not> snd (encode_element (per_encode \<Gamma>) (\<Gamma> t) v)" using encode_element_appends(2) [of "per_encode \<Gamma>" "\<Gamma> t" v, OF bs] .
qed

lemma element_inj:
  assumes "env_wf \<Gamma>" "sendable \<Gamma> (\<Gamma> t) v" "height v \<le> kMaxDecodeDepth" "sendable \<Gamma> (\<Gamma> t) w" "height w \<le> kMaxDecodeDepth"
    and "length (el_bytes (set_element \<Gamma> (\<Gamma> t) v)) \<le> n" "length (el_bytes (set_element \<Gamma> (\<Gamma> t) w)) \<le> n"
    and "octval n (el_bytes (set_element \<Gamma> (\<Gamma> t) v)) = octval n (el_bytes (set_element \<Gamma> (\<Gamma> t) w))"
  shows "v = w"
proof -
  let ?b = "bits_of (per_encode \<Gamma>) (\<Gamma> t)"
  let ?o = "\<lambda>v. el_bytes (set_element \<Gamma> (\<Gamma> t) v)"
  obtain p where p: "bits_of_octets (?o v) = ?b v @ replicate p False" using element_octets(1) [OF assms(1-3)] by blast
  obtain q where q: "bits_of_octets (?o w) = ?b w @ replicate q False" using element_octets(1) [OF assms(1,4,5)] by blast
  from arg_cong [OF octval_inj [OF assms(6-8)], of bits_of_octets]
  have "?b v @ replicate (p + 8 * (n - length (?o v))) False = ?b w @ replicate (q + 8 * (n - length (?o w))) False"
    by (simp add: bits_of_octets_append bits_of_octets_replicate p q replicate_add)
  then consider "prefix (?b v) (?b w)" | "prefix (?b w) (?b v)"
    using padded_bits_prefix by (metis nat_le_linear)
  then show ?thesis
  proof cases
    case 1
    then show ?thesis
      using per.prefix_free [of \<Gamma> "\<Gamma> t" "td_new (\<Gamma> t)" v w] assms(1-5) new_shaped by (simp add: bits_of_def)
  next
    case 2
    then show ?thesis
      using per.prefix_free [of \<Gamma> "\<Gamma> t" "td_new (\<Gamma> t)" w v] assms(1-5) new_shaped by (simp add: bits_of_def)
  qed
qed

text \<open>The order of the elements, at a width that holds all of them.\<close>

definition set_width :: "type_env \<Rightarrow> type_desc \<Rightarrow> asn1_value list \<Rightarrow> nat" where
  "set_width \<Gamma> edef vs = sum_list (map (\<lambda>v. length (el_bytes (set_element \<Gamma> edef v))) vs)"

definition set_key :: "type_env \<Rightarrow> type_desc \<Rightarrow> asn1_value list \<Rightarrow> asn1_value \<Rightarrow> nat" where
  "set_key \<Gamma> edef vs v = octval (set_width \<Gamma> edef vs) (el_bytes (set_element \<Gamma> edef v))"

lemma set_width_bound: "v \<in> set vs \<Longrightarrow> length (el_bytes (set_element \<Gamma> edef v)) \<le> set_width \<Gamma> edef vs"
  unfolding set_width_def by (rule member_le_sum_list) auto

lemma set_key_inj:
  assumes "env_wf \<Gamma>" "set_elements_ok \<Gamma> (\<Gamma> t) vs"
  shows "inj_on (set_key \<Gamma> (\<Gamma> t) vs) (set vs)"
  using assms(2) unfolding inj_on_def set_key_def set_elements_ok_def
  by (auto intro: element_inj [OF assms(1)] set_width_bound)

lemma sort_key_map: "sort_key k (map f xs) = map f (sort_key (\<lambda>x. k (f x)) xs)"
proof -
  have "insort_key k (f x) (map f ys) = map f (insort_key (\<lambda>x. k (f x)) x ys)" for x ys by (induction ys) auto
  then show ?thesis by (induction xs) auto
qed

lemma sorted_elements:
  "stable_sort padded_less (map (set_element \<Gamma> edef) vs) = map (set_element \<Gamma> edef) (sort_key (set_key \<Gamma> edef vs) vs)"
proof -
  let ?k = "\<lambda>e. octval (set_width \<Gamma> edef vs) (el_bytes e)"
  have "stable_sort padded_less (map (set_element \<Gamma> edef) vs) = sort_key ?k (map (set_element \<Gamma> edef) vs)"
    by (rule stable_sort_sort_key) (auto simp: padded_less_def intro!: octets_padded_less_octval set_width_bound)
  also have "\<dots> = map (set_element \<Gamma> edef) (sort_key (set_key \<Gamma> edef vs) vs)"
    by (simp add: sort_key_map set_key_def [abs_def])
  finally show ?thesis .
qed

section \<open>One encoding per multiset\<close>

lemma set_key_mset:
  assumes "mset vs = mset ws"
  shows "set_key \<Gamma> edef vs = set_key \<Gamma> edef ws"
proof -
  have "set_width \<Gamma> edef vs = set_width \<Gamma> edef ws"
    unfolding set_width_def sum_mset_sum_list [symmetric] using assms by simp
  then show ?thesis by (simp add: set_key_def [abs_def])
qed

lemma sorted_set_mset:
  assumes "env_wf \<Gamma>" "set_elements_ok \<Gamma> (\<Gamma> t) vs" "mset vs = mset ws"
  shows "sorted_set_of_elements (per_encode \<Gamma>) (\<Gamma> t) vs s = sorted_set_of_elements (per_encode \<Gamma>) (\<Gamma> t) ws s"
proof -
  let ?k = "set_key \<Gamma> (\<Gamma> t) vs"
  have sets: "set vs = set ws" using assms(3) by (rule mset_eq_setD)
  have "sort_key ?k vs = sort_key ?k ws"
    using set_key_inj [OF assms(1,2)] assms(3) by (intro sort_key_inj_key_eq) (simp_all add: inj_on_def)
  then have "stable_sort padded_less (map (set_element \<Gamma> (\<Gamma> t)) vs) = stable_sort padded_less (map (set_element \<Gamma> (\<Gamma> t)) ws)"
    by (simp add: sorted_elements set_key_mset [OF assms(3)])
  then show ?thesis
    using sets by (simp add: sorted_set_of_elements_def set_element_def [abs_def] comp_def list_ex_iff)
qed

lemma set_of_encode_mset:
  assumes "env_wf \<Gamma>" "td_seq_of_spec def = Some spec" "number (builtin_tag def) = UT_Set"
    "set_elements_ok \<Gamma> (\<Gamma> (sos_element spec)) vs" "mset vs = mset ws"
  shows "per_seqof_encode (per_encode \<Gamma>) \<Gamma> def vs s = per_seqof_encode (per_encode \<Gamma>) \<Gamma> def ws s"
proof -
  have len: "length ws = length vs" using assms(5) by (metis size_mset)
  show ?thesis
  proof (cases "length vs > 1")
    case True
    let ?srt = "fst (sorted_set_of_elements (per_encode \<Gamma>) (\<Gamma> (sos_element spec)) vs s)"
    have "length ?srt = length vs"
      by (simp add: sorted_set_of_elements_def comp_def sorted_elements [unfolded set_element_def [abs_def]])
    with True have "?srt \<noteq> []" by auto
    then show ?thesis
      using sorted_set_mset [OF assms(1,4,5), of s] True len assms(2,3)
      by (auto simp: per_seqof_encode_def Let_def split: prod.splits)
  next
    case False
    then have "vs = ws"
      using assms(5) len by (cases vs; cases ws) auto
    then show ?thesis by simp
  qed
qed

text \<open>
  C32: the encoding of a SET OF does not depend on the order in which its elements are
  held: lists with the same elements, each as often, are encoded alike. The elements are ones
  that PER can send, nested no deeper than the limit.
\<close>

theorem per_set_of_canonical:
  assumes "env_wf \<Gamma>" "td_per_handler def = Some H_SeqOf" "td_seq_of_spec def = Some spec"
    "number (builtin_tag def) = UT_Set" "mset vs = mset ws"
    and "\<forall>v \<in> set vs. sendable \<Gamma> (\<Gamma> (sos_element spec)) v \<and> height v \<le> kMaxDecodeDepth"
  shows "per_encode \<Gamma> def (V_SeqOf vs) s = per_encode \<Gamma> def (V_SeqOf ws) s"
  using set_of_encode_mset [OF assms(1,3,4) _ assms(5)] assms(2,6)
  by (simp add: per_encode_unfold [of \<Gamma> def] per_handler_encode_def set_elements_ok_def)

lemma bytes_sendable: "sendable rich_env sample_byte (V_Integer 7)" "sendable rich_env sample_byte (V_Integer 3)"
  by (auto intro!: sendable_leaf simp: leaf_sendable_def int_constraint_wf_def int_permitted_def has_flag_def
      no_constraints_def Let_def word_sle_eq depth_counts_def rich_defs)

lemma bytes_desc:
  "td_per_handler sample_bytes = Some H_SeqOf"
  "td_seq_of_spec sample_bytes = Some \<lparr>sos_element = ''Byte'', sos_constraints = no_constraints
        \<lparr>c_flags := SIZE_CONSTRAINED, size_lower := 0, size_upper := 9, size_range_bits := 4\<rparr>, sos_element_xer_tag = None\<rparr>"
  "number (builtin_tag sample_bytes) = UT_Set"
  by (simp_all add: sample_bytes_def sample_seqof_def builtin_tag_def universal_def)

lemma per_set_of_canonical_witness:
  "per_encode rich_env sample_bytes (V_SeqOf [V_Integer 7, V_Integer 3]) new_per_enc
     = per_encode rich_env sample_bytes (V_SeqOf [V_Integer 3, V_Integer 7]) new_per_enc"
  by (rule per_set_of_canonical [OF env_wf_rich bytes_desc])
     (simp_all add: rich_env_simps bytes_sendable kMaxDecodeDepth_def)

lemma fold_max_le: "fold max xs a \<le> b \<longleftrightarrow> a \<le> b \<and> (\<forall>x \<in> set xs. x \<le> b)" for b :: nat
  by (induction xs arbitrary: a) auto

text \<open>
  C31: a SET OF whose elements are sendable arrives with the same elements, each as
  often, whatever their order was at the sender.
\<close>

theorem per_set_of_roundtrip:
  assumes "env_wf \<Gamma>" "td_per_handler def = Some H_SeqOf" "td_seq_of_spec def = Some spec"
    "number (builtin_tag def) = UT_Set" "size_wf (sos_constraints spec)"
    "size_permitted (sos_constraints spec) (length vs)" "length vs \<le> kMaxZeroWidthItems"
    "height (V_SeqOf vs) \<le> kMaxDecodeDepth" "shaped \<Gamma> def dest"
    and "\<forall>v \<in> set vs. sendable \<Gamma> (\<Gamma> (sos_element spec)) v"
  shows "\<exists>ws d. mset ws = mset vs
    \<and> per_decode \<Gamma> def dest (new_per_dec (per_encode_value \<Gamma> def (V_SeqOf vs))) = Inr (V_SeqOf ws, d)"
proof -
  let ?edef = "\<Gamma> (sos_element spec)"
  define ws where "ws = sort_key (set_key \<Gamma> ?edef vs) vs"
  have ms: "mset ws = mset vs" by (simp add: ws_def)
  have sets: "set ws = set vs" by (simp add: ws_def)
  have h: "height v \<le> kMaxDecodeDepth" if "v \<in> set vs" for v
    using height_element [OF that] assms(8) by linarith
  have height: "height (V_SeqOf ws) \<le> kMaxDecodeDepth"
  proof -
    have m: "kMaxDecodeDepth = Suc 255" by (simp add: kMaxDecodeDepth_def)
    show ?thesis
      using assms(8) sets unfolding m height.simps Suc_le_mono fold_max_le set_map ball_simps by simp
  qed
  have "sorted_wrt (\<lambda>a b. \<not> padded_less b a) (map (set_element \<Gamma> ?edef) ws)"
    unfolding sorted_wrt_map
  proof (rule sorted_wrt_mono_rel [rotated])
    show "sorted_wrt (\<lambda>x y. set_key \<Gamma> ?edef vs x \<le> set_key \<Gamma> ?edef vs y) ws"
      using sorted_sort_key [of "set_key \<Gamma> ?edef vs" vs] by (simp add: ws_def sorted_wrt_map)
    fix x y
    assume "x \<in> set ws" "y \<in> set ws" "set_key \<Gamma> ?edef vs x \<le> set_key \<Gamma> ?edef vs y"
    then show "\<not> padded_less (set_element \<Gamma> ?edef y) (set_element \<Gamma> ?edef x)"
      using octets_padded_less_octval [OF set_width_bound set_width_bound, of y vs x \<Gamma> ?edef] sets
      by (simp add: padded_less_def set_key_def not_less)
  qed
  then have "seqof_sendable (per_encode \<Gamma>) \<Gamma> def spec ws"
    using assms(5-7) ms by (simp add: seqof_sendable_def Let_def set_element_def [abs_def] ws_def)
  then have "sendable \<Gamma> def (V_SeqOf ws)"
    using assms(10) sets by (intro sendable_seqof [OF assms(2,3)]) auto
  from per.stream_roundtrip [of \<Gamma> def dest, OF _ order_refl, of "V_SeqOf ws"] this height assms(1,9)
  obtain d where "per_decode \<Gamma> def dest (new_per_dec (per_encode_value \<Gamma> def (V_SeqOf ws))) = Inr (V_SeqOf ws, d)"
    unfolding per_encode_value_def by blast
  moreover have "per_encode_value \<Gamma> def (V_SeqOf vs) = per_encode_value \<Gamma> def (V_SeqOf ws)"
    using set_of_encode_mset [OF assms(1,3,4) _ ms [symmetric], of new_per_enc] assms(2,10) h
    by (simp add: per_encode_value_def per_encode_unfold [of \<Gamma> def] per_handler_encode_def set_elements_ok_def)
  ultimately show ?thesis using ms by metis
qed

lemma per_set_of_roundtrip_witness:
  "\<exists>ws d. mset ws = mset [V_Integer 7, V_Integer 3]
    \<and> per_decode rich_env sample_bytes (V_SeqOf []) (new_per_dec (per_encode_value rich_env sample_bytes (V_SeqOf [V_Integer 7, V_Integer 3])))
      = Inr (V_SeqOf ws, d)"
  by (rule per_set_of_roundtrip [OF env_wf_rich bytes_desc])
     (auto simp: rich_env_simps bytes_sendable kMaxDecodeDepth_def kMaxZeroWidthItems_def size_wf_def size_permitted_def
       size_count_is_constrained_def has_flag_def no_constraints_def shaped_seqof_iff [OF bytes_desc(1,2)])

end
