(* ===== verification/Ber_Cursor.thy ===== *)
theory Ber_Cursor
  imports Ber_Reader
begin

text \<open>
  Lazy navigation in encoded data (\<open>codec/BerCursor.hpp\<close>, \<open>src/BerCursor.cpp\<close>): the
  cursor over sibling TLVs, the layer that caches its expansion, the path and the walk,
  and the mutable cursor that patches value octets in a shared buffer. The lemmas show
  that a header is all that a position depends on, so that the three ways to look at a
  buffer agree and a patch leaves the framing alone.
\<close>

section \<open>Cursors\<close>

definition cursor_tag_matches :: "tag \<Rightarrow> tag \<Rightarrow> bool" where
  "cursor_tag_matches a b \<longleftrightarrow> cls a = cls b \<and> number a = number b"

text \<open>The tag, the octets of the header and those of the value; \<open>None\<close> for \<open>false\<close>.\<close>

definition parse_buf :: "byte list \<Rightarrow> (tag \<times> nat \<times> nat) option" where
  "parse_buf buf =
     (if buf = [] then None
      else
        (case read_tlv (new_reader buf) of
           Inl _ \<Rightarrow> None
         | Inr (tlv, r) \<Rightarrow>
             if tlv_indefinite tlv then None
             else Some (tlv_tag tlv, br_pos r - length (tlv_value tlv), length (tlv_value tlv))))"

record ber_cursor =
  bc_buf :: "byte list"
  bc_tag :: tag
  bc_hdr :: nat
  bc_vlen :: nat
  bc_valid :: bool

definition invalid_cursor :: ber_cursor where
  "invalid_cursor = \<lparr>bc_buf = [], bc_tag = \<lparr>cls = Universal, number = 0, constructed = False\<rparr>,
     bc_hdr = 0, bc_vlen = 0, bc_valid = False\<rparr>"

text \<open>A failed parse leaves the members of the last TLV in place and only clears \<open>valid_\<close>.\<close>

definition cursor_parse :: "ber_cursor \<Rightarrow> ber_cursor" where
  "cursor_parse c =
     (case parse_buf (bc_buf c) of
        None \<Rightarrow> c\<lparr>bc_valid := False\<rparr>
      | Some (t, h, l) \<Rightarrow> c\<lparr>bc_tag := t, bc_hdr := h, bc_vlen := l, bc_valid := True\<rparr>)"

definition new_cursor :: "byte list \<Rightarrow> ber_cursor" where
  "new_cursor buf = cursor_parse (invalid_cursor\<lparr>bc_buf := buf\<rparr>)"

definition cursor_value :: "ber_cursor \<Rightarrow> byte list" where
  "cursor_value c = (if bc_valid c then take (bc_vlen c) (drop (bc_hdr c) (bc_buf c)) else [])"

definition cursor_next :: "ber_cursor \<Rightarrow> ber_cursor" where
  "cursor_next c =
     (if \<not> bc_valid c then c
      else
        let step = bc_hdr c + bc_vlen c in
        if length (bc_buf c) \<le> step then c\<lparr>bc_valid := False\<rparr>
        else cursor_parse (c\<lparr>bc_buf := drop step (bc_buf c)\<rparr>))"

text \<open>The loop of \<open>find\<close>; the octets left bound the rounds.\<close>

fun cursor_find_loop :: "nat \<Rightarrow> tag \<Rightarrow> ber_cursor \<Rightarrow> ber_cursor option" where
  "cursor_find_loop 0 t c = None"
| "cursor_find_loop (Suc n) t c =
     (if \<not> bc_valid c then Some invalid_cursor
      else if cursor_tag_matches (bc_tag c) t then Some c
      else cursor_find_loop n t (cursor_next c))"

definition cursor_find :: "tag \<Rightarrow> ber_cursor \<Rightarrow> ber_cursor option" where
  "cursor_find t c = cursor_find_loop (Suc (length (bc_buf c))) t c"

section \<open>Layers\<close>

record layer_entry =
  le_tag :: tag
  le_offset :: nat
  le_hdr :: nat
  le_vlen :: nat

record ber_layer =
  bl_data :: "byte list"
  bl_entries :: "layer_entry list"
  bl_expanded :: bool

definition new_layer :: "byte list \<Rightarrow> ber_layer" where
  "new_layer data = \<lparr>bl_data = data, bl_entries = [], bl_expanded = False\<rparr>"

definition cursor_enter :: "ber_cursor \<Rightarrow> ber_layer" where
  "cursor_enter c = new_layer (cursor_value c)"

text \<open>The scan of \<open>expand\<close>; it stops at the first TLV it cannot take.\<close>

function scan_entries :: "ber_reader \<Rightarrow> layer_entry list" where
  "scan_entries r =
     (if at_end r then []
      else
        (case read_tlv r of
           Inl _ \<Rightarrow> []
         | Inr (tlv, r') \<Rightarrow>
             if tlv_indefinite tlv then []
             else
               let total = br_pos r' - br_pos r
               in \<lparr>le_tag = tlv_tag tlv, le_offset = br_pos r, le_hdr = total - length (tlv_value tlv),
                   le_vlen = length (tlv_value tlv)\<rparr> # scan_entries r'))"
  by pat_completeness auto
termination
  by (relation "measure remaining") (auto intro!: advances_remaining dest: read_tlv_frame(1))

declare scan_entries.simps [simp del]

definition layer_expand :: "ber_layer \<Rightarrow> ber_layer" where
  "layer_expand l =
     (if bl_expanded l then l
      else l\<lparr>bl_expanded := True, bl_entries := bl_entries l @ scan_entries (new_reader (bl_data l))\<rparr>)"

fun find_entry :: "tag \<Rightarrow> layer_entry list \<Rightarrow> layer_entry option" where
  "find_entry t [] = None"
| "find_entry t (e # es) = (if cursor_tag_matches (le_tag e) t then Some e else find_entry t es)"

definition layer_find :: "tag \<Rightarrow> ber_layer \<Rightarrow> ber_cursor \<times> ber_layer" where
  "layer_find t l =
     (let l = layer_expand l in
      (case find_entry t (bl_entries l) of
         None \<Rightarrow> (invalid_cursor, l)
       | Some e \<Rightarrow> (new_cursor (drop (le_offset e) (bl_data l)), l)))"

text \<open>\<open>for_each\<close> with the state of its callable.\<close>

definition layer_for_each :: "('s \<Rightarrow> ber_cursor \<Rightarrow> 's) \<Rightarrow> 's \<Rightarrow> ber_layer \<Rightarrow> 's \<times> ber_layer" where
  "layer_for_each fn s l =
     (let l = layer_expand l in
      (foldl (\<lambda>s e. fn s (new_cursor (drop (le_offset e) (bl_data l)))) s (bl_entries l), l))"

definition layer_size :: "ber_layer \<Rightarrow> nat \<times> ber_layer" where
  "layer_size l = (let l = layer_expand l in (length (bl_entries l), l))"

section \<open>Path and walk\<close>

fun path_steps :: "byte list \<Rightarrow> tag list \<Rightarrow> ber_cursor option" where
  "path_steps cur [] = Some (new_cursor cur)"
| "path_steps cur [t] = cursor_find t (new_cursor cur)"
| "path_steps cur (t # ts) =
     (case cursor_find t (new_cursor cur) of
        None \<Rightarrow> None
      | Some c \<Rightarrow> if \<not> bc_valid c then Some invalid_cursor else path_steps (cursor_value c) ts)"

definition ber_path :: "byte list \<Rightarrow> tag list \<Rightarrow> ber_cursor option" where
  "ber_path buf path = path_steps buf path"

text \<open>
  \<open>ber_walk_impl\<close>: the loop over the siblings and the recursion into a constructed value.
  The visitor keeps its state in \<open>'s\<close>.
\<close>

fun walk_loop ::
    "nat \<Rightarrow> ('s \<Rightarrow> ber_cursor \<Rightarrow> int \<Rightarrow> 's) \<Rightarrow> int \<Rightarrow> int \<Rightarrow> 's \<Rightarrow> ber_cursor \<Rightarrow> 's option" where
  "walk_loop 0 visitor max_depth depth s c = None"
| "walk_loop (Suc n) visitor max_depth depth s c =
     (if \<not> bc_valid c then Some s
      else
        (case (if constructed (bc_tag c) \<and> (max_depth < 0 \<or> depth < max_depth)
               then walk_loop n visitor max_depth (depth + 1) (visitor s c depth) (new_cursor (cursor_value c))
               else Some (visitor s c depth)) of
           None \<Rightarrow> None
         | Some s \<Rightarrow> walk_loop n visitor max_depth depth s (cursor_next c)))"

definition ber_walk :: "byte list \<Rightarrow> ('s \<Rightarrow> ber_cursor \<Rightarrow> int \<Rightarrow> 's) \<Rightarrow> int \<Rightarrow> 's \<Rightarrow> 's option" where
  "ber_walk buf visitor max_depth s = walk_loop (Suc (length buf)) visitor max_depth 0 s (new_cursor buf)"

section \<open>Mutable cursors\<close>

text \<open>
  A mutable cursor is a window \<open>[mc_off, mc_off + mc_len)\<close> of a buffer that all cursors
  and layers over it share; the buffer is a store that is passed along.
\<close>

record ber_mutable_cursor =
  mc_off :: nat
  mc_len :: nat
  mc_tag :: tag
  mc_hdr :: nat
  mc_vlen :: nat
  mc_valid :: bool

definition window :: "byte list \<Rightarrow> nat \<Rightarrow> nat \<Rightarrow> byte list" where
  "window mem off len = take len (drop off mem)"

definition mutable_parse :: "byte list \<Rightarrow> ber_mutable_cursor \<Rightarrow> ber_mutable_cursor" where
  "mutable_parse mem c =
     (case parse_buf (window mem (mc_off c) (mc_len c)) of
        None \<Rightarrow> c\<lparr>mc_valid := False\<rparr>
      | Some (t, h, l) \<Rightarrow> c\<lparr>mc_tag := t, mc_hdr := h, mc_vlen := l, mc_valid := True\<rparr>)"

definition new_mutable_cursor :: "byte list \<Rightarrow> nat \<Rightarrow> nat \<Rightarrow> ber_mutable_cursor" where
  "new_mutable_cursor mem off len =
     mutable_parse mem \<lparr>mc_off = off, mc_len = len, mc_tag = \<lparr>cls = Universal, number = 0, constructed = False\<rparr>,
       mc_hdr = 0, mc_vlen = 0, mc_valid = False\<rparr>"

definition mutable_value :: "byte list \<Rightarrow> ber_mutable_cursor \<Rightarrow> byte list" where
  "mutable_value mem c = (if mc_valid c then window mem (mc_off c + mc_hdr c) (mc_vlen c) else [])"

definition mutable_next :: "byte list \<Rightarrow> ber_mutable_cursor \<Rightarrow> ber_mutable_cursor" where
  "mutable_next mem c =
     (if \<not> mc_valid c then c
      else
        let step = mc_hdr c + mc_vlen c in
        if mc_len c \<le> step then c\<lparr>mc_valid := False\<rparr>
        else mutable_parse mem (c\<lparr>mc_off := mc_off c + step, mc_len := mc_len c - step\<rparr>))"

text \<open>\<open>write_value\<close>: the result and the buffer after the \<open>memcpy\<close>.\<close>

definition write_value :: "byte list \<Rightarrow> ber_mutable_cursor \<Rightarrow> byte list \<Rightarrow> bool \<times> byte list" where
  "write_value mem c new_val =
     (if \<not> mc_valid c \<or> length new_val \<noteq> mc_vlen c then (False, mem)
      else
        let p = mc_off c + mc_hdr c
        in (True, take p mem @ new_val @ drop (p + mc_vlen c) mem))"

definition mutable_as_const :: "byte list \<Rightarrow> ber_mutable_cursor \<Rightarrow> ber_cursor" where
  "mutable_as_const mem c = new_cursor (window mem (mc_off c) (mc_len c))"

fun mutable_find_loop :: "nat \<Rightarrow> byte list \<Rightarrow> tag \<Rightarrow> ber_mutable_cursor \<Rightarrow> ber_mutable_cursor option option" where
  "mutable_find_loop 0 mem t c = None"
| "mutable_find_loop (Suc n) mem t c =
     (if \<not> mc_valid c then Some None
      else if cursor_tag_matches (mc_tag c) t then Some (Some c)
      else mutable_find_loop n mem t (mutable_next mem c))"

text \<open>\<open>find\<close>; the inner \<open>None\<close> is the invalid cursor.\<close>

definition mutable_find :: "byte list \<Rightarrow> tag \<Rightarrow> ber_mutable_cursor \<Rightarrow> ber_mutable_cursor option option" where
  "mutable_find mem t c = mutable_find_loop (Suc (mc_len c)) mem t c"

record ber_mutable_layer =
  ml_off :: nat
  ml_len :: nat
  ml_entries :: "layer_entry list"
  ml_expanded :: bool

definition new_mutable_layer :: "nat \<Rightarrow> nat \<Rightarrow> ber_mutable_layer" where
  "new_mutable_layer off len = \<lparr>ml_off = off, ml_len = len, ml_entries = [], ml_expanded = False\<rparr>"

definition mutable_enter :: "ber_mutable_cursor \<Rightarrow> ber_mutable_layer" where
  "mutable_enter c = (if mc_valid c then new_mutable_layer (mc_off c + mc_hdr c) (mc_vlen c) else new_mutable_layer 0 0)"

definition mutable_expand :: "byte list \<Rightarrow> ber_mutable_layer \<Rightarrow> ber_mutable_layer" where
  "mutable_expand mem l =
     (if ml_expanded l then l
      else l\<lparr>ml_expanded := True,
             ml_entries := ml_entries l @ scan_entries (new_reader (window mem (ml_off l) (ml_len l)))\<rparr>)"

definition entry_cursor :: "byte list \<Rightarrow> ber_mutable_layer \<Rightarrow> layer_entry \<Rightarrow> ber_mutable_cursor" where
  "entry_cursor mem l e = new_mutable_cursor mem (ml_off l + le_offset e) (ml_len l - le_offset e)"

definition mutable_layer_find :: "byte list \<Rightarrow> tag \<Rightarrow> ber_mutable_layer \<Rightarrow> ber_mutable_cursor option \<times> ber_mutable_layer" where
  "mutable_layer_find mem t l =
     (let l = mutable_expand mem l in (map_option (entry_cursor mem l) (find_entry t (ml_entries l)), l))"

text \<open>The callable of \<open>for_each\<close> may write through its cursor, so it passes the buffer along.\<close>

definition mutable_layer_for_each ::
    "(byte list \<Rightarrow> ber_mutable_cursor \<Rightarrow> byte list) \<Rightarrow> byte list \<Rightarrow> ber_mutable_layer \<Rightarrow> byte list \<times> ber_mutable_layer" where
  "mutable_layer_for_each fn mem l =
     (let l = mutable_expand mem l
      in (foldl (\<lambda>mem e. fn mem (entry_cursor mem l e)) mem (ml_entries l), l))"

definition mutable_layer_size :: "byte list \<Rightarrow> ber_mutable_layer \<Rightarrow> nat \<times> ber_mutable_layer" where
  "mutable_layer_size mem l = (let l = mutable_expand mem l in (length (ml_entries l), l))"

definition mutable_layer_as_const :: "byte list \<Rightarrow> ber_mutable_layer \<Rightarrow> ber_layer" where
  "mutable_layer_as_const mem l = new_layer (window mem (ml_off l) (ml_len l))"

section \<open>A header is all a position depends on\<close>

text \<open>The \<open>n\<close> octets from \<open>i\<close> in one list and from \<open>j\<close> in the other are the same.\<close>

definition agree :: "byte list \<Rightarrow> nat \<Rightarrow> byte list \<Rightarrow> nat \<Rightarrow> nat \<Rightarrow> bool" where
  "agree a i b j n \<longleftrightarrow> i + n \<le> length a \<and> j + n \<le> length b \<and> take n (drop i a) = take n (drop j b)"

lemma agree_nth:
  assumes "agree a i b j n" "k < n"
  shows "a ! (i + k) = b ! (j + k)" "i + k < length a" "j + k < length b"
proof -
  have "take n (drop i a) ! k = take n (drop j b) ! k" using assms(1) by (simp add: agree_def)
  then show "a ! (i + k) = b ! (j + k)" using assms by (simp add: agree_def)
  show "i + k < length a" "j + k < length b" using assms by (simp_all add: agree_def)
qed

lemma agree_slice:
  assumes "agree a i b j n" "k + m \<le> n"
  shows "agree a (i + k) b (j + k) m"
proof -
  have "take m (drop k (take n (drop i a))) = take m (drop k (take n (drop j b)))"
    using assms(1) by (simp add: agree_def)
  then have "take m (drop (i + k) a) = take m (drop (j + k) b)"
    using assms(2) by (simp add: drop_take min_absorb1 le_diff_conv2 add.commute)
  then show ?thesis using assms by (simp add: agree_def)
qed

lemma parse_long_tag_agree:
  "parse_long_tag k c cn a i num = (t, i') \<Longrightarrow> number t \<noteq> - 1 \<Longrightarrow> agree a i b j (i' - i) \<Longrightarrow>
   parse_long_tag k c cn b j num = (t, j + (i' - i)) \<and> i < i'"
proof (induction k arbitrary: i j num)
  case (Suc k)
  let ?num = "push_bit 7 num OR ucast (a ! i AND 0x7F) :: u32"
  have i: "i < length a" using Suc.prems(1,2) by (auto simp: sentinel_tag_def split: if_splits)
  show ?case
  proof (cases "a ! i AND 0x80 = 0")
    case True
    then have r: "t = \<lparr>cls = c, number = ?num, constructed = cn\<rparr>" "i' = Suc i" using Suc.prems(1) i by simp_all
    then have "a ! i = b ! j" "j < length b" using agree_nth [OF Suc.prems(3), of 0] by simp_all
    with True r show ?thesis by simp
  next
    case False
    then have p: "parse_long_tag k c cn a (Suc i) ?num = (t, i')" using Suc.prems(1) i by simp
    have le: "Suc i \<le> i'" using parse_long_tag_pos [OF _ p] i by simp
    then have ag: "agree a (Suc i) b (Suc j) (i' - Suc i)" using agree_slice [OF Suc.prems(3), of 1 "i' - Suc i"] by simp
    have e: "a ! i = b ! j" "j < length b" using agree_nth [OF Suc.prems(3), of 0] le by simp_all
    show ?thesis using Suc.IH [OF p Suc.prems(2) ag] False e le by simp linarith
  qed
qed (auto simp: sentinel_tag_def)

lemma parse_tag_at_agree:
  assumes "parse_tag_at a i = (t, i')" "number t \<noteq> - 1" "i < length a" "agree a i b j (i' - i)"
  shows "parse_tag_at b j = (t, j + (i' - i)) \<and> i < i'"
proof -
  have le: "i < i'" using parse_tag_at_pos [OF assms(3,1)] by simp
  then have e: "a ! i = b ! j" using agree_nth [OF assms(4), of 0] by simp
  show ?thesis
  proof (cases "a ! i AND 0x1F = 0x1F")
    case True
    then have p: "parse_long_tag 5 (tag_class_of (drop_bit 6 (a ! i))) (a ! i AND 0x20 \<noteq> 0) a (Suc i) 0 = (t, i')"
      using assms(1) by (simp add: parse_tag_at_def Let_def)
    have "agree a (Suc i) b (Suc j) (i' - Suc i)" using agree_slice [OF assms(4), of 1 "i' - Suc i"] le by simp
    from parse_long_tag_agree [OF p assms(2) this] show ?thesis
      using True e le by (simp add: parse_tag_at_def Let_def) linarith
  next
    case False
    then have "i' = Suc i" using assms(1) by (simp add: parse_tag_at_def Let_def split: if_splits)
    with False assms(1) e show ?thesis by (simp add: parse_tag_at_def Let_def split: if_splits)
  qed
qed

lemma read_tag_agree:
  assumes "read_tag r = Inr (t, r')" "agree (br_data r) (br_pos r) (br_data s) (br_pos s) (br_pos r' - br_pos r)"
  shows "read_tag s = Inr (t, s\<lparr>br_pos := br_pos s + (br_pos r' - br_pos r)\<rparr>)"
proof -
  obtain i' where p: "parse_tag_at (br_data r) (br_pos r) = (t, i')" "number t \<noteq> - 1" "r' = r\<lparr>br_pos := i'\<rparr>"
    "br_pos r < length (br_data r)"
    using assms(1) by (auto simp: read_tag_def at_end_def split: if_splits prod.splits)
  have ag: "agree (br_data r) (br_pos r) (br_data s) (br_pos s) (i' - br_pos r)" using assms(2) p(3) by simp
  from parse_tag_at_agree [OF p(1,2,4) ag] have q: "parse_tag_at (br_data s) (br_pos s) = (t, br_pos s + (i' - br_pos r))"
    "br_pos r < i'" by simp_all
  have "br_pos s < length (br_data s)" using agree_nth(3) [OF ag, of 0] q(2) by simp
  then show ?thesis using p q by (simp add: read_tag_def at_end_def)
qed

lemma read_length_agree:
  assumes "read_length r = Inr ((l, indef), r')" "agree (br_data r) (br_pos r) (br_data s) (br_pos s) (br_pos r' - br_pos r)"
  shows "read_length s = Inr ((l, indef), s\<lparr>br_pos := br_pos s + (br_pos r' - br_pos r)\<rparr>)"
proof -
  have adv: "br_pos r < br_pos r'" using read_length_advances [OF assms(1)] by (simp add: advances_def)
  have e: "br_data r ! br_pos r = br_data s ! br_pos s" "br_pos r < length (br_data r)" "br_pos s < length (br_data s)"
    using agree_nth [OF assms(2), of 0] adv by simp_all
  let ?f = "br_data r ! br_pos r"
  let ?n = "unat (?f AND 0x7F)"
  consider "?f = 0x80" | "?f \<noteq> 0x80" "?f AND 0x80 = 0" | "?f \<noteq> 0x80" "?f AND 0x80 \<noteq> 0" by blast
  then show ?thesis
  proof cases
    case 3
    then have r': "r' = r\<lparr>br_pos := br_pos r + 1 + ?n\<rparr>" "?n \<le> 8" "?n \<noteq> 0" "?n \<le> length (br_data r) - (br_pos r + 1)"
      "l = be_value (take ?n (drop (br_pos r + 1) (br_data r)))" "\<not> indef"
      using assms(1) e by (auto simp: read_length_def at_end_def Let_def remaining_eq split: if_splits)
    have "agree (br_data r) (br_pos r + 1) (br_data s) (br_pos s + 1) ?n"
      using agree_slice [OF assms(2), of 1 ?n] r'(1) by simp
    then have "take ?n (drop (br_pos r + 1) (br_data r)) = take ?n (drop (br_pos s + 1) (br_data s))"
      "br_pos s + 1 + ?n \<le> length (br_data s)" by (simp_all add: agree_def)
    then show ?thesis using 3 r' e by (simp add: read_length_def at_end_def Let_def remaining_eq)
  qed (use assms(1) e in \<open>auto simp: read_length_def at_end_def Let_def\<close>)
qed

text \<open>The parts of a definite TLV.\<close>

lemma read_tlv_definiteE:
  assumes "read_tlv r = Inr (tlv, r')" "\<not> tlv_indefinite tlv"
  obtains t r1 r2 l where "read_tag r = Inr (t, r1)" "read_length r1 = Inr ((l, False), r2)" "l \<le> remaining r2"
    "tlv = \<lparr>tlv_tag = t, tlv_value = take l (drop (br_pos r2) (br_data r2)), tlv_indefinite = False\<rparr>"
    "r' = r2\<lparr>br_pos := br_pos r2 + l\<rparr>" "l = length (tlv_value tlv)"
proof -
  obtain t r1 where t: "read_tag r = Inr (t, r1)"
    using assms(1) by (auto simp: read_tlv_eq_slow read_tlv_slow_def rbind_eq_Inr)
  obtain m indef r2 where len: "read_length r1 = Inr ((m, indef), r2)"
    using assms(1) t by (auto simp: read_tlv_eq_slow read_tlv_slow_def rbind_eq_Inr)
  have "\<not> indef"
    using assms t len by (auto simp: read_tlv_eq_slow read_tlv_slow_def rbind_eq_Inr Let_def split: if_splits)
  with assms(1) t len have b: "m \<le> remaining r2"
    "tlv = \<lparr>tlv_tag = t, tlv_value = take m (drop (br_pos r2) (br_data r2)), tlv_indefinite = False\<rparr>"
    "r' = r2\<lparr>br_pos := br_pos r2 + m\<rparr>"
    by (auto simp: read_tlv_eq_slow read_tlv_slow_def rbind_eq_Inr read_bytes_def split: if_splits)
  have size: "m = length (tlv_value tlv)" using b(1) by (subst b(2)) (simp add: remaining_eq)
  show ?thesis by (rule that [OF t _ b size]) (use len \<open>\<not> indef\<close> in simp)
qed

lemma read_tlv_parts:
  assumes "read_tlv r = Inr (tlv, r')" "\<not> tlv_indefinite tlv" "l = length (tlv_value tlv)" "h = br_pos r' - br_pos r - l"
  shows "h + l = br_pos r' - br_pos r" "0 < h" "br_pos r + h + l \<le> length (br_data r)"
    "tlv_value tlv = take l (drop (br_pos r + h) (br_data r))" "br_pos r' = br_pos r + h + l"
proof -
  from assms(1,2) obtain t r1 r2 m where t: "read_tag r = Inr (t, r1)" and len: "read_length r1 = Inr ((m, False), r2)"
    and rest: "m \<le> remaining r2" "r' = r2\<lparr>br_pos := br_pos r2 + m\<rparr>" "m = length (tlv_value tlv)"
      "tlv = \<lparr>tlv_tag = t, tlv_value = take m (drop (br_pos r2) (br_data r2)), tlv_indefinite = False\<rparr>"
    by (rule read_tlv_definiteE)
  have "advances r r1" "advances r1 r2" using read_tag_advances [OF t] read_length_advances [OF len] by simp_all
  then have d: "br_data r2 = br_data r" "br_pos r < br_pos r2" "br_pos r2 \<le> length (br_data r)" by (auto simp: advances_def)
  have h: "h = br_pos r2 - br_pos r" "l = m" using assms(3,4) rest(2,3) by simp_all
  show "tlv_value tlv = take l (drop (br_pos r + h) (br_data r))"
    using d h by (subst rest(4)) simp
  show "h + l = br_pos r' - br_pos r" "0 < h" "br_pos r + h + l \<le> length (br_data r)" "br_pos r' = br_pos r + h + l"
    using d h rest(1,2) by (simp_all add: remaining_eq)
qed

text \<open>A definite TLV is read wherever its header stands before enough octets.\<close>

lemma read_tlv_agree:
  assumes "read_tlv r = Inr (tlv, r')" "\<not> tlv_indefinite tlv" "l = length (tlv_value tlv)" "h = br_pos r' - br_pos r - l"
    "agree (br_data r) (br_pos r) (br_data s) (br_pos s) h" "br_pos s + h + l \<le> length (br_data s)"
  shows "read_tlv s = Inr (\<lparr>tlv_tag = tlv_tag tlv, tlv_value = take l (drop (br_pos s + h) (br_data s)),
      tlv_indefinite = False\<rparr>, s\<lparr>br_pos := br_pos s + h + l\<rparr>)"
proof -
  from assms(1,2) obtain t r1 r2 m where t: "read_tag r = Inr (t, r1)" and len: "read_length r1 = Inr ((m, False), r2)"
    and rest: "r' = r2\<lparr>br_pos := br_pos r2 + m\<rparr>" "m = length (tlv_value tlv)"
      "tlv = \<lparr>tlv_tag = t, tlv_value = take m (drop (br_pos r2) (br_data r2)), tlv_indefinite = False\<rparr>"
    by (rule read_tlv_definiteE)
  have "advances r r1" "advances r1 r2" using read_tag_advances [OF t] read_length_advances [OF len] by simp_all
  then have d: "br_data r1 = br_data r" "br_pos r < br_pos r1" "br_pos r1 < br_pos r2" by (auto simp: advances_def)
  have l: "l = m" using assms(3) rest(2) by simp
  have h: "h = br_pos r2 - br_pos r" using assms(4) rest(1) l by simp
  let ?s1 = "s\<lparr>br_pos := br_pos s + (br_pos r1 - br_pos r)\<rparr>"
  have "agree (br_data r) (br_pos r) (br_data s) (br_pos s) (br_pos r1 - br_pos r)"
    using agree_slice [OF assms(5), of 0 "br_pos r1 - br_pos r"] d h by simp
  then have tag: "read_tag s = Inr (t, ?s1)" by (rule read_tag_agree [OF t])
  have "agree (br_data r1) (br_pos r1) (br_data ?s1) (br_pos ?s1) (br_pos r2 - br_pos r1)"
    using agree_slice [OF assms(5), of "br_pos r1 - br_pos r" "br_pos r2 - br_pos r1"] d h by simp
  then have "read_length ?s1 = Inr ((m, False), ?s1\<lparr>br_pos := br_pos ?s1 + (br_pos r2 - br_pos r1)\<rparr>)"
    by (rule read_length_agree [OF len])
  also have "?s1\<lparr>br_pos := br_pos ?s1 + (br_pos r2 - br_pos r1)\<rparr> = s\<lparr>br_pos := br_pos s + h\<rparr>"
    using d h by simp
  finally have "read_length ?s1 = Inr ((m, False), s\<lparr>br_pos := br_pos s + h\<rparr>)" .
  moreover have "tlv_tag tlv = t" by (subst rest(3)) simp
  ultimately show ?thesis
    using tag assms(6) l by (simp add: read_tlv_eq_slow read_tlv_slow_def read_bytes_def remaining_eq le_diff_conv2)
qed

lemma parse_bufE:
  assumes "parse_buf buf = Some (t, h, l)"
  obtains tlv r where "read_tlv (new_reader buf) = Inr (tlv, r)" "\<not> tlv_indefinite tlv" "t = tlv_tag tlv"
    "l = length (tlv_value tlv)" "h = br_pos r - br_pos (new_reader buf) - l"
  using assms by (auto simp: parse_buf_def new_reader_def split: if_splits sum.splits)

lemma parse_buf_bounds:
  assumes "parse_buf buf = Some (t, h, l)"
  shows "0 < h" "h + l \<le> length buf"
proof -
  from assms obtain tlv r where p: "read_tlv (new_reader buf) = Inr (tlv, r)" "\<not> tlv_indefinite tlv"
    "l = length (tlv_value tlv)" "h = br_pos r - br_pos (new_reader buf) - l" by (rule parse_bufE)
  from read_tlv_parts [OF p] show "0 < h" "h + l \<le> length buf" by (simp_all add: new_reader_def)
qed

lemma parse_buf_local:
  assumes "parse_buf buf = Some (t, h, l)" "take h buf' = take h buf" "h + l \<le> length buf'"
  shows "parse_buf buf' = Some (t, h, l)"
proof -
  from assms(1) obtain tlv r where p: "read_tlv (new_reader buf) = Inr (tlv, r)" "\<not> tlv_indefinite tlv"
    "t = tlv_tag tlv" "l = length (tlv_value tlv)" "h = br_pos r - br_pos (new_reader buf) - l" by (rule parse_bufE)
  have "agree (br_data (new_reader buf)) (br_pos (new_reader buf)) (br_data (new_reader buf')) (br_pos (new_reader buf')) h"
    "br_pos (new_reader buf') + h + l \<le> length (br_data (new_reader buf'))"
    using assms(2,3) parse_buf_bounds [OF assms(1)] by (simp_all add: agree_def new_reader_def)
  from read_tlv_agree [OF p(1,2,4,5) this] show ?thesis
    using p(3) parse_buf_bounds(1) [OF assms(1)] assms(3) by (auto simp: parse_buf_def new_reader_def)
qed

text \<open>The same TLV, met on the way through a buffer or at its own beginning.\<close>

lemma parse_buf_at:
  assumes "br_pos r < length (br_data r)"
  shows "parse_buf (drop (br_pos r) (br_data r)) =
    (case read_tlv r of
       Inl _ \<Rightarrow> None
     | Inr (tlv, r') \<Rightarrow> if tlv_indefinite tlv then None
         else Some (tlv_tag tlv, br_pos r' - br_pos r - length (tlv_value tlv), length (tlv_value tlv)))"
proof -
  let ?d = "drop (br_pos r) (br_data r)"
  let ?s = "new_reader ?d"
  have there: "parse_buf ?d = Some (tlv_tag tlv, br_pos r' - br_pos r - length (tlv_value tlv), length (tlv_value tlv))"
    if r: "read_tlv r = Inr (tlv, r')" "\<not> tlv_indefinite tlv" for tlv r'
  proof -
    let ?l = "length (tlv_value tlv)" and ?h = "br_pos r' - br_pos r - length (tlv_value tlv)"
    note parts = read_tlv_parts [OF r refl refl]
    have "agree (br_data r) (br_pos r) (br_data ?s) (br_pos ?s) ?h" "br_pos ?s + ?h + ?l \<le> length (br_data ?s)"
      using parts by (auto simp: agree_def new_reader_def)
    from read_tlv_agree [OF r refl refl this] show ?thesis
      using assms parts by (simp add: parse_buf_def new_reader_def)
  qed
  have only: "\<exists>tlv r'. read_tlv r = Inr (tlv, r') \<and> \<not> tlv_indefinite tlv" if "parse_buf ?d = Some (t, h, l)" for t h l
  proof -
    from that obtain tlv r' where p: "read_tlv ?s = Inr (tlv, r')" "\<not> tlv_indefinite tlv"
      "l = length (tlv_value tlv)" "h = br_pos r' - br_pos ?s - l" by (rule parse_bufE)
    have "agree (br_data ?s) (br_pos ?s) (br_data r) (br_pos r) h" "br_pos r + h + l \<le> length (br_data r)"
      using parse_buf_bounds [OF that] assms by (auto simp: agree_def new_reader_def)
    from read_tlv_agree [OF p this] show ?thesis by auto
  qed
  show ?thesis
  proof (cases "\<exists>tlv r'. read_tlv r = Inr (tlv, r') \<and> \<not> tlv_indefinite tlv")
    case True
    with there show ?thesis by auto
  next
    case False
    then have "parse_buf ?d = None" using only by (cases "parse_buf ?d") auto
    with False show ?thesis by (auto split: sum.splits)
  qed
qed

section \<open>The siblings in a buffer\<close>

lemma parse_buf_Nil [simp]: "parse_buf [] = None"
  by (simp add: parse_buf_def)

lemma shorter: "parse_buf buf = Some (t, h, l) \<Longrightarrow> length (drop (h + l) buf) < length buf"
  using parse_buf_bounds [of buf t h l] by (cases buf) auto

text \<open>The places where a cursor stands, as the rest of the buffer from there.\<close>

function siblings :: "byte list \<Rightarrow> byte list list" where
  "siblings buf =
     (case parse_buf buf of
        None \<Rightarrow> []
      | Some (t, h, l) \<Rightarrow> buf # siblings (drop (h + l) buf))"
  by pat_completeness auto
termination
  by (relation "measure length") (use shorter in auto)

declare siblings.simps [simp del]

lemma siblings_Nil [simp]: "siblings [] = []"
  by (simp add: siblings.simps)

definition opens :: "tag \<Rightarrow> byte list \<Rightarrow> bool" where
  "opens t buf \<longleftrightarrow> (case parse_buf buf of None \<Rightarrow> False | Some (u, _, _) \<Rightarrow> cursor_tag_matches u t)"

text \<open>The cursor that stands on \<open>buf\<close>; on an end or a broken TLV only its flag matters.\<close>

definition stands :: "ber_cursor \<Rightarrow> byte list \<Rightarrow> bool" where
  "stands c buf \<longleftrightarrow> (if parse_buf buf = None then \<not> bc_valid c else c = new_cursor buf)"

lemma new_cursor_stands [simp]: "stands (new_cursor buf) buf"
  by (simp add: stands_def new_cursor_def cursor_parse_def invalid_cursor_def)

lemma new_cursor_eq:
  "parse_buf buf = Some (t, h, l) \<Longrightarrow>
     new_cursor buf = \<lparr>bc_buf = buf, bc_tag = t, bc_hdr = h, bc_vlen = l, bc_valid = True\<rparr>"
  by (simp add: new_cursor_def cursor_parse_def invalid_cursor_def)

lemma standsE:
  assumes "stands c buf"
  obtains "parse_buf buf = None" "\<not> bc_valid c"
  | t h l where "parse_buf buf = Some (t, h, l)" "c = \<lparr>bc_buf = buf, bc_tag = t, bc_hdr = h, bc_vlen = l, bc_valid = True\<rparr>"
  using assms by (cases "parse_buf buf") (auto simp: stands_def new_cursor_eq)

lemma next_stands:
  assumes "stands c buf" "parse_buf buf = Some (t, h, l)"
  shows "stands (cursor_next c) (drop (h + l) buf)"
proof -
  have c: "c = \<lparr>bc_buf = buf, bc_tag = t, bc_hdr = h, bc_vlen = l, bc_valid = True\<rparr>"
    using assms by (auto elim: standsE)
  show ?thesis
  proof (cases "length buf \<le> h + l")
    case True
    then show ?thesis by (simp add: c cursor_next_def stands_def)
  next
    case False
    then show ?thesis
      by (auto simp: c cursor_next_def stands_def cursor_parse_def new_cursor_def invalid_cursor_def split: option.splits)
  qed
qed

text \<open>\<open>find\<close> looks at the siblings one after the other.\<close>

lemma cursor_find_loop_siblings:
  "stands c buf \<Longrightarrow> length buf < n \<Longrightarrow>
   cursor_find_loop n t c = Some (case find (opens t) (siblings buf) of None \<Rightarrow> invalid_cursor | Some b \<Rightarrow> new_cursor b)"
proof (induction n arbitrary: c buf)
  case (Suc n)
  from Suc.prems(1) show ?case
  proof (cases rule: standsE)
    case 1
    then show ?thesis by (simp add: siblings.simps [of buf])
  next
    case (2 u h l)
    have "cursor_find_loop n t (cursor_next c) = Some (case find (opens t) (siblings (drop (h + l) buf)) of
        None \<Rightarrow> invalid_cursor | Some b \<Rightarrow> new_cursor b)"
      using shorter [OF 2(1)] Suc.prems(2) by (intro Suc.IH next_stands [OF Suc.prems(1) 2(1)]) simp
    moreover have "opens t buf = cursor_tag_matches u t" using 2(1) by (simp add: opens_def)
    ultimately show ?thesis using 2 by (simp add: siblings.simps [of buf] new_cursor_eq)
  qed
qed simp

lemma cursor_find_siblings:
  "cursor_find t (new_cursor buf)
     = Some (case find (opens t) (siblings buf) of None \<Rightarrow> invalid_cursor | Some b \<Rightarrow> new_cursor b)"
proof -
  have "bc_buf (new_cursor buf) = buf"
    by (simp add: new_cursor_def cursor_parse_def invalid_cursor_def split: option.splits)
  then show ?thesis by (simp add: cursor_find_def cursor_find_loop_siblings del: cursor_find_loop.simps)
qed

text \<open>So does the expansion of a layer, through one reader over the whole buffer.\<close>

lemma scan_entries_siblings:
  "br_pos r \<le> length (br_data r) \<Longrightarrow>
     map (\<lambda>e. drop (le_offset e) (br_data r)) (scan_entries r) = siblings (drop (br_pos r) (br_data r)) \<and>
     list_all (\<lambda>e. parse_buf (drop (le_offset e) (br_data r)) = Some (le_tag e, le_hdr e, le_vlen e)) (scan_entries r)"
proof (induction r rule: scan_entries.induct)
  case (1 r)
  show ?case
  proof (cases "at_end r")
    case True
    with 1(2) show ?thesis by (simp add: scan_entries.simps [of r] at_end_def)
  next
    case False
    then have pos: "br_pos r < length (br_data r)" by (simp add: at_end_def)
    note pb = parse_buf_at [OF pos]
    show ?thesis
    proof (cases "\<exists>tlv r'. read_tlv r = Inr (tlv, r') \<and> \<not> tlv_indefinite tlv")
      case True
      then obtain tlv r' where r: "read_tlv r = Inr (tlv, r')" "\<not> tlv_indefinite tlv" by blast
      note parts = read_tlv_parts [OF r refl refl]
      have adv: "br_data r' = br_data r" "br_pos r' \<le> length (br_data r')"
        using read_tlv_frame(1) [OF r(1)] by (auto simp: advances_def)
      from 1(1) [OF False r(1) refl r(2) refl adv(2)] pb r parts show ?thesis
        unfolding scan_entries.simps [of r] siblings.simps [of "drop (br_pos r) (br_data r)"]
        by (simp add: False adv(1) Let_def add.commute)
    next
      case none: False
      then have "parse_buf (drop (br_pos r) (br_data r)) = None" using pb by (auto split: sum.splits)
      with none False show ?thesis
        by (auto simp: scan_entries.simps [of r] siblings.simps [of "drop (br_pos r) (br_data r)"] split: sum.splits)
    qed
  qed
qed

definition layer_ok :: "ber_layer \<Rightarrow> bool" where
  "layer_ok l \<longleftrightarrow> bl_entries l = (if bl_expanded l then scan_entries (new_reader (bl_data l)) else [])"

lemma new_layer_ok: "layer_ok (new_layer data)"
  by (simp add: layer_ok_def new_layer_def)

lemma layer_expand_eq:
  assumes "layer_ok l"
  shows "layer_expand l = \<lparr>bl_data = bl_data l, bl_entries = scan_entries (new_reader (bl_data l)), bl_expanded = True\<rparr>"
  using assms by (cases l) (auto simp: layer_ok_def layer_expand_def)

lemma find_entry_siblings:
  "list_all (\<lambda>e. parse_buf (drop (le_offset e) data) = Some (le_tag e, le_hdr e, le_vlen e)) es \<Longrightarrow>
   map_option (\<lambda>e. drop (le_offset e) data) (find_entry t es) = find (opens t) (map (\<lambda>e. drop (le_offset e) data) es)"
  by (induction es) (auto simp: opens_def)

text \<open>
  C20: a layer answers like a cursor: whatever was asked of it before, its cached
  expansion finds the same child as a linear scan of the siblings with a cursor, or
  none when the scan finds none, and asking leaves the cache consistent.
\<close>

theorem layer_find_cursor_find:
  assumes "layer_ok l"
  shows "cursor_find t (new_cursor (bl_data l)) = Some (fst (layer_find t l)) \<and> layer_ok (snd (layer_find t l))"
proof -
  let ?d = "bl_data l" and ?es = "scan_entries (new_reader (bl_data l))"
  have e: "map (\<lambda>e. drop (le_offset e) ?d) ?es = siblings ?d"
    "list_all (\<lambda>e. parse_buf (drop (le_offset e) ?d) = Some (le_tag e, le_hdr e, le_vlen e)) ?es"
    using scan_entries_siblings [of "new_reader ?d"] by (simp_all add: new_reader_def)
  have "find (opens t) (siblings ?d) = map_option (\<lambda>e. drop (le_offset e) ?d) (find_entry t ?es)"
    using find_entry_siblings [OF e(2), of t] e(1) by simp
  then show ?thesis
    unfolding cursor_find_siblings
    by (simp add: layer_find_def layer_expand_eq [OF assms] layer_ok_def Let_def split: option.splits)
qed

lemma layer_find_cursor_find_witness:
  "cursor_find (context_tag 1 False) (new_cursor [0x80, 1, 7, 0x81, 0])
     = Some (fst (layer_find (context_tag 1 False) (new_layer [0x80, 1, 7, 0x81, 0])))"
  using layer_find_cursor_find [OF new_layer_ok, of "context_tag 1 False" "[0x80, 1, 7, 0x81, 0]"]
  by (simp add: new_layer_def)

section \<open>The walk\<close>

text \<open>The TLVs of a buffer in document order with their depths, as the walk has to visit them.\<close>

function preorder :: "int \<Rightarrow> int \<Rightarrow> byte list \<Rightarrow> (byte list \<times> int) list" where
  "preorder max_depth depth buf =
     (case parse_buf buf of
        None \<Rightarrow> []
      | Some (t, h, l) \<Rightarrow>
          (buf, depth)
          # (if constructed t \<and> (max_depth < 0 \<or> depth < max_depth)
             then preorder max_depth (depth + 1) (take l (drop h buf)) else [])
          @ preorder max_depth depth (drop (h + l) buf))"
  by pat_completeness auto
termination
proof (relation "measure (\<lambda>(max_depth, depth, buf). length buf)", goal_cases)
  case (2 max_depth depth buf p t q h l)
  then show ?case using parse_buf_bounds [of buf t h l] by (cases buf) auto
next
  case (3 max_depth depth buf p t q h l)
  then show ?case using shorter [of buf t h l] by simp
qed simp

declare preorder.simps [simp del]

lemma length_preorder: "length (preorder max_depth depth buf) \<le> length buf"
proof (induction max_depth depth buf rule: preorder.induct)
  case (1 max_depth depth buf)
  show ?case
  proof (cases "parse_buf buf")
    case (Some p)
    obtain t h l where p: "p = (t, h, l)" by (cases p)
    note b = parse_buf_bounds [OF Some [unfolded p]]
    have "length (preorder max_depth (depth + 1) (take l (drop h buf))) \<le> l"
      if "constructed t \<and> (max_depth < 0 \<or> depth < max_depth)"
      using 1(1) [OF Some p [symmetric] refl that] by (rule order_trans) simp
    moreover have "length (preorder max_depth depth (drop (h + l) buf)) \<le> length buf - (h + l)"
      using 1(2) [OF Some p [symmetric] refl] by simp
    ultimately show ?thesis
      using b unfolding preorder.simps [of max_depth depth buf] Some p option.case prod.case
      by (cases "constructed t \<and> (max_depth < 0 \<or> depth < max_depth)") (simp_all only: if_True if_False, simp_all)
  qed (simp add: preorder.simps [of max_depth depth buf])
qed

lemma walk_loop_preorder:
  "stands c buf \<Longrightarrow> length buf < n \<Longrightarrow>
   walk_loop n visitor max_depth depth s c = Some (foldl (\<lambda>s (b, d). visitor s (new_cursor b) d) s (preorder max_depth depth buf))"
proof (induction n arbitrary: s c buf depth)
  case (Suc n)
  from Suc.prems(1) show ?case
  proof (cases rule: standsE)
    case 1
    then show ?thesis by (simp add: preorder.simps [of max_depth depth buf])
  next
    case (2 t h l)
    note b = parse_buf_bounds [OF 2(1)]
    let ?v = "take l (drop h buf)"
    have inside: "cursor_value c = ?v" by (simp add: 2(2) cursor_value_def)
    have inner: "walk_loop n visitor max_depth (depth + 1) s' (new_cursor ?v)
        = Some (foldl (\<lambda>s (b, d). visitor s (new_cursor b) d) s' (preorder max_depth (depth + 1) ?v))" for s'
      using b Suc.prems(2) by (intro Suc.IH new_cursor_stands) auto
    have rest: "walk_loop n visitor max_depth depth s' (cursor_next c)
        = Some (foldl (\<lambda>s (b, d). visitor s (new_cursor b) d) s' (preorder max_depth depth (drop (h + l) buf)))" for s'
      using shorter [OF 2(1)] Suc.prems(2) by (intro Suc.IH next_stands [OF Suc.prems(1) 2(1)]) simp
    have here: "bc_valid c" "bc_tag c = t" "c = new_cursor buf" using 2 by (simp_all add: new_cursor_eq)
    show ?thesis
      unfolding preorder.simps [of max_depth depth buf] 2(1) option.case prod.case
      by (cases "constructed t \<and> (max_depth < 0 \<or> depth < max_depth)")
         (simp_all only: walk_loop.simps here(1,2) inside inner rest if_True if_False option.case simp_thms, simp_all add: here(3))
  qed
qed simp

text \<open>
  C21: the walk always comes to its end, on any octets, with any visitor and any limit:
  it visits the TLVs of the buffer in document order with their depths, each once,
  and there are no more of them than octets.
\<close>

theorem ber_walk_visits_all:
  "ber_walk buf visitor max_depth s = Some (foldl (\<lambda>s (b, d). visitor s (new_cursor b) d) s (preorder max_depth 0 buf))
   \<and> length (preorder max_depth 0 buf) \<le> length buf"
  by (simp add: ber_walk_def walk_loop_preorder length_preorder del: walk_loop.simps)

section \<open>Patching in place\<close>

text \<open>A mutable cursor fits the buffer as it is now.\<close>

definition mutable_ok :: "byte list \<Rightarrow> ber_mutable_cursor \<Rightarrow> bool" where
  "mutable_ok mem c \<longleftrightarrow> mc_off c + mc_len c \<le> length mem \<and>
     (mc_valid c \<longrightarrow> parse_buf (window mem (mc_off c) (mc_len c)) = Some (mc_tag c, mc_hdr c, mc_vlen c))"

lemma new_mutable_cursor_ok: "off + len \<le> length mem \<Longrightarrow> mutable_ok mem (new_mutable_cursor mem off len)"
  by (auto simp: mutable_ok_def new_mutable_cursor_def mutable_parse_def split: option.splits)

lemma mutable_next_ok: "mutable_ok mem c \<Longrightarrow> mutable_ok mem (mutable_next mem c)"
  by (auto simp: mutable_ok_def mutable_next_def mutable_parse_def Let_def split: option.splits)

lemma mutable_ok_bounds:
  assumes "mutable_ok mem c" "mc_valid c"
  shows "0 < mc_hdr c" "mc_hdr c + mc_vlen c \<le> mc_len c" "mc_off c + mc_hdr c + mc_vlen c \<le> length mem"
  using assms parse_buf_bounds [of "window mem (mc_off c) (mc_len c)"] by (auto simp: mutable_ok_def window_def)

lemma length_window: "off + n \<le> length mem \<Longrightarrow> length (window mem off n) = n"
  by (simp add: window_def)

lemma take_window: "n \<le> len \<Longrightarrow> take n (window mem off len) = window mem off n"
  by (simp add: window_def min_absorb1)

lemma window_outside:
  assumes "length m = length mem" "\<And>i. i < length mem \<Longrightarrow> i < p \<or> q \<le> i \<Longrightarrow> m ! i = mem ! i"
    "off + n \<le> p \<or> q \<le> off" "off + n \<le> length mem"
  shows "window m off n = window mem off n"
proof (rule nth_equalityI)
  show "length (window m off n) = length (window mem off n)" using assms(1,4) by (simp add: length_window)
  fix i assume "i < length (window m off n)"
  then have "i < n" using assms(1,4) by (simp add: length_window)
  then show "window m off n ! i = window mem off n ! i"
    using assms by (auto simp: window_def)
qed

text \<open>
  C22: \<open>write_value\<close> patches the value and nothing else: the buffer keeps its length and
  every octet outside the value, the cursor reads the new value, and every other cursor
  over the buffer whose header the value does not cover (the siblings, the enclosing
  TLVs) still stands on the same tag, header and length, so the framing is intact.
\<close>

theorem write_value_keeps_framing:
  assumes "mutable_ok mem c" "mc_valid c" "length v = mc_vlen c" "mutable_ok mem c2"
    "mc_off c2 + mc_hdr c2 \<le> mc_off c + mc_hdr c \<or> mc_off c + mc_hdr c + mc_vlen c \<le> mc_off c2"
  shows "fst (write_value mem c v) \<and> length (snd (write_value mem c v)) = length mem \<and>
    mutable_value (snd (write_value mem c v)) c = v \<and> mutable_ok (snd (write_value mem c v)) c2"
proof -
  let ?p = "mc_off c + mc_hdr c"
  note b = mutable_ok_bounds [OF assms(1,2)]
  define m where "m = take ?p mem @ v @ drop (?p + length v) mem"
  have w: "write_value mem c v = (True, m)" using assms(2,3) by (simp add: write_value_def Let_def m_def)
  have len: "length m = length mem" using b assms(3) by (simp add: m_def)
  have same: "m ! i = mem ! i" if "i < length mem" "i < ?p \<or> ?p + length v \<le> i" for i
    using that b assms(3) by (auto simp: m_def nth_append)
  have val: "mutable_value m c = v" using assms(2,3) b by (simp add: mutable_value_def window_def m_def)
  have "mutable_ok m c2"
  proof (cases "mc_valid c2")
    case True
    note b2 = mutable_ok_bounds [OF assms(4) True]
    have off: "mc_off c2 + mc_len c2 \<le> length mem" using assms(4) by (simp add: mutable_ok_def)
    have "window m (mc_off c2) (mc_hdr c2) = window mem (mc_off c2) (mc_hdr c2)"
      using b2 assms(3,5) by (intro window_outside [OF len same]) auto
    then have hdr: "take (mc_hdr c2) (window m (mc_off c2) (mc_len c2)) = take (mc_hdr c2) (window mem (mc_off c2) (mc_len c2))"
      using b2 by (simp add: take_window)
    have fits: "mc_hdr c2 + mc_vlen c2 \<le> length (window m (mc_off c2) (mc_len c2))"
      using b2 off len by (simp add: length_window)
    have before: "parse_buf (window mem (mc_off c2) (mc_len c2)) = Some (mc_tag c2, mc_hdr c2, mc_vlen c2)"
      using assms(4) True by (simp add: mutable_ok_def)
    have "parse_buf (window m (mc_off c2) (mc_len c2)) = Some (mc_tag c2, mc_hdr c2, mc_vlen c2)"
      by (rule parse_buf_local [OF before hdr fits])
    then show ?thesis using off len by (simp add: mutable_ok_def)
  next
    case False
    then show ?thesis using assms(4) len by (simp add: mutable_ok_def)
  qed
  with w len val show ?thesis by simp
qed

lemma write_value_keeps_framing_witness:
  "mutable_ok (snd (write_value [0x30, 4, 0x80, 2, 7, 7] (new_mutable_cursor [0x30, 4, 0x80, 2, 7, 7] 2 4) [8, 9]))
     (new_mutable_cursor [0x30, 4, 0x80, 2, 7, 7] 0 6)"
proof -
  let ?mem = "[0x30, 4, 0x80, 2, 7, 7] :: byte list"
  have c: "new_mutable_cursor ?mem 2 4 = \<lparr>mc_off = 2, mc_len = 4, mc_tag = context_tag 0 False, mc_hdr = 2, mc_vlen = 2, mc_valid = True\<rparr>"
    by code_simp
  have d: "new_mutable_cursor ?mem 0 6 = \<lparr>mc_off = 0, mc_len = 6, mc_tag = universal 16 True, mc_hdr = 2, mc_vlen = 4, mc_valid = True\<rparr>"
    by code_simp
  have ok: "mutable_ok ?mem (new_mutable_cursor ?mem 2 4)" "mutable_ok ?mem (new_mutable_cursor ?mem 0 6)"
    by (rule new_mutable_cursor_ok, simp)+
  have v: "mc_valid (new_mutable_cursor ?mem 2 4)" "length [8, 9 :: byte] = mc_vlen (new_mutable_cursor ?mem 2 4)"
    unfolding c by simp_all
  have apart: "mc_off (new_mutable_cursor ?mem 0 6) + mc_hdr (new_mutable_cursor ?mem 0 6)
      \<le> mc_off (new_mutable_cursor ?mem 2 4) + mc_hdr (new_mutable_cursor ?mem 2 4)"
    unfolding c d by simp
  show ?thesis
    by (rule write_value_keeps_framing [OF ok(1) v ok(2) disjI1 [OF apart], THEN conjunct2, THEN conjunct2, THEN conjunct2])
qed

text \<open>A value of another size is refused and the buffer left alone.\<close>

lemma write_value_size_mismatch:
  "length v \<noteq> mc_vlen c \<Longrightarrow> write_value mem c v = (False, mem)"
  by (simp add: write_value_def)

section \<open>Navigation in what was written\<close>

text \<open>The siblings of TLVs written one after the other are these TLVs.\<close>

lemma parse_buf_tlv:
  assumes "number t \<noteq> - 1" "length v < 2 ^ 64"
  shows "parse_buf (tlv_octets t v @ post) = Some (t, length (tlv_octets t v) - length v, length v)"
proof -
  have "tlv_octets t v @ post \<noteq> []" by (simp add: tlv_octets_def tag_octets_def)
  then show ?thesis
    using read_tlv_octets [OF assms, of "[]" post 0] by (simp add: parse_buf_def new_reader_at reader_at_def)
qed

lemma cursor_find_written:
  assumes "number t \<noteq> - 1" "length v < 2 ^ 64"
    "\<forall>(u, w) \<in> set before. number u \<noteq> - 1 \<and> length w < 2 ^ 64 \<and> \<not> cursor_tag_matches u k" "cursor_tag_matches t k"
  shows "cursor_find k (new_cursor (concat (map (\<lambda>(u, w). tlv_octets u w) before) @ tlv_octets t v @ post))
    = Some (new_cursor (tlv_octets t v @ post)) \<and> cursor_value (new_cursor (tlv_octets t v @ post)) = v"
proof -
  have here: "opens k (tlv_octets t v @ post)" using assms(4) by (simp add: opens_def parse_buf_tlv [OF assms(1,2)])
  have "find (opens k) (siblings (concat (map (\<lambda>(u, w). tlv_octets u w) before) @ tlv_octets t v @ post)) = Some (tlv_octets t v @ post)"
    using assms(3)
  proof (induction before)
    case Nil
    show ?case using here by (simp add: siblings.simps [of "tlv_octets t v @ post"] parse_buf_tlv [OF assms(1,2)])
  next
    case (Cons x xs)
    obtain u w where x: "x = (u, w)" by (cases x)
    let ?rest = "concat (map (\<lambda>(u, w). tlv_octets u w) xs) @ tlv_octets t v @ post"
    have u: "number u \<noteq> - 1" "length w < 2 ^ 64" "\<not> cursor_tag_matches u k" using Cons.prems x by auto
    have p: "parse_buf (tlv_octets u w @ ?rest) = Some (u, length (tlv_octets u w) - length w, length w)"
      by (rule parse_buf_tlv [OF u(1,2)])
    have "length (tlv_octets u w) - length w + length w = length (tlv_octets u w)" by (simp add: tlv_octets_def)
    then have "siblings (tlv_octets u w @ ?rest) = (tlv_octets u w @ ?rest) # siblings ?rest"
      using p by (simp add: siblings.simps [of "tlv_octets u w @ ?rest"])
    moreover have "\<not> opens k (tlv_octets u w @ ?rest)" using p u(3) by (simp add: opens_def)
    ultimately show ?case using Cons by (simp add: x)
  qed
  moreover have "cursor_value (new_cursor (tlv_octets t v @ post)) = v"
    by (simp add: new_cursor_eq [OF parse_buf_tlv [OF assms(1,2)]] cursor_value_def) (simp add: tlv_octets_def)
  ultimately show ?thesis by (simp add: cursor_find_siblings)
qed

end
