(* ===== verification/Validation.thy ===== *)
theory Validation
  imports Per_Results
begin

text \<open>
  Constraint validation (\<open>Validate.hpp\<close> and the \<open>validate\<close> methods it dispatches to) and
  the hooks around the codecs (\<open>codec/Validation.hpp\<close>, \<open>codec/ValidateCounter.hpp\<close>): the
  counter, the report with its dotted paths, and the two wrappers. The lemmas show that
  the delta of a validation lands on the nearest bound, that it is 0 exactly for the
  values within the constraint, and that PER brings every validated value back.
\<close>

unbundle bit_operations_syntax

section \<open>The value classes\<close>

text \<open>\<open>Integer::validate\<close>: the differences are those of 64-bit registers.\<close>

definition integer_validate :: "constraints \<Rightarrow> i64 \<Rightarrow> int" where
  "integer_validate c v =
     (if has_flag c EXTENSIBLE then 0
      else if has_flag c CONSTRAINED then
        (if v <s lower_bound c then sint (lower_bound c - v)
         else if upper_bound c <s v then sint (upper_bound c - v)
         else 0)
      else if has_flag c SEMI_CONSTRAINED then
        (if v <s lower_bound c then sint (lower_bound c - v) else 0)
      else 0)"

abbreviation INT64_MAX :: int where "INT64_MAX \<equiv> 0x7FFFFFFFFFFFFFFF"
abbreviation INT64_MIN :: int where "INT64_MIN \<equiv> - 0x8000000000000000"

definition uinteger_validate :: "constraints \<Rightarrow> u64 \<Rightarrow> int" where
  "uinteger_validate c v =
     (if has_flag c EXTENSIBLE then 0
      else if has_flag c CONSTRAINED then
        (if v < lower_u64 c then
           let delta = lower_u64 c - v in if uint delta > INT64_MAX then INT64_MAX else uint delta
         else if v > upper_u64 c then
           let delta = v - upper_u64 c in if uint delta > INT64_MAX then INT64_MIN else - uint delta
         else 0)
      else if has_flag c SEMI_CONSTRAINED then
        (if v < lower_u64 c then
           let delta = lower_u64 c - v in if uint delta > INT64_MAX then INT64_MAX else uint delta
         else 0)
      else 0)"

text \<open>\<open>OctetString::validate\<close> and \<open>SeqOfSpec::validate\<close>: the same code on a size.\<close>

definition size_validate :: "constraints \<Rightarrow> nat \<Rightarrow> int" where
  "size_validate c cnt =
     (if has_flag c SIZE_LOWER_BOUND \<and> \<not> has_flag c EXTENSIBLE then
        let n = int cnt in if n < size_lower c then size_lower c - n else 0
      else if \<not> has_flag c SIZE_CONSTRAINED then 0
      else if has_flag c EXTENSIBLE then 0
      else
        let n = int cnt in
        if n < size_lower c then size_lower c - n
        else if n > size_upper c then size_upper c - n
        else 0)"

definition octet_string_validate :: "constraints \<Rightarrow> byte list \<Rightarrow> int" where
  "octet_string_validate c bytes = size_validate c (length bytes)"

definition seqof_validate :: "seq_of_spec \<Rightarrow> asn1_value list \<Rightarrow> int" where
  "seqof_validate spec seq = size_validate (sos_constraints spec) (length seq)"

fun entries_validate :: "enum_entry list \<Rightarrow> i64 \<Rightarrow> int" where
  "entries_validate [] v = 1"
| "entries_validate (e # es) v = (if ee_value e = v then 0 else entries_validate es v)"

definition enum_validate :: "enum_spec \<Rightarrow> i64 \<Rightarrow> int" where
  "enum_validate spec v = entries_validate (es_entries spec) v"

text \<open>
  \<open>asn1::validate\<close>. The switch is over the universal tag number. \<open>None\<close> is a \<open>static_cast\<close>
  to a class the value does not have, and REAL, whose bounds are floating point.
\<close>

definition string_tags :: "u32 list" where
  "string_tags = [UT_Utf8String, UT_NumericString, UT_PrintableString, UT_T61String, UT_VideotexString, UT_Ia5String,
     UT_GraphicString, UT_VisibleString, UT_GeneralString, UT_UniversalString, UT_BmpString, UT_ObjectDescriptor]"

definition validate :: "type_desc \<Rightarrow> asn1_value \<Rightarrow> int option" where
  "validate def v =
     (case td_enum_spec def of
        Some spec \<Rightarrow> (case v of V_Enum n \<Rightarrow> Some (enum_validate spec n) | _ \<Rightarrow> None)
      | None \<Rightarrow>
         (case td_seq_of_spec def of
            Some spec \<Rightarrow> (case v of V_SeqOf vs \<Rightarrow> Some (seqof_validate spec vs) | _ \<Rightarrow> None)
          | None \<Rightarrow>
              let c = td_constraints def; n = number (builtin_tag def) in
              if n = UT_Integer then
                (if c_int_kind c = INT_U64 then (case v of V_UInteger u \<Rightarrow> Some (uinteger_validate c u) | _ \<Rightarrow> None)
                 else (case v of V_Integer i \<Rightarrow> Some (integer_validate c i) | _ \<Rightarrow> None))
              else if n = UT_Real then None
              else if n = UT_OctetString then
                (case v of V_OctetString bs \<Rightarrow> Some (octet_string_validate c bs) | _ \<Rightarrow> None)
              else if n = UT_BitString then (case v of V_BitString b \<Rightarrow> Some (bit_string_validate c b) | _ \<Rightarrow> None)
              else if n \<in> set string_tags then (case v of V_String s \<Rightarrow> Some (string_validate n c s) | _ \<Rightarrow> None)
              else Some 0))"

section \<open>Counter, report and paths\<close>

text \<open>The macros the code is compiled with, and the debug flag that silences the hooks.\<close>

record validation_config =
  vc_validate :: bool
  vc_on_encode :: bool
  vc_on_decode :: bool
  vc_report :: bool
  vc_no_validate :: bool

datatype path_seg = Seg_Name string | Seg_Index nat

record validation_failure =
  vf_path :: string
  vf_type :: string
  vf_delta :: int
  vf_on_decode :: bool

text \<open>The process-wide counter and the thread's report, path stack and tracking gate.\<close>

record validation_state =
  vs_count :: u64
  vs_report :: "validation_failure list option"
  vs_path :: "path_seg list"
  vs_active :: bool

definition initial_validation :: validation_state where
  "initial_validation = \<lparr>vs_count = 0, vs_report = None, vs_path = [], vs_active = True\<rparr>"

definition reset_validate_fail_count :: "validation_state \<Rightarrow> validation_state" where
  "reset_validate_fail_count s = s\<lparr>vs_count := 0\<rparr>"

definition bump_validate_fail :: "validation_state \<Rightarrow> validation_state" where
  "bump_validate_fail s = s\<lparr>vs_count := vs_count s + 1\<rparr>"

definition set_validation_report :: "validation_failure list option \<Rightarrow> validation_state \<Rightarrow> validation_state" where
  "set_validation_report r s = s\<lparr>vs_report := r\<rparr>"

definition push_validate_path :: "path_seg \<Rightarrow> validation_state \<Rightarrow> validation_state" where
  "push_validate_path seg s = (if \<not> vs_active s then s else s\<lparr>vs_path := vs_path s @ [seg]\<rparr>)"

definition pop_validate_path :: "validation_state \<Rightarrow> validation_state" where
  "pop_validate_path s =
     (if \<not> vs_active s then s
      else if vs_path s \<noteq> [] then s\<lparr>vs_path := butlast (vs_path s)\<rparr> else s)"

definition append_segment :: "string \<Rightarrow> path_seg \<Rightarrow> string" where
  "append_segment out seg =
     (case seg of
        Seg_Index i \<Rightarrow> out @ ''['' @ to_string i @ '']''
      | Seg_Name name \<Rightarrow>
          (if out \<noteq> [] \<and> (name = [] \<or> hd name \<noteq> CHR ''['') then out @ ''.'' else out) @ name)"

definition current_validate_path :: "validation_state \<Rightarrow> string" where
  "current_validate_path s = foldl append_segment [] (vs_path s)"

definition record_validate_fail :: "string \<Rightarrow> int \<Rightarrow> bool \<Rightarrow> validation_state \<Rightarrow> validation_state" where
  "record_validate_fail type_name delta on_decode s =
     (case vs_report s of
        None \<Rightarrow> s
      | Some r \<Rightarrow> s\<lparr>vs_report := Some (r @ [\<lparr>vf_path = current_validate_path s, vf_type = type_name,
          vf_delta = delta, vf_on_decode = on_decode\<rparr>])\<rparr>)"

text \<open>\<open>ValidationReportScope\<close>: construction on an empty report, and destruction.\<close>

definition open_report_scope :: "validation_state \<Rightarrow> validation_state" where
  "open_report_scope s = (set_validation_report (Some []) s)\<lparr>vs_active := True\<rparr>"

definition close_report_scope :: "validation_state \<Rightarrow> validation_failure list \<times> validation_state" where
  "close_report_scope s =
     ((case vs_report s of None \<Rightarrow> [] | Some r \<Rightarrow> r), (set_validation_report None s)\<lparr>vs_active := False\<rparr>)"

text \<open>\<open>ValidatePathScope\<close> around a step.\<close>

definition with_validate_path :: "path_seg \<Rightarrow> (validation_state \<Rightarrow> validation_state) \<Rightarrow> validation_state \<Rightarrow> validation_state" where
  "with_validate_path seg body s = pop_validate_path (body (push_validate_path seg s))"

section \<open>Hooks and wrappers\<close>

definition validate_hook :: "validation_config \<Rightarrow> bool \<Rightarrow> type_desc \<Rightarrow> asn1_value \<Rightarrow> validation_state \<Rightarrow> validation_state" where
  "validate_hook cfg on_decode def v s =
     (if td_is_any def \<or> vc_no_validate cfg then s
      else
        (case validate def v of
           None \<Rightarrow> s
         | Some delta \<Rightarrow>
             if delta \<noteq> 0 then
               let s = bump_validate_fail s
               in if vc_report cfg then record_validate_fail (td_name def) delta on_decode s else s
             else s))"

definition validate_on_encode :: "validation_config \<Rightarrow> type_desc \<Rightarrow> asn1_value \<Rightarrow> validation_state \<Rightarrow> validation_state" where
  "validate_on_encode cfg def v s =
     (if vc_validate cfg \<and> vc_on_encode cfg then validate_hook cfg False def v s else s)"

definition validate_on_decode :: "validation_config \<Rightarrow> type_desc \<Rightarrow> asn1_value \<Rightarrow> validation_state \<Rightarrow> validation_state" where
  "validate_on_decode cfg def v s =
     (if vc_validate cfg \<and> vc_on_decode cfg then validate_hook cfg True def v s else s)"

datatype validation_policy = Lenient | Strict

text \<open>The codec behind \<open>ICodec\<close> is an argument, an action on the validation state.\<close>

definition encode_validated ::
    "validation_config \<Rightarrow> (validation_state \<Rightarrow> 'w \<times> validation_state) \<Rightarrow> validation_state \<Rightarrow> bool \<times> 'w \<times> validation_state" where
  "encode_validated cfg encode s =
     (if vc_validate cfg then
        let before = vs_count s; (w, s) = encode s in (vs_count s = before, w, s)
      else let (w, s) = encode s in (True, w, s))"

definition decode_validated ::
    "validation_config \<Rightarrow> validation_policy \<Rightarrow> (validation_state \<Rightarrow> 'v result \<times> validation_state) \<Rightarrow> validation_state
      \<Rightarrow> 'v result \<times> validation_state" where
  "decode_validated cfg policy decode s =
     (if vc_validate cfg then
        let before = vs_count s; (res, s) = decode s in
        (case res of
           Inl e \<Rightarrow> (Inl e, s)
         | Inr v \<Rightarrow>
             if policy = Strict \<and> vs_count s \<noteq> before then (Inl (DecodeError ''validation failure'' 0), s)
             else (Inr v, s))
      else decode s)"

section \<open>The delta lands on the nearest bound\<close>

definition word_clamp :: "i64 \<Rightarrow> i64 \<Rightarrow> i64 \<Rightarrow> i64" where
  "word_clamp lo hi v = (if v <s lo then lo else if hi <s v then hi else v)"

text \<open>
  The delta of an INTEGER out of its range leads to the nearest bound: added to
  the value in a 64-bit register it gives the bound, it is 0 exactly inside the range,
  and where the difference fits 64 bits its sign tells the side, positive below the
  lower bound and negative above the upper one.
\<close>

theorem integer_validate_lands:
  assumes "has_flag c CONSTRAINED" "\<not> has_flag c EXTENSIBLE" "lower_bound c \<le>s upper_bound c"
    "sint (lower_bound c) - sint v \<le> INT64_MAX" "INT64_MIN \<le> sint (upper_bound c) - sint v"
  shows "v + of_int (integer_validate c v) = word_clamp (lower_bound c) (upper_bound c) v
    \<and> (integer_validate c v = 0 \<longleftrightarrow> int_permitted c v)
    \<and> (0 < integer_validate c v \<longleftrightarrow> v <s lower_bound c) \<and> (integer_validate c v < 0 \<longleftrightarrow> upper_bound c <s v)"
proof -
  have fit: "sint (a - b) = sint a - sint b" if "INT64_MIN \<le> sint a - sint b" "sint a - sint b \<le> INT64_MAX" for a b :: i64
    using that by (simp add: sint_word_diff signed_take_bit_int_eq_self_iff)
  consider "v <s lower_bound c" | "\<not> v <s lower_bound c" "upper_bound c <s v" | "\<not> v <s lower_bound c" "\<not> upper_bound c <s v"
    by blast
  then show ?thesis
  proof cases
    case 1
    then have lt: "sint v < sint (lower_bound c)" by (simp add: word_sless_alt)
    then have d: "sint (lower_bound c - v) = sint (lower_bound c) - sint v" using assms(4) by (intro fit) simp_all
    have "sint (lower_bound c) \<le> sint (upper_bound c)" using assms(3) by (simp add: word_sle_eq)
    with 1 lt d assms(1,2) show ?thesis
      by (simp add: integer_validate_def word_clamp_def int_permitted_def word_sless_alt word_sle_eq)
  next
    case 2
    then have lt: "sint (upper_bound c) < sint v" by (simp add: word_sless_alt)
    then have d: "sint (upper_bound c - v) = sint (upper_bound c) - sint v" using assms(5) by (intro fit) simp_all
    with 2 lt assms(1,2) show ?thesis
      by (simp add: integer_validate_def word_clamp_def int_permitted_def word_sless_alt word_sle_eq)
  next
    case 3
    with assms(1,2) show ?thesis
      by (simp add: integer_validate_def word_clamp_def int_permitted_def word_sless_alt word_sle_eq)
  qed
qed

lemma integer_validate_lands_witness:
  "(300 :: i64) + of_int (integer_validate (td_constraints sample_byte) 300) = word_clamp 0 255 300"
proof -
  let ?c = "td_constraints sample_byte"
  have c: "has_flag ?c CONSTRAINED" "\<not> has_flag ?c EXTENSIBLE" "lower_bound ?c = 0" "upper_bound ?c = 255"
    by (simp_all add: rich_defs no_constraints_def has_flag_def)
  have "(300 :: i64) + of_int (integer_validate ?c 300) = word_clamp (lower_bound ?c) (upper_bound ?c) 300"
    by (rule integer_validate_lands [OF c(1,2), THEN conjunct1]) (simp_all add: c(3,4) word_sle_eq)
  then show ?thesis by (simp add: c(3,4))
qed

text \<open>
  The subtraction can overflow: a value more than \<open>INT64_MAX\<close> below the lower bound
  gets a negative delta, the sign that stands for a value above the upper bound (in
  C++ the signed overflow is undefined behaviour).
\<close>

theorem integer_validate_overflow:
  assumes "has_flag c CONSTRAINED" "\<not> has_flag c EXTENSIBLE" "INT64_MAX < sint (lower_bound c) - sint v"
  shows "v <s lower_bound c \<and> integer_validate c v = sint (lower_bound c) - sint v - 2 ^ 64 \<and> integer_validate c v < 0"
proof -
  let ?d = "sint (lower_bound c) - sint v"
  have lt: "v <s lower_bound c" using assms(3) by (simp add: word_sless_alt)
  have range: "sint (lower_bound c) < 2 ^ 63" "- (2 ^ 63) \<le> sint v"
    using sint_lt [of "lower_bound c"] sint_ge [of v] by simp_all
  have "signed_take_bit 63 ?d = signed_take_bit 63 (?d - 2 ^ 64)"
    by (rule signed_take_bit_eq_iff_take_bit_eq [THEN iffD2]) (simp add: take_bit_eq_mod)
  also have "\<dots> = ?d - 2 ^ 64"
    using range assms(3) by (simp add: signed_take_bit_int_eq_self_iff)
  finally have "sint (lower_bound c - v) = ?d - 2 ^ 64" by (simp add: sint_word_diff)
  then show ?thesis
    using lt assms range by (simp add: integer_validate_def)
qed

lemma integer_validate_overflow_witness:
  "integer_validate (no_constraints\<lparr>c_flags := CONSTRAINED, lower_bound := 1, upper_bound := 9\<rparr>) (- 0x8000000000000000) < 0"
  by (rule integer_validate_overflow [THEN conjunct2, THEN conjunct2]) (simp_all add: has_flag_def)

text \<open>The same for sizes, which never overflow.\<close>

lemma size_validate_lands:
  assumes "has_flag c SIZE_CONSTRAINED" "\<not> has_flag c SIZE_LOWER_BOUND" "\<not> has_flag c EXTENSIBLE" "size_lower c \<le> size_upper c"
  shows "int n + size_validate c n = max (size_lower c) (min (size_upper c) (int n))"
    "size_validate c n = 0 \<longleftrightarrow> size_lower c \<le> int n \<and> int n \<le> size_upper c"
  using assms by (auto simp: size_validate_def Let_def)

lemma entries_validate_eq: "entries_validate es v = (if v \<in> ee_value ` set es then 0 else 1)"
  by (induction es) auto

section \<open>Validated values go through PER\<close>

text \<open>What the tables of a validated primitive type say of its constraints.\<close>

definition leaf_table_ok :: "type_desc \<Rightarrow> bool" where
  "leaf_table_ok def \<longleftrightarrow>
     (let c = td_constraints def; n = number (builtin_tag def) in
      td_seq_of_spec def = None \<and>
      (case td_per_handler def of
         Some H_Integer \<Rightarrow> td_enum_spec def = None \<and> n = UT_Integer \<and> c_int_kind c \<noteq> INT_U64 \<and> int_constraint_wf c
       | Some H_UInteger \<Rightarrow> td_enum_spec def = None \<and> n = UT_Integer \<and> c_int_kind c = INT_U64 \<and> uint_constraint_wf c
       | Some H_OctetString \<Rightarrow> td_enum_spec def = None \<and> n = UT_OctetString \<and> size_wf c \<and>
           \<not> (has_flag c SIZE_CONSTRAINED \<and> has_flag c SIZE_LOWER_BOUND)
       | Some H_Enumerated \<Rightarrow> (case td_enum_spec def of None \<Rightarrow> False | Some spec \<Rightarrow> enum_wf spec)
       | _ \<Rightarrow> False))"

lemma integer_validate_permits: "integer_validate c v = 0 \<Longrightarrow> int_permitted c v"
proof -
  assume z: "integer_validate c v = 0"
  have "sint (a - b) = 0 \<longleftrightarrow> a = b" for a b :: i64 unfolding signed_eq_0_iff by simp
  with z show ?thesis
    by (auto simp: integer_validate_def int_permitted_def word_sless_alt word_sle_eq split: if_splits)
qed

lemma uinteger_validate_permits: "uinteger_validate c v = 0 \<Longrightarrow> uint_permitted c v"
proof -
  assume z: "uinteger_validate c v = 0"
  have "uint (a - b) = 0 \<longleftrightarrow> a = b" for a b :: u64 unfolding unsigned_eq_0_iff by simp
  with z show ?thesis
    by (auto simp: uinteger_validate_def uint_permitted_def Let_def not_less split: if_splits)
qed

lemma validated_leaf_sendable:
  assumes "validate def v = Some 0" "leaf_table_ok def"
  shows "leaf_sendable def v"
proof (cases "td_per_handler def")
  case (Some h)
  note defs = leaf_table_ok_def validate_def leaf_sendable_def Let_def Some
  consider "h = H_Integer" | "h = H_UInteger" | "h = H_OctetString" | "h = H_Enumerated"
    using assms(2) Some by (cases h) (auto simp: leaf_table_ok_def Let_def)
  then show ?thesis
  proof cases
    case 1
    with assms show ?thesis
      by (auto simp: defs integer_validate_permits split: asn1_value.splits if_splits)
  next
    case 2
    with assms show ?thesis
      by (auto simp: defs uinteger_validate_permits split: asn1_value.splits if_splits)
  next
    case 3
    with assms show ?thesis
      by (auto simp: defs octet_string_validate_def size_validate_def size_permitted_def size_count_is_constrained_def
          split: asn1_value.splits if_splits)
  next
    case 4
    with assms show ?thesis
      by (auto simp: defs enum_validate_def entries_validate_eq split: asn1_value.splits option.splits if_splits)
  qed
qed (use assms(2) in \<open>simp add: leaf_table_ok_def Let_def\<close>)

text \<open>
  C30: validation is what PER needs: a primitive value (INTEGER signed or unsigned,
  OCTET STRING, ENUMERATED) that \<open>validate\<close> accepts is encoded without a failure and
  decoded to itself.
\<close>

theorem validated_value_roundtrip:
  assumes "validate def v = Some 0" "leaf_table_ok def" "\<not> depth_counts def" "env_wf \<Gamma>" "shaped \<Gamma> def dest"
  shows "\<not> pe_failed (per_encode \<Gamma> def v new_per_enc)
    \<and> (\<exists>d. per_decode \<Gamma> def dest (new_per_dec (per_encode_value \<Gamma> def v)) = Inr (v, d))"
proof -
  have leaf: "leaf_sendable def v" by (rule validated_leaf_sendable [OF assms(1,2)])
  then have "height v \<le> kMaxDecodeDepth"
    by (auto simp: leaf_sendable_def Let_def split: handler.splits option.splits asn1_value.splits)
  moreover have "sendable \<Gamma> def v" using leaf assms(3) by (rule sendable_leaf)
  ultimately show ?thesis
    using per.stream_roundtrip [of \<Gamma> def dest v] per_encode_signals_nothing [of \<Gamma> def v dest new_per_enc] assms(4,5)
    unfolding per_encode_value_def by (simp add: new_per_enc_def)
qed

lemma validated_value_roundtrip_witness:
  "\<exists>d. per_decode rich_env sample_colour (V_Enum 0) (new_per_dec (per_encode_value rich_env sample_colour (V_Enum 5))) = Inr (V_Enum 5, d)"
proof (rule validated_value_roundtrip [OF _ _ _ env_wf_rich, THEN conjunct2])
  show "validate sample_colour (V_Enum 5) = Some 0" by code_simp
  show "leaf_table_ok sample_colour"
    by (simp add: leaf_table_ok_def rich_defs enum_wf_def enum_sorted_def enum_root_count_def word_sle_eq word_sless_alt)
  show "shaped rich_env sample_colour (V_Enum 0)" by (rule rich_shapes)
qed (simp add: depth_counts_def rich_defs)

section \<open>Hooks\<close>

text \<open>A scope leaves the path as it found it, whatever is recorded inside.\<close>

definition path_kept :: "(validation_state \<Rightarrow> validation_state) \<Rightarrow> bool" where
  "path_kept f \<longleftrightarrow> (\<forall>s. vs_path (f s) = vs_path s \<and> vs_active (f s) = vs_active s)"

lemma path_kept_scope: "path_kept f \<Longrightarrow> path_kept (with_validate_path seg f)"
  by (simp add: path_kept_def with_validate_path_def push_validate_path_def pop_validate_path_def)

lemma path_kept_comp: "path_kept f \<Longrightarrow> path_kept g \<Longrightarrow> path_kept (\<lambda>s. g (f s))"
  by (simp add: path_kept_def)

lemma path_kept_hook: "path_kept (validate_hook cfg dec def v)"
  by (auto simp: path_kept_def validate_hook_def bump_validate_fail_def record_validate_fail_def Let_def split: option.splits)

text \<open>The path of the documentation.\<close>

lemma documented_path:
  "current_validate_path (initial_validation\<lparr>vs_path := [Seg_Name ''Foo'', Seg_Name ''bar'', Seg_Name ''items'', Seg_Index 3, Seg_Name ''n'']\<rparr>)
     = ''Foo.bar.items[3].n''"
  by code_simp

text \<open>
  A strict decode refuses what validation finds, provided the hooks are compiled in:
  with \<open>ASN1CPP_VALIDATE\<close> but without \<open>ASN1CPP_VALIDATE_ON_DECODE\<close> it accepts every value.
\<close>

lemma strict_decode:
  assumes "vc_validate cfg" "\<not> td_is_any def" "\<not> vc_no_validate cfg"
  shows "fst (decode_validated cfg Strict (\<lambda>s. (Inr v, validate_on_decode cfg def v s)) s) =
    (if vc_on_decode cfg \<and> validate def v \<notin> {None, Some 0} then Inl (DecodeError ''validation failure'' 0) else Inr v)"
  using assms
  by (auto simp: decode_validated_def validate_on_decode_def validate_hook_def bump_validate_fail_def
      record_validate_fail_def Let_def split: option.splits)

end
