(* ===== verification/Text_Codecs.thy ===== *)
theory Text_Codecs
  imports Char_Strings
begin

text \<open>
  What the textual encodings share: octets as characters, hexadecimal
  (\<open>src/HexEncoder.hpp\<close>, \<open>parse_hex_str\<close>), decimal numbers (\<open>operator<<\<close> and
  \<open>std::from_chars\<close>), object identifier arcs and the UTF-8 form of wide strings
  (\<open>xer_detail\<close> in \<open>codec/XerCodec.hpp\<close>). A \<open>std::string\<close> is a \<^typ>\<open>string\<close>, a list of
  8-bit characters.
\<close>

unbundle bit_operations_syntax

section \<open>Octets and characters\<close>

definition byte_of :: "char \<Rightarrow> byte" where
  "byte_of c = of_nat (of_char c)"

definition char_of_byte :: "byte \<Rightarrow> char" where
  "char_of_byte b = char_of (unat b)"

lemma byte_of_char_of_byte [simp]: "byte_of (char_of_byte b) = b"
  by (simp add: byte_of_def char_of_byte_def word_unat_eq_iff)

lemma char_of_byte_of [simp]: "char_of_byte (byte_of c) = c"
proof -
  have "of_char c < (256 :: nat)" by simp
  then show ?thesis by (simp add: byte_of_def char_of_byte_def unat_of_nat)
qed

lemma octets_of_chars [simp]: "map byte_of (map char_of_byte bs) = bs"
  by (simp add: comp_def)

lemma chars_of_octets [simp]: "map char_of_byte (map byte_of s) = s"
  by (simp add: comp_def)

definition code_of :: "char \<Rightarrow> nat" where
  "code_of c = of_char c"

lemma code_of_less [simp]: "code_of c < 256"
  by (simp add: code_of_def)

lemma code_of_inject: "code_of c = code_of d \<longleftrightarrow> c = d"
  by (simp add: code_of_def)

lemma code_of_char_of [simp]: "n < 256 \<Longrightarrow> code_of (char_of n) = n"
  by (simp add: code_of_def)

lemma unat_byte_of: "unat (byte_of c) = code_of c"
proof -
  have "of_char c < (256 :: nat)" by simp
  then show ?thesis by (simp add: byte_of_def code_of_def unat_of_nat)
qed

text \<open>\<open>c >= 'x' && c <= 'y'\<close>.\<close>

definition between :: "char \<Rightarrow> char \<Rightarrow> char \<Rightarrow> bool" where
  "between lo c hi \<longleftrightarrow> code_of lo \<le> code_of c \<and> code_of c \<le> code_of hi"

section \<open>Hexadecimal\<close>

text \<open>\<open>k_hex_pairs\<close>: the two characters of an octet.\<close>

definition hex_digit :: "nat \<Rightarrow> char" where
  "hex_digit n = ''0123456789ABCDEF'' ! n"

definition hex_pair :: "byte \<Rightarrow> string" where
  "hex_pair b = [hex_digit (unat (drop_bit 4 b)), hex_digit (unat (b AND 0xF))]"

definition hex_encode_upper :: "byte list \<Rightarrow> string" where
  "hex_encode_upper bytes = concat (map hex_pair bytes)"

text \<open>\<open>hex_val\<close> and \<open>parse_hex_str\<close>: no character is refused, an odd last digit is dropped.\<close>

definition hex_val :: "char \<Rightarrow> byte" where
  "hex_val c =
     (if between CHR ''0'' c CHR ''9'' then byte_of c - byte_of CHR ''0''
      else if between CHR ''A'' c CHR ''F'' then byte_of c - byte_of CHR ''A'' + 10
      else byte_of c - byte_of CHR ''a'' + 10)"

fun parse_hex_str :: "string \<Rightarrow> byte list" where
  "parse_hex_str (a # b # s) = (push_bit 4 (hex_val a) OR hex_val b) # parse_hex_str s"
| "parse_hex_str _ = []"

lemma hex_val_digits: "\<forall>n \<in> set [0..<16]. hex_val (hex_digit n) = of_nat n"
  by code_simp

lemma hex_val_digit: "n < 16 \<Longrightarrow> hex_val (hex_digit n) = of_nat n"
  using hex_val_digits by simp

lemma nibbles: "push_bit 4 (drop_bit 4 b) OR (b AND 0xF) = b" for b :: byte
proof -
  have "b AND 0xF = take_bit 4 b" by (simp only: take_bit_eq_mask mask_eq_exp_minus_1) simp
  then show ?thesis by (simp add: bit_eq_iff bit_simps) (auto simp: not_le)
qed

lemma nibble_less: "unat (drop_bit 4 b) < 16" "unat (b AND 0xF) < 16" for b :: byte
proof -
  show "unat (drop_bit 4 b) < 16"
    using unat_byte_less [of b] by (simp add: drop_bit_eq_div unat_div less_mult_imp_div_less)
  have "b AND 0xF = take_bit 4 b" by (simp only: take_bit_eq_mask mask_eq_exp_minus_1) simp
  then show "unat (b AND 0xF) < 16" by (simp add: take_bit_eq_mod unat_mod_distrib)
qed

lemma parse_hex_encode [simp]: "parse_hex_str (hex_encode_upper bs) = bs"
  by (induction bs) (simp_all add: hex_encode_upper_def hex_pair_def hex_val_digit nibble_less nibbles)

section \<open>Decimal numbers\<close>

definition is_digit :: "char \<Rightarrow> bool" where
  "is_digit c \<longleftrightarrow> between CHR ''0'' c CHR ''9''"

text \<open>\<open>operator<<\<close> of the stream and \<open>std::to_string\<close> on a signed number.\<close>

definition int_text :: "int \<Rightarrow> string" where
  "int_text n = (if n < 0 then CHR ''-'' # to_string (nat (- n)) else to_string (nat n))"

definition decimal_value :: "string \<Rightarrow> nat" where
  "decimal_value s = foldl (\<lambda>v c. v * 10 + (code_of c - 48)) 0 s"

text \<open>
  \<open>std::from_chars\<close> for an unsigned type with the largest value \<open>hi\<close> and for a signed type:
  the value and the rest of the text, \<open>None\<close> for \<open>ec != std::errc{}\<close> (no digit, or out of
  range). What follows the digits is left to the caller.
\<close>

definition from_chars_unsigned :: "nat \<Rightarrow> string \<Rightarrow> (nat \<times> string) option" where
  "from_chars_unsigned hi s =
     (let ds = takeWhile is_digit s in
      if ds = [] \<or> decimal_value ds > hi then None else Some (decimal_value ds, dropWhile is_digit s))"

definition from_chars_signed :: "int \<Rightarrow> int \<Rightarrow> string \<Rightarrow> (int \<times> string) option" where
  "from_chars_signed lo hi s =
     (let neg = (s \<noteq> [] \<and> hd s = CHR ''-'');
          ds = takeWhile is_digit (if neg then tl s else s);
          v = (if neg then - int (decimal_value ds) else int (decimal_value ds))
      in if ds = [] \<or> v < lo \<or> v > hi then None
         else Some (v, dropWhile is_digit (if neg then tl s else s)))"

lemma is_digit_char: "d < 10 \<Longrightarrow> is_digit (char_of (48 + d))" for d :: nat
  by (simp add: is_digit_def between_def) (simp add: code_of_def)

lemma to_string_digits: "s = to_string n \<Longrightarrow> s \<noteq> [] \<and> list_all is_digit s \<and> decimal_value s = n"
proof (induction n arbitrary: s rule: to_string.induct)
  case (1 n)
  show ?case
  proof (cases "n < 10")
    case True
    then show ?thesis
      using 1(2) by (simp add: to_string.simps [of n] is_digit_char decimal_value_def)
  next
    case False
    have ih: "list_all is_digit (to_string (n div 10)) \<and> decimal_value (to_string (n div 10)) = n div 10"
      using 1(1) [OF False refl] by simp
    have "n div 10 * 10 + n mod 10 = n" by simp
    then show ?thesis
      using 1(2) ih False by (simp add: to_string.simps [of n] is_digit_char decimal_value_def)
  qed
qed

lemmas to_string_nonempty = to_string_digits [OF refl, THEN conjunct1]
lemmas to_string_all_digits = to_string_digits [OF refl, THEN conjunct2, THEN conjunct1]
lemmas decimal_to_string = to_string_digits [OF refl, THEN conjunct2, THEN conjunct2]

text \<open>A text that a number in front of it ends at.\<close>

definition no_digit :: "string \<Rightarrow> bool" where
  "no_digit s \<longleftrightarrow> s = [] \<or> \<not> is_digit (hd s)"

lemma takeWhile_digits:
  assumes "list_all is_digit ds" "no_digit s"
  shows "takeWhile is_digit (ds @ s) = ds" "dropWhile is_digit (ds @ s) = s"
proof -
  have "takeWhile is_digit s = []" "dropWhile is_digit s = s"
    using assms(2) by (cases s; simp add: no_digit_def)+
  then show "takeWhile is_digit (ds @ s) = ds" "dropWhile is_digit (ds @ s) = s"
    using assms(1) by (simp_all add: takeWhile_append2 dropWhile_append2 list_all_iff)
qed

lemma from_chars_unsigned_text:
  "n \<le> hi \<Longrightarrow> no_digit s \<Longrightarrow> from_chars_unsigned hi (to_string n @ s) = Some (n, s)"
  by (simp add: from_chars_unsigned_def takeWhile_digits to_string_all_digits decimal_to_string to_string_nonempty)

lemma to_string_hd: "hd (to_string n @ s) \<noteq> CHR ''-''"
  using to_string_digits [OF refl, of n]
  by (cases "to_string n") (auto simp: is_digit_def between_def code_of_def)

lemma from_chars_signed_text:
  assumes "lo \<le> n" "n \<le> hi" "no_digit s"
  shows "from_chars_signed lo hi (int_text n @ s) = Some (n, s)"
proof (cases "n < 0")
  case True
  then show ?thesis
    using assms
    by (simp add: from_chars_signed_def int_text_def takeWhile_digits to_string_all_digits decimal_to_string
        to_string_nonempty Let_def)
next
  case False
  then show ?thesis
    using assms to_string_hd [of "nat n" s]
    by (simp add: from_chars_signed_def int_text_def takeWhile_digits to_string_all_digits decimal_to_string
        to_string_nonempty Let_def)
qed

section \<open>Object identifiers\<close>

fun format_arcs :: "u32 list \<Rightarrow> string" where
  "format_arcs [] = []"
| "format_arcs [a] = to_string (unat a)"
| "format_arcs (a # as) = to_string (unat a) @ CHR ''.'' # format_arcs as"

lemma from_chars_unsigned_shrinks: "from_chars_unsigned hi s = Some (v, rest) \<Longrightarrow> length rest < length s"
proof -
  assume "from_chars_unsigned hi s = Some (v, rest)"
  then have "takeWhile is_digit s \<noteq> []" "rest = dropWhile is_digit s"
    by (auto simp: from_chars_unsigned_def Let_def split: if_splits)
  then show ?thesis
    by (metis add_less_cancel_left length_append length_greater_0_conv less_add_same_cancel2 takeWhile_dropWhile_id)
qed

text \<open>\<open>parse_arcs\<close> stops at the first thing that is not a number of 32 bits, without an error.\<close>

function parse_arcs :: "string \<Rightarrow> u32 list" where
  "parse_arcs s =
     (if s = [] then []
      else
        (case from_chars_unsigned 0xFFFFFFFF s of
           None \<Rightarrow> []
         | Some (v, rest) \<Rightarrow>
             of_nat v # parse_arcs (if rest \<noteq> [] \<and> hd rest = CHR ''.'' then tl rest else rest)))"
  by pat_completeness auto
termination
  by (relation "measure length")
     (auto dest!: from_chars_unsigned_shrinks simp: less_diff_conv dest: Suc_lessD intro: le_less_trans [OF diff_le_self])

declare parse_arcs.simps [simp del]

lemma unat_u32_le: "unat a \<le> 0xFFFFFFFF" for a :: u32
proof -
  have "unat a < 0x100000000" by (rule less_le_trans [OF unsigned_less]) simp
  then show ?thesis by simp
qed

lemma no_digit_dot: "no_digit (CHR ''.'' # s)"
  by (simp add: no_digit_def is_digit_def between_def code_of_def)

lemma parse_format_arcs [simp]: "parse_arcs (format_arcs as) = as"
proof (induction as rule: format_arcs.induct)
  case 1
  show ?case by (simp add: parse_arcs.simps)
next
  case (2 a)
  have "from_chars_unsigned 0xFFFFFFFF (to_string (unat a)) = Some (unat a, [])"
    using unat_u32_le from_chars_unsigned_text [where n = "unat a" and hi = "0xFFFFFFFF" and s = "[]"] by (simp add: no_digit_def)
  then show ?case by (simp add: parse_arcs.simps to_string_nonempty)
next
  case (3 a b bs)
  have "from_chars_unsigned 0xFFFFFFFF (format_arcs (a # b # bs)) = Some (unat a, CHR ''.'' # format_arcs (b # bs))"
    using unat_u32_le from_chars_unsigned_text [where n = "unat a" and hi = "0xFFFFFFFF" and s = "CHR ''.'' # format_arcs (b # bs)"]
    by (simp add: no_digit_dot)
  then show ?case using 3 by (subst parse_arcs.simps) (simp add: to_string_nonempty)
qed

section \<open>Wide strings in UTF-8\<close>

definition utf8_encode_cp :: "u32 \<Rightarrow> byte list" where
  "utf8_encode_cp cp =
     (if cp < 0x80 then [ucast cp]
      else if cp < 0x800 then
        [0xC0 OR ucast (drop_bit 6 cp), 0x80 OR ucast (cp AND 0x3F)]
      else if cp < 0x10000 then
        [0xE0 OR ucast (drop_bit 12 cp), 0x80 OR ucast (drop_bit 6 cp AND 0x3F), 0x80 OR ucast (cp AND 0x3F)]
      else
        [0xF0 OR ucast (drop_bit 18 cp AND 0x07), 0x80 OR ucast (drop_bit 12 cp AND 0x3F),
         0x80 OR ucast (drop_bit 6 cp AND 0x3F), 0x80 OR ucast (cp AND 0x3F)])"

text \<open>The octets that follow the first one, at most \<open>extra\<close> and none beyond the end.\<close>

fun utf8_continue :: "nat \<Rightarrow> u32 \<Rightarrow> byte list \<Rightarrow> u32 \<times> byte list" where
  "utf8_continue (Suc extra) cp (b # s) = utf8_continue extra (push_bit 6 cp OR (ucast b AND 0x3F)) s"
| "utf8_continue _ cp s = (cp, s)"

definition utf8_decode_cp :: "byte \<Rightarrow> byte list \<Rightarrow> u32 \<times> byte list" where
  "utf8_decode_cp c s =
     (if c AND 0x80 = 0 then (ucast c, s)
      else if c AND 0xE0 = 0xC0 then utf8_continue 1 (ucast c AND 0x1F) s
      else if c AND 0xF0 = 0xE0 then utf8_continue 2 (ucast c AND 0x0F) s
      else if c AND 0xF8 = 0xF0 then utf8_continue 3 (ucast c AND 0x07) s
      else (0xFFFD, s))"

text \<open>\<open>wide_to_utf8\<close> and the loop that reads it back; a unit has \<open>stride\<close> octets.\<close>

definition wide_to_utf8 :: "nat \<Rightarrow> byte list \<Rightarrow> byte list" where
  "wide_to_utf8 stride sv = concat (map utf8_encode_cp (wide_points stride sv 0))"

definition cp_octets :: "nat \<Rightarrow> u32 \<Rightarrow> byte list" where
  "cp_octets stride cp = map (\<lambda>k. ucast (drop_bit (8 * k) cp)) (rev [0..<stride])"

lemma utf8_continue_shrinks: "utf8_continue k cp s = (cp', s') \<Longrightarrow> length s' \<le> length s"
  by (induction k cp s rule: utf8_continue.induct) auto

lemma utf8_decode_shrinks: "utf8_decode_cp c s = (cp, s') \<Longrightarrow> length s' \<le> length s"
  by (auto simp: utf8_decode_cp_def split: if_splits dest: utf8_continue_shrinks)

function utf8_to_wide :: "nat \<Rightarrow> byte list \<Rightarrow> byte list" where
  "utf8_to_wide stride [] = []"
| "utf8_to_wide stride (c # s) =
     (let (cp, rest) = utf8_decode_cp c s in cp_octets stride cp @ utf8_to_wide stride rest)"
  by pat_completeness auto
termination
proof (relation "measure (\<lambda>(stride, s). length s)", goal_cases)
  case (2 stride c s x cp rest)
  then have "utf8_decode_cp c s = (cp, rest)" by (simp only:)
  from utf8_decode_shrinks [OF this] show ?case by (simp only: in_measure prod.case list.size)
qed simp

text \<open>A first octet carries \<open>k\<close> bits of the code point behind its marker \<open>p\<close>.\<close>

lemma lead_octet:
  fixes x :: u32 and p :: byte
  assumes "take_bit k x = x" "k \<le> 8"
  shows "ucast (push_bit k p OR ucast x :: byte) AND mask k = x"
    "(push_bit k p OR ucast x) AND push_bit k (mask (8 - k)) = push_bit k p"
proof -
  have x: "n < k" if "bit x n" for n using that assms(1) by (metis bit_take_bit_iff)
  show "ucast (push_bit k p OR ucast x :: byte) AND mask k = x"
    using assms(2) by (intro bit_eqI) (auto simp: bit_simps dest: x)
  show "(push_bit k p OR ucast x) AND push_bit k (mask (8 - k)) = push_bit k p"
    using assms(2) by (intro bit_eqI) (auto simp: bit_simps dest: x)
qed

lemma and_mask6: "x AND 0x3F = take_bit 6 x" for x :: u32
  by (simp only: take_bit_eq_mask mask_eq_exp_minus_1) simp

lemma continuation_octet: "ucast (0x80 OR ucast (x AND 0x3F) :: byte) AND 0x3F = take_bit 6 x" for x :: u32
proof -
  have "ucast (push_bit 6 2 OR ucast (take_bit 6 x) :: byte) AND mask 6 = take_bit 6 x"
    by (rule lead_octet) simp_all
  then show ?thesis unfolding and_mask6 [symmetric] by (simp add: mask_eq_exp_minus_1)
qed

lemma six_bits: "push_bit 6 (drop_bit 6 x) OR take_bit 6 x = x" for x :: u32
  by (simp add: bit_eq_iff bit_simps) (auto simp: not_le)

lemma take_drop_fits: "unat x < 2 ^ (m + k) \<Longrightarrow> take_bit k (drop_bit m x) = drop_bit m x" for x :: u32
proof -
  assume "unat x < 2 ^ (m + k)"
  then have "take_bit (m + k) x = x" by (simp add: word_unat_eq_iff unsigned_take_bit_eq take_bit_nat_eq_self)
  then show ?thesis by (metis add_diff_cancel_left' drop_bit_take_bit)
qed

lemma six_more: "push_bit 6 (drop_bit (m + 6) x) OR take_bit 6 (drop_bit m x) = drop_bit m x" for x :: u32
  using six_bits [of "drop_bit m x"] by (simp add: add.commute)

lemma sub_mask: "b AND M = V \<Longrightarrow> M AND K = K \<Longrightarrow> b AND K = V AND K" for b :: byte
  by (metis and.assoc)

lemma utf8_leads:
  fixes x :: u32
  shows "take_bit 5 x = x \<Longrightarrow> utf8_decode_cp (0xC0 OR ucast x) s = utf8_continue 1 x s"
    "take_bit 4 x = x \<Longrightarrow> utf8_decode_cp (0xE0 OR ucast x) s = utf8_continue 2 x s"
    "take_bit 3 x = x \<Longrightarrow> utf8_decode_cp (0xF0 OR ucast x) s = utf8_continue 3 x s"
proof -
  assume x: "take_bit 5 x = x"
  let ?c = "0xC0 OR ucast x :: byte"
  have m: "?c AND 0xE0 = 0xC0" "ucast ?c AND 0x1F = x" using lead_octet [OF x, of 6] by (simp_all add: mask_eq_exp_minus_1)
  show "utf8_decode_cp ?c s = utf8_continue 1 x s" using m sub_mask [OF m(1), of "0x80"] by (simp add: utf8_decode_cp_def)
next
  assume x: "take_bit 4 x = x"
  let ?c = "0xE0 OR ucast x :: byte"
  have m: "?c AND 0xF0 = 0xE0" "ucast ?c AND 0x0F = x" using lead_octet [OF x, of 14] by (simp_all add: mask_eq_exp_minus_1)
  show "utf8_decode_cp ?c s = utf8_continue 2 x s"
    using m sub_mask [OF m(1), of "0x80"] sub_mask [OF m(1), of "0xE0"] by (simp add: utf8_decode_cp_def)
next
  assume x: "take_bit 3 x = x"
  let ?c = "0xF0 OR ucast x :: byte"
  have m: "?c AND 0xF8 = 0xF0" "ucast ?c AND 0x07 = x" using lead_octet [OF x, of 30] by (simp_all add: mask_eq_exp_minus_1)
  show "utf8_decode_cp ?c s = utf8_continue 3 x s"
    using m sub_mask [OF m(1), of "0x80"] sub_mask [OF m(1), of "0xE0"] sub_mask [OF m(1), of "0xF0"] by (simp add: utf8_decode_cp_def)
qed

lemma utf8_continue_steps:
  "utf8_continue 1 (drop_bit 6 x) ((0x80 OR ucast (x AND 0x3F)) # s) = (x, s)"
  "utf8_continue 2 (drop_bit 12 x) ((0x80 OR ucast (drop_bit 6 x AND 0x3F)) # s) = utf8_continue 1 (drop_bit 6 x) s"
  "utf8_continue 3 (drop_bit 18 x) ((0x80 OR ucast (drop_bit 12 x AND 0x3F)) # s) = utf8_continue 2 (drop_bit 12 x) s"
proof -
  have step: "utf8_continue (Suc k) (drop_bit (m + 6) x) ((0x80 OR ucast (drop_bit m x AND 0x3F)) # s)
      = utf8_continue k (drop_bit m x) s" for k m
    by (simp add: continuation_octet six_more)
  show "utf8_continue 1 (drop_bit 6 x) ((0x80 OR ucast (x AND 0x3F)) # s) = (x, s)"
    using step [of 0 0] by simp
  show "utf8_continue 2 (drop_bit 12 x) ((0x80 OR ucast (drop_bit 6 x AND 0x3F)) # s) = utf8_continue 1 (drop_bit 6 x) s"
    using step [of 1 6] by (simp add: numeral_2_eq_2 del: utf8_continue.simps)
  show "utf8_continue 3 (drop_bit 18 x) ((0x80 OR ucast (drop_bit 12 x AND 0x3F)) # s) = utf8_continue 2 (drop_bit 12 x) s"
    using step [of 2 12] by (simp add: numeral_3_eq_3 numeral_2_eq_2 del: utf8_continue.simps)
qed

lemma utf8_decode_encode:
  assumes "cp < 0x200000"
  shows "\<exists>c s. utf8_encode_cp cp = c # s \<and> utf8_decode_cp c (s @ rest) = (cp, rest)"
proof -
  consider "cp < 0x80" | "\<not> cp < 0x80" "cp < 0x800" | "\<not> cp < 0x800" "cp < 0x10000" | "\<not> cp < 0x10000" by blast
  then show ?thesis
  proof cases
    case 1
    have t: "take_bit 7 cp = cp" using take_drop_fits [of cp 0 7] 1 by (simp add: word_less_nat_alt)
    have "ucast cp AND (0x80 :: byte) = 0" using lead_octet(2) [OF t, of 0] by (simp add: mask_eq_exp_minus_1)
    moreover have "ucast (ucast cp :: byte) = cp"
      using take_drop_fits [of cp 0 8] 1 by (simp add: unsigned_ucast_eq word_less_nat_alt)
    ultimately show ?thesis using 1 by (simp add: utf8_encode_cp_def utf8_decode_cp_def)
  next
    case 2
    have t: "take_bit 5 (drop_bit 6 cp) = drop_bit 6 cp"
      using take_drop_fits [of cp 6 5] 2 by (simp add: word_less_nat_alt)
    show ?thesis
      using 2 by (simp add: utf8_encode_cp_def utf8_leads(1) [OF t] utf8_continue_steps del: utf8_continue.simps One_nat_def)
  next
    case 3
    have t: "take_bit 4 (drop_bit 12 cp) = drop_bit 12 cp"
      using take_drop_fits [of cp 12 4] 3 by (simp add: word_less_nat_alt)
    have "\<not> cp < 0x80" using 3(1) by (simp add: word_less_nat_alt)
    then show ?thesis
      using 3 by (simp add: utf8_encode_cp_def utf8_leads(2) [OF t] utf8_continue_steps del: utf8_continue.simps One_nat_def)
  next
    case 4
    have t: "take_bit 3 (drop_bit 18 cp) = drop_bit 18 cp"
      using take_drop_fits [of cp 18 3] assms by (simp add: word_less_nat_alt)
    have m: "drop_bit 18 cp AND 7 = drop_bit 18 cp"
      using t by (simp add: take_bit_eq_mask mask_eq_exp_minus_1)
    have "\<not> cp < 0x80" "\<not> cp < 0x800" using 4 by (simp_all add: word_less_nat_alt)
    then show ?thesis
      using 4 by (simp add: utf8_encode_cp_def m utf8_leads(3) [OF t] utf8_continue_steps del: utf8_continue.simps One_nat_def)
  qed
qed

text \<open>The octets of a unit come back from its value.\<close>

lemma wide_unit_snoc: "wide_unit (u @ [b]) = push_bit 8 (wide_unit u) OR ucast b"
  by (simp add: wide_unit_def)

lemma cp_octets_Suc: "cp_octets (Suc n) cp = cp_octets n (drop_bit 8 cp) @ [ucast cp]"
proof -
  have "cp_octets (Suc n) cp = map (\<lambda>k. ucast (drop_bit (8 * k) cp)) (rev (map Suc [0..<n])) @ [ucast cp]"
    unfolding cp_octets_def upt_conv_Cons [OF zero_less_Suc] map_Suc_upt [symmetric] by simp
  then show ?thesis by (simp add: cp_octets_def rev_map comp_def drop_bit_drop_bit add.commute)
qed

lemma wide_unit_bits: "bit (wide_unit u) n \<Longrightarrow> n < 8 * length u"
proof (induction u arbitrary: n rule: rev_induct)
  case Nil
  then show ?case by (simp add: wide_unit_def)
next
  case (snoc b u)
  then consider "8 \<le> n" "bit (wide_unit u) (n - 8)" | "bit b n" by (auto simp: wide_unit_snoc bit_simps)
  then show ?case
  proof cases
    case 1
    then show ?thesis using snoc.IH [of "n - 8"] by simp
  next
    case 2
    then show ?thesis using bit_imp_le_length [of b n] by simp
  qed
qed

lemma unit_fits: "length u \<le> 3 \<Longrightarrow> drop_bit 8 (push_bit 8 (wide_unit u) OR ucast b) = wide_unit u" for b :: byte
  by (rule bit_eqI) (auto simp: bit_simps dest: bit_imp_le_length wide_unit_bits)

lemma cp_octets_wide_unit: "length u \<le> 4 \<Longrightarrow> cp_octets (length u) (wide_unit u) = u"
proof (induction u rule: rev_induct)
  case Nil
  show ?case by (simp add: cp_octets_def)
next
  case (snoc b u)
  have "ucast (push_bit 8 (wide_unit u) OR ucast b) = b" by (rule bit_eqI) (auto simp: bit_simps)
  then show ?case using snoc by (simp only: wide_unit_snoc cp_octets_Suc unit_fits length_append_singleton)
qed

definition wide_ok :: "nat \<Rightarrow> byte list \<Rightarrow> bool" where
  "wide_ok stride sv \<longleftrightarrow> 0 < stride \<and> stride \<le> 4 \<and> length sv mod stride = 0 \<and> list_all (\<lambda>cp. cp < 0x200000) (wide_points stride sv 0)"

lemma utf8_to_wide_points:
  "0 < stride \<Longrightarrow> stride \<le> 4 \<Longrightarrow> (length sv - i) mod stride = 0 \<Longrightarrow> i \<le> length sv \<Longrightarrow>
   list_all (\<lambda>cp. cp < 0x200000) (wide_points stride sv i) \<Longrightarrow>
   utf8_to_wide stride (concat (map utf8_encode_cp (wide_points stride sv i))) = drop i sv"
proof (induction stride sv i rule: wide_points.induct)
  case (1 w s i)
  show ?case
  proof (cases "i + w \<le> length s")
    case True
    let ?u = "take w (drop i s)" and ?rest = "concat (map utf8_encode_cp (wide_points w s (i + w)))"
    have here: "wide_points w s i = wide_unit ?u # wide_points w s (i + w)"
      using True 1(2) by (simp add: wide_points.simps [of w s i])
    have "length s - i = length s - (i + w) + w" using True by simp
    then have "(length s - (i + w)) mod w = 0" using 1(4) by (metis mod_add_self2)
    then have ih: "utf8_to_wide w ?rest = drop (i + w) s"
      using 1(1,2,3,6) True here by simp
    obtain c t where ct: "utf8_encode_cp (wide_unit ?u) = c # t" "utf8_decode_cp c (t @ ?rest) = (wide_unit ?u, ?rest)"
      using utf8_decode_encode [of "wide_unit ?u" ?rest] 1(6) here by auto
    have "cp_octets w (wide_unit ?u) = ?u" using cp_octets_wide_unit [of ?u] 1(3) True by simp
    moreover have "?u @ drop (i + w) s = drop i s" by (metis append_take_drop_id drop_drop add.commute)
    ultimately show ?thesis using ct ih by (simp add: here)
  next
    case False
    have "length s - i < w" using False 1(5) by linarith
    then have "i = length s" using 1(4,5) by simp
    moreover have "wide_points w s i = []" using False by (simp add: wide_points.simps [of w s i])
    ultimately show ?thesis by simp
  qed
qed

lemma utf8_to_wide_to_utf8: "wide_ok stride sv \<Longrightarrow> utf8_to_wide stride (wide_to_utf8 stride sv) = sv"
  using utf8_to_wide_points [of stride sv 0] by (simp add: wide_ok_def wide_to_utf8_def)

end
