(* ===== verification/Xer_Text.thy ===== *)
theory Xer_Text
  imports Text_Codecs
begin

text \<open>
  The text layer of the XER codec (\<open>xer_detail\<close> in \<open>codec/XerCodec.hpp\<close> and the static
  helpers of \<open>src/XerCodec.cpp\<close>): tags, character data with its entities, hex and base64
  octets, and the mixed content of the \<open>utf8\<close> encoding instruction. A \<open>XerDecodeStream\<close> is
  the text from its position on.
\<close>

unbundle bit_operations_syntax

section \<open>Tags\<close>

text \<open>The table \<open>xer_ws\<close>: tab, line feed, carriage return and space.\<close>

definition xer_ws :: "char \<Rightarrow> bool" where
  "xer_ws c \<longleftrightarrow> code_of c \<in> {9, 10, 13, 32}"

definition xer_skip_ws :: "string \<Rightarrow> string" where
  "xer_skip_ws s = dropWhile xer_ws s"

definition xer_trim :: "string \<Rightarrow> string" where
  "xer_trim s = rev (dropWhile xer_ws (rev (dropWhile xer_ws s)))"

record tag_info =
  ti_name :: string
  ti_closing :: bool
  ti_self_closing :: bool

text \<open>One optional character.\<close>

definition skip_char :: "char \<Rightarrow> string \<Rightarrow> bool \<times> string" where
  "skip_char c s = (if s \<noteq> [] \<and> hd s = c then (True, tl s) else (False, s))"

definition tag_name_char :: "char \<Rightarrow> bool" where
  "tag_name_char c \<longleftrightarrow> c \<noteq> CHR ''>'' \<and> c \<noteq> CHR ''/'' \<and> \<not> xer_ws c"

text \<open>\<open>parse_tag\<close>, and so \<open>consume_tag\<close>: the tag and the text behind it; no tag is the empty name.\<close>

definition parse_tag :: "string \<Rightarrow> tag_info \<times> string" where
  "parse_tag s =
     (let s = xer_skip_ws s in
      if s = [] \<or> hd s \<noteq> CHR ''<'' then (\<lparr>ti_name = [], ti_closing = False, ti_self_closing = False\<rparr>, s)
      else
        let (closing, s) = skip_char CHR ''/'' (tl s);
            name = takeWhile tag_name_char s;
            s = xer_skip_ws (dropWhile tag_name_char s);
            (self_closing, s) = skip_char CHR ''/'' s;
            s = snd (skip_char CHR ''>'' s)
        in (\<lparr>ti_name = name, ti_closing = closing, ti_self_closing = self_closing\<rparr>, s))"

definition peek_xer_tag :: "string \<Rightarrow> tag_info" where
  "peek_xer_tag s = fst (parse_tag s)"

definition read_text_content :: "string \<Rightarrow> string \<times> string" where
  "read_text_content s = (takeWhile (\<lambda>c. c \<noteq> CHR ''<'') s, dropWhile (\<lambda>c. c \<noteq> CHR ''<'') s)"

definition expected_tag :: "string \<Rightarrow> string \<Rightarrow> decode_error" where
  "expected_tag mark name = DecodeError (''XER: expected '' @ mark @ name @ ''>'') 0"

definition consume_open_tag :: "string \<Rightarrow> string \<Rightarrow> string result" where
  "consume_open_tag name s =
     (let (ti, s) = parse_tag s in
      if ti_name ti \<noteq> name \<or> ti_closing ti \<or> ti_self_closing ti then Inl (expected_tag ''<'' name) else Inr s)"

definition consume_close_tag :: "string \<Rightarrow> string \<Rightarrow> string result" where
  "consume_close_tag name s =
     (let (ti, s) = parse_tag s in
      if \<not> ti_closing ti \<or> ti_name ti \<noteq> name then Inl (expected_tag ''</'' name) else Inr s)"

section \<open>Character data\<close>

definition xer_escape_char :: "char \<Rightarrow> string" where
  "xer_escape_char c =
     (if c = CHR ''<'' then ''&lt;''
      else if c = CHR ''>'' then ''&gt;''
      else if c = CHR ''&'' then ''&amp;''
      else [c])"

definition xer_escape :: "string \<Rightarrow> string" where
  "xer_escape sv = concat (map xer_escape_char sv)"

text \<open>The number of a character reference, in 32 bits; \<open>None\<close> for a character that is no digit.\<close>

fun reference_number :: "u32 \<Rightarrow> u32 \<Rightarrow> string \<Rightarrow> u32 option" where
  "reference_number base cp [] = Some cp"
| "reference_number base cp (c # num) =
     (if between CHR ''0'' c CHR ''9'' then reference_number base (cp * base + of_nat (code_of c - 48)) num
      else if base = 16 \<and> between CHR ''a'' c CHR ''f'' then
        reference_number base (cp * base + (10 + of_nat (code_of c - 97))) num
      else if base = 16 \<and> between CHR ''A'' c CHR ''F'' then
        reference_number base (cp * base + (10 + of_nat (code_of c - 65))) num
      else None)"

text \<open>The text an entity stands for.\<close>

definition entity_text :: "string \<Rightarrow> string option" where
  "entity_text ent =
     (if ent = ''lt'' then Some ''<''
      else if ent = ''gt'' then Some ''>''
      else if ent = ''amp'' then Some ''&''
      else if ent = ''quot'' then Some [CHR 0x22]
      else if ent = ''apos'' then Some [CHR 0x27]
      else if ent \<noteq> [] \<and> hd ent = CHR ''#'' then
        let num = tl ent; hex = (num \<noteq> [] \<and> (hd num = CHR ''x'' \<or> hd num = CHR ''X''))
        in map_option (\<lambda>cp. map char_of_byte (utf8_encode_cp cp))
             (if hex then reference_number 16 0 (tl num) else reference_number 10 0 num)
      else None)"

text \<open>
  \<open>xer_unescape\<close>: the semicolon is looked for up to twelve characters behind the
  ampersand; anything that is no known entity stays as it is.
\<close>

fun xer_unescape_from :: "nat \<Rightarrow> string \<Rightarrow> string" where
  "xer_unescape_from skip [] = []"
| "xer_unescape_from (Suc skip) (c # s) = xer_unescape_from skip s"
| "xer_unescape_from 0 (c # s) =
     (if c \<noteq> CHR ''&'' then c # xer_unescape_from 0 s
      else
        let ent = takeWhile (\<lambda>c. c \<noteq> CHR '';'') (take 11 s); behind = drop (length ent) s in
        if behind = [] \<or> hd behind \<noteq> CHR '';'' then c # xer_unescape_from 0 s
        else
          (case entity_text ent of
             Some t \<Rightarrow> t @ xer_unescape_from (length ent + 1) s
           | None \<Rightarrow> c # xer_unescape_from 0 s))"

definition xer_unescape :: "string \<Rightarrow> string" where
  "xer_unescape sv = xer_unescape_from 0 sv"

lemma xer_unescape_skip: "length t \<le> length s \<Longrightarrow> take (length t) s = t \<Longrightarrow> xer_unescape_from (length t) s = xer_unescape_from 0 (drop (length t) s)"
proof (induction t arbitrary: s)
  case (Cons a t)
  then show ?case by (cases s) auto
qed simp

lemma unescape_entity:
  assumes "entity_text ent = Some t" "length ent < 11" "list_all (\<lambda>c. c \<noteq> CHR '';'') ent"
  shows "xer_unescape_from 0 (CHR ''&'' # ent @ CHR '';'' # s) = t @ xer_unescape_from 0 s"
proof -
  have "take 11 (ent @ CHR '';'' # s) = ent @ CHR '';'' # take (10 - length ent) s"
    using assms(2) by (simp add: take_Cons')
  then have "takeWhile (\<lambda>c. c \<noteq> CHR '';'') (take 11 (ent @ CHR '';'' # s)) = ent"
    using assms(3) by (simp add: takeWhile_append2 list_all_iff)
  then show ?thesis
    using assms(1) xer_unescape_skip [of "ent @ '';''" "ent @ CHR '';'' # s"] by (simp add: Let_def)
qed

lemma xer_unescape_escape [simp]: "xer_unescape (xer_escape t) = t"
proof (induction t)
  case (Cons c t)
  have e: "entity_text ''lt'' = Some ''<''" "entity_text ''gt'' = Some ''>''" "entity_text ''amp'' = Some ''&''"
    by code_simp+
  show ?case
    using Cons unescape_entity [OF e(1)] unescape_entity [OF e(2)] unescape_entity [OF e(3)]
    by (simp add: xer_unescape_def xer_escape_def xer_escape_char_def)
qed (simp add: xer_unescape_def xer_escape_def)

text \<open>\<open>decode_simple_text_element\<close>: the unescaped text of an element goes to \<open>fn\<close>.\<close>

definition text_element :: "string \<Rightarrow> (string \<Rightarrow> 'v result) \<Rightarrow> string \<Rightarrow> ('v \<times> string) result" where
  "text_element name fn s =
     rbind (consume_open_tag name s) (\<lambda>s.
       let (raw, s) = read_text_content s in
       rbind (consume_close_tag name s) (\<lambda>s.
       rbind (fn (xer_unescape raw)) (\<lambda>v. Inr (v, s))))"

section \<open>Octets\<close>

definition is_hex_digit :: "char \<Rightarrow> bool" where
  "is_hex_digit c \<longleftrightarrow> between CHR ''0'' c CHR ''9'' \<or> between CHR ''A'' c CHR ''F'' \<or> between CHR ''a'' c CHR ''f''"

text \<open>
  \<open>parse_hex_bytes\<close>: \<open>from_chars\<close> on two characters takes one digit if the second is none.
\<close>

function parse_hex_bytes :: "string \<Rightarrow> byte list" where
  "parse_hex_bytes sv =
     (case xer_skip_ws sv of
        a # b # s \<Rightarrow>
          if \<not> is_hex_digit a then []
          else if is_hex_digit b then (push_bit 4 (hex_val a) OR hex_val b) # parse_hex_bytes s
          else hex_val a # parse_hex_bytes (b # s)
      | _ \<Rightarrow> [])"
  by pat_completeness auto
termination
proof (relation "measure length", goal_cases)
  case (2 sv a u b s)
  then have "length (a # b # s) \<le> length sv" by (metis xer_skip_ws_def length_dropWhile_le)
  then show ?case by simp
next
  case (3 sv a u b s)
  then have "length (a # b # s) \<le> length sv" by (metis xer_skip_ws_def length_dropWhile_le)
  then show ?case by simp
qed simp

declare parse_hex_bytes.simps [simp del]

lemma hex_digits_hex: "\<forall>n \<in> set [0..<16]. is_hex_digit (hex_digit n) \<and> \<not> xer_ws (hex_digit n)"
  by code_simp

lemma parse_hex_bytes_encode [simp]: "parse_hex_bytes (hex_encode_upper bs) = bs"
proof (induction bs)
  case Nil
  then show ?case by (simp add: parse_hex_bytes.simps hex_encode_upper_def xer_skip_ws_def)
next
  case (Cons b bs)
  have *: "hex_encode_upper (b # bs) = hex_digit (unat (drop_bit 4 b)) # hex_digit (unat (b AND 0xF)) # hex_encode_upper bs"
    by (simp add: hex_encode_upper_def hex_pair_def)
  show ?case
    unfolding * using Cons hex_digits_hex nibble_less [of b]
    by (subst parse_hex_bytes.simps) (simp add: xer_skip_ws_def hex_val_digit nibbles)
qed

text \<open>Base64.\<close>

definition base64_alphabet :: string where
  "base64_alphabet = ''ABCDEFGHIJKLMNOPQRSTUVWXYZabcdefghijklmnopqrstuvwxyz0123456789+/''"

definition base64_char :: "u32 \<Rightarrow> char" where
  "base64_char v = base64_alphabet ! unat (v AND 0x3F)"

fun base64_encode :: "byte list \<Rightarrow> string" where
  "base64_encode [] = []"
| "base64_encode [a] =
     (let v = push_bit 16 (ucast a) in [base64_char (drop_bit 18 v), base64_char (drop_bit 12 v), CHR ''='', CHR ''=''])"
| "base64_encode [a, b] =
     (let v = push_bit 16 (ucast a) OR push_bit 8 (ucast b)
      in [base64_char (drop_bit 18 v), base64_char (drop_bit 12 v), base64_char (drop_bit 6 v), CHR ''=''])"
| "base64_encode (a # b # c # bs) =
     (let v = push_bit 16 (ucast a) OR push_bit 8 (ucast b) OR ucast c
      in [base64_char (drop_bit 18 v), base64_char (drop_bit 12 v), base64_char (drop_bit 6 v), base64_char v] @ base64_encode bs)"

definition base64_val :: "char \<Rightarrow> u32 option" where
  "base64_val c =
     (if between CHR ''A'' c CHR ''Z'' then Some (of_nat (code_of c - 65))
      else if between CHR ''a'' c CHR ''z'' then Some (of_nat (code_of c - 97 + 26))
      else if between CHR ''0'' c CHR ''9'' then Some (of_nat (code_of c - 48 + 52))
      else if c = CHR ''+'' then Some 62
      else if c = CHR ''/'' then Some 63
      else None)"

text \<open>The loop with its bit buffer, an \<open>int\<close> that is shifted on and on.\<close>

fun base64_decode_from :: "u32 \<Rightarrow> nat \<Rightarrow> string \<Rightarrow> byte list" where
  "base64_decode_from buf bits [] = []"
| "base64_decode_from buf bits (c # s) =
     (case base64_val c of
        None \<Rightarrow> base64_decode_from buf bits s
      | Some v \<Rightarrow>
          let buf = push_bit 6 buf OR v; bits = bits + 6 in
          if bits \<ge> 8 then ucast (drop_bit (bits - 8) buf AND 0xFF) # base64_decode_from buf (bits - 8) s
          else base64_decode_from buf bits s)"

definition base64_decode :: "string \<Rightarrow> byte list" where
  "base64_decode sv = base64_decode_from 0 0 sv"

lemma base64_chars: "map base64_val base64_alphabet = map (\<lambda>n. Some (of_nat n)) [0..<64]"
  by (simp add: base64_alphabet_def base64_val_def between_def code_of_def upt_rec)

lemma and_mask_take: "x AND 0x3F = take_bit 6 x" "x AND 0xFF = take_bit 8 x" for x :: u32
  by (simp_all only: take_bit_eq_mask mask_eq_exp_minus_1) simp_all

lemma unat_take_bit_less: "unat (take_bit n x) < 2 ^ n" for x :: u32
  by (simp add: unsigned_take_bit_eq take_bit_nat_less_exp)

lemma base64_val_char: "base64_val (base64_char v) = Some (take_bit 6 v)"
proof -
  let ?n = "unat (take_bit 6 v)"
  have n: "?n < 64" using unat_take_bit_less [of 6 v] by simp
  have "length base64_alphabet = 64" by (simp add: base64_alphabet_def)
  then have "base64_val (base64_alphabet ! ?n) = map base64_val base64_alphabet ! ?n" using n by simp
  also have "\<dots> = Some (of_nat ?n)" using n by (simp only: base64_chars) simp
  finally show ?thesis by (simp add: base64_char_def and_mask_take)
qed

lemma ucast_small: "ucast (x AND 0xFF) = (ucast x :: byte)" for x :: u32
  unfolding and_mask_take by (intro bit_eqI) (auto simp: bit_simps)

text \<open>Octets by their bits.\<close>

lemma byte_eqI:
  fixes a b :: byte
  assumes "bit a 0 = bit b 0" "bit a 1 = bit b 1" "bit a 2 = bit b 2" "bit a 3 = bit b 3"
    "bit a 4 = bit b 4" "bit a 5 = bit b 5" "bit a 6 = bit b 6" "bit a 7 = bit b 7"
  shows "a = b"
proof (rule bit_eqI)
  fix n assume "possible_bit TYPE(byte) n"
  then have "n < 8" by simp
  then have "n = 0 \<or> n = 1 \<or> n = 2 \<or> n = 3 \<or> n = 4 \<or> n = 5 \<or> n = 6 \<or> n = 7" by linarith
  then show "bit a n = bit b n" using assms by blast
qed

lemma byte_high: "8 \<le> n \<Longrightarrow> \<not> bit (b :: byte) n"
  by (auto dest: bit_imp_le_length)

text \<open>Three octets in four characters, whatever the buffer holds.\<close>

lemma base64_group:
  fixes a b c :: byte and buf :: u32
  defines "v \<equiv> push_bit 16 (ucast a) OR push_bit 8 (ucast b) OR ucast c :: u32"
  defines "x1 \<equiv> push_bit 6 buf OR take_bit 6 (drop_bit 18 v)"
  defines "x2 \<equiv> push_bit 6 x1 OR take_bit 6 (drop_bit 12 v)"
  defines "x3 \<equiv> push_bit 6 x2 OR take_bit 6 (drop_bit 6 v)"
  shows "ucast (drop_bit 4 x2) = a" "ucast (drop_bit 2 x3) = b" "ucast (push_bit 6 x3 OR take_bit 6 v) = c"
  unfolding x3_def x2_def x1_def v_def by (rule byte_eqI; simp add: bit_simps byte_high)+

lemma base64_decode_group:
  fixes a b c :: byte
  defines "v \<equiv> push_bit 16 (ucast a) OR push_bit 8 (ucast b) OR ucast c :: u32"
  shows "\<exists>buf'. base64_decode_from buf 0 (base64_char (drop_bit 18 v) # base64_char (drop_bit 12 v) # base64_char (drop_bit 6 v) #
      base64_char v # s) = a # b # c # base64_decode_from buf' 0 s"
  using base64_group [of buf a b c] unfolding v_def
  by (simp add: base64_val_char Let_def ucast_small) blast

lemma base64_decode_tail:
  fixes a b :: byte
  shows "base64_decode_from buf 0 (base64_encode [a]) = [a]" "base64_decode_from buf 0 (base64_encode [a, b]) = [a, b]"
proof -
  have pad: "base64_val CHR ''='' = None" by (simp add: base64_val_def between_def code_of_def)
  show "base64_decode_from buf 0 (base64_encode [a]) = [a]"
    using base64_group(1) [of buf a 0 0] by (simp add: base64_val_char Let_def ucast_small pad)
  show "base64_decode_from buf 0 (base64_encode [a, b]) = [a, b]"
    using base64_group(1,2) [of buf a b 0] by (simp add: base64_val_char Let_def ucast_small pad)
qed

lemma base64_roundtrip_from: "base64_decode_from buf 0 (base64_encode bs) = bs"
proof (induction bs arbitrary: buf rule: base64_encode.induct)
  case (4 a b c bs)
  show ?case
    using base64_decode_group [of buf a b c "base64_encode bs"] 4 by (auto simp: Let_def)
qed (simp_all only: base64_decode_tail, simp)

lemma base64_roundtrip [simp]: "base64_decode (base64_encode bs) = bs"
  by (simp add: base64_decode_def base64_roundtrip_from)

text \<open>What both hex and base64 texts are made of passes the entities unchanged.\<close>

definition plain_text :: "string \<Rightarrow> bool" where
  "plain_text t \<longleftrightarrow> list_all (\<lambda>c. c \<noteq> CHR ''<'' \<and> c \<noteq> CHR ''&'') t"

lemma plain_unescape: "plain_text t \<Longrightarrow> xer_unescape t = t"
  by (induction t) (auto simp: plain_text_def xer_unescape_def)

lemma read_text_plain:
  "list_all (\<lambda>c. c \<noteq> CHR ''<'') t \<Longrightarrow> read_text_content (t @ CHR ''<'' # s) = (t, CHR ''<'' # s)"
  by (simp add: read_text_content_def takeWhile_append2 dropWhile_append2 list_all_iff)

lemma escaped_no_tag: "list_all (\<lambda>c. c \<noteq> CHR ''<'') (xer_escape t)"
  by (induction t) (auto simp: xer_escape_def xer_escape_char_def)

lemma hex_digits_plain_text: "\<forall>n \<in> set [0..<16]. plain_text [hex_digit n]"
  by code_simp

lemma plain_text_hex: "plain_text (hex_encode_upper bs)"
proof -
  have "plain_text (hex_pair b)" for b
    using hex_digits_plain_text nibble_less [of b] by (simp add: hex_pair_def plain_text_def)
  then show ?thesis by (induction bs) (simp_all add: hex_encode_upper_def plain_text_def)
qed

lemma base64_alphabet_plain: "plain_text base64_alphabet"
  by code_simp

lemma plain_text_base64: "plain_text (base64_encode bs)"
proof -
  have "plain_text [base64_char v]" for v
    using base64_alphabet_plain unat_take_bit_less [of 6 v]
    by (simp add: base64_char_def and_mask_take plain_text_def list_all_length) (simp add: base64_alphabet_def)
  then have "base64_char v \<noteq> CHR ''<'' \<and> base64_char v \<noteq> CHR ''&''" for v by (simp add: plain_text_def)
  then show ?thesis by (induction bs rule: base64_encode.induct) (simp_all add: plain_text_def Let_def)
qed

section \<open>Mixed content\<close>

text \<open>Table 3 of X.680 11.15.5: the empty elements for control characters.\<close>

definition control_names :: "(string \<times> byte) list" where
  "control_names =
     [(''nul'', 0), (''soh'', 1), (''stx'', 2), (''etx'', 3), (''eot'', 4), (''enq'', 5), (''ack'', 6), (''bel'', 7),
      (''bs'', 8), (''vt'', 11), (''ff'', 12), (''so'', 14), (''si'', 15), (''dle'', 16), (''dc1'', 17), (''dc2'', 18),
      (''dc3'', 19), (''dc4'', 20), (''nak'', 21), (''syn'', 22), (''etb'', 23), (''can'', 24), (''em'', 25),
      (''sub'', 26), (''esc'', 27), (''is4'', 28), (''is3'', 29), (''is2'', 30), (''is1'', 31)]"

definition control_char_tag_name :: "byte \<Rightarrow> string option" where
  "control_char_tag_name c = map_of (map (\<lambda>(n, v). (v, n)) control_names) c"

definition control_char_from_tag_name :: "string \<Rightarrow> byte option" where
  "control_char_from_tag_name name = map_of control_names name"

text \<open>A null name would be streamed as nothing; every octet below 32 that is asked for has one.\<close>

definition utf8_text_char :: "byte \<Rightarrow> string" where
  "utf8_text_char b =
     (if b = 38 then ''&amp;''
      else if b = 60 then ''&lt;''
      else if b = 62 then ''&gt;''
      else if b = 9 \<or> b = 10 \<or> b = 13 then [char_of_byte b]
      else if b < 32 then
        (case control_char_tag_name b of None \<Rightarrow> ''</>'' | Some n \<Rightarrow> CHR ''<'' # n @ ''/>'')
      else [char_of_byte b])"

definition write_utf8_text :: "byte list \<Rightarrow> string" where
  "write_utf8_text sv = concat (map utf8_text_char sv)"

text \<open>The loop of \<open>decode_utf8_text\<close>; its fuel bounds the number of tags.\<close>

fun utf8_text_loop :: "nat \<Rightarrow> string \<Rightarrow> byte list \<Rightarrow> string \<Rightarrow> (byte list \<times> string) result" where
  "utf8_text_loop 0 name out s = Inl OutOfFuel"
| "utf8_text_loop (Suc n) name out s =
     (let (raw, s) = read_text_content s; out = out @ map byte_of (xer_unescape raw) in
      if s = [] then Inl (DecodeError (''XER: unterminated <'' @ name @ ''>'') 0)
      else
        let (peek, rest) = parse_tag s in
        if ti_closing peek \<and> ti_name peek = name then Inr (out, rest)
        else if ti_self_closing peek then
          (case control_char_from_tag_name (ti_name peek) of
             None \<Rightarrow> Inl (DecodeError (''XER: unknown control-character tag <'' @ ti_name peek @ ''/>'') 0)
           | Some b \<Rightarrow> utf8_text_loop n name (out @ [b]) rest)
        else Inl (DecodeError (''XER: unexpected tag inside utf8 content of <'' @ name @ ''>'') 0))"

definition decode_utf8_text :: "string \<Rightarrow> string \<Rightarrow> (byte list \<times> string) result" where
  "decode_utf8_text name s =
     rbind (consume_open_tag name s) (\<lambda>s. utf8_text_loop (Suc (length s)) name [] s)"

section \<open>Reading what was written\<close>

definition good_name :: "string \<Rightarrow> bool" where
  "good_name n \<longleftrightarrow> n \<noteq> [] \<and> list_all (\<lambda>c. tag_name_char c \<and> c \<noteq> CHR ''<'') n"

definition blank :: "string \<Rightarrow> bool" where
  "blank pre \<longleftrightarrow> list_all xer_ws pre"

definition open_tag :: "string \<Rightarrow> string" where
  "open_tag n = CHR ''<'' # n @ ''>''"

definition close_tag :: "string \<Rightarrow> string" where
  "close_tag n = CHR ''<'' # CHR ''/'' # n @ ''>''"

definition empty_tag :: "string \<Rightarrow> string" where
  "empty_tag n = CHR ''<'' # n @ ''/>''"

lemma xer_ws_marks [simp]: "\<not> xer_ws CHR ''<''" "\<not> xer_ws CHR ''>''" "\<not> xer_ws CHR ''/''" "xer_ws CHR 0x0A" "xer_ws CHR '' ''"
  by (simp_all add: xer_ws_def code_of_def)

lemma tag_name_char_marks [simp]: "\<not> tag_name_char CHR ''>''" "\<not> tag_name_char CHR ''/''"
  by (simp_all add: tag_name_char_def)

lemma blank_simps [simp]: "blank []" "blank (c # s) \<longleftrightarrow> xer_ws c \<and> blank s" "blank (a @ b) \<longleftrightarrow> blank a \<and> blank b"
  "blank (replicate k CHR '' '')"
  by (auto simp: blank_def list_all_iff)

lemma skip_blank: "blank pre \<Longrightarrow> xer_skip_ws (pre @ s) = xer_skip_ws s"
  by (simp add: blank_def xer_skip_ws_def list_all_iff dropWhile_append2)

lemma skip_ws_mark [simp]: "\<not> xer_ws c \<Longrightarrow> xer_skip_ws (c # s) = c # s"
  by (simp add: xer_skip_ws_def)

lemma parse_tag_blank: "blank pre \<Longrightarrow> parse_tag (pre @ s) = parse_tag s"
  by (simp add: parse_tag_def skip_blank)

lemma name_run:
  assumes "good_name n" "\<not> tag_name_char c"
  shows "takeWhile tag_name_char (n @ c # s) = n" "dropWhile tag_name_char (n @ c # s) = c # s"
  using assms by (simp_all add: good_name_def takeWhile_append2 dropWhile_append2 list_all_iff)

lemma skip_slash_name: "good_name n \<Longrightarrow> skip_char CHR ''/'' (n @ s) = (False, n @ s)"
  by (cases n) (auto simp: skip_char_def good_name_def)

lemma parse_tag_written:
  assumes "good_name n" "blank pre"
  shows "parse_tag (pre @ open_tag n @ s) = (\<lparr>ti_name = n, ti_closing = False, ti_self_closing = False\<rparr>, s)"
    "parse_tag (pre @ close_tag n @ s) = (\<lparr>ti_name = n, ti_closing = True, ti_self_closing = False\<rparr>, s)"
    "parse_tag (pre @ empty_tag n @ s) = (\<lparr>ti_name = n, ti_closing = False, ti_self_closing = True\<rparr>, s)"
  unfolding parse_tag_blank [OF assms(2)]
  by (simp_all add: parse_tag_def open_tag_def close_tag_def empty_tag_def skip_slash_name [OF assms(1)] name_run [OF assms(1)])
     (simp_all add: skip_char_def name_run [OF assms(1)])

lemma consume_written:
  assumes "good_name n" "blank pre"
  shows "consume_open_tag n (pre @ open_tag n @ s) = Inr s" "consume_close_tag n (pre @ close_tag n @ s) = Inr s"
  by (simp_all add: consume_open_tag_def consume_close_tag_def parse_tag_written [OF assms])

lemma read_text_before_tag:
  "list_all (\<lambda>c. c \<noteq> CHR ''<'') t \<Longrightarrow> read_text_content (t @ close_tag n @ s) = (t, close_tag n @ s)"
  "list_all (\<lambda>c. c \<noteq> CHR ''<'') t \<Longrightarrow> read_text_content (t @ empty_tag n @ s) = (t, empty_tag n @ s)"
  unfolding close_tag_def empty_tag_def by (simp_all add: read_text_plain)

text \<open>An element with text in it, and with mixed content.\<close>

lemma text_element_written:
  assumes "good_name n" "blank pre" "list_all (\<lambda>c. c \<noteq> CHR ''<'') raw" "fn (xer_unescape raw) = Inr v"
  shows "text_element n fn (pre @ open_tag n @ raw @ close_tag n @ post) = Inr (v, post)"
  using assms(4) consume_written(2) [OF assms(1), of "[]" post]
  by (simp add: text_element_def consume_written(1) [OF assms(1,2)] read_text_before_tag(1) [OF assms(3)])

lemma text_element_escaped:
  "good_name n \<Longrightarrow> blank pre \<Longrightarrow> fn t = Inr v \<Longrightarrow>
   text_element n fn (pre @ open_tag n @ xer_escape t @ close_tag n @ post) = Inr (v, post)"
  by (rule text_element_written) (simp_all add: escaped_no_tag)

lemma text_element_plain:
  assumes "good_name n" "blank pre" "plain_text t" "fn t = Inr v"
  shows "text_element n fn (pre @ open_tag n @ t @ close_tag n @ post) = Inr (v, post)"
proof (rule text_element_written [OF assms(1,2)])
  show "list_all (\<lambda>c. c \<noteq> CHR ''<'') t" using assms(3) by (auto simp: plain_text_def list_all_iff)
  show "fn (xer_unescape t) = Inr v" using assms(3,4) by (simp add: plain_unescape)
qed

lemma control_table:
  "list_all (\<lambda>n. case control_char_tag_name (of_nat n) of
     None \<Rightarrow> n = 9 \<or> n = 10 \<or> n = 13
   | Some t \<Rightarrow> n \<noteq> 9 \<and> n \<noteq> 10 \<and> n \<noteq> 13 \<and> good_name t \<and> control_char_from_tag_name t = Some (of_nat n)) [0..<32]"
  by code_simp

definition is_control :: "byte \<Rightarrow> bool" where
  "is_control b \<longleftrightarrow> b < 32 \<and> b \<noteq> 9 \<and> b \<noteq> 10 \<and> b \<noteq> 13"

lemma control_char:
  assumes "is_control b"
  obtains t where "utf8_text_char b = empty_tag t" "good_name t" "control_char_from_tag_name t = Some b"
proof -
  have n: "unat b < 32" "unat b \<noteq> 9" "unat b \<noteq> 10" "unat b \<noteq> 13"
    using assms by (simp_all add: is_control_def word_less_nat_alt word_unat_eq_iff)
  then have "case control_char_tag_name b of None \<Rightarrow> False
      | Some t \<Rightarrow> good_name t \<and> control_char_from_tag_name t = Some b"
    using control_table by (auto simp: list_all_length dest!: spec [of _ "unat b"] split: option.splits)
  then obtain t where t: "control_char_tag_name b = Some t" "good_name t" "control_char_from_tag_name t = Some b"
    by (auto split: option.splits)
  moreover have "utf8_text_char b = empty_tag t"
    using assms t(1) by (auto simp: utf8_text_char_def is_control_def empty_tag_def)
  ultimately show ?thesis using that by blast
qed

lemma char_of_byte_eq: "char_of_byte b = c \<longleftrightarrow> b = byte_of c"
  by auto

lemma byte_of_marks: "byte_of CHR ''<'' = 60" "byte_of CHR ''>'' = 62" "byte_of CHR ''&'' = 38"
  by (simp_all add: byte_of_def)

lemma utf8_text_plain:
  assumes "list_all (\<lambda>b. \<not> is_control b) u"
  shows "write_utf8_text u = xer_escape (map char_of_byte u)"
proof -
  have "utf8_text_char b = xer_escape_char (char_of_byte b)" if "\<not> is_control b" for b
    using that by (auto simp: utf8_text_char_def xer_escape_char_def is_control_def char_of_byte_eq byte_of_marks)
  then show ?thesis using assms by (induction u) (auto simp: write_utf8_text_def xer_escape_def)
qed

lemma write_utf8_append: "write_utf8_text (u @ v) = write_utf8_text u @ write_utf8_text v"
  by (simp add: write_utf8_text_def)

lemma utf8_loop_written:
  assumes "good_name name"
  shows "list_all (\<lambda>b. \<not> is_control b) u \<Longrightarrow> length bs < n \<Longrightarrow>
    utf8_text_loop n name out (write_utf8_text u @ write_utf8_text bs @ close_tag name @ post) = Inr (out @ u @ bs, post)"
proof (induction bs arbitrary: u n out)
  case Nil
  then obtain m where n: "n = Suc m" by (cases n) auto
  have "parse_tag (close_tag name @ post) = (\<lparr>ti_name = name, ti_closing = True, ti_self_closing = False\<rparr>, post)"
    using parse_tag_written(2) [OF assms, of "[]" post] by simp
  moreover have "close_tag name \<noteq> []" by (simp add: close_tag_def)
  ultimately show ?case
    using Nil by (simp add: n utf8_text_plain read_text_before_tag(1) [OF escaped_no_tag] write_utf8_text_def [of "[]"] comp_def)
next
  case (Cons b bs)
  obtain m where n: "n = Suc m" "length bs < m" using Cons.prems(2) by (cases n) auto
  show ?case
  proof (cases "is_control b")
    case False
    have "utf8_text_loop n name out (write_utf8_text (u @ [b]) @ write_utf8_text bs @ close_tag name @ post) = Inr (out @ (u @ [b]) @ bs, post)"
      using Cons.prems False by (intro Cons.IH) simp_all
    then show ?thesis using write_utf8_append [of "[b]" bs] by (simp add: write_utf8_append)
  next
    case True
    obtain t where t: "utf8_text_char b = empty_tag t" "good_name t" "control_char_from_tag_name t = Some b"
      by (rule control_char [OF True])
    have w: "write_utf8_text (b # bs) = empty_tag t @ write_utf8_text bs" by (simp add: write_utf8_text_def t(1))
    have tag: "parse_tag (empty_tag t @ s) = (\<lparr>ti_name = t, ti_closing = False, ti_self_closing = True\<rparr>, s)" for s
      using parse_tag_written(3) [OF t(2), of "[]" s] by simp
    have "empty_tag t \<noteq> []" by (simp add: empty_tag_def)
    moreover have "utf8_text_loop m name (out @ u @ [b]) (write_utf8_text [] @ write_utf8_text bs @ close_tag name @ post)
        = Inr ((out @ u @ [b]) @ [] @ bs, post)"
      using n(2) by (intro Cons.IH) simp_all
    ultimately show ?thesis
      using Cons.prems(1)
      by (simp add: n(1) w utf8_text_plain read_text_before_tag(2) [OF escaped_no_tag] tag t(3) write_utf8_text_def [of "[]"] comp_def)
  qed
qed

lemma length_write_utf8: "length bs \<le> length (write_utf8_text bs)"
proof -
  have "utf8_text_char b \<noteq> []" for b by (simp add: utf8_text_char_def split: option.split)
  then have "1 \<le> length (utf8_text_char b)" for b by (cases "utf8_text_char b") auto
  then have "length (write_utf8_text bs) + 1 \<le> length (write_utf8_text (b # bs))" for b bs by (simp add: write_utf8_text_def)
  then show ?thesis by (induction bs) (auto intro: order_trans [rotated])
qed

lemma utf8_element_written:
  assumes "good_name n" "blank pre"
  shows "decode_utf8_text n (pre @ open_tag n @ write_utf8_text bs @ close_tag n @ post) = Inr (bs, post)"
proof -
  have "length bs < Suc (length (write_utf8_text bs @ close_tag n @ post))" using length_write_utf8 [of bs] by simp
  from utf8_loop_written [OF assms(1) _ this, of "[]" "[]" post] show ?thesis
    by (simp add: decode_utf8_text_def consume_written(1) [OF assms] write_utf8_text_def [of "[]"] del: utf8_text_loop.simps)
qed

end
