(* ===== verification/Jer_Text.thy ===== *)
theory Jer_Text
  imports Text_Codecs
begin

text \<open>
  The JSON scanner of the JER codec (\<open>jer_detail\<close> in \<open>src/JerCodec.cpp\<close>). A
  \<open>JerDecodeStream\<close> is the text from its position on, since nothing looks back: \<open>at_end\<close>
  is the empty list, \<open>data()[0]\<close> its head and \<open>advance\<close> its tail.
\<close>

unbundle bit_operations_syntax

section \<open>Characters and tokens\<close>

text \<open>\<open>is_ws\<close>: class 1 of the table \<open>charclass\<close>, which has the form feed in it.\<close>

definition is_ws :: "char \<Rightarrow> bool" where
  "is_ws c \<longleftrightarrow> code_of c \<in> {9, 10, 12, 13, 32}"

abbreviation QUOTE :: char where "QUOTE \<equiv> CHR 0x22"
abbreviation BSLASH :: char where "BSLASH \<equiv> CHR 0x5C"

definition skip_ws :: "string \<Rightarrow> string" where
  "skip_ws s = dropWhile is_ws s"

text \<open>\<open>peek_char\<close>: the end looks like a NUL character.\<close>

definition peek_char :: "string \<Rightarrow> char \<times> string" where
  "peek_char s = (let s = skip_ws s in (if s = [] then CHR 0x00 else hd s, s))"

definition expect_char :: "char \<Rightarrow> string \<Rightarrow> string result" where
  "expect_char expected s =
     (let s = skip_ws s in
      if s = [] \<or> hd s \<noteq> expected then Inl (DecodeError (''JER: expected '' @ [CHR 0x27, expected, CHR 0x27]) 0)
      else Inr (tl s))"

definition ends_token :: "char \<Rightarrow> bool" where
  "ends_token c \<longleftrightarrow> c = CHR '','' \<or> c = CHR ''}'' \<or> c = CHR '']'' \<or> is_ws c"

definition read_json_token :: "string \<Rightarrow> (string \<times> string) result" where
  "read_json_token s =
     (let s = skip_ws s; out = takeWhile (\<lambda>c. \<not> ends_token c) s in
      if out = [] then Inl (DecodeError ''JER: expected value token'' 0)
      else Inr (out, dropWhile (\<lambda>c. \<not> ends_token c) s))"

text \<open>\<open>peek_null\<close>: the length of a \<open>null\<close> with the whitespace before it, 0 for anything else.\<close>

definition peek_null :: "string \<Rightarrow> nat" where
  "peek_null rest =
     (let i = length (takeWhile is_ws rest); s = drop i rest in
      if s = [] \<or> hd s \<noteq> CHR ''n'' \<or> take 4 s \<noteq> ''null'' then 0
      else if length s > 4 \<and> \<not> ends_token (s ! 4) then 0
      else i + 4)"

section \<open>Strings\<close>

text \<open>\<open>read_hex4\<close>: the code unit and the text behind it.\<close>

definition hex4_digit :: "char \<Rightarrow> u32 option" where
  "hex4_digit c =
     (if between CHR ''0'' c CHR ''9'' then Some (of_nat (code_of c - 48))
      else if between CHR ''a'' c CHR ''f'' then Some (of_nat (code_of c - 97 + 10))
      else if between CHR ''A'' c CHR ''F'' then Some (of_nat (code_of c - 65 + 10))
      else None)"

fun read_hex_digits :: "nat \<Rightarrow> u32 \<Rightarrow> string \<Rightarrow> (u32 \<times> string) option" where
  "read_hex_digits 0 cu s = Some (cu, s)"
| "read_hex_digits (Suc i) cu [] = None"
| "read_hex_digits (Suc i) cu (c # s) =
     (case hex4_digit c of None \<Rightarrow> None | Some d \<Rightarrow> read_hex_digits i (push_bit 4 cu OR d) s)"

definition read_hex4 :: "string \<Rightarrow> (u32 \<times> string) option" where
  "read_hex4 s = read_hex_digits 4 0 s"

definition append_utf8 :: "u32 \<Rightarrow> string" where
  "append_utf8 cp = map char_of_byte
     (if cp < 0x80 then [ucast cp]
      else if cp < 0x800 then [0xC0 OR ucast (drop_bit 6 cp), 0x80 OR ucast (cp AND 0x3F)]
      else if cp < 0x10000 then
        [0xE0 OR ucast (drop_bit 12 cp), 0x80 OR ucast (drop_bit 6 cp AND 0x3F), 0x80 OR ucast (cp AND 0x3F)]
      else
        [0xF0 OR ucast (drop_bit 18 cp), 0x80 OR ucast (drop_bit 12 cp AND 0x3F),
         0x80 OR ucast (drop_bit 6 cp AND 0x3F), 0x80 OR ucast (cp AND 0x3F)])"

definition unicode_mark :: string where
  "unicode_mark = BSLASH # ''u escape''"

text \<open>A Unicode escape, from behind the \<open>u\<close>: the characters it stands for.\<close>

definition unicode_escape :: "string \<Rightarrow> (string \<times> string) result" where
  "unicode_escape s =
     (case read_hex4 s of
        None \<Rightarrow> Inl (DecodeError (''JER: malformed '' @ unicode_mark) 0)
      | Some (cu, s) \<Rightarrow>
          if 0xDC00 \<le> cu \<and> cu \<le> 0xDFFF then Inl (DecodeError (''JER: lone low surrogate in '' @ unicode_mark) 0)
          else if 0xD800 \<le> cu \<and> cu \<le> 0xDBFF then
            (if length s < 2 \<or> s ! 0 \<noteq> BSLASH \<or> s ! 1 \<noteq> CHR ''u'' then
               Inl (DecodeError (''JER: lone high surrogate in '' @ unicode_mark) 0)
             else
               (case read_hex4 (drop 2 s) of
                  None \<Rightarrow> Inl (DecodeError (''JER: malformed '' @ unicode_mark) 0)
                | Some (lo, s) \<Rightarrow>
                    if lo < 0xDC00 \<or> lo > 0xDFFF then Inl (DecodeError (''JER: lone high surrogate in '' @ unicode_mark) 0)
                    else Inr (append_utf8 (0x10000 + push_bit 10 (cu - 0xD800) + (lo - 0xDC00)), s)))
          else Inr (append_utf8 cu, s))"

text \<open>The character after a backslash.\<close>

definition read_escape :: "char \<Rightarrow> string \<Rightarrow> (string \<times> string) result" where
  "read_escape c s =
     (if c = QUOTE then Inr ([QUOTE], s)
      else if c = BSLASH then Inr ([BSLASH], s)
      else if c = CHR ''/'' then Inr (''/'', s)
      else if c = CHR ''b'' then Inr ([CHR 0x08], s)
      else if c = CHR ''f'' then Inr ([CHR 0x0C], s)
      else if c = CHR ''n'' then Inr ([CHR 0x0A], s)
      else if c = CHR ''r'' then Inr ([CHR 0x0D], s)
      else if c = CHR ''t'' then Inr ([CHR 0x09], s)
      else if c = CHR ''u'' then unicode_escape s
      else Inl (DecodeError ''JER: invalid escape in string'' 0))"

lemma read_hex_digits_shrinks: "read_hex_digits k cu s = Some (cu', s') \<Longrightarrow> length s' \<le> length s"
  by (induction k cu s rule: read_hex_digits.induct) (auto split: option.splits)

lemma unicode_escape_shrinks: "unicode_escape s = Inr (out, s') \<Longrightarrow> length s' \<le> length s"
  by (auto simp: unicode_escape_def read_hex4_def split: option.splits if_splits dest!: read_hex_digits_shrinks)

lemma read_escape_shrinks: "read_escape c s = Inr (out, s') \<Longrightarrow> length s' \<le> length s"
  by (auto simp: read_escape_def split: if_splits dest: unicode_escape_shrinks)

text \<open>The loop of \<open>read_json_string\<close> behind the opening quote.\<close>

function read_json_chars :: "string \<Rightarrow> bool \<Rightarrow> string \<Rightarrow> (string \<times> string) result" where
  "read_json_chars out esc [] = Inl (DecodeError ''JER: unterminated string'' 0)"
| "read_json_chars out esc (c # s) =
     (if esc then
        (case read_escape c s of Inl e \<Rightarrow> Inl e | Inr (t, s') \<Rightarrow> read_json_chars (out @ t) False s')
      else if c = BSLASH then read_json_chars out True s
      else if c = QUOTE then Inr (out, s)
      else read_json_chars (out @ [c]) False s)"
  by pat_completeness auto
termination
  by (relation "measure (\<lambda>(out, esc, s). length s)") (auto dest: read_escape_shrinks simp: less_Suc_eq_le)

declare read_json_chars.simps(2) [simp del]

definition read_json_string :: "string \<Rightarrow> (string \<times> string) result" where
  "read_json_string s =
     (let s = skip_ws s in
      if s = [] \<or> hd s \<noteq> QUOTE then Inl (DecodeError (''JER: expected '' @ [CHR 0x27, QUOTE, CHR 0x27]) 0)
      else read_json_chars [] False (tl s))"

text \<open>\<open>json_escape\<close>: the quote, the backslash and the control characters.\<close>

definition json_escape_char :: "char \<Rightarrow> string" where
  "json_escape_char c =
     (if c = QUOTE then [BSLASH, QUOTE]
      else if c = BSLASH then [BSLASH, BSLASH]
      else if code_of c < 0x20 then [BSLASH, CHR ''u'', CHR ''0'', CHR ''0''] @ hex_pair (byte_of c)
      else [c])"

definition json_escape :: "string \<Rightarrow> string" where
  "json_escape sv = concat (map json_escape_char sv)"

section \<open>Skipping a value\<close>

text \<open>The loop over an object or array: only brackets of the first one's kind count.\<close>

fun skip_brackets :: "char \<Rightarrow> char \<Rightarrow> int \<Rightarrow> bool \<Rightarrow> bool \<Rightarrow> string \<Rightarrow> string result" where
  "skip_brackets first close depth in_str esc [] = Inl (DecodeError ''JER: unterminated object/array'' 0)"
| "skip_brackets first close depth in_str esc (c # s) =
     (if esc then skip_brackets first close depth in_str False s
      else if c = BSLASH \<and> in_str then skip_brackets first close depth in_str True s
      else if c = QUOTE then skip_brackets first close depth (\<not> in_str) False s
      else if \<not> in_str \<and> c = first then skip_brackets first close (depth + 1) in_str False s
      else if \<not> in_str \<and> c = close then
        (if depth - 1 = 0 then Inr s else skip_brackets first close (depth - 1) in_str False s)
      else skip_brackets first close depth in_str False s)"

definition skip_json_value :: "string \<Rightarrow> string result" where
  "skip_json_value s =
     (let s = skip_ws s in
      if s = [] then Inl (DecodeError ''JER: unexpected end in value'' 0)
      else if hd s = QUOTE then rbind (read_json_string s) (\<lambda>(_, s). Inr s)
      else if hd s = CHR ''{'' \<or> hd s = CHR ''['' then
        skip_brackets (hd s) (if hd s = CHR ''{'' then CHR ''}'' else CHR '']'') 0 False False s
      else Inr (dropWhile (\<lambda>c. \<not> ends_token c) s))"

end
