(* ===== verification/Jer_Codec.thy ===== *)
theory Jer_Codec
  imports Jer_Text Per_Primitives
begin

text \<open>
  The JSON encoding rules (\<open>codec/JerCodec.hpp\<close>, \<open>src/JerCodec.cpp\<close>): the streams, one
  encoder and one decoder per handler, the dispatch tables and the codec with its depth
  guard. REAL and the contained-value forms are left out.
\<close>

unbundle bit_operations_syntax

section \<open>Streams\<close>

text \<open>A \<open>child()\<close> stream shares the output and the failure flag, so there is one writer.\<close>

record jer_writer =
  jw_text :: string
  jw_failed :: bool

definition new_jer_writer :: jer_writer where
  "new_jer_writer = \<lparr>jw_text = [], jw_failed = False\<rparr>"

definition jer_put :: "string \<Rightarrow> jer_writer \<Rightarrow> jer_writer" where
  "jer_put t w = w\<lparr>jw_text := jw_text w @ t\<rparr>"

definition jer_set_encode_failed :: "jer_writer \<Rightarrow> jer_writer" where
  "jer_set_encode_failed w = w\<lparr>jw_failed := True\<rparr>"

text \<open>
  \<open>jr_memory\<close> stands for the allocator of the process: the largest number of octets it
  still hands out at once, \<open>None\<close> when every request is met. Only a request whose size the
  sender chooses freely looks at it; a copy of part of the text is taken to fit.
\<close>

record jer_reader =
  jr_text :: string
  jr_depth :: nat
  jr_memory :: "nat option"

definition new_jer_reader :: "string \<Rightarrow> jer_reader" where
  "new_jer_reader text = \<lparr>jr_text = text, jr_depth = 0, jr_memory = None\<rparr>"

fun allocates :: "nat option \<Rightarrow> nat \<Rightarrow> bool" where
  "allocates None n = True"
| "allocates (Some m) n = (n \<le> m)"

type_synonym jer_encoder = "type_desc \<Rightarrow> asn1_value \<Rightarrow> jer_writer \<Rightarrow> jer_writer"
type_synonym jer_decoder = "type_desc \<Rightarrow> asn1_value \<Rightarrow> jer_reader \<Rightarrow> (asn1_value \<times> jer_reader) result"

definition quoted :: "string \<Rightarrow> string" where
  "quoted t = QUOTE # t @ [QUOTE]"

text \<open>A decoder of the text behind the position, as a decoder of the stream.\<close>

definition on_text :: "(string \<Rightarrow> (asn1_value \<times> string) result) \<Rightarrow> jer_reader \<Rightarrow> (asn1_value \<times> jer_reader) result" where
  "on_text f r = rbind (f (jr_text r)) (\<lambda>(v, s). Inr (v, r\<lparr>jr_text := s\<rparr>))"

section \<open>Primitive types\<close>

definition jer_null_decode :: "string \<Rightarrow> (asn1_value \<times> string) result" where
  "jer_null_decode s = rbind (read_json_token s) (\<lambda>(tok, s).
     if tok \<noteq> ''null'' then Inl (DecodeError (''JER: expected null, got: '' @ tok) 0) else Inr (V_Null, s))"

definition jer_boolean_decode :: "string \<Rightarrow> (asn1_value \<times> string) result" where
  "jer_boolean_decode s = rbind (read_json_token s) (\<lambda>(tok, s).
     if tok = ''true'' then Inr (V_Boolean True, s)
     else if tok = ''false'' then Inr (V_Boolean False, s)
     else Inl (DecodeError (''JER: BOOLEAN expected true/false, got: '' @ tok) 0))"

text \<open>\<open>std::from_chars\<close> for \<open>int64_t\<close> and \<open>uint64_t\<close>; the pointer behind the digits is not looked at.\<close>

definition from_chars_i64 :: "string \<Rightarrow> i64 option" where
  "from_chars_i64 tok = map_option (\<lambda>(v, _). of_int v) (from_chars_signed (- 0x8000000000000000) 0x7FFFFFFFFFFFFFFF tok)"

definition from_chars_u64 :: "string \<Rightarrow> u64 option" where
  "from_chars_u64 tok = map_option (\<lambda>(v, _). of_nat v) (from_chars_unsigned 0xFFFFFFFFFFFFFFFF tok)"

definition jer_integer_decode :: "constraints \<Rightarrow> string \<Rightarrow> (asn1_value \<times> string) result" where
  "jer_integer_decode c s = rbind (read_json_token s) (\<lambda>(tok, s).
     if c_int_kind c = INT_U64 then
       (case from_chars_u64 tok of
          None \<Rightarrow> Inl (DecodeError (''JER: invalid INTEGER: '' @ tok) 0)
        | Some v \<Rightarrow> Inr (V_UInteger v, s))
     else
       (case from_chars_i64 tok of
          None \<Rightarrow> Inl (DecodeError (''JER: invalid INTEGER: '' @ tok) 0)
        | Some v \<Rightarrow> Inr (V_Integer v, s)))"

text \<open>\<open>BitStringJerHandler\<close>: \<open>fixed_size\<close> is -1 unless the SIZE is one value and not extensible.\<close>

definition fixed_size :: "constraints \<Rightarrow> int" where
  "fixed_size c =
     (if \<not> has_flag c SIZE_CONSTRAINED \<or> has_flag c EXTENSIBLE then - 1
      else if size_lower c = size_upper c then size_lower c else - 1)"

definition jer_bit_string_text :: "constraints \<Rightarrow> bit_string \<Rightarrow> string" where
  "jer_bit_string_text c v =
     (let hex = hex_encode_upper (bs_bytes v); bits = bit_count v in
      if fixed_size c \<ge> 0 \<and> int bits = fixed_size c then quoted hex
      else ''{'' @ quoted ''value'' @ '':'' @ quoted hex @ '','' @ quoted ''length'' @ '':'' @ to_string bits @ ''}'')"

text \<open>The octets of a value with the bits behind its length cleared.\<close>

definition masked_bits :: "byte list \<Rightarrow> byte \<Rightarrow> bit_string" where
  "masked_bits bytes unused =
     \<lparr>bs_bytes = (if bytes \<noteq> [] \<and> unused > 0 then bytes[length bytes - 1 := last bytes AND unused_mask unused] else bytes),
      bs_unused = unused\<rparr>"

text \<open>One round of the loop over the two members of the object form; a failed number keeps the old count.\<close>

definition bit_string_field :: "string \<times> u64 \<Rightarrow> string \<Rightarrow> ((string \<times> u64) \<times> string) result" where
  "bit_string_field st s =
     rbind (read_json_string s) (\<lambda>(key, s).
     rbind (expect_char CHR '':'' s) (\<lambda>s.
     rbind (if key = ''value'' then rbind (read_json_string s) (\<lambda>(hex, s). Inr ((hex, snd st), s))
            else if key = ''length'' then
              rbind (read_json_token s) (\<lambda>(tok, s).
                Inr ((fst st, case from_chars_u64 tok of None \<Rightarrow> snd st | Some n \<Rightarrow> n), s))
            else (case read_json_token s of Inl _ \<Rightarrow> Inr (st, skip_ws s) | Inr (_, s) \<Rightarrow> Inr (st, s)))
       (\<lambda>(st, s). let s = skip_ws s in Inr (st, if s \<noteq> [] \<and> hd s = CHR '','' then tl s else s))))"

fun skip_array :: "nat \<Rightarrow> string \<Rightarrow> string" where
  "skip_array depth [] = []"
| "skip_array depth (c # s) =
     (if depth = 0 then c # s
      else skip_array (if c = CHR ''['' then depth + 1 else if c = CHR '']'' then depth - 1 else depth) s)"

text \<open>
  The object form resizes the octets to the count that the sender names, whatever the
  number of hex digits, and nothing catches the exception of a resize that fails.
\<close>

definition jer_bit_string_decode :: "nat option \<Rightarrow> type_desc \<Rightarrow> string \<Rightarrow> (asn1_value \<times> string) result" where
  "jer_bit_string_decode memory def s =
     (let s = skip_ws s; n = fixed_size (td_constraints def) in
      if s \<noteq> [] \<and> hd s = QUOTE then
        if n < 0 then Inl (DecodeError (''JER: BIT STRING '' @ td_name def @ '' is not fixed-size; expected {''
          @ quoted ''value'' @ '','' @ quoted ''length'' @ ''}'') 0)
        else
          rbind (read_json_string s) (\<lambda>(hex_str, s).
            let raw = parse_hex_str hex_str; byte_count = nat ((n + 7) div 8) in
            if length raw \<noteq> byte_count then 
              Inl (DecodeError (''JER: BIT STRING '' @ td_name def @ '': expected '' @ to_string byte_count @ '' hex octets'') 0)
            else Inr (V_BitString (masked_bits raw (of_int (int byte_count * 8 - n))), s))
      else if s \<noteq> [] \<and> hd s = CHR ''['' then
        Inr (V_BitString \<lparr>bs_bytes = [], bs_unused = 0\<rparr>, skip_array 1 (tl s))
      else
        rbind (expect_char CHR ''{'' s) (\<lambda>s.
        rbind (bit_string_field ([], 0) s) (\<lambda>(st, s).
        rbind (bit_string_field st s) (\<lambda>((hex_str, bits), s).
        rbind (expect_char CHR ''}'' s) (\<lambda>s.
          let byte_count = (bits + 7) div 8 in
          if \<not> allocates memory (unat byte_count) then Inl (BadAlloc (unat byte_count))
          else Inr (V_BitString (masked_bits (vec_resize (unat byte_count) (parse_hex_str hex_str))
                      (ucast (byte_count * 8 - bits))), s))))))"

text \<open>OCTET STRING, ANY and the strings without a character repertoire of their own: hex.\<close>

definition jer_hex_decode :: "(byte list \<Rightarrow> asn1_value) \<Rightarrow> string \<Rightarrow> (asn1_value \<times> string) result" where
  "jer_hex_decode mk s = rbind (read_json_string s) (\<lambda>(hex, s). Inr (mk (parse_hex_str hex), s))"

definition jer_arcs_decode :: "(u32 list \<Rightarrow> asn1_value) \<Rightarrow> string \<Rightarrow> (asn1_value \<times> string) result" where
  "jer_arcs_decode mk s = rbind (read_json_string s) (\<lambda>(str, s). Inr (mk (parse_arcs str), s))"

definition jer_string_decode :: "string \<Rightarrow> (asn1_value \<times> string) result" where
  "jer_string_decode s = rbind (read_json_string s) (\<lambda>(str, s). Inr (V_String (map byte_of str), s))"

definition jer_wide_decode :: "nat \<Rightarrow> string \<Rightarrow> (asn1_value \<times> string) result" where
  "jer_wide_decode stride s =
     rbind (read_json_string s) (\<lambda>(utf8, s). Inr (V_String (utf8_to_wide stride (map byte_of utf8)), s))"

definition string_text :: "byte list \<Rightarrow> string" where
  "string_text sv = quoted (json_escape (map char_of_byte sv))"

text \<open>ENUMERATED: the name by binary search, an unknown value as a number.\<close>

definition jer_enum_text :: "enum_spec \<Rightarrow> i64 \<Rightarrow> string" where
  "jer_enum_text spec v =
     (let i = enum_search (es_entries spec) v 0 (int (length (es_entries spec)) - 1) in
      if i \<ge> 0 then quoted (ee_name (es_entries spec ! nat i)) else int_text (sint v))"

fun entry_named :: "string \<Rightarrow> enum_entry list \<Rightarrow> i64 option" where
  "entry_named name [] = None"
| "entry_named name (e # es) = (if name = ee_name e then Some (ee_value e) else entry_named name es)"

definition jer_enum_decode :: "enum_spec \<Rightarrow> string \<Rightarrow> (asn1_value \<times> string) result" where
  "jer_enum_decode spec s =
     (let s = skip_ws s in
      if s \<noteq> [] \<and> hd s = QUOTE then
        rbind (read_json_string s) (\<lambda>(name, s).
          case entry_named name (es_entries spec) of
            None \<Rightarrow> Inl (DecodeError (''JER: unknown enum value: '' @ name) 0)
          | Some v \<Rightarrow> Inr (V_Enum v, s))
      else
        rbind (read_json_token s) (\<lambda>(tok, s).
          case from_chars_i64 tok of
            None \<Rightarrow> Inl (DecodeError (''JER: invalid ENUMERATED: '' @ tok) 0)
          | Some v \<Rightarrow> Inr (V_Enum v, s)))"

section \<open>Constructed types\<close>

text \<open>The copy of a member's descriptor under the member's name.\<close>

definition renamed :: "string \<Rightarrow> type_desc \<Rightarrow> type_desc" where
  "renamed name def = def\<lparr>td_name := name\<rparr>"

fun jer_encode_elements :: "jer_encoder \<Rightarrow> type_desc \<Rightarrow> bool \<Rightarrow> asn1_value list \<Rightarrow> jer_writer \<Rightarrow> jer_writer" where
  "jer_encode_elements codec edef first [] w = w"
| "jer_encode_elements codec edef first (v # vs) w =
     jer_encode_elements codec edef False vs (codec edef v (if first then w else jer_put '','' w))"

definition jer_seqof_encode :: "jer_encoder \<Rightarrow> type_env \<Rightarrow> type_desc \<Rightarrow> asn1_value list \<Rightarrow> jer_writer \<Rightarrow> jer_writer" where
  "jer_seqof_encode codec \<Gamma> def seq w =
     (case td_seq_of_spec def of
        None \<Rightarrow> w
      | Some spec \<Rightarrow> jer_put '']'' (jer_encode_elements codec (\<Gamma> (sos_element spec)) True seq (jer_put ''['' w)))"

text \<open>The loop of \<open>SeqOfJerHandler::decode\<close>; the fuel bounds its rounds.\<close>

fun jer_decode_elements :: "nat \<Rightarrow> jer_decoder \<Rightarrow> type_desc \<Rightarrow> asn1_value list \<Rightarrow> jer_reader \<Rightarrow> (asn1_value list \<times> jer_reader) result" where
  "jer_decode_elements 0 codec edef seq r = Inl OutOfFuel"
| "jer_decode_elements (Suc n) codec edef seq r =
     (let (pk, s) = peek_char (jr_text r) in
      if pk = CHR '']'' then Inr (seq, r\<lparr>jr_text := tl s\<rparr>)
      else if pk = CHR 0x00 then Inl (DecodeError ''JER: unexpected end in array'' 0)
      else if pk = CHR '','' then jer_decode_elements n codec edef seq (r\<lparr>jr_text := tl s\<rparr>)
      else
        rbind (codec edef (td_new edef) (r\<lparr>jr_text := s\<rparr>)) (\<lambda>(v, r).
          jer_decode_elements n codec edef (seq @ [v]) r))"

definition jer_seqof_decode :: "jer_decoder \<Rightarrow> type_env \<Rightarrow> type_desc \<Rightarrow> jer_reader \<Rightarrow> (asn1_value \<times> jer_reader) result" where
  "jer_seqof_decode codec \<Gamma> def r =
     (case td_seq_of_spec def of
        None \<Rightarrow> Inl NullDeref
      | Some spec \<Rightarrow>
          rbind (expect_char CHR ''['' (jr_text r)) (\<lambda>s.
          rbind (jer_decode_elements (Suc (length s)) codec (\<Gamma> (sos_element spec)) [] (r\<lparr>jr_text := s\<rparr>)) (\<lambda>(vs, r).
            Inr (V_SeqOf vs, r))))"

fun jer_encode_members ::
    "jer_encoder \<Rightarrow> type_env \<Rightarrow> asn1_value option list \<Rightarrow> nat \<Rightarrow> bool \<Rightarrow> member list \<Rightarrow> jer_writer \<Rightarrow> jer_writer" where
  "jer_encode_members codec \<Gamma> src i first [] w = w"
| "jer_encode_members codec \<Gamma> src i first (mbr # mbrs) w =
     (case m_type mbr of
        None \<Rightarrow> jer_encode_members codec \<Gamma> src (Suc i) first mbrs w
      | Some t \<Rightarrow>
          if m_optional mbr \<and> \<not> is_present mbr src i then jer_encode_members codec \<Gamma> src (Suc i) first mbrs w
          else
            let w = jer_put (quoted (m_name mbr) @ '':'') (if first then w else jer_put '','' w) in
            (case member_ptr src i of
               None \<Rightarrow> w
             | Some mptr \<Rightarrow>
                 jer_encode_members codec \<Gamma> src (Suc i) False mbrs (codec (renamed (m_name mbr) (\<Gamma> t)) mptr w)))"

definition jer_sequence_encode :: "jer_encoder \<Rightarrow> type_env \<Rightarrow> type_desc \<Rightarrow> asn1_value option list \<Rightarrow> jer_writer \<Rightarrow> jer_writer" where
  "jer_sequence_encode codec \<Gamma> def src w =
     (case td_sequence_spec def of
        None \<Rightarrow> w
      | Some spec \<Rightarrow> jer_put ''}'' (jer_encode_members codec \<Gamma> src 0 True (ss_members spec) (jer_put ''{'' w)))"

definition jer_value_may_be_null :: "type_desc \<Rightarrow> bool" where
  "jer_value_may_be_null def \<longleftrightarrow> td_kind def = Any \<or> (td_kind def = Primitive \<and> number (builtin_tag def) = 5)"

fun find_named :: "string \<Rightarrow> nat \<Rightarrow> member list \<Rightarrow> (nat \<times> member) option" where
  "find_named key i [] = None"
| "find_named key i (mbr # mbrs) = (if key = m_name mbr then Some (i, mbr) else find_named key (Suc i) mbrs)"

fun clear_optional :: "type_env \<Rightarrow> nat \<Rightarrow> member list \<Rightarrow> asn1_value option list \<Rightarrow> asn1_value option list" where
  "clear_optional \<Gamma> i [] ms = ms"
| "clear_optional \<Gamma> i (mbr # mbrs) ms =
     clear_optional \<Gamma> (Suc i) mbrs (if m_optional mbr then set_present \<Gamma> mbr i False ms else ms)"

fun missing_member :: "bool list \<Rightarrow> nat \<Rightarrow> member list \<Rightarrow> member option" where
  "missing_member seen i [] = None"
| "missing_member seen i (mbr # mbrs) =
     (if \<not> seen ! i \<and> \<not> m_optional mbr \<and> m_type mbr \<noteq> None then Some mbr else missing_member seen (Suc i) mbrs)"

text \<open>The loop of \<open>SequenceJerHandler::decode\<close> over the members of the text.\<close>

fun jer_decode_members ::
    "nat \<Rightarrow> jer_decoder \<Rightarrow> type_env \<Rightarrow> member list \<Rightarrow> asn1_value option list \<Rightarrow> bool list \<Rightarrow> jer_reader
      \<Rightarrow> (asn1_value option list \<times> bool list \<times> jer_reader) result" where
  "jer_decode_members 0 codec \<Gamma> mbrs ms seen r = Inl OutOfFuel"
| "jer_decode_members (Suc n) codec \<Gamma> mbrs ms seen r =
     (let (pk, s) = peek_char (jr_text r) in
      if pk = CHR ''}'' then Inr (ms, seen, r\<lparr>jr_text := tl s\<rparr>)
      else if pk = CHR 0x00 then Inl (DecodeError ''JER: unexpected end in object'' 0)
      else if pk = CHR '','' then jer_decode_members n codec \<Gamma> mbrs ms seen (r\<lparr>jr_text := tl s\<rparr>)
      else
        rbind (read_json_string s) (\<lambda>(key, s).
        rbind (expect_char CHR '':'' s) (\<lambda>s.
          let skip = rbind (skip_json_value s) (\<lambda>s. jer_decode_members n codec \<Gamma> mbrs ms seen (r\<lparr>jr_text := s\<rparr>)) in
          (case find_named key 0 mbrs of
             None \<Rightarrow> skip
           | Some (i, mbr) \<Rightarrow>
              (case m_type mbr of
                 None \<Rightarrow> skip
               | Some t \<Rightarrow>
                   let null_len = (if m_optional mbr then peek_null s else 0) in
                   if null_len \<noteq> 0 \<and> \<not> jer_value_may_be_null (\<Gamma> t) then
                     jer_decode_members n codec \<Gamma> mbrs (set_present \<Gamma> mbr i False ms) (seen[i := False])
                       (r\<lparr>jr_text := drop null_len s\<rparr>)
                   else
                     let ms = (if m_optional mbr then set_present \<Gamma> mbr i True ms else ms) in
                     (case member_ptr ms i of
                        None \<Rightarrow> Inl NullDeref
                      | Some mptr \<Rightarrow>
                          rbind (codec (renamed (m_name mbr) (\<Gamma> t)) mptr (r\<lparr>jr_text := s\<rparr>)) (\<lambda>(v, r).
                            jer_decode_members n codec \<Gamma> mbrs (ms[i := Some v]) (seen[i := True]) r)))))))"

definition jer_sequence_decode :: "jer_decoder \<Rightarrow> type_env \<Rightarrow> type_desc \<Rightarrow> asn1_value \<Rightarrow> jer_reader \<Rightarrow> (asn1_value \<times> jer_reader) result" where
  "jer_sequence_decode codec \<Gamma> def dest r =
     (case (td_sequence_spec def, dest) of
        (Some spec, V_Sequence ms) \<Rightarrow>
          rbind (expect_char CHR ''{'' (jr_text r)) (\<lambda>s.
            let mbrs = ss_members spec in
            rbind (jer_decode_members (Suc (length s)) codec \<Gamma> mbrs (clear_optional \<Gamma> 0 mbrs ms)
                     (replicate (length mbrs) False) (r\<lparr>jr_text := s\<rparr>)) (\<lambda>(ms, seen, r).
              case missing_member seen 0 mbrs of
                Some mbr \<Rightarrow> Inl (DecodeError (''JER: missing required member: '' @ m_name mbr) 0)
              | None \<Rightarrow> Inr (V_Sequence ms, r)))
      | _ \<Rightarrow> Inl NullDeref)"

definition jer_choice_encode :: "jer_encoder \<Rightarrow> type_env \<Rightarrow> type_desc \<Rightarrow> int \<Rightarrow> asn1_value option \<Rightarrow> jer_writer \<Rightarrow> jer_writer" where
  "jer_choice_encode codec \<Gamma> def pr storage w =
     (case td_choice_spec def of
        None \<Rightarrow> w
      | Some spec \<Rightarrow>
          if pr \<le> 0 \<or> pr > int (length (cs_alternatives spec)) then jer_set_encode_failed w
          else
            let alt = cs_alternatives spec ! nat (pr - 1) in
            (case (m_type alt, storage) of
               (None, _) \<Rightarrow> jer_set_encode_failed w
             | (Some t, Some mptr) \<Rightarrow>
                 jer_put ''}'' (codec (renamed (m_name alt) (\<Gamma> t)) mptr (jer_put (''{'' @ quoted (m_name alt) @ '':'') w))
             | (Some t, None) \<Rightarrow> w))"

definition jer_choice_decode :: "jer_decoder \<Rightarrow> type_env \<Rightarrow> type_desc \<Rightarrow> asn1_value \<Rightarrow> jer_reader \<Rightarrow> (asn1_value \<times> jer_reader) result" where
  "jer_choice_decode codec \<Gamma> def dest r =
     (case (td_choice_spec def, dest) of
        (Some spec, V_Choice p storage) \<Rightarrow>
          rbind (expect_char CHR ''{'' (jr_text r)) (\<lambda>s.
          rbind (read_json_string s) (\<lambda>(key, s).
          rbind (expect_char CHR '':'' s) (\<lambda>s.
            case find_named key 0 (cs_alternatives spec) of
              None \<Rightarrow> Inl (DecodeError (''JER: CHOICE: unknown alternative: '' @ key) 0)
            | Some (i, alt) \<Rightarrow>
               (case m_type alt of
                  None \<Rightarrow> Inl (DecodeError (''JER: CHOICE: no descriptor for '' @ m_name alt) 0)
                | Some t \<Rightarrow>
                   (case (if p \<noteq> int i + 1 then Some (emplace_alt \<Gamma> alt) else storage) of
                      None \<Rightarrow> Inl NullDeref
                    | Some mptr \<Rightarrow>
                        rbind (codec (renamed (m_name alt) (\<Gamma> t)) mptr (r\<lparr>jr_text := s\<rparr>)) (\<lambda>(v, r).
                        rbind (expect_char CHR ''}'' (jr_text r)) (\<lambda>s.
                          Inr (V_Choice (int i + 1) (Some v), r\<lparr>jr_text := s\<rparr>))))))))
      | _ \<Rightarrow> Inl NullDeref)"

section \<open>Dispatch\<close>

datatype jer_handler =
    J_Error | J_Null | J_Boolean | J_Integer | J_Real | J_BitString | J_OctetString | J_Oid | J_RelOid
  | J_Time | J_String | J_HexString | J_WideString nat | J_Any | J_Enumerated | J_SeqOf | J_Sequence | J_Choice

definition jer_prim_dispatch :: "jer_handler list" where
  "jer_prim_dispatch =
     [J_Error, J_Boolean, J_Integer, J_BitString, J_OctetString, J_Null, J_Oid, J_String,
      J_Error, J_Real, J_Error, J_Error, J_String, J_RelOid, J_Error, J_Error,
      J_Error, J_Error, J_String, J_String, J_HexString, J_HexString, J_String, J_Time,
      J_Time, J_HexString, J_String, J_HexString, J_WideString 4, J_Error, J_WideString 2, J_Error]"

fun jer_comp_dispatch :: "type_kind \<Rightarrow> jer_handler" where
  "jer_comp_dispatch Primitive = J_Error"
| "jer_comp_dispatch Any = J_Any"
| "jer_comp_dispatch Enumerated = J_Enumerated"
| "jer_comp_dispatch Sequence = J_Sequence"
| "jer_comp_dispatch Choice = J_Choice"
| "jer_comp_dispatch SeqOf = J_SeqOf"

text \<open>\<open>None\<close>: an index beyond the table.\<close>

definition jer_handler_of :: "type_desc \<Rightarrow> jer_handler option" where
  "jer_handler_of def =
     (if td_kind def = Primitive then
        let n = unat (number (builtin_tag def)) in if n < 32 then Some (jer_prim_dispatch ! n) else None
      else Some (jer_comp_dispatch (td_kind def)))"

text \<open>
  A \<open>static_cast\<close> to a class the value does not have leaves the writer as it is, as does
  REAL, for which the model has no values.
\<close>

definition jer_handler_encode :: "jer_encoder \<Rightarrow> type_env \<Rightarrow> jer_encoder" where
  "jer_handler_encode codec \<Gamma> def src w =
     (case jer_handler_of def of
        None \<Rightarrow> w
      | Some h \<Rightarrow>
         (case (h, src) of
            (J_Error, _) \<Rightarrow> jer_set_encode_failed w
          | (J_Null, _) \<Rightarrow> jer_put ''null'' w
          | (J_Boolean, V_Boolean b) \<Rightarrow> jer_put (if b then ''true'' else ''false'') w
          | (J_Integer, V_UInteger n) \<Rightarrow>
              if c_int_kind (td_constraints def) = INT_U64 then jer_put (to_string (unat n)) w else w
          | (J_Integer, V_Integer n) \<Rightarrow>
              if c_int_kind (td_constraints def) = INT_U64 then w else jer_put (int_text (sint n)) w
          | (J_BitString, V_BitString v) \<Rightarrow> jer_put (jer_bit_string_text (td_constraints def) v) w
          | (J_OctetString, V_OctetString bs) \<Rightarrow> jer_put (quoted (hex_encode_upper bs)) w
          | (J_Any, V_OctetString bs) \<Rightarrow> jer_put (quoted (hex_encode_upper bs)) w
          | (J_Oid, V_Oid a) \<Rightarrow> jer_put (quoted (format_arcs a)) w
          | (J_RelOid, V_RelativeOid a) \<Rightarrow> jer_put (quoted (format_arcs a)) w
          | (J_Time, V_String s) \<Rightarrow> jer_put (string_text s) w
          | (J_String, V_String s) \<Rightarrow> jer_put (string_text s) w
          | (J_HexString, V_String s) \<Rightarrow> jer_put (quoted (hex_encode_upper s)) w
          | (J_WideString k, V_String s) \<Rightarrow> jer_put (string_text (wide_to_utf8 k s)) w
          | (J_Enumerated, V_Enum v) \<Rightarrow>
             (case td_enum_spec def of None \<Rightarrow> w | Some spec \<Rightarrow> jer_put (jer_enum_text spec v) w)
          | (J_SeqOf, V_SeqOf vs) \<Rightarrow> jer_seqof_encode codec \<Gamma> def vs w
          | (J_Sequence, V_Sequence ms) \<Rightarrow> jer_sequence_encode codec \<Gamma> def ms w
          | (J_Choice, V_Choice p v) \<Rightarrow> jer_choice_encode codec \<Gamma> def p v w
          | _ \<Rightarrow> w))"

definition jer_handler_decode :: "jer_decoder \<Rightarrow> type_env \<Rightarrow> jer_decoder" where
  "jer_handler_decode codec \<Gamma> def dest r =
     (case jer_handler_of def of
        None \<Rightarrow> Inl NullDeref
      | Some h \<Rightarrow>
         (case h of
            J_Error \<Rightarrow> Inl (DecodeError (''JER: unsupported: '' @ td_name def) 0)
          | J_Real \<Rightarrow> Inl NullDeref
          | J_Null \<Rightarrow> on_text jer_null_decode r
          | J_Boolean \<Rightarrow> on_text jer_boolean_decode r
          | J_Integer \<Rightarrow> on_text (jer_integer_decode (td_constraints def)) r
          | J_BitString \<Rightarrow> on_text (jer_bit_string_decode (jr_memory r) def) r
          | J_OctetString \<Rightarrow> on_text (jer_hex_decode V_OctetString) r
          | J_Any \<Rightarrow> on_text (jer_hex_decode V_OctetString) r
          | J_Oid \<Rightarrow> on_text (jer_arcs_decode V_Oid) r
          | J_RelOid \<Rightarrow> on_text (jer_arcs_decode V_RelativeOid) r
          | J_Time \<Rightarrow> on_text jer_string_decode r
          | J_String \<Rightarrow> on_text jer_string_decode r
          | J_HexString \<Rightarrow> on_text (jer_hex_decode V_String) r
          | J_WideString k \<Rightarrow> on_text (jer_wide_decode k) r
          | J_Enumerated \<Rightarrow>
             (case td_enum_spec def of None \<Rightarrow> Inl NullDeref | Some spec \<Rightarrow> on_text (jer_enum_decode spec) r)
          | J_SeqOf \<Rightarrow> jer_seqof_decode codec \<Gamma> def r
          | J_Sequence \<Rightarrow> jer_sequence_decode codec \<Gamma> def dest r
          | J_Choice \<Rightarrow> jer_choice_decode codec \<Gamma> def dest r))"

section \<open>The codec\<close>

fun jer_encode_fuel :: "nat \<Rightarrow> type_env \<Rightarrow> jer_encoder" where
  "jer_encode_fuel 0 \<Gamma> def src w = jer_set_encode_failed w"
| "jer_encode_fuel (Suc n) \<Gamma> def src w = jer_handler_encode (jer_encode_fuel n \<Gamma>) \<Gamma> def src w"

definition jer_encode :: "type_env \<Rightarrow> jer_encoder" where
  "jer_encode \<Gamma> def src w = jer_encode_fuel (Suc (height src)) \<Gamma> def src w"

text \<open>\<open>DecodeDepthGuard\<close> around one level.\<close>

definition jer_codec_decode :: "jer_decoder \<Rightarrow> type_env \<Rightarrow> jer_decoder" where
  "jer_codec_decode codec \<Gamma> def dest r0 =
     (let r = (if depth_counts def then r0\<lparr>jr_depth := jr_depth r0 + 1\<rparr> else r0) in
      if depth_counts def \<and> jr_depth r > kMaxDecodeDepth then Inl (DecodeError (depth_message def) 0)
      else rbind (jer_handler_decode codec \<Gamma> def dest r) (\<lambda>(v, r). Inr (v, r\<lparr>jr_depth := jr_depth r0\<rparr>)))"

fun jer_decode_fuel :: "nat \<Rightarrow> type_env \<Rightarrow> jer_decoder" where
  "jer_decode_fuel 0 \<Gamma> def dest r = Inl OutOfFuel"
| "jer_decode_fuel (Suc n) \<Gamma> def dest r = jer_codec_decode (jer_decode_fuel n \<Gamma>) \<Gamma> def dest r"

definition jer_decode :: "type_env \<Rightarrow> jer_decoder" where
  "jer_decode = jer_decode_fuel (kMaxDecodeDepth + 2)"

end
