(* ===== verification/Xer_Codec.thy ===== *)
theory Xer_Codec
  imports Xer_Text Jer_Codec
begin

text \<open>
  The XML encoding rules (\<open>codec/XerCodec.hpp\<close>, \<open>src/XerCodec.cpp\<close>): the streams, one
  encoder and one decoder per handler, the dispatch tables and the codec with the wrapper
  of a CHOICE at the document root. REAL and the contained-value forms are left out. The
  descriptor of a member is copied under the member's name (\<open>renamed\<close>).
\<close>

unbundle bit_operations_syntax

section \<open>Streams\<close>

text \<open>
  A \<open>child()\<close> stream shares the output, the failure flag and the count of codec calls and
  is one level deeper, so there is one writer and \<open>xer_child\<close> moves its depth.
\<close>

record xer_writer =
  xw_text :: string
  xw_failed :: bool
  xw_depth :: nat
  xw_calls :: nat

definition new_xer_writer :: xer_writer where
  "new_xer_writer = \<lparr>xw_text = [], xw_failed = False, xw_depth = 0, xw_calls = 0\<rparr>"

definition xer_put :: "string \<Rightarrow> xer_writer \<Rightarrow> xer_writer" where
  "xer_put t w = w\<lparr>xw_text := xw_text w @ t\<rparr>"

definition xer_set_encode_failed :: "xer_writer \<Rightarrow> xer_writer" where
  "xer_set_encode_failed w = w\<lparr>xw_failed := True\<rparr>"

definition indent_text :: "nat \<Rightarrow> string" where
  "indent_text d = replicate (4 * d) CHR '' ''"

record xer_reader =
  xr_text :: string
  xr_lenient :: bool
  xr_depth :: nat

definition new_xer_reader :: "string \<Rightarrow> bool \<Rightarrow> xer_reader" where
  "new_xer_reader text lenient = \<lparr>xr_text = text, xr_lenient = lenient, xr_depth = 0\<rparr>"

type_synonym xer_encoder = "type_desc \<Rightarrow> asn1_value \<Rightarrow> xer_writer \<Rightarrow> xer_writer"
type_synonym xer_decoder = "type_desc \<Rightarrow> asn1_value \<Rightarrow> xer_reader \<Rightarrow> (asn1_value \<times> xer_reader) result"

definition xer_child :: "xer_encoder \<Rightarrow> xer_encoder" where
  "xer_child codec def v w = (codec def v (w\<lparr>xw_depth := xw_depth w + 1\<rparr>))\<lparr>xw_depth := xw_depth w\<rparr>"

definition on_xer_text :: "(string \<Rightarrow> (asn1_value \<times> string) result) \<Rightarrow> xer_reader \<Rightarrow> (asn1_value \<times> xer_reader) result" where
  "on_xer_text f r = rbind (f (xr_text r)) (\<lambda>(v, s). Inr (v, r\<lparr>xr_text := s\<rparr>))"

section \<open>Primitive types\<close>

definition xer_element :: "string \<Rightarrow> string \<Rightarrow> string" where
  "xer_element name body = open_tag name @ body @ close_tag name @ [CHR 0x0A]"

definition xer_null_text :: "string \<Rightarrow> string" where
  "xer_null_text name = (if name = ''NULL'' then empty_tag ''NULL'' @ [CHR 0x0A] else xer_element name [])"

definition xer_null_decode :: "string \<Rightarrow> string \<Rightarrow> (asn1_value \<times> string) result" where
  "xer_null_decode name s =
     (let (ti, s) = parse_tag s in
      if ti_name ti \<noteq> name \<or> ti_closing ti then Inl (expected_tag ''<'' name)
      else if \<not> ti_self_closing ti then
        let (cl, s) = parse_tag s in
        if \<not> ti_closing cl \<or> ti_name cl \<noteq> name then Inl (expected_tag ''</'' name) else Inr (V_Null, s)
      else Inr (V_Null, s))"

definition boolean_text :: "bool \<Rightarrow> string" where
  "boolean_text b = (if b then empty_tag ''true'' else empty_tag ''false'')"

definition xer_boolean_decode :: "bool \<Rightarrow> string \<Rightarrow> string \<Rightarrow> (asn1_value \<times> string) result" where
  "xer_boolean_decode lenient name s =
     rbind (consume_open_tag name s) (\<lambda>s.
       let s = xer_skip_ws s in
       rbind (if s \<noteq> [] \<and> hd s = CHR ''<'' then
                (let (inner, s) = parse_tag s in
                 if ti_name inner = ''true'' \<and> ti_self_closing inner then Inr (True, s)
                 else if ti_name inner = ''false'' \<and> ti_self_closing inner then Inr (False, s)
                 else Inl (DecodeError ''XER BOOLEAN: expected <true/> or <false/>'' 0))
              else if lenient then
                (if take 4 s = ''true'' then Inr (True, xer_skip_ws (drop 4 s))
                 else if take 5 s = ''false'' then Inr (False, xer_skip_ws (drop 5 s))
                 else Inl (DecodeError ''XER BOOLEAN: expected true or false'' 0))
              else Inl (DecodeError ''XER BOOLEAN: expected <true/> or <false/>'' 0))
         (\<lambda>(b, s). rbind (consume_close_tag name s) (\<lambda>s. Inr (V_Boolean b, s))))"

definition xer_integer_value :: "constraints \<Rightarrow> string \<Rightarrow> asn1_value result" where
  "xer_integer_value c t =
     (let text = xer_trim t in
      if c_int_kind c = INT_U64 then
        (case from_chars_u64 text of
           None \<Rightarrow> Inl (DecodeError (''XER: invalid INTEGER value: '' @ text) 0)
         | Some v \<Rightarrow> Inr (V_UInteger v))
      else
        (case from_chars_i64 text of
           None \<Rightarrow> Inl (DecodeError (''XER: invalid INTEGER value: '' @ text) 0)
         | Some v \<Rightarrow> Inr (V_Integer v)))"

text \<open>BIT STRING: lines of 64 characters.\<close>

definition bit_chars :: "bit_string \<Rightarrow> string" where
  "bit_chars v = map (\<lambda>i. if bit (bs_bytes v ! (i div 8)) (7 - i mod 8) then CHR ''1'' else CHR ''0'') [0..<bit_count v]"

function bit_lines :: "string \<Rightarrow> string \<Rightarrow> string" where
  "bit_lines ind bits =
     (if bits = [] then [] else ind @ take 64 bits @ CHR 0x0A # bit_lines ind (drop 64 bits))"
  by pat_completeness auto
termination
  by (relation "measure (\<lambda>(ind, bits). length bits)") auto

declare bit_lines.simps [simp del]

definition xer_bit_string_text :: "nat \<Rightarrow> string \<Rightarrow> bit_string \<Rightarrow> string" where
  "xer_bit_string_text d name v =
     open_tag name @ CHR 0x0A #
     (if bit_count v = 0 then indent_text (d + 1) @ [CHR 0x0A] else bit_lines (indent_text (d + 1)) (bit_chars v)) @
     indent_text d @ close_tag name @ [CHR 0x0A]"

definition is_hex_only :: "char \<Rightarrow> bool" where
  "is_hex_only c \<longleftrightarrow> between CHR ''2'' c CHR ''9'' \<or> between CHR ''A'' c CHR ''F'' \<or> between CHR ''a'' c CHR ''f''"

fun scan_bits :: "string \<Rightarrow> bool \<Rightarrow> string \<Rightarrow> (string \<times> bool \<times> string) result" where
  "scan_bits content has_hex [] = Inr (content, has_hex, [])"
| "scan_bits content has_hex (c # s) =
     (if c = CHR ''<'' then Inr (content, has_hex, c # s)
      else if xer_ws c then scan_bits content has_hex s
      else if is_hex_only c then scan_bits (content @ [c]) True s
      else if c \<noteq> CHR ''0'' \<and> c \<noteq> CHR ''1'' then Inl (DecodeError ''XER: invalid BIT STRING character'' 0)
      else scan_bits (content @ [c]) has_hex s)"

text \<open>One bit per character, most significant first.\<close>

definition set_bit_char :: "string \<Rightarrow> byte list \<Rightarrow> nat \<Rightarrow> byte list" where
  "set_bit_char content bytes i =
     (if content ! i = CHR ''1'' then bytes[i div 8 := bytes ! (i div 8) OR drop_bit (i mod 8) 0x80] else bytes)"

definition pack_bits :: "string \<Rightarrow> bit_string" where
  "pack_bits content =
     (let n = length content; bytes = foldl (set_bit_char content) (replicate ((n + 7) div 8) 0) [0..<n]
      in \<lparr>bs_bytes = bytes, bs_unused = of_nat (length bytes * 8 - n)\<rparr>)"

definition xer_bit_string_decode :: "bool \<Rightarrow> string \<Rightarrow> string \<Rightarrow> (asn1_value \<times> string) result" where
  "xer_bit_string_decode lenient name s =
     rbind (consume_open_tag name s) (\<lambda>s.
     rbind (scan_bits [] False (xer_skip_ws s)) (\<lambda>(content, has_hex, s).
     rbind (consume_close_tag name s) (\<lambda>s.
       if has_hex \<and> \<not> lenient then
         Inl (DecodeError ''XER: hex BIT STRING requires lenient mode (non-standard extension)'' 0)
       else if content = [] then Inr (V_BitString \<lparr>bs_bytes = [], bs_unused = 0\<rparr>, s)
       else if has_hex then
         (if odd (length content) then Inl (DecodeError ''XER: odd-length hex BIT STRING'' 0)
          else Inr (V_BitString \<lparr>bs_bytes = parse_hex_str content, bs_unused = 0\<rparr>, s))
       else Inr (V_BitString (pack_bits content), s))))"

text \<open>OCTET STRING in its three forms.\<close>

definition xer_octets_text :: "xer_encoding \<Rightarrow> byte list \<Rightarrow> string" where
  "xer_octets_text enc bs =
     (case enc of XER_BASE64 \<Rightarrow> base64_encode bs | XER_UTF8 \<Rightarrow> write_utf8_text bs | XER_DEFAULT \<Rightarrow> hex_encode_upper bs)"

definition xer_octets_decode :: "xer_encoding \<Rightarrow> string \<Rightarrow> string \<Rightarrow> (asn1_value \<times> string) result" where
  "xer_octets_decode enc name s =
     (case enc of
        XER_UTF8 \<Rightarrow> rbind (decode_utf8_text name s) (\<lambda>(dec, s). Inr (V_OctetString dec, s))
      | XER_BASE64 \<Rightarrow> text_element name (\<lambda>text. Inr (V_OctetString (base64_decode text))) s
      | XER_DEFAULT \<Rightarrow> text_element name (\<lambda>text. Inr (V_OctetString (parse_hex_bytes text))) s)"

definition xer_hex_decode :: "(byte list \<Rightarrow> asn1_value) \<Rightarrow> string \<Rightarrow> string \<Rightarrow> (asn1_value \<times> string) result" where
  "xer_hex_decode mk name s = text_element name (\<lambda>text. Inr (mk (parse_hex_bytes text))) s"

definition xer_oid_decode :: "(u32 list \<Rightarrow> asn1_value) \<Rightarrow> string \<Rightarrow> string \<Rightarrow> (asn1_value \<times> string) result" where
  "xer_oid_decode mk name s = text_element name (\<lambda>text. Inr (mk (parse_arcs (xer_trim text)))) s"

definition xer_string_decode :: "string \<Rightarrow> string \<Rightarrow> (asn1_value \<times> string) result" where
  "xer_string_decode name s = text_element name (\<lambda>text. Inr (V_String (map byte_of text))) s"

definition xer_wide_decode :: "nat \<Rightarrow> string \<Rightarrow> string \<Rightarrow> (asn1_value \<times> string) result" where
  "xer_wide_decode stride name s = text_element name (\<lambda>text. Inr (V_String (utf8_to_wide stride (map byte_of text)))) s"

definition xer_string_text :: "string \<Rightarrow> byte list \<Rightarrow> string" where
  "xer_string_text name sv = xer_element name (xer_escape (map char_of_byte sv))"

text \<open>ENUMERATED.\<close>

definition enum_text :: "enum_spec \<Rightarrow> i64 \<Rightarrow> string" where
  "enum_text spec v =
     (let i = enum_search (es_entries spec) v 0 (int (length (es_entries spec)) - 1) in
      if i \<ge> 0 then empty_tag (ee_name (es_entries spec ! nat i)) else int_text (sint v))"

definition xer_enum_decode :: "enum_spec \<Rightarrow> string \<Rightarrow> string \<Rightarrow> (asn1_value \<times> string) result" where
  "xer_enum_decode spec name s =
     (let (outer, s) = parse_tag s in
      if ti_name outer \<noteq> name \<or> ti_closing outer then Inl (expected_tag ''<'' name)
      else
        let (inner, s) = parse_tag s in
        if ti_name inner = [] \<or> ti_closing inner then Inl (DecodeError ''XER: expected enum value tag'' 0)
        else
          rbind (if ti_self_closing inner then Inr s
                 else
                   let (cl, s) = parse_tag s in
                   if \<not> ti_closing cl \<or> ti_name cl \<noteq> ti_name inner then Inl (DecodeError ''XER: malformed enum value tag'' 0)
                   else Inr s) (\<lambda>s.
            let (cl, s) = parse_tag s in
            if \<not> ti_closing cl \<or> ti_name cl \<noteq> name then Inl (expected_tag ''</'' name)
            else
              (case entry_named (ti_name inner) (es_entries spec) of
                 None \<Rightarrow> Inl (DecodeError (''XER: unknown enum value: '' @ ti_name inner) 0)
               | Some v \<Rightarrow> Inr (V_Enum v, s))))"

section \<open>Constructed types\<close>

definition xer_value_list_element :: "type_desc \<Rightarrow> bool" where
  "xer_value_list_element edef \<longleftrightarrow>
     td_enum_spec edef \<noteq> None \<or>
     (cls (builtin_tag edef) = Universal \<and> (number (builtin_tag edef) = UT_Boolean \<or> number (builtin_tag edef) = UT_Null))"

text \<open>The descriptor that an element of a SEQUENCE OF is encoded under.\<close>

definition element_desc :: "type_env \<Rightarrow> seq_of_spec \<Rightarrow> type_desc" where
  "element_desc \<Gamma> spec =
     (case sos_element_xer_tag spec of
        None \<Rightarrow> \<Gamma> (sos_element spec)
      | Some n \<Rightarrow> renamed n (\<Gamma> (sos_element spec)))"

fun xer_encode_elements :: "xer_encoder \<Rightarrow> type_desc \<Rightarrow> bool \<Rightarrow> asn1_value list \<Rightarrow> xer_writer \<Rightarrow> xer_writer" where
  "xer_encode_elements codec edef first [] w = w"
| "xer_encode_elements codec edef first (v # vs) w =
     xer_encode_elements codec edef False vs
       (xer_child codec edef v
         (if td_choice_spec edef = None then
            xer_put (indent_text (xw_depth w + 1)) (if first then xer_put [CHR 0x0A] w else w)
          else w))"

definition value_list_item :: "type_desc \<Rightarrow> asn1_value \<Rightarrow> string" where
  "value_list_item edef v =
     (if builtin_tag edef = universal UT_Null False then empty_tag (td_name edef)
      else
        (case td_enum_spec edef of
           Some spec \<Rightarrow> (case v of V_Enum n \<Rightarrow> enum_text spec n | _ \<Rightarrow> [])
         | None \<Rightarrow> (case v of V_Boolean b \<Rightarrow> boolean_text b | _ \<Rightarrow> [])))"

definition value_list_text :: "nat \<Rightarrow> type_desc \<Rightarrow> type_desc \<Rightarrow> asn1_value list \<Rightarrow> string" where
  "value_list_text d def edef seq =
     (let own_line = (builtin_tag edef = universal UT_Null False \<or> number (builtin_tag def) = UT_Set) in
      concat (map (\<lambda>v. (if own_line then CHR 0x0A # indent_text (d + 2) else []) @ value_list_item edef v) seq))"

definition xer_seqof_encode :: "xer_encoder \<Rightarrow> type_env \<Rightarrow> type_desc \<Rightarrow> asn1_value list \<Rightarrow> xer_writer \<Rightarrow> xer_writer" where
  "xer_seqof_encode codec \<Gamma> def seq w =
     (case td_seq_of_spec def of
        None \<Rightarrow> w
      | Some spec \<Rightarrow>
          let edef = \<Gamma> (sos_element spec); end_text = indent_text (xw_depth w) @ close_tag (td_name def) @ [CHR 0x0A] in
          if seq = [] then xer_put (xer_element (td_name def) []) w
          else if xer_value_list_element edef then
            xer_put (open_tag (td_name def) @ value_list_text (xw_depth w) def edef seq @ end_text) w
          else
            xer_put end_text (xer_encode_elements codec (element_desc \<Gamma> spec) True seq (xer_put (open_tag (td_name def)) w)))"

text \<open>\<open>SeqOfBase::resize\<close> with new elements default constructed.\<close>

definition seq_resize :: "type_desc \<Rightarrow> nat \<Rightarrow> asn1_value list \<Rightarrow> asn1_value list" where
  "seq_resize edef n seq = take n seq @ replicate (n - length seq) (td_new edef)"

text \<open>The value of one bare element: of BOOLEAN, and of ENUMERATED.\<close>

definition bare_enum :: "enum_spec \<Rightarrow> string \<Rightarrow> (asn1_value \<times> string) result" where
  "bare_enum spec s =
     (let (vt, s) = parse_tag s in
      if ti_closing vt \<or> ti_name vt = [] then Inl (DecodeError ''XER SEQOF ENUM: expected value tag'' 0)
      else
        rbind (if ti_self_closing vt then Inr s
               else
                 let (cl, s) = parse_tag s in
                 if \<not> ti_closing cl \<or> ti_name cl \<noteq> ti_name vt then Inl (DecodeError ''XER SEQOF ENUM: malformed value tag'' 0)
                 else Inr s) (\<lambda>s.
          (case entry_named (ti_name vt) (es_entries spec) of
             None \<Rightarrow> Inl (DecodeError (''XER SEQOF ENUM: unknown value: '' @ ti_name vt) 0)
           | Some v \<Rightarrow> Inr (V_Enum v, s))))"

definition bare_boolean :: "string \<Rightarrow> (asn1_value \<times> string) result" where
  "bare_boolean s =
     (let (vt, s) = parse_tag s in
      if \<not> ti_self_closing vt then Inl (DecodeError ''XER SEQOF BOOLEAN: expected <true/> or <false/>'' 0)
      else Inr (V_Boolean (ti_name vt = ''true''), s))"

definition xer_decode_element :: "xer_decoder \<Rightarrow> type_desc \<Rightarrow> type_desc \<Rightarrow> asn1_value \<Rightarrow> xer_reader \<Rightarrow> (asn1_value \<times> xer_reader) result" where
  "xer_decode_element codec edef named eptr r =
     (let ti = peek_xer_tag (xr_text r) in
      if builtin_tag edef = universal UT_Boolean False \<and> (ti_name ti = ''true'' \<or> ti_name ti = ''false'') then
        on_xer_text bare_boolean r
      else
        (case td_enum_spec edef of
           Some spec \<Rightarrow> on_xer_text (bare_enum spec) r
         | None \<Rightarrow> codec named eptr r))"

text \<open>The loop of \<open>SeqOfXerHandler::decode\<close>; the fuel bounds its rounds.\<close>

fun xer_decode_elements ::
    "nat \<Rightarrow> xer_decoder \<Rightarrow> string \<Rightarrow> type_desc \<Rightarrow> type_desc \<Rightarrow> asn1_value list \<Rightarrow> nat \<Rightarrow> xer_reader
      \<Rightarrow> (asn1_value list \<times> xer_reader) result" where
  "xer_decode_elements 0 codec name edef named seq count r = Inl OutOfFuel"
| "xer_decode_elements (Suc n) codec name edef named seq count r =
     (let (ti, s) = parse_tag (xr_text r) in
      if ti_closing ti \<and> ti_name ti = name then Inr (seq, r\<lparr>xr_text := s\<rparr>)
      else if ti_name ti = [] then Inl (DecodeError (''XER SEQUENCE OF: unexpected end in <'' @ name @ ''>'') 0)
      else
        let seq = seq_resize edef (count + 1) seq in
        rbind (xer_decode_element codec edef named (seq ! count) r) (\<lambda>(v, r).
          xer_decode_elements n codec name edef named (seq[count := v]) (count + 1) r))"

definition xer_seqof_decode :: "xer_decoder \<Rightarrow> type_env \<Rightarrow> type_desc \<Rightarrow> asn1_value \<Rightarrow> xer_reader \<Rightarrow> (asn1_value \<times> xer_reader) result" where
  "xer_seqof_decode codec \<Gamma> def dest r =
     (case (td_seq_of_spec def, dest) of
        (Some spec, V_SeqOf seq) \<Rightarrow>
          let (ti, s) = parse_tag (xr_text r) in
          if ti_name ti \<noteq> td_name def \<or> ti_closing ti \<or> ti_self_closing ti then
            Inl (DecodeError (''XER SEQUENCE OF: expected <'' @ td_name def @ ''>'') 0)
          else
            rbind (xer_decode_elements (Suc (length s)) codec (td_name def) (\<Gamma> (sos_element spec)) (element_desc \<Gamma> spec) seq 0
                     (r\<lparr>xr_text := s\<rparr>)) (\<lambda>(vs, r). Inr (V_SeqOf vs, r))
      | _ \<Rightarrow> Inl NullDeref)"

text \<open>A member, or an alternative of a CHOICE; a value that is itself a CHOICE gets a wrapper.\<close>

definition xer_encode_member :: "xer_encoder \<Rightarrow> string \<Rightarrow> type_desc \<Rightarrow> asn1_value \<Rightarrow> xer_writer \<Rightarrow> xer_writer" where
  "xer_encode_member codec name mdef v w =
     (let ind = indent_text (xw_depth w + 1) in
      if td_choice_spec mdef \<noteq> None then
        xer_put (ind @ close_tag name @ [CHR 0x0A]) (xer_child codec mdef v (xer_put (ind @ open_tag name) w))
      else xer_child codec mdef v (xer_put ind w))"

definition xer_decode_member :: "xer_decoder \<Rightarrow> string \<Rightarrow> type_desc \<Rightarrow> asn1_value \<Rightarrow> xer_reader \<Rightarrow> (asn1_value \<times> xer_reader) result" where
  "xer_decode_member codec name mdef mptr r =
     (if td_choice_spec mdef \<noteq> None then
        rbind (consume_open_tag name (xr_text r)) (\<lambda>s.
        rbind (codec mdef mptr (r\<lparr>xr_text := s\<rparr>)) (\<lambda>(v, r).
        rbind (consume_close_tag name (xr_text r)) (\<lambda>s. Inr (v, r\<lparr>xr_text := s\<rparr>))))
      else codec mdef mptr r)"

definition any_member_present :: "sequence_spec \<Rightarrow> asn1_value option list \<Rightarrow> bool" where
  "any_member_present spec src \<longleftrightarrow>
     list_ex (\<lambda>(i, mbr). m_type mbr \<noteq> None \<and> \<not> (m_optional mbr \<and> \<not> is_present mbr src i)) (List.enumerate 0 (ss_members spec))"

fun xer_encode_members ::
    "xer_encoder \<Rightarrow> type_env \<Rightarrow> asn1_value option list \<Rightarrow> nat \<Rightarrow> member list \<Rightarrow> xer_writer \<Rightarrow> xer_writer" where
  "xer_encode_members codec \<Gamma> src i [] w = w"
| "xer_encode_members codec \<Gamma> src i (mbr # mbrs) w =
     (case m_type mbr of
        None \<Rightarrow> xer_encode_members codec \<Gamma> src (Suc i) mbrs w
      | Some t \<Rightarrow>
          if m_optional mbr \<and> \<not> is_present mbr src i then xer_encode_members codec \<Gamma> src (Suc i) mbrs w
          else
            (case member_ptr src i of
               None \<Rightarrow> w
             | Some mptr \<Rightarrow>
                 xer_encode_members codec \<Gamma> src (Suc i) mbrs
                   (xer_encode_member codec (m_name mbr) (renamed (m_name mbr) (\<Gamma> t)) mptr w)))"

definition xer_sequence_encode :: "xer_encoder \<Rightarrow> type_env \<Rightarrow> type_desc \<Rightarrow> asn1_value option list \<Rightarrow> xer_writer \<Rightarrow> xer_writer" where
  "xer_sequence_encode codec \<Gamma> def src w =
     (case td_sequence_spec def of
        None \<Rightarrow> w
      | Some spec \<Rightarrow>
          if \<not> any_member_present spec src then xer_put (xer_element (td_name def) []) w
          else
            xer_put (indent_text (xw_depth w) @ close_tag (td_name def) @ [CHR 0x0A])
              (xer_encode_members codec \<Gamma> src 0 (ss_members spec) (xer_put (open_tag (td_name def) @ [CHR 0x0A]) w)))"

fun xer_decode_members ::
    "xer_decoder \<Rightarrow> type_env \<Rightarrow> nat \<Rightarrow> member list \<Rightarrow> asn1_value option list \<Rightarrow> xer_reader
      \<Rightarrow> (asn1_value option list \<times> xer_reader) result" where
  "xer_decode_members codec \<Gamma> i [] ms r = Inr (ms, r)"
| "xer_decode_members codec \<Gamma> i (mbr # mbrs) ms r =
     (case m_type mbr of
        None \<Rightarrow> xer_decode_members codec \<Gamma> (Suc i) mbrs ms r
      | Some t \<Rightarrow>
          let pk = peek_xer_tag (xr_text r);
              present = (ti_name pk = m_name mbr \<and> \<not> ti_closing pk \<and> \<not> ti_self_closing pk);
              ms = (if m_optional mbr then set_present \<Gamma> mbr i present ms else ms) in
          if m_optional mbr \<and> \<not> present then xer_decode_members codec \<Gamma> (Suc i) mbrs ms r
          else
            (case member_ptr ms i of
               None \<Rightarrow> Inl NullDeref
             | Some mptr \<Rightarrow>
                 rbind (xer_decode_member codec (m_name mbr) (renamed (m_name mbr) (\<Gamma> t)) mptr r) (\<lambda>(v, r).
                   xer_decode_members codec \<Gamma> (Suc i) mbrs (ms[i := Some v]) r)))"

definition xer_sequence_decode :: "xer_decoder \<Rightarrow> type_env \<Rightarrow> type_desc \<Rightarrow> asn1_value \<Rightarrow> xer_reader \<Rightarrow> (asn1_value \<times> xer_reader) result" where
  "xer_sequence_decode codec \<Gamma> def dest r =
     (case (td_sequence_spec def, dest) of
        (Some spec, V_Sequence ms) \<Rightarrow>
          let (ti, s) = parse_tag (xr_text r) in
          if ti_name ti \<noteq> td_name def \<or> ti_closing ti \<or> ti_self_closing ti then
            Inl (DecodeError (''XER SEQUENCE: expected <'' @ td_name def @ ''>'') 0)
          else
            rbind (xer_decode_members codec \<Gamma> 0 (ss_members spec) ms (r\<lparr>xr_text := s\<rparr>)) (\<lambda>(ms, r).
              let (ti, s) = parse_tag (xr_text r) in
              if ti_name ti \<noteq> td_name def \<or> \<not> ti_closing ti then
                Inl (DecodeError (''XER SEQUENCE: expected </'' @ td_name def @ ''>'') 0)
              else Inr (V_Sequence ms, r\<lparr>xr_text := s\<rparr>))
      | _ \<Rightarrow> Inl NullDeref)"

definition xer_choice_encode :: "xer_encoder \<Rightarrow> type_env \<Rightarrow> type_desc \<Rightarrow> int \<Rightarrow> asn1_value option \<Rightarrow> xer_writer \<Rightarrow> xer_writer" where
  "xer_choice_encode codec \<Gamma> def pr storage w =
     (case td_choice_spec def of
        None \<Rightarrow> w
      | Some spec \<Rightarrow>
          if pr \<le> 0 \<or> pr > int (length (cs_alternatives spec)) then xer_set_encode_failed w
          else
            let alt = cs_alternatives spec ! nat (pr - 1) in
            (case (m_type alt, storage) of
               (None, _) \<Rightarrow> xer_set_encode_failed w
             | (Some t, Some mptr) \<Rightarrow>
                 xer_encode_member codec (m_name alt) (renamed (m_name alt) (\<Gamma> t)) mptr (xer_put [CHR 0x0A] w)
             | (Some t, None) \<Rightarrow> w))"

definition xer_choice_decode :: "xer_decoder \<Rightarrow> type_env \<Rightarrow> type_desc \<Rightarrow> asn1_value \<Rightarrow> xer_reader \<Rightarrow> (asn1_value \<times> xer_reader) result" where
  "xer_choice_decode codec \<Gamma> def dest r =
     (case (td_choice_spec def, dest) of
        (Some spec, V_Choice p storage) \<Rightarrow>
          let key = ti_name (peek_xer_tag (xr_text r)) in
          (case find_named key 0 (cs_alternatives spec) of
             None \<Rightarrow> Inl (DecodeError (''XER CHOICE: unknown alternative <'' @ key @ ''>'') 0)
           | Some (i, alt) \<Rightarrow>
              (case m_type alt of
                 None \<Rightarrow> Inl (DecodeError (''XER CHOICE: no descriptor for '' @ m_name alt) 0)
               | Some t \<Rightarrow>
                  (case (if p \<noteq> int i + 1 then Some (emplace_alt \<Gamma> alt) else storage) of
                     None \<Rightarrow> Inl NullDeref
                   | Some mptr \<Rightarrow>
                       rbind (xer_decode_member codec (m_name alt) (renamed (m_name alt) (\<Gamma> t)) mptr r) (\<lambda>(v, r).
                         Inr (V_Choice (int i + 1) (Some v), r)))))
      | _ \<Rightarrow> Inl NullDeref)"

section \<open>Dispatch\<close>

datatype xer_handler =
    X_Error | X_Null | X_Boolean | X_Integer | X_Real | X_BitString | X_OctetString | X_Oid | X_RelOid
  | X_UtcTime | X_GenTime | X_String | X_HexString | X_WideString nat | X_Any | X_Enumerated | X_SeqOf | X_Sequence | X_Choice

definition xer_prim_dispatch :: "xer_handler list" where
  "xer_prim_dispatch =
     [X_Error, X_Boolean, X_Integer, X_BitString, X_OctetString, X_Null, X_Oid, X_String,
      X_Error, X_Real, X_Error, X_Error, X_String, X_RelOid, X_Error, X_Error,
      X_Error, X_Error, X_String, X_String, X_HexString, X_HexString, X_String, X_UtcTime,
      X_GenTime, X_HexString, X_String, X_HexString, X_WideString 4, X_Error, X_WideString 2, X_Error]"

fun xer_comp_dispatch :: "type_kind \<Rightarrow> xer_handler" where
  "xer_comp_dispatch Primitive = X_Error"
| "xer_comp_dispatch Any = X_Any"
| "xer_comp_dispatch Enumerated = X_Enumerated"
| "xer_comp_dispatch Sequence = X_Sequence"
| "xer_comp_dispatch Choice = X_Choice"
| "xer_comp_dispatch SeqOf = X_SeqOf"

definition xer_handler_of :: "type_desc \<Rightarrow> xer_handler option" where
  "xer_handler_of def =
     (if td_kind def = Primitive then
        let n = unat (number (builtin_tag def)) in if n < 32 then Some (xer_prim_dispatch ! n) else None
      else Some (xer_comp_dispatch (td_kind def)))"

text \<open>
  A \<open>static_cast\<close> to a class the value does not have leaves the writer as it is, as does
  REAL, for which the model has no values.
\<close>

definition xer_handler_encode :: "xer_encoder \<Rightarrow> type_env \<Rightarrow> xer_encoder" where
  "xer_handler_encode codec \<Gamma> def src w =
     (let name = td_name def in
      case xer_handler_of def of
        None \<Rightarrow> w
      | Some h \<Rightarrow>
         (case (h, src) of
            (X_Error, _) \<Rightarrow> xer_set_encode_failed w
          | (X_Null, _) \<Rightarrow> xer_put (xer_null_text name) w
          | (X_Boolean, V_Boolean b) \<Rightarrow> xer_put (xer_element name (boolean_text b)) w
          | (X_Integer, V_UInteger n) \<Rightarrow>
              if c_int_kind (td_constraints def) = INT_U64 then xer_put (xer_element name (to_string (unat n))) w else w
          | (X_Integer, V_Integer n) \<Rightarrow>
              if c_int_kind (td_constraints def) = INT_U64 then w else xer_put (xer_element name (int_text (sint n))) w
          | (X_BitString, V_BitString v) \<Rightarrow> xer_put (xer_bit_string_text (xw_depth w) name v) w
          | (X_OctetString, V_OctetString bs) \<Rightarrow> xer_put (xer_element name (xer_octets_text (td_xer_encoding def) bs)) w
          | (X_Any, V_OctetString bs) \<Rightarrow> xer_put (xer_element name (hex_encode_upper bs)) w
          | (X_Oid, V_Oid a) \<Rightarrow> xer_put (xer_element name (format_arcs a)) w
          | (X_RelOid, V_RelativeOid a) \<Rightarrow> xer_put (xer_element name (format_arcs a)) w
          | (X_UtcTime, V_String s) \<Rightarrow> xer_put (xer_string_text name s) w
          | (X_GenTime, V_String s) \<Rightarrow> xer_put (xer_string_text name s) w
          | (X_String, V_String s) \<Rightarrow> xer_put (xer_string_text name s) w
          | (X_HexString, V_String s) \<Rightarrow> xer_put (xer_element name (hex_encode_upper s)) w
          | (X_WideString k, V_String s) \<Rightarrow> xer_put (xer_string_text name (wide_to_utf8 k s)) w
          | (X_Enumerated, V_Enum v) \<Rightarrow>
             (case td_enum_spec def of None \<Rightarrow> w | Some spec \<Rightarrow> xer_put (xer_element name (enum_text spec v)) w)
          | (X_SeqOf, V_SeqOf vs) \<Rightarrow> xer_seqof_encode codec \<Gamma> def vs w
          | (X_Sequence, V_Sequence ms) \<Rightarrow> xer_sequence_encode codec \<Gamma> def ms w
          | (X_Choice, V_Choice p v) \<Rightarrow> xer_choice_encode codec \<Gamma> def p v w
          | _ \<Rightarrow> w))"

definition xer_handler_decode :: "xer_decoder \<Rightarrow> type_env \<Rightarrow> xer_decoder" where
  "xer_handler_decode codec \<Gamma> def dest r =
     (let name = td_name def in
      case xer_handler_of def of
        None \<Rightarrow> Inl NullDeref
      | Some h \<Rightarrow>
         (case h of
            X_Error \<Rightarrow> Inl (DecodeError (''XerCodec: unsupported: '' @ name) 0)
          | X_Real \<Rightarrow> Inl NullDeref
          | X_Null \<Rightarrow> on_xer_text (xer_null_decode name) r
          | X_Boolean \<Rightarrow> on_xer_text (xer_boolean_decode (xr_lenient r) name) r
          | X_Integer \<Rightarrow> on_xer_text (text_element name (xer_integer_value (td_constraints def))) r
          | X_BitString \<Rightarrow> on_xer_text (xer_bit_string_decode (xr_lenient r) name) r
          | X_OctetString \<Rightarrow> on_xer_text (xer_octets_decode (td_xer_encoding def) name) r
          | X_Any \<Rightarrow> on_xer_text (xer_hex_decode V_OctetString name) r
          | X_Oid \<Rightarrow> on_xer_text (xer_oid_decode V_Oid name) r
          | X_RelOid \<Rightarrow> on_xer_text (xer_oid_decode V_RelativeOid name) r
          | X_UtcTime \<Rightarrow> on_xer_text (xer_string_decode name) r
          | X_GenTime \<Rightarrow> on_xer_text (xer_string_decode name) r
          | X_String \<Rightarrow> on_xer_text (xer_string_decode name) r
          | X_HexString \<Rightarrow> on_xer_text (xer_hex_decode V_String name) r
          | X_WideString k \<Rightarrow> on_xer_text (xer_wide_decode k name) r
          | X_Enumerated \<Rightarrow>
             (case td_enum_spec def of None \<Rightarrow> Inl NullDeref | Some spec \<Rightarrow> on_xer_text (xer_enum_decode spec name) r)
          | X_SeqOf \<Rightarrow> xer_seqof_decode codec \<Gamma> def dest r
          | X_Sequence \<Rightarrow> xer_sequence_decode codec \<Gamma> def dest r
          | X_Choice \<Rightarrow> xer_choice_decode codec \<Gamma> def dest r))"

section \<open>The codec\<close>

text \<open>\<open>XerEncodeCallScope\<close> counts the calls in progress; the outermost one wraps a CHOICE.\<close>

definition xer_codec_encode :: "xer_encoder \<Rightarrow> type_env \<Rightarrow> xer_encoder" where
  "xer_codec_encode codec \<Gamma> def src w =
     (let w = w\<lparr>xw_calls := xw_calls w + 1\<rparr>; wrap = (xw_calls w = 1 \<and> td_kind def = Choice);
          w = (if wrap then xer_put (open_tag (td_name def)) w else w);
          w = xer_handler_encode codec \<Gamma> def src w;
          w = (if wrap then xer_put (close_tag (td_name def) @ [CHR 0x0A]) w else w)
      in w\<lparr>xw_calls := xw_calls w - 1\<rparr>)"

fun xer_encode_fuel :: "nat \<Rightarrow> type_env \<Rightarrow> xer_encoder" where
  "xer_encode_fuel 0 \<Gamma> def src w = xer_set_encode_failed w"
| "xer_encode_fuel (Suc n) \<Gamma> def src w = xer_codec_encode (xer_encode_fuel n \<Gamma>) \<Gamma> def src w"

definition xer_encode :: "type_env \<Rightarrow> xer_encoder" where
  "xer_encode \<Gamma> def src w = xer_encode_fuel (Suc (height src)) \<Gamma> def src w"

definition xer_codec_decode :: "xer_decoder \<Rightarrow> type_env \<Rightarrow> xer_decoder" where
  "xer_codec_decode codec \<Gamma> def dest r0 =
     (let r = (if depth_counts def then r0\<lparr>xr_depth := xr_depth r0 + 1\<rparr> else r0);
          wrap = (td_kind def = Choice \<and> xr_depth r = 1) in
      if depth_counts def \<and> xr_depth r > kMaxDecodeDepth then Inl (DecodeError (depth_message def) 0)
      else
        rbind (if wrap then consume_open_tag (td_name def) (xr_text r) else Inr (xr_text r)) (\<lambda>s.
        rbind (xer_handler_decode codec \<Gamma> def dest (r\<lparr>xr_text := s\<rparr>)) (\<lambda>(v, r).
        rbind (if wrap then consume_close_tag (td_name def) (xr_text r) else Inr (xr_text r)) (\<lambda>s.
          Inr (v, r\<lparr>xr_text := s, xr_depth := xr_depth r0\<rparr>)))))"

fun xer_decode_fuel :: "nat \<Rightarrow> type_env \<Rightarrow> xer_decoder" where
  "xer_decode_fuel 0 \<Gamma> def dest r = Inl OutOfFuel"
| "xer_decode_fuel (Suc n) \<Gamma> def dest r = xer_codec_decode (xer_decode_fuel n \<Gamma>) \<Gamma> def dest r"

definition xer_decode :: "type_env \<Rightarrow> xer_decoder" where
  "xer_decode = xer_decode_fuel (kMaxDecodeDepth + 2)"

end
