(* ===== verification/Jer_Roundtrip.thy ===== *)
theory Jer_Roundtrip
  imports Jer_Codec Per_Safety
begin

text \<open>
  What the JER encoder writes, the JER decoder reads back: the scanner on the texts the
  encoder writes, the primitive types, and by induction on the values that can be sent
  (\<open>jer_sendable\<close>) the whole codec, whatever follows the text and whatever object of the
  type is decoded into.
\<close>

unbundle bit_operations_syntax

section \<open>Scanning what was written\<close>

text \<open>A text that a number or literal in front of it ends at.\<close>

definition ended :: "string \<Rightarrow> bool" where
  "ended post \<longleftrightarrow> post = [] \<or> ends_token (hd post)"

lemma ended_simps [simp]: "ended []" "ended (CHR '','' # s)" "ended (CHR ''}'' # s)" "ended (CHR '']'' # s)"
  by (simp_all add: ended_def ends_token_def)

lemma skip_ws_other [simp]: "\<not> is_ws c \<Longrightarrow> skip_ws (c # s) = c # s"
  by (simp add: skip_ws_def)

lemma not_ws_marks [simp]:
  "\<not> is_ws QUOTE" "\<not> is_ws CHR ''{''" "\<not> is_ws CHR ''}''" "\<not> is_ws CHR ''[''" "\<not> is_ws CHR '']''" "\<not> is_ws CHR '',''"
  "\<not> is_ws CHR '':''"
  by (simp_all add: is_ws_def code_of_def)

lemma expect_char_here [simp]: "\<not> is_ws c \<Longrightarrow> expect_char c (c # s) = Inr s"
  by (simp add: expect_char_def)

lemma peek_char_other [simp]: "\<not> is_ws c \<Longrightarrow> peek_char (c # s) = (c, c # s)"
  by (simp add: peek_char_def)

definition plain_token :: "string \<Rightarrow> bool" where
  "plain_token t \<longleftrightarrow> t \<noteq> [] \<and> list_all (\<lambda>c. \<not> ends_token c) t"

lemma read_json_token_plain:
  assumes "plain_token t" "ended post"
  shows "read_json_token (t @ post) = Inr (t, post)"
proof -
  obtain c u where t: "t = c # u" using assms(1) by (cases t) (auto simp: plain_token_def)
  have "\<not> ends_token c" using assms(1) by (simp add: t plain_token_def)
  then have "\<not> is_ws c" by (simp add: ends_token_def)
  then have s: "skip_ws (t @ post) = t @ post" by (simp add: t)
  have "takeWhile (\<lambda>c. \<not> ends_token c) post = []" "dropWhile (\<lambda>c. \<not> ends_token c) post = post"
    using assms(2) by (cases post; simp add: ended_def)+
  then have "takeWhile (\<lambda>c. \<not> ends_token c) (t @ post) = t" "dropWhile (\<lambda>c. \<not> ends_token c) (t @ post) = post"
    using assms(1) by (simp_all add: plain_token_def list_all_iff takeWhile_append2 dropWhile_append2)
  then show ?thesis using s by (simp add: read_json_token_def t)
qed

lemma digits_plain: "list_all is_digit ds \<Longrightarrow> list_all (\<lambda>c. \<not> ends_token c) ds"
  by (auto simp: list_all_iff is_digit_def between_def ends_token_def is_ws_def code_of_def)

lemma to_string_plain: "plain_token (to_string n)"
  using to_string_nonempty to_string_all_digits by (simp add: plain_token_def digits_plain)

lemma int_text_plain: "plain_token (int_text n)"
  using to_string_plain [of "nat n"] to_string_plain [of "nat (- n)"]
  by (simp add: plain_token_def int_text_def) (simp add: ends_token_def is_ws_def code_of_def)

lemma int_text_hd: "int_text n = c # u \<Longrightarrow> c \<noteq> QUOTE"
  using to_string_all_digits [of "nat n"]
  by (auto simp: int_text_def split: if_splits) (simp add: is_digit_def between_def code_of_def)

lemma no_digit_Nil: "no_digit []"
  by (simp add: no_digit_def)

lemma from_chars_int_text: "from_chars_i64 (int_text (sint v)) = Some v"
proof -
  have "- 0x8000000000000000 \<le> sint v" "sint v \<le> 0x7FFFFFFFFFFFFFFF"
    using sint_ge [of v] sint_lt [of v] by simp_all
  from from_chars_signed_text [OF this no_digit_Nil] show ?thesis by (simp add: from_chars_i64_def)
qed

lemma from_chars_u64_text: "from_chars_u64 (to_string (unat v)) = Some v"
proof -
  have "unat v < 0x10000000000000000" by (rule less_le_trans [OF unsigned_less]) simp
  then have "unat v \<le> 0xFFFFFFFFFFFFFFFF" by simp
  from from_chars_unsigned_text [OF this no_digit_Nil] show ?thesis by (simp add: from_chars_u64_def)
qed

text \<open>Strings.\<close>

lemma hex4_digits: "\<forall>n \<in> set [0..<16]. hex4_digit (hex_digit n) = Some (of_nat n)"
  by code_simp

lemma hex4_digit_digit: "n < 16 \<Longrightarrow> hex4_digit (hex_digit n) = Some (of_nat n)"
  using hex4_digits by simp

lemma read_hex4_octet: "read_hex4 (''00'' @ hex_pair b @ s) = Some (ucast b, s)"
proof -
  have z: "hex4_digit CHR ''0'' = Some 0" by (simp add: hex4_digit_def between_def code_of_def)
  have "b AND 0xF = take_bit 4 b" by (simp only: take_bit_eq_mask mask_eq_exp_minus_1) simp
  then have "push_bit 4 (ucast (drop_bit 4 b)) OR ucast (b AND 0xF) = (ucast b :: u32)"
    by (auto intro!: bit_eqI simp: bit_simps not_le dest: bit_imp_le_length)
  moreover have "read_hex_digits 4 = read_hex_digits (Suc (Suc (Suc (Suc 0))))" by (simp add: eval_nat_numeral)
  ultimately show ?thesis
    by (simp add: read_hex4_def hex_pair_def z hex4_digit_digit nibble_less)
qed

lemma read_control_char:
  assumes "code_of c < 0x20"
  shows "unicode_escape (''00'' @ hex_pair (byte_of c) @ s) = Inr ([c], s)"
proof -
  let ?u = "ucast (byte_of c) :: u32"
  have "code_of c < 2 ^ 32" by (rule less_trans [OF code_of_less]) simp
  then have u: "unat ?u = code_of c" by (simp add: unsigned_ucast_eq take_bit_nat_eq_self unat_byte_of)
  have "?u < 0x80" "\<not> 0xDC00 \<le> ?u" "\<not> 0xD800 \<le> ?u"
    using u assms by (simp_all add: word_less_nat_alt word_le_nat_alt)
  moreover have "ucast ?u = byte_of c" by (rule bit_eqI) (auto simp: bit_simps dest: bit_imp_le_length)
  ultimately show ?thesis by (simp add: unicode_escape_def read_hex4_octet [simplified] append_utf8_def)
qed

lemma read_escaped: "read_json_chars out False (json_escape t @ QUOTE # post) = Inr (out @ t, post)"
proof (induction t arbitrary: out)
  case Nil
  show ?case by (simp add: json_escape_def read_json_chars.simps)
next
  case (Cons c t)
  have *: "json_escape (c # t) = json_escape_char c @ json_escape t" by (simp add: json_escape_def)
  have ctl: "read_escape CHR ''u'' (CHR ''0'' # CHR ''0'' # hex_pair (byte_of c) @ s) = Inr ([c], s)" if "code_of c < 0x20" for s
    using read_control_char [OF that, of s] by (simp add: read_escape_def)
  show ?case
    unfolding * json_escape_char_def
    using Cons ctl by (simp add: read_json_chars.simps) (simp add: read_escape_def)
qed

lemma read_string_text: "read_json_string (quoted (json_escape t) @ post) = Inr (t, post)"
  using read_escaped [of "[]" t post] by (simp add: read_json_string_def quoted_def)

definition plain_name :: "string \<Rightarrow> bool" where
  "plain_name t \<longleftrightarrow> list_all (\<lambda>c. c \<noteq> QUOTE \<and> c \<noteq> BSLASH \<and> 0x20 \<le> code_of c) t"

lemma json_escape_plain: "plain_name t \<Longrightarrow> json_escape t = t"
  by (induction t) (auto simp: plain_name_def json_escape_def json_escape_char_def not_le)

lemma read_plain: "plain_name t \<Longrightarrow> read_json_string (quoted t @ post) = Inr (t, post)"
  using read_string_text [of t post] by (simp add: json_escape_plain)

lemma hex_digits_plain: "\<forall>n \<in> set [0..<16]. plain_name [hex_digit n]"
  by code_simp

lemma plain_hex: "plain_name (hex_encode_upper bs)"
proof -
  have "plain_name (hex_pair b)" for b
    using hex_digits_plain nibble_less [of b] by (simp add: hex_pair_def plain_name_def)
  then show ?thesis by (induction bs) (simp_all add: hex_encode_upper_def plain_name_def)
qed

lemma plain_digits: "list_all is_digit ds \<Longrightarrow> plain_name ds"
  by (auto simp: plain_name_def list_all_iff is_digit_def between_def code_of_def)

lemma plain_arcs: "plain_name (format_arcs as)"
proof (induction as rule: format_arcs.induct)
  case (3 a b bs)
  have "plain_name (to_string (unat a))" by (rule plain_digits [OF to_string_all_digits])
  with 3 show ?case by (simp add: plain_name_def) (simp add: code_of_def)
qed (simp_all add: plain_name_def plain_digits [OF to_string_all_digits, unfolded plain_name_def])

section \<open>Primitive types\<close>

text \<open>
  The text of a primitive value; \<open>None\<close> for what cannot be sent: padding bits that are
  not 0, a wide string with a partial unit or a code point beyond 21 bits, an
  ENUMERATED whose table the binary search does not fit.
\<close>

definition bits_clean :: "bit_string \<Rightarrow> bool" where
  "bits_clean v \<longleftrightarrow> bit_string_ok v \<and> bit_count v < 2 ^ 64 - 7 \<and>
     (bs_bytes v \<noteq> [] \<longrightarrow> last (bs_bytes v) AND unused_mask (bs_unused v) = last (bs_bytes v))"

definition enum_table_ok :: "enum_spec \<Rightarrow> bool" where
  "enum_table_ok spec \<longleftrightarrow> enum_sorted (es_entries spec) \<and> distinct (map ee_name (es_entries spec)) \<and>
     list_all (\<lambda>e. plain_name (ee_name e)) (es_entries spec)"

definition jer_leaf_text :: "type_desc \<Rightarrow> asn1_value \<Rightarrow> string option" where
  "jer_leaf_text def v =
     (case (jer_handler_of def, v) of
        (Some J_Null, V_Null) \<Rightarrow> Some ''null''
      | (Some J_Boolean, V_Boolean b) \<Rightarrow> Some (if b then ''true'' else ''false'')
      | (Some J_Integer, V_UInteger n) \<Rightarrow>
          if c_int_kind (td_constraints def) = INT_U64 then Some (to_string (unat n)) else None
      | (Some J_Integer, V_Integer n) \<Rightarrow>
          if c_int_kind (td_constraints def) = INT_U64 then None else Some (int_text (sint n))
      | (Some J_BitString, V_BitString b) \<Rightarrow>
          if bits_clean b then Some (jer_bit_string_text (td_constraints def) b) else None
      | (Some J_OctetString, V_OctetString bs) \<Rightarrow> Some (quoted (hex_encode_upper bs))
      | (Some J_Any, V_OctetString bs) \<Rightarrow> Some (quoted (hex_encode_upper bs))
      | (Some J_Oid, V_Oid a) \<Rightarrow> Some (quoted (format_arcs a))
      | (Some J_RelOid, V_RelativeOid a) \<Rightarrow> Some (quoted (format_arcs a))
      | (Some J_Time, V_String s) \<Rightarrow> Some (string_text s)
      | (Some J_String, V_String s) \<Rightarrow> Some (string_text s)
      | (Some J_HexString, V_String s) \<Rightarrow> Some (quoted (hex_encode_upper s))
      | (Some (J_WideString k), V_String s) \<Rightarrow> if wide_ok k s then Some (string_text (wide_to_utf8 k s)) else None
      | (Some J_Enumerated, V_Enum n) \<Rightarrow>
          (case td_enum_spec def of None \<Rightarrow> None
           | Some spec \<Rightarrow> if enum_table_ok spec then Some (jer_enum_text spec n) else None)
      | _ \<Rightarrow> None)"

text \<open>\<open>reads_back f t v\<close>: from the text \<open>t\<close> the scanner \<open>f\<close> gets \<open>v\<close> and stops behind it.\<close>

definition reads_back :: "(string \<Rightarrow> ('v \<times> string) result) \<Rightarrow> string \<Rightarrow> 'v \<Rightarrow> bool" where
  "reads_back f t v \<longleftrightarrow> (\<forall>post. ended post \<longrightarrow> f (t @ post) = Inr (v, post))"

lemma reads_backI: "(\<And>post. ended post \<Longrightarrow> f (t @ post) = Inr (v, post)) \<Longrightarrow> reads_back f t v"
  by (simp add: reads_back_def)

lemma plain_literals: "plain_token ''null''" "plain_token ''true''" "plain_token ''false''"
  by code_simp+

lemma jer_null_back: "reads_back jer_null_decode ''null'' V_Null"
  using read_json_token_plain [OF plain_literals(1)] by (intro reads_backI) (simp add: jer_null_decode_def)

lemma jer_boolean_back: "reads_back jer_boolean_decode (if b then ''true'' else ''false'') (V_Boolean b)"
  using read_json_token_plain [OF plain_literals(2)] read_json_token_plain [OF plain_literals(3)]
  by (intro reads_backI) (simp add: jer_boolean_decode_def)

lemma jer_integer_back:
  "c_int_kind c = INT_U64 \<Longrightarrow> reads_back (jer_integer_decode c) (to_string (unat n)) (V_UInteger n)"
  "c_int_kind c \<noteq> INT_U64 \<Longrightarrow> reads_back (jer_integer_decode c) (int_text (sint m)) (V_Integer m)"
  by (auto intro!: reads_backI simp: jer_integer_decode_def read_json_token_plain to_string_plain int_text_plain
      from_chars_u64_text from_chars_int_text)

lemma jer_quoted_back:
  "reads_back (jer_hex_decode mk) (quoted (hex_encode_upper bs)) (mk bs)"
  "reads_back (jer_arcs_decode mk') (quoted (format_arcs as)) (mk' as)"
  "reads_back jer_string_decode (string_text sv) (V_String sv)"
  "wide_ok k sv \<Longrightarrow> reads_back (jer_wide_decode k) (string_text (wide_to_utf8 k sv)) (V_String sv)"
  by (auto intro!: reads_backI simp: jer_hex_decode_def jer_arcs_decode_def jer_string_decode_def jer_wide_decode_def
      read_plain plain_hex plain_arcs string_text_def read_string_text utf8_to_wide_to_utf8 simp del: map_map)

text \<open>BIT STRING, in both forms.\<close>

lemma masked_bits_clean: "bits_clean v \<Longrightarrow> masked_bits (bs_bytes v) (bs_unused v) = v"
  by (cases v; cases "bs_bytes v" rule: rev_cases) (auto simp: masked_bits_def bits_clean_def)

lemma bit_count_bytes:
  assumes "bits_clean v"
  shows "(bit_count v + 7) div 8 = length (bs_bytes v)" "length (bs_bytes v) * 8 = bit_count v + unat (bs_unused v)"
proof -
  have u: "unat (bs_unused v) \<le> 7" "bs_bytes v = [] \<longrightarrow> bs_unused v = 0"
    using assms by (simp_all add: bits_clean_def bit_string_ok_def)
  show "length (bs_bytes v) * 8 = bit_count v + unat (bs_unused v)"
    using u by (cases "bs_bytes v") (auto simp: bit_count_def)
  then show "(bit_count v + 7) div 8 = length (bs_bytes v)" using u(1) by linarith
qed

lemma bit_string_fields:
  assumes "n < 2 ^ 64"
  shows "bit_string_field st (quoted ''value'' @ CHR '':'' # quoted (hex_encode_upper bs) @ CHR '','' # rest)
      = Inr ((hex_encode_upper bs, snd st), rest)"
    "bit_string_field st (quoted ''length'' @ CHR '':'' # to_string n @ CHR ''}'' # post)
      = Inr ((fst st, of_nat n), CHR ''}'' # post)"
proof -
  have names: "plain_name ''value''" "plain_name ''length''" by code_simp+
  show "bit_string_field st (quoted ''value'' @ CHR '':'' # quoted (hex_encode_upper bs) @ CHR '','' # rest)
      = Inr ((hex_encode_upper bs, snd st), rest)"
    by (simp add: bit_string_field_def read_plain names plain_hex)
  have "unat (of_nat n :: u64) = n" using assms by (simp add: unat_of_nat take_bit_nat_eq_self)
  then have "from_chars_u64 (to_string n) = Some (of_nat n)" using from_chars_u64_text [of "of_nat n"] by simp
  then show "bit_string_field st (quoted ''length'' @ CHR '':'' # to_string n @ CHR ''}'' # post)
      = Inr ((fst st, of_nat n), CHR ''}'' # post)"
    by (simp add: bit_string_field_def read_plain names read_json_token_plain to_string_plain)
qed

lemma jer_bit_string_back:
  assumes "bits_clean v"
  shows "reads_back (jer_bit_string_decode None def) (jer_bit_string_text (td_constraints def) v) (V_BitString v)"
proof (rule reads_backI)
  fix post assume "ended post"
  let ?n = "bit_count v" and ?c = "td_constraints def"
  note bytes = bit_count_bytes [OF assms]
  have n: "?n + 7 < 2 ^ 64" using assms by (simp add: bits_clean_def)
  show "jer_bit_string_decode None def (jer_bit_string_text ?c v @ post) = Inr (V_BitString v, post)"
  proof (cases "fixed_size ?c \<ge> 0 \<and> int ?n = fixed_size ?c")
    case True
    then have fixed: "fixed_size ?c = int ?n" by simp
    have "nat ((int ?n + 7) div 8) = length (bs_bytes v)" using bytes(1) by linarith
    moreover have "of_int (int (length (bs_bytes v)) * 8 - int ?n) = bs_unused v"
    proof -
      have "int (length (bs_bytes v)) * 8 - int ?n = int (unat (bs_unused v))" using bytes(2) by linarith
      then show ?thesis by simp
    qed
    moreover have "hd (quoted t @ s) = QUOTE" "quoted t \<noteq> []" "skip_ws (quoted t @ s) = quoted t @ s" for t s
      by (simp_all add: quoted_def)
    ultimately show ?thesis
      using read_plain [OF plain_hex, of "bs_bytes v" post]
      by (simp add: jer_bit_string_decode_def jer_bit_string_text_def Let_def masked_bits_clean assms fixed)
  next
    case False
    have "unat (of_nat (?n + 7) :: u64) = ?n + 7" using n by (simp only: unat_of_nat) (simp add: take_bit_nat_eq_self)
    then have len: "unat ((of_nat ?n + 7 :: u64) div 8) = length (bs_bytes v)" using bytes(1) by (simp add: unat_div)
    moreover have "unat (of_nat (length (bs_bytes v)) :: u64) = length (bs_bytes v)"
      using bytes(1) n by (simp only: unat_of_nat) (simp add: take_bit_nat_eq_self)
    ultimately have "(of_nat ?n + 7 :: u64) div 8 = of_nat (length (bs_bytes v))" by (simp only: word_unat_eq_iff)
    moreover have "(of_nat (length (bs_bytes v) * 8) :: u64) = of_nat (?n + unat (bs_unused v))" by (simp only: bytes(2))
    then have "(of_nat (length (bs_bytes v)) * 8 :: u64) = of_nat ?n + ucast (bs_unused v)" by simp
    ultimately have unused: "ucast ((of_nat ?n + 7 :: u64) div 8 * 8 - of_nat ?n) = bs_unused v" by simp
    show ?thesis
      using False bit_string_fields [of ?n] n len unused
      by (simp add: jer_bit_string_decode_def jer_bit_string_text_def Let_def vec_resize_shrink masked_bits_clean assms)
  qed
qed

text \<open>ENUMERATED.\<close>

lemma entry_named_entry:
  "distinct (map ee_name es) \<Longrightarrow> i < length es \<Longrightarrow> entry_named (ee_name (es ! i)) es = Some (ee_value (es ! i))"
proof (induction es arbitrary: i)
  case (Cons e es)
  show ?case
  proof (cases i)
    case (Suc j)
    then have "ee_name (es ! j) \<in> ee_name ` set es" using Cons.prems(2) by simp
    then have "ee_name (es ! j) \<noteq> ee_name e" using Cons.prems(1) by auto
    then show ?thesis using Cons Suc by simp
  qed simp
qed simp

lemma jer_enum_back:
  assumes "enum_table_ok spec"
  shows "reads_back (jer_enum_decode spec) (jer_enum_text spec n) (V_Enum n)"
proof (rule reads_backI)
  fix post assume post: "ended post"
  let ?es = "es_entries spec"
  let ?i = "enum_search ?es n 0 (int (length ?es) - 1)"
  show "jer_enum_decode spec (jer_enum_text spec n @ post) = Inr (V_Enum n, post)"
  proof (cases "0 \<le> ?i")
    case True
    then have i: "nat ?i < length ?es" "ee_value (?es ! nat ?i) = n"
      using enum_search_sound [of 0 ?es n "int (length ?es) - 1"] by auto
    have "plain_name (ee_name (?es ! nat ?i))" "distinct (map ee_name ?es)"
      using assms i(1) by (simp_all add: enum_table_ok_def list_all_length)
    moreover have "hd (quoted t @ s) = QUOTE" "quoted t \<noteq> []" "skip_ws (quoted t @ s) = quoted t @ s" for t s
      by (simp_all add: quoted_def)
    ultimately show ?thesis
      using True i entry_named_entry [of ?es "nat ?i"] by (simp add: jer_enum_decode_def jer_enum_text_def Let_def read_plain)
  next
    case False
    obtain c u where t: "int_text (sint n) = c # u" using int_text_plain [of "sint n"] by (cases "int_text (sint n)") (auto simp: plain_token_def)
    have c: "\<not> ends_token c" using int_text_plain [of "sint n"] by (simp add: t plain_token_def)
    have "c \<noteq> QUOTE" by (rule int_text_hd [OF t])
    moreover have "skip_ws (int_text (sint n) @ post) = int_text (sint n) @ post" using c by (simp add: t ends_token_def)
    ultimately show ?thesis
      using False read_json_token_plain [OF int_text_plain post, of "sint n"]
      by (simp add: jer_enum_decode_def jer_enum_text_def Let_def from_chars_int_text) (simp add: t)
  qed
qed

section \<open>Texts that pass\<close>

text \<open>The copy under another name is the same type.\<close>

lemma renamed_simps [simp]:
  "td_kind (renamed n def) = td_kind def" "td_tag (renamed n def) = td_tag def"
  "td_constraints (renamed n def) = td_constraints def" "td_enum_spec (renamed n def) = td_enum_spec def"
  "td_seq_of_spec (renamed n def) = td_seq_of_spec def" "td_sequence_spec (renamed n def) = td_sequence_spec def"
  "td_choice_spec (renamed n def) = td_choice_spec def" "td_per_handler (renamed n def) = td_per_handler def"
  "td_new (renamed n def) = td_new def" "renamed m (renamed n def) = renamed m def" "renamed (td_name def) def = def"
  by (simp_all add: renamed_def)

lemma renamed_derived [simp]:
  "builtin_tag (renamed n def) = builtin_tag def" "jer_handler_of (renamed n def) = jer_handler_of def"
  "depth_counts (renamed n def) = depth_counts def" "jer_value_may_be_null (renamed n def) = jer_value_may_be_null def"
proof -
  show b: "builtin_tag (renamed n def) = builtin_tag def" by (simp add: builtin_tag_def renamed_def)
  show "jer_handler_of (renamed n def) = jer_handler_of def" by (simp add: jer_handler_of_def b)
  show "depth_counts (renamed n def) = depth_counts def" by (simp add: depth_counts_def)
  show "jer_value_may_be_null (renamed n def) = jer_value_may_be_null def" by (simp add: jer_value_may_be_null_def b)
qed

lemma shaped_renamed_imp: "shaped \<Gamma> def v \<Longrightarrow> shaped \<Gamma> (renamed n def) v"
  by (erule shaped.cases) (auto intro: shaped.intros)

lemma shaped_renamed [simp]: "shaped \<Gamma> (renamed n def) v \<longleftrightarrow> shaped \<Gamma> def v"
  using shaped_renamed_imp [of \<Gamma> def v n] shaped_renamed_imp [of \<Gamma> "renamed n def" v "td_name def"] by auto

lemma jer_put_put [simp]: "jer_put b (jer_put a w) = jer_put (a @ b) w"
  by (simp add: jer_put_def)

lemma jer_put_Nil [simp]: "jer_put [] w = w"
  by (simp add: jer_put_def)

abbreviation jer_at :: "string \<Rightarrow> nat \<Rightarrow> jer_reader" where
  "jer_at s d \<equiv> \<lparr>jr_text = s, jr_depth = d, jr_memory = None\<rparr>"

text \<open>
  How the text of a value begins: with none of the characters a member or element loop
  looks for, and with the \<open>n\<close> of \<open>null\<close> only where \<open>null\<close> is a value of the type.
\<close>

definition jer_starts :: "type_desc \<Rightarrow> string \<Rightarrow> bool" where
  "jer_starts def t \<longleftrightarrow> t \<noteq> [] \<and> \<not> is_ws (hd t) \<and> hd t \<notin> {CHR '','', CHR '']'', CHR ''}'', CHR 0x00} \<and>
     (hd t = CHR ''n'' \<longrightarrow> jer_value_may_be_null def)"

lemma jer_starts_quoted: "jer_starts def (quoted t)"
  by (simp add: jer_starts_def quoted_def)

lemma jer_starts_int: "jer_starts def (int_text n)"
proof -
  obtain c u where t: "int_text n = c # u" using int_text_plain [of n] by (cases "int_text n") (auto simp: plain_token_def)
  then have "is_digit c \<or> c = CHR ''-''"
    using to_string_all_digits [of "nat n"] by (auto simp: int_text_def split: if_splits)
  then show ?thesis
    by (auto simp: t jer_starts_def is_digit_def between_def is_ws_def code_of_def)
qed

lemma jer_starts_nat: "jer_starts def (to_string n)"
  using jer_starts_int [of def "int n"] by (simp add: int_text_def)

lemma jer_prim_null: "\<forall>n \<in> set [0..<32]. jer_prim_dispatch ! n = J_Null \<longrightarrow> n = 5"
  by code_simp

lemma jer_null_handler: "jer_handler_of def = Some J_Null \<Longrightarrow> jer_value_may_be_null def"
proof -
  assume h: "jer_handler_of def = Some J_Null"
  have k: "td_kind def = Primitive" using h by (cases "td_kind def") (auto simp: jer_handler_of_def)
  then have "unat (number (builtin_tag def)) = 5"
    using h jer_prim_null by (auto simp: jer_handler_of_def Let_def split: if_splits)
  then have "number (builtin_tag def) = 5" by (simp add: word_unat_eq_iff)
  with k show ?thesis by (simp add: jer_value_may_be_null_def)
qed

lemma peek_null_starts: "jer_starts def t \<Longrightarrow> peek_null (t @ post) \<noteq> 0 \<Longrightarrow> jer_value_may_be_null def"
  by (cases t) (auto simp: jer_starts_def peek_null_def Let_def split: if_splits)

definition jer_passes :: "type_env \<Rightarrow> nat \<Rightarrow> jer_encoder \<Rightarrow> jer_decoder \<Rightarrow> type_desc \<Rightarrow> asn1_value \<Rightarrow> string \<Rightarrow> bool" where
  "jer_passes \<Gamma> k enc dec def v t \<longleftrightarrow>
     (\<forall>name w. enc (renamed name def) v w = jer_put t w) \<and> jer_starts def t \<and>
     (\<forall>name post dest d. shaped \<Gamma> def dest \<longrightarrow> ended post \<longrightarrow> d + k \<le> kMaxDecodeDepth \<longrightarrow>
        dec (renamed name def) dest (jer_at (t @ post) d) = Inr (v, jer_at post d))"

lemma jer_passesD:
  assumes "jer_passes \<Gamma> k enc dec def v t"
  shows "enc (renamed name def) v w = jer_put t w" "jer_starts def t"
    "shaped \<Gamma> def dest \<Longrightarrow> ended post \<Longrightarrow> d + k \<le> kMaxDecodeDepth \<Longrightarrow>
       dec (renamed name def) dest (jer_at (t @ post) d) = Inr (v, jer_at post d)"
  using assms by (simp_all add: jer_passes_def)

lemma jer_passes_mono: "jer_passes \<Gamma> k enc dec def v t \<Longrightarrow> k \<le> m \<Longrightarrow> jer_passes \<Gamma> m enc dec def v t"
  by (simp add: jer_passes_def)

text \<open>One level of the codec with a unit of fuel each.\<close>

lemma jer_level_passes:
  assumes "\<And>name w. jer_handler_encode (jer_encode_fuel ne \<Gamma>) \<Gamma> (renamed name def) v w = jer_put t w"
    "jer_starts def t" "(if depth_counts def then Suc k else k) \<le> h"
    "\<And>name post dest d. shaped \<Gamma> def dest \<Longrightarrow> ended post \<Longrightarrow> d + k \<le> kMaxDecodeDepth \<Longrightarrow>
       jer_handler_decode (jer_decode_fuel nd \<Gamma>) \<Gamma> (renamed name def) dest (jer_at (t @ post) d) = Inr (v, jer_at post d)"
  shows "jer_passes \<Gamma> h (jer_encode_fuel (Suc ne) \<Gamma>) (jer_decode_fuel (Suc nd) \<Gamma>) def v t"
  using assms by (auto simp: jer_passes_def jer_codec_decode_def Let_def)

lemma on_text_at: "f s = Inr (v, s') \<Longrightarrow> on_text f (jer_at s d) = Inr (v, jer_at s' d)"
  by (simp add: on_text_def)

lemma reads_back_at: "reads_back f t v \<Longrightarrow> ended post \<Longrightarrow> on_text f (jer_at (t @ post) d) = Inr (v, jer_at post d)"
  by (rule on_text_at) (simp add: reads_back_def)

lemma jer_starts_literals:
  "jer_starts def ''true''" "jer_starts def ''false''" "jer_starts def (CHR ''{'' # s)"
  "jer_handler_of def = Some J_Null \<Longrightarrow> jer_starts def ''null''"
  by (simp_all add: jer_starts_def jer_null_handler) (simp_all add: is_ws_def code_of_def)

lemma jer_leaf_starts:
  assumes "jer_leaf_text def v = Some t"
  shows "jer_starts def t"
proof -
  obtain h where h: "jer_handler_of def = Some h" using assms by (cases "jer_handler_of def") (auto simp: jer_leaf_text_def)
  note starts = jer_starts_quoted jer_starts_int jer_starts_nat jer_starts_literals
  show ?thesis
    using assms
    by (cases h; cases v)
       (auto simp: jer_leaf_text_def h starts string_text_def jer_bit_string_text_def jer_enum_text_def Let_def
         split: option.splits if_splits)
qed

lemma jer_leaf_flat: "jer_leaf_text def v = Some t \<Longrightarrow> \<not> depth_counts def"
  by (cases "td_kind def")
     (auto simp: jer_leaf_text_def jer_handler_of_def depth_counts_def split: asn1_value.splits)

lemma jer_leaf_passes:
  assumes "jer_leaf_text def v = Some t"
  shows "jer_passes \<Gamma> k (jer_encode_fuel (Suc ne) \<Gamma>) (jer_decode_fuel (Suc nd) \<Gamma>) def v t"
proof (rule jer_level_passes [where k = k])
  obtain h where h: "jer_handler_of def = Some h" using assms by (cases "jer_handler_of def") (auto simp: jer_leaf_text_def)
  show "jer_handler_encode (jer_encode_fuel ne \<Gamma>) \<Gamma> (renamed name def) v w = jer_put t w" for name w
    using assms
    by (cases h; cases v) (auto simp: jer_leaf_text_def jer_handler_encode_def h split: option.splits if_splits)
  show "jer_starts def t" by (rule jer_leaf_starts [OF assms])
  show "(if depth_counts def then Suc k else k) \<le> k" using jer_leaf_flat [OF assms] by simp
  fix name post dest d
  assume "ended post"
  then show "jer_handler_decode (jer_decode_fuel nd \<Gamma>) \<Gamma> (renamed name def) dest (jer_at (t @ post) d) = Inr (v, jer_at post d)"
    using assms jer_bit_string_back [of _ "renamed name def"]
    by (cases h; cases v)
       (auto simp: jer_leaf_text_def jer_handler_decode_def h split: option.splits if_splits
         intro!: reads_back_at jer_null_back jer_boolean_back [of True, simplified] jer_boolean_back [of False, simplified] jer_integer_back jer_quoted_back jer_enum_back)
qed

section \<open>SEQUENCE OF and SET OF\<close>

fun elements_text :: "(asn1_value \<Rightarrow> string) \<Rightarrow> bool \<Rightarrow> asn1_value list \<Rightarrow> string" where
  "elements_text T first [] = []"
| "elements_text T first (v # vs) = (if first then [] else '','') @ T v @ elements_text T False vs"

lemma jer_encode_elements_text:
  "\<forall>v \<in> set vs. jer_passes \<Gamma> k enc dec edef v (T v) \<Longrightarrow>
   jer_encode_elements enc edef first vs w = jer_put (elements_text T first vs) w"
proof (induction vs arbitrary: first w)
  case (Cons v vs)
  then have "jer_passes \<Gamma> k enc dec edef v (T v)" by simp
  from jer_passesD(1) [OF this, of "td_name edef"] Cons show ?case by simp
qed simp

text \<open>A value is met by none of the tests of a loop.\<close>

lemma peek_starts:
  assumes "jer_starts def t"
  shows "peek_char (t @ s) = (hd t, t @ s)" "hd t \<noteq> CHR '']''" "hd t \<noteq> CHR ''}''" "hd t \<noteq> CHR '',''" "hd t \<noteq> CHR 0x00"
  using assms by (cases t; simp add: jer_starts_def)+

lemma elements_text_ended: "ended (elements_text T False vs @ CHR '']'' # post)"
  by (cases vs) simp_all

lemma jer_decode_elements_text:
  assumes "\<forall>v \<in> set vs. jer_passes \<Gamma> k enc dec edef v (T v)" "shaped \<Gamma> edef (td_new edef)" "d + k \<le> kMaxDecodeDepth"
  shows "length (elements_text T first vs) < n \<Longrightarrow>
    jer_decode_elements n dec edef seq (jer_at (elements_text T first vs @ CHR '']'' # post) d) = Inr (seq @ vs, jer_at post d)"
  using assms(1)
proof (induction vs arbitrary: first n seq)
  case Nil
  then obtain m where "n = Suc m" by (cases n) auto
  then show ?case by simp
next
  case (Cons v vs)
  have pass: "jer_passes \<Gamma> k enc dec edef v (T v)" using Cons.prems(2) by simp
  note starts = peek_starts [OF jer_passesD(2) [OF pass]]
  have here: "jer_decode_elements (Suc m) dec edef seq (jer_at (T v @ elements_text T False vs @ CHR '']'' # post) d)
      = Inr (seq @ v # vs, jer_at post d)" if "length (T v) + length (elements_text T False vs) \<le> m" for m
  proof -
    have "T v \<noteq> []" using jer_passesD(2) [OF pass] by (simp add: jer_starts_def)
    then have "length (elements_text T False vs) < m" using that by (cases "T v") auto
    then have "jer_decode_elements m dec edef (seq @ [v]) (jer_at (elements_text T False vs @ CHR '']'' # post) d)
        = Inr ((seq @ [v]) @ vs, jer_at post d)"
      using Cons.prems(2) by (intro Cons.IH) simp_all
    then show ?thesis
      using starts jer_passesD(3) [OF pass assms(2) elements_text_ended assms(3), of "td_name edef"] by simp
  qed
  show ?case
  proof (cases first)
    case True
    then obtain m where "n = Suc m" "length (T v) + length (elements_text T False vs) \<le> m" using Cons.prems(1) by (cases n) auto
    then show ?thesis using here [of m] True by simp
  next
    case False
    then obtain m where m: "n = Suc (Suc m)" "length (T v) + length (elements_text T False vs) \<le> m"
      using Cons.prems(1) by (cases n; cases "n - 1") auto
    show ?thesis unfolding m(1) using here [OF m(2)] False by (simp del: jer_decode_elements.simps add: jer_decode_elements.simps(2) [of "Suc m"])
  qed
qed

section \<open>SEQUENCE and SET\<close>

definition jer_names_ok :: "member list \<Rightarrow> bool" where
  "jer_names_ok mbrs \<longleftrightarrow> distinct (map m_name mbrs) \<and> list_all (\<lambda>mbr. plain_name (m_name mbr)) mbrs"

lemma find_named_at:
  "distinct (map m_name mbrs) \<Longrightarrow> j < length mbrs \<Longrightarrow> find_named (m_name (mbrs ! j)) i mbrs = Some (i + j, mbrs ! j)"
proof (induction mbrs arbitrary: i j)
  case (Cons mbr mbrs)
  show ?case
  proof (cases j)
    case (Suc l)
    then have "m_name (mbrs ! l) \<in> m_name ` set mbrs" using Cons.prems(2) by simp
    then have "m_name (mbrs ! l) \<noteq> m_name mbr" using Cons.prems(1) by auto
    then show ?thesis using Cons Suc by simp
  qed simp
qed simp

text \<open>A row with a type is optional with the operations for it, or mandatory in the root and present.\<close>

definition jer_row_ok :: "sequence_spec \<Rightarrow> asn1_value option list \<Rightarrow> nat \<Rightarrow> bool" where
  "jer_row_ok spec src i \<longleftrightarrow>
     (let mbr = ss_members spec ! i in
      (m_type mbr = None \<longrightarrow> src ! i = None) \<and>
      (m_type mbr \<noteq> None \<longrightarrow> (if m_optional mbr then m_has_ops mbr else src ! i \<noteq> None \<and> i < root_end spec)))"

definition jer_rows_ok :: "sequence_spec \<Rightarrow> asn1_value option list \<Rightarrow> bool" where
  "jer_rows_ok spec src \<longleftrightarrow> length src = length (ss_members spec) \<and> jer_names_ok (ss_members spec) \<and>
     (\<forall>i < length src. jer_row_ok spec src i)"

fun row_parts :: "(nat \<Rightarrow> string) \<Rightarrow> asn1_value option list \<Rightarrow> nat \<Rightarrow> member list \<Rightarrow> (string \<times> string) list" where
  "row_parts T src i [] = []"
| "row_parts T src i (mbr # mbrs) = (if src ! i = None then [] else [(m_name mbr, T i)]) @ row_parts T src (Suc i) mbrs"

fun members_text :: "bool \<Rightarrow> (string \<times> string) list \<Rightarrow> string" where
  "members_text first [] = []"
| "members_text first ((n, t) # ps) = (if first then [] else '','') @ quoted n @ CHR '':'' # t @ members_text False ps"

definition jer_rows_pass ::
    "type_env \<Rightarrow> nat \<Rightarrow> jer_encoder \<Rightarrow> jer_decoder \<Rightarrow> sequence_spec \<Rightarrow> asn1_value option list \<Rightarrow> (nat \<Rightarrow> string) \<Rightarrow> bool" where
  "jer_rows_pass \<Gamma> k enc dec spec src T \<longleftrightarrow>
     (\<forall>i v. i < length src \<longrightarrow> src ! i = Some v \<longrightarrow>
        (\<exists>t. m_type (ss_members spec ! i) = Some t \<and> jer_passes \<Gamma> k enc dec (\<Gamma> t) v (T i)))"

lemma drop_eq_Cons: "drop i ys = x # xs \<Longrightarrow> i < length ys \<and> ys ! i = x \<and> xs = drop (Suc i) ys"
  by (metis Cons_nth_drop_Suc drop_all list.inject list.simps(3) not_le)

lemma jer_encode_members_text:
  assumes "jer_rows_ok spec src" "jer_rows_pass \<Gamma> k enc dec spec src T"
  shows "mbrs = drop i (ss_members spec) \<Longrightarrow> i \<le> length src \<Longrightarrow>
    jer_encode_members enc \<Gamma> src i first mbrs w = jer_put (members_text first (row_parts T src i mbrs)) w"
proof (induction mbrs arbitrary: i first w)
  case (Cons mbr mbrs)
  have i: "i < length src" "ss_members spec ! i = mbr" "mbrs = drop (Suc i) (ss_members spec)"
    using drop_eq_Cons [OF Cons.prems(1) [symmetric]] assms(1) by (auto simp: jer_rows_ok_def)
  have ok: "jer_row_ok spec src i" using assms(1) i(1) by (simp add: jer_rows_ok_def)
  have rest: "jer_encode_members enc \<Gamma> src (Suc i) f mbrs w = jer_put (members_text f (row_parts T src (Suc i) mbrs)) w" for f w
    using i by (intro Cons.IH) auto
  show ?case
  proof (cases "src ! i")
    case None
    then have "m_type mbr = None \<or> (m_optional mbr \<and> \<not> is_present mbr src i)"
      using ok i by (auto simp: jer_row_ok_def Let_def is_present_def member_ptr_def split: if_splits)
    then show ?thesis using rest None by (auto split: option.splits)
  next
    case (Some v)
    obtain t where t: "m_type mbr = Some t" "jer_passes \<Gamma> k enc dec (\<Gamma> t) v (T i)"
      using assms(2) i Some by (auto simp: jer_rows_pass_def)
    have "m_optional mbr \<Longrightarrow> is_present mbr src i" "member_ptr src i = Some v"
      using ok i Some t(1) by (auto simp: jer_row_ok_def Let_def is_present_def member_ptr_def)
    then show ?thesis using rest Some t(1) jer_passesD(1) [OF t(2)] by (auto simp: Let_def)
  qed
qed simp

text \<open>The object after \<open>clear_optional\<close>.\<close>

lemma length_clear_optional [simp]: "length (clear_optional \<Gamma> i mbrs ms) = length ms"
  by (induction mbrs arbitrary: i ms) simp_all

lemma clear_optional_nth:
  "i + length mbrs \<le> length ms \<Longrightarrow> j < length ms \<Longrightarrow>
   clear_optional \<Gamma> i mbrs ms ! j =
     (if i \<le> j \<and> j < i + length mbrs \<and> m_optional (mbrs ! (j - i)) \<and> m_has_ops (mbrs ! (j - i)) then None else ms ! j)"
proof (induction mbrs arbitrary: i ms)
  case (Cons mbr mbrs)
  have s: "set_present \<Gamma> mbr i False ms = (if m_has_ops mbr then ms[i := None] else ms)" by (simp add: set_present_def)
  show ?case
    using Cons.prems Cons.IH [of "Suc i"]
    by (cases "j = i") (auto simp: s nth_list_update nth_Cons' Suc_le_eq split: if_splits)
qed auto

text \<open>
  The loop over the members: before row \<open>i\<close> the object has the rows of \<open>src\<close> up to \<open>i\<close>
  and from there what \<open>clear_optional\<close> left.
\<close>

lemma members_text_ended: "ended (members_text False ps @ CHR ''}'' # post)"
  by (cases ps) auto

lemma length_members_text: "length ps \<le> length (members_text first ps)"
  by (induction first ps rule: members_text.induct) auto

definition seen_upto :: "asn1_value option list \<Rightarrow> nat \<Rightarrow> bool list" where
  "seen_upto src i = map (\<lambda>j. j < i \<and> src ! j \<noteq> None) [0..<length src]"

lemma seen_upto_nth [simp]: "length (seen_upto src i) = length src"
  "j < length src \<Longrightarrow> seen_upto src i ! j \<longleftrightarrow> j < i \<and> src ! j \<noteq> None"
  by (simp_all add: seen_upto_def)

lemma seen_upto_Suc: "src ! i = None \<Longrightarrow> seen_upto src (Suc i) = seen_upto src i"
  by (rule nth_equalityI) (auto simp: less_Suc_eq)

lemma seen_upto_here: "i < length src \<Longrightarrow> src ! i \<noteq> None \<Longrightarrow> (seen_upto src i)[i := True] = seen_upto src (Suc i)"
  by (rule nth_equalityI) (auto simp: less_Suc_eq nth_list_update)

lemma jer_decode_members_text:
  assumes ok: "jer_rows_ok spec src" and pass: "jer_rows_pass \<Gamma> k enc dec spec src T"
    and env: "env_wf \<Gamma>" and rows: "rows_ok \<Gamma> spec ms" and d: "d + k \<le> kMaxDecodeDepth"
  shows "mbrs = drop i (ss_members spec) \<Longrightarrow> i \<le> length src \<Longrightarrow>
    length (members_text first (row_parts T src i mbrs)) < n \<Longrightarrow>
    jer_decode_members n dec \<Gamma> (ss_members spec)
      (take i src @ drop i (clear_optional \<Gamma> 0 (ss_members spec) ms)) (seen_upto src i)
      (jer_at (members_text first (row_parts T src i mbrs) @ CHR ''}'' # post) d)
    = Inr (src, seen_upto src (length src), jer_at post d)"
proof (induction mbrs arbitrary: i first n)
  case Nil
  then obtain m where "n = Suc m" by (cases n) auto
  moreover have "i = length src" using Nil ok by (simp add: jer_rows_ok_def)
  ultimately show ?case using rows ok by (simp add: rows_ok_def jer_rows_ok_def)
next
  case (Cons mbr mbrs)
  let ?all = "ss_members spec" and ?base = "clear_optional \<Gamma> 0 (ss_members spec) ms"
  have len: "length src = length ?all" "length ms = length ?all" using ok rows by (simp_all add: jer_rows_ok_def rows_ok_def)
  have i: "i < length src" "?all ! i = mbr" "mbrs = drop (Suc i) ?all"
    using drop_eq_Cons [OF Cons.prems(1) [symmetric]] len by auto
  have row: "jer_row_ok spec src i" using ok i(1) by (simp add: jer_rows_ok_def)
  have base: "?base ! i = (if m_optional mbr \<and> m_has_ops mbr then None else ms ! i)"
    using clear_optional_nth [of 0 ?all ms i \<Gamma>] i len by simp
  have next_row: "jer_decode_members m dec \<Gamma> ?all (take (Suc i) src @ drop (Suc i) ?base) (seen_upto src (Suc i))
      (jer_at (members_text f (row_parts T src (Suc i) mbrs) @ CHR ''}'' # post) d) = Inr (src, seen_upto src (length src), jer_at post d)"
    if "length (members_text f (row_parts T src (Suc i) mbrs)) < m" for f m
    using i that by (intro Cons.IH) auto
  show ?case
  proof (cases "src ! i")
    case None
    have "?base ! i = None"
    proof (cases "m_type mbr")
      case None
      then have "ms ! i = None" using rows i len by (auto simp: rows_ok_def split: option.splits)
      then show ?thesis by (simp add: base)
    next
      case (Some t)
      then have "m_optional mbr" "m_has_ops mbr" using row i(2) \<open>src ! i = None\<close> by (auto simp: jer_row_ok_def Let_def split: if_splits)
      then show ?thesis by (simp add: base)
    qed
    then have "take i src @ drop i ?base = take (Suc i) src @ drop (Suc i) ?base"
      using None i(1) len by (simp add: take_Suc_conv_app_nth Cons_nth_drop_Suc [of i ?base, symmetric])
    moreover have "row_parts T src i (mbr # mbrs) = row_parts T src (Suc i) mbrs" using None by simp
    ultimately show ?thesis
      using next_row [of first n] Cons.prems(3) seen_upto_Suc [OF None] by simp
  next
    case (Some v)
    let ?cur = "take i src @ drop i ?base" and ?ps = "row_parts T src (Suc i) mbrs"
    obtain t where t: "m_type mbr = Some t" "jer_passes \<Gamma> k enc dec (\<Gamma> t) v (T i)"
      using pass i Some by (auto simp: jer_rows_pass_def)
    obtain x where x: "member_ptr (if m_optional mbr then set_present \<Gamma> mbr i True ?cur else ?cur) i = Some x"
      "shaped \<Gamma> (\<Gamma> t) x"
      "(if m_optional mbr then set_present \<Gamma> mbr i True ?cur else ?cur)[i := Some v] = take (Suc i) src @ drop (Suc i) ?base"
    proof -
      have cur: "length ?cur = length ?all" "?cur ! i = ?base ! i"
        "?cur[i := Some v] = take (Suc i) src @ drop (Suc i) ?base" for y
        using i(1) len Some
        by (simp_all add: nth_append take_Suc_conv_app_nth list_update_append Cons_nth_drop_Suc [of i ?base, symmetric])
      show ?thesis
      proof (cases "m_optional mbr")
        case True
        then have "m_has_ops mbr" using row i(2) t(1) by (simp add: jer_row_ok_def)
        then have "set_present \<Gamma> mbr i True ?cur = ?cur[i := Some (td_new (\<Gamma> t))]"
          using True t(1) i(1) len cur(1,2) base by (simp add: set_present_def member_ptr_def)
        then show ?thesis
          using that [of "td_new (\<Gamma> t)"] True env cur i(1) len by (simp add: member_ptr_def env_wf_def)
      next
        case False
        then have "i < root_end spec" using row i(2) t(1) by (simp add: jer_row_ok_def Let_def)
        then have "ms ! i \<noteq> None" using rows i False t(1) len by (auto simp: rows_ok_def nullable_def Let_def split: option.splits)
        then obtain x where "ms ! i = Some x" by blast
        moreover from this have "shaped \<Gamma> (\<Gamma> t) x" using rows i t(1) len by (auto simp: rows_ok_def split: option.splits)
        ultimately show ?thesis using that [of x] False base cur i(1) len by (simp add: member_ptr_def)
      qed
    qed
    have name: "plain_name (m_name mbr)" "find_named (m_name mbr) 0 ?all = Some (i, mbr)"
      using ok i len find_named_at [of ?all i 0] by (auto simp: jer_rows_ok_def jer_names_ok_def list_all_length)
    have null: "m_optional mbr \<Longrightarrow> peek_null (T i @ s) \<noteq> 0 \<Longrightarrow> jer_value_may_be_null (\<Gamma> t)" for s
      by (rule peek_null_starts [OF jer_passesD(2) [OF t(2)]])
    have here: "jer_decode_members (Suc m) dec \<Gamma> ?all ?cur (seen_upto src i)
        (jer_at (quoted (m_name mbr) @ CHR '':'' # T i @ members_text False ?ps @ CHR ''}'' # post) d)
      = Inr (src, seen_upto src (length src), jer_at post d)" if "length (members_text False ?ps) < m" for m
    proof -
      have q: "peek_char (quoted (m_name mbr) @ s) = (QUOTE, quoted (m_name mbr) @ s)" for s by (simp add: quoted_def)
      let ?s = "T i @ members_text False ?ps @ CHR ''}'' # post"
      let ?ms = "if m_optional mbr then set_present \<Gamma> mbr i True ?cur else ?cur"
      have not_null: "\<not> ((if m_optional mbr then peek_null ?s else 0) \<noteq> 0 \<and> \<not> jer_value_may_be_null (\<Gamma> t))"
        using null [of "members_text False ?ps @ CHR ''}'' # post"] by auto
      have seen: "(seen_upto src i)[i := True] = seen_upto src (Suc i)" using seen_upto_here [OF i(1)] Some by simp
      have val: "dec (renamed (m_name mbr) (\<Gamma> t)) x (jer_at ?s d) = Inr (v, jer_at (members_text False ?ps @ CHR ''}'' # post) d)"
        by (rule jer_passesD(3) [OF t(2) x(2) members_text_ended d])
      have "jer_decode_members (Suc m) dec \<Gamma> ?all ?cur (seen_upto src i) (jer_at (quoted (m_name mbr) @ CHR '':'' # ?s) d)
          = jer_decode_members m dec \<Gamma> ?all (?ms[i := Some v]) ((seen_upto src i)[i := True])
              (jer_at (members_text False ?ps @ CHR ''}'' # post) d)"
        unfolding jer_decode_members.simps(2) [of m] Let_def
        by (simp only: q jer_reader.simps prod.case read_plain [OF name(1)] rbind.simps not_ws_marks simp_thms expect_char_here
            name(2) option.case t(1) not_null if_False x(1) val) simp
      then show ?thesis using next_row [OF that] x(3) seen by simp
    qed
    show ?thesis
    proof (cases first)
      case True
      then obtain m where "n = Suc m" "length (members_text False ?ps) < m" using Cons.prems(3) Some by (cases n) (auto simp: quoted_def)
      then show ?thesis using here [of m] True Some by simp
    next
      case False
      then obtain m where m: "n = Suc (Suc m)" "length (members_text False ?ps) < m"
        using Cons.prems(3) Some by (cases n; cases "n - 1") (auto simp: quoted_def)
      show ?thesis unfolding m(1)
        using here [OF m(2)] False Some by (simp del: jer_decode_members.simps add: jer_decode_members.simps(2) [of "Suc m"])
    qed
  qed
qed

lemma missing_member_None:
  "(\<And>j. j < length mbrs \<Longrightarrow> seen ! (i + j) \<or> m_optional (mbrs ! j) \<or> m_type (mbrs ! j) = None) \<Longrightarrow>
   missing_member seen i mbrs = None"
proof (induction mbrs arbitrary: i)
  case (Cons mbr mbrs)
  have "missing_member seen (Suc i) mbrs = None" using Cons.prems [of "Suc _"] by (intro Cons.IH) simp
  then show ?case using Cons.prems [of 0] by auto
qed simp

lemma jer_sequence_restored:
  assumes "jer_rows_ok spec src" "jer_rows_pass \<Gamma> k enc dec spec src T" "env_wf \<Gamma>" "d + k \<le> kMaxDecodeDepth"
    "td_per_handler def = Some H_Sequence" "td_sequence_spec def = Some spec" "shaped \<Gamma> def dest"
  shows "jer_sequence_decode dec \<Gamma> def dest
      (jer_at (CHR ''{'' # members_text True (row_parts T src 0 (ss_members spec)) @ CHR ''}'' # post) d)
    = Inr (V_Sequence src, jer_at post d)"
proof -
  obtain ms where ms: "dest = V_Sequence ms" "rows_ok \<Gamma> spec ms"
    using assms(5-7) by (auto simp: shaped_sequence_iff)
  have len: "length src = length (ss_members spec)" using assms(1) by (simp add: jer_rows_ok_def)
  have "seen_upto src 0 = replicate (length src) False" by (rule nth_equalityI) simp_all
  then have loop: "jer_decode_members n dec \<Gamma> (ss_members spec) (clear_optional \<Gamma> 0 (ss_members spec) ms)
      (replicate (length (ss_members spec)) False)
      (jer_at (members_text True (row_parts T src 0 (ss_members spec)) @ CHR ''}'' # post) d)
      = Inr (src, seen_upto src (length src), jer_at post d)"
    if "length (members_text True (row_parts T src 0 (ss_members spec))) < n" for n
    using jer_decode_members_text [OF assms(1-3) ms(2) assms(4), of "ss_members spec" 0 True n post] that len by simp
  have "missing_member (seen_upto src (length src)) 0 (ss_members spec) = None"
    using assms(1) len by (intro missing_member_None) (auto simp: jer_rows_ok_def jer_row_ok_def Let_def split: if_splits)
  moreover note loop [of "Suc (length (members_text True (row_parts T src 0 (ss_members spec)) @ CHR ''}'' # post))"]
  ultimately show ?thesis
    using assms(6) unfolding jer_sequence_decode_def ms(1) Let_def
    by (simp del: jer_decode_members.simps)
qed

section \<open>The codec\<close>

text \<open>What is promised of the tables beside \<open>env_wf\<close>: the kinds agree with the handlers.\<close>

definition kinds_ok :: "type_desc \<Rightarrow> bool" where
  "kinds_ok def \<longleftrightarrow>
     (td_kind def = Sequence \<longrightarrow> td_per_handler def = Some H_Sequence) \<and>
     (td_kind def = Choice \<longrightarrow> td_per_handler def = Some H_Choice) \<and>
     (td_kind def = SeqOf \<longrightarrow> td_per_handler def = Some H_SeqOf)"

definition text_env_wf :: "type_env \<Rightarrow> bool" where
  "text_env_wf \<Gamma> \<longleftrightarrow> env_wf \<Gamma> \<and> (\<forall>t. kinds_ok (\<Gamma> t))"

inductive jer_sendable :: "type_env \<Rightarrow> type_desc \<Rightarrow> asn1_value \<Rightarrow> bool" for \<Gamma> where
  jer_leaf: "jer_leaf_text def v = Some t \<Longrightarrow> jer_sendable \<Gamma> def v"
| jer_seqof: "td_kind def = SeqOf \<Longrightarrow> td_seq_of_spec def = Some spec \<Longrightarrow>
    (\<And>v. v \<in> set vs \<Longrightarrow> jer_sendable \<Gamma> (\<Gamma> (sos_element spec)) v) \<Longrightarrow> jer_sendable \<Gamma> def (V_SeqOf vs)"
| jer_sequence: "td_kind def = Sequence \<Longrightarrow> td_sequence_spec def = Some spec \<Longrightarrow> jer_rows_ok spec src \<Longrightarrow>
    (\<And>i v. i < length src \<Longrightarrow> src ! i = Some v \<Longrightarrow>
       \<exists>t. m_type (ss_members spec ! i) = Some t \<and> jer_sendable \<Gamma> (\<Gamma> t) v) \<Longrightarrow>
    jer_sendable \<Gamma> def (V_Sequence src)"
| jer_choice: "td_kind def = Choice \<Longrightarrow> td_choice_spec def = Some spec \<Longrightarrow> jer_names_ok (cs_alternatives spec) \<Longrightarrow>
    1 \<le> p \<Longrightarrow> p \<le> int (length (cs_alternatives spec)) \<Longrightarrow>
    m_type (cs_alternatives spec ! nat (p - 1)) = Some t \<Longrightarrow> jer_sendable \<Gamma> (\<Gamma> t) v \<Longrightarrow>
    jer_sendable \<Gamma> def (V_Choice p (Some v))"

lemma jer_kind_handlers:
  "td_kind def = SeqOf \<Longrightarrow> jer_handler_of def = Some J_SeqOf"
  "td_kind def = Sequence \<Longrightarrow> jer_handler_of def = Some J_Sequence"
  "td_kind def = Choice \<Longrightarrow> jer_handler_of def = Some J_Choice"
  by (simp_all add: jer_handler_of_def)

lemma jer_choice_restored:
  assumes "jer_passes \<Gamma> k enc dec (\<Gamma> t) v u" "env_wf \<Gamma>" "d + k \<le> kMaxDecodeDepth"
    "td_per_handler def = Some H_Choice" "td_choice_spec def = Some spec" "shaped \<Gamma> def dest"
    "jer_names_ok (cs_alternatives spec)" "1 \<le> p" "p \<le> int (length (cs_alternatives spec))"
    "m_type (cs_alternatives spec ! nat (p - 1)) = Some t"
  shows "jer_choice_decode dec \<Gamma> def dest
      (jer_at (CHR ''{'' # quoted (m_name (cs_alternatives spec ! nat (p - 1))) @ CHR '':'' # u @ CHR ''}'' # post) d)
    = Inr (V_Choice p (Some v), jer_at post d)"
proof -
  let ?alts = "cs_alternatives spec" and ?i = "nat (p - 1)"
  let ?alt = "?alts ! ?i"
  have i: "?i < length ?alts" "int ?i = p - 1" using assms(8,9) by simp_all
  have name: "plain_name (m_name ?alt)" "find_named (m_name ?alt) 0 ?alts = Some (?i, ?alt)"
    using assms(7) i(1) find_named_at [of ?alts ?i 0] by (simp_all add: jer_names_ok_def list_all_length)
  obtain p0 storage where dest: "dest = V_Choice p0 storage" and
    mem: "\<exists>x. (if p0 \<noteq> int ?i + 1 then Some (emplace_alt \<Gamma> ?alt) else storage) = Some x \<and> shaped \<Gamma> (\<Gamma> t) x"
  proof -
    have new: "shaped \<Gamma> (\<Gamma> t) (emplace_alt \<Gamma> ?alt)" using assms(2,10) by (simp add: emplace_alt_def env_wf_def)
    from assms(6) consider "dest = V_Choice 0 None"
      | p0 x t0 where "dest = V_Choice p0 (Some x)" "1 \<le> p0" "m_type (?alts ! nat (p0 - 1)) = Some t0" "shaped \<Gamma> (\<Gamma> t0) x"
      unfolding shaped_choice_iff [OF assms(4,5)] by blast
    then show ?thesis
    proof cases
      case 1
      then show ?thesis using that [of 0 None] new assms(8) i by simp
    next
      case 2
      have "shaped \<Gamma> (\<Gamma> t) x" if "p0 = int ?i + 1" using 2 assms(10) that i by simp
      then show ?thesis using that [of p0 "Some x"] new 2(1) by (cases "p0 = int ?i + 1") simp_all
    qed
  qed
  then obtain x where x: "(if p0 \<noteq> int ?i + 1 then Some (emplace_alt \<Gamma> ?alt) else storage) = Some x" "shaped \<Gamma> (\<Gamma> t) x" by blast
  have val: "dec (renamed (m_name ?alt) (\<Gamma> t)) x (jer_at (u @ CHR ''}'' # post) d) = Inr (v, jer_at (CHR ''}'' # post) d)"
    by (rule jer_passesD(3) [OF assms(1) x(2) _ assms(3)]) simp
  show ?thesis
    unfolding jer_choice_decode_def dest assms(5)
    by (simp only: option.case asn1_value.case prod.case jer_reader.simps expect_char_here not_ws_marks simp_thms rbind.simps
        read_plain [OF name(1)] name(2) assms(10) x(1) val) (use assms(8) in simp)
qed

lemma jer_roundtrip_fuel:
  assumes "text_env_wf \<Gamma>" "jer_sendable \<Gamma> def v"
  shows "kinds_ok def \<Longrightarrow> height v < ne \<Longrightarrow> height v < nd \<Longrightarrow>
    \<exists>t. jer_passes \<Gamma> (height v) (jer_encode_fuel ne \<Gamma>) (jer_decode_fuel nd \<Gamma>) def v t"
  using assms(2)
proof (induction arbitrary: ne nd rule: jer_sendable.induct)
  case (jer_leaf def v t)
  then obtain m1 m2 where "ne = Suc m1" "nd = Suc m2" by (cases ne; cases nd) auto
  then show ?case using jer_leaf_passes [OF jer_leaf.hyps] by blast
next
  case (jer_seqof def spec vs)
  have env: "env_wf \<Gamma>" "kinds_ok (\<Gamma> (sos_element spec))" using assms(1) by (simp_all add: text_env_wf_def)
  let ?edef = "\<Gamma> (sos_element spec)"
  obtain m1 m2 where fuel: "ne = Suc m1" "nd = Suc m2" using jer_seqof.prems by (cases ne; cases nd) auto
  obtain k where k: "height (V_SeqOf vs) = Suc k" by simp
  let ?enc = "jer_encode_fuel m1 \<Gamma>" and ?dec = "jer_decode_fuel m2 \<Gamma>"
  have "\<exists>t. jer_passes \<Gamma> k ?enc ?dec ?edef v t" if v: "v \<in> set vs" for v
  proof -
    have h: "height v < m1" "height v < m2" "height v \<le> k" using height_element [OF v] jer_seqof.prems fuel k by linarith+
    obtain t where "jer_passes \<Gamma> (height v) ?enc ?dec ?edef v t" using jer_seqof.IH [OF v env(2) h(1,2)] by blast
    then show ?thesis using jer_passes_mono h(3) by blast
  qed
  then obtain T where T: "\<forall>v \<in> set vs. jer_passes \<Gamma> k ?enc ?dec ?edef v (T v)" by metis
  let ?t = "elements_text T True vs"
  have h: "jer_handler_of def = Some J_SeqOf" "depth_counts def"
    using jer_seqof.hyps(1) by (simp_all add: jer_handler_of_def depth_counts_def)
  have new: "shaped \<Gamma> ?edef (td_new ?edef)" using env(1) by (simp add: env_wf_def)
  have "jer_passes \<Gamma> (height (V_SeqOf vs)) (jer_encode_fuel (Suc m1) \<Gamma>) (jer_decode_fuel (Suc m2) \<Gamma>) def (V_SeqOf vs)
      (CHR ''['' # ?t @ '']'')"
  proof (rule jer_level_passes [where k = k])
    fix name w
    show "jer_handler_encode ?enc \<Gamma> (renamed name def) (V_SeqOf vs) w = jer_put (CHR ''['' # ?t @ '']'') w"
      using jer_encode_elements_text [OF T] by (simp add: jer_handler_encode_def h jer_seqof_encode_def jer_seqof.hyps(2))
  next
    show "jer_starts def (CHR ''['' # ?t @ '']'')" by (simp add: jer_starts_def)
  next
    show "(if depth_counts def then Suc k else k) \<le> height (V_SeqOf vs)" using h(2) k by simp
  next
    fix name post dest d assume d: "d + k \<le> kMaxDecodeDepth"
    show "jer_handler_decode ?dec \<Gamma> (renamed name def) dest (jer_at ((CHR ''['' # ?t @ '']'') @ post) d)
      = Inr (V_SeqOf vs, jer_at post d)"
      using jer_decode_elements_text [OF T new d, of True "Suc (length (?t @ '']'' @ post))" "[]" post]
      by (simp add: jer_handler_decode_def h jer_seqof_decode_def jer_seqof.hyps(2) del: jer_decode_elements.simps)
  qed
  then show ?case using fuel by blast
next
  case (jer_sequence def spec src)
  have env: "env_wf \<Gamma>" "\<And>t. kinds_ok (\<Gamma> t)" using assms(1) by (simp_all add: text_env_wf_def)
  obtain m1 m2 where fuel: "ne = Suc m1" "nd = Suc m2" using jer_sequence.prems by (cases ne; cases nd) auto
  obtain k where k: "height (V_Sequence src) = Suc k" by simp
  let ?enc = "jer_encode_fuel m1 \<Gamma>" and ?dec = "jer_decode_fuel m2 \<Gamma>"
  have "\<exists>u. \<forall>v. i < length src \<longrightarrow> src ! i = Some v \<longrightarrow>
      (\<exists>t. m_type (ss_members spec ! i) = Some t \<and> jer_passes \<Gamma> k ?enc ?dec (\<Gamma> t) v u)" for i
  proof (cases "i < length src \<and> src ! i \<noteq> None")
    case True
    then obtain v where v: "i < length src" "src ! i = Some v" by auto
    obtain t where t: "m_type (ss_members spec ! i) = Some t"
      "kinds_ok (\<Gamma> t) \<Longrightarrow> height v < m1 \<Longrightarrow> height v < m2 \<Longrightarrow> \<exists>u. jer_passes \<Gamma> (height v) ?enc ?dec (\<Gamma> t) v u"
      using jer_sequence.IH [OF v] by blast
    have "Some v \<in> set src" using v by (metis nth_mem)
    then have h: "height v < m1" "height v < m2" "height v \<le> k"
      using height_member [of v src] jer_sequence.prems fuel k by linarith+
    obtain u where "jer_passes \<Gamma> (height v) ?enc ?dec (\<Gamma> t) v u" using t(2) [OF env(2) h(1,2)] by blast
    then have "jer_passes \<Gamma> k ?enc ?dec (\<Gamma> t) v u" using jer_passes_mono h(3) by blast
    then show ?thesis using t(1) v(2) by auto
  qed auto
  then obtain T where "jer_rows_pass \<Gamma> k ?enc ?dec spec src T" unfolding jer_rows_pass_def by metis
  note pass = this
  let ?t = "members_text True (row_parts T src 0 (ss_members spec))"
  have h: "jer_handler_of def = Some J_Sequence" "depth_counts def" "td_per_handler def = Some H_Sequence"
    using jer_sequence.hyps(1) jer_sequence.prems(1) by (simp_all add: jer_handler_of_def depth_counts_def kinds_ok_def)
  have "jer_passes \<Gamma> (height (V_Sequence src)) (jer_encode_fuel (Suc m1) \<Gamma>) (jer_decode_fuel (Suc m2) \<Gamma>) def (V_Sequence src)
      (CHR ''{'' # ?t @ ''}'')"
  proof (rule jer_level_passes [where k = k])
    fix name w
    show "jer_handler_encode ?enc \<Gamma> (renamed name def) (V_Sequence src) w = jer_put (CHR ''{'' # ?t @ ''}'') w"
      using jer_encode_members_text [OF jer_sequence.hyps(3) pass, of "ss_members spec" 0 True]
      by (simp add: jer_handler_encode_def h jer_sequence_encode_def jer_sequence.hyps(2))
  next
    show "jer_starts def (CHR ''{'' # ?t @ ''}'')" by (rule jer_starts_literals)
  next
    show "(if depth_counts def then Suc k else k) \<le> height (V_Sequence src)" using h(2) k by simp
  next
    fix name post dest d assume "shaped \<Gamma> def dest" "d + k \<le> kMaxDecodeDepth"
    then show "jer_handler_decode ?dec \<Gamma> (renamed name def) dest (jer_at ((CHR ''{'' # ?t @ ''}'') @ post) d)
      = Inr (V_Sequence src, jer_at post d)"
      using jer_sequence_restored [OF jer_sequence.hyps(3) pass env(1), of d "renamed name def" dest post] h(3) jer_sequence.hyps(2)
      by (simp add: jer_handler_decode_def h(1))
  qed
  then show ?case using fuel by blast
next
  case (jer_choice def spec p t v)
  have env: "env_wf \<Gamma>" "kinds_ok (\<Gamma> t)" using assms(1) by (simp_all add: text_env_wf_def)
  obtain m1 m2 where fuel: "ne = Suc m1" "nd = Suc m2" using jer_choice.prems by (cases ne; cases nd) auto
  let ?enc = "jer_encode_fuel m1 \<Gamma>" and ?dec = "jer_decode_fuel m2 \<Gamma>" and ?n = "m_name (cs_alternatives spec ! nat (p - 1))"
  obtain u where u: "jer_passes \<Gamma> (height v) ?enc ?dec (\<Gamma> t) v u"
    using jer_choice.IH [of m1 m2] env(2) jer_choice.prems fuel by auto
  have h: "jer_handler_of def = Some J_Choice" "depth_counts def" "td_per_handler def = Some H_Choice"
    using jer_choice.hyps(1) jer_choice.prems(1) by (simp_all add: jer_handler_of_def depth_counts_def kinds_ok_def)
  let ?t = "CHR ''{'' # quoted ?n @ CHR '':'' # u @ ''}''"
  have "jer_passes \<Gamma> (height (V_Choice p (Some v))) (jer_encode_fuel (Suc m1) \<Gamma>) (jer_decode_fuel (Suc m2) \<Gamma>) def
      (V_Choice p (Some v)) ?t"
  proof (rule jer_level_passes [where k = "height v"])
    fix name w
    show "jer_handler_encode ?enc \<Gamma> (renamed name def) (V_Choice p (Some v)) w = jer_put ?t w"
      using jer_choice.hyps(4,5) jer_passesD(1) [OF u]
      by (simp add: jer_handler_encode_def h jer_choice_encode_def jer_choice.hyps(2,6) Let_def)
  next
    show "jer_starts def ?t" by (rule jer_starts_literals)
  next
    show "(if depth_counts def then Suc (height v) else height v) \<le> height (V_Choice p (Some v))" using h(2) by simp
  next
    fix name post dest d assume "shaped \<Gamma> def dest" "d + height v \<le> kMaxDecodeDepth"
    then show "jer_handler_decode ?dec \<Gamma> (renamed name def) dest (jer_at (?t @ post) d)
      = Inr (V_Choice p (Some v), jer_at post d)"
      using jer_choice_restored [OF u env(1), of d "renamed name def" spec dest p post] h(3) jer_choice.hyps(2-6)
      by (simp add: jer_handler_decode_def h(1))
  qed
  then show ?case using fuel by blast
qed

end
