(* ===== verification/Xer_Roundtrip.thy ===== *)
theory Xer_Roundtrip
  imports Xer_Codec Jer_Roundtrip
begin

text \<open>
  What the XER encoder writes, the XER decoder reads back: the primitive types, and by
  induction on the values that can be sent (\<open>xer_sendable\<close>) the whole codec, whatever
  white space comes before the text and whatever follows it. An object that is decoded
  into must hold no elements of a SEQUENCE OF yet (\<open>fresh\<close>): the decoder of an empty one
  leaves them there.
\<close>

unbundle bit_operations_syntax

section \<open>Texts without white space\<close>

definition tidy :: "string \<Rightarrow> bool" where
  "tidy t \<longleftrightarrow> list_all (\<lambda>c. c \<noteq> CHR ''<'' \<and> c \<noteq> CHR ''&'' \<and> \<not> xer_ws c) t"

lemma tidy_plain: "tidy t \<Longrightarrow> plain_text t"
  by (auto simp: tidy_def plain_text_def list_all_iff)

lemma dropWhile_none: "list_all (\<lambda>c. \<not> P c) t \<Longrightarrow> dropWhile P t = t"
  by (cases t) auto

lemma trim_tidy: "tidy t \<Longrightarrow> xer_trim t = t"
  unfolding xer_trim_def tidy_def by (subst (1 2) dropWhile_none) (auto simp: list_all_iff)

lemma tidy_append [simp]: "tidy (s @ t) \<longleftrightarrow> tidy s \<and> tidy t"
  by (simp add: tidy_def)

lemma tidy_digits: "list_all is_digit t \<Longrightarrow> tidy t"
  by (auto simp: tidy_def list_all_iff is_digit_def between_def xer_ws_def code_of_def)

lemma tidy_nat: "tidy (to_string n)"
  by (rule tidy_digits [OF to_string_all_digits])

lemma tidy_int: "tidy (int_text n)"
  using tidy_nat by (simp add: int_text_def) (simp add: tidy_def xer_ws_def code_of_def)

lemma tidy_arcs: "tidy (format_arcs as)"
proof (induction as rule: format_arcs.induct)
  case (3 a b bs)
  with tidy_nat [of "unat a"] show ?case by (simp add: tidy_def) (simp add: xer_ws_def code_of_def)
qed (simp_all add: tidy_nat tidy_def [of "[]"])

section \<open>Bits\<close>

lemma scan_bits_skip: "scan_bits content h (xer_skip_ws s) = scan_bits content h s"
  unfolding xer_skip_ws_def by (induction s) auto

definition bit_text :: "string \<Rightarrow> bool" where
  "bit_text t \<longleftrightarrow> list_all (\<lambda>c. xer_ws c \<or> c = CHR ''0'' \<or> c = CHR ''1'') t"

lemma bit_digits: "\<not> xer_ws CHR ''0''" "\<not> xer_ws CHR ''1''" "\<not> is_hex_only CHR ''0''" "\<not> is_hex_only CHR ''1''"
  by code_simp+

lemma scan_bits_text:
  "bit_text t \<Longrightarrow> scan_bits content h (t @ close_tag n @ s) = Inr (content @ filter (\<lambda>c. \<not> xer_ws c) t, h, close_tag n @ s)"
proof (induction t arbitrary: content)
  case Nil
  show ?case by (simp add: close_tag_def)
next
  case (Cons c t)
  then show ?case using bit_digits by (auto simp: bit_text_def )
qed

lemma bit_text_digits:
  "list_all (\<lambda>c. c = CHR ''0'' \<or> c = CHR ''1'') t \<Longrightarrow> bit_text t \<and> filter (\<lambda>c. \<not> xer_ws c) t = t"
  by (induction t) (auto simp: bit_text_def bit_digits)

lemma filter_bit_lines:
  assumes "list_all (\<lambda>c. c = CHR ''0'' \<or> c = CHR ''1'') bits" "blank ind"
  shows "bit_text (bit_lines ind bits) \<and> filter (\<lambda>c. \<not> xer_ws c) (bit_lines ind bits) = bits"
  using assms(1)
proof (induction "length bits" arbitrary: bits rule: less_induct)
  case less
  have ind: "bit_text ind" "filter (\<lambda>c. \<not> xer_ws c) ind = []"
    using assms(2) by (auto simp: bit_text_def blank_def list_all_iff)
  show ?case
  proof (cases "bits = []")
    case True
    then show ?thesis by (simp add: bit_lines.simps bit_text_def)
  next
    case False
    have all: "list_all (\<lambda>c. c = CHR ''0'' \<or> c = CHR ''1'') (drop 64 bits)"
      "list_all (\<lambda>c. c = CHR ''0'' \<or> c = CHR ''1'') (take 64 bits)"
      using less.prems by (auto simp: list_all_iff dest: in_set_dropD in_set_takeD)
    have "length (drop 64 bits) < length bits" using False by simp
    note rest = less.hyps [OF this all(1)]
    have "bit_text (take 64 bits)" "filter (\<lambda>c. \<not> xer_ws c) (take 64 bits) = take 64 bits"
      using bit_text_digits [OF all(2)] by blast+
    then have "filter (\<lambda>c. \<not> xer_ws c) (bit_lines ind bits) = take 64 bits @ drop 64 bits"
      using rest ind False by (subst bit_lines.simps) (simp del: append_take_drop_id)
    moreover have "bit_text (bit_lines ind bits)"
      using rest ind False \<open>bit_text (take 64 bits)\<close> by (subst bit_lines.simps) (simp add: bit_text_def)
    ultimately show ?thesis by simp
  qed
qed

lemma pack_bits_from:
  assumes "m \<le> length content"
  defines "B \<equiv> foldl (set_bit_char content) (replicate ((length content + 7) div 8) 0) [0..<m]"
  shows "length B = (length content + 7) div 8 \<and>
    (\<forall>i < length B * 8. bit (B ! (i div 8)) (7 - i mod 8) \<longleftrightarrow> i < m \<and> content ! i = CHR ''1'')"
  unfolding B_def using assms(1)
proof (induction m)
  case 0
  then show ?case by (auto simp: less_mult_imp_div_less)
next
  case (Suc m)
  define B0 where "B0 = foldl (set_bit_char content) (replicate ((length content + 7) div 8) 0) [0..<m]"
  have IH: "length B0 = (length content + 7) div 8"
    "\<And>i. i < length B0 * 8 \<Longrightarrow> bit (B0 ! (i div 8)) (7 - i mod 8) \<longleftrightarrow> i < m \<and> content ! i = CHR ''1''"
    using Suc by (auto simp: B0_def)
  have m: "m div 8 < length B0" using Suc.prems IH(1) by linarith
  have one: "bit (drop_bit a 0x80 :: byte) b \<longleftrightarrow> a + b = 7" for a b
  proof -
    have "bit (2 ^ 7 :: byte) k \<longleftrightarrow> k = 7" for k by (simp only: bit_exp_iff) auto
    then show ?thesis by (simp add: bit_drop_bit_eq)
  qed
  let ?B = "set_bit_char content B0 m"
  have len: "length ?B = length B0" by (simp add: set_bit_char_def)
  have "bit (?B ! (i div 8)) (7 - i mod 8) \<longleftrightarrow> i < Suc m \<and> content ! i = CHR ''1''" if i: "i < length B0 * 8" for i
  proof (cases "content ! m = CHR ''1''")
    case False
    then show ?thesis using IH(2) [OF i] by (auto simp: set_bit_char_def less_Suc_eq)
  next
    case True
    show ?thesis
    proof (cases "i div 8 = m div 8")
      case same: True
      have "bit (?B ! (i div 8)) (7 - i mod 8) \<longleftrightarrow> bit (B0 ! (i div 8)) (7 - i mod 8) \<or> i mod 8 = m mod 8"
        using True same m by (auto simp: set_bit_char_def bit_or_iff one)
      also have "i mod 8 = m mod 8 \<longleftrightarrow> i = m" using same by (metis div_mult_mod_eq)
      finally show ?thesis using IH(2) [OF i] True by (auto simp: less_Suc_eq)
    next
      case False
      then have "i \<noteq> m" by auto
      then show ?thesis using IH(2) [OF i] False True by (auto simp: set_bit_char_def less_Suc_eq)
    qed
  qed
  then show ?case using IH(1) len by (simp add: B0_def)
qed

lemma pack_bit_chars:
  assumes "bit_string_ok v" "clean_padding v"
  shows "pack_bits (bit_chars v) = v"
proof (rule bit_string_eqI [OF _ assms(1) _ assms(2)])
  let ?n = "bit_count v" and ?w = "pack_bits (bit_chars v)"
  have len: "length (bit_chars v) = ?n" by (simp add: bit_chars_def)
  have u: "unat (bs_unused v) \<le> 7" "bs_bytes v = [] \<longrightarrow> bs_unused v = 0"
    using assms(1) by (simp_all add: bit_string_ok_def)
  have total: "length (bs_bytes v) * 8 = ?n + unat (bs_unused v)"
    using u by (cases "bs_bytes v") (auto simp: bit_count_def)
  then have bytes: "(?n + 7) div 8 = length (bs_bytes v)" using u(1) by linarith
  note packed = pack_bits_from [of ?n "bit_chars v", unfolded len bytes]
  define B where "B = foldl (set_bit_char (bit_chars v)) (replicate (length (bs_bytes v)) 0) [0..<?n]"
  have w: "bs_bytes ?w = B" "bs_unused ?w = bs_unused v"
    using total packed by (simp_all add: pack_bits_def Let_def len bytes B_def)
  have B: "length B = length (bs_bytes v)"
    "\<And>i. i < length B * 8 \<Longrightarrow> bit (B ! (i div 8)) (7 - i mod 8) \<longleftrightarrow> i < ?n \<and> bit_chars v ! i = CHR ''1''"
    using packed by (auto simp: B_def)
  show same: "bs_unused ?w = bs_unused v" "length (bs_bytes ?w) = length (bs_bytes v)" using w B(1) by simp_all
  show "bit_string_ok ?w" using u w B(1) by (auto simp: bit_string_ok_def)
  have n: "bit_count ?w = ?n" using same by (simp add: bit_count_def) (metis length_0_conv)
  have bits: "bit (B ! (i div 8)) (7 - i mod 8) \<longleftrightarrow> i < ?n \<and> bit (bs_bytes v ! (i div 8)) (7 - i mod 8)" if "i < length B * 8" for i
    using B(2) [OF that] by (auto simp: bit_chars_def split: if_splits)
  show "bit_at ?w i \<longleftrightarrow> bit_at v i" for i
    using bits [of i] total B(1) by (auto simp: bit_at_eq n w(1))
  show "clean_padding ?w"
    unfolding clean_padding_def
  proof (intro allI impI)
    fix j assume j: "j < length (bs_bytes ?w)"
    show "tested_octet ?w j = bs_bytes ?w ! j"
    proof (cases "j + 1 = length B")
      case True
      have "\<not> bit (B ! j) k" if k: "k < unat (bs_unused v)" for k
      proof -
        obtain m where m: "m < 8" "k = 7 - m" "7 - m < unat (bs_unused v)"
          using k u(1) that [of "7 - k"] by simp
        then have "(j * 8 + m) div 8 = j" "(j * 8 + m) mod 8 = m" "j * 8 + m < length B * 8" "\<not> j * 8 + m < ?n"
          using True total B(1) by simp_all
        then show ?thesis using bits [of "j * 8 + m"] m(2) by simp
      qed
      then have "B ! j AND unused_mask (bs_unused v) = B ! j"
        by (intro bit_word_eqI) (auto simp: bit_and_iff bit_unused_mask intro: leI)
      then show ?thesis using True by (simp add: tested_octet_def w)
    qed (simp add: tested_octet_def w)
  qed
qed


section \<open>Primitive types\<close>

text \<open>
  The text between the tags of a primitive value; \<open>None\<close> for what cannot be sent: padding
  bits that are not 0, a wide string with a partial unit or a code point beyond 21 bits,
  an ENUMERATED value that has no name.
\<close>

definition enum_named :: "enum_spec \<Rightarrow> i64 \<Rightarrow> bool" where
  "enum_named spec n \<longleftrightarrow> distinct (map ee_name (es_entries spec)) \<and>
     list_all (\<lambda>e. good_name (ee_name e)) (es_entries spec) \<and>
     0 \<le> enum_search (es_entries spec) n 0 (int (length (es_entries spec)) - 1)"

definition bits_body :: "nat \<Rightarrow> bit_string \<Rightarrow> string" where
  "bits_body d b = CHR 0x0A #
     (if bit_count b = 0 then indent_text (d + 1) @ [CHR 0x0A] else bit_lines (indent_text (d + 1)) (bit_chars b)) @
     indent_text d"

definition xer_leaf_body :: "type_desc \<Rightarrow> asn1_value \<Rightarrow> nat \<Rightarrow> string option" where
  "xer_leaf_body def v d =
     (case (xer_handler_of def, v) of
        (Some X_Null, V_Null) \<Rightarrow> Some []
      | (Some X_Boolean, V_Boolean b) \<Rightarrow> Some (boolean_text b)
      | (Some X_Integer, V_UInteger n) \<Rightarrow>
          if c_int_kind (td_constraints def) = INT_U64 then Some (to_string (unat n)) else None
      | (Some X_Integer, V_Integer n) \<Rightarrow>
          if c_int_kind (td_constraints def) = INT_U64 then None else Some (int_text (sint n))
      | (Some X_BitString, V_BitString b) \<Rightarrow>
          if bit_string_ok b \<and> clean_padding b then Some (bits_body d b) else None
      | (Some X_OctetString, V_OctetString bs) \<Rightarrow> Some (xer_octets_text (td_xer_encoding def) bs)
      | (Some X_Any, V_OctetString bs) \<Rightarrow> Some (hex_encode_upper bs)
      | (Some X_Oid, V_Oid a) \<Rightarrow> Some (format_arcs a)
      | (Some X_RelOid, V_RelativeOid a) \<Rightarrow> Some (format_arcs a)
      | (Some X_UtcTime, V_String s) \<Rightarrow> Some (xer_escape (map char_of_byte s))
      | (Some X_GenTime, V_String s) \<Rightarrow> Some (xer_escape (map char_of_byte s))
      | (Some X_String, V_String s) \<Rightarrow> Some (xer_escape (map char_of_byte s))
      | (Some X_HexString, V_String s) \<Rightarrow> Some (hex_encode_upper s)
      | (Some (X_WideString k), V_String s) \<Rightarrow>
          if wide_ok k s then Some (xer_escape (map char_of_byte (wide_to_utf8 k s))) else None
      | (Some X_Enumerated, V_Enum n) \<Rightarrow>
          (case td_enum_spec def of None \<Rightarrow> None
           | Some spec \<Rightarrow> if enum_named spec n then Some (enum_text spec n) else None)
      | _ \<Rightarrow> None)"

definition leaf_text :: "type_desc \<Rightarrow> string \<Rightarrow> string \<Rightarrow> string" where
  "leaf_text def name body =
     (if xer_handler_of def = Some X_Null \<and> name = ''NULL'' then empty_tag name
      else open_tag name @ body @ close_tag name)"

text \<open>\<open>reads_element f name t v\<close>: from the text \<open>t\<close>, behind white space, \<open>f\<close> gets \<open>v\<close>.\<close>

definition reads_element :: "(string \<Rightarrow> ('v \<times> string) result) \<Rightarrow> string \<Rightarrow> 'v \<Rightarrow> bool" where
  "reads_element f t v \<longleftrightarrow> (\<forall>pre post. blank pre \<longrightarrow> f (pre @ t @ post) = Inr (v, post))"

lemma reads_elementI: "(\<And>pre post. blank pre \<Longrightarrow> f (pre @ t @ post) = Inr (v, post)) \<Longrightarrow> reads_element f t v"
  by (simp add: reads_element_def)

lemma parse_written_here:
  assumes "good_name n"
  shows "parse_tag (open_tag n @ s) = (\<lparr>ti_name = n, ti_closing = False, ti_self_closing = False\<rparr>, s)"
    "parse_tag (close_tag n @ s) = (\<lparr>ti_name = n, ti_closing = True, ti_self_closing = False\<rparr>, s)"
    "parse_tag (empty_tag n @ s) = (\<lparr>ti_name = n, ti_closing = False, ti_self_closing = True\<rparr>, s)"
  using parse_tag_written [OF assms, of "[]"] by simp_all

lemma consume_written_here:
  assumes "good_name n"
  shows "consume_open_tag n (open_tag n @ s) = Inr s" "consume_close_tag n (close_tag n @ s) = Inr s"
  using consume_written [OF assms, of "[]"] by simp_all

lemma null_back:
  assumes "good_name n"
  shows "reads_element (xer_null_decode n) (open_tag n @ close_tag n) V_Null"
    "reads_element (xer_null_decode n) (empty_tag n) V_Null"
  using parse_tag_written [OF assms] parse_written_here [OF assms]
  by (auto intro!: reads_elementI simp: xer_null_decode_def)

lemma good_literals: "good_name ''true''" "good_name ''false''" "good_name ''NULL''"
  by code_simp+

lemma boolean_back:
  assumes "good_name n"
  shows "reads_element (xer_boolean_decode lenient n) (open_tag n @ boolean_text b @ close_tag n) (V_Boolean b)"
proof (rule reads_elementI)
  fix pre post :: string
  assume "blank pre"
  have "xer_skip_ws (empty_tag m @ s) = empty_tag m @ s" "empty_tag m \<noteq> []" "hd (empty_tag m @ s) = CHR ''<''" for m s
    by (simp_all add: empty_tag_def)
  then show "xer_boolean_decode lenient n (pre @ (open_tag n @ boolean_text b @ close_tag n) @ post) = Inr (V_Boolean b, post)"
    using parse_written_here(3) [OF good_literals(1)] parse_written_here(3) [OF good_literals(2)]
    by (cases b) (simp_all add: xer_boolean_decode_def boolean_text_def consume_written(1) [OF assms \<open>blank pre\<close>] consume_written_here [OF assms])
qed

lemma text_back:
  assumes "good_name n"
  shows "plain_text t \<Longrightarrow> fn t = Inr v \<Longrightarrow> reads_element (text_element n fn) (open_tag n @ t @ close_tag n) v"
    "fn u = Inr v \<Longrightarrow> reads_element (text_element n fn) (open_tag n @ xer_escape u @ close_tag n) v"
  using text_element_plain [OF assms] text_element_escaped [OF assms]
  by (auto intro!: reads_elementI)

lemma integer_back:
  "c_int_kind c = INT_U64 \<Longrightarrow> xer_integer_value c (to_string (unat n)) = Inr (V_UInteger n)"
  "c_int_kind c \<noteq> INT_U64 \<Longrightarrow> xer_integer_value c (int_text (sint m)) = Inr (V_Integer m)"
  by (simp_all add: xer_integer_value_def trim_tidy tidy_nat tidy_int from_chars_u64_text from_chars_int_text)

lemma octets_back:
  assumes "good_name n"
  shows "reads_element (xer_octets_decode enc n) (open_tag n @ xer_octets_text enc bs @ close_tag n) (V_OctetString bs)"
proof (cases enc)
  case XER_UTF8
  then show ?thesis
    using utf8_element_written [OF assms] by (auto intro!: reads_elementI simp: xer_octets_decode_def xer_octets_text_def)
qed (simp_all add: xer_octets_decode_def [abs_def] xer_octets_text_def text_back(1) [OF assms] plain_text_hex plain_text_base64)

lemma blank_indent [simp]: "blank (indent_text d)"
  by (simp add: indent_text_def)

lemma bit_string_back:
  assumes "good_name n" "bit_string_ok b" "clean_padding b"
  shows "reads_element (xer_bit_string_decode lenient n) (open_tag n @ bits_body d b @ close_tag n) (V_BitString b)"
  unfolding bits_body_def
proof (rule reads_elementI)
  fix pre post :: string
  assume pre: "blank pre"
  let ?t = "CHR 0x0A # (if bit_count b = 0 then indent_text (d + 1) @ [CHR 0x0A]
        else bit_lines (indent_text (d + 1)) (bit_chars b)) @ indent_text d"
  have chars: "list_all (\<lambda>c. c = CHR ''0'' \<or> c = CHR ''1'') (bit_chars b)"
    by (auto simp: bit_chars_def list_all_iff)
  have blank: "bit_text t" "filter (\<lambda>c. \<not> xer_ws c) t = []" if "blank t" for t
    using that by (auto simp: bit_text_def blank_def list_all_iff)
  have "bit_text ?t \<and> filter (\<lambda>c. \<not> xer_ws c) ?t = bit_chars b"
  proof (cases "bit_count b = 0")
    case True
    then have "blank ?t" "bit_chars b = []" by (simp_all add: bit_chars_def)
    then show ?thesis using blank by simp
  next
    case False
    from filter_bit_lines [OF chars blank_indent, of "d + 1"] blank [OF blank_indent, of d] False
    show ?thesis by (simp add: bit_text_def)
  qed
  then have scan: "scan_bits [] False (xer_skip_ws (?t @ close_tag n @ post)) = Inr (bit_chars b, False, close_tag n @ post)"
    using scan_bits_text [of ?t "[]" False n post] by (simp only: scan_bits_skip) simp
  have "length (bit_chars b) = bit_count b" by (simp add: bit_chars_def)
  then have "bit_chars b = [] \<Longrightarrow> b = \<lparr>bs_bytes = [], bs_unused = 0\<rparr>"
    using pack_bit_chars [OF assms(2,3)] by (simp add: pack_bits_def)
  then show "xer_bit_string_decode lenient n (pre @ (open_tag n @ ?t @ close_tag n) @ post) = Inr (V_BitString b, post)"
    using pack_bit_chars [OF assms(2,3)]
    by (simp only: xer_bit_string_decode_def append_assoc consume_written(1) [OF assms(1) pre] rbind.simps scan prod.case
        consume_written_here(2) [OF assms(1)]) auto
qed

lemma enum_back:
  assumes "good_name n" "enum_named spec v"
  shows "reads_element (xer_enum_decode spec n) (open_tag n @ enum_text spec v @ close_tag n) (V_Enum v)"
    "reads_element (bare_enum spec) (enum_text spec v) (V_Enum v)"
    "\<exists>m. enum_text spec v = empty_tag m \<and> good_name m"
proof -
  let ?es = "es_entries spec"
  let ?i = "enum_search ?es v 0 (int (length ?es) - 1)"
  have i: "nat ?i < length ?es" "ee_value (?es ! nat ?i) = v" "0 \<le> ?i"
    using enum_search_sound [of 0 ?es v "int (length ?es) - 1"] assms(2) by (auto simp: enum_named_def)
  let ?m = "ee_name (?es ! nat ?i)"
  have m: "enum_text spec v = empty_tag ?m" "good_name ?m" "entry_named ?m ?es = Some v" "?m \<noteq> []"
    using assms(2) i entry_named_entry [of ?es "nat ?i"] by (auto simp: enum_text_def enum_named_def list_all_length good_name_def)
  show "\<exists>m. enum_text spec v = empty_tag m \<and> good_name m" using m by blast
  show "reads_element (xer_enum_decode spec n) (open_tag n @ enum_text spec v @ close_tag n) (V_Enum v)"
    by (auto intro!: reads_elementI simp: m xer_enum_decode_def parse_tag_written [OF assms(1)] parse_written_here [OF assms(1)]
        parse_written_here [OF m(2)])
  show "reads_element (bare_enum spec) (enum_text spec v) (V_Enum v)"
    by (auto intro!: reads_elementI simp: m bare_enum_def parse_tag_written [OF m(2)])
qed


section \<open>Texts that pass\<close>

lemma xer_renamed [simp]:
  "xer_handler_of (renamed n def) = xer_handler_of def" "td_xer_encoding (renamed n def) = td_xer_encoding def"
  "td_name (renamed n def) = n" "xer_value_list_element (renamed n def) = xer_value_list_element def"
proof -
  show e: "td_xer_encoding (renamed n def) = td_xer_encoding def" "td_name (renamed n def) = n" by (simp_all add: renamed_def)
  show "xer_handler_of (renamed n def) = xer_handler_of def" "xer_value_list_element (renamed n def) = xer_value_list_element def"
    by (simp_all add: xer_handler_of_def xer_value_list_element_def)
qed

lemma xer_put_simps [simp]:
  "xer_put b (xer_put a w) = xer_put (a @ b) w" "xer_put [] w = w"
  "xw_depth (xer_put a w) = xw_depth w" "xw_calls (xer_put a w) = xw_calls w" "xw_failed (xer_put a w) = xw_failed w"
  "(xer_put a w)\<lparr>xw_depth := d\<rparr> = xer_put a (w\<lparr>xw_depth := d\<rparr>)"
  "(xer_put a w)\<lparr>xw_calls := k\<rparr> = xer_put a (w\<lparr>xw_calls := k\<rparr>)"
  by (simp_all add: xer_put_def)

text \<open>An object without elements in any SEQUENCE OF.\<close>

fun fresh :: "asn1_value \<Rightarrow> bool" where
  "fresh (V_SeqOf vs) \<longleftrightarrow> vs = []"
| "fresh (V_Sequence ms) \<longleftrightarrow> list_all (\<lambda>m. case m of None \<Rightarrow> True | Some v \<Rightarrow> fresh v) ms"
| "fresh (V_Choice p m) \<longleftrightarrow> (case m of None \<Rightarrow> True | Some v \<Rightarrow> fresh v)"
| "fresh _ \<longleftrightarrow> True"

text \<open>
  How the text of a value begins: with a tag that is not a closing one. But for a CHOICE
  it is the name of the element, and only \<open>NULL\<close> can be an empty element.
\<close>

definition xer_opens :: "bool \<Rightarrow> string \<Rightarrow> string \<Rightarrow> bool" where
  "xer_opens own name t \<longleftrightarrow> t \<noteq> [] \<and>
     (\<forall>pre s. blank pre \<longrightarrow>
        (let ti = peek_xer_tag (pre @ t @ s) in
         ti_name ti \<noteq> [] \<and> \<not> ti_closing ti \<and> (own \<longrightarrow> ti_name ti = name \<and> (name \<noteq> ''NULL'' \<longrightarrow> \<not> ti_self_closing ti))))"

lemma xer_opensD:
  assumes "xer_opens own name t" "blank pre"
  shows "ti_name (peek_xer_tag (pre @ t @ s)) \<noteq> []" "\<not> ti_closing (peek_xer_tag (pre @ t @ s))" "t \<noteq> []"
    "own \<Longrightarrow> ti_name (peek_xer_tag (pre @ t @ s)) = name"
    "own \<Longrightarrow> name \<noteq> ''NULL'' \<Longrightarrow> \<not> ti_self_closing (peek_xer_tag (pre @ t @ s))"
  using assms by (auto simp: xer_opens_def Let_def)

lemma xer_opens_tag: "good_name n \<Longrightarrow> xer_opens own n (open_tag n @ t)"
  using parse_tag_written(1) [of n]
  by (auto simp: xer_opens_def Let_def peek_xer_tag_def good_name_def) (simp add: open_tag_def)

lemma xer_opens_null: "xer_opens own ''NULL'' (empty_tag ''NULL'')"
  using parse_tag_written(3) [OF good_literals(3)]
  by (auto simp: xer_opens_def Let_def peek_xer_tag_def) (simp add: empty_tag_def)

lemma xer_opens_blank:
  assumes "xer_opens own n t" "blank p"
  shows "xer_opens own n (p @ t)"
  unfolding xer_opens_def Let_def
proof (intro conjI allI impI)
  fix pre s :: string
  assume "blank pre"
  then have "blank (pre @ p)" using assms(2) by simp
  note opens = xer_opensD(1,2,4,5) [OF assms(1) this, of s]
  show "ti_name (peek_xer_tag (pre @ (p @ t) @ s)) \<noteq> []" "\<not> ti_closing (peek_xer_tag (pre @ (p @ t) @ s))"
    using opens by simp_all
  show "own \<Longrightarrow> ti_name (peek_xer_tag (pre @ (p @ t) @ s)) = n" "own \<Longrightarrow> n \<noteq> ''NULL'' \<Longrightarrow> \<not> ti_self_closing (peek_xer_tag (pre @ (p @ t) @ s))"
    using opens by simp_all
qed (use assms in \<open>simp add: xer_opens_def\<close>)

lemma xer_opens_other: "xer_opens own n t \<Longrightarrow> xer_opens False m t"
  by (auto simp: xer_opens_def Let_def)

text \<open>The wrapper of a CHOICE that is the whole document.\<close>

definition wrapped :: "bool \<Rightarrow> type_desc \<Rightarrow> string \<Rightarrow> string \<Rightarrow> string" where
  "wrapped root def name t =
     (if root \<and> td_kind def = Choice then open_tag name @ t @ CHR 0x0A # close_tag name else t)"

lemma wrapped_nested [simp]: "wrapped False def name t = t" "td_kind def \<noteq> Choice \<Longrightarrow> wrapped root def name t = t"
  by (simp_all add: wrapped_def)

text \<open>
  The contract of one value: \<open>T d name\<close> is its text at depth \<open>d\<close> of the writer, without
  the line feed the encoder ends it with.
\<close>

definition xer_passes ::
    "type_env \<Rightarrow> nat \<Rightarrow> xer_encoder \<Rightarrow> xer_decoder \<Rightarrow> type_desc \<Rightarrow> asn1_value \<Rightarrow> (nat \<Rightarrow> string \<Rightarrow> string) \<Rightarrow> bool" where
  "xer_passes \<Gamma> k enc dec def v T \<longleftrightarrow>
     (\<forall>name w. enc (renamed name def) v w = xer_put (wrapped (xw_calls w = 0) def name (T (xw_depth w) name) @ [CHR 0x0A]) w) \<and>
     (\<forall>d name. good_name name \<longrightarrow> xer_opens (td_kind def \<noteq> Choice) name (T d name)) \<and>
     (\<forall>name d pre post dest r. good_name name \<longrightarrow> blank pre \<longrightarrow> shaped \<Gamma> def dest \<longrightarrow> fresh dest \<longrightarrow>
        xr_depth r + k \<le> kMaxDecodeDepth \<longrightarrow> xr_text r = pre @ wrapped (xr_depth r = 0) def name (T d name) @ post \<longrightarrow>
        dec (renamed name def) dest r = Inr (v, r\<lparr>xr_text := post\<rparr>))"

lemma xer_passesD:
  assumes "xer_passes \<Gamma> k enc dec def v T"
  shows "enc (renamed name def) v w = xer_put (wrapped (xw_calls w = 0) def name (T (xw_depth w) name) @ [CHR 0x0A]) w"
    "good_name name \<Longrightarrow> xer_opens (td_kind def \<noteq> Choice) name (T d name)"
    "good_name name \<Longrightarrow> blank pre \<Longrightarrow> shaped \<Gamma> def dest \<Longrightarrow> fresh dest \<Longrightarrow>
        xr_depth r + k \<le> kMaxDecodeDepth \<Longrightarrow> xr_text r = pre @ wrapped (xr_depth r = 0) def name (T d name) @ post \<Longrightarrow>
        dec (renamed name def) dest r = Inr (v, r\<lparr>xr_text := post\<rparr>)"
  using assms unfolding xer_passes_def by blast+

lemma xer_passes_mono: "xer_passes \<Gamma> k enc dec def v T \<Longrightarrow> k \<le> m \<Longrightarrow> xer_passes \<Gamma> m enc dec def v T"
  by (auto simp: xer_passes_def)

text \<open>One level of the codec with a unit of fuel each.\<close>

lemma xer_level_passes:
  assumes enc: "\<And>name w. 0 < xw_calls w \<Longrightarrow>
      xer_handler_encode (xer_encode_fuel ne \<Gamma>) \<Gamma> (renamed name def) v w = xer_put (T (xw_depth w) name @ [CHR 0x0A]) w"
    and opens: "\<And>d name. good_name name \<Longrightarrow> xer_opens (td_kind def \<noteq> Choice) name (T d name)"
    and k: "(if depth_counts def then Suc k else k) \<le> h"
    and dec: "\<And>name d pre post dest r. good_name name \<Longrightarrow> blank pre \<Longrightarrow> shaped \<Gamma> def dest \<Longrightarrow> fresh dest \<Longrightarrow>
        xr_depth r + k \<le> kMaxDecodeDepth \<Longrightarrow> (depth_counts def \<Longrightarrow> 0 < xr_depth r) \<Longrightarrow> xr_text r = pre @ T d name @ post \<Longrightarrow>
       xer_handler_decode (xer_decode_fuel nd \<Gamma>) \<Gamma> (renamed name def) dest r = Inr (v, r\<lparr>xr_text := post\<rparr>)"
  shows "xer_passes \<Gamma> h (xer_encode_fuel (Suc ne) \<Gamma>) (xer_decode_fuel (Suc nd) \<Gamma>) def v T"
  unfolding xer_passes_def
proof (intro conjI allI impI)
  show "xer_encode_fuel (Suc ne) \<Gamma> (renamed name def) v w = xer_put (wrapped (xw_calls w = 0) def name (T (xw_depth w) name) @ [CHR 0x0A]) w"
    for name w
    by (cases w) (auto simp: xer_codec_encode_def Let_def enc wrapped_def xer_put_def)
  show "good_name name \<Longrightarrow> xer_opens (td_kind def \<noteq> Choice) name (T d name)" for d name by (rule opens)
  fix name d pre post dest and r :: xer_reader
  assume a: "good_name name" "blank pre" "shaped \<Gamma> def dest" "fresh dest" "xr_depth r + h \<le> kMaxDecodeDepth"
    "xr_text r = pre @ wrapped (xr_depth r = 0) def name (T d name) @ post"
  let ?r = "if depth_counts def then r\<lparr>xr_depth := xr_depth r + 1\<rparr> else r"
  have r: "xr_depth ?r + k \<le> kMaxDecodeDepth" "depth_counts def \<Longrightarrow> 0 < xr_depth ?r" using a(5) k by (auto split: if_splits)
  have limit: "\<not> (depth_counts def \<and> xr_depth ?r > kMaxDecodeDepth)" using a(5) k by (auto split: if_splits)
  show "xer_decode_fuel (Suc nd) \<Gamma> (renamed name def) dest r = Inr (v, r\<lparr>xr_text := post\<rparr>)"
  proof (cases "xr_depth r = 0 \<and> td_kind def = Choice")
    case True
    then have c: "depth_counts def" by (simp add: depth_counts_def)
    let ?s = "T d name @ CHR 0x0A # close_tag name @ post"
    have "xr_text r = pre @ open_tag name @ ?s" using a(6) True by (simp add: wrapped_def)
    moreover have "xer_handler_decode (xer_decode_fuel nd \<Gamma>) \<Gamma> (renamed name def) dest (r\<lparr>xr_depth := 1, xr_text := ?s\<rparr>)
        = Inr (v, r\<lparr>xr_depth := 1, xr_text := CHR 0x0A # close_tag name @ post\<rparr>)"
      using dec [where name = name and dest = dest and r = "r\<lparr>xr_depth := 1, xr_text := ?s\<rparr>" and pre = "[]" and d = d and
          post = "CHR 0x0A # close_tag name @ post"] a r c True by simp
    moreover have "consume_close_tag name (CHR 0x0A # close_tag name @ post) = Inr post"
      using consume_written(2) [OF a(1), of "[CHR 0x0A]" post] by simp
    ultimately show ?thesis
      using True c limit by (simp add: xer_codec_decode_def Let_def consume_written(1) [OF a(1,2)])
  next
    case False
    then have "xr_text ?r = pre @ T d name @ post" using a(6) by (auto simp: wrapped_def)
    have "td_kind def = Choice \<Longrightarrow> depth_counts def" by (simp add: depth_counts_def)
    with dec [OF a(1-4) r \<open>xr_text ?r = _\<close>] limit False show ?thesis
      by (cases r) (auto simp: xer_codec_decode_def Let_def split: if_splits)
  qed
qed

lemma on_xer_text_back:
  "reads_element f t v \<Longrightarrow> blank pre \<Longrightarrow> xr_text r = pre @ t @ post \<Longrightarrow> on_xer_text f r = Inr (v, r\<lparr>xr_text := post\<rparr>)"
  by (simp add: on_xer_text_def reads_element_def)


definition leaf_body :: "type_desc \<Rightarrow> asn1_value \<Rightarrow> nat \<Rightarrow> string" where
  "leaf_body def v d = (case xer_leaf_body def v d of None \<Rightarrow> [] | Some t \<Rightarrow> t)"

lemma xer_leaf_flat: "xer_leaf_body def v d \<noteq> None \<Longrightarrow> \<not> depth_counts def"
  by (cases "td_kind def")
     (auto simp: xer_leaf_body_def xer_handler_of_def depth_counts_def split: asn1_value.splits)

lemma xer_leaf_opens:
  assumes "good_name name"
  shows "xer_opens own name (leaf_text def name body)"
  using xer_opens_tag [OF assms] xer_opens_null by (auto simp: leaf_text_def)

lemma xer_leaf_encode:
  assumes "xer_leaf_body def v 0 \<noteq> None"
  shows "xer_handler_encode codec \<Gamma> (renamed name def) v w
    = xer_put (leaf_text def name (leaf_body def v (xw_depth w)) @ [CHR 0x0A]) w"
proof -
  obtain h where h: "xer_handler_of def = Some h" using assms by (cases "xer_handler_of def") (auto simp: xer_leaf_body_def)
  show ?thesis
    using assms
    by (cases h; cases v)
       (auto simp: xer_leaf_body_def leaf_body_def leaf_text_def xer_handler_encode_def h xer_null_text_def xer_element_def
         xer_string_text_def xer_bit_string_text_def bits_body_def split: option.splits if_splits)
qed

lemma xer_leaf_decode:
  assumes "xer_leaf_body def v 0 \<noteq> None" "good_name name" "blank pre"
    "xr_text r = pre @ leaf_text def name (leaf_body def v d) @ post"
  shows "xer_handler_decode codec \<Gamma> (renamed name def) dest r = Inr (v, r\<lparr>xr_text := post\<rparr>)"
proof -
  obtain h where h: "xer_handler_of def = Some h" using assms by (cases "xer_handler_of def") (auto simp: xer_leaf_body_def)
  note elements = null_back [OF assms(2)] null_back(2) [OF good_literals(3)] boolean_back [OF assms(2)] text_back [OF assms(2)] octets_back [OF assms(2)]
    bit_string_back [OF assms(2)] enum_back(1) [OF assms(2)]
  note plain = plain_text_hex tidy_plain [OF tidy_nat] tidy_plain [OF tidy_int] tidy_plain [OF tidy_arcs]
  have hex: "reads_element (xer_hex_decode mk name) (open_tag name @ hex_encode_upper bs @ close_tag name) (mk bs)"
    and arcs: "reads_element (xer_oid_decode mk' name) (open_tag name @ format_arcs a @ close_tag name) (mk' a)"
    and str: "reads_element (xer_string_decode name) (open_tag name @ xer_escape (map char_of_byte s) @ close_tag name) (V_String s)"
    and wide: "wide_ok k s \<Longrightarrow> reads_element (xer_wide_decode k name)
        (open_tag name @ xer_escape (map char_of_byte (wide_to_utf8 k s)) @ close_tag name) (V_String s)"
    for mk mk' bs a s k
    by (simp_all add: xer_hex_decode_def [abs_def] xer_oid_decode_def [abs_def] xer_string_decode_def [abs_def] xer_wide_decode_def [abs_def]
        elements plain trim_tidy tidy_arcs utf8_to_wide_to_utf8 del: map_map)
  note on = on_xer_text_back [OF _ assms(3,4)]
  show ?thesis
    using assms(1) on
    by (cases h; cases v)
       (auto simp: xer_leaf_body_def leaf_body_def leaf_text_def xer_handler_decode_def h split: option.splits if_splits
         intro!: on elements hex arcs str wide integer_back plain)
qed

lemma xer_leaf_passes:
  assumes "xer_leaf_body def v 0 \<noteq> None"
  shows "xer_passes \<Gamma> k (xer_encode_fuel (Suc ne) \<Gamma>) (xer_decode_fuel (Suc nd) \<Gamma>) def v (\<lambda>d name. leaf_text def name (leaf_body def v d))"
proof (rule xer_level_passes [where k = k])
  show "xer_handler_encode (xer_encode_fuel ne \<Gamma>) \<Gamma> (renamed name def) v w
    = xer_put (leaf_text def name (leaf_body def v (xw_depth w)) @ [CHR 0x0A]) w" for name w
    by (rule xer_leaf_encode [OF assms])
  show "good_name name \<Longrightarrow> xer_opens (td_kind def \<noteq> Choice) name (leaf_text def name (leaf_body def v d))" for d name
    by (rule xer_leaf_opens)
  show "(if depth_counts def then Suc k else k) \<le> k" using xer_leaf_flat [OF assms] by simp
qed (rule xer_leaf_decode [OF assms])


section \<open>SEQUENCE OF and SET OF\<close>

text \<open>Elements with blanks around them.\<close>

type_synonym spaced_part = "string \<times> string \<times> string \<times> asn1_value"

definition spaced :: "spaced_part list \<Rightarrow> string" where
  "spaced ps = concat (map (\<lambda>(p, b, q, v). p @ b @ q) ps)"

lemma spaced_simps [simp]: "spaced [] = []" "spaced ((p, b, q, v) # ps) = p @ b @ q @ spaced ps"
  by (simp_all add: spaced_def)

definition element_passes :: "xer_decoder \<Rightarrow> type_desc \<Rightarrow> type_desc \<Rightarrow> nat \<Rightarrow> string \<Rightarrow> asn1_value \<Rightarrow> bool" where
  "element_passes dec edef named d b v \<longleftrightarrow> xer_opens False [] b \<and>
     (\<forall>pre post r. blank pre \<longrightarrow> xr_depth r = d \<longrightarrow> xr_text r = pre @ b @ post \<longrightarrow>
        xer_decode_element dec edef named (td_new edef) r = Inr (v, r\<lparr>xr_text := post\<rparr>))"

lemma element_passesD:
  assumes "element_passes dec edef named d b v" "blank pre"
  shows "xr_depth r = d \<Longrightarrow> xr_text r = pre @ b @ post \<Longrightarrow>
      xer_decode_element dec edef named (td_new edef) r = Inr (v, r\<lparr>xr_text := post\<rparr>)"
    "ti_name (peek_xer_tag (pre @ b @ s)) \<noteq> []" "\<not> ti_closing (peek_xer_tag (pre @ b @ s))"
  using assms xer_opensD(1,2) unfolding element_passes_def by blast+

lemma xer_decode_elements_spaced:
  assumes "good_name name"
  shows "\<forall>(p, b, q, v) \<in> set ps. blank p \<and> blank q \<and> element_passes dec edef named (xr_depth r) b v \<Longrightarrow>
    blank pre \<Longrightarrow> blank ind \<Longrightarrow> xr_text r = pre @ spaced ps @ ind @ close_tag name @ post \<Longrightarrow> length ps < n \<Longrightarrow>
    xer_decode_elements n dec name edef named seq (length seq) r
      = Inr (seq @ map (\<lambda>(p, b, q, v). v) ps, r\<lparr>xr_text := post\<rparr>)"
proof (induction ps arbitrary: pre n seq r)
  case Nil
  then obtain m where n: "n = Suc m" by (cases n) auto
  have "parse_tag ((pre @ ind) @ close_tag name @ post) = (\<lparr>ti_name = name, ti_closing = True, ti_self_closing = False\<rparr>, post)"
    using Nil.prems by (intro parse_tag_written(2) [OF assms]) simp
  then show ?case using Nil.prems by (simp add: n)
next
  case (Cons part ps)
  obtain p b q v where part: "part = (p, b, q, v)" by (metis prod_cases4)
  obtain m where n: "n = Suc m" "length ps < m" using Cons.prems(5) by (cases n) auto
  let ?rest = "q @ spaced ps @ ind @ close_tag name @ post"
  have b: "blank (pre @ p)" "element_passes dec edef named (xr_depth r) b v" "blank q"
    using Cons.prems(1,2) by (simp_all add: part)
  have layout: "xr_text r = (pre @ p) @ b @ ?rest" using Cons.prems(4) by (simp add: part)
  note elem = element_passesD [OF b(2,1)]
  have here: "xer_decode_element dec edef named (td_new edef) r = Inr (v, r\<lparr>xr_text := ?rest\<rparr>)"
    by (rule elem(1) [OF refl layout])
  have tag: "ti_name (fst (parse_tag (xr_text r))) \<noteq> []" "\<not> ti_closing (fst (parse_tag (xr_text r)))"
    unfolding layout using elem(2,3) [of ?rest] by (simp_all add: peek_xer_tag_def)
  have "xer_decode_elements m dec name edef named (seq @ [v]) (length (seq @ [v])) (r\<lparr>xr_text := ?rest\<rparr>)
      = Inr ((seq @ [v]) @ map (\<lambda>(p, b, q, v). v) ps, r\<lparr>xr_text := ?rest, xr_text := post\<rparr>)"
    using Cons.prems b(3) n(2) by (intro Cons.IH [of _ q]) (auto simp: part)
  then show ?case
    using tag here by (simp add: n(1) part Let_def split_beta seq_resize_def)
qed

text \<open>The layout of delimited elements.\<close>

fun element_parts :: "bool \<Rightarrow> string \<Rightarrow> (asn1_value \<Rightarrow> string) \<Rightarrow> bool \<Rightarrow> asn1_value list \<Rightarrow> spaced_part list" where
  "element_parts choice ind T first [] = []"
| "element_parts choice ind T first (v # vs) =
     ((if choice then [] else (if first then [CHR 0x0A] else []) @ ind), T v, [CHR 0x0A], v) # element_parts choice ind T False vs"

lemma element_parts_simps [simp]:
  "length (element_parts choice ind T first vs) = length vs" "map (\<lambda>(p, b, q, v). v) (element_parts choice ind T first vs) = vs"
  by (induction vs arbitrary: first) auto

lemma element_parts_all:
  "blank ind \<Longrightarrow> \<forall>v \<in> set vs. P (T v) v \<Longrightarrow> \<forall>(p, b, q, v) \<in> set (element_parts choice ind T first vs). blank p \<and> blank q \<and> P b v"
  by (induction vs arbitrary: first) auto

lemma xer_encode_elements_parts:
  assumes "\<And>v w. v \<in> set vs \<Longrightarrow> 0 < xw_calls w \<Longrightarrow> xw_depth w = Suc d \<Longrightarrow> enc edef v w = xer_put (T v @ [CHR 0x0A]) w"
  shows "0 < xw_calls w \<Longrightarrow> xw_depth w = d \<Longrightarrow>
    xer_encode_elements enc edef first vs w
      = xer_put (spaced (element_parts (td_choice_spec edef \<noteq> None) (indent_text (Suc d)) T first vs)) w"
  using assms
proof (induction vs arbitrary: first w)
  case (Cons v vs)
  let ?p = "if td_choice_spec edef \<noteq> None then [] else (if first then [CHR 0x0A] else []) @ indent_text (Suc d)"
  have same: "w\<lparr>xw_depth := d\<rparr> = w" using Cons.prems(2) by (cases w) simp
  have "xer_child enc edef v (xer_put ?p w) = xer_put (?p @ T v @ [CHR 0x0A]) w"
    using Cons.prems(3) [of v "xer_put ?p w\<lparr>xw_depth := Suc d\<rparr>"] Cons.prems(1,2) by (simp add: xer_child_def same)
  moreover have "xer_encode_elements enc edef False vs (xer_put t w)
      = xer_put (spaced (element_parts (td_choice_spec edef \<noteq> None) (indent_text (Suc d)) T False vs)) (xer_put t w)" for t
    using Cons.prems by (intro Cons.IH) auto
  ultimately show ?case using Cons.prems(2) by (auto split: if_splits)
qed simp

text \<open>The value lists: NULL, ENUMERATED and BOOLEAN.\<close>

definition list_item_ok :: "seq_of_spec \<Rightarrow> type_desc \<Rightarrow> asn1_value \<Rightarrow> bool" where
  "list_item_ok spec edef v \<longleftrightarrow>
     (if builtin_tag edef = universal UT_Null False then
        v = V_Null \<and> xer_handler_of edef = Some X_Null \<and> td_enum_spec edef = None \<and>
        sos_element_xer_tag spec = None \<and> good_name (td_name edef)
      else
        (case td_enum_spec edef of
           Some es \<Rightarrow> builtin_tag edef \<noteq> universal UT_Boolean False \<and> (\<exists>n. v = V_Enum n \<and> enum_named es n)
         | None \<Rightarrow> builtin_tag edef = universal UT_Boolean False \<and> (\<exists>b. v = V_Boolean b)))"

lemma list_item_passes:
  assumes "list_item_ok spec (\<Gamma> (sos_element spec)) v"
  shows "element_passes (xer_decode_fuel (Suc nd) \<Gamma>) (\<Gamma> (sos_element spec)) (element_desc \<Gamma> spec) d
    (value_list_item (\<Gamma> (sos_element spec)) v) v"
proof -
  let ?edef = "\<Gamma> (sos_element spec)"
  consider (null) "builtin_tag ?edef = universal UT_Null False"
    | (enum) es n where "builtin_tag ?edef \<noteq> universal UT_Null False" "builtin_tag ?edef \<noteq> universal UT_Boolean False"
        "td_enum_spec ?edef = Some es" "v = V_Enum n" "enum_named es n"
    | (bool) b where "builtin_tag ?edef = universal UT_Boolean False" "td_enum_spec ?edef = None" "v = V_Boolean b"
    using assms by (auto simp: list_item_ok_def split: if_splits option.splits)
  then show ?thesis
  proof cases
    case null
    then have ok: "v = V_Null" "xer_handler_of ?edef = Some X_Null" "td_enum_spec ?edef = None"
      "sos_element_xer_tag spec = None" "good_name (td_name ?edef)" "builtin_tag ?edef \<noteq> universal UT_Boolean False"
      using assms by (simp_all add: list_item_ok_def) (simp_all add: universal_def)
    have flat: "\<not> depth_counts ?edef" "td_kind ?edef \<noteq> Choice"
      using ok(2) by (cases "td_kind ?edef"; simp add: xer_handler_of_def depth_counts_def)+
    have "xer_decode_fuel (Suc nd) \<Gamma> ?edef dest r = Inr (V_Null, r\<lparr>xr_text := post\<rparr>)"
      if "blank pre" "xr_text r = pre @ empty_tag (td_name ?edef) @ post" for dest r pre post
    proof -
      have "on_xer_text (xer_null_decode (td_name ?edef)) r = Inr (V_Null, r\<lparr>xr_text := post\<rparr>)"
        by (rule on_xer_text_back [OF null_back(2) [OF ok(5)] that])
      then show ?thesis using flat by (simp add: xer_codec_decode_def Let_def xer_handler_decode_def ok(2))
    qed
    moreover have "xer_opens False [] (empty_tag (td_name ?edef))"
      using parse_tag_written(3) [OF ok(5)] ok(5) by (auto simp: xer_opens_def peek_xer_tag_def Let_def good_name_def) (simp add: empty_tag_def)
    ultimately show ?thesis
      using null ok by (auto simp: element_passes_def value_list_item_def xer_decode_element_def Let_def element_desc_def)
  next
    case enum
    obtain m where m: "enum_text es n = empty_tag m" "good_name m" using enum_back(3) [OF good_literals(3) enum(5)] by blast
    have "xer_opens False [] (empty_tag m)"
      using parse_tag_written(3) [OF m(2)] m(2) by (auto simp: xer_opens_def peek_xer_tag_def Let_def good_name_def) (simp add: empty_tag_def)
    then show ?thesis
      using enum on_xer_text_back [OF enum_back(2) [OF good_literals(3) enum(5)]] m(1)
      by (auto simp: element_passes_def value_list_item_def xer_decode_element_def Let_def)
  next
    case bool
    have tag: "good_name (if b then ''true'' else ''false'')" using good_literals by simp
    have layout: "boolean_text b = empty_tag (if b then ''true'' else ''false'')" by (simp add: boolean_text_def)
    have "xer_opens False [] (boolean_text b)" unfolding layout
      using parse_tag_written(3) [OF tag] tag by (auto simp: xer_opens_def peek_xer_tag_def Let_def good_name_def) (simp_all add: empty_tag_def)
    moreover have "reads_element bare_boolean (boolean_text b) (V_Boolean b)" unfolding layout
      using parse_tag_written(3) [OF tag] by (intro reads_elementI) (simp add: bare_boolean_def)
    moreover have "ti_name (peek_xer_tag (pre @ boolean_text b @ s)) = (if b then ''true'' else ''false'')" if "blank pre" for pre s
      unfolding layout peek_xer_tag_def using parse_tag_written(3) [OF tag that] by simp
    moreover have "builtin_tag ?edef \<noteq> universal UT_Null False" using bool(1) by (simp add: universal_def)
    ultimately show ?thesis
      using bool on_xer_text_back [of bare_boolean "boolean_text b" "V_Boolean b"]
      by (auto simp: element_passes_def value_list_item_def xer_decode_element_def Let_def)
  qed
qed


lemma length_spaced:
  "\<forall>(p, b, q, v) \<in> set ps. b \<noteq> [] \<Longrightarrow> length ps \<le> length (spaced ps)"
proof (induction ps)
  case (Cons part ps)
  obtain p b q v where part: "part = (p, b, q, v)" by (metis prod_cases4)
  have "1 \<le> length b" using Cons.prems by (cases b) (auto simp: part)
  then show ?case using Cons by (simp add: part)
qed simp

lemma xer_seqof_restored:
  assumes "good_name name" "td_seq_of_spec def = Some spec" "blank pre" "blank ind"
    and parts: "\<forall>(p, b, q, v) \<in> set ps. blank p \<and> blank q \<and> element_passes dec (\<Gamma> (sos_element spec)) (element_desc \<Gamma> spec) (xr_depth r) b v"
    and layout: "xr_text r = pre @ open_tag name @ spaced ps @ ind @ close_tag name @ post"
  shows "xer_seqof_decode dec \<Gamma> (renamed name def) (V_SeqOf []) r = Inr (V_SeqOf (map (\<lambda>(p, b, q, v). v) ps), r\<lparr>xr_text := post\<rparr>)"
proof -
  let ?s = "spaced ps @ ind @ close_tag name @ post"
  have "\<forall>(p, b, q, v) \<in> set ps. b \<noteq> []" using parts by (auto simp: element_passes_def xer_opens_def)
  then have "length ps < Suc (length ?s)" using length_spaced [of ps] by simp
  then have "xer_decode_elements (Suc (length ?s)) dec name (\<Gamma> (sos_element spec)) (element_desc \<Gamma> spec) [] (length ([] :: asn1_value list))
      (r\<lparr>xr_text := ?s\<rparr>) = Inr ([] @ map (\<lambda>(p, b, q, v). v) ps, r\<lparr>xr_text := ?s, xr_text := post\<rparr>)"
    using parts assms(4) by (intro xer_decode_elements_spaced [OF assms(1), where pre = "[]"]) auto
  then show ?thesis
    unfolding xer_seqof_decode_def by (simp add: assms(2) layout parse_tag_written(1) [OF assms(1,3)] del: xer_decode_elements.simps)
qed

section \<open>Members and alternatives\<close>

definition xer_kind_ok :: "type_desc \<Rightarrow> bool" where
  "xer_kind_ok def \<longleftrightarrow> kinds_ok def \<and> (td_choice_spec def \<noteq> None \<longleftrightarrow> td_kind def = Choice)"

definition member_text :: "type_desc \<Rightarrow> nat \<Rightarrow> string \<Rightarrow> (nat \<Rightarrow> string \<Rightarrow> string) \<Rightarrow> string" where
  "member_text def d n T =
     (if td_kind def = Choice then open_tag n @ T (Suc d) n @ CHR 0x0A # indent_text (Suc d) @ close_tag n else T (Suc d) n)"

lemma member_encoded:
  assumes "xer_passes \<Gamma> k enc dec def v T" "xer_kind_ok def" "0 < xw_calls w"
  shows "xer_encode_member enc n (renamed n def) v w
    = xer_put (indent_text (Suc (xw_depth w)) @ member_text def (xw_depth w) n T @ [CHR 0x0A]) w"
proof -
  have "xer_child enc (renamed n def) v (xer_put t w) = xer_put (t @ T (Suc (xw_depth w)) n @ [CHR 0x0A]) w" for t
    using xer_passesD(1) [OF assms(1)] assms(3) by (simp add: xer_child_def)
  then show ?thesis using assms(2) by (auto simp: xer_encode_member_def Let_def member_text_def xer_kind_ok_def)
qed

lemma member_opens:
  assumes "xer_passes \<Gamma> k enc dec def v T" "good_name n"
  shows "xer_opens True n (member_text def d n T)"
  using xer_passesD(2) [OF assms] xer_opens_tag [OF assms(2), of True] by (auto simp: member_text_def)

lemma member_restored:
  assumes "xer_passes \<Gamma> k enc dec def v T" "xer_kind_ok def" "good_name n" "blank pre" "shaped \<Gamma> def dest" "fresh dest"
    "0 < xr_depth r" "xr_depth r + k \<le> kMaxDecodeDepth" "xr_text r = pre @ member_text def d n T @ post"
  shows "xer_decode_member dec n (renamed n def) dest r = Inr (v, r\<lparr>xr_text := post\<rparr>)"
proof (cases "td_kind def = Choice")
  case True
  let ?s = "CHR 0x0A # indent_text (Suc d) @ close_tag n @ post"
  have "xr_text r = pre @ open_tag n @ T (Suc d) n @ ?s" using assms(9) True by (simp add: member_text_def)
  moreover have "dec (renamed n def) dest (r\<lparr>xr_text := T (Suc d) n @ ?s\<rparr>) = Inr (v, r\<lparr>xr_text := T (Suc d) n @ ?s, xr_text := ?s\<rparr>)"
    using assms(5-8) by (intro xer_passesD(3) [OF assms(1,3), of "[]"]) auto
  moreover have "consume_close_tag n ?s = Inr post"
    using consume_written(2) [OF assms(3), of "CHR 0x0A # indent_text (Suc d)" post] by simp
  ultimately show ?thesis
    using True assms(2) by (simp add: xer_decode_member_def xer_kind_ok_def consume_written(1) [OF assms(3,4)])
next
  case False
  have "dec (renamed n def) dest r = Inr (v, r\<lparr>xr_text := post\<rparr>)"
    using assms(4-9) False by (intro xer_passesD(3) [OF assms(1,3)]) (auto simp: member_text_def)
  then show ?thesis using False assms(2) by (simp add: xer_decode_member_def xer_kind_ok_def)
qed

section \<open>SEQUENCE and SET\<close>

definition xer_names_ok :: "member list \<Rightarrow> bool" where
  "xer_names_ok mbrs \<longleftrightarrow> distinct (map m_name mbrs) \<and> list_all (\<lambda>mbr. good_name (m_name mbr) \<and> m_name mbr \<noteq> ''NULL'') mbrs"

definition xer_rows_ok :: "sequence_spec \<Rightarrow> asn1_value option list \<Rightarrow> bool" where
  "xer_rows_ok spec src \<longleftrightarrow> length src = length (ss_members spec) \<and> xer_names_ok (ss_members spec) \<and>
     (\<forall>i < length src. jer_row_ok spec src i)"

definition xer_rows_pass ::
    "type_env \<Rightarrow> nat \<Rightarrow> xer_encoder \<Rightarrow> xer_decoder \<Rightarrow> sequence_spec \<Rightarrow> asn1_value option list \<Rightarrow> (nat \<Rightarrow> nat \<Rightarrow> string \<Rightarrow> string) \<Rightarrow> bool" where
  "xer_rows_pass \<Gamma> k enc dec spec src T \<longleftrightarrow>
     (\<forall>i v. i < length src \<longrightarrow> src ! i = Some v \<longrightarrow>
        (\<exists>t. m_type (ss_members spec ! i) = Some t \<and> xer_kind_ok (\<Gamma> t) \<and> xer_passes \<Gamma> k enc dec (\<Gamma> t) v (T i)))"

fun rows_text ::
    "type_env \<Rightarrow> (nat \<Rightarrow> nat \<Rightarrow> string \<Rightarrow> string) \<Rightarrow> asn1_value option list \<Rightarrow> nat \<Rightarrow> nat \<Rightarrow> member list \<Rightarrow> string" where
  "rows_text \<Gamma> T src d i [] = []"
| "rows_text \<Gamma> T src d i (mbr # mbrs) =
     (case (src ! i, m_type mbr) of
        (Some v, Some t) \<Rightarrow> indent_text (Suc d) @ member_text (\<Gamma> t) d (m_name mbr) (T i) @ [CHR 0x0A]
      | _ \<Rightarrow> []) @ rows_text \<Gamma> T src d (Suc i) mbrs"

lemma xer_encode_members_text:
  assumes "xer_rows_ok spec src" "xer_rows_pass \<Gamma> k enc dec spec src T"
  shows "mbrs = drop i (ss_members spec) \<Longrightarrow> i \<le> length src \<Longrightarrow> 0 < xw_calls w \<Longrightarrow>
    xer_encode_members enc \<Gamma> src i mbrs w = xer_put (rows_text \<Gamma> T src (xw_depth w) i mbrs) w"
proof (induction mbrs arbitrary: i w)
  case (Cons mbr mbrs)
  have i: "i < length src" "ss_members spec ! i = mbr" "mbrs = drop (Suc i) (ss_members spec)"
    using drop_eq_Cons [OF Cons.prems(1) [symmetric]] assms(1) by (auto simp: xer_rows_ok_def)
  have ok: "jer_row_ok spec src i" using assms(1) i(1) by (simp add: xer_rows_ok_def)
  have rest: "xer_encode_members enc \<Gamma> src (Suc i) mbrs (xer_put t w) = xer_put (t @ rows_text \<Gamma> T src (xw_depth w) (Suc i) mbrs) w" for t
    using Cons.IH [of "Suc i" "xer_put t w"] i Cons.prems(3) by simp
  show ?case
  proof (cases "src ! i")
    case None
    then have "m_type mbr = None \<or> (m_optional mbr \<and> \<not> is_present mbr src i)"
      using ok i by (auto simp: jer_row_ok_def Let_def is_present_def member_ptr_def split: if_splits)
    then show ?thesis using rest [of "[]"] None by (auto split: option.splits)
  next
    case (Some v)
    obtain t where t: "m_type mbr = Some t" "xer_kind_ok (\<Gamma> t)" "xer_passes \<Gamma> k enc dec (\<Gamma> t) v (T i)"
      using assms(2) i Some by (auto simp: xer_rows_pass_def)
    have "m_optional mbr \<Longrightarrow> is_present mbr src i" "member_ptr src i = Some v"
      using ok i Some t(1) by (auto simp: jer_row_ok_def Let_def is_present_def member_ptr_def)
    then show ?thesis using rest Some t(1) member_encoded [OF t(3,2) Cons.prems(3)] by auto
  qed
qed simp

text \<open>The tag in front of the rows that follow is none of an earlier row.\<close>

lemma peek_rows:
  assumes "xer_rows_pass \<Gamma> k enc dec spec src T" "length src = length (ss_members spec)" "good_name name"
  shows "mbrs = drop i (ss_members spec) \<Longrightarrow> list_all (\<lambda>mbr. good_name (m_name mbr) \<and> m_name mbr \<noteq> n) mbrs \<Longrightarrow> blank pre \<Longrightarrow> blank ind \<Longrightarrow>
    ti_name (peek_xer_tag (pre @ rows_text \<Gamma> T src d i mbrs @ ind @ close_tag name @ post)) \<noteq> n \<or>
    ti_closing (peek_xer_tag (pre @ rows_text \<Gamma> T src d i mbrs @ ind @ close_tag name @ post))"
proof (induction mbrs arbitrary: i)
  case Nil
  have "parse_tag ((pre @ ind) @ close_tag name @ post) = (\<lparr>ti_name = name, ti_closing = True, ti_self_closing = False\<rparr>, post)"
    using Nil by (intro parse_tag_written(2) [OF assms(3)]) simp
  then show ?case by (simp add: peek_xer_tag_def)
next
  case (Cons mbr mbrs)
  have i: "i < length src" "ss_members spec ! i = mbr" "mbrs = drop (Suc i) (ss_members spec)"
    using drop_eq_Cons [OF Cons.prems(1) [symmetric]] assms(2) by auto
  show ?case
  proof (cases "src ! i")
    case None
    then show ?thesis using Cons.IH [OF i(3)] Cons.prems(2-4) by simp
  next
    case (Some v)
    obtain t where t: "m_type mbr = Some t" "xer_passes \<Gamma> k enc dec (\<Gamma> t) v (T i)"
      using assms(1) i Some by (auto simp: xer_rows_pass_def)
    have "xer_opens True (m_name mbr) (indent_text (Suc d) @ member_text (\<Gamma> t) d (m_name mbr) (T i))"
      using Cons.prems(2) by (intro xer_opens_blank member_opens [OF t(2)]) auto
    from xer_opensD(4) [OF this Cons.prems(3), of "[CHR 0x0A] @ rows_text \<Gamma> T src d (Suc i) mbrs @ ind @ close_tag name @ post"]
    show ?thesis using Cons.prems(2) by (simp add: Some t(1))
  qed
qed

lemma fresh_row: "list_all (\<lambda>m. case m of None \<Rightarrow> True | Some v \<Rightarrow> fresh v) ms \<Longrightarrow> i < length ms \<Longrightarrow> ms ! i = Some v \<Longrightarrow> fresh v"
  by (auto simp: list_all_length split: option.splits)


lemma xer_decode_members_text:
  assumes ok: "xer_rows_ok spec src" and pass: "xer_rows_pass \<Gamma> k enc dec spec src T"
    and env: "env_wf \<Gamma>" "\<And>t. fresh (td_new (\<Gamma> t))" and rows: "rows_ok \<Gamma> spec ms"
    and new: "list_all (\<lambda>m. case m of None \<Rightarrow> True | Some v \<Rightarrow> fresh v) ms"
    and name: "good_name name" and ind: "blank ind"
  shows "mbrs = drop i (ss_members spec) \<Longrightarrow> i \<le> length src \<Longrightarrow> blank pre \<Longrightarrow> 0 < xr_depth r \<Longrightarrow> xr_depth r + k \<le> kMaxDecodeDepth \<Longrightarrow>
    xr_text r = pre @ rows_text \<Gamma> T src d i mbrs @ ind @ close_tag name @ post \<Longrightarrow>
    \<exists>p. blank p \<and> xer_decode_members dec \<Gamma> i mbrs (take i src @ drop i ms) r = Inr (src, r\<lparr>xr_text := p @ close_tag name @ post\<rparr>)"
proof (induction mbrs arbitrary: i pre r)
  case Nil
  have "i = length src" using Nil ok by (simp add: xer_rows_ok_def)
  then show ?case
    using Nil rows ok ind by (intro exI [of _ "pre @ ind"]) (simp add: rows_ok_def xer_rows_ok_def)
next
  case (Cons mbr mbrs)
  let ?all = "ss_members spec"
  let ?tail = "rows_text \<Gamma> T src d (Suc i) mbrs @ ind @ close_tag name @ post"
  have len: "length src = length ?all" "length ms = length ?all" using ok rows by (simp_all add: xer_rows_ok_def rows_ok_def)
  have i: "i < length src" "?all ! i = mbr" "mbrs = drop (Suc i) ?all"
    using drop_eq_Cons [OF Cons.prems(1) [symmetric]] len by auto
  have row: "jer_row_ok spec src i" using ok i(1) by (simp add: xer_rows_ok_def)
  have names: "good_name (m_name mbr)" "m_name mbr \<noteq> ''NULL''" "list_all (\<lambda>m. good_name (m_name m) \<and> m_name m \<noteq> m_name mbr) mbrs"
  proof -
    have d: "distinct (map m_name ?all)" "list_all (\<lambda>m. good_name (m_name m) \<and> m_name m \<noteq> ''NULL'') ?all"
      using ok by (simp_all add: xer_rows_ok_def xer_names_ok_def)
    then show "good_name (m_name mbr)" "m_name mbr \<noteq> ''NULL''" using i len by (auto simp: list_all_length)
    have "distinct (map m_name (mbr # mbrs))" using d(1) Cons.prems(1) by (metis distinct_drop drop_map)
    moreover have "list_all (\<lambda>m. good_name (m_name m)) mbrs"
      using d(2) i(3) by (auto simp: list_all_iff dest: in_set_dropD)
    ultimately show "list_all (\<lambda>m. good_name (m_name m) \<and> m_name m \<noteq> m_name mbr) mbrs"
      by (auto simp: list_all_iff) (metis imageI)
  qed
  let ?cur = "take i src @ drop i ms"
  have cur: "length ?cur = length ?all" "?cur ! i = ms ! i" "?cur[i := x] = take i src @ x # drop (Suc i) ms" for x
    using i(1) len by (simp_all add: nth_append list_update_append Cons_nth_drop_Suc [of i ms, symmetric])
  show ?case
  proof (cases "src ! i")
    case None
    have tail: "xr_text r = pre @ ?tail" using Cons.prems(6) None by simp
    have "\<exists>p. blank p \<and> xer_decode_members dec \<Gamma> (Suc i) mbrs (take (Suc i) src @ drop (Suc i) ms) r
        = Inr (src, r\<lparr>xr_text := p @ close_tag name @ post\<rparr>)"
      using i Cons.prems tail by (intro Cons.IH) auto
    moreover have step: "take (Suc i) src @ drop (Suc i) ms = take i src @ None # drop (Suc i) ms"
      using None i(1) by (simp add: take_Suc_conv_app_nth)
    moreover have "xer_decode_members dec \<Gamma> i (mbr # mbrs) ?cur r
        = xer_decode_members dec \<Gamma> (Suc i) mbrs (take i src @ None # drop (Suc i) ms) r"
    proof (cases "m_type mbr")
      case type: None
      then have "ms ! i = None" using rows i len by (auto simp: rows_ok_def split: option.splits)
      then have "?cur = take i src @ None # drop (Suc i) ms" using i(1) len by (simp add: Cons_nth_drop_Suc [of i ms, symmetric])
      then show ?thesis by (simp add: type)
    next
      case (Some t)
      have opt: "m_optional mbr" "m_has_ops mbr"
        using row i(2) \<open>src ! i = None\<close> Some by (auto simp: jer_row_ok_def Let_def split: if_splits)
      have "ti_name (peek_xer_tag (xr_text r)) \<noteq> m_name mbr \<or> ti_closing (peek_xer_tag (xr_text r))"
        unfolding tail by (rule peek_rows [OF pass len(1) name i(3) names(3) Cons.prems(3) ind])
      moreover have "set_present \<Gamma> mbr i False ?cur = take i src @ None # drop (Suc i) ms"
        using opt cur(3) [of None] by (simp add: set_present_def)
      ultimately show ?thesis using Some opt by (auto simp: Let_def)
    qed
    ultimately show ?thesis by simp
  next
    case (Some v)
    obtain t where t: "m_type mbr = Some t" "xer_kind_ok (\<Gamma> t)" "xer_passes \<Gamma> k enc dec (\<Gamma> t) v (T i)"
      using pass i Some by (auto simp: xer_rows_pass_def)
    let ?b = "member_text (\<Gamma> t) d (m_name mbr) (T i)" and ?pre = "pre @ indent_text (Suc d)"
    have layout: "xr_text r = ?pre @ ?b @ CHR 0x0A # ?tail" using Cons.prems(6) Some t(1) by simp
    have pre: "blank ?pre" using Cons.prems(3) by simp
    note peek = xer_opensD(4,5) [OF member_opens [OF t(3) names(1)] pre TrueI, of d "CHR 0x0A # ?tail"]
      xer_opensD(2) [OF member_opens [OF t(3) names(1)] pre, of d "CHR 0x0A # ?tail"]
    have present: "ti_name (peek_xer_tag (xr_text r)) = m_name mbr" "\<not> ti_closing (peek_xer_tag (xr_text r))"
      "\<not> ti_self_closing (peek_xer_tag (xr_text r))"
      unfolding layout using peek names(2) by simp_all
    obtain x where x: "member_ptr (if m_optional mbr then set_present \<Gamma> mbr i True ?cur else ?cur) i = Some x"
      "shaped \<Gamma> (\<Gamma> t) x" "fresh x"
      "(if m_optional mbr then set_present \<Gamma> mbr i True ?cur else ?cur)[i := Some v] = take (Suc i) src @ drop (Suc i) ms"
    proof -
      have step: "?cur[i := Some v] = take (Suc i) src @ drop (Suc i) ms"
        using cur(3) [of "Some v"] i(1) Some by (simp add: take_Suc_conv_app_nth)
      show ?thesis
      proof (cases "ms ! i")
        case none: None
        then have "m_optional mbr" "m_has_ops mbr"
          using row rows i len t(1) by (auto simp: jer_row_ok_def rows_ok_def nullable_def Let_def split: if_splits option.splits)
        then have "set_present \<Gamma> mbr i True ?cur = ?cur[i := Some (td_new (\<Gamma> t))]"
          using t(1) i(1) len cur(1,2) none by (simp add: set_present_def member_ptr_def)
        then show ?thesis
          using that [of "td_new (\<Gamma> t)"] \<open>m_optional mbr\<close> env cur(1) i(1) len step by (simp add: member_ptr_def env_wf_def)
      next
        case some: (Some x)
        have "shaped \<Gamma> (\<Gamma> t) x" using rows i t(1) len some by (auto simp: rows_ok_def split: option.splits)
        moreover have "fresh x" using fresh_row [OF new] i(1) len some by simp
        moreover have "member_ptr ?cur i = Some x" using some cur(1,2) i(1) len by (simp add: member_ptr_def)
        moreover from this have "set_present \<Gamma> mbr i True ?cur = ?cur" by (simp add: set_present_def split: option.split)
        ultimately show ?thesis using that [of x] step by simp
      qed
    qed
    let ?r = "r\<lparr>xr_text := CHR 0x0A # ?tail\<rparr>"
    have val: "xer_decode_member dec (m_name mbr) (renamed (m_name mbr) (\<Gamma> t)) x r = Inr (v, ?r)"
      by (rule member_restored [OF t(3,2) names(1) pre x(2,3) Cons.prems(4,5) layout])
    have "xer_decode_members dec \<Gamma> i (mbr # mbrs) ?cur r
        = xer_decode_members dec \<Gamma> (Suc i) mbrs (take (Suc i) src @ drop (Suc i) ms) ?r"
      using x(1,4) by (cases "m_optional mbr") (simp_all add: t(1) present val Let_def)
    moreover have "\<exists>p. blank p \<and> xer_decode_members dec \<Gamma> (Suc i) mbrs (take (Suc i) src @ drop (Suc i) ms) ?r
        = Inr (src, ?r\<lparr>xr_text := p @ close_tag name @ post\<rparr>)"
      using i Cons.prems(4,5) by (intro Cons.IH [where pre = "[CHR 0x0A]"]) auto
    ultimately show ?thesis by simp
  qed
qed

lemma any_member_row:
  assumes "xer_rows_ok spec src"
  shows "any_member_present spec src \<longleftrightarrow> (\<exists>i < length src. m_type (ss_members spec ! i) \<noteq> None \<and> src ! i \<noteq> None)"
proof -
  have "m_optional (ss_members spec ! i) \<and> \<not> is_present (ss_members spec ! i) src i \<longleftrightarrow> src ! i = None"
    if "i < length src" "m_type (ss_members spec ! i) \<noteq> None" for i
    using assms that by (auto simp: xer_rows_ok_def jer_row_ok_def Let_def is_present_def member_ptr_def split: if_splits)
  moreover have "length src = length (ss_members spec)" using assms by (simp add: xer_rows_ok_def)
  moreover have "any_member_present spec src \<longleftrightarrow> (\<exists>i < length (ss_members spec). m_type (ss_members spec ! i) \<noteq> None \<and>
      \<not> (m_optional (ss_members spec ! i) \<and> \<not> is_present (ss_members spec ! i) src i))"
    by (simp add: any_member_present_def list_ex_length nth_enumerate_eq cong: conj_cong)
  ultimately show ?thesis by metis
qed

lemma rows_text_absent:
  "\<forall>j < length mbrs. m_type (mbrs ! j) = None \<or> src ! (i + j) = None \<Longrightarrow> rows_text \<Gamma> T src d i mbrs = []"
proof (induction mbrs arbitrary: i)
  case (Cons mbr mbrs)
  have "m_type (mbrs ! j) = None \<or> src ! (Suc i + j) = None" if "j < length mbrs" for j
    using Cons.prems [rule_format, of "Suc j"] that by simp
  then have "rows_text \<Gamma> T src d (Suc i) mbrs = []" by (intro Cons.IH) blast
  then show ?case using Cons.prems [rule_format, of 0] by (auto split: option.splits)
qed simp


text \<open>The text of a SEQUENCE, with no member in it and with some.\<close>

definition sequence_text ::
    "type_env \<Rightarrow> sequence_spec \<Rightarrow> (nat \<Rightarrow> nat \<Rightarrow> string \<Rightarrow> string) \<Rightarrow> asn1_value option list \<Rightarrow> nat \<Rightarrow> string \<Rightarrow> string" where
  "sequence_text \<Gamma> spec T src d name =
     open_tag name @ (if any_member_present spec src then CHR 0x0A # rows_text \<Gamma> T src d 0 (ss_members spec) @ indent_text d else []) @
     close_tag name"

lemma xer_sequence_encoded:
  assumes "xer_rows_ok spec src" "xer_rows_pass \<Gamma> k enc dec spec src T" "td_sequence_spec def = Some spec" "0 < xw_calls w"
  shows "xer_sequence_encode enc \<Gamma> (renamed name def) src w = xer_put (sequence_text \<Gamma> spec T src (xw_depth w) name @ [CHR 0x0A]) w"
  using xer_encode_members_text [OF assms(1,2), of "ss_members spec" 0 "xer_put (open_tag name @ [CHR 0x0A]) w"] assms(4)
  by (simp add: xer_sequence_encode_def assms(3) sequence_text_def xer_element_def)

lemma xer_sequence_restored:
  assumes "xer_rows_ok spec src" "xer_rows_pass \<Gamma> k enc dec spec src T" "env_wf \<Gamma>" "\<And>t. fresh (td_new (\<Gamma> t))"
    "good_name name" "blank pre" "0 < xr_depth r" "xr_depth r + k \<le> kMaxDecodeDepth"
    "td_per_handler def = Some H_Sequence" "td_sequence_spec def = Some spec" "shaped \<Gamma> def dest" "fresh dest"
    and layout: "xr_text r = pre @ sequence_text \<Gamma> spec T src d name @ post"
  shows "xer_sequence_decode dec \<Gamma> (renamed name def) dest r = Inr (V_Sequence src, r\<lparr>xr_text := post\<rparr>)"
proof -
  obtain ms where ms: "dest = V_Sequence ms" "rows_ok \<Gamma> spec ms" using assms(9-11) by (auto simp: shaped_sequence_iff)
  have new: "list_all (\<lambda>m. case m of None \<Rightarrow> True | Some v \<Rightarrow> fresh v) ms" using assms(12) ms(1) by simp
  let ?some = "any_member_present spec src" and ?mbrs = "ss_members spec"
  let ?rows = "rows_text \<Gamma> T src d 0 ?mbrs"
  define q where "q = (if ?some then [CHR 0x0A] else [])"
  define ind where "ind = (if ?some then indent_text d else [])"
  have "length src = length ?mbrs" using assms(1) by (simp add: xer_rows_ok_def)
  then have "\<not> ?some \<Longrightarrow> ?rows = []"
    using any_member_row [OF assms(1)] by (intro rows_text_absent) auto
  then have l: "xr_text r = pre @ open_tag name @ q @ ?rows @ ind @ close_tag name @ post"
    using layout by (auto simp: sequence_text_def q_def ind_def)
  have b: "blank q" "blank ind" by (simp_all add: q_def ind_def)
  let ?r = "r\<lparr>xr_text := q @ ?rows @ ind @ close_tag name @ post\<rparr>"
  obtain p where p: "blank p" "xer_decode_members dec \<Gamma> 0 ?mbrs (take 0 src @ drop 0 ms) ?r = Inr (src, ?r\<lparr>xr_text := p @ close_tag name @ post\<rparr>)"
    using xer_decode_members_text [OF assms(1-4) ms(2) new assms(5) b(2), of ?mbrs 0 q ?r d post] b(1) assms(7,8) by auto
  then show ?thesis
    by (simp add: xer_sequence_decode_def assms(10) ms(1) l parse_tag_written(1) [OF assms(5,6)] parse_tag_written(2) [OF assms(5) p(1)])
qed

section \<open>The codec\<close>

definition element_name :: "type_env \<Rightarrow> seq_of_spec \<Rightarrow> string" where
  "element_name \<Gamma> spec = (case sos_element_xer_tag spec of None \<Rightarrow> td_name (\<Gamma> (sos_element spec)) | Some n \<Rightarrow> n)"

lemma element_desc_renamed: "element_desc \<Gamma> spec = renamed (element_name \<Gamma> spec) (\<Gamma> (sos_element spec))"
  by (simp add: element_desc_def element_name_def split: option.split)

text \<open>What is promised of the tables beside \<open>env_wf\<close>.\<close>

definition xer_env_ok :: "type_env \<Rightarrow> bool" where
  "xer_env_ok \<Gamma> \<longleftrightarrow> env_wf \<Gamma> \<and> (\<forall>t. xer_kind_ok (\<Gamma> t) \<and> fresh (td_new (\<Gamma> t)))"

inductive xer_sendable :: "type_env \<Rightarrow> type_desc \<Rightarrow> asn1_value \<Rightarrow> bool" for \<Gamma> where
  xer_leaf: "xer_leaf_body def v 0 \<noteq> None \<Longrightarrow> xer_sendable \<Gamma> def v"
| xer_value_list: "td_kind def = SeqOf \<Longrightarrow> td_seq_of_spec def = Some spec \<Longrightarrow> xer_value_list_element (\<Gamma> (sos_element spec)) \<Longrightarrow>
    (\<And>v. v \<in> set vs \<Longrightarrow> list_item_ok spec (\<Gamma> (sos_element spec)) v) \<Longrightarrow> xer_sendable \<Gamma> def (V_SeqOf vs)"
| xer_seqof: "td_kind def = SeqOf \<Longrightarrow> td_seq_of_spec def = Some spec \<Longrightarrow> \<not> xer_value_list_element (\<Gamma> (sos_element spec)) \<Longrightarrow>
    good_name (element_name \<Gamma> spec) \<Longrightarrow>
    (\<And>v. v \<in> set vs \<Longrightarrow> xer_sendable \<Gamma> (\<Gamma> (sos_element spec)) v) \<Longrightarrow> xer_sendable \<Gamma> def (V_SeqOf vs)"
| xer_sequence: "td_kind def = Sequence \<Longrightarrow> td_sequence_spec def = Some spec \<Longrightarrow> xer_rows_ok spec src \<Longrightarrow>
    (\<And>i v. i < length src \<Longrightarrow> src ! i = Some v \<Longrightarrow>
       \<exists>t. m_type (ss_members spec ! i) = Some t \<and> xer_sendable \<Gamma> (\<Gamma> t) v) \<Longrightarrow>
    xer_sendable \<Gamma> def (V_Sequence src)"
| xer_choice: "td_kind def = Choice \<Longrightarrow> td_choice_spec def = Some spec \<Longrightarrow> xer_names_ok (cs_alternatives spec) \<Longrightarrow>
    1 \<le> p \<Longrightarrow> p \<le> int (length (cs_alternatives spec)) \<Longrightarrow>
    m_type (cs_alternatives spec ! nat (p - 1)) = Some t \<Longrightarrow> xer_sendable \<Gamma> (\<Gamma> t) v \<Longrightarrow>
    xer_sendable \<Gamma> def (V_Choice p (Some v))"

text \<open>SEQUENCE OF at one level, for both layouts.\<close>

definition seqof_text :: "nat \<Rightarrow> string \<Rightarrow> spaced_part list \<Rightarrow> string" where
  "seqof_text d name ps = open_tag name @ spaced ps @ (if ps = [] then [] else indent_text d) @ close_tag name"

lemma seqof_level_passes:
  assumes def: "td_kind def = SeqOf" "td_seq_of_spec def = Some spec" "xer_kind_ok def"
    and blank: "\<And>d. \<forall>(p, b, q, v) \<in> set (P d). blank p \<and> blank q" "\<And>d. map (\<lambda>(p, b, q, v). v) (P d) = vs"
    and enc: "\<And>name w. 0 < xw_calls w \<Longrightarrow> vs \<noteq> [] \<Longrightarrow>
      xer_seqof_encode (xer_encode_fuel ne \<Gamma>) \<Gamma> (renamed name def) vs w = xer_put (seqof_text (xw_depth w) name (P (xw_depth w)) @ [CHR 0x0A]) w"
    and dec: "\<And>d e. 0 < e \<Longrightarrow> e + k \<le> kMaxDecodeDepth \<Longrightarrow> \<forall>(p, b, q, v) \<in> set (P d).
      element_passes (xer_decode_fuel nd \<Gamma>) (\<Gamma> (sos_element spec)) (element_desc \<Gamma> spec) e b v"
  shows "xer_passes \<Gamma> (Suc k) (xer_encode_fuel (Suc ne) \<Gamma>) (xer_decode_fuel (Suc nd) \<Gamma>) def (V_SeqOf vs) (\<lambda>d name. seqof_text d name (P d))"
proof (rule xer_level_passes [where k = k])
  have h: "xer_handler_of def = Some X_SeqOf" using def(1) by (simp add: xer_handler_of_def)
  have nil: "P d = [] \<longleftrightarrow> vs = []" for d using blank(2) [of d] by auto
  fix name and w :: xer_writer
  assume "0 < xw_calls w"
  then show "xer_handler_encode (xer_encode_fuel ne \<Gamma>) \<Gamma> (renamed name def) (V_SeqOf vs) w
    = xer_put (seqof_text (xw_depth w) name (P (xw_depth w)) @ [CHR 0x0A]) w"
    using enc [of w name] nil
    by (cases "vs = []") (simp_all add: xer_handler_encode_def h xer_seqof_encode_def def(2) seqof_text_def xer_element_def)
next
  show "(if depth_counts def then Suc k else k) \<le> Suc k" by simp
  show "good_name name \<Longrightarrow> xer_opens (td_kind def \<noteq> Choice) name (seqof_text d name (P d))" for d name
    unfolding seqof_text_def by (rule xer_opens_tag)
next
  have h: "xer_handler_of def = Some X_SeqOf" using def(1) by (simp add: xer_handler_of_def)
  fix name d pre post dest and r :: xer_reader
  assume a: "good_name name" "blank pre" "shaped \<Gamma> def dest" "fresh dest" "xr_depth r + k \<le> kMaxDecodeDepth"
    "depth_counts def \<Longrightarrow> 0 < xr_depth r" "xr_text r = pre @ seqof_text d name (P d) @ post"
  have "dest = V_SeqOf []"
    using a(3,4) def by (auto simp: xer_kind_ok_def kinds_ok_def shaped_seqof_iff [OF _ def(2)])
  moreover have "\<forall>(p, b, q, v) \<in> set (P d). blank p \<and> blank q \<and>
      element_passes (xer_decode_fuel nd \<Gamma>) (\<Gamma> (sos_element spec)) (element_desc \<Gamma> spec) (xr_depth r) b v"
    using blank(1) [of d] dec [of "xr_depth r" d] a(5,6) def(1) by (fastforce simp: depth_counts_def)
  ultimately show "xer_handler_decode (xer_decode_fuel nd \<Gamma>) \<Gamma> (renamed name def) dest r = Inr (V_SeqOf vs, r\<lparr>xr_text := post\<rparr>)"
    using xer_seqof_restored [OF a(1) def(2) a(2), of "if P d = [] then [] else indent_text d" "P d" "xer_decode_fuel nd \<Gamma>" \<Gamma> r post] a(7)
    by (simp add: xer_handler_decode_def h seqof_text_def blank(2))
qed


lemma xer_choice_restored:
  assumes "xer_passes \<Gamma> k enc dec (\<Gamma> t) v T" "env_wf \<Gamma>" "xer_kind_ok (\<Gamma> t)" "\<And>t. fresh (td_new (\<Gamma> t))"
    "blank pre" "0 < xr_depth r" "xr_depth r + k \<le> kMaxDecodeDepth"
    "td_per_handler def = Some H_Choice" "td_choice_spec def = Some spec" "shaped \<Gamma> def dest" "fresh dest"
    "xer_names_ok (cs_alternatives spec)" "1 \<le> p" "p \<le> int (length (cs_alternatives spec))"
    "m_type (cs_alternatives spec ! nat (p - 1)) = Some t"
    and layout: "xr_text r = pre @ member_text (\<Gamma> t) d (m_name (cs_alternatives spec ! nat (p - 1))) T @ post"
  shows "xer_choice_decode dec \<Gamma> def dest r = Inr (V_Choice p (Some v), r\<lparr>xr_text := post\<rparr>)"
proof -
  let ?alts = "cs_alternatives spec" and ?i = "nat (p - 1)"
  let ?alt = "?alts ! ?i"
  have i: "?i < length ?alts" "int ?i = p - 1" using assms(13,14) by simp_all
  have name: "good_name (m_name ?alt)" "find_named (m_name ?alt) 0 ?alts = Some (?i, ?alt)"
    using assms(12) i(1) find_named_at [of ?alts ?i 0] by (simp_all add: xer_names_ok_def list_all_length)
  obtain p0 storage where dest: "dest = V_Choice p0 storage" and
    mem: "\<exists>x. (if p0 \<noteq> int ?i + 1 then Some (emplace_alt \<Gamma> ?alt) else storage) = Some x \<and> shaped \<Gamma> (\<Gamma> t) x \<and> fresh x"
  proof -
    have new: "shaped \<Gamma> (\<Gamma> t) (emplace_alt \<Gamma> ?alt)" "fresh (emplace_alt \<Gamma> ?alt)"
      using assms(2,4,15) by (simp_all add: emplace_alt_def env_wf_def)
    from assms(10) consider "dest = V_Choice 0 None"
      | p0 x t0 where "dest = V_Choice p0 (Some x)" "1 \<le> p0" "m_type (?alts ! nat (p0 - 1)) = Some t0" "shaped \<Gamma> (\<Gamma> t0) x"
      unfolding shaped_choice_iff [OF assms(8,9)] by blast
    then show ?thesis
    proof cases
      case 1
      then show ?thesis using that [of 0 None] new assms(13) i by simp
    next
      case 2
      have "shaped \<Gamma> (\<Gamma> t) x" if "p0 = int ?i + 1" using 2 assms(15) that i by simp
      moreover have "fresh x" using assms(11) 2(1) by simp
      ultimately show ?thesis using that [of p0 "Some x"] new 2(1) by (cases "p0 = int ?i + 1") simp_all
    qed
  qed
  then obtain x where x: "(if p0 \<noteq> int ?i + 1 then Some (emplace_alt \<Gamma> ?alt) else storage) = Some x" "shaped \<Gamma> (\<Gamma> t) x" "fresh x" by blast
  have val: "xer_decode_member dec (m_name ?alt) (renamed (m_name ?alt) (\<Gamma> t)) x r = Inr (v, r\<lparr>xr_text := post\<rparr>)"
    by (rule member_restored [OF assms(1,3) name(1) assms(5) x(2,3) assms(6,7) layout])
  have key: "ti_name (peek_xer_tag (xr_text r)) = m_name ?alt"
    unfolding layout by (rule xer_opensD(4) [OF member_opens [OF assms(1) name(1)] assms(5) TrueI])
  show ?thesis
    unfolding xer_choice_decode_def dest assms(9)
    by (simp only: option.case asn1_value.case prod.case Let_def key name(2) assms(15) x(1) val rbind.simps) (use assms(13) in simp)
qed

lemma xer_roundtrip_fuel:
  assumes "xer_env_ok \<Gamma>" "xer_sendable \<Gamma> def v"
  shows "xer_kind_ok def \<Longrightarrow> height v < ne \<Longrightarrow> height v < nd \<Longrightarrow>
    \<exists>T. xer_passes \<Gamma> (height v) (xer_encode_fuel ne \<Gamma>) (xer_decode_fuel nd \<Gamma>) def v T"
  using assms(2)
proof (induction arbitrary: ne nd rule: xer_sendable.induct)
  case (xer_leaf def v)
  then obtain m1 m2 where "ne = Suc m1" "nd = Suc m2" by (cases ne; cases nd) auto
  then show ?case using xer_leaf_passes [OF xer_leaf.hyps] by blast
next
  case (xer_value_list def spec vs)
  let ?edef = "\<Gamma> (sos_element spec)"
  obtain k where k: "height (V_SeqOf vs) = Suc k" by simp
  obtain m1 m2 where fuel: "ne = Suc m1" "nd = Suc (Suc m2)" using xer_value_list.prems k by (cases ne; cases nd; cases "nd - 1") auto
  define own where "own = (builtin_tag ?edef = universal UT_Null False \<or> number (builtin_tag def) = UT_Set)"
  define P where "P d = map (\<lambda>v. (if own then CHR 0x0A # indent_text (d + 2) else [], value_list_item ?edef v, [] :: string, v)) vs" for d
  have layout: "value_list_text d (renamed name def) ?edef vs = spaced (P d)" for d name
    by (simp add: value_list_text_def Let_def own_def P_def spaced_def comp_def)
  have "P d = [] \<longleftrightarrow> vs = []" for d by (simp add: P_def)
  then have enc: "xer_seqof_encode enc \<Gamma> (renamed name def) vs w = xer_put (seqof_text (xw_depth w) name (P (xw_depth w)) @ [CHR 0x0A]) w"
    if "vs \<noteq> []" for enc name w
    using that xer_value_list.hyps(2,3) by (simp add: xer_seqof_encode_def Let_def layout seqof_text_def)
  have "xer_passes \<Gamma> (Suc k) (xer_encode_fuel (Suc m1) \<Gamma>) (xer_decode_fuel (Suc (Suc m2)) \<Gamma>) def (V_SeqOf vs) (\<lambda>d name. seqof_text d name (P d))"
    using xer_value_list.prems(1) list_item_passes [where \<Gamma> = \<Gamma> and spec = spec, OF xer_value_list.hyps(4)]
    by (intro seqof_level_passes [OF xer_value_list.hyps(1,2)] enc) (auto simp: P_def comp_def simp del: xer_decode_fuel.simps)
  then show ?case using fuel k by metis
next
  case (xer_seqof def spec vs)
  have env: "env_wf \<Gamma>" "\<And>t. xer_kind_ok (\<Gamma> t)" using assms(1) by (simp_all add: xer_env_ok_def)
  let ?edef = "\<Gamma> (sos_element spec)" and ?n = "element_name \<Gamma> spec"
  obtain m1 m2 where fuel: "ne = Suc m1" "nd = Suc m2" using xer_seqof.prems by (cases ne; cases nd) auto
  obtain k where k: "height (V_SeqOf vs) = Suc k" by simp
  let ?enc = "xer_encode_fuel m1 \<Gamma>" and ?dec = "xer_decode_fuel m2 \<Gamma>"
  have "\<exists>T. xer_passes \<Gamma> k ?enc ?dec ?edef v T" if v: "v \<in> set vs" for v
  proof -
    have h: "height v < m1" "height v < m2" "height v \<le> k" using height_element [OF v] xer_seqof.prems fuel k by linarith+
    obtain T where "xer_passes \<Gamma> (height v) ?enc ?dec ?edef v T" using xer_seqof.IH [OF v env(2) h(1,2)] by blast
    then show ?thesis using xer_passes_mono h(3) by blast
  qed
  then obtain T where T: "\<And>v. v \<in> set vs \<Longrightarrow> xer_passes \<Gamma> k ?enc ?dec ?edef v (T v)" by metis
  define P where "P d = element_parts (td_choice_spec ?edef \<noteq> None) (indent_text (Suc d)) (\<lambda>v. T v (Suc d) ?n) True vs" for d
  have elem: "td_choice_spec (element_desc \<Gamma> spec) = td_choice_spec ?edef" by (simp add: element_desc_renamed)
  have "P d = [] \<longleftrightarrow> vs = []" for d by (cases vs) (simp_all add: P_def)
  moreover have "xer_encode_elements ?enc (element_desc \<Gamma> spec) True vs w = xer_put (spaced (P (xw_depth w))) w" if "0 < xw_calls w" for w
    unfolding P_def elem [symmetric]
  proof (rule xer_encode_elements_parts [OF _ that refl])
    fix v and u :: xer_writer
    assume "v \<in> set vs" "0 < xw_calls u" "xw_depth u = Suc (xw_depth w)"
    then show "?enc (element_desc \<Gamma> spec) v u = xer_put (T v (Suc (xw_depth w)) ?n @ [CHR 0x0A]) u"
      using xer_passesD(1) [OF T] by (simp add: element_desc_renamed)
  qed
  ultimately have enc: "xer_seqof_encode ?enc \<Gamma> (renamed name def) vs w = xer_put (seqof_text (xw_depth w) name (P (xw_depth w)) @ [CHR 0x0A]) w"
    if "vs \<noteq> []" "0 < xw_calls w" for name w
    using that xer_seqof.hyps(2,3) by (simp add: xer_seqof_encode_def Let_def seqof_text_def)
  have item: "element_passes ?dec ?edef (element_desc \<Gamma> spec) e (T v (Suc d) ?n) v" if "v \<in> set vs" "0 < e" "e + k \<le> kMaxDecodeDepth" for v d e
  proof -
    have "xer_opens False [] (T v (Suc d) ?n)"
      by (rule xer_opens_other [OF xer_passesD(2) [OF T [OF that(1)] xer_seqof.hyps(4)]])
    moreover have "?dec (renamed ?n ?edef) (td_new ?edef) r = Inr (v, r\<lparr>xr_text := post\<rparr>)"
      if "blank pre" "xr_depth r = e" "xr_text r = pre @ T v (Suc d) ?n @ post" for pre post r
      using that \<open>0 < e\<close> \<open>e + k \<le> _\<close> assms(1) env(1) by (intro xer_passesD(3) [OF T [OF \<open>v \<in> set vs\<close>] xer_seqof.hyps(4) that(1)]) (auto simp: xer_env_ok_def env_wf_def)
    moreover have "td_enum_spec ?edef = None" "builtin_tag ?edef \<noteq> universal UT_Boolean False"
      using xer_seqof.hyps(3) by (auto simp: xer_value_list_element_def universal_def)
    ultimately show ?thesis by (simp add: element_passes_def xer_decode_element_def element_desc_renamed Let_def)
  qed
  have "xer_passes \<Gamma> (Suc k) (xer_encode_fuel (Suc m1) \<Gamma>) (xer_decode_fuel (Suc m2) \<Gamma>) def (V_SeqOf vs) (\<lambda>d name. seqof_text d name (P d))"
  proof (rule seqof_level_passes [OF xer_seqof.hyps(1,2) xer_seqof.prems(1)])
    show "\<forall>(p, b, q, v) \<in> set (P d). blank p \<and> blank q" for d
      using element_parts_all [of "indent_text (Suc d)" vs "\<lambda>_ _. True"] by (simp add: P_def)
    show "map (\<lambda>(p, b, q, v). v) (P d) = vs" for d by (simp add: P_def)
    show "\<forall>(p, b, q, v) \<in> set (P d). element_passes ?dec ?edef (element_desc \<Gamma> spec) e b v"
      if "0 < e" "e + k \<le> kMaxDecodeDepth" for d e
      using element_parts_all [of "indent_text (Suc d)" vs "element_passes ?dec ?edef (element_desc \<Gamma> spec) e" "\<lambda>v. T v (Suc d) ?n"] item [OF _ that]
      by (fastforce simp: P_def)
  qed (rule enc)
  then show ?case using fuel k by metis
next
  case (xer_sequence def spec src)
  have env: "env_wf \<Gamma>" "\<And>t. xer_kind_ok (\<Gamma> t)" "\<And>t. fresh (td_new (\<Gamma> t))" using assms(1) by (simp_all add: xer_env_ok_def)
  obtain m1 m2 where fuel: "ne = Suc m1" "nd = Suc m2" using xer_sequence.prems by (cases ne; cases nd) auto
  obtain k where k: "height (V_Sequence src) = Suc k" by simp
  let ?enc = "xer_encode_fuel m1 \<Gamma>" and ?dec = "xer_decode_fuel m2 \<Gamma>"
  have "\<exists>T. \<forall>v. i < length src \<longrightarrow> src ! i = Some v \<longrightarrow>
      (\<exists>t. m_type (ss_members spec ! i) = Some t \<and> xer_kind_ok (\<Gamma> t) \<and> xer_passes \<Gamma> k ?enc ?dec (\<Gamma> t) v T)" for i
  proof (cases "i < length src \<and> src ! i \<noteq> None")
    case True
    then obtain v where v: "i < length src" "src ! i = Some v" by auto
    obtain t where t: "m_type (ss_members spec ! i) = Some t"
      "xer_kind_ok (\<Gamma> t) \<Longrightarrow> height v < m1 \<Longrightarrow> height v < m2 \<Longrightarrow> \<exists>T. xer_passes \<Gamma> (height v) ?enc ?dec (\<Gamma> t) v T"
      using xer_sequence.IH [OF v] by blast
    have "Some v \<in> set src" using v by (metis nth_mem)
    then have h: "height v < m1" "height v < m2" "height v \<le> k"
      using height_member [of v src] xer_sequence.prems fuel k by linarith+
    obtain T where "xer_passes \<Gamma> (height v) ?enc ?dec (\<Gamma> t) v T" using t(2) [OF env(2) h(1,2)] by blast
    then have "xer_passes \<Gamma> k ?enc ?dec (\<Gamma> t) v T" using xer_passes_mono h(3) by blast
    then show ?thesis using t(1) v(2) env(2) by auto
  qed auto
  then obtain T where pass: "xer_rows_pass \<Gamma> k ?enc ?dec spec src T" unfolding xer_rows_pass_def by metis
  have h: "xer_handler_of def = Some X_Sequence" "depth_counts def" "td_per_handler def = Some H_Sequence"
    using xer_sequence.hyps(1) xer_sequence.prems(1) by (simp_all add: xer_handler_of_def depth_counts_def xer_kind_ok_def kinds_ok_def)
  have "xer_passes \<Gamma> (Suc k) (xer_encode_fuel (Suc m1) \<Gamma>) (xer_decode_fuel (Suc m2) \<Gamma>) def (V_Sequence src) (sequence_text \<Gamma> spec T src)"
  proof (rule xer_level_passes [where k = k])
    show "xer_handler_encode ?enc \<Gamma> (renamed name def) (V_Sequence src) w = xer_put (sequence_text \<Gamma> spec T src (xw_depth w) name @ [CHR 0x0A]) w"
      if "0 < xw_calls w" for name w
      using xer_sequence_encoded [OF xer_sequence.hyps(3) pass xer_sequence.hyps(2) that] by (simp add: xer_handler_encode_def h)
    show "good_name name \<Longrightarrow> xer_opens (td_kind def \<noteq> Choice) name (sequence_text \<Gamma> spec T src d name)" for d name
      unfolding sequence_text_def by (rule xer_opens_tag)
    show "(if depth_counts def then Suc k else k) \<le> Suc k" by simp
    fix name d pre post dest and r :: xer_reader
    assume a: "good_name name" "blank pre" "shaped \<Gamma> def dest" "fresh dest" "xr_depth r + k \<le> kMaxDecodeDepth"
      "depth_counts def \<Longrightarrow> 0 < xr_depth r" "xr_text r = pre @ sequence_text \<Gamma> spec T src d name @ post"
    show "xer_handler_decode ?dec \<Gamma> (renamed name def) dest r = Inr (V_Sequence src, r\<lparr>xr_text := post\<rparr>)"
      using xer_sequence_restored [OF xer_sequence.hyps(3) pass env(1,3) a(1,2) a(6) [OF h(2)] a(5) h(3) xer_sequence.hyps(2) a(3,4,7)]
      by (simp add: xer_handler_decode_def h(1))
  qed
  then show ?case using fuel k by metis
next
  case (xer_choice def spec p t v)
  have env: "env_wf \<Gamma>" "xer_kind_ok (\<Gamma> t)" "\<And>t. fresh (td_new (\<Gamma> t))" using assms(1) by (simp_all add: xer_env_ok_def)
  let ?n = "m_name (cs_alternatives spec ! nat (p - 1))"
  obtain m1 m2 where fuel: "ne = Suc m1" "nd = Suc m2" using xer_choice.prems by (cases ne; cases nd) auto
  let ?enc = "xer_encode_fuel m1 \<Gamma>" and ?dec = "xer_decode_fuel m2 \<Gamma>"
  obtain T where T: "xer_passes \<Gamma> (height v) ?enc ?dec (\<Gamma> t) v T"
    using xer_choice.IH [of m1 m2] env(2) xer_choice.prems fuel by auto
  have h: "xer_handler_of def = Some X_Choice" "depth_counts def" "td_per_handler def = Some H_Choice"
    using xer_choice.hyps(1) xer_choice.prems(1) by (simp_all add: xer_handler_of_def depth_counts_def xer_kind_ok_def kinds_ok_def)
  have n: "good_name ?n" using xer_choice.hyps(3-5) by (simp add: xer_names_ok_def list_all_length)
  let ?T = "\<lambda>d (name :: string). CHR 0x0A # indent_text (Suc d) @ member_text (\<Gamma> t) d ?n T"
  have "xer_passes \<Gamma> (Suc (height v)) (xer_encode_fuel (Suc m1) \<Gamma>) (xer_decode_fuel (Suc m2) \<Gamma>) def (V_Choice p (Some v)) ?T"
  proof (rule xer_level_passes [where k = "height v"])
    show "xer_handler_encode ?enc \<Gamma> (renamed name def) (V_Choice p (Some v)) w = xer_put (?T (xw_depth w) name @ [CHR 0x0A]) w"
      if "0 < xw_calls w" for name w
      using xer_choice.hyps(4,5) member_encoded [OF T env(2), of "xer_put [CHR 0x0A] w" ?n] that
      by (simp add: xer_handler_encode_def h xer_choice_encode_def xer_choice.hyps(2,6) Let_def)
    have "xer_opens True ?n ((CHR 0x0A # indent_text (Suc d)) @ member_text (\<Gamma> t) d ?n T)" for d
      by (rule xer_opens_blank [OF member_opens [OF T n]]) simp
    from xer_opens_other [OF this] show "xer_opens (td_kind def \<noteq> Choice) name (?T d name)" for d name
      using xer_choice.hyps(1) by simp
    show "(if depth_counts def then Suc (height v) else height v) \<le> Suc (height v)" by simp
    fix name d pre post dest and r :: xer_reader
    assume a: "good_name name" "blank pre" "shaped \<Gamma> def dest" "fresh dest" "xr_depth r + height v \<le> kMaxDecodeDepth"
      "depth_counts def \<Longrightarrow> 0 < xr_depth r" "xr_text r = pre @ ?T d name @ post"
    have "blank (pre @ CHR 0x0A # indent_text (Suc d))" using a(2) by simp
    moreover have "xr_text r = (pre @ CHR 0x0A # indent_text (Suc d)) @ member_text (\<Gamma> t) d ?n T @ post" using a(7) by simp
    ultimately have "xer_choice_decode ?dec \<Gamma> (renamed name def) dest r = Inr (V_Choice p (Some v), r\<lparr>xr_text := post\<rparr>)"
      using h(3) xer_choice.hyps(2-6) a(3,4) a(6) [OF h(2)] a(5) by - (rule xer_choice_restored [OF T env(1,2,3)], simp_all only: renamed_simps shaped_renamed)
    then show "xer_handler_decode ?dec \<Gamma> (renamed name def) dest r = Inr (V_Choice p (Some v), r\<lparr>xr_text := post\<rparr>)"
      by (simp add: xer_handler_decode_def h(1))
  qed
  moreover have "height (V_Choice p (Some v)) = Suc (height v)" by simp
  ultimately show ?case using fuel by metis
qed

end
