(* ===== verification/Jer_Safety.thy ===== *)
theory Jer_Safety
  imports Jer_Roundtrip
begin

text \<open>
  The JER decoder on any text: every loop of the scanner and of the handlers consumes
  characters, so decoding ends; it follows no null pointer; and an object of a type's
  shape stays one. The one way it does not come back with a result is an allocation beyond
  the memory of the reader. The judgement \<open>eats\<close> says this of one operation on the text,
  \<open>advances\<close> of one on the stream.
\<close>

section \<open>The scanner\<close>

definition eats :: "('v \<Rightarrow> bool) \<Rightarrow> string \<Rightarrow> ('v \<times> string) result \<Rightarrow> bool" where
  "eats P s m \<longleftrightarrow> clean m \<and> (\<forall>v s'. m = Inr (v, s') \<longrightarrow> P v \<and> length s' < length s)"

lemma eats_simps [simp]:
  "eats P s (Inl (DecodeError t n))" "eats P s (Inr (v, s')) \<longleftrightarrow> P v \<and> length s' < length s"
  by (auto simp: eats_def)

lemma eats_bind:
  assumes "eats P s m" "\<And>v s'. P v \<Longrightarrow> length s' < length s \<Longrightarrow> clean (f (v, s')) \<and>
    (\<forall>x t. f (v, s') = Inr (x, t) \<longrightarrow> Q x \<and> length t \<le> length s')"
  shows "eats Q s (rbind m f)"
proof (cases m)
  case (Inl e)
  then show ?thesis using assms(1) by (simp add: eats_def)
next
  case (Inr p)
  obtain v s' where p: "p = (v, s')" by (cases p)
  have m: "P v" "length s' < length s" using assms(1) Inr p by (simp_all add: eats_def)
  show ?thesis using assms(2) [OF m] m(2) unfolding Inr p rbind.simps eats_def by (auto intro: le_less_trans)
qed

lemma eats_longer: "eats P t m \<Longrightarrow> length t \<le> length s \<Longrightarrow> eats P s m"
  by (auto simp: eats_def)

lemma eats_mono: "eats P s m \<Longrightarrow> (\<And>v. P v \<Longrightarrow> Q v) \<Longrightarrow> eats Q s m"
  by (auto simp: eats_def)

lemma eats_if: "(b \<Longrightarrow> eats P s x) \<Longrightarrow> (\<not> b \<Longrightarrow> eats P s y) \<Longrightarrow> eats P s (if b then x else y)"
  by simp

lemma length_skip_ws: "length (skip_ws s) \<le> length s"
  by (simp add: skip_ws_def length_dropWhile_le)

lemma peek_char_length: "peek_char s = (c, s') \<Longrightarrow> length s' \<le> length s \<and> (c \<noteq> CHR 0x00 \<longrightarrow> s' \<noteq> [])"
  using length_skip_ws [of s] by (auto simp: peek_char_def Let_def split: if_splits)

lemma expect_char_eats:
  "clean (expect_char c s)" "expect_char c s = Inr s' \<Longrightarrow> length s' < length s"
  using length_skip_ws [of s] by (cases "skip_ws s"; auto simp: expect_char_def Let_def split: if_splits)+

lemma token_eats: "eats (\<lambda>_. True) s (read_json_token s)"
proof -
  let ?t = "skip_ws s" and ?p = "\<lambda>c. \<not> ends_token c"
  have "length (takeWhile ?p ?t) + length (dropWhile ?p ?t) = length ?t"
    by (metis length_append takeWhile_dropWhile_id)
  then have "takeWhile ?p ?t \<noteq> [] \<Longrightarrow> length (dropWhile ?p ?t) < length s"
    using length_skip_ws [of s] by (cases "takeWhile ?p ?t") auto
  then show ?thesis by (auto simp: read_json_token_def Let_def)
qed

lemma unicode_escape_clean: "clean (unicode_escape s)"
  by (auto simp: unicode_escape_def split: option.splits)

lemma read_escape_clean: "clean (read_escape c s)"
  by (auto simp: read_escape_def unicode_escape_clean)

lemma chars_eats: "eats (\<lambda>_. True) s (read_json_chars out esc s)"
proof (induction out esc s rule: read_json_chars.induct)
  case (2 out esc c s)
  show ?case
  proof (cases esc)
    case True
    show ?thesis
    proof (cases "read_escape c s")
      case (Inl e)
      then show ?thesis using True clean_Inl [OF read_escape_clean Inl] by (auto simp: read_json_chars.simps(2))
    next
      case (Inr p)
      obtain t u where p: "p = (t, u)" by (cases p)
      have "length u \<le> length (c # s)" using read_escape_shrinks Inr p by fastforce
      then show ?thesis
        using True 2(1) [OF True Inr] Inr p by (auto simp: read_json_chars.simps(2) intro: eats_longer)
    qed
  next
    case False
    have longer: "eats (\<lambda>_. True) s m \<Longrightarrow> eats (\<lambda>_. True) (d # s) m" for d and m :: "(string \<times> string) result"
      by (erule eats_longer) simp
    show ?thesis
      using False 2(2,3) by (simp add: read_json_chars.simps(2) longer)
  qed
qed simp

lemma string_eats: "eats (\<lambda>_. True) s (read_json_string s)"
proof -
  have "length (tl (skip_ws s)) \<le> length s" using length_skip_ws [of s] by simp
  then show ?thesis
    by (auto simp: read_json_string_def Let_def intro: eats_longer [OF chars_eats])
qed

lemma brackets_clean: "clean (skip_brackets first close depth in_str esc s)"
  by (induction first close depth in_str esc s rule: skip_brackets.induct) auto

lemma brackets_length: "skip_brackets first close depth in_str esc s = Inr s' \<Longrightarrow> length s' \<le> length s"
  by (induction first close depth in_str esc s rule: skip_brackets.induct) (auto split: if_splits)

lemma skip_value_eats:
  "clean (skip_json_value s)" "skip_json_value s = Inr s' \<Longrightarrow> length s' \<le> length s"
proof -
  note str = string_eats [of "skip_ws s"]
  have drop: "length (dropWhile p (skip_ws s)) \<le> length s" for p
    using length_dropWhile_le [of p "skip_ws s"] length_skip_ws [of s] by linarith
  have "clean (rbind (read_json_string (skip_ws s)) (\<lambda>(_, s). Inr s))"
    using str by (intro clean_rbind) (auto simp: eats_def)
  then show "clean (skip_json_value s)" by (simp add: skip_json_value_def Let_def brackets_clean)
  assume r: "skip_json_value s = Inr s'"
  have "rbind (read_json_string (skip_ws s)) (\<lambda>(_, s). Inr s) = Inr s' \<Longrightarrow> length s' \<le> length s"
    using str length_skip_ws [of s] by (auto simp: rbind_eq_Inr eats_def)
  then show "length s' \<le> length s"
    using r drop length_skip_ws [of s] by (auto simp: skip_json_value_def Let_def split: if_splits dest!: brackets_length)
qed

section \<open>Primitive types\<close>

lemma null_eats: "eats (leaf_shape H_Null) s (jer_null_decode s)"
  unfolding jer_null_decode_def by (rule eats_bind [OF token_eats]) (auto simp: leaf_shape_def)

lemma boolean_eats: "eats (leaf_shape H_Boolean) s (jer_boolean_decode s)"
  unfolding jer_boolean_decode_def by (rule eats_bind [OF token_eats]) (auto simp: leaf_shape_def)

lemma integer_eats:
  "eats (leaf_shape (if c_int_kind c = INT_U64 then H_UInteger else H_Integer)) s (jer_integer_decode c s)"
  unfolding jer_integer_decode_def
  by (rule eats_bind [OF token_eats]) (auto simp: leaf_shape_def split: option.splits)

lemma quoted_eats:
  "(\<And>x. P (mk x)) \<Longrightarrow> eats P s (jer_hex_decode mk s)"
  "(\<And>x. P (mk' x)) \<Longrightarrow> eats P s (jer_arcs_decode mk' s)"
  "eats (leaf_shape H_String) s (jer_string_decode s)"
  "eats (leaf_shape H_String) s (jer_wide_decode k s)"
  unfolding jer_hex_decode_def jer_arcs_decode_def jer_string_decode_def jer_wide_decode_def
  by (rule eats_bind [OF string_eats]; auto simp: leaf_shape_def)+

lemma enum_eats: "eats (leaf_shape H_Enumerated) s (jer_enum_decode spec s)"
proof -
  have "eats (leaf_shape H_Enumerated) (skip_ws s) (rbind (read_json_string (skip_ws s)) (\<lambda>(name, s).
      case entry_named name (es_entries spec) of
        None \<Rightarrow> Inl (DecodeError (''JER: unknown enum value: '' @ name) 0) | Some v \<Rightarrow> Inr (V_Enum v, s)))"
    by (rule eats_bind [OF string_eats]) (auto simp: leaf_shape_def split: option.splits)
  moreover have "eats (leaf_shape H_Enumerated) (skip_ws s) (rbind (read_json_token (skip_ws s)) (\<lambda>(tok, s).
      case from_chars_i64 tok of
        None \<Rightarrow> Inl (DecodeError (''JER: invalid ENUMERATED: '' @ tok) 0) | Some v \<Rightarrow> Inr (V_Enum v, s)))"
    by (rule eats_bind [OF token_eats]) (auto simp: leaf_shape_def split: option.splits)
  ultimately have "eats (leaf_shape H_Enumerated) (skip_ws s) (jer_enum_decode spec s)"
    unfolding jer_enum_decode_def Let_def by simp
  then show ?thesis by (rule eats_longer) (rule length_skip_ws)
qed

lemma skip_array_length: "length (skip_array d s) \<le> length s"
  by (induction d s rule: skip_array.induct) auto

lemma field_eats: "eats (\<lambda>_. True) s (bit_string_field st s)"
proof -
  have comma: "length (let s = skip_ws t in if s \<noteq> [] \<and> hd s = CHR '','' then tl s else s) \<le> length t" for t
    using length_skip_ws [of t] by (auto simp: Let_def)
  have val: "eats (\<lambda>_. True) t (rbind (read_json_string t) (\<lambda>(hex, s). Inr ((hex, snd st), s)))"
    "eats (\<lambda>_. True) t (rbind (read_json_token t) (\<lambda>(tok, s).
        Inr ((fst st, case from_chars_u64 tok of None \<Rightarrow> snd st | Some n \<Rightarrow> n), s)))" for t
    by (rule eats_bind [OF string_eats]; simp) (rule eats_bind [OF token_eats]; simp)
  show ?thesis
    unfolding bit_string_field_def
  proof (rule eats_bind [OF string_eats], unfold prod.case, intro conjI allI impI)
    fix key s'
    let ?val = "\<lambda>s. if key = ''value'' then rbind (read_json_string s) (\<lambda>(hex, s). Inr ((hex, snd st), s))
            else if key = ''length'' then
              rbind (read_json_token s) (\<lambda>(tok, s).
                Inr ((fst st, case from_chars_u64 tok of None \<Rightarrow> snd st | Some n \<Rightarrow> n), s))
            else (case read_json_token s of Inl _ \<Rightarrow> Inr (st, skip_ws s) | Inr (_, s) \<Rightarrow> Inr (st, s))"
    have v: "clean (?val t) \<and> (\<forall>x u. ?val t = Inr (x, u) \<longrightarrow> length u \<le> length t)" for t
      using val [of t] token_eats [of t] length_skip_ws [of t] by (auto simp: eats_def split: sum.splits)
    let ?all = "rbind (expect_char CHR '':'' s') (\<lambda>s. rbind (?val s)
       (\<lambda>(st, s). let s = skip_ws s in Inr (st, if s \<noteq> [] \<and> hd s = CHR '','' then tl s else s)))"
    show "clean ?all"
      by (rule clean_rbind [OF expect_char_eats(1)], rule clean_rbind) (use v in \<open>auto simp: Let_def\<close>)
    fix x t assume "?all = Inr (x, t)"
    then obtain u y w where u: "expect_char CHR '':'' s' = Inr u" "?val u = Inr (y, w)"
      "t = (let s = skip_ws w in if s \<noteq> [] \<and> hd s = CHR '','' then tl s else s)"
      unfolding rbind_eq_Inr by (auto simp: Let_def)
    show "length t \<le> length s'" using expect_char_eats(2) [OF u(1)] v u(2) comma [of w] unfolding u(3) by fastforce
  qed simp
qed

text \<open>
  An operation that may also end in an allocation that the process does not survive: only
  when memory is limited, and the request goes beyond it.
\<close>

fun beyond_memory :: "nat option \<Rightarrow> decode_error \<Rightarrow> bool" where
  "beyond_memory (Some m) (BadAlloc n) = (m < n)"
| "beyond_memory mem e = False"

definition ends_in :: "nat option \<Rightarrow> 'a result \<Rightarrow> bool" where
  "ends_in mem m \<longleftrightarrow> (\<forall>e. m = Inl e \<longrightarrow> program_error e \<or> beyond_memory mem e)"

lemma ends_in_simps [simp]:
  "ends_in mem (Inr x)" "ends_in mem (Inl e) \<longleftrightarrow> program_error e \<or> beyond_memory mem e"
  by (auto simp: ends_in_def)

lemma clean_ends_in: "clean m \<Longrightarrow> ends_in mem m"
  by (cases m) auto

lemma ends_in_rbind: "ends_in mem m \<Longrightarrow> (\<And>x. m = Inr x \<Longrightarrow> ends_in mem (f x)) \<Longrightarrow> ends_in mem (rbind m f)"
  by (cases m) auto

lemma ends_in_if: "(b \<Longrightarrow> ends_in mem x) \<Longrightarrow> (\<not> b \<Longrightarrow> ends_in mem y) \<Longrightarrow> ends_in mem (if b then x else y)"
  by simp

lemma allocates_beyond: "\<not> allocates mem n \<Longrightarrow> beyond_memory mem (BadAlloc n)"
  by (cases mem) auto

lemma bit_string_eats:
  "ends_in mem (jer_bit_string_decode mem def s)"
  "jer_bit_string_decode mem def s = Inr (v, u) \<Longrightarrow> leaf_shape H_BitString v \<and> length u < length s"
proof -
  let ?t = "skip_ws s" and ?n = "fixed_size (td_constraints def)"
  let ?whole = "rbind (expect_char CHR ''{'' ?t) (\<lambda>s.
        rbind (bit_string_field ([], 0) s) (\<lambda>(st, s).
        rbind (bit_string_field st s) (\<lambda>((hex_str, bits), s).
        rbind (expect_char CHR ''}'' s) (\<lambda>s.
          let byte_count = (bits + 7) div 8 in
          if \<not> allocates mem (unat byte_count) then Inl (BadAlloc (unat byte_count))
          else Inr (V_BitString (masked_bits (vec_resize (unat byte_count) (parse_hex_str hex_str))
                      (ucast (byte_count * 8 - bits))), s)))))"
  have field: "ends_in mem (bit_string_field st t)" for st t
    using field_eats [of t st] by (simp add: eats_def clean_ends_in)
  have whole: "ends_in mem ?whole"
    using field by (intro ends_in_rbind)
      (auto simp: clean_ends_in [OF expect_char_eats(1)] Let_def allocates_beyond intro!: ends_in_rbind)
  have whole': "leaf_shape H_BitString v \<and> length u < length ?t" if r: "?whole = Inr (v, u)" for v u
  proof -
    obtain a st b st' c where a: "expect_char CHR ''{'' ?t = Inr a" "bit_string_field ([], 0) a = Inr (st, b)"
      "bit_string_field st b = Inr (st', c)" "expect_char CHR ''}'' c = Inr u" "\<exists>x. v = V_BitString x"
      using r by (auto simp: rbind_eq_Inr Let_def split: if_splits)
    have "length b < length a" "length c < length b" using field_eats [of a "([], 0)"] field_eats [of b st] a(2,3) by (simp_all add: eats_def)
    then show ?thesis using expect_char_eats(2) [OF a(1)] expect_char_eats(2) [OF a(4)] a(5) by (simp add: leaf_shape_def)
  qed
  have str: "eats (leaf_shape H_BitString) ?t (rbind (read_json_string ?t) (\<lambda>(hex_str, s).
            let raw = parse_hex_str hex_str; byte_count = nat ((?n + 7) div 8) in
            if length raw \<noteq> byte_count then 
              Inl (DecodeError (''JER: BIT STRING '' @ td_name def @ '': expected '' @ to_string byte_count @ '' hex octets'') 0)
            else Inr (V_BitString (masked_bits raw (of_int (int byte_count * 8 - ?n))), s)))"
    by (rule eats_bind [OF string_eats]) (auto simp: Let_def leaf_shape_def)
  have arr: "?t \<noteq> [] \<Longrightarrow> length (skip_array 1 (tl ?t)) < length ?t"
    using skip_array_length [of 1 "tl ?t"] by (cases ?t) auto
  have picked: P
    if "(if b1 then if b2 then Inl (DecodeError m n) else x else if b3 then Inr y else z) = Inr w"
      "x = Inr w \<Longrightarrow> P" "b3 \<Longrightarrow> y = w \<Longrightarrow> P" "z = Inr w \<Longrightarrow> P"
    for b1 b2 b3 P m n and x z :: "'x result" and y w
    using that by (auto split: if_splits)
  have str': "ends_in mem (rbind (read_json_string ?t) (\<lambda>(hex_str, s).
            let raw = parse_hex_str hex_str; byte_count = nat ((?n + 7) div 8) in
            if length raw \<noteq> byte_count then 
              Inl (DecodeError (''JER: BIT STRING '' @ td_name def @ '': expected '' @ to_string byte_count @ '' hex octets'') 0)
            else Inr (V_BitString (masked_bits raw (of_int (int byte_count * 8 - ?n))), s)))"
    using str by (simp add: eats_def clean_ends_in)
  show "ends_in mem (jer_bit_string_decode mem def s)"
    unfolding jer_bit_string_decode_def Let_def [of "skip_ws s"] Let_def [of ?n]
    by (intro ends_in_if whole str') (simp_all only: ends_in_simps program_error.simps simp_thms)
  assume "jer_bit_string_decode mem def s = Inr (v, u)"
  then have "leaf_shape H_BitString v \<and> length u < length ?t"
    unfolding jer_bit_string_decode_def Let_def [of "skip_ws s"] Let_def [of ?n]
    by (rule picked) (use whole' str arr in \<open>auto simp: leaf_shape_def eats_def\<close>)
  then show "leaf_shape H_BitString v \<and> length u < length s" using length_skip_ws [of s] by simp
qed

section \<open>Constructed types\<close>

definition advances :: "('v \<Rightarrow> bool) \<Rightarrow> jer_reader \<Rightarrow> ('v \<times> jer_reader) result \<Rightarrow> bool" where
  "advances P r m \<longleftrightarrow> ends_in (jr_memory r) m \<and>
     (\<forall>v r'. m = Inr (v, r') \<longrightarrow> P v \<and> length (jr_text r') < length (jr_text r) \<and> jr_depth r' = jr_depth r \<and>
        jr_memory r' = jr_memory r)"

lemma advances_simps [simp]:
  "advances P r (Inl e) \<longleftrightarrow> program_error e \<or> beyond_memory (jr_memory r) e"
  "advances P r (Inr (v, r')) \<longleftrightarrow> P v \<and> length (jr_text r') < length (jr_text r) \<and> jr_depth r' = jr_depth r \<and>
     jr_memory r' = jr_memory r"
  by (auto simp: advances_def)

lemma advances_bind:
  assumes "advances P r m"
    "\<And>v r'. P v \<Longrightarrow> length (jr_text r') < length (jr_text r) \<Longrightarrow> jr_depth r' = jr_depth r \<Longrightarrow>
       jr_memory r' = jr_memory r \<Longrightarrow> advances Q r' (f (v, r')) \<or>
       ends_in (jr_memory r') (f (v, r')) \<and> (\<forall>x t. f (v, r') = Inr (x, t) \<longrightarrow> Q x \<and> length (jr_text t) \<le> length (jr_text r') \<and>
         jr_depth t = jr_depth r' \<and> jr_memory t = jr_memory r')"
  shows "advances Q r (rbind m f)"
proof (cases m)
  case (Inl e)
  then show ?thesis using assms(1) by (simp add: advances_def)
next
  case (Inr p)
  obtain v r' where p: "p = (v, r')" by (cases p)
  have m: "P v" "length (jr_text r') < length (jr_text r)" "jr_depth r' = jr_depth r" "jr_memory r' = jr_memory r"
    using assms(1) Inr p by (simp_all add: advances_def)
  show ?thesis using assms(2) [OF m] m unfolding Inr p rbind.simps advances_def by (auto intro: le_less_trans less_trans)
qed

lemma advances_text: "eats P (jr_text r) (f (jr_text r)) \<Longrightarrow> advances P r (on_text f r)"
  by (cases "f (jr_text r)") (auto simp: on_text_def eats_def advances_def)

lemma advances_longer:
  "advances P r m \<Longrightarrow> length (jr_text r) \<le> length (jr_text s) \<Longrightarrow> jr_depth r = jr_depth s \<Longrightarrow>
     jr_memory r = jr_memory s \<Longrightarrow> advances P s m"
  by (auto simp: advances_def)

lemma advances_mono: "advances P r m \<Longrightarrow> (\<And>v. P v \<Longrightarrow> Q v) \<Longrightarrow> advances Q r m"
  by (auto simp: advances_def)

text \<open>
  What the compiler has to guarantee of a table: the handlers of the codecs agree, and
  the members of the extension part are optional.
\<close>

definition jer_rows_wf :: "sequence_spec \<Rightarrow> bool" where
  "jer_rows_wf spec \<longleftrightarrow> list_all m_optional (drop (root_end spec) (ss_members spec))"

lemma jer_rows_wfD: "jer_rows_wf spec \<Longrightarrow> i < length (ss_members spec) \<Longrightarrow> \<not> m_optional (ss_members spec ! i) \<Longrightarrow> i < root_end spec"
  by (rule ccontr) (auto simp: jer_rows_wf_def list_all_length dest!: spec [of _ "i - root_end spec"])

definition jer_desc_wf :: "type_desc \<Rightarrow> bool" where
  "jer_desc_wf def \<longleftrightarrow>
     (case jer_handler_of def of
        None \<Rightarrow> False
      | Some h \<Rightarrow>
         (case h of
            J_Error \<Rightarrow> True
          | J_Real \<Rightarrow> False
          | J_Null \<Rightarrow> td_per_handler def = Some H_Null
          | J_Boolean \<Rightarrow> td_per_handler def = Some H_Boolean
          | J_Integer \<Rightarrow> td_per_handler def = Some (if c_int_kind (td_constraints def) = INT_U64 then H_UInteger else H_Integer)
          | J_BitString \<Rightarrow> td_per_handler def = Some H_BitString
          | J_OctetString \<Rightarrow> td_per_handler def = Some H_OctetString
          | J_Any \<Rightarrow> td_per_handler def = Some H_Any
          | J_Oid \<Rightarrow> td_per_handler def = Some H_Oid
          | J_RelOid \<Rightarrow> td_per_handler def = Some H_RelOid
          | J_Time \<Rightarrow> td_per_handler def = Some H_String
          | J_String \<Rightarrow> td_per_handler def = Some H_String
          | J_HexString \<Rightarrow> td_per_handler def = Some H_String
          | J_WideString _ \<Rightarrow> td_per_handler def = Some H_String
          | J_Enumerated \<Rightarrow> td_per_handler def = Some H_Enumerated \<and> td_enum_spec def \<noteq> None
          | J_SeqOf \<Rightarrow> td_per_handler def = Some H_SeqOf \<and> td_seq_of_spec def \<noteq> None
          | J_Sequence \<Rightarrow> td_per_handler def = Some H_Sequence \<and>
              (case td_sequence_spec def of None \<Rightarrow> False | Some spec \<Rightarrow> jer_rows_wf spec)
          | J_Choice \<Rightarrow> td_per_handler def = Some H_Choice \<and> td_choice_spec def \<noteq> None))"

definition jer_env_wf :: "type_env \<Rightarrow> bool" where
  "jer_env_wf \<Gamma> \<longleftrightarrow> env_wf \<Gamma> \<and> (\<forall>t. jer_desc_wf (\<Gamma> t))"

text \<open>The nested calls, made at nesting depth \<open>d\<close>.\<close>

definition child_advances :: "type_env \<Rightarrow> nat \<Rightarrow> jer_decoder \<Rightarrow> bool" where
  "child_advances \<Gamma> d codec \<longleftrightarrow>
     (\<forall>t name dest r. jr_depth r = d \<longrightarrow> shaped \<Gamma> (\<Gamma> t) dest \<longrightarrow>
        advances (shaped \<Gamma> (\<Gamma> t)) r (codec (renamed name (\<Gamma> t)) dest r))"

lemma child_advancesD:
  "child_advances \<Gamma> d codec \<Longrightarrow> jr_depth r = d \<Longrightarrow> shaped \<Gamma> (\<Gamma> t) dest \<Longrightarrow>
     advances (shaped \<Gamma> (\<Gamma> t)) r (codec (renamed name (\<Gamma> t)) dest r)"
  by (simp add: child_advances_def)

lemma elements_advance:
  assumes "child_advances \<Gamma> d codec" "env_wf \<Gamma>"
  shows "length (jr_text r) < n \<Longrightarrow> jr_depth r = d \<Longrightarrow> \<forall>v \<in> set seq. shaped \<Gamma> (\<Gamma> t) v \<Longrightarrow>
    advances (\<lambda>vs. \<forall>v \<in> set vs. shaped \<Gamma> (\<Gamma> t) v) r (jer_decode_elements n codec (\<Gamma> t) seq r)"
proof (induction n arbitrary: seq r)
  case (Suc n)
  obtain pk s where pk: "peek_char (jr_text r) = (pk, s)" by fastforce
  note len = peek_char_length [OF pk]
  have "shaped \<Gamma> (\<Gamma> t) (td_new (\<Gamma> t))" using assms(2) by (simp add: env_wf_def)
  from child_advancesD [OF assms(1) _ this, of "r\<lparr>jr_text := s\<rparr>" "td_name (\<Gamma> t)"] Suc.prems(2)
  have "advances (shaped \<Gamma> (\<Gamma> t)) (r\<lparr>jr_text := s\<rparr>) (codec (\<Gamma> t) (td_new (\<Gamma> t)) (r\<lparr>jr_text := s\<rparr>))" by simp
  then have "advances (\<lambda>vs. \<forall>v \<in> set vs. shaped \<Gamma> (\<Gamma> t) v) (r\<lparr>jr_text := s\<rparr>)
      (rbind (codec (\<Gamma> t) (td_new (\<Gamma> t)) (r\<lparr>jr_text := s\<rparr>)) (\<lambda>(v, r). jer_decode_elements n codec (\<Gamma> t) (seq @ [v]) r))"
    by (rule advances_bind) (use Suc len in auto)
  then have elem: "advances (\<lambda>vs. \<forall>v \<in> set vs. shaped \<Gamma> (\<Gamma> t) v) r
      (rbind (codec (\<Gamma> t) (td_new (\<Gamma> t)) (r\<lparr>jr_text := s\<rparr>)) (\<lambda>(v, r). jer_decode_elements n codec (\<Gamma> t) (seq @ [v]) r))"
    by (rule advances_longer) (use len in simp_all)
  have comma: "s \<noteq> [] \<Longrightarrow> advances (\<lambda>vs. \<forall>v \<in> set vs. shaped \<Gamma> (\<Gamma> t) v) r
      (jer_decode_elements n codec (\<Gamma> t) seq (r\<lparr>jr_text := tl s\<rparr>))"
    by (rule advances_longer [OF Suc.IH]) (use Suc.prems len in \<open>cases s; auto\<close>)+
  show ?case
    using elem comma len Suc.prems(3) by (cases s) (auto simp: pk)
qed simp

lemma seqof_advances:
  assumes "child_advances \<Gamma> d codec" "env_wf \<Gamma>" "jr_depth r = d"
    "td_per_handler def = Some H_SeqOf" "td_seq_of_spec def = Some spec"
  shows "advances (shaped \<Gamma> def) r (jer_seqof_decode codec \<Gamma> def r)"
proof (cases "expect_char CHR ''['' (jr_text r)")
  case (Inl e)
  then show ?thesis
    using clean_Inl [OF expect_char_eats(1) Inl] by (auto simp: jer_seqof_decode_def assms(5))
next
  case (Inr s)
  have "advances (\<lambda>vs. \<forall>v \<in> set vs. shaped \<Gamma> (\<Gamma> (sos_element spec)) v) (r\<lparr>jr_text := s\<rparr>)
      (jer_decode_elements (Suc (length s)) codec (\<Gamma> (sos_element spec)) [] (r\<lparr>jr_text := s\<rparr>))"
    by (rule elements_advance [OF assms(1,2)]) (simp_all add: assms(3))
  then have "advances (shaped \<Gamma> def) (r\<lparr>jr_text := s\<rparr>)
      (rbind (jer_decode_elements (Suc (length s)) codec (\<Gamma> (sos_element spec)) [] (r\<lparr>jr_text := s\<rparr>)) (\<lambda>(vs, r). Inr (V_SeqOf vs, r)))"
    by (rule advances_bind) (auto simp: shaped_seqof_iff [OF assms(4,5)])
  then have "advances (shaped \<Gamma> def) r
      (rbind (jer_decode_elements (Suc (length s)) codec (\<Gamma> (sos_element spec)) [] (r\<lparr>jr_text := s\<rparr>)) (\<lambda>(vs, r). Inr (V_SeqOf vs, r)))"
    by (rule advances_longer) (use expect_char_eats(2) [OF Inr] in simp_all)
  then show ?thesis using Inr by (simp add: jer_seqof_decode_def assms(5) del: jer_decode_elements.simps)
qed

lemma find_named_sound: "find_named key i mbrs = Some (j, mbr) \<Longrightarrow> i \<le> j \<and> j < i + length mbrs \<and> mbrs ! (j - i) = mbr"
proof (induction mbrs arbitrary: i)
  case (Cons m mbrs)
  show ?case
  proof (cases "key = m_name m")
    case False
    then have j: "Suc i \<le> j \<and> j < Suc i + length mbrs \<and> mbrs ! (j - Suc i) = mbr" using Cons.IH [of "Suc i"] Cons.prems by simp
    then have "j - i = Suc (j - Suc i)" by (simp add: Suc_diff_Suc)
    with j show ?thesis by simp
  qed (use Cons.prems in simp)
qed simp

lemma clear_optional_rows:
  "rows_ok \<Gamma> spec ms \<Longrightarrow> env_wf \<Gamma> \<Longrightarrow> mbrs = drop i (ss_members spec) \<Longrightarrow> rows_ok \<Gamma> spec (clear_optional \<Gamma> i mbrs ms)"
proof (induction mbrs arbitrary: i ms)
  case (Cons mbr mbrs)
  have i: "i < length (ss_members spec)" "ss_members spec ! i = mbr" "mbrs = drop (Suc i) (ss_members spec)"
    using drop_eq_Cons [OF Cons.prems(3) [symmetric]] by auto
  show ?case
    using Cons.IH [OF _ Cons.prems(2) i(3)] rows_set_present [OF Cons.prems(1,2) i(1)] Cons.prems(1) i(2) by simp
qed simp

text \<open>The table part of \<open>jer_desc_wf\<close> gives every member that is decoded a place.\<close>

lemma jer_member_place:
  assumes "jer_rows_wf spec" "rows_ok \<Gamma> spec ms" "env_wf \<Gamma>" "i < length (ss_members spec)" "ss_members spec ! i = mbr"
    "m_type mbr = Some t"
  shows "rows_ok \<Gamma> spec (if m_optional mbr then set_present \<Gamma> mbr i True ms else ms)"
    "\<exists>x. member_ptr (if m_optional mbr then set_present \<Gamma> mbr i True ms else ms) i = Some x \<and> shaped \<Gamma> (\<Gamma> t) x"
proof -
  show rows: "rows_ok \<Gamma> spec (if m_optional mbr then set_present \<Gamma> mbr i True ms else ms)"
    using rows_set_present [OF assms(2-4), of True] assms(2,5) by simp
  show "\<exists>x. member_ptr (if m_optional mbr then set_present \<Gamma> mbr i True ms else ms) i = Some x \<and> shaped \<Gamma> (\<Gamma> t) x"
  proof (cases "m_optional mbr \<and> m_has_ops mbr")
    case True
    then show ?thesis using rows_present_member [OF assms(2-4)] assms(5,6) by simp
  next
    case False
    then have "\<not> m_has_ops mbr \<or> (\<not> m_optional mbr \<and> i < root_end spec)"
      using jer_rows_wfD [OF assms(1,4)] assms(5) by auto
    then show ?thesis using rows_member [OF rows assms(4)] assms(5,6) by simp
  qed
qed

lemma members_advance:
  assumes "child_advances \<Gamma> d codec" "env_wf \<Gamma>" "jer_rows_wf spec"
  shows "length (jr_text r) < n \<Longrightarrow> jr_depth r = d \<Longrightarrow> rows_ok \<Gamma> spec ms \<Longrightarrow>
    length seen = length (ss_members spec) \<Longrightarrow>
    (case jer_decode_members n codec \<Gamma> (ss_members spec) ms seen r of
       Inl e \<Rightarrow> program_error e \<or> beyond_memory (jr_memory r) e
     | Inr (ms', seen', r') \<Rightarrow> rows_ok \<Gamma> spec ms' \<and> length (jr_text r') < length (jr_text r) \<and> jr_depth r' = jr_depth r \<and>
         jr_memory r' = jr_memory r)"
proof (induction n arbitrary: ms seen r)
  case (Suc n)
  let ?all = "ss_members spec"
  let ?good = "\<lambda>m. case m of Inl e \<Rightarrow> program_error e \<or> beyond_memory (jr_memory r) e
     | Inr (ms', seen' :: bool list, r') \<Rightarrow> rows_ok \<Gamma> spec ms' \<and> length (jr_text r') < length (jr_text r) \<and> jr_depth r' = jr_depth r \<and>
         jr_memory r' = jr_memory r"
  obtain pk s where pk: "peek_char (jr_text r) = (pk, s)" by fastforce
  note len = peek_char_length [OF pk]
  have IH: "?good (jer_decode_members n codec \<Gamma> ?all ms' seen' r')"
    if "length (jr_text r') < length (jr_text r)" "jr_depth r' = d" "rows_ok \<Gamma> spec ms'" "length seen' = length ?all" "jr_memory r' = jr_memory r" for ms' seen' r'
    using Suc.IH [of r' ms' seen'] that Suc.prems(1,2)
    by (auto split: sum.splits)
  have member: "?good (rbind (read_json_string s) (\<lambda>(key, s). rbind (expect_char CHR '':'' s) (\<lambda>s.
          let skip = rbind (skip_json_value s) (\<lambda>s. jer_decode_members n codec \<Gamma> ?all ms seen (r\<lparr>jr_text := s\<rparr>)) in
          (case find_named key 0 ?all of
             None \<Rightarrow> skip
           | Some (i, mbr) \<Rightarrow>
              (case m_type mbr of
                 None \<Rightarrow> skip
               | Some t \<Rightarrow>
                   let null_len = (if m_optional mbr then peek_null s else 0) in
                   if null_len \<noteq> 0 \<and> \<not> jer_value_may_be_null (\<Gamma> t) then
                     jer_decode_members n codec \<Gamma> ?all (set_present \<Gamma> mbr i False ms) (seen[i := False])
                       (r\<lparr>jr_text := drop null_len s\<rparr>)
                   else
                     let ms = (if m_optional mbr then set_present \<Gamma> mbr i True ms else ms) in
                     (case member_ptr ms i of
                        None \<Rightarrow> Inl NullDeref
                      | Some mptr \<Rightarrow>
                          rbind (codec (renamed (m_name mbr) (\<Gamma> t)) mptr (r\<lparr>jr_text := s\<rparr>)) (\<lambda>(v, r).
                            jer_decode_members n codec \<Gamma> ?all (ms[i := Some v]) (seen[i := True]) r)))))))"
    (is "?good (rbind _ (\<lambda>(key, s). rbind (_ s) (\<lambda>s. ?step key s)))")
  proof -
    have step: "?good (?step key u)" if u: "length u < length (jr_text r)" for key u
    proof -
      have skip: "?good (rbind (skip_json_value u) (\<lambda>s. jer_decode_members n codec \<Gamma> ?all ms seen (r\<lparr>jr_text := s\<rparr>)))"
      proof (cases "skip_json_value u")
        case (Inl e)
        then show ?thesis using skip_value_eats(1) [of u] by simp
      next
        case (Inr w)
        then show ?thesis using IH [of "r\<lparr>jr_text := w\<rparr>"] skip_value_eats(2) [OF Inr] u Suc.prems(2-4) by simp
      qed
      show ?thesis
      proof (cases "find_named key 0 ?all")
        case None
        then show ?thesis using skip by simp
      next
        case (Some p)
        then obtain i mbr where p: "find_named key 0 ?all = Some (i, mbr)" by (cases p) auto
        have i: "i < length ?all" "?all ! i = mbr" using find_named_sound [OF p] by simp_all
        show ?thesis
        proof (cases "m_type mbr")
          case None
          then show ?thesis using skip p by simp
        next
          case (Some t)
          let ?null = "if m_optional mbr then peek_null u else 0"
          let ?ms = "if m_optional mbr then set_present \<Gamma> mbr i True ms else ms"
          note place = jer_member_place [OF assms(3) Suc.prems(3) assms(2) i Some]
          obtain x where x: "member_ptr ?ms i = Some x" "shaped \<Gamma> (\<Gamma> t) x" using place(2) by blast
          let ?call = "codec (renamed (m_name mbr) (\<Gamma> t)) x (r\<lparr>jr_text := u\<rparr>)"
          have call: "advances (shaped \<Gamma> (\<Gamma> t)) (r\<lparr>jr_text := u\<rparr>) ?call"
            using child_advancesD [OF assms(1) _ x(2), of "r\<lparr>jr_text := u\<rparr>"] Suc.prems(2) by simp
          have null: "?good (jer_decode_members n codec \<Gamma> ?all (set_present \<Gamma> mbr i False ms) (seen[i := False])
                       (r\<lparr>jr_text := drop ?null u\<rparr>))" if "?null \<noteq> 0"
            using IH [of "r\<lparr>jr_text := drop ?null u\<rparr>"] rows_set_present [OF Suc.prems(3) assms(2) i(1), of False] that u i(2)
              Suc.prems(2,4) by (simp split: if_splits)
          have val: "?good (rbind ?call (\<lambda>(v, r).
                            jer_decode_members n codec \<Gamma> ?all (?ms[i := Some v]) (seen[i := True]) r))"
          proof (cases ?call)
            case (Inl e)
            then show ?thesis using call by (simp add: advances_def)
          next
            case (Inr q)
            obtain v r' where q: "q = (v, r')" by (cases q)
            then have "shaped \<Gamma> (\<Gamma> t) v" "length (jr_text r') < length u" "jr_depth r' = d" "jr_memory r' = jr_memory r"
              using call Inr Suc.prems(2) by (simp_all add: advances_def)
            then show ?thesis
              using IH [of r' "?ms[i := Some v]" "seen[i := True]"] rows_update [OF place(1) i(1), of t v] i(2) Some u Inr q Suc.prems(4) by simp
          qed
          show ?thesis
          proof (cases "?null \<noteq> 0 \<and> \<not> jer_value_may_be_null (\<Gamma> t)")
            case True
            have "?null \<noteq> 0" using True by (rule conjunct1)
            from null [OF this] show ?thesis
              by (simp only: p option.case prod.case Some Let_def if_P [OF True])
          next
            case False
            show ?thesis
              using val by (simp only: p option.case prod.case Some Let_def if_not_P [OF False] x(1))
          qed
        qed
      qed
    qed
    note str = string_eats [of s]
    show ?thesis
    proof (cases "read_json_string s")
      case (Inl e)
      then show ?thesis using str clean_Inl [of "read_json_string s" e] by (simp add: eats_def)
    next
      case (Inr p)
      obtain key w where p: "p = (key, w)" by (cases p)
      have w: "length w < length s" using str Inr p by (simp add: eats_def)
      show ?thesis
      proof (cases "expect_char CHR '':'' w")
        case (Inl e)
        then show ?thesis using expect_char_eats(1) [of "CHR '':''" w] \<open>read_json_string s = Inr p\<close> p by simp
      next
        case (Inr u)
        then show ?thesis
          using step [of u key] expect_char_eats(2) [OF Inr] w len \<open>read_json_string s = Inr p\<close> p by simp
      qed
    qed
  qed
  have comma: "s \<noteq> [] \<Longrightarrow> ?good (jer_decode_members n codec \<Gamma> ?all ms seen (r\<lparr>jr_text := tl s\<rparr>))"
    using IH [of "r\<lparr>jr_text := tl s\<rparr>"] Suc.prems(2-4) len by (cases s) auto
  have stop: "s \<noteq> [] \<Longrightarrow> length s - Suc 0 < length (jr_text r)" using len by (cases s) auto
  show ?case
    unfolding jer_decode_members.simps(2) [of n] pk Let_def prod.case
    using member comma stop len Suc.prems(3) unfolding Let_def by simp
qed simp

lemma sequence_advances:
  assumes "child_advances \<Gamma> d codec" "env_wf \<Gamma>" "jr_depth r = d" "shaped \<Gamma> def dest"
    "td_per_handler def = Some H_Sequence" "td_sequence_spec def = Some spec" "jer_rows_wf spec"
  shows "advances (shaped \<Gamma> def) r (jer_sequence_decode codec \<Gamma> def dest r)"
proof -
  obtain ms where ms: "dest = V_Sequence ms" "rows_ok \<Gamma> spec ms"
    using assms(4) unfolding shaped_sequence_iff [OF assms(5,6)] by blast
  show ?thesis
  proof (cases "expect_char CHR ''{'' (jr_text r)")
    case (Inl e)
    then show ?thesis
      using clean_Inl [OF expect_char_eats(1) Inl] by (auto simp: jer_sequence_decode_def assms(6) ms(1))
  next
    case (Inr s)
    let ?all = "ss_members spec"
    let ?loop = "jer_decode_members (Suc (length s)) codec \<Gamma> ?all (clear_optional \<Gamma> 0 ?all ms)
        (replicate (length ?all) False) (r\<lparr>jr_text := s\<rparr>)"
    have loop: "case ?loop of Inl e \<Rightarrow> program_error e \<or> beyond_memory (jr_memory (r\<lparr>jr_text := s\<rparr>)) e
      | Inr (ms', seen', r') \<Rightarrow> rows_ok \<Gamma> spec ms' \<and> length (jr_text r') < length (jr_text (r\<lparr>jr_text := s\<rparr>)) \<and>
          jr_depth r' = jr_depth (r\<lparr>jr_text := s\<rparr>) \<and> jr_memory r' = jr_memory (r\<lparr>jr_text := s\<rparr>)"
      by (rule members_advance [OF assms(1,2,7)]) (use clear_optional_rows [OF ms(2) assms(2), of ?all 0] assms(3) in simp_all)
    have s: "length s < length (jr_text r)" by (rule expect_char_eats(2) [OF Inr])
    have "jer_sequence_decode codec \<Gamma> def dest r = rbind ?loop (\<lambda>(ms, seen, r).
              case missing_member seen 0 ?all of
                Some mbr \<Rightarrow> Inl (DecodeError (''JER: missing required member: '' @ m_name mbr) 0)
              | None \<Rightarrow> Inr (V_Sequence ms, r))"
      using Inr by (simp add: jer_sequence_decode_def assms(6) ms(1) Let_def del: jer_decode_members.simps)
    note whole = this
    show ?thesis
    proof (cases ?loop)
      case (Inl e)
      then show ?thesis using loop unfolding whole by (auto simp del: jer_decode_members.simps)
    next
      case (Inr q)
      obtain ms' seen' r' where q: "q = (ms', seen', r')" by (cases q)
      show ?thesis
        using loop s assms(3) unfolding whole Inr q
        by (simp add: shaped_sequence_iff [OF assms(5,6)] split: option.splits)
    qed
  qed
qed

lemma choice_advances:
  assumes "child_advances \<Gamma> d codec" "env_wf \<Gamma>" "jr_depth r = d" "shaped \<Gamma> def dest"
    "td_per_handler def = Some H_Choice" "td_choice_spec def = Some spec"
  shows "advances (shaped \<Gamma> def) r (jer_choice_decode codec \<Gamma> def dest r)"
proof -
  obtain p storage where dest: "dest = V_Choice p storage"
    using assms(4) unfolding shaped_choice_iff [OF assms(5,6)] by blast
  let ?alts = "cs_alternatives spec"
  define pick where "pick = (\<lambda>key s. case find_named key 0 ?alts of
              None \<Rightarrow> Inl (DecodeError (''JER: CHOICE: unknown alternative: '' @ key) 0)
            | Some (i, alt) \<Rightarrow>
               (case m_type alt of
                  None \<Rightarrow> Inl (DecodeError (''JER: CHOICE: no descriptor for '' @ m_name alt) 0)
                | Some t \<Rightarrow>
                   (case (if p \<noteq> int i + 1 then Some (emplace_alt \<Gamma> alt) else storage) of
                      None \<Rightarrow> Inl NullDeref
                    | Some mptr \<Rightarrow>
                        rbind (codec (renamed (m_name alt) (\<Gamma> t)) mptr (r\<lparr>jr_text := s\<rparr>)) (\<lambda>(v, r).
                        rbind (expect_char CHR ''}'' (jr_text r)) (\<lambda>s.
                          Inr (V_Choice (int i + 1) (Some v), r\<lparr>jr_text := s\<rparr>))))))"
  have pick: "advances (shaped \<Gamma> def) (r\<lparr>jr_text := s\<rparr>) (pick key s)" for key s
  proof (cases "find_named key 0 ?alts")
    case (Some q)
    then obtain i alt where q: "find_named key 0 ?alts = Some (i, alt)" by (cases q) auto
    have i: "i < length ?alts" "?alts ! i = alt" using find_named_sound [OF q] by simp_all
    show ?thesis
    proof (cases "m_type alt")
      case (Some t)
      obtain x where x: "(if p \<noteq> int i + 1 then Some (emplace_alt \<Gamma> alt) else storage) = Some x" "shaped \<Gamma> (\<Gamma> t) x"
        using select_shaped [OF assms(2,5,6), of p storage i t] assms(4) i Some
        unfolding dest select_alternative_def by auto
      have call: "advances (shaped \<Gamma> (\<Gamma> t)) (r\<lparr>jr_text := s\<rparr>) (codec (renamed (m_name alt) (\<Gamma> t)) x (r\<lparr>jr_text := s\<rparr>))"
        using child_advancesD [OF assms(1) _ x(2), of "r\<lparr>jr_text := s\<rparr>"] assms(3) by simp
      have close: "advances (shaped \<Gamma> def) r' (rbind (expect_char CHR ''}'' (jr_text r')) (\<lambda>s.
                          Inr (V_Choice (int i + 1) (Some v), r'\<lparr>jr_text := s\<rparr>)))" if "shaped \<Gamma> (\<Gamma> t) v" for v r'
      proof (cases "expect_char CHR ''}'' (jr_text r')")
        case (Inl e)
        then show ?thesis using clean_Inl [OF expect_char_eats(1) Inl] by auto
      next
        case (Inr u)
        then show ?thesis
          using expect_char_eats(2) [OF Inr] that i Some by (simp add: shaped_choice_iff [OF assms(5,6)])
      qed
      have "advances (shaped \<Gamma> def) (r\<lparr>jr_text := s\<rparr>) (rbind (codec (renamed (m_name alt) (\<Gamma> t)) x (r\<lparr>jr_text := s\<rparr>)) (\<lambda>(v, r).
                        rbind (expect_char CHR ''}'' (jr_text r)) (\<lambda>s.
                          Inr (V_Choice (int i + 1) (Some v), r\<lparr>jr_text := s\<rparr>))))"
        by (rule advances_bind [OF call]) (use close in simp)
      then show ?thesis by (simp only: pick_def q option.case prod.case Some x(1))
    qed (simp add: pick_def q)
  qed (simp add: pick_def)
  have whole: "jer_choice_decode codec \<Gamma> def dest r =
      rbind (expect_char CHR ''{'' (jr_text r)) (\<lambda>s. rbind (read_json_string s) (\<lambda>(key, s). rbind (expect_char CHR '':'' s) (pick key)))"
    by (simp add: jer_choice_decode_def assms(6) dest pick_def)
  show ?thesis
  proof (cases "jer_choice_decode codec \<Gamma> def dest r")
    case (Inl e)
    note expect = clean_ends_in [OF expect_char_eats(1)]
    have "ends_in (jr_memory r) (jer_choice_decode codec \<Gamma> def dest r)"
      unfolding whole
    proof (rule ends_in_rbind [OF expect], rule ends_in_rbind)
      show "ends_in (jr_memory r) (read_json_string s)" for s using string_eats [of s] by (simp add: eats_def clean_ends_in)
      have "ends_in (jr_memory r) (pick key s)" for key s using pick [of s key] by (simp add: advances_def)
      then show "ends_in (jr_memory r) (case q of (key, s) \<Rightarrow> rbind (expect_char CHR '':'' s) (pick key))" for q
        by (cases q) (auto intro: ends_in_rbind [OF expect])
    qed
    with Inl show ?thesis by (simp add: advances_def)
  next
    case (Inr q)
    obtain v r' where q: "q = (v, r')" by (cases q)
    obtain a key b c where a: "expect_char CHR ''{'' (jr_text r) = Inr a" "read_json_string a = Inr (key, b)"
      "expect_char CHR '':'' b = Inr c" "pick key c = Inr (v, r')"
      using Inr unfolding whole q by (auto simp: rbind_eq_Inr)
    have "length a < length (jr_text r)" "length b < length a" "length c < length b"
      using expect_char_eats(2) [OF a(1)] expect_char_eats(2) [OF a(3)] string_eats [of a] a(2) by (simp_all add: eats_def)
    moreover have "shaped \<Gamma> def v \<and> length (jr_text r') < length c \<and> jr_depth r' = jr_depth r \<and> jr_memory r' = jr_memory r"
      using pick [of c key] a(4) by (simp add: advances_def)
    ultimately show ?thesis unfolding Inr q by simp
  qed
qed

lemma jer_prim_constructed: "\<forall>n < 32. jer_prim_dispatch ! n \<notin> {J_SeqOf, J_Sequence, J_Choice}"
proof -
  have "\<forall>n \<in> set [0..<32]. jer_prim_dispatch ! n \<notin> {J_SeqOf, J_Sequence, J_Choice}" by code_simp
  then show ?thesis by simp
qed

lemma jer_desc_wf_renamed [simp]: "jer_desc_wf (renamed n def) = jer_desc_wf def"
  unfolding jer_desc_wf_def renamed_simps renamed_derived ..

lemma jer_handler_advances:
  assumes "depth_counts def \<Longrightarrow> child_advances \<Gamma> d codec" "env_wf \<Gamma>" "jr_depth r = d" "shaped \<Gamma> def dest" "jer_desc_wf def"
  shows "advances (shaped \<Gamma> def) r (jer_handler_decode codec \<Gamma> def dest r)"
proof -
  obtain h where h: "jer_handler_of def = Some h" using assms(5) by (auto simp: jer_desc_wf_def split: option.splits)
  have counts: "h \<in> {J_SeqOf, J_Sequence, J_Choice} \<Longrightarrow> depth_counts def"
    using h jer_prim_constructed by (cases "td_kind def") (auto simp: jer_handler_of_def depth_counts_def Let_def split: if_splits)
  have leaf: "advances (shaped \<Gamma> def) r (on_text f r)"
    if "td_per_handler def = Some g" "eats (leaf_shape g) (jr_text r) (f (jr_text r))" for f g
    by (rule advances_mono [OF advances_text [where f = f, OF that(2)]]) (rule shaped_leaf [OF that(1)])
  note wf = assms(5) [unfolded jer_desc_wf_def h option.case]
  have bits: "advances (shaped \<Gamma> def) r (on_text (jer_bit_string_decode (jr_memory r) def) r)"
    if "td_per_handler def = Some H_BitString"
    using bit_string_eats [of "jr_memory r" def "jr_text r"] shaped_leaf [OF that]
    by (cases "jer_bit_string_decode (jr_memory r) def (jr_text r)") (auto simp: on_text_def advances_def)
  show ?thesis
  proof (cases h)
    case J_SeqOf
    then show ?thesis
      using wf seqof_advances [OF assms(1) assms(2,3)] counts by (auto simp: jer_handler_decode_def h)
  next
    case J_Sequence
    then show ?thesis
      using wf sequence_advances [OF assms(1) assms(2,3,4)] counts by (auto simp: jer_handler_decode_def h split: option.splits)
  next
    case J_Choice
    then show ?thesis
      using wf choice_advances [OF assms(1) assms(2,3,4)] counts by (auto simp: jer_handler_decode_def h)
  qed (use wf in \<open>auto simp: jer_handler_decode_def h leaf_shape_def intro!: leaf null_eats boolean_eats integer_eats
      quoted_eats enum_eats bits\<close>)
qed

lemma jer_decode_fuel_advances:
  assumes "jer_env_wf \<Gamma>"
  shows "d \<le> kMaxDecodeDepth \<Longrightarrow> kMaxDecodeDepth + 1 \<le> n + d \<Longrightarrow> jer_desc_wf def \<Longrightarrow> shaped \<Gamma> def dest \<Longrightarrow> jr_depth r = d \<Longrightarrow>
    advances (shaped \<Gamma> def) r (jer_decode_fuel n \<Gamma> def dest r)"
proof (induction n arbitrary: d def dest r)
  case (Suc n)
  have env: "env_wf \<Gamma>" "\<And>t. jer_desc_wf (\<Gamma> t)" using assms by (simp_all add: jer_env_wf_def)
  show ?case
  proof (cases "depth_counts def")
    case False
    have "advances (shaped \<Gamma> def) r (jer_handler_decode (jer_decode_fuel n \<Gamma>) \<Gamma> def dest r)"
      using jer_handler_advances [OF _ env(1) refl Suc.prems(4,3)] False by blast
    then show ?thesis
      using False by (auto simp: jer_codec_decode_def Let_def Suc.prems intro: advances_bind)
  next
    case True
    let ?r = "r\<lparr>jr_depth := Suc d\<rparr>"
    show ?thesis
    proof (cases "Suc d > kMaxDecodeDepth")
      case over: True
      then show ?thesis using True Suc.prems(5) by (simp add: jer_codec_decode_def)
    next
      case False
      have child: "child_advances \<Gamma> (Suc d) (jer_decode_fuel n \<Gamma>)"
        using Suc.IH [of "Suc d" "renamed _ (\<Gamma> _)"] False Suc.prems(2) env(2) by (simp add: child_advances_def jer_desc_wf_renamed)
      have "advances (shaped \<Gamma> def) ?r (jer_handler_decode (jer_decode_fuel n \<Gamma>) \<Gamma> def dest ?r)"
        by (rule jer_handler_advances [OF child env(1) _ Suc.prems(4,3)]) simp
      then show ?thesis
        using True False Suc.prems(5)
        by (cases "jer_handler_decode (jer_decode_fuel n \<Gamma>) \<Gamma> def dest ?r")
           (auto simp: jer_codec_decode_def advances_def)
    qed
  qed
qed simp

end
