(* ===== verification/Xer_Safety.thy ===== *)
theory Xer_Safety
  imports Xer_Roundtrip Jer_Safety
begin

text \<open>
  The XER decoder on any text: every loop consumes a tag or a character, so decoding ends;
  it follows no null pointer; and an object of a type's shape stays one. \<open>takes k\<close> says of
  an operation on the text that it consumes at least \<open>k\<close> characters, \<open>moves k\<close> of one on
  the stream. The names in the tables must not be empty: \<open>parse_tag\<close> gives the empty name
  where there is no tag.
\<close>

section \<open>Consuming text\<close>

definition takes :: "nat \<Rightarrow> ('v \<Rightarrow> bool) \<Rightarrow> string \<Rightarrow> ('v \<times> string) result \<Rightarrow> bool" where
  "takes k P s m \<longleftrightarrow> clean m \<and> (\<forall>v s'. m = Inr (v, s') \<longrightarrow> P v \<and> length s' + k \<le> length s)"

definition drops :: "nat \<Rightarrow> string \<Rightarrow> string result \<Rightarrow> bool" where
  "drops k s m \<longleftrightarrow> clean m \<and> (\<forall>s'. m = Inr s' \<longrightarrow> length s' + k \<le> length s)"

lemma takes_simps [simp]:
  "takes k P s (Inl (DecodeError t n))" "takes k P s (Inr (v, s')) \<longleftrightarrow> P v \<and> length s' + k \<le> length s"
  "drops k s (Inl (DecodeError t n))" "drops k s (Inr s') \<longleftrightarrow> length s' + k \<le> length s"
  by (auto simp: takes_def drops_def)

lemma expected_takes [simp]: "takes k P s (Inl (expected_tag mark name))" "drops k s (Inl (expected_tag mark name))"
  by (simp_all add: expected_tag_def)

lemma takes_bind:
  assumes "takes k P s m" "\<And>v s'. P v \<Longrightarrow> length s' + k \<le> length s \<Longrightarrow> takes j Q s' (f (v, s'))"
  shows "takes (k + j) Q s (rbind m f)"
proof (cases m)
  case (Inr p)
  then obtain v s' where p: "m = Inr (v, s')" by (cases p) auto
  then have "P v" "length s' + k \<le> length s" using assms(1) by (simp_all add: takes_def)
  with assms(2) [of v s'] show ?thesis unfolding p by (fastforce simp: takes_def)
qed (use assms(1) in \<open>auto simp: takes_def\<close>)

lemma drops_bind:
  assumes "drops k s m" "\<And>s'. length s' + k \<le> length s \<Longrightarrow> takes j Q s' (f s')"
  shows "takes (k + j) Q s (rbind m f)"
proof (cases m)
  case (Inr s')
  then have "length s' + k \<le> length s" using assms(1) by (simp add: drops_def)
  with assms(2) [of s'] show ?thesis unfolding Inr by (fastforce simp: takes_def)
qed (use assms(1) in \<open>auto simp: drops_def takes_def\<close>)

lemma takes_longer: "takes k P t m \<Longrightarrow> length t + j \<le> length s \<Longrightarrow> i \<le> k + j \<Longrightarrow> takes i P s m"
  by (fastforce simp: takes_def)

lemma takes_mono: "takes k P s m \<Longrightarrow> (\<And>v. P v \<Longrightarrow> Q v) \<Longrightarrow> takes k Q s m"
  by (auto simp: takes_def)

lemma takes_less: "takes k P s m \<Longrightarrow> j \<le> k \<Longrightarrow> takes j P s m"
  by (fastforce simp: takes_def)

lemma takes_if: "(b \<Longrightarrow> takes k P s x) \<Longrightarrow> (\<not> b \<Longrightarrow> takes k P s y) \<Longrightarrow> takes k P s (if b then x else y)"
  by simp

lemma length_xer_skip_ws: "length (xer_skip_ws s) \<le> length s"
  by (simp add: xer_skip_ws_def length_dropWhile_le)

lemma length_skip_char: "length (snd (skip_char c s)) \<le> length s"
  by (cases s) (auto simp: skip_char_def)

lemma parse_tag_length:
  assumes "parse_tag s = (ti, s')"
  shows "length s' \<le> length s" "ti_name ti \<noteq> [] \<or> ti_closing ti \<Longrightarrow> length s' < length s"
proof -
  let ?t = "xer_skip_ws s"
  consider (no) "s' = ?t" "ti_name ti = []" "\<not> ti_closing ti" | (tag) u where "?t = CHR ''<'' # u" "length s' \<le> length u"
  proof (cases "?t = [] \<or> hd ?t \<noteq> CHR ''<''")
    case True
    then show ?thesis using assms that(1) by (auto simp: parse_tag_def Let_def)
  next
    case False
    then obtain u where u: "?t = CHR ''<'' # u" by (cases ?t) auto
    obtain c v where v: "skip_char CHR ''/'' u = (c, v)" by fastforce
    let ?w = "xer_skip_ws (dropWhile tag_name_char v)"
    obtain d x where x: "skip_char CHR ''/'' ?w = (d, x)" by fastforce
    have "s' = snd (skip_char CHR ''>'' x)" using assms by (simp add: parse_tag_def Let_def u v x)
    then have "length s' \<le> length x" by (simp add: length_skip_char)
    also have "\<dots> \<le> length ?w" using length_skip_char [of "CHR ''/''" ?w] by (simp add: x)
    also have "\<dots> \<le> length v" using length_xer_skip_ws length_dropWhile_le order_trans by blast
    also have "\<dots> \<le> length u" using length_skip_char [of "CHR ''/''" u] by (simp add: v)
    finally show ?thesis using that(2) u by blast
  qed
  then show "length s' \<le> length s" "ti_name ti \<noteq> [] \<or> ti_closing ti \<Longrightarrow> length s' < length s"
    using length_xer_skip_ws [of s] by (cases; simp)+
qed

lemma takes_tag:
  assumes "\<And>ti s'. length s' \<le> length s \<Longrightarrow> (ti_name ti \<noteq> [] \<or> ti_closing ti \<Longrightarrow> length s' < length s) \<Longrightarrow> takes k P s (f ti s')"
  shows "takes k P s (case parse_tag s of (ti, s') \<Rightarrow> f ti s')"
proof (cases "parse_tag s")
  case (Pair ti s')
  from assms [OF parse_tag_length [OF this]] show ?thesis by (simp add: Pair)
qed

lemma open_tag_drops: "name \<noteq> [] \<Longrightarrow> drops 1 s (consume_open_tag name s)"
  using parse_tag_length [of s] by (cases "parse_tag s") (auto simp: consume_open_tag_def)

lemma close_tag_drops: "drops 1 s (consume_close_tag name s)"
  using parse_tag_length [of s] by (cases "parse_tag s") (auto simp: consume_close_tag_def)

lemma read_text_length: "length (snd (read_text_content s)) \<le> length s"
  by (simp add: read_text_content_def length_dropWhile_le)

section \<open>Primitive types\<close>

text \<open>A step that fails or gives a value of the shape and reads no further.\<close>

definition gives :: "('v \<Rightarrow> bool) \<Rightarrow> 'v result \<Rightarrow> bool" where
  "gives P m \<longleftrightarrow> clean m \<and> (\<forall>v. m = Inr v \<longrightarrow> P v)"

lemma text_element_takes:
  assumes "name \<noteq> []" "\<And>t. gives P (fn t)"
  shows "takes 1 P s (text_element name fn s)"
proof -
  have "takes 0 P u (rbind (consume_close_tag name u) (\<lambda>s. rbind (fn t) (\<lambda>v. Inr (v, s))))" for u t
    by (rule takes_less [OF drops_bind [where j = 0, OF close_tag_drops]])
       (use assms(2) [of t] in \<open>cases "fn t"; auto simp: gives_def takes_def\<close>)+
  then have "takes 0 P u (let (raw, s) = read_text_content u in
       rbind (consume_close_tag name s) (\<lambda>s. rbind (fn (xer_unescape raw)) (\<lambda>v. Inr (v, s))))" for u
    unfolding Let_def split_beta by (rule takes_longer [where k = 0 and j = 0]) (simp_all add: read_text_length)
  then have "takes (1 + 0) P s (text_element name fn s)"
    unfolding text_element_def by (intro drops_bind open_tag_drops assms(1))
  then show ?thesis by simp
qed

lemma xer_null_takes:
  assumes "name \<noteq> []"
  shows "takes 1 (leaf_shape H_Null) s (xer_null_decode name s)"
  unfolding xer_null_decode_def Let_def
proof (rule takes_tag)
  fix ti and s' :: string
  assume l: "length s' \<le> length s" "ti_name ti \<noteq> [] \<or> ti_closing ti \<Longrightarrow> length s' < length s"
  have "takes 0 (leaf_shape H_Null) s' (case parse_tag s' of (cl, s) \<Rightarrow>
      if \<not> ti_closing cl \<or> ti_name cl \<noteq> name then Inl (expected_tag ''</'' name) else Inr (V_Null, s))"
    by (rule takes_tag) (simp add: leaf_shape_def)
  then show "takes 1 (leaf_shape H_Null) s (if ti_name ti \<noteq> name \<or> ti_closing ti then Inl (expected_tag ''<'' name)
      else if \<not> ti_self_closing ti then case parse_tag s' of (cl, s) \<Rightarrow>
        if \<not> ti_closing cl \<or> ti_name cl \<noteq> name then Inl (expected_tag ''</'' name) else Inr (V_Null, s)
      else Inr (V_Null, s'))"
    using l assms by (auto intro: takes_longer [where j = 1] simp: leaf_shape_def)
qed

lemma xer_boolean_takes:
  assumes "name \<noteq> []"
  shows "takes 1 (leaf_shape H_Boolean) s (xer_boolean_decode lenient name s)"
proof -
  have "takes (1 + (0 + 0)) (leaf_shape H_Boolean) s (xer_boolean_decode lenient name s)"
    unfolding xer_boolean_decode_def Let_def
  proof (intro drops_bind open_tag_drops assms)
    fix u
    let ?s = "xer_skip_ws u"
    let ?val = "if ?s \<noteq> [] \<and> hd ?s = CHR ''<'' then
                (case parse_tag ?s of (inner, s) \<Rightarrow>
                 if ti_name inner = ''true'' \<and> ti_self_closing inner then Inr (True, s)
                 else if ti_name inner = ''false'' \<and> ti_self_closing inner then Inr (False, s)
                 else Inl (DecodeError ''XER BOOLEAN: expected <true/> or <false/>'' 0))
              else if lenient then
                (if take 4 ?s = ''true'' then Inr (True, xer_skip_ws (drop 4 ?s))
                 else if take 5 ?s = ''false'' then Inr (False, xer_skip_ws (drop 5 ?s))
                 else Inl (DecodeError ''XER BOOLEAN: expected true or false'' 0))
              else Inl (DecodeError ''XER BOOLEAN: expected <true/> or <false/>'' 0)"
    have tag: "takes 0 (\<lambda>_. True) ?s (case parse_tag ?s of (inner, s) \<Rightarrow>
                 if ti_name inner = ''true'' \<and> ti_self_closing inner then Inr (True, s)
                 else if ti_name inner = ''false'' \<and> ti_self_closing inner then Inr (False, s)
                 else Inl (DecodeError ''XER BOOLEAN: expected <true/> or <false/>'' 0))"
      by (rule takes_tag) simp
    have "length (xer_skip_ws (drop k ?s)) \<le> length ?s" for k
      using length_xer_skip_ws [of "drop k ?s"] by simp
    then have "takes 0 (\<lambda>_. True) ?s ?val" using tag by simp
    then have val: "takes 0 (\<lambda>_. True) u ?val" by (rule takes_longer [where j = 0]) (simp_all add: length_xer_skip_ws)
    have close: "takes 0 (leaf_shape H_Boolean) t (rbind (consume_close_tag name t) (\<lambda>s. Inr (V_Boolean b, s)))" for b t
      by (rule takes_less [OF drops_bind [where j = 0, OF close_tag_drops]]) (simp_all add: leaf_shape_def)
    show "takes (0 + 0) (leaf_shape H_Boolean) u (rbind ?val (\<lambda>(b, s). rbind (consume_close_tag name s) (\<lambda>s. Inr (V_Boolean b, s))))"
      by (rule takes_bind [OF val]) (simp only: prod.case close)
  qed
  then show ?thesis by simp
qed

lemma xer_integer_gives:
  "gives (leaf_shape (if c_int_kind c = INT_U64 then H_UInteger else H_Integer)) (xer_integer_value c t)"
  by (auto simp: gives_def xer_integer_value_def leaf_shape_def Let_def split: option.splits)

lemma scan_bits_takes: "takes 0 (\<lambda>_. True) s (rbind (scan_bits content h s) (\<lambda>(c, h, s). Inr ((c, h), s)))"
proof (induction content h s rule: scan_bits.induct)
  case (2 content h c s)
  have longer: "takes 0 (\<lambda>_. True) s m \<Longrightarrow> takes 0 (\<lambda>_. True) (c # s) m" for m :: "((string \<times> bool) \<times> string) result"
    by (erule takes_longer [where j = 1]) simp_all
  show ?case using 2 longer by auto
qed simp

lemma xer_bit_string_takes:
  assumes "name \<noteq> []"
  shows "takes 1 (leaf_shape H_BitString) s (xer_bit_string_decode lenient name s)"
proof -
  let ?fin = "\<lambda>content has_hex s. rbind (consume_close_tag name s) (\<lambda>s.
       if has_hex \<and> \<not> lenient then
         Inl (DecodeError ''XER: hex BIT STRING requires lenient mode (non-standard extension)'' 0)
       else if content = [] then Inr (V_BitString \<lparr>bs_bytes = [], bs_unused = 0\<rparr>, s)
       else if has_hex then
         (if odd (length content) then Inl (DecodeError ''XER: odd-length hex BIT STRING'' 0)
          else Inr (V_BitString \<lparr>bs_bytes = parse_hex_str content, bs_unused = 0\<rparr>, s))
       else Inr (V_BitString (pack_bits content), s))"
  have "takes (1 + (0 + 0)) (leaf_shape H_BitString) s (xer_bit_string_decode lenient name s)"
    unfolding xer_bit_string_decode_def
  proof (intro drops_bind open_tag_drops assms)
    fix u
    have scan: "takes 0 (\<lambda>_. True) u (rbind (scan_bits [] False (xer_skip_ws u)) (\<lambda>(c, h, s). Inr ((c, h), s)))"
      by (rule takes_longer [where j = 0, OF scan_bits_takes]) (simp_all add: length_xer_skip_ws)
    have stop: "takes 0 (leaf_shape H_BitString) t (?fin content has_hex t)" for content has_hex t
      by (rule takes_less [OF drops_bind [where j = 0, OF close_tag_drops]]) (simp_all add: leaf_shape_def)
    show "takes (0 + 0) (leaf_shape H_BitString) u
        (rbind (scan_bits [] False (xer_skip_ws u)) (\<lambda>(content, has_hex, s). ?fin content has_hex s))"
    proof (cases "scan_bits [] False (xer_skip_ws u)")
      case (Inl e)
      then show ?thesis using scan by (auto simp: takes_def)
    next
      case (Inr q)
      obtain content has_hex t where q: "q = (content, has_hex, t)" by (metis prod_cases3)
      have t: "length t + 0 \<le> length u" using scan by (simp add: Inr q)
      show ?thesis unfolding Inr q rbind.simps prod.case by (rule takes_longer [OF stop t]) simp
    qed
  qed
  then show ?thesis by simp
qed

lemma utf8_text_takes: "length s < n \<Longrightarrow> takes 0 (\<lambda>_. True) s (utf8_text_loop n name out s)"
proof (induction n arbitrary: out s)
  case (Suc n)
  let ?raw = "fst (read_text_content s)" and ?t = "snd (read_text_content s)"
  have t: "length ?t \<le> length s" by (rule read_text_length)
  show ?case
  proof (cases "?t = []")
    case True
    then show ?thesis by (simp add: split_beta Let_def)
  next
    case False
    have "hd ?t = CHR ''<''" using False hd_dropWhile [of "\<lambda>c. c \<noteq> CHR ''<''" s] by (simp add: read_text_content_def)
    obtain peek rest where p: "parse_tag ?t = (peek, rest)" by fastforce
    have self: "ti_self_closing peek \<Longrightarrow> control_char_from_tag_name (ti_name peek) = Some b \<Longrightarrow> length rest < length ?t" for b
    proof -
      assume "control_char_from_tag_name (ti_name peek) = Some b"
      then have "ti_name peek \<noteq> []"
        by (auto simp: control_char_from_tag_name_def control_names_def split: if_splits)
      then show "length rest < length ?t" using parse_tag_length(2) [OF p] by simp
    qed
    have rest: "length rest \<le> length ?t" by (rule parse_tag_length(1) [OF p])
    have "takes 0 (\<lambda>_. True) s (utf8_text_loop n name u rest)" if "length rest < length ?t" for u
      by (rule takes_longer [where j = 0, OF Suc.IH]) (use that t Suc.prems in simp_all)
    then show ?thesis
      using False rest t self by (auto simp: split_beta Let_def p split: option.splits)
  qed
qed simp

lemma xer_octets_takes:
  assumes "name \<noteq> []"
  shows "takes 1 (leaf_shape H_OctetString) s (xer_octets_decode enc name s)"
proof (cases enc)
  case XER_UTF8
  have "takes (1 + 0) (\<lambda>_. True) s (decode_utf8_text name s)"
    unfolding decode_utf8_text_def by (intro drops_bind open_tag_drops assms utf8_text_takes) simp
  then have "takes ((1 + 0) + 0) (leaf_shape H_OctetString) s (rbind (decode_utf8_text name s) (\<lambda>(dec, s). Inr (V_OctetString dec, s)))"
    by (rule takes_bind) (simp add: leaf_shape_def)
  then show ?thesis by (simp add: xer_octets_decode_def XER_UTF8)
next
  case XER_BASE64
  show ?thesis unfolding xer_octets_decode_def XER_BASE64 xer_encoding.case
    by (rule text_element_takes [OF assms]) (simp add: gives_def leaf_shape_def)
next
  case XER_DEFAULT
  show ?thesis unfolding xer_octets_decode_def XER_DEFAULT xer_encoding.case
    by (rule text_element_takes [OF assms]) (simp add: gives_def leaf_shape_def)
qed

lemma xer_enum_takes:
  assumes "name \<noteq> []"
  shows "takes 1 (leaf_shape H_Enumerated) s (xer_enum_decode spec name s)"
proof -
  let ?close = "\<lambda>inner s. case parse_tag s of (cl, s) \<Rightarrow> if \<not> ti_closing cl \<or> ti_name cl \<noteq> name then Inl (expected_tag ''</'' name)
        else case entry_named (ti_name inner) (es_entries spec) of
               None \<Rightarrow> Inl (DecodeError (''XER: unknown enum value: '' @ ti_name inner) 0) | Some v \<Rightarrow> Inr (V_Enum v, s)"
  let ?mid = "\<lambda>inner s. if ti_self_closing inner then Inr s
                 else case parse_tag s of (cl, s) \<Rightarrow>
                   if \<not> ti_closing cl \<or> ti_name cl \<noteq> ti_name inner then Inl (DecodeError ''XER: malformed enum value tag'' 0) else Inr s"
  have close: "takes 0 (leaf_shape H_Enumerated) t (?close inner t)" for inner t
    by (rule takes_tag) (auto simp: leaf_shape_def split: option.splits)
  have mid: "drops 0 t (?mid inner t)" for inner t
    using parse_tag_length(1) [of t] by (cases "parse_tag t") auto
  have inner: "takes 0 (leaf_shape H_Enumerated) t (case parse_tag t of (inner, s) \<Rightarrow>
        if ti_name inner = [] \<or> ti_closing inner then Inl (DecodeError ''XER: expected enum value tag'' 0)
        else rbind (?mid inner s) (?close inner))" for t
  proof (rule takes_tag)
    fix inner and u :: string
    assume u: "length u \<le> length t"
    have "takes (0 + 0) (leaf_shape H_Enumerated) u (rbind (?mid inner u) (?close inner))"
      by (rule drops_bind [OF mid close])
    then show "takes 0 (leaf_shape H_Enumerated) t (if ti_name inner = [] \<or> ti_closing inner then Inl (DecodeError ''XER: expected enum value tag'' 0)
        else rbind (?mid inner u) (?close inner))"
      using u by (auto intro: takes_longer [where j = 0] simp del: rbind.simps)
  qed
  show ?thesis
    unfolding xer_enum_decode_def Let_def
  proof (rule takes_tag, rule takes_if)
    fix outer and u :: string
    assume l: "ti_name outer \<noteq> [] \<or> ti_closing outer \<Longrightarrow> length u < length s" "\<not> (ti_name outer \<noteq> name \<or> ti_closing outer)"
    then have "length u + 1 \<le> length s" using assms by auto
    from takes_longer [OF inner this, of 1] show "takes 1 (leaf_shape H_Enumerated) s (case parse_tag u of (inner, s) \<Rightarrow>
        if ti_name inner = [] \<or> ti_closing inner then Inl (DecodeError ''XER: expected enum value tag'' 0)
        else rbind (?mid inner s) (?close inner))" by simp
  qed simp
qed

lemma bare_takes:
  "takes 0 (leaf_shape H_Enumerated) s (bare_enum spec s)" "takes 0 (leaf_shape H_Boolean) s (bare_boolean s)"
  "ti_name (peek_xer_tag s) \<noteq> [] \<Longrightarrow> takes 1 (leaf_shape H_Enumerated) s (bare_enum spec s)"
  "ti_name (peek_xer_tag s) \<noteq> [] \<Longrightarrow> takes 1 (leaf_shape H_Boolean) s (bare_boolean s)"
proof -
  let ?mid = "\<lambda>vt s. if ti_self_closing vt then Inr s
               else case parse_tag s of (cl, s) \<Rightarrow>
                 if \<not> ti_closing cl \<or> ti_name cl \<noteq> ti_name vt then Inl (DecodeError ''XER SEQOF ENUM: malformed value tag'' 0)
                 else Inr s"
  have mid: "drops 0 t (?mid vt t)" for vt t
    using parse_tag_length(1) [of t] by (cases "parse_tag t") auto
  have rest: "takes (0 + 0) (leaf_shape H_Enumerated) t (rbind (?mid vt t) (\<lambda>s.
          case entry_named (ti_name vt) (es_entries spec) of
             None \<Rightarrow> Inl (DecodeError (''XER SEQOF ENUM: unknown value: '' @ ti_name vt) 0)
           | Some v \<Rightarrow> Inr (V_Enum v, s)))" for vt t
    by (rule drops_bind [OF mid]) (simp add: leaf_shape_def split: option.split)
  obtain vt t where p: "parse_tag s = (vt, t)" by fastforce
  note len = parse_tag_length [OF p]
  show "takes 0 (leaf_shape H_Boolean) s (bare_boolean s)" "ti_name (peek_xer_tag s) \<noteq> [] \<Longrightarrow> takes 1 (leaf_shape H_Boolean) s (bare_boolean s)"
    using len by (auto simp: bare_boolean_def p leaf_shape_def peek_xer_tag_def)
  have e: "bare_enum spec s = (if ti_closing vt \<or> ti_name vt = [] then Inl (DecodeError ''XER SEQOF ENUM: expected value tag'' 0)
      else rbind (?mid vt t) (\<lambda>s.
          case entry_named (ti_name vt) (es_entries spec) of
             None \<Rightarrow> Inl (DecodeError (''XER SEQOF ENUM: unknown value: '' @ ti_name vt) 0)
           | Some v \<Rightarrow> Inr (V_Enum v, s)))"
    by (simp add: bare_enum_def p Let_def)
  show "takes 0 (leaf_shape H_Enumerated) s (bare_enum spec s)"
    unfolding e by (intro takes_if takes_longer [OF rest, where j = 0]) (simp_all add: len(1))
  assume "ti_name (peek_xer_tag s) \<noteq> []"
  then have "length t + 1 \<le> length s" using len(2) by (simp add: peek_xer_tag_def p)
  then show "takes 1 (leaf_shape H_Enumerated) s (bare_enum spec s)"
    unfolding e by (intro takes_if takes_longer [OF rest, where j = 1]) simp_all
qed

section \<open>The stream\<close>

definition moves :: "nat \<Rightarrow> ('v \<Rightarrow> bool) \<Rightarrow> xer_reader \<Rightarrow> ('v \<times> xer_reader) result \<Rightarrow> bool" where
  "moves k P r m \<longleftrightarrow> clean m \<and>
     (\<forall>v r'. m = Inr (v, r') \<longrightarrow> P v \<and> length (xr_text r') + k \<le> length (xr_text r) \<and> xr_depth r' = xr_depth r)"

lemma moves_simps [simp]:
  "moves k P r (Inl (DecodeError t n))" "moves k P r (Inl (expected_tag mark name))"
  "moves k P r (Inr (v, r')) \<longleftrightarrow> P v \<and> length (xr_text r') + k \<le> length (xr_text r) \<and> xr_depth r' = xr_depth r"
  by (auto simp: moves_def expected_tag_def)

lemma moves_bind:
  assumes "moves k P r m" "\<And>v r'. P v \<Longrightarrow> length (xr_text r') + k \<le> length (xr_text r) \<Longrightarrow> xr_depth r' = xr_depth r \<Longrightarrow> moves j Q r' (f (v, r'))"
  shows "moves (k + j) Q r (rbind m f)"
proof (cases m)
  case (Inr p)
  then obtain v r' where p: "m = Inr (v, r')" by (cases p) auto
  then have "P v" "length (xr_text r') + k \<le> length (xr_text r)" "xr_depth r' = xr_depth r" using assms(1) by (simp_all add: moves_def)
  with assms(2) [of v r'] show ?thesis unfolding p by (fastforce simp: moves_def)
qed (use assms(1) in \<open>auto simp: moves_def\<close>)

lemma moves_drops:
  assumes "drops k (xr_text r) m" "\<And>s. length s + k \<le> length (xr_text r) \<Longrightarrow> moves j Q (r\<lparr>xr_text := s\<rparr>) (f s)"
  shows "moves (k + j) Q r (rbind m f)"
proof (cases m)
  case (Inr s)
  then have "length s + k \<le> length (xr_text r)" using assms(1) by (simp add: drops_def)
  with assms(2) [of s] show ?thesis unfolding Inr by (fastforce simp: moves_def)
qed (use assms(1) in \<open>auto simp: drops_def moves_def\<close>)

lemma moves_longer: "moves k P t m \<Longrightarrow> length (xr_text t) + j \<le> length (xr_text r) \<Longrightarrow> xr_depth t = xr_depth r \<Longrightarrow> i \<le> k + j \<Longrightarrow> moves i P r m"
  by (fastforce simp: moves_def)

lemma moves_less: "moves k P r m \<Longrightarrow> j \<le> k \<Longrightarrow> moves j P r m"
  by (fastforce simp: moves_def)

lemma moves_mono: "moves k P r m \<Longrightarrow> (\<And>v. P v \<Longrightarrow> Q v) \<Longrightarrow> moves k Q r m"
  by (auto simp: moves_def)

lemma moves_back:
  assumes "moves k P t m" "length (xr_text t) \<le> length (xr_text r)" "j \<le> k"
  shows "moves j P r (rbind m (\<lambda>(v, r'). Inr (v, r'\<lparr>xr_depth := xr_depth r\<rparr>)))"
  using assms by (cases m) (fastforce simp: moves_def)+

lemma moves_text: "takes k P (xr_text r) (f (xr_text r)) \<Longrightarrow> moves k P r (on_xer_text f r)"
  by (cases "f (xr_text r)") (auto simp: on_xer_text_def takes_def moves_def)


section \<open>Constructed types\<close>

lemma moves_if: "(b \<Longrightarrow> moves k P r x) \<Longrightarrow> (\<not> b \<Longrightarrow> moves k P r y) \<Longrightarrow> moves k P r (if b then x else y)"
  by simp

definition xer_names_wf :: "member list \<Rightarrow> bool" where
  "xer_names_wf mbrs \<longleftrightarrow> list_all (\<lambda>mbr. m_name mbr \<noteq> []) mbrs"

text \<open>What the compiler has to guarantee of a table.\<close>

definition xer_desc_wf :: "type_desc \<Rightarrow> bool" where
  "xer_desc_wf def \<longleftrightarrow> td_name def \<noteq> [] \<and> (td_choice_spec def \<noteq> None \<longleftrightarrow> td_kind def = Choice) \<and>
     (td_enum_spec def \<noteq> None \<longrightarrow> td_per_handler def = Some H_Enumerated) \<and>
     (builtin_tag def = universal UT_Boolean False \<longrightarrow> td_per_handler def = Some H_Boolean) \<and>
     (case xer_handler_of def of
        None \<Rightarrow> False
      | Some h \<Rightarrow>
         (case h of
            X_Error \<Rightarrow> True
          | X_Real \<Rightarrow> False
          | X_Null \<Rightarrow> td_per_handler def = Some H_Null
          | X_Boolean \<Rightarrow> td_per_handler def = Some H_Boolean
          | X_Integer \<Rightarrow> td_per_handler def = Some (if c_int_kind (td_constraints def) = INT_U64 then H_UInteger else H_Integer)
          | X_BitString \<Rightarrow> td_per_handler def = Some H_BitString
          | X_OctetString \<Rightarrow> td_per_handler def = Some H_OctetString
          | X_Any \<Rightarrow> td_per_handler def = Some H_Any
          | X_Oid \<Rightarrow> td_per_handler def = Some H_Oid
          | X_RelOid \<Rightarrow> td_per_handler def = Some H_RelOid
          | X_UtcTime \<Rightarrow> td_per_handler def = Some H_String
          | X_GenTime \<Rightarrow> td_per_handler def = Some H_String
          | X_String \<Rightarrow> td_per_handler def = Some H_String
          | X_HexString \<Rightarrow> td_per_handler def = Some H_String
          | X_WideString _ \<Rightarrow> td_per_handler def = Some H_String
          | X_Enumerated \<Rightarrow> td_per_handler def = Some H_Enumerated \<and> td_enum_spec def \<noteq> None
          | X_SeqOf \<Rightarrow> td_per_handler def = Some H_SeqOf \<and>
              (case td_seq_of_spec def of None \<Rightarrow> False | Some spec \<Rightarrow> sos_element_xer_tag spec \<noteq> Some [])
          | X_Sequence \<Rightarrow> td_per_handler def = Some H_Sequence \<and>
              (case td_sequence_spec def of None \<Rightarrow> False | Some spec \<Rightarrow> jer_rows_wf spec \<and> xer_names_wf (ss_members spec))
          | X_Choice \<Rightarrow> td_per_handler def = Some H_Choice \<and>
              (case td_choice_spec def of None \<Rightarrow> False | Some spec \<Rightarrow> xer_names_wf (cs_alternatives spec))))"

definition xer_env_wf :: "type_env \<Rightarrow> bool" where
  "xer_env_wf \<Gamma> \<longleftrightarrow> env_wf \<Gamma> \<and> (\<forall>t. xer_desc_wf (\<Gamma> t))"

lemma xer_desc_wf_renamed: "n \<noteq> [] \<Longrightarrow> xer_desc_wf def \<Longrightarrow> xer_desc_wf (renamed n def)"
  unfolding xer_desc_wf_def renamed_simps renamed_derived xer_renamed by simp

text \<open>The nested calls, made at nesting depth \<open>d\<close>.\<close>

definition child_moves :: "type_env \<Rightarrow> nat \<Rightarrow> xer_decoder \<Rightarrow> bool" where
  "child_moves \<Gamma> d codec \<longleftrightarrow>
     (\<forall>t name dest r. xr_depth r = d \<longrightarrow> name \<noteq> [] \<longrightarrow> shaped \<Gamma> (\<Gamma> t) dest \<longrightarrow>
        moves 1 (shaped \<Gamma> (\<Gamma> t)) r (codec (renamed name (\<Gamma> t)) dest r))"

lemma child_movesD:
  "child_moves \<Gamma> d codec \<Longrightarrow> xr_depth r = d \<Longrightarrow> name \<noteq> [] \<Longrightarrow> shaped \<Gamma> (\<Gamma> t) dest \<Longrightarrow>
     moves 1 (shaped \<Gamma> (\<Gamma> t)) r (codec (renamed name (\<Gamma> t)) dest r)"
  by (simp add: child_moves_def)

lemma element_moves:
  assumes "child_moves \<Gamma> (xr_depth r) codec" "xer_desc_wf (\<Gamma> (sos_element spec))" "sos_element_xer_tag spec \<noteq> Some []"
    "ti_name (peek_xer_tag (xr_text r)) \<noteq> []" "shaped \<Gamma> (\<Gamma> (sos_element spec)) dest"
  shows "moves 1 (shaped \<Gamma> (\<Gamma> (sos_element spec))) r (xer_decode_element codec (\<Gamma> (sos_element spec)) (element_desc \<Gamma> spec) dest r)"
proof -
  let ?edef = "\<Gamma> (sos_element spec)"
  have leaf: "moves 1 (shaped \<Gamma> ?edef) r (on_xer_text f r)"
    if "td_per_handler ?edef = Some h" "takes 1 (leaf_shape h) (xr_text r) (f (xr_text r))" for f h
    by (rule moves_mono [OF moves_text [where f = f, OF that(2)]]) (rule shaped_leaf [OF that(1)])
  have "element_name \<Gamma> spec \<noteq> []" using assms(2,3) by (auto simp: element_name_def xer_desc_wf_def split: option.split)
  then have call: "moves 1 (shaped \<Gamma> ?edef) r (codec (element_desc \<Gamma> spec) dest r)"
    unfolding element_desc_renamed by (rule child_movesD [OF assms(1) refl _ assms(5)])
  have "builtin_tag ?edef = universal UT_Boolean False \<Longrightarrow> td_per_handler ?edef = Some H_Boolean"
    "td_enum_spec ?edef \<noteq> None \<Longrightarrow> td_per_handler ?edef = Some H_Enumerated"
    using assms(2) by (simp_all add: xer_desc_wf_def)
  with leaf bare_takes(3,4) [OF assms(4)] call show ?thesis
    unfolding xer_decode_element_def Let_def by (auto split: option.split)
qed

lemma elements_move:
  assumes "child_moves \<Gamma> d codec" "env_wf \<Gamma>" "xer_desc_wf (\<Gamma> (sos_element spec))" "sos_element_xer_tag spec \<noteq> Some []"
  shows "length (xr_text r) < n \<Longrightarrow> xr_depth r = d \<Longrightarrow> \<forall>v \<in> set seq. shaped \<Gamma> (\<Gamma> (sos_element spec)) v \<Longrightarrow> k \<le> length seq \<Longrightarrow>
    moves 0 (\<lambda>vs. \<forall>v \<in> set vs. shaped \<Gamma> (\<Gamma> (sos_element spec)) v) r
      (xer_decode_elements n codec name (\<Gamma> (sos_element spec)) (element_desc \<Gamma> spec) seq k r)"
proof (induction n arbitrary: seq k r)
  case (Suc n)
  let ?edef = "\<Gamma> (sos_element spec)" and ?P = "\<lambda>vs. \<forall>v \<in> set vs. shaped \<Gamma> (\<Gamma> (sos_element spec)) v"
  let ?seq = "seq_resize ?edef (k + 1) seq"
  obtain ti s where p: "parse_tag (xr_text r) = (ti, s)" by fastforce
  have len: "length ?seq = Suc k" using Suc.prems(4) by (simp add: seq_resize_def)
  have all: "\<forall>v \<in> set ?seq. shaped \<Gamma> ?edef v"
    using Suc.prems(3) assms(2) by (auto simp: seq_resize_def env_wf_def dest: in_set_takeD)
  have elem: "moves 1 (shaped \<Gamma> ?edef) r (xer_decode_element codec ?edef (element_desc \<Gamma> spec) (?seq ! k) r)" if "ti_name ti \<noteq> []"
    using assms(1,3,4) that all len Suc.prems(2) by (intro element_moves) (simp_all add: peek_xer_tag_def p)
  have step: "moves (1 + 0) ?P r (rbind (xer_decode_element codec ?edef (element_desc \<Gamma> spec) (?seq ! k) r) (\<lambda>(v, r).
          xer_decode_elements n codec name ?edef (element_desc \<Gamma> spec) (?seq[k := v]) (k + 1) r))" if "ti_name ti \<noteq> []"
  proof (rule moves_bind [OF elem [OF that]])
    fix v and r' :: xer_reader
    assume "shaped \<Gamma> ?edef v" "length (xr_text r') + 1 \<le> length (xr_text r)" "xr_depth r' = xr_depth r"
    moreover have "set (?seq[k := v]) \<subseteq> insert v (set ?seq)" by (rule set_update_subset_insert)
    ultimately show "moves 0 ?P r' (case (v, r') of (v, r) \<Rightarrow>
        xer_decode_elements n codec name ?edef (element_desc \<Gamma> spec) (?seq[k := v]) (k + 1) r)"
      using Suc.prems(1,2) all len by (simp only: prod.case, intro Suc.IH) auto
  qed
  show ?case
    unfolding xer_decode_elements.simps(2) p Let_def prod.case
    using parse_tag_length(1) [OF p] Suc.prems(3) moves_less [OF step, of 0]
    by (intro moves_if) auto
qed simp

lemma xer_seqof_moves:
  assumes "child_moves \<Gamma> d codec" "xer_env_wf \<Gamma>" "xr_depth r = d" "shaped \<Gamma> def dest" "td_name def \<noteq> []"
    "td_per_handler def = Some H_SeqOf" "td_seq_of_spec def = Some spec" "sos_element_xer_tag spec \<noteq> Some []"
  shows "moves 1 (shaped \<Gamma> def) r (xer_seqof_decode codec \<Gamma> def dest r)"
proof -
  obtain seq where dest: "dest = V_SeqOf seq" "\<forall>v \<in> set seq. shaped \<Gamma> (\<Gamma> (sos_element spec)) v"
    using assms(4) unfolding shaped_seqof_iff [OF assms(6,7)] by blast
  obtain ti s where p: "parse_tag (xr_text r) = (ti, s)" by fastforce
  let ?loop = "xer_decode_elements (Suc (length s)) codec (td_name def) (\<Gamma> (sos_element spec)) (element_desc \<Gamma> spec) seq 0 (r\<lparr>xr_text := s\<rparr>)"
  have "moves 0 (\<lambda>vs. \<forall>v \<in> set vs. shaped \<Gamma> (\<Gamma> (sos_element spec)) v) (r\<lparr>xr_text := s\<rparr>) ?loop"
    using assms(1-3,8) dest(2) by (intro elements_move) (simp_all add: xer_env_wf_def)
  then have "moves (0 + 0) (shaped \<Gamma> def) (r\<lparr>xr_text := s\<rparr>) (rbind ?loop (\<lambda>(vs, r). Inr (V_SeqOf vs, r)))"
    by (rule moves_bind) (simp add: shaped_seqof_iff [OF assms(6,7)])
  then have loop: "moves 1 (shaped \<Gamma> def) r (rbind ?loop (\<lambda>(vs, r). Inr (V_SeqOf vs, r)))" if "ti_name ti = td_name def"
    by (rule moves_longer [where j = 1]) (use parse_tag_length(2) [OF p] that assms(5) in auto)
  show ?thesis
    unfolding xer_seqof_decode_def assms(7) dest(1) option.case asn1_value.case prod.case p Let_def
    by (intro moves_if) (simp_all add: loop del: xer_decode_elements.simps One_nat_def)
qed


lemma member_moves:
  assumes "child_moves \<Gamma> (xr_depth r) codec" "name \<noteq> []" "shaped \<Gamma> (\<Gamma> t) dest"
  shows "moves 1 (shaped \<Gamma> (\<Gamma> t)) r (xer_decode_member codec name (renamed name (\<Gamma> t)) dest r)"
proof -
  have close: "moves 0 (shaped \<Gamma> (\<Gamma> t)) r' (rbind (consume_close_tag name (xr_text r')) (\<lambda>s. Inr (v, r'\<lparr>xr_text := s\<rparr>)))"
    if "shaped \<Gamma> (\<Gamma> t) v" for v r'
    by (rule moves_less [OF moves_drops [where j = 0, OF close_tag_drops]]) (simp_all add: that)
  have "moves (1 + (1 + 0)) (shaped \<Gamma> (\<Gamma> t)) r (rbind (consume_open_tag name (xr_text r)) (\<lambda>s.
        rbind (codec (renamed name (\<Gamma> t)) dest (r\<lparr>xr_text := s\<rparr>)) (\<lambda>(v, r).
        rbind (consume_close_tag name (xr_text r)) (\<lambda>s. Inr (v, r\<lparr>xr_text := s\<rparr>)))))"
  proof (rule moves_drops [OF open_tag_drops [OF assms(2)]], rule moves_bind)
    fix s :: string
    show "moves 1 (shaped \<Gamma> (\<Gamma> t)) (r\<lparr>xr_text := s\<rparr>) (codec (renamed name (\<Gamma> t)) dest (r\<lparr>xr_text := s\<rparr>))"
      by (rule child_movesD [OF assms(1) _ assms(2,3)]) simp
  qed (simp only: prod.case close)
  from moves_less [OF this, of 1] child_movesD [OF assms(1) refl assms(2,3)] show ?thesis
    unfolding xer_decode_member_def by (intro moves_if) simp_all
qed

lemma xer_members_move:
  assumes "child_moves \<Gamma> d codec" "env_wf \<Gamma>" "jer_rows_wf spec" "xer_names_wf (ss_members spec)"
  shows "mbrs = drop i (ss_members spec) \<Longrightarrow> xr_depth r = d \<Longrightarrow> rows_ok \<Gamma> spec ms \<Longrightarrow>
    moves 0 (rows_ok \<Gamma> spec) r (xer_decode_members codec \<Gamma> i mbrs ms r)"
proof (induction mbrs arbitrary: i ms r)
  case (Cons mbr mbrs)
  have i: "i < length (ss_members spec)" "ss_members spec ! i = mbr" "mbrs = drop (Suc i) (ss_members spec)"
    using drop_eq_Cons [OF Cons.prems(1) [symmetric]] by auto
  have name: "m_name mbr \<noteq> []" using assms(4) i(1,2) by (auto simp: xer_names_wf_def list_all_length)
  note IH = Cons.IH [OF i(3)]
  show ?case
  proof (cases "m_type mbr")
    case None
    then show ?thesis using IH Cons.prems(2,3) by simp
  next
    case (Some t)
    let ?pk = "peek_xer_tag (xr_text r)"
    let ?present = "ti_name ?pk = m_name mbr \<and> \<not> ti_closing ?pk \<and> \<not> ti_self_closing ?pk"
    show ?thesis
    proof (cases "m_optional mbr \<and> \<not> ?present")
      case True
      have "rows_ok \<Gamma> spec (set_present \<Gamma> mbr i False ms)"
        using rows_set_present [OF Cons.prems(3) assms(2) i(1), of False] i(2) True by simp
      moreover have "xer_decode_members codec \<Gamma> i (mbr # mbrs) ms r
          = xer_decode_members codec \<Gamma> (Suc i) mbrs (set_present \<Gamma> mbr i False ms) r"
        using True Some by (auto simp: Let_def)
      ultimately show ?thesis using IH Cons.prems(2) by simp
    next
      case False
      let ?ms = "if m_optional mbr then set_present \<Gamma> mbr i True ms else ms"
      note place = jer_member_place [OF assms(3) Cons.prems(3) assms(2) i(1,2) Some]
      obtain x where x: "member_ptr ?ms i = Some x" "shaped \<Gamma> (\<Gamma> t) x" using place(2) by blast
      let ?call = "xer_decode_member codec (m_name mbr) (renamed (m_name mbr) (\<Gamma> t)) x r"
      have eq: "xer_decode_members codec \<Gamma> i (mbr # mbrs) ms r
          = rbind ?call (\<lambda>(v, r). xer_decode_members codec \<Gamma> (Suc i) mbrs (?ms[i := Some v]) r)"
        using False Some x(1) by (cases "m_optional mbr") (simp_all add: Let_def)
      have "moves (1 + 0) (rows_ok \<Gamma> spec) r (rbind ?call (\<lambda>(v, r). xer_decode_members codec \<Gamma> (Suc i) mbrs (?ms[i := Some v]) r))"
      proof (rule moves_bind [OF member_moves])
        show "child_moves \<Gamma> (xr_depth r) codec" using assms(1) Cons.prems(2) by simp
        fix v and r' :: xer_reader
        assume "shaped \<Gamma> (\<Gamma> t) v" "xr_depth r' = xr_depth r"
        then show "moves 0 (rows_ok \<Gamma> spec) r' (case (v, r') of (v, r) \<Rightarrow> xer_decode_members codec \<Gamma> (Suc i) mbrs (?ms[i := Some v]) r)"
          using rows_update [OF place(1) i(1), of t v] i(2) Some Cons.prems(2) by (simp only: prod.case, intro IH) simp_all
      qed (rule name, rule x(2))
      from moves_less [OF this, of 0] show ?thesis unfolding eq by simp
    qed
  qed
qed simp

lemma xer_sequence_moves:
  assumes "child_moves \<Gamma> d codec" "env_wf \<Gamma>" "xr_depth r = d" "shaped \<Gamma> def dest" "td_name def \<noteq> []"
    "td_per_handler def = Some H_Sequence" "td_sequence_spec def = Some spec" "jer_rows_wf spec" "xer_names_wf (ss_members spec)"
  shows "moves 1 (shaped \<Gamma> def) r (xer_sequence_decode codec \<Gamma> def dest r)"
proof -
  obtain ms where dest: "dest = V_Sequence ms" "rows_ok \<Gamma> spec ms"
    using assms(4) unfolding shaped_sequence_iff [OF assms(6,7)] by blast
  obtain ti s where p: "parse_tag (xr_text r) = (ti, s)" by fastforce
  let ?fin = "\<lambda>ms r. case parse_tag (xr_text r) of (ti, s) \<Rightarrow>
              if ti_name ti \<noteq> td_name def \<or> \<not> ti_closing ti then
                Inl (DecodeError (''XER SEQUENCE: expected </'' @ td_name def @ ''>'') 0)
              else Inr (V_Sequence ms, r\<lparr>xr_text := s\<rparr>)"
  have stop: "moves 0 (shaped \<Gamma> def) r' (?fin ms' r')" if "rows_ok \<Gamma> spec ms'" for ms' r'
    using parse_tag_length(1) [of "xr_text r'"] that
    by (cases "parse_tag (xr_text r')") (simp add: shaped_sequence_iff [OF assms(6,7)])
  have "moves 0 (rows_ok \<Gamma> spec) (r\<lparr>xr_text := s\<rparr>) (xer_decode_members codec \<Gamma> 0 (ss_members spec) ms (r\<lparr>xr_text := s\<rparr>))"
    using assms(3) dest(2) by (intro xer_members_move [OF assms(1,2,8,9)]) simp_all
  then have "moves (0 + 0) (shaped \<Gamma> def) (r\<lparr>xr_text := s\<rparr>)
      (rbind (xer_decode_members codec \<Gamma> 0 (ss_members spec) ms (r\<lparr>xr_text := s\<rparr>)) (\<lambda>(ms, r). ?fin ms r))"
    by (rule moves_bind) (simp only: prod.case stop)
  then have "moves 1 (shaped \<Gamma> def) r
      (rbind (xer_decode_members codec \<Gamma> 0 (ss_members spec) ms (r\<lparr>xr_text := s\<rparr>)) (\<lambda>(ms, r). ?fin ms r))" if "ti_name ti = td_name def"
    by (rule moves_longer [where j = 1]) (use parse_tag_length(2) [OF p] that assms(5) in auto)
  then show ?thesis
    unfolding xer_sequence_decode_def assms(7) dest(1) option.case asn1_value.case prod.case p Let_def
    by (intro moves_if) simp_all
qed

lemma xer_choice_moves:
  assumes "child_moves \<Gamma> d codec" "env_wf \<Gamma>" "xr_depth r = d" "shaped \<Gamma> def dest"
    "td_per_handler def = Some H_Choice" "td_choice_spec def = Some spec" "xer_names_wf (cs_alternatives spec)"
  shows "moves 1 (shaped \<Gamma> def) r (xer_choice_decode codec \<Gamma> def dest r)"
proof -
  obtain p storage where dest: "dest = V_Choice p storage"
    using assms(4) unfolding shaped_choice_iff [OF assms(5,6)] by blast
  let ?alts = "cs_alternatives spec" and ?key = "ti_name (peek_xer_tag (xr_text r))"
  show ?thesis
  proof (cases "find_named ?key 0 ?alts")
    case None
    then show ?thesis by (simp add: xer_choice_decode_def assms(6) dest)
  next
    case (Some q)
    then obtain i alt where q: "find_named ?key 0 ?alts = Some (i, alt)" by (cases q) auto
    have i: "i < length ?alts" "?alts ! i = alt" using find_named_sound [OF q] by simp_all
    have name: "m_name alt \<noteq> []" using assms(7) i by (auto simp: xer_names_wf_def list_all_length)
    show ?thesis
    proof (cases "m_type alt")
      case None
      then show ?thesis by (simp add: xer_choice_decode_def assms(6) dest q)
    next
      case (Some t)
      obtain x where x: "(if p \<noteq> int i + 1 then Some (emplace_alt \<Gamma> alt) else storage) = Some x" "shaped \<Gamma> (\<Gamma> t) x"
        using select_shaped [OF assms(2,5,6), of p storage i t] assms(4) i Some
        unfolding dest select_alternative_def by auto
      have "moves (1 + 0) (shaped \<Gamma> def) r (rbind (xer_decode_member codec (m_name alt) (renamed (m_name alt) (\<Gamma> t)) x r)
          (\<lambda>(v, r). Inr (V_Choice (int i + 1) (Some v), r)))"
        by (rule moves_bind [OF member_moves [OF _ name x(2)]])
           (use assms(1,3) i Some in \<open>simp_all add: shaped_choice_iff [OF assms(5,6)]\<close>)
      then show ?thesis
        by (simp only: xer_choice_decode_def assms(6) dest option.case asn1_value.case prod.case Let_def q Some x(1)) simp
    qed
  qed
qed

lemma xer_prim_constructed: "\<forall>n < 32. xer_prim_dispatch ! n \<notin> {X_SeqOf, X_Sequence, X_Choice}"
proof -
  have "\<forall>n \<in> set [0..<32]. xer_prim_dispatch ! n \<notin> {X_SeqOf, X_Sequence, X_Choice}" by code_simp
  then show ?thesis by simp
qed

lemma xer_handler_moves:
  assumes "depth_counts def \<Longrightarrow> child_moves \<Gamma> d codec" "xer_env_wf \<Gamma>" "xr_depth r = d" "shaped \<Gamma> def dest" "xer_desc_wf def"
  shows "moves 1 (shaped \<Gamma> def) r (xer_handler_decode codec \<Gamma> def dest r)"
proof -
  have env: "env_wf \<Gamma>" using assms(2) by (simp add: xer_env_wf_def)
  obtain h where h: "xer_handler_of def = Some h" using assms(5) by (auto simp: xer_desc_wf_def split: option.splits)
  have name: "td_name def \<noteq> []" using assms(5) by (simp add: xer_desc_wf_def)
  have counts: "h \<in> {X_SeqOf, X_Sequence, X_Choice} \<Longrightarrow> depth_counts def"
    using h xer_prim_constructed by (cases "td_kind def") (auto simp: xer_handler_of_def depth_counts_def Let_def split: if_splits)
  have leaf: "moves 1 (shaped \<Gamma> def) r (on_xer_text f r)"
    if "td_per_handler def = Some g" "takes 1 (leaf_shape g) (xr_text r) (f (xr_text r))" for f g
    by (rule moves_mono [OF moves_text [where f = f, OF that(2)]]) (rule shaped_leaf [OF that(1)])
  have elem: "takes 1 P s (text_element (td_name def) fn s)" if "\<And>t. gives P (fn t)" for P s fn
    by (rule text_element_takes [OF name that])
  have wf: "case h of
            X_Error \<Rightarrow> True
          | X_Real \<Rightarrow> False
          | X_Null \<Rightarrow> td_per_handler def = Some H_Null
          | X_Boolean \<Rightarrow> td_per_handler def = Some H_Boolean
          | X_Integer \<Rightarrow> td_per_handler def = Some (if c_int_kind (td_constraints def) = INT_U64 then H_UInteger else H_Integer)
          | X_BitString \<Rightarrow> td_per_handler def = Some H_BitString
          | X_OctetString \<Rightarrow> td_per_handler def = Some H_OctetString
          | X_Any \<Rightarrow> td_per_handler def = Some H_Any
          | X_Oid \<Rightarrow> td_per_handler def = Some H_Oid
          | X_RelOid \<Rightarrow> td_per_handler def = Some H_RelOid
          | X_UtcTime \<Rightarrow> td_per_handler def = Some H_String
          | X_GenTime \<Rightarrow> td_per_handler def = Some H_String
          | X_String \<Rightarrow> td_per_handler def = Some H_String
          | X_HexString \<Rightarrow> td_per_handler def = Some H_String
          | X_WideString _ \<Rightarrow> td_per_handler def = Some H_String
          | X_Enumerated \<Rightarrow> td_per_handler def = Some H_Enumerated \<and> td_enum_spec def \<noteq> None
          | X_SeqOf \<Rightarrow> td_per_handler def = Some H_SeqOf \<and>
              (case td_seq_of_spec def of None \<Rightarrow> False | Some spec \<Rightarrow> sos_element_xer_tag spec \<noteq> Some [])
          | X_Sequence \<Rightarrow> td_per_handler def = Some H_Sequence \<and>
              (case td_sequence_spec def of None \<Rightarrow> False | Some spec \<Rightarrow> jer_rows_wf spec \<and> xer_names_wf (ss_members spec))
          | X_Choice \<Rightarrow> td_per_handler def = Some H_Choice \<and>
              (case td_choice_spec def of None \<Rightarrow> False | Some spec \<Rightarrow> xer_names_wf (cs_alternatives spec))"
    using assms(5) by (simp add: xer_desc_wf_def h)
  show ?thesis
  proof (cases h)
    case X_SeqOf
    then show ?thesis
      using wf xer_seqof_moves [OF assms(1) assms(2,3,4) name] counts
      by (auto simp: xer_handler_decode_def h simp del: One_nat_def split: option.splits)
  next
    case X_Sequence
    then show ?thesis
      using wf xer_sequence_moves [OF assms(1) env assms(3,4) name] counts
      by (auto simp: xer_handler_decode_def h simp del: One_nat_def split: option.splits)
  next
    case X_Choice
    then show ?thesis
      using wf xer_choice_moves [OF assms(1) env assms(3,4)] counts
      by (auto simp: xer_handler_decode_def h simp del: One_nat_def split: option.splits)
  next
    case X_Integer
    then show ?thesis
      using wf leaf [where f = "text_element (td_name def) (xer_integer_value (td_constraints def))", OF _ elem] xer_integer_gives
      by (simp add: xer_handler_decode_def h Let_def del: One_nat_def)
  qed (use wf name in \<open>auto simp: xer_handler_decode_def h gives_def leaf_shape_def Let_def xer_hex_decode_def xer_oid_decode_def
      xer_string_decode_def xer_wide_decode_def simp del: One_nat_def
      intro!: leaf xer_null_takes xer_boolean_takes xer_bit_string_takes xer_octets_takes xer_enum_takes elem\<close>)
qed

lemma xer_decode_fuel_moves:
  assumes "xer_env_wf \<Gamma>"
  shows "d \<le> kMaxDecodeDepth \<Longrightarrow> kMaxDecodeDepth + 1 \<le> n + d \<Longrightarrow> xer_desc_wf def \<Longrightarrow> shaped \<Gamma> def dest \<Longrightarrow> xr_depth r = d \<Longrightarrow>
    moves 1 (shaped \<Gamma> def) r (xer_decode_fuel n \<Gamma> def dest r)"
proof (induction n arbitrary: d def dest r)
  case (Suc n)
  have wf: "\<And>t. xer_desc_wf (\<Gamma> t)" using assms by (simp add: xer_env_wf_def)
  let ?r = "if depth_counts def then r\<lparr>xr_depth := xr_depth r + 1\<rparr> else r"
  let ?wrap = "td_kind def = Choice \<and> xr_depth ?r = 1"
  show ?case
  proof (cases "depth_counts def \<and> xr_depth ?r > kMaxDecodeDepth")
    case True
    show ?thesis unfolding xer_decode_fuel.simps xer_codec_decode_def Let_def by (subst if_P [OF True]) simp
  next
    case False
    have name: "td_name def \<noteq> []" using Suc.prems(3) by (simp add: xer_desc_wf_def)
    have child: "child_moves \<Gamma> (Suc d) (xer_decode_fuel n \<Gamma>)" if "depth_counts def"
      using Suc.IH [of "Suc d" "renamed _ (\<Gamma> _)"] that False Suc.prems(2,5) xer_desc_wf_renamed [OF _ wf] by (simp add: child_moves_def)
    have handler: "moves 1 (shaped \<Gamma> def) (?r\<lparr>xr_text := s\<rparr>) (xer_handler_decode (xer_decode_fuel n \<Gamma>) \<Gamma> def dest (?r\<lparr>xr_text := s\<rparr>))" for s
      by (rule xer_handler_moves [OF _ assms refl Suc.prems(4,3)]) (use child Suc.prems(5) in simp)
    have open_wrap: "drops 0 u (if ?wrap then consume_open_tag (td_name def) u else Inr u)" for u
      using open_tag_drops [OF name, of u] by (auto simp: drops_def)
    have close_wrap: "drops 0 t (if ?wrap then consume_close_tag (td_name def) t else Inr t)" for t
      using close_tag_drops [of t "td_name def"] by (auto simp: drops_def)
    let ?undo = "\<lambda>m. rbind m (\<lambda>(v, r'). Inr (v, r'\<lparr>xr_depth := xr_depth r\<rparr>))"
    have stop: "moves (0 + 0) (shaped \<Gamma> def) r' (rbind (if ?wrap then consume_close_tag (td_name def) (xr_text r') else Inr (xr_text r'))
          (\<lambda>s. Inr (v, r'\<lparr>xr_text := s\<rparr>)))" if "shaped \<Gamma> def v" for v r'
      by (rule moves_drops [OF close_wrap]) (simp add: that)
    have "moves (0 + (1 + (0 + 0))) (shaped \<Gamma> def) ?r (rbind (if ?wrap then consume_open_tag (td_name def) (xr_text ?r) else Inr (xr_text ?r)) (\<lambda>s.
        rbind (xer_handler_decode (xer_decode_fuel n \<Gamma>) \<Gamma> def dest (?r\<lparr>xr_text := s\<rparr>)) (\<lambda>(v, r).
        rbind (if ?wrap then consume_close_tag (td_name def) (xr_text r) else Inr (xr_text r)) (\<lambda>s. Inr (v, r\<lparr>xr_text := s\<rparr>)))))"
      (is "moves _ _ _ ?whole")
    proof (rule moves_drops, goal_cases)
      case 1
      show ?case by (rule open_wrap)
    next
      case (2 s)
      show ?case by (rule moves_bind [OF handler]) (simp only: prod.case stop)
    qed
    then have "moves 1 (shaped \<Gamma> def) r (?undo ?whole)" by (rule moves_back) (simp_all split: if_split)
    moreover have "xer_decode_fuel (Suc n) \<Gamma> def dest r = ?undo ?whole"
      unfolding xer_decode_fuel.simps xer_codec_decode_def Let_def
      by (subst if_not_P [OF False]) (simp only: rbind_assoc case_prod_unfold rbind.simps fst_conv snd_conv xer_reader.simps)
    ultimately show ?thesis by simp
  qed
qed simp

end
