(* ===== verification/Jer_Results.thy ===== *)
theory Jer_Results
  imports Jer_Safety Per_Sample
begin

text \<open>
  The promises of the JER codec on its entry points \<open>JerCodec::encode\<close> and
  \<open>JerCodec::decode\<close>: round trip, type safety and termination on any text, and the cases
  in which the decoder takes what it should reject or leaves out what it should set.
\<close>

section \<open>Text formats\<close>

text \<open>What is written is read back in front of any text it can stand in front of.\<close>

locale text_codec =
  fixes put :: "'a \<Rightarrow> string"
    and get :: "string \<Rightarrow> ('a \<times> string) result"
    and valid :: "'a \<Rightarrow> bool"
    and follows :: "string \<Rightarrow> bool"
  assumes contract: "valid x \<Longrightarrow> follows post \<Longrightarrow> get (put x @ post) = Inr (x, post)"
    and follows_Nil: "follows []"
begin

lemma split_unique:
  assumes "valid x" "valid y" "follows p" "follows q" "put x @ p = put y @ q"
  shows "x = y \<and> p = q"
proof -
  have "Inr (x, p) = get (put x @ p)" by (rule contract [OF assms(1,3), symmetric])
  also have "\<dots> = Inr (y, q)" unfolding assms(5) by (rule contract [OF assms(2,4)])
  finally show ?thesis by simp
qed

lemma injective: "valid x \<Longrightarrow> valid y \<Longrightarrow> put x = put y \<Longrightarrow> x = y"
  using split_unique [of x y "[]" "[]"] follows_Nil by simp

end

definition jer_text :: "type_env \<Rightarrow> type_desc \<Rightarrow> asn1_value \<Rightarrow> string" where
  "jer_text \<Gamma> def v = jw_text (jer_encode \<Gamma> def v new_jer_writer)"

definition jer_parse :: "type_env \<Rightarrow> type_desc \<Rightarrow> asn1_value \<Rightarrow> string \<Rightarrow> (asn1_value \<times> string) result" where
  "jer_parse \<Gamma> def dest s = rbind (jer_decode \<Gamma> def dest (new_jer_reader s)) (\<lambda>(v, r). Inr (v, jr_text r))"

text \<open>The tables and the object that a JER round trip needs.\<close>

definition jer_setting :: "type_env \<Rightarrow> type_desc \<Rightarrow> asn1_value \<Rightarrow> bool" where
  "jer_setting \<Gamma> def dest \<longleftrightarrow> text_env_wf \<Gamma> \<and> kinds_ok def \<and> shaped \<Gamma> def dest"

lemma new_jer_reader_simps [simp]: "jr_text (new_jer_reader s) = s" "jr_depth (new_jer_reader s) = 0"
  by (simp_all add: new_jer_reader_def)

lemma jer_encode_passes:
  assumes "jer_setting \<Gamma> def dest" "jer_sendable \<Gamma> def v" "height v \<le> kMaxDecodeDepth"
  shows "\<not> jw_failed (jer_encode \<Gamma> def v new_jer_writer)"
    "ended post \<Longrightarrow> jer_decode \<Gamma> def dest (new_jer_reader (jer_text \<Gamma> def v @ post)) = Inr (v, new_jer_reader post)"
proof -
  obtain t where p: "jer_passes \<Gamma> (height v) (jer_encode_fuel (Suc (height v)) \<Gamma>) (jer_decode_fuel (kMaxDecodeDepth + 2) \<Gamma>) def v t"
    using jer_roundtrip_fuel [of \<Gamma> def v "Suc (height v)" "kMaxDecodeDepth + 2"] assms by (auto simp: jer_setting_def)
  note pass = jer_passesD(1) [OF p, of "td_name def", unfolded renamed_simps]
    jer_passesD(3) [OF p, of _ _ _ "td_name def", unfolded renamed_simps]
  have enc: "jer_encode \<Gamma> def v new_jer_writer = \<lparr>jw_text = t, jw_failed = False\<rparr>"
    unfolding jer_encode_def using pass(1) by (simp add: new_jer_writer_def jer_put_def)
  then show "\<not> jw_failed (jer_encode \<Gamma> def v new_jer_writer)" by simp
  assume "ended post"
  then show "jer_decode \<Gamma> def dest (new_jer_reader (jer_text \<Gamma> def v @ post)) = Inr (v, new_jer_reader post)"
    using pass(2) [of dest post 0] assms(1,3) enc
    by (simp add: jer_decode_def jer_text_def new_jer_reader_def jer_setting_def)
qed

interpretation jer: text_codec "jer_text \<Gamma> def" "jer_parse \<Gamma> def dest"
  "\<lambda>v. jer_setting \<Gamma> def dest \<and> jer_sendable \<Gamma> def v \<and> height v \<le> kMaxDecodeDepth" ended
  for \<Gamma> def dest
  by unfold_locales (auto simp: jer_parse_def jer_encode_passes(2))

section \<open>The sample schemas\<close>

lemma rich_text_env: "text_env_wf rich_env"
proof -
  have "kinds_ok (rich_env t)" for t
  proof (rule rich_env_all [of kinds_ok])
    show "kinds_ok (sample_env t)" for t by (rule sample_env_all [of kinds_ok]) (simp_all add: kinds_ok_def sample_env_def sample_defs)
  qed (simp_all add: kinds_ok_def rich_defs)
  then show ?thesis using env_wf_rich by (simp add: text_env_wf_def)
qed

lemma rich_jer_setting: "jer_setting rich_env sample_rich rich_new"
  using rich_text_env rich_shaped by (simp add: jer_setting_def kinds_ok_def sample_rich_def sample_sequence_def)

lemma rich_jer_sendable: "jer_sendable rich_env sample_rich rich_value"
proof -
  let ?src = "[Some (V_Boolean True), None, Some (V_Integer 7), Some (V_Integer 300), None, Some (V_Enum 5)]"
  have k: "td_kind sample_rich = Sequence" "td_sequence_spec sample_rich = Some rich_spec"
    by (simp_all add: sample_rich_def sample_sequence_def)
  have "\<forall>i \<in> set [0..<6]. jer_row_ok rich_spec ?src i" "jer_names_ok (ss_members rich_spec)" by code_simp+
  then have rows: "jer_rows_ok rich_spec ?src" by (simp add: jer_rows_ok_def rich_spec_rows)
  have leaf: "jer_sendable rich_env asn_DEF_Boolean (V_Boolean True)" "jer_sendable rich_env asn_DEF_Integer (V_Integer 300)"
    "jer_sendable rich_env sample_byte (V_Integer 7)" "jer_sendable rich_env sample_colour (V_Enum 5)"
    by (rule jer_leaf [where t = "''true''"], code_simp, rule jer_leaf [where t = "''300''"], code_simp,
        rule jer_leaf [where t = "''7''"], code_simp, rule jer_leaf [where t = "quoted ''blue''"], code_simp)
  have child: "\<exists>t. m_type (ss_members rich_spec ! i) = Some t \<and> jer_sendable rich_env (rich_env t) v"
    if "i < 6" "?src ! i = Some v" for i v
    using that unfolding less_6
    by (auto simp: rich_spec_def rich_members_def optional_member_def plain_member_def rich_env_simps leaf)
  show ?thesis
    unfolding rich_value_def by (rule jer_sequence [OF k rows]) (rule child, simp_all)
qed

lemma rich_jer_wf: "jer_env_wf rich_env" "jer_desc_wf sample_rich"
proof -
  have h: "jer_desc_wf (sample_env t)" for t
    by (rule sample_env_all [of jer_desc_wf]) (code_simp)+
  show "jer_desc_wf sample_rich" by code_simp
  then have "jer_desc_wf (rich_env t)" for t
    by (rule rich_env_all [of jer_desc_wf, OF h, rotated 4]) (code_simp)+
  then show "jer_env_wf rich_env" using env_wf_rich by (simp add: jer_env_wf_def)
qed

section \<open>Round trip\<close>

text \<open>
  C5: every sendable value goes through JER unchanged: encoding it raises no failure,
  and decoding its text, in front of any separator, closing bracket or whitespace, into
  any object of the type gives the value back and stops right behind the text.
\<close>

theorem jer_roundtrip:
  assumes "jer_setting \<Gamma> def dest" "jer_sendable \<Gamma> def v" "height v \<le> kMaxDecodeDepth" "ended post"
  shows "\<not> jw_failed (jer_encode \<Gamma> def v new_jer_writer) \<and>
    jer_decode \<Gamma> def dest (new_jer_reader (jw_text (jer_encode \<Gamma> def v new_jer_writer) @ post)) = Inr (v, new_jer_reader post)"
  using jer_encode_passes [OF assms(1-3)] assms(4) by (simp add: jer_text_def)

lemma jer_roundtrip_witness:
  "\<not> jw_failed (jer_encode rich_env sample_rich rich_value new_jer_writer) \<and>
    jer_decode rich_env sample_rich rich_new (new_jer_reader (jw_text (jer_encode rich_env sample_rich rich_value new_jer_writer) @ '', 7]''))
      = Inr (rich_value, new_jer_reader '', 7]'')"
  by (rule jer_roundtrip [OF rich_jer_setting rich_jer_sendable]) (simp_all add: rich_value_def kMaxDecodeDepth_def)

section \<open>Any input\<close>

text \<open>
  C6: on any text and whatever memory there is, a JER decode ends: with an error of the
  program, with an object of the type it was asked for after consuming some of the text,
  or, when memory is limited, at an allocation beyond that limit, which throws. No loop of
  the scanner runs on without reading, no null pointer is followed, and the nesting limit
  bounds the recursion.
\<close>

theorem jer_decode_type_safe:
  assumes "jer_env_wf \<Gamma>" "jer_desc_wf def" "shaped \<Gamma> def dest" "jr_depth r \<le> kMaxDecodeDepth"
  shows "(\<exists>s n. jer_decode \<Gamma> def dest r = Inl (DecodeError s n)) \<or>
    (\<exists>v r'. jer_decode \<Gamma> def dest r = Inr (v, r') \<and> shaped \<Gamma> def v \<and>
       length (jr_text r') < length (jr_text r) \<and> jr_depth r' = jr_depth r) \<or>
    (\<exists>m n. jr_memory r = Some m \<and> m < n \<and> jer_decode \<Gamma> def dest r = Inl (BadAlloc n))"
proof -
  have "advances (shaped \<Gamma> def) r (jer_decode \<Gamma> def dest r)"
    unfolding jer_decode_def using assms by (intro jer_decode_fuel_advances) simp_all
  then show ?thesis
    by (cases "jer_decode \<Gamma> def dest r") (auto simp: advances_def program_error_iff elim: beyond_memory.elims)
qed

lemma jer_decode_type_safe_witness:
  "let r = (new_jer_reader ''{,,[}'')\<lparr>jr_memory := Some 1000\<rparr> in
    (\<exists>s n. jer_decode rich_env sample_rich rich_new r = Inl (DecodeError s n)) \<or>
    (\<exists>v r'. jer_decode rich_env sample_rich rich_new r = Inr (v, r') \<and> shaped rich_env sample_rich v \<and>
       length (jr_text r') < length (jr_text r) \<and> jr_depth r' = jr_depth r) \<or>
    (\<exists>m n. jr_memory r = Some m \<and> m < n \<and> jer_decode rich_env sample_rich rich_new r = Inl (BadAlloc n))"
  unfolding Let_def
  by (rule jer_decode_type_safe [OF rich_jer_wf rich_shaped]) (simp add: new_jer_reader_def)

section \<open>What is taken or left out\<close>

text \<open>
  C36: \<open>IntegerJerHandler\<close> does not look at where \<open>from_chars\<close> stopped, so whatever follows
  the digits up to the end of the token is dropped without an error: \<open>1e3\<close>, \<open>1.5\<close> and
  \<open>1abc\<close> are all read as 1.
\<close>

theorem jer_integer_tail_ignored:
  assumes "c_int_kind c \<noteq> INT_U64" "no_digit u" "list_all (\<lambda>c. \<not> ends_token c) u" "ended post"
  shows "jer_integer_decode c (int_text (sint n) @ u @ post) = Inr (V_Integer n, post)"
proof -
  have "plain_token (int_text (sint n) @ u)" using int_text_plain [of "sint n"] assms(3) by (simp add: plain_token_def)
  then have tok: "read_json_token (int_text (sint n) @ u @ post) = Inr (int_text (sint n) @ u, post)"
    using read_json_token_plain [of "int_text (sint n) @ u"] assms(4) by simp
  have "- 0x8000000000000000 \<le> sint n" "sint n \<le> 0x7FFFFFFFFFFFFFFF" using sint_ge [of n] sint_lt [of n] by simp_all
  from from_chars_signed_text [OF this assms(2)] have "from_chars_i64 (int_text (sint n) @ u) = Some n"
    by (simp add: from_chars_i64_def)
  then show ?thesis using tok assms(1) by (simp add: jer_integer_decode_def)
qed

lemma jer_integer_tail_ignored_witness:
  "jer_integer_decode no_constraints (int_text (sint (1 :: i64)) @ ''e3'' @ ''}'') = Inr (V_Integer 1, ''}'')"
  by (rule jer_integer_tail_ignored) code_simp+

text \<open>
  A \<open>DEFAULT\<close> member that the object leaves out stays absent: unlike the BER and PER
  decoders, \<open>SequenceJerHandler::decode\<close> never calls \<open>set_default\<close>, whatever the table has
  there.
\<close>

theorem jer_default_left_absent:
  assumes "td_sequence_spec def = Some spec" "list_all (\<lambda>m. m_optional m \<and> m_has_ops m) (ss_members spec)"
    "length ms = length (ss_members spec)"
  shows "jer_sequence_decode codec \<Gamma> def (V_Sequence ms) (jer_at (''{}'' @ post) d)
    = Inr (V_Sequence (replicate (length ms) None), jer_at post d)"
proof -
  let ?all = "ss_members spec"
  have "clear_optional \<Gamma> 0 ?all ms = replicate (length ms) None"
    by (rule nth_equalityI) (use assms(2,3) in \<open>auto simp: clear_optional_nth list_all_length\<close>)
  moreover have "missing_member (replicate (length ?all) False) 0 ?all = None"
    using assms(2) by (intro missing_member_None) (simp add: list_all_length)
  ultimately show ?thesis using assms(1,3) by (simp add: jer_sequence_decode_def)
qed

lemma jer_default_left_absent_witness:
  "jer_sequence_decode (jer_decode rich_env) rich_env
      (sample_rich\<lparr>td_sequence_spec := Some (rich_spec\<lparr>ss_members := take 1 rich_members\<rparr>)\<rparr>)
      (V_Sequence [Some (V_Boolean True)]) (jer_at (''{}'' @ []) 0)
    = Inr (V_Sequence (replicate (length [Some (V_Boolean True)]) None), jer_at [] 0)"
  by (rule jer_default_left_absent [where spec = "rich_spec\<lparr>ss_members := take 1 rich_members\<rparr>"])
     (simp_all add: rich_members_def optional_member_def)

text \<open>
  The \<open>length\<close> of a BIT STRING object is added to 7 in 64 bits. A length of
  \<open>2^64 - 7\<close> or more wraps around and the decoder returns, without an error, no octets with
  one to seven unused bits, a value no BIT STRING has.
\<close>

theorem jer_bit_string_length_wraps:
  assumes "2 ^ 64 - 7 \<le> n" "n < (2 ^ 64 :: nat)"
  shows "\<exists>v. jer_bit_string_decode memory def (''{'' @ quoted ''value'' @ '':'' @ quoted (hex_encode_upper bs) @ '','' @
      quoted ''length'' @ '':'' @ to_string n @ ''}'' @ post) = Inr (V_BitString v, post) \<and> bs_bytes v = [] \<and> bs_unused v \<noteq> 0"
proof -
  define k where "k = 2 ^ 64 - n"
  have k: "1 \<le> k" "k \<le> 7" "n = 2 ^ 64 - k" using assms by (auto simp: k_def)
  have n: "(of_nat n :: u64) = - of_nat k" using k by (simp add: of_nat_diff)
  have "(7 - of_nat k :: u64) = of_nat (7 - k)" using k by (simp add: of_nat_diff)
  moreover have "7 - k < 2 ^ 64" "7 - k < 8" using k(1) by simp_all
  then have "(of_nat (7 - k) :: u64) < 8" by (simp only: word_less_nat_alt unat_of_nat) (simp add: take_bit_nat_eq_self)
  ultimately have zero: "((of_nat n + 7) div 8 :: u64) = 0" unfolding n by (simp add: div_word_less)
  have "(ucast (of_nat k :: u64) :: byte) = of_nat k" 
    using k(2) by (simp add: unsigned_of_nat take_bit_nat_eq_self)
  then have "ucast (0 * 8 - of_nat n :: u64) = (of_nat k :: byte)" unfolding n by simp
  then have "jer_bit_string_decode memory def (''{'' @ quoted ''value'' @ '':'' @ quoted (hex_encode_upper bs) @ '','' @
      quoted ''length'' @ '':'' @ to_string n @ ''}'' @ post) = Inr (V_BitString \<lparr>bs_bytes = [], bs_unused = of_nat k\<rparr>, post)"
    using bit_string_fields [OF assms(2)] zero
    by (cases memory) (simp_all add: jer_bit_string_decode_def Let_def masked_bits_def vec_resize_def)
  moreover have "unat (of_nat k :: byte) = k" using k by (simp only: unat_of_nat) (simp add: take_bit_nat_eq_self)
  then have "(of_nat k :: byte) \<noteq> 0" using k(1) by auto
  ultimately show ?thesis by simp
qed

lemma jer_bit_string_length_wraps_witness:
  "\<exists>v. jer_bit_string_decode (Some 0) asn_DEF_BitString (''{'' @ quoted ''value'' @ '':'' @ quoted (hex_encode_upper [0xFF]) @ '','' @
      quoted ''length'' @ '':'' @ to_string 18446744073709551615 @ ''}'' @ []) = Inr (V_BitString v, []) \<and>
      bs_bytes v = [] \<and> bs_unused v \<noteq> 0"
  by (rule jer_bit_string_length_wraps) simp_all

text \<open>
  C37: a text of some forty characters makes the JER decoder of a BIT STRING ask for any
  amount of memory: the octets are resized to the \<open>length\<close> that the sender names, not to
  what its hex digits fill, so every length whose octets do not fit in memory ends in an
  exception out of the decoder and not in a decode error.
\<close>

theorem jer_bit_string_length_allocates:
  assumes "jer_handler_of def = Some J_BitString" "n < 2 ^ 64 - 7" "m < (n + 7) div 8"
  shows "jer_decode \<Gamma> def dest \<lparr>jr_text = ''{'' @ quoted ''value'' @ '':'' @ quoted (hex_encode_upper bs) @ '','' @
      quoted ''length'' @ '':'' @ to_string n @ ''}'' @ post, jr_depth = 0, jr_memory = Some m\<rparr> = Inl (BadAlloc ((n + 7) div 8))"
proof -
  have n: "n < 2 ^ 64" using assms(2) by simp
  have "(of_nat n + 7 :: u64) = of_nat (n + 7)" by simp
  moreover have "unat (of_nat (n + 7) :: u64) = n + 7" using assms(2) by (simp only: unat_of_nat_u64)
  ultimately have u: "unat ((of_nat n + 7) div 8 :: u64) = (n + 7) div 8" by (simp only: unat_div) simp
  obtain k where k: "kMaxDecodeDepth + 2 = Suc k" by simp
  have "jer_bit_string_decode (Some m) def (''{'' @ quoted ''value'' @ '':'' @ quoted (hex_encode_upper bs) @ '','' @
      quoted ''length'' @ '':'' @ to_string n @ ''}'' @ post) = Inl (BadAlloc ((n + 7) div 8))"
    using bit_string_fields [OF n] u assms(3) by (simp add: jer_bit_string_decode_def Let_def)
  then show ?thesis
    unfolding jer_decode_def k using assms(1)
    by (simp add: jer_codec_decode_def jer_handler_decode_def on_text_def kMaxDecodeDepth_def del: append.simps)
qed

lemma jer_bit_string_length_allocates_witness:
  "jer_decode rich_env asn_DEF_BitString (V_BitString \<lparr>bs_bytes = [], bs_unused = 0\<rparr>)
     \<lparr>jr_text = ''{'' @ quoted ''value'' @ '':'' @ quoted (hex_encode_upper [0xFF]) @ '','' @
      quoted ''length'' @ '':'' @ to_string 18446744073709551600 @ ''}'' @ [], jr_depth = 0, jr_memory = Some (2 ^ 40)\<rparr>
   = Inl (BadAlloc ((18446744073709551600 + 7) div 8))"
proof (rule jer_bit_string_length_allocates)
  show "jer_handler_of asn_DEF_BitString = Some J_BitString" by code_simp
qed simp_all

end
