(* ===== verification/Xer_Results.thy ===== *)
theory Xer_Results
  imports Xer_Safety Jer_Results
begin

text \<open>
  The promises of the XER codec on its entry points \<open>XerCodec::encode\<close> and
  \<open>XerCodec::decode\<close>: round trip, type safety and termination on any text, and the cases
  in which what is written cannot be read back or what is read is not what was written.
\<close>

section \<open>Documents\<close>

text \<open>The document that is written, without the line feed at its end.\<close>

definition xer_text :: "type_env \<Rightarrow> type_desc \<Rightarrow> asn1_value \<Rightarrow> string" where
  "xer_text \<Gamma> def v = butlast (xw_text (xer_encode \<Gamma> def v new_xer_writer))"

definition xer_parse :: "bool \<Rightarrow> type_env \<Rightarrow> type_desc \<Rightarrow> asn1_value \<Rightarrow> string \<Rightarrow> (asn1_value \<times> string) result" where
  "xer_parse lenient \<Gamma> def dest s =
     rbind (xer_decode \<Gamma> def dest (new_xer_reader s lenient)) (\<lambda>(v, r). Inr (v, xr_text r))"

text \<open>The tables and the object that a XER round trip needs.\<close>

definition xer_setting :: "type_env \<Rightarrow> type_desc \<Rightarrow> asn1_value \<Rightarrow> bool" where
  "xer_setting \<Gamma> def dest \<longleftrightarrow>
     xer_env_ok \<Gamma> \<and> xer_kind_ok def \<and> good_name (td_name def) \<and> shaped \<Gamma> def dest \<and> fresh dest"

lemma xer_encode_passes:
  assumes "xer_setting \<Gamma> def dest" "xer_sendable \<Gamma> def v" "height v \<le> kMaxDecodeDepth"
  shows "\<not> xw_failed (xer_encode \<Gamma> def v new_xer_writer)"
    "xw_text (xer_encode \<Gamma> def v new_xer_writer) = xer_text \<Gamma> def v @ [CHR 0x0A]"
    "blank pre \<Longrightarrow> xer_decode \<Gamma> def dest (new_xer_reader (pre @ xer_text \<Gamma> def v @ post) lenient) = Inr (v, new_xer_reader post lenient)"
proof -
  obtain T where p: "xer_passes \<Gamma> (height v) (xer_encode_fuel (Suc (height v)) \<Gamma>) (xer_decode_fuel (kMaxDecodeDepth + 2) \<Gamma>) def v T"
    using xer_roundtrip_fuel [of \<Gamma> def v "Suc (height v)" "kMaxDecodeDepth + 2"] assms by (auto simp: xer_setting_def)
  let ?t = "wrapped True def (td_name def) (T 0 (td_name def))"
  have enc: "xer_encode \<Gamma> def v new_xer_writer = xer_put (?t @ [CHR 0x0A]) new_xer_writer"
    unfolding xer_encode_def using xer_passesD(1) [OF p, of "td_name def" new_xer_writer, unfolded renamed_simps]
    by (simp add: new_xer_writer_def)
  then have t: "xer_text \<Gamma> def v = ?t" by (simp add: xer_text_def xer_put_def new_xer_writer_def)
  show "\<not> xw_failed (xer_encode \<Gamma> def v new_xer_writer)"
    "xw_text (xer_encode \<Gamma> def v new_xer_writer) = xer_text \<Gamma> def v @ [CHR 0x0A]"
    unfolding t using enc by (simp_all add: xer_put_def new_xer_writer_def)
  assume "blank pre"
  then show "xer_decode \<Gamma> def dest (new_xer_reader (pre @ xer_text \<Gamma> def v @ post) lenient) = Inr (v, new_xer_reader post lenient)"
    using xer_passesD(3) [OF p, of "td_name def" pre dest "new_xer_reader (pre @ xer_text \<Gamma> def v @ post) lenient" 0 post, unfolded renamed_simps]
      assms(1,3) t
    by (simp add: xer_decode_def new_xer_reader_def xer_setting_def)
qed

interpretation xer: text_codec "xer_text \<Gamma> def" "xer_parse lenient \<Gamma> def dest"
  "\<lambda>v. xer_setting \<Gamma> def dest \<and> xer_sendable \<Gamma> def v \<and> height v \<le> kMaxDecodeDepth" "\<lambda>_. True"
  for \<Gamma> def dest lenient
proof unfold_locales
  fix v post
  assume "xer_setting \<Gamma> def dest \<and> xer_sendable \<Gamma> def v \<and> height v \<le> kMaxDecodeDepth"
  then show "xer_parse lenient \<Gamma> def dest (xer_text \<Gamma> def v @ post) = Inr (v, post)"
    using xer_encode_passes(3) [of \<Gamma> def dest v "[]"] by (simp add: xer_parse_def) (simp add: new_xer_reader_def)
qed simp

section \<open>The sample schemas\<close>

lemma rich_xer_env: "xer_env_ok rich_env"
proof -
  have "xer_kind_ok (sample_env t) \<and> fresh (td_new (sample_env t))" for t
    by (rule sample_env_all [of "\<lambda>d. xer_kind_ok d \<and> fresh (td_new d)"])
       (simp_all add: xer_kind_ok_def kinds_ok_def sample_env_def sample_defs)
  then have "xer_kind_ok (rich_env t) \<and> fresh (td_new (rich_env t))" for t
    by (rule rich_env_all [of "\<lambda>d. xer_kind_ok d \<and> fresh (td_new d)"]) (simp_all add: xer_kind_ok_def kinds_ok_def rich_defs)
  then show ?thesis using env_wf_rich by (simp add: xer_env_ok_def)
qed

lemma rich_xer_setting: "xer_setting rich_env sample_rich rich_new"
proof -
  have "xer_kind_ok sample_rich" by (simp add: xer_kind_ok_def kinds_ok_def rich_defs)
  moreover have "good_name (td_name sample_rich)" "fresh rich_new" by code_simp+
  ultimately show ?thesis using rich_xer_env rich_shaped by (simp add: xer_setting_def)
qed

lemma rich_xer_sendable: "xer_sendable rich_env sample_rich rich_value"
proof -
  let ?src = "[Some (V_Boolean True), None, Some (V_Integer 7), Some (V_Integer 300), None, Some (V_Enum 5)]"
  have k: "td_kind sample_rich = Sequence" "td_sequence_spec sample_rich = Some rich_spec"
    by (simp_all add: sample_rich_def sample_sequence_def)
  have "\<forall>i \<in> set [0..<6]. jer_row_ok rich_spec ?src i" "xer_names_ok (ss_members rich_spec)" by code_simp+
  then have rows: "xer_rows_ok rich_spec ?src" by (simp add: xer_rows_ok_def rich_spec_rows)
  have leaf: "xer_sendable rich_env asn_DEF_Boolean (V_Boolean True)" "xer_sendable rich_env asn_DEF_Integer (V_Integer 300)"
    "xer_sendable rich_env sample_byte (V_Integer 7)" "xer_sendable rich_env sample_colour (V_Enum 5)"
    by (rule xer_leaf; code_simp)+
  have child: "\<exists>t. m_type (ss_members rich_spec ! i) = Some t \<and> xer_sendable rich_env (rich_env t) v"
    if "i < 6" "?src ! i = Some v" for i v
    using that unfolding less_6
    by (auto simp: rich_spec_def rich_members_def optional_member_def plain_member_def rich_env_simps leaf)
  show ?thesis
    unfolding rich_value_def by (rule xer_sequence [OF k rows]) (rule child, simp_all)
qed

lemma rich_xer_wf: "xer_env_wf rich_env" "xer_desc_wf sample_rich"
proof -
  have h: "xer_desc_wf (sample_env t)" for t
    by (rule sample_env_all [of xer_desc_wf]) (code_simp)+
  show "xer_desc_wf sample_rich" by code_simp
  then have "xer_desc_wf (rich_env t)" for t
    by (rule rich_env_all [of xer_desc_wf, OF h, rotated 4]) (code_simp)+
  then show "xer_env_wf rich_env" using env_wf_rich by (simp add: xer_env_wf_def)
qed

section \<open>Round trip\<close>

text \<open>
  C7: every sendable value goes through XER unchanged: encoding it raises no failure, and
  decoding the document, behind any white space and in front of anything, in strict and in
  lenient mode, into any fresh object of the type gives the value back and stops at the
  line feed that ends the document.
\<close>

theorem xer_roundtrip:
  assumes "xer_setting \<Gamma> def dest" "xer_sendable \<Gamma> def v" "height v \<le> kMaxDecodeDepth" "blank pre"
  shows "\<not> xw_failed (xer_encode \<Gamma> def v new_xer_writer) \<and>
    xer_decode \<Gamma> def dest (new_xer_reader (pre @ xw_text (xer_encode \<Gamma> def v new_xer_writer) @ post) lenient)
      = Inr (v, new_xer_reader (CHR 0x0A # post) lenient)"
  using xer_encode_passes [OF assms(1-3)] assms(4) by simp

lemma xer_roundtrip_witness:
  "\<not> xw_failed (xer_encode rich_env sample_rich rich_value new_xer_writer) \<and>
    xer_decode rich_env sample_rich rich_new
      (new_xer_reader ('' '' @ xw_text (xer_encode rich_env sample_rich rich_value new_xer_writer) @ ''<Rich>'') False)
      = Inr (rich_value, new_xer_reader (CHR 0x0A # ''<Rich>'') False)"
  by (rule xer_roundtrip [OF rich_xer_setting rich_xer_sendable]) (simp_all add: rich_value_def kMaxDecodeDepth_def)

section \<open>Any input\<close>

text \<open>
  C8: on any text, in strict and in lenient mode, a XER decode ends, and either fails with
  an error of the program or leaves an object of the type it was asked for and has consumed
  some of the text: every loop consumes a tag, no null pointer is followed, and the
  nesting limit bounds the recursion.
\<close>

theorem xer_decode_type_safe:
  assumes "xer_env_wf \<Gamma>" "xer_desc_wf def" "shaped \<Gamma> def dest" "xr_depth r \<le> kMaxDecodeDepth"
  shows "(\<exists>s n. xer_decode \<Gamma> def dest r = Inl (DecodeError s n)) \<or>
    (\<exists>v r'. xer_decode \<Gamma> def dest r = Inr (v, r') \<and> shaped \<Gamma> def v \<and>
       length (xr_text r') < length (xr_text r) \<and> xr_depth r' = xr_depth r)"
proof -
  have "moves 1 (shaped \<Gamma> def) r (xer_decode \<Gamma> def dest r)"
    unfolding xer_decode_def using assms by (intro xer_decode_fuel_moves) simp_all
  then show ?thesis
    by (cases "xer_decode \<Gamma> def dest r") (auto simp: moves_def simp: program_error_iff)
qed

lemma xer_decode_type_safe_witness:
  "(\<exists>s n. xer_decode rich_env sample_rich rich_new (new_xer_reader ''<Rich><id>1</id'' True) = Inl (DecodeError s n)) \<or>
    (\<exists>v r'. xer_decode rich_env sample_rich rich_new (new_xer_reader ''<Rich><id>1</id'' True) = Inr (v, r') \<and>
       shaped rich_env sample_rich v \<and>
       length (xr_text r') < length (xr_text (new_xer_reader ''<Rich><id>1</id'' True)) \<and>
       xr_depth r' = xr_depth (new_xer_reader ''<Rich><id>1</id'' True))"
  by (rule xer_decode_type_safe [OF rich_xer_wf rich_shaped]) (simp add: new_xer_reader_def)

section \<open>Octets\<close>

text \<open>
  \<open>base64_decode\<close> gives the octets back whatever characters outside the alphabet
  (line breaks, blanks, more padding) the text of \<open>base64_encode\<close> has been spread with.
\<close>

theorem base64_spread_roundtrip:
  assumes "filter (\<lambda>c. base64_val c \<noteq> None) t = filter (\<lambda>c. base64_val c \<noteq> None) (base64_encode bs)"
  shows "base64_decode t = bs"
proof -
  have "base64_decode_from buf n (filter (\<lambda>c. base64_val c \<noteq> None) t) = base64_decode_from buf n t" for buf n t
    by (induction t arbitrary: buf n) (auto simp: Let_def split: option.split)
  then show ?thesis
    using assms base64_roundtrip [of bs] unfolding base64_decode_def by metis
qed

lemma base64_spread_roundtrip_witness: "base64_decode (''TW '' @ [CHR 0x0A] @ ''Fu=='') = [77, 97, 110]"
  by (rule base64_spread_roundtrip) code_simp

section \<open>What is lost\<close>

text \<open>
  C38: an empty SEQUENCE OF is read without touching the object: the loop resizes the
  collection only when it meets an element, so the elements an earlier value left in the
  object stay and are returned as the value of the empty element.
\<close>

theorem xer_empty_seqof_keeps_elements:
  assumes "good_name (td_name def)" "td_seq_of_spec def = Some spec" "blank pre" "blank gap"
  shows "xer_seqof_decode codec \<Gamma> def (V_SeqOf vs)
      (new_xer_reader (pre @ open_tag (td_name def) @ gap @ close_tag (td_name def) @ post) lenient)
    = Inr (V_SeqOf vs, new_xer_reader post lenient)"
  using parse_tag_written(2) [OF assms(1,4), of post]
  by (simp add: xer_seqof_decode_def assms(2) new_xer_reader_def parse_tag_written(1) [OF assms(1,3)])

lemma xer_empty_seqof_keeps_elements_witness:
  "xer_seqof_decode (xer_decode rich_env) rich_env (rich_env ''Ints'') (V_SeqOf [V_Integer 1, V_Integer 2])
      (new_xer_reader ([] @ open_tag (td_name (rich_env ''Ints'')) @ [] @ close_tag (td_name (rich_env ''Ints'')) @ []) False)
    = Inr (V_SeqOf [V_Integer 1, V_Integer 2], new_xer_reader [] False)"
proof (rule xer_empty_seqof_keeps_elements)
  show "good_name (td_name (rich_env ''Ints''))" by code_simp
  show "td_seq_of_spec (rich_env ''Ints'') = Some \<lparr>sos_element = ''INTEGER'', sos_constraints = no_constraints, sos_element_xer_tag = None\<rparr>"
    by (simp add: rich_env_def sample_env_def sample_seqof_def)
qed simp_all

text \<open>
  An ENUMERATED value that is in no entry of the table is written as a number without
  a failure, and the decoder of the same type rejects that text.
\<close>

theorem xer_enum_unknown_value:
  assumes "enum_search (es_entries spec) v 0 (int (length (es_entries spec)) - 1) < 0" "good_name name"
  shows "xer_enum_decode spec name (xer_element name (enum_text spec v)) = Inl (DecodeError ''XER: expected enum value tag'' 0)"
proof -
  obtain c u where t: "int_text (sint v) = c # u" using int_text_plain [of "sint v"] by (cases "int_text (sint v)") (auto simp: plain_token_def)
  have c: "\<not> xer_ws c" "c \<noteq> CHR ''<''" using tidy_int [of "sint v"] by (simp_all add: t tidy_def)
  have tag: "parse_tag (c # s) = (\<lparr>ti_name = [], ti_closing = False, ti_self_closing = False\<rparr>, c # s)" for s
    using c by (simp add: parse_tag_def)
  show ?thesis
    using assms(1) by (simp add: xer_enum_decode_def xer_element_def parse_written_here(1) [OF assms(2)] enum_text_def t tag)
qed

lemma xer_enum_unknown_value_witness:
  "xer_enum_decode \<lparr>es_entries = [\<lparr>ee_value = 0, ee_name = ''red''\<rparr>], es_extensible = True, es_root_count = 1, es_per_value_order = []\<rparr>
      ''c'' (xer_element ''c'' (enum_text \<lparr>es_entries = [\<lparr>ee_value = 0, ee_name = ''red''\<rparr>], es_extensible = True, es_root_count = 1,
        es_per_value_order = []\<rparr> 7)) = Inl (DecodeError ''XER: expected enum value tag'' 0)"
  by (rule xer_enum_unknown_value) code_simp+

text \<open>
  The NULL elements of a SEQUENCE OF are written under the name of their type even
  where the schema gives the element a name, while the decoder looks for that name: a
  non-empty collection is written without a failure and cannot be read.
\<close>

theorem xer_named_null_elements:
  assumes "td_seq_of_spec def = Some spec" "sos_element_xer_tag spec = Some n" "n \<noteq> td_name (\<Gamma> (sos_element spec))"
    "good_name (td_name def)" "good_name (td_name (\<Gamma> (sos_element spec)))"
    "builtin_tag (\<Gamma> (sos_element spec)) = universal UT_Null False" "td_kind (\<Gamma> (sos_element spec)) = Primitive"
    "td_enum_spec (\<Gamma> (sos_element spec)) = None" "vs \<noteq> []"
  shows "xer_seqof_decode (xer_decode \<Gamma>) \<Gamma> def (V_SeqOf [])
      (new_xer_reader (xw_text (xer_seqof_encode (xer_encode \<Gamma>) \<Gamma> def vs new_xer_writer)) lenient)
    = Inl (expected_tag ''<'' n)"
proof -
  let ?edef = "\<Gamma> (sos_element spec)"
  let ?name = "td_name def" and ?null = "td_name ?edef"
  obtain x xs where vs: "vs = x # xs" using assms(9) by (cases vs) auto
  let ?item = "\<lambda>v :: asn1_value. CHR 0x0A # indent_text 2 @ empty_tag ?null"
  define rest where "rest = concat (map ?item xs) @ indent_text 0 @ close_tag ?name @ [CHR 0x0A]"
  have "xer_value_list_element ?edef" using assms(6) by (simp add: xer_value_list_element_def universal_def)
  then have written: "xw_text (xer_seqof_encode (xer_encode \<Gamma>) \<Gamma> def vs new_xer_writer)
      = open_tag ?name @ (CHR 0x0A # indent_text 2) @ empty_tag ?null @ rest"
    using assms(6) by (simp add: xer_seqof_encode_def assms(1) vs value_list_text_def value_list_item_def new_xer_writer_def
        xer_put_def rest_def Let_def numeral_2_eq_2)
  have "xer_handler_of ?edef = Some X_Null"
    using assms(6,7) by (simp add: xer_handler_of_def universal_def xer_prim_dispatch_def)
  moreover have "\<not> depth_counts ?edef" using assms(7) by (simp add: depth_counts_def)
  moreover have tag: "parse_tag ((CHR 0x0A # indent_text 2) @ empty_tag ?null @ rest)
      = (\<lparr>ti_name = ?null, ti_closing = False, ti_self_closing = True\<rparr>, rest)"
    by (rule parse_tag_written(3) [OF assms(5)]) simp
  ultimately have null: "xer_decode \<Gamma> (renamed n ?edef) dest
      \<lparr>xr_text = (CHR 0x0A # indent_text 2) @ empty_tag ?null @ rest, xr_lenient = lenient, xr_depth = 0\<rparr> = Inl (expected_tag ''<'' n)" for dest
    using assms(3,7)
    by (simp add: xer_decode_def numeral_2_eq_2 xer_codec_decode_def Let_def xer_handler_decode_def on_xer_text_def xer_null_decode_def)
  have "builtin_tag ?edef \<noteq> universal UT_Boolean False" using assms(6) by (simp add: universal_def)
  then show ?thesis
    using tag null assms(5,8) parse_tag_written(1) [OF assms(4), of "[]" "(CHR 0x0A # indent_text 2) @ empty_tag ?null @ rest"]
    unfolding written
    by (simp add: xer_seqof_decode_def assms(1) new_xer_reader_def xer_decode_element_def element_desc_def assms(2) good_name_def)
qed

lemma xer_named_null_elements_witness:
  "xer_seqof_decode (xer_decode rich_env) rich_env
      ((sample_seqof ''Nulls'' UT_Sequence ''NULL'')\<lparr>td_seq_of_spec := Some \<lparr>sos_element = ''NULL'', sos_constraints = no_constraints,
         sos_element_xer_tag = Some ''item''\<rparr>\<rparr>) (V_SeqOf [])
      (new_xer_reader (xw_text (xer_seqof_encode (xer_encode rich_env) rich_env
        ((sample_seqof ''Nulls'' UT_Sequence ''NULL'')\<lparr>td_seq_of_spec := Some \<lparr>sos_element = ''NULL'', sos_constraints = no_constraints,
           sos_element_xer_tag = Some ''item''\<rparr>\<rparr>) [V_Null] new_xer_writer)) False)
    = Inl (expected_tag ''<'' ''item'')"
proof (rule xer_named_null_elements)
  show "td_seq_of_spec ((sample_seqof ''Nulls'' UT_Sequence ''NULL'')\<lparr>td_seq_of_spec := Some \<lparr>sos_element = ''NULL'',
      sos_constraints = no_constraints, sos_element_xer_tag = Some ''item''\<rparr>\<rparr>)
    = Some \<lparr>sos_element = ''NULL'', sos_constraints = no_constraints, sos_element_xer_tag = Some ''item''\<rparr>" by simp
qed (code_simp | simp)+

end
