(* ===== verification/Compiler_Ast.thy ===== *)
theory Compiler_Ast
  imports Text_Codecs Asn1_Constraints
begin

text \<open>
  The syntax tree of the schema compiler (\<open>compiler/src/ast\<close>): object identifier values,
  values, tags, constraints, type definitions and modules, as the parser hands them to the
  semantic analysis. A \<open>std::variant\<close> is a datatype with one constructor per alternative, a
  \<open>std::shared_ptr\<close> that may be null is an option. The tree is read only here, so a pointer
  is the node it points to. The members that none of the modelled passes reads (XER names,
  doc labels, extension group ids) are left out.
\<close>

unbundle bit_operations_syntax

section \<open>Values\<close>

text \<open>\<open>OidValue::Arc\<close>: a negative number stands for an absent one.\<close>

record oid_arc =
  arc_name :: string
  arc_number :: i64

type_synonym oid_value = "oid_arc list"

text \<open>\<open>Value\<close>. A \<open>double\<close> is kept as its 64 bits: nothing modelled here looks inside.\<close>

datatype ast_value =
    Val_Absent
  | Val_Int i64
  | Val_UInt u64
  | Val_Real u64
  | Val_Bool bool
  | Val_String string
  | Val_Oid oid_value
  | Val_Ref string string \<comment> \<open>\<open>NamedValueRef\<close>: module (may be empty) and name\<close>

section \<open>Tags and kinds of types\<close>

datatype ast_tag_class = TC_Implicit | TC_Universal | TC_Application | TC_Context | TC_Private
datatype ast_tag_mode = TM_Default | TM_Implicit | TM_Explicit

record ast_tag =
  at_class :: ast_tag_class
  at_number :: i64
  at_mode :: ast_tag_mode

definition no_tag :: ast_tag where
  "no_tag = \<lparr>at_class = TC_Context, at_number = - 1, at_mode = TM_Default\<rparr>"

definition tag_present :: "ast_tag \<Rightarrow> bool" where
  "tag_present t \<longleftrightarrow> 0 \<le>s at_number t"

datatype builtin_type =
    BT_Boolean | BT_Integer | BT_BitString | BT_OctetString | BT_Null
  | BT_ObjectIdentifier | BT_RelativeOid | BT_Real | BT_Enumerated
  | BT_Utf8String | BT_NumericString | BT_PrintableString | BT_T61String | BT_VideotexString
  | BT_Ia5String | BT_GraphicString | BT_VisibleString | BT_GeneralString
  | BT_UniversalString | BT_BmpString | BT_ObjectDescriptor
  | BT_UtcTime | BT_GeneralizedTime | BT_Any

record enum_value =
  ev_name :: string
  ev_number :: "i64 option"

datatype ast_marker = Marker_None | Marker_Optional | Marker_Default

section \<open>Types and constraints\<close>

datatype endpoint_kind = EK_Min | EK_Max | EK_Value

record range_endpoint =
  re_kind :: endpoint_kind
  re_value :: ast_value
  re_open :: bool

datatype ast_type =
    Type_Def
      (at_name: string)
      (at_body: ast_body)
      (at_members: "ast_type option list")
      (at_enum_values: "enum_value list")
      (at_tag: ast_tag)
      (at_marker: ast_marker)
      (at_default: ast_value)
      (at_constraints: "ast_constraint option list")
      (at_is_ext_marker: bool)
      (at_is_parameterized: bool)
      (at_formal_params: "string list")
      (at_value_literal: "ast_value option")
and ast_body =
    Body_None
  | Body_Builtin builtin_type
  | Body_Ref (ref_module: string) (ref_name: string) (ref_params: "ast_type option list") (ref_class_field: string)
  | Body_Sequence
  | Body_Set
  | Body_Choice
  | Body_SequenceOf "ast_type option"
  | Body_SetOf "ast_type option"
  | Body_InstanceOf string
and ast_constraint =
    Constraint (ac_body: ast_constraint_body) (ac_extensible: bool) (ac_exception: "ast_value option")
and ast_constraint_body =
    CB_None
  | CB_Range range_endpoint range_endpoint
  | CB_Value ast_value
  | CB_Size "ast_constraint option"
  | CB_From "ast_constraint option"
  | CB_WithComponent "ast_constraint option"
  | CB_Pattern string
  | CB_Contents "ast_type option" string
  | CB_ExtensionMarker
  | CB_Intersection "ast_constraint option list" bool
  | CB_Union "ast_constraint option list"
  | CB_Exception ast_value
  | CB_Table string "string list"
  | CB_Components bool "(string \<times> ast_constraint option) list"

text \<open>The defaulted members of a type definition that carries only a name and a body.\<close>

abbreviation plain_type :: "string \<Rightarrow> ast_body \<Rightarrow> ast_type" where
  "plain_type name body \<equiv>
     Type_Def name body [] [] no_tag Marker_None Val_Absent [] False False [] None"

definition is_optional_member :: "ast_type \<Rightarrow> bool" where
  "is_optional_member t \<longleftrightarrow> at_marker t = Marker_Optional \<or> at_marker t = Marker_Default"

section \<open>Modules\<close>

datatype tag_default = TD_Explicit | TD_Implicit | TD_Automatic

datatype version_policy = VP_Exact | VP_Successors | VP_Descendants

record import_list =
  imp_from :: string
  imp_oid :: oid_value
  imp_policy :: version_policy
  imp_names :: "string list"

record ast_module =
  mod_name :: string
  mod_oid :: oid_value
  mod_tag_default :: tag_default
  mod_exports_all :: bool
  mod_exports :: "string list"
  mod_imports :: "import_list list"
  mod_assignments :: "ast_type list"

section \<open>Diagnostics\<close>

text \<open>The quotation marks of the messages.\<close>

definition in_quotes :: "string \<Rightarrow> string" where
  "in_quotes s = CHR 0x27 # s @ [CHR 0x27]"

section \<open>Built-in types\<close>

text \<open>\<open>builtin_type_name\<close> and \<open>builtin_universal_tag\<close> (\<open>sema/Resolver.hpp\<close>).\<close>

fun builtin_type_name :: "builtin_type \<Rightarrow> string" where
  "builtin_type_name BT_Boolean = ''BOOLEAN''"
| "builtin_type_name BT_Integer = ''INTEGER''"
| "builtin_type_name BT_BitString = ''BIT STRING''"
| "builtin_type_name BT_OctetString = ''OCTET STRING''"
| "builtin_type_name BT_Null = ''NULL''"
| "builtin_type_name BT_ObjectIdentifier = ''OBJECT IDENTIFIER''"
| "builtin_type_name BT_RelativeOid = ''RELATIVE-OID''"
| "builtin_type_name BT_Real = ''REAL''"
| "builtin_type_name BT_Enumerated = ''ENUMERATED''"
| "builtin_type_name BT_Utf8String = ''UTF8String''"
| "builtin_type_name BT_NumericString = ''NumericString''"
| "builtin_type_name BT_PrintableString = ''PrintableString''"
| "builtin_type_name BT_T61String = ''T61String''"
| "builtin_type_name BT_VideotexString = ''VideotexString''"
| "builtin_type_name BT_Ia5String = ''IA5String''"
| "builtin_type_name BT_GraphicString = ''GraphicString''"
| "builtin_type_name BT_VisibleString = ''VisibleString''"
| "builtin_type_name BT_GeneralString = ''GeneralString''"
| "builtin_type_name BT_UniversalString = ''UniversalString''"
| "builtin_type_name BT_BmpString = ''BMPString''"
| "builtin_type_name BT_ObjectDescriptor = ''ObjectDescriptor''"
| "builtin_type_name BT_UtcTime = ''UTCTime''"
| "builtin_type_name BT_GeneralizedTime = ''GeneralizedTime''"
| "builtin_type_name BT_Any = ''ANY''"

fun builtin_universal_tag :: "builtin_type \<Rightarrow> u32" where
  "builtin_universal_tag BT_Boolean = UT_Boolean"
| "builtin_universal_tag BT_Integer = UT_Integer"
| "builtin_universal_tag BT_BitString = UT_BitString"
| "builtin_universal_tag BT_OctetString = UT_OctetString"
| "builtin_universal_tag BT_Null = UT_Null"
| "builtin_universal_tag BT_ObjectIdentifier = UT_Oid"
| "builtin_universal_tag BT_RelativeOid = UT_RelativeOid"
| "builtin_universal_tag BT_Real = UT_Real"
| "builtin_universal_tag BT_Enumerated = UT_Enumerated"
| "builtin_universal_tag BT_Utf8String = UT_Utf8String"
| "builtin_universal_tag BT_NumericString = UT_NumericString"
| "builtin_universal_tag BT_PrintableString = UT_PrintableString"
| "builtin_universal_tag BT_T61String = UT_T61String"
| "builtin_universal_tag BT_VideotexString = UT_VideotexString"
| "builtin_universal_tag BT_Ia5String = UT_Ia5String"
| "builtin_universal_tag BT_GraphicString = UT_GraphicString"
| "builtin_universal_tag BT_VisibleString = UT_VisibleString"
| "builtin_universal_tag BT_GeneralString = UT_GeneralString"
| "builtin_universal_tag BT_UniversalString = UT_UniversalString"
| "builtin_universal_tag BT_BmpString = UT_BmpString"
| "builtin_universal_tag BT_ObjectDescriptor = UT_ObjectDescriptor"
| "builtin_universal_tag BT_UtcTime = UT_UtcTime"
| "builtin_universal_tag BT_GeneralizedTime = UT_GeneralizedTime"
| "builtin_universal_tag BT_Any = 0"

text \<open>
  \<open>Resolver::string_group\<close>: 1 for the known-multiplier types and UTF8String, 2 for the other
  character string types, 0 for everything else.
\<close>

fun string_group :: "builtin_type \<Rightarrow> nat" where
  "string_group bt =
     (if bt \<in> set [BT_Utf8String, BT_PrintableString, BT_VisibleString, BT_NumericString,
        BT_UniversalString, BT_BmpString, BT_Ia5String] then 1
      else if bt \<in> set [BT_GeneralString, BT_GraphicString, BT_T61String, BT_VideotexString, BT_ObjectDescriptor] then 2
      else 0)"

lemma builtin_universal_tag_inject:
  "builtin_universal_tag a = builtin_universal_tag b \<longleftrightarrow> a = b"
  by (cases a; cases b) simp_all

end
