(* ===== verification/Oid_Matching.thy ===== *)
theory Oid_Matching
  imports Compiler_Ast "HOL-Library.List_Lexorder" "HOL-Library.Char_ord"
begin

text \<open>
  How the compiler compares the object identifier of an IMPORTS clause with that of a module
  (\<open>compiler/src/sema/Resolver.hpp\<close>): arc by arc, and under the version policies
  \<open>WITH SUCCESSORS\<close>, \<open>WITH DESCENDANTS\<close> and \<open>-fallow-newer-modules\<close>.
\<close>

unbundle bit_operations_syntax

section \<open>Matching\<close>

text \<open>\<open>number >= 0\<close>.\<close>

definition arc_numbered :: "oid_arc \<Rightarrow> bool" where
  "arc_numbered a \<longleftrightarrow> 0 \<le>s arc_number a"

definition arcs_match :: "oid_arc \<Rightarrow> oid_arc \<Rightarrow> bool" where
  "arcs_match a b =
     (if arc_numbered a \<and> arc_numbered b then arc_number a = arc_number b
      else if \<not> arc_numbered a \<and> \<not> arc_numbered b then arc_name a = arc_name b
      else False)"

definition oids_match :: "oid_value \<Rightarrow> oid_value \<Rightarrow> bool" where
  "oids_match a b \<longleftrightarrow> length a = length b \<and> list_all2 arcs_match a b"

definition oids_match_successors :: "oid_value \<Rightarrow> oid_value \<Rightarrow> bool" where
  "oids_match_successors imp avail =
     (if length imp \<noteq> length avail \<or> imp = [] then False
      else if \<not> list_all2 arcs_match (butlast imp) (butlast avail) then False
      else if arc_numbered (last imp) \<and> arc_numbered (last avail) then arc_number (last imp) \<le>s arc_number (last avail)
      else arc_name (last imp) = arc_name (last avail))"

definition oids_match_descendants :: "oid_value \<Rightarrow> oid_value \<Rightarrow> bool" where
  "oids_match_descendants imp avail \<longleftrightarrow>
     length imp \<le> length avail \<and> list_all2 arcs_match imp (take (length imp) avail)"

text \<open>
  \<open>oid_version_compare\<close>: the answers 0, -1, 2, 1 and \<open>INT_MIN\<close>. The last two arcs of the
  available module are its version; an imported arc that is missing counts as unnumbered
  with an empty name.
\<close>

datatype version_order = Same_Version | Newer | Base_Prefix | Older | Unrelated

fun compare_version_arcs :: "oid_arc list \<Rightarrow> oid_arc list \<Rightarrow> version_order" where
  "compare_version_arcs imps [] = Same_Version"
| "compare_version_arcs imps (m # ms) =
     (let a = (case imps of [] \<Rightarrow> - 1 | i # _ \<Rightarrow> arc_number i);
          an = (case imps of [] \<Rightarrow> [] | i # _ \<Rightarrow> arc_name i);
          b = arc_number m; bn = arc_name m
      in
      if a <s 0 \<or> b <s 0 then
        if an < bn then Newer else if bn < an then Older
        else compare_version_arcs (tl imps) ms
      else
        if a <s b then Newer else if b <s a then Older
        else compare_version_arcs (tl imps) ms)"

definition oid_version_compare :: "oid_value \<Rightarrow> oid_value \<Rightarrow> version_order" where
  "oid_version_compare imp avail =
     (let ai = length imp; av = length avail in
      if av < 2 then Unrelated
      else if ai > av then Unrelated
      else if av - ai > 2 then Unrelated
      else
        (let ver_start = av - 2; base_end = min ai ver_start in
         if \<not> list_all2 arcs_match (take base_end imp) (take base_end avail) then Unrelated
         else if ai \<le> ver_start then Base_Prefix
         else compare_version_arcs (drop ver_start imp) (drop ver_start avail)))"

definition oids_match_newer :: "oid_value \<Rightarrow> oid_value \<Rightarrow> bool" where
  "oids_match_newer imp avail \<longleftrightarrow> oid_version_compare imp avail \<in> {Same_Version, Newer, Base_Prefix}"

text \<open>\<open>oid_to_string\<close>.\<close>

definition oid_to_string :: "oid_value \<Rightarrow> string" where
  "oid_to_string oid =
     ''{'' @ concat (map (\<lambda>a. '' '' @ (if arc_numbered a then int_text (sint (arc_number a)) else arc_name a)) oid) @ '' }''"

section \<open>Properties\<close>

lemma arcs_match_refl [simp]: "arcs_match a a"
  by (simp add: arcs_match_def)

lemma arcs_match_sym: "arcs_match a b \<longleftrightarrow> arcs_match b a"
  by (auto simp: arcs_match_def)

lemma arcs_match_trans: "arcs_match a b \<Longrightarrow> arcs_match b c \<Longrightarrow> arcs_match a c"
  by (auto simp: arcs_match_def split: if_splits)

lemma arcs_match_all_sym: "list_all2 arcs_match as bs \<longleftrightarrow> list_all2 arcs_match bs as"
  by (auto simp: list_all2_conv_all_nth arcs_match_sym)

lemma oids_match_refl [simp]: "oids_match a a"
  by (simp add: oids_match_def list_all2_same)

lemma oids_match_sym: "oids_match a b \<longleftrightarrow> oids_match b a"
  by (auto simp: oids_match_def arcs_match_all_sym)

lemma oids_match_trans: "oids_match a b \<Longrightarrow> oids_match b c \<Longrightarrow> oids_match a c"
  unfolding oids_match_def using list_all2_trans [of arcs_match arcs_match arcs_match] arcs_match_trans by fastforce

text \<open>Every policy accepts the module whose identifier is the imported one.\<close>

lemma oids_match_successors_refl: "imp \<noteq> [] \<Longrightarrow> oids_match_successors imp imp"
  by (simp add: oids_match_successors_def list_all2_same)

lemma oids_match_descendants_refl: "oids_match_descendants imp imp"
  by (simp add: oids_match_descendants_def list_all2_same)

lemma compare_version_arcs_same: "compare_version_arcs as as = Same_Version"
  by (induction as) (simp_all add: Let_def)

lemma oids_match_newer_refl: "2 \<le> length imp \<Longrightarrow> oids_match_newer imp imp"
  by (simp add: oids_match_newer_def oid_version_compare_def Let_def list_all2_same compare_version_arcs_same)

text \<open>Which of two versions is the newer one does not depend on which of them is imported.\<close>

lemma compare_version_arcs_flip:
  "length as = length bs \<Longrightarrow> compare_version_arcs as bs = Newer \<longleftrightarrow> compare_version_arcs bs as = Older"
proof (induction as bs rule: list_induct2)
  case (Cons a as b bs)
  then show ?case by (auto simp: Let_def word_sless_alt dest: less_asym)
qed simp

text \<open>
  An import that leaves out the last arc is taken for the very version when that arc has a
  number and no name, for an older one when it has a name too.
\<close>

theorem short_import_same_version:
  "oid_version_compare [\<lparr>arc_name = [], arc_number = 1\<rparr>, \<lparr>arc_name = [], arc_number = 3\<rparr>]
     [\<lparr>arc_name = [], arc_number = 1\<rparr>, \<lparr>arc_name = [], arc_number = 3\<rparr>, \<lparr>arc_name = [], arc_number = 7\<rparr>] = Same_Version \<and>
   oid_version_compare [\<lparr>arc_name = [], arc_number = 1\<rparr>, \<lparr>arc_name = [], arc_number = 3\<rparr>]
     [\<lparr>arc_name = [], arc_number = 1\<rparr>, \<lparr>arc_name = [], arc_number = 3\<rparr>, \<lparr>arc_name = ''v'', arc_number = 7\<rparr>] = Newer"
  by code_simp

end
