(* ===== verification/Symbol_Resolution.thy ===== *)
theory Symbol_Resolution
  imports Oid_Matching
begin

text \<open>
  The symbol tables of the compiler (\<open>Resolver\<close>, \<open>compiler/src/sema/Resolver.hpp\<close>):
  collecting the definitions of all modules, resolving IMPORTS, looking names up, following
  chains of type references, and the check on chains of value references. A hash table is a
  map. The loop over a module's own table is a map update, because its keys are distinct.
\<close>

unbundle bit_operations_syntax

section \<open>State\<close>

type_synonym symbol_table = "string \<rightharpoonup> ast_type"

record resolver =
  module_symbols :: "string \<rightharpoonup> symbol_table"
  module_resolution :: "string \<rightharpoonup> symbol_table"
  module_visible :: "string \<rightharpoonup> (string \<Rightarrow> bool)"
  global_symbols :: symbol_table
  module_tag_defaults :: "string \<rightharpoonup> tag_default"
  allow_newer_modules :: bool
  bless_size :: bool
  rs_errors :: "string list"
  rs_warnings :: "string list"

definition new_resolver :: resolver where
  "new_resolver = \<lparr>module_symbols = Map.empty, module_resolution = Map.empty, module_visible = Map.empty,
     global_symbols = Map.empty, module_tag_defaults = Map.empty, allow_newer_modules = False,
     bless_size = False, rs_errors = [], rs_warnings = []\<rparr>"

definition add_error :: "string \<Rightarrow> resolver \<Rightarrow> resolver" where
  "add_error msg r = r\<lparr>rs_errors := rs_errors r @ [msg]\<rparr>"

text \<open>\<open>operator[]\<close> of a table of tables: an absent entry is a new empty one.\<close>

definition table_of :: "(string \<rightharpoonup> symbol_table) \<Rightarrow> string \<Rightarrow> symbol_table" where
  "table_of ts m = (case ts m of None \<Rightarrow> Map.empty | Some t \<Rightarrow> t)"

text \<open>A set of names is its membership test.\<close>

definition names_of :: "(string \<rightharpoonup> (string \<Rightarrow> bool)) \<Rightarrow> string \<Rightarrow> string \<Rightarrow> bool" where
  "names_of ts m = (case ts m of None \<Rightarrow> (\<lambda>n. False) | Some t \<Rightarrow> t)"

section \<open>Collecting definitions\<close>

definition collect_assignment :: "string \<Rightarrow> resolver \<Rightarrow> ast_type \<Rightarrow> resolver" where
  "collect_assignment m r def =
     (let tbl = table_of (module_symbols r) m in
      if at_name def = [] then r
      else
        (case tbl (at_name def) of
           None \<Rightarrow> r\<lparr>module_symbols := (module_symbols r)(m \<mapsto> tbl(at_name def \<mapsto> def))\<rparr>
         | Some _ \<Rightarrow> add_error (''duplicate type name '' @ in_quotes (at_name def) @ '' in module '' @ in_quotes m) r))"

definition collect_module :: "string set \<times> resolver \<Rightarrow> ast_module \<Rightarrow> string set \<times> resolver" where
  "collect_module = (\<lambda>(seen, r) m.
     if mod_name m \<in> seen then (seen, add_error (''duplicate module name '' @ in_quotes (mod_name m)) r)
     else
       (insert (mod_name m) seen,
        foldl (collect_assignment (mod_name m))
          (r\<lparr>module_tag_defaults := (module_tag_defaults r)(mod_name m \<mapsto> mod_tag_default m),
             module_symbols := (module_symbols r)(mod_name m \<mapsto> table_of (module_symbols r) (mod_name m))\<rparr>)
          (mod_assignments m)))"

definition collect :: "ast_module list \<Rightarrow> resolver \<Rightarrow> resolver" where
  "collect ms r = snd (foldl collect_module ({}, r) ms)"

section \<open>Resolving imports\<close>

definition oid_matcher :: "bool \<Rightarrow> version_policy \<Rightarrow> oid_value \<Rightarrow> oid_value \<Rightarrow> bool" where
  "oid_matcher allow_newer policy =
     (if allow_newer \<and> (policy = VP_Exact \<or> policy = VP_Successors) then oids_match_newer
      else if policy = VP_Successors then oids_match_successors
      else if policy = VP_Descendants then oids_match_descendants
      else oids_match)"

text \<open>The module an import clause means: by object identifier when there is one, else by name.\<close>

definition find_import_source :: "ast_module list \<Rightarrow> resolver \<Rightarrow> import_list \<Rightarrow> string option" where
  "find_import_source ms r imp =
     (if imp_oid imp \<noteq> [] then
        map_option mod_name
          (find (\<lambda>m. mod_oid m \<noteq> [] \<and> oid_matcher (allow_newer_modules r) (imp_policy imp) (imp_oid imp) (mod_oid m)
                   \<and> module_symbols r (mod_name m) \<noteq> None) ms)
      else if module_symbols r (imp_from imp) \<noteq> None then Some (imp_from imp) else None)"

fun policy_text :: "version_policy \<Rightarrow> string" where
  "policy_text VP_Successors = ''WITH SUCCESSORS''"
| "policy_text VP_Descendants = ''WITH DESCENDANTS''"
| "policy_text VP_Exact = ''exact''"

definition bind_symbol :: "string \<Rightarrow> string \<Rightarrow> ast_type \<Rightarrow> resolver \<Rightarrow> resolver" where
  "bind_symbol m name def r =
     r\<lparr>global_symbols := (global_symbols r)(name \<mapsto> def),
       module_visible := (module_visible r)(m \<mapsto> (\<lambda>n. n = name \<or> names_of (module_visible r) m n)),
       module_resolution := (module_resolution r)(m \<mapsto> (table_of (module_resolution r) m)(name \<mapsto> def))\<rparr>"

definition may_import :: "ast_module \<Rightarrow> string \<Rightarrow> bool" where
  "may_import src name \<longleftrightarrow> mod_exports_all src \<or> name \<in> set (mod_exports src)"

definition import_name :: "string \<Rightarrow> import_list \<Rightarrow> ast_module \<Rightarrow> symbol_table \<Rightarrow> resolver \<Rightarrow> string \<Rightarrow> resolver" where
  "import_name m imp src tbl r name =
     (if \<not> may_import src name then
        add_error (in_quotes name @ '' is not exported by module '' @ in_quotes (imp_from imp)) r
      else
        (case tbl name of
           None \<Rightarrow> r
         | Some def \<Rightarrow> bind_symbol m name def r))"

definition import_clause :: "ast_module list \<Rightarrow> string \<Rightarrow> resolver \<Rightarrow> import_list \<Rightarrow> resolver" where
  "import_clause ms m r imp =
     (if imp_from imp = m then add_error (''module '' @ in_quotes m @ '' imports from itself'') r
      else
        (case find_import_source ms r imp of
           None \<Rightarrow>
             if imp_oid imp \<noteq> [] \<and> module_symbols r (imp_from imp) \<noteq> None then
               add_error (''module '' @ in_quotes (imp_from imp) @ '': available OID does not satisfy '' @
                 policy_text (imp_policy imp) @ '' import constraint'') r
             else
               add_error (''module '' @ in_quotes (imp_from imp) @ '' imported by '' @ in_quotes m @ '' was not found'') r
         | Some name \<Rightarrow>
             if name = m then add_error (''module '' @ in_quotes m @ '' imports from itself'') r
             else
               (case find (\<lambda>s. mod_name s = name) ms of
                  None \<Rightarrow> r
                | Some src \<Rightarrow> foldl (import_name m imp src (table_of (module_symbols r) name)) r (imp_names imp))))"

text \<open>Every module sees its own symbols.\<close>

definition own_symbols :: "string \<Rightarrow> resolver \<Rightarrow> resolver" where
  "own_symbols m r =
     (let tbl = table_of (module_symbols r) m in
      r\<lparr>module_symbols := (module_symbols r)(m \<mapsto> tbl),
        global_symbols := global_symbols r ++ tbl,
        module_visible := (module_visible r)(m \<mapsto> (\<lambda>n. names_of (module_visible r) m n \<or> tbl n \<noteq> None)),
        module_resolution := (module_resolution r)(m \<mapsto> table_of (module_resolution r) m ++ tbl)\<rparr>)"

definition resolve_module :: "ast_module list \<Rightarrow> resolver \<Rightarrow> ast_module \<Rightarrow> resolver" where
  "resolve_module ms r m = foldl (import_clause ms (mod_name m)) (own_symbols (mod_name m) r) (mod_imports m)"

definition resolve_imports :: "ast_module list \<Rightarrow> resolver \<Rightarrow> resolver" where
  "resolve_imports ms r = foldl (resolve_module ms) r ms"

definition resolve_schema :: "ast_module list \<Rightarrow> resolver \<Rightarrow> resolver" where
  "resolve_schema ms r = resolve_imports ms (collect ms r)"

section \<open>Lookups\<close>

definition lookup_direct :: "resolver \<Rightarrow> string \<Rightarrow> string \<Rightarrow> ast_type option" where
  "lookup_direct r name from_module =
     (case module_resolution r from_module of
        Some t \<Rightarrow> (case t name of Some d \<Rightarrow> Some d | None \<Rightarrow> global_symbols r name)
      | None \<Rightarrow> global_symbols r name)"

definition resolve_in_module :: "resolver \<Rightarrow> string \<Rightarrow> string \<Rightarrow> ast_type option" where
  "resolve_in_module r name m =
     (case module_symbols r m of None \<Rightarrow> None | Some t \<Rightarrow> t name)"

definition lookup_value_ref :: "resolver \<Rightarrow> string \<Rightarrow> string \<Rightarrow> string \<Rightarrow> ast_type option" where
  "lookup_value_ref r m name from_module =
     (if m \<noteq> [] then resolve_in_module r name m else lookup_direct r name from_module)"

text \<open>The loop of \<open>follow_aliases\<close>, with the rounds left of its 64.\<close>

fun follow_steps :: "resolver \<Rightarrow> nat \<Rightarrow> ast_type option \<Rightarrow> string \<Rightarrow> ast_type option" where
  "follow_steps r 0 def scope = None"
| "follow_steps r (Suc n) None scope = None"
| "follow_steps r (Suc n) (Some def) scope =
     (case at_body def of
        Body_Ref m name _ _ \<Rightarrow>
          if m \<noteq> [] then
            (case resolve_in_module r name m of
               None \<Rightarrow> None
             | Some d \<Rightarrow> follow_steps r n (Some d) m)
          else follow_steps r n (lookup_direct r name scope) scope
      | _ \<Rightarrow> Some def)"

definition follow_aliases :: "resolver \<Rightarrow> ast_type \<Rightarrow> string \<Rightarrow> ast_type option" where
  "follow_aliases r def start_module = follow_steps r 64 (Some def) start_module"

text \<open>The fallback of \<open>resolve_ref\<close> in the flat table.\<close>

fun global_steps :: "resolver \<Rightarrow> nat \<Rightarrow> string \<Rightarrow> ast_type option" where
  "global_steps r 0 name = None"
| "global_steps r (Suc n) name =
     (case global_symbols r name of
        None \<Rightarrow> None
      | Some d \<Rightarrow>
          (case at_body d of
             Body_Ref _ t _ _ \<Rightarrow> global_steps r n t
           | _ \<Rightarrow> Some d))"

definition resolve_ref :: "resolver \<Rightarrow> string \<Rightarrow> string \<Rightarrow> string \<Rightarrow> ast_type option" where
  "resolve_ref r m name from_module =
     (if m \<noteq> [] then
        (case resolve_in_module r name m of
           None \<Rightarrow> None
         | Some d \<Rightarrow> follow_aliases r d m)
      else
        (case (if from_module \<noteq> [] then lookup_direct r name from_module else None) of
           Some d \<Rightarrow> follow_aliases r d from_module
         | None \<Rightarrow> global_steps r 64 name))"

section \<open>Chains of value references\<close>

text \<open>
  \<open>check_value_ref_chain\<close>: the messages it adds. \<open>None\<close> stands for a walk that does not
  end; the theorem below rules it out for every table the compiler can build.
\<close>

partial_function (option) check_value_chain ::
  "resolver \<Rightarrow> ast_type \<Rightarrow> string \<Rightarrow> string list \<Rightarrow> string list option" where
  "check_value_chain r def m path =
     (case at_default def of
        Val_Ref ref_m ref \<Rightarrow>
          if ref = [] then Some []
          else
            (let ref_mod = (if ref_m = [] then m else ref_m); qref = ref_mod @ ''.'' @ ref in
             if qref \<in> set path then
               Some [''circular value reference: '' @ in_quotes (hd path) @ '' in module '' @ in_quotes m]
             else
               (case lookup_value_ref r ref_m ref m of
                  None \<Rightarrow>
                    Some [''undefined value reference: '' @ in_quotes (if ref_m = [] then ref else ref_m @ ''.'' @ ref) @
                      '' in module '' @ in_quotes m]
                | Some d \<Rightarrow>
                    if at_default d \<noteq> Val_Absent \<and> at_marker d = Marker_None
                    then check_value_chain r d ref_mod (path @ [qref])
                    else Some []))
      | _ \<Rightarrow> Some [])"

definition check_value_assignment :: "resolver \<Rightarrow> string \<Rightarrow> ast_type \<Rightarrow> string list option" where
  "check_value_assignment r m def =
     (if at_default def = Val_Absent then Some []
      else check_value_chain r def m [m @ ''.'' @ at_name def])"

section \<open>What a module sees\<close>

lemma resolver_update_simps [simp]:
  "module_symbols (add_error msg r) = module_symbols r"
  "module_resolution (add_error msg r) = module_resolution r"
  "module_visible (add_error msg r) = module_visible r"
  "global_symbols (add_error msg r) = global_symbols r"
  "allow_newer_modules (add_error msg r) = allow_newer_modules r"
  "module_symbols (bind_symbol m n d r) = module_symbols r"
  "allow_newer_modules (bind_symbol m n d r) = allow_newer_modules r"
  "allow_newer_modules (own_symbols m r) = allow_newer_modules r"
  by (simp_all add: add_error_def bind_symbol_def own_symbols_def Let_def)

text \<open>
  \<open>imported\<close>: an import clause of \<open>A\<close> names \<open>n\<close>, its object identifier or name leads to a module
  other than \<open>A\<close> that exports \<open>n\<close>, and \<open>d\<close> is the definition there.
\<close>

definition clause_means :: "bool \<Rightarrow> import_list \<Rightarrow> ast_module \<Rightarrow> bool" where
  "clause_means allow imp src \<longleftrightarrow>
     (if imp_oid imp \<noteq> [] then mod_oid src \<noteq> [] \<and> oid_matcher allow (imp_policy imp) (imp_oid imp) (mod_oid src)
      else mod_name src = imp_from imp)"

definition imported :: "ast_module list \<Rightarrow> (string \<rightharpoonup> symbol_table) \<Rightarrow> bool \<Rightarrow> string \<Rightarrow> string \<Rightarrow> ast_type \<Rightarrow> bool" where
  "imported ms S allow A n d \<longleftrightarrow>
     (\<exists>m \<in> set ms. mod_name m = A \<and> (\<exists>imp \<in> set (mod_imports m). n \<in> set (imp_names imp) \<and>
        (\<exists>src \<in> set ms. mod_name src \<noteq> A \<and> clause_means allow imp src \<and> may_import src n \<and>
           table_of S (mod_name src) n = Some d)))"

definition scoped :: "ast_module list \<Rightarrow> (string \<rightharpoonup> symbol_table) \<Rightarrow> bool \<Rightarrow> resolver \<Rightarrow> bool" where
  "scoped ms S allow r \<longleftrightarrow>
     module_symbols r = S \<and> allow_newer_modules r = allow \<and>
     (\<forall>A n. names_of (module_visible r) A n \<longleftrightarrow> table_of (module_resolution r) A n \<noteq> None) \<and>
     (\<forall>A n d. table_of (module_resolution r) A n = Some d \<longrightarrow> table_of S A n = Some d \<or> imported ms S allow A n d)"

lemma table_of_upd [simp]: "table_of (ts(m \<mapsto> t)) A = (if A = m then t else table_of ts A)"
  by (simp add: table_of_def)

lemma names_of_upd [simp]: "names_of (ts(m \<mapsto> t)) A = (if A = m then t else names_of ts A)"
  by (simp add: names_of_def)

lemma scoped_add_error: "scoped ms S allow r \<Longrightarrow> scoped ms S allow (add_error msg r)"
  by (simp add: scoped_def)

lemma scoped_bind:
  assumes "scoped ms S allow r" "imported ms S allow m n d"
  shows "scoped ms S allow (bind_symbol m n d r)"
  using assms by (auto simp: scoped_def bind_symbol_def)

lemma scoped_own:
  assumes "scoped ms S allow r" "S m \<noteq> None"
  shows "scoped ms S allow (own_symbols m r)"
proof -
  have S: "S(m \<mapsto> table_of S m) = S" using assms(2) by (auto simp: table_of_def fun_upd_idem_iff)
  have r: "module_symbols r = S" "allow_newer_modules r = allow"
    "\<And>A n. names_of (module_visible r) A n \<longleftrightarrow> table_of (module_resolution r) A n \<noteq> None"
    "\<And>A n d. table_of (module_resolution r) A n = Some d \<Longrightarrow> table_of S A n = Some d \<or> imported ms S allow A n d"
    using assms(1) unfolding scoped_def by blast+
  have "table_of S A n = Some d \<or> imported ms S allow A n d"
    if "(table_of (module_resolution r) m ++ table_of S m) n = Some d" "A = m" for A n d
    using that r(4) by (auto simp: map_add_Some_iff)
  moreover have "(\<exists>y. (table_of (module_resolution r) m ++ table_of S m) n = Some y) \<longleftrightarrow>
      (\<exists>y. table_of S m n = Some y) \<or> (\<exists>y. table_of (module_resolution r) m n = Some y)" for n
    by (auto simp: map_add_def split: option.split)
  ultimately show ?thesis
    using r(3,4) unfolding scoped_def own_symbols_def Let_def by (auto simp add: r(1,2) S)
qed

lemma find_distinct_name:
  assumes "distinct (map mod_name ms)" "m \<in> set ms"
  shows "find (\<lambda>s. mod_name s = mod_name m) ms = Some m"
  using assms by (induction ms) auto

lemma find_import_source_Some:
  assumes "find_import_source ms r imp = Some name" "\<And>n. module_symbols r n \<noteq> None \<Longrightarrow> n \<in> mod_name ` set ms"
  obtains src where "src \<in> set ms" "mod_name src = name" "clause_means (allow_newer_modules r) imp src"
proof (cases "imp_oid imp = []")
  case True
  then have "name = imp_from imp" "module_symbols r name \<noteq> None"
    using assms(1) by (auto simp: find_import_source_def split: if_splits)
  then show ?thesis using that assms(2) True by (fastforce simp: clause_means_def)
next
  case False
  then obtain m where "find (\<lambda>m. mod_oid m \<noteq> [] \<and> oid_matcher (allow_newer_modules r) (imp_policy imp) (imp_oid imp) (mod_oid m)
      \<and> module_symbols r (mod_name m) \<noteq> None) ms = Some m" "name = mod_name m"
    using assms(1) by (auto simp: find_import_source_def)
  then show ?thesis using that False by (auto simp: clause_means_def find_Some_iff) (metis nth_mem)
qed

lemma scoped_import_clause:
  assumes "scoped ms S allow r" "distinct (map mod_name ms)" "dom S = mod_name ` set ms"
    and "m \<in> set ms" "imp \<in> set (mod_imports m)"
  shows "scoped ms S allow (import_clause ms (mod_name m) r imp)"
proof -
  have names: "scoped ms S allow (foldl (import_name (mod_name m) imp src (table_of S (mod_name src))) r' ns)"
    if "src \<in> set ms" "mod_name src \<noteq> mod_name m" "clause_means allow imp src" "set ns \<subseteq> set (imp_names imp)" "scoped ms S allow r'"
    for src ns r'
    using that(4,5)
  proof (induction ns arbitrary: r')
    case (Cons n ns)
    have "scoped ms S allow (import_name (mod_name m) imp src (table_of S (mod_name src)) r' n)"
    proof (cases "may_import src n \<and> table_of S (mod_name src) n \<noteq> None")
      case True
      then obtain d where d: "table_of S (mod_name src) n = Some d" by blast
      then have "imported ms S allow (mod_name m) n d"
        using True that assms(4,5) Cons.prems(1) by (auto simp: imported_def)
      then show ?thesis using True d Cons.prems by (simp add: import_name_def scoped_bind)
    next
      case False
      then show ?thesis using Cons.prems by (auto simp: import_name_def scoped_add_error)
    qed
    then show ?case using Cons by simp
  qed simp
  show ?thesis
  proof (cases "imp_from imp = mod_name m \<or> find_import_source ms r imp = None \<or> find_import_source ms r imp = Some (mod_name m)")
    case True
    then show ?thesis using assms(1) by (auto simp: import_clause_def scoped_add_error)
  next
    case False
    then obtain name where name: "find_import_source ms r imp = Some name" "name \<noteq> mod_name m" by auto
    have S: "module_symbols r = S" "allow_newer_modules r = allow" using assms(1) by (simp_all add: scoped_def)
    have "n \<in> mod_name ` set ms" if "module_symbols r n \<noteq> None" for n using that assms(3) S by (auto simp: dom_def)
    from find_import_source_Some [OF name(1) this] obtain src where
      src: "src \<in> set ms" "mod_name src = name" "clause_means allow imp src" using S by auto
    then show ?thesis
      using False name names [OF src(1) _ src(3) order_refl assms(1)] find_distinct_name [OF assms(2) src(1)]
      by (simp add: import_clause_def S)
  qed
qed

lemma scoped_resolve_imports:
  assumes "scoped ms S allow r" "distinct (map mod_name ms)" "dom S = mod_name ` set ms"
  shows "scoped ms S allow (resolve_imports ms r)"
proof -
  have clauses: "scoped ms S allow (foldl (import_clause ms (mod_name m)) r imps)"
    if "scoped ms S allow r" "m \<in> set ms" "set imps \<subseteq> set (mod_imports m)" for m r imps
    using that by (induction imps arbitrary: r) (auto intro: scoped_import_clause [OF _ assms(2,3)])
  have "scoped ms S allow (foldl (resolve_module ms) r ms')" if "set ms' \<subseteq> set ms" "scoped ms S allow r" for ms' r
    using that
  proof (induction ms' arbitrary: r)
    case (Cons m ms')
    have "S (mod_name m) \<noteq> None" using Cons.prems assms(3) by (auto simp: dom_def)
    then have "scoped ms S allow (resolve_module ms r m)"
      using Cons.prems by (auto simp: resolve_module_def intro!: clauses scoped_own)
    then show ?case using Cons by simp
  qed simp
  then show ?thesis using assms(1) by (simp add: resolve_imports_def)
qed

lemma collect_assignment_keeps [simp]:
  "module_resolution (foldl (collect_assignment m) r defs) = module_resolution r"
  "module_visible (foldl (collect_assignment m) r defs) = module_visible r"
  "allow_newer_modules (foldl (collect_assignment m) r defs) = allow_newer_modules r"
  by (induction defs arbitrary: r)
     (simp_all add: collect_assignment_def Let_def add_error_def split: option.splits)

lemma collect_assignment_dom:
  "module_symbols r m \<noteq> None \<Longrightarrow> dom (module_symbols (foldl (collect_assignment m) r defs)) = dom (module_symbols r)"
proof (induction defs arbitrary: r)
  case (Cons d defs)
  have "dom (module_symbols (collect_assignment m r d)) = dom (module_symbols r)"
    using Cons.prems by (auto simp: collect_assignment_def Let_def split: option.splits)
  moreover from this have "module_symbols (collect_assignment m r d) m \<noteq> None" using Cons.prems by blast
  ultimately show ?case using Cons.IH by simp
qed simp

lemma collect_properties:
  "module_resolution (collect ms r) = module_resolution r"
  "module_visible (collect ms r) = module_visible r"
  "allow_newer_modules (collect ms r) = allow_newer_modules r"
  "dom (module_symbols r) = {} \<Longrightarrow> dom (module_symbols (collect ms r)) = mod_name ` set ms"
proof -
  have "module_resolution (snd (foldl collect_module sr ms)) = module_resolution (snd sr) \<and>
      module_visible (snd (foldl collect_module sr ms)) = module_visible (snd sr) \<and>
      allow_newer_modules (snd (foldl collect_module sr ms)) = allow_newer_modules (snd sr) \<and>
      (dom (module_symbols (snd sr)) = fst sr \<longrightarrow>
        dom (module_symbols (snd (foldl collect_module sr ms))) = fst sr \<union> mod_name ` set ms)" for sr
  proof (induction ms arbitrary: sr)
    case (Cons m ms)
    obtain seen r where sr: "sr = (seen, r)" by fastforce
    let ?sr = "collect_module sr m"
    have "module_resolution (snd ?sr) = module_resolution r \<and> module_visible (snd ?sr) = module_visible r \<and>
        allow_newer_modules (snd ?sr) = allow_newer_modules r \<and> fst ?sr = insert (mod_name m) seen \<and>
        (dom (module_symbols r) = seen \<longrightarrow> dom (module_symbols (snd ?sr)) = insert (mod_name m) seen)"
      by (auto simp: sr collect_module_def collect_assignment_dom)
    then show ?case using Cons.IH [of ?sr] by (auto simp: sr)
  qed simp
  from this [of "({}, r)"] show "module_resolution (collect ms r) = module_resolution r"
    "module_visible (collect ms r) = module_visible r" "allow_newer_modules (collect ms r) = allow_newer_modules r"
    "dom (module_symbols r) = {} \<Longrightarrow> dom (module_symbols (collect ms r)) = mod_name ` set ms"
    by (simp_all add: collect_def)
qed

lemma resolve_schema_scoped:
  assumes "distinct (map mod_name ms)"
  shows "scoped ms (module_symbols (collect ms new_resolver)) False (resolve_schema ms new_resolver)"
proof -
  have "scoped ms (module_symbols (collect ms new_resolver)) False (collect ms new_resolver)"
    by (simp add: scoped_def collect_properties new_resolver_def names_of_def table_of_def)
  then show ?thesis
    unfolding resolve_schema_def by (rule scoped_resolve_imports [OF _ assms]) (simp add: collect_properties new_resolver_def)
qed

section \<open>Chains of type references\<close>

definition is_reference :: "ast_type \<Rightarrow> bool" where
  "is_reference d \<longleftrightarrow> (case at_body d of Body_Ref _ _ _ _ \<Rightarrow> True | _ \<Rightarrow> False)"

text \<open>One alias step, with the module in whose scope the next name is looked up.\<close>

inductive alias_step :: "resolver \<Rightarrow> ast_type \<times> string \<Rightarrow> ast_type \<times> string \<Rightarrow> bool" for r where
  in_module: "at_body d = Body_Ref m n ps f \<Longrightarrow> m \<noteq> [] \<Longrightarrow> resolve_in_module r n m = Some d' \<Longrightarrow>
     alias_step r (d, s) (d', m)"
| in_scope: "at_body d = Body_Ref [] n ps f \<Longrightarrow> lookup_direct r n s = Some d' \<Longrightarrow> alias_step r (d, s) (d', s)"

code_pred alias_step .

inductive_cases alias_stepE: "alias_step r (d, s) (d', s')"

lemma alias_step_deterministic: "alias_step r a b \<Longrightarrow> alias_step r a c \<Longrightarrow> b = c"
  by (auto elim!: alias_step.cases)

lemma alias_step_reference: "alias_step r (d, s) e \<Longrightarrow> is_reference d"
  by (auto simp: is_reference_def elim!: alias_step.cases)

lemma follow_steps_step:
  "is_reference d \<Longrightarrow> follow_steps r (Suc n) (Some d) s = Some b \<longleftrightarrow>
     (\<exists>d' s'. alias_step r (d, s) (d', s') \<and> follow_steps r n (Some d') s' = Some b)"
proof -
  assume "is_reference d"
  then obtain m name ps f where body: "at_body d = Body_Ref m name ps f"
    by (auto simp: is_reference_def split: ast_body.splits)
  have none: "follow_steps r n None s \<noteq> Some b" by (cases n) simp_all
  show ?thesis
  proof (cases "m = []")
    case True
    then show ?thesis by (cases "lookup_direct r name s") (auto simp: body none alias_step.simps)
  next
    case False
    then show ?thesis by (cases "resolve_in_module r name m") (simp_all add: body alias_step.simps)
  qed
qed

lemma follow_steps_stop: "\<not> is_reference d \<Longrightarrow> follow_steps r (Suc n) (Some d) s = Some d"
  by (auto simp: is_reference_def split: ast_body.splits)

lemma follow_steps_iff:
  "follow_steps r n (Some d) s = Some b \<longleftrightarrow>
     \<not> is_reference b \<and> (\<exists>k < n. \<exists>s'. (alias_step r ^^ k) (d, s) (b, s'))"
proof (induction n arbitrary: d s)
  case (Suc n)
  show ?case
  proof (cases "is_reference d")
    case False
    have "b = d" if "(alias_step r ^^ k) (d, s) (b, s')" for k s'
      using that False by (cases k) (auto simp del: relpowp.simps(2) dest!: relpowp_Suc_D2 dest: alias_step_reference)
    moreover have "(alias_step r ^^ 0) (d, s) (d, s)" by simp
    ultimately show ?thesis using False follow_steps_stop [OF False] by (metis option.inject zero_less_Suc)
  next
    case True
    have "(\<exists>k < Suc n. \<exists>s'. (alias_step r ^^ k) (d, s) (b, s')) \<longleftrightarrow>
        (\<exists>d' s''. alias_step r (d, s) (d', s'') \<and> (\<exists>k < n. \<exists>s'. (alias_step r ^^ k) (d', s'') (b, s')))"
      if nb: "\<not> is_reference b"
    proof
      assume "\<exists>k < Suc n. \<exists>s'. (alias_step r ^^ k) (d, s) (b, s')"
      then obtain k s' where k: "k < Suc n" "(alias_step r ^^ k) (d, s) (b, s')" by blast
      have "k \<noteq> 0"
      proof
        assume "k = 0"
        then show False using k(2) True nb by simp
      qed
      then obtain j where j: "k = Suc j" using not0_implies_Suc by blast
      with k(2) obtain d' s'' where "alias_step r (d, s) (d', s'')" "(alias_step r ^^ j) (d', s'') (b, s')"
        by (metis prod.exhaust relpowp_Suc_D2)
      then show "\<exists>d' s''. alias_step r (d, s) (d', s'') \<and> (\<exists>k < n. \<exists>s'. (alias_step r ^^ k) (d', s'') (b, s'))"
        using k(1) j by auto
    next
      assume "\<exists>d' s''. alias_step r (d, s) (d', s'') \<and> (\<exists>k < n. \<exists>s'. (alias_step r ^^ k) (d', s'') (b, s'))"
      then show "\<exists>k < Suc n. \<exists>s'. (alias_step r ^^ k) (d, s) (b, s')"
        by (meson Suc_less_eq relpowp_Suc_I2)
    qed
    then show ?thesis unfolding follow_steps_step [OF True] Suc.IH by blast
  qed
qed simp

text \<open>
  C14: \<open>follow_aliases\<close> returns exactly the type that fewer than 64 alias steps lead to and that is
  not itself a reference; a longer chain, a cycle and a missing name give nothing.
\<close>

theorem follow_aliases_iff:
  "follow_aliases r d s = Some b \<longleftrightarrow>
     \<not> is_reference b \<and> (\<exists>k < 64. \<exists>s'. (alias_step r ^^ k) (d, s) (b, s'))"
  unfolding follow_aliases_def by (rule follow_steps_iff)

section \<open>The walk along value references ends\<close>

definition finite_tables :: "resolver \<Rightarrow> bool" where
  "finite_tables r \<longleftrightarrow> finite (dom (global_symbols r)) \<and>
     finite (dom (module_symbols r)) \<and> (\<forall>A. finite (dom (table_of (module_symbols r) A))) \<and>
     finite (dom (module_resolution r)) \<and> (\<forall>A. finite (dom (table_of (module_resolution r) A)))"

lemma finite_tables_add_error [simp]: "finite_tables (add_error msg r) = finite_tables r"
  by (simp add: finite_tables_def)

lemma finite_tables_bind: "finite_tables r \<Longrightarrow> finite_tables (bind_symbol m n d r)"
  by (simp add: finite_tables_def bind_symbol_def)

lemma finite_tables_own: "finite_tables r \<Longrightarrow> finite_tables (own_symbols m r)"
  by (simp add: finite_tables_def own_symbols_def Let_def)

lemma finite_tables_assignment: "finite_tables r \<Longrightarrow> finite_tables (collect_assignment m r d)"
  by (auto simp: collect_assignment_def Let_def finite_tables_def split: option.split)

lemma finite_tables_foldl:
  "finite_tables r \<Longrightarrow> (\<And>r x. finite_tables r \<Longrightarrow> finite_tables (f r x)) \<Longrightarrow> finite_tables (foldl f r xs)"
  by (induction xs arbitrary: r) simp_all

lemma finite_tables_collect:
  assumes "finite_tables r"
  shows "finite_tables (collect ms r)"
proof -
  have step: "finite_tables (snd (collect_module sr m))" if "finite_tables (snd sr)" for sr m
  proof -
    obtain seen r where sr: "sr = (seen, r)" by fastforce
    have "finite_tables (r\<lparr>module_tag_defaults := T,
        module_symbols := (module_symbols r)(mod_name m \<mapsto> table_of (module_symbols r) (mod_name m))\<rparr>)" for T
      using that sr by (simp add: finite_tables_def)
    then show ?thesis
      using that by (simp add: sr collect_module_def finite_tables_foldl finite_tables_assignment)
  qed
  have "finite_tables (snd (foldl collect_module sr ms))" if "finite_tables (snd sr)" for sr
    using that by (induction ms arbitrary: sr) (simp_all add: step)
  then show ?thesis using assms by (simp add: collect_def)
qed

lemma finite_tables_imports:
  assumes "finite_tables r"
  shows "finite_tables (resolve_imports ms r)"
proof -
  have name: "finite_tables (import_name m imp src tbl r n)" if "finite_tables r" for m imp src tbl r n
    using that by (simp add: import_name_def finite_tables_bind split: option.split)
  have clause: "finite_tables (import_clause ms m r imp)" if "finite_tables r" for m imp r
    using that by (simp add: import_clause_def finite_tables_foldl name split: option.split)
  have "finite_tables (resolve_module ms r m)" if "finite_tables r" for m r
    using that unfolding resolve_module_def by (intro finite_tables_foldl clause finite_tables_own)
  then show ?thesis unfolding resolve_imports_def by (intro finite_tables_foldl assms)
qed

lemma finite_tables_schema: "finite_tables (resolve_schema ms new_resolver)"
  unfolding resolve_schema_def
  by (intro finite_tables_imports finite_tables_collect) (simp add: finite_tables_def new_resolver_def table_of_def)

definition known_names :: "resolver \<Rightarrow> string set" where
  "known_names r = dom (global_symbols r) \<union> (\<Union>A \<in> dom (module_symbols r). dom (table_of (module_symbols r) A)) \<union>
     (\<Union>A \<in> dom (module_resolution r). dom (table_of (module_resolution r) A))"

lemma finite_known_names: "finite_tables r \<Longrightarrow> finite (known_names r)"
  by (auto simp: finite_tables_def known_names_def)

lemma lookup_value_ref_known:
  "lookup_value_ref r ref_m n m = Some d \<Longrightarrow> n \<in> known_names r \<and> (ref_m \<noteq> [] \<longrightarrow> ref_m \<in> dom (module_symbols r))"
proof -
  have sym: "n \<in> known_names r" if "module_symbols r A = Some t" "t n = Some d" for A t
    using that unfolding known_names_def by (fastforce simp: table_of_def)
  have res: "n \<in> known_names r" if "module_resolution r A = Some t" "t n = Some d" for A t
    using that unfolding known_names_def by (fastforce simp: table_of_def)
  show "lookup_value_ref r ref_m n m = Some d \<Longrightarrow> ?thesis"
    using sym res
    by (auto simp: lookup_value_ref_def lookup_direct_def resolve_in_module_def known_names_def
        split: if_splits option.splits)
qed

lemma card_unvisited:
  assumes "finite Q" "q \<in> Q" "q \<notin> set path"
  shows "card (Q - set (path @ [q])) < card (Q - set path)"
proof (rule psubset_card_mono)
  show "Q - set (path @ [q]) \<subset> Q - set path" using assms(2,3) by auto
qed (use assms(1) in simp)

lemma check_value_chain_ends:
  assumes "finite_tables r"
  shows "m \<in> insert m0 (dom (module_symbols r)) \<Longrightarrow>
    \<exists>es. check_value_chain r d m path = Some es"
proof -
  let ?Q = "(\<lambda>(a, b). a @ ''.'' @ b) ` (insert m0 (dom (module_symbols r)) \<times> known_names r)"
  have fin: "finite ?Q" using assms finite_known_names by (auto simp: finite_tables_def)
  show "m \<in> insert m0 (dom (module_symbols r)) \<Longrightarrow> \<exists>es. check_value_chain r d m path = Some es"
  proof (induction "card (?Q - set path)" arbitrary: d m path rule: less_induct)
    case less
    show ?case
    proof (cases "\<exists>ref_m ref d'. at_default d = Val_Ref ref_m ref \<and> ref \<noteq> [] \<and>
        (if ref_m = [] then m else ref_m) @ ''.'' @ ref \<notin> set path \<and> lookup_value_ref r ref_m ref m = Some d'")
      case False
      then show ?thesis
        by (subst check_value_chain.simps) (fastforce simp: Let_def split: ast_value.splits option.splits)
    next
      case True
      then obtain ref_m ref d' where d: "at_default d = Val_Ref ref_m ref" "ref \<noteq> []"
        "(if ref_m = [] then m else ref_m) @ ''.'' @ ref \<notin> set path" "lookup_value_ref r ref_m ref m = Some d'" by blast
      let ?m = "if ref_m = [] then m else ref_m" and ?q = "(if ref_m = [] then m else ref_m) @ ''.'' @ ref"
      have m: "?m \<in> insert m0 (dom (module_symbols r))" and "ref \<in> known_names r"
        using lookup_value_ref_known [OF d(4)] less.prems by auto
      then have "?q \<in> ?Q" by (intro image_eqI [of _ _ "(?m, ref)"]) simp_all
      then have "card (?Q - set (path @ [?q])) < card (?Q - set path)"
        by (rule card_unvisited [OF fin _ d(3)])
      then have "\<exists>es. check_value_chain r d' ?m (path @ [?q]) = Some es"
        by (rule less.hyps [OF _ m])
      then show ?thesis by (subst check_value_chain.simps) (simp add: d(1,2,4) Let_def)
    qed
  qed
qed

text \<open>
  C15: Whatever the modules say, cycles across modules included, the check of a value assignment
  ends.
\<close>

theorem check_value_assignment_ends:
  "\<exists>es. check_value_assignment (resolve_schema ms new_resolver) m def = Some es"
  using check_value_chain_ends [OF finite_tables_schema, of m m] by (simp add: check_value_assignment_def)

section \<open>Scopes\<close>

text \<open>
  What a module can see under a name is its own definition or one that an import clause of it
  brings in: from another module, with an object identifier the clause accepts, and exported
  there.
\<close>

theorem visible_definitions_justified:
  assumes "distinct (map mod_name ms)"
    and "table_of (module_resolution (resolve_schema ms new_resolver)) A n = Some d"
  shows "table_of (module_symbols (collect ms new_resolver)) A n = Some d \<or>
     imported ms (module_symbols (collect ms new_resolver)) False A n d"
  using resolve_schema_scoped [OF assms(1)] assms(2) unfolding scoped_def by blast

text \<open>Two modules: \<open>A\<close> imports \<open>U\<close> from \<open>B\<close>, and both have a type \<open>V\<close> of their own.\<close>

definition module_with :: "string \<Rightarrow> import_list list \<Rightarrow> ast_type list \<Rightarrow> ast_module" where
  "module_with name imports defs =
     \<lparr>mod_name = name, mod_oid = [], mod_tag_default = TD_Explicit, mod_exports_all = True,
      mod_exports = [], mod_imports = imports, mod_assignments = defs\<rparr>"

definition import_from :: "string \<Rightarrow> string list \<Rightarrow> import_list" where
  "import_from m names = \<lparr>imp_from = m, imp_oid = [], imp_policy = VP_Exact, imp_names = names\<rparr>"

definition two_scopes :: "ast_module list" where
  "two_scopes =
     [module_with ''A'' [import_from ''B'' [''U'']]
        [plain_type ''V'' (Body_Builtin BT_Boolean), plain_type ''T'' (Body_Ref [] ''U'' [] [])],
      module_with ''B'' []
        [plain_type ''U'' (Body_Ref [] ''V'' [] []), plain_type ''V'' (Body_Builtin BT_Integer)]]"

theorem visible_definitions_justified_witness:
  "table_of (module_symbols (collect two_scopes new_resolver)) ''A'' ''U'' = Some (plain_type ''U'' (Body_Ref [] ''V'' [] [])) \<or>
   imported two_scopes (module_symbols (collect two_scopes new_resolver)) False ''A'' ''U'' (plain_type ''U'' (Body_Ref [] ''V'' [] []))"
proof (rule visible_definitions_justified)
  show "distinct (map mod_name two_scopes)" by code_simp
  show "table_of (module_resolution (resolve_schema two_scopes new_resolver)) ''A'' ''U'' =
      Some (plain_type ''U'' (Body_Ref [] ''V'' [] []))" by code_simp
qed

text \<open>
  \<open>follow_aliases\<close> changes the scope for a qualified name only. The import \<open>U\<close> of \<open>A\<close> is an
  alias in \<open>B\<close>, and its \<open>V\<close> is looked up in \<open>A\<close>: from \<open>A\<close>, the type \<open>T\<close> is a BOOLEAN, while
  \<open>U\<close> is an INTEGER where it is defined.
\<close>

theorem import_alias_wrong_scope:
  "rs_errors (resolve_schema two_scopes new_resolver) = [] \<and>
   map_option at_body (resolve_ref (resolve_schema two_scopes new_resolver) [] ''T'' ''A'') = Some (Body_Builtin BT_Boolean) \<and>
   map_option at_body (resolve_ref (resolve_schema two_scopes new_resolver) [] ''U'' ''B'') = Some (Body_Builtin BT_Integer)"
  by code_simp

text \<open>
  The check of value chains stays in the importing module as well. Here \<open>alpha\<close> is \<open>beta\<close> of
  \<open>B\<close>, which is \<open>gamma\<close> of \<open>B\<close>, which is 5; but the \<open>gamma\<close> of \<open>A\<close> is \<open>alpha\<close>.
\<close>

definition int_value :: "string \<Rightarrow> ast_value \<Rightarrow> ast_type" where
  "int_value name v =
     Type_Def name (Body_Builtin BT_Integer) [] [] no_tag Marker_None v [] False False [] None"

definition value_scopes :: "ast_module list" where
  "value_scopes =
     [module_with ''A'' [import_from ''B'' [''beta'']]
        [int_value ''alpha'' (Val_Ref [] ''beta''), int_value ''gamma'' (Val_Ref [] ''alpha'')],
      module_with ''B'' []
        [int_value ''beta'' (Val_Ref [] ''gamma''), int_value ''gamma'' (Val_Int 5)]]"

lemma value_scopes_lookups:
  "lookup_value_ref (resolve_schema value_scopes new_resolver) [] ''beta'' ''A'' = Some (int_value ''beta'' (Val_Ref [] ''gamma''))"
  "lookup_value_ref (resolve_schema value_scopes new_resolver) [] ''gamma'' ''A'' = Some (int_value ''gamma'' (Val_Ref [] ''alpha''))"
  "lookup_value_ref (resolve_schema value_scopes new_resolver) [] ''gamma'' ''B'' = Some (int_value ''gamma'' (Val_Int 5))"
  by code_simp+

theorem value_chain_false_cycle:
  "check_value_assignment (resolve_schema value_scopes new_resolver) ''A'' (int_value ''alpha'' (Val_Ref [] ''beta'')) =
     Some [''circular value reference: '' @ in_quotes ''A.alpha'' @ '' in module '' @ in_quotes ''A'']"
  by (simp add: check_value_assignment_def check_value_chain.simps value_scopes_lookups [unfolded int_value_def] int_value_def)

text \<open>
  An imported name replaces an own definition of the same name in the module's table.
\<close>

definition shadowing :: "ast_module list" where
  "shadowing =
     [module_with ''A'' [import_from ''B'' [''U'']] [plain_type ''U'' (Body_Builtin BT_Boolean)],
      module_with ''B'' [] [plain_type ''U'' (Body_Builtin BT_Integer)]]"

theorem import_shadows_own:
  "rs_errors (resolve_schema shadowing new_resolver) = [] \<and>
   lookup_direct (resolve_schema shadowing new_resolver) ''U'' ''A'' = Some (plain_type ''U'' (Body_Builtin BT_Integer))"
  by code_simp

end
