(* ===== verification/Tag_Checks.thy ===== *)
theory Tag_Checks
  imports Symbol_Resolution "HOL-Library.Product_Lexorder"
begin

text \<open>
  Tag distinctness in SEQUENCE, SET and CHOICE (X.680 24.5, 25.5 and 28.3), as
  \<open>Resolver::tag_set_of\<close> and \<open>Resolver::check_and_resolve\<close> (\<open>compiler/src/sema/Resolver.hpp\<close>)
  check it: the set of tags a component can start with, and the pairs of components that are
  compared. The lemmas show what an empty list of messages guarantees.
\<close>

unbundle bit_operations_syntax

section \<open>Sets of tags\<close>

text \<open>\<open>TagSet::Key\<close>: the class as its enumeration value and the number as 32 bits.\<close>

fun tag_class_index :: "ast_tag_class \<Rightarrow> nat" where
  "tag_class_index TC_Implicit = 0"
| "tag_class_index TC_Universal = 1"
| "tag_class_index TC_Application = 2"
| "tag_class_index TC_Context = 3"
| "tag_class_index TC_Private = 4"

type_synonym tag_key = "nat \<times> nat"

definition tag_key :: "ast_tag_class \<Rightarrow> u32 \<Rightarrow> tag_key" where
  "tag_key c n = (tag_class_index c, unat n)"

fun tag_class_str :: "nat \<Rightarrow> string" where
  "tag_class_str c =
     (if c = 1 then ''UNIVERSAL'' else if c = 2 then ''APPLICATION''
      else if c = 3 then ''CONTEXT'' else if c = 4 then ''PRIVATE'' else ''?'')"

text \<open>The ordered \<open>std::set\<close> of keys is a sorted list without repetitions.\<close>

record tag_set =
  ts_concrete :: "tag_key list"
  ts_open :: bool
  ts_any :: bool

definition no_tags :: tag_set where
  "no_tags = \<lparr>ts_concrete = [], ts_open = False, ts_any = False\<rparr>"

definition one_tag :: "tag_key \<Rightarrow> tag_set" where
  "one_tag k = no_tags\<lparr>ts_concrete := [k]\<rparr>"

definition merge_tags :: "tag_set \<Rightarrow> tag_set \<Rightarrow> tag_set" where
  "merge_tags a b =
     \<lparr>ts_concrete = foldl (\<lambda>ks k. insort_insert k ks) (ts_concrete a) (ts_concrete b),
      ts_open = (ts_open a \<or> ts_open b), ts_any = (ts_any a \<or> ts_any b)\<rparr>"

text \<open>
  \<open>tag_set_of\<close>, with the levels left before \<open>depth > 16\<close>. The comparison of the resolved
  type with the reference itself is left out: what \<open>resolve_ref\<close> returns is no reference.
\<close>

fun tag_set_of :: "resolver \<Rightarrow> nat \<Rightarrow> ast_type \<Rightarrow> string \<Rightarrow> tag_set" where
  "tag_set_of r 0 def m = no_tags"
| "tag_set_of r (Suc n) def m =
     (if tag_present (at_tag def) then one_tag (tag_key (at_class (at_tag def)) (ucast (at_number (at_tag def))))
      else
        (case at_body def of
           Body_Choice \<Rightarrow>
             foldl (\<lambda>acc member.
                 case member of
                   None \<Rightarrow> acc
                 | Some x \<Rightarrow>
                     if at_is_ext_marker x then acc\<lparr>ts_open := True\<rparr>
                     else merge_tags acc (tag_set_of r n x m))
               no_tags (at_members def)
         | Body_Ref ref_m name _ _ \<Rightarrow>
             (case resolve_ref r ref_m name m of
                None \<Rightarrow> no_tags
              | Some base \<Rightarrow> tag_set_of r n base m)
         | Body_Builtin bt \<Rightarrow>
             if bt = BT_Any then no_tags\<lparr>ts_any := True\<rparr>
             else if builtin_universal_tag bt \<noteq> 0 then one_tag (tag_key TC_Universal (builtin_universal_tag bt))
             else no_tags
         | Body_Sequence \<Rightarrow> one_tag (tag_key TC_Universal 16)
         | Body_SequenceOf _ \<Rightarrow> one_tag (tag_key TC_Universal 16)
         | Body_Set \<Rightarrow> one_tag (tag_key TC_Universal 17)
         | Body_SetOf _ \<Rightarrow> one_tag (tag_key TC_Universal 17)
         | Body_InstanceOf _ \<Rightarrow> one_tag (tag_key TC_Universal 16)
         | Body_None \<Rightarrow> no_tags))"

definition tags_of :: "resolver \<Rightarrow> ast_type \<Rightarrow> string \<Rightarrow> tag_set" where
  "tags_of r def m = tag_set_of r 17 def m"

section \<open>The checks\<close>

text \<open>\<open>compare_sets\<close> with its three reports; \<open>where\<close> is the kind, name and module of the type.\<close>

definition compare_sets :: "string \<Rightarrow> tag_set \<Rightarrow> tag_set \<Rightarrow> string list" where
  "compare_sets ctx a b =
     (if ts_any a \<or> ts_any b then [''ANY tag conflict in '' @ ctx]
      else
        (case find (\<lambda>k. k \<in> set (ts_concrete b)) (ts_concrete a) of
           Some k \<Rightarrow> [''ambiguous tag ['' @ tag_class_str (fst k) @ '' '' @ to_string (snd k) @ ''] in '' @ ctx]
         | None \<Rightarrow>
             if ts_open a \<and> ts_open b then [''ambiguous extensible CHOICE members in '' @ ctx] else []))"

text \<open>The inner loop of SEQUENCE: up to the first component that is not optional.\<close>

fun optional_span :: "resolver \<Rightarrow> string \<Rightarrow> string \<Rightarrow> tag_set \<Rightarrow> ast_type option list \<Rightarrow> string list" where
  "optional_span r m ctx ts [] = []"
| "optional_span r m ctx ts (None # rest) = optional_span r m ctx ts rest"
| "optional_span r m ctx ts (Some x # rest) =
     (if at_is_ext_marker x then [] else compare_sets ctx ts (tags_of r x m)) @
     (if is_optional_member x then optional_span r m ctx ts rest else [])"

fun sequence_tag_errors :: "resolver \<Rightarrow> string \<Rightarrow> string \<Rightarrow> ast_type option list \<Rightarrow> string list" where
  "sequence_tag_errors r m ctx [] = []"
| "sequence_tag_errors r m ctx (None # rest) = sequence_tag_errors r m ctx rest"
| "sequence_tag_errors r m ctx (Some v # rest) =
     (if is_optional_member v then optional_span r m ctx (tags_of r v m) rest else []) @
     sequence_tag_errors r m ctx rest"

text \<open>SET and CHOICE: every pair of components that are not extension markers.\<close>

fun pair_tag_errors :: "resolver \<Rightarrow> string \<Rightarrow> string \<Rightarrow> ast_type option list \<Rightarrow> string list" where
  "pair_tag_errors r m ctx [] = []"
| "pair_tag_errors r m ctx (None # rest) = pair_tag_errors r m ctx rest"
| "pair_tag_errors r m ctx (Some v # rest) =
     (if at_is_ext_marker v then []
      else
        concat (map (\<lambda>w. case w of
            None \<Rightarrow> []
          | Some x \<Rightarrow> if at_is_ext_marker x then [] else compare_sets ctx (tags_of r v m) (tags_of r x m)) rest)) @
     pair_tag_errors r m ctx rest"

fun carries_tag :: "ast_type option \<Rightarrow> bool" where
  "carries_tag None = False"
| "carries_tag (Some x) \<longleftrightarrow> \<not> at_is_ext_marker x \<and> tag_present (at_tag x)"

definition automatic_tagging :: "resolver \<Rightarrow> string \<Rightarrow> ast_type \<Rightarrow> bool" where
  "automatic_tagging r m def \<longleftrightarrow>
     module_tag_defaults r m = Some TD_Automatic \<and> \<not> list_ex carries_tag (at_members def)"

definition kind_text :: "ast_type \<Rightarrow> string" where
  "kind_text def = (case at_body def of Body_Sequence \<Rightarrow> ''SEQUENCE'' | Body_Set \<Rightarrow> ''SET'' | _ \<Rightarrow> ''CHOICE'')"

definition tag_ctx :: "string \<Rightarrow> ast_type \<Rightarrow> string" where
  "tag_ctx m def =
     kind_text def @ (if at_name def = [] then [] else '' '' @ in_quotes (at_name def)) @ '' in module '' @ in_quotes m"

definition tag_errors :: "resolver \<Rightarrow> string \<Rightarrow> ast_type \<Rightarrow> string list" where
  "tag_errors r m def =
     (case at_body def of
        Body_Sequence \<Rightarrow>
          if at_members def = [] \<or> automatic_tagging r m def then []
          else sequence_tag_errors r m (tag_ctx m def) (at_members def)
      | Body_Set \<Rightarrow>
          if at_members def = [] \<or> automatic_tagging r m def then []
          else pair_tag_errors r m (tag_ctx m def) (at_members def)
      | Body_Choice \<Rightarrow>
          if at_members def = [] \<or> automatic_tagging r m def then []
          else pair_tag_errors r m (tag_ctx m def) (at_members def)
      | _ \<Rightarrow> [])"

section \<open>What an accepted type guarantees\<close>

definition disjoint_tags :: "tag_set \<Rightarrow> tag_set \<Rightarrow> bool" where
  "disjoint_tags a b \<longleftrightarrow> \<not> ts_any a \<and> \<not> ts_any b \<and> set (ts_concrete a) \<inter> set (ts_concrete b) = {} \<and>
     \<not> (ts_open a \<and> ts_open b)"

lemma find_shared_None: "find (\<lambda>k. k \<in> B) xs = None \<longleftrightarrow> set xs \<inter> B = {}"
  by (auto simp: find_None_iff)

lemma compare_sets_Nil: "compare_sets ctx a b = [] \<longleftrightarrow> disjoint_tags a b"
  using find_shared_None [of "set (ts_concrete b)" "ts_concrete a"]
  by (cases "find (\<lambda>k. k \<in> set (ts_concrete b)) (ts_concrete a)") (simp_all add: compare_sets_def disjoint_tags_def)

text \<open>The components that are not extension markers, in their order.\<close>

definition components :: "ast_type option list \<Rightarrow> ast_type list" where
  "components ms = [x. Some x \<leftarrow> ms, \<not> at_is_ext_marker x]"

lemma components_Cons:
  "components (None # ms) = components ms"
  "components (Some x # ms) = (if at_is_ext_marker x then components ms else x # components ms)"
  by (simp_all add: components_def)

lemma set_components: "x \<in> set (components ms) \<longleftrightarrow> Some x \<in> set ms \<and> \<not> at_is_ext_marker x"
  by (induction ms) (auto simp: components_Cons components_def split: option.splits if_splits)

lemma pair_tag_errors_Nil:
  "pair_tag_errors r m ctx ms = [] \<longleftrightarrow>
   sorted_wrt (\<lambda>a b. disjoint_tags (tags_of r a m) (tags_of r b m)) (components ms)"
proof (induction r m ctx ms rule: pair_tag_errors.induct)
  case (1 r m ctx)
  then show ?case by (simp add: components_def)
next
  case (2 r m ctx rest)
  then show ?case by (simp add: components_Cons)
next
  case (3 r m ctx v rest)
  have "concat (map (\<lambda>w. case w of None \<Rightarrow> []
      | Some x \<Rightarrow> if at_is_ext_marker x then [] else compare_sets ctx (tags_of r v m) (tags_of r x m)) rest) = [] \<longleftrightarrow>
      (\<forall>b \<in> set (components rest). disjoint_tags (tags_of r v m) (tags_of r b m))"
    by (auto simp: set_components compare_sets_Nil split: option.splits)
  then show ?case using 3 by (simp add: components_Cons)
qed

text \<open>
  The alternatives of an accepted CHOICE, and the components of an accepted SET, have pairwise
  disjoint tags, no ANY among two of them and at most one open one: what comes first in an
  encoding tells which of them it is.
\<close>

theorem accepted_choice_distinct:
  assumes "tag_errors r m def = []" "at_body def = Body_Choice \<or> at_body def = Body_Set" "\<not> automatic_tagging r m def"
  shows "sorted_wrt (\<lambda>a b. disjoint_tags (tags_of r a m) (tags_of r b m)) (components (at_members def))"
proof -
  have "pair_tag_errors r m (tag_ctx m def) (at_members def) = []"
    using assms by (cases "at_members def = []") (auto simp: tag_errors_def)
  then show ?thesis by (simp add: pair_tag_errors_Nil)
qed

text \<open>
  In a SEQUENCE an optional component can be told from every later one up to and including
  the first that is not optional.
\<close>

fun optional_prefix :: "ast_type list \<Rightarrow> ast_type list" where
  "optional_prefix [] = []"
| "optional_prefix (x # xs) = x # (if is_optional_member x then optional_prefix xs else [])"

definition members_of :: "ast_type option list \<Rightarrow> ast_type list" where
  "members_of ms = [x. Some x \<leftarrow> ms]"

lemma members_of_Cons: "members_of (None # ms) = members_of ms" "members_of (Some x # ms) = x # members_of ms"
  by (simp_all add: members_of_def)

lemma optional_span_Nil:
  "optional_span r m ctx ts ms = [] \<longleftrightarrow>
   (\<forall>b \<in> set (optional_prefix (members_of ms)). \<not> at_is_ext_marker b \<longrightarrow> disjoint_tags ts (tags_of r b m))"
proof (induction r m ctx ts ms rule: optional_span.induct)
  case (1 r m ctx ts)
  then show ?case by (simp add: members_of_def)
qed (auto simp: members_of_Cons compare_sets_Nil)

lemma sequence_tag_errors_Nil:
  "sequence_tag_errors r m ctx ms = [] \<Longrightarrow> members_of ms = pre @ v # post \<Longrightarrow> is_optional_member v \<Longrightarrow>
   b \<in> set (optional_prefix post) \<Longrightarrow> \<not> at_is_ext_marker b \<Longrightarrow> disjoint_tags (tags_of r v m) (tags_of r b m)"
proof (induction r m ctx ms arbitrary: pre rule: sequence_tag_errors.induct)
  case (1 r m ctx)
  then show ?case by (simp add: members_of_def)
next
  case (2 r m ctx rest)
  then show ?case by (simp add: members_of_Cons)
next
  case (3 r m ctx x rest)
  then show ?case by (cases pre) (auto simp: members_of_Cons optional_span_Nil)
qed

theorem accepted_sequence_distinct:
  assumes "tag_errors r m def = []" "at_body def = Body_Sequence" "\<not> automatic_tagging r m def"
    and "members_of (at_members def) = pre @ v # post" "is_optional_member v"
    and "b \<in> set (optional_prefix post)" "\<not> at_is_ext_marker b"
  shows "disjoint_tags (tags_of r v m) (tags_of r b m)"
proof -
  have "at_members def \<noteq> []" using assms(4) by (auto simp: members_of_def)
  then have "sequence_tag_errors r m (tag_ctx m def) (at_members def) = []"
    using assms(1-3) by (simp add: tag_errors_def)
  then show ?thesis by (rule sequence_tag_errors_Nil [OF _ assms(4-7)])
qed

section \<open>Concrete types\<close>

definition tagged :: "string \<Rightarrow> nat \<Rightarrow> ast_marker \<Rightarrow> ast_type" where
  "tagged name n marker =
     Type_Def name (Body_Builtin BT_Integer) [] []
       \<lparr>at_class = TC_Context, at_number = of_nat n, at_mode = TM_Default\<rparr> marker Val_Absent [] False False [] None"

definition composite :: "string \<Rightarrow> ast_body \<Rightarrow> ast_type list \<Rightarrow> ast_type" where
  "composite name body ms = Type_Def name body (map Some ms) [] no_tag Marker_None Val_Absent [] False False [] None"

definition sample_choice :: ast_type where
  "sample_choice =
     composite ''C'' Body_Choice
       [tagged ''a'' 0 Marker_None, plain_type ''b'' (Body_Builtin BT_Boolean),
        composite ''c'' Body_Choice [tagged ''x'' 1 Marker_None, tagged ''y'' 2 Marker_None]]"

theorem accepted_choice_distinct_witness:
  "sorted_wrt (\<lambda>a b. disjoint_tags (tags_of new_resolver a ''M'') (tags_of new_resolver b ''M''))
     (components (at_members sample_choice))"
  by (rule accepted_choice_distinct) code_simp+

definition sample_sequence :: ast_type where
  "sample_sequence =
     composite ''S'' Body_Sequence
       [tagged ''a'' 0 Marker_Optional, tagged ''b'' 1 Marker_Optional, plain_type ''c'' (Body_Builtin BT_Integer)]"

theorem accepted_sequence_distinct_witness:
  "disjoint_tags (tags_of new_resolver (tagged ''a'' 0 Marker_Optional) ''M'')
     (tags_of new_resolver (plain_type ''c'' (Body_Builtin BT_Integer)) ''M'')"
  by (rule accepted_sequence_distinct [of new_resolver "''M''" sample_sequence "[]" _
        "[tagged ''b'' 1 Marker_Optional, plain_type ''c'' (Body_Builtin BT_Integer)]"]) code_simp+

text \<open>
  Alternatives nested more than 16 levels deep have no tags for the check: two alternatives
  that both begin with the same tag are accepted.
\<close>

fun nested_choice :: "nat \<Rightarrow> ast_type \<Rightarrow> ast_type" where
  "nested_choice 0 t = t"
| "nested_choice (Suc n) t = composite ''n'' Body_Choice [nested_choice n t]"

theorem deep_choice_accepted:
  "tag_errors new_resolver ''M'' (composite ''C'' Body_Choice [nested_choice 17 (tagged ''a'' 0 Marker_None), tagged ''b'' 0 Marker_None]) = [] \<and>
   tag_errors new_resolver ''M'' (composite ''C'' Body_Choice [nested_choice 16 (tagged ''a'' 0 Marker_None), tagged ''b'' 0 Marker_None]) \<noteq> []"
  by code_simp

end
