(* ===== verification/Enum_Tables.thy ===== *)
theory Enum_Tables
  imports Compiler_Ast Jer_Roundtrip
begin

text \<open>
  From the ENUMERATED of a schema to the table the codecs read: the numbering of the
  semantic analysis (\<open>sema/EnumValues.hpp\<close>), its checks (\<open>Resolver::check_and_resolve\<close>), the
  numbering of the generator (\<open>build_enumerated_spec\<close>, \<open>codegen/Generator.cpp\<close>) and the
  table the C++ back end prints (\<open>CppBackend::emit_enumerated_definition\<close>). The lemmas say
  when an accepted ENUMERATED gives a table the codecs can use, and where it does not.
\<close>

unbundle bit_operations_syntax

section \<open>The numbering of the semantic analysis\<close>

definition is_ext_entry :: "enum_value \<Rightarrow> bool" where
  "is_ext_entry e \<longleftrightarrow> ev_name e = ''...''"

text \<open>The items before the first \<open>...\<close>, and those from it on.\<close>

definition root_items :: "enum_value list \<Rightarrow> enum_value list" where
  "root_items evs = takeWhile (\<lambda>e. \<not> is_ext_entry e) evs"

definition extension_items :: "enum_value list \<Rightarrow> enum_value list" where
  "extension_items evs = tl (dropWhile (\<lambda>e. \<not> is_ext_entry e) evs)"

text \<open>
  \<open>vals[i] = evs[i].number.value_or(next); next = vals[i] + 1;\<close> with the marker entries
  skipped, which leaves the 0 they were created with.
\<close>

fun number_from :: "i64 \<Rightarrow> enum_value list \<Rightarrow> i64 list" where
  "number_from next_value [] = []"
| "number_from next_value (e # evs) =
     (if is_ext_entry e then 0 # number_from next_value evs
      else
        (let v = case ev_number e of Some n \<Rightarrow> n | None \<Rightarrow> next_value in
         v # number_from (v + 1) evs))"

text \<open>\<open>std::max_element\<close> over signed numbers.\<close>

fun signed_max :: "i64 list \<Rightarrow> i64" where
  "signed_max [] = - 1"
| "signed_max (v # vs) = foldl (\<lambda>m w. if m <s w then w else m) v vs"

definition enumerated_values :: "enum_value list \<Rightarrow> i64 list" where
  "enumerated_values evs =
     (let root = number_from 0 (root_items evs);
          max_root = signed_max root
      in root @ number_from (max_root + 1) (dropWhile (\<lambda>e. \<not> is_ext_entry e) evs))"

section \<open>The checks on an ENUMERATED\<close>

definition enum_ctx :: "string \<Rightarrow> string" where
  "enum_ctx name = (if name = [] then [] else '' '' @ in_quotes name)"

fun enum_duplicates :: "string \<Rightarrow> string set \<Rightarrow> i64 set \<Rightarrow> (enum_value \<times> i64) list \<Rightarrow> string list" where
  "enum_duplicates ctx seen_names seen_vals [] = []"
| "enum_duplicates ctx seen_names seen_vals ((e, v) # rest) =
     (if is_ext_entry e then enum_duplicates ctx seen_names seen_vals rest
      else
        (if ev_name e \<in> seen_names then [''duplicate identifier '' @ in_quotes (ev_name e) @ ctx] else []) @
        (if v \<in> seen_vals then [''duplicate numeric value '' @ int_text (sint v) @ ctx] else []) @
        enum_duplicates ctx (insert (ev_name e) seen_names) (insert v seen_vals) rest)"

fun enum_ascending :: "string \<Rightarrow> i64 option \<Rightarrow> (enum_value \<times> i64) list \<Rightarrow> string list" where
  "enum_ascending ctx prev [] = []"
| "enum_ascending ctx prev ((e, v) # rest) =
     (if is_ext_entry e then enum_ascending ctx prev rest
      else
        (case prev of
           Some p \<Rightarrow>
             if v \<le>s p then
               [''extension value '' @ in_quotes (ev_name e) @ '' ('' @ int_text (sint v) @ '') not in ascending order'' @ ctx]
             else []
         | None \<Rightarrow> []) @
        enum_ascending ctx (Some v) rest)"

definition enum_errors :: "string \<Rightarrow> string \<Rightarrow> enum_value list \<Rightarrow> string list" where
  "enum_errors module name evs =
     (let ctx = '' in ENUMERATED'' @ enum_ctx name @ '' in module '' @ in_quotes module;
          items = zip evs (enumerated_values evs);
          ext_start = length (root_items evs)
      in
      (if length (filter is_ext_entry evs) > 1 then [''more than one extension marker'' @ ctx] else []) @
      enum_duplicates ctx {} {} items @
      (if ext_start < length evs then enum_ascending ctx None (drop (ext_start + 1) items) else []))"

section \<open>The table of the generator\<close>

text \<open>The loop of \<open>build_enumerated_spec\<close>: \<open>auto_val\<close> runs on across the marker.\<close>

fun generator_values :: "i64 \<Rightarrow> enum_value list \<Rightarrow> enum_entry list" where
  "generator_values auto_val [] = []"
| "generator_values auto_val (e # evs) =
     (if is_ext_entry e then generator_values auto_val evs
      else
        (let v = case ev_number e of Some n \<Rightarrow> n | None \<Rightarrow> auto_val in
         \<lparr>ee_value = v, ee_name = ev_name e\<rparr> # generator_values (v + 1) evs))"

text \<open>
  The emitted \<open>EnumSpec\<close>. \<open>std::sort\<close> leaves the order of equal values open; the
  stable order stands for it, and no property below depends on it.
\<close>

definition emitted_enum_spec :: "enum_value list \<Rightarrow> enum_spec" where
  "emitted_enum_spec evs =
     (let values = generator_values 0 evs; root_count = length (root_items evs) in
      \<lparr>es_entries = sort_key (\<lambda>e. sint (ee_value e)) values,
       es_extensible = list_ex is_ext_entry evs,
       es_root_count = root_count,
       es_per_value_order = map ee_value (take root_count values)\<rparr>)"

section \<open>When the two numberings agree\<close>

lemma length_number_from [simp]: "length (number_from n evs) = length evs"
  by (induction evs arbitrary: n) (simp_all add: Let_def)

definition entries_of :: "enum_value list \<Rightarrow> i64 list \<Rightarrow> enum_entry list" where
  "entries_of evs vs = map2 (\<lambda>e v. \<lparr>ee_value = v, ee_name = ev_name e\<rparr>) evs vs"

definition no_marker :: "enum_value list \<Rightarrow> bool" where
  "no_marker evs \<longleftrightarrow> list_all (\<lambda>e. \<not> is_ext_entry e) evs"

lemma generator_values_plain: "no_marker evs \<Longrightarrow> generator_values n evs = entries_of evs (number_from n evs)"
  by (induction evs arbitrary: n) (simp_all add: no_marker_def entries_of_def Let_def)

definition next_after :: "i64 \<Rightarrow> enum_value list \<Rightarrow> i64" where
  "next_after n evs = (if evs = [] then n else last (number_from n evs) + 1)"

lemma generator_values_append:
  "no_marker xs \<Longrightarrow> generator_values n (xs @ ys) = generator_values n xs @ generator_values (next_after n xs) ys"
proof (induction xs arbitrary: n)
  case (Cons e xs)
  then show ?case by (cases xs) (simp_all add: no_marker_def next_after_def Let_def)
qed (simp add: next_after_def)

lemma number_from_append:
  "no_marker xs \<Longrightarrow> number_from n (xs @ ys) = number_from n xs @ number_from (next_after n xs) ys"
proof (induction xs arbitrary: n)
  case (Cons e xs)
  then show ?case by (cases xs) (simp_all add: no_marker_def next_after_def Let_def)
qed (simp add: next_after_def)

lemma root_items_plain [simp]: "no_marker (root_items evs)"
  by (auto simp: no_marker_def root_items_def list_all_iff dest: set_takeWhileD)

lemma signed_max_bound: "v \<in> set vs \<Longrightarrow> v \<le>s signed_max vs"
proof -
  have fold: "sint m \<le> sint (foldl (\<lambda>m w. if m <s w then w else m) m ws) \<and>
      (\<forall>w \<in> set ws. sint w \<le> sint (foldl (\<lambda>m w. if m <s w then w else m) m ws))" for m :: i64 and ws
    by (induction ws arbitrary: m) (auto simp: word_sless_alt not_less intro: order_trans less_imp_le split: if_splits)
  show "v \<in> set vs \<Longrightarrow> v \<le>s signed_max vs"
    using fold by (cases vs) (auto simp: word_sle_eq)
qed

lemma signed_max_in: "vs \<noteq> [] \<Longrightarrow> signed_max vs \<in> set vs"
proof -
  have "foldl (\<lambda>m w. if m <s w then w else m) m ws \<in> insert m (set ws)" for m :: i64 and ws
    by (induction ws arbitrary: m) auto
  then show "vs \<noteq> [] \<Longrightarrow> signed_max vs \<in> set vs" by (cases vs) auto
qed

text \<open>\<open>root_ends_highest\<close>: the last item of the root has its largest value.\<close>

definition root_ends_highest :: "enum_value list \<Rightarrow> bool" where
  "root_ends_highest evs \<longleftrightarrow>
     (\<forall>v \<in> set (number_from 0 (root_items evs)). v \<le>s last (number_from 0 (root_items evs)))"

lemma root_ends_highest_next:
  assumes "root_ends_highest evs"
  shows "next_after 0 (root_items evs) = signed_max (number_from 0 (root_items evs)) + 1"
proof (cases "root_items evs = []")
  case False
  let ?vs = "number_from 0 (root_items evs)"
  have ne: "?vs \<noteq> []" using False by (metis length_0_conv length_number_from)
  have "signed_max ?vs \<le>s last ?vs" "last ?vs \<le>s signed_max ?vs"
    using assms signed_max_in [OF ne] signed_max_bound [of "last ?vs" ?vs] ne by (auto simp: root_ends_highest_def)
  then have "last ?vs = signed_max ?vs" by (simp add: signed.order.antisym)
  then show ?thesis using False by (simp add: next_after_def)
qed (simp add: next_after_def)

section \<open>What the checks establish\<close>

lemma enum_duplicates_Nil:
  "enum_duplicates ctx names vals items = [] \<Longrightarrow>
   (let kept = filter (\<lambda>(e, v). \<not> is_ext_entry e) items in
    distinct (map (ev_name \<circ> fst) kept) \<and> distinct (map snd kept) \<and>
    names \<inter> set (map (ev_name \<circ> fst) kept) = {} \<and> vals \<inter> set (map snd kept) = {})"
proof (induction ctx names vals items rule: enum_duplicates.induct)
  case (2 ctx names vals e v rest)
  show ?case
  proof (cases "is_ext_entry e")
    case True
    then show ?thesis using 2 by (simp add: Let_def)
  next
    case False
    note ih = "2.IH"(2) [OF False]
    have rest: "enum_duplicates ctx (insert (ev_name e) names) (insert v vals) rest = []"
      and "ev_name e \<notin> names" "v \<notin> vals" using 2(3) False by (auto split: if_splits)
    then show ?thesis using ih [OF rest] False by (auto simp: Let_def)
  qed
qed simp

lemma enum_ascending_Nil:
  "enum_ascending ctx prev items = [] \<Longrightarrow> no_marker (map fst items) \<Longrightarrow>
   sorted_wrt (<s) (map snd items) \<and> (\<forall>p. prev = Some p \<longrightarrow> (\<forall>v \<in> set (map snd items). p <s v))"
proof (induction ctx prev items rule: enum_ascending.induct)
  case (2 ctx prev e v rest)
  have plain: "\<not> is_ext_entry e" "no_marker (map fst rest)" using 2(4) by (auto simp: no_marker_def)
  have "enum_ascending ctx (Some v) rest = []" and prev: "\<And>p. prev = Some p \<Longrightarrow> p <s v"
    using 2(3) plain by (auto split: option.splits if_splits simp: signed.not_le)
  then have "sorted_wrt (<s) (map snd rest)" "\<forall>w \<in> set (map snd rest). v <s w"
    using "2.IH"(2) [OF plain(1) _ plain(2)] by auto
  then show ?case using prev by (auto intro: signed.less_trans)
qed simp

text \<open>The two parts of an accepted ENUMERATED, with the numbers the analysis gives them.\<close>

lemma accepted_enum_parts:
  assumes "enum_errors module name evs = []"
  defines "r \<equiv> number_from 0 (root_items evs)"
  defines "x \<equiv> number_from (signed_max r + 1) (extension_items evs)"
  shows "no_marker (extension_items evs)"
    and "evs = root_items evs \<or> (\<exists>m. is_ext_entry m \<and> evs = root_items evs @ m # extension_items evs)"
    and "distinct (map ev_name (root_items evs @ extension_items evs))"
    and "distinct (r @ x)"
    and "sorted_wrt (<s) x"
proof -
  let ?plain = "\<lambda>e. \<not> is_ext_entry e"
  have split: "evs = root_items evs @ dropWhile ?plain evs" by (simp add: root_items_def)
  have kept: "filter (\<lambda>(e, v). \<not> is_ext_entry e) (zip es vs) = zip es vs"
    if "no_marker es" for es :: "enum_value list" and vs :: "i64 list"
    using that by (auto simp: no_marker_def list_all_iff filter_id_conv dest!: set_zip_leftD)
  have one: "length (filter is_ext_entry evs) \<le> 1"
    and dup: "enum_duplicates ('' in ENUMERATED'' @ enum_ctx name @ '' in module '' @ in_quotes module) {} {} (zip evs (enumerated_values evs)) = []"
    and asc: "length (root_items evs) < length evs \<Longrightarrow>
      enum_ascending ('' in ENUMERATED'' @ enum_ctx name @ '' in module '' @ in_quotes module) None
        (drop (length (root_items evs) + 1) (zip evs (enumerated_values evs))) = []"
    using assms(1) by (auto simp: enum_errors_def Let_def split: if_splits)
  have parts: "no_marker (extension_items evs) \<and> (evs = root_items evs \<or> (\<exists>m. is_ext_entry m \<and> evs = root_items evs @ m # extension_items evs)) \<and>
      filter (\<lambda>(e, v). \<not> is_ext_entry e) (zip evs (enumerated_values evs)) = zip (root_items evs) r @ zip (extension_items evs) x \<and>
      sorted_wrt (<s) x"
  proof (cases "dropWhile ?plain evs")
    case Nil
    have ev: "evs = root_items evs" using split Nil by simp
    then have e: "enumerated_values evs = r" by (simp only: enumerated_values_def Let_def r_def Nil number_from.simps append_Nil2)
    have x: "extension_items evs = []" by (simp only: extension_items_def Nil list.sel)
    have "filter (\<lambda>(e, v). \<not> is_ext_entry e) (zip (root_items evs) r) = zip (root_items evs) r"
      by (rule kept) simp
    moreover have "zip evs (enumerated_values evs) = zip (root_items evs) r" by (simp only: e ev [symmetric])
    moreover have "x = []" by (simp add: x_def x)
    moreover have "no_marker (extension_items evs)" by (simp add: x no_marker_def)
    ultimately show ?thesis using ev x by simp
  next
    case (Cons m rest)
    have m: "is_ext_entry m" using Cons by (metis dropWhile_eq_Cons_conv)
    have x: "extension_items evs = rest" using Cons by (simp add: extension_items_def)
    have ev: "evs = root_items evs @ m # extension_items evs" using split Cons x by simp
    have "length (filter is_ext_entry (root_items evs @ m # extension_items evs)) \<le> 1" using one ev by simp
    then have "filter is_ext_entry (extension_items evs) = []" using m by simp
    then have plain: "no_marker (extension_items evs)" by (auto simp: no_marker_def list_all_iff filter_empty_conv)
    have e: "enumerated_values evs = r @ 0 # x"
      using Cons m x by (simp add: enumerated_values_def Let_def r_def x_def)
    have zip: "zip evs (enumerated_values evs) = zip (root_items evs) r @ (m, 0) # zip (extension_items evs) x"
      by (subst ev, subst e) (simp add: r_def)
    have "sorted_wrt (<s) (map snd (zip (extension_items evs) x))"
    proof -
      have "length (root_items evs) < length evs" by (subst (2) ev) simp
      from asc [OF this] have "enum_ascending ('' in ENUMERATED'' @ enum_ctx name @ '' in module '' @ in_quotes module) None (zip (extension_items evs) x) = []"
        by (simp add: zip r_def)
      from enum_ascending_Nil [OF this] show ?thesis using plain by (simp add: x_def)
    qed
    then show ?thesis using zip m plain ev kept by (simp add: x_def r_def) blast
  qed
  then show "no_marker (extension_items evs)" "sorted_wrt (<s) x"
    and "evs = root_items evs \<or> (\<exists>m. is_ext_entry m \<and> evs = root_items evs @ m # extension_items evs)" by blast+
  from enum_duplicates_Nil [OF dup] parts
  have "distinct (map (ev_name \<circ> fst) (zip (root_items evs) r @ zip (extension_items evs) x))"
    and "distinct (map snd (zip (root_items evs) r @ zip (extension_items evs) x))" by (simp_all add: Let_def)
  then show "distinct (map ev_name (root_items evs @ extension_items evs))" "distinct (r @ x)"
    by (simp_all only: map_append map_map [symmetric] r_def x_def map_fst_zip map_snd_zip length_number_from)
qed

lemma entries_of_fields:
  "length vs = length evs \<Longrightarrow> map ee_value (entries_of evs vs) = vs"
  "length vs = length evs \<Longrightarrow> map ee_name (entries_of evs vs) = map ev_name evs"
  by (simp_all add: entries_of_def list_eq_iff_nth_eq)

lemma accepted_enum_values:
  assumes "enum_errors module name evs = []" "root_ends_highest evs"
  defines "r \<equiv> number_from 0 (root_items evs)"
  defines "x \<equiv> number_from (signed_max r + 1) (extension_items evs)"
  shows "generator_values 0 evs = entries_of (root_items evs) r @ entries_of (extension_items evs) x"
proof -
  note parts = accepted_enum_parts [OF assms(1), folded r_def, folded x_def]
  have root: "generator_values 0 (root_items evs) = entries_of (root_items evs) r"
    by (simp add: generator_values_plain r_def)
  from parts(2) show ?thesis
  proof (elim disjE exE conjE)
    assume ev: "evs = root_items evs"
    then have "extension_items evs = []"
      by (metis append_self_conv extension_items_def list.sel(2) root_items_def takeWhile_dropWhile_id)
    then show ?thesis using ev root by (simp add: x_def entries_of_def)
  next
    fix m assume m: "is_ext_entry m" and ev: "evs = root_items evs @ m # extension_items evs"
    have "generator_values 0 evs = entries_of (root_items evs) r @ generator_values (signed_max r + 1) (extension_items evs)"
      by (subst ev) (simp add: generator_values_append m root root_ends_highest_next [OF assms(2)] r_def)
    then show ?thesis by (simp add: generator_values_plain [OF parts(1)] x_def)
  qed
qed

section \<open>The table of an accepted ENUMERATED\<close>

lemma sorted_entries_strict:
  assumes "distinct (map ee_value es)"
  shows "enum_sorted (sort_key (\<lambda>e. sint (ee_value e)) es)"
proof -
  let ?s = "sort_key (\<lambda>e. sint (ee_value e)) es"
  have "distinct (map ee_value ?s)" using assms by (simp add: distinct_map)
  then have d: "distinct (map (\<lambda>e. sint (ee_value e)) ?s)" by (auto simp: distinct_map inj_on_def dest: signed_word_eqI)
  have "sorted (map (\<lambda>e. sint (ee_value e)) ?s)" by simp
  with d have "sorted_wrt (<) (map (\<lambda>e. sint (ee_value e)) ?s)" by (simp add: strict_sorted_iff)
  then show ?thesis by (simp add: enum_sorted_def sorted_wrt_map word_sless_alt)
qed

lemma accepted_enum_distinct:
  assumes "enum_errors module name evs = []" "root_ends_highest evs"
  shows "distinct (map ee_value (generator_values 0 evs))" "distinct (map ee_name (generator_values 0 evs))"
  using accepted_enum_parts [OF assms(1)] by (simp_all add: accepted_enum_values [OF assms] entries_of_fields)

lemma emitted_lengths:
  assumes "enum_errors module name evs = []"
  shows "length (generator_values 0 evs) = length (root_items evs) + length (extension_items evs)"
    and "\<not> list_ex is_ext_entry evs \<Longrightarrow> extension_items evs = []"
    and "length (generator_values 0 evs) \<le> length evs"
proof -
  have len: "length (generator_values n es) = length (filter (\<lambda>e. \<not> is_ext_entry e) es)" for n es
    by (induction es arbitrary: n) (simp_all add: Let_def)
  have plain: "filter (\<lambda>e. \<not> is_ext_entry e) es = es" if "no_marker es" for es
    using that by (simp add: no_marker_def list_all_iff filter_id_conv)
  note parts = accepted_enum_parts [OF assms]
  show "length (generator_values 0 evs) \<le> length evs" by (simp add: len)
  show "length (generator_values 0 evs) = length (root_items evs) + length (extension_items evs)"
    using parts(2)
  proof (elim disjE exE conjE)
    assume ev: "evs = root_items evs"
    then have "extension_items evs = []"
      by (metis append_self_conv extension_items_def list.sel(2) root_items_def takeWhile_dropWhile_id)
    moreover have "filter (\<lambda>e. \<not> is_ext_entry e) evs = root_items evs" by (subst ev) (simp add: plain)
    ultimately show ?thesis by (simp add: len)
  next
    fix m assume m: "is_ext_entry m" and ev: "evs = root_items evs @ m # extension_items evs"
    have "filter (\<lambda>e. \<not> is_ext_entry e) evs = root_items evs @ extension_items evs"
      by (subst ev) (simp add: plain parts(1) m)
    then show ?thesis by (simp add: len)
  qed
  show "extension_items evs = []" if "\<not> list_ex is_ext_entry evs"
    using that parts(2)
  proof (elim disjE exE conjE)
    assume "evs = root_items evs"
    then show ?thesis by (metis append_self_conv extension_items_def list.sel(2) root_items_def takeWhile_dropWhile_id)
  next
    fix m assume "is_ext_entry m" "evs = root_items evs @ m # extension_items evs"
    then show ?thesis using that by (metis in_set_conv_decomp list_ex_iff)
  qed
qed

text \<open>
  An ENUMERATED that the checks accept and whose root ends with its largest value gets a
  table the codecs can search.
\<close>

lemma accepted_enum_table:
  assumes "enum_errors module name evs = []" "root_ends_highest evs" "length evs < 2 ^ 31"
  shows "enum_wf (emitted_enum_spec evs) \<and> distinct (map ee_name (es_entries (emitted_enum_spec evs)))"
proof -
  have entries: "es_entries (emitted_enum_spec evs) = sort_key (\<lambda>e. sint (ee_value e)) (generator_values 0 evs)"
    by (simp add: emitted_enum_spec_def Let_def)
  have "enum_sorted (es_entries (emitted_enum_spec evs))"
    unfolding entries by (rule sorted_entries_strict) (rule accepted_enum_distinct [OF assms(1,2)])
  moreover have "distinct (map ee_name (es_entries (emitted_enum_spec evs)))"
    using accepted_enum_distinct(2) [OF assms(1,2)] by (simp add: entries distinct_map)
  moreover have "enum_root_count (emitted_enum_spec evs) \<le> length (es_entries (emitted_enum_spec evs))"
    and "\<not> es_extensible (emitted_enum_spec evs) \<Longrightarrow> enum_root_count (emitted_enum_spec evs) = length (es_entries (emitted_enum_spec evs))"
    using emitted_lengths [OF assms(1)] by (auto simp: enum_root_count_def emitted_enum_spec_def Let_def)
  ultimately show ?thesis
    using emitted_lengths(3) [OF assms(1)] assms(3) by (auto simp: enum_wf_def entries)
qed

text \<open>
  When moreover the extension values lie above the root, the table has the order of X.691:
  the root by value, then the extension additions as they were declared, so that position
  and \<open>root_count\<close> tell the two apart.
\<close>

theorem accepted_enum_order:
  assumes "enum_errors module name evs = []" "root_ends_highest evs"
    and "\<And>v. v \<in> set (number_from (signed_max (number_from 0 (root_items evs)) + 1) (extension_items evs)) \<Longrightarrow>
           signed_max (number_from 0 (root_items evs)) <s v"
  shows "es_entries (emitted_enum_spec evs) =
           sort_key (\<lambda>e. sint (ee_value e)) (generator_values 0 (root_items evs)) @
           entries_of (extension_items evs)
             (number_from (signed_max (number_from 0 (root_items evs)) + 1) (extension_items evs))"
proof -
  let ?k = "\<lambda>e. sint (ee_value e)"
  let ?r = "number_from 0 (root_items evs)"
  let ?A = "entries_of (root_items evs) ?r"
  let ?B = "entries_of (extension_items evs) (number_from (signed_max ?r + 1) (extension_items evs))"
  have below: "?k a < ?k b" if "a \<in> set ?A" "b \<in> set ?B" for a b
  proof -
    have "ee_value a \<in> set (map ee_value ?A)" "ee_value b \<in> set (map ee_value ?B)" using that by auto
    then have "ee_value a \<le>s signed_max ?r" "signed_max ?r <s ee_value b"
      by (auto simp: entries_of_fields intro: signed_max_bound assms(3))
    then show ?thesis by (simp add: word_sle_eq word_sless_alt)
  qed
  have "sorted_wrt (<s) (map ee_value ?B)"
    using accepted_enum_parts(5) [OF assms(1)] by (simp add: entries_of_fields)
  then have B: "sorted (map ?k ?B)"
    by (simp add: sorted_wrt_map word_sless_alt) (rule sorted_wrt_mono_rel [rotated], assumption, simp)
  have sorted: "sorted (map ?k (sort_key ?k ?A @ ?B))"
    using B below by (auto simp: sorted_append intro: less_imp_le)
  have "sort_key ?k (?A @ ?B) = sort_key ?k ?A @ ?B"
  proof (rule properties_for_sort_key [OF _ _ sorted])
    show "mset (sort_key ?k ?A @ ?B) = mset (?A @ ?B)" by simp
    show "filter (\<lambda>y. ?k x = ?k y) (sort_key ?k ?A @ ?B) = filter (\<lambda>y. ?k x = ?k y) (?A @ ?B)" for x
      by (simp add: eq_commute [of "sint (ee_value x)"] sort_key_stable)
  qed
  then show ?thesis
    by (simp add: emitted_enum_spec_def Let_def accepted_enum_values [OF assms(1,2)] generator_values_plain)
qed

text \<open>A schema with an implicit root and an addition on top of it.\<close>

definition ascending_root :: "enum_value list" where
  "ascending_root =
     [\<lparr>ev_name = ''a'', ev_number = None\<rparr>, \<lparr>ev_name = ''b'', ev_number = Some 4\<rparr>,
      \<lparr>ev_name = ''...'', ev_number = None\<rparr>, \<lparr>ev_name = ''c'', ev_number = None\<rparr>]"

lemma ascending_root_accepted:
  "enum_errors ''M'' ''T'' ascending_root = []" "root_ends_highest ascending_root" "length ascending_root = 4"
  by code_simp+

lemma ascending_root_table:
  "enum_wf (emitted_enum_spec ascending_root) \<and> distinct (map ee_name (es_entries (emitted_enum_spec ascending_root)))"
  by (rule accepted_enum_table [OF ascending_root_accepted(1,2)]) (simp add: ascending_root_accepted)

theorem accepted_enum_order_witness:
  "map ee_value (es_entries (emitted_enum_spec ascending_root)) = [0, 4, 5]"
proof -
  have "\<forall>v \<in> set (number_from (signed_max (number_from 0 (root_items ascending_root)) + 1) (extension_items ascending_root)).
      signed_max (number_from 0 (root_items ascending_root)) <s v" by code_simp
  then have "es_entries (emitted_enum_spec ascending_root) =
      sort_key (\<lambda>e. sint (ee_value e)) (generator_values 0 (root_items ascending_root)) @
      entries_of (extension_items ascending_root)
        (number_from (signed_max (number_from 0 (root_items ascending_root)) + 1) (extension_items ascending_root))"
    by (intro accepted_enum_order [OF ascending_root_accepted(1,2)]) blast
  also have "map ee_value \<dots> = [0, 4, 5]" by code_simp
  finally show ?thesis .
qed

section \<open>Where the numberings part\<close>

definition descending_root :: "enum_value list" where
  "descending_root =
     [\<lparr>ev_name = ''a'', ev_number = Some 1\<rparr>, \<lparr>ev_name = ''b'', ev_number = Some 0\<rparr>,
      \<lparr>ev_name = ''...'', ev_number = None\<rparr>, \<lparr>ev_name = ''c'', ev_number = None\<rparr>]"

text \<open>
  The analysis numbers the additions from above the largest root value, the generator from
  above the last one: an ENUMERATED can pass the checks and still be emitted with two items
  of the same value.
\<close>

theorem accepted_enum_emitted_twice:
  "enum_errors ''M'' ''T'' descending_root = [] \<and>
   map ee_value (generator_values 0 descending_root) = [1, 0, 1]"
  by code_simp



text \<open>
  X.680 20.3 numbers the items without a number from 0, past the numbers that are used; here
  they go on from the item before: \<open>{a(5), b}\<close> gives \<open>b\<close> 6 and not 0, and \<open>{a, b(0)}\<close>,
  where \<open>a\<close> should be 1, is rejected.
\<close>

lemma root_numbering_runs_on:
  "enumerated_values [\<lparr>ev_name = ''a'', ev_number = Some 5\<rparr>, \<lparr>ev_name = ''b'', ev_number = None\<rparr>] = [5, 6]"
  "length (enum_errors ''M'' ''T'' [\<lparr>ev_name = ''a'', ev_number = None\<rparr>, \<lparr>ev_name = ''b'', ev_number = Some 0\<rparr>]) = 1"
  by code_simp+

end
