(* ===== verification/Contents_Rules.thy ===== *)
theory Contents_Rules
  imports Compiler_Ast
begin

text \<open>
  Contents constraints (\<open>compiler/src/sema/Contents.hpp\<close>): finding the one of a type, and
  which encoding rules the object identifier of an \<open>ENCODED BY\<close> names.
\<close>

unbundle bit_operations_syntax

section \<open>Contents constraints\<close>

datatype contents_encoding =
    CE_Outer | CE_Ber | CE_Cer | CE_Der | CE_PerAligned | CE_PerUnaligned | CE_Unknown

lemma nested_constraints_smaller:
  "ac_body c = CB_Intersection ops s \<Longrightarrow> size_list (size_option size) ops < size c"
  "ac_body c = CB_Union ops \<Longrightarrow> size_list (size_option size) ops < size c"
  by (cases c; simp)+

text \<open>\<open>find_contents_constraint\<close>: the first one, looking through intersections and unions.\<close>

function find_contents :: "ast_constraint option list \<Rightarrow> (ast_type option \<times> string) option" where
  "find_contents [] = None"
| "find_contents (None # cs) = find_contents cs"
| "find_contents (Some c # cs) =
     (case ac_body c of
        CB_Contents t e \<Rightarrow> Some (t, e)
      | CB_Intersection ops s \<Rightarrow>
          (case find_contents ops of Some x \<Rightarrow> Some x | None \<Rightarrow> find_contents cs)
      | CB_Union ops \<Rightarrow>
          (case find_contents ops of Some x \<Rightarrow> Some x | None \<Rightarrow> find_contents cs)
      | _ \<Rightarrow> find_contents cs)"
  by pat_completeness auto

termination
  by (relation "measure (size_list (size_option size))") (auto dest!: nested_constraints_smaller)

definition is_space :: "char \<Rightarrow> bool" where
  "is_space c \<longleftrightarrow> c = CHR '' '' \<or> (9 \<le> code_of c \<and> code_of c \<le> 13)"

definition is_alpha :: "char \<Rightarrow> bool" where
  "is_alpha c \<longleftrightarrow> between CHR ''a'' c CHR ''z'' \<or> between CHR ''A'' c CHR ''Z''"

definition skip_spaces :: "string \<Rightarrow> string" where
  "skip_spaces s = dropWhile is_space s"

text \<open>\<open>n = n * 10 + (text[i++] - '0')\<close> in 64 bits.\<close>

definition arc_value :: "string \<Rightarrow> i64" where
  "arc_value ds = foldl (\<lambda>n c. n * 10 + of_nat (code_of c - 48)) 0 ds"

definition known_arcs :: "(string \<times> nat \<times> i64) list" where
  "known_arcs =
     [(''itu-t'', 0, 0), (''ccitt'', 0, 0), (''iso'', 0, 1),
      (''joint-iso-itu-t'', 0, 2), (''joint-iso-ccitt'', 0, 2),
      (''asn1'', 1, 1),
      (''basic-encoding'', 2, 1), (''ber-derived'', 2, 2), (''packed-encoding'', 2, 3),
      (''canonical-encoding'', 3, 0), (''distinguished-encoding'', 3, 1),
      (''basic'', 3, 0), (''canonical'', 3, 1),
      (''aligned'', 4, 0), (''unaligned'', 4, 1)]"

text \<open>
  One round of the loop of \<open>encoded_by_arcs\<close>, at a character that is neither a space nor the
  closing brace: a number, a name with a number in parentheses, or a well-known name.
\<close>

definition is_name_char :: "char \<Rightarrow> bool" where
  "is_name_char c \<longleftrightarrow> is_alpha c \<or> is_digit c \<or> c = CHR ''-''"

definition next_arc :: "nat \<Rightarrow> string \<Rightarrow> (i64 \<times> string) option" where
  "next_arc pos s =
     (if is_digit (hd s) then Some (arc_value (takeWhile is_digit s), dropWhile is_digit s)
      else
        (let name = takeWhile is_name_char s; rest = skip_spaces (dropWhile is_name_char s) in
         if name = [] then None
         else if rest \<noteq> [] \<and> hd rest = CHR ''('' then
           (let ds = skip_spaces (tl rest); tail = skip_spaces (dropWhile is_digit ds) in
            if takeWhile is_digit ds = [] \<or> tail = [] \<or> hd tail \<noteq> CHR '')'' then None
            else Some (arc_value (takeWhile is_digit ds), tl tail))
         else
           (case find (\<lambda>k. fst k = name \<and> fst (snd k) = pos) known_arcs of
              None \<Rightarrow> None
            | Some k \<Rightarrow> Some (snd (snd k), rest))))"

lemma skip_spaces_length: "length (skip_spaces s) \<le> length s"
  by (simp add: skip_spaces_def length_dropWhile_le)

lemma takeWhile_shrinks: "takeWhile P s \<noteq> [] \<Longrightarrow> length (dropWhile P s) < length s"
  by (cases s) (auto simp: le_imp_less_Suc length_dropWhile_le split: if_splits)

lemma next_arc_shrinks:
  assumes "next_arc pos s = Some (v, s')" "s \<noteq> []"
  shows "length s' < length s"
proof (cases "is_digit (hd s)")
  case True
  then have "takeWhile is_digit s \<noteq> []" using assms(2) by (cases s) simp_all
  then show ?thesis using assms(1) True takeWhile_shrinks by (auto simp: next_arc_def)
next
  case False
  let ?rest = "skip_spaces (dropWhile is_name_char s)"
  let ?ds = "skip_spaces (tl ?rest)"
  have name: "takeWhile is_name_char s \<noteq> []" using assms(1) False by (auto simp: next_arc_def Let_def)
  have rest: "length ?rest < length s"
    using skip_spaces_length takeWhile_shrinks [OF name] by (rule le_less_trans)
  have "s' = ?rest \<or> s' = tl (skip_spaces (dropWhile is_digit ?ds))"
    using assms(1) False by (auto simp: next_arc_def Let_def split: if_splits option.splits)
  moreover have "length (skip_spaces (dropWhile is_digit ?ds)) \<le> length ?rest"
  proof -
    have "length (skip_spaces (dropWhile is_digit ?ds)) \<le> length ?ds"
      using skip_spaces_length length_dropWhile_le by (rule le_trans)
    also have "\<dots> \<le> length (tl ?rest)" by (rule skip_spaces_length)
    also have "\<dots> \<le> length ?rest" by simp
    finally show ?thesis .
  qed
  moreover have "length (tl ts) \<le> length ts" for ts :: string by simp
  ultimately show ?thesis using rest by (metis le_less_trans le_trans)
qed

text \<open>An empty list is the answer for what cannot be read.\<close>

function arcs_loop :: "i64 list \<Rightarrow> string \<Rightarrow> i64 list" where
  "arcs_loop arcs s0 =
     (let s = skip_spaces s0 in
      if s = [] then []
      else if hd s = CHR ''}'' then arcs
      else
        (case next_arc (length arcs) s of
           None \<Rightarrow> []
         | Some (v, rest) \<Rightarrow> arcs_loop (arcs @ [v]) rest))"
  by pat_completeness auto
termination
  by (relation "measure (length \<circ> snd)")
     (auto dest!: next_arc_shrinks intro: less_le_trans [OF _ skip_spaces_length])

declare arcs_loop.simps [simp del]

definition encoded_by_arcs :: "string \<Rightarrow> i64 list" where
  "encoded_by_arcs s = (if s = [] \<or> hd s \<noteq> CHR ''{'' then [] else arcs_loop [] (tl s))"

definition classify_encoded_by :: "string \<Rightarrow> contents_encoding" where
  "classify_encoded_by s =
     (if s = [] then CE_Outer
      else
        (let a = encoded_by_arcs s in
         if a = [2, 1, 1] then CE_Ber
         else if a = [2, 1, 2, 0] then CE_Cer
         else if a = [2, 1, 2, 1] then CE_Der
         else if a = [2, 1, 3, 0, 0] then CE_PerAligned
         else if a = [2, 1, 3, 0, 1] then CE_PerUnaligned
         else CE_Unknown))"

section \<open>Reading numbers back\<close>

lemma arc_value_decimal: "arc_value ds = of_nat (decimal_value ds)"
proof -
  have "foldl (\<lambda>n c. n * 10 + of_nat (code_of c - 48)) (of_nat v) ds =
      (of_nat (foldl (\<lambda>v c. v * 10 + (code_of c - 48)) v ds) :: i64)" for v
  proof (induction ds arbitrary: v)
    case (Cons c ds)
    have "of_nat v * 10 + of_nat (code_of c - 48) = (of_nat (v * 10 + (code_of c - 48)) :: i64)" by simp
    then show ?case using Cons.IH [of "v * 10 + (code_of c - 48)"] by (simp only: foldl_Cons)
  qed simp
  from this [of 0] show ?thesis by (simp add: arc_value_def decimal_value_def)
qed

definition arcs_text :: "i64 list \<Rightarrow> string" where
  "arcs_text arcs = ''{'' @ concat (map (\<lambda>a. '' '' @ to_string (unat a)) arcs) @ '' }''"

lemma digit_not_space: "is_digit c \<Longrightarrow> \<not> is_space c"
  by (auto simp: is_digit_def is_space_def between_def code_of_def)

lemma arcs_loop_text:
  "arcs_loop acc (concat (map (\<lambda>a. '' '' @ to_string (unat a)) arcs) @ '' }'') = acc @ arcs"
proof (induction arcs arbitrary: acc)
  case Nil
  have "skip_spaces '' }'' = ''}''" by code_simp
  then show ?case by (simp add: arcs_loop.simps)
next
  case (Cons a arcs)
  let ?ds = "to_string (unat a)" and ?rest = "concat (map (\<lambda>a. '' '' @ to_string (unat a)) arcs) @ '' }''"
  obtain c cs where ds: "?ds = c # cs" and c: "is_digit c"
    using to_string_digits [OF refl, of "unat a"] by (cases ?ds) auto
  have space: "is_space (CHR '' '')" by (simp add: is_space_def)
  have no: "no_digit ?rest"
    by (cases arcs) (simp_all add: no_digit_def is_digit_def between_def code_of_def)
  have skip: "skip_spaces ('' '' @ ?ds @ ?rest) = ?ds @ ?rest"
    using digit_not_space [OF c] by (simp add: skip_spaces_def ds space)
  have hd: "is_digit (hd (?ds @ ?rest))" using c ds by simp
  have "hd (?ds @ ?rest) \<noteq> CHR ''}''" using hd by (auto simp: is_digit_def between_def code_of_def)
  moreover have "next_arc (length acc) (?ds @ ?rest) = Some (a, ?rest)"
    using hd takeWhile_digits [OF to_string_all_digits no] by (simp add: next_arc_def arc_value_decimal decimal_to_string)
  ultimately have "arcs_loop acc ('' '' @ ?ds @ ?rest) = arcs_loop (acc @ [a]) ?rest"
    using to_string_nonempty by (simp only: arcs_loop.simps [of acc "'' '' @ ?ds @ ?rest"] skip Let_def) simp
  then show ?case using Cons.IH by simp
qed

text \<open>The numeric form of every object identifier is read back.\<close>

theorem encoded_by_arcs_text: "encoded_by_arcs (arcs_text arcs) = arcs"
  using arcs_loop_text [of "[]" arcs] by (simp add: encoded_by_arcs_def arcs_text_def)

corollary classify_numeric_forms:
  "classify_encoded_by (arcs_text [2, 1, 1]) = CE_Ber"
  "classify_encoded_by (arcs_text [2, 1, 2, 1]) = CE_Der"
  "classify_encoded_by (arcs_text [2, 1, 3, 0, 1]) = CE_PerUnaligned"
  "classify_encoded_by (arcs_text [1, 3]) = CE_Unknown"
proof -
  have ne: "arcs_text arcs \<noteq> []" for arcs by (simp add: arcs_text_def)
  show "classify_encoded_by (arcs_text [2, 1, 1]) = CE_Ber"
    "classify_encoded_by (arcs_text [2, 1, 2, 1]) = CE_Der"
    "classify_encoded_by (arcs_text [2, 1, 3, 0, 1]) = CE_PerUnaligned"
    "classify_encoded_by (arcs_text [1, 3]) = CE_Unknown"
    by (simp_all add: classify_encoded_by_def ne encoded_by_arcs_text)
qed

end
