(* ===== verification/Schema_Checks.thy ===== *)
theory Schema_Checks
  imports Tag_Checks Enum_Tables Contents_Rules
begin

text \<open>
  The semantic checks of the compiler (\<open>compiler/src/sema/Resolver.hpp\<close>): type references, named values, constraints, contents constraints,
  DEFAULT values, and the walk \<open>check_and_resolve\<close> over all type definitions that runs them
  with those of \<open>Tag_Checks\<close> and \<open>Enum_Tables\<close>. Each check is the list of diagnostics it
  adds; the two lists of the code are the errors and the warnings among them.
\<close>

unbundle bit_operations_syntax

datatype diagnostic = Diag_Error string | Diag_Warning string

definition in_module_text :: "string \<Rightarrow> string" where
  "in_module_text m = '' in module '' @ in_quotes m"

lemma member_smaller:
  "Some x \<in> set (at_members def) \<Longrightarrow> size x < size def"
proof (cases def)
  case (Type_Def name body ms evs tag marker dflt cs ext par formals lit)
  assume "Some x \<in> set (at_members def)"
  then have "size_option size (Some x) \<le> size_list (size_option size) ms"
    unfolding Type_Def by (intro size_list_estimation' [OF _ order_refl]) simp
  then show "size x < size def" unfolding Type_Def by simp
qed

lemma element_smaller:
  "at_body def = Body_SequenceOf (Some x) \<Longrightarrow> size x < size def"
  "at_body def = Body_SetOf (Some x) \<Longrightarrow> size x < size def"
  by (cases def; simp)+

lemma find_contents_smaller: "find_contents cs = Some (Some t, e) \<Longrightarrow> size t < size_list (size_option size) cs"
proof (induction cs rule: find_contents.induct)
  case (3 c cs)
  have size: "size_list (size_option size) (Some c # cs) = Suc (Suc (size c) + size_list (size_option size) cs)" by simp
  show ?case
  proof (cases "ac_body c")
    case (CB_Contents t' e')
    then have "size t < size c" using 3 by (cases c) simp
    then show ?thesis unfolding size by simp
  next
    case (CB_Intersection ops s)
    then show ?thesis using 3 nested_constraints_smaller(1) [OF CB_Intersection] by (auto split: option.splits)
  next
    case (CB_Union ops)
    then show ?thesis using 3 nested_constraints_smaller(2) [OF CB_Union] by (auto split: option.splits)
  qed (use 3 in auto)
qed simp_all

lemma contents_smaller: "find_contents (at_constraints def) = Some (Some t, e) \<Longrightarrow> size t < size def"
  by (cases def) (auto dest: find_contents_smaller)

section \<open>Type references\<close>

text \<open>Names a reference may have without a definition in sight.\<close>

definition exempt_name :: "string \<Rightarrow> bool" where
  "exempt_name n \<longleftrightarrow> n = ''__COMPONENTS_OF__'' \<or> CHR ''.'' \<in> set n \<or> CHR ''&'' \<in> set n \<or>
     n \<in> set [''EXTERNAL'', ''EmbeddedPDV'', ''CharacterString'', ''TYPE-IDENTIFIER'', ''ABSTRACT-SYNTAX'']"

definition components_of_errors :: "resolver \<Rightarrow> string \<Rightarrow> ast_type option \<Rightarrow> string list" where
  "components_of_errors r m param =
     (case param of
        None \<Rightarrow> []
      | Some p \<Rightarrow>
          (case follow_aliases r p m of
             None \<Rightarrow> []
           | Some base \<Rightarrow>
               if at_body base = Body_Sequence \<or> at_body base = Body_Set then []
               else
                 (let n1 = (case at_body p of Body_Ref _ n _ _ \<Rightarrow> n | _ \<Rightarrow> []);
                      n2 = (if n1 = [] then at_name base else n1);
                      n3 = (if n2 = [] then (case at_body p of Body_Builtin bt \<Rightarrow> builtin_type_name bt | _ \<Rightarrow> []) else n2);
                      n4 = (if n3 = [] then ''inline type'' else n3)
                  in [''COMPONENTS OF '' @ in_quotes n4 @ '' is not a SEQUENCE or SET'' @ in_module_text m])))"

text \<open>
  \<open>check_defaults_with_subst\<close>: the named DEFAULT values of the components whose type is a formal
  parameter, against the named values of the actual one.
\<close>

definition subst_default_errors :: "(string \<rightharpoonup> ast_type option) \<Rightarrow> string \<Rightarrow> ast_type \<Rightarrow> string list" where
  "subst_default_errors subst m x =
     (if at_marker x = Marker_Default then
        (case (at_default x, at_body x) of
           (Val_Ref _ n, Body_Ref _ t _ _) \<Rightarrow>
             if n \<noteq> [] \<and> t \<noteq> [] then
               (case subst t of
                  Some (Some actual) \<Rightarrow>
                    if at_enum_values actual \<noteq> [] \<and> n \<notin> set (map ev_name (at_enum_values actual)) then
                      [''DEFAULT value '' @ in_quotes n @ '' is not defined in the actual parameter for '' @ in_quotes t @ in_module_text m]
                    else []
                | _ \<Rightarrow> [])
             else []
         | _ \<Rightarrow> [])
      else [])"

function check_defaults_with_subst :: "(string \<rightharpoonup> ast_type option) \<Rightarrow> string \<Rightarrow> ast_type \<Rightarrow> string list" where
  "check_defaults_with_subst subst m def =
     concat (map (\<lambda>o1. case o1 of
         None \<Rightarrow> []
       | Some x \<Rightarrow> check_defaults_with_subst subst m x @ subst_default_errors subst m x) (at_members def))"
  by pat_completeness auto
termination
  by (relation "measure (\<lambda>(subst, m, def). size def)") (auto intro: member_smaller)

declare check_defaults_with_subst.simps [simp del]

definition parameterized_default_errors :: "resolver \<Rightarrow> string \<Rightarrow> string \<Rightarrow> ast_type option list \<Rightarrow> string list" where
  "parameterized_default_errors r m name params =
     (case lookup_direct r name m of
        None \<Rightarrow> []
      | Some generic \<Rightarrow>
          if \<not> at_is_parameterized generic \<or> at_formal_params generic = [] \<or> length (at_formal_params generic) \<noteq> length params
          then []
          else check_defaults_with_subst (map_of (rev (zip (at_formal_params generic) params))) m generic)"

definition reference_diags :: "resolver \<Rightarrow> string \<Rightarrow> bool \<Rightarrow> ast_type \<Rightarrow> diagnostic list" where
  "reference_diags r m in_parameterized def =
     (case at_body def of
        Body_Ref ref_m name params _ \<Rightarrow>
          (if \<not> in_parameterized \<and> ref_m = [] \<and> name \<noteq> [] then
             (if \<not> exempt_name name \<and> \<not> names_of (module_visible r) m name then
                [Diag_Error (in_quotes name @ '' used in module '' @ in_quotes m @ '' is not defined or imported'')]
              else []) @
             (if name = ''__COMPONENTS_OF__'' \<and> params \<noteq> [] then map Diag_Error (components_of_errors r m (hd params)) else [])
           else []) @
          (if ref_m \<noteq> [] \<and> module_symbols r ref_m = None then
             [Diag_Warning (''qualified reference '' @ in_quotes (ref_m @ ''.'' @ name) @ '': module '' @ in_quotes ref_m @ '' not found'')]
           else []) @
          (if params \<noteq> [] \<and> \<not> in_parameterized then map Diag_Error (parameterized_default_errors r m name params) else [])
      | _ \<Rightarrow> [])"

section \<open>Named values\<close>

fun named_list_duplicates :: "string \<Rightarrow> string set \<Rightarrow> i64 set \<Rightarrow> enum_value list \<Rightarrow> string list" where
  "named_list_duplicates ctx names nums [] = []"
| "named_list_duplicates ctx names nums (e # rest) =
     (if ev_name e \<in> names then [''duplicate identifier '' @ in_quotes (ev_name e) @ ctx] else []) @
     (case ev_number e of
        None \<Rightarrow> []
      | Some n \<Rightarrow> if n \<in> nums then [''duplicate numeric value '' @ int_text (sint n) @ ctx] else []) @
     named_list_duplicates ctx (insert (ev_name e) names)
       (case ev_number e of None \<Rightarrow> nums | Some n \<Rightarrow> insert n nums) rest"

definition named_list_errors :: "string \<Rightarrow> ast_type \<Rightarrow> string list" where
  "named_list_errors m def =
     (case at_body def of
        Body_Builtin bt \<Rightarrow>
          if (bt = BT_Integer \<or> bt = BT_BitString) \<and> at_enum_values def \<noteq> [] then
            named_list_duplicates
              ('' in '' @ (if bt = BT_Integer then ''INTEGER'' else ''BIT STRING'') @ '' named-value list'' @
               enum_ctx (at_name def) @ in_module_text m) {} {} (at_enum_values def)
          else []
      | _ \<Rightarrow> [])"

definition enumerated_errors :: "string \<Rightarrow> ast_type \<Rightarrow> string list" where
  "enumerated_errors m def =
     (if at_body def = Body_Builtin BT_Enumerated \<and> at_enum_values def \<noteq> []
      then enum_errors m (at_name def) (at_enum_values def) else [])"

definition implicit_any_errors :: "resolver \<Rightarrow> string \<Rightarrow> ast_type \<Rightarrow> string list" where
  "implicit_any_errors r m def =
     (if tag_present (at_tag def) \<and> at_mode (at_tag def) = TM_Implicit then
        (case follow_aliases r def m of
           None \<Rightarrow> []
         | Some base \<Rightarrow>
             if at_body base = Body_Builtin BT_Any then [''IMPLICIT tag on ANY '' @ in_quotes (at_name def) @ in_module_text m]
             else [])
      else [])"

section \<open>Constraints\<close>

text \<open>
  \<open>endpoint_cmp\<close>: MIN below every value, every value below MAX; values that are not both 64-bit
  integers compare equal.
\<close>

definition endpoint_cmp :: "range_endpoint \<Rightarrow> range_endpoint \<Rightarrow> int" where
  "endpoint_cmp a b =
     (if re_kind a = EK_Min \<and> re_kind b = EK_Min then 0
      else if re_kind a = EK_Max \<and> re_kind b = EK_Max then 0
      else if re_kind a = EK_Min then - 1
      else if re_kind b = EK_Min then 1
      else if re_kind a = EK_Max then 1
      else if re_kind b = EK_Max then - 1
      else
        (case (re_value a, re_value b) of
           (Val_Int i, Val_Int j) \<Rightarrow> if i <s j then - 1 else if j <s i then 1 else 0
         | _ \<Rightarrow> 0))"

lemma operand_smaller:
  "ac_body c = CB_Intersection ops s \<Longrightarrow> Some x \<in> set ops \<Longrightarrow> size x < size c"
  "ac_body c = CB_Union ops \<Longrightarrow> Some x \<in> set ops \<Longrightarrow> size x < size c"
proof -
  have "size x < size_list (size_option size) ops" if "Some x \<in> set ops" for x :: ast_constraint and ops
    using size_list_estimation' [OF that order_refl, of "size_option size"] by simp
  then show "ac_body c = CB_Intersection ops s \<Longrightarrow> Some x \<in> set ops \<Longrightarrow> size x < size c"
    "ac_body c = CB_Union ops \<Longrightarrow> Some x \<in> set ops \<Longrightarrow> size x < size c"
    by (metis less_trans nested_constraints_smaller)+
qed

text \<open>Single characters of a FROM outside the alphabet of the type; ranges are not looked at.\<close>

function check_from_alphabet :: "byte list \<Rightarrow> string \<Rightarrow> string \<Rightarrow> ast_constraint \<Rightarrow> string list" where
  "check_from_alphabet alpha ctx m c =
     (case ac_body c of
        CB_Value (Val_String s) \<Rightarrow>
          if length s = 1 \<and> byte_of (hd s) \<notin> set alpha then
            [''character '' @ in_quotes s @ '' in FROM constraint is not in the alphabet of '' @ ctx @ in_module_text m]
          else []
      | CB_Union ops \<Rightarrow> concat (map (\<lambda>o1. case o1 of None \<Rightarrow> [] | Some x \<Rightarrow> check_from_alphabet alpha ctx m x) ops)
      | CB_Intersection ops _ \<Rightarrow>
          concat (map (\<lambda>o1. case o1 of None \<Rightarrow> [] | Some x \<Rightarrow> check_from_alphabet alpha ctx m x) ops)
      | _ \<Rightarrow> [])"
  by pat_completeness auto
termination
  by (relation "measure (\<lambda>(alpha, ctx, m, c). size c)") (auto intro: operand_smaller)

declare check_from_alphabet.simps [simp del]

definition widening_errors ::
  "string \<Rightarrow> string \<Rightarrow> (range_endpoint \<times> range_endpoint) option \<Rightarrow> range_endpoint \<Rightarrow> range_endpoint \<Rightarrow> string list" where
  "widening_errors ctx m prev lo hi =
     (case prev of
        None \<Rightarrow> []
      | Some (plo, phi) \<Rightarrow>
          if endpoint_cmp lo plo < 0 \<or> endpoint_cmp hi phi > 0 then
            [''constraint range widens previous constraint on '' @ ctx @ in_module_text m]
          else [])"

function check_one_constraint ::
  "bool \<Rightarrow> bool \<Rightarrow> bool \<Rightarrow> string \<Rightarrow> string \<Rightarrow> builtin_type option \<Rightarrow> ast_constraint \<Rightarrow> string list" where
  "check_one_constraint bless is_string is_sized ctx m bt c =
     (case ac_body c of
        CB_From inner \<Rightarrow>
          if \<not> is_string then [''FROM constraint not applicable to non-string type '' @ ctx @ in_module_text m]
          else
            (case (bt, inner) of
               (Some b, Some i) \<Rightarrow>
                 let alpha = builtin_alphabet (builtin_universal_tag b) in
                 if alpha \<noteq> [] then check_from_alphabet alpha ctx m i else []
             | _ \<Rightarrow> [])
      | CB_Size _ \<Rightarrow>
          if \<not> is_sized \<and> \<not> (bless \<and> (bt = Some BT_Integer \<or> bt = Some BT_Enumerated)) then
            [''SIZE constraint not applicable to type '' @ ctx @ in_module_text m @
             '' (hint: -fbless-SIZE allows this non-standard asn1c extension)'']
          else []
      | CB_Intersection ops serial \<Rightarrow>
          if serial then
            snd (foldl (\<lambda>chain o1.
                case o1 of
                  None \<Rightarrow> chain
                | Some x \<Rightarrow>
                    (case ac_body x of
                       CB_Range lo hi \<Rightarrow> (Some (lo, hi), snd chain @ widening_errors ctx m (fst chain) lo hi)
                     | _ \<Rightarrow> (None, snd chain @ check_one_constraint bless is_string is_sized ctx m bt x)))
              (None, []) ops)
          else
            concat (map (\<lambda>o1. case o1 of
                None \<Rightarrow> []
              | Some x \<Rightarrow> check_one_constraint bless is_string is_sized ctx m bt x) ops)
      | _ \<Rightarrow> [])"
  by pat_completeness auto
termination
  by (relation "measure (\<lambda>(bless, is_string, is_sized, ctx, m, bt, c). size c)") (auto intro: operand_smaller)

declare check_one_constraint.simps [simp del]

definition builtin_of :: "ast_type \<Rightarrow> builtin_type option" where
  "builtin_of t = (case at_body t of Body_Builtin bt \<Rightarrow> Some bt | _ \<Rightarrow> None)"

text \<open>The type a constraint is about, and how messages call the constrained one.\<close>

definition constraint_base :: "resolver \<Rightarrow> string \<Rightarrow> ast_type \<Rightarrow> ast_type" where
  "constraint_base r m def = (case follow_aliases r def m of None \<Rightarrow> def | Some b \<Rightarrow> b)"

definition constraint_ctx :: "ast_type \<Rightarrow> string" where
  "constraint_ctx def = (if at_name def = [] then ''anonymous type'' else in_quotes (at_name def))"

definition constraint_errors :: "resolver \<Rightarrow> string \<Rightarrow> ast_type \<Rightarrow> string list" where
  "constraint_errors r m def =
     (let base = constraint_base r m def;
          bt = builtin_of base;
          is_string = (case bt of None \<Rightarrow> False | Some b \<Rightarrow> string_group b \<noteq> 0);
          is_sized = (is_string \<or> bt = Some BT_BitString \<or> bt = Some BT_OctetString \<or>
            (case at_body base of Body_SequenceOf _ \<Rightarrow> True | Body_SetOf _ \<Rightarrow> True | _ \<Rightarrow> False))
      in
      concat (map (\<lambda>o1. case o1 of
          None \<Rightarrow> []
        | Some c \<Rightarrow> check_one_constraint (bless_size r) is_string is_sized (constraint_ctx def) m bt c) (at_constraints def)))"

section \<open>Contents constraints and DEFAULT values\<close>

text \<open>\<open>check_contents_constraint\<close> before and after it visits the contained type.\<close>

definition contents_errors :: "resolver \<Rightarrow> string \<Rightarrow> ast_type \<Rightarrow> ast_type option \<Rightarrow> string list" where
  "contents_errors r m def inner_type =
     (let base = constraint_base r m def; ctx = constraint_ctx def in
      (if builtin_of base = Some BT_OctetString \<or> (builtin_of base = Some BT_BitString \<and> at_enum_values base = []) then []
       else [''contents constraint (CONTAINING/ENCODED BY) on '' @ ctx @ in_module_text m @
             '': only OCTET STRING or BIT STRING without named bits (X.682 '' @ [CHR 0xC2, CHR 0xA7] @ ''11.3)'']) @
      (case inner_type of
         None \<Rightarrow> []
       | Some t \<Rightarrow>
           (case at_body t of
              Body_Ref ref_m n _ _ \<Rightarrow>
                if ref_m \<noteq> [] \<and> module_symbols r ref_m \<noteq> None \<and> resolve_ref r ref_m n m = None then
                  [''CONTAINING type '' @ in_quotes (ref_m @ ''.'' @ n) @ '' on '' @ ctx @ in_module_text m @
                   '' is not defined in '' @ in_quotes ref_m]
                else []
            | _ \<Rightarrow> [])))"

definition contents_warnings :: "string \<Rightarrow> ast_type \<Rightarrow> string \<Rightarrow> string list" where
  "contents_warnings m def encoded_by =
     (if classify_encoded_by encoded_by = CE_Unknown then
        [''ENCODED BY '' @ encoded_by @ '' on '' @ constraint_ctx def @ in_module_text m @
         '': encoding rules not supported, contents kept as raw bytes'']
      else [])"

definition default_errors :: "resolver \<Rightarrow> string \<Rightarrow> ast_type \<Rightarrow> string list" where
  "default_errors r m def =
     (if at_marker def = Marker_Default then
        (case at_default def of
           Val_Ref _ n \<Rightarrow>
             if n = [] then []
             else
               (case lookup_direct r n m of
                  None \<Rightarrow> []
                | Some val_def \<Rightarrow>
                    (case (follow_aliases r def m, follow_aliases r val_def m) of
                       (Some mbase, Some vbase) \<Rightarrow>
                         (case (builtin_of mbase, builtin_of vbase) of
                            (Some mb, Some vb) \<Rightarrow>
                              if mb \<noteq> vb \<and> (if string_group mb \<noteq> 0 then string_group mb \<noteq> string_group vb else True) then
                                [''DEFAULT value '' @ in_quotes n @ '' type incompatible with member '' @
                                 in_quotes (at_name def) @ in_module_text m]
                              else []
                          | _ \<Rightarrow> [])
                     | _ \<Rightarrow> []))
         | _ \<Rightarrow> [])
      else [])"

section \<open>The walk\<close>

function check_and_resolve :: "resolver \<Rightarrow> string \<Rightarrow> bool \<Rightarrow> ast_type \<Rightarrow> diagnostic list" where
  "check_and_resolve r m inside def =
     (let in_parameterized = (inside \<or> at_is_parameterized def) in
      reference_diags r m in_parameterized def @
      map Diag_Error (named_list_errors m def @ enumerated_errors m def @ tag_errors r m def @ implicit_any_errors r m def) @
      (if in_parameterized then []
       else
         map Diag_Error (constraint_errors r m def) @
         (case find_contents (at_constraints def) of
            None \<Rightarrow> []
          | Some (inner_type, encoded_by) \<Rightarrow>
              map Diag_Error (contents_errors r m def inner_type) @
              (case inner_type of None \<Rightarrow> [] | Some t \<Rightarrow> check_and_resolve r m False t) @
              map Diag_Warning (contents_warnings m def encoded_by))) @
      map Diag_Error (default_errors r m def) @
      concat (map (\<lambda>o1. case o1 of None \<Rightarrow> [] | Some x \<Rightarrow> check_and_resolve r m in_parameterized x) (at_members def)) @
      (case at_body def of
         Body_SequenceOf (Some x) \<Rightarrow> check_and_resolve r m in_parameterized x
       | Body_SetOf (Some x) \<Rightarrow> check_and_resolve r m in_parameterized x
       | _ \<Rightarrow> []))"
  by pat_completeness auto
termination
  by (relation "measure (\<lambda>(r, m, inside, def). size def)")
     (auto intro: member_smaller element_smaller contents_smaller)

declare check_and_resolve.simps [simp del]

definition resolve_types :: "ast_module list \<Rightarrow> resolver \<Rightarrow> diagnostic list" where
  "resolve_types ms r =
     concat (map (\<lambda>m. concat (map (check_and_resolve r (mod_name m) False) (mod_assignments m))) ms)"

section \<open>What an accepted schema guarantees\<close>

definition errors_of :: "diagnostic list \<Rightarrow> string list" where
  "errors_of ds = concat (map (\<lambda>d. case d of Diag_Error e \<Rightarrow> [e] | Diag_Warning _ \<Rightarrow> []) ds)"

lemma errors_of_simps [simp]:
  "errors_of [] = []"
  "errors_of (a @ b) = errors_of a @ errors_of b"
  "errors_of (map Diag_Error es) = es"
  "errors_of (map Diag_Warning es) = []"
  "errors_of (Diag_Error e # ds) = e # errors_of ds"
  by (simp_all add: errors_of_def comp_def)

lemma errors_of_concat: "errors_of (concat ds) = [] \<longleftrightarrow> (\<forall>d \<in> set ds. errors_of d = [])"
  by (induction ds) auto

text \<open>
  The type definitions a definition is made of, each with the flag the walk enters it with:
  inside a parameterized type, references may name formal parameters.
\<close>

inductive part_of :: "bool \<Rightarrow> ast_type \<Rightarrow> bool \<Rightarrow> ast_type \<Rightarrow> bool" for inside def where
  whole: "part_of inside def inside def"
| member: "part_of inside def p d \<Longrightarrow> Some x \<in> set (at_members d) \<Longrightarrow>
     part_of inside def (p \<or> at_is_parameterized d) x"
| element: "part_of inside def p d \<Longrightarrow> at_body d = Body_SequenceOf (Some x) \<or> at_body d = Body_SetOf (Some x) \<Longrightarrow>
     part_of inside def (p \<or> at_is_parameterized d) x"
| contents: "part_of inside def p d \<Longrightarrow> \<not> p \<Longrightarrow> \<not> at_is_parameterized d \<Longrightarrow>
     find_contents (at_constraints d) = Some (Some x, e) \<Longrightarrow> part_of inside def False x"

lemma accepted_parts:
  assumes "part_of inside def p d" "errors_of (check_and_resolve r m inside def) = []"
  shows "errors_of (check_and_resolve r m p d) = []"
  using assms
proof (induction rule: part_of.induct)
  case (member p d x)
  then have "errors_of (check_and_resolve r m p d) = []" by simp
  then show ?case using member.hyps(2)
    by (subst (asm) check_and_resolve.simps) (fastforce simp: Let_def errors_of_concat)
next
  case (element p d x)
  then have "errors_of (check_and_resolve r m p d) = []" by simp
  then show ?case using element.hyps(2)
    by (subst (asm) check_and_resolve.simps) (auto simp: Let_def)
next
  case (contents p d x e)
  then have "errors_of (check_and_resolve r m p d) = []" by simp
  then show ?case using contents.hyps(2-4)
    by (subst (asm) check_and_resolve.simps) (simp add: Let_def)
qed simp

lemma accepted_local:
  assumes "errors_of (check_and_resolve r m p d) = []"
  shows "errors_of (reference_diags r m (p \<or> at_is_parameterized d) d) = []"
    and "enumerated_errors m d = []" and "tag_errors r m d = []" and "named_list_errors m d = []"
  using assms by (subst (asm) check_and_resolve.simps, simp add: Let_def)+

lemma resolve_types_parts:
  assumes "errors_of (resolve_types ms r) = []" "mdl \<in> set ms" "def \<in> set (mod_assignments mdl)" "part_of False def p d"
  shows "errors_of (check_and_resolve r (mod_name mdl) p d) = []"
proof -
  have "errors_of (check_and_resolve r (mod_name mdl) False def) = []"
    using assms(1-3) by (auto simp: resolve_types_def errors_of_concat)
  then show ?thesis by (rule accepted_parts [OF assms(4)])
qed

lemma reference_visible:
  assumes "errors_of (reference_diags r m False d) = []"
    and "at_body d = Body_Ref [] n params f" "n \<noteq> []" "\<not> exempt_name n"
  shows "names_of (module_visible r) m n"
  using assms by (auto simp: reference_diags_def split: if_splits)

text \<open>
  C12: In a schema without diagnostics every reference has a definition: outside parameterized
  types, an unqualified name is bound in the module that uses it, and what it is bound to is
  the module's own or brought in by an import clause.
\<close>

theorem accepted_references_defined:
  fixes ms :: "ast_module list"
  defines "r \<equiv> resolve_schema ms new_resolver"
  assumes "distinct (map mod_name ms)" "errors_of (resolve_types ms r) = []"
    and "mdl \<in> set ms" "def \<in> set (mod_assignments mdl)" "part_of False def p d" "\<not> p" "\<not> at_is_parameterized d"
    and "at_body d = Body_Ref [] n params f" "n \<noteq> []" "\<not> exempt_name n"
  shows "\<exists>t. lookup_direct r n (mod_name mdl) = Some t \<and>
     (table_of (module_symbols r) (mod_name mdl) n = Some t \<or> imported ms (module_symbols r) False (mod_name mdl) n t)"
proof -
  have scoped: "scoped ms (module_symbols r) False r"
    using resolve_schema_scoped [OF assms(2)] unfolding r_def scoped_def by simp
  have "errors_of (check_and_resolve r (mod_name mdl) p d) = []"
    by (rule resolve_types_parts [OF assms(3-6)])
  from accepted_local(1) [OF this] have "errors_of (reference_diags r (mod_name mdl) False d) = []"
    using assms(7,8) by simp
  then have "names_of (module_visible r) (mod_name mdl) n"
    by (rule reference_visible) (use assms(9-11) in simp_all)
  then obtain t where t: "table_of (module_resolution r) (mod_name mdl) n = Some t"
    using scoped unfolding scoped_def by blast
  then have "lookup_direct r n (mod_name mdl) = Some t"
    by (auto simp: lookup_direct_def table_of_def split: option.splits)
  then show ?thesis using t scoped unfolding scoped_def by blast
qed

definition accepted_sample :: "ast_module list" where
  "accepted_sample =
     [module_with ''A'' [import_from ''B'' [''U'']]
        [composite ''S'' Body_Sequence [tagged ''a'' 0 Marker_Optional, plain_type ''u'' (Body_Ref [] ''U'' [] [])]],
      module_with ''B'' [] [plain_type ''U'' (Body_Builtin BT_Integer)]]"

theorem accepted_references_defined_witness:
  "\<exists>t. lookup_direct (resolve_schema accepted_sample new_resolver) ''U'' ''A'' = Some t \<and>
     (table_of (module_symbols (resolve_schema accepted_sample new_resolver)) ''A'' ''U'' = Some t \<or>
      imported accepted_sample (module_symbols (resolve_schema accepted_sample new_resolver)) False ''A'' ''U'' t)"
proof -
  let ?A = "module_with ''A'' [import_from ''B'' [''U'']]
        [composite ''S'' Body_Sequence [tagged ''a'' 0 Marker_Optional, plain_type ''u'' (Body_Ref [] ''U'' [] [])]]"
  let ?S = "composite ''S'' Body_Sequence [tagged ''a'' 0 Marker_Optional, plain_type ''u'' (Body_Ref [] ''U'' [] [])]"
  have "part_of False ?S (False \<or> at_is_parameterized ?S) (plain_type ''u'' (Body_Ref [] ''U'' [] []))"
    by (rule part_of.member [OF part_of.whole]) (simp add: composite_def)
  then have part: "part_of False ?S False (plain_type ''u'' (Body_Ref [] ''U'' [] []))" by (simp add: composite_def)
  have clean: "distinct (map mod_name accepted_sample)"
    "errors_of (resolve_types accepted_sample (resolve_schema accepted_sample new_resolver)) = []" by code_simp+
  have "mod_name ?A = ''A''" by (simp add: module_with_def)
  then show ?thesis
    using accepted_references_defined [OF clean _ _ part, of ?A "''U''" "[]" "[]"]
    by (simp add: accepted_sample_def exempt_name_def module_with_def)
qed

text \<open>
  Every ENUMERATED of an accepted schema passes the checks of \<open>Enum_Tables\<close>, and every CHOICE
  those of \<open>Tag_Checks\<close>.
\<close>

theorem accepted_schema_enums:
  assumes "errors_of (resolve_types ms r) = []" "mdl \<in> set ms" "def \<in> set (mod_assignments mdl)" "part_of False def p d"
    and "at_body d = Body_Builtin BT_Enumerated" "root_ends_highest (at_enum_values d)" "length (at_enum_values d) < 2 ^ 31"
  shows "enum_wf (emitted_enum_spec (at_enum_values d))"
proof (cases "at_enum_values d = []")
  case True
  then show ?thesis by (simp add: True enum_wf_def emitted_enum_spec_def enum_root_count_def root_items_def enum_sorted_def)
next
  case False
  have "enumerated_errors (mod_name mdl) d = []"
    by (rule accepted_local(2)) (rule resolve_types_parts [OF assms(1-4)])
  then have "enum_errors (mod_name mdl) (at_name d) (at_enum_values d) = []" using assms(5) False by (simp add: enumerated_errors_def)
  then show ?thesis using accepted_enum_table [OF _ assms(6,7)] by blast
qed

definition enum_sample :: "ast_module list" where
  "enum_sample =
     [module_with ''A'' []
        [composite ''S'' Body_Sequence
           [Type_Def ''e'' (Body_Builtin BT_Enumerated) [] ascending_root no_tag Marker_None Val_Absent [] False False [] None]],
      module_with ''B'' [] [sample_choice]]"

lemma enum_sample_accepted:
  "errors_of (resolve_types enum_sample (resolve_schema enum_sample new_resolver)) = []"
  by code_simp

theorem accepted_schema_enums_witness: "enum_wf (emitted_enum_spec ascending_root)"
proof -
  let ?e = "Type_Def ''e'' (Body_Builtin BT_Enumerated) [] ascending_root no_tag Marker_None Val_Absent [] False False [] None"
  let ?S = "composite ''S'' Body_Sequence [?e]"
  have "part_of False ?S (False \<or> at_is_parameterized ?S) ?e"
    by (rule part_of.member [OF part_of.whole]) (simp add: composite_def)
  then have part: "part_of False ?S False ?e" by (simp add: composite_def)
  show ?thesis
    using accepted_schema_enums [OF enum_sample_accepted _ _ part, of "module_with ''A'' [] [?S]"]
    by (simp add: enum_sample_def module_with_def ascending_root_accepted)
qed


text \<open>The sets the compiler computes contain every such tag, as deep as they look.\<close>

definition covers :: "tag_set \<Rightarrow> tag_key \<Rightarrow> bool" where
  "covers s k \<longleftrightarrow> ts_any s \<or> k \<in> set (ts_concrete s)"

lemma covers_one_tag [simp]: "covers (one_tag j) k \<longleftrightarrow> k = j"
  by (simp add: covers_def one_tag_def no_tags_def)


lemma covers_open [simp]: "covers (s\<lparr>ts_open := b\<rparr>) k \<longleftrightarrow> covers s k"
  by (simp add: covers_def)






text \<open>
  A nested CHOICE in a module with AUTOMATIC TAGS: the generator gives its alternative \<open>x\<close> the tag
  [0], which \<open>a\<close> has as well, but the check sees the universal tag of \<open>x\<close> and reports nothing.
\<close>

definition automatic_sample :: ast_type where
  "automatic_sample =
     composite ''C'' Body_Choice
       [tagged ''a'' 0 Marker_None, composite ''n'' Body_Choice [plain_type ''x'' (Body_Builtin BT_Boolean)]]"

theorem automatic_choice_accepted:
  "module_tag_defaults r ''M'' = Some TD_Automatic \<Longrightarrow>
   tag_errors r ''M'' automatic_sample = [] \<and>
   automatic_tagging r ''M'' (composite ''n'' Body_Choice [plain_type ''x'' (Body_Builtin BT_Boolean)])"
  by (simp add: tag_errors_def automatic_sample_def composite_def tagged_def automatic_tagging_def word_sle_eq
      tag_present_def no_tag_def tags_of_def numeral_eq_Suc compare_sets_def merge_tags_def one_tag_def no_tags_def
      tag_key_def set_insort_insert)

text \<open>
  The alphabet that the compiler checks a FROM on IA5String against is that of VisibleString: a
  control character, which IA5String has, is refused.
\<close>

theorem ia5_control_character_refused:
  "check_from_alphabet (builtin_alphabet (builtin_universal_tag BT_Ia5String)) ctx m
     (Constraint (CB_Value (Val_String [CHR 0x09])) False None) \<noteq> []"
proof -
  have "byte_of (CHR 0x09) \<notin> set (builtin_alphabet (builtin_universal_tag BT_Ia5String))" by code_simp
  then show ?thesis by (simp add: check_from_alphabet.simps)
qed

end
