(* ===== verification/Constraint_Tables.thy ===== *)
theory Constraint_Tables
  imports Schema_Checks
begin

text \<open>
  From the constraints of a schema to the constraint record the codecs read: the generator's
  walk over constraints, the ranges of INTEGER, SIZE and permitted alphabets
  (\<open>codegen/Generator.cpp\<close>) and the record the C++ back end prints (\<open>codegen/CppBackend.cpp\<close>).
  The lemmas show when the record is well-formed for PER and when it means what the schema
  says.
\<close>

unbundle bit_operations_syntax

section \<open>Value references\<close>

text \<open>
  \<open>Resolver::module_of\<close>. \<open>order\<close> is the order in which the hash table of modules is walked, which
  the program leaves open; the pointer comparison is one of definitions.
\<close>

definition module_of :: "resolver \<Rightarrow> string list \<Rightarrow> string \<Rightarrow> string \<Rightarrow> string" where
  "module_of r order name from_module =
     (if table_of (module_symbols r) from_module name \<noteq> None then from_module
      else
        (let by_scope =
           (case table_of (module_resolution r) from_module name of
              None \<Rightarrow> None
            | Some d \<Rightarrow> find (\<lambda>m. table_of (module_symbols r) m name = Some d) order)
         in
         case by_scope of
           Some m \<Rightarrow> m
         | None \<Rightarrow>
             (case find (\<lambda>m. table_of (module_symbols r) m name \<noteq> None) order of
                Some m \<Rightarrow> m
              | None \<Rightarrow> [])))"

text \<open>\<open>follow_value_chain\<close>: up to 32 hops, the scope moving to the module that owns the value.\<close>

fun value_chain_steps :: "resolver \<Rightarrow> string list \<Rightarrow> nat \<Rightarrow> ast_type option \<Rightarrow> string \<Rightarrow> ast_type option" where
  "value_chain_steps r order 0 cur m = None"
| "value_chain_steps r order (Suc n) None m = None"
| "value_chain_steps r order (Suc n) (Some d) m =
     (case at_default d of
        Val_Ref ref_m name \<Rightarrow>
          let next_def = lookup_value_ref r ref_m name m in
          value_chain_steps r order n next_def
            (if next_def = None then m else if ref_m = [] then module_of r order name m else ref_m)
      | _ \<Rightarrow> Some d)"

definition follow_value_chain :: "resolver \<Rightarrow> string list \<Rightarrow> string \<Rightarrow> string \<Rightarrow> string \<Rightarrow> ast_type option" where
  "follow_value_chain r order ref_m name from_module =
     (let cur = lookup_value_ref r ref_m name from_module in
      value_chain_steps r order 32 cur (if cur = None then from_module else module_of r order name from_module))"

definition resolve_int_value :: "resolver \<Rightarrow> string list \<Rightarrow> string \<Rightarrow> ast_value \<Rightarrow> i64 option" where
  "resolve_int_value r order m v =
     (case v of
        Val_Int i \<Rightarrow> Some i
      | Val_UInt u \<Rightarrow> Some u
      | Val_Ref ref_m name \<Rightarrow>
          (case follow_value_chain r order ref_m name m of
             None \<Rightarrow> None
           | Some d \<Rightarrow> (case at_default d of Val_Int i \<Rightarrow> Some i | Val_UInt u \<Rightarrow> Some u | _ \<Rightarrow> None))
      | _ \<Rightarrow> None)"

section \<open>Walking constraints\<close>

text \<open>\<open>walk_constraints\<close> and \<open>walk_type_constraints\<close>: the bodies in the order they are visited.\<close>

function constraint_bodies :: "ast_constraint \<Rightarrow> ast_constraint_body list" where
  "constraint_bodies c =
     ac_body c #
     (case ac_body c of
        CB_Intersection ops _ \<Rightarrow> concat (map (\<lambda>o1. case o1 of None \<Rightarrow> [] | Some x \<Rightarrow> constraint_bodies x) ops)
      | _ \<Rightarrow> [])"
  by pat_completeness auto
termination by (relation "measure size") (auto intro: operand_smaller)

declare constraint_bodies.simps [simp del]

definition type_bodies :: "ast_type \<Rightarrow> ast_constraint_body list" where
  "type_bodies def =
     concat (map (\<lambda>o1. case o1 of None \<Rightarrow> [] | Some c \<Rightarrow> constraint_bodies c) (at_constraints def))"

lemma inner_smaller:
  "ac_body c = CB_Size (Some x) \<Longrightarrow> size x < size c"
  "ac_body c = CB_From (Some x) \<Longrightarrow> size x < size c"
  by (cases c; simp)+

function constraint_tree_extensible :: "ast_constraint \<Rightarrow> bool" where
  "constraint_tree_extensible c =
     (if ac_extensible c then True
      else
        (case ac_body c of
           CB_Intersection ops _ \<Rightarrow> list_ex (\<lambda>o1. case o1 of None \<Rightarrow> False | Some x \<Rightarrow> constraint_tree_extensible x) ops
         | CB_Size (Some x) \<Rightarrow> constraint_tree_extensible x
         | CB_From (Some x) \<Rightarrow> constraint_tree_extensible x
         | _ \<Rightarrow> False))"
  by pat_completeness auto
termination by (relation "measure size") (auto intro: operand_smaller inner_smaller)

declare constraint_tree_extensible.simps [simp del]

definition is_constraint_extensible :: "ast_type \<Rightarrow> bool" where
  "is_constraint_extensible def =
     list_ex (\<lambda>o1. case o1 of None \<Rightarrow> False | Some c \<Rightarrow> constraint_tree_extensible c) (at_constraints def)"

record per_visibility =
  pv_from_visible :: bool
  pv_size_extensible :: bool

definition inner_extensible :: "ast_constraint option \<Rightarrow> bool" where
  "inner_extensible o1 = (case o1 of None \<Rightarrow> False | Some x \<Rightarrow> constraint_tree_extensible x)"

function scan_per_visibility :: "bool \<Rightarrow> ast_constraint \<Rightarrow> per_visibility \<Rightarrow> per_visibility" where
  "scan_per_visibility ext_ctx c v =
     (let ext = (ext_ctx \<or> ac_extensible c) in
      case ac_body c of
        CB_Intersection ops _ \<Rightarrow>
          foldl (\<lambda>v o1. case o1 of None \<Rightarrow> v | Some x \<Rightarrow> scan_per_visibility ext x v) v ops
      | CB_Size inner \<Rightarrow> if ext \<or> inner_extensible inner then v\<lparr>pv_size_extensible := True\<rparr> else v
      | CB_From inner \<Rightarrow> if ext \<or> inner_extensible inner then v\<lparr>pv_from_visible := False\<rparr> else v
      | _ \<Rightarrow> v)"
  by pat_completeness auto
termination by (relation "measure (\<lambda>(e, c, v). size c)") (auto intro: operand_smaller)

declare scan_per_visibility.simps [simp del]

definition string_per_visibility :: "ast_type \<Rightarrow> per_visibility" where
  "string_per_visibility def =
     foldl (\<lambda>v o1. case o1 of None \<Rightarrow> v | Some c \<Rightarrow> scan_per_visibility False c v)
       \<lparr>pv_from_visible = True, pv_size_extensible = False\<rparr> (at_constraints def)"

section \<open>Ranges of INTEGER\<close>

text \<open>
  \<open>extract_integer_range\<close>: the state of its loop, one step per visited constraint, and the
  result. \<open>int_of\<close> is \<open>resolve_int_value\<close> in the module of the definition.
\<close>

record range_state =
  rg_lo :: "i64 option"
  rg_hi :: "i64 option"
  rg_lo_real :: bool
  rg_truly_max :: bool
  rg_hi_u64 :: u64
  rg_hi_large :: bool

definition range_start :: range_state where
  "range_start = \<lparr>rg_lo = None, rg_hi = None, rg_lo_real = False, rg_truly_max = False, rg_hi_u64 = 0, rg_hi_large = False\<rparr>"

abbreviation INT64_MIN :: i64 where "INT64_MIN \<equiv> 0x8000000000000000"
abbreviation INT64_MAX :: i64 where "INT64_MAX \<equiv> 0x7FFFFFFFFFFFFFFF"

definition lower_bound_of :: "(ast_value \<Rightarrow> i64 option) \<Rightarrow> range_endpoint \<Rightarrow> i64 option" where
  "lower_bound_of int_of e = (if re_kind e = EK_Min then None else int_of (re_value e))"

text \<open>The upper bound: its signed view, its unsigned value, and whether it is a large literal.\<close>

definition upper_bound_of :: "(ast_value \<Rightarrow> i64 option) \<Rightarrow> range_endpoint \<Rightarrow> i64 \<times> u64 \<times> bool" where
  "upper_bound_of int_of e =
     (if re_kind e = EK_Max then (INT64_MAX, - 1, False)
      else
        (case re_value e of
           Val_UInt u \<Rightarrow> (u, u, True)
         | v \<Rightarrow> (case int_of v of None \<Rightarrow> INT64_MAX | Some i \<Rightarrow> i, 0, False)))"

definition raise_lower :: "i64 option \<Rightarrow> range_state \<Rightarrow> range_state" where
  "raise_lower vlo_real st =
     (let vlo = (case vlo_real of None \<Rightarrow> INT64_MIN | Some i \<Rightarrow> i) in
      if (case rg_lo st of None \<Rightarrow> True | Some lo \<Rightarrow> lo <s vlo \<or> (vlo = lo \<and> vlo_real \<noteq> None))
      then st\<lparr>rg_lo := Some vlo, rg_lo_real := rg_lo_real st \<or> vlo_real \<noteq> None\<rparr>
      else st)"

definition cut_upper :: "bool \<Rightarrow> i64 \<times> u64 \<times> bool \<Rightarrow> range_state \<Rightarrow> range_state" where
  "cut_upper is_max = (\<lambda>(vhi, vhi_u64, vhi_large) st.
     if (case rg_hi st of None \<Rightarrow> True | Some hi \<Rightarrow> vhi <s hi)
     then st\<lparr>rg_hi := Some vhi, rg_truly_max := is_max, rg_hi_u64 := vhi_u64, rg_hi_large := vhi_large\<rparr>
     else st)"

definition range_step :: "(ast_value \<Rightarrow> i64 option) \<Rightarrow> range_state \<Rightarrow> ast_constraint_body \<Rightarrow> range_state" where
  "range_step int_of st body =
     (case body of
        CB_Range lower upper \<Rightarrow>
          cut_upper (re_kind upper = EK_Max) (upper_bound_of int_of upper) (raise_lower (lower_bound_of int_of lower) st)
      | _ \<Rightarrow> st)"

record int_range =
  ir_lo :: i64
  ir_hi :: i64
  ir_truly_max :: bool
  ir_hi_u64 :: u64
  ir_hi_large :: bool

definition extract_integer_range :: "(ast_value \<Rightarrow> i64 option) \<Rightarrow> ast_type \<Rightarrow> int_range option" where
  "extract_integer_range int_of def =
     (let st = foldl (range_step int_of) range_start (type_bodies def) in
      case (rg_lo st, rg_hi st) of
        (Some lo, Some hi) \<Rightarrow>
          if \<not> rg_lo_real st \<and> \<not> rg_truly_max st then None
          else Some \<lparr>ir_lo = lo, ir_hi = hi, ir_truly_max = rg_truly_max st, ir_hi_u64 = rg_hi_u64 st, ir_hi_large = rg_hi_large st\<rparr>
      | _ \<Rightarrow> None)"

definition classify_integer_storage :: "int_kind \<Rightarrow> int_range option \<Rightarrow> int_kind" where
  "classify_integer_storage default_kind r =
     (case r of
        None \<Rightarrow> default_kind
      | Some r \<Rightarrow>
          if ir_truly_max r \<and> 0 \<le>s ir_lo r then INT_U64
          else if ir_hi_large r \<and> 0 \<le>s ir_lo r then INT_U64
          else INT_S64)"

definition constrained_whole_number_bits :: "u64 \<Rightarrow> nat" where
  "constrained_whole_number_bits range_m1 = bit_width (unat range_m1)"

text \<open>
  \<open>build_integer_spec\<close> and the record \<open>emit_integer_definition\<close> prints from it. The -1 that
  stands for the width of a semi-constrained type is 0 here; no codec reads it. Without a
  range the printed record is empty, whatever the storage kind.
\<close>

definition emitted_integer_constraints :: "int_kind \<Rightarrow> bool \<Rightarrow> int_range option \<Rightarrow> constraints" where
  "emitted_integer_constraints default_kind extensible rng =
     (case rng of
        None \<Rightarrow> no_constraints
      | Some r \<Rightarrow>
          (let lo = ir_lo r; hi = ir_hi r; lo_u64 = (if 0 \<le>s lo then lo else 0);
               ext = (if extensible then EXTENSIBLE else 0);
               base = no_constraints\<lparr>c_int_kind := classify_integer_storage default_kind rng, lower_bound := lo, lower_u64 := lo_u64\<rparr>
           in
           if ir_truly_max r then
             base\<lparr>c_flags := SEMI_CONSTRAINED OR ext, upper_bound := 0, upper_u64 := - 1\<rparr>
           else if ir_hi_large r then
             base\<lparr>c_flags := CONSTRAINED OR ext, range_bits := constrained_whole_number_bits (ir_hi_u64 r - lo_u64),
                  upper_bound := hi, upper_u64 := ir_hi_u64 r\<rparr>
           else
             base\<lparr>c_flags := CONSTRAINED OR ext, range_bits := constrained_whole_number_bits (hi - lo),
                  upper_bound := hi, upper_u64 := (if 0 \<le>s hi then hi else 0)\<rparr>))"

definition integer_constraints :: "(ast_value \<Rightarrow> i64 option) \<Rightarrow> int_kind \<Rightarrow> ast_type \<Rightarrow> constraints" where
  "integer_constraints int_of default_kind def =
     emitted_integer_constraints default_kind (is_constraint_extensible def) (extract_integer_range int_of def)"

section \<open>The INTEGER record is well-formed\<close>

lemma sint_range: "- (2 ^ 63) \<le> sint w" "sint w < 2 ^ 63" for w :: i64
  using sint_ge [of w] sint_lt [of w] by simp_all

lemma nonneg_sint: "0 \<le>s w \<Longrightarrow> uint w = sint w" for w :: i64
proof -
  assume "0 \<le>s w"
  then have "take_bit 64 (sint w) = sint w"
    using sint_range(2) [of w] by (intro take_bit_int_eq_self) (simp_all add: word_sle_eq)
  then show ?thesis by (simp add: uint_sint)
qed

lemma constrained_whole_number_bits_holds:
  "uint r < 2 ^ constrained_whole_number_bits r" "constrained_whole_number_bits r \<le> 64"
proof -
  have "unat r < 2 ^ bit_width (unat r)" by (rule bit_width_bound)
  then show "uint r < 2 ^ constrained_whole_number_bits r"
    by (metis constrained_whole_number_bits_def of_nat_less_iff of_nat_numeral of_nat_power uint_nat)
  have "unat r < 2 ^ 64" using unsigned_less [of r] by simp
  then show "constrained_whole_number_bits r \<le> 64" by (simp add: constrained_whole_number_bits_def bit_width_le)
qed

text \<open>Literals that the lexer keeps unsigned do not fit in 63 bits.\<close>

definition large_literals :: "ast_type \<Rightarrow> bool" where
  "large_literals def \<longleftrightarrow> (\<forall>lo hi u. CB_Range lo hi \<in> set (type_bodies def) \<and> re_value hi = Val_UInt u \<longrightarrow> 2 ^ 63 \<le> uint u)"

definition range_fits :: "int_range \<Rightarrow> bool" where
  "range_fits r \<longleftrightarrow> \<not> (ir_truly_max r \<and> ir_hi_large r) \<and>
     (ir_hi_large r \<longrightarrow> ir_hi r = ir_hi_u64 r \<and> 2 ^ 63 \<le> uint (ir_hi_u64 r))"

definition range_state_ok :: "range_state \<Rightarrow> bool" where
  "range_state_ok st \<longleftrightarrow> \<not> (rg_truly_max st \<and> rg_hi_large st) \<and>
     (rg_hi_large st \<longrightarrow> rg_hi st = Some (rg_hi_u64 st) \<and> 2 ^ 63 \<le> uint (rg_hi_u64 st))"

definition large_body :: "ast_constraint_body \<Rightarrow> bool" where
  "large_body b \<longleftrightarrow> (\<forall>lo hi u. b = CB_Range lo hi \<longrightarrow> re_value hi = Val_UInt u \<longrightarrow> 2 ^ 63 \<le> uint u)"

lemma range_step_ok:
  assumes "range_state_ok st" "large_body body"
  shows "range_state_ok (range_step int_of st body)"
proof (cases body)
  case (CB_Range lo hi)
  let ?st = "raise_lower (lower_bound_of int_of lo) st"
  have st: "range_state_ok ?st" using assms(1) by (simp add: range_state_ok_def raise_lower_def Let_def)
  obtain v u l where e: "upper_bound_of int_of hi = (v, u, l)" using prod_cases3 by blast
  have "l \<Longrightarrow> re_kind hi \<noteq> EK_Max \<and> v = u \<and> re_value hi = Val_UInt u"
    using e by (cases "re_value hi") (auto simp: upper_bound_of_def split: if_splits)
  then have "l \<Longrightarrow> re_kind hi \<noteq> EK_Max \<and> v = u \<and> 2 ^ 63 \<le> uint u" using assms(2) CB_Range by (simp add: large_body_def)
  then have "range_state_ok (cut_upper (re_kind hi = EK_Max) (v, u, l) ?st)"
    using st by (auto simp: cut_upper_def range_state_ok_def)
  then show ?thesis by (simp add: range_step_def CB_Range e)
qed (use assms in \<open>simp_all add: range_step_def\<close>)

lemma extract_integer_range_fits:
  assumes "large_literals def" "extract_integer_range int_of def = Some r"
  shows "range_fits r"
proof -
  have "range_state_ok (foldl (range_step int_of) st bodies)" if "range_state_ok st" "list_all large_body bodies" for st bodies
    using that by (induction bodies arbitrary: st) (simp_all add: range_step_ok)
  moreover have "list_all large_body (type_bodies def)"
    using assms(1) by (auto simp: large_literals_def large_body_def list_all_iff)
  ultimately have "range_state_ok (foldl (range_step int_of) range_start (type_bodies def))"
    by (simp add: range_start_def range_state_ok_def)
  then show ?thesis
    using assms(2) by (auto simp: extract_integer_range_def Let_def range_fits_def range_state_ok_def split: option.splits if_splits)
qed

text \<open>
  Whatever ranges a schema gives an INTEGER, the record that is printed for it is one with
  which PER returns every permitted value: its width holds the range, signed or unsigned.
\<close>

theorem integer_constraints_wf:
  assumes "large_literals def"
  shows "(if c_int_kind (integer_constraints int_of default_kind def) = INT_U64
          then uint_constraint_wf (integer_constraints int_of default_kind def)
          else int_constraint_wf (integer_constraints int_of default_kind def))"
proof (cases "extract_integer_range int_of def")
  case None
  then show ?thesis
    by (simp add: integer_constraints_def emitted_integer_constraints_def no_constraints_def int_constraint_wf_def has_flag_def)
next
  case (Some r)
  have fits: "range_fits r" by (rule extract_integer_range_fits [OF assms Some])
  note bits = constrained_whole_number_bits_holds
  have semi: "\<not> has_flag (c\<lparr>c_flags := SEMI_CONSTRAINED OR (if e then EXTENSIBLE else 0), upper_bound := 0, upper_u64 := - 1\<rparr>) CONSTRAINED" for c :: constraints and e
    by (cases e) (simp_all add: has_flag_def)
  show ?thesis
  proof (cases "ir_truly_max r")
    case True
    then show ?thesis
      using semi by (simp add: integer_constraints_def Some emitted_integer_constraints_def Let_def uint_constraint_wf_def int_constraint_wf_def)
  next
    case False
    have diff: "sint (ir_hi r) - sint (ir_lo r) < 2 ^ constrained_whole_number_bits (ir_hi r - ir_lo r)"
    proof (cases "ir_lo r \<le>s ir_hi r")
      case True
      then show ?thesis using uint_diff_sint [OF True] bits(1) [of "ir_hi r - ir_lo r"] by simp
    next
      case False
      then have "sint (ir_hi r) - sint (ir_lo r) < 0" by (simp add: word_sle_eq)
      also have "(0 :: int) \<le> 2 ^ constrained_whole_number_bits (ir_hi r - ir_lo r)" by simp
      finally show ?thesis .
    qed
    show ?thesis
    proof (cases "ir_hi_large r")
      case large: True
      then have hi: "ir_hi r = ir_hi_u64 r" "2 ^ 63 \<le> uint (ir_hi_u64 r)" using fits by (simp_all add: range_fits_def)
      show ?thesis
      proof (cases "0 \<le>s ir_lo r")
        case True
        then have "uint (ir_lo r) < 2 ^ 63" using nonneg_sint [OF True] sint_range(2) by metis
        then have "ir_lo r \<le> ir_hi_u64 r" using hi(2) by (simp add: word_le_def)
        then have "uint (ir_hi_u64 r) - uint (ir_lo r) = uint (ir_hi_u64 r - ir_lo r)" by (simp add: uint_minus_simple_alt [THEN iffD1])
        then show ?thesis
          using True large False bits
          by (simp add: integer_constraints_def Some emitted_integer_constraints_def Let_def uint_constraint_wf_def classify_integer_storage_def)
      next
        case neg: False
        have "(2 :: int) ^ 63 < 2 ^ constrained_whole_number_bits (ir_hi_u64 r)"
          using hi(2) bits(1) by (rule le_less_trans)
        then have "constrained_whole_number_bits (ir_hi_u64 r) = 64"
          using bits(2) [of "ir_hi_u64 r"] by (simp only: power_strict_increasing_iff [of "2 :: int"])
        moreover have "sint (ir_hi r) - sint (ir_lo r) < 2 ^ 64"
          using sint_range [of "ir_hi r"] sint_range [of "ir_lo r"] by simp
        ultimately show ?thesis
          using neg large False
          by (simp add: integer_constraints_def Some emitted_integer_constraints_def Let_def int_constraint_wf_def classify_integer_storage_def)
      qed
    next
      case small: False
      then show ?thesis
        using False diff bits
        by (simp add: integer_constraints_def Some emitted_integer_constraints_def Let_def int_constraint_wf_def classify_integer_storage_def)
    qed
  qed
qed

section \<open>The INTEGER record means what the schema says\<close>

text \<open>The values a range admits, as X.680 51.4 reads it, for ranges written with literals.\<close>

definition literal_admits :: "range_endpoint \<Rightarrow> range_endpoint \<Rightarrow> i64 \<Rightarrow> bool" where
  "literal_admits lo hi v \<longleftrightarrow>
     (re_kind lo = EK_Min \<or> (case re_value lo of Val_Int i \<Rightarrow> if re_open lo then i <s v else i \<le>s v | _ \<Rightarrow> False)) \<and>
     (re_kind hi = EK_Max \<or> (case re_value hi of Val_Int i \<Rightarrow> if re_open hi then v <s i else v \<le>s i | _ \<Rightarrow> False))"

definition closed_literal :: "range_endpoint \<Rightarrow> range_endpoint \<Rightarrow> bool" where
  "closed_literal lo hi \<longleftrightarrow> \<not> re_open lo \<and> \<not> re_open hi \<and>
     (re_kind lo = EK_Min \<or> (\<exists>i. re_value lo = Val_Int i)) \<and> (re_kind hi = EK_Max \<or> (\<exists>i. re_value hi = Val_Int i))"

definition above_lower :: "range_state \<Rightarrow> i64 \<Rightarrow> bool" where
  "above_lower st v \<longleftrightarrow> (case rg_lo st of None \<Rightarrow> True | Some lo \<Rightarrow> lo \<le>s v)"

definition below_upper :: "range_state \<Rightarrow> i64 \<Rightarrow> bool" where
  "below_upper st v \<longleftrightarrow> (case rg_hi st of None \<Rightarrow> True | Some hi \<Rightarrow> v \<le>s hi)"

lemma int64_bounds [simp]: "INT64_MIN \<le>s v" "v \<le>s INT64_MAX"
proof -
  have ends: "sint INT64_MIN = - (2 ^ 63)" "sint INT64_MAX = 2 ^ 63 - 1" by code_simp+
  show "INT64_MIN \<le>s v" unfolding word_sle_eq ends by (rule sint_range)
  show "v \<le>s INT64_MAX" unfolding word_sle_eq ends using sint_range(2) [of v] by simp
qed

lemma raise_lower_above:
  "above_lower (raise_lower vlo st) v \<longleftrightarrow> above_lower st v \<and> (case vlo of None \<Rightarrow> True | Some i \<Rightarrow> i \<le>s v)"
proof -
  have "INT64_MIN = lo \<Longrightarrow> lo \<le>s v" "\<not> lo <s INT64_MIN" for lo v by (auto simp: signed.not_less)
  then show ?thesis
    by (auto simp: above_lower_def raise_lower_def Let_def signed.not_less split: option.splits
        intro: signed.order_trans signed.less_imp_le)
qed

lemma range_step_admits:
  assumes "closed_literal lo hi"
  shows "above_lower (range_step (resolve_int_value r order m) st (CB_Range lo hi)) v \<and>
           below_upper (range_step (resolve_int_value r order m) st (CB_Range lo hi)) v \<longleftrightarrow>
         above_lower st v \<and> below_upper st v \<and> literal_admits lo hi v"
proof -
  let ?int = "resolve_int_value r order m"
  let ?st = "raise_lower (lower_bound_of ?int lo) st"
  obtain vhi u l where e: "upper_bound_of ?int hi = (vhi, u, l)" using prod_cases3 by blast
  have hi: "v \<le>s vhi \<longleftrightarrow> re_kind hi = EK_Max \<or> (case re_value hi of Val_Int i \<Rightarrow> v \<le>s i | _ \<Rightarrow> False)"
    using e assms by (auto simp: upper_bound_of_def closed_literal_def resolve_int_value_def split: if_splits)
  have lo: "(case lower_bound_of ?int lo of None \<Rightarrow> True | Some i \<Rightarrow> i \<le>s v) \<longleftrightarrow>
      re_kind lo = EK_Min \<or> (case re_value lo of Val_Int i \<Rightarrow> i \<le>s v | _ \<Rightarrow> False)"
    using assms by (auto simp: lower_bound_of_def closed_literal_def resolve_int_value_def)
  have "above_lower (cut_upper b x ?st) v = above_lower ?st v" for b x
    by (cases x) (simp add: above_lower_def cut_upper_def)
  moreover have "below_upper (cut_upper b (vhi, u, l) ?st) v \<longleftrightarrow> below_upper ?st v \<and> v \<le>s vhi" for b
    by (auto simp: below_upper_def cut_upper_def signed.not_less split: option.splits
        intro: signed.order_trans signed.less_imp_le)
  moreover have "below_upper ?st v = below_upper st v" by (simp add: below_upper_def raise_lower_def Let_def)
  ultimately show ?thesis
    using assms hi lo raise_lower_above [of "lower_bound_of ?int lo" st v]
    by (auto simp: range_step_def e literal_admits_def closed_literal_def)
qed

lemma range_fold_admits:
  assumes "\<And>lo hi. CB_Range lo hi \<in> set bodies \<Longrightarrow> closed_literal lo hi"
  shows "above_lower (foldl (range_step (resolve_int_value r order m)) st bodies) v \<and>
       below_upper (foldl (range_step (resolve_int_value r order m)) st bodies) v \<longleftrightarrow>
     above_lower st v \<and> below_upper st v \<and> (\<forall>lo hi. CB_Range lo hi \<in> set bodies \<longrightarrow> literal_admits lo hi v)"
  using assms
proof (induction bodies arbitrary: st)
  case (Cons b bodies)
  let ?st = "range_step (resolve_int_value r order m) st b"
  have b: "above_lower ?st v \<and> below_upper ?st v \<longleftrightarrow>
      above_lower st v \<and> below_upper st v \<and> (\<forall>lo hi. b = CB_Range lo hi \<longrightarrow> literal_admits lo hi v)"
  proof (cases b)
    case (CB_Range lo hi)
    then show ?thesis using range_step_admits Cons.prems by simp
  qed (simp_all add: range_step_def)
  show ?case using Cons.IH [of ?st] Cons.prems b by auto
qed simp

text \<open>
  With closed ranges between literals, the bounds in the record are those of the
  intersection of all ranges: nothing is lost and nothing is added.
\<close>

theorem extract_integer_range_exact:
  assumes "\<And>lo hi. CB_Range lo hi \<in> set (type_bodies def) \<Longrightarrow> closed_literal lo hi"
    and "extract_integer_range (resolve_int_value r order m) def = Some rng"
  shows "ir_lo rng \<le>s v \<and> v \<le>s ir_hi rng \<longleftrightarrow> (\<forall>lo hi. CB_Range lo hi \<in> set (type_bodies def) \<longrightarrow> literal_admits lo hi v)"
proof -
  let ?st = "foldl (range_step (resolve_int_value r order m)) range_start (type_bodies def)"
  have "rg_lo ?st = Some (ir_lo rng)" "rg_hi ?st = Some (ir_hi rng)"
    using assms(2) by (auto simp: extract_integer_range_def Let_def split: option.splits if_splits)
  then have "ir_lo rng \<le>s v \<and> v \<le>s ir_hi rng \<longleftrightarrow> above_lower ?st v \<and> below_upper ?st v"
    by (simp add: above_lower_def below_upper_def)
  also have "\<dots> \<longleftrightarrow> (\<forall>lo hi. CB_Range lo hi \<in> set (type_bodies def) \<longrightarrow> literal_admits lo hi v)"
    using range_fold_admits [OF assms(1), of "type_bodies def" r order m range_start v]
    by (simp add: above_lower_def below_upper_def range_start_def)
  finally show ?thesis .
qed

section \<open>Concrete INTEGER types\<close>

definition lit :: "int \<Rightarrow> range_endpoint" where
  "lit n = \<lparr>re_kind = EK_Value, re_value = Val_Int (of_int n), re_open = False\<rparr>"

definition constrained_int :: "ast_constraint_body list \<Rightarrow> ast_type" where
  "constrained_int bodies =
     Type_Def ''T'' (Body_Builtin BT_Integer) [] [] no_tag Marker_None Val_Absent
       (map (\<lambda>b. Some (Constraint b False None)) bodies) False False [] None"

abbreviation literal_value :: "ast_value \<Rightarrow> i64 option" where
  "literal_value \<equiv> resolve_int_value new_resolver [] ''M''"

theorem integer_constraints_wf_witness:
  "int_constraint_wf (integer_constraints literal_value INT_S64 (constrained_int [CB_Range (lit (- 5)) (lit 10)]))"
proof -
  let ?T = "constrained_int [CB_Range (lit (- 5)) (lit 10)]"
  have "type_bodies ?T = [CB_Range (lit (- 5)) (lit 10)]"
    by (simp add: constrained_int_def type_bodies_def constraint_bodies.simps)
  then have "large_literals ?T" by (auto simp: large_literals_def lit_def)
  from integer_constraints_wf [OF this, of literal_value INT_S64]
  have "if c_int_kind (integer_constraints literal_value INT_S64 ?T) = INT_U64
      then uint_constraint_wf (integer_constraints literal_value INT_S64 ?T)
      else int_constraint_wf (integer_constraints literal_value INT_S64 ?T)" .
  moreover have "c_int_kind (integer_constraints literal_value INT_S64 ?T) = INT_S64" by code_simp
  ultimately show ?thesis by simp
qed

theorem extract_integer_range_exact_witness:
  "(\<forall>lo hi. CB_Range lo hi \<in> set (type_bodies (constrained_int [CB_Range (lit 0) (lit 100), CB_Range (lit 5) (lit 200)])) \<longrightarrow> literal_admits lo hi 7)"
proof -
  let ?T = "constrained_int [CB_Range (lit 0) (lit 100), CB_Range (lit 5) (lit 200)]"
  have bodies: "type_bodies ?T = [CB_Range (lit 0) (lit 100), CB_Range (lit 5) (lit 200)]"
    by (simp add: constrained_int_def type_bodies_def constraint_bodies.simps)
  have rng: "extract_integer_range literal_value ?T =
      Some \<lparr>ir_lo = 5, ir_hi = 100, ir_truly_max = False, ir_hi_u64 = 0, ir_hi_large = False\<rparr>" by code_simp
  have "closed_literal lo hi" if "CB_Range lo hi \<in> set (type_bodies ?T)" for lo hi
    using that unfolding bodies by (auto simp: closed_literal_def lit_def)
  from extract_integer_range_exact [OF this rng, of 7] show ?thesis by simp
qed

text \<open>
  Open ends are read as closed ones: \<open>(0<..<9)\<close> has eight values and three bits, and is
  printed as a range of ten with four.
\<close>

theorem open_range_read_as_closed:
  "range_bits (integer_constraints literal_value INT_S64
     (constrained_int [CB_Range ((lit 0)\<lparr>re_open := True\<rparr>) ((lit 9)\<lparr>re_open := True\<rparr>)])) = 4"
  by code_simp

text \<open>
  Only ranges count: a single value or a union of ranges, which PER sees too (X.691 10.3.21),
  leaves the type unconstrained.
\<close>

theorem value_and_union_ignored:
  "integer_constraints int_of INT_S64 (constrained_int [CB_Value (Val_Int 5)]) = no_constraints \<and>
   integer_constraints int_of INT_S64 (constrained_int [CB_Union
     [Some (Constraint (CB_Range (lit 1) (lit 5)) False None), Some (Constraint (CB_Range (lit 10) (lit 20)) False None)]]) = no_constraints"
  by (simp add: integer_constraints_def extract_integer_range_def emitted_integer_constraints_def constrained_int_def
      type_bodies_def constraint_bodies.simps range_step_def range_start_def Let_def)

text \<open>
  With \<open>--integer-type=uint64\<close> an unconstrained INTEGER is stored unsigned, but its record does
  not say so: JER and XER, which go by the record, take it for a signed one.
\<close>

theorem unsigned_default_unmarked:
  "classify_integer_storage INT_U64 (extract_integer_range int_of (constrained_int [])) = INT_U64 \<and>
   c_int_kind (integer_constraints int_of INT_U64 (constrained_int [])) = INT_S64"
  by (simp add: integer_constraints_def extract_integer_range_def emitted_integer_constraints_def constrained_int_def
      type_bodies_def range_start_def Let_def classify_integer_storage_def no_constraints_def)

end
