(* ===== verification/String_Tables.thy ===== *)
theory String_Tables
  imports Constraint_Tables
begin

text \<open>
  SIZE and permitted alphabet of the string types: what the generator extracts from the
  constraints (\<open>extract_size_range\<close>, \<open>compute_size_constraint\<close>, \<open>extract_from_alphabet\<close>,
  \<open>build_builtin_alias_spec\<close> in \<open>codegen/Generator.cpp\<close>) and the record and tables the C++
  back end prints (\<open>codegen/CppBackend.cpp\<close>), with the lemmas that PER can use them.
\<close>

unbundle bit_operations_syntax

section \<open>SIZE\<close>

text \<open>\<open>extract_size_range\<close>: the first SIZE with a range or a single value inside.\<close>

definition size_lower_of :: "(ast_value \<Rightarrow> i64 option) \<Rightarrow> range_endpoint \<Rightarrow> i64" where
  "size_lower_of int_of e =
     (if re_kind e = EK_Min then 0 else (case int_of (re_value e) of None \<Rightarrow> 0 | Some n \<Rightarrow> n))"

definition size_upper_of :: "(ast_value \<Rightarrow> i64 option) \<Rightarrow> range_endpoint \<Rightarrow> i64" where
  "size_upper_of int_of e =
     (if re_kind e = EK_Max then INT64_MAX else (case int_of (re_value e) of None \<Rightarrow> INT64_MAX | Some n \<Rightarrow> n))"

fun first_size :: "(ast_value \<Rightarrow> i64 option) \<Rightarrow> ast_constraint_body list \<Rightarrow> (i64 \<times> i64) option" where
  "first_size int_of [] = None"
| "first_size int_of (CB_Size (Some inner) # bodies) =
     (case ac_body inner of
        CB_Range lo hi \<Rightarrow> Some (size_lower_of int_of lo, size_upper_of int_of hi)
      | CB_Value v \<Rightarrow> (case int_of v of Some n \<Rightarrow> Some (n, n) | None \<Rightarrow> first_size int_of bodies)
      | _ \<Rightarrow> first_size int_of bodies)"
| "first_size int_of (_ # bodies) = first_size int_of bodies"

definition extract_size_range :: "(ast_value \<Rightarrow> i64 option) \<Rightarrow> ast_type \<Rightarrow> (i64 \<times> i64) option" where
  "extract_size_range int_of def = first_size int_of (type_bodies def)"

record size_info =
  si_flags :: u32
  si_range_bits :: nat
  si_lower :: i64
  si_upper :: i64

text \<open>\<open>compute_size_constraint\<close>; \<open>range\<close> is signed and wraps, and the loop counts its bits.\<close>

definition compute_size_constraint :: "(i64 \<times> i64) option \<Rightarrow> bool \<Rightarrow> size_info" where
  "compute_size_constraint sr extensible =
     (case sr of
        None \<Rightarrow> \<lparr>si_flags = 0, si_range_bits = 0, si_lower = 0, si_upper = 0\<rparr>
      | Some (lo, hi) \<Rightarrow>
          (let ext = (if extensible then EXTENSIBLE else 0) in
           if hi \<noteq> INT64_MAX then
             (let rng = hi - lo + 1 in
              \<lparr>si_flags = SIZE_CONSTRAINED OR ext,
               si_range_bits = (if 1 <s rng then bit_width (unat (rng - 1)) else 0), si_lower = lo, si_upper = hi\<rparr>)
           else \<lparr>si_flags = ext, si_range_bits = 0, si_lower = lo, si_upper = 0\<rparr>))"

section \<open>Permitted alphabets\<close>

text \<open>\<open>recurse_union\<close> with \<open>collect_leaf\<close> and \<open>collect_single\<close>.\<close>

definition single_char :: "ast_value \<Rightarrow> byte list" where
  "single_char v = (case v of Val_String [c] \<Rightarrow> [byte_of c] | _ \<Rightarrow> [])"

definition char_range :: "range_endpoint \<Rightarrow> range_endpoint \<Rightarrow> byte list" where
  "char_range lo hi =
     (if re_kind lo = EK_Value \<and> re_kind hi = EK_Value then
        (case (single_char (re_value lo), single_char (re_value hi)) of
           ([l], [h]) \<Rightarrow> map of_nat [unat l..<Suc (unat h)]
         | _ \<Rightarrow> [])
      else [])"

function alphabet_chars :: "ast_constraint \<Rightarrow> byte list" where
  "alphabet_chars c =
     (case ac_body c of
        CB_Union ops \<Rightarrow> concat (map (\<lambda>o1. case o1 of None \<Rightarrow> [] | Some x \<Rightarrow> alphabet_chars x) ops)
      | CB_Range lo hi \<Rightarrow> char_range lo hi
      | CB_Value v \<Rightarrow> single_char v
      | _ \<Rightarrow> [])"
  by pat_completeness auto
termination by (relation "measure size") (auto intro: operand_smaller)

declare alphabet_chars.simps [simp del]

definition extract_from_alphabet :: "ast_type \<Rightarrow> byte list" where
  "extract_from_alphabet def =
     sort (concat (map (\<lambda>b. case b of CB_From (Some inner) \<Rightarrow> alphabet_chars inner | _ \<Rightarrow> []) (type_bodies def)))"

definition per_visible_alphabet :: "ast_type \<Rightarrow> byte list" where
  "per_visible_alphabet def = (if pv_from_visible (string_per_visibility def) then extract_from_alphabet def else [])"

text \<open>\<open>emit_from_alphabet_arrays\<close>: a later entry for a character overwrites an earlier one.\<close>

definition from_encode_table :: "byte list \<Rightarrow> u16 list" where
  "from_encode_table alpha =
     foldl (\<lambda>t i. t[unat (alpha ! i) := of_nat i]) (replicate 256 0xFFFF) [0..<length alpha]"

definition alphabet_bits_for :: "nat \<Rightarrow> nat" where
  "alphabet_bits_for n = (let bits = bit_width (n - 1) in if bits = 0 then 1 else bits)"

section \<open>The record of a string type\<close>

definition builtin_table :: "builtin_type \<Rightarrow> constraints" where
  "builtin_table bt =
     (if bt = BT_NumericString then with_alphabet k_num_alpha
      else if bt = BT_PrintableString then with_alphabet k_prt_alpha
      else if bt = BT_Ia5String then with_alphabet k_ia5_alpha
      else if bt = BT_VisibleString then with_alphabet k_vis_alpha
      else no_constraints)"

definition is_non_known_multiplier :: "builtin_type \<Rightarrow> bool" where
  "is_non_known_multiplier bt \<longleftrightarrow>
     bt \<in> set [BT_Utf8String, BT_T61String, BT_VideotexString, BT_GraphicString, BT_GeneralString, BT_ObjectDescriptor]"

text \<open>
  What \<open>build_builtin_alias_spec\<close> decides for a type that is not REAL. \<open>strict\<close> is the mode of the
  \<open>per_nkm_size\<close> configuration, \<open>named_bits\<close> whether a BIT STRING names its bits.
\<close>

record alias_spec =
  as_builtin :: builtin_type
  as_alphabet :: "byte list"
  as_has_size :: bool
  as_size_bounded :: bool
  as_size :: size_info
  as_extensible :: bool
  as_size_invisible :: bool
  as_named_bits :: bool

definition alias_spec_of ::
  "(ast_value \<Rightarrow> i64 option) \<Rightarrow> bool \<Rightarrow> bool \<Rightarrow> builtin_type \<Rightarrow> ast_type \<Rightarrow> alias_spec" where
  "alias_spec_of int_of strict named_bits bt def =
     (let alpha = per_visible_alphabet def; sr = extract_size_range int_of def in
      \<lparr>as_builtin = bt, as_alphabet = alpha, as_has_size = (sr \<noteq> None),
       as_size_bounded = (case sr of None \<Rightarrow> False | Some (lo, hi) \<Rightarrow> hi \<noteq> INT64_MAX),
       as_size = compute_size_constraint sr False,
       as_extensible = pv_size_extensible (string_per_visibility def),
       as_size_invisible = (is_non_known_multiplier bt \<and> (sr \<noteq> None \<or> alpha \<noteq> []) \<and> strict),
       as_named_bits = named_bits\<rparr>)"

text \<open>\<open>make_string_constraints_init\<close>: the alphabet of the type, or that of its builtin type.\<close>

definition string_constraints_init :: "u32 \<Rightarrow> size_info \<Rightarrow> byte list \<Rightarrow> builtin_type option \<Rightarrow> constraints" where
  "string_constraints_init flags sc alpha builtin_bt =
     (let base = no_constraints\<lparr>c_flags := flags,
            lower_bound := (if alpha = [] then 0 else ucast (hd alpha)),
            upper_bound := (if alpha = [] then 0 else ucast (last alpha)),
            size_range_bits := si_range_bits sc, size_lower := sint (si_lower sc), size_upper := sint (si_upper sc)\<rparr>
      in
      case builtin_bt of
        None \<Rightarrow> base\<lparr>alphabet_bits := alphabet_bits_for (length alpha), alphabet := alpha, encode_table := Some (from_encode_table alpha)\<rparr>
      | Some bt \<Rightarrow>
          base\<lparr>alphabet_bits := alphabet_bits (builtin_table bt), alphabet := alphabet (builtin_table bt),
               encode_table := encode_table (builtin_table bt)\<rparr>)"

text \<open>The record that \<open>emit_builtin_alias_definition\<close> prints.\<close>

definition emitted_alias_constraints :: "alias_spec \<Rightarrow> constraints" where
  "emitted_alias_constraints sp =
     (if as_alphabet sp \<noteq> [] \<or> as_has_size sp \<or> as_named_bits sp then
        string_constraints_init
          ((if as_size_bounded sp then SIZE_CONSTRAINED else 0) OR (if as_extensible sp then EXTENSIBLE else 0) OR
           (if as_named_bits sp then NAMED_BITS else 0) OR (if as_size_invisible sp then PER_SIZE_INVISIBLE else 0) OR
           (if as_has_size sp \<and> \<not> as_size_bounded sp \<and> 0 <s si_lower (as_size sp) then SIZE_LOWER_BOUND else 0))
          (as_size sp) (as_alphabet sp) (if as_alphabet sp = [] then Some (as_builtin sp) else None)
      else no_constraints)"

definition string_constraints ::
  "(ast_value \<Rightarrow> i64 option) \<Rightarrow> bool \<Rightarrow> bool \<Rightarrow> builtin_type \<Rightarrow> ast_type \<Rightarrow> constraints" where
  "string_constraints int_of strict named_bits bt def = emitted_alias_constraints (alias_spec_of int_of strict named_bits bt def)"

lemmas string_constraints_defs =
  string_constraints_def emitted_alias_constraints_def alias_spec_of_def string_constraints_init_def

section \<open>The record is well-formed\<close>

lemma sint_succ:
  fixes w :: i64
  assumes "uint w + 1 < 2 ^ 63"
  shows "sint (w + 1) = uint w + 1"
proof -
  have "uint (w + 1) = uint w + 1" using assms by (simp add: uint_word_ariths)
  then show ?thesis using assms by (simp add: sint_uint signed_take_bit_int_eq_self)
qed

lemma compute_size_holds:
  assumes "0 \<le>s lo" "hi \<noteq> INT64_MAX"
  shows "si_range_bits (compute_size_constraint (Some (lo, hi)) e) \<le> 64"
    and "sint hi - sint lo < 2 ^ si_range_bits (compute_size_constraint (Some (lo, hi)) e)"
proof -
  let ?b = "si_range_bits (compute_size_constraint (Some (lo, hi)) e)"
  let ?w = "hi - lo"
  have bits: "?b = (if 1 <s ?w + 1 then bit_width (unat ?w) else 0)"
    using assms(2) by (simp add: compute_size_constraint_def Let_def)
  have "unat ?w < 2 ^ 64" using unsigned_less [of ?w] by simp
  then show "?b \<le> 64" by (simp add: bits bit_width_le)
  show "sint hi - sint lo < 2 ^ ?b"
  proof (cases "lo \<le>s hi")
    case False
    then have "sint hi - sint lo < 0" by (simp add: word_sle_eq)
    also have "(0 :: int) \<le> 2 ^ ?b" by simp
    finally show ?thesis .
  next
    case True
    have diff: "uint ?w = sint hi - sint lo" by (rule uint_diff_sint [OF True])
    have small: "uint ?w < 2 ^ 63 - 1"
    proof -
      have "sint hi \<noteq> 2 ^ 63 - 1"
      proof
        assume "sint hi = 2 ^ 63 - 1"
        moreover have "sint INT64_MAX = 2 ^ 63 - 1" by code_simp
        ultimately show False using assms(2) signed_word_eqI [of hi INT64_MAX] by simp
      qed
      then show ?thesis using diff sint_range(2) [of hi] assms(1) by (simp add: word_sle_eq)
    qed
    show ?thesis
    proof (cases "?w = 0")
      case True
      then show ?thesis using diff by simp
    next
      case False
      have pos: "0 < uint ?w" using False by (metis linorder_not_less uint_0_iff uint_ge_0 order_antisym)
      have "sint (?w + 1) = uint ?w + 1" by (rule sint_succ) (use small in simp)
      then have "1 <s ?w + 1" using pos by (simp add: word_sless_alt)
      then have "?b = bit_width (unat ?w)" by (simp add: bits)
      then show ?thesis using constrained_whole_number_bits_holds(1) [of ?w] diff by (simp add: constrained_whole_number_bits_def)
    qed
  qed
qed

lemma from_encode_table_entries:
  assumes "length alpha < 0xFFFF"
  shows "from_encode_table alpha ! unat c = 0xFFFF \<or>
    (\<exists>i < length alpha. from_encode_table alpha ! unat c = of_nat i \<and> alpha ! i = c)"
proof -
  let ?t = "\<lambda>n. foldl (\<lambda>t i. t[unat (alpha ! i) := of_nat i]) (replicate 256 0xFFFF) [0..<n] :: u16 list"
  have "length (?t n) = 256 \<and> (?t n ! unat c = 0xFFFF \<or> (\<exists>i < n. ?t n ! unat c = of_nat i \<and> alpha ! i = c))" for n
  proof (induction n)
    case 0
    have "unat c < 256" using unsigned_less [of c] by simp
    then show ?case by simp
  next
    case (Suc n)
    have c: "unat c < 256" using unsigned_less [of c] by simp
    show ?case
    proof (cases "alpha ! n = c")
      case True
      then show ?thesis using Suc c by auto
    next
      case False
      then have "unat (alpha ! n) \<noteq> unat c" using unsigned_word_eqI by blast
      then show ?thesis using Suc by (auto simp: nth_list_update) (metis less_SucI)
    qed
  qed
  from this [of "length alpha"] show ?thesis by (simp add: from_encode_table_def)
qed

text \<open>
  Whatever SIZE and FROM a string type has, the record is one PER can use: the field of
  the length holds the range, the two alphabet tables are inverse to each other, and an index
  fits its width.
\<close>

theorem string_constraints_wf:
  assumes "\<And>lo hi. extract_size_range int_of def = Some (lo, hi) \<Longrightarrow> 0 \<le>s lo"
    and "length (per_visible_alphabet def) < 0xFFFF"
  shows "size_wf (string_constraints int_of strict named_bits bt def) \<and>
         alphabet_wf (string_constraints int_of strict named_bits bt def)"
proof
  let ?pc = "string_constraints int_of strict named_bits bt def"
  let ?alpha = "per_visible_alphabet def"
  show "size_wf ?pc"
  proof (cases "extract_size_range int_of def")
    case None
    then have "\<not> has_flag ?pc SIZE_CONSTRAINED"
      by (simp add: string_constraints_defs Let_def has_flag_def no_constraints_def)
    then show ?thesis by (simp add: size_wf_def size_count_is_constrained_def)
  next
    case (Some p)
    obtain lo hi where p: "p = (lo, hi)" by fastforce
    have lo: "0 \<le>s lo" using assms(1) Some p by simp
    show ?thesis
    proof (cases "hi = INT64_MAX")
      case True
      then have "\<not> has_flag ?pc SIZE_CONSTRAINED"
        using Some p by (simp add: string_constraints_defs Let_def has_flag_def)
      then show ?thesis by (simp add: size_wf_def size_count_is_constrained_def)
    next
      case False
      let ?sc = "compute_size_constraint (Some (lo, hi)) False"
      have "size_lower ?pc = sint lo" "size_upper ?pc = sint hi" "size_range_bits ?pc = si_range_bits ?sc"
        using Some p False by (simp_all add: string_constraints_defs Let_def compute_size_constraint_def)
      then show ?thesis using compute_size_holds [OF lo False, of False] lo by (simp add: size_wf_def word_sle_eq)
    qed
  qed
  show "alphabet_wf ?pc"
  proof (cases "?alpha = []")
    case True
    then have "alphabet_bits ?pc = 0"
      by (simp add: string_constraints_defs Let_def no_constraints_def builtin_table_def with_alphabet_def)
    then show ?thesis by (simp add: alphabet_wf_def has_alpha_def)
  next
    case False
    then have pc: "alphabet ?pc = ?alpha" "encode_table ?pc = Some (from_encode_table ?alpha)"
      "alphabet_bits ?pc = alphabet_bits_for (length ?alpha)"
      by (simp_all add: string_constraints_defs Let_def)
    have "length ?alpha - 1 < 2 ^ bit_width (length ?alpha - 1)" by (rule bit_width_bound)
    moreover have "bit_width (length ?alpha - 1) \<le> 16" by (rule bit_width_le) (use assms(2) in simp)
    moreover have "length ?alpha \<noteq> 0" using False by simp
    ultimately have bits: "alphabet_bits ?pc \<le> 16" "length ?alpha \<le> 2 ^ alphabet_bits ?pc"
      by (auto simp: pc(3) alphabet_bits_for_def Let_def)
    have "unat (table_at ?pc c) < length ?alpha \<and> ?alpha ! unat (table_at ?pc c) = c" if at: "table_at ?pc c \<noteq> 0xFFFF" for c
    proof -
      have "table_at ?pc c = from_encode_table ?alpha ! unat c" by (simp add: table_at_def pc(2))
      then obtain i where i: "i < length ?alpha" "table_at ?pc c = of_nat i" "?alpha ! i = c"
        using from_encode_table_entries [OF assms(2), of c] at by metis
      then have "unat (table_at ?pc c) = i" using assms(2) by (simp add: unat_of_nat)
      then show ?thesis using i by simp
    qed
    then show ?thesis using bits False by (simp add: alphabet_wf_def pc)
  qed
qed

section \<open>Concrete string types\<close>

definition constrained_string :: "ast_constraint_body list \<Rightarrow> ast_type" where
  "constrained_string bodies =
     Type_Def ''T'' (Body_Builtin BT_Ia5String) [] [] no_tag Marker_None Val_Absent
       (map (\<lambda>b. Some (Constraint b False None)) bodies) False False [] None"

definition str_lit :: "string \<Rightarrow> range_endpoint" where
  "str_lit s = \<lparr>re_kind = EK_Value, re_value = Val_String s, re_open = False\<rparr>"

definition size_of_range :: "int \<Rightarrow> int \<Rightarrow> ast_constraint_body" where
  "size_of_range lo hi = CB_Size (Some (Constraint (CB_Range (lit lo) (lit hi)) False None))"

definition from_chars :: "string \<Rightarrow> string \<Rightarrow> ast_constraint_body" where
  "from_chars lo hi = CB_From (Some (Constraint (CB_Range (str_lit lo) (str_lit hi)) False None))"

lemma constrained_string_bodies:
  "type_bodies (constrained_string [size_of_range 1 8, from_chars ''a'' ''d'']) = [size_of_range 1 8, from_chars ''a'' ''d'']"
  by (simp add: constrained_string_def type_bodies_def constraint_bodies.simps size_of_range_def from_chars_def)

theorem string_constraints_wf_witness:
  "size_wf (string_constraints literal_value True False BT_Ia5String (constrained_string [size_of_range 1 8, from_chars ''a'' ''d''])) \<and>
   alphabet_wf (string_constraints literal_value True False BT_Ia5String (constrained_string [size_of_range 1 8, from_chars ''a'' ''d'']))"
proof (rule string_constraints_wf)
  let ?T = "constrained_string [size_of_range 1 8, from_chars ''a'' ''d'']"
  have "extract_size_range literal_value ?T = Some (1, 8)" by code_simp
  then show "\<And>lo hi. extract_size_range literal_value ?T = Some (lo, hi) \<Longrightarrow> 0 \<le>s lo" by (auto simp: word_sle_eq)
  have "per_visible_alphabet ?T = map byte_of ''abcd''" by code_simp
  then show "length (per_visible_alphabet ?T) < 0xFFFF" by simp
qed

text \<open>
  Of serial SIZE constraints the first one counts, although each narrows the one before:
  \<open>(SIZE (1..10))(SIZE (2..5))\<close> is printed as 1..10.
\<close>

theorem first_size_wins:
  "extract_size_range literal_value (constrained_string [size_of_range 1 10, size_of_range 2 5]) = Some (1, 10)"
  by code_simp

text \<open>
  Serial permitted alphabets are put together instead of intersected, and what they share is
  there twice: \<open>(FROM ("a".."b"))(FROM ("b".."c"))\<close>, whose only character is \<open>b\<close>, takes two bits
  for each.
\<close>

theorem serial_alphabets_joined:
  "per_visible_alphabet (constrained_string [from_chars ''a'' ''b'', from_chars ''b'' ''c'']) = map byte_of ''abbc'' \<and>
   alphabet_bits_for (length (per_visible_alphabet (constrained_string [from_chars ''a'' ''b'', from_chars ''b'' ''c'']))) = 2"
  by code_simp

text \<open>An alphabet of one character is given a bit, where X.691 30.5.2 gives it none.\<close>

theorem single_character_takes_a_bit: "alphabet_bits_for (length [c]) = 1"
  by (simp add: alphabet_bits_for_def bit_width.simps)

end
