(* ===== verification/Name_Casing.thy ===== *)
theory Name_Casing
  imports Text_Codecs
begin

text \<open>
  The case conversions of generated identifiers (\<open>compiler/src/codegen/Casing.hpp\<close>), with
  \<open>toupper\<close>, \<open>tolower\<close> and the character classes of the C locale.
\<close>

definition is_upper :: "char \<Rightarrow> bool" where
  "is_upper c \<longleftrightarrow> between CHR ''A'' c CHR ''Z''"

definition is_lower :: "char \<Rightarrow> bool" where
  "is_lower c \<longleftrightarrow> between CHR ''a'' c CHR ''z''"

definition to_upper :: "char \<Rightarrow> char" where
  "to_upper c = (if is_lower c then char_of (code_of c - 32) else c)"

definition to_lower :: "char \<Rightarrow> char" where
  "to_lower c = (if is_upper c then char_of (code_of c + 32) else c)"

section \<open>The conversions\<close>

definition to_cpp_name :: "string \<Rightarrow> string" where
  "to_cpp_name s = map (\<lambda>c. if c = CHR ''-'' then CHR ''_'' else c) s"

fun capitalize_first :: "string \<Rightarrow> string" where
  "capitalize_first [] = []"
| "capitalize_first (c # cs) = to_upper c # cs"

definition is_word_break :: "char \<Rightarrow> bool" where
  "is_word_break c \<longleftrightarrow> c = CHR ''-'' \<or> c = CHR ''_''"

definition flush_word :: "string list \<Rightarrow> string \<Rightarrow> string list" where
  "flush_word words cur = (if cur = [] then words else words @ [cur])"

fun split_loop :: "string list \<Rightarrow> string \<Rightarrow> string \<Rightarrow> string list" where
  "split_loop words cur [] = flush_word words cur"
| "split_loop words cur (c # cs) =
     (if is_word_break c then split_loop (flush_word words cur) [] cs
      else if is_upper c \<and> cur \<noteq> [] \<and> (\<not> is_upper (last cur) \<or> (cs \<noteq> [] \<and> is_lower (hd cs)))
      then split_loop (flush_word words cur) [c] cs
      else split_loop words (cur @ [c]) cs)"

definition split_words :: "string \<Rightarrow> string list" where
  "split_words s = split_loop [] [] s"

definition to_snake_case :: "string \<Rightarrow> string" where
  "to_snake_case s =
     foldl (\<lambda>out w. (if out = [] then [] else out @ ''_'') @ map to_lower w) [] (split_words s)"

definition to_screaming_snake_case :: "string \<Rightarrow> string" where
  "to_screaming_snake_case s = map to_upper (to_snake_case s)"

fun camel_loop :: "string \<Rightarrow> bool \<Rightarrow> string \<Rightarrow> string" where
  "camel_loop out new_word [] = out"
| "camel_loop out new_word (c # cs) =
     (if c = CHR ''-'' then camel_loop out True cs
      else if new_word then
        camel_loop (out @ (if out \<noteq> [] \<and> is_digit c then ''_'' else []) @ [to_upper c]) False cs
      else camel_loop (out @ [c]) False cs)"

definition to_upper_camel_case :: "string \<Rightarrow> string" where
  "to_upper_camel_case s = camel_loop [] True s"

section \<open>Distinct names stay distinct\<close>

text \<open>
  ASN.1 identifiers have no underscore (X.680 12.2, 12.3), so the replacement of hyphens does
  not identify two of them.
\<close>

lemma to_cpp_name_distinct:
  assumes "CHR ''_'' \<notin> set s" "CHR ''_'' \<notin> set t" "to_cpp_name s = to_cpp_name t"
  shows "s = t"
  using assms
proof (induction s arbitrary: t)
  case (Cons c s)
  then obtain d ds where t: "t = d # ds" by (cases t) (auto simp: to_cpp_name_def)
  then have "c = d" using Cons.prems by (auto simp: to_cpp_name_def split: if_splits)
  moreover have "s = ds" using Cons.IH [of ds] Cons.prems t by (simp add: to_cpp_name_def)
  ultimately show ?case using t by simp
qed (simp add: to_cpp_name_def)

section \<open>Snake case\<close>

definition plain_word :: "string \<Rightarrow> bool" where
  "plain_word w \<longleftrightarrow> w \<noteq> [] \<and> list_all (\<lambda>c. \<not> is_word_break c \<and> \<not> is_upper c) w"

lemma to_lower_not_upper: "\<not> is_upper (to_lower c)"
  by (cases "is_upper c") (simp_all add: to_lower_def is_upper_def between_def code_of_def)

lemma to_lower_to_lower: "to_lower (to_lower c) = to_lower c"
  using to_lower_not_upper [of c] by (simp add: to_lower_def [of "to_lower c"])

lemma to_lower_no_break: "\<not> is_word_break c \<Longrightarrow> \<not> is_word_break (to_lower c)"
proof (cases "is_upper c")
  case True
  then have "code_of (to_lower c) = code_of c + 32" "65 \<le> code_of c" "code_of c \<le> 90"
    by (simp_all add: to_lower_def is_upper_def between_def code_of_def)
  then have "code_of (to_lower c) \<noteq> code_of (CHR ''-'')" "code_of (to_lower c) \<noteq> code_of (CHR ''_'')"
    by (simp_all add: code_of_def)
  then show ?thesis by (auto simp: is_word_break_def)
qed (simp add: to_lower_def)

lemma split_loop_words:
  "list_all (\<lambda>w. w \<noteq> [] \<and> list_all (\<lambda>c. \<not> is_word_break c) w) words \<Longrightarrow> list_all (\<lambda>c. \<not> is_word_break c) cur \<Longrightarrow>
   list_all (\<lambda>w. w \<noteq> [] \<and> list_all (\<lambda>c. \<not> is_word_break c) w) (split_loop words cur s)"
  by (induction words cur s rule: split_loop.induct) (simp_all add: flush_word_def)

definition join_words :: "string list \<Rightarrow> string" where
  "join_words ws = foldl (\<lambda>out w. (if out = [] then [] else out @ ''_'') @ w) [] ws"

lemma join_words_snoc: "join_words (ws @ [w]) = (if join_words ws = [] then [] else join_words ws @ ''_'') @ w"
  by (simp add: join_words_def)

lemma join_words_Nil: "list_all plain_word ws \<Longrightarrow> join_words ws = [] \<longleftrightarrow> ws = []"
  by (induction ws rule: rev_induct) (auto simp: join_words_snoc plain_word_def join_words_def)

text \<open>Splitting at the underscores that joining put in.\<close>

lemma split_loop_plain:
  "list_all (\<lambda>c. \<not> is_word_break c \<and> \<not> is_upper c) w \<Longrightarrow> split_loop words cur (w @ s) = split_loop words (cur @ w) s"
  by (induction w arbitrary: cur) simp_all

lemma split_loop_join:
  assumes "list_all plain_word ws"
  shows "ws \<noteq> [] \<Longrightarrow> split_loop [] [] (join_words ws @ s) = split_loop (butlast ws) (last ws) s"
  using assms
proof (induction ws arbitrary: s rule: rev_induct)
  case (snoc w ws)
  have w: "w \<noteq> []" "list_all (\<lambda>c. \<not> is_word_break c \<and> \<not> is_upper c) w" using snoc.prems by (simp_all add: plain_word_def)
  show ?case
  proof (cases "ws = []")
    case True
    then show ?thesis using split_loop_plain [OF w(2), of "[]" "[]" s] by (simp add: join_words_def)
  next
    case False
    have ws: "list_all plain_word ws" using snoc.prems by simp
    have "plain_word (last ws)" using ws False by (simp add: list_all_iff)
    then have "flush_word (butlast ws) (last ws) = ws" using False by (simp add: flush_word_def plain_word_def)
    moreover have "is_word_break (CHR ''_'')" by (simp add: is_word_break_def)
    ultimately have "split_loop (butlast ws) (last ws) (CHR ''_'' # w @ s) = split_loop ws [] (w @ s)" by simp
    then show ?thesis
      using snoc.IH [OF False ws, of "CHR ''_'' # w @ s"] split_loop_plain [OF w(2), of ws "[]" s] False ws
      by (simp add: join_words_snoc join_words_Nil)
  qed
qed simp

lemma to_snake_case_join: "to_snake_case s = join_words (map (map to_lower) (split_words s))"
  by (simp add: to_snake_case_def join_words_def foldl_map)

text \<open>A name that is in snake case stays as it is.\<close>

theorem to_snake_case_idempotent: "to_snake_case (to_snake_case s) = to_snake_case s"
proof -
  let ?ws = "map (map to_lower) (split_words s)"
  have "list_all (\<lambda>w. w \<noteq> [] \<and> list_all (\<lambda>c. \<not> is_word_break c) w) (split_words s)"
    unfolding split_words_def by (rule split_loop_words) simp_all
  then have plain: "list_all plain_word ?ws"
    by (auto simp: list_all_iff plain_word_def to_lower_not_upper to_lower_no_break)
  have "split_words (join_words ?ws) = ?ws"
  proof (cases "?ws = []")
    case True
    then show ?thesis by (simp only: True) (simp add: join_words_def split_words_def flush_word_def)
  next
    case False
    then have "last ?ws \<in> set ?ws" by (rule last_in_set)
    then have "last ?ws \<noteq> []" using plain unfolding list_all_iff plain_word_def by blast
    then show ?thesis
      using split_loop_join [OF plain False, of "[]"] append_butlast_last_id [OF False]
      by (simp add: split_words_def flush_word_def)
  qed
  moreover have "map (map to_lower) ?ws = ?ws"
    by (simp add: to_lower_to_lower comp_def)
  ultimately show ?thesis by (simp only: to_snake_case_join)
qed

section \<open>Where names meet\<close>

text \<open>
  Dropping the hyphen makes siblings equal: \<open>foo-bar\<close> and \<open>fooBar\<close> are two identifiers of
  ASN.1 and one in upper camel case, and in snake case too.
\<close>

theorem case_conversions_collide:
  "to_upper_camel_case ''foo-bar'' = to_upper_camel_case ''fooBar'' \<and>
   to_snake_case ''foo-bar'' = to_snake_case ''fooBar''"
  by code_simp

text \<open>The documented examples.\<close>

lemma casing_examples:
  "to_snake_case ''HTTPServer'' = ''http_server''"
  "to_snake_case ''myMember'' = ''my_member''"
  "to_upper_camel_case ''eight-bit-binary'' = ''EightBitBinary''"
  "to_upper_camel_case ''sfnsfndrift-1'' = ''Sfnsfndrift_1''"
  "to_cpp_name ''My-Type'' = ''My_Type''"
  by code_simp+

end
