(* ===== verification/Compiler_Results.thy ===== *)
theory Compiler_Results
  imports String_Tables Name_Casing
begin

text \<open>
  From a schema to the bits: the tables the compiler prints for INTEGER, ENUMERATED and the
  string types, composed with the contracts of the PER handlers that read them.
\<close>

unbundle bit_operations_syntax

section \<open>INTEGER\<close>

subsection \<open>The values that the schema admits\<close>

text \<open>
  What a value denotes, in the module \<open>m\<close>: a literal its number, a reference what the value
  assignment it names denotes, within \<open>n\<close> assignments and each of them read in the module
  that owns it.
\<close>

inductive chain_denotes :: "resolver \<Rightarrow> string list \<Rightarrow> nat \<Rightarrow> ast_type \<Rightarrow> string \<Rightarrow> int \<Rightarrow> bool" for r order where
  denotes_int: "at_default d = Val_Int i \<Longrightarrow> chain_denotes r order (Suc n) d m (sint i)"
| denotes_uint: "at_default d = Val_UInt u \<Longrightarrow> chain_denotes r order (Suc n) d m (uint u)"
| denotes_ref: "at_default d = Val_Ref ref_m name \<Longrightarrow> lookup_value_ref r ref_m name m = Some d' \<Longrightarrow>
    chain_denotes r order n d' (if ref_m = [] then module_of r order name m else ref_m) x \<Longrightarrow>
    chain_denotes r order (Suc n) d m x"

definition denotes :: "resolver \<Rightarrow> string list \<Rightarrow> string \<Rightarrow> ast_value \<Rightarrow> int \<Rightarrow> bool" where
  "denotes r order m v x \<longleftrightarrow>
     (case v of
        Val_Int i \<Rightarrow> x = sint i
      | Val_UInt u \<Rightarrow> x = uint u
      | Val_Ref ref_m name \<Rightarrow> (\<exists>d. lookup_value_ref r ref_m name m = Some d \<and>
          chain_denotes r order 32 d (module_of r order name m) x)
      | _ \<Rightarrow> False)"

text \<open>The numbers of a range (X.680 51.4): ends may be left open, be MIN or MAX, be references.\<close>

definition admits :: "resolver \<Rightarrow> string list \<Rightarrow> string \<Rightarrow> range_endpoint \<Rightarrow> range_endpoint \<Rightarrow> int \<Rightarrow> bool" where
  "admits r order m lo hi x \<longleftrightarrow>
     (re_kind lo = EK_Min \<or> (\<exists>i. denotes r order m (re_value lo) i \<and> (if re_open lo then i < x else i \<le> x))) \<and>
     (re_kind hi = EK_Max \<or> (\<exists>i. denotes r order m (re_value hi) i \<and> (if re_open hi then x < i else x \<le> i)))"
















subsection \<open>A bound that is lost\<close>

definition closed_end :: "ast_value \<Rightarrow> range_endpoint" where
  "closed_end v = \<lparr>re_kind = EK_Value, re_value = v, re_open = False\<rparr>"

text \<open>
  C40: a bound above \<open>2 ^ 63 - 1\<close> is compared as the negative number of its 64 bits, so in an
  intersection it wins over every smaller one. A type \<open>(a..h)(b..u)\<close> with such an \<open>u\<close> admits the
  numbers from the larger of \<open>a\<close> and \<open>b\<close> to \<open>h\<close>; the record printed for it goes up to \<open>u\<close>:
  it permits all of those, and its width on the wire is that of the larger range.
\<close>

theorem large_bound_wins_intersection:
  assumes "type_bodies def = [CB_Range (closed_end (Val_Int a)) (closed_end (Val_Int h)),
      CB_Range (closed_end (Val_Int b)) (closed_end (Val_UInt u))]"
    and "0 \<le>s a" "a \<le>s h" "2 ^ 63 \<le> uint u" "\<not> is_constraint_extensible def"
  shows "let c = integer_constraints (resolve_int_value r order m) default_kind def; low = max (sint a) (sint b) in
    (\<forall>x. (\<forall>lo hi. CB_Range lo hi \<in> set (type_bodies def) \<longrightarrow> admits r order m lo hi x) \<longleftrightarrow> low \<le> x \<and> x \<le> sint h) \<and>
    c_int_kind c = INT_U64 \<and> (\<forall>w. uint_permitted c w \<longleftrightarrow> low \<le> uint w \<and> uint w \<le> uint u) \<and>
    range_bits c = bit_width (nat (uint u - low))"
proof -
  let ?low = "max (sint a) (sint b)" and ?l = "if a <s b then b else a"
  let ?c = "integer_constraints (resolve_int_value r order m) default_kind def"
  have h: "sint h < uint u" using assms(4) sint_range(2) [of h] by linarith
  have admit: "(\<forall>lo hi. CB_Range lo hi \<in> set (type_bodies def) \<longrightarrow> admits r order m lo hi x) \<longleftrightarrow> ?low \<le> x \<and> x \<le> sint h" for x
    using h by (auto simp: assms(1) admits_def closed_end_def denotes_def)
  have low: "sint ?l = ?low" "0 \<le>s ?l" using assms(2) by (auto simp: word_sless_alt word_sle_eq)
  have "sint u < 0"
  proof (rule ccontr)
    assume "\<not> sint u < 0"
    then have "uint u = sint u" by (intro nonneg_sint) (simp add: word_sle_eq)
    then show False using assms(4) sint_range(2) [of u] by linarith
  qed
  then have neg: "u <s h" using assms(2,3) by (simp add: word_sless_alt word_sle_eq)
  have rng: "extract_integer_range (resolve_int_value r order m) def =
      Some \<lparr>ir_lo = ?l, ir_hi = u, ir_truly_max = False, ir_hi_u64 = u, ir_hi_large = True\<rparr>"
    using neg by (auto simp: extract_integer_range_def assms(1) range_step_def range_start_def closed_end_def
        lower_bound_of_def upper_bound_of_def raise_lower_def cut_upper_def resolve_int_value_def Let_def)
  have c: "?c = no_constraints\<lparr>c_int_kind := INT_U64, lower_bound := ?l, lower_u64 := ?l, c_flags := CONSTRAINED,
      range_bits := constrained_whole_number_bits (u - ?l), upper_bound := u, upper_u64 := u\<rparr>"
    using assms(5) low(2) by (simp add: integer_constraints_def rng emitted_integer_constraints_def classify_integer_storage_def Let_def)
  have l: "uint ?l = ?low" using nonneg_sint [OF low(2)] low(1) by simp
  have "?low < 2 ^ 63" using sint_range(2) [of a] sint_range(2) [of b] by simp
  then have "uint ?l \<le> uint u" unfolding l using assms(4) by linarith
  then have "uint (u - ?l) = uint u - ?low" unfolding l [symmetric] by (simp add: uint_minus_simple_alt [THEN iffD1] word_le_def)
  then have bits: "range_bits ?c = bit_width (nat (uint u - ?low))" by (simp add: c constrained_whole_number_bits_def unat_eq_nat_uint)
  have "uint_permitted ?c w \<longleftrightarrow> ?low \<le> uint w \<and> uint w \<le> uint u" for w
    unfolding c l [symmetric] by (simp add: uint_permitted_def has_flag_def word_le_def)
  then show ?thesis unfolding Let_def using admit bits by (simp add: c)
qed

lemma large_bound_wins_intersection_witness:
  "range_bits (integer_constraints literal_value INT_S64
     (constrained_int [CB_Range (closed_end (Val_Int 0)) (closed_end (Val_Int 10)),
        CB_Range (closed_end (Val_Int 3)) (closed_end (Val_UInt (- 1)))])) = bit_width (nat (uint (- 1 :: u64) - 3))"
proof -
  let ?T = "constrained_int [CB_Range (closed_end (Val_Int 0)) (closed_end (Val_Int 10)),
        CB_Range (closed_end (Val_Int 3)) (closed_end (Val_UInt (- 1)))]"
  have t: "type_bodies ?T = [CB_Range (closed_end (Val_Int 0)) (closed_end (Val_Int 10)),
        CB_Range (closed_end (Val_Int 3)) (closed_end (Val_UInt (- 1)))]" "\<not> is_constraint_extensible ?T"
    by (simp_all add: constrained_int_def type_bodies_def constraint_bodies.simps is_constraint_extensible_def
        constraint_tree_extensible.simps)
  have "(0 :: i64) \<le>s 0" "(0 :: i64) \<le>s 10" "(2 :: int) ^ 63 \<le> uint (- 1 :: u64)" "max (sint (0 :: i64)) (sint (3 :: i64)) = 3"
    by code_simp+
  then show ?thesis
    using large_bound_wins_intersection [OF t(1) _ _ _ t(2), of new_resolver "[]" "''M''" INT_S64] by (simp add: Let_def)
qed

section \<open>Strings\<close>

text \<open>
  C11: every string that the printed record permits comes back through PER.
\<close>

theorem generated_string_roundtrip:
  assumes "\<And>lo hi. extract_size_range int_of def = Some (lo, hi) \<Longrightarrow> 0 \<le>s lo"
    and "length (per_visible_alphabet def) < 0xFFFF"
    and "string_permitted tag (string_constraints int_of strict named_bits bt def) str"
  shows "\<exists>bs. appends (per_string_encode tag (string_constraints int_of strict named_bits bt def) str) bs \<and>
              reads k (per_string_decode tag (string_constraints int_of strict named_bits bt def)) bs str"
proof (rule string_contract [OF _ _ assms(3)])
  note wf = string_constraints_wf [of int_of def strict named_bits bt, OF assms(1,2)]
  show "alphabet_wf (string_constraints int_of strict named_bits bt def)" by (rule conjunct2 [OF wf])
  show "size_wf (string_constraints int_of strict named_bits bt def)" by (rule conjunct1 [OF wf])
qed

theorem generated_string_roundtrip_witness:
  "\<exists>bs. appends (per_string_encode UT_Ia5String
          (string_constraints literal_value True False BT_Ia5String (constrained_string [size_of_range 1 8, from_chars ''a'' ''d'']))
          (map byte_of ''dad'')) bs \<and>
        reads 0 (per_string_decode UT_Ia5String
          (string_constraints literal_value True False BT_Ia5String (constrained_string [size_of_range 1 8, from_chars ''a'' ''d''])))
          bs (map byte_of ''dad'')"
proof (rule generated_string_roundtrip)
  let ?T = "constrained_string [size_of_range 1 8, from_chars ''a'' ''d'']"
  have "extract_size_range literal_value ?T = Some (1, 8)" by code_simp
  then show "\<And>lo hi. extract_size_range literal_value ?T = Some (lo, hi) \<Longrightarrow> 0 \<le>s lo" by (auto simp: word_sle_eq)
  have "per_visible_alphabet ?T = map byte_of ''abcd''" by code_simp
  then show "length (per_visible_alphabet ?T) < 0xFFFF" by simp
  show "string_permitted UT_Ia5String (string_constraints literal_value True False BT_Ia5String ?T) (map byte_of ''dad'')"
    by code_simp
qed

section \<open>ENUMERATED\<close>

text \<open>
  C10: in a schema without diagnostics, every item of an ENUMERATED whose root ends with its
  largest value comes back through PER with the table the compiler prints.
\<close>

theorem generated_enum_roundtrip:
  assumes "errors_of (resolve_types ms r) = []" "mdl \<in> set ms" "def \<in> set (mod_assignments mdl)" "part_of False def p d"
    and "at_body d = Body_Builtin BT_Enumerated" "root_ends_highest (at_enum_values d)" "length (at_enum_values d) < 2 ^ 31"
    and "e \<in> set (generator_values 0 (at_enum_values d))"
  shows "\<exists>bs. appends (per_enum_encode (emitted_enum_spec (at_enum_values d)) (ee_value e)) bs \<and>
              reads k (per_enum_decode (emitted_enum_spec (at_enum_values d))) bs (ee_value e)"
proof -
  have "enum_wf (emitted_enum_spec (at_enum_values d))" by (rule accepted_schema_enums [OF assms(1-7)])
  moreover have "e \<in> set (es_entries (emitted_enum_spec (at_enum_values d)))"
    using assms(8) by (simp add: emitted_enum_spec_def Let_def)
  ultimately show ?thesis using enum_contract by (metis in_set_conv_nth)
qed

theorem generated_enum_roundtrip_witness:
  "\<exists>bs. appends (per_enum_encode (emitted_enum_spec ascending_root) 5) bs \<and>
        reads 0 (per_enum_decode (emitted_enum_spec ascending_root)) bs 5"
proof -
  let ?e = "Type_Def ''e'' (Body_Builtin BT_Enumerated) [] ascending_root no_tag Marker_None Val_Absent [] False False [] None"
  let ?S = "composite ''S'' Body_Sequence [?e]"
  have "part_of False ?S (False \<or> at_is_parameterized ?S) ?e"
    by (rule part_of.member [OF part_of.whole]) (simp add: composite_def)
  then have part: "part_of False ?S False ?e" by (simp add: composite_def)
  have "\<lparr>ee_value = 5, ee_name = ''c''\<rparr> \<in> set (generator_values 0 ascending_root)" by code_simp
  then show ?thesis
    using generated_enum_roundtrip [OF enum_sample_accepted _ _ part, of "module_with ''A'' [] [?S]" "\<lparr>ee_value = 5, ee_name = ''c''\<rparr>" 0]
    by (simp add: enum_sample_def module_with_def ascending_root_accepted)
qed

end
